(* ===== verification/Prelude.thy ===== *)
theory Prelude
  imports Main "HOL-Library.Word" "HOL-Library.Char_ord" "HOL-Library.List_Lexorder"
begin

text \<open>
  Shared vocabulary of the development: the machine types of the C++ sources
  (\<open>uint8_t\<close>, \<open>uint32_t\<close>, \<open>int64_t\<close>, the bit pattern of a \<open>double\<close>), the result type
  \<open>core::Result\<close>, the little-endian memory image of an integer (what \<open>memcpy\<close> and
  \<open>reinterpret_cast\<close> read and write on the supported targets), and \<open>std::map\<close> as a
  sorted association list. The lemma collections \<open>le_simps\<close> and \<open>smap_simps\<close> carry the
  byte-level and the map-level rewriting of the component theories.
\<close>

unbundle bit_operations_syntax

named_theorems le_simps \<open>little-endian images of machine words\<close>
named_theorems smap_simps \<open>ordered maps as sorted association lists\<close>

section \<open>Machine types\<close>

text \<open>
  A signed \<open>int64_t\<close> and an unsigned \<open>uint64_t\<close> are both \<^typ>\<open>64 word\<close>; a signed reading is
  written \<open>sint\<close>, so comparisons of signed values are comparisons of \<open>sint\<close>. A \<open>double\<close>
  is its 64-bit pattern, since the storage code only moves, compares bitwise and XORs it.
\<close>

type_synonym byte = "8 word"
type_synonym uint32 = "32 word"
type_synonym int64 = "64 word"
type_synonym uint64 = "64 word"
type_synonym double = "64 word"

text \<open>\<open>core::Result<T>\<close>: an error message or a value.\<close>

type_synonym 'a result = "string + 'a"

section \<open>Little-endian images\<close>

fun le_bytes :: "nat \<Rightarrow> 'a::len word \<Rightarrow> byte list" where
  "le_bytes 0 w = []"
| "le_bytes (Suc n) w = ucast w # le_bytes n (drop_bit 8 w)"

fun le_word :: "byte list \<Rightarrow> 'a::len word" where
  "le_word [] = 0"
| "le_word (b # bs) = ucast b OR push_bit 8 (le_word bs)"

lemma length_le_bytes [simp, le_simps]: "length (le_bytes n w) = n"
  by (induction n arbitrary: w) auto

lemma le_bytes_eq_Nil_iff [simp]: "le_bytes n w = [] \<longleftrightarrow> n = 0"
  by (cases n) auto

lemma le_word_le_bytes_take_bit:
  fixes w :: "'a::len word"
  shows "le_word (le_bytes n w) = take_bit (8 * n) w"
proof (induction n arbitrary: w)
  case 0
  then show ?case by simp
next
  case (Suc n)
  show ?case
  proof (rule bit_eqI)
    fix i
    assume "possible_bit TYPE('a word) i"
    then have i: "i < LENGTH('a)" by simp
    have "bit (le_word (le_bytes (Suc n) w) :: 'a word) i \<longleftrightarrow>
      bit (ucast (ucast w :: byte) OR push_bit 8 (take_bit (8 * n) (drop_bit 8 w)) :: 'a word) i"
      by (simp add: Suc.IH)
    also have "\<dots> \<longleftrightarrow> bit (take_bit (8 * Suc n) w) i"
      using i by (auto simp: bit_simps)
    finally show "bit (le_word (le_bytes (Suc n) w) :: 'a word) i \<longleftrightarrow>
      bit (take_bit (8 * Suc n) w) i" .
  qed
qed

lemma le_word_le_bytes:
  fixes w :: "'a::len word"
  assumes "LENGTH('a) \<le> 8 * n"
  shows "le_word (le_bytes n w) = w"
  using assms by (simp add: le_word_le_bytes_take_bit take_bit_word_eq_self)

lemma le_word_le_bytes_32 [simp, le_simps]: "le_word (le_bytes 4 (w :: uint32)) = w"
  by (rule le_word_le_bytes) simp

lemma le_word_le_bytes_64 [simp, le_simps]: "le_word (le_bytes 8 (w :: uint64)) = w"
  by (rule le_word_le_bytes) simp

text \<open>Every byte string of the right length is the image of the word it denotes.\<close>

lemma le_bytes_le_word:
  assumes "8 * length bs \<le> LENGTH('a::len)"
  shows "le_bytes (length bs) (le_word bs :: 'a word) = bs"
  using assms
proof (induction bs)
  case Nil
  then show ?case by simp
next
  case (Cons b bs)
  have IH: "le_bytes (length bs) (le_word bs :: 'a word) = bs"
    using Cons by simp
  have len: "8 \<le> LENGTH('a)" using Cons.prems by simp
  have hd: "ucast (ucast b OR push_bit 8 (le_word bs) :: 'a word) = b"
    by (rule bit_eqI) (use len in \<open>auto simp: bit_simps\<close>)
  have top: "\<not> bit (le_word bs :: 'a word) i" if "8 * length bs \<le> i" for i
    using that
  proof (induction bs arbitrary: i)
    case Nil
    then show ?case by simp
  next
    case (Cons c cs)
    then have "\<not> bit c i" by (auto dest: bit_imp_le_length)
    moreover have "\<not> bit (le_word cs :: 'a word) (i - 8)"
      using Cons.prems by (intro Cons.IH) simp
    ultimately show ?case by (auto simp: bit_simps)
  qed
  have tl: "drop_bit 8 (ucast b OR push_bit 8 (le_word bs) :: 'a word) = le_word bs"
  proof (rule bit_eqI)
    fix i
    have "\<not> bit b (8 + i)" by (auto dest: bit_imp_le_length)
    moreover have "\<not> bit (le_word bs :: 'a word) i" if "\<not> 8 + i < LENGTH('a)"
      using that Cons.prems by (intro top) simp
    ultimately show "bit (drop_bit 8 (ucast b OR push_bit 8 (le_word bs) :: 'a word)) i \<longleftrightarrow>
        bit (le_word bs :: 'a word) i"
      by (auto simp: bit_simps)
  qed
  show ?case by (simp only: le_word.simps le_bytes.simps list.size hd tl IH add_Suc_right add_0_right)
qed

lemma le_bytes_le_word_64 [le_simps]:
  "length bs = 8 \<Longrightarrow> le_bytes 8 (le_word bs :: uint64) = bs"
  using le_bytes_le_word [of bs, where 'a = 64] by simp

text \<open>Values of machine words as integers and naturals.\<close>

lemma sint_inject: "sint x = sint y \<longleftrightarrow> x = y"
  by (auto intro: signed_word_eqI)

lemma unat_of_nat_32 [simp]: "n < 4294967296 \<Longrightarrow> unat (of_nat n :: uint32) = n"
  by (simp add: unat_of_nat)

lemma unat_1_plus_of_nat_32 [simp]: "n < 4294967295 \<Longrightarrow> unat (1 + of_nat n :: uint32) = Suc n"
  using unat_of_nat_32 [of "Suc n"] by simp

lemma unat_of_nat_64: "n < 2 ^ 64 \<Longrightarrow> unat (of_nat n :: uint64) = n"
  by (simp add: unat_of_nat)

section \<open>Strings as bytes\<close>

definition string_bytes :: "string \<Rightarrow> byte list" where
  "string_bytes s = map (\<lambda>c. of_nat (of_char c)) s"

definition bytes_string :: "byte list \<Rightarrow> string" where
  "bytes_string bs = map (\<lambda>b. char_of (unat b)) bs"

lemma bytes_string_string_bytes [simp]: "bytes_string (string_bytes s) = s"
proof -
  have "char_of (unat (of_nat (of_char c) :: byte)) = c" for c
    by (simp add: unat_of_nat)
  then show ?thesis by (simp add: bytes_string_def string_bytes_def comp_def)
qed

lemma length_string_bytes [simp]: "length (string_bytes s) = length s"
  by (simp add: string_bytes_def)

lemma length_bytes_string [simp]: "length (bytes_string bs) = length bs"
  by (simp add: bytes_string_def)

text \<open>Decimal text of an integer, as \<open>std::to_string\<close> and stream output write it.\<close>

fun decimal :: "nat \<Rightarrow> string" where
  "decimal n =
     (if n < 10 then [char_of (48 + n)] else decimal (n div 10) @ [char_of (48 + n mod 10)])"

declare decimal.simps [simp del]

definition int_string :: "int \<Rightarrow> string" where
  "int_string i = (if i < 0 then ''-'' else []) @ decimal (nat \<bar>i\<bar>)"

section \<open>Lists\<close>

text \<open>Cutting a list at the first occurrence of an element.\<close>

lemma cut_at_first [simp]:
  assumes "c \<notin> set s"
  shows "takeWhile (\<lambda>x. x \<noteq> c) (s @ c # r) = s" "dropWhile (\<lambda>x. x \<noteq> c) (s @ c # r) = c # r"
    and "takeWhile (\<lambda>x. x \<noteq> c) s = s" "dropWhile (\<lambda>x. x \<noteq> c) s = []"
  using assms by (induction s) auto

lemma foldl_snoc [simp]: "foldl (\<lambda>acc x. acc @ [x]) acc xs = acc @ xs"
  by (induction xs arbitrary: acc) auto

section \<open>Ordered maps\<close>

text \<open>
  \<open>std::map<K, V>\<close> as the list of its entries in iteration order. \<open>smap_insert\<close> is
  \<open>m[k] = v\<close>, \<open>smap_erase\<close> is \<open>m.erase(k)\<close>, \<open>map_of\<close> is \<open>m.find(k)\<close>. Strings are
  compared bytewise and lexicographically, as \<open>std::string\<close> does.
\<close>

fun smap_insert :: "'k::linorder \<Rightarrow> 'v \<Rightarrow> ('k \<times> 'v) list \<Rightarrow> ('k \<times> 'v) list" where
  "smap_insert k v [] = [(k, v)]"
| "smap_insert k v ((a, b) # m) =
     (if k < a then (k, v) # (a, b) # m
      else if k = a then (k, v) # m
      else (a, b) # smap_insert k v m)"

definition smap_erase :: "'k \<Rightarrow> ('k \<times> 'v) list \<Rightarrow> ('k \<times> 'v) list" where
  "smap_erase k m = filter (\<lambda>e. fst e \<noteq> k) m"

definition smap_ok :: "('k::linorder \<times> 'v) list \<Rightarrow> bool" where
  "smap_ok m \<longleftrightarrow> sorted_wrt (<) (map fst m)"

lemma smap_ok_Nil [simp]: "smap_ok []"
  by (simp add: smap_ok_def)

lemma smap_ok_Cons:
  "smap_ok ((a, b) # m) \<longleftrightarrow> (\<forall>k \<in> fst ` set m. a < k) \<and> smap_ok m"
  by (auto simp: smap_ok_def)

lemma keys_smap_insert [simp, smap_simps]:
  "fst ` set (smap_insert k v m) = insert k (fst ` set m)"
  by (induction k v m rule: smap_insert.induct) auto

lemma smap_ok_insert [smap_simps]: "smap_ok m \<Longrightarrow> smap_ok (smap_insert k v m)"
  by (induction k v m rule: smap_insert.induct) (fastforce simp: smap_ok_Cons)+

lemma smap_ok_erase [smap_simps]: "smap_ok m \<Longrightarrow> smap_ok (smap_erase k m)"
  by (induction m) (auto simp: smap_erase_def smap_ok_Cons)

lemma map_of_smap_insert [smap_simps]:
  "map_of (smap_insert k v m) = (map_of m)(k \<mapsto> v)"
  by (induction k v m rule: smap_insert.induct) (auto simp: fun_eq_iff)

lemma map_of_smap_erase [smap_simps]:
  "map_of (smap_erase k m) = (map_of m)(k := None)"
  by (induction m) (auto simp: smap_erase_def fun_eq_iff)

text \<open>\<open>m[k]\<close>, where a missing entry reads as the value-initialised \<open>d\<close>.\<close>

definition smap_at :: "'v \<Rightarrow> ('k \<times> 'v) list \<Rightarrow> 'k \<Rightarrow> 'v" where
  "smap_at d m k = (case map_of m k of None \<Rightarrow> d | Some v \<Rightarrow> v)"

lemma smap_at_insert [smap_simps]: "smap_at d (smap_insert k v m) j = (if j = k then v else smap_at d m j)"
  by (simp add: smap_at_def map_of_smap_insert)

lemma smap_ok_distinct: "smap_ok m \<Longrightarrow> distinct (map fst m)"
  by (simp add: smap_ok_def strict_sorted_iff)

lemma set_smap_insert_new:
  "k \<notin> fst ` set m \<Longrightarrow> set (smap_insert k v m) = insert (k, v) (set m)"
  by (induction k v m rule: smap_insert.induct) auto

lemma set_smap_insert_subset: "set (smap_insert k v m) \<subseteq> insert (k, v) (set m)"
  by (induction k v m rule: smap_insert.induct) auto

lemma smap_ok_map_snd [smap_simps]: "smap_ok (map (\<lambda>(k, v). (k, f v)) m) \<longleftrightarrow> smap_ok m"
  by (simp add: smap_ok_def comp_def case_prod_unfold)

text \<open>A sorted map is determined by its lookup function.\<close>

lemma smap_insert_last:
  assumes "\<forall>a \<in> fst ` set m. a < k"
  shows "smap_insert k v m = m @ [(k, v)]"
  using assms by (induction k v m rule: smap_insert.induct) (auto simp: not_less_iff_gr_or_eq)

lemma smap_insert_same [smap_simps]: "smap_insert k v (smap_insert k u m) = smap_insert k v m"
  by (induction k u m rule: smap_insert.induct) auto

lemma smap_insert_at_end:
  assumes "\<forall>a \<in> fst ` set m. a < k"
  shows "smap_insert k v (m @ [(k, u)]) = m @ [(k, v)]"
  using assms by (induction m) (auto simp: not_less_iff_gr_or_eq)

lemma smap_ok_append:
  "smap_ok (m @ n) \<longleftrightarrow> smap_ok m \<and> smap_ok n \<and> (\<forall>a \<in> fst ` set m. \<forall>b \<in> fst ` set n. a < b)"
  by (auto simp: smap_ok_def sorted_wrt_append)

lemma foldl_smap_insert:
  assumes "smap_ok (m @ n)"
  shows "foldl (\<lambda>acc (k, v). smap_insert k v acc) m n = m @ n"
  using assms
proof (induction n arbitrary: m)
  case Nil
  then show ?case by simp
next
  case (Cons e n)
  obtain k v where e: "e = (k, v)" by force
  have "smap_insert k v m = m @ [(k, v)]"
    using Cons.prems by (intro smap_insert_last) (auto simp: e smap_ok_append)
  moreover have "smap_ok ((m @ [(k, v)]) @ n)"
    using Cons.prems by (simp add: e)
  ultimately show ?case
    using Cons.IH [of "m @ [(k, v)]"] by (simp add: e)
qed

end
