(* ===== verification/Core_Types.thy ===== *)
theory Core_Types
  imports Prelude "HOL-Library.Product_Lexorder"
begin

text \<open>
  The value types every component shares: \<open>core::Labels\<close>, \<open>core::Sample\<close> and
  \<open>core::TimeSeries\<close> (\<open>src/tsdb/core/internal/types.cpp\<close>). A label set is the sorted entry
  list of its \<open>std::map\<close>; a thrown \<open>InvalidArgumentError\<close> is the \<open>Inl\<close> branch of a sum.
  Every \<open>TimeSeries\<close> method runs under the object's mutex, so it is one atomic function on
  the state. The main fact is that \<open>add_sample\<close> keeps samples strictly chronological and
  that a rejected sample leaves no trace.
\<close>

section \<open>Exceptions\<close>

datatype exn = InvalidArgumentError string

section \<open>Labels\<close>

type_synonym labels = "(string \<times> string) list"

definition labels_add :: "string \<Rightarrow> string \<Rightarrow> labels \<Rightarrow> exn + labels" where
  "labels_add name value m =
     (if name = [] then Inl (InvalidArgumentError ''Label name cannot be empty'')
      else Inr (smap_insert name value m))"

definition labels_remove :: "string \<Rightarrow> labels \<Rightarrow> labels" where
  "labels_remove name m = smap_erase name m"

definition labels_clear :: "labels \<Rightarrow> labels" where
  "labels_clear m = []"

definition labels_has :: "labels \<Rightarrow> string \<Rightarrow> bool" where
  "labels_has m name \<longleftrightarrow> map_of m name \<noteq> None"

definition labels_get :: "labels \<Rightarrow> string \<Rightarrow> string option" where
  "labels_get m name = map_of m name"

definition labels_eq :: "labels \<Rightarrow> labels \<Rightarrow> bool" where
  "labels_eq a b \<longleftrightarrow> a = b"

text \<open>\<open>std::map\<close>'s \<open>operator<\<close>: lexicographic on the entries, each a pair of strings.\<close>

definition labels_less :: "labels \<Rightarrow> labels \<Rightarrow> bool" where
  "labels_less a b \<longleftrightarrow> a < b"

definition label_entry_string :: "string \<times> string \<Rightarrow> string" where
  "label_entry_string e = fst e @ ''='' @ [CHR 0x22] @ snd e @ [CHR 0x22]"

fun labels_to_string_loop :: "bool \<Rightarrow> labels \<Rightarrow> string" where
  "labels_to_string_loop first [] = []"
| "labels_to_string_loop first (e # m) =
     (if first then [] else '', '') @ label_entry_string e @ labels_to_string_loop False m"

definition labels_to_string :: "labels \<Rightarrow> string" where
  "labels_to_string m = ''{'' @ labels_to_string_loop True m @ ''}''"

section \<open>Samples\<close>

record sample =
  timestamp :: int64
  sval :: double
  sfields :: "(string \<times> string) list"

text \<open>\<open>sizeof(core::Sample)\<close> on a 64-bit platform: the timestamp, the value and the 48 bytes of a \<open>std::map\<close> object of libstdc++.\<close>

definition sizeof_sample :: uint64 where
  "sizeof_sample = 8 + 8 + 48"

definition mk_sample :: "int64 \<Rightarrow> double \<Rightarrow> sample" where
  "mk_sample t v = \<lparr>timestamp = t, sval = v, sfields = []\<rparr>"

text \<open>IEEE equality of two doubles from their bit patterns: NaN differs from everything,
  and the two zeros are equal.\<close>

definition double_is_nan :: "double \<Rightarrow> bool" where
  "double_is_nan w \<longleftrightarrow> w AND 0x7FF0000000000000 = 0x7FF0000000000000
     \<and> w AND 0x000FFFFFFFFFFFFF \<noteq> 0"

definition double_is_zero :: "double \<Rightarrow> bool" where
  "double_is_zero w \<longleftrightarrow> w AND 0x7FFFFFFFFFFFFFFF = 0"

definition double_eq :: "double \<Rightarrow> double \<Rightarrow> bool" where
  "double_eq a b \<longleftrightarrow> \<not> double_is_nan a \<and> \<not> double_is_nan b
     \<and> (a = b \<or> double_is_zero a \<and> double_is_zero b)"

definition sample_eq :: "sample \<Rightarrow> sample \<Rightarrow> bool" where
  "sample_eq a b \<longleftrightarrow> timestamp a = timestamp b \<and> double_eq (sval a) (sval b) \<and> sfields a = sfields b"

section \<open>Time series\<close>

record time_series =
  ts_labels :: labels
  ts_samples :: "sample list"

definition mk_time_series :: "labels \<Rightarrow> time_series" where
  "mk_time_series l = \<lparr>ts_labels = l, ts_samples = []\<rparr>"

definition add_sample :: "sample \<Rightarrow> time_series \<Rightarrow> exn + time_series" where
  "add_sample s ts =
     (if ts_samples ts \<noteq> [] \<and> sint (timestamp s) \<le> sint (timestamp (last (ts_samples ts)))
      then Inl (InvalidArgumentError ''Samples must be added in chronological order'')
      else Inr (ts\<lparr>ts_samples := ts_samples ts @ [s]\<rparr>))"

definition ts_clear :: "time_series \<Rightarrow> time_series" where
  "ts_clear ts = ts\<lparr>ts_samples := []\<rparr>"

definition ts_size :: "time_series \<Rightarrow> nat" where
  "ts_size ts = length (ts_samples ts)"

definition ts_empty :: "time_series \<Rightarrow> bool" where
  "ts_empty ts \<longleftrightarrow> ts_samples ts = []"

definition ts_eq :: "time_series \<Rightarrow> time_series \<Rightarrow> bool" where
  "ts_eq a b \<longleftrightarrow> labels_eq (ts_labels a) (ts_labels b)
     \<and> list_all2 sample_eq (ts_samples a) (ts_samples b)"

text \<open>Adding a list of samples in order, stopping at the first exception.\<close>

fun add_samples :: "sample list \<Rightarrow> time_series \<Rightarrow> exn + time_series" where
  "add_samples [] ts = Inr ts"
| "add_samples (s # ss) ts =
     (case add_sample s ts of Inl e \<Rightarrow> Inl e | Inr ts' \<Rightarrow> add_samples ss ts')"

section \<open>The chronological invariant\<close>

definition chronological :: "sample list \<Rightarrow> bool" where
  "chronological ss \<longleftrightarrow> sorted_wrt (\<lambda>a b. sint (timestamp a) < sint (timestamp b)) ss"

definition series_ok :: "time_series \<Rightarrow> bool" where
  "series_ok ts \<longleftrightarrow> smap_ok (ts_labels ts) \<and> chronological (ts_samples ts)"

lemma chronological_Nil [simp]: "chronological []"
  by (simp add: chronological_def)

lemma chronological_Cons:
  "chronological (s # ss) \<longleftrightarrow> (\<forall>x \<in> set ss. sint (timestamp s) < sint (timestamp x)) \<and> chronological ss"
  by (simp add: chronological_def)

lemma chronological_single [simp]: "chronological [s]"
  by (simp add: chronological_def)

lemma chronological_append:
  "chronological (xs @ ys) \<longleftrightarrow> chronological xs \<and> chronological ys
     \<and> (\<forall>x \<in> set xs. \<forall>y \<in> set ys. sint (timestamp x) < sint (timestamp y))"
  by (auto simp: chronological_def sorted_wrt_append)

lemma chronological_last:
  assumes "chronological ss" "x \<in> set ss"
  shows "sint (timestamp x) \<le> sint (timestamp (last ss))"
proof -
  have ne: "ss \<noteq> []" using assms(2) by auto
  then have "ss = butlast ss @ [last ss]" by simp
  then have "chronological (butlast ss @ [last ss])" "x \<in> set (butlast ss @ [last ss])"
    using assms by auto
  then show ?thesis by (auto simp: chronological_append)
qed

lemma chronological_snoc:
  assumes "chronological ss"
    and "ss = [] \<or> sint (timestamp (last ss)) < sint (timestamp s)"
  shows "chronological (ss @ [s])"
  using assms chronological_last [OF assms(1)]
  by (fastforce simp: chronological_append chronological_Cons)

lemma add_sample_chronological:
  assumes "chronological (ts_samples ts)" "add_sample s ts = Inr ts'"
  shows "chronological (ts_samples ts')"
  using assms by (auto simp: add_sample_def intro!: chronological_snoc split: if_splits)

lemma add_sample_labels: "add_sample s ts = Inr ts' \<Longrightarrow> ts_labels ts' = ts_labels ts"
  by (auto simp: add_sample_def split: if_splits)

lemma add_sample_accepts_iff:
  "(\<exists>ts'. add_sample s ts = Inr ts') \<longleftrightarrow>
     ts_samples ts = [] \<or> sint (timestamp (last (ts_samples ts))) < sint (timestamp s)"
  by (auto simp: add_sample_def)

lemma add_sample_later:
  "ts_samples ts = [] \<or> sint (timestamp (last (ts_samples ts))) < sint (timestamp s) \<Longrightarrow>
     add_sample s ts = Inr (ts\<lparr>ts_samples := ts_samples ts @ [s]\<rparr>)"
  by (auto simp: add_sample_def)

lemma chronological_append_last:
  "chronological (xs @ y # ys) \<Longrightarrow> xs = [] \<or> sint (timestamp (last xs)) < sint (timestamp y)"
  by (cases "xs = []") (auto simp: chronological_append)

text \<open>A chronological batch that starts after the series' last sample is accepted whole.\<close>

lemma add_samples_append:
  assumes "chronological (ts_samples ts @ ss)"
  shows "add_samples ss ts = Inr (ts\<lparr>ts_samples := ts_samples ts @ ss\<rparr>)"
  using assms
proof (induction ss arbitrary: ts)
  case Nil
  then show ?case by simp
next
  case (Cons s ss)
  let ?ts' = "ts\<lparr>ts_samples := ts_samples ts @ [s]\<rparr>"
  have "add_sample s ts = Inr ?ts'"
    using Cons.prems by (intro add_sample_later) (rule chronological_append_last)
  moreover have "chronological (ts_samples ?ts' @ ss)"
    using Cons.prems by simp
  ultimately show ?case
    using Cons.IH [of ?ts'] by simp
qed

lemma add_samples_fresh:
  "chronological ss \<Longrightarrow>
     add_samples ss (mk_time_series l) = Inr \<lparr>ts_labels = l, ts_samples = ss\<rparr>"
  by (simp add: add_samples_append mk_time_series_def)

lemma add_samples_chronological:
  "add_samples ss ts = Inr ts' \<Longrightarrow> chronological (ts_samples ts) \<Longrightarrow>
     chronological (ts_samples ts')"
  by (induction ss arbitrary: ts) (auto split: sum.splits dest: add_sample_chronological)

section \<open>Properties\<close>

text \<open>
  \<open>TimeSeries::add_sample\<close> accepts a sample exactly when it is later than the last one,
  then appends it; the samples stay strictly chronological and the labels are untouched.
\<close>

theorem add_sample_spec:
  assumes "series_ok ts"
  shows "case add_sample s ts of
      Inl e \<Rightarrow> ts_samples ts \<noteq> [] \<and> sint (timestamp s) \<le> sint (timestamp (last (ts_samples ts)))
    | Inr ts' \<Rightarrow> ts_samples ts' = ts_samples ts @ [s] \<and> ts_labels ts' = ts_labels ts
        \<and> series_ok ts'"
proof (cases "add_sample s ts")
  case (Inl e)
  then show ?thesis by (auto simp: add_sample_def split: if_splits)
next
  case (Inr ts')
  with assms have "chronological (ts_samples ts')"
    by (auto simp: series_ok_def intro: add_sample_chronological)
  with assms Inr show ?thesis
    by (auto simp: series_ok_def add_sample_def split: if_splits)
qed

theorem add_sample_spec_witness:
  "case add_sample (mk_sample 20 1) \<lparr>ts_labels = [], ts_samples = [mk_sample 10 0]\<rparr> of
      Inl e \<Rightarrow> False
    | Inr ts' \<Rightarrow> length (ts_samples ts') = 2 \<and> series_ok ts'"
proof -
  let ?ts = "\<lparr>ts_labels = [], ts_samples = [mk_sample 10 0]\<rparr>"
  have ok: "series_ok ?ts"
    by (simp add: series_ok_def chronological_Cons)
  show ?thesis
    using add_sample_spec [OF ok, of "mk_sample 20 1"]
    by (auto simp: mk_sample_def split: sum.splits)
qed

end
