(* ===== verification/Simple_Compressor.thy ===== *)
theory Simple_Compressor
  imports Core_Types "HOL-Library.Sublist"
begin

text \<open>
  The default column compressors of a block (\<open>src/tsdb/storage/compression.cpp\<close>):
  \<open>SimpleTimestampCompressor\<close> (count, first timestamp, then one tagged delta per
  timestamp), \<open>SimpleValueCompressor\<close> (the same with XORed bit patterns) and
  \<open>SimpleLabelCompressor\<close> (a string dictionary). A decoder's read position \<open>pos\<close> is the unread
  suffix of the data: \<open>pos < data.size()\<close> is a non-empty suffix and \<open>pos + k <= data.size()\<close>
  a suffix of at least \<open>k\<close> bytes. Signed 64-bit differences wrap around, as the compiled
  code does. The locale \<open>vec_codec\<close> is the contract \<open>BlockImpl\<close> relies on.
\<close>

section \<open>Tagged deltas\<close>

text \<open>One delta: tag 0 for zero, 1 and 2 for one- and two-byte deltas, 3 for all others.\<close>

definition encode_delta :: "int64 \<Rightarrow> byte list" where
  "encode_delta d =
     (if d = 0 then [0x00]
      else if - 127 \<le> sint d \<and> sint d \<le> 127 then [0x01, ucast d]
      else if - 32767 \<le> sint d \<and> sint d \<le> 32767
        then [0x02, ucast (d AND 0xFF), ucast (signed_drop_bit 8 d AND 0xFF)]
      else 0x03 # le_bytes 8 d)"

text \<open>
  The \<open>switch (flag)\<close> of \<open>SimpleTimestampCompressor::decompress\<close>: a truncated payload and an
  unknown tag both leave \<open>delta\<close> at zero and only the tag consumed.
\<close>

definition read_delta :: "byte \<Rightarrow> byte list \<Rightarrow> int64 \<times> byte list" where
  "read_delta flag rest =
     (if flag = 0x00 then (0, rest)
      else if flag = 0x01 then
        (case rest of [] \<Rightarrow> (0, rest) | b # rest' \<Rightarrow> (scast b, rest'))
      else if flag = 0x02 then
        (if length rest < 2 then (0, rest)
         else (scast (le_word (take 2 rest) :: 16 word), drop 2 rest))
      else if flag = 0x03 then
        (if length rest < 8 then (0, rest)
         else (le_word (take 8 rest), drop 8 rest))
      else (0, rest))"

lemma length_read_delta: "length (snd (read_delta flag rest)) \<le> length rest"
  by (auto simp: read_delta_def split: list.splits)

section \<open>SimpleTimestampCompressor\<close>

fun ts_deltas :: "int64 \<Rightarrow> int64 list \<Rightarrow> byte list" where
  "ts_deltas prev [] = []"
| "ts_deltas prev (t # ts) = encode_delta (t - prev) @ ts_deltas t ts"

definition simple_ts_compress :: "int64 list \<Rightarrow> byte list" where
  "simple_ts_compress timestamps =
     (case timestamps of
        [] \<Rightarrow> []
      | t # ts \<Rightarrow> le_bytes 4 (of_nat (length timestamps) :: uint32) @ le_bytes 8 t @ ts_deltas t ts)"

function simple_ts_loop :: "nat \<Rightarrow> int64 \<Rightarrow> byte list \<Rightarrow> int64 list \<Rightarrow> int64 list" where
  "simple_ts_loop count t [] result = result"
| "simple_ts_loop count t (flag # rest) result =
     (if length result < count then
        let t' = t + fst (read_delta flag rest)
        in simple_ts_loop count t' (snd (read_delta flag rest)) (result @ [t'])
      else result)"
  by pat_completeness auto
termination
  by (relation "measure (\<lambda>(count, t, data, result). length data)")
    (auto simp: le_imp_less_Suc length_read_delta)

definition simple_ts_decompress :: "byte list \<Rightarrow> int64 list" where
  "simple_ts_decompress data =
     (if data = [] then []
      else if length data < 4 then []
      else
        let count = unat (le_word (take 4 data) :: uint32); rest = drop 4 data in
        if 8 \<le> length rest then
          let t = le_word (take 8 rest) in
          if count = 1 then [t] else simple_ts_loop count t (drop 8 rest) [t]
        else [])"

definition simple_ts_is_compressed :: bool where
  "simple_ts_is_compressed \<longleftrightarrow> False"

section \<open>SimpleValueCompressor\<close>

definition encode_xor :: "uint64 \<Rightarrow> byte list" where
  "encode_xor x =
     (if x = 0 then [0x00]
      else if x AND 0xFF = x then [0x01, ucast x]
      else if x AND 0xFFFF = x then
        let e = ucast x :: 16 word in [0x02, ucast (e AND 0xFF), ucast (drop_bit 8 e AND 0xFF)]
      else if x AND 0xFFFFFFFF = x then 0x03 # le_bytes 4 (ucast x :: uint32)
      else 0x04 # le_bytes 8 x)"

text \<open>\<open>None\<close> is \<open>valid = false\<close>: decompression stops there.\<close>

definition read_xor :: "byte \<Rightarrow> byte list \<Rightarrow> (uint64 \<times> byte list) option" where
  "read_xor flag rest =
     (if flag = 0x00 then Some (0, rest)
      else if flag = 0x01 then
        (case rest of [] \<Rightarrow> None | b # rest' \<Rightarrow> Some (ucast b, rest'))
      else if flag = 0x02 then
        (if length rest < 2 then None
         else Some (ucast (le_word (take 2 rest) :: 16 word), drop 2 rest))
      else if flag = 0x03 then
        (if length rest < 4 then None
         else Some (ucast (le_word (take 4 rest) :: uint32), drop 4 rest))
      else if flag = 0x04 then
        (if length rest < 8 then None
         else Some (le_word (take 8 rest), drop 8 rest))
      else None)"

lemma length_read_xor: "read_xor flag rest = Some (x, rest') \<Longrightarrow> length rest' \<le> length rest"
  by (auto simp: read_xor_def split: list.splits if_splits)

fun val_xors :: "uint64 \<Rightarrow> double list \<Rightarrow> byte list" where
  "val_xors prev [] = []"
| "val_xors prev (v # vs) = encode_xor (v XOR prev) @ val_xors v vs"

definition simple_val_compress :: "double list \<Rightarrow> byte list" where
  "simple_val_compress values =
     (case values of
        [] \<Rightarrow> []
      | v # vs \<Rightarrow> le_bytes 4 (of_nat (length values) :: uint32) @ le_bytes 8 v @ val_xors v vs)"

function simple_val_loop :: "nat \<Rightarrow> uint64 \<Rightarrow> byte list \<Rightarrow> double list \<Rightarrow> double list" where
  "simple_val_loop count prev [] result = result"
| "simple_val_loop count prev (flag # rest) result =
     (if length result < count then
        (case read_xor flag rest of
           None \<Rightarrow> result
         | Some (x, rest') \<Rightarrow>
             let v = prev XOR x in simple_val_loop count v rest' (result @ [v]))
      else result)"
  by pat_completeness auto
termination
  by (relation "measure (\<lambda>(count, prev, data, result). length data)")
    (auto simp: le_imp_less_Suc dest: length_read_xor)

definition simple_val_decompress :: "byte list \<Rightarrow> double list" where
  "simple_val_decompress data =
     (if data = [] then []
      else if length data < 4 then []
      else
        let count = unat (le_word (take 4 data) :: uint32); rest = drop 4 data in
        if 8 \<le> length rest then
          let v = le_word (take 8 rest) in
          if count = 1 then [v] else simple_val_loop count v (drop 8 rest) [v]
        else [])"

definition simple_val_is_compressed :: bool where
  "simple_val_is_compressed \<longleftrightarrow> False"

section \<open>SimpleLabelCompressor\<close>

record label_dict =
  label_to_id :: "string \<Rightarrow> uint32 option"
  id_to_label :: "string list"

definition empty_dict :: label_dict where
  "empty_dict = \<lparr>label_to_id = Map.empty, id_to_label = []\<rparr>"

definition add_label :: "string \<Rightarrow> label_dict \<Rightarrow> uint32 \<times> label_dict" where
  "add_label label d =
     (case label_to_id d label of
        Some i \<Rightarrow> (i, d)
      | None \<Rightarrow>
          let i = of_nat (length (id_to_label d)) in
          (i, d\<lparr>label_to_id := (label_to_id d)(label \<mapsto> i), id_to_label := id_to_label d @ [label]\<rparr>))"

definition get_label :: "uint32 \<Rightarrow> label_dict \<Rightarrow> string" where
  "get_label i d =
     (if length (id_to_label d) \<le> unat i then '''' else id_to_label d ! unat i)"

fun dict_compress :: "labels \<Rightarrow> label_dict \<Rightarrow> byte list \<times> label_dict" where
  "dict_compress [] d = ([], d)"
| "dict_compress ((name, value) # m) d =
     (let (name_id, d1) = add_label name d;
          (value_id, d2) = add_label value d1;
          (bs, d3) = dict_compress m d2
      in (le_bytes 4 name_id @ le_bytes 4 value_id @ bs, d3))"

text \<open>
  The decoder reads eight bytes per step without a bounds check, so a byte string whose
  length is not a multiple of eight makes it read past the end: \<open>None\<close>.
\<close>

function dict_decompress_loop :: "byte list \<Rightarrow> label_dict \<Rightarrow> labels \<Rightarrow> labels option" where
  "dict_decompress_loop data d result =
     (if data = [] then Some result
      else if length data < 8 then None
      else dict_decompress_loop (drop 8 data) d
             (smap_insert (get_label (le_word (take 4 data)) d)
                (get_label (le_word (take 4 (drop 4 data))) d) result))"
  by pat_completeness auto
termination
  by (relation "measure (\<lambda>(data, d, result). length data)") auto

declare dict_decompress_loop.simps [simp del]

definition dict_decompress :: "byte list \<Rightarrow> label_dict \<Rightarrow> labels option" where
  "dict_decompress data d = dict_decompress_loop data d []"

definition dictionary_size :: "label_dict \<Rightarrow> nat" where
  "dictionary_size d = length (id_to_label d)"

definition dict_clear :: "label_dict \<Rightarrow> label_dict" where
  "dict_clear d = d\<lparr>label_to_id := Map.empty, id_to_label := []\<rparr>"

section \<open>Tagged deltas and XORs decode to what was encoded\<close>

lemma mask_words:
  "(0xFF :: 'a::len word) = mask 8" "(0xFFFF :: 'a::len word) = mask 16" "(0xFFFFFFFF :: 'a::len word) = mask 32"
  by (simp_all add: mask_eq_exp_minus_1)

lemma le_word_two_bytes:
  "le_word [ucast (d AND 0xFF), ucast (signed_drop_bit 8 d AND 0xFF)] = (ucast (d::int64) :: 16 word)"
  unfolding mask_words
  by (rule bit_eqI) (auto simp: bit_simps)

lemma sint_ucast_down:
  assumes "LENGTH('b) \<le> LENGTH('a)"
  shows "sint (ucast d :: 'b::len word) = signed_take_bit (LENGTH('b) - 1) (sint (d :: 'a::len word))"
   using assms by (transfer; auto simp: signed_take_bit_take_bit) 

lemma scast_ucast_signed:
  fixes d :: "'a::len word"
  assumes "- (2 ^ (LENGTH('b::len) - 1)) \<le> sint d" "sint d < 2 ^ (LENGTH('b) - 1)"
    and "LENGTH('b) \<le> LENGTH('a)"
  shows "scast (ucast d :: 'b word) = d"
proof -
  have "scast (ucast d :: 'b word) = (word_of_int (sint (ucast d :: 'b word)) :: 'a word)"
    by transfer simp
  also have "sint (ucast d :: 'b word) = sint d"
    using assms by (simp add: sint_ucast_down signed_take_bit_int_eq_self)
  finally show ?thesis by simp
qed

lemma read_encode_delta:
  "\<exists>flag payload. encode_delta d = flag # payload
     \<and> (\<forall>tail. read_delta flag (payload @ tail) = (d, tail))"
proof -
  have one: "scast (ucast d :: byte) = d" if "- 127 \<le> sint d" "sint d \<le> 127"
    using that by (intro scast_ucast_signed) auto
  have two: "scast (ucast d :: 16 word) = d" if "- 32767 \<le> sint d" "sint d \<le> 32767"
    using that by (intro scast_ucast_signed) auto
  show ?thesis
    using one two le_word_two_bytes [of d]
    by (auto simp: encode_delta_def read_delta_def)
qed

lemma mask_and_eq_ucast:
  fixes x :: uint64
  assumes "x AND mask n = x" "n \<le> LENGTH('b::len)"
  shows "ucast (ucast x :: 'b word) = x"
proof (rule bit_eqI)
  fix i
  have "bit x i \<longleftrightarrow> bit (x AND mask n) i" by (rule arg_cong2 [OF assms(1) [symmetric] refl])
  then have "bit x i \<longleftrightarrow> bit x i \<and> i < n" by (auto simp: bit_and_iff bit_mask_iff)
  then have "bit x i \<longrightarrow> i < LENGTH('b)" using assms(2) by auto
  then show "bit (ucast (ucast x :: 'b word) :: uint64) i \<longleftrightarrow> bit x i"
    by (auto simp: bit_ucast_iff dest: bit_imp_le_length)
qed

lemma le_word_two_bytes_16:
  "le_word [ucast (e AND 0xFF), ucast (drop_bit 8 e AND 0xFF)] = (e :: 16 word)"
  unfolding mask_words
  by (rule bit_eqI) (auto simp: bit_simps)

lemma read_encode_xor:
  "\<exists>flag payload. encode_xor x = flag # payload
     \<and> (\<forall>tail. read_xor flag (payload @ tail) = Some (x, tail))"
proof -
  have one: "ucast (ucast x :: byte) = x" if "x AND 0xFF = x"
    using that unfolding mask_words by (rule mask_and_eq_ucast) simp
  have two: "ucast (ucast x :: 16 word) = x" if "x AND 0xFFFF = x"
    using that unfolding mask_words by (rule mask_and_eq_ucast) simp
  have four: "ucast (ucast x :: uint32) = x" if "x AND 0xFFFFFFFF = x"
    using that unfolding mask_words by (rule mask_and_eq_ucast) simp
  show ?thesis
    using one two four le_word_two_bytes_16 [of "ucast x"]
    by (auto simp: encode_xor_def read_xor_def Let_def)
qed

lemma encode_delta_not_Nil [simp]: "encode_delta d \<noteq> []"
  using read_encode_delta [of d] by auto

lemma encode_xor_not_Nil [simp]: "encode_xor x \<noteq> []"
  using read_encode_xor [of x] by auto

lemma simple_ts_loop_step:
  assumes "length result < count"
  shows "simple_ts_loop count t (encode_delta d @ tail) result =
    simple_ts_loop count (t + d) tail (result @ [t + d])"
proof -
  obtain flag payload where "encode_delta d = flag # payload"
    and "read_delta flag (payload @ tail) = (d, tail)"
    using read_encode_delta [of d] by blast
  with assms show ?thesis by (simp add: Let_def)
qed

lemma simple_ts_loop_deltas:
  assumes "length result + length ts = count"
  shows "simple_ts_loop count t (ts_deltas t ts) result = result @ ts"
  using assms
  by (induction ts arbitrary: t result) (auto simp: simple_ts_loop_step)

lemma simple_val_loop_step:
  assumes "length result < count"
  shows "simple_val_loop count prev (encode_xor x @ tail) result =
    simple_val_loop count (prev XOR x) tail (result @ [prev XOR x])"
proof -
  obtain flag payload where "encode_xor x = flag # payload"
    and "read_xor flag (payload @ tail) = Some (x, tail)"
    using read_encode_xor [of x] by blast
  with assms show ?thesis by (simp add: Let_def)
qed

lemma xor_cancel_left: "prev XOR (v XOR prev) = (v :: 'a::len word)"
  by (rule bit_eqI) (auto simp: bit_simps)

lemma simple_val_loop_xors:
  assumes "length result + length vs = count"
  shows "simple_val_loop count prev (val_xors prev vs) result = result @ vs"
  using assms
  by (induction vs arbitrary: prev result) (auto simp: simple_val_loop_step xor_cancel_left)

lemma simple_ts_roundtrip:
  assumes "length ts < 2 ^ 32"
  shows "simple_ts_decompress (simple_ts_compress ts) = ts"
  using assms
  by (auto simp: simple_ts_compress_def simple_ts_decompress_def simple_ts_loop_deltas Let_def
      split: list.splits)

lemma simple_val_roundtrip:
  assumes "length vs < 2 ^ 32"
  shows "simple_val_decompress (simple_val_compress vs) = vs"
  using assms
  by (auto simp: simple_val_compress_def simple_val_decompress_def simple_val_loop_xors Let_def
      split: list.splits)

lemma simple_codec_Nil [simp]:
  "simple_ts_compress [] = []" "simple_ts_decompress [] = []"
  "simple_val_compress [] = []" "simple_val_decompress [] = []"
  by (simp_all add: simple_ts_compress_def simple_ts_decompress_def
      simple_val_compress_def simple_val_decompress_def)

section \<open>The column codec contract\<close>

text \<open>
  What a block needs of a timestamp or value compressor: a column of fewer than \<open>capacity\<close>
  entries survives compression, and an empty column has an empty image. A decoder that would
  read outside its input yields \<open>None\<close>.
\<close>

locale vec_codec =
  fixes compress :: "'a list \<Rightarrow> byte list"
    and decompress :: "byte list \<Rightarrow> 'a list option"
    and capacity :: nat
  assumes roundtrip: "length xs < capacity \<Longrightarrow> decompress (compress xs) = Some xs"
    and compress_Nil: "compress [] = []"
    and decompress_Nil: "decompress [] = Some []"
begin

lemma compress_inj:
  assumes "length xs < capacity" "length ys < capacity" "compress xs = compress ys"
  shows "xs = ys"
proof -
  have "decompress (compress ys) = Some xs"
    using roundtrip [OF assms(1)] unfolding assms(3) .
  with roundtrip [OF assms(2)] show ?thesis by simp
qed

lemma compress_empty_iff:
  assumes "length xs < capacity"
  shows "compress xs = [] \<longleftrightarrow> xs = []"
proof
  assume "compress xs = []"
  with roundtrip [OF assms] decompress_Nil show "xs = []" by simp
qed (simp add: compress_Nil)

end

interpretation simple_ts: vec_codec simple_ts_compress "\<lambda>d. Some (simple_ts_decompress d)" "2 ^ 32"
  by unfold_locales (simp_all add: simple_ts_roundtrip)

interpretation simple_val: vec_codec simple_val_compress "\<lambda>d. Some (simple_val_decompress d)" "2 ^ 32"
  by unfold_locales (simp_all add: simple_val_roundtrip)

section \<open>The label dictionary\<close>

text \<open>The dictionary's two halves are inverse to each other and ids fit 32 bits.\<close>

definition dict_ok :: "label_dict \<Rightarrow> bool" where
  "dict_ok d \<longleftrightarrow> length (id_to_label d) < 2 ^ 32
     \<and> (\<forall>l i. label_to_id d l = Some i \<longrightarrow>
           unat i < length (id_to_label d) \<and> id_to_label d ! unat i = l)
     \<and> (\<forall>l \<in> set (id_to_label d). label_to_id d l \<noteq> None)"

lemma dict_ok_empty: "dict_ok empty_dict"
  by (simp add: dict_ok_def empty_dict_def)

lemma get_label_prefix:
  assumes "prefix (id_to_label d) (id_to_label d')" "unat i < length (id_to_label d)"
  shows "get_label i d' = get_label i d"
  using assms by (auto simp: get_label_def prefix_def nth_append)

lemma add_label_spec:
  assumes "dict_ok d" "length (id_to_label d) + 1 < 2 ^ 32" "add_label l d = (i, d')"
  shows "dict_ok d'" "prefix (id_to_label d) (id_to_label d')"
    "length (id_to_label d') \<le> length (id_to_label d) + 1"
    "unat i < length (id_to_label d')" "get_label i d' = l"
proof -
  show "dict_ok d'"
    using assms
    by (auto simp: add_label_def dict_ok_def nth_append less_SucI Let_def
        split: option.splits if_splits)
  show i: "unat i < length (id_to_label d')"
    using assms by (auto simp: add_label_def dict_ok_def Let_def split: option.splits)
  show "get_label i d' = l"
    using assms i
    by (auto simp: add_label_def dict_ok_def get_label_def nth_append Let_def
        split: option.splits)
qed (use assms in \<open>auto simp: add_label_def Let_def split: option.splits\<close>)

lemma dict_decompress_loop_step:
  "dict_decompress_loop (le_bytes 4 (a :: uint32) @ le_bytes 4 (b :: uint32) @ bs) d acc =
     dict_decompress_loop bs d (smap_insert (get_label a d) (get_label b d) acc)"
  by (subst dict_decompress_loop.simps) auto

lemma dict_compress_spec:
  assumes "dict_ok d" "length (id_to_label d) + 2 * length m < 2 ^ 32"
    and "dict_compress m d = (bs, d')"
  shows "dict_ok d' \<and> prefix (id_to_label d) (id_to_label d')
    \<and> (\<forall>d'' acc. prefix (id_to_label d') (id_to_label d'') \<longrightarrow>
          dict_decompress_loop bs d'' acc = Some (foldl (\<lambda>acc (k, v). smap_insert k v acc) acc m))"
  using assms
proof (induction m arbitrary: d bs d')
  case Nil
  then show ?case by (simp add: dict_decompress_loop.simps)
next
  case (Cons e m)
  obtain k v where e: "e = (k, v)" by force
  obtain a d1 where a: "add_label k d = (a, d1)" by force
  obtain b d2 where b: "add_label v d1 = (b, d2)" by force
  obtain bs' where c: "dict_compress m d2 = (bs', d')"
    and bs: "bs = le_bytes 4 a @ le_bytes 4 b @ bs'"
    using Cons.prems(3) by (auto simp: e a b split: prod.splits)
  have 1: "dict_ok d1" "prefix (id_to_label d) (id_to_label d1)"
      "length (id_to_label d1) \<le> length (id_to_label d) + 1"
      "unat a < length (id_to_label d1)" "get_label a d1 = k"
    using add_label_spec [OF Cons.prems(1) _ a] Cons.prems(2) by auto
  have 2: "dict_ok d2" "prefix (id_to_label d1) (id_to_label d2)"
      "length (id_to_label d2) \<le> length (id_to_label d1) + 1"
      "unat b < length (id_to_label d2)" "get_label b d2 = v"
    using add_label_spec [OF 1(1) _ b] Cons.prems(2) 1(3) by auto
  have 3: "dict_ok d'" "prefix (id_to_label d2) (id_to_label d')"
    "\<And>d'' acc. prefix (id_to_label d') (id_to_label d'') \<Longrightarrow>
       dict_decompress_loop bs' d'' acc = Some (foldl (\<lambda>acc (k, v). smap_insert k v acc) acc m)"
    using Cons.IH [OF 2(1) _ c] Cons.prems(2) 1(3) 2(3) by auto
  have "get_label a d'' = k" "get_label b d'' = v" if "prefix (id_to_label d') (id_to_label d'')" for d''
    using that 1 2 3 get_label_prefix [of d1 d'' a] get_label_prefix [of d2 d'' b]
    by (auto dest: prefix_order.trans)
  then show ?case
    using 1 2 3 by (auto simp: bs e dict_decompress_loop_step dest: prefix_order.trans)
qed

lemma dict_roundtrip:
  assumes "smap_ok m" "dict_ok d" "length (id_to_label d) + 2 * length m < 2 ^ 32"
    and "dict_compress m d = (bs, d')"
  shows "dict_decompress bs d' = Some m"
  using dict_compress_spec [OF assms(2,3,4)] foldl_smap_insert [of "[]" m] assms(1)
  by (simp add: dict_decompress_def)


section \<open>Decoding arbitrary bytes\<close>

lemma simple_ts_loop_count:
  "length (simple_ts_loop count t data result) \<le> max (length result) count"
  by (induction count t data result rule: simple_ts_loop.induct) (auto simp: Let_def)

lemma simple_ts_loop_length:
  "length (simple_ts_loop count t data result) \<le> length result + length data"
proof (induction count t data result rule: simple_ts_loop.induct)
  case (2 count t flag rest result)
  then show ?case using length_read_delta [of flag rest] by (auto simp: Let_def)
qed simp

lemma simple_val_loop_count:
  "length (simple_val_loop count v data result) \<le> max (length result) count"
  by (induction count v data result rule: simple_val_loop.induct)
    (auto simp: Let_def split: option.splits)

lemma simple_val_loop_length:
  "length (simple_val_loop count v data result) \<le> length result + length data"
proof (induction count v data result rule: simple_val_loop.induct)
  case (2 count v flag rest result)
  show ?case
  proof (cases "read_xor flag rest")
    case (Some p)
    then show ?thesis
      using 2 length_read_xor [of flag rest "fst p" "snd p"]
      by (cases p) (force simp: Let_def)
  qed simp
qed simp

section \<open>Properties\<close>

text \<open>
  C22: \<open>SimpleTimestampCompressor\<close> is lossless: decompressing the compressed form of any
  column of fewer than \<open>2^32\<close> timestamps (in any order, with any signed differences) returns
  exactly that column.
\<close>

theorem timestamp_column_roundtrip:
  "length ts < 2 ^ 32 \<Longrightarrow> simple_ts_decompress (simple_ts_compress ts) = ts"
  using simple_ts.roundtrip [of ts] by simp

theorem timestamp_column_roundtrip_witness:
  "simple_ts_decompress (simple_ts_compress [1000, 1000, 900, 60000, 9000000000]) =
     [1000, 1000, 900, 60000, 9000000000]"
  by (rule timestamp_column_roundtrip) simp

text \<open>
  \<open>SimpleValueCompressor\<close> is lossless on bit patterns: any column of fewer than \<open>2^32\<close>
  doubles, NaN payloads and signed zeros included, is returned bit for bit.
\<close>

theorem value_column_roundtrip:
  "length vs < 2 ^ 32 \<Longrightarrow> simple_val_decompress (simple_val_compress vs) = vs"
  using simple_val.roundtrip [of vs] by simp

theorem value_column_roundtrip_witness:
  "simple_val_decompress (simple_val_compress [0x3FF0000000000000, 0x7FF8000000000001, 0]) =
     [0x3FF0000000000000, 0x7FF8000000000001, 0]"
  by (rule value_column_roundtrip) simp

text \<open>
  On arbitrary (also corrupt) input both column decoders stop, return no more entries than
  the header announces (one is always read) and no more than the input has bytes for: twelve
  bytes for the first entry and at least one for each later one.
\<close>

theorem column_decoders_bounded:
  "length (simple_ts_decompress data) \<le> max 1 (unat (le_word (take 4 data) :: uint32))
   \<and> (simple_ts_decompress data = [] \<or> length (simple_ts_decompress data) + 11 \<le> length data)
   \<and> length (simple_val_decompress data) \<le> max 1 (unat (le_word (take 4 data) :: uint32))
   \<and> (simple_val_decompress data = [] \<or> length (simple_val_decompress data) + 11 \<le> length data)"
proof -
  let ?n = "unat (le_word (take 4 data) :: uint32)"
  let ?t = "le_word (take 8 (drop 4 data)) :: 64 word"
  note bounds = simple_ts_loop_count [of ?n ?t "drop 12 data" "[?t]"]
    simple_ts_loop_length [of ?n ?t "drop 12 data" "[?t]"]
    simple_val_loop_count [of ?n ?t "drop 12 data" "[?t]"]
    simple_val_loop_length [of ?n ?t "drop 12 data" "[?t]"]
  show ?thesis
    using bounds by (auto simp: simple_ts_decompress_def simple_val_decompress_def Let_def)
qed

text \<open>
  The label dictionary is lossless: compressing a label set and decompressing the ids with
  the resulting dictionary returns that label set, and the dictionary's two tables stay inverse
  to each other, as long as the ids fit 32 bits.
\<close>

theorem label_dictionary_roundtrip:
  assumes "smap_ok m" "dict_ok d" "length (id_to_label d) + 2 * length m < 2 ^ 32"
    and "dict_compress m d = (bs, d')"
  shows "dict_decompress bs d' = Some m \<and> dict_ok d'"
  using dict_roundtrip [OF assms] dict_compress_spec [OF assms(2,3,4)] by simp

theorem label_dictionary_roundtrip_witness:
  "let m = [(''host'', ''a''), (''job'', ''a'')]; (bs, d') = dict_compress m empty_dict
   in length bs = 16 \<and> dict_decompress bs d' = Some m \<and> dict_ok d'"
proof -
  let ?m = "[(''host'', ''a''), (''job'', ''a'')]"
  obtain bs d' where c: "dict_compress ?m empty_dict = (bs, d')" by force
  have len: "length bs = 16"
    using c by (auto simp: add_label_def empty_dict_def Let_def split: prod.splits)
  have "smap_ok ?m" by (simp add: smap_ok_Cons)
  then have "dict_decompress bs d' = Some ?m \<and> dict_ok d'"
    by (rule label_dictionary_roundtrip [OF _ dict_ok_empty _ c]) (simp add: empty_dict_def)
  with len c show ?thesis by simp
qed

end
