(* ===== verification/Byte_Compressor.thy ===== *)
theory Byte_Compressor
  imports Simple_Compressor
begin

text \<open>
  The byte-vector compressors \<open>GorillaCompressor\<close>, \<open>XORCompressor\<close> and \<open>RLECompressor\<close>, their
  chunk variants writing into a caller's buffer, the factory that selects one, and the
  adapters that put timestamp and value columns through them
  (\<open>src/tsdb/storage/compression.cpp\<close>). An error of \<open>core::Result\<close> is \<open>Inl\<close>; a read past the
  end of a vector is \<open>None\<close>. The locale \<open>byte_codec\<close> states what an adapter needs of the
  compressor below it, and every adapter is an instance of \<open>vec_codec\<close>.
\<close>

section \<open>GorillaCompressor\<close>

text \<open>The loop over whole 8-byte groups; a shorter last group is skipped.\<close>

function gorilla_deltas :: "int64 \<Rightarrow> byte list \<Rightarrow> byte list" where
  "gorilla_deltas prev data =
     (if data = [] then []
      else if 8 \<le> length data then
        let cur = le_word (take 8 data)
        in encode_delta (cur - prev) @ gorilla_deltas cur (drop 8 data)
      else gorilla_deltas prev (drop 8 data))"
  by pat_completeness auto
termination
  by (relation "measure (\<lambda>(prev, data). length data)") auto

declare gorilla_deltas.simps [simp del]

definition gorilla_compress :: "byte list \<Rightarrow> byte list result" where
  "gorilla_compress data =
     (if data = [] then Inr []
      else
        let header = le_bytes 4 (of_nat (length data) :: uint32) in
        if 8 \<le> length data then
          Inr (header @ take 8 data @ gorilla_deltas (le_word (take 8 data)) (drop 8 data))
        else Inr header)"

text \<open>The \<open>switch (flag)\<close> of the decoder, with its two error returns.\<close>

definition read_delta_checked :: "byte \<Rightarrow> byte list \<Rightarrow> (int64 \<times> byte list) result" where
  "read_delta_checked flag rest =
     (if flag = 0x00 then Inr (0, rest)
      else if flag = 0x01 then
        (case rest of [] \<Rightarrow> Inl ''Invalid compressed data: truncated''
         | b # rest' \<Rightarrow> Inr (scast b, rest'))
      else if flag = 0x02 then
        (if length rest < 2 then Inl ''Invalid compressed data: truncated''
         else Inr (scast (le_word (take 2 rest) :: 16 word), drop 2 rest))
      else if flag = 0x03 then
        (if length rest < 8 then Inl ''Invalid compressed data: truncated''
         else Inr (le_word (take 8 rest), drop 8 rest))
      else Inl ''Invalid compression flag'')"

lemma length_read_delta_checked:
  "read_delta_checked flag rest = Inr (d, rest') \<Longrightarrow> length rest' \<le> length rest"
  by (auto simp: read_delta_checked_def split: list.splits if_splits)

function gorilla_loop :: "nat \<Rightarrow> int64 \<Rightarrow> byte list \<Rightarrow> byte list \<Rightarrow> byte list result" where
  "gorilla_loop original_size prev [] out = Inr out"
| "gorilla_loop original_size prev (flag # rest) out =
     (if length out < original_size then
        (case read_delta_checked flag rest of
           Inl e \<Rightarrow> Inl e
         | Inr (delta, rest') \<Rightarrow>
             gorilla_loop original_size (prev + delta) rest' (out @ le_bytes 8 (prev + delta)))
      else Inr out)"
  by pat_completeness auto
termination
  by (relation "measure (\<lambda>(n, prev, data, out). length data)")
    (auto simp: le_imp_less_Suc dest: length_read_delta_checked)

definition gorilla_decompress :: "byte list \<Rightarrow> byte list result" where
  "gorilla_decompress data =
     (if data = [] then Inr []
      else if length data < 4 then Inl ''Invalid compressed data: too small''
      else
        let original_size = unat (le_word (take 4 data) :: uint32); rest = drop 4 data in
        if 8 \<le> length rest then
          gorilla_loop original_size (le_word (take 8 rest)) (drop 8 rest) (take 8 rest)
        else Inr [])"

section \<open>XORCompressor\<close>

definition xor_compress :: "byte list \<Rightarrow> byte list result" where
  "xor_compress data =
     (if data = [] then Inr []
      else
        let header = le_bytes 4 (of_nat (length data) :: uint32) in
        if 8 \<le> length data then
          Inr (header @ take 8 data @ gorilla_deltas (le_word (take 8 data)) (drop 8 data))
        else Inr header)"

definition xor_decompress :: "byte list \<Rightarrow> byte list result" where
  "xor_decompress data =
     (if data = [] then Inr []
      else if length data < 4 then Inl ''Invalid compressed data: too small''
      else
        let original_size = unat (le_word (take 4 data) :: uint32); rest = drop 4 data in
        if 8 \<le> length rest then
          gorilla_loop original_size (le_word (take 8 rest)) (drop 8 rest) (take 8 rest)
        else Inr [])"

section \<open>RLECompressor\<close>

text \<open>Writing one run, in pieces of at most 255.\<close>

fun write_run :: "byte \<Rightarrow> nat \<Rightarrow> byte list" where
  "write_run b run =
     (if 0 < run then
        let chunk = (if 255 < run then 255 else run)
        in b # of_nat chunk # write_run b (run - chunk)
      else [])"

declare write_run.simps [simp del]

fun rle_loop :: "byte \<Rightarrow> nat \<Rightarrow> byte list \<Rightarrow> byte list" where
  "rle_loop cur run [] = write_run cur run"
| "rle_loop cur run (b # data) =
     (if b = cur \<and> run < 65535 then rle_loop cur (run + 1) data
      else write_run cur run @ rle_loop b 1 data)"

definition rle_compress :: "byte list \<Rightarrow> byte list result" where
  "rle_compress data =
     (case data of
        [] \<Rightarrow> Inr []
      | b # rest \<Rightarrow> Inr (le_bytes 4 (of_nat (length data) :: uint32) @ rle_loop b 1 rest))"

fun rle_expand :: "byte list \<Rightarrow> byte list" where
  "rle_expand (value # count # rest) = replicate (unat count) value @ rle_expand rest"
| "rle_expand _ = []"

definition rle_decompress :: "byte list \<Rightarrow> byte list result" where
  "rle_decompress data =
     (if data = [] then Inr []
      else if length data < 4 then Inl ''Invalid compressed data: too small''
      else Inr (rle_expand (drop 4 data)))"

section \<open>Chunk variants\<close>

text \<open>
  \<open>compressChunk\<close> and \<open>decompressChunk\<close> of all three compressors: run the vector operation,
  refuse a result longer than the output buffer, otherwise overwrite the front of the buffer.
  The value is the number of bytes written and the buffer afterwards.
\<close>

definition run_chunk ::
  "(byte list \<Rightarrow> byte list result) \<Rightarrow> byte list \<Rightarrow> byte list \<Rightarrow> (nat \<times> byte list) result" where
  "run_chunk op data out =
     (case op data of
        Inl e \<Rightarrow> Inl e
      | Inr r \<Rightarrow>
          if length out < length r then Inl ''Output buffer too small''
          else Inr (length r, r @ drop (length r) out))"

definition gorilla_compressChunk :: "byte list \<Rightarrow> byte list \<Rightarrow> (nat \<times> byte list) result" where
  "gorilla_compressChunk = run_chunk gorilla_compress"

definition gorilla_decompressChunk :: "byte list \<Rightarrow> byte list \<Rightarrow> (nat \<times> byte list) result" where
  "gorilla_decompressChunk = run_chunk gorilla_decompress"

definition rle_compressChunk :: "byte list \<Rightarrow> byte list \<Rightarrow> (nat \<times> byte list) result" where
  "rle_compressChunk = run_chunk rle_compress"

definition rle_decompressChunk :: "byte list \<Rightarrow> byte list \<Rightarrow> (nat \<times> byte list) result" where
  "rle_decompressChunk = run_chunk rle_decompress"

definition xor_compressChunk :: "byte list \<Rightarrow> byte list \<Rightarrow> (nat \<times> byte list) result" where
  "xor_compressChunk = run_chunk xor_compress"

definition xor_decompressChunk :: "byte list \<Rightarrow> byte list \<Rightarrow> (nat \<times> byte list) result" where
  "xor_decompressChunk = run_chunk xor_decompress"

section \<open>The factory\<close>

datatype algorithm = NONE | GORILLA | DELTA_XOR | DICTIONARY | RLE

datatype compressor = GorillaCompressor | RLECompressor | XORCompressor

definition create_compressor :: "algorithm \<Rightarrow> compressor" where
  "create_compressor algo =
     (case algo of
        GORILLA \<Rightarrow> GorillaCompressor
      | DELTA_XOR \<Rightarrow> XORCompressor
      | RLE \<Rightarrow> RLECompressor
      | DICTIONARY \<Rightarrow> RLECompressor
      | NONE \<Rightarrow> XORCompressor)"

text \<open>The virtual calls \<open>Compressor::compress\<close> and \<open>Compressor::decompress\<close>.\<close>

fun compress_with :: "compressor \<Rightarrow> byte list \<Rightarrow> byte list result" where
  "compress_with GorillaCompressor = gorilla_compress"
| "compress_with RLECompressor = rle_compress"
| "compress_with XORCompressor = xor_compress"

fun decompress_with :: "compressor \<Rightarrow> byte list \<Rightarrow> byte list result" where
  "decompress_with GorillaCompressor = gorilla_decompress"
| "decompress_with RLECompressor = rle_decompress"
| "decompress_with XORCompressor = xor_decompress"

section \<open>Column adapters\<close>

definition column_bytes :: "64 word list \<Rightarrow> byte list" where
  "column_bytes xs = concat (map (le_bytes 8) xs)"

text \<open>
  The loop copying 8 bytes per entry back; it has no bounds check, so a byte vector whose
  length is not a multiple of 8 is read past its end: \<open>None\<close>.
\<close>

function column_of_bytes :: "byte list \<Rightarrow> 64 word list option" where
  "column_of_bytes bs =
     (if bs = [] then Some []
      else if length bs < 8 then None
      else map_option (\<lambda>xs. le_word (take 8 bs) # xs) (column_of_bytes (drop 8 bs)))"
  by pat_completeness auto
termination
  by (relation "measure length") auto

declare column_of_bytes.simps [simp del]

text \<open>The common body of the six \<open>compress\<close> and six \<open>decompress\<close> adapters.\<close>

definition adapter_compress ::
  "(byte list \<Rightarrow> byte list result) \<Rightarrow> 64 word list \<Rightarrow> byte list" where
  "adapter_compress enc xs =
     (if xs = [] then []
      else case enc (column_bytes xs) of Inl e \<Rightarrow> [] | Inr r \<Rightarrow> r)"

definition adapter_decompress ::
  "(byte list \<Rightarrow> byte list result) \<Rightarrow> byte list \<Rightarrow> 64 word list option" where
  "adapter_decompress dec data =
     (if data = [] then Some []
      else case dec data of Inl e \<Rightarrow> Some [] | Inr r \<Rightarrow> column_of_bytes r)"

definition gorilla_ts_compress :: "int64 list \<Rightarrow> byte list" where
  "gorilla_ts_compress = adapter_compress gorilla_compress"

definition gorilla_ts_decompress :: "byte list \<Rightarrow> int64 list option" where
  "gorilla_ts_decompress = adapter_decompress gorilla_decompress"

definition xor_ts_compress :: "int64 list \<Rightarrow> byte list" where
  "xor_ts_compress = adapter_compress xor_compress"

definition xor_ts_decompress :: "byte list \<Rightarrow> int64 list option" where
  "xor_ts_decompress = adapter_decompress xor_decompress"

definition rle_ts_compress :: "int64 list \<Rightarrow> byte list" where
  "rle_ts_compress = adapter_compress rle_compress"

definition rle_ts_decompress :: "byte list \<Rightarrow> int64 list option" where
  "rle_ts_decompress = adapter_decompress rle_decompress"

definition gorilla_val_compress :: "double list \<Rightarrow> byte list" where
  "gorilla_val_compress = adapter_compress gorilla_compress"

definition gorilla_val_decompress :: "byte list \<Rightarrow> double list option" where
  "gorilla_val_decompress = adapter_decompress gorilla_decompress"

definition xor_val_compress :: "double list \<Rightarrow> byte list" where
  "xor_val_compress = adapter_compress xor_compress"

definition xor_val_decompress :: "byte list \<Rightarrow> double list option" where
  "xor_val_decompress = adapter_decompress xor_decompress"

definition rle_val_compress :: "double list \<Rightarrow> byte list" where
  "rle_val_compress = adapter_compress rle_compress"

definition rle_val_decompress :: "byte list \<Rightarrow> double list option" where
  "rle_val_decompress = adapter_decompress rle_decompress"

section \<open>Label adapters\<close>

definition rle_label_compress :: "labels \<Rightarrow> byte list" where
  "rle_label_compress labels =
     (case rle_compress (string_bytes (labels_to_string labels)) of
        Inl e \<Rightarrow> []
      | Inr r \<Rightarrow> r)"

text \<open>Decoding runs the decompressor and then returns empty labels in every case.\<close>

definition rle_label_decompress :: "byte list \<Rightarrow> labels" where
  "rle_label_decompress data =
     (if data = [] then []
      else case rle_decompress data of Inl e \<Rightarrow> [] | Inr r \<Rightarrow> [])"

text \<open>\<open>DictionaryLabelCompressor\<close> repeats \<open>SimpleLabelCompressor\<close> statement by statement.\<close>

definition dictionary_add_label :: "string \<Rightarrow> label_dict \<Rightarrow> uint32 \<times> label_dict" where
  "dictionary_add_label = add_label"

definition dictionary_get_label :: "uint32 \<Rightarrow> label_dict \<Rightarrow> string" where
  "dictionary_get_label = get_label"

definition dictionary_compress :: "labels \<Rightarrow> label_dict \<Rightarrow> byte list \<times> label_dict" where
  "dictionary_compress = dict_compress"

definition dictionary_decompress :: "byte list \<Rightarrow> label_dict \<Rightarrow> labels option" where
  "dictionary_decompress = dict_decompress"


section \<open>Gorilla and XOR: exact round trip, sizes, errors\<close>

lemma read_delta_checked_encode:
  "\<exists>flag payload. encode_delta d = flag # payload
     \<and> (\<forall>tail. read_delta_checked flag (payload @ tail) = Inr (d, tail))"
proof -
  have one: "scast (ucast d :: byte) = d" if "- 127 \<le> sint d" "sint d \<le> 127"
    using that by (intro scast_ucast_signed) auto
  have two: "scast (ucast d :: 16 word) = d" if "- 32767 \<le> sint d" "sint d \<le> 32767"
    using that by (intro scast_ucast_signed) auto
  show ?thesis
    using one two le_word_two_bytes [of d]
    by (auto simp: encode_delta_def read_delta_checked_def)
qed

lemma gorilla_loop_step:
  assumes "length out < n"
  shows "gorilla_loop n prev (encode_delta d @ tail) out =
    gorilla_loop n (prev + d) tail (out @ le_bytes 8 (prev + d))"
proof -
  obtain flag payload where "encode_delta d = flag # payload"
    and "read_delta_checked flag (payload @ tail) = Inr (d, tail)"
    using read_delta_checked_encode [of d] by blast
  with assms show ?thesis by simp
qed

lemma take_8_div_step:
  assumes "8 \<le> length data"
  shows "take (8 * (length data div 8)) data =
    take 8 data @ take (8 * (length (drop 8 data) div 8)) (drop 8 data)"
proof -
  have "8 * (length data div 8) = 8 + 8 * (length (drop 8 data) div 8)"
    using assms by (simp add: le_div_geq)
  then show ?thesis by (simp only: take_add)
qed

lemma gorilla_loop_deltas:
  assumes "length out + length data \<le> n"
  shows "gorilla_loop n prev (gorilla_deltas prev data) out =
    Inr (out @ take (8 * (length data div 8)) data)"
  using assms
proof (induction prev data arbitrary: out rule: gorilla_deltas.induct)
  case (1 prev data)
  consider "data = []" | "8 \<le> length data" | "data \<noteq> []" "length data < 8" by linarith
  then show ?case
  proof cases
    case 1
    then show ?thesis by (simp add: gorilla_deltas.simps)
  next
    case 2
    have le: "le_bytes 8 (le_word (take 8 data) :: int64) = take 8 data"
      using 2 by (intro le_bytes_le_word_64) simp
    have "gorilla_loop n prev (gorilla_deltas prev data) out =
        gorilla_loop n (le_word (take 8 data)) (gorilla_deltas (le_word (take 8 data)) (drop 8 data))
          (out @ take 8 data)"
      using 2 "1.prems" by (subst gorilla_deltas.simps) (auto simp: gorilla_loop_step le Let_def)
    also have "\<dots> = Inr ((out @ take 8 data) @ take (8 * (length (drop 8 data) div 8)) (drop 8 data))"
      using 2 "1.prems" by (intro "1.IH") auto
    finally show ?thesis by (simp only: take_8_div_step [OF 2] append_assoc)
  next
    case 3
    then show ?thesis by (simp add: gorilla_deltas.simps [of prev data] gorilla_deltas.simps [of prev "[]"])
  qed
qed

lemma gorilla_exact:
  assumes "length data < 2 ^ 32"
  shows "\<exists>c. gorilla_compress data = Inr c
    \<and> gorilla_decompress c = Inr (take (8 * (length data div 8)) data)"
proof (cases "8 \<le> length data")
  case True
  have "gorilla_loop (length data) (le_word (take 8 data))
      (gorilla_deltas (le_word (take 8 data)) (drop 8 data)) (take 8 data) =
      Inr (take (8 * (length data div 8)) data)"
    using True by (subst gorilla_loop_deltas) (auto simp: take_8_div_step)
  with True assms show ?thesis
    by (auto simp: gorilla_compress_def gorilla_decompress_def Let_def)
next
  case False
  then show ?thesis
    by (auto simp: gorilla_compress_def gorilla_decompress_def Let_def)
qed

lemma xor_eq_gorilla: "xor_compress = gorilla_compress" "xor_decompress = gorilla_decompress"
  by (simp_all add: fun_eq_iff xor_compress_def gorilla_compress_def
      xor_decompress_def gorilla_decompress_def)

lemma length_encode_delta: "length (encode_delta d) \<le> 9"
  by (simp add: encode_delta_def)

lemma length_gorilla_deltas: "length (gorilla_deltas prev data) \<le> 9 * (length data div 8)"
proof (induction prev data rule: gorilla_deltas.induct)
  case (1 prev data)
  show ?case
  proof (cases "8 \<le> length data")
    case True
    then have "data \<noteq> []" by auto
    from "1.IH"(1) [OF this True refl]
    have "length (gorilla_deltas (le_word (take 8 data)) (drop 8 data))
        \<le> 9 * ((length data - 8) div 8)" by simp
    moreover have "length data div 8 = Suc ((length data - 8) div 8)"
      using True by (simp add: le_div_geq)
    ultimately show ?thesis
      using True length_encode_delta [of "le_word (take 8 data) - prev"]
      by (subst gorilla_deltas.simps) (auto simp: Let_def)
  next
    case False
    then show ?thesis by (simp add: gorilla_deltas.simps [of prev data] gorilla_deltas.simps [of prev "[]"])
  qed
qed

lemma length_gorilla_compress:
  assumes "gorilla_compress data = Inr c"
  shows "length c \<le> length data + length data div 8 + 4"
proof (cases "8 \<le> length data")
  case True
  have "length (gorilla_deltas p (drop 8 data)) \<le> 9 * ((length data - 8) div 8)" for p
    using length_gorilla_deltas [of p "drop 8 data"] by simp
  then have "length c \<le> 12 + 9 * ((length data - 8) div 8)"
    using assms True by (auto simp: gorilla_compress_def Let_def split: if_splits)
  moreover have "8 * ((length data - 8) div 8) \<le> length data - 8" by simp
  ultimately show ?thesis using True by linarith
next
  case False
  with assms show ?thesis by (auto simp: gorilla_compress_def Let_def split: if_splits)
qed

text \<open>Whatever the input, the decoder's output is a whole number of 8-byte groups.\<close>

lemma gorilla_loop_dvd:
  "gorilla_loop n prev data out = Inr r \<Longrightarrow> 8 dvd length out \<Longrightarrow> 8 dvd length r"
  by (induction n prev data out rule: gorilla_loop.induct) (auto split: if_splits sum.splits)

lemma gorilla_decompress_dvd: "gorilla_decompress data = Inr r \<Longrightarrow> 8 dvd length r"
  by (auto simp: gorilla_decompress_def Let_def split: if_splits intro: gorilla_loop_dvd)

section \<open>RLE\<close>

lemma rle_expand_write_run: "rle_expand (write_run b run @ tail) = replicate run b @ rle_expand tail"
proof (induction b run rule: write_run.induct)
  case (1 b run)
  show ?case
  proof (cases "0 < run")
    case True
    define chunk where "chunk = (if 255 < run then 255 else run)"
    have "unat (of_nat chunk :: byte) = chunk" by (simp add: chunk_def unat_of_nat)
    moreover have "write_run b run = b # of_nat chunk # write_run b (run - chunk)"
      using True by (subst write_run.simps) (simp add: chunk_def Let_def)
    moreover have "rle_expand (write_run b (run - chunk) @ tail) = replicate (run - chunk) b @ rle_expand tail"
      using "1.IH" [OF True chunk_def] .
    moreover have "run = chunk + (run - chunk)" by (simp add: chunk_def)
    ultimately show ?thesis
      by (metis append_Cons append_assoc replicate_add rle_expand.simps(1))
  qed (simp add: write_run.simps)
qed

lemma rle_expand_loop: "rle_expand (rle_loop cur run data) = replicate run cur @ data"
proof (induction cur run data rule: rle_loop.induct)
  case (1 cur run)
  show ?case using rle_expand_write_run [of cur run "[]"] by simp
next
  case (2 cur run b data)
  then show ?case
    by (auto simp: rle_expand_write_run replicate_app_Cons_same)
qed

lemma rle_exact: "\<exists>c. rle_compress data = Inr c \<and> rle_decompress c = Inr data"
  by (cases data) (auto simp: rle_compress_def rle_decompress_def rle_expand_loop)

section \<open>Adapters\<close>

lemma length_column_bytes [simp]: "length (column_bytes xs) = 8 * length xs"
  by (induction xs) (auto simp: column_bytes_def)

lemma column_of_bytes_column_bytes: "column_of_bytes (column_bytes xs) = Some xs"
proof (induction xs)
  case Nil
  then show ?case by (simp add: column_bytes_def column_of_bytes.simps)
next
  case (Cons x xs)
  then show ?case
    by (subst column_of_bytes.simps) (auto simp: column_bytes_def)
qed

lemma column_of_bytes_dvd: "8 dvd length bs \<Longrightarrow> column_of_bytes bs \<noteq> None"
proof (induction bs rule: column_of_bytes.induct)
  case (1 bs)
  show ?case
  proof (cases "bs = []")
    case False
    then have "8 \<le> length bs" using "1.prems" by (intro dvd_imp_le) auto
    moreover have "8 dvd length (drop 8 bs)" using "1.prems" by (auto simp: dvd_diff_nat)
    ultimately show ?thesis using False "1.IH" by (subst column_of_bytes.simps) auto
  qed (simp add: column_of_bytes.simps)
qed

text \<open>
  What an adapter needs of the compressor under it, on the byte images of columns of fewer
  than \<open>words\<close> entries.
\<close>

locale byte_codec =
  fixes enc :: "byte list \<Rightarrow> byte list result"
    and dec :: "byte list \<Rightarrow> byte list result"
    and words :: nat
  assumes byte_roundtrip:
      "8 dvd length bs \<Longrightarrow> length bs < 8 * words \<Longrightarrow> \<exists>c. enc bs = Inr c \<and> dec c = Inr bs"
    and dec_Nil: "dec [] = Inr []"
begin

lemma adapter_roundtrip:
  assumes "length xs < words"
  shows "adapter_decompress dec (adapter_compress enc xs) = Some xs"
proof (cases "xs = []")
  case False
  obtain c where c: "enc (column_bytes xs) = Inr c" "dec c = Inr (column_bytes xs)"
    using byte_roundtrip [of "column_bytes xs"] assms by auto
  have "column_bytes xs \<noteq> []" using False by (cases xs) (auto simp: column_bytes_def)
  with c dec_Nil have "c \<noteq> []" by auto
  with c False show ?thesis
    by (simp add: adapter_compress_def adapter_decompress_def column_of_bytes_column_bytes)
qed (simp add: adapter_compress_def adapter_decompress_def)

lemma chunk_roundtrip:
  assumes "8 dvd length bs" "length bs < 8 * words"
    and "run_chunk enc bs out = Inr (k, out')" "length bs \<le> length buf"
  shows "run_chunk dec (take k out') buf = Inr (length bs, bs @ drop (length bs) buf)"
proof -
  obtain c where c: "enc bs = Inr c" "dec c = Inr bs" using byte_roundtrip [OF assms(1,2)] by auto
  with assms(3) have "take k out' = c" by (auto simp: run_chunk_def split: if_splits)
  with c assms(4) show ?thesis by (simp add: run_chunk_def)
qed

end

sublocale byte_codec \<subseteq> adapter: vec_codec "adapter_compress enc" "adapter_decompress dec" words
proof
  show "adapter_compress enc [] = []" "adapter_decompress dec [] = Some []"
    by (simp_all add: adapter_compress_def adapter_decompress_def)
qed (rule adapter_roundtrip)

interpretation gorilla: byte_codec gorilla_compress gorilla_decompress "2 ^ 29"
proof
  fix bs :: "byte list"
  assume "8 dvd length bs" "length bs < 8 * 2 ^ 29"
  then show "\<exists>c. gorilla_compress bs = Inr c \<and> gorilla_decompress c = Inr bs"
    using gorilla_exact [of bs] by auto
qed (simp add: gorilla_decompress_def)

interpretation xor: byte_codec xor_compress xor_decompress "2 ^ 29"
  unfolding xor_eq_gorilla by (rule gorilla.byte_codec_axioms)

interpretation rle: byte_codec rle_compress rle_decompress words for words
proof
  show "rle_decompress [] = Inr []" by (simp add: rle_decompress_def)
qed (rule rle_exact)


section \<open>Properties\<close>

text \<open>
  What \<open>GorillaCompressor\<close> preserves, exactly: for any input of fewer than \<open>2^32\<close> bytes,
  decompressing the compressed form succeeds and returns the input cut down to whole 8-byte
  groups; the up to seven bytes after the last whole group are lost.
\<close>

theorem gorilla_preserves_whole_groups:
  "length data < 2 ^ 32 \<Longrightarrow>
     \<exists>c. gorilla_compress data = Inr c
       \<and> gorilla_decompress c = Inr (take (8 * (length data div 8)) data)"
  by (rule gorilla_exact)

theorem gorilla_preserves_whole_groups_witness:
  "\<exists>c. gorilla_compress [1, 2, 3, 4, 5, 6, 7, 8, 9] = Inr c
     \<and> gorilla_decompress c = Inr [1, 2, 3, 4, 5, 6, 7, 8]"
  using gorilla_preserves_whole_groups [of "[1, 2, 3, 4, 5, 6, 7, 8, 9]"] by simp

text \<open>
  \<open>RLECompressor\<close> is lossless on every byte vector, whatever its length and however long
  its runs (runs are cut at 65535 and written in pieces of at most 255).
\<close>

theorem rle_lossless: "\<exists>c. rle_compress data = Inr c \<and> rle_decompress c = Inr data"
  by (rule rle_exact)

text \<open>
  C35: Whichever algorithm is configured, the compressor the factory creates for it is lossless
  on every byte vector made of whole 8-byte words below \<open>2^32\<close> bytes.
\<close>

theorem factory_compressor_lossless:
  assumes "8 dvd length data" "length data < 2 ^ 32"
  shows "\<exists>c. compress_with (create_compressor algo) data = Inr c
    \<and> decompress_with (create_compressor algo) c = Inr data"
proof -
  have "length data < 8 * 2 ^ 29" using assms(2) by simp
  note rts = gorilla.byte_roundtrip [OF assms(1) this] xor.byte_roundtrip [OF assms(1) this]
  show ?thesis using rts rle_exact by (cases algo) (simp_all add: create_compressor_def)
qed

theorem factory_compressor_lossless_witness:
  "\<exists>c. compress_with (create_compressor DICTIONARY) (replicate 16 7) = Inr c
    \<and> decompress_with (create_compressor DICTIONARY) c = Inr (replicate 16 7)"
  by (rule factory_compressor_lossless) simp_all

text \<open>
  The Gorilla, XOR and RLE timestamp and value adapters are lossless on columns of fewer
  than \<open>2^29\<close> entries (\<open>2^32\<close> bytes).
\<close>

theorem column_adapters_roundtrip:
  assumes "length xs < 2 ^ 29"
  shows "gorilla_ts_decompress (gorilla_ts_compress xs) = Some xs
    \<and> xor_ts_decompress (xor_ts_compress xs) = Some xs
    \<and> rle_ts_decompress (rle_ts_compress xs) = Some xs
    \<and> gorilla_val_decompress (gorilla_val_compress xs) = Some xs
    \<and> xor_val_decompress (xor_val_compress xs) = Some xs
    \<and> rle_val_decompress (rle_val_compress xs) = Some xs"
  using gorilla.adapter.roundtrip [OF assms] xor.adapter.roundtrip [OF assms]
    rle.adapter.roundtrip [OF assms]
  by (simp add: gorilla_ts_compress_def gorilla_ts_decompress_def xor_ts_compress_def
      xor_ts_decompress_def rle_ts_compress_def rle_ts_decompress_def gorilla_val_compress_def
      gorilla_val_decompress_def xor_val_compress_def xor_val_decompress_def
      rle_val_compress_def rle_val_decompress_def)

theorem column_adapters_roundtrip_witness:
  "gorilla_ts_decompress (gorilla_ts_compress [5, 7]) = Some [5, 7]
   \<and> rle_val_decompress (rle_val_compress [5, 7]) = Some [5, 7]"
  using column_adapters_roundtrip [of "[5, 7]"] by simp

text \<open>
  The Gorilla and XOR adapters never read outside their buffer, on any input, valid or
  not: the unchecked 8-byte copies of their \<open>decompress\<close> only ever see whole groups.
\<close>

theorem delta_adapters_memory_safe:
  "gorilla_ts_decompress data \<noteq> None \<and> gorilla_val_decompress data \<noteq> None
   \<and> xor_ts_decompress data \<noteq> None \<and> xor_val_decompress data \<noteq> None"
proof -
  have "adapter_decompress gorilla_decompress data \<noteq> None"
    using gorilla_decompress_dvd [of data] column_of_bytes_dvd
    by (auto simp: adapter_decompress_def split: sum.splits)
  then show ?thesis
    by (simp add: gorilla_ts_decompress_def gorilla_val_decompress_def xor_ts_decompress_def
        xor_val_decompress_def xor_eq_gorilla)
qed

text \<open>
  An RLE adapter on a corrupt column does read outside its buffer: a well-formed RLE
  stream of three bytes is expanded and then copied as if it held a whole 8-byte entry.
\<close>

theorem rle_adapter_over_read: "rle_ts_decompress [3, 0, 0, 0, 65, 3] = None"
  by (simp add: rle_ts_decompress_def adapter_decompress_def rle_decompress_def
      column_of_bytes.simps)

text \<open>
  \<open>GorillaCompressor::compressChunk\<close> into a buffer of \<open>n + n/8 + 4\<close> bytes always succeeds
  for \<open>n\<close> input bytes, writes only the front of the buffer, and \<open>decompressChunk\<close> of the bytes
  written restores the input into any buffer it fits.
\<close>

theorem gorilla_chunk_roundtrip:
  assumes "8 dvd length data" "length data < 2 ^ 32"
    and "length data + length data div 8 + 4 \<le> length out" "length data \<le> length buf"
  shows "\<exists>k out'. gorilla_compressChunk data out = Inr (k, out')
    \<and> k \<le> length out \<and> length out' = length out \<and> drop k out' = drop k out
    \<and> gorilla_decompressChunk (take k out') buf = Inr (length data, data @ drop (length data) buf)"
proof -
  obtain c where c: "gorilla_compress data = Inr c" using gorilla_exact [OF assms(2)] by blast
  have fits: "length c \<le> length out" using length_gorilla_compress [OF c] assms(3) by simp
  with c have run: "run_chunk gorilla_compress data out = Inr (length c, c @ drop (length c) out)"
    by (simp add: run_chunk_def)
  have "length data < 8 * 2 ^ 29" using assms(2) by simp
  from gorilla.chunk_roundtrip [OF assms(1) this run assms(4)] fits run show ?thesis
    by (simp add: gorilla_compressChunk_def gorilla_decompressChunk_def)
qed

theorem gorilla_chunk_roundtrip_witness:
  "\<exists>k out'. gorilla_compressChunk (replicate 8 1) (replicate 13 0) = Inr (k, out')
    \<and> k \<le> length (replicate 13 0 :: byte list) \<and> length out' = length (replicate 13 0 :: byte list)
    \<and> drop k out' = drop k (replicate 13 0)
    \<and> gorilla_decompressChunk (take k out') (replicate 9 0) =
        Inr (length (replicate 8 1 :: byte list),
          replicate 8 1 @ drop (length (replicate 8 1 :: byte list)) (replicate 9 0))"
  by (rule gorilla_chunk_roundtrip) simp_all

end
