(* ===== verification/Delta_Of_Delta.thy ===== *)
theory Delta_Of_Delta
  imports Simple_Compressor "HOL-Library.Log_Nat"
begin

text \<open>
  \<open>DeltaOfDeltaEncoder\<close> (\<open>src/tsdb/storage/delta_of_delta_encoder.cpp\<close>): zigzag and LEB128
  varint coding, blocks of delta-of-deltas, the choice of the block size, and the encoder
  object with its configuration and its integer statistics (the three floating-point
  averages of \<open>CompressionStats\<close> are diagnostics and left out). The block loop is a
  \<open>partial_function (option)\<close>, because with a block size of zero it does not return; a read
  past the end of the input is \<open>None\<close> as well.
\<close>

section \<open>Configuration and state\<close>

record dod_config =
  min_block_size :: uint32
  max_block_size :: uint32
  enable_irregular_handling :: bool
  enable_zigzag_encoding :: bool
  compression_level :: uint32

definition default_dod_config :: dod_config where
  "default_dod_config = \<lparr>min_block_size = 64, max_block_size = 1024,
     enable_irregular_handling = True, enable_zigzag_encoding = True, compression_level = 6\<rparr>"

record dod_stats =
  original_size :: nat
  compressed_size :: nat
  blocks_processed :: nat
  irregular_intervals :: nat

definition empty_stats :: dod_stats where
  "empty_stats = \<lparr>original_size = 0, compressed_size = 0, blocks_processed = 0,
     irregular_intervals = 0\<rparr>"

record dod_encoder =
  config :: dod_config
  stats :: dod_stats

definition mk_encoder :: "dod_config \<Rightarrow> dod_encoder" where
  "mk_encoder c = \<lparr>config = c, stats = empty_stats\<rparr>"

definition resetStats :: "dod_encoder \<Rightarrow> dod_encoder" where
  "resetStats e = e\<lparr>stats := empty_stats\<rparr>"

definition updateConfig :: "dod_config \<Rightarrow> dod_encoder \<Rightarrow> dod_encoder" where
  "updateConfig c e = e\<lparr>config := c\<rparr>"

definition createForUseCase :: "string \<Rightarrow> dod_encoder" where
  "createForUseCase use_case =
     mk_encoder
       (if use_case = ''high_frequency'' then
          default_dod_config\<lparr>min_block_size := 128, max_block_size := 2048, compression_level := 8\<rparr>
        else if use_case = ''low_frequency'' then
          default_dod_config\<lparr>min_block_size := 32, max_block_size := 512, compression_level := 4\<rparr>
        else if use_case = ''irregular'' then
          default_dod_config\<lparr>min_block_size := 16, max_block_size := 256,
            enable_irregular_handling := True, compression_level := 6\<rparr>
        else default_dod_config)"

section \<open>Zigzag and varint\<close>

definition zigzagEncode :: "int64 \<Rightarrow> uint64" where
  "zigzagEncode v = push_bit 1 v XOR signed_drop_bit 63 v"

definition zigzagDecode :: "uint64 \<Rightarrow> int64" where
  "zigzagDecode v = drop_bit 1 v XOR (- (v AND 1))"

function writeVarInt :: "uint64 \<Rightarrow> byte list" where
  "writeVarInt v =
     (if 0x80 \<le> v then ucast (v OR 0x80) # writeVarInt (drop_bit 7 v) else [ucast v])"
  by pat_completeness auto
termination
proof (relation "measure unat")
  fix v :: uint64
  assume "0x80 \<le> v"
  then have "0 < unat v" by (simp add: word_le_nat_alt)
  then show "(drop_bit 7 v, v) \<in> measure unat"
    by (simp add: drop_bit_eq_div unat_div)
qed simp

declare writeVarInt.simps [simp del]

fun readVarInt_loop :: "uint64 \<Rightarrow> nat \<Rightarrow> byte list \<Rightarrow> uint64 \<times> byte list" where
  "readVarInt_loop result shift [] = (result, [])"
| "readVarInt_loop result shift (b # data) =
     (let result' = result OR push_bit shift (ucast (b AND 0x7F)) in
      if b AND 0x80 = 0 then (result', data)
      else if 64 \<le> shift + 7 then (result', data)
      else readVarInt_loop result' (shift + 7) data)"

definition readVarInt :: "byte list \<Rightarrow> uint64 \<times> byte list" where
  "readVarInt data = readVarInt_loop 0 0 data"

definition encodeDeltaOfDelta :: "dod_config \<Rightarrow> int64 \<Rightarrow> byte list" where
  "encodeDeltaOfDelta c dod =
     (if enable_zigzag_encoding c then writeVarInt (zigzagEncode dod)
      else if 0 \<le> sint dod then 0x00 # writeVarInt dod
      else 0x01 # writeVarInt (- dod))"

definition decodeDeltaOfDelta :: "dod_config \<Rightarrow> byte list \<Rightarrow> int64 \<times> byte list" where
  "decodeDeltaOfDelta c data =
     (if enable_zigzag_encoding c then
        let (encoded, rest) = readVarInt data in (zigzagDecode encoded, rest)
      else
        (case data of
           [] \<Rightarrow> (0, [])
         | flag # data' \<Rightarrow>
             let (value, rest) = readVarInt data' in
             (if flag = 0x00 then value else - value, rest)))"

section \<open>Blocks\<close>

fun deltas_of :: "int64 \<Rightarrow> int64 list \<Rightarrow> int64 list" where
  "deltas_of prev [] = []"
| "deltas_of prev (t # ts) = (t - prev) # deltas_of t ts"

fun dods_of :: "int64 \<Rightarrow> int64 list \<Rightarrow> int64 list" where
  "dods_of prev_delta [] = []"
| "dods_of prev_delta (d # ds) = (d - prev_delta) # dods_of d ds"

text \<open>The bytes one block appends: count, first timestamp, first delta, then the
  delta-of-deltas.\<close>

definition compressBlock :: "dod_config \<Rightarrow> int64 list \<Rightarrow> nat \<Rightarrow> nat \<Rightarrow> byte list" where
  "compressBlock c timestamps start_idx end_idx =
     (if end_idx \<le> start_idx \<or> length timestamps < end_idx then []
      else
        (case take (end_idx - start_idx) (drop start_idx timestamps) of
           [] \<Rightarrow> []
         | t # ts \<Rightarrow>
             le_bytes 4 (of_nat (end_idx - start_idx) :: uint32) @ le_bytes 8 t @
             (case deltas_of t ts of
                [] \<Rightarrow> []
              | d # ds \<Rightarrow> le_bytes 8 d @ concat (map (encodeDeltaOfDelta c) (dods_of d ds)))))"

text \<open>The \<open>for\<close> loop over the remaining \<open>count - 2\<close> entries of a block.\<close>

fun decode_dods ::
  "dod_config \<Rightarrow> nat \<Rightarrow> int64 \<Rightarrow> int64 \<Rightarrow> byte list \<Rightarrow> int64 list \<Rightarrow> byte list \<times> int64 list" where
  "decode_dods c 0 t delta data result = (data, result)"
| "decode_dods c (Suc n) t delta data result =
     (if data = [] then (data, result)
      else
        let (dod, rest) = decodeDeltaOfDelta c data; delta' = delta + dod; t' = t + delta'
        in decode_dods c n t' delta' rest (result @ [t']))"

definition decompressBlock ::
  "dod_config \<Rightarrow> byte list \<Rightarrow> nat \<Rightarrow> int64 list \<Rightarrow> byte list \<times> int64 list" where
  "decompressBlock c data count result =
     (if count = 0 \<or> data = [] then (data, result)
      else if length data < 8 then (data, result)
      else
        let t = le_word (take 8 data); data1 = drop 8 data; result1 = result @ [t] in
        if count = 1 then (data1, result1)
        else if length data1 < 8 then (data1, result1)
        else
          let delta = le_word (take 8 data1); t' = t + delta in
          decode_dods c (count - 2) t' delta (drop 8 data1) (result1 @ [t']))"

section \<open>Block size\<close>

text \<open>
  \<open>detectRegularIntervals\<close> compares in double precision. Every quantity is an integer times
  \<open>2^-59\<close>: the double nearest to \<open>0.01\<close> is \<open>5764607523034235 * 2^-59\<close>, and conversion and
  product round to 53 significant bits, ties to even.
\<close>

definition fp_round :: "nat \<Rightarrow> nat" where
  "fp_round n =
     (if n < 2 ^ 53 then n
      else
        let e = floorlog 2 n - 53; q = n div 2 ^ e; r = n mod 2 ^ e; half = 2 ^ (e - 1)
        in (if half < r \<or> r = half \<and> odd q then q + 1 else q) * 2 ^ e)"

definition fp_int :: "int \<Rightarrow> int" where
  "fp_int i = sgn i * int (fp_round (nat \<bar>i\<bar>))"

definition abs64 :: "int64 \<Rightarrow> int64" where
  "abs64 x = (if sint x < 0 then - x else x)"

definition exceeds_tolerance :: "int64 \<Rightarrow> int64 \<Rightarrow> bool" where
  "exceeds_tolerance first_interval interval \<longleftrightarrow>
     fp_int (fp_int (sint (abs64 first_interval)) * 5764607523034235)
       < fp_int (sint (abs64 (interval - first_interval))) * 2 ^ 59"

definition detectRegularIntervals :: "int64 list \<Rightarrow> nat \<Rightarrow> nat \<Rightarrow> bool" where
  "detectRegularIntervals timestamps start_idx end_idx =
     (if end_idx - start_idx < 3 then True
      else
        (case take (end_idx - start_idx) (drop start_idx timestamps) of
           [] \<Rightarrow> True
         | t # ts \<Rightarrow>
             (case deltas_of t ts of
                [] \<Rightarrow> True
              | d # ds \<Rightarrow> list_all (\<lambda>i. \<not> exceeds_tolerance d i) (d # ds))))"

definition calculateOptimalBlockSize :: "dod_config \<Rightarrow> int64 list \<Rightarrow> uint32" where
  "calculateOptimalBlockSize c timestamps =
     (if length timestamps \<le> unat (min_block_size c) then of_nat (length timestamps)
      else if detectRegularIntervals timestamps 0 (length timestamps)
        then min (max_block_size c) (of_nat (length timestamps))
      else min (min_block_size c * 2) (of_nat (length timestamps)))"

section \<open>Whole columns\<close>

partial_function (option) dod_block_loop ::
  "dod_config \<Rightarrow> int64 list \<Rightarrow> nat \<Rightarrow> nat \<Rightarrow> byte list \<Rightarrow> nat \<Rightarrow> (byte list \<times> nat) option" where
  "dod_block_loop c timestamps block_size i result blocks =
     (if i < length timestamps then
        dod_block_loop c timestamps block_size (i + block_size)
          (result @ compressBlock c timestamps i (min (i + block_size) (length timestamps)))
          (blocks + 1)
      else Some (result, blocks))"

definition compressWithBlockSize ::
  "int64 list \<Rightarrow> uint32 \<Rightarrow> dod_encoder \<Rightarrow> (byte list \<times> dod_encoder) option" where
  "compressWithBlockSize timestamps block_size e =
     (if timestamps = [] then Some ([], e)
      else
        map_option
          (\<lambda>(result, blocks). (result, e\<lparr>stats := empty_stats\<lparr>original_size := length timestamps * 8,
             blocks_processed := blocks, compressed_size := length result\<rparr>\<rparr>))
          (dod_block_loop (config e) timestamps (unat block_size) 0
             (le_bytes 4 (of_nat (length timestamps) :: uint32) @ le_bytes 4 block_size) 0))"

definition dod_compress :: "int64 list \<Rightarrow> dod_encoder \<Rightarrow> (byte list \<times> dod_encoder) option" where
  "dod_compress timestamps e =
     (if timestamps = [] then Some ([], e)
      else
        let block_size = calculateOptimalBlockSize (config e) timestamps in
        map_option
          (\<lambda>(result, blocks). (result, e\<lparr>stats := empty_stats\<lparr>original_size := length timestamps * 8,
             blocks_processed := blocks, compressed_size := length result\<rparr>\<rparr>))
          (dod_block_loop (config e) timestamps (unat block_size) 0
             (le_bytes 4 (of_nat (length timestamps) :: uint32) @ le_bytes 4 block_size) 0))"

lemma length_readVarInt_loop: "length (snd (readVarInt_loop result shift data)) \<le> length data"
  by (induction result shift data rule: readVarInt_loop.induct) (auto simp: Let_def)

lemma length_decodeDeltaOfDelta: "length (snd (decodeDeltaOfDelta c data)) \<le> length data"
  using length_readVarInt_loop [of 0 0 data] length_readVarInt_loop [of 0 0 "tl data"]
  by (cases data) (auto simp: decodeDeltaOfDelta_def readVarInt_def Let_def split: prod.splits)

lemma length_decode_dods: "length (fst (decode_dods c n t delta data result)) \<le> length data"
proof (induction c n t delta data result rule: decode_dods.induct)
  case (2 c n t delta data result)
  obtain dod rest where d: "decodeDeltaOfDelta c data = (dod, rest)" by force
  with length_decodeDeltaOfDelta [of c data] have "length rest \<le> length data" by simp
  moreover have "length (fst (decode_dods c n (t + (delta + dod)) (delta + dod) rest
      (result @ [t + (delta + dod)]))) \<le> length rest" if "data \<noteq> []"
    using 2 [OF that d [symmetric] refl refl refl] by simp
  ultimately show ?case by (auto simp: d Let_def)
qed simp

lemma length_decompressBlock: "length (fst (decompressBlock c data count result)) \<le> length data"
proof -
  have "length (fst (decode_dods c (count - 2) t delta (drop 8 (drop 8 data)) r)) \<le> length data" for t delta r
    using length_decode_dods [of c "count - 2" t delta "drop 8 (drop 8 data)" r] by simp
  then show ?thesis by (auto simp: decompressBlock_def Let_def)
qed

text \<open>
  The loop over blocks. The block header is read without a bounds check, so one to three
  bytes left over where a header should be make it read past the end: \<open>None\<close>.
\<close>

function dod_decompress_loop ::
  "dod_config \<Rightarrow> nat \<Rightarrow> byte list \<Rightarrow> int64 list \<Rightarrow> int64 list option" where
  "dod_decompress_loop c total_count data result =
     (if data \<noteq> [] \<and> length result < total_count then
        if length data < 4 then None
        else
          let block_count = unat (le_word (take 4 data) :: uint32); data1 = drop 4 data in
          if data1 = [] then Some result
          else
            dod_decompress_loop c total_count (fst (decompressBlock c data1 block_count result))
              (snd (decompressBlock c data1 block_count result))
      else Some result)"
  by pat_completeness auto
termination
proof (relation "measure (\<lambda>(c, total_count, data, result). length data)")
  fix c total_count and data xa :: "byte list" and result :: "int64 list" and x
  assume "data \<noteq> [] \<and> length result < total_count" "\<not> length data < 4" "xa = drop 4 data"
  then show "((c, total_count, fst (decompressBlock c xa x result), snd (decompressBlock c xa x result)),
      (c, total_count, data, result)) \<in> measure (\<lambda>(c, total_count, data, result). length data)"
    using length_decompressBlock [of c xa x result] by (auto simp: case_prod_unfold)
qed simp

declare dod_decompress_loop.simps [simp del]

definition dod_decompress :: "byte list \<Rightarrow> dod_encoder \<Rightarrow> int64 list option" where
  "dod_decompress data e =
     (if data = [] then Some []
      else if length data < 8 then Some []
      else dod_decompress_loop (config e) (unat (le_word (take 4 data) :: uint32)) (drop 8 data) [])"


section \<open>Zigzag and varint round trips\<close>

lemma bit_zigzagEncode:
  "n < 64 \<Longrightarrow> bit (zigzagEncode v) n \<longleftrightarrow> (0 < n \<and> bit v (n - 1)) \<noteq> bit v 63"
  by (cases n)
    (simp_all only: zigzagEncode_def bit_xor_iff bit_push_bit_iff bit_signed_drop_bit_iff, auto)

lemma zigzag_low_bit: "zigzagEncode v AND 1 = of_bool (bit v 63)"
proof (rule bit_eqI)
  fix n
  assume "possible_bit TYPE(64 word) n"
  then show "bit (zigzagEncode v AND 1) n \<longleftrightarrow> bit (of_bool (bit v 63) :: uint64) n"
    by (cases n) (simp_all add: bit_and_iff bit_zigzagEncode bit_1_iff bit_of_bool_iff)
qed

lemma zigzag_roundtrip: "zigzagDecode (zigzagEncode v) = v"
proof (rule bit_eqI)
  fix n
  assume "possible_bit TYPE(64 word) n"
  then have n: "n < 64" by simp
  have neg: "bit (- (zigzagEncode v AND 1)) n \<longleftrightarrow> bit v 63"
    using n by (cases "bit v 63") (simp_all add: zigzag_low_bit)
  have low: "bit (drop_bit 1 (zigzagEncode v)) n \<longleftrightarrow> bit v n \<noteq> bit v 63"
  proof (cases "n = 63")
    case True
    then show ?thesis using bit_imp_le_length [of "zigzagEncode v" 64] by (auto simp: bit_drop_bit_eq)
  next
    case False
    then show ?thesis using n by (simp add: bit_drop_bit_eq bit_zigzagEncode)
  qed
  show "bit (zigzagDecode (zigzagEncode v)) n \<longleftrightarrow> bit v n"
    unfolding zigzagDecode_def bit_xor_iff neg low by blast
qed

lemma bit_varint_masks:
  "bit (0x7F :: 'a::len word) n \<longleftrightarrow> n < 7 \<and> n < LENGTH('a)"
  "bit (0x80 :: 'a::len word) n \<longleftrightarrow> n = 7 \<and> n < LENGTH('a)"
proof -
  have "(0x7F :: 'a word) = mask 7" "(0x80 :: 'a word) = push_bit 7 1"
    by (simp_all add: mask_eq_exp_minus_1 push_bit_eq_mult)
  then show "bit (0x7F :: 'a word) n \<longleftrightarrow> n < 7 \<and> n < LENGTH('a)"
    "bit (0x80 :: 'a word) n \<longleftrightarrow> n = 7 \<and> n < LENGTH('a)"
    by (simp_all only: bit_mask_iff bit_push_bit_iff bit_1_iff possible_bit_word) auto
qed

lemmas varint_bits = bit_and_iff bit_or_iff bit_ucast_iff bit_take_bit_iff bit_varint_masks

lemma varint_step_join:
  "result OR push_bit shift (take_bit 7 v) OR push_bit (shift + 7) (drop_bit 7 v) =
     result OR push_bit shift (v :: uint64)"
proof (rule bit_eqI)
  fix n
  assume "possible_bit TYPE(64 word) n"
  then have "n < 64" by simp
  then show "bit (result OR push_bit shift (take_bit 7 v) OR push_bit (shift + 7) (drop_bit 7 v)) n
      \<longleftrightarrow> bit (result OR push_bit shift v) n"
    by (cases "shift + 7 \<le> n")
      (auto simp: bit_or_iff bit_push_bit_iff bit_take_bit_iff bit_drop_bit_eq)
qed

lemma varint_byte_low: "ucast ((ucast (v OR 0x80) :: byte) AND 0x7F) = take_bit 7 (v :: uint64)"
  by (rule bit_eqI) (auto simp: varint_bits simp del: bit_numeral_word_iff)

lemma varint_byte_high: "(ucast (v OR 0x80) :: byte) AND 0x80 \<noteq> 0" for v :: uint64
proof -
  have "bit ((ucast (v OR 0x80) :: byte) AND 0x80) 7"
    by (simp add: varint_bits del: bit_numeral_word_iff)
  then show ?thesis by auto
qed

lemma varint_last_byte:
  assumes "\<not> 0x80 \<le> (v :: uint64)"
  shows "(ucast v :: byte) AND 0x80 = 0" "ucast ((ucast v :: byte) AND 0x7F) = v"
proof -
  have "unat v < 2 ^ 7" using assms by (simp add: word_le_nat_alt)
  then have tb: "take_bit 7 v = v"
    by (simp add: take_bit_eq_mod word_arith_nat_mod unat_of_nat)
  have bits: "i < 7" if "bit v i" for i
  proof -
    have "bit (take_bit 7 v) i" using that by (simp only: tb)
    then show ?thesis by (simp add: bit_take_bit_iff)
  qed
  show "(ucast v :: byte) AND 0x80 = 0"
  proof (rule bit_eqI)
    fix n show "bit ((ucast v :: byte) AND 0x80) n \<longleftrightarrow> bit (0 :: byte) n"
      using bits [of n] by (auto simp: varint_bits simp del: bit_numeral_word_iff)
  qed
  show "ucast ((ucast v :: byte) AND 0x7F) = v"
  proof (rule bit_eqI)
    fix n show "bit (ucast ((ucast v :: byte) AND 0x7F) :: uint64) n \<longleftrightarrow> bit v n"
      using bits [of n] by (auto simp: varint_bits simp del: bit_numeral_word_iff)
  qed
qed

lemma readVarInt_loop_write:
  assumes "unat v < 2 ^ (64 - shift)" "shift < 64"
  shows "readVarInt_loop result shift (writeVarInt v @ tail) = (result OR push_bit shift v, tail)"
  using assms
proof (induction v arbitrary: result shift rule: writeVarInt.induct)
  case (1 v)
  show ?case
  proof (cases "0x80 \<le> v")
    case True
    then have "2 ^ 7 \<le> unat v" by (simp add: word_le_nat_alt)
    with "1.prems" have "(2::nat) ^ 7 < 2 ^ (64 - shift)" by linarith
    then have "7 < 64 - shift" by (rule power_less_imp_less_exp [rotated]) simp
    then have shift: "shift + 7 < 64" by simp
    have "unat (drop_bit 7 v) = unat v div 2 ^ 7" by (simp add: drop_bit_eq_div unat_div)
    also have "\<dots> < 2 ^ (64 - (shift + 7))"
    proof (rule less_mult_imp_div_less)
      have "64 - shift = 64 - (shift + 7) + 7" using shift by simp
      then have "(2::nat) ^ (64 - shift) = 2 ^ (64 - (shift + 7)) * 2 ^ 7" by (simp only: power_add)
      with "1.prems"(1) show "unat v < 2 ^ (64 - (shift + 7)) * 2 ^ 7" by simp
    qed
    finally have "unat (drop_bit 7 v) < 2 ^ (64 - (shift + 7))" .
    from "1.IH" [OF True this shift] shift True show ?thesis
      by (simp add: writeVarInt.simps [of v] varint_byte_high varint_byte_low varint_step_join
          or.assoc Let_def)
  next
    case False
    then show ?thesis by (simp add: writeVarInt.simps [of v] varint_last_byte Let_def)
  qed
qed

lemma varint_roundtrip: "readVarInt (writeVarInt v @ tail) = (v, tail)"
  using readVarInt_loop_write [of v 0 0 tail] unsigned_less [of v] by (simp add: readVarInt_def)

lemma writeVarInt_not_Nil [simp]: "writeVarInt v \<noteq> []"
  by (subst writeVarInt.simps) simp

lemma dod_code_roundtrip: "decodeDeltaOfDelta c (encodeDeltaOfDelta c d @ tail) = (d, tail)"
  by (simp add: decodeDeltaOfDelta_def encodeDeltaOfDelta_def varint_roundtrip zigzag_roundtrip)

lemma encodeDeltaOfDelta_not_Nil [simp]: "encodeDeltaOfDelta c d \<noteq> []"
  by (simp add: encodeDeltaOfDelta_def)


section \<open>Block round trip\<close>

lemma decode_dods_encoded:
  "decode_dods c (length ts) t delta
     (concat (map (encodeDeltaOfDelta c) (dods_of delta (deltas_of t ts))) @ tail) result =
     (tail, result @ ts)"
  by (induction ts arbitrary: t delta result) (auto simp: dod_code_roundtrip)

lemma decompressBlock_encoded:
  "decompressBlock c
     (le_bytes 8 t @
      (case deltas_of t ts of
         [] \<Rightarrow> []
       | d # ds \<Rightarrow> le_bytes 8 d @ concat (map (encodeDeltaOfDelta c) (dods_of d ds))) @ tail)
     (Suc (length ts)) result = (tail, result @ t # ts)"
proof (cases ts)
  case (Cons u us)
  then show ?thesis
    using decode_dods_encoded [of c us u "u - t" tail "result @ [t, u]"]
    by (simp add: decompressBlock_def Let_def)
qed (simp add: decompressBlock_def Let_def)

lemma dod_decompress_loop_block:
  assumes "i < j" "j \<le> length ts" "length ts < 2 ^ 32" "length result < total_count"
  shows "dod_decompress_loop c total_count (compressBlock c ts i j @ tail) result =
    dod_decompress_loop c total_count tail (result @ take (j - i) (drop i ts))"
proof -
  obtain t us where b: "take (j - i) (drop i ts) = t # us"
    using assms by (cases "take (j - i) (drop i ts)") auto
  have "length (take (j - i) (drop i ts)) = j - i" using assms(2) by simp
  then have len: "j - i = Suc (length us)" by (simp add: b)
  then have "Suc (length us) \<le> length ts" using assms(2) by linarith
  then have us: "length us < 4294967295" using assms(3) by simp
  let ?rest = "case deltas_of t us of [] \<Rightarrow> []
    | d # ds \<Rightarrow> le_bytes 8 d @ concat (map (encodeDeltaOfDelta c) (dods_of d ds))"
  have cb: "compressBlock c ts i j =
      le_bytes 4 (of_nat (Suc (length us)) :: uint32) @ le_bytes 8 t @ ?rest"
    using assms(1,2) unfolding compressBlock_def b by (simp add: len)
  have "decompressBlock c (le_bytes 8 t @ ?rest @ tail) (Suc (length us)) result =
      (tail, result @ t # us)"
    by (rule decompressBlock_encoded)
  then show ?thesis
    using assms(4) us unfolding b cb
    by (subst dod_decompress_loop.simps) (simp add: Let_def)
qed

lemma dod_block_loop_roundtrip:
  assumes "0 < block_size" "length ts < 2 ^ 32"
  shows "\<exists>B. dod_block_loop c ts block_size i out n =
      Some (out @ B, n + (length ts - i + block_size - 1) div block_size)
    \<and> dod_decompress_loop c (length ts) B (take i ts) = Some ts"
proof (induction "length ts - i" arbitrary: i out n rule: less_induct)
  case less
  show ?case
  proof (cases "i < length ts")
    case True
    let ?j = "min (i + block_size) (length ts)"
    let ?B = "compressBlock c ts i ?j"
    have "length ts - (i + block_size) < length ts - i" using True assms(1) by simp
    from less [OF this, of "out @ ?B" "n + 1"] obtain B where
      B: "dod_block_loop c ts block_size (i + block_size) (out @ ?B) (n + 1) =
          Some ((out @ ?B) @ B,
            n + 1 + (length ts - (i + block_size) + block_size - 1) div block_size)"
        "dod_decompress_loop c (length ts) B (take (i + block_size) ts) = Some ts"
      by blast
    have count: "1 + (length ts - (i + block_size) + block_size - 1) div block_size =
        (length ts - i + block_size - 1) div block_size"
    proof (cases "length ts - i \<le> block_size")
      case True
      with \<open>i < length ts\<close> have "(length ts - i + block_size - 1) div block_size = 1"
        by (intro div_nat_eqI) auto
      moreover have "(length ts - (i + block_size) + block_size - 1) div block_size = 0"
        using True assms(1) by simp
      ultimately show ?thesis by simp
    next
      case False
      then have "length ts - i + block_size - 1 =
          (length ts - (i + block_size) + block_size - 1) + block_size" by simp
      moreover have "(length ts - (i + block_size) + block_size - 1 + block_size) div block_size =
          (length ts - (i + block_size) + block_size - 1) div block_size + 1"
        using assms(1) by (rule div_add_self2 [OF less_imp_neq [THEN not_sym]])
      ultimately show ?thesis by (simp only: add.commute)
    qed
    have slice: "take i ts @ take (?j - i) (drop i ts) = take (i + block_size) ts"
      using True by (auto simp: take_add min_def)
    have "dod_decompress_loop c (length ts) (?B @ B) (take i ts) = Some ts"
      using True assms B(2) by (subst dod_decompress_loop_block) (auto simp: slice)
    with B(1) True count show ?thesis
      by (subst dod_block_loop.simps) (auto intro!: exI [of _ "?B @ B"])
  next
    case False
    then have "(length ts - i + block_size - 1) div block_size = 0" using assms(1) by simp
    with False show ?thesis
      by (subst dod_block_loop.simps) (simp add: dod_decompress_loop.simps)
  qed
qed

lemma dod_roundtrip_from_header:
  assumes "0 < bs" "length ts < 2 ^ 32" "ts \<noteq> []"
  shows "\<exists>data. dod_block_loop (config e) ts (unat bs) 0
      (le_bytes 4 (of_nat (length ts) :: uint32) @ le_bytes 4 (bs :: uint32)) 0 =
      Some (data, (length ts + unat bs - 1) div unat bs)
    \<and> dod_decompress data e = Some ts"
proof -
  have "0 < unat bs" using assms(1) by (simp add: word_less_nat_alt)
  let ?h = "le_bytes 4 (of_nat (length ts) :: uint32) @ le_bytes 4 bs"
  obtain B where B: "dod_block_loop (config e) ts (unat bs) 0 ?h 0 =
      Some (?h @ B, 0 + (length ts - 0 + unat bs - 1) div unat bs)"
    "dod_decompress_loop (config e) (length ts) B (take 0 ts) = Some ts"
    using dod_block_loop_roundtrip [OF \<open>0 < unat bs\<close> assms(2)] by blast
  have "dod_decompress (?h @ B) e = Some ts"
    using B(2) assms(2) by (simp add: dod_decompress_def)
  with B(1) show ?thesis by simp
qed


lemma length_writeVarInt: "unat v < 2 ^ (7 * Suc k) \<Longrightarrow> length (writeVarInt v) \<le> Suc k"
proof (induction k arbitrary: v)
  case 0
  then have "\<not> 0x80 \<le> v" by (simp add: word_le_nat_alt)
  then show ?case by (simp add: writeVarInt.simps)
next
  case (Suc k)
  have "unat (drop_bit 7 v) = unat v div 2 ^ 7" by (simp add: drop_bit_eq_div unat_div)
  also have "\<dots> < 2 ^ (7 * Suc k)"
  proof (rule less_mult_imp_div_less)
    have "7 * Suc (Suc k) = 7 * Suc k + 7" by simp
    then show "unat v < 2 ^ (7 * Suc k) * 2 ^ 7" using Suc.prems by (simp only: power_add)
  qed
  finally have "length (writeVarInt (drop_bit 7 v)) \<le> Suc k" by (rule Suc.IH)
  then show ?case by (subst writeVarInt.simps) simp
qed

text \<open>With a block size of zero the index never advances, so the loop cannot return.\<close>

lemma dod_block_loop_zero_returns:
  assumes "dod_block_loop c ts block_size i out n = Some r"
  shows "block_size = 0 \<longrightarrow> length ts \<le> i"
proof (rule dod_block_loop.raw_induct
    [where P = "\<lambda>c ts block_size i out n r. block_size = 0 \<longrightarrow> length ts \<le> i", OF _ assms])
  fix f :: "dod_config \<Rightarrow> int64 list \<Rightarrow> nat \<Rightarrow> nat \<Rightarrow> byte list \<Rightarrow> nat \<Rightarrow> (byte list \<times> nat) option"
    and c ts block_size i out n r
  assume IH: "\<And>c ts block_size i out n r. f c ts block_size i out n = Some r \<Longrightarrow>
      block_size = 0 \<longrightarrow> length ts \<le> i"
    and eq: "(if i < length ts
      then f c ts block_size (i + block_size)
        (out @ compressBlock c ts i (min (i + block_size) (length ts))) (n + 1)
      else Some (out, n)) = Some r"
  show "block_size = 0 \<longrightarrow> length ts \<le> i"
    using eq by (auto split: if_splits dest: IH)
qed

lemma dod_decompress_stats: "dod_decompress data (e\<lparr>stats := s\<rparr>) = dod_decompress data e"
  by (simp add: dod_decompress_def)

section \<open>Properties\<close>

text \<open>
  \<open>compressWithBlockSize\<close> with any non-zero block size returns, processes
  \<open>ceil(n / block_size)\<close> blocks, and \<open>decompress\<close> gives back exactly the timestamps: any
  column of fewer than \<open>2^32\<close> timestamps, in either sign encoding, with wrap-around differences.
\<close>

theorem dod_block_size_lossless:
  assumes "ts \<noteq> []" "length ts < 2 ^ 32" "0 < block_size"
  shows "\<exists>data e'. compressWithBlockSize ts block_size e = Some (data, e')
    \<and> dod_decompress data e' = Some ts \<and> config e' = config e
    \<and> blocks_processed (stats e') = (length ts + unat block_size - 1) div unat block_size
    \<and> compressed_size (stats e') = length data"
proof -
  let ?k = "(length ts + unat block_size - 1) div unat block_size"
  obtain data where D: "dod_block_loop (config e) ts (unat block_size) 0
      (le_bytes 4 (of_nat (length ts) :: uint32) @ le_bytes 4 block_size) 0 = Some (data, ?k)"
    "dod_decompress data e = Some ts"
    using dod_roundtrip_from_header [OF assms(3,2,1)] by blast
  let ?e = "e\<lparr>stats := empty_stats\<lparr>original_size := length ts * 8, blocks_processed := ?k,
      compressed_size := length data\<rparr>\<rparr>"
  have "compressWithBlockSize ts block_size e = Some (data, ?e)"
    using assms(1) unfolding compressWithBlockSize_def D(1) by simp
  moreover have "dod_decompress data ?e = Some ts" using D(2) by (simp add: dod_decompress_stats)
  ultimately show ?thesis by (intro exI [of _ data] exI [of _ ?e]) simp
qed

theorem dod_block_size_lossless_witness:
  "\<exists>data e'. compressWithBlockSize [10, 20, 35] 2 (mk_encoder default_dod_config) = Some (data, e')
    \<and> dod_decompress data e' = Some [10, 20, 35] \<and> blocks_processed (stats e') = 2"
  using dod_block_size_lossless [of "[10, 20, 35]" 2 "mk_encoder default_dod_config"] by auto

text \<open>
  C11: \<open>compress\<close> picks its own block size. With a positive maximum and a minimum whose double
  does not wrap to zero (every preset of the factory qualifies) it returns and is lossless,
  whether or not the intervals are judged regular.
\<close>

theorem dod_compress_lossless:
  assumes "length ts < 2 ^ 32" "0 < max_block_size (config e)" "0 < min_block_size (config e) * 2"
  shows "\<exists>data e'. dod_compress ts e = Some (data, e') \<and> dod_decompress data e' = Some ts"
proof (cases "ts = []")
  case False
  have "0 < (of_nat (length ts) :: uint32)"
    using assms(1) False by (simp add: word_less_nat_alt)
  then have "0 < calculateOptimalBlockSize (config e) ts"
    using assms(2,3) by (auto simp: calculateOptimalBlockSize_def min_def)
  then obtain data k where D: "dod_block_loop (config e) ts
      (unat (calculateOptimalBlockSize (config e) ts)) 0
      (le_bytes 4 (of_nat (length ts) :: uint32) @
        le_bytes 4 (calculateOptimalBlockSize (config e) ts)) 0 = Some (data, k)"
    "dod_decompress data e = Some ts"
    using dod_roundtrip_from_header [OF _ assms(1) False] by blast
  let ?e = "e\<lparr>stats := empty_stats\<lparr>original_size := length ts * 8, blocks_processed := k,
      compressed_size := length data\<rparr>\<rparr>"
  have "dod_compress ts e = Some (data, ?e)"
    using False unfolding dod_compress_def Let_def D(1) by simp
  moreover have "dod_decompress data ?e = Some ts" using D(2) by (simp add: dod_decompress_stats)
  ultimately show ?thesis by (intro exI [of _ data] exI [of _ ?e]) simp
qed (simp add: dod_compress_def dod_decompress_def)

theorem dod_compress_lossless_witness:
  "\<exists>data e'. dod_compress [10, 20, 35] (createForUseCase ''irregular'') = Some (data, e')
    \<and> dod_decompress data e' = Some [10, 20, 35]"
  by (rule dod_compress_lossless)
    (simp_all add: createForUseCase_def mk_encoder_def default_dod_config_def)

text \<open>
  A block size of zero is not refused: \<open>compressWithBlockSize\<close> on a non-empty column then
  never returns.
\<close>

theorem dod_zero_block_size_diverges:
  assumes "ts \<noteq> []"
  shows "compressWithBlockSize ts 0 e = None"
proof -
  have "dod_block_loop c ts 0 0 out n = None" for c out n
    using dod_block_loop_zero_returns [of c ts 0 0 out n] assms
    by (cases "dod_block_loop c ts 0 0 out n") auto
  with assms show ?thesis by (simp add: compressWithBlockSize_def)
qed

theorem dod_zero_block_size_diverges_witness:
  "compressWithBlockSize [10, 20] 0 (mk_encoder default_dod_config) = None"
  by (rule dod_zero_block_size_diverges) simp

text \<open>
  The signed code of one delta-of-delta is self-delimiting and lossless for every 64-bit
  value, in both encodings, and takes at most ten bytes (eleven with the sign byte).
\<close>

theorem dod_value_code:
  "decodeDeltaOfDelta c (encodeDeltaOfDelta c d @ tail) = (d, tail)
   \<and> length (encodeDeltaOfDelta c d) \<le> (if enable_zigzag_encoding c then 10 else 11)"
proof -
  have "length (writeVarInt v) \<le> Suc 9" for v
  proof (rule length_writeVarInt)
    have "unat v < 2 ^ 64" using unsigned_less [of v] by simp
    then show "unat v < 2 ^ (7 * Suc 9)" by simp
  qed
  then have "length (encodeDeltaOfDelta c d) \<le> (if enable_zigzag_encoding c then 10 else 11)"
    by (simp add: encodeDeltaOfDelta_def)
  with dod_code_roundtrip show ?thesis by blast
qed

text \<open>
  A stream cut inside a block header is read past its end: \<open>decompress\<close> checks only that
  one byte is left before it copies the four-byte count.
\<close>

theorem dod_truncated_header_over_read:
  "dod_decompress [2, 0, 0, 0, 1, 0, 0, 0, 1] e = None"
  by (simp add: dod_decompress_def dod_decompress_loop.simps)

end
