(* ===== verification/Block_Impl.thy ===== *)
theory Block_Impl
  imports Byte_Compressor "HOL-Library.Multiset"
begin

text \<open>
  \<open>BlockImpl\<close> (\<open>src/tsdb/storage/internal/block_impl.cpp\<close> and its header): the columnar block
  holding the series of one time range, with buffered columns while it is being filled and
  compressed columns after sealing. The block carries its compressors as functions, the way
  the object holds compressor pointers; a decompressor that reads out of bounds makes the
  reading operation \<open>None\<close>. \<open>std::sort\<close> is unstable, so it is a parameter with the contract
  of the locale \<open>std_sort\<close>. Locks are not modelled: every method is one atomic step.
\<close>

section \<open>State\<close>

text \<open>The header is the memory image of the struct, its two padding words included.\<close>

record block_header =
  magic :: uint64
  block_id :: uint64
  version :: uint32
  flags :: uint32
  crc32 :: uint32
  pad1 :: uint32
  start_time :: int64
  end_time :: int64
  reserved :: uint32
  pad2 :: uint32

definition is_valid :: "block_header \<Rightarrow> bool" where
  "is_valid h \<longleftrightarrow> magic h = 0x4253445354534254 \<and> version h = 1"

record series_data =
  timestamps_uncompressed :: "int64 list"
  values_uncompressed :: "double list"
  fields_uncompressed :: "(string \<times> string) list list"
  timestamps_compressed :: "byte list"
  values_compressed :: "byte list"
  is_compressed :: bool

definition empty_series_data :: series_data where
  "empty_series_data = \<lparr>timestamps_uncompressed = [], values_uncompressed = [],
     fields_uncompressed = [], timestamps_compressed = [], values_compressed = [],
     is_compressed = False\<rparr>"

record codecs =
  ts_compress :: "int64 list \<Rightarrow> byte list"
  ts_decompress :: "byte list \<Rightarrow> int64 list option"
  val_compress :: "double list \<Rightarrow> byte list"
  val_decompress :: "byte list \<Rightarrow> double list option"
  ts_reports_compressed :: bool

definition simple_codecs :: codecs where
  "simple_codecs = \<lparr>ts_compress = simple_ts_compress,
     ts_decompress = (\<lambda>d. Some (simple_ts_decompress d)),
     val_compress = simple_val_compress,
     val_decompress = (\<lambda>d. Some (simple_val_decompress d)),
     ts_reports_compressed = simple_ts_is_compressed\<rparr>"

lemma simple_codecs_simps [simp]:
  "ts_compress simple_codecs = simple_ts_compress"
  "ts_decompress simple_codecs = (\<lambda>d. Some (simple_ts_decompress d))"
  "val_compress simple_codecs = simple_val_compress"
  "val_decompress simple_codecs = (\<lambda>d. Some (simple_val_decompress d))"
  by (simp_all add: simple_codecs_def)

record block =
  header :: block_header
  series :: "(labels \<times> series_data) list"
  block_codecs :: codecs
  dirty :: bool
  sealed :: bool

definition mk_block :: "block_header \<Rightarrow> codecs \<Rightarrow> block" where
  "mk_block h c = \<lparr>header = h, series = [], block_codecs = c, dirty = False, sealed = False\<rparr>"

lemma mk_block_simps [simp]:
  "header (mk_block h c) = h" "series (mk_block h c) = []" "block_codecs (mk_block h c) = c"
  "dirty (mk_block h c) = False" "sealed (mk_block h c) = False"
  by (simp_all add: mk_block_def)

section \<open>Columns and samples of a series\<close>

text \<open>The two columns of one series as \<open>read_columns\<close> and \<open>query\<close> obtain them.\<close>

definition data_columns :: "codecs \<Rightarrow> series_data \<Rightarrow> (int64 list \<times> double list) option" where
  "data_columns c d =
     (if \<not> is_compressed d then Some (timestamps_uncompressed d, values_uncompressed d)
      else
        (case ts_decompress c (timestamps_compressed d) of
           None \<Rightarrow> None
         | Some ts \<Rightarrow>
             (case val_decompress c (values_compressed d) of
                None \<Rightarrow> None
              | Some vs \<Rightarrow> Some (ts, vs))))"

text \<open>The samples \<open>read\<close> collects before sorting: up to the shorter column, with the fields
  of a buffered series when it has any.\<close>

definition data_samples :: "codecs \<Rightarrow> series_data \<Rightarrow> sample list option" where
  "data_samples c d =
     (if \<not> is_compressed d then
        Some (if fields_uncompressed d \<noteq> [] then
            map (\<lambda>(t, v, f). \<lparr>timestamp = t, sval = v, sfields = f\<rparr>)
              (zip (timestamps_uncompressed d) (zip (values_uncompressed d) (fields_uncompressed d)))
          else map (\<lambda>(t, v). mk_sample t v) (zip (timestamps_uncompressed d) (values_uncompressed d)))
      else map_option (\<lambda>(ts, vs). map (\<lambda>(t, v). mk_sample t v) (zip ts vs)) (data_columns c d))"

section \<open>Reading\<close>

text \<open>The loop adding sorted samples, dropping every sample that is not later than the last.\<close>

fun read_collect :: "sample list \<Rightarrow> int64 \<Rightarrow> bool \<Rightarrow> time_series \<Rightarrow> time_series" where
  "read_collect [] last_ts first ts = ts"
| "read_collect (s # ss) last_ts first ts =
     (if first \<or> sint last_ts < sint (timestamp s) then
        (case add_sample s ts of
           Inr ts' \<Rightarrow> read_collect ss (timestamp s) False ts'
         | Inl e \<Rightarrow> read_collect ss last_ts first ts)
      else read_collect ss last_ts first ts)"

definition block_read ::
  "(sample list \<Rightarrow> sample list) \<Rightarrow> labels \<Rightarrow> block \<Rightarrow> time_series option" where
  "block_read srt l b =
     (case map_of (series b) l of
        None \<Rightarrow> Some (mk_time_series l)
      | Some d \<Rightarrow>
          map_option (\<lambda>ss. read_collect (srt ss) (-1) True (mk_time_series l))
            (data_samples (block_codecs b) d))"

definition read_columns :: "labels \<Rightarrow> block \<Rightarrow> (int64 list \<times> double list) option" where
  "read_columns l b =
     (case map_of (series b) l of
        None \<Rightarrow> Some ([], [])
      | Some d \<Rightarrow> data_columns (block_codecs b) d)"

definition num_series :: "block \<Rightarrow> nat" where
  "num_series b = length (series b)"

text \<open>\<open>num_samples\<close> decompresses only the timestamp column of a compressed series.\<close>

definition data_count :: "codecs \<Rightarrow> series_data \<Rightarrow> nat option" where
  "data_count c d =
     (if is_compressed d then map_option length (ts_decompress c (timestamps_compressed d))
      else Some (length (timestamps_uncompressed d)))"

fun num_samples_loop :: "codecs \<Rightarrow> (labels \<times> series_data) list \<Rightarrow> nat option" where
  "num_samples_loop c [] = Some 0"
| "num_samples_loop c ((l, d) # m) =
     (case data_count c d of
        None \<Rightarrow> None
      | Some n \<Rightarrow> map_option ((+) n) (num_samples_loop c m))"

definition num_samples :: "block \<Rightarrow> nat option" where
  "num_samples b = num_samples_loop (block_codecs b) (series b)"

definition get_all_labels :: "block \<Rightarrow> labels list" where
  "get_all_labels b = map fst (series b)"

section \<open>Query\<close>

datatype query_failure = OutOfRange | Thrown exn

definition matches_all :: "(string \<times> string) list \<Rightarrow> labels \<Rightarrow> bool" where
  "matches_all matchers l \<longleftrightarrow> list_all (\<lambda>(k, v). map_of l k = Some v) matchers"

text \<open>
  One series of \<open>query\<close>: every timestamp is paired with the value at its index without a
  check, and \<open>add_sample\<close> throws on the first timestamp that does not increase.
\<close>

definition query_series ::
  "codecs \<Rightarrow> labels \<Rightarrow> series_data \<Rightarrow> query_failure + time_series" where
  "query_series c l d =
     (case data_columns c d of
        None \<Rightarrow> Inl OutOfRange
      | Some (ts, vs) \<Rightarrow>
          if length vs < length ts then Inl OutOfRange
          else
            (case add_samples (map (\<lambda>(t, v). mk_sample t v) (zip ts vs)) (mk_time_series l) of
               Inl e \<Rightarrow> Inl (Thrown e)
             | Inr s \<Rightarrow> Inr s))"

fun query_loop ::
  "codecs \<Rightarrow> (string \<times> string) list \<Rightarrow> (labels \<times> series_data) list \<Rightarrow>
     query_failure + time_series list" where
  "query_loop c matchers [] = Inr []"
| "query_loop c matchers ((l, d) # m) =
     (if matches_all matchers l then
        (case query_series c l d of
           Inl e \<Rightarrow> Inl e
         | Inr s \<Rightarrow> (case query_loop c matchers m of Inl e \<Rightarrow> Inl e | Inr ss \<Rightarrow> Inr (s # ss)))
      else query_loop c matchers m)"

definition block_query ::
  "(string \<times> string) list \<Rightarrow> int64 \<Rightarrow> int64 \<Rightarrow> block \<Rightarrow> query_failure + time_series list" where
  "block_query matchers from_time to_time b = query_loop (block_codecs b) matchers (series b)"

section \<open>Writing\<close>

definition update_time_range :: "int64 \<Rightarrow> block_header \<Rightarrow> block_header" where
  "update_time_range t h =
     (let h1 = (if start_time h = 0 \<or> sint t < sint (start_time h) then h\<lparr>start_time := t\<rparr> else h)
      in if sint (end_time h1) < sint t then h1\<lparr>end_time := t\<rparr> else h1)"

definition series_at :: "labels \<Rightarrow> block \<Rightarrow> series_data" where
  "series_at l b = (case map_of (series b) l of None \<Rightarrow> empty_series_data | Some d \<Rightarrow> d)"

definition block_append :: "labels \<Rightarrow> sample \<Rightarrow> block \<Rightarrow> block" where
  "block_append l s b =
     (let d = series_at l b;
          d' = d\<lparr>timestamps_uncompressed := timestamps_uncompressed d @ [timestamp s],
                 values_uncompressed := values_uncompressed d @ [sval s],
                 fields_uncompressed := fields_uncompressed d @ [sfields s],
                 is_compressed := False\<rparr>
      in b\<lparr>series := smap_insert l d' (series b),
           header := update_time_range (timestamp s) (header b), dirty := True\<rparr>)"

definition block_write :: "time_series \<Rightarrow> block \<Rightarrow> block" where
  "block_write s b =
     (let ts = map timestamp (ts_samples s); vs = map sval (ts_samples s);
          c = block_codecs b;
          d' = (series_at (ts_labels s) b)\<lparr>timestamps_compressed := ts_compress c ts,
                 values_compressed := val_compress c vs, is_compressed := True\<rparr>;
          h = header b;
          h' = (if ts = [] then h
                else h\<lparr>start_time := (if sint (hd ts) < sint (start_time h) then hd ts else start_time h),
                       end_time := (if sint (end_time h) < sint (last ts) then last ts else end_time h)\<rparr>)
      in b\<lparr>series := smap_insert (ts_labels s) d' (series b), header := h', dirty := True\<rparr>)"

definition seal_data :: "codecs \<Rightarrow> series_data \<Rightarrow> series_data" where
  "seal_data c d =
     (if \<not> is_compressed d \<and> timestamps_uncompressed d \<noteq> [] then
        d\<lparr>timestamps_compressed := ts_compress c (timestamps_uncompressed d),
          values_compressed := val_compress c (values_uncompressed d),
          timestamps_uncompressed := [], values_uncompressed := [], is_compressed := True\<rparr>
      else d)"

definition block_seal :: "block \<Rightarrow> block" where
  "block_seal b =
     b\<lparr>series := map (\<lambda>(l, d). (l, seal_data (block_codecs b) d)) (series b), sealed := True\<rparr>"

lemma block_seal_frame [simp]:
  "block_codecs (block_seal b) = block_codecs b" "header (block_seal b) = header b"
  "dirty (block_seal b) = dirty b" "sealed (block_seal b)"
  by (simp_all add: block_seal_def)

section \<open>Checksum, flush, close\<close>

definition crc_step :: "uint32 \<Rightarrow> byte \<Rightarrow> uint32" where
  "crc_step crc b = push_bit 8 crc XOR ucast b"

definition crc_data :: "uint32 \<Rightarrow> series_data \<Rightarrow> uint32" where
  "crc_data crc d =
     (if is_compressed d then
        foldl crc_step (foldl crc_step crc (timestamps_compressed d)) (values_compressed d)
      else
        foldl crc_step
          (foldl crc_step crc (map (\<lambda>t. ucast (t AND 0xFF)) (timestamps_uncompressed d)))
          (map (\<lambda>v. ucast (v AND 0xFF)) (values_uncompressed d)))"

definition calculate_crc :: "block \<Rightarrow> uint32" where
  "calculate_crc b = foldl (\<lambda>crc (l, d). crc_data crc d) 0 (series b)"

definition update_header :: "block \<Rightarrow> block" where
  "update_header b =
     (let h = (header b)\<lparr>crc32 := calculate_crc b\<rparr>;
          h1 = h\<lparr>flags := flags h OR 4\<rparr>;
          h2 = (if ts_reports_compressed (block_codecs b) then h1\<lparr>flags := flags h1 OR 1\<rparr> else h1)
      in b\<lparr>header := h2\<rparr>)"

definition block_flush :: "block \<Rightarrow> block" where
  "block_flush b = (if \<not> dirty b then b else (update_header b)\<lparr>dirty := False\<rparr>)"

text \<open>
  \<open>close\<close> holds the exclusive lock and, on a dirty block, calls \<open>flush\<close>, which takes the same
  non-recursive lock: the call never returns (\<open>None\<close>).
\<close>

definition block_close :: "block \<Rightarrow> block option" where
  "block_close b = (if dirty b then None else Some (b\<lparr>series := []\<rparr>))"


section \<open>Sorting and collecting\<close>

text \<open>What \<open>std::sort\<close> with the timestamp comparator guarantees; the order of equal timestamps is
  not part of it.\<close>

locale std_sort =
  fixes srt :: "sample list \<Rightarrow> sample list"
  assumes perm: "mset (srt ss) = mset ss"
    and sorted_srt: "sorted (map (\<lambda>s. sint (timestamp s)) (srt ss))"
begin

lemma set_srt [simp]: "set (srt ss) = set ss"
  using mset_eq_setD [OF perm] .

text \<open>With distinct timestamps there is only one sorted arrangement.\<close>

lemma chronological_srt:
  assumes "distinct (map timestamp ss)"
  shows "chronological (srt ss)"
proof -
  have "mset (map timestamp (srt ss)) = mset (map timestamp ss)"
    by (simp add: perm)
  then have "distinct (map timestamp (srt ss))"
    using assms mset_eq_imp_distinct_iff by blast
  then have "distinct (map (\<lambda>s. sint (timestamp s)) (srt ss))"
    by (simp add: distinct_map inj_on_def sint_inject)
  with sorted_srt [of ss] have "sorted_wrt (<) (map (\<lambda>s. sint (timestamp s)) (srt ss))"
    by (simp only: strict_sorted_iff)
  then show ?thesis by (simp add: chronological_def sorted_wrt_map)
qed

end

interpretation stable_sort: std_sort "sort_key (\<lambda>s. sint (timestamp s))"
  by unfold_locales simp_all

lemma read_collect_append:
  assumes "chronological (ts_samples ts @ ss)"
    and "first \<longleftrightarrow> ts_samples ts = []" "\<not> first \<Longrightarrow> last_ts = timestamp (last (ts_samples ts))"
  shows "read_collect ss last_ts first ts = ts\<lparr>ts_samples := ts_samples ts @ ss\<rparr>"
  using assms
proof (induction ss arbitrary: last_ts first ts)
  case (Cons s ss)
  have later: "ts_samples ts = [] \<or> sint (timestamp (last (ts_samples ts))) < sint (timestamp s)"
    using Cons.prems(1) by (rule chronological_append_last)
  have "first \<or> sint last_ts < sint (timestamp s)"
    using Cons.prems(2,3) later by auto
  with add_sample_later [OF later] show ?case
    using Cons.prems Cons.IH [of "ts\<lparr>ts_samples := ts_samples ts @ [s]\<rparr>" False "timestamp s"] by simp
qed simp

lemma read_collect_fresh:
  "chronological ss \<Longrightarrow>
     read_collect ss t True (mk_time_series l) = \<lparr>ts_labels = l, ts_samples = ss\<rparr>"
  using read_collect_append [of "mk_time_series l" ss True t] by (simp add: mk_time_series_def)

lemma read_collect_spec:
  assumes "sorted (map (\<lambda>s. sint (timestamp s)) ss)" "chronological (ts_samples ts)"
    and "first \<longleftrightarrow> ts_samples ts = []" "\<not> first \<Longrightarrow> last_ts = timestamp (last (ts_samples ts))"
    and "\<not> first \<Longrightarrow> \<forall>s \<in> set ss. sint last_ts \<le> sint (timestamp s)"
  shows "chronological (ts_samples (read_collect ss last_ts first ts))
    \<and> ts_labels (read_collect ss last_ts first ts) = ts_labels ts
    \<and> set (ts_samples (read_collect ss last_ts first ts)) \<subseteq> set (ts_samples ts) \<union> set ss
    \<and> timestamp ` set (ts_samples (read_collect ss last_ts first ts)) =
        timestamp ` set (ts_samples ts) \<union> timestamp ` set ss"
  using assms
proof (induction ss arbitrary: last_ts first ts)
  case (Cons s ss)
  show ?case
  proof (cases "first \<or> sint last_ts < sint (timestamp s)")
    case True
    let ?ts = "ts\<lparr>ts_samples := ts_samples ts @ [s]\<rparr>"
    have add: "add_sample s ts = Inr ?ts"
      using True Cons.prems(3,4) by (auto simp: add_sample_def)
    have "chronological (ts_samples ?ts)"
      using Cons.prems(2) add by (rule add_sample_chronological)
    from Cons.IH [OF _ this, of False "timestamp s"] Cons.prems(1) add True show ?thesis by auto
  next
    case False
    then have "sint (timestamp s) = sint last_ts" using Cons.prems(5) by fastforce
    then have eq: "timestamp s = last_ts" by (rule signed_word_eqI)
    have "timestamp s \<in> timestamp ` set (ts_samples ts)"
      using False Cons.prems(3,4) eq last_in_set [of "ts_samples ts"] by auto
    with Cons.IH [of ts first last_ts] Cons.prems False show ?thesis by auto
  qed
qed simp


section \<open>What the operations do to the stored columns\<close>

lemma map_of_map_snd: "map_of (map (\<lambda>(l, d). (l, f d)) m) l = map_option f (map_of m l)"
  by (induction m) auto

text \<open>
  The client side of the codec contract: with lossless column codecs, sealing changes the
  representation of a series and nothing a reader of columns can see.
\<close>

locale lossless_columns =
  ts: vec_codec "ts_compress c" "ts_decompress c" capacity +
  val: vec_codec "val_compress c" "val_decompress c" capacity
  for c :: codecs and capacity :: nat
begin

lemma data_columns_seal:
  assumes "length (timestamps_uncompressed d) < capacity" "length (values_uncompressed d) < capacity"
  shows "data_columns c (seal_data c d) = data_columns c d"
  using ts.roundtrip [OF assms(1)] val.roundtrip [OF assms(2)]
  by (auto simp: data_columns_def seal_data_def)

lemma read_columns_seal:
  assumes "block_codecs b = c"
    and "\<And>l d. map_of (series b) l = Some d \<Longrightarrow>
      length (timestamps_uncompressed d) < capacity \<and> length (values_uncompressed d) < capacity"
  shows "read_columns l (block_seal b) = read_columns l b"
  using assms(1) data_columns_seal assms(2) [of l]
  by (auto simp: read_columns_def block_seal_def map_of_map_snd split: option.splits)

lemma data_columns_written:
  assumes "length ts < capacity" "length vs < capacity"
    and "is_compressed d" "timestamps_compressed d = ts_compress c ts"
    and "values_compressed d = val_compress c vs"
  shows "data_columns c d = Some (ts, vs)"
  using assms ts.roundtrip val.roundtrip by (simp add: data_columns_def)

end

lemma lossless_simple: "lossless_columns simple_codecs (2 ^ 32)"
  unfolding lossless_columns_def simple_codecs_def
  using simple_ts.vec_codec_axioms simple_val.vec_codec_axioms by simp

interpretation simple: lossless_columns simple_codecs "2 ^ 32"
  by (rule lossless_simple)

lemma map_of_block_append:
  "map_of (series (block_append l s b)) =
     (map_of (series b))(l \<mapsto> (series_at l b)
        \<lparr>timestamps_uncompressed := timestamps_uncompressed (series_at l b) @ [timestamp s],
         values_uncompressed := values_uncompressed (series_at l b) @ [sval s],
         fields_uncompressed := fields_uncompressed (series_at l b) @ [sfields s],
         is_compressed := False\<rparr>)"
  by (simp add: block_append_def Let_def smap_simps)

lemma block_append_frame [simp]:
  "block_codecs (block_append l s b) = block_codecs b" "sealed (block_append l s b) = sealed b"
  "header (block_append l s b) = update_time_range (timestamp s) (header b)"
  "dirty (block_append l s b)"
  by (simp_all add: block_append_def Let_def)

lemma smap_ok_block_append: "smap_ok (series b) \<Longrightarrow> smap_ok (series (block_append l s b))"
  by (simp add: block_append_def Let_def smap_simps)

section \<open>The time range in the header\<close>

text \<open>A header covers a timestamp when it lies between start and end.\<close>

definition covers :: "block_header \<Rightarrow> int64 \<Rightarrow> bool" where
  "covers h t \<longleftrightarrow> sint (start_time h) \<le> sint t \<and> sint t \<le> sint (end_time h)"

lemma update_time_range_covers:
  assumes "sint (start_time h) \<le> sint (end_time h)" "start_time h \<noteq> 0"
  shows "covers (update_time_range t h) t"
    and "covers h u \<Longrightarrow> covers (update_time_range t h) u"
    and "sint (start_time (update_time_range t h)) \<le> sint (end_time (update_time_range t h))"
    and "start_time (update_time_range t h) = t \<or> start_time (update_time_range t h) = start_time h"
    and "end_time (update_time_range t h) = t \<or> end_time (update_time_range t h) = end_time h"
  using assms by (auto simp: update_time_range_def covers_def Let_def)

text \<open>A header as \<open>Series::append\<close> fills it for a first sample at time 5.\<close>

definition sample_header :: block_header where
  "sample_header = \<lparr>magic = 0x4253445354534254, block_id = 1, version = 1, flags = 0, crc32 = 0,
     pad1 = 0, start_time = 5, end_time = 5, reserved = 0, pad2 = 0\<rparr>"

section \<open>Properties\<close>

text \<open>
  C25: \<open>BlockImpl::read\<close> returns a strictly chronological series under the requested labels that
  contains only stored samples and exactly one for each stored timestamp, whatever order the
  samples were stored in and however \<open>std::sort\<close> orders equal timestamps.
\<close>

theorem block_read_spec:
  assumes "std_sort srt" "map_of (series b) l = Some d" "data_samples (block_codecs b) d = Some ss"
  shows "\<exists>ts. block_read srt l b = Some ts \<and> ts_labels ts = l \<and> chronological (ts_samples ts)
    \<and> set (ts_samples ts) \<subseteq> set ss \<and> timestamp ` set (ts_samples ts) = timestamp ` set ss"
  using read_collect_spec [OF std_sort.sorted_srt [OF assms(1)],
      of "mk_time_series l" True "- 1" ss]
    std_sort.set_srt [OF assms(1), of ss] assms(2,3)
  by (simp add: block_read_def mk_time_series_def)

theorem block_read_spec_witness:
  "let srt = sort_key (\<lambda>s. sint (timestamp s));
       b = block_append [] (mk_sample 5 1) (block_append [] (mk_sample 9 2)
             (mk_block sample_header simple_codecs))
   in \<exists>ts. block_read srt [] b = Some ts \<and> chronological (ts_samples ts)
     \<and> timestamp ` set (ts_samples ts) = {9, 5}"
proof -
  let ?b = "block_append [] (mk_sample 5 1) (block_append [] (mk_sample 9 2)
      (mk_block sample_header simple_codecs))"
  let ?d = "\<lparr>timestamps_uncompressed = [9, 5], values_uncompressed = [2, 1],
      fields_uncompressed = [[], []], timestamps_compressed = [], values_compressed = [],
      is_compressed = False\<rparr>"
  have d: "map_of (series ?b) [] = Some ?d"
    by (simp add: map_of_block_append series_at_def mk_block_def empty_series_data_def mk_sample_def)
  have ss: "data_samples (block_codecs ?b) ?d = Some [mk_sample 9 2, mk_sample 5 1]"
    by (simp add: data_samples_def mk_sample_def)
  show ?thesis
    using block_read_spec [OF stable_sort.std_sort_axioms d ss] by (auto simp: mk_sample_def)
qed

text \<open>
  Sealing is invisible to \<open>read_columns\<close>: with the block's default compressors and columns
  below \<open>2^32\<close> entries, every series reads the same before and after \<open>seal\<close>.
\<close>

theorem seal_preserves_columns:
  assumes "block_codecs b = simple_codecs"
    and "\<And>l d. map_of (series b) l = Some d \<Longrightarrow>
      length (timestamps_uncompressed d) < 2 ^ 32 \<and> length (values_uncompressed d) < 2 ^ 32"
  shows "read_columns l (block_seal b) = read_columns l b"
  using simple.read_columns_seal [OF assms] .

theorem seal_preserves_columns_witness:
  "read_columns [] (block_seal (block_append [] (mk_sample 5 1) (mk_block sample_header simple_codecs)))
     = Some ([5], [1])"
proof -
  let ?b = "block_append [] (mk_sample 5 1) (mk_block sample_header simple_codecs)"
  have d: "map_of (series ?b) = [[] \<mapsto> empty_series_data\<lparr>timestamps_uncompressed := [5],
      values_uncompressed := [1], fields_uncompressed := [[]], is_compressed := False\<rparr>]"
    by (simp add: map_of_block_append series_at_def mk_block_def empty_series_data_def mk_sample_def)
  have "read_columns [] (block_seal ?b) = read_columns [] ?b"
  proof (rule seal_preserves_columns)
    show "block_codecs ?b = simple_codecs" by (simp add: mk_block_def)
  qed (auto simp: d split: if_splits)
  also have "\<dots> = Some ([5], [1])" by (simp add: read_columns_def d data_columns_def)
  finally show ?thesis .
qed

text \<open>
  Appending a sample to a series that is still buffered adds it at the end of that series'
  columns, creates the series when it is new, and leaves the columns of every other series as
  they are.
\<close>

theorem append_extends_columns:
  assumes "\<not> is_compressed (series_at l b)"
  shows "read_columns l (block_append l s b) =
      Some (timestamps_uncompressed (series_at l b) @ [timestamp s],
            values_uncompressed (series_at l b) @ [sval s])
    \<and> (\<forall>l'. l' \<noteq> l \<longrightarrow> read_columns l' (block_append l s b) = read_columns l' b)
    \<and> read_columns l b = Some (timestamps_uncompressed (series_at l b),
                                values_uncompressed (series_at l b))"
  using assms
  by (auto simp: read_columns_def map_of_block_append data_columns_def series_at_def
      empty_series_data_def split: option.splits)

theorem append_extends_columns_witness:
  "read_columns [] (block_append [] (mk_sample 5 1) (mk_block sample_header simple_codecs)) =
     Some ([5], [1])"
  using append_extends_columns [of "[]" "mk_block sample_header simple_codecs" "mk_sample 5 1"]
  by (simp add: series_at_def mk_block_def empty_series_data_def mk_sample_def)

text \<open>
  Appending to a series that has been sealed or bulk-written hides everything stored
  before: the flag \<open>is_compressed\<close> is cleared, so readers see only the new sample, and the next
  \<open>seal\<close> overwrites the old compressed columns.
\<close>

theorem append_after_seal_hides_samples:
  assumes "timestamps_uncompressed (series_at l b) = []" "values_uncompressed (series_at l b) = []"
    and "block_codecs b = simple_codecs"
  shows "read_columns l (block_append l s b) = Some ([timestamp s], [sval s])
    \<and> read_columns l (block_seal (block_append l s b)) = Some ([timestamp s], [sval s])"
proof -
  have d: "map_of (series (block_append l s b)) l = Some ((series_at l b)
      \<lparr>timestamps_uncompressed := [timestamp s], values_uncompressed := [sval s],
       fields_uncompressed := fields_uncompressed (series_at l b) @ [sfields s],
       is_compressed := False\<rparr>)"
    using assms(1,2) by (simp add: map_of_block_append)
  then have now: "read_columns l (block_append l s b) = Some ([timestamp s], [sval s])"
    by (simp add: read_columns_def data_columns_def)
  have "data_columns simple_codecs (seal_data simple_codecs d') = data_columns simple_codecs d'"
    if "map_of (series (block_append l s b)) l = Some d'" for d'
    using that d by (intro simple.data_columns_seal) auto
  with now d assms(3) show ?thesis
    by (simp add: read_columns_def block_seal_def map_of_map_snd)
qed

theorem append_after_seal_hides_samples_witness:
  "read_columns [] (block_append [] (mk_sample 7 2) (block_seal
     (block_append [] (mk_sample 5 1) (mk_block sample_header simple_codecs)))) = Some ([7], [2])"
proof -
  let ?b = "block_seal (block_append [] (mk_sample 5 1) (mk_block sample_header simple_codecs))"
  have "map_of (series ?b) [] \<noteq> None"
    "timestamps_uncompressed (series_at [] ?b) = []" "values_uncompressed (series_at [] ?b) = []"
    "block_codecs ?b = simple_codecs"
    by (simp_all add: block_seal_def series_at_def map_of_map_snd map_of_block_append seal_data_def
        mk_block_def empty_series_data_def)
  then show ?thesis
    using append_after_seal_hides_samples [of "[]" ?b "mk_sample 7 2"] by (simp add: mk_sample_def)
qed

end
