(* ===== verification/Block_Serial.thy ===== *)
theory Block_Serial
  imports Block_Impl
begin

text \<open>
  The byte image of a block: \<open>BlockImpl::serialize\<close> and \<open>BlockImpl::deserialize\<close>
  (\<open>src/tsdb/storage/internal/block_impl.cpp\<close>). The reader keeps a byte offset into the
  buffer; its bounds checks are computed in \<open>size_t\<close>, so they are written modulo \<open>2^64\<close>, and a
  check that passes although the range is not inside the buffer is the outcome \<open>Fault\<close> (the
  container constructor is then given a range no buffer has: \<open>std::length_error\<close> or an
  out-of-bounds read). A detected truncation is \<open>Truncated\<close>, the null pointer of the code.
  The largest number of elements \<open>vector::reserve\<close> can serve is a parameter. The locale
  \<open>field_format\<close> is the contract of one length-prefixed element; the nested loops of the
  reader are proved against it once.
\<close>

section \<open>The reader\<close>

datatype 'a parse = Parsed 'a | Truncated | Fault

definition bind_parse :: "'a parse \<Rightarrow> ('a \<Rightarrow> 'b parse) \<Rightarrow> 'b parse" where
  "bind_parse m f = (case m of Parsed x \<Rightarrow> f x | Truncated \<Rightarrow> Truncated | Fault \<Rightarrow> Fault)"

lemma bind_parse_simps [simp]:
  "bind_parse (Parsed x) f = f x" "bind_parse Truncated f = Truncated" "bind_parse Fault f = Fault"
  by (simp_all add: bind_parse_def)

definition take_range :: "byte list \<Rightarrow> nat \<Rightarrow> nat \<Rightarrow> (byte list \<times> nat) parse" where
  "take_range data off n =
     (if length data < (off + n) mod 2 ^ 64 then Truncated
      else if length data < off + n then Fault
      else Parsed (take n (drop off data), off + n))"

definition read_u64 :: "byte list \<Rightarrow> nat \<Rightarrow> (nat \<times> nat) parse" where
  "read_u64 data off =
     bind_parse (take_range data off 8) (\<lambda>(bs, off'). Parsed (unat (le_word bs :: uint64), off'))"

text \<open>A length and then that many bytes.\<close>

definition read_block :: "byte list \<Rightarrow> nat \<Rightarrow> (byte list \<times> nat) parse" where
  "read_block data off = bind_parse (read_u64 data off) (\<lambda>(n, off'). take_range data off' n)"

text \<open>A counted loop whose body reads one element and adds it to the result.\<close>

fun for_read ::
  "(byte list \<Rightarrow> nat \<Rightarrow> ('a \<times> nat) parse) \<Rightarrow> ('b \<Rightarrow> 'a \<Rightarrow> 'b) \<Rightarrow> nat \<Rightarrow> byte list \<Rightarrow> 'b \<Rightarrow> nat \<Rightarrow>
     ('b \<times> nat) parse" where
  "for_read body ins 0 data acc off = Parsed (acc, off)"
| "for_read body ins (Suc n) data acc off =
     bind_parse (body data off) (\<lambda>(x, off'). for_read body ins n data (ins acc x) off')"

section \<open>Header\<close>

definition header_bytes :: "block_header \<Rightarrow> byte list" where
  "header_bytes h =
     le_bytes 8 (magic h) @ le_bytes 8 (block_id h) @ le_bytes 4 (version h) @ le_bytes 4 (flags h)
     @ le_bytes 4 (crc32 h) @ le_bytes 4 (pad1 h) @ le_bytes 8 (start_time h)
     @ le_bytes 8 (end_time h) @ le_bytes 4 (reserved h) @ le_bytes 4 (pad2 h)"

definition header_of_bytes :: "byte list \<Rightarrow> block_header" where
  "header_of_bytes bs =
     \<lparr>magic = le_word (take 8 bs), block_id = le_word (take 8 (drop 8 bs)),
      version = le_word (take 4 (drop 16 bs)), flags = le_word (take 4 (drop 20 bs)),
      crc32 = le_word (take 4 (drop 24 bs)), pad1 = le_word (take 4 (drop 28 bs)),
      start_time = le_word (take 8 (drop 32 bs)), end_time = le_word (take 8 (drop 40 bs)),
      reserved = le_word (take 4 (drop 48 bs)), pad2 = le_word (take 4 (drop 52 bs))\<rparr>"

section \<open>Label text\<close>

text \<open>Repeated \<open>std::getline(ss, segment, ',')\<close>: no segment after a final comma.\<close>

function getline_split :: "string \<Rightarrow> string list" where
  "getline_split s =
     (if s = [] then []
      else takeWhile (\<lambda>c. c \<noteq> CHR '','') s # getline_split (drop 1 (dropWhile (\<lambda>c. c \<noteq> CHR '','') s)))"
  by pat_completeness auto
termination
proof (relation "measure length")
  fix s :: string
  assume "s \<noteq> []"
  then show "(drop 1 (dropWhile (\<lambda>c. c \<noteq> CHR '','') s), s) \<in> measure length"
    using length_dropWhile_le [of "\<lambda>c. c \<noteq> CHR '',''" s] by (cases s) auto
qed simp

declare getline_split.simps [simp del]

definition strip_braces :: "string \<Rightarrow> string" where
  "strip_braces s =
     (if 2 \<le> length s \<and> hd s = CHR ''{'' \<and> last s = CHR ''}'' then butlast (tl s) else s)"

definition strip_quotes :: "string \<Rightarrow> string" where
  "strip_quotes s =
     (if 2 \<le> length s \<and> hd s = CHR 0x22 \<and> last s = CHR 0x22 then butlast (tl s) else s)"

text \<open>One segment; \<open>emplace\<close> keeps the entry of a key that is already there.\<close>

definition parse_segment :: "labels \<Rightarrow> string \<Rightarrow> labels" where
  "parse_segment m segment =
     (let seg = dropWhile (\<lambda>c. c = CHR '' '') segment in
      if seg = [] then m
      else if CHR ''='' \<notin> set seg then m
      else
        let key = takeWhile (\<lambda>c. c \<noteq> CHR ''='') seg;
            val = strip_quotes (drop 1 (dropWhile (\<lambda>c. c \<noteq> CHR ''='') seg))
        in if map_of m key = None then smap_insert key val m else m)"

definition parse_labels :: "string \<Rightarrow> labels" where
  "parse_labels s = foldl parse_segment [] (getline_split (strip_braces s))"

section \<open>Serialize\<close>

definition block_bytes :: "byte list \<Rightarrow> byte list" where
  "block_bytes bs = le_bytes 8 (of_nat (length bs) :: uint64) @ bs"

definition field_bytes :: "string \<times> string \<Rightarrow> byte list" where
  "field_bytes kv = block_bytes (string_bytes (fst kv)) @ block_bytes (string_bytes (snd kv))"

definition fields_bytes :: "(string \<times> string) list \<Rightarrow> byte list" where
  "fields_bytes fs = le_bytes 8 (of_nat (length fs) :: uint64) @ concat (map field_bytes fs)"

definition series_bytes :: "labels \<times> series_data \<Rightarrow> byte list" where
  "series_bytes ld =
     (let (l, d) = ld in
      block_bytes (string_bytes (labels_to_string l))
      @ block_bytes (timestamps_compressed d)
      @ block_bytes (values_compressed d)
      @ le_bytes 8 (of_nat (length (fields_uncompressed d)) :: uint64)
      @ concat (map fields_bytes (fields_uncompressed d)))"

definition block_serialize :: "block \<Rightarrow> byte list" where
  "block_serialize b =
     header_bytes (header b) @ le_bytes 8 (of_nat (length (series b)) :: uint64)
     @ concat (map series_bytes (series b))"

section \<open>Deserialize\<close>

definition read_field :: "byte list \<Rightarrow> nat \<Rightarrow> ((string \<times> string) \<times> nat) parse" where
  "read_field data off =
     bind_parse (read_block data off) (\<lambda>(k, off1).
     bind_parse (read_block data off1) (\<lambda>(v, off2).
       Parsed ((bytes_string k, bytes_string v), off2)))"

definition read_fields :: "byte list \<Rightarrow> nat \<Rightarrow> ((string \<times> string) list \<times> nat) parse" where
  "read_fields data off =
     bind_parse (read_u64 data off) (\<lambda>(n, off1).
       for_read read_field (\<lambda>m (k, v). smap_insert k v m) n data [] off1)"

text \<open>The raw parts of one series; \<open>reserve\<close> fails beyond the limit \<open>r\<close>.\<close>

definition read_series ::
  "nat \<Rightarrow> byte list \<Rightarrow> nat \<Rightarrow> ((labels \<times> series_data) \<times> nat) parse" where
  "read_series r data off =
     bind_parse (read_block data off) (\<lambda>(l, off1).
     bind_parse (read_block data off1) (\<lambda>(ts, off2).
     bind_parse (read_block data off2) (\<lambda>(vs, off3).
     bind_parse (read_u64 data off3) (\<lambda>(n, off4).
       if r < n then Fault
       else
         bind_parse (for_read read_fields (\<lambda>fs x. fs @ [x]) n data [] off4) (\<lambda>(fs, off5).
           Parsed ((parse_labels (bytes_string l),
             \<lparr>timestamps_uncompressed = [], values_uncompressed = [], fields_uncompressed = fs,
              timestamps_compressed = ts, values_compressed = vs, is_compressed = True\<rparr>), off5))))))"

text \<open>The assignment to \<open>block->series_[labels]\<close>: all stored members are overwritten, and the
  buffers of an entry of a block under construction are empty.\<close>

definition insert_series ::
  "(labels \<times> series_data) list \<Rightarrow> labels \<times> series_data \<Rightarrow> (labels \<times> series_data) list" where
  "insert_series m ld = smap_insert (fst ld) (snd ld) m"

definition block_deserialize :: "nat \<Rightarrow> byte list \<Rightarrow> block parse" where
  "block_deserialize r data =
     (if length data < 56 then Truncated
      else
        bind_parse (read_u64 data 56) (\<lambda>(n, off).
        bind_parse (for_read (read_series r) insert_series n data [] off) (\<lambda>(m, off').
          Parsed \<lparr>header = header_of_bytes (take 56 data), series = m,
            block_codecs = simple_codecs, dirty = False, sealed = True\<rparr>)))"


section \<open>One element of the format\<close>

text \<open>
  The contract of an encoder and its reader: wherever the image of an acceptable element
  stands in a buffer, the reader positioned at it returns the element and the offset behind it.
\<close>

locale field_format =
  fixes enc :: "'a \<Rightarrow> byte list"
    and dec :: "byte list \<Rightarrow> nat \<Rightarrow> ('a \<times> nat) parse"
    and acceptable :: "'a \<Rightarrow> bool"
  assumes dec_enc: "\<lbrakk>acceptable x; length (pre @ enc x @ post) < 2 ^ 64\<rbrakk> \<Longrightarrow>
    dec (pre @ enc x @ post) (length pre) = Parsed (x, length pre + length (enc x))"
begin

lemma for_read_enc:
  assumes "\<forall>x \<in> set xs. acceptable x"
    and "length (pre @ concat (map enc xs) @ post) < 2 ^ 64"
  shows "for_read dec ins (length xs) (pre @ concat (map enc xs) @ post) acc (length pre)
    = Parsed (foldl ins acc xs, length pre + length (concat (map enc xs)))"
  using assms
proof (induction xs arbitrary: acc pre)
  case (Cons x xs)
  let ?post = "concat (map enc xs) @ post"
  have "dec (pre @ enc x @ ?post) (length pre) = Parsed (x, length pre + length (enc x))"
    using Cons.prems by (intro dec_enc) simp_all
  then show ?case
    using Cons.IH [of "pre @ enc x" "ins acc x"] Cons.prems by (simp add: add.assoc)
qed simp

end

lemma take_range_append:
  assumes "length (pre @ bs @ post) < 2 ^ 64"
  shows "take_range (pre @ bs @ post) (length pre) (length bs) = Parsed (bs, length pre + length bs)"
  using assms by (simp add: take_range_def)

interpretation u64: field_format "\<lambda>n. le_bytes 8 (of_nat n :: uint64)" read_u64 "\<lambda>n. n < 2 ^ 64"
proof
  fix n :: nat and pre post :: "byte list"
  let ?w = "of_nat n :: uint64"
  assume "n < 2 ^ 64" "length (pre @ le_bytes 8 ?w @ post) < 2 ^ 64"
  then show "read_u64 (pre @ le_bytes 8 ?w @ post) (length pre)
      = Parsed (n, length pre + length (le_bytes 8 ?w))"
    using take_range_append [of pre "le_bytes 8 ?w" post]
    by (simp add: read_u64_def unat_of_nat_64)
qed

lemma read_block_append:
  assumes "length (pre @ block_bytes bs @ post) < 2 ^ 64"
  shows "read_block (pre @ block_bytes bs @ post) (length pre)
    = Parsed (bs, length pre + length (block_bytes bs))"
proof -
  let ?n = "le_bytes 8 (of_nat (length bs) :: uint64)"
  have "read_u64 (pre @ ?n @ (bs @ post)) (length pre) = Parsed (length bs, length pre + 8)"
    using u64.dec_enc [of "length bs" pre "bs @ post"] assms by (simp add: block_bytes_def)
  moreover have "take_range ((pre @ ?n) @ bs @ post) (length (pre @ ?n)) (length bs)
      = Parsed (bs, length (pre @ ?n) + length bs)"
    using assms by (intro take_range_append) (simp add: block_bytes_def)
  ultimately show ?thesis by (simp add: read_block_def block_bytes_def)
qed

interpretation bytes: field_format block_bytes read_block "\<lambda>bs. True"
  by unfold_locales (rule read_block_append)

lemma read_field_append:
  assumes "length (pre @ field_bytes kv @ post) < 2 ^ 64"
  shows "read_field (pre @ field_bytes kv @ post) (length pre)
    = Parsed (kv, length pre + length (field_bytes kv))"
proof -
  let ?k = "block_bytes (string_bytes (fst kv))" and ?v = "block_bytes (string_bytes (snd kv))"
  have "read_block (pre @ ?k @ (?v @ post)) (length pre)
      = Parsed (string_bytes (fst kv), length pre + length ?k)"
    using assms by (intro read_block_append) (simp add: field_bytes_def)
  moreover have "read_block ((pre @ ?k) @ ?v @ post) (length (pre @ ?k))
      = Parsed (string_bytes (snd kv), length (pre @ ?k) + length ?v)"
    using assms by (intro read_block_append) (simp add: field_bytes_def)
  ultimately show ?thesis by (simp add: read_field_def field_bytes_def add.assoc)
qed

interpretation field: field_format field_bytes read_field "\<lambda>kv. True"
  by unfold_locales (rule read_field_append)

lemma length_concat_le: "\<forall>x \<in> set xs. f x \<noteq> [] \<Longrightarrow> length xs \<le> length (concat (map f xs))"
proof (induction xs)
  case (Cons x xs)
  then show ?case by (cases "f x") auto
qed simp

lemma element_bytes_nonempty [simp]:
  "field_bytes kv \<noteq> []" "fields_bytes fs \<noteq> []" "series_bytes ld \<noteq> []"
  by (simp_all add: field_bytes_def fields_bytes_def series_bytes_def block_bytes_def split: prod.split)

lemma read_fields_append:
  assumes "smap_ok fs" "length (pre @ fields_bytes fs @ post) < 2 ^ 64"
  shows "read_fields (pre @ fields_bytes fs @ post) (length pre)
    = Parsed (fs, length pre + length (fields_bytes fs))"
proof -
  let ?n = "le_bytes 8 (of_nat (length fs) :: uint64)" and ?fs = "concat (map field_bytes fs)"
  have "length fs \<le> length ?fs"
    by (rule length_concat_le) simp
  then have "read_u64 (pre @ ?n @ (?fs @ post)) (length pre) = Parsed (length fs, length pre + 8)"
    using u64.dec_enc [of "length fs" pre "?fs @ post"] assms(2) by (simp add: fields_bytes_def)
  moreover have "for_read read_field (\<lambda>m (k, v). smap_insert k v m) (length fs)
      ((pre @ ?n) @ ?fs @ post) [] (length (pre @ ?n)) = Parsed (fs, length (pre @ ?n) + length ?fs)"
    using field.for_read_enc [of fs "pre @ ?n" post "\<lambda>m (k, v). smap_insert k v m" "[]"]
      assms foldl_smap_insert [of "[]" fs] by (simp add: fields_bytes_def)
  ultimately show ?thesis by (simp add: read_fields_def fields_bytes_def)
qed

interpretation entry_fields: field_format fields_bytes read_fields smap_ok
  by unfold_locales (rule read_fields_append)

section \<open>Label text round trip\<close>

text \<open>
  What the comma-splitting reader can take: no comma in names or values, no equals sign in a
  name and no name starting with a space. Quotes and equals signs in values are harmless.
\<close>

definition plain_entry :: "string \<times> string \<Rightarrow> bool" where
  "plain_entry e \<longleftrightarrow> CHR '','' \<notin> set (fst e) \<and> CHR '','' \<notin> set (snd e) \<and> CHR ''='' \<notin> set (fst e)
     \<and> (fst e = [] \<or> hd (fst e) \<noteq> CHR '' '')"

lemma getline_split_Nil [simp]: "getline_split [] = []"
  by (simp add: getline_split.simps)

lemma getline_split_last: "\<lbrakk>CHR '','' \<notin> set s; s \<noteq> []\<rbrakk> \<Longrightarrow> getline_split s = [s]"
  by (subst getline_split.simps) simp

lemma getline_split_comma:
  "CHR '','' \<notin> set s \<Longrightarrow> getline_split (s @ CHR '','' # rest) = s # getline_split rest"
  by (subst getline_split.simps) simp

lemma getline_split_entries:
  assumes "list_all plain_entry m" "CHR '','' \<notin> set s" "s \<noteq> []"
  shows "getline_split (s @ labels_to_string_loop False m)
    = s # map (\<lambda>e. CHR '' '' # label_entry_string e) m"
  using assms
proof (induction m arbitrary: s)
  case Nil
  then show ?case by (simp add: getline_split_last)
next
  case (Cons e m)
  have "CHR '','' \<notin> set (CHR '' '' # label_entry_string e)"
    using Cons.prems(1) by (auto simp: plain_entry_def label_entry_string_def)
  with Cons.IH [of "CHR '' '' # label_entry_string e"] Cons.prems show ?case
    by (simp add: getline_split_comma)
qed

lemma parse_segment_space [simp]: "parse_segment m (CHR '' '' # s) = parse_segment m s"
  by (simp add: parse_segment_def)

lemma strip_quotes_quoted [simp]: "strip_quotes (CHR 0x22 # s @ [CHR 0x22]) = s"
  by (simp add: strip_quotes_def)

lemma parse_segment_entry:
  assumes "plain_entry (k, v)"
  shows "parse_segment m (label_entry_string (k, v)) =
    (if map_of m k = None then smap_insert k v m else m)"
proof -
  let ?s = "label_entry_string (k, v)"
  have s: "?s = k @ CHR ''='' # CHR 0x22 # v @ [CHR 0x22]"
    by (simp add: label_entry_string_def)
  have "dropWhile (\<lambda>c. c = CHR '' '') ?s = ?s"
    using assms unfolding s by (cases k) (auto simp: plain_entry_def)
  moreover have "takeWhile (\<lambda>c. c \<noteq> CHR ''='') ?s = k"
    "dropWhile (\<lambda>c. c \<noteq> CHR ''='') ?s = CHR ''='' # CHR 0x22 # v @ [CHR 0x22]"
    using assms by (auto simp: s plain_entry_def)
  ultimately show ?thesis by (simp add: parse_segment_def Let_def s)
qed

lemma parse_segment_entries:
  assumes "list_all plain_entry n" "smap_ok (m @ n)"
  shows "foldl parse_segment m (map label_entry_string n) = m @ n"
  using assms
proof (induction n arbitrary: m)
  case (Cons e n)
  obtain k v where e: "e = (k, v)" by force
  have lt: "\<forall>a \<in> fst ` set m. a < k" using Cons.prems(2) by (auto simp: e smap_ok_append)
  then have "map_of m k = None" by (force simp: map_of_eq_None_iff)
  then have "parse_segment m (label_entry_string e) = m @ [e]"
    using Cons.prems(1) smap_insert_last [OF lt] by (simp add: e parse_segment_entry)
  with Cons.IH [of "m @ [e]"] Cons.prems show ?case by simp
qed simp

lemma strip_braces_labels: "strip_braces (labels_to_string l) = labels_to_string_loop True l"
  by (simp add: labels_to_string_def strip_braces_def butlast_append)

lemma parse_labels_to_string:
  assumes "smap_ok l" "list_all plain_entry l"
  shows "parse_labels (labels_to_string l) = l"
proof (cases l)
  case Nil
  then show ?thesis by (simp add: parse_labels_def strip_braces_labels)
next
  case (Cons e m)
  have "CHR '','' \<notin> set (label_entry_string e)" "label_entry_string e \<noteq> []"
    using assms(2) Cons by (auto simp: plain_entry_def label_entry_string_def)
  then have "getline_split (labels_to_string_loop True l) =
      label_entry_string e # map (\<lambda>e. CHR '' '' # label_entry_string e) m"
    using getline_split_entries [of m] assms(2) Cons by simp
  moreover have "foldl parse_segment a (map (\<lambda>e. CHR '' '' # label_entry_string e) m)
      = foldl parse_segment a (map label_entry_string m)" for a
    by (simp add: foldl_map)
  ultimately show ?thesis
    using parse_segment_entries [of l "[]"] assms Cons by (simp add: parse_labels_def strip_braces_labels)
qed

section \<open>A whole block\<close>

text \<open>A sealed series whose text form is readable and whose field list fits the reader's memory.\<close>

definition storable :: "nat \<Rightarrow> labels \<times> series_data \<Rightarrow> bool" where
  "storable r ld \<longleftrightarrow> smap_ok (fst ld) \<and> list_all plain_entry (fst ld) \<and> is_compressed (snd ld)
     \<and> timestamps_uncompressed (snd ld) = [] \<and> values_uncompressed (snd ld) = []
     \<and> list_all smap_ok (fields_uncompressed (snd ld)) \<and> length (fields_uncompressed (snd ld)) \<le> r"

lemma read_series_append:
  assumes "storable r ld" "length (pre @ series_bytes ld @ post) < 2 ^ 64"
  shows "read_series r (pre @ series_bytes ld @ post) (length pre)
    = Parsed (ld, length pre + length (series_bytes ld))"
proof -
  obtain l d where ld: "ld = (l, d)" by force
  define A where "A = block_bytes (string_bytes (labels_to_string l))"
  define B where "B = block_bytes (timestamps_compressed d)"
  define C where "C = block_bytes (values_compressed d)"
  define N where "N = le_bytes 8 (of_nat (length (fields_uncompressed d)) :: uint64)"
  define F where "F = concat (map fields_bytes (fields_uncompressed d))"
  have sb: "series_bytes (l, d) = A @ B @ C @ N @ F"
    by (simp add: series_bytes_def A_def B_def C_def N_def F_def)
  have small: "length (pre @ A @ B @ C @ N @ F @ post) < 2 ^ 64" using assms(2) by (simp add: ld sb)
  have 1: "read_block (pre @ A @ B @ C @ N @ F @ post) (length pre)
      = Parsed (string_bytes (labels_to_string l), length pre + length A)"
    unfolding A_def by (rule read_block_append) (use small in \<open>simp add: A_def\<close>)
  have 2: "read_block (pre @ A @ B @ C @ N @ F @ post) (length pre + length A)
      = Parsed (timestamps_compressed d, length pre + length A + length B)"
    using read_block_append [of "pre @ A" "timestamps_compressed d" "C @ N @ F @ post"] small
    by (simp add: B_def add.assoc)
  have 3: "read_block (pre @ A @ B @ C @ N @ F @ post) (length pre + length A + length B)
      = Parsed (values_compressed d, length pre + length A + length B + length C)"
    using read_block_append [of "pre @ A @ B" "values_compressed d" "N @ F @ post"] small
    by (simp add: C_def add.assoc)
  have "length (fields_uncompressed d) \<le> length F"
    unfolding F_def by (rule length_concat_le) simp
  then have 4: "read_u64 (pre @ A @ B @ C @ N @ F @ post) (length pre + length A + length B + length C)
      = Parsed (length (fields_uncompressed d), length pre + length A + length B + length C + 8)"
    using u64.dec_enc [of "length (fields_uncompressed d)" "pre @ A @ B @ C" "F @ post"] small
    by (simp add: N_def add.assoc)
  have 5: "for_read read_fields (\<lambda>fs x. fs @ [x]) (length (fields_uncompressed d))
      (pre @ A @ B @ C @ N @ F @ post) [] (length pre + length A + length B + length C + 8)
    = Parsed (fields_uncompressed d, length pre + length A + length B + length C + 8 + length F)"
    using entry_fields.for_read_enc [of "fields_uncompressed d" "pre @ A @ B @ C @ N" post
        "\<lambda>fs x. fs @ [x]" "[]"] small assms(1)
    by (simp add: F_def N_def add.assoc storable_def ld list_all_iff)
  show ?thesis
    using assms(1) parse_labels_to_string [of l]
    by (simp add: read_series_def sb 1 2 3 4 5 storable_def ld)
      (simp add: N_def)
qed

lemma series_format: "field_format series_bytes (read_series r) (storable r)"
  by unfold_locales (rule read_series_append)

interpretation sealed_series: field_format series_bytes "read_series r" "storable r" for r
  by (rule series_format)

lemma header_round_trip: "header_of_bytes (header_bytes h) = h"
  by (cases h) (simp add: header_of_bytes_def header_bytes_def)

lemma length_header_bytes [simp]: "length (header_bytes h) = 56"
  by (simp add: header_bytes_def)

lemma insert_series_all: "smap_ok m \<Longrightarrow> foldl insert_series [] m = m"
  using foldl_smap_insert [of "[]" m] by (simp add: insert_series_def [abs_def] case_prod_unfold)

lemma parse_block_image:
  assumes "smap_ok (series b)" "\<forall>ld \<in> set (series b). storable r ld"
    and "length (block_serialize b) < 2 ^ 64"
  shows "block_deserialize r (block_serialize b) =
    Parsed (b\<lparr>block_codecs := simple_codecs, dirty := False, sealed := True\<rparr>)"
proof -
  let ?H = "header_bytes (header b)" and ?N = "le_bytes 8 (of_nat (length (series b)) :: uint64)"
  let ?S = "concat (map series_bytes (series b))"
  have small: "length (?H @ ?N @ ?S @ []) < 2 ^ 64"
    using assms(3) by (simp add: block_serialize_def)
  have "length (series b) \<le> length ?S" by (rule length_concat_le) simp
  then have "read_u64 (?H @ ?N @ ?S) (length ?H) = Parsed (length (series b), length ?H + 8)"
    using u64.dec_enc [of "length (series b)" ?H ?S] small by simp
  moreover have "for_read (read_series r) insert_series (length (series b))
      (?H @ ?N @ ?S) [] (length ?H + 8) = Parsed (series b, length ?H + 8 + length ?S)"
    using sealed_series.for_read_enc [of "series b" r "?H @ ?N" "[]" insert_series "[]"]
      small assms(1,2) insert_series_all by simp
  ultimately show ?thesis
    by (cases b) (simp add: block_deserialize_def block_serialize_def header_round_trip)
qed

section \<open>Properties\<close>

text \<open>
  A sealed block survives serialization: \<open>deserialize\<close> of \<open>serialize\<close> gives back the header,
  every series with its labels, both compressed columns and the fields of every sample. It
  needs labels the comma-splitting text reader can take and an image below \<open>2^64\<close> bytes.
\<close>

theorem block_serialization_roundtrip:
  assumes "smap_ok (series b)" "\<forall>ld \<in> set (series b). storable r ld"
    and "length (block_serialize b) < 2 ^ 64"
  shows "block_deserialize r (block_serialize b) =
    Parsed (b\<lparr>block_codecs := simple_codecs, dirty := False, sealed := True\<rparr>)"
  using assms by (rule parse_block_image)

theorem block_serialization_roundtrip_witness:
  "let b = (mk_block sample_header simple_codecs)\<lparr>series :=
       [([(''job'', ''a'')], \<lparr>timestamps_uncompressed = [], values_uncompressed = [],
          fields_uncompressed = [[(''host'', ''h1'')]], timestamps_compressed = [1],
          values_compressed = [2], is_compressed = True\<rparr>)], sealed := True\<rparr>
   in block_deserialize 10 (block_serialize b) = Parsed b"
proof -
  let ?b = "(mk_block sample_header simple_codecs)\<lparr>series :=
       [([(''job'', ''a'')], \<lparr>timestamps_uncompressed = [], values_uncompressed = [],
          fields_uncompressed = [[(''host'', ''h1'')]], timestamps_compressed = [1],
          values_compressed = [2], is_compressed = True\<rparr>)], sealed := True\<rparr>"
  have "smap_ok (series ?b)" "\<forall>ld \<in> set (series ?b). storable 10 ld"
    by (simp_all add: smap_ok_def storable_def plain_entry_def)
  moreover have "length (block_serialize ?b) < 2 ^ 64"
    by (simp add: block_serialize_def series_bytes_def block_bytes_def fields_bytes_def
        field_bytes_def labels_to_string_def label_entry_string_def mk_block_def)
  ultimately have "block_deserialize 10 (block_serialize ?b) =
      Parsed (?b\<lparr>block_codecs := simple_codecs, dirty := False, sealed := True\<rparr>)"
    by (rule block_serialization_roundtrip)
  then show ?thesis by (simp add: mk_block_def)
qed

text \<open>The image does not depend on the buffered columns nor on the flag.\<close>

definition image_data :: "series_data \<Rightarrow> series_data" where
  "image_data d = d\<lparr>timestamps_uncompressed := [], values_uncompressed := [], is_compressed := True\<rparr>"

definition image_block :: "block \<Rightarrow> block" where
  "image_block b = b\<lparr>series := map (\<lambda>(l, d). (l, image_data d)) (series b)\<rparr>"

lemma block_serialize_image: "block_serialize (image_block b) = block_serialize b"
  by (auto simp: block_serialize_def image_block_def image_data_def series_bytes_def comp_def
      intro!: arg_cong [where f = concat])

lemma deserialize_image:
  assumes "smap_ok (series b)" "\<forall>(l, d) \<in> set (series b). storable r (l, image_data d)"
    and "length (block_serialize b) < 2 ^ 64"
  shows "block_deserialize r (block_serialize b) =
    Parsed ((image_block b)\<lparr>block_codecs := simple_codecs, dirty := False, sealed := True\<rparr>)"
proof -
  have "smap_ok (series (image_block b))"
    using assms(1) by (simp add: image_block_def smap_simps)
  moreover have "\<forall>ld \<in> set (series (image_block b)). storable r ld"
    using assms(2) by (auto simp: image_block_def)
  ultimately show ?thesis
    using assms(3) parse_block_image [of "image_block b" r] by (simp add: block_serialize_image)
qed

lemma deserialize_sealed:
  assumes "smap_ok (series b)" "block_codecs b = simple_codecs"
    and "\<forall>(l, d) \<in> set (series b). \<not> is_compressed d \<and> timestamps_uncompressed d \<noteq> []
      \<and> length (timestamps_uncompressed d) < 2 ^ 32 \<and> length (values_uncompressed d) < 2 ^ 32
      \<and> storable r (l, image_data d)"
    and "length (block_serialize (block_seal b)) < 2 ^ 64"
  shows "block_deserialize r (block_serialize (block_seal b)) = Parsed ((block_seal b)\<lparr>dirty := False\<rparr>)"
proof -
  let ?s = "block_seal b"
  have "smap_ok (series ?s)"
    using assms(1) by (simp add: block_seal_def smap_simps)
  moreover have "\<forall>(l, d) \<in> set (series ?s). storable r (l, image_data d)"
    using assms(3) by (auto simp: block_seal_def seal_data_def storable_def image_data_def)
  ultimately have "block_deserialize r (block_serialize ?s) =
      Parsed ((image_block ?s)\<lparr>block_codecs := simple_codecs, dirty := False, sealed := True\<rparr>)"
    using assms(4) by (rule deserialize_image)
  moreover have "image_data (seal_data c d) = seal_data c d"
    if "(l, d) \<in> set (series b)" for c l d
    using that assms(3) by (auto simp: image_data_def seal_data_def)
  then have "map (\<lambda>(l, d). (l, image_data (seal_data c d))) (series b)
      = map (\<lambda>(l, d). (l, seal_data c d)) (series b)" for c
    by (intro map_cong) auto
  then have "image_block ?s = ?s"
    by (simp add: image_block_def block_seal_def comp_def case_prod_unfold)
  ultimately show ?thesis using assms(2) by (simp add: block_seal_def)
qed

text \<open>
  C10: What a block that was sealed and written to disk gives back is what had been appended. In a block with the default compressors
  let the data of every series still be buffered, not empty and below \<open>2^32\<close> entries, with at most as many field
  maps as the allocator serves, and let the labels be storable: no comma in a name or value, no equals sign in a name, no space in
  front of a name. Then deserializing the bytes of the sealed block gives its header, and for every label set the
  columns read from the result are those read before sealing. Labels outside this are split wrongly by the reader.
\<close>

theorem sealed_block_durable:
  assumes "smap_ok (series b)" "block_codecs b = simple_codecs"
    and "\<forall>(l, d) \<in> set (series b). \<not> is_compressed d \<and> timestamps_uncompressed d \<noteq> []
      \<and> length (timestamps_uncompressed d) < 2 ^ 32 \<and> length (values_uncompressed d) < 2 ^ 32
      \<and> storable r (l, image_data d)"
    and "length (block_serialize (block_seal b)) < 2 ^ 64"
  shows "\<exists>b'. block_deserialize r (block_serialize (block_seal b)) = Parsed b'
    \<and> header b' = header b \<and> (\<forall>l. read_columns l b' = read_columns l b)"
proof (intro exI conjI allI)
  show "block_deserialize r (block_serialize (block_seal b)) = Parsed ((block_seal b)\<lparr>dirty := False\<rparr>)"
    using assms by (rule deserialize_sealed)
  show "header ((block_seal b)\<lparr>dirty := False\<rparr>) = header b" by (simp add: block_seal_def)
  have "read_columns l ((block_seal b)\<lparr>dirty := False\<rparr>) = read_columns l (block_seal b)" for l
    by (simp add: read_columns_def split: option.split)
  moreover have "read_columns l (block_seal b) = read_columns l b" for l
    using assms(2,3) by (intro simple.read_columns_seal) (auto dest: map_of_SomeD)
  ultimately show "read_columns l ((block_seal b)\<lparr>dirty := False\<rparr>) = read_columns l b" for l by simp
qed

definition one_sample_block :: block where
  "one_sample_block = block_append [(''job'', ''a'')] (mk_sample 5 1) (mk_block sample_header simple_codecs)"

lemma one_sample_series: "series one_sample_block = [([(''job'', ''a'')],
    \<lparr>timestamps_uncompressed = [5], values_uncompressed = [1], fields_uncompressed = [[]],
     timestamps_compressed = [], values_compressed = [], is_compressed = False\<rparr>)]"
  by (simp add: one_sample_block_def block_append_def series_at_def mk_block_def empty_series_data_def
      mk_sample_def Let_def)

lemma one_sample_storable:
  "smap_ok (series one_sample_block)" "block_codecs one_sample_block = simple_codecs"
  "\<forall>(l, d) \<in> set (series one_sample_block). \<not> is_compressed d \<and> timestamps_uncompressed d \<noteq> []
      \<and> length (timestamps_uncompressed d) < 2 ^ 32 \<and> length (values_uncompressed d) < 2 ^ 32
      \<and> storable 10 (l, image_data d)"
  "length (block_serialize (block_seal one_sample_block)) < 2 ^ 64"
  "read_columns [(''job'', ''a'')] one_sample_block = Some ([5], [1])"
proof -
  show codecs: "block_codecs one_sample_block = simple_codecs"
    by (simp add: one_sample_block_def block_append_def mk_block_def Let_def)
  have "length (simple_ts_compress [5]) < 100" "length (simple_val_compress [1]) < 100"
    by code_simp+
  then show "length (block_serialize (block_seal one_sample_block)) < 2 ^ 64"
    by (simp add: block_serialize_def block_seal_def one_sample_series codecs seal_data_def
        series_bytes_def block_bytes_def fields_bytes_def labels_to_string_def label_entry_string_def)
qed (simp_all add: one_sample_series storable_def image_data_def smap_ok_def plain_entry_def
    read_columns_def data_columns_def)

theorem sealed_block_durable_witness:
  "\<exists>b'. block_deserialize 10 (block_serialize (block_seal one_sample_block)) = Parsed b'
     \<and> read_columns [(''job'', ''a'')] b' = Some ([5], [1])"
  using sealed_block_durable [OF one_sample_storable(1-4)] one_sample_storable(5) by metis

text \<open>
  Serializing a block that was not sealed loses its samples: the image holds only the
  compressed columns, so a series that is still buffered comes back with no samples at all.
\<close>

theorem serialize_unsealed_drops_samples:
  assumes "smap_ok (series b)" "\<forall>(l, d) \<in> set (series b). storable r (l, image_data d)"
    and "length (block_serialize b) < 2 ^ 64"
    and "map_of (series b) l = Some d" "timestamps_compressed d = []" "values_compressed d = []"
  shows "\<exists>b'. block_deserialize r (block_serialize b) = Parsed b' \<and> read_columns l b' = Some ([], [])"
proof (intro exI conjI)
  show "block_deserialize r (block_serialize b) =
      Parsed ((image_block b)\<lparr>block_codecs := simple_codecs, dirty := False, sealed := True\<rparr>)"
    using assms(1-3) by (rule deserialize_image)
  have "simple_ts_decompress [] = []" "simple_val_decompress [] = []" by code_simp+
  then show "read_columns l ((image_block b)\<lparr>block_codecs := simple_codecs, dirty := False, sealed := True\<rparr>)
      = Some ([], [])"
    using assms(4-6)
    by (simp add: read_columns_def image_block_def map_of_map_snd image_data_def data_columns_def
        simple_codecs_def)
qed

theorem serialize_unsealed_drops_samples_witness:
  "\<exists>b'. block_deserialize 10 (block_serialize
       (block_append [] (mk_sample 5 1) (mk_block sample_header simple_codecs))) = Parsed b'
     \<and> read_columns [] b' = Some ([], [])
     \<and> read_columns [] (block_append [] (mk_sample 5 1) (mk_block sample_header simple_codecs))
         = Some ([5], [1])"
proof -
  let ?b = "block_append [] (mk_sample 5 1) (mk_block sample_header simple_codecs)"
  have ser: "series ?b = [([], \<lparr>timestamps_uncompressed = [5], values_uncompressed = [1],
      fields_uncompressed = [[]], timestamps_compressed = [], values_compressed = [],
      is_compressed = False\<rparr>)]"
    by (simp add: block_append_def series_at_def mk_block_def empty_series_data_def mk_sample_def Let_def)
  have "length (block_serialize ?b) < 2 ^ 64"
    by (simp add: block_serialize_def ser series_bytes_def block_bytes_def fields_bytes_def
        labels_to_string_def)
  then show ?thesis
    using serialize_unsealed_drops_samples [of ?b 10 "[]"]
    by (simp add: ser storable_def image_data_def smap_ok_def read_columns_def data_columns_def)
qed

text \<open>
  The bounds checks of the reader wrap around: a length field close to \<open>2^64\<close> makes
  \<open>offset + len\<close> small again, the check passes, and the reader is given a range that lies
  outside the buffer.
\<close>

theorem deserialize_length_wraps:
  assumes "length data < 2 ^ 64" "off \<le> length data" "2 ^ 64 - off \<le> n" "n < 2 ^ 64" "0 < off"
  shows "take_range data off n = Fault"
proof -
  have "(off + n) mod 2 ^ 64 = off + n - 2 ^ 64"
    using assms by (subst le_mod_geq) auto
  moreover have "off + n - 2 ^ 64 < off" "length data < off + n" using assms by auto
  ultimately show ?thesis using assms(2) by (simp add: take_range_def)
qed

theorem deserialize_length_wraps_witness:
  "block_deserialize 10 (replicate 56 0 @ le_bytes 8 (1 :: uint64) @ le_bytes 8 (- 1 :: uint64)) = Fault"
proof -
  let ?data = "replicate 56 0 @ le_bytes 8 (1 :: uint64) @ le_bytes 8 (- 1 :: uint64)"
  have "read_u64 ?data 56 = Parsed (1, 64)"
    by (simp add: read_u64_def take_range_def)
  moreover have "unat (- 1 :: uint64) = 2 ^ 64 - 1" by (simp add: unsigned_minus_1_eq_mask mask_eq_exp_minus_1)
  then have "read_u64 ?data 64 = Parsed (2 ^ 64 - 1, 72)"
    by (simp add: read_u64_def take_range_def)
  moreover have "take_range ?data 72 (2 ^ 64 - 1) = Fault"
    by (rule deserialize_length_wraps) simp_all
  ultimately show ?thesis
    by (simp add: block_deserialize_def read_series_def read_block_def)
qed

end
