(* ===== verification/Series_Store.thy ===== *)
theory Series_Store
  imports Block_Impl
begin

text \<open>
  \<open>Series\<close> (\<open>src/tsdb/storage/series.cpp\<close>): the head block that receives samples, the list of
  sealed blocks behind it, and the merging range read. Blocks are \<open>shared_ptr\<close>s, so an entry is
  an address with the object it points to, and \<open>ReplaceBlock\<close> compares addresses. The relation
  \<open>reach\<close> records, for every state a series can get into by \<open>append\<close> and \<open>seal_block\<close>, the
  samples that were appended; the range read is proved against that history.
\<close>

section \<open>State\<close>

datatype metric_type = GAUGE | COUNTER | HISTOGRAM | SUMMARY

record granularity =
  interval :: int64
  retention :: int64

record series_metadata =
  md_id :: uint64
  md_labels :: labels
  md_type :: metric_type
  md_granularity :: granularity

record block_ref =
  addr :: nat
  obj :: block

record stored_series =
  metadata :: series_metadata
  blocks :: "block_ref option list"
  current_block :: "block_ref option"

text \<open>What creating a block draws on: the global id counter, the next heap address and the
  contents of the uninitialised header variable.\<close>

record block_alloc =
  global_block_id_counter :: uint64
  next_addr :: nat
  stack_header :: block_header

definition mk_series :: "series_metadata \<Rightarrow> stored_series" where
  "mk_series md = \<lparr>metadata = md, blocks = [], current_block = None\<rparr>"

section \<open>Writing\<close>

definition new_head :: "sample \<Rightarrow> block_alloc \<Rightarrow> block_ref \<times> block_alloc" where
  "new_head s e =
     (let h = (stack_header e)\<lparr>block_id := global_block_id_counter e,
            magic := 0x4253445354534254, version := 1, flags := 0, crc32 := 0,
            start_time := timestamp s, end_time := timestamp s, reserved := 0\<rparr>
      in (\<lparr>addr = next_addr e, obj = mk_block h simple_codecs\<rparr>,
          e\<lparr>global_block_id_counter := global_block_id_counter e + 1, next_addr := Suc (next_addr e)\<rparr>))"

text \<open>\<open>append\<close> also reports whether the head block has reached 10000 samples; no report means
  that counting them read out of bounds.\<close>

definition series_append ::
  "block_alloc \<Rightarrow> sample \<Rightarrow> stored_series \<Rightarrow> bool option \<times> stored_series \<times> block_alloc" where
  "series_append e s ser =
     (let (r, e') = (case current_block ser of None \<Rightarrow> new_head s e | Some r \<Rightarrow> (r, e));
          r' = r\<lparr>obj := block_append (md_labels (metadata ser)) s (obj r)\<rparr>
      in (map_option (\<lambda>n. 10000 \<le> n) (num_samples (obj r')), ser\<lparr>current_block := Some r'\<rparr>, e'))"

definition seal_block :: "stored_series \<Rightarrow> block_ref option \<times> stored_series" where
  "seal_block ser =
     (case current_block ser of
        None \<Rightarrow> (None, ser)
      | Some r \<Rightarrow>
          let r' = r\<lparr>obj := block_seal (obj r)\<rparr>
          in (Some r', ser\<lparr>blocks := blocks ser @ [Some r'], current_block := None\<rparr>))"

definition AddBlock :: "block_ref option \<Rightarrow> stored_series \<Rightarrow> stored_series" where
  "AddBlock r ser = ser\<lparr>blocks := blocks ser @ [r]\<rparr>"

fun replace_first :: "nat option \<Rightarrow> block_ref option \<Rightarrow> block_ref option list \<Rightarrow> block_ref option list option" where
  "replace_first old new [] = None"
| "replace_first old new (r # rs) =
     (if map_option addr r = old then Some (new # rs)
      else map_option ((#) r) (replace_first old new rs))"

definition ReplaceBlock ::
  "nat option \<Rightarrow> block_ref option \<Rightarrow> stored_series \<Rightarrow> bool \<times> stored_series" where
  "ReplaceBlock old new ser =
     (case replace_first old new (blocks ser) of
        None \<Rightarrow> (False, ser)
      | Some rs \<Rightarrow> (True, ser\<lparr>blocks := rs\<rparr>))"

section \<open>Reading\<close>

definition in_range :: "int64 \<Rightarrow> int64 \<Rightarrow> sample \<Rightarrow> bool" where
  "in_range t0 t1 s \<longleftrightarrow> sint t0 \<le> sint (timestamp s) \<and> sint (timestamp s) \<le> sint t1"

text \<open>The loop over the sealed blocks: a null entry and a block whose header does not overlap
  the range are skipped.\<close>

fun read_blocks ::
  "(sample list \<Rightarrow> sample list) \<Rightarrow> labels \<Rightarrow> int64 \<Rightarrow> int64 \<Rightarrow> block_ref option list \<Rightarrow>
     sample list option" where
  "read_blocks srt l t0 t1 [] = Some []"
| "read_blocks srt l t0 t1 (None # rs) = read_blocks srt l t0 t1 rs"
| "read_blocks srt l t0 t1 (Some r # rs) =
     (if sint (end_time (header (obj r))) < sint t0 \<or> sint t1 < sint (start_time (header (obj r)))
      then read_blocks srt l t0 t1 rs
      else
        (case block_read srt l (obj r) of
           None \<Rightarrow> None
         | Some ts \<Rightarrow>
             map_option ((@) (filter (in_range t0 t1) (ts_samples ts)))
               (read_blocks srt l t0 t1 rs)))"

definition read_head ::
  "(sample list \<Rightarrow> sample list) \<Rightarrow> labels \<Rightarrow> int64 \<Rightarrow> int64 \<Rightarrow> block_ref option \<Rightarrow>
     sample list option" where
  "read_head srt l t0 t1 cur =
     (case cur of
        None \<Rightarrow> Some []
      | Some r \<Rightarrow>
          map_option (\<lambda>ts. filter (in_range t0 t1) (ts_samples ts)) (block_read srt l (obj r)))"

text \<open>\<open>std::unique\<close> on equal timestamps: of each group of neighbours the first stays.\<close>

fun unique_ts :: "sample list \<Rightarrow> sample list" where
  "unique_ts [] = []"
| "unique_ts [a] = [a]"
| "unique_ts (a # b # ss) =
     (if timestamp a = timestamp b then unique_ts (a # ss) else a # unique_ts (b # ss))"

definition series_read ::
  "(sample list \<Rightarrow> sample list) \<Rightarrow> int64 \<Rightarrow> int64 \<Rightarrow> stored_series \<Rightarrow> sample list option" where
  "series_read srt t0 t1 ser =
     (case read_blocks srt (md_labels (metadata ser)) t0 t1 (blocks ser) of
        None \<Rightarrow> None
      | Some xs \<Rightarrow>
          map_option (\<lambda>ys. unique_ts (srt (xs @ ys)))
            (read_head srt (md_labels (metadata ser)) t0 t1 (current_block ser)))"

text \<open>A null block is dereferenced by \<open>NumSamples\<close>, \<open>MinTimestamp\<close> and \<open>MaxTimestamp\<close>: no result.\<close>

fun count_blocks :: "block_ref option list \<Rightarrow> nat option" where
  "count_blocks [] = Some 0"
| "count_blocks (None # rs) = None"
| "count_blocks (Some r # rs) =
     (case num_samples (obj r) of None \<Rightarrow> None | Some n \<Rightarrow> map_option ((+) n) (count_blocks rs))"

definition NumSamples :: "stored_series \<Rightarrow> nat option" where
  "NumSamples ser =
     (case count_blocks (blocks ser) of
        None \<Rightarrow> None
      | Some n \<Rightarrow>
          (case current_block ser of
             None \<Rightarrow> Some n
           | Some r \<Rightarrow> map_option ((+) n) (num_samples (obj r))))"

definition MinTimestamp :: "stored_series \<Rightarrow> int64 option" where
  "MinTimestamp ser =
     (if blocks ser = [] then Some 0
      else map_option (\<lambda>r. start_time (header (obj r))) (hd (blocks ser)))"

definition MaxTimestamp :: "stored_series \<Rightarrow> int64 option" where
  "MaxTimestamp ser =
     (if blocks ser = [] then Some 0
      else map_option (\<lambda>r. end_time (header (obj r))) (last (blocks ser)))"

section \<open>Reachable states and their history\<close>

inductive reach :: "stored_series \<Rightarrow> sample list \<Rightarrow> bool" where
  reach_new: "reach (mk_series md) []"
| reach_append: "\<lbrakk>reach ser hist; series_append e s ser = (full, ser', e')\<rbrakk> \<Longrightarrow> reach ser' (hist @ [s])"
| reach_seal: "\<lbrakk>reach ser hist; seal_block ser = (r, ser')\<rbrakk> \<Longrightarrow> reach ser' hist"

text \<open>The part of a sample that sealing keeps.\<close>

definition point :: "sample \<Rightarrow> int64 \<times> double" where
  "point s = (timestamp s, sval s)"

text \<open>A sealed block holding the points of \<open>ss\<close>, and a head block that has received \<open>ss\<close>.\<close>

definition stores :: "labels \<Rightarrow> block \<Rightarrow> sample list \<Rightarrow> bool" where
  "stores l b ss \<longleftrightarrow>
     (\<exists>d xs. map_of (series b) l = Some d \<and> data_samples (block_codecs b) d = Some xs
       \<and> map point xs = map point ss) \<and> num_samples b = Some (length ss)
     \<and> (\<forall>x \<in> set ss. covers (header b) (timestamp x))"

definition buffers :: "labels \<Rightarrow> block \<Rightarrow> sample list \<Rightarrow> bool" where
  "buffers l b ss \<longleftrightarrow> block_codecs b = simple_codecs \<and> ss \<noteq> []
     \<and> (\<exists>d. series b = [(l, d)] \<and> \<not> is_compressed d
          \<and> timestamps_uncompressed d = map timestamp ss \<and> values_uncompressed d = map sval ss
          \<and> fields_uncompressed d = map sfields ss)
     \<and> start_time (header b) \<noteq> 0 \<and> sint (start_time (header b)) \<le> sint (end_time (header b))
     \<and> (\<forall>x \<in> set ss. covers (header b) (timestamp x))"

definition series_inv :: "stored_series \<Rightarrow> sample list \<Rightarrow> bool" where
  "series_inv ser hist \<longleftrightarrow>
     (\<exists>bss cur. hist = concat bss @ cur
       \<and> list_all2 (\<lambda>r ss. \<exists>b. r = Some b \<and> stores (md_labels (metadata ser)) (obj b) ss)
           (blocks ser) bss
       \<and> (case current_block ser of
            None \<Rightarrow> cur = []
          | Some r \<Rightarrow> buffers (md_labels (metadata ser)) (obj r) cur))"

section \<open>The head block\<close>

lemma zip_samples:
  "map (\<lambda>(t, v, f). \<lparr>timestamp = t, sval = v, sfields = f\<rparr>)
     (zip (map timestamp ss) (zip (map sval ss) (map sfields ss))) = ss"
  by (induction ss) auto

lemma buffers_stores:
  assumes "buffers l b ss"
  shows "stores l b ss"
proof -
  obtain d where "map_of (series b) l = Some d" "data_samples (block_codecs b) d = Some ss"
    using assms by (auto simp: buffers_def data_samples_def zip_samples)
  moreover have "num_samples b = Some (length ss)"
    using assms by (auto simp: buffers_def num_samples_def data_count_def)
  ultimately show ?thesis using assms unfolding stores_def buffers_def by blast
qed

lemma buffers_append:
  assumes "buffers l b ss" "timestamp s \<noteq> 0"
  shows "buffers l (block_append l s b) (ss @ [s])"
proof -
  let ?h = "header b"
  have ok: "sint (start_time ?h) \<le> sint (end_time ?h)" "start_time ?h \<noteq> 0"
    using assms(1) by (auto simp: buffers_def)
  note range = update_time_range_covers [OF ok]
  have "series (block_append l s b) = [(l, (series_at l b)
        \<lparr>timestamps_uncompressed := timestamps_uncompressed (series_at l b) @ [timestamp s],
         values_uncompressed := values_uncompressed (series_at l b) @ [sval s],
         fields_uncompressed := fields_uncompressed (series_at l b) @ [sfields s],
         is_compressed := False\<rparr>)]"
    using assms(1) by (auto simp: buffers_def block_append_def Let_def)
  moreover have "\<forall>x \<in> set (ss @ [s]). covers (update_time_range (timestamp s) ?h) (timestamp x)"
    using assms(1) range(1,2) by (auto simp: buffers_def)
  moreover have "start_time (update_time_range (timestamp s) ?h) \<noteq> 0"
    using range(4) [of "timestamp s"] ok(2) assms(2) by auto
  ultimately show ?thesis
    using assms(1) range(3) by (auto simp: buffers_def series_at_def)
qed

lemma buffers_new:
  assumes "timestamp s \<noteq> 0"
  shows "buffers l (block_append l s (obj (fst (new_head s e)))) [s]"
  using assms
  by (auto simp: buffers_def new_head_def Let_def block_append_def series_at_def
      empty_series_data_def update_time_range_def covers_def)

lemma buffers_seal:
  assumes "buffers l b ss" "length ss < 2 ^ 32"
  shows "stores l (block_seal b) ss"
proof -
  obtain d where d: "series b = [(l, d)]" "\<not> is_compressed d" "block_codecs b = simple_codecs"
      "timestamps_uncompressed d = map timestamp ss" "values_uncompressed d = map sval ss" "ss \<noteq> []"
    using assms(1) by (auto simp: buffers_def)
  let ?d = "seal_data simple_codecs d"
  have "data_columns simple_codecs ?d = Some (map timestamp ss, map sval ss)"
    using simple.data_columns_seal [of d] d assms(2) by (simp add: data_columns_def)
  moreover from this have "num_samples (block_seal b) = Some (length ss)"
    using d by (auto simp: num_samples_def data_count_def block_seal_def data_columns_def split: if_splits)
  moreover have "is_compressed ?d" using d by (simp add: seal_data_def)
  moreover have "map point (map (\<lambda>(t, v). mk_sample t v) (zip (map timestamp ss) (map sval ss)))
      = map point ss"
    by (induction ss) (auto simp: point_def mk_sample_def)
  ultimately show ?thesis
    using assms(1) d by (auto simp: stores_def block_seal_def data_samples_def buffers_def)
qed

section \<open>The invariant\<close>

lemma series_inv_append:
  assumes "series_inv ser hist" "timestamp s \<noteq> 0" "series_append e s ser = (full, ser', e')"
  shows "series_inv ser' (hist @ [s])"
proof -
  let ?l = "md_labels (metadata ser)"
  obtain bss cur where inv: "hist = concat bss @ cur"
      "list_all2 (\<lambda>r ss. \<exists>b. r = Some b \<and> stores ?l (obj b) ss) (blocks ser) bss"
      "case current_block ser of None \<Rightarrow> cur = [] | Some r \<Rightarrow> buffers ?l (obj r) cur"
    using assms(1) by (auto simp: series_inv_def)
  obtain r where ser': "ser' = ser\<lparr>current_block := Some r\<rparr>" and "buffers ?l (obj r) (cur @ [s])"
    using assms(2,3) inv(3) buffers_append buffers_new [of s ?l e]
    by (cases "current_block ser") (auto simp: series_append_def Let_def split: prod.splits)
  with inv show ?thesis
    unfolding series_inv_def by (intro exI [of _ bss] exI [of _ "cur @ [s]"]) simp
qed

lemma series_inv_seal:
  assumes "series_inv ser hist" "length hist < 2 ^ 32" "seal_block ser = (r, ser')"
  shows "series_inv ser' hist"
proof (cases "current_block ser")
  case None
  then show ?thesis using assms by (simp add: seal_block_def)
next
  case (Some c)
  let ?l = "md_labels (metadata ser)"
  obtain bss cur where inv: "hist = concat bss @ cur"
      "list_all2 (\<lambda>r ss. \<exists>b. r = Some b \<and> stores ?l (obj b) ss) (blocks ser) bss"
      "buffers ?l (obj c) cur"
    using assms(1) Some by (auto simp: series_inv_def)
  have "stores ?l (block_seal (obj c)) cur"
    using inv assms(2) by (intro buffers_seal) auto
  with inv Some assms(3) show ?thesis
    unfolding series_inv_def
    by (intro exI [of _ "bss @ [cur]"] exI [of _ "[]"])
      (auto simp: seal_block_def Let_def intro!: list_all2_appendI)
qed

lemma reach_series_inv:
  assumes "reach ser hist" "\<forall>s \<in> set hist. timestamp s \<noteq> 0" "length hist < 2 ^ 32"
  shows "series_inv ser hist"
  using assms
proof (induction rule: reach.induct)
  case (reach_new md)
  show ?case
    unfolding series_inv_def by (rule exI [of _ "[]"]) (simp add: mk_series_def)
next
  case (reach_append ser hist e s full ser' e')
  then have "series_inv ser hist" "timestamp s \<noteq> 0" by simp_all
  then show ?case using reach_append.hyps(2) by (rule series_inv_append)
next
  case (reach_seal ser hist r ser')
  then have "series_inv ser hist" by simp
  then show ?case using reach_seal.prems(2) reach_seal.hyps(2) by (rule series_inv_seal)
qed

section \<open>The range read\<close>

text \<open>A list of samples that represents \<open>ss\<close> restricted to a range: nothing invented, and every
  timestamp of \<open>ss\<close> in the range present.\<close>

definition represents :: "sample list \<Rightarrow> (sample \<Rightarrow> bool) \<Rightarrow> sample list \<Rightarrow> bool" where
  "represents xs P ss \<longleftrightarrow> point ` set xs \<subseteq> point ` {s \<in> set ss. P s}
     \<and> timestamp ` set xs = timestamp ` {s \<in> set ss. P s}"

lemma represents_append:
  "represents xs P ss \<Longrightarrow> represents ys P ts \<Longrightarrow> represents (xs @ ys) P (ss @ ts)"
proof -
  have "{s \<in> set (ss @ ts). P s} = {s \<in> set ss. P s} \<union> {s \<in> set ts. P s}" by auto
  then show "represents xs P ss \<Longrightarrow> represents ys P ts \<Longrightarrow> represents (xs @ ys) P (ss @ ts)"
    unfolding represents_def by (simp only: image_Un set_append) blast
qed

lemma represents_outside:
  "\<lbrakk>represents xs P ts; \<forall>s \<in> set ss. \<not> P s\<rbrakk> \<Longrightarrow> represents xs P (ss @ ts)"
  by (auto simp: represents_def)

lemma represents_filter:
  assumes "point ` set xs \<subseteq> point ` set ss" "timestamp ` set xs = timestamp ` set ss"
  shows "represents (filter (in_range t0 t1) xs) (in_range t0 t1) ss"
  unfolding represents_def
proof (intro conjI subsetI equalityI)
  fix p assume "p \<in> point ` set (filter (in_range t0 t1) xs)"
  then obtain x where x: "x \<in> set xs" "in_range t0 t1 x" "p = point x" by auto
  then obtain s where "s \<in> set ss" "point x = point s" using assms(1) by blast
  with x show "p \<in> point ` {s \<in> set ss. in_range t0 t1 s}"
    by (auto simp: point_def in_range_def intro!: image_eqI [of _ _ s])
next
  fix t assume "t \<in> timestamp ` set (filter (in_range t0 t1) xs)"
  then obtain x where x: "x \<in> set xs" "in_range t0 t1 x" "t = timestamp x" by auto
  then obtain s where "s \<in> set ss" "timestamp x = timestamp s" using assms(2) by blast
  with x show "t \<in> timestamp ` {s \<in> set ss. in_range t0 t1 s}"
    by (auto simp: in_range_def)
next
  fix t assume "t \<in> timestamp ` {s \<in> set ss. in_range t0 t1 s}"
  then obtain s where s: "s \<in> set ss" "in_range t0 t1 s" "t = timestamp s" by auto
  then obtain x where "x \<in> set xs" "timestamp s = timestamp x" using assms(2) by blast
  with s show "t \<in> timestamp ` set (filter (in_range t0 t1) xs)"
    by (auto simp: in_range_def)
qed

context std_sort
begin

lemma block_read_stores:
  assumes "stores l b ss"
  obtains ts where "block_read srt l b = Some ts" "point ` set (ts_samples ts) \<subseteq> point ` set ss"
    "timestamp ` set (ts_samples ts) = timestamp ` set ss"
proof -
  obtain d xs where d: "map_of (series b) l = Some d" "data_samples (block_codecs b) d = Some xs"
      "map point xs = map point ss"
    using assms by (auto simp: stores_def)
  let ?ts = "read_collect (srt xs) (-1) True (mk_time_series l)"
  have pts: "point ` set xs = point ` set ss" using d(3) by (metis list.set_map)
  have "timestamp ` A = fst ` point ` A" for A by (simp add: image_image point_def)
  with pts have "timestamp ` set xs = timestamp ` set ss" by simp
  moreover have "set (ts_samples ?ts) \<subseteq> set xs" "timestamp ` set (ts_samples ?ts) = timestamp ` set xs"
    using read_collect_spec [OF sorted_srt, of "mk_time_series l" True "- 1" xs]
    by (simp_all add: mk_time_series_def)
  moreover from this(1) have "point ` set (ts_samples ?ts) \<subseteq> point ` set ss"
    using pts by (metis image_mono)
  moreover have "block_read srt l b = Some ?ts" using d by (simp add: block_read_def)
  ultimately show ?thesis using that [of ?ts] by simp
qed

lemma read_blocks_represents:
  assumes "list_all2 (\<lambda>r ss. \<exists>b. r = Some b \<and> stores l (obj b) ss) rs bss"
  shows "\<exists>xs. read_blocks srt l t0 t1 rs = Some xs \<and> represents xs (in_range t0 t1) (concat bss)"
  using assms
proof (induction rs bss rule: list_all2_induct)
  case Nil
  then show ?case by (simp add: represents_def)
next
  case (Cons r rs ss bss)
  then obtain b xs where b: "r = Some b" "stores l (obj b) ss"
    and xs: "read_blocks srt l t0 t1 rs = Some xs" "represents xs (in_range t0 t1) (concat bss)"
    by auto
  show ?case
  proof (cases "sint (end_time (header (obj b))) < sint t0 \<or> sint t1 < sint (start_time (header (obj b)))")
    case True
    then have "\<forall>s \<in> set ss. \<not> in_range t0 t1 s"
      using b(2) by (fastforce simp: stores_def covers_def in_range_def)
    with True b(1) xs show ?thesis by (simp add: represents_outside)
  next
    case False
    obtain ts where ts: "block_read srt l (obj b) = Some ts"
        "point ` set (ts_samples ts) \<subseteq> point ` set ss"
        "timestamp ` set (ts_samples ts) = timestamp ` set ss"
      using b(2) by (rule block_read_stores)
    have "represents (filter (in_range t0 t1) (ts_samples ts) @ xs) (in_range t0 t1) (ss @ concat bss)"
      by (intro represents_append represents_filter ts xs)
    with False b(1) xs(1) ts(1) show ?thesis by simp
  qed
qed

lemma read_head_represents:
  assumes "case cur of None \<Rightarrow> ss = [] | Some r \<Rightarrow> buffers l (obj r) ss"
  shows "\<exists>xs. read_head srt l t0 t1 cur = Some xs \<and> represents xs (in_range t0 t1) ss"
proof (cases cur)
  case None
  then show ?thesis using assms by (simp add: read_head_def represents_def)
next
  case (Some r)
  then have "stores l (obj r) ss" using assms by (simp add: buffers_stores)
  then show ?thesis
    by (rule block_read_stores) (auto simp: Some read_head_def intro!: represents_filter)
qed

end

lemma unique_ts_spec:
  assumes "sorted (map (\<lambda>s. sint (timestamp s)) ss)"
  shows "chronological (unique_ts ss) \<and> set (unique_ts ss) \<subseteq> set ss
    \<and> timestamp ` set (unique_ts ss) = timestamp ` set ss"
  using assms
proof (induction ss rule: unique_ts.induct)
  case (3 a b ss)
  show ?case
  proof (cases "timestamp a = timestamp b")
    case True
    with 3 show ?thesis by auto
  next
    case False
    then have IH: "chronological (unique_ts (b # ss))" "set (unique_ts (b # ss)) \<subseteq> set (b # ss)"
      "timestamp ` set (unique_ts (b # ss)) = timestamp ` set (b # ss)"
      using 3 by auto
    have "sint (timestamp a) < sint (timestamp b)"
      using 3(3) False by (auto simp: order_less_le sint_inject)
    then have "\<forall>x \<in> set (b # ss). sint (timestamp a) < sint (timestamp x)"
      using 3(3) by auto
    with IH False show ?thesis by (auto simp: chronological_Cons)
  qed
qed simp_all

lemma series_read_represents:
  assumes "std_sort srt" "series_inv ser hist"
  shows "\<exists>xs. series_read srt t0 t1 ser = Some (unique_ts (srt xs))
    \<and> represents xs (in_range t0 t1) hist"
proof -
  let ?l = "md_labels (metadata ser)"
  obtain bss cur where inv: "hist = concat bss @ cur"
      "list_all2 (\<lambda>r ss. \<exists>b. r = Some b \<and> stores ?l (obj b) ss) (blocks ser) bss"
      "case current_block ser of None \<Rightarrow> cur = [] | Some r \<Rightarrow> buffers ?l (obj r) cur"
    using assms(2) by (auto simp: series_inv_def)
  obtain xs where "read_blocks srt ?l t0 t1 (blocks ser) = Some xs"
      "represents xs (in_range t0 t1) (concat bss)"
    using std_sort.read_blocks_represents [OF assms(1) inv(2)] by blast
  moreover obtain ys where "read_head srt ?l t0 t1 (current_block ser) = Some ys"
      "represents ys (in_range t0 t1) cur"
    using std_sort.read_head_represents [OF assms(1) inv(3)] by blast
  ultimately show ?thesis
    using inv(1) by (intro exI [of _ "xs @ ys"]) (simp add: series_read_def represents_append)
qed

lemma series_inv_count:
  assumes "series_inv ser hist"
  shows "NumSamples ser = Some (length hist)"
proof -
  let ?l = "md_labels (metadata ser)"
  have count: "count_blocks rs = Some (length (concat bss))"
    if "list_all2 (\<lambda>r ss. \<exists>b. r = Some b \<and> stores ?l (obj b) ss) rs bss" for rs bss
    using that by (induction rs bss rule: list_all2_induct) (auto simp: stores_def)
  show ?thesis
    using assms count buffers_stores
    by (fastforce simp: series_inv_def NumSamples_def stores_def split: option.splits)
qed

lemma represents_subset:
  assumes "set ys \<subseteq> set xs" "timestamp ` set ys = timestamp ` set xs" "represents xs P ss"
  shows "represents ys P ss"
  unfolding represents_def
proof
  show "point ` set ys \<subseteq> point ` {s \<in> set ss. P s}"
    using assms(3) unfolding represents_def
    by (elim conjE) (rule subset_trans [OF image_mono [OF assms(1)]])
  show "timestamp ` set ys = timestamp ` {s \<in> set ss. P s}"
    using assms(3) unfolding assms(2) represents_def by (rule conjunct2)
qed

lemma represents_distinct:
  assumes "represents xs P ss" "distinct (map timestamp ss)"
  shows "point ` set xs = point ` {s \<in> set ss. P s}"
proof (intro equalityI subsetI)
  fix p assume "p \<in> point ` {s \<in> set ss. P s}"
  then obtain s where s: "s \<in> set ss" "P s" "p = point s" by auto
  then obtain x where x: "x \<in> set xs" "timestamp x = timestamp s"
    using assms(1) unfolding represents_def by (metis (mono_tags, lifting) imageE image_eqI mem_Collect_eq)
  then obtain u where u: "u \<in> set ss" "point x = point u"
    using assms(1) unfolding represents_def by blast
  then have "u = s"
    using s(1) x(2) assms(2) by (auto simp: distinct_map point_def dest: inj_onD)
  with s x u show "p \<in> point ` set xs" by (metis image_eqI)
qed (use assms(1) in \<open>auto simp: represents_def\<close>)

section \<open>Properties\<close>

text \<open>
  C8: A range read of a series after any sequence of appends and seals of the head block, for samples not at time 0, fewer than
  \<open>2^32\<close> of them, and for every conforming \<open>std::sort\<close>. The result is strictly chronological, every returned timestamp
  and value was appended, and every appended timestamp of the range is returned, once. When no
  timestamp was used twice the returned points are all the appended points of the range; otherwise one
  of the points appended at a repeated timestamp is returned.
\<close>

theorem series_read_spec:
  assumes "reach ser hist" "\<forall>s \<in> set hist. timestamp s \<noteq> 0" "length hist < 2 ^ 32" "std_sort srt"
  shows "\<exists>res. series_read srt t0 t1 ser = Some res \<and> chronological res
    \<and> point ` set res \<subseteq> point ` {s \<in> set hist. in_range t0 t1 s}
    \<and> timestamp ` set res = timestamp ` {s \<in> set hist. in_range t0 t1 s}
    \<and> (distinct (map timestamp hist) \<longrightarrow>
         point ` set res = point ` {s \<in> set hist. in_range t0 t1 s})"
proof -
  obtain xs where xs: "series_read srt t0 t1 ser = Some (unique_ts (srt xs))"
      "represents xs (in_range t0 t1) hist"
    using series_read_represents [OF assms(4) reach_series_inv [OF assms(1-3)]] by blast
  let ?res = "unique_ts (srt xs)"
  have res: "chronological ?res" "set ?res \<subseteq> set xs" "timestamp ` set ?res = timestamp ` set xs"
    using unique_ts_spec [OF std_sort.sorted_srt [OF assms(4)], of xs]
      std_sort.set_srt [OF assms(4), of xs] by auto
  have rep: "represents ?res (in_range t0 t1) hist"
    using res(2,3) xs(2) by (rule represents_subset)
  then have "point ` set ?res \<subseteq> point ` {s \<in> set hist. in_range t0 t1 s}"
      "timestamp ` set ?res = timestamp ` {s \<in> set hist. in_range t0 t1 s}"
    unfolding represents_def by blast+
  then show ?thesis
    by (intro exI [of _ ?res] conjI impI xs(1) res(1) represents_distinct [OF rep])
qed

definition example_metadata :: series_metadata where
  "example_metadata = \<lparr>md_id = 7, md_labels = [(''job'', ''a'')], md_type = GAUGE,
     md_granularity = \<lparr>interval = 1000, retention = 60000\<rparr>\<rparr>"

definition example_alloc :: block_alloc where
  "example_alloc = \<lparr>global_block_id_counter = 1, next_addr = 0, stack_header = sample_header\<rparr>"

definition push :: "sample \<Rightarrow> stored_series \<Rightarrow> stored_series" where
  "push s ser = fst (snd (series_append example_alloc s ser))"

lemma reach_push: "reach ser hist \<Longrightarrow> reach (push s ser) (hist @ [s])"
  by (rule reach_append [where full = "fst (series_append example_alloc s ser)"
        and e' = "snd (snd (series_append example_alloc s ser))"]) (simp_all add: push_def)

lemma reach_sealed: "reach ser hist \<Longrightarrow> reach (snd (seal_block ser)) hist"
  by (rule reach_seal [where r = "fst (seal_block ser)"]) simp_all

theorem series_read_spec_witness:
  "\<exists>res. series_read (sort_key (\<lambda>s. sint (timestamp s))) 6 20
       (push (mk_sample 5 2) (snd (seal_block (push (mk_sample 9 1) (mk_series example_metadata)))))
       = Some res \<and> chronological res \<and> point ` set res = {(9, 1)}"
proof -
  let ?ser = "push (mk_sample 5 2) (snd (seal_block (push (mk_sample 9 1) (mk_series example_metadata))))"
  have "reach ?ser ([] @ [mk_sample 9 1] @ [mk_sample 5 2])"
    using reach_push [OF reach_sealed [OF reach_push [OF reach_new]]] by simp
  from series_read_spec [OF this _ _ stable_sort.std_sort_axioms, of 6 20] obtain res where
    "series_read (sort_key (\<lambda>s. sint (timestamp s))) 6 20 ?ser = Some res" "chronological res"
    "point ` set res = point ` {s \<in> set ([] @ [mk_sample 9 1] @ [mk_sample 5 2]). in_range 6 20 s}"
    by (auto simp: mk_sample_def)
  moreover have "{s \<in> set ([] @ [mk_sample 9 1] @ [mk_sample 5 2]). in_range 6 20 s} = {mk_sample 9 1}"
    by (auto simp: in_range_def mk_sample_def)
  ultimately show ?thesis by (simp add: point_def mk_sample_def)
qed

text \<open>
  \<open>NumSamples\<close> counts every sample ever appended, sealed or not.
\<close>

theorem num_samples_counts_history:
  assumes "reach ser hist" "\<forall>s \<in> set hist. timestamp s \<noteq> 0" "length hist < 2 ^ 32"
  shows "NumSamples ser = Some (length hist)"
  using series_inv_count [OF reach_series_inv [OF assms]] .

theorem num_samples_counts_history_witness:
  "NumSamples (push (mk_sample 5 2) (snd (seal_block (push (mk_sample 9 1) (mk_series example_metadata)))))
     = Some 2"
proof -
  have "reach (push (mk_sample 5 2) (snd (seal_block (push (mk_sample 9 1) (mk_series example_metadata)))))
      ([] @ [mk_sample 9 1] @ [mk_sample 5 2])"
    using reach_push [OF reach_sealed [OF reach_push [OF reach_new]]] by simp
  from num_samples_counts_history [OF this] show ?thesis by (simp add: mk_sample_def)
qed

text \<open>
  The zero sentinel of \<open>update_time_range\<close> loses data: a series that got a sample at time 0
  and then one at a later time, and was sealed, does not return the first sample even when the
  range asked for is exactly time 0.
\<close>

theorem epoch_sample_lost_on_read:
  assumes "0 < sint t" "std_sort srt"
  shows "series_read srt 0 0 (snd (seal_block
      (fst (snd (series_append e (mk_sample t v)
        (fst (snd (series_append e (mk_sample 0 u) (mk_series md)))))))))
    = Some []"
proof -
  have "srt [] = []" using std_sort.perm [OF assms(2), of "[]"] by simp
  then show ?thesis
    using assms(1)
    by (simp add: series_read_def series_append_def seal_block_def mk_series_def new_head_def Let_def
        read_head_def mk_sample_def update_time_range_def)
qed

theorem epoch_sample_lost_on_read_witness:
  "series_read (sort_key (\<lambda>s. sint (timestamp s))) 0 0 (snd (seal_block
      (push (mk_sample 5 2) (push (mk_sample 0 1) (mk_series example_metadata))))) = Some []"
  unfolding push_def by (rule epoch_sample_lost_on_read) (simp_all add: stable_sort.std_sort_axioms)

text \<open>
  \<open>ReplaceBlock\<close> exchanges exactly the first entry with the old block's address and reports
  whether there was one; the number of blocks, the order of the others and the head block stay.
\<close>

theorem replace_block_spec:
  "case ReplaceBlock old new ser of
     (True, ser') \<Rightarrow> (\<exists>rs r rs'. blocks ser = rs @ r # rs' \<and> map_option addr r = old
        \<and> old \<notin> map_option addr ` set rs \<and> ser' = ser\<lparr>blocks := rs @ new # rs'\<rparr>)
   | (False, ser') \<Rightarrow> ser' = ser \<and> old \<notin> map_option addr ` set (blocks ser)"
proof -
  have "case replace_first old new rs of
      None \<Rightarrow> old \<notin> map_option addr ` set rs
    | Some rs' \<Rightarrow> (\<exists>xs r ys. rs = xs @ r # ys \<and> map_option addr r = old
        \<and> old \<notin> map_option addr ` set xs \<and> rs' = xs @ new # ys)" for rs
  proof (induction rs)
    case (Cons r rs)
    show ?case
    proof (cases "map_option addr r = old")
      case True
      then show ?thesis by (auto intro!: exI [of _ "[]"])
    next
      case False
      show ?thesis
      proof (cases "replace_first old new rs")
        case None
        with False Cons show ?thesis by auto
      next
        case (Some rs')
        with Cons obtain xs r' ys where "rs = xs @ r' # ys" "map_option addr r' = old"
          "old \<notin> map_option addr ` set xs" "rs' = xs @ new # ys" by auto
        moreover from this False Some have "r # rs = (r # xs) @ r' # ys"
          "old \<notin> map_option addr ` set (r # xs)"
          "replace_first old new (r # rs) = Some ((r # xs) @ new # ys)" by auto
        ultimately show ?thesis unfolding option.case by (simp only: option.case) blast
      qed
    qed
  qed simp
  from this [of "blocks ser"] show ?thesis
    by (auto simp: ReplaceBlock_def split: option.splits)
qed

end
