(* ===== verification/Write_Ahead_Log.thy ===== *)
theory Write_Ahead_Log
  imports Core_Types
begin

text \<open>
  The write-ahead log (\<open>src/tsdb/storage/wal.cpp\<close>): the byte format of one logged series, the
  length-framed segment files, rotation at 64 MB, replay and checkpoint. The regular files of
  the log directory are a sorted map from file name to contents, so listing the directory and
  sorting the paths is reading the map in order. The output stream is its file offset and the
  bytes not yet handed to the file. Whether the operating system opens a file for appending is
  a parameter; a write to an open stream is taken to succeed.
\<close>

section \<open>One entry\<close>

definition bytes32 :: "nat \<Rightarrow> byte list" where
  "bytes32 n = le_bytes 4 (of_nat n :: uint32)"

definition string_entry :: "string \<Rightarrow> byte list" where
  "string_entry s = bytes32 (length s) @ string_bytes s"

definition label_entry :: "string \<times> string \<Rightarrow> byte list" where
  "label_entry e = string_entry (fst e) @ string_entry (snd e)"

definition sample_entry :: "sample \<Rightarrow> byte list" where
  "sample_entry s = le_bytes 8 (timestamp s) @ le_bytes 8 (sval s)"

definition serialize_series :: "time_series \<Rightarrow> byte list" where
  "serialize_series ts =
     bytes32 (length (ts_labels ts)) @ concat (map label_entry (ts_labels ts))
     @ bytes32 (length (ts_samples ts)) @ concat (map sample_entry (ts_samples ts))"

text \<open>The reader works on the bytes not yet consumed; a failed bounds check and a caught
  exception are both \<open>None\<close>.\<close>

definition read32 :: "byte list \<Rightarrow> (nat \<times> byte list) option" where
  "read32 data =
     (if length data < 4 then None
      else Some (unat (le_word (take 4 data) :: uint32), drop 4 data))"

definition read_string :: "byte list \<Rightarrow> (string \<times> byte list) option" where
  "read_string data =
     (case read32 data of
        None \<Rightarrow> None
      | Some (n, rest) \<Rightarrow>
          if length rest < n then None else Some (bytes_string (take n rest), drop n rest))"

fun read_labels :: "nat \<Rightarrow> labels \<Rightarrow> byte list \<Rightarrow> (labels \<times> byte list) option" where
  "read_labels 0 l data = Some (l, data)"
| "read_labels (Suc n) l data =
     (case read_string data of
        None \<Rightarrow> None
      | Some (key, data1) \<Rightarrow>
          (case read_string data1 of
             None \<Rightarrow> None
           | Some (val, data2) \<Rightarrow>
               (case labels_add key val l of
                  Inl e \<Rightarrow> None
                | Inr l' \<Rightarrow> read_labels n l' data2)))"

fun read_samples :: "nat \<Rightarrow> time_series \<Rightarrow> byte list \<Rightarrow> time_series option" where
  "read_samples 0 ts data = Some ts"
| "read_samples (Suc n) ts data =
     (if length data < 16 then None
      else
        (case add_sample (mk_sample (le_word (take 8 data)) (le_word (take 8 (drop 8 data)))) ts of
           Inl e \<Rightarrow> None
         | Inr ts' \<Rightarrow> read_samples n ts' (drop 16 data)))"

definition deserialize_series :: "byte list \<Rightarrow> time_series option" where
  "deserialize_series data =
     (case read32 data of
        None \<Rightarrow> None
      | Some (label_count, data1) \<Rightarrow>
          if 1000 < label_count then None
          else
            (case read_labels label_count [] data1 of
               None \<Rightarrow> None
             | Some (l, data2) \<Rightarrow>
                 (case read32 data2 of
                    None \<Rightarrow> None
                  | Some (sample_count, data3) \<Rightarrow>
                      if 10000000 < sample_count then None
                      else read_samples sample_count (mk_time_series l) data3)))"

section \<open>Segment files\<close>

definition segment_name :: "nat \<Rightarrow> string" where
  "segment_name n = ''wal_'' @ replicate (6 - length (decimal n)) (CHR ''0'') @ decimal n @ ''.log''"

definition get_segment_path :: "string \<Rightarrow> nat \<Rightarrow> string" where
  "get_segment_path dir n = dir @ ''/'' @ segment_name n"

record wal =
  wal_dir :: string
  current_segment :: nat
  is_open :: bool
  file_pos :: nat
  unflushed :: "byte list"
  files :: "(string \<times> byte list) list"

definition file_contents :: "wal \<Rightarrow> string \<Rightarrow> byte list" where
  "file_contents w name = (case map_of (files w) name of None \<Rightarrow> [] | Some bs \<Rightarrow> bs)"

text \<open>\<open>std::ofstream::open\<close> in append mode: creates the file when it is missing; the descriptor's
  offset is 0 until the first write.\<close>

definition open_segment :: "(string \<Rightarrow> bool) \<Rightarrow> wal \<Rightarrow> wal" where
  "open_segment opens w =
     (let name = segment_name (current_segment w) in
      if opens (get_segment_path (wal_dir w) (current_segment w)) then
        w\<lparr>is_open := True, file_pos := 0, unflushed := [],
          files := smap_insert name (file_contents w name) (files w)\<rparr>
      else w\<lparr>is_open := False\<rparr>)"

definition stream_flush :: "wal \<Rightarrow> wal" where
  "stream_flush w =
     (if unflushed w = [] then w
      else
        let name = segment_name (current_segment w); bs = file_contents w name @ unflushed w
        in w\<lparr>files := smap_insert name bs (files w), file_pos := length bs, unflushed := []\<rparr>)"

definition tellp :: "wal \<Rightarrow> nat" where
  "tellp w = file_pos w + length (unflushed w)"

text \<open>The constructor on a directory that exists or has just been created.\<close>

definition mk_wal :: "(string \<Rightarrow> bool) \<Rightarrow> string \<Rightarrow> (string \<times> byte list) list \<Rightarrow> wal result" where
  "mk_wal opens dir fs =
     (let w = open_segment opens \<lparr>wal_dir = dir, current_segment = 0, is_open = False,
            file_pos = 0, unflushed = [], files = fs\<rparr>
      in if is_open w then Inr w
         else Inl (''Failed to open WAL segment file: '' @ get_segment_path dir 0))"

definition frame :: "byte list \<Rightarrow> byte list" where
  "frame data = bytes32 (length data) @ data"

definition write_to_segment :: "byte list \<Rightarrow> bool \<Rightarrow> wal \<Rightarrow> bool \<times> wal" where
  "write_to_segment data flush_now w =
     (if \<not> is_open w then (False, w)
      else
        let w1 = w\<lparr>unflushed := unflushed w @ frame data\<rparr>
        in (True, if flush_now then stream_flush w1 else w1))"

text \<open>\<open>rotate_segment\<close> throws when the next file does not open.\<close>

definition rotate_segment :: "(string \<Rightarrow> bool) \<Rightarrow> wal \<Rightarrow> bool \<times> wal" where
  "rotate_segment opens w =
     (let w1 = (if is_open w then (stream_flush w)\<lparr>is_open := False\<rparr> else w);
          w2 = open_segment opens (w1\<lparr>current_segment := current_segment w1 + 1\<rparr>)
      in (is_open w2, w2))"

definition wal_log ::
  "(string \<Rightarrow> bool) \<Rightarrow> time_series \<Rightarrow> bool \<Rightarrow> wal \<Rightarrow> unit result \<times> wal" where
  "wal_log opens ts flush_now w =
     (case write_to_segment (serialize_series ts) flush_now w of
        (False, w1) \<Rightarrow> (Inl ''Failed to write to WAL segment'', w1)
      | (True, w1) \<Rightarrow>
          if 64 * 1024 * 1024 < tellp w1 then
            (case rotate_segment opens w1 of
               (True, w2) \<Rightarrow> (Inr (), w2)
             | (False, w2) \<Rightarrow> (Inl ''WAL log failed: Failed to open new WAL segment file'', w2))
          else (Inr (), w1))"

definition wal_flush :: "wal \<Rightarrow> wal" where
  "wal_flush w = (if is_open w then stream_flush w else w)"

section \<open>Replay and checkpoint\<close>

text \<open>
  The reading loop of \<open>replay_segment\<close>, with its position, progress and entry counters; it
  collects the series handed to the callback.
\<close>

function replay_loop :: "byte list \<Rightarrow> nat \<Rightarrow> int \<Rightarrow> nat \<Rightarrow> nat \<Rightarrow> time_series list" where
  "replay_loop file current_pos last_pos no_progress entry_count =
     (if 1000000 \<le> entry_count then []
      else if length file \<le> current_pos then []
      else
        let stuck = int current_pos = last_pos;
            no_progress' = (if stuck then no_progress + 1 else 0);
            last_pos' = (if stuck then last_pos else int current_pos) in
        if stuck \<and> 10 \<le> no_progress' then []
        else if length file < current_pos + 4 then []
        else
          let data_length = unat (le_word (take 4 (drop current_pos file)) :: uint32) in
          if data_length = 0 \<or> 1024 * 1024 * 1024 < data_length then []
          else
            let expected_end = current_pos + 4 + data_length in
            if length file < expected_end then []
            else
              (case deserialize_series (take data_length (drop (current_pos + 4) file)) of
                 Some ts \<Rightarrow> [ts]
               | None \<Rightarrow> [])
              @ (if length file \<le> expected_end then []
                 else replay_loop file expected_end last_pos' no_progress' (entry_count + 1)))"
  by pat_completeness auto
termination
  by (relation "measure (\<lambda>(file, pos, last, stuck, n). 1000000 - n)") auto

declare replay_loop.simps [simp del]

definition replay_segment :: "byte list \<Rightarrow> time_series list" where
  "replay_segment file = (if length file = 0 then [] else replay_loop file 0 (-1) 0 0)"

definition is_segment_file :: "string \<Rightarrow> bool" where
  "is_segment_file name \<longleftrightarrow> 4 \<le> length name \<and> take 4 name = ''wal_''"

text \<open>\<open>replay_internal\<close> flushes the open stream first.\<close>

definition wal_replay :: "wal \<Rightarrow> time_series list \<times> wal" where
  "wal_replay w =
     (let w1 = wal_flush w
      in (concat (map (\<lambda>(name, file). replay_segment file)
            (filter (\<lambda>(name, file). is_segment_file name) (files w1))), w1))"

text \<open>\<open>checkpoint\<close>; asking to keep a negative number of segments indexes behind the list of
  files, which is no result.\<close>

definition wal_checkpoint :: "int \<Rightarrow> wal \<Rightarrow> wal option" where
  "wal_checkpoint last_segment_to_keep w =
     (let segment_files = filter is_segment_file (map fst (files w));
          segments_to_delete = int (length segment_files) - last_segment_to_keep
      in if segments_to_delete \<le> 0 then Some w
         else if int (length segment_files) < segments_to_delete then None
         else Some (w\<lparr>files := foldl (\<lambda>fs name. smap_erase name fs) (files w)
                (take (nat segments_to_delete) segment_files)\<rparr>))"

section \<open>Round trip of one entry\<close>

text \<open>What survives a log entry: everything but the fields of the samples.\<close>

definition logged :: "time_series \<Rightarrow> time_series" where
  "logged ts = ts\<lparr>ts_samples := map (\<lambda>s. mk_sample (timestamp s) (sval s)) (ts_samples ts)\<rparr>"

text \<open>The limits of the reader, which the writer does not enforce.\<close>

definition loggable :: "time_series \<Rightarrow> bool" where
  "loggable ts \<longleftrightarrow> series_ok ts \<and> length (ts_labels ts) \<le> 1000 \<and> [] \<notin> fst ` set (ts_labels ts)
     \<and> length (ts_samples ts) \<le> 10000000 \<and> length (serialize_series ts) \<le> 1024 * 1024 * 1024"

lemma length_bytes32 [simp]: "length (bytes32 n) = 4"
  by (simp add: bytes32_def)

lemma read32_append: "n < 2 ^ 32 \<Longrightarrow> read32 (bytes32 n @ rest) = Some (n, rest)"
  by (simp add: read32_def bytes32_def)

lemma read_string_append: "length s < 2 ^ 32 \<Longrightarrow> read_string (string_entry s @ rest) = Some (s, rest)"
  by (simp add: read_string_def string_entry_def read32_append)

lemma read_labels_append:
  assumes "smap_ok (l @ m)" "[] \<notin> fst ` set m"
    and "\<forall>e \<in> set m. length (fst e) < 2 ^ 32 \<and> length (snd e) < 2 ^ 32"
  shows "read_labels (length m) l (concat (map label_entry m) @ rest) = Some (l @ m, rest)"
  using assms
proof (induction m arbitrary: l)
  case (Cons e m)
  obtain k v where e: "e = (k, v)" by force
  have "smap_insert k v l = l @ [e]"
    unfolding e using Cons.prems(1) by (intro smap_insert_last) (auto simp: e smap_ok_append)
  then have "labels_add k v l = Inr (l @ [e])"
    using Cons.prems(2) by (auto simp: labels_add_def e)
  moreover have "label_entry e @ rest' = string_entry k @ string_entry v @ rest'" for rest'
    by (simp add: label_entry_def e)
  ultimately show ?case
    using Cons.IH [of "l @ [e]"] Cons.prems by (simp add: read_string_append e)
qed simp

lemma read_samples_append:
  assumes "chronological (ts_samples ts @ map (\<lambda>s. mk_sample (timestamp s) (sval s)) ss)"
  shows "read_samples (length ss) ts (concat (map sample_entry ss) @ rest)
    = Some (ts\<lparr>ts_samples := ts_samples ts @ map (\<lambda>s. mk_sample (timestamp s) (sval s)) ss\<rparr>)"
  using assms
proof (induction ss arbitrary: ts)
  case (Cons s ss)
  let ?s = "mk_sample (timestamp s) (sval s)"
  have "add_sample ?s ts = Inr (ts\<lparr>ts_samples := ts_samples ts @ [?s]\<rparr>)"
    using Cons.prems by (intro add_sample_later) (simp add: chronological_append_last)
  moreover have "length (sample_entry s @ rest') = 16 + length rest'"
    "take 8 (sample_entry s @ rest') = le_bytes 8 (timestamp s)"
    "take 8 (drop 8 (sample_entry s @ rest')) = le_bytes 8 (sval s)"
    "drop 16 (sample_entry s @ rest') = rest'" for rest'
    by (simp_all add: sample_entry_def)
  ultimately show ?case
    using Cons.IH [of "ts\<lparr>ts_samples := ts_samples ts @ [?s]\<rparr>"] Cons.prems by simp
qed simp

lemma length_label_strings:
  assumes "e \<in> set (ts_labels ts)"
  shows "length (fst e) + length (snd e) \<le> length (serialize_series ts)"
proof -
  have "length (label_entry e) \<le> length (concat (map label_entry m))" if "e \<in> set m" for m
    using that by (induction m) auto
  from this [OF assms] show ?thesis
    by (simp add: serialize_series_def label_entry_def string_entry_def)
qed

lemma chronological_logged:
  "chronological (map (\<lambda>s. mk_sample (timestamp s) (sval s)) ss) \<longleftrightarrow> chronological ss"
  by (simp add: chronological_def sorted_wrt_map mk_sample_def)

lemma deserialize_serialize:
  assumes "loggable ts"
  shows "deserialize_series (serialize_series ts) = Some (logged ts)"
proof -
  let ?l = "ts_labels ts" and ?ss = "ts_samples ts"
  have "\<forall>e \<in> set ?l. length (fst e) < 2 ^ 32 \<and> length (snd e) < 2 ^ 32"
    using length_label_strings [of _ ts] assms by (fastforce simp: loggable_def)
  then have labels: "read_labels (length ?l) [] (concat (map label_entry ?l) @ rest) = Some (?l, rest)" for rest
    using read_labels_append [of "[]" ?l rest] assms by (simp add: loggable_def series_ok_def)
  have samples: "read_samples (length ?ss) (mk_time_series ?l) (concat (map sample_entry ?ss)) = Some (logged ts)"
    using read_samples_append [of "mk_time_series ?l" ?ss "[]"] assms
    by (cases ts) (simp add: loggable_def series_ok_def chronological_logged mk_time_series_def logged_def)
  show ?thesis
    using assms labels samples
    by (simp add: deserialize_series_def serialize_series_def read32_append loggable_def)
qed

section \<open>Replay of one segment\<close>

text \<open>An entry the reader accepts as a frame.\<close>

definition frameable :: "byte list \<Rightarrow> bool" where
  "frameable d \<longleftrightarrow> 0 < length d \<and> length d \<le> 1024 * 1024 * 1024"

lemma frame_header:
  assumes "frameable d"
  shows "unat (le_word (take 4 (frame d @ rest)) :: uint32) = length d"
  using assms by (simp add: frame_def bytes32_def frameable_def)

lemma length_frame [simp]: "length (frame d) = 4 + length d"
  by (simp add: frame_def)

lemma replay_loop_torn:
  assumes "frameable d" "k < length (frame d)" "last_pos < int (length pre)"
  shows "replay_loop (pre @ take k (frame d)) (length pre) last_pos np n = []"
proof (cases "k < 4")
  case True
  then show ?thesis using assms by (subst replay_loop.simps) (auto simp: Let_def)
next
  case False
  then have "take 4 (take k (frame d)) = take 4 (frame d)" by (simp add: min_def)
  then have "unat (le_word (take 4 (take k (frame d))) :: uint32) = length d"
    using frame_header [OF assms(1), of "[]"] by simp
  then show ?thesis using assms False by (subst replay_loop.simps) (auto simp: Let_def)
qed

lemma replay_loop_end: "length file \<le> pos \<Longrightarrow> replay_loop file pos last_pos np n = []"
  by (subst replay_loop.simps) simp

lemma replay_loop_step:
  assumes d: "frameable d" and "last_pos < int (length pre)" "n < 1000000"
  shows "replay_loop (pre @ frame d @ tail) (length pre) last_pos np n =
    (case deserialize_series d of Some ts \<Rightarrow> [ts] | None \<Rightarrow> [])
    @ replay_loop (pre @ frame d @ tail) (length pre + 4 + length d) (int (length pre)) 0 (n + 1)"
proof -
  let ?file = "pre @ frame d @ tail"
  have "unat (le_word (take 4 (drop (length pre) ?file)) :: uint32) = length d"
    using frame_header [OF d, of tail] by simp
  moreover have "take (length d) (drop (length pre + 4) ?file) = d"
    by (simp add: frame_def)
  moreover have "tail = [] \<Longrightarrow>
      replay_loop ?file (length pre + 4 + length d) (int (length pre)) 0 (Suc n) = []"
    by (rule replay_loop_end) simp
  ultimately show ?thesis
    using assms by (subst replay_loop.simps) (simp only: Let_def, simp add: frameable_def)
qed

lemma replay_loop_frames:
  assumes "\<forall>d \<in> set ds. frameable d" "frameable d'" "k < length (frame d')"
    and "last_pos < int (length pre)"
  shows "replay_loop (pre @ concat (map frame ds) @ take k (frame d')) (length pre) last_pos np n
    = List.map_filter deserialize_series (take (1000000 - n) ds)"
  using assms
proof (induction ds arbitrary: pre last_pos np n)
  case Nil
  then show ?case using replay_loop_torn by (simp add: List.map_filter_simps)
next
  case (Cons d ds)
  show ?case
  proof (cases "1000000 \<le> n")
    case True
    then show ?thesis by (subst replay_loop.simps) (simp add: List.map_filter_simps)
  next
    case False
    let ?tail = "concat (map frame ds) @ take k (frame d')"
    have "replay_loop (pre @ frame d @ ?tail) (length pre + 4 + length d) (int (length pre)) 0 (n + 1)
        = List.map_filter deserialize_series (take (1000000 - (n + 1)) ds)"
      using Cons.IH [of "int (length pre)" "pre @ frame d" 0 "n + 1"] Cons.prems
      by (simp add: add.assoc)
    moreover have "take (1000000 - n) (d # ds) = d # take (1000000 - (n + 1)) ds"
      using False by (simp add: take_Cons')
    ultimately show ?thesis
      using replay_loop_step [of d last_pos pre n ?tail np] Cons.prems False
      by (simp add: List.map_filter_simps split: option.split)
  qed
qed

lemma replay_segment_frames:
  assumes "\<forall>d \<in> set ds. frameable d" "frameable d'" "k < length (frame d')"
  shows "replay_segment (concat (map frame ds) @ take k (frame d'))
    = List.map_filter deserialize_series (take 1000000 ds)"
proof -
  have "replay_loop (concat (map frame ds) @ take k (frame d')) 0 (-1) 0 0
      = List.map_filter deserialize_series (take 1000000 ds)"
    using replay_loop_frames [OF assms, of "-1" "[]" 0 0] by simp
  then show ?thesis
    using replay_loop_end [of "[]" 0 "-1" 0 0] unfolding replay_segment_def by (metis length_0_conv list.size(3) order_refl)
qed

section \<open>Segment names sort like segment numbers\<close>

fun fixed_digits :: "nat \<Rightarrow> nat \<Rightarrow> string" where
  "fixed_digits 0 n = []"
| "fixed_digits (Suc k) n = fixed_digits k (n div 10) @ [char_of (48 + n mod 10)]"

lemma length_fixed_digits [simp]: "length (fixed_digits k n) = k"
  by (induction k arbitrary: n) auto

lemma char_zero: "char_of (48 :: nat) = CHR ''0''"
  by code_simp

lemma fixed_digits_0: "fixed_digits k 0 = replicate k (CHR ''0'')"
  by (induction k) (simp_all add: replicate_append_same char_zero)

lemma padded_decimal:
  assumes "n < 10 ^ k" "0 < k"
  shows "length (decimal n) \<le> k
    \<and> replicate (k - length (decimal n)) (CHR ''0'') @ decimal n = fixed_digits k n"
  using assms
proof (induction k arbitrary: n)
  case (Suc k)
  show ?case
  proof (cases "n < 10")
    case True
    then show ?thesis by (simp add: decimal.simps [of n] fixed_digits_0)
  next
    case False
    then have "0 < k" using Suc.prems by (cases k) auto
    moreover have "n div 10 < 10 ^ k" using Suc.prems by (simp add: div_less_iff_less_mult mult.commute)
    ultimately show ?thesis
      using Suc.IH [of "n div 10"] False by (simp add: decimal.simps [of n])
  qed
qed simp

lemma less_digit: "(a :: nat) < b \<Longrightarrow> b < 10 \<Longrightarrow> (char_of (48 + a) :: char) < char_of (48 + b)"
  by (simp add: less_char_def)

lemma fixed_digits_mono:
  assumes "n < m" "m < 10 ^ k"
  shows "fixed_digits k n < fixed_digits k m"
  using assms
proof (induction k arbitrary: n m)
  case (Suc k)
  have "m div 10 < 10 ^ k" using Suc.prems(2) by (simp add: div_less_iff_less_mult mult.commute)
  show ?case
  proof (cases "n div 10 < m div 10")
    case True
    then have "fixed_digits k (n div 10) < fixed_digits k (m div 10)"
      using \<open>m div 10 < 10 ^ k\<close> by (rule Suc.IH)
    then show ?thesis by (simp add: list_less_def lexord_sufI)
  next
    case False
    then have "n div 10 = m div 10" using Suc.prems(1) by (simp add: div_le_mono le_antisym not_less)
    moreover from this have "n mod 10 < m mod 10"
      using Suc.prems(1) by (metis add_less_cancel_left mult_div_mod_eq)
    ultimately show ?thesis
      using less_digit [of "n mod 10" "m mod 10"] by (simp add: list_less_def lexord_append_leftI)
  qed
qed simp

lemma segment_name_mono:
  assumes "n < m" "m < 1000000"
  shows "segment_name n < segment_name m"
proof -
  have "segment_name i = ''wal_'' @ fixed_digits 6 i @ ''.log''" if "i < 1000000" for i
    using padded_decimal [of i 6] that by (simp add: segment_name_def flip: append_assoc)
  moreover have "fixed_digits 6 n < fixed_digits 6 m"
    using assms by (intro fixed_digits_mono) simp_all
  then have "fixed_digits 6 n @ ''.log'' < fixed_digits 6 m @ ''.log''"
    by (simp add: list_less_def lexord_sufI)
  then have "''wal_'' @ fixed_digits 6 n @ ''.log'' < ''wal_'' @ fixed_digits 6 m @ ''.log''"
    unfolding list_less_def by (rule lexord_append_leftI)
  ultimately show ?thesis using assms by simp
qed

lemma is_segment_file_name [simp]: "is_segment_file (segment_name n)"
  by (simp add: is_segment_file_def segment_name_def)

section \<open>A log from its creation\<close>

definition seg_bytes :: "time_series list \<Rightarrow> byte list" where
  "seg_bytes tss = concat (map (\<lambda>ts. frame (serialize_series ts)) tss)"

definition seg_files :: "time_series list list \<Rightarrow> (string \<times> byte list) list" where
  "seg_files segs = map (\<lambda>i. (segment_name i, seg_bytes (segs ! i))) [0..<length segs]"

definition wal_inv :: "wal \<Rightarrow> time_series list list \<Rightarrow> bool" where
  "wal_inv w segs \<longleftrightarrow> segs \<noteq> [] \<and> is_open w \<and> current_segment w = length segs - 1
     \<and> length segs \<le> Suc (length (concat segs)) \<and> files (stream_flush w) = seg_files segs"

lemma seg_files_snoc:
  "seg_files (segs @ [tss]) = seg_files segs @ [(segment_name (length segs), seg_bytes tss)]"
  by (auto simp: seg_files_def nth_append)

lemma seg_files_below:
  "\<lbrakk>length segs \<le> n; n < 1000000\<rbrakk> \<Longrightarrow> \<forall>a \<in> fst ` set (seg_files segs). a < segment_name n"
  by (auto simp: seg_files_def intro!: segment_name_mono)

lemma file_contents_last:
  assumes "files w = seg_files (segs @ [tss])" "length segs < 1000000"
  shows "file_contents w (segment_name (length segs)) = seg_bytes tss"
proof -
  have "segment_name (length segs) \<notin> fst ` set (seg_files segs)"
    using seg_files_below [of segs "length segs"] assms(2) by auto
  then have "map_of (seg_files segs) (segment_name (length segs)) = None"
    by (simp add: map_of_eq_None_iff)
  then show ?thesis
    using assms(1) by (simp add: file_contents_def seg_files_snoc map_add_def)
qed

lemma stream_flush_frame [simp]:
  "is_open (stream_flush w) = is_open w" "current_segment (stream_flush w) = current_segment w"
  "unflushed (stream_flush w) = []" "wal_dir (stream_flush w) = wal_dir w"
  "stream_flush (stream_flush w) = stream_flush w"
  by (simp_all add: stream_flush_def Let_def)

lemma files_after_write:
  assumes "file_contents (stream_flush w) (segment_name (current_segment w)) = old"
  shows "files (stream_flush (w\<lparr>unflushed := unflushed w @ bs\<rparr>)) =
    (if unflushed w @ bs = [] then files w
     else smap_insert (segment_name (current_segment w)) (old @ bs) (files (stream_flush w)))"
  using assms by (auto simp: stream_flush_def Let_def file_contents_def smap_simps)

lemma frame_nonempty [simp]: "frame d \<noteq> []"
  using length_frame [of d] by (metis add_is_0 list.size(3) zero_neq_numeral)

lemma wal_inv_write:
  assumes "wal_inv w (segs @ [tss])" "length segs < 1000000"
    and "write_to_segment (serialize_series ts) flush_now w = (ok, w')"
  shows "ok \<and> wal_inv w' (segs @ [tss @ [ts]])"
proof -
  let ?name = "segment_name (length segs)" and ?d = "frame (serialize_series ts)"
  let ?w1 = "w\<lparr>unflushed := unflushed w @ ?d\<rparr>"
  have cur: "current_segment w = length segs" "is_open w" and fs: "files (stream_flush w) = seg_files (segs @ [tss])"
    and len: "length segs \<le> length (concat segs) + length tss"
    using assms(1) by (auto simp: wal_inv_def)
  have old: "file_contents (stream_flush w) (segment_name (current_segment w)) = seg_bytes tss"
    using file_contents_last [OF fs assms(2)] cur(1) by simp
  have "files (stream_flush ?w1) = smap_insert ?name (seg_bytes tss @ ?d) (seg_files (segs @ [tss]))"
    using files_after_write [OF old, of ?d] cur fs by simp
  also have "\<dots> = seg_files (segs @ [tss @ [ts]])"
    using smap_insert_at_end [OF seg_files_below [of segs "length segs"]] assms(2)
    by (simp add: seg_files_snoc seg_bytes_def)
  finally have "files (stream_flush w') = seg_files (segs @ [tss @ [ts]])"
    using assms(3) cur(2) by (auto simp: write_to_segment_def Let_def)
  moreover have "is_open w'" "current_segment w' = length segs" ok
    using assms(3) cur by (auto simp: write_to_segment_def Let_def)
  ultimately show ?thesis using len by (simp add: wal_inv_def)
qed

lemma wal_inv_rotate:
  assumes "wal_inv w segs" "length segs < 1000000" "\<forall>p. opens p"
    and "length segs \<le> length (concat segs)"
  shows "fst (rotate_segment opens w) \<and> wal_inv (snd (rotate_segment opens w)) (segs @ [[]])"
proof -
  let ?n = "length segs"
  have inv: "segs \<noteq> []" "is_open w" "current_segment w = ?n - 1" "files (stream_flush w) = seg_files segs"
    using assms(1) by (auto simp: wal_inv_def)
  have new: "segment_name ?n \<notin> fst ` set (seg_files segs)"
    "smap_insert (segment_name ?n) [] (seg_files segs) = seg_files segs @ [(segment_name ?n, [])]"
    using seg_files_below [of segs ?n] assms(2) by (auto intro: smap_insert_last)
  have "file_contents ((stream_flush w)\<lparr>is_open := False, current_segment := ?n\<rparr>) (segment_name ?n) = []"
    using new(1) inv(4) by (simp add: file_contents_def map_of_eq_None_iff [THEN iffD2])
  then have "snd (rotate_segment opens w) = (stream_flush w)\<lparr>current_segment := ?n, is_open := True,
      file_pos := 0, unflushed := [], files := seg_files (segs @ [[]])\<rparr>" "fst (rotate_segment opens w)"
    using inv new(2) assms(3)
    by (simp_all add: rotate_segment_def open_segment_def Let_def seg_files_snoc seg_bytes_def)
  with inv assms(4) show ?thesis by (simp add: wal_inv_def stream_flush_def)
qed

text \<open>A sequence of log calls; the flag says whether every one of them reported success.\<close>

fun log_all ::
  "(string \<Rightarrow> bool) \<Rightarrow> (time_series \<times> bool) list \<Rightarrow> wal \<Rightarrow> bool \<times> wal" where
  "log_all opens [] w = (True, w)"
| "log_all opens ((ts, flush_now) # es) w =
     (let (r, w1) = wal_log opens ts flush_now w; (ok, w2) = log_all opens es w1
      in (r = Inr () \<and> ok, w2))"

lemma wal_inv_log:
  assumes "wal_inv w segs" "Suc (length (concat segs)) < 1000000" "\<forall>p. opens p"
  shows "\<exists>segs' w'. wal_log opens ts flush_now w = (Inr (), w') \<and> wal_inv w' segs'
    \<and> concat segs' = concat segs @ [ts]"
proof -
  have "segs \<noteq> []" using assms(1) by (simp add: wal_inv_def)
  then obtain ss tss where segs: "segs = ss @ [tss]" by (metis append_butlast_last_id)
  have len: "length ss \<le> length (concat segs)" using assms(1) by (simp add: wal_inv_def segs)
  obtain ok w1 where w1: "write_to_segment (serialize_series ts) flush_now w = (ok, w1)" by force
  have "length ss < 1000000" using len assms(2) by simp
  then have inv: "ok" "wal_inv w1 (ss @ [tss @ [ts]])"
    using wal_inv_write [OF assms(1) [unfolded segs] _ w1] by simp_all
  show ?thesis
  proof (cases "64 * 1024 * 1024 < tellp w1")
    case True
    have "length (ss @ [tss @ [ts]]) < 1000000"
      "length (ss @ [tss @ [ts]]) \<le> length (concat (ss @ [tss @ [ts]]))"
      using len assms(2) by (simp_all add: segs)
    from wal_inv_rotate [OF inv(2) this(1) assms(3) this(2)]
    obtain w2 where "rotate_segment opens w1 = (True, w2)" "wal_inv w2 (ss @ [tss @ [ts]] @ [[]])"
      by (cases "rotate_segment opens w1") auto
    then show ?thesis
      using True w1 inv(1) segs by (intro exI [of _ "ss @ [tss @ [ts]] @ [[]]"] exI [of _ w2]) (simp add: wal_log_def)
  next
    case False
    then show ?thesis
      using w1 inv segs by (intro exI [of _ "ss @ [tss @ [ts]]"] exI [of _ w1]) (simp add: wal_log_def)
  qed
qed

lemma wal_inv_log_all:
  assumes "wal_inv w segs" "length (concat segs) + length es < 1000000" "\<forall>p. opens p"
  shows "\<exists>segs' w'. log_all opens es w = (True, w') \<and> wal_inv w' segs'
    \<and> concat segs' = concat segs @ map fst es"
  using assms(1,2)
proof (induction es arbitrary: w segs)
  case (Cons e es)
  obtain ts fl where e: "e = (ts, fl)" by force
  obtain segs1 w1 where 1: "wal_log opens ts fl w = (Inr (), w1)" "wal_inv w1 segs1"
      "concat segs1 = concat segs @ [ts]"
    using wal_inv_log [OF Cons.prems(1) _ assms(3), of ts fl] Cons.prems(2) by auto
  have "length (concat segs1) + length es < 1000000"
    unfolding 1(3) using Cons.prems(2) by simp
  from Cons.IH [OF 1(2) this] obtain segs2 w2 where 2: "log_all opens es w1 = (True, w2)"
      "wal_inv w2 segs2" "concat segs2 = concat segs1 @ map fst es"
    by blast
  then show ?case
    using 1 e by (intro exI [of _ segs2] exI [of _ w2]) simp
qed auto

lemma wal_inv_new:
  assumes "\<forall>p. opens p" "mk_wal opens dir [] = Inr w"
  shows "wal_inv w [[]]"
  using assms
  by (auto simp: mk_wal_def Let_def open_segment_def wal_inv_def stream_flush_def seg_files_def
      seg_bytes_def file_contents_def)

lemma frameable_serialized: "loggable ts \<Longrightarrow> frameable (serialize_series ts)"
  using length_bytes32 [of "length (ts_labels ts)"]
  by (auto simp: frameable_def loggable_def serialize_series_def simp del: length_bytes32)

lemma replay_all_entries:
  assumes "\<forall>ts \<in> set tss. loggable ts"
  shows "List.map_filter deserialize_series (take n (map serialize_series tss)) = map logged (take n tss)"
proof -
  have "List.map_filter deserialize_series (map serialize_series us) = map logged us"
    if "\<forall>ts \<in> set us. loggable ts" for us
    using that by (induction us) (simp_all add: List.map_filter_simps deserialize_serialize)
  moreover have "\<forall>ts \<in> set (take n tss). loggable ts" using assms by (auto dest: in_set_takeD)
  ultimately show ?thesis by (simp add: take_map)
qed

lemma replay_seg_bytes:
  assumes "\<forall>ts \<in> set tss. loggable ts" "length tss \<le> 1000000"
  shows "replay_segment (seg_bytes tss) = map logged tss"
proof -
  have "replay_segment (seg_bytes tss) =
      List.map_filter deserialize_series (take 1000000 (map serialize_series tss))"
    using replay_segment_frames [of "map serialize_series tss" "[0]" 0] assms(1)
    by (auto simp: seg_bytes_def comp_def frameable_serialized) (simp add: frameable_def)
  also have "\<dots> = map logged tss"
    using replay_all_entries [OF assms(1), of 1000000] assms(2) by simp
  finally show ?thesis .
qed

lemma replay_seg_files:
  assumes "\<forall>ts \<in> set (concat segs). loggable ts" "length (concat segs) \<le> 1000000"
  shows "concat (map (\<lambda>(name, file). replay_segment file)
      (filter (\<lambda>(name, file). is_segment_file name) (seg_files segs))) = map logged (concat segs)"
proof -
  have seg: "replay_segment (seg_bytes tss) = map logged tss" if "tss \<in> set segs" for tss
  proof (rule replay_seg_bytes)
    have "length tss \<le> length (concat segs)"
      using that by (induction segs) auto
    then show "length tss \<le> 1000000" using assms(2) by simp
  qed (use that assms(1) in auto)
  have "filter (\<lambda>(name, file). is_segment_file name) (seg_files segs) = seg_files segs"
    by (auto simp: seg_files_def filter_id_conv)
  then have "concat (map (\<lambda>(name, file). replay_segment file)
      (filter (\<lambda>(name, file). is_segment_file name) (seg_files segs)))
      = concat (map (\<lambda>i. replay_segment (seg_bytes (segs ! i))) [0..<length segs])"
    by (simp add: seg_files_def comp_def)
  also have "map (\<lambda>i. replay_segment (seg_bytes (segs ! i))) [0..<length segs] = map (map logged) segs"
    using seg by (intro nth_equalityI) simp_all
  finally show ?thesis by (simp add: map_concat)
qed

lemma wal_inv_replay:
  assumes "wal_inv w segs" "\<forall>ts \<in> set (concat segs). loggable ts" "length (concat segs) \<le> 1000000"
  shows "fst (wal_replay w) = map logged (concat segs)"
  using replay_seg_files [OF assms(2,3)] assms(1)
  by (simp add: wal_replay_def wal_flush_def wal_inv_def)

lemma seg_files_Cons:
  "seg_files (a # rest) = (segment_name 0, seg_bytes a)
     # map (\<lambda>i. (segment_name (Suc i), seg_bytes (rest ! i))) [0..<length rest]"
  by (simp add: seg_files_def upt_conv_Cons map_Suc_upt [symmetric] comp_def del: upt_Suc)

lemma filter_not_in_take: "distinct xs \<Longrightarrow> filter (\<lambda>x. x \<notin> set (take k xs)) xs = drop k xs"
proof (induction xs arbitrary: k)
  case (Cons x xs)
  show ?case
  proof (cases k)
    case (Suc j)
    have "filter (\<lambda>y. y \<noteq> x \<and> y \<notin> set (take j xs)) xs = filter (\<lambda>y. y \<notin> set (take j xs)) xs"
      using Cons.prems by (intro filter_cong) auto
    with Cons Suc show ?thesis by simp
  qed simp
qed simp

lemma erase_all: "foldl (\<lambda>fs name. smap_erase name fs) fs names = filter (\<lambda>e. fst e \<notin> set names) fs"
  by (induction names arbitrary: fs) (auto simp: smap_erase_def intro: filter_cong)

text \<open>A small entry for the concrete instances.\<close>

definition example_entry :: time_series where
  "example_entry = \<lparr>ts_labels = [(''job'', ''a'')], ts_samples = [mk_sample 10 1, mk_sample 20 2]\<rparr>"

lemma length_example: "length (serialize_series example_entry) = 52"
  by (simp add: serialize_series_def example_entry_def label_entry_def string_entry_def sample_entry_def)

lemma loggable_example: "loggable example_entry"
  unfolding loggable_def length_example
  by (simp add: example_entry_def series_ok_def smap_ok_def chronological_def mk_sample_def)

lemma logged_example: "logged example_entry = example_entry"
  by (simp add: logged_def example_entry_def mk_sample_def)

section \<open>Properties\<close>

text \<open>
  One log entry survives its byte format: a series within the reader's limits is read back
  with the same labels, timestamps and values.
\<close>

theorem wal_entry_roundtrip:
  assumes "loggable ts"
  shows "deserialize_series (serialize_series ts) = Some (logged ts)"
  using assms by (rule deserialize_serialize)

theorem wal_entry_roundtrip_witness:
  "deserialize_series (serialize_series example_entry) = Some example_entry"
  using wal_entry_roundtrip [OF loggable_example] by (simp add: logged_example)

text \<open>
  C9: Write-ahead logging is durable: on a fresh log directory in which every file can be opened, after any sequence of fewer than
  a million log calls, flushed or not, of series that can be logged (sorted, at most 1000 labels, none with an empty name,
  at most ten million samples and one gigabyte an entry), every call reported success and replay hands the
  logged series to the callback, each once and in the order they were logged, across segment
  rotations, with labels, timestamps and values. The fields of samples are not logged and come back empty.
\<close>

theorem wal_replay_delivers_all:
  assumes "\<forall>p. opens p" "mk_wal opens dir [] = Inr w" "log_all opens es w = (ok, w')"
    and "length es < 1000000" "\<forall>e \<in> set es. loggable (fst e)"
  shows "ok \<and> fst (wal_replay w') = map (\<lambda>e. logged (fst e)) es"
proof -
  have "\<exists>segs' w'. log_all opens es w = (True, w') \<and> wal_inv w' segs'
      \<and> concat segs' = concat [[]] @ map fst es"
    using assms(4) by (intro wal_inv_log_all wal_inv_new [OF assms(1,2)] assms(1)) simp
  then obtain segs where segs: "ok" "wal_inv w' segs" "concat segs = map fst es"
    using assms(3) by auto
  have "\<forall>ts \<in> set (concat segs). loggable ts" "length (concat segs) \<le> 1000000"
    unfolding segs(3) using assms(4,5) by auto
  from wal_inv_replay [OF segs(2) this] show ?thesis
    using segs(1) unfolding segs(3) by (simp add: comp_def)
qed

theorem wal_replay_delivers_all_witness:
  "\<exists>w w'. mk_wal (\<lambda>p. True) ''d'' [] = Inr w
     \<and> log_all (\<lambda>p. True) [(example_entry, True), (example_entry, False)] w = (True, w')
     \<and> fst (wal_replay w') = [example_entry, example_entry]"
proof -
  let ?es = "[(example_entry, True), (example_entry, False)]"
  obtain w where w: "mk_wal (\<lambda>p. True) ''d'' [] = Inr w"
    by (simp add: mk_wal_def open_segment_def Let_def)
  obtain ok w' where w': "log_all (\<lambda>p. True) ?es w = (ok, w')" by force
  have "ok \<and> fst (wal_replay w') = map (\<lambda>e. logged (fst e)) ?es"
    by (rule wal_replay_delivers_all [OF _ w w']) (simp_all add: loggable_example)
  with w w' show ?thesis by (auto simp: logged_example)
qed

text \<open>
  C18: A torn write at the end of a segment costs only the entry being written: replay of a
  segment whose last frame is cut anywhere delivers all complete entries before it.
\<close>

theorem wal_torn_tail_tolerated:
  assumes "\<forall>ts \<in> set tss. loggable ts" "length tss \<le> 1000000" "loggable ts"
    and "k < length (frame (serialize_series ts))"
  shows "replay_segment (seg_bytes tss @ take k (frame (serialize_series ts))) = map logged tss"
proof -
  have "\<forall>d \<in> set (map serialize_series tss). frameable d"
    using assms(1) by (auto intro: frameable_serialized)
  from replay_segment_frames [OF this frameable_serialized [OF assms(3)] assms(4)]
  have "replay_segment (seg_bytes tss @ take k (frame (serialize_series ts)))
      = List.map_filter deserialize_series (take 1000000 (map serialize_series tss))"
    by (simp add: seg_bytes_def comp_def)
  then show ?thesis
    using replay_all_entries [OF assms(1), of 1000000] assms(2) by simp
qed

theorem wal_torn_tail_tolerated_witness:
  "replay_segment (seg_bytes [example_entry] @ take 7 (frame (serialize_series example_entry)))
     = [example_entry]"
proof -
  have "0 < length (serialize_series example_entry)"
    using frameable_serialized [OF loggable_example] by (simp add: frameable_def)
  then have "7 < length (frame (serialize_series example_entry))"
    using length_example by simp
  then show ?thesis
    using wal_torn_tail_tolerated [of "[example_entry]" example_entry 7] loggable_example
    by (simp add: logged_example)
qed

text \<open>
  Replay reads at most a million entries of a segment, but rotation is by size alone: of a
  segment with more entries, everything behind the millionth is silently not replayed.
\<close>

theorem wal_replay_entry_limit:
  assumes "\<forall>ts \<in> set tss. loggable ts"
  shows "replay_segment (seg_bytes tss) = map logged (take 1000000 tss)"
proof -
  have "\<forall>d \<in> set (map serialize_series tss). frameable d"
    using assms by (auto intro: frameable_serialized)
  moreover have "frameable [0]" by (simp add: frameable_def)
  ultimately have "replay_segment (concat (map frame (map serialize_series tss)) @ take 0 (frame [0]))
      = List.map_filter deserialize_series (take 1000000 (map serialize_series tss))"
    by (rule replay_segment_frames) simp
  then show ?thesis
    using replay_all_entries [OF assms] by (simp add: seg_bytes_def comp_def)
qed

theorem wal_replay_entry_limit_witness:
  "length (replay_segment (seg_bytes (replicate 1000001 example_entry))) = 1000000"
proof -
  have "\<forall>ts \<in> set (replicate 1000001 example_entry). loggable ts"
    using loggable_example by (metis in_set_replicate)
  from wal_replay_entry_limit [OF this] show ?thesis
    by (simp only: length_map length_take length_replicate)
qed

text \<open>
  The log and the replay disagree on the number of labels: a series with more than a
  thousand labels is logged without an error, and its entry is dropped on replay.
\<close>

theorem wal_many_labels_dropped:
  assumes "1000 < length (ts_labels ts)" "length (ts_labels ts) < 2 ^ 32"
  shows "deserialize_series (serialize_series ts) = None"
  using assms by (simp add: deserialize_series_def serialize_series_def read32_append)

theorem wal_many_labels_dropped_witness:
  "deserialize_series (serialize_series
     \<lparr>ts_labels = map (\<lambda>i. (decimal i, [])) [0..<1001], ts_samples = []\<rparr>) = None"
  by (rule wal_many_labels_dropped) simp_all

text \<open>
  A restart breaks the replay order: the constructor always continues in segment 0, so with
  older segments present a new entry is replayed before entries that were logged earlier.
\<close>

theorem wal_restart_reorders:
  assumes "\<forall>p. opens p" "mk_wal opens dir (seg_files (tss # rest)) = Inr w"
    and "wal_log opens ts True w = (r, w')"
    and "length (seg_bytes (tss @ [ts])) \<le> 64 * 1024 * 1024"
    and "\<forall>t \<in> set (tss @ [ts] @ concat rest). loggable t"
    and "length (tss @ [ts] @ concat rest) \<le> 1000000"
  shows "fst (wal_replay w') = map logged (tss @ [ts] @ concat rest)"
proof -
  have w: "w = \<lparr>wal_dir = dir, current_segment = 0, is_open = True, file_pos = 0, unflushed = [],
      files = seg_files (tss # rest)\<rparr>"
    using assms(1,2) by (auto simp: mk_wal_def Let_def open_segment_def file_contents_def seg_files_Cons)
  have "w' = w\<lparr>file_pos := length (seg_bytes (tss @ [ts])), files := seg_files ((tss @ [ts]) # rest)\<rparr>"
    using assms(3,4)
    by (auto simp: wal_log_def write_to_segment_def w Let_def stream_flush_def file_contents_def
        seg_files_Cons tellp_def seg_bytes_def)
  then have "fst (wal_replay w') = concat (map (\<lambda>(name, file). replay_segment file)
      (filter (\<lambda>(name, file). is_segment_file name) (seg_files ((tss @ [ts]) # rest))))"
    by (simp add: wal_replay_def wal_flush_def stream_flush_def w)
  also have "\<dots> = map logged (concat ((tss @ [ts]) # rest))"
    using assms(5,6) by (intro replay_seg_files) auto
  finally show ?thesis by simp
qed

theorem wal_restart_reorders_witness:
  "\<exists>w. mk_wal (\<lambda>p. True) ''d'' (seg_files [[], [example_entry]]) = Inr w
     \<and> fst (wal_replay (snd (wal_log (\<lambda>p. True) (mk_time_series []) True w)))
         = [mk_time_series [], example_entry]"
proof -
  let ?e = "mk_time_series []"
  obtain w where w: "mk_wal (\<lambda>p. True) ''d'' (seg_files [[], [example_entry]]) = Inr w"
    by (simp add: mk_wal_def open_segment_def Let_def)
  obtain r w' where w': "wal_log (\<lambda>p. True) ?e True w = (r, w')" by force
  have serialize_empty: "length (serialize_series ?e) = 8"
    by (simp add: serialize_series_def mk_time_series_def)
  have e: "loggable ?e" "logged ?e = ?e"
    by (simp_all add: loggable_def mk_time_series_def series_ok_def serialize_series_def logged_def)
  have "fst (wal_replay w') = map logged ([] @ [?e] @ concat [[example_entry]])"
    by (rule wal_restart_reorders [OF _ w w'])
      (simp_all add: loggable_example e seg_bytes_def serialize_empty)
  with w w' show ?thesis by (auto simp: logged_example e)
qed

text \<open>
  \<open>checkpoint(n)\<close> for a non-negative \<open>n\<close> deletes segment files only, and of those all but the
  last \<open>n\<close> in name order; every remaining file keeps its contents.
\<close>

theorem checkpoint_keeps_newest:
  assumes "smap_ok (files w)" "0 \<le> n"
  shows "\<exists>w'. wal_checkpoint n w = Some w'
    \<and> filter is_segment_file (map fst (files w'))
        = drop (length (filter is_segment_file (map fst (files w))) - nat n)
            (filter is_segment_file (map fst (files w)))
    \<and> filter (\<lambda>(name, file). \<not> is_segment_file name) (files w')
        = filter (\<lambda>(name, file). \<not> is_segment_file name) (files w)
    \<and> set (files w') \<subseteq> set (files w)"
proof -
  let ?names = "filter is_segment_file (map fst (files w))"
  let ?k = "length ?names - nat n"
  let ?fs = "filter (\<lambda>e. fst e \<notin> set (take ?k ?names)) (files w)"
  have "distinct ?names" using smap_ok_distinct [OF assms(1)] by simp
  then have "filter (\<lambda>x. x \<notin> set (take ?k ?names)) ?names = drop ?k ?names"
    by (rule filter_not_in_take)
  then have names: "filter is_segment_file (map fst ?fs) = drop ?k ?names"
    by (simp add: filter_map comp_def conj_commute)
  have others: "filter (\<lambda>(name, file). \<not> is_segment_file name) ?fs
      = filter (\<lambda>(name, file). \<not> is_segment_file name) (files w)"
    by (auto simp: case_prod_unfold dest!: in_set_takeD intro!: filter_cong)
  show ?thesis
  proof (cases "int (length ?names) - n \<le> 0")
    case True
    then have "?k = 0" by simp
    with True show ?thesis by (simp add: wal_checkpoint_def Let_def)
  next
    case False
    then have "nat (int (length ?names) - n) = ?k" using assms(2) by simp
    then have "wal_checkpoint n w = Some (w\<lparr>files := ?fs\<rparr>)"
      using False assms(2) by (simp add: wal_checkpoint_def Let_def erase_all)
    with names others show ?thesis by (intro exI [of _ "w\<lparr>files := ?fs\<rparr>"]) auto
  qed
qed

theorem checkpoint_keeps_newest_witness:
  "\<exists>w'. wal_checkpoint 1 \<lparr>wal_dir = ''d'', current_segment = 1, is_open = True, file_pos = 0,
       unflushed = [], files = [(''wal_0'', [1]), (''wal_1'', [2])]\<rparr> = Some w'
     \<and> filter is_segment_file (map fst (files w')) = [''wal_1'']"
proof -
  let ?w = "\<lparr>wal_dir = ''d'', current_segment = 1, is_open = True, file_pos = 0,
       unflushed = [], files = [(''wal_0'', [1]), (''wal_1'', [2])]\<rparr>"
  have "smap_ok (files ?w)" by (simp add: smap_ok_def)
  from checkpoint_keeps_newest [OF this, of 1] show ?thesis
    by (auto simp: is_segment_file_def)
qed

end
