(* ===== verification/Sharded_Wal.thy ===== *)
theory Sharded_Wal
  imports Write_Ahead_Log
begin

text \<open>
  The sharded, asynchronous write-ahead log (\<open>src/tsdb/storage/async_wal_shard.cpp\<close> and
  \<open>sharded_wal.cpp\<close>). A shard has a bounded queue that callers fill and a worker thread that drains
  it in batches into the log of \<open>Write_Ahead_Log\<close>; a caller blocks while the queue is full. Callers
  and workers interleave: each critical section is one step, and \<open>shard_run\<close> pairs every
  reachable state with the series logged on the way to it. Series go to shards by a hash of their
  labels; \<open>std::hash\<close> is a parameter. A shard is not used after its destructor has begun.
\<close>

section \<open>One shard\<close>

text \<open>The worker waits on its condition variable, writes the rest of a batch, or has ended.\<close>

datatype worker_state = Waiting | Writing "time_series list" | Ended

record wal_shard =
  shard_wal :: wal
  shard_queue :: "time_series list"
  max_queue_size :: nat
  running :: bool
  worker :: worker_state

definition mk_wal_shard :: "nat \<Rightarrow> wal \<Rightarrow> wal_shard" where
  "mk_wal_shard cap w = \<lparr>shard_wal = w, shard_queue = [], max_queue_size = cap, running = True, worker = Waiting\<rparr>"

text \<open>\<open>log\<close>: \<open>None\<close> while the caller waits for space in the queue.\<close>

definition shard_log :: "time_series \<Rightarrow> wal_shard \<Rightarrow> (unit result \<times> wal_shard) option" where
  "shard_log ts s =
     (if max_queue_size s \<le> length (shard_queue s) then None
      else Some (Inr (), s\<lparr>shard_queue := shard_queue s @ [ts]\<rparr>))"

definition batch_size :: nat where
  "batch_size = 1000"

text \<open>One step of \<open>worker_loop\<close>; it stays where it is while it has to wait.\<close>

definition worker_step :: "(string \<Rightarrow> bool) \<Rightarrow> wal_shard \<Rightarrow> wal_shard" where
  "worker_step opens s =
     (case worker s of
        Waiting \<Rightarrow>
          if shard_queue s = [] then (if running s then s else s\<lparr>worker := Ended\<rparr>)
          else s\<lparr>worker := Writing (take batch_size (shard_queue s)), shard_queue := drop batch_size (shard_queue s)\<rparr>
      | Writing (ts # batch) \<Rightarrow> s\<lparr>shard_wal := snd (wal_log opens ts False (shard_wal s)), worker := Writing batch\<rparr>
      | Writing [] \<Rightarrow> s\<lparr>shard_wal := wal_flush (shard_wal s), worker := Waiting\<rparr>
      | Ended \<Rightarrow> s)"

text \<open>The destructor tells the worker to stop and then joins it.\<close>

definition shard_stop :: "wal_shard \<Rightarrow> wal_shard" where
  "shard_stop s = s\<lparr>running := False\<rparr>"

definition shard_replay :: "wal_shard \<Rightarrow> time_series list \<times> wal_shard" where
  "shard_replay s = (let (tss, w) = wal_replay (shard_wal s) in (tss, s\<lparr>shard_wal := w\<rparr>))"

definition shard_checkpoint :: "int \<Rightarrow> wal_shard \<Rightarrow> wal_shard option" where
  "shard_checkpoint n s = map_option (\<lambda>w. s\<lparr>shard_wal := w\<rparr>) (wal_checkpoint n (shard_wal s))"

text \<open>\<open>flush\<close> polls until this holds.\<close>

definition shard_flush_returns :: "wal_shard \<Rightarrow> bool" where
  "shard_flush_returns s \<longleftrightarrow> shard_queue s = []"

definition GetQueueSize :: "wal_shard \<Rightarrow> nat" where
  "GetQueueSize s = length (shard_queue s)"

inductive shard_run :: "(string \<Rightarrow> bool) \<Rightarrow> wal_shard \<Rightarrow> wal_shard \<Rightarrow> time_series list \<Rightarrow> bool" for opens s0 where
  run_start: "shard_run opens s0 s0 []"
| run_log: "\<lbrakk>shard_run opens s0 s hist; running s; shard_log ts s = Some (r, s')\<rbrakk> \<Longrightarrow>
     shard_run opens s0 s' (hist @ [ts])"
| run_worker: "shard_run opens s0 s hist \<Longrightarrow> shard_run opens s0 (worker_step opens s) hist"
| run_stop: "shard_run opens s0 s hist \<Longrightarrow> shard_run opens s0 (shard_stop s) hist"

section \<open>All shards\<close>

record sharded_wal =
  wal_shards :: "wal_shard list"
  total_writes :: uint64
  total_bytes :: uint64
  total_errors :: uint64

definition shard_dir :: "string \<Rightarrow> nat \<Rightarrow> string" where
  "shard_dir base i = base @ ''/shard_'' @ replicate (3 - length (decimal i)) (CHR ''0'') @ decimal i"

text \<open>The constructor; \<open>found\<close> gives the files that the directory of each shard already holds.\<close>

fun mk_wal_shards ::
  "(string \<Rightarrow> bool) \<Rightarrow> string \<Rightarrow> (nat \<Rightarrow> (string \<times> byte list) list) \<Rightarrow> nat list \<Rightarrow> wal_shard list result" where
  "mk_wal_shards opens base found [] = Inr []"
| "mk_wal_shards opens base found (i # is) =
     (case mk_wal opens (shard_dir base i) (found i) of
        Inl e \<Rightarrow> Inl e
      | Inr w \<Rightarrow> (case mk_wal_shards opens base found is of Inl e \<Rightarrow> Inl e | Inr ss \<Rightarrow> Inr (mk_wal_shard 10000 w # ss)))"

definition mk_sharded_wal ::
  "(string \<Rightarrow> bool) \<Rightarrow> string \<Rightarrow> (nat \<Rightarrow> (string \<times> byte list) list) \<Rightarrow> nat \<Rightarrow> sharded_wal result" where
  "mk_sharded_wal opens base found n =
     map_sum id (\<lambda>ss. \<lparr>wal_shards = ss, total_writes = 0, total_bytes = 0, total_errors = 0\<rparr>)
       (mk_wal_shards opens base found [0..<n])"

definition hash_combine :: "uint64 \<Rightarrow> uint64 \<Rightarrow> uint64" where
  "hash_combine hash h = hash XOR (h + 0x9e3779b9 + push_bit 6 hash + drop_bit 2 hash)"

definition labels_hash :: "(string \<Rightarrow> uint64) \<Rightarrow> labels \<Rightarrow> uint64" where
  "labels_hash h l = foldl (\<lambda>hash (k, v). hash_combine (hash_combine hash (h k)) (h v)) 0 l"

definition wal_shard_index :: "(string \<Rightarrow> uint64) \<Rightarrow> nat \<Rightarrow> time_series \<Rightarrow> nat" where
  "wal_shard_index h n ts = unat (labels_hash h (ts_labels ts)) mod n"

definition sharded_log ::
  "(string \<Rightarrow> uint64) \<Rightarrow> time_series \<Rightarrow> sharded_wal \<Rightarrow> (unit result \<times> sharded_wal) option" where
  "sharded_log h ts sw =
     (let k = wal_shard_index h (length (wal_shards sw)) ts
      in case shard_log ts (wal_shards sw ! k) of
           None \<Rightarrow> None
         | Some (r, s) \<Rightarrow>
             let sw1 = sw\<lparr>wal_shards := (wal_shards sw)[k := s]\<rparr>
             in Some (r, if isl r then sw1\<lparr>total_errors := total_errors sw + 1\<rparr>
                         else sw1\<lparr>total_writes := total_writes sw + 1\<rparr>))"

definition sharded_replay :: "sharded_wal \<Rightarrow> time_series list \<times> sharded_wal" where
  "sharded_replay sw =
     (concat (map (\<lambda>s. fst (shard_replay s)) (wal_shards sw)),
      sw\<lparr>wal_shards := map (\<lambda>s. snd (shard_replay s)) (wal_shards sw)\<rparr>)"

fun checkpoint_shards :: "int \<Rightarrow> wal_shard list \<Rightarrow> wal_shard list option" where
  "checkpoint_shards n [] = Some []"
| "checkpoint_shards n (s # ss) =
     (case shard_checkpoint n s of None \<Rightarrow> None | Some s' \<Rightarrow> map_option (Cons s') (checkpoint_shards n ss))"

definition sharded_checkpoint :: "int \<Rightarrow> sharded_wal \<Rightarrow> sharded_wal option" where
  "sharded_checkpoint n sw = map_option (\<lambda>ss. sw\<lparr>wal_shards := ss\<rparr>) (checkpoint_shards n (wal_shards sw))"

definition wal_stats :: "sharded_wal \<Rightarrow> uint64 \<times> uint64 \<times> uint64" where
  "wal_stats sw = (total_writes sw, total_bytes sw, total_errors sw)"

definition sharded_flush_returns :: "sharded_wal \<Rightarrow> bool" where
  "sharded_flush_returns sw \<longleftrightarrow> list_all shard_flush_returns (wal_shards sw)"

text \<open>Callers and the workers of all shards interleave.\<close>

inductive sharded_run ::
  "(string \<Rightarrow> bool) \<Rightarrow> (string \<Rightarrow> uint64) \<Rightarrow> sharded_wal \<Rightarrow> sharded_wal \<Rightarrow> time_series list \<Rightarrow> bool"
  for opens h sw0 where
  all_start: "sharded_run opens h sw0 sw0 []"
| all_log: "\<lbrakk>sharded_run opens h sw0 sw hist; list_all running (wal_shards sw); sharded_log h ts sw = Some (r, sw')\<rbrakk> \<Longrightarrow>
     sharded_run opens h sw0 sw' (hist @ [ts])"
| all_worker: "\<lbrakk>sharded_run opens h sw0 sw hist; k < length (wal_shards sw)\<rbrakk> \<Longrightarrow>
     sharded_run opens h sw0 (sw\<lparr>wal_shards := (wal_shards sw)[k := worker_step opens (wal_shards sw ! k)]\<rparr>) hist"
| all_stop: "\<lbrakk>sharded_run opens h sw0 sw hist; k < length (wal_shards sw)\<rbrakk> \<Longrightarrow>
     sharded_run opens h sw0 (sw\<lparr>wal_shards := (wal_shards sw)[k := shard_stop (wal_shards sw ! k)]\<rparr>) hist"

section \<open>Nothing is lost or reordered in a shard\<close>

definition batch_of :: "wal_shard \<Rightarrow> time_series list" where
  "batch_of s = (case worker s of Writing b \<Rightarrow> b | _ \<Rightarrow> [])"

definition pending :: "wal_shard \<Rightarrow> time_series list" where
  "pending s = batch_of s @ shard_queue s"

definition shard_inv :: "nat \<Rightarrow> wal_shard \<Rightarrow> time_series list \<Rightarrow> bool" where
  "shard_inv cap s hist \<longleftrightarrow> max_queue_size s = cap \<and> length (shard_queue s) \<le> cap
     \<and> (worker s = Ended \<longrightarrow> \<not> running s \<and> shard_queue s = [])
     \<and> (\<exists>segs. wal_inv (shard_wal s) segs \<and> hist = concat segs @ pending s)"

lemma wal_inv_flush: "wal_inv w segs \<Longrightarrow> wal_inv (wal_flush w) segs"
  by (simp add: wal_inv_def wal_flush_def)

lemma shard_inv_worker:
  assumes "shard_inv cap s hist" "length hist < 1000000" "\<forall>p. opens p"
  shows "shard_inv cap (worker_step opens s) hist"
proof -
  obtain segs where segs: "wal_inv (shard_wal s) segs" "hist = concat segs @ pending s"
    using assms(1) by (auto simp: shard_inv_def)
  show ?thesis
  proof (cases "worker s")
    case Waiting
    with assms(1) segs show ?thesis
      by (auto simp: shard_inv_def worker_step_def pending_def batch_of_def intro!: exI [of _ segs])
  next
    case (Writing b)
    show ?thesis
    proof (cases b)
      case Nil
      with Writing assms(1) segs show ?thesis
        by (auto simp: shard_inv_def worker_step_def pending_def batch_of_def intro!: exI [of _ segs] wal_inv_flush)
    next
      case (Cons ts rest)
      have "Suc (length (concat segs)) < 1000000"
        using assms(2) segs(2) Writing Cons by (simp add: pending_def batch_of_def)
      from wal_inv_log [OF segs(1) this assms(3), of ts False] obtain segs' w'
        where "wal_log opens ts False (shard_wal s) = (Inr (), w')" "wal_inv w' segs'" "concat segs' = concat segs @ [ts]"
        by blast
      with Writing Cons assms(1) segs(2) show ?thesis
        by (auto simp: shard_inv_def worker_step_def pending_def batch_of_def intro!: exI [of _ segs'])
    qed
  qed (use assms(1) in \<open>simp add: worker_step_def\<close>)
qed

lemma shard_run_inv:
  assumes "shard_run opens (mk_wal_shard cap w) s hist" "wal_inv w [[]]" "\<forall>p. opens p" "length hist < 1000000"
  shows "shard_inv cap s hist"
  using assms(1,4)
proof (induction rule: shard_run.induct)
  case run_start
  then show ?case using assms(2)
    by (auto simp: shard_inv_def mk_wal_shard_def pending_def batch_of_def intro!: exI [of _ "[[]]"])
next
  case (run_log s hist ts r s')
  then show ?case
    by (auto simp: shard_inv_def shard_log_def pending_def batch_of_def split: if_splits)
next
  case (run_worker s hist)
  then show ?case using shard_inv_worker assms(3) by blast
next
  case (run_stop s hist)
  then show ?case by (auto simp: shard_inv_def shard_stop_def pending_def batch_of_def)
qed

lemma shard_inv_replay:
  assumes "shard_inv cap s hist" "\<forall>ts \<in> set hist. loggable ts" "length hist < 1000000"
  shows "fst (shard_replay s) @ map logged (pending s) = map logged hist"
proof -
  obtain segs where segs: "wal_inv (shard_wal s) segs" "hist = concat segs @ pending s"
    using assms(1) by (auto simp: shard_inv_def)
  with assms(2,3) have "fst (wal_replay (shard_wal s)) = map logged (concat segs)"
    by (intro wal_inv_replay) auto
  with segs(2) show ?thesis by (auto simp: shard_replay_def split: prod.split)
qed

section \<open>The worker makes progress\<close>

text \<open>An upper bound on the worker steps left when nothing more is logged.\<close>

definition work_left :: "wal_shard \<Rightarrow> nat" where
  "work_left s = 3 * length (shard_queue s)
     + (case worker s of Waiting \<Rightarrow> 1 | Writing b \<Rightarrow> length b + 2 | Ended \<Rightarrow> 0)"

definition idle :: "wal_shard \<Rightarrow> bool" where
  "idle s \<longleftrightarrow> shard_queue s = [] \<and> (worker s = Ended \<or> worker s = Waiting \<and> running s)"

lemma drain_progress: "0 < l \<Longrightarrow> Suc (3 * (l - 1000) + min l 1000) < 3 * (l :: nat)"
  by (cases "l \<le> 1000") (simp, linarith)

lemma worker_step_progress: "\<lbrakk>\<not> idle s; worker s \<noteq> Ended\<rbrakk> \<Longrightarrow> work_left (worker_step opens s) < work_left s"
  using drain_progress [of "length (shard_queue s)"]
  by (auto simp: idle_def work_left_def worker_step_def batch_size_def split: worker_state.splits list.split)

lemma worker_step_idle: "idle s \<Longrightarrow> worker_step opens s = s"
  by (auto simp: idle_def worker_step_def)

lemma worker_step_running: "running (worker_step opens s) = running s"
  by (simp add: worker_step_def split: worker_state.split list.split)

lemma worker_reaches_idle:
  assumes "\<And>s. P s \<Longrightarrow> P (worker_step opens s)" "\<And>s. P s \<Longrightarrow> worker s = Ended \<Longrightarrow> idle s" "P s" "work_left s \<le> n"
  shows "idle ((worker_step opens ^^ n) s) \<and> P ((worker_step opens ^^ n) s)"
  using assms(3,4)
proof (induction n arbitrary: s)
  case 0
  then have "worker s = Ended" by (auto simp: work_left_def split: worker_state.splits)
  with assms(2) 0 show ?case by simp
next
  case (Suc n)
  show ?case
  proof (cases "idle s")
    case True
    then have "(worker_step opens ^^ k) s = s" for k by (induction k) (simp_all add: worker_step_idle)
    with True Suc.prems show ?thesis by metis
  next
    case False
    with Suc.prems assms(2) worker_step_progress [of s opens] have "work_left (worker_step opens s) \<le> n" by fastforce
    from Suc.IH [OF assms(1) [OF Suc.prems(1)] this] show ?thesis by (simp add: funpow_swap1)
  qed
qed

lemma shard_worker_drains:
  assumes "shard_inv cap s hist" "\<forall>p. opens p" "length hist < 1000000" "work_left s \<le> n"
  shows "idle ((worker_step opens ^^ n) s) \<and> shard_inv cap ((worker_step opens ^^ n) s) hist
    \<and> running ((worker_step opens ^^ n) s) = running s"
proof -
  have "idle ((worker_step opens ^^ n) s)
      \<and> (shard_inv cap ((worker_step opens ^^ n) s) hist \<and> running ((worker_step opens ^^ n) s) = running s)"
  proof (rule worker_reaches_idle)
    show "shard_inv cap (worker_step opens t) hist \<and> running (worker_step opens t) = running s"
      if "shard_inv cap t hist \<and> running t = running s" for t
      using that shard_inv_worker [OF _ assms(3,2)] worker_step_running by simp
    show "idle t" if "shard_inv cap t hist \<and> running t = running s" "worker t = Ended" for t
      using that by (simp add: shard_inv_def idle_def)
  qed (use assms in simp_all)
  then show ?thesis by blast
qed

lemma idle_pending: "idle s \<Longrightarrow> pending s = []"
  by (auto simp: idle_def pending_def batch_of_def)

lemma concat_one_slot: "K < n \<Longrightarrow> concat (map (\<lambda>k. if k = K then xs else []) [0..<n]) = xs"
  by (induction n) (auto simp: less_Suc_eq)

section \<open>Every shard runs on its own part of the history\<close>

lemma sharded_run_shards:
  assumes "sharded_run opens h sw0 sw hist"
  shows "length (wal_shards sw) = length (wal_shards sw0)
    \<and> (\<forall>k < length (wal_shards sw). shard_run opens (wal_shards sw0 ! k) (wal_shards sw ! k)
          (filter (\<lambda>ts. wal_shard_index h (length (wal_shards sw0)) ts = k) hist))"
  using assms
proof (induction rule: sharded_run.induct)
  case all_start
  show ?case by (auto intro: run_start)
next
  case (all_log sw hist ts r sw')
  let ?k = "wal_shard_index h (length (wal_shards sw)) ts"
  obtain s where log: "shard_log ts (wal_shards sw ! ?k) = Some (r, s)" "wal_shards sw' = (wal_shards sw)[?k := s]"
    using all_log.hyps(3) by (auto simp: sharded_log_def Let_def split: option.splits if_splits prod.splits)
  have step: "shard_run opens (wal_shards sw0 ! k) (wal_shards sw' ! k)
      (filter (\<lambda>ts. wal_shard_index h (length (wal_shards sw0)) ts = k) (hist @ [ts]))"
    if k: "k < length (wal_shards sw)" for k
  proof (cases "k = ?k")
    case True
    have "running (wal_shards sw ! k)" using all_log.hyps(2) k by (simp add: list_all_length)
    with all_log.IH k True log show ?thesis by (auto intro!: run_log)
  qed (use all_log.IH k log in auto)
  with all_log.IH log(2) show ?case by simp
next
  case (all_worker sw hist k)
  then show ?case by (auto simp: nth_list_update intro!: run_worker)
next
  case (all_stop sw hist k)
  then show ?case by (auto simp: nth_list_update intro!: run_stop)
qed

lemma mk_wal_shards_new:
  "\<lbrakk>mk_wal_shards opens base (\<lambda>_. []) is = Inr ss; \<forall>p. opens p\<rbrakk> \<Longrightarrow>
     length ss = length is \<and> (\<forall>s \<in> set ss. \<exists>w. s = mk_wal_shard 10000 w \<and> wal_inv w [[]])"
proof (induction "is" arbitrary: ss)
  case (Cons i "is")
  obtain w ss' where w: "mk_wal opens (shard_dir base i) [] = Inr w" "mk_wal_shards opens base (\<lambda>_. []) is = Inr ss'"
    "ss = mk_wal_shard 10000 w # ss'"
    using Cons.prems(1) by (auto split: sum.splits)
  from Cons.IH [OF w(2) Cons.prems(2)] wal_inv_new [OF Cons.prems(2) w(1)] show ?case
    unfolding w(3) by auto
qed simp

lemma sharded_run_inv:
  assumes "mk_sharded_wal opens base (\<lambda>_. []) n = Inr sw0" "\<forall>p. opens p" "sharded_run opens h sw0 sw hist"
    "length hist < 1000000" "k < n"
  shows "length (wal_shards sw) = n"
    "shard_inv 10000 (wal_shards sw ! k) (filter (\<lambda>ts. wal_shard_index h n ts = k) hist)"
proof -
  have sw0: "mk_wal_shards opens base (\<lambda>_. []) [0..<n] = Inr (wal_shards sw0)"
    using assms(1) by (cases "mk_wal_shards opens base (\<lambda>_. []) [0..<n]") (auto simp: mk_sharded_wal_def)
  note new = mk_wal_shards_new [OF this assms(2)]
  note run = sharded_run_shards [OF assms(3)]
  from new run show len: "length (wal_shards sw) = n" by simp
  obtain w where "wal_shards sw0 ! k = mk_wal_shard 10000 w" "wal_inv w [[]]"
    using new assms(5) by (metis diff_zero length_upt nth_mem)
  with run new assms(5) len show "shard_inv 10000 (wal_shards sw ! k) (filter (\<lambda>ts. wal_shard_index h n ts = k) hist)"
    by (intro shard_run_inv [OF _ _ assms(2)] le_less_trans [OF length_filter_le assms(4)]) auto
qed

section \<open>Properties\<close>

text \<open>
  The asynchronous log loses and reorders nothing: in every state that any interleaving of
  log calls and worker steps can reach, what replay of the shard's log delivers followed by what
  is still in the worker's batch and in the queue is exactly the logged series in their order,
  and the queue never exceeds its bound.
\<close>

theorem async_log_keeps_order:
  assumes "\<forall>p. opens p" "mk_wal opens dir [] = Inr w" "shard_run opens (mk_wal_shard cap w) s hist"
    "\<forall>ts \<in> set hist. loggable ts" "length hist < 1000000"
  shows "fst (shard_replay s) @ map logged (pending s) = map logged hist \<and> GetQueueSize s \<le> cap"
proof -
  have inv: "shard_inv cap s hist" by (rule shard_run_inv [OF assms(3) wal_inv_new [OF assms(1,2)] assms(1,5)])
  with shard_inv_replay [OF inv assms(4,5)] show ?thesis by (simp add: shard_inv_def GetQueueSize_def)
qed

definition example_shard :: wal_shard where
  "example_shard = mk_wal_shard 1 (projr (mk_wal (\<lambda>p. True) ''d'' []))"

lemma example_wal: "mk_wal (\<lambda>p. True) ''d'' [] = Inr (projr (mk_wal (\<lambda>p. True) ''d'' []))"
  by (simp add: mk_wal_def open_segment_def Let_def)

lemma example_run:
  "shard_run (\<lambda>p. True) example_shard (worker_step (\<lambda>p. True) (example_shard\<lparr>shard_queue := [example_entry]\<rparr>)) [example_entry]"
proof -
  have "shard_run (\<lambda>p. True) example_shard (example_shard\<lparr>shard_queue := [example_entry]\<rparr>) ([] @ [example_entry])"
    by (rule run_log [OF run_start]) (simp_all add: example_shard_def mk_wal_shard_def shard_log_def)
  then show ?thesis by (simp add: run_worker)
qed

theorem async_log_keeps_order_witness:
  "let s = worker_step (\<lambda>p. True) (example_shard\<lparr>shard_queue := [example_entry]\<rparr>)
   in fst (shard_replay s) @ map logged (pending s) = [example_entry] \<and> GetQueueSize s \<le> 1"
  using async_log_keeps_order [OF _ example_wal example_run [unfolded example_shard_def]]
  by (simp add: Let_def loggable_example logged_example example_shard_def)

text \<open>
  C32: Shutdown completes the log: once the destructor has told the worker to stop, the worker
  ends after at most \<open>work_left\<close> of its own steps, and the log then replays every series that was
  ever logged, in order.
\<close>

theorem shutdown_drains_queue:
  assumes "\<forall>p. opens p" "mk_wal opens dir [] = Inr w" "shard_run opens (mk_wal_shard cap w) s hist"
    "\<forall>ts \<in> set hist. loggable ts" "length hist < 1000000" "\<not> running s" "work_left s \<le> n"
  shows "worker ((worker_step opens ^^ n) s) = Ended
    \<and> fst (shard_replay ((worker_step opens ^^ n) s)) = map logged hist"
proof -
  have inv: "shard_inv cap s hist" by (rule shard_run_inv [OF assms(3) wal_inv_new [OF assms(1,2)] assms(1,5)])
  from shard_worker_drains [OF inv assms(1,5,7)] assms(6)
  have fin: "idle ((worker_step opens ^^ n) s)" "shard_inv cap ((worker_step opens ^^ n) s) hist"
    "\<not> running ((worker_step opens ^^ n) s)" by auto
  with shard_inv_replay [OF fin(2) assms(4,5)] idle_pending [OF fin(1)] show ?thesis by (simp add: idle_def)
qed

theorem shutdown_drains_queue_witness:
  "let s = (worker_step (\<lambda>p. True) ^^ 5)
       (shard_stop (worker_step (\<lambda>p. True) (example_shard\<lparr>shard_queue := [example_entry]\<rparr>)))
   in worker s = Ended \<and> fst (shard_replay s) = [example_entry]"
proof -
  let ?s = "shard_stop (worker_step (\<lambda>p. True) (example_shard\<lparr>shard_queue := [example_entry]\<rparr>))"
  have "work_left ?s \<le> 5" "\<not> running ?s"
    by (simp_all add: work_left_def shard_stop_def worker_step_def example_shard_def mk_wal_shard_def batch_size_def)
  with shutdown_drains_queue [OF _ example_wal run_stop [OF example_run [unfolded example_shard_def]], folded example_shard_def]
  show ?thesis by (simp add: Let_def loggable_example logged_example)
qed

text \<open>
  A caller blocked on a full queue is released: from every reachable state of a shard that is
  running, the worker's own steps bring the queue below its bound, so the next log call succeeds.
\<close>

theorem blocked_caller_released:
  assumes "\<forall>p. opens p" "mk_wal opens dir [] = Inr w" "shard_run opens (mk_wal_shard cap w) s hist"
    "length hist < 1000000" "0 < cap" "running s"
  shows "\<exists>n. shard_log ts ((worker_step opens ^^ n) s) \<noteq> None"
proof -
  have inv: "shard_inv cap s hist" by (rule shard_run_inv [OF assms(3) wal_inv_new [OF assms(1,2)] assms(1,4)])
  from shard_worker_drains [OF inv assms(1,4) order_refl] assms(5)
  have "shard_log ts ((worker_step opens ^^ work_left s) s) \<noteq> None"
    by (auto simp: shard_inv_def idle_def shard_log_def)
  then show ?thesis by blast
qed

theorem blocked_caller_released_witness:
  "shard_log example_entry (example_shard\<lparr>shard_queue := [example_entry]\<rparr>) = None
   \<and> (\<exists>n. shard_log example_entry ((worker_step (\<lambda>p. True) ^^ n) (example_shard\<lparr>shard_queue := [example_entry]\<rparr>)) \<noteq> None)"
proof -
  have run: "shard_run (\<lambda>p. True) example_shard (example_shard\<lparr>shard_queue := [example_entry]\<rparr>) ([] @ [example_entry])"
    by (rule run_log [OF run_start]) (simp_all add: example_shard_def mk_wal_shard_def shard_log_def)
  have "running (example_shard\<lparr>shard_queue := [example_entry]\<rparr>)" by (simp add: example_shard_def mk_wal_shard_def)
  with blocked_caller_released [OF _ example_wal run [unfolded example_shard_def], folded example_shard_def]
  show ?thesis by (simp add: shard_log_def example_shard_def mk_wal_shard_def)
qed

text \<open>
  C23: Across all shards nothing is lost and each label set keeps its order: after fewer than a million log calls in total, of series that can be
  logged (at most 1000 labels, none with an empty name, within the entry size limits), interleaved with the workers in any way, when every file could be
  opened and the workers are idle, replay of the sharded log delivers for any label set the
  entries with these labels once each, without the fields of samples, in the order they were logged, for every hash function. Nothing is said of the order of
  entries with different labels.
\<close>

theorem sharded_replay_per_series_order:
  assumes "0 < n" "\<forall>p. opens p" "mk_sharded_wal opens base (\<lambda>_. []) n = Inr sw0" "sharded_run opens h sw0 sw hist"
    "\<forall>ts \<in> set hist. loggable ts" "length hist < 1000000" "list_all idle (wal_shards sw)"
  shows "filter (\<lambda>ts. ts_labels ts = l) (fst (sharded_replay sw)) = filter (\<lambda>ts. ts_labels ts = l) (map logged hist)"
proof -
  let ?part = "\<lambda>k. filter (\<lambda>ts. wal_shard_index h n ts = k) hist"
  let ?sel = "filter (\<lambda>ts. ts_labels ts = l)"
  have len: "length (wal_shards sw) = n" using sharded_run_inv(1) [OF assms(3,2,4,6,1)] .
  have part: "fst (shard_replay (wal_shards sw ! k)) = map logged (?part k)" if k: "k < n" for k
  proof -
    have "length (?part k) < 1000000" by (rule le_less_trans [OF length_filter_le assms(6)])
    moreover have "\<forall>ts \<in> set (?part k). loggable ts" using assms(5) by simp
    ultimately have "fst (shard_replay (wal_shards sw ! k)) @ map logged (pending (wal_shards sw ! k)) = map logged (?part k)"
      by (intro shard_inv_replay [OF sharded_run_inv(2) [OF assms(3,2,4,6) k]])
    with assms(7) idle_pending k len show ?thesis by (simp add: list_all_length)
  qed
  define K where "K = unat (labels_hash h l) mod n"
  have K: "K < n" using assms(1) by (simp add: K_def)
  have labels: "ts_labels (logged ts) = ts_labels ts" for ts by (simp add: logged_def)
  have sel: "?sel (map logged (?part k)) = (if k = K then ?sel (map logged hist) else [])" for k
    by (auto simp: filter_map comp_def labels wal_shard_index_def K_def filter_empty_conv
        intro!: arg_cong [where f = "map logged"] filter_cong)
  have "map (\<lambda>s. fst (shard_replay s)) (wal_shards sw) = map (\<lambda>k. map logged (?part k)) [0..<n]"
    by (rule nth_equalityI) (simp_all add: len part)
  then have "?sel (fst (sharded_replay sw)) = concat (map (\<lambda>k. ?sel (map logged (?part k))) [0..<n])"
    by (simp add: sharded_replay_def filter_concat comp_def del: filter_filter)
  also have "\<dots> = concat (map (\<lambda>k. if k = K then ?sel (map logged hist) else []) [0..<n])" by (simp only: sel)
  also have "\<dots> = ?sel (map logged hist)" by (rule concat_one_slot [OF K])
  finally show ?thesis .
qed

lemma single_sharded_wal:
  "mk_wal_shards opens base (\<lambda>_. []) [0..<1] = Inr [s] \<Longrightarrow> mk_sharded_wal opens base (\<lambda>_. []) 1 =
     Inr \<lparr>wal_shards = [s], total_writes = 0, total_bytes = 0, total_errors = 0\<rparr>"
  by (simp add: mk_sharded_wal_def)

lemma run_three_worker_steps:
  assumes "sharded_run opens h sw0 sw hist" "wal_shards sw = [s]"
  shows "sharded_run opens h sw0 (sw\<lparr>wal_shards := [worker_step opens (worker_step opens (worker_step opens s))]\<rparr>) hist"
proof -
  have step: "sharded_run opens h sw0 (sw\<lparr>wal_shards := [worker_step opens t]\<rparr>) hist"
    if "sharded_run opens h sw0 (sw\<lparr>wal_shards := [t]\<rparr>) hist" for t
    using all_worker [OF that, of 0] by simp
  have "sw\<lparr>wal_shards := [s]\<rparr> = sw" by (simp flip: assms(2))
  with assms(1) step show ?thesis by metis
qed

theorem sharded_replay_per_series_order_witness:
  "\<exists>sw0 sw. mk_sharded_wal (\<lambda>p. True) ''w'' (\<lambda>_. []) 1 = Inr sw0 \<and> sharded_run (\<lambda>p. True) (\<lambda>s. 0) sw0 sw [example_entry]
     \<and> filter (\<lambda>ts. ts_labels ts = [(''job'', ''a'')]) (fst (sharded_replay sw)) = [example_entry]"
proof -
  let ?opens = "\<lambda>p::string. True" and ?step = "worker_step (\<lambda>p. True)"
  obtain w where w: "mk_wal ?opens (shard_dir ''w'' 0) [] = Inr w"
    by (simp add: mk_wal_def open_segment_def Let_def)
  let ?fresh = "mk_wal_shard 10000 w"
  let ?init = "\<lparr>wal_shards = [?fresh], total_writes = 0, total_bytes = 0, total_errors = 0\<rparr>"
  let ?filled = "?fresh\<lparr>shard_queue := [example_entry]\<rparr>"
  let ?fin = "\<lparr>wal_shards = [?step (?step (?step ?filled))], total_writes = 1, total_bytes = 0, total_errors = 0\<rparr>"
  have new: "mk_sharded_wal ?opens ''w'' (\<lambda>_. []) 1 = Inr ?init" 
    by (rule single_sharded_wal) (use w in simp)
  have "sharded_run ?opens (\<lambda>s. 0) ?init (?init\<lparr>wal_shards := [?filled], total_writes := 1\<rparr>) ([] @ [example_entry])"
    by (rule all_log [OF all_start])
      (simp_all add: sharded_log_def wal_shard_index_def shard_log_def mk_wal_shard_def)
  from run_three_worker_steps [OF this] have run: "sharded_run ?opens (\<lambda>s. 0) ?init ?fin [example_entry]" by simp
  have "list_all idle (wal_shards ?fin)"
    by (simp add: idle_def worker_step_def mk_wal_shard_def batch_size_def)
  with sharded_replay_per_series_order [OF _ _ new run, of "[(''job'', ''a'')]"]
  have "filter (\<lambda>ts. ts_labels ts = [(''job'', ''a'')]) (fst (sharded_replay ?fin)) = [example_entry]"
    by (simp add: loggable_example logged_example) (simp add: example_entry_def)
  with new run show ?thesis by blast
qed

text \<open>
  \<open>flush\<close> can return before anything is durable: a state is reachable in which the queue is
  empty, so \<open>flush\<close> returns, while the logged series is still in the worker's batch and replay of
  the log delivers nothing.
\<close>

theorem flush_returns_before_write:
  "\<exists>s hist. shard_run (\<lambda>p. True) example_shard s hist \<and> hist = [example_entry]
     \<and> shard_flush_returns s \<and> fst (shard_replay s) = []"
proof -
  let ?s = "worker_step (\<lambda>p. True) (example_shard\<lparr>shard_queue := [example_entry]\<rparr>)"
  have "shard_inv 1 ?s [example_entry]"
    using shard_run_inv [OF example_run [unfolded example_shard_def] wal_inv_new [OF _ example_wal]]
    by (simp add: example_shard_def)
  from shard_inv_replay [OF this] have "length (fst (shard_replay ?s) @ map logged (pending ?s)) = 1"
    by (simp add: loggable_example)
  then have "shard_flush_returns ?s" "fst (shard_replay ?s) = []"
    by (simp_all add: shard_flush_returns_def worker_step_def example_shard_def mk_wal_shard_def pending_def
        batch_of_def batch_size_def)
  with example_run show ?thesis by blast
qed

end
