(* ===== verification/Series_Index.thy ===== *)
theory Series_Index
  imports Core_Types
begin

text \<open>
  The inverted index (\<open>src/tsdb/storage/index.cpp\<close>): a forward map from series to labels and a
  posting list per label pair. The code has two representations of a posting list, sorted
  vectors and Roaring bitmaps (a library), and a second query plan that is compiled only with
  Roaring; the representation is therefore a record of operations with the contract of the
  locales \<open>posting_list\<close> and \<open>roaring_list\<close>, and the sorted vectors of the code interpret the
  first. \<open>std::regex\<close> is a parameter: a pattern is invalid (\<open>None\<close>) or a predicate on strings.
  The maps are kept in key order, as in the \<open>std::map\<close> configuration of the header; statements
  about query results are about their sets of ids.
\<close>

section \<open>Posting lists\<close>

type_synonym series_id = uint64

record 'p posting_ops =
  pl_empty :: 'p
  pl_add :: "series_id \<Rightarrow> 'p \<Rightarrow> 'p"
  pl_remove :: "series_id \<Rightarrow> 'p \<Rightarrow> 'p"
  pl_is_empty :: "'p \<Rightarrow> bool"
  pl_inter :: "'p \<Rightarrow> 'p \<Rightarrow> 'p"
  pl_of_ids :: "series_id list \<Rightarrow> 'p"
  pl_to_vector :: "'p \<Rightarrow> series_id list"

record 'p roaring_ops = "'p posting_ops" +
  pl_union :: "'p \<Rightarrow> 'p \<Rightarrow> 'p"
  pl_diff :: "'p \<Rightarrow> 'p \<Rightarrow> 'p"

text \<open>Sorted vectors: insertion at the lower bound, \<open>std::remove\<close>, \<open>std::set_intersection\<close>.\<close>

definition vec_add :: "series_id \<Rightarrow> series_id list \<Rightarrow> series_id list" where
  "vec_add i pl =
     (let below = takeWhile (\<lambda>x. x < i) pl; from_pos = dropWhile (\<lambda>x. x < i) pl
      in if from_pos = [] \<or> hd from_pos \<noteq> i then below @ i # from_pos else pl)"

definition vec_remove :: "series_id \<Rightarrow> series_id list \<Rightarrow> series_id list" where
  "vec_remove i pl = filter (\<lambda>x. x \<noteq> i) pl"

fun set_intersection :: "'a::linorder list \<Rightarrow> 'a list \<Rightarrow> 'a list" where
  "set_intersection [] b = []"
| "set_intersection a [] = []"
| "set_intersection (x # a) (y # b) =
     (if x < y then set_intersection a (y # b)
      else if y < x then set_intersection (x # a) b
      else x # set_intersection a b)"

definition vector_ops :: "series_id list posting_ops" where
  "vector_ops = \<lparr>pl_empty = [], pl_add = vec_add, pl_remove = vec_remove,
     pl_is_empty = (\<lambda>pl. pl = []), pl_inter = set_intersection, pl_of_ids = (\<lambda>ids. ids),
     pl_to_vector = (\<lambda>pl. pl)\<rparr>"

section \<open>State and updates\<close>

record 'p index =
  postings :: "((string \<times> string) \<times> 'p) list"
  series_labels :: "(series_id \<times> labels) list"

definition empty_index :: "'p index" where
  "empty_index = \<lparr>postings = [], series_labels = []\<rparr>"

definition posting_at :: "('p, 'x) posting_ops_scheme \<Rightarrow> 'p index \<Rightarrow> string \<times> string \<Rightarrow> 'p" where
  "posting_at ops ix kv = (case map_of (postings ix) kv of None \<Rightarrow> pl_empty ops | Some pl \<Rightarrow> pl)"

definition add_posting ::
  "('p, 'x) posting_ops_scheme \<Rightarrow> series_id \<Rightarrow> 'p index \<Rightarrow> string \<times> string \<Rightarrow> 'p index" where
  "add_posting ops i ix kv =
     ix\<lparr>postings := smap_insert kv (pl_add ops i (posting_at ops ix kv)) (postings ix)\<rparr>"

definition add_series ::
  "('p, 'x) posting_ops_scheme \<Rightarrow> series_id \<Rightarrow> labels \<Rightarrow> 'p index \<Rightarrow> 'p index" where
  "add_series ops i l ix =
     foldl (add_posting ops i) (ix\<lparr>series_labels := smap_insert i l (series_labels ix)\<rparr>) l"

definition remove_posting ::
  "('p, 'x) posting_ops_scheme \<Rightarrow> series_id \<Rightarrow> 'p index \<Rightarrow> string \<times> string \<Rightarrow> 'p index" where
  "remove_posting ops i ix kv =
     (case map_of (postings ix) kv of
        None \<Rightarrow> ix
      | Some pl \<Rightarrow>
          let pl' = pl_remove ops i pl
          in if pl_is_empty ops pl' then ix\<lparr>postings := smap_erase kv (postings ix)\<rparr>
             else ix\<lparr>postings := smap_insert kv pl' (postings ix)\<rparr>)"

definition remove_series ::
  "('p, 'x) posting_ops_scheme \<Rightarrow> series_id \<Rightarrow> 'p index \<Rightarrow> 'p index" where
  "remove_series ops i ix =
     (case map_of (series_labels ix) i of
        None \<Rightarrow> ix
      | Some l \<Rightarrow>
          let ix' = foldl (remove_posting ops i) ix l
          in ix'\<lparr>series_labels := smap_erase i (series_labels ix')\<rparr>)"

section \<open>Matchers\<close>

datatype matcher_type = Equal | NotEqual | RegexMatch | RegexNoMatch

record label_matcher =
  m_type :: matcher_type
  m_name :: string
  m_value :: string

type_synonym regex_lib = "string \<Rightarrow> (string \<Rightarrow> bool) option"

record compiled_matcher = label_matcher +
  m_regex :: "(string \<Rightarrow> bool) option"
  handled_by_set_algebra :: bool

definition compile_matcher :: "regex_lib \<Rightarrow> label_matcher \<Rightarrow> compiled_matcher" where
  "compile_matcher re m =
     \<lparr>m_type = m_type m, m_name = m_name m, m_value = m_value m,
      m_regex = (if m_type m = RegexMatch \<or> m_type m = RegexNoMatch then re (m_value m) else None),
      handled_by_set_algebra = False\<rparr>"

section \<open>Queries\<close>

text \<open>
  The equality matchers with a value, by intersection. The outer \<open>None\<close> is the early return of
  an empty result, the inner one means that no such matcher was seen.
\<close>

fun equality_candidates ::
  "('p, 'x) posting_ops_scheme \<Rightarrow> 'p index \<Rightarrow> compiled_matcher list \<Rightarrow> 'p option \<Rightarrow> 'p option option" where
  "equality_candidates ops ix [] cand = Some cand"
| "equality_candidates ops ix (m # ms) cand =
     (if m_type m = Equal \<and> m_value m \<noteq> [] then
        (case map_of (postings ix) (m_name m, m_value m) of
           None \<Rightarrow> None
         | Some pl \<Rightarrow>
             let cand' = (case cand of None \<Rightarrow> pl | Some c \<Rightarrow> pl_inter ops c pl)
             in if pl_is_empty ops cand' then None
                else equality_candidates ops ix ms (Some cand'))
      else equality_candidates ops ix ms cand)"

text \<open>The check of one remaining matcher against the labels of a candidate; \<open>roaring\<close> tells
  whether the set-algebra step was compiled in.\<close>

definition matcher_passes :: "bool \<Rightarrow> labels \<Rightarrow> compiled_matcher \<Rightarrow> bool" where
  "matcher_passes roaring l m =
     (if m_type m = Equal \<and> m_value m \<noteq> [] then True
      else if roaring \<and> handled_by_set_algebra m
          \<and> (m_type m = NotEqual \<or> m_type m = RegexNoMatch) then True
      else
        let v = (case labels_get l (m_name m) of None \<Rightarrow> [] | Some v \<Rightarrow> v) in
        case m_type m of
          Equal \<Rightarrow> v = m_value m
        | NotEqual \<Rightarrow> v \<noteq> m_value m
        | RegexMatch \<Rightarrow> (case m_regex m of None \<Rightarrow> False | Some f \<Rightarrow> f v)
        | RegexNoMatch \<Rightarrow> (case m_regex m of None \<Rightarrow> True | Some f \<Rightarrow> \<not> f v))"

definition filter_candidates ::
  "bool \<Rightarrow> 'p index \<Rightarrow> compiled_matcher list \<Rightarrow> series_id list \<Rightarrow> series_id list" where
  "filter_candidates roaring ix ms ids =
     filter (\<lambda>i. case map_of (series_labels ix) i of
         None \<Rightarrow> False
       | Some l \<Rightarrow> list_all (matcher_passes roaring l) ms) ids"

definition initial_candidates ::
  "('p, 'x) posting_ops_scheme \<Rightarrow> 'p index \<Rightarrow> 'p option \<Rightarrow> 'p" where
  "initial_candidates ops ix cand =
     (case cand of Some c \<Rightarrow> c | None \<Rightarrow> pl_of_ids ops (map fst (series_labels ix)))"

text \<open>\<open>find_series\<close> without Roaring.\<close>

definition find_series ::
  "('p, 'x) posting_ops_scheme \<Rightarrow> regex_lib \<Rightarrow> label_matcher list \<Rightarrow> 'p index \<Rightarrow> series_id list" where
  "find_series ops re matchers ix =
     (let ms = map (compile_matcher re) matchers in
      case equality_candidates ops ix ms None of
        None \<Rightarrow> []
      | Some cand \<Rightarrow>
          filter_candidates False ix ms (pl_to_vector ops (initial_candidates ops ix cand)))"

text \<open>The set-algebra step, compiled only with Roaring.\<close>

definition union_for_label_key :: "'p roaring_ops \<Rightarrow> 'p index \<Rightarrow> string \<Rightarrow> 'p" where
  "union_for_label_key ops ix key =
     foldl (\<lambda>u (kv, pl). if fst kv = key then pl_union ops u pl else u) (pl_empty ops) (postings ix)"

definition union_for_matching_values ::
  "'p roaring_ops \<Rightarrow> 'p index \<Rightarrow> string \<Rightarrow> (string \<Rightarrow> bool) \<Rightarrow> 'p" where
  "union_for_matching_values ops ix key f =
     foldl (\<lambda>u (kv, pl). if fst kv \<noteq> key then u else if f (snd kv) then pl_union ops u pl else u)
       (pl_empty ops) (postings ix)"

definition subtract_pair :: "'p roaring_ops \<Rightarrow> 'p index \<Rightarrow> string \<times> string \<Rightarrow> 'p \<Rightarrow> 'p" where
  "subtract_pair ops ix kv c =
     (case map_of (postings ix) kv of None \<Rightarrow> c | Some pl \<Rightarrow> pl_diff ops c pl)"

definition negative_step ::
  "'p roaring_ops \<Rightarrow> 'p index \<Rightarrow> compiled_matcher \<Rightarrow> 'p \<Rightarrow> 'p \<times> compiled_matcher" where
  "negative_step ops ix m c =
     (case m_type m of
        NotEqual \<Rightarrow>
          if m_value m \<noteq> [] then
            (subtract_pair ops ix (m_name m, m_value m) c, m\<lparr>handled_by_set_algebra := True\<rparr>)
          else
            (subtract_pair ops ix (m_name m, [])
               (pl_inter ops c (union_for_label_key ops ix (m_name m))),
             m\<lparr>handled_by_set_algebra := True\<rparr>)
      | RegexNoMatch \<Rightarrow>
          (case m_regex m of
             None \<Rightarrow> (c, m)
           | Some f \<Rightarrow>
               let c1 = pl_diff ops c (union_for_matching_values ops ix (m_name m) f);
                   c2 = (if f [] then pl_inter ops c1 (union_for_label_key ops ix (m_name m)) else c1)
               in (c2, m\<lparr>handled_by_set_algebra := True\<rparr>))
      | Equal \<Rightarrow> (c, m)
      | RegexMatch \<Rightarrow> (c, m))"

fun negative_matchers ::
  "'p roaring_ops \<Rightarrow> 'p index \<Rightarrow> compiled_matcher list \<Rightarrow> 'p \<Rightarrow> 'p \<times> compiled_matcher list" where
  "negative_matchers ops ix [] c = (c, [])"
| "negative_matchers ops ix (m # ms) c =
     (let (c', m') = negative_step ops ix m c; (c'', ms') = negative_matchers ops ix ms c'
      in (c'', m' # ms'))"

definition find_series_roaring ::
  "'p roaring_ops \<Rightarrow> regex_lib \<Rightarrow> label_matcher list \<Rightarrow> 'p index \<Rightarrow> series_id list" where
  "find_series_roaring ops re matchers ix =
     (let ms = map (compile_matcher re) matchers in
      case equality_candidates ops ix ms None of
        None \<Rightarrow> []
      | Some cand \<Rightarrow>
          let (c, ms') = negative_matchers ops ix ms (initial_candidates ops ix cand)
          in filter_candidates True ix ms' (pl_to_vector ops c))"

definition get_labels :: "series_id \<Rightarrow> 'p index \<Rightarrow> labels result" where
  "get_labels i ix =
     (case map_of (series_labels ix) i of None \<Rightarrow> Inl ''Series not found'' | Some l \<Rightarrow> Inr l)"

text \<open>\<open>find_series_with_labels\<close>: the ids of a query with their labels.\<close>

definition with_labels :: "'p index \<Rightarrow> series_id list \<Rightarrow> (series_id \<times> labels) list" where
  "with_labels ix ids =
     List.map_filter (\<lambda>i. map_option (Pair i) (map_of (series_labels ix) i)) ids"

definition find_series_with_labels ::
  "('p, 'x) posting_ops_scheme \<Rightarrow> regex_lib \<Rightarrow> label_matcher list \<Rightarrow> 'p index \<Rightarrow>
     (series_id \<times> labels) list" where
  "find_series_with_labels ops re matchers ix = with_labels ix (find_series ops re matchers ix)"

definition index_num_series :: "'p index \<Rightarrow> nat" where
  "index_num_series ix = length (series_labels ix)"

definition num_posting_lists :: "'p index \<Rightarrow> nat" where
  "num_posting_lists ix = length (postings ix)"

definition memory_usage_bytes :: "series_id list index \<Rightarrow> nat" where
  "memory_usage_bytes ix =
     sum_list (map (\<lambda>(kv, pl). length (fst kv) + length (snd kv) + length pl * 8) (postings ix))
     + sum_list (map (\<lambda>(i, l). 8 + sum_list (map (\<lambda>(k, v). length k + length v) l)) (series_labels ix))"

section \<open>Specification\<close>

text \<open>What a matcher means: an absent label counts as the empty string; an invalid pattern
  matches nothing.\<close>

definition matches :: "regex_lib \<Rightarrow> labels \<Rightarrow> label_matcher \<Rightarrow> bool" where
  "matches re l m =
     (let v = (case labels_get l (m_name m) of None \<Rightarrow> [] | Some v \<Rightarrow> v);
          pat = (case re (m_value m) of None \<Rightarrow> (\<lambda>s. False) | Some f \<Rightarrow> f)
      in case m_type m of
           Equal \<Rightarrow> v = m_value m
         | NotEqual \<Rightarrow> v \<noteq> m_value m
         | RegexMatch \<Rightarrow> pat v
         | RegexNoMatch \<Rightarrow> \<not> pat v)"

definition selected :: "regex_lib \<Rightarrow> label_matcher list \<Rightarrow> 'p index \<Rightarrow> series_id set" where
  "selected re matchers ix =
     {i. \<exists>l. map_of (series_labels ix) i = Some l \<and> list_all (matches re l) matchers}"

text \<open>The invariant that ties the posting lists to the forward map.\<close>

definition posting_set :: "('p \<Rightarrow> series_id set) \<Rightarrow> 'p index \<Rightarrow> string \<times> string \<Rightarrow> series_id set" where
  "posting_set pl_set ix kv = (case map_of (postings ix) kv of None \<Rightarrow> {} | Some pl \<Rightarrow> pl_set pl)"

definition index_ok :: "('p \<Rightarrow> series_id set) \<Rightarrow> ('p \<Rightarrow> bool) \<Rightarrow> 'p index \<Rightarrow> bool" where
  "index_ok pl_set pl_ok ix \<longleftrightarrow> smap_ok (postings ix) \<and> smap_ok (series_labels ix)
     \<and> (\<forall>i l. map_of (series_labels ix) i = Some l \<longrightarrow> smap_ok l)
     \<and> (\<forall>kv pl. map_of (postings ix) kv = Some pl \<longrightarrow> pl_ok pl)
     \<and> (\<forall>k v i. i \<in> posting_set pl_set ix (k, v) \<longleftrightarrow>
           (\<exists>l. map_of (series_labels ix) i = Some l \<and> map_of l k = Some v))"

section \<open>The contract of a posting list\<close>

locale posting_list =
  fixes ops :: "('p, 'x) posting_ops_scheme"
    and pl_set :: "'p \<Rightarrow> series_id set"
    and pl_ok :: "'p \<Rightarrow> bool"
  assumes empty: "pl_ok (pl_empty ops)" "pl_set (pl_empty ops) = {}"
    and add: "pl_ok p \<Longrightarrow> pl_ok (pl_add ops i p)" "pl_ok p \<Longrightarrow> pl_set (pl_add ops i p) = insert i (pl_set p)"
    and remove: "pl_ok p \<Longrightarrow> pl_ok (pl_remove ops i p)"
      "pl_ok p \<Longrightarrow> pl_set (pl_remove ops i p) = pl_set p - {i}"
    and is_empty: "pl_ok p \<Longrightarrow> pl_is_empty ops p \<longleftrightarrow> pl_set p = {}"
    and inter: "\<lbrakk>pl_ok p; pl_ok q\<rbrakk> \<Longrightarrow> pl_ok (pl_inter ops p q)"
      "\<lbrakk>pl_ok p; pl_ok q\<rbrakk> \<Longrightarrow> pl_set (pl_inter ops p q) = pl_set p \<inter> pl_set q"
    and of_ids: "sorted_wrt (<) ids \<Longrightarrow> pl_ok (pl_of_ids ops ids)"
      "sorted_wrt (<) ids \<Longrightarrow> pl_set (pl_of_ids ops ids) = set ids"
    and to_vector: "pl_ok p \<Longrightarrow> set (pl_to_vector ops p) = pl_set p"
      "pl_ok p \<Longrightarrow> distinct (pl_to_vector ops p)"
begin

lemma posting_set_add_posting:
  assumes "\<forall>kv pl. map_of (postings ix) kv = Some pl \<longrightarrow> pl_ok pl"
  shows "posting_set pl_set (add_posting ops i ix kv) kv'
      = posting_set pl_set ix kv' \<union> (if kv' = kv then {i} else {})"
    and "\<forall>kv' pl. map_of (postings (add_posting ops i ix kv)) kv' = Some pl \<longrightarrow> pl_ok pl"
    and "series_labels (add_posting ops i ix kv) = series_labels ix"
    and "smap_ok (postings ix) \<Longrightarrow> smap_ok (postings (add_posting ops i ix kv))"
  using assms empty add
  by (auto simp: posting_set_def add_posting_def posting_at_def smap_simps split: option.splits
      simp del: split_paired_All)

lemma posting_set_add_postings:
  assumes "\<forall>kv pl. map_of (postings ix) kv = Some pl \<longrightarrow> pl_ok pl"
  shows "posting_set pl_set (foldl (add_posting ops i) ix l) kv
      = posting_set pl_set ix kv \<union> (if kv \<in> set l then {i} else {})
    \<and> (\<forall>kv' pl. map_of (postings (foldl (add_posting ops i) ix l)) kv' = Some pl \<longrightarrow> pl_ok pl)
    \<and> series_labels (foldl (add_posting ops i) ix l) = series_labels ix
    \<and> (smap_ok (postings ix) \<longrightarrow> smap_ok (postings (foldl (add_posting ops i) ix l)))"
  using assms
proof (induction l arbitrary: ix)
  case (Cons e l)
  note step = posting_set_add_posting [OF Cons.prems, of i e]
  show ?case using Cons.IH [OF step(2)] step(1,3,4) by auto
qed simp

lemma index_ok_add_series:
  assumes ok: "index_ok pl_set pl_ok ix" and "map_of (series_labels ix) i = None" "smap_ok l"
  shows "index_ok pl_set pl_ok (add_series ops i l ix)"
proof -
  let ?ix = "ix\<lparr>series_labels := smap_insert i l (series_labels ix)\<rparr>"
  have pok: "\<forall>kv pl. map_of (postings ?ix) kv = Some pl \<longrightarrow> pl_ok pl"
    using ok by (simp add: index_ok_def)
  note fold = posting_set_add_postings [OF pok, of i l]
  have lkp: "(k, v) \<in> set l \<longleftrightarrow> map_of l k = Some v" for k v
    using smap_ok_distinct [OF assms(3)] by simp
  have old: "i' \<in> posting_set pl_set ix (k, v) \<longleftrightarrow>
      (\<exists>l. map_of (series_labels ix) i' = Some l \<and> map_of l k = Some v)" for i' k v
    using ok by (simp add: index_ok_def)
  have "posting_set pl_set ?ix = posting_set pl_set ix" by (simp add: posting_set_def fun_eq_iff)
  then have "i' \<in> posting_set pl_set (add_series ops i l ix) (k, v) \<longleftrightarrow>
      (\<exists>l'. map_of (series_labels (add_series ops i l ix)) i' = Some l' \<and> map_of l' k = Some v)" for i' k v
    using fold old [of i' k v] lkp [of k v] assms(2)
    by (auto simp: add_series_def smap_simps)
  then show ?thesis
    using fold ok assms(3) by (auto simp: index_ok_def add_series_def smap_simps)
qed

lemma posting_set_remove_posting:
  assumes "\<forall>kv pl. map_of (postings ix) kv = Some pl \<longrightarrow> pl_ok pl"
  shows "posting_set pl_set (remove_posting ops i ix kv) kv'
      = posting_set pl_set ix kv' - (if kv' = kv then {i} else {})"
    and "\<forall>kv' pl. map_of (postings (remove_posting ops i ix kv)) kv' = Some pl \<longrightarrow> pl_ok pl"
    and "series_labels (remove_posting ops i ix kv) = series_labels ix"
    and "smap_ok (postings ix) \<Longrightarrow> smap_ok (postings (remove_posting ops i ix kv))"
  using assms remove is_empty
  by (auto simp: posting_set_def remove_posting_def smap_simps Let_def split: option.splits if_splits
      simp del: split_paired_All)

lemma posting_set_remove_postings:
  assumes "\<forall>kv pl. map_of (postings ix) kv = Some pl \<longrightarrow> pl_ok pl"
  shows "posting_set pl_set (foldl (remove_posting ops i) ix l) kv
      = posting_set pl_set ix kv - (if kv \<in> set l then {i} else {})
    \<and> (\<forall>kv' pl. map_of (postings (foldl (remove_posting ops i) ix l)) kv' = Some pl \<longrightarrow> pl_ok pl)
    \<and> series_labels (foldl (remove_posting ops i) ix l) = series_labels ix
    \<and> (smap_ok (postings ix) \<longrightarrow> smap_ok (postings (foldl (remove_posting ops i) ix l)))"
  using assms
proof (induction l arbitrary: ix)
  case (Cons e l)
  note step = posting_set_remove_posting [OF Cons.prems, of i e]
  show ?case using Cons.IH [OF step(2)] step(1,3,4) by auto
qed simp

lemma index_ok_remove_series:
  assumes ok: "index_ok pl_set pl_ok ix"
  shows "index_ok pl_set pl_ok (remove_series ops i ix)"
proof (cases "map_of (series_labels ix) i")
  case None
  then show ?thesis using ok by (simp add: remove_series_def)
next
  case (Some l)
  have "\<forall>kv pl. map_of (postings ix) kv = Some pl \<longrightarrow> pl_ok pl" and l: "smap_ok l"
    using ok Some by (auto simp: index_ok_def)
  note fold = posting_set_remove_postings [OF this(1), of i l]
  have lkp: "(k, v) \<in> set l \<longleftrightarrow> map_of l k = Some v" for k v
    using smap_ok_distinct [OF l] by simp
  have old: "i' \<in> posting_set pl_set ix (k, v) \<longleftrightarrow>
      (\<exists>l. map_of (series_labels ix) i' = Some l \<and> map_of l k = Some v)" for i' k v
    using ok by (simp add: index_ok_def)
  have pset: "posting_set pl_set (remove_series ops i ix) kv
      = posting_set pl_set (foldl (remove_posting ops i) ix l) kv" for kv
    using Some by (simp add: remove_series_def Let_def posting_set_def)
  have "i' \<in> posting_set pl_set (remove_series ops i ix) (k, v) \<longleftrightarrow>
      (\<exists>l'. map_of (series_labels (remove_series ops i ix)) i' = Some l' \<and> map_of l' k = Some v)" for i' k v
    unfolding pset using fold old [of i' k v] lkp [of k v] Some
    by (auto simp: remove_series_def Let_def smap_simps)
  then show ?thesis
    using fold ok Some by (auto simp: index_ok_def remove_series_def Let_def smap_simps)
qed

text \<open>Queries: the candidate step, the filter, and their combination.\<close>

definition cand_set :: "'p option \<Rightarrow> series_id set" where
  "cand_set cand = (case cand of None \<Rightarrow> UNIV | Some c \<Rightarrow> pl_set c)"

definition cand_ok :: "'p option \<Rightarrow> bool" where
  "cand_ok cand = (case cand of None \<Rightarrow> True | Some c \<Rightarrow> pl_ok c)"

definition equality_set :: "'p index \<Rightarrow> compiled_matcher list \<Rightarrow> series_id set" where
  "equality_set ix ms = {i. \<forall>m \<in> set ms. m_type m = Equal \<and> m_value m \<noteq> [] \<longrightarrow>
     i \<in> posting_set pl_set ix (m_name m, m_value m)}"

lemma equality_set_simps [simp]:
  "equality_set ix [] = UNIV"
  "equality_set ix (m # ms) = (if m_type m = Equal \<and> m_value m \<noteq> []
     then posting_set pl_set ix (m_name m, m_value m) \<inter> equality_set ix ms else equality_set ix ms)"
  by (auto simp: equality_set_def)

lemma equality_candidates_set:
  assumes "index_ok pl_set pl_ok ix" "cand_ok cand"
  shows "case equality_candidates ops ix ms cand of
      None \<Rightarrow> cand_set cand \<inter> equality_set ix ms = {}
    | Some cand' \<Rightarrow> cand_ok cand' \<and> cand_set cand' = cand_set cand \<inter> equality_set ix ms"
  using assms(2)
proof (induction ms arbitrary: cand)
  case (Cons m ms)
  show ?case
  proof (cases "m_type m = Equal \<and> m_value m \<noteq> []")
    case False
    then show ?thesis
      using Cons.IH [OF Cons.prems]
      by (simp only: equality_candidates.simps equality_set_simps False if_False)
  next
    case True
    let ?kv = "(m_name m, m_value m)"
    show ?thesis
    proof (cases "map_of (postings ix) ?kv")
      case None
      then show ?thesis using True by (simp add: posting_set_def)
    next
      case (Some pl)
      let ?c = "case cand of None \<Rightarrow> pl | Some c \<Rightarrow> pl_inter ops c pl"
      have pl: "pl_ok pl" "posting_set pl_set ix ?kv = pl_set pl"
        using assms(1) Some by (auto simp: index_ok_def posting_set_def)
      then have c: "pl_ok ?c" "pl_set ?c = cand_set cand \<inter> pl_set pl"
        using Cons.prems inter by (auto simp: cand_ok_def cand_set_def split: option.splits)
      have "cand_ok (Some ?c)" using c(1) by (simp add: cand_ok_def)
      from Cons.IH [OF this] show ?thesis
        using True Some is_empty [OF c(1)] c(2) pl(2)
        by (auto simp: Let_def cand_set_def [of "Some ?c"] split: option.splits)
    qed
  qed
qed (simp add: cand_set_def)

lemma initial_candidates_ok:
  assumes "index_ok pl_set pl_ok ix" "cand_ok cand"
  shows "pl_ok (initial_candidates ops ix cand)"
    and "map_of (series_labels ix) i = Some l \<Longrightarrow>
      i \<in> pl_set (initial_candidates ops ix cand) \<longleftrightarrow> i \<in> cand_set cand"
proof -
  have "sorted_wrt (<) (map fst (series_labels ix))"
    using assms(1) by (simp add: index_ok_def smap_ok_def)
  note ids = of_ids [OF this]
  show "pl_ok (initial_candidates ops ix cand)"
    using assms(2) ids(1) by (auto simp: initial_candidates_def cand_ok_def split: option.splits)
  show "map_of (series_labels ix) i = Some l \<Longrightarrow>
      i \<in> pl_set (initial_candidates ops ix cand) \<longleftrightarrow> i \<in> cand_set cand"
    using ids(2) by (force simp: initial_candidates_def cand_set_def dest: map_of_SomeD split: option.splits)
qed

lemma equality_set_iff:
  assumes "index_ok pl_set pl_ok ix" "map_of (series_labels ix) i = Some l"
  shows "i \<in> equality_set ix (map (compile_matcher re) ms) \<and>
      list_all (matcher_passes False l) (map (compile_matcher re) ms) \<longleftrightarrow> list_all (matches re l) ms"
proof (induction ms)
  case (Cons m ms)
  have post: "i \<in> posting_set pl_set ix (m_name m, m_value m) \<longleftrightarrow> map_of l (m_name m) = Some (m_value m)"
    using assms by (auto simp: index_ok_def)
  have "(m_type m = Equal \<and> m_value m \<noteq> [] \<longrightarrow> i \<in> posting_set pl_set ix (m_name m, m_value m))
      \<and> matcher_passes False l (compile_matcher re m) \<longleftrightarrow> matches re l m"
    unfolding post
    by (cases "m_type m")
      (auto simp: matches_def matcher_passes_def compile_matcher_def labels_get_def Let_def split: option.splits)
  with Cons show ?case by (auto simp: compile_matcher_def)
qed simp

lemma in_filter_candidates:
  "i \<in> set (filter_candidates r ix ms ids) \<longleftrightarrow>
     i \<in> set ids \<and> (\<exists>l. map_of (series_labels ix) i = Some l \<and> list_all (matcher_passes r l) ms)"
  by (auto simp: filter_candidates_def split: option.splits)

lemma find_series_selected:
  assumes ok: "index_ok pl_set pl_ok ix"
  shows "set (find_series ops re matchers ix) = selected re matchers ix"
    and "distinct (find_series ops re matchers ix)"
proof -
  let ?ms = "map (compile_matcher re) matchers"
  have "cand_ok None" by (simp add: cand_ok_def)
  note eq = equality_candidates_set [OF ok this, of ?ms]
  show "set (find_series ops re matchers ix) = selected re matchers ix"
  proof (cases "equality_candidates ops ix ?ms None")
    case None
    then have "equality_set ix ?ms = {}" using eq by (simp add: cand_set_def)
    then show ?thesis
      using None equality_set_iff [OF ok, of _ _ re matchers]
      by (auto simp: find_series_def Let_def selected_def)
  next
    case (Some cand)
    then have cand: "cand_ok cand" "cand_set cand = equality_set ix ?ms"
      using eq by (simp_all add: cand_set_def)
    have "i \<in> set (find_series ops re matchers ix) \<longleftrightarrow> i \<in> selected re matchers ix" for i
      using Some to_vector(1) [OF initial_candidates_ok(1) [OF ok cand(1)]]
        initial_candidates_ok(2) [OF ok cand(1), of i] cand(2) equality_set_iff [OF ok, of i _ re matchers]
      by (auto simp: find_series_def Let_def selected_def in_filter_candidates)
    then show ?thesis by blast
  qed
  show "distinct (find_series ops re matchers ix)"
    using eq to_vector(2) initial_candidates_ok(1) [OF ok]
    by (auto simp: find_series_def Let_def filter_candidates_def split: option.splits)
qed

end

section \<open>Sorted vectors satisfy the contract\<close>

lemma strict_sorted_imp_distinct: "sorted_wrt (<) (xs :: 'a::linorder list) \<Longrightarrow> distinct xs"
  by (simp add: strict_sorted_iff)

lemma vec_add_sorted:
  assumes "sorted_wrt (<) pl"
  shows "sorted_wrt (<) (vec_add i pl) \<and> set (vec_add i pl) = insert i (set pl)"
  using assms
proof (induction pl)
  case (Cons a pl)
  then show ?case
    by (cases "a < i") (auto simp: vec_add_def Let_def split: if_splits)
qed (simp add: vec_add_def)

lemma set_intersection_sorted:
  assumes "sorted_wrt (<) a" "sorted_wrt (<) b"
  shows "sorted_wrt (<) (set_intersection a b) \<and> set (set_intersection a b) = set a \<inter> set b"
  using assms
  by (induction a b rule: set_intersection.induct) (auto dest: less_asym)

interpretation vectors: posting_list vector_ops set "sorted_wrt (<)"
  by unfold_locales
    (auto simp: vector_ops_def vec_add_sorted vec_remove_def sorted_wrt_filter
      set_intersection_sorted strict_sorted_imp_distinct)

section \<open>The set-algebra plan\<close>

locale roaring_list = posting_list ops pl_set pl_ok
  for ops :: "'p roaring_ops" and pl_set :: "'p \<Rightarrow> series_id set" and pl_ok :: "'p \<Rightarrow> bool" +
  assumes union: "\<lbrakk>pl_ok p; pl_ok q\<rbrakk> \<Longrightarrow> pl_ok (pl_union ops p q)"
      "\<lbrakk>pl_ok p; pl_ok q\<rbrakk> \<Longrightarrow> pl_set (pl_union ops p q) = pl_set p \<union> pl_set q"
    and diff: "\<lbrakk>pl_ok p; pl_ok q\<rbrakk> \<Longrightarrow> pl_ok (pl_diff ops p q)"
      "\<lbrakk>pl_ok p; pl_ok q\<rbrakk> \<Longrightarrow> pl_set (pl_diff ops p q) = pl_set p - pl_set q"
begin

lemma union_fold:
  assumes "\<forall>(kv, pl) \<in> set ps. pl_ok pl" "pl_ok u"
  shows "pl_ok (foldl (\<lambda>u (kv, pl). if P kv then pl_union ops u pl else u) u ps)
    \<and> pl_set (foldl (\<lambda>u (kv, pl). if P kv then pl_union ops u pl else u) u ps)
        = pl_set u \<union> {i. \<exists>(kv, pl) \<in> set ps. P kv \<and> i \<in> pl_set pl}"
  using assms
proof (induction ps arbitrary: u)
  case (Cons e ps)
  obtain kv pl where e: "e = (kv, pl)" by force
  let ?u = "if P kv then pl_union ops u pl else u"
  have "pl_ok ?u" "pl_set ?u = pl_set u \<union> {i. P kv \<and> i \<in> pl_set pl}"
    using Cons.prems union [of u pl] by (auto simp: e)
  then show ?case using Cons.IH [of ?u] Cons.prems(1) by (auto simp: e)
qed simp

lemma union_over_postings:
  assumes "index_ok pl_set pl_ok ix"
  shows "pl_ok (foldl (\<lambda>u (kv, pl). if P kv then pl_union ops u pl else u) (pl_empty ops) (postings ix))"
    and "i \<in> pl_set (foldl (\<lambda>u (kv, pl). if P kv then pl_union ops u pl else u) (pl_empty ops) (postings ix))
      \<longleftrightarrow> (\<exists>kv. P kv \<and> i \<in> posting_set pl_set ix kv)"
proof -
  have dist: "distinct (map fst (postings ix))"
    using assms by (simp add: index_ok_def smap_ok_distinct)
  then have mem: "(kv, pl) \<in> set (postings ix) \<longleftrightarrow> map_of (postings ix) kv = Some pl" for kv pl
    by simp
  have "\<forall>(kv, pl) \<in> set (postings ix). pl_ok pl"
    using assms by (auto simp: mem index_ok_def)
  note u = union_fold [OF this empty(1), of P]
  show "pl_ok (foldl (\<lambda>u (kv, pl). if P kv then pl_union ops u pl else u) (pl_empty ops) (postings ix))"
    using u by blast
  have "(\<exists>(kv, pl) \<in> set (postings ix). P kv \<and> i \<in> pl_set pl) \<longleftrightarrow>
      (\<exists>kv. P kv \<and> i \<in> posting_set pl_set ix kv)"
  proof
    assume "\<exists>(kv, pl) \<in> set (postings ix). P kv \<and> i \<in> pl_set pl"
    then obtain kv pl where "map_of (postings ix) kv = Some pl" "P kv" "i \<in> pl_set pl"
      unfolding mem [symmetric] by blast
    then show "\<exists>kv. P kv \<and> i \<in> posting_set pl_set ix kv"
      by (intro exI [of _ kv]) (simp add: posting_set_def)
  next
    assume "\<exists>kv. P kv \<and> i \<in> posting_set pl_set ix kv"
    then obtain kv where kv: "P kv" "i \<in> posting_set pl_set ix kv" by blast
    then obtain pl where "map_of (postings ix) kv = Some pl" "i \<in> pl_set pl"
      by (auto simp: posting_set_def split: option.splits)
    with kv(1) show "\<exists>(kv, pl) \<in> set (postings ix). P kv \<and> i \<in> pl_set pl"
      unfolding mem [symmetric] by blast
  qed
  then show "i \<in> pl_set (foldl (\<lambda>u (kv, pl). if P kv then pl_union ops u pl else u) (pl_empty ops) (postings ix))
      \<longleftrightarrow> (\<exists>kv. P kv \<and> i \<in> posting_set pl_set ix kv)"
    using u empty(2) by simp
qed

lemma matching_values_fold:
  "(\<lambda>u (kv, pl). if fst kv \<noteq> key then u else if f (snd kv) then pl_union ops u pl else u)
     = (\<lambda>u (kv, pl). if fst kv = key \<and> f (snd kv) then pl_union ops u pl else u)"
  by (auto simp: fun_eq_iff)

lemma key_unions_ok:
  assumes "index_ok pl_set pl_ok ix"
  shows "pl_ok (union_for_label_key ops ix key)" "pl_ok (union_for_matching_values ops ix key f)"
  using union_over_postings(1) [OF assms, where P = "\<lambda>kv. fst kv = key"]
    union_over_postings(1) [OF assms, where P = "\<lambda>kv. fst kv = key \<and> f (snd kv)"]
  by (simp_all add: union_for_label_key_def union_for_matching_values_def matching_values_fold)

lemma key_unions:
  assumes "index_ok pl_set pl_ok ix" "map_of (series_labels ix) i = Some l"
  shows "i \<in> pl_set (union_for_label_key ops ix key) \<longleftrightarrow> map_of l key \<noteq> None"
    and "i \<in> pl_set (union_for_matching_values ops ix key f) \<longleftrightarrow> (\<exists>v. map_of l key = Some v \<and> f v)"
proof -
  note key = union_over_postings [OF assms(1), where P = "\<lambda>kv. fst kv = key"]
  note vals = union_over_postings [OF assms(1), where P = "\<lambda>kv. fst kv = key \<and> f (snd kv)"]
  have post: "i \<in> posting_set pl_set ix (k, v) \<longleftrightarrow> map_of l k = Some v" for k v
    using assms by (auto simp: index_ok_def)
  show "i \<in> pl_set (union_for_label_key ops ix key) \<longleftrightarrow> map_of l key \<noteq> None"
    using key(2) [of i] post by (auto simp: union_for_label_key_def)
  show "i \<in> pl_set (union_for_matching_values ops ix key f) \<longleftrightarrow> (\<exists>v. map_of l key = Some v \<and> f v)"
    using vals(2) [of i] post by (auto simp: union_for_matching_values_def matching_values_fold)
qed

lemma subtract_pair_set:
  assumes "index_ok pl_set pl_ok ix" "pl_ok c"
  shows "pl_ok (subtract_pair ops ix kv c)"
    and "pl_set (subtract_pair ops ix kv c) = pl_set c - posting_set pl_set ix kv"
proof -
  have pok: "pl_ok pl" if "map_of (postings ix) kv = Some pl" for pl
    using assms(1) that unfolding index_ok_def by blast
  show "pl_ok (subtract_pair ops ix kv c)"
    "pl_set (subtract_pair ops ix kv c) = pl_set c - posting_set pl_set ix kv"
    using assms(2) diff pok
    by (auto simp: subtract_pair_def posting_set_def split: option.splits)
qed

text \<open>One matcher: the set algebra and the later check together decide as the check alone.\<close>

lemma negative_step_set:
  assumes "index_ok pl_set pl_ok ix" "pl_ok c" "negative_step ops ix m c = (c', m')"
  shows "pl_ok c'"
    and "\<lbrakk>\<not> handled_by_set_algebra m; map_of (series_labels ix) i = Some l\<rbrakk> \<Longrightarrow>
      i \<in> pl_set c' \<and> matcher_passes True l m' \<longleftrightarrow> i \<in> pl_set c \<and> matcher_passes False l m"
proof -
  note sub = subtract_pair_set [OF assms(1)] and keys = key_unions_ok [OF assms(1)]
  have c2: "pl_ok (pl_inter ops c (union_for_label_key ops ix (m_name m)))"
    "pl_set (pl_inter ops c (union_for_label_key ops ix (m_name m)))
       = pl_set c \<inter> pl_set (union_for_label_key ops ix (m_name m))"
    using inter [OF assms(2) keys(1)] by simp_all
  have c3: "pl_ok (pl_diff ops c (union_for_matching_values ops ix (m_name m) f))"
    "pl_set (pl_diff ops c (union_for_matching_values ops ix (m_name m) f))
       = pl_set c - pl_set (union_for_matching_values ops ix (m_name m) f)" for f
    using diff [OF assms(2) keys(2)] by simp_all
  show "pl_ok c'"
    using assms(2,3) sub(1) [OF assms(2)] sub(1) [OF c2(1)] c3(1) inter(1) [OF c3(1) keys(1)]
    by (cases "m_type m") (auto simp: negative_step_def Let_def split: if_splits option.splits)
  assume nh: "\<not> handled_by_set_algebra m" and i: "map_of (series_labels ix) i = Some l"
  note mem = key_unions [OF assms(1) i]
  have post: "i \<in> posting_set pl_set ix (k, v) \<longleftrightarrow> map_of l k = Some v" for k v
    using assms(1) i by (auto simp: index_ok_def)
  have val: "labels_get l (m_name m) = map_of l (m_name m)" by (simp add: labels_get_def)
  show "i \<in> pl_set c' \<and> matcher_passes True l m' \<longleftrightarrow> i \<in> pl_set c \<and> matcher_passes False l m"
  proof (cases "m_type m")
    case NotEqual
    have "m' = m\<lparr>handled_by_set_algebra := True\<rparr>"
      using assms(3) NotEqual by (auto simp: negative_step_def split: if_splits)
    then have "matcher_passes True l m'" using NotEqual by (simp add: matcher_passes_def)
    moreover have "i \<in> pl_set c' \<longleftrightarrow> i \<in> pl_set c \<and> matcher_passes False l m"
    proof (cases "m_value m = []")
      case True
      then have "pl_set c' = pl_set c \<inter> pl_set (union_for_label_key ops ix (m_name m))
          - posting_set pl_set ix (m_name m, [])"
        using assms(3) NotEqual sub(2) [OF c2(1)] c2(2) by (auto simp: negative_step_def)
      then show ?thesis
        using True NotEqual mem(1) post val by (auto simp: matcher_passes_def split: option.splits)
    next
      case False
      then have "pl_set c' = pl_set c - posting_set pl_set ix (m_name m, m_value m)"
        using assms(3) NotEqual sub(2) [OF assms(2)] by (auto simp: negative_step_def)
      then show ?thesis
        using False NotEqual post val by (auto simp: matcher_passes_def split: option.splits)
    qed
    ultimately show ?thesis by simp
  next
    case RegexNoMatch
    show ?thesis
    proof (cases "m_regex m")
      case None
      then show ?thesis
        using nh assms(3) RegexNoMatch by (auto simp: negative_step_def matcher_passes_def)
    next
      case (Some f)
      let ?c1 = "pl_diff ops c (union_for_matching_values ops ix (m_name m) f)"
      have "m' = m\<lparr>handled_by_set_algebra := True\<rparr>"
        and c': "c' = (if f [] then pl_inter ops ?c1 (union_for_label_key ops ix (m_name m)) else ?c1)"
        using assms(3) RegexNoMatch Some by (auto simp: negative_step_def Let_def)
      then have "matcher_passes True l m'" using RegexNoMatch by (simp add: matcher_passes_def)
      moreover have "i \<in> pl_set c' \<longleftrightarrow> i \<in> pl_set c \<and> matcher_passes False l m"
        using RegexNoMatch Some c3 [of f] inter(2) [OF c3(1) keys(1)] mem(1) mem(2) [of "m_name m" f] val
        unfolding c' by (auto simp: matcher_passes_def split: option.splits)
      ultimately show ?thesis by simp
    qed
  qed (use nh assms(3) in \<open>auto simp: negative_step_def matcher_passes_def\<close>)
qed

lemma negative_matchers_set:
  assumes "index_ok pl_set pl_ok ix" "pl_ok c" "\<forall>m \<in> set ms. \<not> handled_by_set_algebra m"
    and "negative_matchers ops ix ms c = (c', ms')"
  shows "pl_ok c' \<and> (\<forall>i l. map_of (series_labels ix) i = Some l \<longrightarrow>
      (i \<in> pl_set c' \<and> list_all (matcher_passes True l) ms'
       \<longleftrightarrow> i \<in> pl_set c \<and> list_all (matcher_passes False l) ms))"
  using assms(2-4)
proof (induction ms arbitrary: c ms')
  case (Cons m ms)
  obtain c1 m1 where 1: "negative_step ops ix m c = (c1, m1)" by force
  obtain ms1 where 2: "negative_matchers ops ix ms c1 = (c', ms1)" "ms' = m1 # ms1"
    using Cons.prems(3) 1 by (auto simp: Let_def split: prod.splits)
  have m: "\<not> handled_by_set_algebra m" using Cons.prems(2) by simp
  note step = negative_step_set [OF assms(1) Cons.prems(1) 1]
  from Cons.IH [OF step(1) _ 2(1)] Cons.prems(2) step(2) [OF m] 2(2) show ?case by auto
qed simp

lemma find_series_roaring_selected:
  assumes ok: "index_ok pl_set pl_ok ix"
  shows "set (find_series_roaring ops re matchers ix) = selected re matchers ix"
    and "distinct (find_series_roaring ops re matchers ix)"
proof -
  let ?ms = "map (compile_matcher re) matchers"
  have "cand_ok None" by (simp add: cand_ok_def)
  note eq = equality_candidates_set [OF ok this, of ?ms]
  have fresh: "\<forall>m \<in> set ?ms. \<not> handled_by_set_algebra m" by (simp add: compile_matcher_def)
  show "set (find_series_roaring ops re matchers ix) = selected re matchers ix"
  proof (cases "equality_candidates ops ix ?ms None")
    case None
    then have "equality_set ix ?ms = {}" using eq by (simp add: cand_set_def)
    then show ?thesis
      using None equality_set_iff [OF ok, of _ _ re matchers]
      by (auto simp: find_series_roaring_def Let_def selected_def)
  next
    case (Some cand)
    then have cand: "cand_ok cand" "cand_set cand = equality_set ix ?ms"
      using eq by (simp_all add: cand_set_def)
    obtain c ms' where c: "negative_matchers ops ix ?ms (initial_candidates ops ix cand) = (c, ms')" by force
    note neg = negative_matchers_set [OF ok initial_candidates_ok(1) [OF ok cand(1)] fresh c]
    have res: "find_series_roaring ops re matchers ix = filter_candidates True ix ms' (pl_to_vector ops c)"
      using Some c by (simp add: find_series_roaring_def Let_def)
    have "i \<in> set (find_series_roaring ops re matchers ix) \<longleftrightarrow> i \<in> selected re matchers ix" for i
    proof (cases "map_of (series_labels ix) i")
      case None
      then show ?thesis by (simp add: res in_filter_candidates selected_def)
    next
      case (Some l)
      have "i \<in> set (find_series_roaring ops re matchers ix) \<longleftrightarrow>
          i \<in> pl_set c \<and> list_all (matcher_passes True l) ms'"
        using Some neg to_vector(1) [of c] by (simp add: res in_filter_candidates)
      also have "\<dots> \<longleftrightarrow> i \<in> equality_set ix ?ms \<and> list_all (matcher_passes False l) ?ms"
        using Some neg initial_candidates_ok(2) [OF ok cand(1) Some] cand(2) by simp
      also have "\<dots> \<longleftrightarrow> list_all (matches re l) matchers"
        by (rule equality_set_iff [OF ok Some])
      finally show ?thesis using Some by (simp add: selected_def)
    qed
    then show ?thesis by blast
  qed
  show "distinct (find_series_roaring ops re matchers ix)"
    using eq to_vector(2) negative_matchers_set [OF ok initial_candidates_ok(1) [OF ok] fresh]
    by (auto simp: find_series_roaring_def Let_def filter_candidates_def split: option.splits prod.splits)
qed

end

text \<open>The contract can be met: sorted vectors with merge-style union and difference.\<close>

definition vector_set_ops :: "series_id list roaring_ops" where
  "vector_set_ops = posting_ops.extend vector_ops
     \<lparr>pl_union = (\<lambda>p q. foldr vec_add p q), pl_diff = (\<lambda>p q. filter (\<lambda>x. x \<notin> set q) p)\<rparr>"

lemma foldr_vec_add:
  assumes "sorted_wrt (<) q"
  shows "sorted_wrt (<) (foldr vec_add p q) \<and> set (foldr vec_add p q) = set p \<union> set q"
  using assms by (induction p) (auto simp: vec_add_sorted)

interpretation vector_sets: roaring_list vector_set_ops set "sorted_wrt (<)"
  by unfold_locales
    (auto simp: vector_set_ops_def posting_ops.defs vector_ops_def vec_add_sorted vec_remove_def
      sorted_wrt_filter set_intersection_sorted strict_sorted_imp_distinct foldr_vec_add)

section \<open>Properties\<close>

text \<open>
  C13: A query returns exactly the series it should: for an index whose posting lists agree with
  its forward map, \<open>find_series\<close> returns every series whose labels satisfy all matchers, each
  once, and nothing else, for every mix of equality, inequality and regex matchers and every
  regex library.
\<close>

theorem find_series_correct:
  assumes "index_ok set (sorted_wrt (<)) ix"
  shows "set (find_series vector_ops re matchers ix) = selected re matchers ix
    \<and> distinct (find_series vector_ops re matchers ix)"
  using vectors.find_series_selected [OF assms] by blast

definition example_index :: "series_id list index" where
  "example_index = add_series vector_ops 2 [(''env'', ''p''), (''job'', ''b'')]
     (add_series vector_ops 1 [(''job'', ''a'')] empty_index)"

lemma example_index_ok: "index_ok set (sorted_wrt (<)) example_index"
proof -
  have 1: "index_ok set (sorted_wrt (<)) (add_series vector_ops 1 [(''job'', ''a'')] empty_index)"
    by (rule vectors.index_ok_add_series)
      (simp_all add: empty_index_def index_ok_def posting_set_def smap_ok_def)
  show ?thesis
    unfolding example_index_def
    by (rule vectors.index_ok_add_series [OF 1])
      (simp_all add: smap_ok_def empty_index_def add_series_def add_posting_def posting_at_def)
qed

theorem find_series_correct_witness:
  "set (find_series vector_ops (\<lambda>p. None) [\<lparr>m_type = NotEqual, m_name = ''env'', m_value = ''p''\<rparr>]
     example_index) = {1}"
proof -
  have "selected (\<lambda>p. None) [\<lparr>m_type = NotEqual, m_name = ''env'', m_value = ''p''\<rparr>] example_index = {1}"
    by (auto simp: selected_def example_index_def empty_index_def add_series_def add_posting_def
        posting_at_def matches_def labels_get_def split: if_splits)
  then show ?thesis
    using find_series_correct [OF example_index_ok] by simp
qed

text \<open>
  C31: The Roaring query plan, which answers inequality and negative regex matchers by set algebra
  on posting lists, returns the same set of series as checking the matchers one by one, for
  every bitmap library that implements sets.
\<close>

theorem roaring_plan_equivalent:
  assumes "roaring_list ops pl_set pl_ok" "index_ok pl_set pl_ok ix"
  shows "set (find_series_roaring ops re matchers ix) = set (find_series ops re matchers ix)"
proof -
  have "posting_list ops pl_set pl_ok" using assms(1) by (simp add: roaring_list_def)
  then show ?thesis
    using roaring_list.find_series_roaring_selected(1) [OF assms]
      posting_list.find_series_selected(1) [OF _ assms(2)] by metis
qed

theorem roaring_plan_equivalent_witness:
  "set (find_series_roaring vector_set_ops (\<lambda>p. None)
       [\<lparr>m_type = NotEqual, m_name = ''env'', m_value = []\<rparr>] example_index)
     = set (find_series vector_set_ops (\<lambda>p. None)
       [\<lparr>m_type = NotEqual, m_name = ''env'', m_value = []\<rparr>] example_index)"
  by (rule roaring_plan_equivalent [OF vector_sets.roaring_list_axioms example_index_ok])

text \<open>
  C33: Adding a new series and removing any series keep the posting lists in agreement with the
  forward map; the forward map changes exactly at the given id.
\<close>

theorem index_updates_keep_invariant:
  assumes "index_ok set (sorted_wrt (<)) ix" "smap_ok l" "map_of (series_labels ix) i = None"
  shows "index_ok set (sorted_wrt (<)) (add_series vector_ops i l ix)
    \<and> index_ok set (sorted_wrt (<)) (remove_series vector_ops j ix)
    \<and> map_of (series_labels (add_series vector_ops i l ix)) = (map_of (series_labels ix))(i \<mapsto> l)
    \<and> map_of (series_labels (remove_series vector_ops j ix)) = (map_of (series_labels ix))(j := None)"
proof -
  have pok: "\<forall>kv pl. map_of (postings ix') kv = Some pl \<longrightarrow> sorted_wrt (<) pl"
    if "postings ix' = postings ix" for ix' :: "series_id list index"
    using assms(1) that by (simp add: index_ok_def)
  have "map_of (series_labels (add_series vector_ops i l ix)) = (map_of (series_labels ix))(i \<mapsto> l)"
    using vectors.posting_set_add_postings [OF pok, of "ix\<lparr>series_labels := smap_insert i l (series_labels ix)\<rparr>" i l]
    by (simp add: add_series_def smap_simps)
  moreover have "map_of (series_labels (remove_series vector_ops j ix)) = (map_of (series_labels ix))(j := None)"
    using vectors.posting_set_remove_postings [OF pok [OF refl]]
    by (auto simp: remove_series_def Let_def smap_simps split: option.split)
  ultimately show ?thesis
    using vectors.index_ok_add_series [OF assms(1,3,2)] vectors.index_ok_remove_series [OF assms(1)] by blast
qed

theorem index_updates_keep_invariant_witness:
  "index_ok set (sorted_wrt (<)) (add_series vector_ops 3 [] example_index)
   \<and> index_ok set (sorted_wrt (<)) (remove_series vector_ops 1 example_index)"
proof -
  have "map_of (series_labels example_index) 3 = None"
    by (simp add: example_index_def empty_index_def add_series_def add_posting_def posting_at_def)
  from index_updates_keep_invariant [OF example_index_ok _ this, of "[]" 1] show ?thesis by simp
qed

text \<open>
  Adding a series under an id that is already present leaves its old posting entries behind:
  an equality query for the old label then returns the series although its labels no longer
  carry it.
\<close>

theorem readded_series_found_by_old_label:
  "find_series vector_ops re [\<lparr>m_type = Equal, m_name = ''job'', m_value = ''a''\<rparr>]
     (add_series vector_ops 1 [(''job'', ''b'')] (add_series vector_ops 1 [(''job'', ''a'')] empty_index))
     = [1]
   \<and> get_labels 1 (add_series vector_ops 1 [(''job'', ''b'')]
        (add_series vector_ops 1 [(''job'', ''a'')] empty_index)) = Inr [(''job'', ''b'')]"
  by (simp add: find_series_def add_series_def add_posting_def posting_at_def empty_index_def
      vector_ops_def vec_add_def compile_matcher_def initial_candidates_def filter_candidates_def
      matcher_passes_def get_labels_def)

end
