(* ===== verification/Sharded_Index.thy ===== *)
theory Sharded_Index
  imports Series_Index "HOL-Library.AList"
begin

text \<open>
  The sharded index (\<open>src/tsdb/storage/sharded_index.cpp\<close>): series are spread over shards by id
  modulo the number of shards, each shard an index of \<open>Series_Index\<close>; a query with an equality
  matcher on \<open>__name__\<close> is routed by per-metric counters to the shards that hold the metric, any
  other query goes to all shards. The shards of a query are searched in parallel, each into its
  own slot, so the order of the searches has no effect. The locale \<open>series_catalog\<close> is the
  contract of an index, single or sharded; both interpret it.
\<close>

section \<open>State and updates\<close>

record 'p sharded_index =
  num_shards :: nat
  shards :: "'p index list"
  total_series :: uint64
  total_lookups :: uint64
  metric_shard_counts :: "(string \<times> uint32 list) list"
  shard_query_counts :: "uint64 list"

definition mk_sharded_index :: "nat \<Rightarrow> 'p sharded_index" where
  "mk_sharded_index n = \<lparr>num_shards = n, shards = replicate n empty_index, total_series = 0,
     total_lookups = 0, metric_shard_counts = [], shard_query_counts = replicate n 0\<rparr>"

definition get_shard_index :: "series_id \<Rightarrow> 'p sharded_index \<Rightarrow> nat" where
  "get_shard_index i si = unat i mod num_shards si"

definition metric_of :: "labels \<Rightarrow> string" where
  "metric_of l = (case labels_get l ''__name__'' of None \<Rightarrow> [] | Some v \<Rightarrow> v)"

definition count_added :: "string \<Rightarrow> nat \<Rightarrow> 'p sharded_index \<Rightarrow> 'p sharded_index" where
  "count_added metric k si =
     (if metric = [] then si
      else
        let counts = (case map_of (metric_shard_counts si) metric of None \<Rightarrow> [] | Some c \<Rightarrow> c);
            counts' = (if length counts \<noteq> num_shards si then replicate (num_shards si) 0 else counts)
        in si\<lparr>metric_shard_counts :=
             AList.update metric (counts'[k := counts' ! k + 1]) (metric_shard_counts si)\<rparr>)"

definition sharded_add_series ::
  "('p, 'x) posting_ops_scheme \<Rightarrow> series_id \<Rightarrow> labels \<Rightarrow> 'p sharded_index \<Rightarrow> 'p sharded_index" where
  "sharded_add_series ops i l si =
     (let k = get_shard_index i si
      in count_added (metric_of l) k
           (si\<lparr>shards := (shards si)[k := add_series ops i l (shards si ! k)], total_series := total_series si + 1\<rparr>))"

definition count_removed :: "string \<Rightarrow> nat \<Rightarrow> 'p sharded_index \<Rightarrow> 'p sharded_index" where
  "count_removed metric k si =
     (if metric = [] then si
      else
        case map_of (metric_shard_counts si) metric of
          None \<Rightarrow> si
        | Some counts \<Rightarrow>
            if length counts \<noteq> num_shards si then si
            else
              let counts' = (if 0 < counts ! k then counts[k := counts ! k - 1] else counts)
              in if list_ex (\<lambda>c. 0 < c) counts'
                 then si\<lparr>metric_shard_counts := AList.update metric counts' (metric_shard_counts si)\<rparr>
                 else si\<lparr>metric_shard_counts := AList.delete metric (metric_shard_counts si)\<rparr>)"

definition sharded_remove_series ::
  "('p, 'x) posting_ops_scheme \<Rightarrow> series_id \<Rightarrow> 'p sharded_index \<Rightarrow> 'p sharded_index" where
  "sharded_remove_series ops i si =
     (let k = get_shard_index i si;
          metric = (case get_labels i (shards si ! k) of Inl e \<Rightarrow> [] | Inr l \<Rightarrow> metric_of l)
      in count_removed metric k
           (si\<lparr>shards := (shards si)[k := remove_series ops i (shards si ! k)], total_series := total_series si - 1\<rparr>))"

section \<open>Queries\<close>

definition get_routed_shards_for_metric :: "string \<Rightarrow> 'p sharded_index \<Rightarrow> nat list" where
  "get_routed_shards_for_metric metric si =
     (if metric = [] then []
      else
        case map_of (metric_shard_counts si) metric of
          None \<Rightarrow> []
        | Some counts \<Rightarrow>
            if length counts \<noteq> num_shards si then []
            else filter (\<lambda>k. 0 < counts ! k) [0..<num_shards si])"

definition route_metric :: "label_matcher list \<Rightarrow> string" where
  "route_metric ms =
     (case List.find (\<lambda>m. m_type m = Equal \<and> m_name m = ''__name__'' \<and> m_value m \<noteq> []) ms of
        None \<Rightarrow> []
      | Some m \<Rightarrow> m_value m)"

definition query_shards :: "label_matcher list \<Rightarrow> 'p sharded_index \<Rightarrow> nat list" where
  "query_shards ms si =
     (let metric = route_metric ms; routed = get_routed_shards_for_metric metric si
      in if metric \<noteq> [] \<and> routed \<noteq> [] \<and> length routed < num_shards si then routed
         else [0..<num_shards si])"

text \<open>Scatter and gather: one result slot per shard, empty for a shard that is not asked.\<close>

definition gather :: "('p index \<Rightarrow> 'a list) \<Rightarrow> nat list \<Rightarrow> 'p sharded_index \<Rightarrow> 'a list" where
  "gather f ks si =
     concat (map (\<lambda>k. if k \<in> set ks then f (shards si ! k) else []) [0..<num_shards si])"

definition count_queries :: "nat list \<Rightarrow> 'p sharded_index \<Rightarrow> 'p sharded_index" where
  "count_queries ks si =
     si\<lparr>total_lookups := total_lookups si + 1,
        shard_query_counts := foldl (\<lambda>cs k. cs[k := cs ! k + 1]) (shard_query_counts si) ks\<rparr>"

definition sharded_find_series ::
  "('p, 'x) posting_ops_scheme \<Rightarrow> regex_lib \<Rightarrow> label_matcher list \<Rightarrow> 'p sharded_index \<Rightarrow>
     series_id list \<times> 'p sharded_index" where
  "sharded_find_series ops re ms si =
     (let ks = query_shards ms si in (gather (find_series ops re ms) ks si, count_queries ks si))"

definition sharded_find_series_with_labels ::
  "('p, 'x) posting_ops_scheme \<Rightarrow> regex_lib \<Rightarrow> label_matcher list \<Rightarrow> 'p sharded_index \<Rightarrow>
     (series_id \<times> labels) list \<times> 'p sharded_index" where
  "sharded_find_series_with_labels ops re ms si =
     (let ks = query_shards ms si in (gather (find_series_with_labels ops re ms) ks si, count_queries ks si))"

definition sharded_get_labels :: "series_id \<Rightarrow> 'p sharded_index \<Rightarrow> labels result" where
  "sharded_get_labels i si = get_labels i (shards si ! get_shard_index i si)"

definition get_stats :: "'p sharded_index \<Rightarrow> uint64 \<times> uint64" where
  "get_stats si = (total_series si, total_lookups si)"

definition reset_metrics :: "'p sharded_index \<Rightarrow> 'p sharded_index" where
  "reset_metrics si = si\<lparr>total_series := 0, total_lookups := 0\<rparr>"

definition get_shard_query_counts :: "'p sharded_index \<Rightarrow> uint64 list" where
  "get_shard_query_counts si = map (\<lambda>k. shard_query_counts si ! k) [0..<num_shards si]"

definition reset_shard_query_counts :: "'p sharded_index \<Rightarrow> 'p sharded_index" where
  "reset_shard_query_counts si = si\<lparr>shard_query_counts := replicate (num_shards si) 0\<rparr>"

section \<open>The contract of an index\<close>

text \<open>
  An index holds a finite map from ids to labels. \<open>cap\<close> bounds the number of series below which
  adding one is safe.
\<close>

locale series_catalog =
  fixes ok :: "'x \<Rightarrow> bool" and labels_at :: "'x \<Rightarrow> series_id \<Rightarrow> labels option" and cap :: nat
    and add :: "series_id \<Rightarrow> labels \<Rightarrow> 'x \<Rightarrow> 'x" and remove :: "series_id \<Rightarrow> 'x \<Rightarrow> 'x"
    and find :: "regex_lib \<Rightarrow> label_matcher list \<Rightarrow> 'x \<Rightarrow> series_id list"
  assumes finite_labels: "ok x \<Longrightarrow> finite (dom (labels_at x))"
    and add_ok: "\<lbrakk>ok x; labels_at x i = None; smap_ok l; Suc (card (dom (labels_at x))) < cap\<rbrakk> \<Longrightarrow>
      ok (add i l x) \<and> labels_at (add i l x) = (labels_at x)(i \<mapsto> l)"
    and remove_ok: "ok x \<Longrightarrow> ok (remove i x) \<and> labels_at (remove i x) = (labels_at x)(i := None)"
    and find_ok: "ok x \<Longrightarrow> distinct (find re ms x)
      \<and> set (find re ms x) = {i. \<exists>l. labels_at x i = Some l \<and> list_all (matches re l) ms}"

text \<open>Updates of an index, and when they are admissible from a given map.\<close>

datatype index_update = AddSeries series_id labels | RemoveSeries series_id

fun apply_map :: "(series_id \<rightharpoonup> labels) \<Rightarrow> index_update list \<Rightarrow> (series_id \<rightharpoonup> labels)" where
  "apply_map m [] = m"
| "apply_map m (AddSeries i l # us) = apply_map (m(i \<mapsto> l)) us"
| "apply_map m (RemoveSeries i # us) = apply_map (m(i := None)) us"

fun admissible :: "nat \<Rightarrow> (series_id \<rightharpoonup> labels) \<Rightarrow> index_update list \<Rightarrow> bool" where
  "admissible cap m [] = True"
| "admissible cap m (AddSeries i l # us) =
     (m i = None \<and> smap_ok l \<and> Suc (card (dom m)) < cap \<and> admissible cap (m(i \<mapsto> l)) us)"
| "admissible cap m (RemoveSeries i # us) = admissible cap (m(i := None)) us"

fun apply_updates :: "(series_id \<Rightarrow> labels \<Rightarrow> 'x \<Rightarrow> 'x) \<Rightarrow> (series_id \<Rightarrow> 'x \<Rightarrow> 'x) \<Rightarrow> index_update list \<Rightarrow> 'x \<Rightarrow> 'x" where
  "apply_updates add remove [] x = x"
| "apply_updates add remove (AddSeries i l # us) x = apply_updates add remove us (add i l x)"
| "apply_updates add remove (RemoveSeries i # us) x = apply_updates add remove us (remove i x)"

context series_catalog
begin

lemma updates_ok:
  "\<lbrakk>ok x; admissible cap (labels_at x) us\<rbrakk> \<Longrightarrow>
     ok (apply_updates add remove us x) \<and> labels_at (apply_updates add remove us x) = apply_map (labels_at x) us"
proof (induction us arbitrary: x)
  case (Cons u us)
  show ?case
  proof (cases u)
    case (AddSeries i l)
    with Cons.prems add_ok [of x i l] Cons.IH [of "add i l x"] show ?thesis by (simp del: fun_upd_apply)
  next
    case (RemoveSeries i)
    with Cons.prems remove_ok [of x i] Cons.IH [of "remove i x"] show ?thesis by (simp del: fun_upd_apply)
  qed
qed simp

lemma updates_find:
  "\<lbrakk>ok x; admissible cap (labels_at x) us\<rbrakk> \<Longrightarrow>
     distinct (find re ms (apply_updates add remove us x))
     \<and> set (find re ms (apply_updates add remove us x)) =
       {i. \<exists>l. apply_map (labels_at x) us i = Some l \<and> list_all (matches re l) ms}"
  using updates_ok find_ok by fastforce

end

lemma distinct_concat_disjoint:
  "\<lbrakk>\<And>k. k < length xss \<Longrightarrow> distinct (xss ! k);
    \<And>j k. \<lbrakk>j < k; k < length xss\<rbrakk> \<Longrightarrow> set (xss ! j) \<inter> set (xss ! k) = {}\<rbrakk> \<Longrightarrow> distinct (concat xss)"
proof (induction xss)
  case (Cons xs xss)
  have "distinct (concat xss)"
  proof (rule Cons.IH)
    show "distinct (xss ! k)" if "k < length xss" for k using Cons.prems(1) [of "Suc k"] that by simp
    show "set (xss ! j) \<inter> set (xss ! k) = {}" if "j < k" "k < length xss" for j k
      using Cons.prems(2) [of "Suc j" "Suc k"] that by simp
  qed
  moreover have "set xs \<inter> set ys = {}" if "ys \<in> set xss" for ys
    using that Cons.prems(2) [of 0 "Suc k" for k] by (auto simp: in_set_conv_nth)
  ultimately show ?case using Cons.prems(1) [of 0] by auto
qed simp

section \<open>One index satisfies the contract\<close>

lemma series_labels_add: "series_labels (add_series ops i l ix) = smap_insert i l (series_labels ix)"
proof -
  have "series_labels (foldl (add_posting ops i) ix l) = series_labels ix" for ix
    by (induction l arbitrary: ix) (simp_all add: add_posting_def)
  then show ?thesis by (simp add: add_series_def)
qed

lemma series_labels_remove:
  "map_of (series_labels (remove_series ops i ix)) = (map_of (series_labels ix))(i := None)"
proof -
  have "series_labels (foldl (remove_posting ops i) ix l) = series_labels ix" for l ix
    by (induction l arbitrary: ix) (auto simp: remove_posting_def Let_def split: option.split)
  then show ?thesis
    by (auto simp: remove_series_def Let_def smap_simps fun_upd_idem split: option.split)
qed

context posting_list
begin

lemma single_catalog:
  "series_catalog (index_ok pl_set pl_ok) (\<lambda>ix. map_of (series_labels ix)) cap
     (add_series ops) (remove_series ops) (find_series ops)"
proof
  fix x i l
  show "finite (dom (map_of (series_labels x)))" for x :: "'p index" by (rule finite_dom_map_of)
  show "index_ok pl_set pl_ok (remove_series ops i x) \<and>
      map_of (series_labels (remove_series ops i x)) = (map_of (series_labels x))(i := None)"
    if "index_ok pl_set pl_ok x"
    using index_ok_remove_series [OF that] series_labels_remove by blast
  show "index_ok pl_set pl_ok (add_series ops i l x) \<and>
      map_of (series_labels (add_series ops i l x)) = (map_of (series_labels x))(i \<mapsto> l)"
    if "index_ok pl_set pl_ok x" "map_of (series_labels x) i = None" "smap_ok l"
    using index_ok_add_series [OF that] by (simp add: series_labels_add smap_simps)
  show "distinct (find_series ops re ms x) \<and> set (find_series ops re ms x) =
      {i. \<exists>l. map_of (series_labels x) i = Some l \<and> list_all (matches re l) ms}"
    if "index_ok pl_set pl_ok x" for re ms
    using find_series_selected [OF that] by (simp add: selected_def)
qed

end

interpretation single: series_catalog "index_ok set (sorted_wrt (<))" "\<lambda>ix. map_of (series_labels ix)" cap
  "add_series vector_ops" "remove_series vector_ops" "find_series vector_ops" for cap
  by (rule vectors.single_catalog)

section \<open>The sharded index satisfies the contract\<close>

definition sharded_labels :: "'p sharded_index \<Rightarrow> series_id \<Rightarrow> labels option" where
  "sharded_labels si i = map_of (series_labels (shards si ! get_shard_index i si)) i"

text \<open>The ids in a shard that carry a metric name, and the counter kept for them.\<close>

definition named :: "string \<Rightarrow> 'p index \<Rightarrow> series_id set" where
  "named metric ix = {i. \<exists>l. map_of (series_labels ix) i = Some l \<and> metric_of l = metric}"

definition counter :: "string \<Rightarrow> nat \<Rightarrow> 'p sharded_index \<Rightarrow> uint32" where
  "counter metric k si = (case map_of (metric_shard_counts si) metric of None \<Rightarrow> 0 | Some c \<Rightarrow> c ! k)"

definition counters_ok :: "'p sharded_index \<Rightarrow> bool" where
  "counters_ok si \<longleftrightarrow>
     (\<forall>metric c. map_of (metric_shard_counts si) metric = Some c \<longrightarrow> length c = num_shards si)
     \<and> (\<forall>metric k. metric \<noteq> [] \<and> k < num_shards si \<longrightarrow>
           unat (counter metric k si) = card (named metric (shards si ! k)))"

definition sharded_ok :: "('p index \<Rightarrow> bool) \<Rightarrow> 'p sharded_index \<Rightarrow> bool" where
  "sharded_ok shard_ok si \<longleftrightarrow> 0 < num_shards si \<and> length (shards si) = num_shards si
     \<and> distinct (map fst (metric_shard_counts si))
     \<and> (\<forall>k < num_shards si. shard_ok (shards si ! k)
           \<and> (\<forall>i \<in> dom (map_of (series_labels (shards si ! k))). get_shard_index i si = k))
     \<and> counters_ok si"

lemma finite_named: "finite (named metric ix)"
  by (rule finite_subset [OF _ finite_dom_map_of [of "series_labels ix"]]) (auto simp: named_def)

lemma named_add:
  assumes "map_of (series_labels ix) i = None"
  shows "named metric (add_series ops i l ix) = (if metric_of l = metric then insert i (named metric ix) else named metric ix)"
    "i \<notin> named metric ix"
  using assms by (auto simp: named_def series_labels_add smap_simps)

lemma named_remove: "named metric (remove_series ops i ix) = named metric ix - {i}"
  by (auto simp: named_def series_labels_remove)

lemma card_named_le:
  assumes "sharded_ok shard_ok si" "k < num_shards si" "finite (dom (sharded_labels si))"
  shows "card (named metric (shards si ! k)) \<le> card (dom (sharded_labels si))"
proof (rule card_mono [OF assms(3)])
  show "named metric (shards si ! k) \<subseteq> dom (sharded_labels si)"
    using assms(1,2) by (fastforce simp: named_def sharded_labels_def sharded_ok_def)
qed

lemma finite_sharded_labels:
  assumes "sharded_ok shard_ok si"
  shows "finite (dom (sharded_labels si))"
proof (rule finite_subset)
  show "dom (sharded_labels si) \<subseteq> (\<Union>ix \<in> set (shards si). dom (map_of (series_labels ix)))"
    using assms by (fastforce simp: sharded_labels_def get_shard_index_def sharded_ok_def)
qed (auto simp: finite_dom_map_of)

lemma count_added_simps [simp]:
  "num_shards (count_added m k si) = num_shards si" "shards (count_added m k si) = shards si"
  "num_shards (count_removed m k si) = num_shards si" "shards (count_removed m k si) = shards si"
  by (auto simp: count_added_def count_removed_def Let_def split: option.split)

lemma count_added_keys:
  "distinct (map fst (metric_shard_counts si)) \<Longrightarrow> distinct (map fst (metric_shard_counts (count_added m k si)))"
  "distinct (map fst (metric_shard_counts si)) \<Longrightarrow> distinct (map fst (metric_shard_counts (count_removed m k si)))"
  by (auto simp: count_added_def count_removed_def Let_def distinct_update distinct_delete split: option.split)

lemma unat_Suc_32: "Suc (unat (w :: uint32)) < 2 ^ 32 \<Longrightarrow> unat (w + 1) = Suc (unat w)"
  by (simp add: unat_word_ariths)

lemma counters_length:
  assumes "\<forall>metric c. map_of (metric_shard_counts si) metric = Some c \<longrightarrow> length c = num_shards si"
    "distinct (map fst (metric_shard_counts si))"
  shows "\<forall>metric c. map_of (metric_shard_counts (count_added m k si)) metric = Some c \<longrightarrow> length c = num_shards si"
    "\<forall>metric c. map_of (metric_shard_counts (count_removed m k si)) metric = Some c \<longrightarrow> length c = num_shards si"
  using assms
  by (auto simp: count_added_def count_removed_def Let_def AList.update_conv' AList.delete_conv' split: option.split if_splits)

lemma counter_added:
  assumes "\<forall>metric c. map_of (metric_shard_counts si) metric = Some c \<longrightarrow> length c = num_shards si"
    "k < num_shards si" "metric \<noteq> []" "k' < num_shards si"
  shows "counter metric k' (count_added m k si) = (if metric = m \<and> k' = k then counter m k si + 1 else counter metric k' si)"
  using assms
  by (auto simp: counter_def count_added_def Let_def AList.update_conv' split: option.split if_splits)

lemma counter_removed:
  assumes "\<forall>metric c. map_of (metric_shard_counts si) metric = Some c \<longrightarrow> length c = num_shards si"
    "distinct (map fst (metric_shard_counts si))" "k < num_shards si" "metric \<noteq> []" "k' < num_shards si"
    "m = [] \<or> 0 < counter m k si"
  shows "counter metric k' (count_removed m k si) = (if metric = m \<and> k' = k then counter m k si - 1 else counter metric k' si)"
proof -
  show "counter metric k' (count_removed m k si) = (if metric = m \<and> k' = k then counter m k si - 1 else counter metric k' si)"
  proof (cases "map_of (metric_shard_counts si) m")
    case None
    then show ?thesis using assms by (auto simp: counter_def count_removed_def)
  next
    case (Some c)
    then have c: "length c = num_shards si" using assms(1) by blast
    let ?c = "c[k := c ! k - 1]"
    show ?thesis
    proof (cases "m = []")
      case True
      with assms(4) show ?thesis by (auto simp: count_removed_def)
    next
      case False
      have pos: "0 < c ! k" using assms(6) False Some by (simp add: counter_def)
      have zero: "?c ! j = 0" if "\<not> list_ex (\<lambda>c. 0 < c) ?c" "j < num_shards si" for j
        using that c by (auto simp: list_ex_iff all_set_conv_all_nth word_gt_0)
      have "counter metric k' (count_removed m k si) = (if metric = m then ?c ! k' else counter metric k' si)"
        using False Some c pos zero [OF _ assms(5)]
        by (auto simp: counter_def count_removed_def Let_def AList.update_conv' AList.delete_conv' split: option.split)
      then show ?thesis using c Some assms(3,5) by (auto simp: counter_def nth_list_update)
    qed
  qed
qed

lemma get_shard_index_less: "0 < num_shards si \<Longrightarrow> get_shard_index i si < num_shards si"
  by (simp add: get_shard_index_def)

lemma shard_index_cong: "num_shards si' = num_shards si \<Longrightarrow> get_shard_index i si' = get_shard_index i si"
  by (simp add: get_shard_index_def)

lemma sharded_labels_update:
  assumes "sharded_ok shard_ok si" "num_shards si' = num_shards si"
    "shards si' = (shards si)[get_shard_index i si := ix]"
    "map_of (series_labels ix) = (map_of (series_labels (shards si ! get_shard_index i si)))(i := v)"
  shows "sharded_labels si' = (sharded_labels si)(i := v)"
proof
  fix j
  have len: "get_shard_index j si < length (shards si)" for j
    using assms(1) get_shard_index_less by (auto simp: sharded_ok_def)
  show "sharded_labels si' j = ((sharded_labels si)(i := v)) j"
    using assms(3,4) len shard_index_cong [OF assms(2)]
    by (cases "get_shard_index j si = get_shard_index i si") (auto simp: sharded_labels_def)
qed

lemma sharded_ok_update:
  assumes ok: "sharded_ok shard_ok si" and "num_shards si' = num_shards si"
    "shards si' = (shards si)[get_shard_index i si := ix]" "shard_ok ix"
    "dom (map_of (series_labels ix)) \<subseteq> insert i (dom (map_of (series_labels (shards si ! get_shard_index i si))))"
    "distinct (map fst (metric_shard_counts si'))" "counters_ok si'"
  shows "sharded_ok shard_ok si'"
proof -
  have "shard_ok (shards si' ! k) \<and> (\<forall>j \<in> dom (map_of (series_labels (shards si' ! k))). get_shard_index j si' = k)"
    if k: "k < num_shards si" for k
  proof (cases "k = get_shard_index i si")
    case True
    with assms k show ?thesis by (auto simp: sharded_ok_def shard_index_cong [OF assms(2)])
  next
    case False
    with assms k show ?thesis by (auto simp: sharded_ok_def shard_index_cong [OF assms(2)])
  qed
  with assms show ?thesis by (auto simp: sharded_ok_def)
qed

context posting_list
begin

lemma sharded_add_ok:
  assumes ok: "sharded_ok (index_ok pl_set pl_ok) si" and new: "sharded_labels si i = None" and "smap_ok l"
    and cap: "Suc (card (dom (sharded_labels si))) < 2 ^ 32"
  shows "sharded_ok (index_ok pl_set pl_ok) (sharded_add_series ops i l si)"
    "sharded_labels (sharded_add_series ops i l si) = (sharded_labels si)(i \<mapsto> l)"
proof -
  let ?k = "get_shard_index i si"
  let ?ix = "shards si ! ?k"
  let ?si = "si\<lparr>shards := (shards si)[?k := add_series ops i l ?ix], total_series := total_series si + 1\<rparr>"
  have k: "?k < num_shards si" "length (shards si) = num_shards si" "index_ok pl_set pl_ok ?ix" "counters_ok si"
    "distinct (map fst (metric_shard_counts si))"
    using ok get_shard_index_less by (auto simp: sharded_ok_def)
  have new': "map_of (series_labels ?ix) i = None" using new by (simp add: sharded_labels_def)
  have eq: "sharded_add_series ops i l si = count_added (metric_of l) ?k ?si"
    by (simp add: sharded_add_series_def Let_def)
  have lens: "\<forall>metric c. map_of (metric_shard_counts ?si) metric = Some c \<longrightarrow> length c = num_shards ?si"
    using k(4) by (simp add: counters_ok_def)
  have "unat (counter metric k' (count_added (metric_of l) ?k ?si)) = card (named metric (shards ?si ! k'))"
    if m: "metric \<noteq> []" and k': "k' < num_shards si" for metric k'
  proof -
    have old: "unat (counter metric k' si) = card (named metric (shards si ! k'))" "counter metric k' ?si = counter metric k' si"
      using k(4) m k' by (auto simp: counters_ok_def counter_def)
    have "card (named metric (shards si ! k')) \<le> card (dom (sharded_labels si))"
      by (rule card_named_le [OF ok k' finite_sharded_labels [OF ok]])
    with cap old have "unat (counter metric k' si + 1) = Suc (card (named metric (shards si ! k')))"
      using unat_Suc_32 [of "counter metric k' si"] by simp
    with old counter_added [OF lens, of ?k metric k' "metric_of l"] k m k'
      named_add(1) [OF new', of metric ops l] named_add(2) [OF new', of metric] finite_named [of metric ?ix]
    show ?thesis by (auto simp: nth_list_update)
  qed
  with counters_length(1) [OF lens, of "metric_of l" ?k] k(5) have "counters_ok (sharded_add_series ops i l si)"
    unfolding eq counters_ok_def by simp
  then show "sharded_ok (index_ok pl_set pl_ok) (sharded_add_series ops i l si)"
    using index_ok_add_series [OF k(3) new' assms(3)] count_added_keys(1) [of ?si] k
    by (intro sharded_ok_update [OF ok, of _ i "add_series ops i l ?ix"]) (auto simp: eq series_labels_add smap_simps)
  show "sharded_labels (sharded_add_series ops i l si) = (sharded_labels si)(i \<mapsto> l)"
    by (rule sharded_labels_update [OF ok, of _ _ "add_series ops i l ?ix"]) (simp_all add: eq series_labels_add smap_simps)
qed

lemma sharded_remove_ok:
  assumes ok: "sharded_ok (index_ok pl_set pl_ok) si"
  shows "sharded_ok (index_ok pl_set pl_ok) (sharded_remove_series ops i si)"
    "sharded_labels (sharded_remove_series ops i si) = (sharded_labels si)(i := None)"
proof -
  let ?k = "get_shard_index i si"
  let ?ix = "shards si ! ?k"
  let ?si = "si\<lparr>shards := (shards si)[?k := remove_series ops i ?ix], total_series := total_series si - 1\<rparr>"
  define metric where "metric = (case get_labels i ?ix of Inl e \<Rightarrow> [] | Inr l \<Rightarrow> metric_of l)"
  have k: "?k < num_shards si" "length (shards si) = num_shards si" "index_ok pl_set pl_ok ?ix" "counters_ok si"
    "distinct (map fst (metric_shard_counts si))"
    using ok get_shard_index_less by (auto simp: sharded_ok_def)
  have eq: "sharded_remove_series ops i si = count_removed metric ?k ?si"
    by (simp add: sharded_remove_series_def Let_def metric_def)
  have lens: "\<forall>m c. map_of (metric_shard_counts ?si) m = Some c \<longrightarrow> length c = num_shards ?si"
    using k(4) by (simp add: counters_ok_def)
  have mem: "i \<in> named m ?ix \<longleftrightarrow> m = metric" if "m \<noteq> []" for m
    using that by (auto simp: named_def metric_def get_labels_def split: option.split)
  have "unat (counter m k' (count_removed metric ?k ?si)) = card (named m (shards ?si ! k'))"
    if m: "m \<noteq> []" and k': "k' < num_shards si" for m k'
  proof -
    have old: "unat (counter m k' si) = card (named m (shards si ! k'))" "counter m k' ?si = counter m k' si"
      if "m \<noteq> []" "k' < num_shards si" for m k'
      using k(4) that by (auto simp: counters_ok_def counter_def)
    have pos: "metric = [] \<or> 0 < counter metric ?k ?si"
      using old [of metric ?k] k(1) mem [of metric] finite_named [of metric ?ix]
      by (auto simp: word_gt_0 card_gt_0_iff unat_eq_zero)
    have card: "card (named m ?ix - {i}) = (if m = metric then card (named m ?ix) - 1 else card (named m ?ix))"
      using mem [OF m] finite_named [of m ?ix] by (cases "m = metric") (simp_all add: card_Diff_singleton)
    have "unat (w - 1 :: uint32) = unat w - 1" if "0 < w" for w
      using that by (simp add: unat_minus_one word_gt_0)
    with old [OF m k'] counter_removed [OF lens, of ?k m k' metric] k m k' pos card named_remove [of m ops i ?ix]
    show ?thesis by (auto simp: nth_list_update)
  qed
  with counters_length(2) [OF lens, of metric ?k] k(5) have "counters_ok (sharded_remove_series ops i si)"
    unfolding eq counters_ok_def by simp
  then show "sharded_ok (index_ok pl_set pl_ok) (sharded_remove_series ops i si)"
    using index_ok_remove_series [OF k(3)] count_added_keys(2) [of ?si] k
    by (intro sharded_ok_update [OF ok, of _ i "remove_series ops i ?ix"]) (auto simp: eq series_labels_remove)
  show "sharded_labels (sharded_remove_series ops i si) = (sharded_labels si)(i := None)"
    by (rule sharded_labels_update [OF ok, of _ _ "remove_series ops i ?ix"]) (simp_all add: eq series_labels_remove)
qed

text \<open>A shard that is not asked holds no series of the metric.\<close>

lemma unrouted_shard_empty:
  assumes ok: "sharded_ok (index_ok pl_set pl_ok) si" and k: "k < num_shards si" "k \<notin> set (query_shards ms si)"
  shows "find_series ops re ms (shards si ! k) = []" "find_series_with_labels ops re ms (shards si ! k) = []"
proof -
  let ?m = "route_metric ms"
  have m: "?m \<noteq> []" "k \<notin> set (get_routed_shards_for_metric ?m si)" "get_routed_shards_for_metric ?m si \<noteq> []"
    using k by (auto simp: query_shards_def Let_def split: if_splits)
  then have "counter ?m k si = 0"
    using k(1) by (auto simp: get_routed_shards_for_metric_def counter_def word_gt_0 split: option.splits if_splits)
  moreover have "unat (counter ?m k si) = card (named ?m (shards si ! k))"
    using ok m(1) k(1) by (auto simp: sharded_ok_def counters_ok_def)
  ultimately have none: "named ?m (shards si ! k) = {}" using finite_named [of ?m "shards si ! k"] by simp
  obtain mt where mt: "List.find (\<lambda>m. m_type m = Equal \<and> m_name m = ''__name__'' \<and> m_value m \<noteq> []) ms = Some mt"
    "m_value mt = ?m"
    using m(1) by (auto simp: route_metric_def split: option.splits)
  then have "mt \<in> set ms" "m_type mt = Equal" "m_name mt = ''__name__''"
    by (auto simp: find_Some_iff)
  with mt m(1) have "list_all (matches re l) ms \<Longrightarrow> metric_of l = ?m" for l
    by (auto simp: list_all_iff matches_def metric_of_def Let_def split: option.splits)
  with none have "selected re ms (shards si ! k) = {}" by (auto simp: selected_def named_def)
  with find_series_selected(1) [of "shards si ! k" re ms] ok k(1) show "find_series ops re ms (shards si ! k) = []"
    by (auto simp: sharded_ok_def)
  then show "find_series_with_labels ops re ms (shards si ! k) = []"
    by (simp add: find_series_with_labels_def with_labels_def List.map_filter_def)
qed

lemma gather_all:
  assumes "\<And>k. \<lbrakk>k < num_shards si; k \<notin> set ks\<rbrakk> \<Longrightarrow> f (shards si ! k) = []" "length (shards si) = num_shards si"
  shows "gather f ks si = concat (map f (shards si))"
proof -
  have "map f (shards si) = map (\<lambda>k. f (shards si ! k)) [0..<num_shards si]"
    by (rule nth_equalityI) (simp_all add: assms(2))
  moreover have "map (\<lambda>k. if k \<in> set ks then f (shards si ! k) else []) [0..<num_shards si]
      = map (\<lambda>k. f (shards si ! k)) [0..<num_shards si]"
    using assms(1) by auto
  ultimately show ?thesis unfolding gather_def by metis
qed

lemma routing_transparent:
  assumes ok: "sharded_ok (index_ok pl_set pl_ok) si"
  shows "fst (sharded_find_series ops re ms si) = concat (map (find_series ops re ms) (shards si))"
    "fst (sharded_find_series_with_labels ops re ms si) = concat (map (find_series_with_labels ops re ms) (shards si))"
proof -
  have len: "length (shards si) = num_shards si" using ok by (simp add: sharded_ok_def)
  show "fst (sharded_find_series ops re ms si) = concat (map (find_series ops re ms) (shards si))"
    unfolding sharded_find_series_def Let_def fst_conv
    by (rule gather_all) (simp_all add: unrouted_shard_empty [OF ok] len)
  show "fst (sharded_find_series_with_labels ops re ms si) = concat (map (find_series_with_labels ops re ms) (shards si))"
    unfolding sharded_find_series_with_labels_def Let_def fst_conv
    by (rule gather_all) (simp_all add: unrouted_shard_empty [OF ok] len)
qed

lemma sharded_find_set:
  assumes ok: "sharded_ok (index_ok pl_set pl_ok) si"
  shows "distinct (fst (sharded_find_series ops re ms si))"
    "set (fst (sharded_find_series ops re ms si)) = {i. \<exists>l. sharded_labels si i = Some l \<and> list_all (matches re l) ms}"
proof -
  have ix: "index_ok pl_set pl_ok (shards si ! k)" "i \<in> dom (map_of (series_labels (shards si ! k))) \<Longrightarrow> get_shard_index i si = k"
    if "k < num_shards si" for k i
    using ok that by (auto simp: sharded_ok_def)
  have len: "length (shards si) = num_shards si" "0 < num_shards si" using ok by (auto simp: sharded_ok_def)
  note found = find_series_selected [OF ix(1), where re = re and matchers = ms]
  have mem: "i \<in> set (find_series ops re ms (shards si ! k)) \<longleftrightarrow>
      get_shard_index i si = k \<and> (\<exists>l. sharded_labels si i = Some l \<and> list_all (matches re l) ms)"
    if "k < num_shards si" for i k
    using found(1) [OF that] ix(2) [OF that, of i] by (auto simp: selected_def sharded_labels_def)
  show "set (fst (sharded_find_series ops re ms si)) = {i. \<exists>l. sharded_labels si i = Some l \<and> list_all (matches re l) ms}"
    unfolding routing_transparent [OF ok] using mem len get_shard_index_less [OF len(2)]
    by (auto simp: set_conv_nth [of "shards si"]) metis
  show "distinct (fst (sharded_find_series ops re ms si))"
    unfolding routing_transparent [OF ok]
    by (rule distinct_concat_disjoint) (use found(2) mem len in \<open>auto simp: disjoint_iff\<close>)
qed

lemma sharded_catalog:
  "series_catalog (sharded_ok (index_ok pl_set pl_ok)) sharded_labels (2 ^ 32)
     (sharded_add_series ops) (sharded_remove_series ops) (\<lambda>re ms si. fst (sharded_find_series ops re ms si))"
  using finite_sharded_labels sharded_add_ok sharded_remove_ok sharded_find_set
  by unfold_locales blast+

end

interpretation sharded: series_catalog "sharded_ok (index_ok set (sorted_wrt (<)))" sharded_labels "2 ^ 32"
  "sharded_add_series vector_ops" "sharded_remove_series vector_ops"
  "\<lambda>re ms si. fst (sharded_find_series vector_ops re ms si)"
  by (rule vectors.sharded_catalog)

lemma fresh_sharded_ok:
  assumes "0 < n"
  shows "sharded_ok (index_ok set (sorted_wrt (<))) (mk_sharded_index n)" "sharded_labels (mk_sharded_index n) = Map.empty"
proof -
  have "index_ok set (sorted_wrt (<)) empty_index"
    by (simp add: empty_index_def index_ok_def posting_set_def)
  then show "sharded_ok (index_ok set (sorted_wrt (<))) (mk_sharded_index n)"
    using assms
    by (auto simp: sharded_ok_def mk_sharded_index_def counters_ok_def counter_def named_def empty_index_def)
  show "sharded_labels (mk_sharded_index n) = Map.empty"
    using assms by (simp add: fun_eq_iff sharded_labels_def mk_sharded_index_def get_shard_index_def empty_index_def)
qed

lemma fresh_index_ok: "index_ok set (sorted_wrt (<)) empty_index" "map_of (series_labels empty_index) = Map.empty"
  by (simp_all add: empty_index_def index_ok_def posting_set_def)

section \<open>Properties\<close>

text \<open>
  C16: Sharding and routing are transparent: after any admissible updates from an empty state, a
  query of the sharded index returns each series once and the same set of series as one plain
  index after the same updates, for every number of shards, although routed queries skip shards.
\<close>

theorem sharded_index_equivalent:
  assumes "0 < n" "admissible (2 ^ 32) Map.empty us"
  shows "distinct (fst (sharded_find_series vector_ops re ms
      (apply_updates (sharded_add_series vector_ops) (sharded_remove_series vector_ops) us (mk_sharded_index n))))
    \<and> set (fst (sharded_find_series vector_ops re ms
      (apply_updates (sharded_add_series vector_ops) (sharded_remove_series vector_ops) us (mk_sharded_index n))))
     = set (find_series vector_ops re ms
      (apply_updates (add_series vector_ops) (remove_series vector_ops) us empty_index))"
  using sharded.updates_find [OF fresh_sharded_ok(1) [OF assms(1)], of us re ms]
    single.updates_find [OF fresh_index_ok(1), of "2 ^ 32" us re ms] assms
  by (simp add: fresh_sharded_ok(2) fresh_index_ok(2))

theorem sharded_index_equivalent_witness:
  "set (fst (sharded_find_series vector_ops (\<lambda>p. None) [\<lparr>m_type = Equal, m_name = ''__name__'', m_value = ''up''\<rparr>]
      (apply_updates (sharded_add_series vector_ops) (sharded_remove_series vector_ops)
         [AddSeries 1 [(''__name__'', ''up'')], AddSeries 2 [(''__name__'', ''cpu'')], AddSeries 4 [(''__name__'', ''up'')],
          RemoveSeries 1] (mk_sharded_index 3)))) = {4}"
proof -
  let ?us = "[AddSeries 1 [(''__name__'', ''up'')], AddSeries 2 [(''__name__'', ''cpu'')],
    AddSeries 4 [(''__name__'', ''up'')], RemoveSeries 1]"
  have "admissible (2 ^ 32) Map.empty ?us" by (simp add: smap_ok_def card_insert_if)
  moreover have "set (find_series vector_ops (\<lambda>p. None) [\<lparr>m_type = Equal, m_name = ''__name__'', m_value = ''up''\<rparr>]
      (apply_updates (add_series vector_ops) (remove_series vector_ops) ?us empty_index)) = {4}"
    by code_simp
  ultimately show ?thesis using sharded_index_equivalent [of 3 ?us] by simp
qed

text \<open>
  The series count can run below zero: \<open>remove_series\<close> of an id that is not in the index
  succeeds and still decrements \<open>total_series_\<close>, which wraps around to \<open>2^64 - 1\<close>.
\<close>

theorem total_series_underflow:
  "fst (get_stats (sharded_remove_series vector_ops 7 (mk_sharded_index 16))) = 2 ^ 64 - 1"
  by code_simp

end
