(* ===== verification/Working_Set_Cache.thy ===== *)
theory Working_Set_Cache
  imports Core_Types "HOL-Library.Sublist"
begin

text \<open>
  \<open>WorkingSetCache\<close> (\<open>src/tsdb/storage/working_set_cache.cpp\<close>): the L1 cache, a \<open>std::list\<close> in
  recency order and a hash map from series id to list iterator. A list node has an address, the
  map stores addresses, and an iterator whose node is not in the list is a dangling one: an
  operation that would dereference it has no result (\<open>None\<close>). Cached series are
  \<open>shared_ptr\<close>s into a heap of time series, because \<open>put\<close> on a cached id merges into the shared
  object. The clock is a parameter. The abstract view of the cache is the recency list of ids
  with their pointers.
\<close>

section \<open>State\<close>

record entry_metadata =
  md_series_id :: uint64
  last_access :: int
  created_at :: int
  access_count :: uint64
  size_bytes :: uint64
  is_dirty :: bool

definition new_metadata :: "int \<Rightarrow> entry_metadata" where
  "new_metadata now = \<lparr>md_series_id = 0, last_access = now, created_at = now, access_count = 0,
     size_bytes = 0, is_dirty = False\<rparr>"

definition record_access :: "int \<Rightarrow> entry_metadata \<Rightarrow> entry_metadata" where
  "record_access now m = m\<lparr>last_access := now, access_count := access_count m + 1\<rparr>"

record cache_entry =
  node :: nat
  ce_id :: uint64
  ce_series :: nat
  ce_metadata :: entry_metadata

record cache =
  max_size :: nat
  lru_list :: "cache_entry list"
  cache_map :: "(uint64 \<times> nat) list"
  hit_count :: uint64
  miss_count :: uint64
  next_node :: nat

type_synonym heap = "nat \<rightharpoonup> time_series"

definition mk_cache :: "nat \<Rightarrow> exn + cache" where
  "mk_cache n =
     (if n = 0 then Inl (InvalidArgumentError ''Cache max size must be greater than 0'')
      else Inr \<lparr>max_size = n, lru_list = [], cache_map = [], hit_count = 0, miss_count = 0,
             next_node = 0\<rparr>)"

section \<open>List helpers\<close>

definition deref :: "nat \<Rightarrow> cache \<Rightarrow> cache_entry option" where
  "deref n c = find (\<lambda>e. node e = n) (lru_list c)"

text \<open>\<open>splice\<close> of one node to the front.\<close>

definition move_to_front :: "nat \<Rightarrow> cache \<Rightarrow> cache option" where
  "move_to_front n c =
     (case deref n c of
        None \<Rightarrow> None
      | Some e \<Rightarrow> Some (c\<lparr>lru_list := e # filter (\<lambda>x. node x \<noteq> n) (lru_list c)\<rparr>))"

definition evict_lru :: "cache \<Rightarrow> cache" where
  "evict_lru c =
     (if lru_list c = [] then c
      else c\<lparr>cache_map := smap_erase (ce_id (last (lru_list c))) (cache_map c),
             lru_list := butlast (lru_list c)\<rparr>)"

definition add_entry :: "int \<Rightarrow> uint64 \<Rightarrow> nat \<Rightarrow> cache \<Rightarrow> cache" where
  "add_entry now i p c =
     c\<lparr>lru_list := \<lparr>node = next_node c, ce_id = i, ce_series = p, ce_metadata = new_metadata now\<rparr>
         # lru_list c,
       cache_map := smap_insert i (next_node c) (cache_map c), next_node := next_node c + 1\<rparr>"

section \<open>Operations\<close>

definition cache_get :: "int \<Rightarrow> uint64 \<Rightarrow> cache \<Rightarrow> (nat option \<times> cache) option" where
  "cache_get now i c =
     (case map_of (cache_map c) i of
        None \<Rightarrow> Some (None, c\<lparr>miss_count := miss_count c + 1\<rparr>)
      | Some n \<Rightarrow>
          (case move_to_front n c of
             None \<Rightarrow> None
           | Some c1 \<Rightarrow>
               let c2 = c1\<lparr>hit_count := hit_count c1 + 1,
                      lru_list := map (\<lambda>e. if node e = n
                          then e\<lparr>ce_metadata := record_access now (ce_metadata e)\<rparr> else e) (lru_list c1)\<rparr>
               in map_option (\<lambda>e. (Some (ce_series e), c2)) (deref n c2)))"

text \<open>The merge loop of \<open>put\<close>: only samples later than the last one are added.\<close>

fun merge_loop :: "sample list \<Rightarrow> int64 \<Rightarrow> bool \<Rightarrow> time_series \<Rightarrow> exn + time_series" where
  "merge_loop [] last_ts has_samples ts = Inr ts"
| "merge_loop (s # ss) last_ts has_samples ts =
     (if \<not> has_samples \<or> sint last_ts < sint (timestamp s) then
        (case add_sample s ts of
           Inl e \<Rightarrow> Inl e
         | Inr ts' \<Rightarrow> merge_loop ss (timestamp s) True ts')
      else merge_loop ss last_ts has_samples ts)"

definition merge_into :: "sample list \<Rightarrow> time_series \<Rightarrow> exn + time_series" where
  "merge_into ss ts =
     (if ts_samples ts = [] then merge_loop ss 0 False ts
      else merge_loop ss (timestamp (last (ts_samples ts))) True ts)"

text \<open>\<open>put\<close> with a possibly null pointer; no result means a dangling iterator or a freed object.\<close>

definition cache_put ::
  "int \<Rightarrow> uint64 \<Rightarrow> nat option \<Rightarrow> cache \<times> heap \<Rightarrow> (exn + cache \<times> heap) option" where
  "cache_put now i p st =
     (let (c, h) = st in
      case p of
        None \<Rightarrow> Some (Inl (InvalidArgumentError ''Cannot cache null time series''))
      | Some q \<Rightarrow>
          (case map_of (cache_map c) i of
             Some n \<Rightarrow>
               (case deref n c of
                  None \<Rightarrow> None
                | Some e \<Rightarrow>
                    (case (h (ce_series e), h q) of
                       (Some old, Some new) \<Rightarrow>
                         (case merge_into (ts_samples new) old of
                            Inl ex \<Rightarrow> Some (Inl ex)
                          | Inr ts \<Rightarrow>
                              map_option (\<lambda>c'. Inr (c', h(ce_series e \<mapsto> ts))) (move_to_front n c))
                     | _ \<Rightarrow> None))
           | None \<Rightarrow>
               let c1 = (if max_size c \<le> length (cache_map c) then evict_lru c else c)
               in Some (Inr (add_entry now i q c1, h))))"

definition cache_remove :: "uint64 \<Rightarrow> cache \<Rightarrow> (bool \<times> cache) option" where
  "cache_remove i c =
     (case map_of (cache_map c) i of
        None \<Rightarrow> Some (False, c)
      | Some n \<Rightarrow>
          (case deref n c of
             None \<Rightarrow> None
           | Some e \<Rightarrow> Some (True, c\<lparr>lru_list := filter (\<lambda>x. node x \<noteq> n) (lru_list c),
               cache_map := smap_erase i (cache_map c)\<rparr>)))"

definition cache_clear :: "cache \<Rightarrow> cache" where
  "cache_clear c = c\<lparr>lru_list := [], cache_map := []\<rparr>"

definition cache_size :: "cache \<Rightarrow> nat" where
  "cache_size c = length (cache_map c)"

definition is_full :: "cache \<Rightarrow> bool" where
  "is_full c \<longleftrightarrow> max_size c \<le> length (cache_map c)"

definition reset_stats :: "cache \<Rightarrow> cache" where
  "reset_stats c = c\<lparr>hit_count := 0, miss_count := 0\<rparr>"

definition get_all_series_ids :: "cache \<Rightarrow> uint64 list" where
  "get_all_series_ids c = map fst (cache_map c)"

definition get_lru_series_id :: "cache \<Rightarrow> uint64" where
  "get_lru_series_id c = (if lru_list c = [] then 0 else ce_id (last (lru_list c)))"

definition evict_lru_and_get_with_id :: "cache \<Rightarrow> (uint64 \<times> nat option) \<times> cache" where
  "evict_lru_and_get_with_id c =
     (if lru_list c = [] then ((0, None), c)
      else
        let e = last (lru_list c)
        in ((ce_id e, Some (ce_series e)),
            c\<lparr>cache_map := smap_erase (ce_id e) (cache_map c), lru_list := butlast (lru_list c)\<rparr>))"

definition evict_lru_and_get :: "cache \<Rightarrow> nat option \<times> cache" where
  "evict_lru_and_get c =
     (if lru_list c = [] then (None, c)
      else
        let e = last (lru_list c)
        in (Some (ce_series e),
            c\<lparr>cache_map := smap_erase (ce_id e) (cache_map c), lru_list := butlast (lru_list c)\<rparr>))"

definition get_metadata :: "uint64 \<Rightarrow> cache \<Rightarrow> entry_metadata option option" where
  "get_metadata i c =
     (case map_of (cache_map c) i of
        None \<Rightarrow> Some None
      | Some n \<Rightarrow> map_option (\<lambda>e. Some (ce_metadata e)) (deref n c))"

section \<open>Invariant and abstract view\<close>

text \<open>List and map describe the same entries: node addresses and ids are distinct, and the map
  leads from each id to its node.\<close>

definition cache_ok :: "cache \<Rightarrow> bool" where
  "cache_ok c \<longleftrightarrow> 0 < max_size c \<and> length (lru_list c) \<le> max_size c
     \<and> distinct (map node (lru_list c)) \<and> distinct (map ce_id (lru_list c))
     \<and> (\<forall>e \<in> set (lru_list c). node e < next_node c) \<and> smap_ok (cache_map c)
     \<and> set (cache_map c) = (\<lambda>e. (ce_id e, node e)) ` set (lru_list c)"

definition recency :: "cache \<Rightarrow> (uint64 \<times> nat) list" where
  "recency c = map (\<lambda>e. (ce_id e, ce_series e)) (lru_list c)"

text \<open>The LRU policy on the abstract view.\<close>

definition lru_front :: "'k \<Rightarrow> ('k \<times> 'v) list \<Rightarrow> ('k \<times> 'v) list" where
  "lru_front k xs = (case map_of xs k of None \<Rightarrow> xs | Some v \<Rightarrow> (k, v) # filter (\<lambda>x. fst x \<noteq> k) xs)"

definition lru_put :: "nat \<Rightarrow> 'k \<Rightarrow> 'v \<Rightarrow> ('k \<times> 'v) list \<Rightarrow> ('k \<times> 'v) list" where
  "lru_put cap k v xs =
     (if k \<in> fst ` set xs then lru_front k xs
      else (k, v) # (if cap \<le> length xs then butlast xs else xs))"

section \<open>Reading the invariant\<close>

lemma find_unique: "\<lbrakk>distinct (map f xs); e \<in> set xs\<rbrakk> \<Longrightarrow> find (\<lambda>x. f x = f e) xs = Some e"
  by (induction xs) auto

lemma cache_okD:
  assumes "cache_ok c"
  shows "map_of (cache_map c) i = Some n \<longleftrightarrow> (\<exists>e \<in> set (lru_list c). ce_id e = i \<and> node e = n)"
    and "map_of (cache_map c) i = None \<longleftrightarrow> i \<notin> ce_id ` set (lru_list c)"
    and "length (cache_map c) = length (lru_list c)"
    and "e \<in> set (lru_list c) \<Longrightarrow> deref (node e) c = Some e"
proof -
  have d: "distinct (map fst (cache_map c))" "set (cache_map c) = (\<lambda>e. (ce_id e, node e)) ` set (lru_list c)"
    and nodes: "distinct (map node (lru_list c))" and ids: "distinct (map ce_id (lru_list c))"
    using assms by (auto simp: cache_ok_def smap_ok_distinct)
  show some: "map_of (cache_map c) i = Some n \<longleftrightarrow> (\<exists>e \<in> set (lru_list c). ce_id e = i \<and> node e = n)" for i n
    using d by (auto simp flip: map_of_eq_Some_iff [OF d(1)])
  show "map_of (cache_map c) i = None \<longleftrightarrow> i \<notin> ce_id ` set (lru_list c)"
  proof (cases "map_of (cache_map c) i")
    case None
    then show ?thesis using some [of i] by auto
  next
    case (Some n)
    then obtain e where "e \<in> set (lru_list c)" "ce_id e = i" using some by blast
    with Some show ?thesis by auto
  qed
  have "set (map fst (cache_map c)) = set (map ce_id (lru_list c))"
    using d(2) by (simp add: image_image)
  then show "length (cache_map c) = length (lru_list c)"
    using distinct_card [OF d(1)] distinct_card [OF ids] by (metis length_map)
  show "deref (node e) c = Some e" if "e \<in> set (lru_list c)"
    using find_unique [OF nodes that] by (simp add: deref_def)
qed

lemma same_entry:
  assumes "distinct (map node xs)" "distinct (map ce_id xs)" "e \<in> set xs"
  shows "filter (\<lambda>x. node x \<noteq> node e) xs = filter (\<lambda>x. ce_id x \<noteq> ce_id e) xs"
  using assms by (intro filter_cong) (auto simp: distinct_map dest: inj_onD)

lemma map_of_recency:
  assumes "cache_ok c" "e \<in> set (lru_list c)"
  shows "map_of (recency c) (ce_id e) = Some (ce_series e)"
proof -
  have "distinct (map fst (recency c))"
    using assms(1) by (simp add: recency_def cache_ok_def comp_def)
  then show ?thesis using assms(2) by (simp add: recency_def)
qed

lemma recency_keys: "fst ` set (recency c) = ce_id ` set (lru_list c)"
  by (auto simp: recency_def image_image)

section \<open>Every operation keeps the invariant and follows the policy\<close>

lemma move_to_front_ok:
  assumes "cache_ok c" "e \<in> set (lru_list c)"
  shows "\<exists>c'. move_to_front (node e) c = Some c' \<and> cache_ok c' \<and> recency c' = lru_front (ce_id e) (recency c)
    \<and> c' = c\<lparr>lru_list := e # filter (\<lambda>x. node x \<noteq> node e) (lru_list c)\<rparr>"
proof -
  let ?rest = "filter (\<lambda>x. node x \<noteq> node e) (lru_list c)"
  let ?c = "c\<lparr>lru_list := e # ?rest\<rparr>"
  have ok: "distinct (map node (lru_list c))" "distinct (map ce_id (lru_list c))"
    using assms(1) by (auto simp: cache_ok_def)
  note rest = same_entry [OF ok assms(2)]
  have set: "set (e # ?rest) = set (lru_list c)"
    using assms(2) ok(1) by (auto simp: distinct_map dest: inj_onD)
  have "distinct (map ce_id (e # ?rest))"
    unfolding rest using distinct_map_filter [OF ok(2)] by auto
  moreover have "distinct (map node (e # ?rest))"
    using distinct_map_filter [OF ok(1)] by auto
  moreover have "length (e # ?rest) \<le> max_size c"
    using assms distinct_card [OF calculation(2)] distinct_card [OF ok(1)] set
    by (metis (no_types, lifting) cache_ok_def length_map list.set_map)
  ultimately have "cache_ok ?c" using assms(1) set by (simp add: cache_ok_def)
  moreover have "recency ?c = lru_front (ce_id e) (recency c)"
    using map_of_recency [OF assms] rest
    by (simp add: recency_def lru_front_def filter_map comp_def)
  ultimately show ?thesis
    using cache_okD(4) [OF assms] by (simp add: move_to_front_def)
qed

text \<open>Only addresses and ids matter for the invariant.\<close>

lemma cache_ok_cong:
  assumes "map (\<lambda>e. (node e, ce_id e)) (lru_list c') = map (\<lambda>e. (node e, ce_id e)) (lru_list c)"
    and "max_size c' = max_size c" "cache_map c' = cache_map c" "next_node c' = next_node c"
  shows "cache_ok c' \<longleftrightarrow> cache_ok c"
proof -
  have nodes: "map node (lru_list c') = map node (lru_list c)"
    using arg_cong [OF assms(1), of "map fst"] by (simp add: comp_def)
  have ids: "map ce_id (lru_list c') = map ce_id (lru_list c)"
    using arg_cong [OF assms(1), of "map snd"] by (simp add: comp_def)
  have pairs: "(\<lambda>e. (ce_id e, node e)) ` set (lru_list c') = (\<lambda>e. (ce_id e, node e)) ` set (lru_list c)"
    using arg_cong [OF assms(1), of "\<lambda>xs. prod.swap ` set xs"] by (simp add: image_image)
  have len: "length (lru_list c') = length (lru_list c)"
    using arg_cong [OF nodes, of length] by simp
  have fresh: "(\<forall>e \<in> set (lru_list x). node e < k) \<longleftrightarrow> (\<forall>n \<in> set (map node (lru_list x)). n < k)" for x k
    by simp
  show ?thesis
    unfolding cache_ok_def fresh nodes ids pairs len assms(2-4) by (rule refl)
qed

lemma cache_ok_metadata:
  assumes "cache_ok c"
  shows "cache_ok (c\<lparr>hit_count := k, lru_list := map (\<lambda>e. if P e then e\<lparr>ce_metadata := f e\<rparr> else e) (lru_list c)\<rparr>)"
    and "recency (c\<lparr>hit_count := k, lru_list := map (\<lambda>e. if P e then e\<lparr>ce_metadata := f e\<rparr> else e) (lru_list c)\<rparr>)
      = recency c"
proof -
  let ?g = "\<lambda>e. if P e then e\<lparr>ce_metadata := f e\<rparr> else e"
  show "cache_ok (c\<lparr>hit_count := k, lru_list := map ?g (lru_list c)\<rparr>)"
    using assms by (subst cache_ok_cong [where c = c]) simp_all
  show "recency (c\<lparr>hit_count := k, lru_list := map ?g (lru_list c)\<rparr>) = recency c"
    by (simp add: recency_def)
qed

lemma cache_get_refines:
  assumes "cache_ok c"
  shows "\<exists>r c'. cache_get now i c = Some (r, c') \<and> cache_ok c' \<and> r = map_of (recency c) i
    \<and> recency c' = lru_front i (recency c) \<and> max_size c' = max_size c"
proof (cases "map_of (cache_map c) i")
  case None
  then have "map_of (recency c) i = None"
    using cache_okD(2) [OF assms] recency_keys [of c] by (simp add: map_of_eq_None_iff)
  then show ?thesis
    using None assms by (simp add: cache_get_def lru_front_def recency_def cache_ok_def)
next
  case (Some n)
  then obtain e where e: "e \<in> set (lru_list c)" "ce_id e = i" "node e = n"
    using cache_okD(1) [OF assms] by blast
  obtain c1 where c1: "move_to_front n c = Some c1" "cache_ok c1" "recency c1 = lru_front i (recency c)"
      "c1 = c\<lparr>lru_list := e # filter (\<lambda>x. node x \<noteq> node e) (lru_list c)\<rparr>"
    using move_to_front_ok [OF assms e(1)] e(2,3) by auto
  let ?c2 = "c1\<lparr>hit_count := hit_count c1 + 1, lru_list := map (\<lambda>e. if node e = n
      then e\<lparr>ce_metadata := record_access now (ce_metadata e)\<rparr> else e) (lru_list c1)\<rparr>"
  note c2 = cache_ok_metadata [OF c1(2), where k = "hit_count c1 + 1" and P = "\<lambda>e. node e = n"
      and f = "\<lambda>e. record_access now (ce_metadata e)"]
  have "deref n ?c2 = Some (e\<lparr>ce_metadata := record_access now (ce_metadata e)\<rparr>)"
    using e(3) c1(4) by (simp add: deref_def)
  then have "cache_get now i c = Some (Some (ce_series e), ?c2)"
    using Some c1(1) by (simp add: cache_get_def Let_def)
  moreover have "map_of (recency c) i = Some (ce_series e)"
    using map_of_recency [OF assms e(1)] e(2) by simp
  ultimately show ?thesis using c2 c1(3,4) by simp
qed

lemma evict_lru_ok:
  assumes "cache_ok c"
  shows "cache_ok (evict_lru c)" "recency (evict_lru c) = butlast (recency c)"
    "max_size (evict_lru c) = max_size c" "next_node (evict_lru c) = next_node c"
proof -
  show "cache_ok (evict_lru c)"
  proof (cases "lru_list c" rule: rev_cases)
    case Nil
    then show ?thesis using assms by (simp add: evict_lru_def)
  next
    case (snoc xs e)
    have "set (smap_erase (ce_id e) (cache_map c)) = (\<lambda>e. (ce_id e, node e)) ` set xs"
      using assms snoc by (auto simp: cache_ok_def smap_erase_def) (metis imageI)
    then show ?thesis
      using assms snoc by (auto simp: cache_ok_def evict_lru_def smap_simps)
  qed
  show "recency (evict_lru c) = butlast (recency c)"
    by (simp add: evict_lru_def recency_def map_butlast)
qed (simp_all add: evict_lru_def)

lemma add_entry_ok:
  assumes "cache_ok c" "i \<notin> ce_id ` set (lru_list c)" "length (lru_list c) < max_size c"
  shows "cache_ok (add_entry now i p c)" "recency (add_entry now i p c) = (i, p) # recency c"
proof -
  have "map_of (cache_map c) i = None" using cache_okD(2) [OF assms(1)] assms(2) by simp
  then have "set (smap_insert i (next_node c) (cache_map c)) = insert (i, next_node c) (set (cache_map c))"
    by (intro set_smap_insert_new) (simp add: map_of_eq_None_iff)
  then show "cache_ok (add_entry now i p c)"
    using assms by (fastforce simp: cache_ok_def add_entry_def smap_simps)
  show "recency (add_entry now i p c) = (i, p) # recency c"
    by (simp add: add_entry_def recency_def)
qed

text \<open>\<open>merge_into\<close> never throws: the loop's guard is the one of \<open>add_sample\<close>.\<close>

lemma merge_loop_ok:
  assumes "chronological (ts_samples ts)" "has \<longleftrightarrow> ts_samples ts \<noteq> []"
    and "has \<Longrightarrow> last_ts = timestamp (last (ts_samples ts))"
  shows "\<exists>ts'. merge_loop ss last_ts has ts = Inr ts' \<and> ts_labels ts' = ts_labels ts
    \<and> chronological (ts_samples ts') \<and> (\<exists>new. ts_samples ts' = ts_samples ts @ new \<and> subseq new ss)"
  using assms
proof (induction ss arbitrary: last_ts has ts)
  case (Cons s ss)
  show ?case
  proof (cases "\<not> has \<or> sint last_ts < sint (timestamp s)")
    case True
    let ?ts = "ts\<lparr>ts_samples := ts_samples ts @ [s]\<rparr>"
    have add: "add_sample s ts = Inr ?ts"
      using True Cons.prems(2,3) by (intro add_sample_later) auto
    have "chronological (ts_samples ?ts)"
      using Cons.prems(1) add by (rule add_sample_chronological)
    from Cons.IH [OF this, of True "timestamp s"] obtain ts' new where
      "merge_loop ss (timestamp s) True ?ts = Inr ts'" "ts_labels ts' = ts_labels ts"
      "chronological (ts_samples ts')" "ts_samples ts' = ts_samples ts @ [s] @ new" "subseq new ss"
      by auto
    then show ?thesis
      using True add by (intro exI [of _ ts']) (auto intro!: exI [of _ "s # new"])
  next
    case False
    with Cons.IH [OF Cons.prems] show ?thesis by (auto intro: list_emb_Cons)
  qed
qed simp

lemma merge_into_ok:
  assumes "chronological (ts_samples ts)"
  obtains ts' new where "merge_into ss ts = Inr ts'" "ts_labels ts' = ts_labels ts"
    "chronological (ts_samples ts')" "ts_samples ts' = ts_samples ts @ new" "subseq new ss"
  using merge_loop_ok [OF assms, of False 0 ss] merge_loop_ok [OF assms, of True _ ss]
  by (cases "ts_samples ts = []") (auto simp: merge_into_def)

text \<open>A heap in which every cached pointer leads to a chronological series.\<close>

definition heap_ok :: "cache \<Rightarrow> heap \<Rightarrow> bool" where
  "heap_ok c h \<longleftrightarrow> (\<forall>e \<in> set (lru_list c). \<exists>ts. h (ce_series e) = Some ts)
     \<and> (\<forall>p ts. h p = Some ts \<longrightarrow> chronological (ts_samples ts))"

lemma cache_put_refines:
  assumes "cache_ok c" "heap_ok c h" "h p \<noteq> None"
  shows "\<exists>c' h'. cache_put now i (Some p) (c, h) = Some (Inr (c', h')) \<and> cache_ok c' \<and> heap_ok c' h'
    \<and> max_size c' = max_size c \<and> recency c' = lru_put (max_size c) i p (recency c)
    \<and> dom h \<subseteq> dom h'"
proof (cases "map_of (cache_map c) i")
  case None
  let ?c1 = "if max_size c \<le> length (cache_map c) then evict_lru c else c"
  have i: "i \<notin> ce_id ` set (lru_list c)" using None cache_okD(2) [OF assms(1)] by simp
  have "lru_list (evict_lru c) = butlast (lru_list c)" by (simp add: evict_lru_def)
  then have len: "length (lru_list ?c1) < max_size ?c1" "set (lru_list ?c1) \<subseteq> set (lru_list c)"
    using assms(1) cache_okD(3) [OF assms(1)] evict_lru_ok(3) [OF assms(1)]
    by (auto simp: cache_ok_def dest: in_set_butlastD)
  have "cache_ok ?c1" using evict_lru_ok(1) [OF assms(1)] assms(1) by simp
  note add = add_entry_ok [OF this _ len(1), of i now p]
  have "i \<notin> ce_id ` set (lru_list ?c1)" using i len(2) by auto
  then have "cache_ok (add_entry now i p ?c1)" "recency (add_entry now i p ?c1) = (i, p) # recency ?c1"
    using add by simp_all
  moreover have "recency ?c1 = (if max_size c \<le> length (recency c) then butlast (recency c) else recency c)"
    using cache_okD(3) [OF assms(1)] evict_lru_ok(2) [OF assms(1)] by (simp add: recency_def)
  moreover have "i \<notin> fst ` set (recency c)" using i by (simp add: recency_keys)
  moreover have "heap_ok (add_entry now i p ?c1) h"
    using assms(2,3) len(2) by (auto simp: heap_ok_def add_entry_def)
  moreover have "max_size (add_entry now i p ?c1) = max_size c"
    using evict_lru_ok(3) [OF assms(1)] by (simp add: add_entry_def)
  ultimately show ?thesis
    using None by (simp add: cache_put_def lru_put_def Let_def)
next
  case (Some n)
  then obtain e where e: "e \<in> set (lru_list c)" "ce_id e = i" "node e = n"
    using cache_okD(1) [OF assms(1)] by blast
  obtain old new where h: "h (ce_series e) = Some old" "h p = Some new" "chronological (ts_samples old)"
    using assms(2,3) e(1) by (fastforce simp: heap_ok_def)
  obtain ts where ts: "merge_into (ts_samples new) old = Inr ts" "chronological (ts_samples ts)"
    using merge_into_ok [OF h(3), of "ts_samples new"] by metis
  obtain c1 where c1: "move_to_front n c = Some c1" "cache_ok c1" "recency c1 = lru_front i (recency c)"
      "c1 = c\<lparr>lru_list := e # filter (\<lambda>x. node x \<noteq> node e) (lru_list c)\<rparr>"
    using move_to_front_ok [OF assms(1) e(1)] e(2,3) by auto
  have "cache_put now i (Some p) (c, h) = Some (Inr (c1, h(ce_series e \<mapsto> ts)))"
    using Some cache_okD(4) [OF assms(1) e(1)] e(3) h ts(1) c1(1) by (simp add: cache_put_def)
  moreover have "heap_ok c1 (h(ce_series e \<mapsto> ts))"
    using assms(2) e(1) ts(2) c1(4) by (auto simp: heap_ok_def)
  moreover have "i \<in> fst ` set (recency c)" using e(1,2) by (auto simp: recency_keys)
  ultimately show ?thesis using c1 by (auto simp: lru_put_def)
qed

lemma cache_remove_refines:
  assumes "cache_ok c"
  shows "\<exists>c'. cache_remove i c = Some (i \<in> fst ` set (recency c), c') \<and> cache_ok c'
    \<and> recency c' = filter (\<lambda>x. fst x \<noteq> i) (recency c)"
proof (cases "map_of (cache_map c) i")
  case None
  then have "i \<notin> fst ` set (recency c)" using cache_okD(2) [OF assms] by (simp add: recency_keys)
  moreover from this have "filter (\<lambda>x. fst x \<noteq> i) (recency c) = recency c"
    by (auto simp: filter_id_conv)
  ultimately show ?thesis using None assms by (simp add: cache_remove_def)
next
  case (Some n)
  then obtain e where e: "e \<in> set (lru_list c)" "ce_id e = i" "node e = n"
    using cache_okD(1) [OF assms] by blast
  let ?rest = "filter (\<lambda>x. node x \<noteq> n) (lru_list c)"
  let ?c = "c\<lparr>lru_list := ?rest, cache_map := smap_erase i (cache_map c)\<rparr>"
  have ok: "distinct (map node (lru_list c))" "distinct (map ce_id (lru_list c))"
    using assms by (auto simp: cache_ok_def)
  have rest: "?rest = filter (\<lambda>x. ce_id x \<noteq> i) (lru_list c)"
    using same_entry [OF ok e(1)] e(2,3) by simp
  have "set (smap_erase i (cache_map c)) = (\<lambda>e. (ce_id e, node e)) ` set ?rest"
    unfolding rest using assms by (auto simp: cache_ok_def smap_erase_def)
  moreover have "length ?rest \<le> max_size c"
    using assms by (meson cache_ok_def le_trans length_filter_le)
  ultimately have "cache_ok ?c"
    using assms distinct_map_filter [OF ok(1)] distinct_map_filter [OF ok(2)]
    by (simp add: cache_ok_def smap_simps)
  moreover have "recency ?c = filter (\<lambda>x. fst x \<noteq> i) (recency c)"
    by (simp add: recency_def rest filter_map comp_def)
  moreover have "i \<in> fst ` set (recency c)" using e by (auto simp: recency_keys)
  ultimately show ?thesis
    using Some cache_okD(4) [OF assms e(1)] e(3) by (simp add: cache_remove_def)
qed

section \<open>What an LRU store holds\<close>

text \<open>
  The contract of a bounded store with the LRU policy, and the consequence that names its
  contents: after any sequence of touches it holds the most recently touched keys, as many as
  fit, in order of recency.
\<close>

locale lru_store =
  fixes keys :: "'s \<Rightarrow> 'k list"
    and inv :: "'s \<Rightarrow> bool"
    and cap :: nat
    and touch :: "'k \<Rightarrow> 's \<Rightarrow> 's"
  assumes cap_pos: "0 < cap"
    and inv_touch: "inv s \<Longrightarrow> inv (touch k s)"
    and keys_touch: "inv s \<Longrightarrow> keys (touch k s) =
      (if k \<in> set (keys s) then k # filter (\<lambda>x. x \<noteq> k) (keys s)
       else k # (if cap \<le> length (keys s) then butlast (keys s) else keys s))"
begin

lemma filter_take:
  assumes "distinct R" "k \<in> set (take n R)"
  shows "filter (\<lambda>x. x \<noteq> k) (take n R) = take (n - 1) (filter (\<lambda>x. x \<noteq> k) R)"
  using assms
proof (induction R arbitrary: n)
  case (Cons a R)
  then obtain m where n: "n = Suc m" by (cases n) auto
  show ?case
  proof (cases "a = k")
    case True
    then have "filter (\<lambda>x. x \<noteq> k) R = R" "filter (\<lambda>x. x \<noteq> k) (take m R) = take m R"
      using Cons.prems(1) by (auto simp: filter_id_conv dest: in_set_takeD)
    with True show ?thesis by (simp add: n)
  next
    case False
    then have "k \<in> set (take m R)" using Cons.prems(2) n by simp
    moreover from this obtain j where "m = Suc j" by (cases m) auto
    ultimately show ?thesis using Cons.IH [of m] Cons.prems(1) False n by simp
  qed
qed simp

lemma take_filter_absent:
  "k \<notin> set (take n R) \<Longrightarrow> take n (filter (\<lambda>x. x \<noteq> k) R) = take n R"
proof (induction R arbitrary: n)
  case (Cons a R)
  then show ?case by (cases n) auto
qed simp

lemma butlast_full:
  "(if Suc m \<le> length (take (Suc m) R) then butlast (take (Suc m) R) else take (Suc m) R) = take m R"
  by (cases "Suc m \<le> length R") (auto simp: butlast_take)

lemma rev_remdups_snoc: "rev (remdups (ks @ [k])) = k # filter (\<lambda>x. x \<noteq> k) (rev (remdups ks))"
proof -
  have "remdups (ks @ [k]) = filter (\<lambda>x. x \<noteq> k) (remdups ks) @ [k]"
    by (induction ks) auto
  then show ?thesis by (simp add: rev_filter)
qed

lemma touched_keys:
  assumes "inv s" "keys s = []"
  shows "inv (foldl (\<lambda>s k. touch k s) s ks)
    \<and> keys (foldl (\<lambda>s k. touch k s) s ks) = take cap (rev (remdups ks))"
proof (induction ks rule: rev_induct)
  case (snoc k ks)
  let ?s = "foldl (\<lambda>s k. touch k s) s ks" and ?R = "rev (remdups ks)"
  have s: "inv ?s" "keys ?s = take cap ?R" using snoc by simp_all
  obtain m where cap: "cap = Suc m" using cap_pos by (cases cap) auto
  have "keys (touch k ?s) = k # take m (filter (\<lambda>x. x \<noteq> k) ?R)"
  proof (cases "k \<in> set (take cap ?R)")
    case True
    then show ?thesis using keys_touch [OF s(1), of k] s(2) filter_take [of ?R k cap] cap by simp
  next
    case False
    then have "k \<notin> set (take m ?R)" using cap set_take_subset_set_take [of m cap ?R] by auto
    note absent = take_filter_absent [OF this]
    have "(if cap \<le> length (keys ?s) then butlast (keys ?s) else keys ?s) = take m ?R"
      unfolding s(2) cap by (rule butlast_full)
    with False absent show ?thesis using keys_touch [OF s(1), of k] s(2) by simp
  qed
  then show ?case using inv_touch [OF s(1)] rev_remdups_snoc [of ks k] cap by simp
qed (use assms in simp)

end

text \<open>The cache as such a store: \<open>put\<close> of a valid series touches its id.\<close>

definition put_step :: "int \<Rightarrow> nat \<Rightarrow> uint64 \<Rightarrow> cache \<times> heap \<Rightarrow> cache \<times> heap" where
  "put_step now p i st = (case cache_put now i (Some p) st of Some (Inr st') \<Rightarrow> st' | _ \<Rightarrow> st)"

definition cache_keys :: "cache \<times> heap \<Rightarrow> uint64 list" where
  "cache_keys st = map fst (recency (fst st))"

definition store_inv :: "nat \<Rightarrow> nat \<Rightarrow> cache \<times> heap \<Rightarrow> bool" where
  "store_inv n p st \<longleftrightarrow> cache_ok (fst st) \<and> heap_ok (fst st) (snd st) \<and> max_size (fst st) = n
     \<and> snd st p \<noteq> None"

lemma lru_put_keys:
  "map fst (lru_put cap k v xs) =
     (if k \<in> set (map fst xs) then k # filter (\<lambda>x. x \<noteq> k) (map fst xs)
      else k # (if cap \<le> length (map fst xs) then butlast (map fst xs) else map fst xs))"
proof (cases "k \<in> fst ` set xs")
  case True
  then obtain w where "map_of xs k = Some w" by (metis map_of_eq_None_iff option.exhaust)
  with True show ?thesis by (simp add: lru_put_def lru_front_def filter_map comp_def)
next
  case False
  then show ?thesis by (simp add: lru_put_def map_butlast)
qed

lemma put_step_store:
  assumes "store_inv n p st"
  shows "store_inv n p (put_step now p i st)"
    and "map fst (recency (fst (put_step now p i st))) = map fst (lru_put n i p (recency (fst st)))"
proof -
  obtain c h where st: "st = (c, h)" by force
  obtain c' h' where "cache_put now i (Some p) (c, h) = Some (Inr (c', h'))" "cache_ok c'" "heap_ok c' h'"
      "max_size c' = max_size c" "recency c' = lru_put (max_size c) i p (recency c)" "dom h \<subseteq> dom h'"
    using cache_put_refines [of c h p now i] assms by (auto simp: store_inv_def st)
  then show "store_inv n p (put_step now p i st)"
    "map fst (recency (fst (put_step now p i st))) = map fst (lru_put n i p (recency (fst st)))"
    using assms by (auto simp: store_inv_def st put_step_def)
qed

interpretation working_set: lru_store cache_keys "store_inv (Suc n) p" "Suc n" "put_step now p" for n p now
proof
  fix s k
  assume s: "store_inv (Suc n) p s"
  show "store_inv (Suc n) p (put_step now p k s)" by (rule put_step_store(1) [OF s])
  show "cache_keys (put_step now p k s) =
      (if k \<in> set (cache_keys s) then k # filter (\<lambda>x. x \<noteq> k) (cache_keys s)
       else k # (if Suc n \<le> length (cache_keys s) then butlast (cache_keys s) else cache_keys s))"
    unfolding cache_keys_def put_step_store(2) [OF s] by (rule lru_put_keys)
qed simp

lemma mk_cache_ok:
  assumes "mk_cache n = Inr c"
  shows "cache_ok c" "recency c = []" "max_size c = n" "lru_list c = []"
  using assms by (auto simp: mk_cache_def cache_ok_def recency_def split: if_splits)

section \<open>Properties\<close>

text \<open>
  C15: The cache operations implement the LRU policy and never dereference a dangling iterator:
  from a consistent cache, \<open>get\<close>, \<open>put\<close> and \<open>remove\<close> return, leave a consistent cache within
  its capacity, and act on the recency list as the abstract policy does; \<open>get\<close> returns the
  pointer stored for the id.
\<close>

theorem cache_refines_lru:
  assumes "cache_ok c" "heap_ok c h" "h p \<noteq> None"
  shows "(\<exists>c'. cache_get now i c = Some (map_of (recency c) i, c') \<and> cache_ok c'
        \<and> recency c' = lru_front i (recency c))
    \<and> (\<exists>c' h'. cache_put now i (Some p) (c, h) = Some (Inr (c', h')) \<and> cache_ok c' \<and> heap_ok c' h'
        \<and> recency c' = lru_put (max_size c) i p (recency c))
    \<and> (\<exists>c'. cache_remove i c = Some (i \<in> fst ` set (recency c), c') \<and> cache_ok c'
        \<and> recency c' = filter (\<lambda>x. fst x \<noteq> i) (recency c))"
  using cache_get_refines [OF assms(1), of now i] cache_put_refines [OF assms, of now i]
    cache_remove_refines [OF assms(1), of i] by blast

theorem cache_refines_lru_witness:
  "\<exists>c c' h'. mk_cache 2 = Inr c
     \<and> cache_put 0 7 (Some 1) (c, [1 \<mapsto> mk_time_series []]) = Some (Inr (c', h'))
     \<and> recency c' = [(7, 1)]"
proof -
  obtain c where c: "mk_cache 2 = Inr c" by (simp add: mk_cache_def)
  note ok = mk_cache_ok [OF c]
  let ?h = "[1 \<mapsto> mk_time_series []] :: heap"
  have "heap_ok c ?h" using ok(4) by (simp add: heap_ok_def mk_time_series_def)
  from cache_refines_lru [OF ok(1) this, of 1 0 7] c ok(2) show ?thesis
    by (auto simp: lru_put_def)
qed

text \<open>
  After any sequence of puts the cache holds the most recently put ids, as many as its
  capacity allows, in order of recency.
\<close>

theorem cache_holds_most_recent:
  assumes "mk_cache n = Inr c" "h p = Some ts" "\<forall>q us. h q = Some us \<longrightarrow> chronological (ts_samples us)"
  shows "map fst (recency (fst (foldl (\<lambda>st i. put_step now p i st) (c, h) ids)))
    = take n (rev (remdups ids))"
proof -
  note ok = mk_cache_ok [OF assms(1)]
  obtain m where n: "n = Suc m" using ok(1,3) by (cases n) (auto simp: cache_ok_def)
  have "store_inv (Suc m) p (c, h)"
    using ok assms(2,3) n by (simp add: store_inv_def heap_ok_def)
  then show ?thesis
    using working_set.touched_keys [of m p "(c, h)" now ids] ok(2) n by (simp add: cache_keys_def)
qed

theorem cache_holds_most_recent_witness:
  "\<exists>c. mk_cache 2 = Inr c
     \<and> map fst (recency (fst (foldl (\<lambda>st i. put_step 0 1 i st) (c, [1 \<mapsto> mk_time_series []]) [1, 2, 1, 3])))
         = [3, 1]"
proof -
  obtain c where c: "mk_cache 2 = Inr c" by (simp add: mk_cache_def)
  from cache_holds_most_recent [OF c, of "[1 \<mapsto> mk_time_series []]" 1 "mk_time_series []" 0 "[1, 2, 1, 3]"] c
  show ?thesis by (simp add: mk_time_series_def)
qed

text \<open>
  Putting a series under a cached id never loses cached samples and never throws: the shared
  series keeps its samples and labels, gains a subsequence of the new samples and stays
  chronological.
\<close>

theorem cache_put_merges:
  assumes "chronological (ts_samples ts)"
  shows "\<exists>ts' new. merge_into ss ts = Inr ts' \<and> ts_labels ts' = ts_labels ts
    \<and> chronological (ts_samples ts') \<and> ts_samples ts' = ts_samples ts @ new \<and> subseq new ss"
  using merge_into_ok [OF assms, of ss] by metis

theorem cache_put_merges_witness:
  "\<exists>ts'. merge_into [mk_sample 5 1, mk_sample 9 2] \<lparr>ts_labels = [], ts_samples = [mk_sample 7 0]\<rparr> = Inr ts'
     \<and> chronological (ts_samples ts')"
  using cache_put_merges [of "\<lparr>ts_labels = [], ts_samples = [mk_sample 7 0]\<rparr>" "[mk_sample 5 1, mk_sample 9 2]"]
  by auto

end
