(* ===== verification/Memory_Mapped_Cache.thy ===== *)
theory Memory_Mapped_Cache
  imports Working_Set_Cache
begin

text \<open>
  \<open>MemoryMappedCache\<close> (\<open>src/tsdb/storage/memory_mapped_cache.cpp\<close>): the L2 cache. Its entries live
  in three hash maps (series, metadata, list iterator) beside a \<open>std::list\<close> of ids in recency
  order. As in the L1 cache a list node has an address, the iterator map stores addresses, and
  an operation on an iterator whose node has left the list has no result (\<open>None\<close>). Unlike the
  L1 cache, \<open>put\<close> of a cached id replaces the pointer instead of merging into the cached object.
  Besides the series heap an operation takes the clock. The theory shows that the four
  containers stay consistent and that the cache is a second instance of the LRU store of
  \<open>Working_Set_Cache\<close>.
\<close>

section \<open>State\<close>

record mm_cache =
  mm_max_size :: nat
  mm_cache_map :: "(uint64 \<times> nat) list"
  mm_metadata_map :: "(uint64 \<times> entry_metadata) list"
  mm_lru_list :: "(nat \<times> uint64) list"
  mm_lru_map :: "(uint64 \<times> nat) list"
  mm_hit_count :: uint64
  mm_miss_count :: uint64
  mm_eviction_count :: uint64
  mm_next_node :: nat

definition mk_mm_cache :: "nat \<Rightarrow> mm_cache" where
  "mk_mm_cache n = \<lparr>mm_max_size = n, mm_cache_map = [], mm_metadata_map = [], mm_lru_list = [],
     mm_lru_map = [], mm_hit_count = 0, mm_miss_count = 0, mm_eviction_count = 0, mm_next_node = 0\<rparr>"

definition metadata_for :: "int \<Rightarrow> uint64 \<Rightarrow> entry_metadata" where
  "metadata_for now i = \<lparr>md_series_id = i, last_access = now, created_at = now, access_count = 0,
     size_bytes = 0, is_dirty = False\<rparr>"

section \<open>List helpers\<close>

definition mm_evict_lru :: "mm_cache \<Rightarrow> mm_cache" where
  "mm_evict_lru m =
     (if mm_lru_list m = [] then m
      else
        let i = snd (last (mm_lru_list m))
        in m\<lparr>mm_cache_map := smap_erase i (mm_cache_map m),
             mm_metadata_map := smap_erase i (mm_metadata_map m),
             mm_lru_list := butlast (mm_lru_list m),
             mm_lru_map := smap_erase i (mm_lru_map m),
             mm_eviction_count := mm_eviction_count m + 1\<rparr>)"

definition mm_update_metadata :: "int \<Rightarrow> uint64 \<Rightarrow> mm_cache \<Rightarrow> mm_cache" where
  "mm_update_metadata now i m =
     (case map_of (mm_metadata_map m) i of
        None \<Rightarrow> m
      | Some md \<Rightarrow> m\<lparr>mm_metadata_map := smap_insert i (record_access now md) (mm_metadata_map m)\<rparr>)"

text \<open>\<open>splice\<close> keeps the node, so the iterator stored back is the one that was there.\<close>

definition mm_move_to_front :: "uint64 \<Rightarrow> mm_cache \<Rightarrow> mm_cache option" where
  "mm_move_to_front i m =
     (case map_of (mm_lru_map m) i of
        None \<Rightarrow> Some m
      | Some n \<Rightarrow>
          (case find (\<lambda>e. fst e = n) (mm_lru_list m) of
             None \<Rightarrow> None
           | Some e \<Rightarrow> Some (m\<lparr>mm_lru_list := e # filter (\<lambda>x. fst x \<noteq> n) (mm_lru_list m),
               mm_lru_map := smap_insert i n (mm_lru_map m)\<rparr>)))"

definition mm_add_to_front :: "uint64 \<Rightarrow> mm_cache \<Rightarrow> mm_cache" where
  "mm_add_to_front i m =
     m\<lparr>mm_lru_list := (mm_next_node m, i) # mm_lru_list m,
       mm_lru_map := smap_insert i (mm_next_node m) (mm_lru_map m),
       mm_next_node := mm_next_node m + 1\<rparr>"

definition mm_remove_from_lru :: "uint64 \<Rightarrow> mm_cache \<Rightarrow> mm_cache option" where
  "mm_remove_from_lru i m =
     (case map_of (mm_lru_map m) i of
        None \<Rightarrow> Some m
      | Some n \<Rightarrow>
          (case find (\<lambda>e. fst e = n) (mm_lru_list m) of
             None \<Rightarrow> None
           | Some e \<Rightarrow> Some (m\<lparr>mm_lru_list := filter (\<lambda>x. fst x \<noteq> n) (mm_lru_list m),
               mm_lru_map := smap_erase i (mm_lru_map m)\<rparr>)))"

section \<open>Operations\<close>

definition mm_get :: "int \<Rightarrow> uint64 \<Rightarrow> mm_cache \<Rightarrow> (nat option \<times> mm_cache) option" where
  "mm_get now i m =
     (case map_of (mm_cache_map m) i of
        None \<Rightarrow> Some (None, m\<lparr>mm_miss_count := mm_miss_count m + 1\<rparr>)
      | Some p \<Rightarrow>
          map_option (\<lambda>m'. (Some p, m'\<lparr>mm_hit_count := mm_hit_count m' + 1\<rparr>))
            (mm_move_to_front i (mm_update_metadata now i m)))"

definition mm_insert_new :: "int \<Rightarrow> uint64 \<Rightarrow> nat \<Rightarrow> time_series \<Rightarrow> mm_cache \<Rightarrow> mm_cache" where
  "mm_insert_new now i p ts m =
     mm_add_to_front i
       (m\<lparr>mm_cache_map := smap_insert i p (mm_cache_map m),
          mm_metadata_map := smap_insert i
            ((metadata_for now i)\<lparr>size_bytes := of_nat (length (ts_samples ts)) * sizeof_sample + 100\<rparr>)
            (mm_metadata_map m)\<rparr>)"

definition mm_put ::
  "int \<Rightarrow> heap \<Rightarrow> uint64 \<Rightarrow> nat option \<Rightarrow> mm_cache \<Rightarrow> (exn + bool \<times> mm_cache) option" where
  "mm_put now h i p m =
     (case p of
        None \<Rightarrow> Some (Inl (InvalidArgumentError ''Cannot cache null time series''))
      | Some q \<Rightarrow>
          (case map_of (mm_cache_map m) i of
             Some _ \<Rightarrow>
               map_option (\<lambda>m'. Inr (True, m'))
                 (mm_move_to_front i (mm_update_metadata now i
                    (m\<lparr>mm_cache_map := smap_insert i q (mm_cache_map m)\<rparr>)))
           | None \<Rightarrow>
               (case h q of
                  None \<Rightarrow> None
                | Some ts \<Rightarrow>
                    let m1 = (if mm_max_size m \<le> length (mm_cache_map m) then mm_evict_lru m else m)
                    in Some (Inr (True, mm_insert_new now i q ts m1)))))"

definition mm_remove :: "uint64 \<Rightarrow> mm_cache \<Rightarrow> (bool \<times> mm_cache) option" where
  "mm_remove i m =
     (case map_of (mm_cache_map m) i of
        None \<Rightarrow> Some (False, m)
      | Some _ \<Rightarrow>
          map_option (Pair True)
            (mm_remove_from_lru i
               (m\<lparr>mm_cache_map := smap_erase i (mm_cache_map m),
                  mm_metadata_map := smap_erase i (mm_metadata_map m)\<rparr>)))"

definition mm_clear :: "mm_cache \<Rightarrow> mm_cache" where
  "mm_clear m = m\<lparr>mm_cache_map := [], mm_metadata_map := [], mm_lru_list := [], mm_lru_map := []\<rparr>"

definition mm_size :: "mm_cache \<Rightarrow> nat" where
  "mm_size m = length (mm_cache_map m)"

definition mm_is_full :: "mm_cache \<Rightarrow> bool" where
  "mm_is_full m \<longleftrightarrow> mm_max_size m \<le> length (mm_cache_map m)"

definition mm_reset_stats :: "mm_cache \<Rightarrow> mm_cache" where
  "mm_reset_stats m = m\<lparr>mm_hit_count := 0, mm_miss_count := 0, mm_eviction_count := 0\<rparr>"

definition mm_get_metadata :: "uint64 \<Rightarrow> mm_cache \<Rightarrow> entry_metadata option" where
  "mm_get_metadata i m = map_of (mm_metadata_map m) i"

text \<open>The ids in the iteration order of the hash map, which the standard leaves open.\<close>

definition mm_get_all_series_ids :: "(uint64 list \<Rightarrow> uint64 list) \<Rightarrow> mm_cache \<Rightarrow> uint64 list" where
  "mm_get_all_series_ids order m = order (map fst (mm_cache_map m))"

section \<open>Invariant\<close>

definition mm_ids :: "mm_cache \<Rightarrow> uint64 list" where
  "mm_ids m = map snd (mm_lru_list m)"

definition mm_ok :: "mm_cache \<Rightarrow> bool" where
  "mm_ok m \<longleftrightarrow> length (mm_lru_list m) \<le> mm_max_size m
     \<and> distinct (map fst (mm_lru_list m)) \<and> distinct (mm_ids m)
     \<and> (\<forall>e \<in> set (mm_lru_list m). fst e < mm_next_node m)
     \<and> smap_ok (mm_cache_map m) \<and> smap_ok (mm_metadata_map m) \<and> smap_ok (mm_lru_map m)
     \<and> fst ` set (mm_cache_map m) = set (mm_ids m) \<and> fst ` set (mm_metadata_map m) = set (mm_ids m)
     \<and> set (mm_lru_map m) = prod.swap ` set (mm_lru_list m)"

lemma smap_insert_present:
  "\<lbrakk>smap_ok m; map_of m k = Some v\<rbrakk> \<Longrightarrow> smap_insert k v m = m"
  by (induction k v m rule: smap_insert.induct) (auto simp: smap_ok_Cons split: if_splits dest!: map_of_SomeD)

lemma keys_smap_erase: "fst ` set (smap_erase k m) = fst ` set m - {k}"
  by (auto simp: smap_erase_def)

lemma mm_ok_counters [simp]:
  "mm_ok (m\<lparr>mm_hit_count := a\<rparr>) = mm_ok m" "mm_ok (m\<lparr>mm_miss_count := a\<rparr>) = mm_ok m"
  "mm_ok (mm_reset_stats m) = mm_ok m" "mm_ids (mm_reset_stats m) = mm_ids m"
  "mm_ids (m\<lparr>mm_hit_count := a\<rparr>) = mm_ids m" "mm_ids (m\<lparr>mm_miss_count := a\<rparr>) = mm_ids m"
  "mm_ids (m\<lparr>mm_cache_map := f\<rparr>) = mm_ids m"
  by (simp_all add: mm_ok_def mm_ids_def mm_reset_stats_def)

lemma mm_okD:
  assumes "mm_ok m"
  shows "i \<notin> set (mm_ids m) \<Longrightarrow> map_of (mm_lru_map m) i = None"
    and "map_of (mm_cache_map m) i = None \<longleftrightarrow> i \<notin> set (mm_ids m)"
    and "map_of (mm_metadata_map m) i = None \<longleftrightarrow> i \<notin> set (mm_ids m)"
    and "length (mm_cache_map m) = length (mm_ids m)"
proof -
  have keys: "fst ` set (mm_lru_map m) = set (mm_ids m)"
    using assms by (simp add: mm_ok_def mm_ids_def image_image)
  then show "i \<notin> set (mm_ids m) \<Longrightarrow> map_of (mm_lru_map m) i = None"
    by (simp add: map_of_eq_None_iff)
  show "map_of (mm_cache_map m) i = None \<longleftrightarrow> i \<notin> set (mm_ids m)"
    "map_of (mm_metadata_map m) i = None \<longleftrightarrow> i \<notin> set (mm_ids m)"
    using assms by (simp_all add: mm_ok_def map_of_eq_None_iff)
  have "distinct (map fst (mm_cache_map m))" "set (map fst (mm_cache_map m)) = set (mm_ids m)"
    using assms by (simp_all add: mm_ok_def smap_ok_distinct)
  then show "length (mm_cache_map m) = length (mm_ids m)"
    using assms distinct_card [of "map fst (mm_cache_map m)"] distinct_card [of "mm_ids m"]
    by (simp add: mm_ok_def)
qed

lemma eq_value_imp_eq_key:
  "\<lbrakk>distinct (map snd xs); (k, v) \<in> set xs; (l, v) \<in> set xs\<rbrakk> \<Longrightarrow> k = l"
  using inj_onD [of snd "set xs" "(k, v)" "(l, v)"] by (simp add: distinct_map)

lemma mm_node:
  assumes "mm_ok m" "i \<in> set (mm_ids m)"
  obtains n where "map_of (mm_lru_map m) i = Some n" "(n, i) \<in> set (mm_lru_list m)"
    "find (\<lambda>e. fst e = n) (mm_lru_list m) = Some (n, i)"
    "filter (\<lambda>e. fst e \<noteq> n) (mm_lru_list m) = filter (\<lambda>e. snd e \<noteq> i) (mm_lru_list m)"
proof -
  obtain n where n: "(n, i) \<in> set (mm_lru_list m)" using assms(2) by (auto simp: mm_ids_def)
  have d: "distinct (map fst (mm_lru_list m))" "distinct (map snd (mm_lru_list m))"
    using assms(1) by (simp_all add: mm_ok_def mm_ids_def)
  have "(i, n) \<in> set (mm_lru_map m)" "smap_ok (mm_lru_map m)"
    using n assms(1) by (auto simp: mm_ok_def)
  then have "map_of (mm_lru_map m) i = Some n" by (simp add: smap_ok_distinct)
  moreover have "find (\<lambda>e. fst e = n) (mm_lru_list m) = Some (n, i)"
    using find_unique [OF d(1) n] by simp
  moreover have "filter (\<lambda>e. fst e \<noteq> n) (mm_lru_list m) = filter (\<lambda>e. snd e \<noteq> i) (mm_lru_list m)"
    using d n by (intro filter_cong) (auto dest: eq_key_imp_eq_value eq_value_imp_eq_key)
  ultimately show thesis using that n by blast
qed

text \<open>The invariant looks at the metadata and series maps only through their keys.\<close>

lemma mm_ok_update_metadata [simp]:
  "mm_ok m \<Longrightarrow> mm_ok (mm_update_metadata now i m)"
proof -
  assume ok: "mm_ok m"
  show ?thesis
  proof (cases "map_of (mm_metadata_map m) i")
    case (Some md)
    then have "insert i (set (mm_ids m)) = set (mm_ids m)"
      using mm_okD(3) [OF ok, of i] by (simp add: insert_absorb)
    with Some ok show ?thesis by (simp add: mm_ok_def mm_update_metadata_def mm_ids_def smap_simps)
  qed (simp add: ok mm_update_metadata_def)
qed

lemma mm_update_metadata_frame [simp]:
  "mm_cache_map (mm_update_metadata now i m) = mm_cache_map m"
  "mm_lru_list (mm_update_metadata now i m) = mm_lru_list m"
  "mm_lru_map (mm_update_metadata now i m) = mm_lru_map m"
  "mm_ids (mm_update_metadata now i m) = mm_ids m"
  "mm_max_size (mm_update_metadata now i m) = mm_max_size m"
  by (simp_all add: mm_update_metadata_def mm_ids_def split: option.splits)

lemma mm_move_to_front_ok:
  assumes "mm_ok m" "i \<in> set (mm_ids m)"
  shows "\<exists>m'. mm_move_to_front i m = Some m' \<and> mm_ok m' \<and> mm_ids m' = i # filter (\<lambda>x. x \<noteq> i) (mm_ids m)
    \<and> mm_cache_map m' = mm_cache_map m \<and> mm_max_size m' = mm_max_size m"
proof -
  obtain n where n: "map_of (mm_lru_map m) i = Some n" "(n, i) \<in> set (mm_lru_list m)"
      "find (\<lambda>e. fst e = n) (mm_lru_list m) = Some (n, i)"
      "filter (\<lambda>e. fst e \<noteq> n) (mm_lru_list m) = filter (\<lambda>e. snd e \<noteq> i) (mm_lru_list m)"
    using mm_node [OF assms] .
  let ?l = "(n, i) # filter (\<lambda>e. fst e \<noteq> n) (mm_lru_list m)"
  let ?m = "m\<lparr>mm_lru_list := ?l\<rparr>"
  have d: "distinct (map fst (mm_lru_list m))" "distinct (map snd (mm_lru_list m))"
    using assms(1) by (simp_all add: mm_ok_def mm_ids_def)
  have set: "set ?l = set (mm_lru_list m)"
    using n(2) d(1) by (auto dest: eq_key_imp_eq_value)
  have dl: "distinct (map fst ?l)" using distinct_map_filter [OF d(1)] by auto
  have "distinct (map snd ?l)" unfolding n(4) using distinct_map_filter [OF d(2)] by auto
  moreover have "length ?l = length (mm_lru_list m)"
    using distinct_card [OF dl] distinct_card [OF d(1)] set by (metis length_map list.set_map)
  moreover have "set (map snd ?l) = set (map snd (mm_lru_list m))"
    unfolding set_map set by (rule refl)
  moreover have "(\<forall>e \<in> set ?l. fst e < mm_next_node m)" "set (mm_lru_map m) = prod.swap ` set ?l"
    using assms(1) unfolding set by (simp_all add: mm_ok_def)
  ultimately have "mm_ok ?m" using assms(1) dl by (simp add: mm_ok_def mm_ids_def)
  moreover have "mm_ids ?m = i # filter (\<lambda>x. x \<noteq> i) (mm_ids m)"
    by (simp add: mm_ids_def n(4) filter_map comp_def)
  moreover have "mm_move_to_front i m = Some ?m"
    using n(1,3) assms(1) by (simp add: mm_move_to_front_def smap_insert_present mm_ok_def)
  ultimately show ?thesis by auto
qed

section \<open>Every operation keeps the invariant and follows the policy\<close>

lemma mm_get_ok:
  assumes "mm_ok m"
  shows "\<exists>m'. mm_get now i m = Some (map_of (mm_cache_map m) i, m') \<and> mm_ok m'
    \<and> mm_cache_map m' = mm_cache_map m \<and> mm_max_size m' = mm_max_size m
    \<and> mm_ids m' = (if i \<in> set (mm_ids m) then i # filter (\<lambda>x. x \<noteq> i) (mm_ids m) else mm_ids m)"
proof (cases "map_of (mm_cache_map m) i")
  case None
  then have "i \<notin> set (mm_ids m)" using mm_okD(2) [OF assms] by simp
  with None assms show ?thesis by (simp add: mm_get_def)
next
  case (Some p)
  then have i: "i \<in> set (mm_ids m)" using mm_okD(2) [OF assms, of i] by auto
  let ?m = "mm_update_metadata now i m"
  from mm_move_to_front_ok [of ?m i] obtain m' where "mm_move_to_front i ?m = Some m'" "mm_ok m'"
      "mm_ids m' = i # filter (\<lambda>x. x \<noteq> i) (mm_ids m)" "mm_cache_map m' = mm_cache_map m"
      "mm_max_size m' = mm_max_size m"
    using assms i by auto
  then show ?thesis using Some i by (simp add: mm_get_def)
qed

lemma mm_evict_lru_ok:
  assumes "mm_ok m"
  shows "mm_ok (mm_evict_lru m)" "mm_ids (mm_evict_lru m) = butlast (mm_ids m)"
    "mm_max_size (mm_evict_lru m) = mm_max_size m"
    "set (mm_cache_map (mm_evict_lru m)) \<subseteq> set (mm_cache_map m)"
proof -
  show "mm_ok (mm_evict_lru m)"
  proof (cases "mm_lru_list m" rule: rev_cases)
    case Nil
    then show ?thesis using assms by (simp add: mm_evict_lru_def)
  next
    case (snoc xs e)
    obtain n i where e: "e = (n, i)" by force
    have i: "i \<notin> snd ` set xs" using assms snoc e by (simp add: mm_ok_def mm_ids_def)
    have "set (mm_lru_map m) = insert (i, n) (prod.swap ` set xs)"
      using assms snoc e by (simp add: mm_ok_def)
    then have "set (smap_erase i (mm_lru_map m)) = prod.swap ` set xs"
      using i by (force simp: smap_erase_def)
    then show ?thesis
      using assms snoc e i by (simp add: mm_ok_def mm_ids_def mm_evict_lru_def Let_def smap_simps keys_smap_erase)
  qed
  show "mm_ids (mm_evict_lru m) = butlast (mm_ids m)" "mm_max_size (mm_evict_lru m) = mm_max_size m"
    "set (mm_cache_map (mm_evict_lru m)) \<subseteq> set (mm_cache_map m)"
    by (auto simp: mm_evict_lru_def mm_ids_def map_butlast Let_def smap_erase_def)
qed

lemma mm_insert_new_ok:
  assumes "mm_ok m" "i \<notin> set (mm_ids m)" "length (mm_ids m) < mm_max_size m"
  shows "mm_ok (mm_insert_new now i p ts m)" "mm_ids (mm_insert_new now i p ts m) = i # mm_ids m"
    "mm_cache_map (mm_insert_new now i p ts m) = smap_insert i p (mm_cache_map m)"
    "mm_max_size (mm_insert_new now i p ts m) = mm_max_size m"
proof -
  have "set (smap_insert i (mm_next_node m) (mm_lru_map m)) = insert (i, mm_next_node m) (set (mm_lru_map m))"
    using mm_okD(1) [OF assms(1,2)] by (intro set_smap_insert_new) (simp add: map_of_eq_None_iff)
  moreover have "mm_next_node m \<notin> fst ` set (mm_lru_list m)"
    using assms(1) by (auto simp: mm_ok_def)
  ultimately show "mm_ok (mm_insert_new now i p ts m)"
    using assms by (auto simp: mm_ok_def mm_insert_new_def mm_add_to_front_def mm_ids_def smap_simps
        less_Suc_eq)
qed (simp_all add: mm_insert_new_def mm_add_to_front_def mm_ids_def)

definition ids_touch :: "nat \<Rightarrow> uint64 \<Rightarrow> uint64 list \<Rightarrow> uint64 list" where
  "ids_touch cap k xs =
     (if k \<in> set xs then k # filter (\<lambda>x. x \<noteq> k) xs
      else k # (if cap \<le> length xs then butlast xs else xs))"

lemma mm_put_ok:
  assumes "mm_ok m" "0 < mm_max_size m" "h p = Some ts"
  shows "\<exists>m'. mm_put now h i (Some p) m = Some (Inr (True, m')) \<and> mm_ok m'
    \<and> mm_max_size m' = mm_max_size m \<and> mm_ids m' = ids_touch (mm_max_size m) i (mm_ids m)
    \<and> map_of (mm_cache_map m') i = Some p
    \<and> set (mm_cache_map m') \<subseteq> insert (i, p) (set (mm_cache_map m))"
proof (cases "map_of (mm_cache_map m) i")
  case None
  let ?m1 = "if mm_max_size m \<le> length (mm_cache_map m) then mm_evict_lru m else m"
  have i: "i \<notin> set (mm_ids m)" using None mm_okD(2) [OF assms(1)] by simp
  have m1: "mm_ok ?m1" "mm_max_size ?m1 = mm_max_size m"
      "mm_ids ?m1 = (if mm_max_size m \<le> length (mm_ids m) then butlast (mm_ids m) else mm_ids m)"
      "set (mm_cache_map ?m1) \<subseteq> set (mm_cache_map m)"
    using mm_evict_lru_ok [OF assms(1)] assms(1) mm_okD(4) [OF assms(1)] by simp_all
  have "length (mm_ids m) \<le> mm_max_size m" using assms(1) by (simp add: mm_ok_def mm_ids_def)
  then have "i \<notin> set (mm_ids ?m1)" "length (mm_ids ?m1) < mm_max_size ?m1"
    unfolding m1(2,3) using i assms(2) by (auto dest: in_set_butlastD)
  note new = mm_insert_new_ok [OF m1(1) this, of now p ts]
  have "set (smap_insert i p (mm_cache_map ?m1)) \<subseteq> insert (i, p) (set (mm_cache_map m))"
    using m1(4) set_smap_insert_subset [of i p "mm_cache_map ?m1"] by auto
  then show ?thesis
    using None assms(3) new m1(2,3) i by (simp add: mm_put_def Let_def ids_touch_def smap_simps)
next
  case (Some q)
  then have i: "i \<in> set (mm_ids m)" using mm_okD(2) [OF assms(1), of i] by auto
  let ?m = "m\<lparr>mm_cache_map := smap_insert i p (mm_cache_map m)\<rparr>"
  have ids: "mm_ids ?m = mm_ids m" by (simp add: mm_ids_def)
  have "mm_ok ?m"
    using assms(1) i by (auto simp: mm_ok_def mm_ids_def smap_simps)
  then obtain m' where "mm_move_to_front i (mm_update_metadata now i ?m) = Some m'" "mm_ok m'"
      "mm_ids m' = i # filter (\<lambda>x. x \<noteq> i) (mm_ids m)" "mm_cache_map m' = smap_insert i p (mm_cache_map m)"
      "mm_max_size m' = mm_max_size m"
    using mm_move_to_front_ok [of "mm_update_metadata now i ?m" i] i ids by auto
  then show ?thesis
    using Some i set_smap_insert_subset [of i p "mm_cache_map m"]
    by (simp add: mm_put_def ids_touch_def smap_simps)
qed

lemma mm_remove_ok:
  assumes "mm_ok m"
  shows "\<exists>m'. mm_remove i m = Some (i \<in> set (mm_ids m), m') \<and> mm_ok m' \<and> mm_max_size m' = mm_max_size m
    \<and> mm_ids m' = filter (\<lambda>x. x \<noteq> i) (mm_ids m) \<and> mm_cache_map m' = smap_erase i (mm_cache_map m)"
proof (cases "i \<in> set (mm_ids m)")
  case False
  then have "map_of (mm_cache_map m) i = None" using mm_okD(2) [OF assms] by simp
  moreover from this have "smap_erase i (mm_cache_map m) = mm_cache_map m"
    by (auto simp: smap_erase_def filter_id_conv map_of_eq_None_iff)
  moreover have "filter (\<lambda>x. x \<noteq> i) (mm_ids m) = mm_ids m"
    using False by (auto simp: filter_id_conv)
  ultimately show ?thesis using False assms by (simp add: mm_remove_def)
next
  case True
  obtain n where n: "map_of (mm_lru_map m) i = Some n" "(n, i) \<in> set (mm_lru_list m)"
      "find (\<lambda>e. fst e = n) (mm_lru_list m) = Some (n, i)"
      "filter (\<lambda>e. fst e \<noteq> n) (mm_lru_list m) = filter (\<lambda>e. snd e \<noteq> i) (mm_lru_list m)"
    using mm_node [OF assms True] .
  obtain p where p: "map_of (mm_cache_map m) i = Some p" using True mm_okD(2) [OF assms, of i] by blast
  let ?m = "m\<lparr>mm_cache_map := smap_erase i (mm_cache_map m),
      mm_metadata_map := smap_erase i (mm_metadata_map m),
      mm_lru_list := filter (\<lambda>e. snd e \<noteq> i) (mm_lru_list m), mm_lru_map := smap_erase i (mm_lru_map m)\<rparr>"
  have "snd ` set (filter (\<lambda>e. snd e \<noteq> i) (mm_lru_list m)) = snd ` set (mm_lru_list m) - {i}"
    by auto
  moreover have "set (smap_erase i (mm_lru_map m)) = prod.swap ` set (filter (\<lambda>e. snd e \<noteq> i) (mm_lru_list m))"
    using assms by (auto simp: mm_ok_def smap_erase_def)
  moreover have "\<forall>e \<in> set (filter (\<lambda>e. snd e \<noteq> i) (mm_lru_list m)). fst e < mm_next_node m"
    using assms by (simp add: mm_ok_def)
  moreover have "length (filter (\<lambda>e. snd e \<noteq> i) (mm_lru_list m)) \<le> mm_max_size m"
    using assms by (meson mm_ok_def le_trans length_filter_le)
  ultimately have "mm_ok ?m"
    using assms by (simp add: mm_ok_def mm_ids_def smap_simps keys_smap_erase distinct_map_filter del: set_filter)
  moreover have "mm_remove i m = Some (True, ?m)"
    using p n by (simp add: mm_remove_def mm_remove_from_lru_def)
  ultimately show ?thesis
    using True by (simp add: mm_ids_def filter_map comp_def)
qed

lemma mm_clear_ok: "mm_ok (mm_clear m)" "mm_ids (mm_clear m) = []"
  by (simp_all add: mm_ok_def mm_clear_def mm_ids_def)

lemma mk_mm_cache_ok: "mm_ok (mk_mm_cache n)" "mm_ids (mk_mm_cache n) = []"
  by (simp_all add: mm_ok_def mk_mm_cache_def mm_ids_def)

section \<open>The L2 cache as an LRU store\<close>

definition mm_touch :: "int \<Rightarrow> nat \<Rightarrow> time_series \<Rightarrow> uint64 \<Rightarrow> mm_cache \<Rightarrow> mm_cache" where
  "mm_touch now p ts i m =
     (case mm_put now [p \<mapsto> ts] i (Some p) m of Some (Inr (_, m')) \<Rightarrow> m' | _ \<Rightarrow> m)"

interpretation mapped: lru_store mm_ids "\<lambda>m. mm_ok m \<and> mm_max_size m = Suc n" "Suc n" "mm_touch now p ts"
  for n now p ts
proof
  fix m k
  assume m: "mm_ok m \<and> mm_max_size m = Suc n"
  then obtain m' where "mm_put now [p \<mapsto> ts] k (Some p) m = Some (Inr (True, m'))" "mm_ok m'"
      "mm_max_size m' = mm_max_size m" "mm_ids m' = ids_touch (mm_max_size m) k (mm_ids m)"
    using mm_put_ok [of m "[p \<mapsto> ts]" p ts now k] by auto
  with m show "mm_ok (mm_touch now p ts k m) \<and> mm_max_size (mm_touch now p ts k m) = Suc n"
    "mm_ids (mm_touch now p ts k m) =
      (if k \<in> set (mm_ids m) then k # filter (\<lambda>x. x \<noteq> k) (mm_ids m)
       else k # (if Suc n \<le> length (mm_ids m) then butlast (mm_ids m) else mm_ids m))"
    by (simp_all add: mm_touch_def ids_touch_def)
qed simp

section \<open>Properties\<close>

text \<open>
  After any sequence of puts into an empty L2 cache it holds the most recently put ids, as many
  as its capacity allows, in order of recency.
\<close>

theorem l2_holds_most_recent:
  assumes "0 < n"
  shows "mm_ids (foldl (\<lambda>m i. mm_touch now p ts i m) (mk_mm_cache n) ids) = take n (rev (remdups ids))"
  using assms mapped.touched_keys [of "mk_mm_cache n" "n - 1" now p ts ids] mk_mm_cache_ok [of n]
  by (simp add: mk_mm_cache_def)

theorem l2_holds_most_recent_witness:
  "mm_ids (foldl (\<lambda>m i. mm_touch 0 1 (mk_time_series []) i m) (mk_mm_cache 2) [5, 6, 5, 7]) = [7, 5]"
  by (subst l2_holds_most_recent) simp_all

end
