(* ===== verification/Cache_Hierarchy.thy ===== *)
theory Cache_Hierarchy
  imports Memory_Mapped_Cache
begin

text \<open>
  \<open>CacheHierarchy\<close> (\<open>src/tsdb/storage/cache_hierarchy.cpp\<close>): the working-set cache (L1) over the
  memory-mapped cache (L2), with promotion, demotion and background maintenance. An operation
  acts on the hierarchy and the heap of shared series; a result \<open>None\<close> is an operation on a
  dangling iterator or a freed object, \<open>Inl\<close> an exception. All public operations hold one recursive
  mutex, so a history of the cache is a sequence of whole operations, the maintenance runs of
  the background thread among them. Parameters are the clock, the iteration order of the hash maps
  and the outcome of creating a directory.
\<close>

section \<open>State\<close>

record hierarchy_config =
  l1_max_size :: nat
  l2_max_size :: nat
  l2_storage_path :: string
  l3_storage_path :: string
  l2_demotion_threshold :: uint64
  l2_demotion_timeout_seconds :: uint64
  enable_background_processing :: bool
  background_interval :: nat

type_synonym l3_callback = "uint64 \<Rightarrow> nat \<Rightarrow> bool"

record hierarchy =
  h_config :: hierarchy_config
  l1_cache :: cache
  l2_cache :: "mm_cache option"
  on_l3_demotion :: "l3_callback option"
  background_running :: bool
  total_hits :: uint64
  total_misses :: uint64
  l1_hits :: uint64
  l2_hits :: uint64
  l3_hits :: uint64
  promotions :: uint64
  demotions :: uint64

type_synonym hstate = "hierarchy \<times> heap"
type_synonym 'a outcome = "((exn + 'a) \<times> hstate) option"

datatype construction_error = Cache_error exn | Filesystem_error string

definition start_background_processing :: "hierarchy \<Rightarrow> hierarchy" where
  "start_background_processing H =
     (if background_running H then H else H\<lparr>background_running := True\<rparr>)"

definition stop_background_processing :: "hierarchy \<Rightarrow> hierarchy" where
  "stop_background_processing H = H\<lparr>background_running := False\<rparr>"

definition is_background_processing_running :: "hierarchy \<Rightarrow> bool" where
  "is_background_processing_running H = background_running H"

definition set_l3_persistence_callback :: "l3_callback option \<Rightarrow> hierarchy \<Rightarrow> hierarchy" where
  "set_l3_persistence_callback cb H = H\<lparr>on_l3_demotion := cb\<rparr>"

text \<open>
  The constructor. The L2 cache's own constructor creates its directory outside the \<open>try\<close>; the
  \<open>try\<close> covers the second creation of that directory and the L3 one.
\<close>

definition mk_hierarchy :: "(string \<Rightarrow> bool) \<Rightarrow> hierarchy_config \<Rightarrow> construction_error + hierarchy" where
  "mk_hierarchy can_create cfg =
     (case mk_cache (l1_max_size cfg) of
        Inl e \<Rightarrow> Inl (Cache_error e)
      | Inr l1 \<Rightarrow>
          (let H = \<lparr>h_config = cfg, l1_cache = l1, l2_cache = None, on_l3_demotion = None,
                 background_running = False, total_hits = 0, total_misses = 0, l1_hits = 0,
                 l2_hits = 0, l3_hits = 0, promotions = 0, demotions = 0\<rparr>;
               finish = (\<lambda>H. if enable_background_processing cfg then start_background_processing H else H)
           in if 0 < l2_max_size cfg then
                if \<not> can_create (l2_storage_path cfg) then Inl (Filesystem_error (l2_storage_path cfg))
                else if can_create (l2_storage_path cfg) \<and> can_create (l3_storage_path cfg) then
                  Inr (finish (H\<lparr>l2_cache := Some (mk_mm_cache (l2_max_size cfg))\<rparr>))
                else Inr (finish H)
              else Inr (finish H)))"

section \<open>Sequencing\<close>

definition returns :: "'a \<Rightarrow> hstate \<Rightarrow> 'a outcome" where
  "returns x s = Some (Inr x, s)"

definition and_then :: "'a outcome \<Rightarrow> ('a \<Rightarrow> hstate \<Rightarrow> 'b outcome) \<Rightarrow> 'b outcome" where
  "and_then m f =
     (case m of
        None \<Rightarrow> None
      | Some (Inl e, s) \<Rightarrow> Some (Inl e, s)
      | Some (Inr x, s) \<Rightarrow> f x s)"

text \<open>\<open>try \<dots> catch (...)\<close> around a call whose result is not used.\<close>

definition swallow :: "'a outcome \<Rightarrow> unit outcome" where
  "swallow m = (case m of None \<Rightarrow> None | Some (_, s) \<Rightarrow> Some (Inr (), s))"

section \<open>The calls into the two levels\<close>

text \<open>An exception of the L1 \<open>put\<close> leaves the state as it was; its merge loop never throws on
  a chronological series.\<close>

definition l1_get :: "int \<Rightarrow> uint64 \<Rightarrow> hstate \<Rightarrow> nat option outcome" where
  "l1_get now i s =
     (case cache_get now i (l1_cache (fst s)) of
        None \<Rightarrow> None
      | Some (r, c) \<Rightarrow> Some (Inr r, (fst s)\<lparr>l1_cache := c\<rparr>, snd s))"

definition l1_put :: "int \<Rightarrow> uint64 \<Rightarrow> nat \<Rightarrow> hstate \<Rightarrow> unit outcome" where
  "l1_put now i p s =
     (case cache_put now i (Some p) (l1_cache (fst s), snd s) of
        None \<Rightarrow> None
      | Some (Inl e) \<Rightarrow> Some (Inl e, s)
      | Some (Inr (c, h)) \<Rightarrow> Some (Inr (), (fst s)\<lparr>l1_cache := c\<rparr>, h))"

definition l1_remove :: "uint64 \<Rightarrow> hstate \<Rightarrow> bool outcome" where
  "l1_remove i s =
     (case cache_remove i (l1_cache (fst s)) of
        None \<Rightarrow> None
      | Some (r, c) \<Rightarrow> Some (Inr r, (fst s)\<lparr>l1_cache := c\<rparr>, snd s))"

text \<open>Without an L2 cache the guarded calls do nothing.\<close>

definition l2_get :: "int \<Rightarrow> uint64 \<Rightarrow> hstate \<Rightarrow> nat option outcome" where
  "l2_get now i s =
     (case l2_cache (fst s) of
        None \<Rightarrow> returns None s
      | Some m \<Rightarrow>
          (case mm_get now i m of
             None \<Rightarrow> None
           | Some (r, m') \<Rightarrow> Some (Inr r, (fst s)\<lparr>l2_cache := Some m'\<rparr>, snd s)))"

definition l2_put :: "int \<Rightarrow> uint64 \<Rightarrow> nat \<Rightarrow> hstate \<Rightarrow> bool outcome" where
  "l2_put now i p s =
     (case l2_cache (fst s) of
        None \<Rightarrow> returns False s
      | Some m \<Rightarrow>
          (case mm_put now (snd s) i (Some p) m of
             None \<Rightarrow> None
           | Some (Inl e) \<Rightarrow> Some (Inl e, s)
           | Some (Inr (r, m')) \<Rightarrow> Some (Inr r, (fst s)\<lparr>l2_cache := Some m'\<rparr>, snd s)))"

definition l2_remove :: "uint64 \<Rightarrow> hstate \<Rightarrow> bool outcome" where
  "l2_remove i s =
     (case l2_cache (fst s) of
        None \<Rightarrow> returns False s
      | Some m \<Rightarrow>
          (case mm_remove i m of
             None \<Rightarrow> None
           | Some (r, m') \<Rightarrow> Some (Inr r, (fst s)\<lparr>l2_cache := Some m'\<rparr>, snd s)))"

text \<open>\<open>l2_cache_ && !l2_cache_->is_full()\<close>\<close>

definition l2_has_room :: "hierarchy \<Rightarrow> bool" where
  "l2_has_room H \<longleftrightarrow> (case l2_cache H of None \<Rightarrow> False | Some m \<Rightarrow> \<not> mm_is_full m)"

section \<open>Promotion and demotion\<close>

definition should_promote :: "uint64 \<Rightarrow> hierarchy \<Rightarrow> bool" where
  "should_promote i H =
     (case l2_cache H of
        None \<Rightarrow> False
      | Some m \<Rightarrow>
          (case mm_get_metadata i m of
             None \<Rightarrow> False
           | Some md \<Rightarrow> 1 < access_count md \<or> \<not> is_full (l1_cache H)))"

text \<open>The clock counts nanoseconds; a steady clock never goes back, so the division truncates as
  \<open>duration_cast\<close> does.\<close>

definition should_demote :: "int \<Rightarrow> uint64 \<Rightarrow> hierarchy \<Rightarrow> bool option" where
  "should_demote now i H =
     (case get_metadata i (l1_cache H) of
        None \<Rightarrow> None
      | Some (Some md) \<Rightarrow> Some (access_count md < 2 \<or> 30 < cache_size (l1_cache H))
      | Some None \<Rightarrow>
          (case l2_cache H of
             None \<Rightarrow> Some False
           | Some m \<Rightarrow>
               (case mm_get_metadata i m of
                  None \<Rightarrow> Some False
                | Some md \<Rightarrow> Some (access_count md < l2_demotion_threshold (h_config H)
                    \<and> sint (l2_demotion_timeout_seconds (h_config H)) < (now - last_access md) div 1000000000))))"

definition promote :: "int \<Rightarrow> uint64 \<Rightarrow> int \<Rightarrow> hstate \<Rightarrow> bool outcome" where
  "promote now i target s =
     (if target < 1 \<or> 3 < target then returns False s
      else if target = 1 then
        (if l2_cache (fst s) = None then returns False s
         else and_then (l2_get now i s) (\<lambda>r s1.
           case r of
             None \<Rightarrow> returns False s1
           | Some p \<Rightarrow>
               (if is_full (l1_cache (fst s1)) then returns False s1
                else
                  and_then (l1_put now i p s1) (\<lambda>_ s2.
                  and_then (l2_remove i s2) (\<lambda>_ s3.
                  returns True ((fst s3)\<lparr>promotions := promotions (fst s3) + 1\<rparr>, snd s3))))))
      else returns False s)"

definition demote :: "int \<Rightarrow> uint64 \<Rightarrow> int \<Rightarrow> hstate \<Rightarrow> bool outcome" where
  "demote now i target s =
     (if target < 1 \<or> 3 < target then returns False s
      else if target = 2 then
        (if l2_cache (fst s) = None then returns False s
         else and_then (l1_get now i s) (\<lambda>r s1.
           case r of
             None \<Rightarrow> returns False s1
           | Some p \<Rightarrow>
               (if \<not> l2_has_room (fst s1) then returns False s1
                else
                  and_then (l2_put now i p s1) (\<lambda>_ s2.
                  and_then (l1_remove i s2) (\<lambda>_ s3.
                  returns True ((fst s3)\<lparr>demotions := demotions (fst s3) + 1\<rparr>, snd s3))))))
      else if target = 3 then
        (case on_l3_demotion (fst s) of
           None \<Rightarrow> returns False s
         | Some persist \<Rightarrow>
             and_then (l2_get now i s) (\<lambda>r2 s1.
             and_then (case r2 of Some p \<Rightarrow> returns (Some p) s1 | None \<Rightarrow> l1_get now i s1) (\<lambda>r s2.
             case r of
               None \<Rightarrow> returns False s2
             | Some p \<Rightarrow>
                 (if persist i p then
                    and_then (l2_remove i s2) (\<lambda>_ s3.
                    and_then (l1_remove i s3) (\<lambda>_ s4.
                    returns True ((fst s4)\<lparr>demotions := demotions (fst s4) + 1,
                      l3_hits := l3_hits (fst s4) + 0\<rparr>, snd s4)))
                  else returns False s2))))
      else returns False s)"

section \<open>Client operations\<close>

definition count_hit :: "(hierarchy \<Rightarrow> hierarchy) \<Rightarrow> hstate \<Rightarrow> hstate" where
  "count_hit level s = ((level (fst s))\<lparr>total_hits := total_hits (fst s) + 1\<rparr>, snd s)"

definition hierarchy_get :: "int \<Rightarrow> uint64 \<Rightarrow> hstate \<Rightarrow> nat option outcome" where
  "hierarchy_get now i s =
     and_then (l1_get now i s) (\<lambda>r s1.
       case r of
         Some p \<Rightarrow> returns (Some p) (count_hit (\<lambda>H. H\<lparr>l1_hits := l1_hits H + 1\<rparr>) s1)
       | None \<Rightarrow>
           and_then (l2_get now i s1) (\<lambda>r s2.
             case r of
               Some p \<Rightarrow>
                 (let s3 = count_hit (\<lambda>H. H\<lparr>l2_hits := l2_hits H + 1\<rparr>) s2
                  in if should_promote i (fst s3)
                     then and_then (promote now i 1 s3) (\<lambda>_ s4. returns (Some p) s4)
                     else returns (Some p) s3)
             | None \<Rightarrow> returns None ((fst s2)\<lparr>total_misses := total_misses (fst s2) + 1\<rparr>, snd s2)))"

definition evict_l1 :: "hstate \<Rightarrow> (uint64 \<times> nat option) \<times> hstate" where
  "evict_l1 s =
     (let (r, c) = evict_lru_and_get_with_id (l1_cache (fst s))
      in (r, (fst s)\<lparr>l1_cache := c\<rparr>, snd s))"

text \<open>The last resort of \<open>put\<close>: the first id of the L2 cache makes room.\<close>

definition put_over_first_l2 ::
  "int \<Rightarrow> (uint64 list \<Rightarrow> uint64 list) \<Rightarrow> uint64 \<Rightarrow> nat \<Rightarrow> hstate \<Rightarrow> bool outcome" where
  "put_over_first_l2 now order i p s =
     (case l2_cache (fst s) of
        None \<Rightarrow> returns False s
      | Some m \<Rightarrow>
          (case mm_get_all_series_ids order m of
             [] \<Rightarrow> returns False s
           | first # _ \<Rightarrow>
               and_then (l2_remove first s) (\<lambda>_ s1.
               and_then (l2_put now i p s1) (\<lambda>_ s2. returns True s2))))"

text \<open>The exceptions of \<open>l2_cache_->put\<close> are caught, so the next branch is tried.\<close>

definition put_when_full ::
  "int \<Rightarrow> (uint64 list \<Rightarrow> uint64 list) \<Rightarrow> uint64 \<Rightarrow> nat \<Rightarrow> hstate \<Rightarrow> bool outcome" where
  "put_when_full now order i p s =
     (case evict_l1 s of
        ((lru_id, lru_series), s1) \<Rightarrow>
          (case lru_series of
             Some q \<Rightarrow>
               (if lru_id \<noteq> 0 then
                  and_then (if l2_has_room (fst s1) then swallow (l2_put now lru_id q s1) else returns () s1)
                    (\<lambda>_ s2. and_then (l1_put now i p s2) (\<lambda>_ s3. returns True s3))
                else put_over_first_l2 now order i p s1)
           | None \<Rightarrow> put_over_first_l2 now order i p s1))"

definition hierarchy_put ::
  "int \<Rightarrow> (uint64 list \<Rightarrow> uint64 list) \<Rightarrow> uint64 \<Rightarrow> nat option \<Rightarrow> hstate \<Rightarrow> bool outcome" where
  "hierarchy_put now order i series s =
     (case series of
        None \<Rightarrow> Some (Inl (InvalidArgumentError ''Cannot cache null time series''), s)
      | Some p \<Rightarrow>
          (if cache_size (l1_cache (fst s)) < max_size (l1_cache (fst s)) then
             and_then (l1_put now i p s) (\<lambda>_ s1. returns True s1)
           else if l2_has_room (fst s) then
             (case l2_put now i p s of
                None \<Rightarrow> None
              | Some (Inr _, s1) \<Rightarrow> returns True s1
              | Some (Inl _, s1) \<Rightarrow> put_when_full now order i p s1)
           else put_when_full now order i p s))"

definition hierarchy_remove :: "uint64 \<Rightarrow> hstate \<Rightarrow> bool outcome" where
  "hierarchy_remove i s =
     and_then (l1_remove i s) (\<lambda>r1 s1.
     and_then (l2_remove i s1) (\<lambda>r2 s2. returns (r1 \<or> r2) s2))"

definition hierarchy_reset_stats :: "hstate \<Rightarrow> hstate" where
  "hierarchy_reset_stats s =
     ((fst s)\<lparr>total_hits := 0, total_misses := 0, l1_hits := 0, l2_hits := 0, l3_hits := 0,
        promotions := 0, demotions := 0, l1_cache := reset_stats (l1_cache (fst s)),
        l2_cache := map_option mm_reset_stats (l2_cache (fst s))\<rparr>, snd s)"

definition hierarchy_clear :: "hstate \<Rightarrow> hstate" where
  "hierarchy_clear s =
     hierarchy_reset_stats ((fst s)\<lparr>l1_cache := cache_clear (l1_cache (fst s)),
       l2_cache := map_option mm_clear (l2_cache (fst s))\<rparr>, snd s)"

section \<open>Background maintenance\<close>

text \<open>One pass over a snapshot of ids; the pass ends the maintenance when the flag is down.\<close>

fun maintain_pass :: "(uint64 \<Rightarrow> hstate \<Rightarrow> unit outcome) \<Rightarrow> uint64 list \<Rightarrow> hstate \<Rightarrow> bool outcome" where
  "maintain_pass act [] s = returns True s"
| "maintain_pass act (i # is) s =
     (if \<not> background_running (fst s) then returns False s
      else and_then (act i s) (\<lambda>_ s1. maintain_pass act is s1))"

definition try_promote :: "int \<Rightarrow> uint64 \<Rightarrow> hstate \<Rightarrow> unit outcome" where
  "try_promote now i s =
     (if should_promote i (fst s) then swallow (promote now i 1 s) else returns () s)"

definition try_demote :: "int \<Rightarrow> int \<Rightarrow> uint64 \<Rightarrow> hstate \<Rightarrow> unit outcome" where
  "try_demote now target i s =
     (case should_demote now i (fst s) of
        None \<Rightarrow> None
      | Some True \<Rightarrow> swallow (demote now i target s)
      | Some False \<Rightarrow> returns () s)"

definition perform_maintenance :: "int \<Rightarrow> (uint64 list \<Rightarrow> uint64 list) \<Rightarrow> hstate \<Rightarrow> unit outcome" where
  "perform_maintenance now order s =
     (let l1_ids = order (get_all_series_ids (l1_cache (fst s)));
          l2_ids = (case l2_cache (fst s) of None \<Rightarrow> [] | Some m \<Rightarrow> mm_get_all_series_ids order m)
      in and_then (maintain_pass (try_promote now) l2_ids s) (\<lambda>go s1.
         if \<not> go then returns () s1
         else and_then (maintain_pass (try_demote now 2) l1_ids s1) (\<lambda>go s2.
           if \<not> go then returns () s2
           else and_then (maintain_pass (try_demote now 3) l2_ids s2) (\<lambda>_ s3. returns () s3))))"

text \<open>One round of the background loop up to its sleep; the result says whether it goes on to
  sleep. Errors of a maintenance run are logged and dropped.\<close>

definition background_round :: "int \<Rightarrow> (uint64 list \<Rightarrow> uint64 list) \<Rightarrow> hstate \<Rightarrow> bool outcome" where
  "background_round now order s =
     (if \<not> background_running (fst s) then returns False s
      else and_then (swallow (perform_maintenance now order s)) (\<lambda>_ s1.
        returns (background_running (fst s1)) s1))"

text \<open>The sleep between rounds: slices of 100 ms until the interval is over or the flag, read
  from the given sequence, is down. The result is the number of slices slept.\<close>

function sleep_slices :: "(nat \<Rightarrow> bool) \<Rightarrow> nat \<Rightarrow> nat \<Rightarrow> nat" where
  "sleep_slices running interval elapsed =
     (if elapsed < interval \<and> running (elapsed div 100)
      then 1 + sleep_slices running interval (elapsed + 100) else 0)"
  by pat_completeness auto
termination by (relation "measure (\<lambda>(r, interval, elapsed). interval - elapsed)") auto

definition calculate_series_size :: "time_series option \<Rightarrow> uint64" where
  "calculate_series_size series =
     (case series of
        None \<Rightarrow> 0
      | Some ts \<Rightarrow> of_nat (length (ts_labels ts)) * 32 + of_nat (length (ts_samples ts)) * sizeof_sample + 16)"

declare sleep_slices.simps [simp del]

section \<open>Invariant and abstract view\<close>

text \<open>The view of a state: what each level holds, as a finite map from ids to series.\<close>

definition in_l1 :: "hstate \<Rightarrow> uint64 \<rightharpoonup> nat" where
  "in_l1 s = map_of (recency (l1_cache (fst s)))"

definition in_l2 :: "hstate \<Rightarrow> uint64 \<rightharpoonup> nat" where
  "in_l2 s = (case l2_cache (fst s) of None \<Rightarrow> Map.empty | Some m \<Rightarrow> map_of (mm_cache_map m))"

definition hierarchy_ok :: "hstate \<Rightarrow> bool" where
  "hierarchy_ok s \<longleftrightarrow> cache_ok (l1_cache (fst s))
     \<and> (\<forall>m. l2_cache (fst s) = Some m \<longrightarrow> mm_ok m \<and> 0 < mm_max_size m)
     \<and> ran (in_l1 s) \<subseteq> dom (snd s) \<and> ran (in_l2 s) \<subseteq> dom (snd s)
     \<and> (\<forall>p ts. snd s p = Some ts \<longrightarrow> chronological (ts_samples ts))"

text \<open>What no operation but the setters changes.\<close>

definition l2_capacity :: "hierarchy \<Rightarrow> nat option" where
  "l2_capacity H = map_option mm_max_size (l2_cache H)"

definition frame :: "hstate \<Rightarrow> hstate \<Rightarrow> bool" where
  "frame s s' \<longleftrightarrow> h_config (fst s') = h_config (fst s)
     \<and> max_size (l1_cache (fst s')) = max_size (l1_cache (fst s))
     \<and> l2_capacity (fst s') = l2_capacity (fst s)
     \<and> on_l3_demotion (fst s') = on_l3_demotion (fst s)
     \<and> background_running (fst s') = background_running (fst s) \<and> dom (snd s) \<subseteq> dom (snd s')"

lemma frame_refl [simp]: "frame s s"
  by (simp add: frame_def)

lemma frame_trans [trans]: "\<lbrakk>frame s t; frame t u\<rbrakk> \<Longrightarrow> frame s u"
  by (auto simp: frame_def)

lemma and_then_simps [simp]:
  "and_then None f = None" "and_then (Some (Inl e, s)) f = Some (Inl e, s)"
  "and_then (Some (Inr x, s)) f = f x s" "and_then (returns x s) f = f x s"
  "swallow None = None" "swallow (Some (r, s)) = Some (Inr (), s)"
  by (simp_all add: and_then_def swallow_def returns_def)

lemma map_of_lru_front: "map_of (lru_front k xs) = map_of xs"
proof (cases "map_of xs k")
  case (Some v)
  have "map_of (filter (\<lambda>x. fst x \<noteq> k) xs) = (map_of xs)(k := None)"
    using map_of_smap_erase [of k xs] by (simp add: smap_erase_def)
  with Some show ?thesis by (auto simp: lru_front_def fun_eq_iff)
qed (simp add: lru_front_def)

lemma map_of_butlast:
  assumes "distinct (map fst xs)" "xs \<noteq> []"
  shows "map_of (butlast xs) = (map_of xs)(fst (last xs) := None)"
proof -
  obtain ys k v where xs: "xs = ys @ [(k, v)]" using assms(2) by (metis rev_exhaust surj_pair)
  then have "map_of ys k = None" using assms(1) by (simp add: map_of_eq_None_iff)
  then show ?thesis using xs by (auto simp: fun_eq_iff map_add_def split: option.splits)
qed

lemma distinct_recency: "cache_ok c \<Longrightarrow> distinct (map fst (recency c))"
  by (simp add: recency_def cache_ok_def comp_def)

lemma hierarchy_okD:
  assumes "hierarchy_ok s"
  shows "cache_ok (l1_cache (fst s))" "l2_cache (fst s) = Some m \<Longrightarrow> mm_ok m"
    "l2_cache (fst s) = Some m \<Longrightarrow> 0 < mm_max_size m" "heap_ok (l1_cache (fst s)) (snd s)"
    "in_l1 s i = Some p \<Longrightarrow> p \<in> dom (snd s)" "in_l2 s i = Some p \<Longrightarrow> p \<in> dom (snd s)"
proof -
  show ok: "cache_ok (l1_cache (fst s))" "l2_cache (fst s) = Some m \<Longrightarrow> mm_ok m"
    "l2_cache (fst s) = Some m \<Longrightarrow> 0 < mm_max_size m"
    "in_l1 s i = Some p \<Longrightarrow> p \<in> dom (snd s)" "in_l2 s i = Some p \<Longrightarrow> p \<in> dom (snd s)"
    using assms by (auto simp: hierarchy_ok_def intro: ranI)
  have "ce_series e \<in> dom (snd s)" if "e \<in> set (lru_list (l1_cache (fst s)))" for e
    using map_of_recency [OF ok(1) that] assms by (auto simp: hierarchy_ok_def in_l1_def intro: ranI)
  then show "heap_ok (l1_cache (fst s)) (snd s)"
    using assms by (auto simp: heap_ok_def hierarchy_ok_def)
qed

text \<open>Fullness of a level is a matter of the view.\<close>

lemma is_full_view:
  assumes "hierarchy_ok s"
  shows "is_full (l1_cache (fst s)) \<longleftrightarrow> max_size (l1_cache (fst s)) \<le> card (dom (in_l1 s))"
    "cache_size (l1_cache (fst s)) = card (dom (in_l1 s))"
    "card (dom (in_l1 s)) \<le> max_size (l1_cache (fst s))" "finite (dom (in_l1 s))"
proof -
  let ?c = "l1_cache (fst s)"
  note ok = hierarchy_okD(1) [OF assms]
  have "card (dom (in_l1 s)) = length (recency ?c)"
    using distinct_card [OF distinct_recency [OF ok]] by (simp add: in_l1_def dom_map_of_conv_image_fst)
  then have "card (dom (in_l1 s)) = length (cache_map ?c)" "card (dom (in_l1 s)) = length (lru_list ?c)"
    using cache_okD(3) [OF ok] by (simp_all add: recency_def)
  then show "is_full ?c \<longleftrightarrow> max_size ?c \<le> card (dom (in_l1 s))"
    "cache_size ?c = card (dom (in_l1 s))" "card (dom (in_l1 s)) \<le> max_size ?c"
    using ok by (simp_all add: is_full_def cache_size_def cache_ok_def)
  show "finite (dom (in_l1 s))" by (simp add: in_l1_def finite_dom_map_of)
qed

lemma l2_view:
  assumes "hierarchy_ok s" "l2_cache (fst s) = Some m"
  shows "in_l2 s = map_of (mm_cache_map m)" "dom (in_l2 s) = set (mm_ids m)"
    "card (dom (in_l2 s)) = length (mm_ids m)" "length (mm_ids m) \<le> mm_max_size m"
    "mm_is_full m \<longleftrightarrow> mm_max_size m \<le> card (dom (in_l2 s))"
proof -
  have ok: "mm_ok m" using hierarchy_okD(2) [OF assms] .
  show v: "in_l2 s = map_of (mm_cache_map m)" using assms(2) by (simp add: in_l2_def)
  show d: "dom (in_l2 s) = set (mm_ids m)"
    using ok by (simp add: v dom_map_of_conv_image_fst mm_ok_def)
  show c: "card (dom (in_l2 s)) = length (mm_ids m)"
    using ok unfolding d by (simp add: distinct_card mm_ok_def)
  show "length (mm_ids m) \<le> mm_max_size m" using ok by (simp add: mm_ok_def mm_ids_def)
  show "mm_is_full m \<longleftrightarrow> mm_max_size m \<le> card (dom (in_l2 s))"
    using mm_okD(4) [OF ok] by (simp add: mm_is_full_def c)
qed

section \<open>The calls into the two levels on the view\<close>

lemma hierarchy_ok_l1:
  assumes "hierarchy_ok s" "cache_ok c" "\<forall>p ts. h p = Some ts \<longrightarrow> chronological (ts_samples ts)"
    and "dom (snd s) \<subseteq> dom h" "snd ` set (recency c) \<subseteq> dom h"
  shows "hierarchy_ok ((fst s)\<lparr>l1_cache := c\<rparr>, h)"
proof -
  have "ran (map_of (recency c)) \<subseteq> dom h"
    using assms(5) by (force simp: ran_def dest: map_of_SomeD)
  moreover have "in_l2 ((fst s)\<lparr>l1_cache := c\<rparr>, h) = in_l2 s" by (simp add: in_l2_def)
  moreover have "ran (in_l2 s) \<subseteq> dom h" using assms(1,4) unfolding hierarchy_ok_def by blast
  ultimately show ?thesis using assms(1-3) by (simp add: hierarchy_ok_def in_l1_def)
qed

lemma recency_dom:
  assumes "hierarchy_ok s" shows "snd ` set (recency (l1_cache (fst s))) \<subseteq> dom (snd s)"
proof -
  have "map_of (recency (l1_cache (fst s))) k = Some p" if "(k, p) \<in> set (recency (l1_cache (fst s)))" for k p
    using that distinct_recency [OF hierarchy_okD(1) [OF assms]] by simp
  then show ?thesis using hierarchy_okD(5) [OF assms] unfolding in_l1_def by fastforce
qed

lemma chronological_heap: "hierarchy_ok s \<Longrightarrow> \<forall>p ts. snd s p = Some ts \<longrightarrow> chronological (ts_samples ts)"
  by (simp add: hierarchy_ok_def)

lemma set_lru_front: "set (lru_front k xs) \<subseteq> set xs"
  by (auto simp: lru_front_def split: option.splits dest: map_of_SomeD)

lemma l1_get_ok:
  assumes "hierarchy_ok s"
  shows "\<exists>s'. l1_get now i s = Some (Inr (in_l1 s i), s') \<and> hierarchy_ok s' \<and> frame s s'
    \<and> in_l1 s' = in_l1 s \<and> in_l2 s' = in_l2 s"
proof -
  from cache_get_refines [OF hierarchy_okD(1) [OF assms], of now i] obtain c where
    c: "cache_get now i (l1_cache (fst s)) = Some (in_l1 s i, c)" "cache_ok c"
      "recency c = lru_front i (recency (l1_cache (fst s)))" "max_size c = max_size (l1_cache (fst s))"
    by (auto simp: in_l1_def)
  have "hierarchy_ok ((fst s)\<lparr>l1_cache := c\<rparr>, snd s)"
    using recency_dom [OF assms] set_lru_front [of i "recency (l1_cache (fst s))"]
    by (intro hierarchy_ok_l1 [OF assms c(2) chronological_heap [OF assms]]) (auto simp: c(3))
  with c show ?thesis
    by (simp add: l1_get_def frame_def in_l1_def in_l2_def map_of_lru_front l2_capacity_def)
qed

lemma l1_put_ok:
  assumes "hierarchy_ok s" "p \<in> dom (snd s)" "\<not> is_full (l1_cache (fst s))"
  shows "\<exists>s'. l1_put now i p s = Some (Inr (), s') \<and> hierarchy_ok s' \<and> frame s s' \<and> in_l2 s' = in_l2 s
    \<and> in_l1 s' = (if i \<in> dom (in_l1 s) then in_l1 s else (in_l1 s)(i \<mapsto> p))"
proof -
  let ?c = "l1_cache (fst s)"
  from cache_put_refines [OF hierarchy_okD(1,4) [OF assms(1)], of p now i] assms(2) obtain c h where
    c: "cache_put now i (Some p) (?c, snd s) = Some (Inr (c, h))" "cache_ok c" "heap_ok c h"
      "max_size c = max_size ?c" "recency c = lru_put (max_size ?c) i p (recency ?c)"
      "dom (snd s) \<subseteq> dom h"
    by auto
  have short: "\<not> max_size ?c \<le> length (recency ?c)"
    using assms(3) cache_okD(3) [OF hierarchy_okD(1) [OF assms(1)]] by (simp add: is_full_def recency_def)
  then have rec: "recency c = (if i \<in> dom (in_l1 s) then lru_front i (recency ?c) else (i, p) # recency ?c)"
    using c(5) by (simp add: lru_put_def in_l1_def dom_map_of_conv_image_fst)
  then have "set (recency c) \<subseteq> insert (i, p) (set (recency ?c))"
    using set_lru_front [of i "recency ?c"] by auto
  then have "snd ` set (recency c) \<subseteq> insert p (snd ` set (recency ?c))" by force
  then have "snd ` set (recency c) \<subseteq> dom h"
    using recency_dom [OF assms(1)] assms(2) c(6) by blast
  then have "hierarchy_ok ((fst s)\<lparr>l1_cache := c\<rparr>, h)"
    using c(3) by (intro hierarchy_ok_l1 [OF assms(1) c(2) _ c(6)]) (simp_all add: heap_ok_def)
  with c(1,4,6) show ?thesis
    by (simp add: l1_put_def frame_def in_l1_def in_l2_def rec map_of_lru_front l2_capacity_def)
qed

lemma l1_remove_ok:
  assumes "hierarchy_ok s"
  shows "\<exists>s'. l1_remove i s = Some (Inr (i \<in> dom (in_l1 s)), s') \<and> hierarchy_ok s' \<and> frame s s'
    \<and> in_l1 s' = (in_l1 s)(i := None) \<and> in_l2 s' = in_l2 s"
proof -
  let ?c = "l1_cache (fst s)"
  from cache_remove_refines [OF hierarchy_okD(1) [OF assms], of i] obtain c where
    c: "cache_remove i ?c = Some (i \<in> dom (in_l1 s), c)" "cache_ok c"
      "recency c = filter (\<lambda>x. fst x \<noteq> i) (recency ?c)"
    by (auto simp: in_l1_def dom_map_of_conv_image_fst)
  have "map_of (recency c) = (in_l1 s)(i := None)"
    using map_of_smap_erase [of i "recency ?c"] by (simp add: c(3) smap_erase_def in_l1_def)
  moreover have "max_size c = max_size ?c"
    using c(1) by (auto simp: cache_remove_def split: option.splits)
  moreover have "hierarchy_ok ((fst s)\<lparr>l1_cache := c\<rparr>, snd s)"
    using recency_dom [OF assms]
    by (intro hierarchy_ok_l1 [OF assms c(2) chronological_heap [OF assms]]) (auto simp: c(3))
  ultimately show ?thesis
    using c(1) by (simp add: l1_remove_def frame_def in_l1_def in_l2_def l2_capacity_def)
qed

lemma hierarchy_ok_l2:
  assumes "hierarchy_ok s" "mm_ok m" "0 < mm_max_size m" "ran (map_of (mm_cache_map m)) \<subseteq> dom (snd s)"
  shows "hierarchy_ok ((fst s)\<lparr>l2_cache := Some m\<rparr>, snd s)"
  using assms by (simp add: hierarchy_ok_def in_l1_def in_l2_def)

lemma ran_in_l2: "\<lbrakk>hierarchy_ok s; l2_cache (fst s) = Some m\<rbrakk> \<Longrightarrow> ran (map_of (mm_cache_map m)) \<subseteq> dom (snd s)"
  by (auto simp: hierarchy_ok_def in_l2_def)

lemma l2_get_ok:
  assumes "hierarchy_ok s"
  shows "\<exists>s'. l2_get now i s = Some (Inr (in_l2 s i), s') \<and> hierarchy_ok s' \<and> frame s s'
    \<and> in_l1 s' = in_l1 s \<and> in_l2 s' = in_l2 s"
proof (cases "l2_cache (fst s)")
  case None
  then show ?thesis using assms by (simp add: l2_get_def returns_def in_l2_def)
next
  case (Some m)
  from mm_get_ok [OF hierarchy_okD(2) [OF assms Some], of now i] obtain m' where
    m: "mm_get now i m = Some (map_of (mm_cache_map m) i, m')" "mm_ok m'"
      "mm_cache_map m' = mm_cache_map m" "mm_max_size m' = mm_max_size m"
    by blast
  have "hierarchy_ok ((fst s)\<lparr>l2_cache := Some m'\<rparr>, snd s)"
    using ran_in_l2 [OF assms Some] hierarchy_okD(3) [OF assms Some] m
    by (intro hierarchy_ok_l2 [OF assms]) simp_all
  then show ?thesis
    using m Some by (simp add: l2_get_def in_l1_def in_l2_def frame_def l2_capacity_def)
qed

lemma l2_has_room_view:
  assumes "hierarchy_ok s"
  shows "l2_has_room (fst s) \<longleftrightarrow> (\<exists>n. l2_capacity (fst s) = Some n \<and> card (dom (in_l2 s)) < n)"
  using l2_view(5) [OF assms]
  by (cases "l2_cache (fst s)") (auto simp: l2_has_room_def l2_capacity_def not_le)

lemma l2_put_ok:
  assumes "hierarchy_ok s" "p \<in> dom (snd s)" "l2_has_room (fst s)"
  shows "\<exists>s'. l2_put now i p s = Some (Inr True, s') \<and> hierarchy_ok s' \<and> frame s s'
    \<and> in_l1 s' = in_l1 s \<and> in_l2 s' = (in_l2 s)(i \<mapsto> p)"
proof -
  obtain m where m: "l2_cache (fst s) = Some m" "\<not> mm_is_full m"
    using assms(3) by (auto simp: l2_has_room_def split: option.splits)
  note ok = hierarchy_okD(2,3) [OF assms(1) m(1)]
  obtain ts where ts: "snd s p = Some ts" using assms(2) by blast
  from mm_put_ok [of m "snd s" p ts now i] ok ts obtain m' where
    m': "mm_put now (snd s) i (Some p) m = Some (Inr (True, m'))" "mm_ok m'"
      "mm_max_size m' = mm_max_size m" "map_of (mm_cache_map m') i = Some p"
      "mm_ids m' = ids_touch (mm_max_size m) i (mm_ids m)"
      "set (mm_cache_map m') \<subseteq> insert (i, p) (set (mm_cache_map m))"
    by blast
  have lookup: "map_of (mm_cache_map m') k = Some q \<longleftrightarrow> (k, q) \<in> set (mm_cache_map m')"
      "map_of (mm_cache_map m) k = Some q \<longleftrightarrow> (k, q) \<in> set (mm_cache_map m)" for k q
    using m'(2) ok(1) by (simp_all add: mm_ok_def smap_ok_distinct)
  have dom: "dom (map_of (mm_cache_map m')) = insert i (dom (map_of (mm_cache_map m)))"
    using m'(2,5) ok(1) m(2) mm_okD(4) [OF ok(1)]
    by (auto simp: mm_ok_def dom_map_of_conv_image_fst ids_touch_def mm_is_full_def split: if_splits)
  have "map_of (mm_cache_map m') = (map_of (mm_cache_map m))(i \<mapsto> p)"
  proof
    fix k
    show "map_of (mm_cache_map m') k = ((map_of (mm_cache_map m))(i \<mapsto> p)) k"
    proof (cases "k = i")
      case False
      show ?thesis
      proof (cases "map_of (mm_cache_map m') k")
        case None
        then have "k \<notin> dom (map_of (mm_cache_map m))" using dom by blast
        then show ?thesis using False None by (simp add: domIff)
      next
        case (Some q)
        then have "(k, q) \<in> set (mm_cache_map m)" using lookup(1) m'(6) False by blast
        then have "map_of (mm_cache_map m) k = Some q" by (simp only: lookup(2))
        then show ?thesis using Some False by simp
      qed
    qed (simp add: m'(4))
  qed
  moreover from this have "hierarchy_ok ((fst s)\<lparr>l2_cache := Some m'\<rparr>, snd s)"
    using ran_in_l2 [OF assms(1) m(1)] ok m'(2,3) assms(2)
    by (intro hierarchy_ok_l2 [OF assms(1)]) (auto simp: ran_def split: if_splits)
  ultimately show ?thesis
    using m m'(1,3) by (simp add: l2_put_def in_l1_def in_l2_def frame_def l2_capacity_def)
qed

lemma l2_remove_ok:
  assumes "hierarchy_ok s"
  shows "\<exists>s'. l2_remove i s = Some (Inr (i \<in> dom (in_l2 s)), s') \<and> hierarchy_ok s' \<and> frame s s'
    \<and> in_l1 s' = in_l1 s \<and> in_l2 s' = (in_l2 s)(i := None)"
proof (cases "l2_cache (fst s)")
  case None
  then show ?thesis using assms by (simp add: l2_remove_def returns_def in_l2_def)
next
  case (Some m)
  from mm_remove_ok [OF hierarchy_okD(2) [OF assms Some], of i] obtain m' where
    m: "mm_remove i m = Some (i \<in> set (mm_ids m), m')" "mm_ok m'"
      "mm_cache_map m' = smap_erase i (mm_cache_map m)" "mm_max_size m' = mm_max_size m"
    by blast
  have "hierarchy_ok ((fst s)\<lparr>l2_cache := Some m'\<rparr>, snd s)"
    using ran_in_l2 [OF assms Some] hierarchy_okD(3) [OF assms Some] m
    by (intro hierarchy_ok_l2 [OF assms]) (auto simp: smap_simps ran_def split: if_splits)
  then show ?thesis
    using m Some l2_view(2) [OF assms Some]
    by (simp add: l2_remove_def in_l1_def in_l2_def frame_def l2_capacity_def smap_simps)
qed

lemma evict_l1_ok:
  assumes "hierarchy_ok s" "is_full (l1_cache (fst s))"
  shows "\<exists>k q s'. evict_l1 s = ((k, Some q), s') \<and> hierarchy_ok s' \<and> frame s s' \<and> in_l1 s k = Some q
    \<and> in_l1 s' = (in_l1 s)(k := None) \<and> in_l2 s' = in_l2 s"
proof -
  let ?c = "l1_cache (fst s)"
  note ok = hierarchy_okD(1) [OF assms(1)]
  have ne: "lru_list ?c \<noteq> []"
    using ok assms(2) cache_okD(3) [OF ok] by (auto simp: is_full_def cache_ok_def)
  let ?e = "last (lru_list ?c)" and ?c' = "evict_lru ?c"
  let ?s = "((fst s)\<lparr>l1_cache := ?c'\<rparr>, snd s)"
  have e: "?e \<in> set (lru_list ?c)" "last (recency ?c) = (ce_id ?e, ce_series ?e)" "recency ?c \<noteq> []"
    using ne by (simp_all add: recency_def last_map)
  have "evict_l1 s = ((ce_id ?e, Some (ce_series ?e)), ?s)"
    using ne by (simp add: evict_l1_def evict_lru_and_get_with_id_def evict_lru_def Let_def)
  moreover have "in_l1 s (ce_id ?e) = Some (ce_series ?e)"
    using map_of_recency [OF ok e(1)] by (simp add: in_l1_def)
  moreover have "in_l1 ?s = (in_l1 s)(ce_id ?e := None)"
    using map_of_butlast [OF distinct_recency [OF ok] e(3)] evict_lru_ok(2) [OF ok] e(2)
    by (simp add: in_l1_def)
  moreover have "hierarchy_ok ?s"
    using recency_dom [OF assms(1)] evict_lru_ok(2) [OF ok]
    by (intro hierarchy_ok_l1 [OF assms(1) evict_lru_ok(1) [OF ok] chronological_heap [OF assms(1)]])
      (auto dest: in_set_butlastD)
  moreover have "frame s ?s"
    using evict_lru_ok(3) [OF ok] by (simp add: frame_def l2_capacity_def)
  ultimately show ?thesis by (auto simp: in_l2_def)
qed

section \<open>Moving series between the levels\<close>

definition held :: "hstate \<Rightarrow> (uint64 \<times> nat) set" where
  "held s = {(k, p). in_l1 s k = Some p \<or> in_l2 s k = Some p}"

definition cached :: "hstate \<Rightarrow> uint64 set" where
  "cached s = dom (in_l1 s) \<union> dom (in_l2 s)"

text \<open>A step that caches nothing new and keeps every id outside the given set.\<close>

definition evolves :: "uint64 set \<Rightarrow> hstate \<Rightarrow> hstate \<Rightarrow> bool" where
  "evolves A s s' \<longleftrightarrow> hierarchy_ok s' \<and> frame s s' \<and> held s' \<subseteq> held s \<and> cached s - A \<subseteq> cached s'"

text \<open>The ids the L3 callback accepts.\<close>

definition accepted :: "hstate \<Rightarrow> uint64 set" where
  "accepted s = {k. \<exists>persist p. on_l3_demotion (fst s) = Some persist \<and> (k, p) \<in> held s \<and> persist k p}"

lemma evolves_refl: "hierarchy_ok s \<Longrightarrow> evolves A s s"
  by (simp add: evolves_def)

lemma evolves_trans: "\<lbrakk>evolves A s t; evolves A t u\<rbrakk> \<Longrightarrow> evolves A s u"
  unfolding evolves_def by (blast intro: frame_trans)

lemma evolves_mono: "\<lbrakk>evolves A s t; A \<subseteq> B\<rbrakk> \<Longrightarrow> evolves B s t"
  unfolding evolves_def by blast

lemma evolves_view:
  assumes "hierarchy_ok s'" "frame s s'" "in_l1 s' = in_l1 s" "in_l2 s' = in_l2 s"
  shows "evolves A s s'"
  using assms by (auto simp: evolves_def held_def cached_def)

lemma accepted_evolves: "evolves A s s' \<Longrightarrow> accepted s' \<subseteq> accepted s"
  unfolding evolves_def accepted_def frame_def by fastforce

lemma counters_irrelevant:
  assumes "l1_cache H' = l1_cache H" "l2_cache H' = l2_cache H" "h_config H' = h_config H"
    "on_l3_demotion H' = on_l3_demotion H" "background_running H' = background_running H"
  shows "hierarchy_ok (H', h) = hierarchy_ok (H, h)" "in_l1 (H', h) = in_l1 (H, h)"
    "in_l2 (H', h) = in_l2 (H, h)" "frame s (H', h) = frame s (H, h)"
  using assms by (simp_all add: hierarchy_ok_def in_l1_def in_l2_def frame_def l2_capacity_def)

lemma evolves_counters:
  assumes "evolves A s s'" "l1_cache H' = l1_cache (fst s')" "l2_cache H' = l2_cache (fst s')"
    "h_config H' = h_config (fst s')" "on_l3_demotion H' = on_l3_demotion (fst s')"
    "background_running H' = background_running (fst s')"
  shows "evolves A s (H', snd s')"
proof -
  note same = counters_irrelevant [OF assms(2-6), where h = "snd s'"]
  show ?thesis using assms(1) by (simp add: evolves_def held_def cached_def same)
qed

text \<open>A computation that returns, without an exception, after such a step.\<close>

definition keeps :: "uint64 set \<Rightarrow> hstate \<Rightarrow> 'a outcome \<Rightarrow> bool" where
  "keeps A s m \<longleftrightarrow> (\<exists>r s'. m = Some (Inr r, s') \<and> evolves A s s')"

lemma keeps_returns [simp]: "keeps A s (returns r s') = evolves A s s'" "keeps A s (Some (Inr r, s')) = evolves A s s'"
  by (auto simp: keeps_def returns_def)

lemma keeps_bind:
  assumes "keeps A s m" "\<And>r t. evolves A s t \<Longrightarrow> keeps A s (f r t)"
  shows "keeps A s (and_then m f)"
  using assms by (auto simp: keeps_def)

lemma keeps_swallow: "keeps A s m \<Longrightarrow> keeps A s (swallow m)"
  by (auto simp: keeps_def)

lemma keeps_after: "\<lbrakk>evolves A s t; keeps A t m\<rbrakk> \<Longrightarrow> keeps A s m"
  unfolding keeps_def by (blast intro: evolves_trans)

lemma keeps_mono: "\<lbrakk>keeps A s m; A \<subseteq> B\<rbrakk> \<Longrightarrow> keeps B s m"
  unfolding keeps_def by (blast intro: evolves_mono)

lemma promote_ok:
  assumes "hierarchy_ok s"
  shows "keeps {} s (promote now i t s)"
proof (cases "t = 1 \<and> l2_cache (fst s) \<noteq> None")
  case False
  then show ?thesis using evolves_refl [OF assms] by (auto simp: promote_def)
next
  case True
  obtain s1 where s1: "l2_get now i s = Some (Inr (in_l2 s i), s1)" "hierarchy_ok s1" "frame s s1"
      "in_l1 s1 = in_l1 s" "in_l2 s1 = in_l2 s"
    using l2_get_ok [OF assms] by blast
  show ?thesis
  proof (cases "\<exists>p. in_l2 s i = Some p \<and> \<not> is_full (l1_cache (fst s1))")
    case False
    then show ?thesis
      using True s1(1) evolves_view [OF s1(2-5)] by (auto simp: promote_def split: option.split)
  next
    case full: True
    then obtain p where p: "in_l2 s i = Some p" "\<not> is_full (l1_cache (fst s1))" by blast
    then have "p \<in> dom (snd s1)" using hierarchy_okD(6) [OF s1(2)] s1(5) by simp
    then obtain s2 where s2: "l1_put now i p s1 = Some (Inr (), s2)" "hierarchy_ok s2" "frame s1 s2"
        "in_l2 s2 = in_l2 s1" "in_l1 s2 = (if i \<in> dom (in_l1 s1) then in_l1 s1 else (in_l1 s1)(i \<mapsto> p))"
      using l1_put_ok [OF s1(2) _ p(2)] by blast
    obtain r s3 where s3: "l2_remove i s2 = Some (Inr r, s3)" "hierarchy_ok s3" "frame s2 s3"
        "in_l1 s3 = in_l1 s2" "in_l2 s3 = (in_l2 s2)(i := None)"
      using l2_remove_ok [OF s2(2)] by blast
    have "evolves {} s s3"
      using frame_trans [OF frame_trans [OF s1(3) s2(3)] s3(3)] s3(2) p(1)
      by (auto simp: evolves_def held_def cached_def s3(4,5) s2(4,5) s1(4,5) split: if_splits)
    then have "evolves {} s ((fst s3)\<lparr>promotions := promotions (fst s3) + 1\<rparr>, snd s3)"
      by (rule evolves_counters) simp_all
    then show ?thesis
      using True s1(1) p s2(1) s3(1) by (auto simp: promote_def)
  qed
qed

lemma demote_ok:
  assumes "hierarchy_ok s" "t \<noteq> 3"
  shows "keeps {} s (demote now i t s)"
proof (cases "t = 2 \<and> l2_cache (fst s) \<noteq> None")
  case False
  then show ?thesis using evolves_refl [OF assms(1)] assms(2) by (auto simp: demote_def)
next
  case True
  obtain s1 where s1: "l1_get now i s = Some (Inr (in_l1 s i), s1)" "hierarchy_ok s1" "frame s s1"
      "in_l1 s1 = in_l1 s" "in_l2 s1 = in_l2 s"
    using l1_get_ok [OF assms(1)] by blast
  show ?thesis
  proof (cases "\<exists>p. in_l1 s i = Some p \<and> l2_has_room (fst s1)")
    case False
    then show ?thesis
      using True s1(1) evolves_view [OF s1(2-5)] by (auto simp: demote_def split: option.split)
  next
    case room: True
    then obtain p where p: "in_l1 s i = Some p" "l2_has_room (fst s1)" by blast
    then have "p \<in> dom (snd s1)" using hierarchy_okD(5) [OF s1(2)] s1(4) by simp
    then obtain s2 where s2: "l2_put now i p s1 = Some (Inr True, s2)" "hierarchy_ok s2" "frame s1 s2"
        "in_l1 s2 = in_l1 s1" "in_l2 s2 = (in_l2 s1)(i \<mapsto> p)"
      using l2_put_ok [OF s1(2) _ p(2)] by blast
    obtain r s3 where s3: "l1_remove i s2 = Some (Inr r, s3)" "hierarchy_ok s3" "frame s2 s3"
        "in_l1 s3 = (in_l1 s2)(i := None)" "in_l2 s3 = in_l2 s2"
      using l1_remove_ok [OF s2(2)] by blast
    have "evolves {} s s3"
      using frame_trans [OF frame_trans [OF s1(3) s2(3)] s3(3)] s3(2) p(1)
      by (auto simp: evolves_def held_def cached_def s3(4,5) s2(4,5) s1(4,5) split: if_splits)
    then have "evolves {} s ((fst s3)\<lparr>demotions := demotions (fst s3) + 1\<rparr>, snd s3)"
      by (rule evolves_counters) simp_all
    then show ?thesis
      using True s1(1) p s2(1) s3(1) by (auto simp: demote_def)
  qed
qed

lemma demote_l3_ok:
  assumes "hierarchy_ok s"
  shows "keeps (accepted s) s (demote now i 3 s)"
proof (cases "on_l3_demotion (fst s)")
  case None
  then show ?thesis using evolves_refl [OF assms] by (simp add: demote_def)
next
  case (Some persist)
  obtain s1 where s1: "l2_get now i s = Some (Inr (in_l2 s i), s1)" "hierarchy_ok s1" "frame s s1"
      "in_l1 s1 = in_l1 s" "in_l2 s1 = in_l2 s"
    using l2_get_ok [OF assms] by blast
  obtain r s2 where
    s2: "(case in_l2 s i of Some p \<Rightarrow> returns (Some p) s1 | None \<Rightarrow> l1_get now i s1) = Some (Inr r, s2)"
      "\<And>p. r = Some p \<Longrightarrow> (i, p) \<in> held s" "hierarchy_ok s2" "frame s1 s2"
      "in_l1 s2 = in_l1 s" "in_l2 s2 = in_l2 s"
  proof (cases "in_l2 s i")
    case None
    with l1_get_ok [OF s1(2), of now i] show thesis by (auto simp: held_def s1(4,5) intro: that)
  next
    case (Some p)
    with that [of "Some p" s1] s1(2,4,5) show thesis by (simp add: returns_def held_def)
  qed
  note s12 = evolves_view [OF s2(3) frame_trans [OF s1(3) s2(4)] s2(5,6)]
  show ?thesis
  proof (cases "\<exists>p. r = Some p \<and> persist i p")
    case False
    then show ?thesis using Some s1(1) s2(1) s12 by (auto simp: demote_def split: option.split)
  next
    case True
    then obtain p where p: "r = Some p" "persist i p" by blast
    then have i: "i \<in> accepted s" using s2(2) Some by (auto simp: accepted_def)
    obtain r3 s3 where s3: "l2_remove i s2 = Some (Inr r3, s3)" "hierarchy_ok s3" "frame s2 s3"
        "in_l1 s3 = in_l1 s2" "in_l2 s3 = (in_l2 s2)(i := None)"
      using l2_remove_ok [OF s2(3)] by blast
    obtain r4 s4 where s4: "l1_remove i s3 = Some (Inr r4, s4)" "hierarchy_ok s4" "frame s3 s4"
        "in_l1 s4 = (in_l1 s3)(i := None)" "in_l2 s4 = in_l2 s3"
      using l1_remove_ok [OF s3(2)] by blast
    have "frame s s4" using s1(3) s2(4) s3(3) s4(3) by (blast intro: frame_trans)
    then have "evolves (accepted s) s s4"
      using s4(2) i by (auto simp: evolves_def held_def cached_def s4(4,5) s3(4,5) s2(5,6) split: if_splits)
    then have "evolves (accepted s) s
        ((fst s4)\<lparr>demotions := demotions (fst s4) + 1, l3_hits := l3_hits (fst s4) + 0\<rparr>, snd s4)"
      by (rule evolves_counters) simp_all
    then show ?thesis using Some s1(1) s2(1) p s3(1) s4(1) by (simp add: demote_def)
  qed
qed

section \<open>Maintenance\<close>

lemma should_demote_defined:
  assumes "hierarchy_ok s" shows "\<exists>b. should_demote now i (fst s) = Some b"
proof -
  note ok = hierarchy_okD(1) [OF assms]
  have "get_metadata i (l1_cache (fst s)) \<noteq> None"
    using cache_okD(1) [OF ok, of i] cache_okD(4) [OF ok]
    by (auto simp: get_metadata_def split: option.split)
  then show ?thesis by (auto simp: should_demote_def split: option.split)
qed

lemma evolves_ok: "evolves A s t \<Longrightarrow> hierarchy_ok t"
  by (simp add: evolves_def)

lemma maintain_pass_ok:
  assumes "\<And>i t. evolves A s t \<Longrightarrow> keeps A t (act i t)" "evolves A s t"
  shows "keeps A s (maintain_pass act is t)"
  using assms(2)
proof (induction "is" arbitrary: t)
  case (Cons i "is")
  have "keeps A s (act i t)" using keeps_after [OF Cons.prems assms(1) [OF Cons.prems]] .
  then have "keeps A s (and_then (act i t) (\<lambda>_. maintain_pass act is))"
    by (rule keeps_bind) (rule Cons.IH)
  then show ?case using Cons.prems by simp
qed simp

lemma try_promote_ok: "hierarchy_ok s \<Longrightarrow> keeps {} s (try_promote now i s)"
  by (simp add: try_promote_def evolves_refl keeps_swallow promote_ok)

lemma try_demote_ok:
  assumes "hierarchy_ok s"
  shows "keeps (accepted s) s (try_demote now t i s)"
proof -
  have "keeps (accepted s) s (demote now i t s)"
    using demote_l3_ok [OF assms] keeps_mono [OF demote_ok [OF assms]] by (cases "t = 3") auto
  then show ?thesis
    using should_demote_defined [OF assms, of now i] evolves_refl [OF assms]
    by (auto simp: try_demote_def keeps_swallow split: bool.split)
qed

lemma perform_maintenance_ok:
  assumes "hierarchy_ok s"
  shows "keeps (accepted s) s (perform_maintenance now order s)"
proof -
  have up: "keeps (accepted s) t (try_promote now i t)" if "evolves (accepted s) s t" for i t
    using keeps_mono [OF try_promote_ok] evolves_ok [OF that] by blast
  have down: "keeps (accepted s) t (try_demote now k i t)" if "evolves (accepted s) s t" for k i t
    using keeps_mono [OF try_demote_ok accepted_evolves [OF that]] evolves_ok [OF that] by blast
  show ?thesis
    unfolding perform_maintenance_def Let_def
    by (intro keeps_bind maintain_pass_ok up down evolves_refl [OF assms]) (auto intro!: keeps_bind maintain_pass_ok up down)
qed

section \<open>Client operations\<close>

text \<open>What a lookup sees: the L1 entry, else the L2 entry.\<close>

definition visible :: "hstate \<Rightarrow> uint64 \<rightharpoonup> nat" where
  "visible s = in_l2 s ++ in_l1 s"

lemma hierarchy_get_ok:
  assumes "hierarchy_ok s"
  shows "\<exists>s'. hierarchy_get now i s = Some (Inr (visible s i), s') \<and> evolves {} s s'"
proof -
  obtain s1 where s1: "l1_get now i s = Some (Inr (in_l1 s i), s1)" "hierarchy_ok s1" "frame s s1"
      "in_l1 s1 = in_l1 s" "in_l2 s1 = in_l2 s"
    using l1_get_ok [OF assms] by blast
  note ev1 = evolves_view [OF s1(2-5), of "{}"]
  show ?thesis
  proof (cases "in_l1 s i")
    case (Some p)
    have "evolves {} s (count_hit (\<lambda>H. H\<lparr>l1_hits := l1_hits H + 1\<rparr>) s1)"
      unfolding count_hit_def by (rule evolves_counters [OF ev1]) simp_all
    then show ?thesis using Some s1(1) by (simp add: hierarchy_get_def returns_def visible_def)
  next
    case None
    obtain s2 where s2: "l2_get now i s1 = Some (Inr (in_l2 s i), s2)" "hierarchy_ok s2" "frame s1 s2"
        "in_l1 s2 = in_l1 s1" "in_l2 s2 = in_l2 s1"
      using l2_get_ok [OF s1(2), of now i] s1(5) by auto
    note ev2 = evolves_trans [OF ev1 evolves_view [OF s2(2-5)]]
    have see: "visible s i = in_l2 s i" using None by (simp add: visible_def map_add_def)
    show ?thesis
    proof (cases "in_l2 s i")
      case miss: None
      have "evolves {} s ((fst s2)\<lparr>total_misses := total_misses (fst s2) + 1\<rparr>, snd s2)"
        by (rule evolves_counters [OF ev2]) simp_all
      then show ?thesis using None miss s1(1) s2(1) see by (simp add: hierarchy_get_def returns_def)
    next
      case (Some p)
      let ?s3 = "count_hit (\<lambda>H. H\<lparr>l2_hits := l2_hits H + 1\<rparr>) s2"
      have ev3: "evolves {} s ?s3"
        unfolding count_hit_def by (rule evolves_counters [OF ev2]) simp_all
      obtain r s4 where "promote now i 1 ?s3 = Some (Inr r, s4)" "evolves {} s s4"
        using keeps_after [OF ev3 promote_ok [OF evolves_ok [OF ev3]], of now i 1] by (auto simp: keeps_def)
      then show ?thesis
        using None Some s1(1) s2(1) see ev3
        by (cases "should_promote i (fst ?s3)") (simp_all add: hierarchy_get_def returns_def Let_def)
    qed
  qed
qed

text \<open>What a put may do: cache the new pair, drop others.\<close>

definition put_effect :: "uint64 \<Rightarrow> nat \<Rightarrow> hstate \<Rightarrow> bool \<Rightarrow> hstate \<Rightarrow> bool" where
  "put_effect i p s r s' \<longleftrightarrow> hierarchy_ok s' \<and> frame s s' \<and> held s' \<subseteq> insert (i, p) (held s)
     \<and> (r \<longrightarrow> i \<in> cached s')"

lemma put_over_first_l2_ok:
  assumes "hierarchy_ok s" "p \<in> dom (snd s)" "\<And>xs. set (order xs) = set xs"
  shows "\<exists>r s'. put_over_first_l2 now order i p s = Some (Inr r, s') \<and> put_effect i p s r s'"
proof (cases "l2_cache (fst s) = None \<or> in_l2 s = Map.empty")
  case True
  then have "put_over_first_l2 now order i p s = returns False s"
    using assms(3) [of "[]"] by (auto simp: put_over_first_l2_def in_l2_def mm_get_all_series_ids_def
        split: option.split list.split)
  then show ?thesis using assms(1) by (auto simp: returns_def put_effect_def)
next
  case False
  then obtain m where m: "l2_cache (fst s) = Some m" by auto
  then have "mm_cache_map m \<noteq> []" using False by (auto simp: in_l2_def)
  then obtain k ks where k: "mm_get_all_series_ids order m = k # ks"
    using assms(3) [of "map fst (mm_cache_map m)"] unfolding mm_get_all_series_ids_def
    by (metis empty_set list.exhaust map_is_Nil_conv set_empty)
  then have "k \<in> set (order (map fst (mm_cache_map m)))" by (simp add: mm_get_all_series_ids_def)
  then have kd: "k \<in> dom (in_l2 s)"
    using assms(3) l2_view(1) [OF assms(1) m] by (auto simp: dom_map_of_conv_image_fst)
  obtain r s1 where s1: "l2_remove k s = Some (Inr r, s1)" "hierarchy_ok s1" "frame s s1"
      "in_l1 s1 = in_l1 s" "in_l2 s1 = (in_l2 s)(k := None)"
    using l2_remove_ok [OF assms(1)] by blast
  have "card (dom (in_l2 s)) \<le> mm_max_size m"
    using l2_view(3,4) [OF assms(1) m] by simp
  moreover have "finite (dom (in_l2 s))" using l2_view(2) [OF assms(1) m] by simp
  ultimately have "card (dom (in_l2 s1)) < mm_max_size m"
    using kd s1(5) card_Diff1_less [of "dom (in_l2 s)" k] by simp
  then have "l2_has_room (fst s1)"
    using s1(3) m unfolding l2_has_room_view [OF s1(2)] by (simp add: frame_def l2_capacity_def) blast
  moreover have "p \<in> dom (snd s1)" using assms(2) s1(3) by (auto simp: frame_def)
  ultimately obtain s2 where s2: "l2_put now i p s1 = Some (Inr True, s2)" "hierarchy_ok s2" "frame s1 s2"
      "in_l1 s2 = in_l1 s1" "in_l2 s2 = (in_l2 s1)(i \<mapsto> p)"
    using l2_put_ok [OF s1(2)] by blast
  have "put_over_first_l2 now order i p s = Some (Inr True, s2)"
    using m k s1(1) s2(1) by (simp add: put_over_first_l2_def returns_def)
  then show ?thesis
    using s2(2) frame_trans [OF s1(3) s2(3)]
    by (auto simp: put_effect_def held_def cached_def s2(4,5) s1(4,5) split: if_splits)
qed

lemma put_when_full_ok:
  assumes "hierarchy_ok s" "p \<in> dom (snd s)" "\<And>xs. set (order xs) = set xs" "is_full (l1_cache (fst s))"
  shows "\<exists>r s'. put_when_full now order i p s = Some (Inr r, s') \<and> put_effect i p s r s'"
proof -
  obtain k q s1 where s1: "evict_l1 s = ((k, Some q), s1)" "hierarchy_ok s1" "frame s s1" "in_l1 s k = Some q"
      "in_l1 s1 = (in_l1 s)(k := None)" "in_l2 s1 = in_l2 s"
    using evict_l1_ok [OF assms(1,4)] by blast
  have h: "p \<in> dom (snd s1)" "q \<in> dom (snd s1)"
    using assms(2) hierarchy_okD(5) [OF assms(1) s1(4)] s1(3) by (auto simp: frame_def)
  have held1: "held s1 \<subseteq> held s" by (auto simp: held_def s1(5,6) split: if_splits)
  show ?thesis
  proof (cases "k = 0")
    case True
    then have "put_when_full now order i p s = put_over_first_l2 now order i p s1"
      by (simp add: put_when_full_def s1(1))
    moreover obtain r s' where "put_over_first_l2 now order i p s1 = Some (Inr r, s')" "put_effect i p s1 r s'"
      using put_over_first_l2_ok [OF s1(2) h(1) assms(3)] by blast
    moreover from this have "put_effect i p s r s'"
      using frame_trans [OF s1(3)] held1 by (auto simp: put_effect_def)
    ultimately show ?thesis by simp
  next
    case False
    let ?m = "if l2_has_room (fst s1) then swallow (l2_put now k q s1) else returns () s1"
    have "\<exists>s2. ?m = Some (Inr (), s2) \<and> hierarchy_ok s2 \<and> frame s1 s2 \<and> in_l1 s2 = in_l1 s1 \<and> held s2 \<subseteq> held s"
    proof (cases "l2_has_room (fst s1)")
      case True
      then obtain s2 where "l2_put now k q s1 = Some (Inr True, s2)" "hierarchy_ok s2" "frame s1 s2"
          "in_l1 s2 = in_l1 s1" "in_l2 s2 = (in_l2 s1)(k \<mapsto> q)"
        using l2_put_ok [OF s1(2) h(2)] by blast
      then show ?thesis using True s1(4-6) by (auto simp: held_def split: if_splits)
    next
      case False
      then show ?thesis using s1(2) held1 by (simp add: returns_def)
    qed
    then obtain s2 where s2: "?m = Some (Inr (), s2)" "hierarchy_ok s2" "frame s1 s2" "in_l1 s2 = in_l1 s1"
        "held s2 \<subseteq> held s"
      by blast
    have "dom (in_l1 s2) = dom (in_l1 s) - {k}" by (simp add: s2(4) s1(5))
    moreover have "card (dom (in_l1 s) - {k}) < card (dom (in_l1 s))"
      using s1(4) is_full_view(4) [OF assms(1)] by (intro card_Diff1_less) auto
    ultimately have "\<not> is_full (l1_cache (fst s2))"
      using is_full_view(1) [OF s2(2)] is_full_view(3) [OF assms(1)] frame_trans [OF s1(3) s2(3)]
      by (simp add: frame_def)
    moreover have "p \<in> dom (snd s2)" using h(1) s2(3) by (auto simp: frame_def)
    ultimately obtain s3 where s3: "l1_put now i p s2 = Some (Inr (), s3)" "hierarchy_ok s3" "frame s2 s3"
        "in_l2 s3 = in_l2 s2" "in_l1 s3 = (if i \<in> dom (in_l1 s2) then in_l1 s2 else (in_l1 s2)(i \<mapsto> p))"
      using l1_put_ok [OF s2(2)] by blast
    have "put_when_full now order i p s = Some (Inr True, s3)"
      using False s2(1) s3(1) by (simp add: put_when_full_def s1(1) returns_def)
    moreover have "held s3 \<subseteq> insert (i, p) (held s2)"
      by (auto simp: held_def s3(4,5) split: if_splits)
    moreover have "i \<in> cached s3" by (auto simp: cached_def s3(5))
    ultimately show ?thesis
      using s3(2) frame_trans [OF frame_trans [OF s1(3) s2(3)] s3(3)] s2(5) by (auto simp: put_effect_def)
  qed
qed

lemma hierarchy_put_ok:
  assumes "hierarchy_ok s" "p \<in> dom (snd s)" "\<And>xs. set (order xs) = set xs"
  shows "\<exists>r s'. hierarchy_put now order i (Some p) s = Some (Inr r, s') \<and> put_effect i p s r s'"
proof (cases "is_full (l1_cache (fst s))")
  case False
  then obtain s1 where "l1_put now i p s = Some (Inr (), s1)" "hierarchy_ok s1" "frame s s1"
      "in_l2 s1 = in_l2 s" "in_l1 s1 = (if i \<in> dom (in_l1 s) then in_l1 s else (in_l1 s)(i \<mapsto> p))"
    using l1_put_ok [OF assms(1,2)] by blast
  moreover have "cache_size (l1_cache (fst s)) < max_size (l1_cache (fst s))"
    using False by (simp add: is_full_def cache_size_def)
  ultimately show ?thesis
    by (auto simp: hierarchy_put_def returns_def put_effect_def held_def cached_def split: if_splits)
next
  case True
  then have full: "\<not> cache_size (l1_cache (fst s)) < max_size (l1_cache (fst s))"
    by (simp add: is_full_def cache_size_def)
  show ?thesis
  proof (cases "l2_has_room (fst s)")
    case room: True
    then obtain s1 where "l2_put now i p s = Some (Inr True, s1)" "hierarchy_ok s1" "frame s s1"
        "in_l1 s1 = in_l1 s" "in_l2 s1 = (in_l2 s)(i \<mapsto> p)"
      using l2_put_ok [OF assms(1,2)] by blast
    with full room show ?thesis
      by (auto simp: hierarchy_put_def returns_def put_effect_def held_def cached_def split: if_splits)
  next
    case False
    with full put_when_full_ok [OF assms True, of now i] show ?thesis by (simp add: hierarchy_put_def)
  qed
qed

lemma hierarchy_remove_ok:
  assumes "hierarchy_ok s"
  shows "\<exists>s'. hierarchy_remove i s = Some (Inr (i \<in> cached s), s') \<and> hierarchy_ok s' \<and> frame s s'
    \<and> held s' = {x \<in> held s. fst x \<noteq> i}"
proof -
  obtain s1 where s1: "l1_remove i s = Some (Inr (i \<in> dom (in_l1 s)), s1)" "hierarchy_ok s1" "frame s s1"
      "in_l1 s1 = (in_l1 s)(i := None)" "in_l2 s1 = in_l2 s"
    using l1_remove_ok [OF assms] by blast
  obtain s2 where s2: "l2_remove i s1 = Some (Inr (i \<in> dom (in_l2 s)), s2)" "hierarchy_ok s2" "frame s1 s2"
      "in_l1 s2 = in_l1 s1" "in_l2 s2 = (in_l2 s1)(i := None)"
    using l2_remove_ok [OF s1(2), of i] s1(5) by auto
  show ?thesis
    using s1(1) s2(1,2) frame_trans [OF s1(3) s2(3)]
    by (auto simp: hierarchy_remove_def returns_def cached_def held_def s2(4,5) s1(4,5) split: if_splits)
qed

lemma hierarchy_reset_stats_ok:
  assumes "hierarchy_ok s"
  shows "hierarchy_ok (hierarchy_reset_stats s)" "frame s (hierarchy_reset_stats s)"
    "held (hierarchy_reset_stats s) = held s"
proof -
  let ?s = "hierarchy_reset_stats s"
  have view: "in_l1 ?s = in_l1 s" "in_l2 ?s = in_l2 s"
    by (auto simp: in_l1_def in_l2_def hierarchy_reset_stats_def reset_stats_def recency_def
        mm_reset_stats_def split: option.splits)
  have "cache_ok (reset_stats (l1_cache (fst s)))"
    using hierarchy_okD(1) [OF assms] by (simp add: cache_ok_def reset_stats_def)
  then show "hierarchy_ok ?s"
    using assms unfolding hierarchy_ok_def view
    by (auto simp: hierarchy_reset_stats_def) (auto simp: mm_reset_stats_def)
  show "frame s ?s"
    by (cases "l2_cache (fst s)")
      (simp_all add: frame_def hierarchy_reset_stats_def reset_stats_def l2_capacity_def mm_reset_stats_def)
  show "held ?s = held s" by (simp add: held_def view)
qed

lemma hierarchy_clear_ok:
  assumes "hierarchy_ok s"
  shows "hierarchy_ok (hierarchy_clear s)" "frame s (hierarchy_clear s)" "held (hierarchy_clear s) = {}"
proof -
  let ?t = "((fst s)\<lparr>l1_cache := cache_clear (l1_cache (fst s)),
       l2_cache := map_option mm_clear (l2_cache (fst s))\<rparr>, snd s)"
  have view: "in_l1 ?t = Map.empty" "in_l2 ?t = Map.empty"
    by (auto simp: in_l1_def in_l2_def cache_clear_def recency_def mm_clear_def split: option.splits)
  have "cache_ok (cache_clear (l1_cache (fst s)))"
    using hierarchy_okD(1) [OF assms] by (simp add: cache_ok_def cache_clear_def)
  then have t: "hierarchy_ok ?t"
    using assms mm_clear_ok(1) unfolding hierarchy_ok_def view by (auto simp: mm_clear_def)
  have "frame s ?t"
    by (cases "l2_cache (fst s)") (simp_all add: frame_def cache_clear_def l2_capacity_def mm_clear_def)
  then show "hierarchy_ok (hierarchy_clear s)" "frame s (hierarchy_clear s)" "held (hierarchy_clear s) = {}"
    using hierarchy_reset_stats_ok [OF t] by (auto simp: hierarchy_clear_def held_def view intro: frame_trans)
qed

section \<open>Histories\<close>

text \<open>A history of whole operations, maintenance runs of the background thread included.\<close>

datatype hop = Get int uint64 | Put int uint64 nat | Remove uint64 | Promote int uint64 int
  | Demote int uint64 int | Clear | Reset_stats | Maintain int | Set_callback "l3_callback option"
  | Start | Stop

definition state_after :: "'a outcome \<Rightarrow> hstate option" where
  "state_after m = map_option snd m"

fun hop_step :: "(uint64 list \<Rightarrow> uint64 list) \<Rightarrow> hop \<Rightarrow> hstate \<Rightarrow> hstate option" where
  "hop_step order (Get now i) s = state_after (hierarchy_get now i s)"
| "hop_step order (Put now i p) s = state_after (hierarchy_put now order i (Some p) s)"
| "hop_step order (Remove i) s = state_after (hierarchy_remove i s)"
| "hop_step order (Promote now i t) s = state_after (promote now i t s)"
| "hop_step order (Demote now i t) s = state_after (demote now i t s)"
| "hop_step order Clear s = Some (hierarchy_clear s)"
| "hop_step order Reset_stats s = Some (hierarchy_reset_stats s)"
| "hop_step order (Maintain now) s = state_after (background_round now order s)"
| "hop_step order (Set_callback cb) s = Some (set_l3_persistence_callback cb (fst s), snd s)"
| "hop_step order Start s = Some (start_background_processing (fst s), snd s)"
| "hop_step order Stop s = Some (stop_background_processing (fst s), snd s)"

fun run_hops :: "(uint64 list \<Rightarrow> uint64 list) \<Rightarrow> hop list \<Rightarrow> hstate \<Rightarrow> hstate option" where
  "run_hops order [] s = Some s"
| "run_hops order (op # ops) s =
     (case hop_step order op s of None \<Rightarrow> None | Some s' \<Rightarrow> run_hops order ops s')"

text \<open>The pairs put since the id was last removed.\<close>

fun log_put :: "hop \<Rightarrow> (uint64 \<times> nat) set \<Rightarrow> (uint64 \<times> nat) set" where
  "log_put (Put now i p) W = insert (i, p) W"
| "log_put (Remove i) W = {x \<in> W. fst x \<noteq> i}"
| "log_put Clear W = {}"
| "log_put _ W = W"

fun put_pointer :: "hop \<Rightarrow> nat set" where
  "put_pointer (Put now i p) = {p}"
| "put_pointer _ = {}"

text \<open>Configured capacities and known objects, which no operation of a history changes.\<close>

definition sized :: "hierarchy_config \<Rightarrow> heap \<Rightarrow> hstate \<Rightarrow> bool" where
  "sized cfg h s \<longleftrightarrow> hierarchy_ok s \<and> max_size (l1_cache (fst s)) = l1_max_size cfg
     \<and> (\<forall>n. l2_capacity (fst s) = Some n \<longrightarrow> n = l2_max_size cfg) \<and> dom h \<subseteq> dom (snd s)"

lemma sized_frame: "\<lbrakk>sized cfg h s; hierarchy_ok s'; frame s s'\<rbrakk> \<Longrightarrow> sized cfg h s'"
  unfolding sized_def frame_def by (metis subset_trans)

lemma sized_evolves: "\<lbrakk>sized cfg h s; evolves A s s'\<rbrakk> \<Longrightarrow> sized cfg h s' \<and> held s' \<subseteq> held s"
  using sized_frame unfolding evolves_def by blast

lemma keeps_sized:
  assumes "sized cfg h s" "keeps A s m"
  shows "\<exists>s'. state_after m = Some s' \<and> sized cfg h s' \<and> held s' \<subseteq> held s"
  using assms(2) sized_evolves [OF assms(1)] by (auto simp: keeps_def state_after_def)

lemma settings_irrelevant:
  assumes "l1_cache H' = l1_cache H" "l2_cache H' = l2_cache H"
  shows "sized cfg h (H', g) = sized cfg h (H, g)" "held (H', g) = held (H, g)"
  using assms by (simp_all add: sized_def hierarchy_ok_def in_l1_def in_l2_def l2_capacity_def held_def)

lemma background_round_ok:
  assumes "hierarchy_ok s" shows "keeps (accepted s) s (background_round now order s)"
proof (cases "background_running (fst s)")
  case True
  have "keeps (accepted s) s (and_then (swallow (perform_maintenance now order s))
      (\<lambda>_ s1. returns (background_running (fst s1)) s1))"
    by (rule keeps_bind [OF keeps_swallow [OF perform_maintenance_ok [OF assms]]]) simp
  with True show ?thesis by (simp add: background_round_def)
qed (simp add: background_round_def evolves_refl [OF assms])

lemma hop_step_ok:
  assumes s: "sized cfg h s" and p: "put_pointer op \<subseteq> dom h" and order: "\<And>xs. set (order xs) = set xs"
  shows "\<exists>s'. hop_step order op s = Some s' \<and> sized cfg h s' \<and> held s' \<subseteq> log_put op (held s)"
proof -
  have ok: "hierarchy_ok s" using s by (simp add: sized_def)
  show ?thesis
  proof (cases op)
    case (Get now i)
    then show ?thesis
      using hierarchy_get_ok [OF ok, of now i] sized_evolves [OF s] by (auto simp: state_after_def)
  next
    case (Put now i p)
    then have "p \<in> dom (snd s)" using p s by (auto simp: sized_def)
    from hierarchy_put_ok [OF ok this order, of now i] show ?thesis
      using Put sized_frame [OF s] by (auto simp: put_effect_def state_after_def)
  next
    case (Remove i)
    then show ?thesis
      using hierarchy_remove_ok [OF ok, of i] sized_frame [OF s] by (auto simp: state_after_def)
  next
    case (Promote now i t)
    then show ?thesis using keeps_sized [OF s promote_ok [OF ok]] by simp
  next
    case (Demote now i t)
    have "keeps (accepted s) s (demote now i t s)"
      using demote_l3_ok [OF ok] keeps_mono [OF demote_ok [OF ok]] by (cases "t = 3") auto
    then show ?thesis using Demote keeps_sized [OF s] by simp
  next
    case Clear
    then show ?thesis using hierarchy_clear_ok [OF ok] sized_frame [OF s] by simp
  next
    case Reset_stats
    then show ?thesis using hierarchy_reset_stats_ok [OF ok] sized_frame [OF s] by simp
  next
    case (Maintain now)
    then show ?thesis using keeps_sized [OF s background_round_ok [OF ok]] by simp
  next
    case (Set_callback cb)
    then show ?thesis
      using s settings_irrelevant [of "set_l3_persistence_callback cb (fst s)" "fst s"]
      by (simp add: set_l3_persistence_callback_def)
  next
    case Start
    then show ?thesis
      using s settings_irrelevant [of "start_background_processing (fst s)" "fst s"]
      by (simp add: start_background_processing_def)
  next
    case Stop
    then show ?thesis
      using s settings_irrelevant [of "stop_background_processing (fst s)" "fst s"]
      by (simp add: stop_background_processing_def)
  qed
qed

lemma log_put_mono: "A \<subseteq> B \<Longrightarrow> log_put op A \<subseteq> log_put op B"
  by (cases op) auto

lemma run_hops_ok:
  assumes "sized cfg h s" "\<forall>op \<in> set ops. put_pointer op \<subseteq> dom h" "\<And>xs. set (order xs) = set xs"
    and "held s \<subseteq> W"
  shows "\<exists>s'. run_hops order ops s = Some s' \<and> sized cfg h s' \<and> held s' \<subseteq> fold log_put ops W"
  using assms(1,2,4)
proof (induction ops arbitrary: s W)
  case (Cons op ops)
  then obtain s1 where s1: "hop_step order op s = Some s1" "sized cfg h s1" "held s1 \<subseteq> log_put op (held s)"
    using hop_step_ok [OF Cons.prems(1) _ assms(3), of op] by auto
  then have "held s1 \<subseteq> log_put op W" using log_put_mono [OF Cons.prems(3), of op] by blast
  from Cons.IH [OF s1(2) _ this] Cons.prems(2) s1(1) show ?case by auto
qed auto

lemma mk_hierarchy_ok:
  assumes "mk_hierarchy can_create cfg = Inr H" "\<forall>p ts. h p = Some ts \<longrightarrow> chronological (ts_samples ts)"
  shows "sized cfg h (H, h) \<and> held (H, h) = {}"
proof -
  obtain l1 where l1: "mk_cache (l1_max_size cfg) = Inr l1"
    using assms(1) by (auto simp: mk_hierarchy_def split: sum.splits)
  have H: "l1_cache H = l1"
    "l2_cache H = None \<or> l2_cache H = Some (mk_mm_cache (l2_max_size cfg)) \<and> 0 < l2_max_size cfg"
    using assms(1) l1 by (auto simp: mk_hierarchy_def Let_def start_background_processing_def split: if_splits)
  have "in_l1 (H, h) = Map.empty" "in_l2 (H, h) = Map.empty"
    using H mk_cache_ok(2) [OF l1] by (auto simp: in_l1_def in_l2_def mk_mm_cache_def)
  then show ?thesis
    using H mk_cache_ok(1,3) [OF l1] mk_mm_cache_ok(1) assms(2)
    by (auto simp: sized_def hierarchy_ok_def held_def l2_capacity_def mk_mm_cache_def)
qed

lemma visible_held: "visible s i = Some p \<Longrightarrow> (i, p) \<in> held s"
  by (auto simp: visible_def held_def)

lemma visible_cached: "visible s i \<noteq> None \<longleftrightarrow> i \<in> cached s"
  by (auto simp: visible_def cached_def)

section \<open>A small hierarchy\<close>

text \<open>One entry per level, and the state after series 7 has been put: the L1 cache is full.\<close>

definition example_config :: hierarchy_config where
  "example_config = \<lparr>l1_max_size = 1, l2_max_size = 1, l2_storage_path = ''l2'', l3_storage_path = ''l3'',
     l2_demotion_threshold = 1, l2_demotion_timeout_seconds = 60, enable_background_processing = True,
     background_interval = 1000\<rparr>"

definition example_state :: "cache \<Rightarrow> hstate" where
  "example_state c = (\<lparr>h_config = example_config, l1_cache = c, l2_cache = Some (mk_mm_cache 1),
     on_l3_demotion = None, background_running = True, total_hits = 0, total_misses = 0, l1_hits = 0,
     l2_hits = 0, l3_hits = 0, promotions = 0, demotions = 0\<rparr>,
     [1 \<mapsto> mk_time_series [], 2 \<mapsto> mk_time_series []])"

definition example_full :: hstate where
  "example_full = example_state \<lparr>max_size = 1,
     lru_list = [\<lparr>node = 0, ce_id = 7, ce_series = 1, ce_metadata = new_metadata 0\<rparr>],
     cache_map = [(7, 0)], hit_count = 0, miss_count = 0, next_node = 1\<rparr>"

lemma example_heap: "\<forall>p ts. snd (example_state c) p = Some ts \<longrightarrow> chronological (ts_samples ts)"
  by (simp add: example_state_def mk_time_series_def)

lemma example_new: "mk_hierarchy (\<lambda>_. True) example_config
    = Inr (fst (example_state \<lparr>max_size = 1, lru_list = [], cache_map = [], hit_count = 0, miss_count = 0,
        next_node = 0\<rparr>))"
  by (simp add: mk_hierarchy_def example_config_def mk_cache_def example_state_def
      start_background_processing_def Let_def)

lemma example_full_ok: "hierarchy_ok example_full"
  by (auto simp: hierarchy_ok_def example_full_def example_state_def in_l1_def in_l2_def recency_def
      cache_ok_def smap_ok_def mk_mm_cache_def mk_time_series_def mm_ok_def mm_ids_def)

lemma example_full_view:
  "in_l1 example_full = [7 \<mapsto> 1]" "in_l2 example_full = Map.empty" "is_full (l1_cache (fst example_full))"
  "l2_has_room (fst example_full)" "dom (snd example_full) = {1, 2}"
  by (auto simp: example_full_def example_state_def in_l1_def in_l2_def recency_def is_full_def
      l2_has_room_def mm_is_full_def mk_mm_cache_def)

definition example_both :: hstate where
  "example_both = ((fst example_full)\<lparr>l2_cache := Some (mm_insert_new 0 8 2 (mk_time_series []) (mk_mm_cache 1))\<rparr>,
     snd example_full)"

lemma example_both_ok: "hierarchy_ok example_both"
proof -
  have "mm_ok (mm_insert_new 0 8 2 (mk_time_series []) (mk_mm_cache 1))"
    by (rule mm_insert_new_ok(1) [OF mk_mm_cache_ok(1)]) (simp_all add: mk_mm_cache_def mm_ids_def)
  then show ?thesis
    unfolding example_both_def
    by (intro hierarchy_ok_l2 [OF example_full_ok])
      (simp_all add: mm_insert_new_def mm_add_to_front_def mk_mm_cache_def example_full_view)
qed

lemma example_both_view:
  "is_full (l1_cache (fst example_both))" "\<not> l2_has_room (fst example_both)" "in_l2 example_both 7 = None"
  "get_lru_series_id (l1_cache (fst example_both)) = 7" "2 \<in> dom (snd example_both)"
  by (simp_all add: example_both_def example_full_def example_state_def in_l2_def is_full_def
      l2_has_room_def mm_is_full_def mk_mm_cache_def mm_insert_new_def mm_add_to_front_def get_lru_series_id_def)

section \<open>Properties\<close>

text \<open>
  C21: Through every history of gets, puts, removes, moves, clears, maintenance runs and setting
  changes, the hierarchy never touches a dangling iterator or a freed series, both levels stay
  within their configured sizes, and a later \<open>get\<close> returns a null pointer or a series that was
  put under that very id after the id was last removed.
\<close>

theorem hierarchy_lookup_provenance:
  assumes "mk_hierarchy can_create cfg = Inr H" "\<forall>p ts. h p = Some ts \<longrightarrow> chronological (ts_samples ts)"
    and "\<forall>op \<in> set ops. put_pointer op \<subseteq> dom h" "\<forall>xs. set (order xs) = set xs"
  shows "\<exists>H' h'. run_hops order ops (H, h) = Some (H', h') \<and> cache_size (l1_cache H') \<le> l1_max_size cfg
    \<and> (\<forall>m. l2_cache H' = Some m \<longrightarrow> mm_size m \<le> l2_max_size cfg)
    \<and> (\<exists>r s. hierarchy_get now i (H', h') = Some (Inr r, s)
         \<and> (\<forall>p. r = Some p \<longrightarrow> (i, p) \<in> fold log_put ops {}))"
proof -
  note new = mk_hierarchy_ok [OF assms(1,2)]
  from run_hops_ok [OF conjunct1 [OF new] assms(3), of order "{}"] new assms(4) obtain H' h' where
    run: "run_hops order ops (H, h) = Some (H', h')" "sized cfg h (H', h')"
      "held (H', h') \<subseteq> fold log_put ops {}" by auto
  then have ok: "hierarchy_ok (H', h')" by (simp add: sized_def)
  have l1: "cache_size (l1_cache H') \<le> l1_max_size cfg"
    using is_full_view(2,3) [OF ok] run(2) by (simp add: sized_def)
  have l2: "mm_size m \<le> l2_max_size cfg" if "l2_cache H' = Some m" for m
    using that hierarchy_okD(2) [OF ok, of m] mm_okD(4) [of m] run(2)
    by (simp add: sized_def l2_capacity_def mm_size_def mm_ok_def mm_ids_def)
  obtain s where "hierarchy_get now i (H', h') = Some (Inr (visible (H', h') i), s)"
    using hierarchy_get_ok [OF ok] by blast
  moreover have "\<forall>p. visible (H', h') i = Some p \<longrightarrow> (i, p) \<in> fold log_put ops {}"
    using visible_held [of "(H', h')" i] run(3) by blast
  ultimately show ?thesis using run(1) l1 l2 by blast
qed

theorem hierarchy_lookup_provenance_witness:
  "\<exists>H H' h' r s. mk_hierarchy (\<lambda>_. True) example_config = Inr H
    \<and> run_hops id [Put 0 7 1, Put 0 8 2, Maintain 5, Remove 8] (H, [1 \<mapsto> mk_time_series [], 2 \<mapsto> mk_time_series []])
        = Some (H', h')
    \<and> hierarchy_get 9 8 (H', h') = Some (Inr r, s) \<and> r = None"
proof -
  let ?ops = "[Put 0 7 1, Put 0 8 2, Maintain 5, Remove 8]"
  let ?h = "[1 \<mapsto> mk_time_series [], 2 \<mapsto> mk_time_series []] :: heap"
  have "\<forall>p ts. ?h p = Some ts \<longrightarrow> chronological (ts_samples ts)" by (simp add: mk_time_series_def)
  moreover have "\<forall>op \<in> set ?ops. put_pointer op \<subseteq> dom ?h" by simp
  moreover have "\<forall>xs :: uint64 list. set (id xs) = set xs" by simp
  moreover have log: "fold log_put ?ops {} = {(7, 1)}" by auto
  ultimately obtain H' h' r s where
    "run_hops id ?ops (fst (example_state \<lparr>max_size = 1, lru_list = [], cache_map = [], hit_count = 0,
        miss_count = 0, next_node = 0\<rparr>), ?h) = Some (H', h')"
    "hierarchy_get 9 8 (H', h') = Some (Inr r, s)" "\<forall>p. r = Some p \<longrightarrow> (8 :: uint64, p) \<in> {(7, 1)}"
    using hierarchy_lookup_provenance [OF example_new, of ?h ?ops id 9 8] unfolding log by blast
  moreover from this(3) have "r = None" by (cases r) simp_all
  ultimately show ?thesis using example_new by blast
qed

text \<open>
  C36: Background maintenance never loses a series: it returns, and every cached id is cached
  afterwards too unless the L3 callback accepted a series cached under it.
\<close>

theorem maintenance_keeps_series:
  assumes "hierarchy_ok s"
  shows "\<exists>s'. perform_maintenance now order s = Some (Inr (), s') \<and> hierarchy_ok s' \<and> cached s' \<subseteq> cached s
    \<and> (\<forall>i \<in> cached s - cached s'. \<exists>persist p. on_l3_demotion (fst s) = Some persist
          \<and> (i, p) \<in> held s \<and> persist i p)"
proof -
  obtain s' where s': "perform_maintenance now order s = Some (Inr (), s')" "evolves (accepted s) s s'"
    using perform_maintenance_ok [OF assms, of now order] by (auto simp: keeps_def)
  have fst_held: "cached t = fst ` held t" for t by (force simp: cached_def held_def)
  have "hierarchy_ok s'" "cached s' \<subseteq> cached s" "cached s - cached s' \<subseteq> accepted s"
    using s'(2) unfolding evolves_def fst_held by blast+
  then show ?thesis using s'(1) unfolding accepted_def by blast
qed

theorem maintenance_keeps_series_witness:
  "\<exists>s'. perform_maintenance 5 id example_full = Some (Inr (), s') \<and> cached s' \<subseteq> {7}"
proof -
  have "cached example_full = {7}" by (auto simp: cached_def example_full_view split: if_splits)
  with maintenance_keeps_series [OF example_full_ok, of 5 id] show ?thesis by auto
qed

text \<open>
  A put that reports success makes the id visible: the next \<open>get\<close> of it hits, also when a
  maintenance run without an L3 callback comes in between.
\<close>

theorem put_then_get_hits:
  assumes "hierarchy_ok s" "p \<in> dom (snd s)" "\<forall>xs. set (order xs) = set xs" "on_l3_demotion (fst s) = None"
  shows "\<exists>r s1 s2. hierarchy_put now order i (Some p) s = Some (Inr r, s1)
    \<and> perform_maintenance now' order s1 = Some (Inr (), s2)
    \<and> (r \<longrightarrow> (\<exists>q s3. hierarchy_get now'' i s2 = Some (Inr (Some q), s3)))"
proof -
  obtain r s1 where s1: "hierarchy_put now order i (Some p) s = Some (Inr r, s1)" "put_effect i p s r s1"
    using hierarchy_put_ok [OF assms(1,2)] assms(3) by blast
  then have ok: "hierarchy_ok s1" "on_l3_demotion (fst s1) = None"
    using assms(4) by (simp_all add: put_effect_def frame_def)
  obtain s2 where s2: "perform_maintenance now' order s1 = Some (Inr (), s2)" "evolves (accepted s1) s1 s2"
    using perform_maintenance_ok [OF ok(1), of now' order] by (auto simp: keeps_def)
  have "accepted s1 = {}" using ok(2) by (simp add: accepted_def)
  then have "r \<longrightarrow> i \<in> cached s2" using s1(2) s2(2) by (auto simp: put_effect_def evolves_def)
  moreover obtain s3 where "hierarchy_get now'' i s2 = Some (Inr (visible s2 i), s3)"
    using hierarchy_get_ok [OF evolves_ok [OF s2(2)]] by blast
  ultimately have "r \<longrightarrow> (\<exists>q s3. hierarchy_get now'' i s2 = Some (Inr (Some q), s3))"
    using visible_cached [of s2 i] by auto
  then show ?thesis using s1(1) s2(1) by blast
qed

theorem put_then_get_hits_witness:
  "\<exists>r s1 s2. hierarchy_put 1 id 8 (Some 2) example_full = Some (Inr r, s1)
    \<and> perform_maintenance 2 id s1 = Some (Inr (), s2)
    \<and> (r \<longrightarrow> (\<exists>q s3. hierarchy_get 3 8 s2 = Some (Inr (Some q), s3)))"
  by (rule put_then_get_hits [OF example_full_ok]) (simp_all add: example_full_def example_state_def)

text \<open>
  When the L1 cache is full and holds the id, a put goes to the L2 cache: it reports success,
  and the next \<open>get\<close> still returns the old L1 series, with the new samples neither merged nor
  visible.
\<close>

theorem put_shadowed_by_full_l1:
  assumes "hierarchy_ok s" "p \<in> dom (snd s)" "is_full (l1_cache (fst s))" "l2_has_room (fst s)"
    and "in_l1 s i = Some q"
  shows "\<exists>s1 s2. hierarchy_put now order i (Some p) s = Some (Inr True, s1) \<and> snd s1 = snd s
    \<and> hierarchy_get now' i s1 = Some (Inr (Some q), s2)"
proof -
  obtain s1 where s1: "l2_put now i p s = Some (Inr True, s1)" "hierarchy_ok s1" "in_l1 s1 = in_l1 s"
    using l2_put_ok [OF assms(1,2,4)] by blast
  have "hierarchy_put now order i (Some p) s = Some (Inr True, s1)"
    using assms(3,4) s1(1) by (simp add: hierarchy_put_def is_full_def cache_size_def returns_def)
  moreover have "snd s1 = snd s"
    using s1(1) by (auto simp: l2_put_def returns_def split: option.splits sum.splits)
  moreover have "visible s1 i = Some q" using s1(3) assms(5) by (simp add: visible_def)
  ultimately show ?thesis using hierarchy_get_ok [OF s1(2), of now' i] by auto
qed

theorem put_shadowed_by_full_l1_witness:
  "\<exists>s1 s2. hierarchy_put 1 id 7 (Some 2) example_full = Some (Inr True, s1)
    \<and> hierarchy_get 2 7 s1 = Some (Inr (Some 1), s2)"
  using put_shadowed_by_full_l1 [OF example_full_ok _ example_full_view(3,4), of 2 7 1 1 id 2]
  by (auto simp: example_full_view)

text \<open>
  With both levels full the series a put evicts from the L1 cache is dropped: it is not moved to
  the L2 cache and the L3 callback does not see it.
\<close>

theorem full_put_drops_victim:
  assumes "hierarchy_ok s" "p \<in> dom (snd s)" "is_full (l1_cache (fst s))" "\<not> l2_has_room (fst s)"
    and "get_lru_series_id (l1_cache (fst s)) = k" "k \<noteq> 0" "k \<noteq> i" "in_l2 s k = None"
  shows "\<exists>s1. hierarchy_put now order i (Some p) s = Some (Inr True, s1) \<and> k \<in> cached s \<and> k \<notin> cached s1"
proof -
  obtain k' q s1 where s1: "evict_l1 s = ((k', Some q), s1)" "hierarchy_ok s1" "frame s s1" "in_l1 s k' = Some q"
      "in_l1 s1 = (in_l1 s)(k' := None)" "in_l2 s1 = in_l2 s"
    using evict_l1_ok [OF assms(1,3)] by blast
  have k: "k' = k" and room: "\<not> l2_has_room (fst s1)"
    using s1(1) assms(4,5) by (auto simp: evict_l1_def evict_lru_and_get_with_id_def get_lru_series_id_def
        l2_has_room_def Let_def split: if_splits)
  have "card (dom (in_l1 s) - {k'}) < card (dom (in_l1 s))"
    using s1(4) is_full_view(4) [OF assms(1)] by (intro card_Diff1_less) auto
  then have "card (dom (in_l1 s1)) < card (dom (in_l1 s))" by (simp add: s1(5))
  then have "\<not> is_full (l1_cache (fst s1))"
    using is_full_view(1) [OF s1(2)] is_full_view(3) [OF assms(1)] s1(3) by (simp add: frame_def)
  moreover have "p \<in> dom (snd s1)" using assms(2) s1(3) by (auto simp: frame_def)
  ultimately obtain s2 where s2: "l1_put now i p s1 = Some (Inr (), s2)" "in_l2 s2 = in_l2 s1"
      "in_l1 s2 = (if i \<in> dom (in_l1 s1) then in_l1 s1 else (in_l1 s1)(i \<mapsto> p))"
    using l1_put_ok [OF s1(2)] by blast
  have "hierarchy_put now order i (Some p) s = Some (Inr True, s2)"
    using assms(3,4,6) k room s1(1) s2(1)
    by (simp add: hierarchy_put_def put_when_full_def is_full_def cache_size_def returns_def)
  then show ?thesis
    using s1(4,5,6) s2(2,3) k assms(7,8) by (auto simp: cached_def split: if_splits)
qed

theorem full_put_drops_victim_witness:
  "\<exists>s1. hierarchy_put 1 id 9 (Some 2) example_both = Some (Inr True, s1) \<and> 7 \<in> cached example_both
    \<and> 7 \<notin> cached s1"
  by (rule full_put_drops_victim [OF example_both_ok]) (simp_all add: example_both_view)

text \<open>
  The constructor's fallback to a hierarchy without an L2 cache does not cover the L2 directory:
  when it cannot be created, construction fails with an exception, because the L2 cache creates it
  before the guarded block does.
\<close>

theorem l2_directory_failure_escapes:
  assumes "0 < l1_max_size cfg" "0 < l2_max_size cfg" "\<not> can_create (l2_storage_path cfg)"
  shows "mk_hierarchy can_create cfg = Inl (Filesystem_error (l2_storage_path cfg))"
  using assms by (simp add: mk_hierarchy_def mk_cache_def Let_def)

theorem l2_directory_failure_escapes_witness:
  "mk_hierarchy (\<lambda>_. False) example_config = Inl (Filesystem_error ''l2'')"
  by (subst l2_directory_failure_escapes) (simp_all add: example_config_def)

end
