(* ===== verification/Block_Manager.thy ===== *)
theory Block_Manager
  imports Block_Serial
begin

text \<open>
  \<open>BlockManager\<close> and its \<open>FileBlockStorage\<close> (\<open>src/tsdb/storage/block_manager.cpp\<close>): block files in three
  tier directories, the table of tiers, moving blocks between tiers, and recovery after a restart.
  The disk is a map from paths to contents. Whether the operating system opens a path is a
  parameter. A write to a file that was opened is taken to store all its bytes (the code does not check the stream
  after \<open>file.write\<close>, so a full disk would leave a truncated file and report success), and the removal of a
  file is taken to fail only when the file is missing. A parameter too is the order of a directory listing; the Parquet writer, a library, is a
  parameter that says whether writing the series succeeds. The mutex makes every operation one step.
\<close>

section \<open>Paths\<close>

fun hex :: "nat \<Rightarrow> string" where
  "hex n =
     (let digit = (\<lambda>d. char_of (if d < 10 then 48 + d else 87 + d))
      in if n < 16 then [digit n] else hex (n div 16) @ [digit (n mod 16)])"

declare hex.simps [simp del]

datatype block_tier = HOT | WARM | COLD

definition tier_char :: "block_tier \<Rightarrow> char" where
  "tier_char t = (case t of HOT \<Rightarrow> CHR ''0'' | WARM \<Rightarrow> CHR ''1'' | COLD \<Rightarrow> CHR ''2'')"

definition tier_dir :: "string \<Rightarrow> block_tier \<Rightarrow> string" where
  "tier_dir dir t = dir @ ''/'' @ [tier_char t]"

definition get_block_path :: "string \<Rightarrow> block_tier \<Rightarrow> block_header \<Rightarrow> string" where
  "get_block_path dir t h = tier_dir dir t @ ''/'' @ hex (unat (block_id h)) @ ''.block''"

definition parquet_path :: "string \<Rightarrow> uint64 \<Rightarrow> string" where
  "parquet_path dir i = dir @ ''/2/'' @ hex (unat i) @ ''.parquet''"

section \<open>One tier\<close>

type_synonym disk = "(string \<times> byte list) list"

text \<open>The stream is not checked after the two writes; they are taken to be complete.\<close>

definition storage_write ::
  "(string \<Rightarrow> bool) \<Rightarrow> string \<Rightarrow> block_tier \<Rightarrow> block_header \<Rightarrow> byte list \<Rightarrow> disk \<Rightarrow> unit result \<times> disk" where
  "storage_write opens dir t h data dk =
     (let path = get_block_path dir t h
      in if \<not> opens path then (Inl (''Failed to open file for writing: '' @ path), dk)
         else (Inr (), smap_insert path (header_bytes h @ data) dk))"

text \<open>For a file shorter than a header the computed size wraps around and \<open>resize\<close> throws.\<close>

definition storage_read ::
  "(string \<Rightarrow> bool) \<Rightarrow> string \<Rightarrow> block_tier \<Rightarrow> block_header \<Rightarrow> disk \<Rightarrow> byte list result" where
  "storage_read opens dir t h dk =
     (let path = get_block_path dir t h
      in case map_of dk path of
           None \<Rightarrow> Inl (''Failed to open file: '' @ path)
         | Some bs \<Rightarrow>
             if \<not> opens path then Inl (''Failed to open file: '' @ path)
             else if length bs < 56 then Inl ''Read failed: ''
             else Inr (drop 56 bs))"

text \<open>Of the failures of a removal only that of a missing file is modelled.\<close>

definition storage_remove :: "string \<Rightarrow> block_tier \<Rightarrow> block_header \<Rightarrow> disk \<Rightarrow> unit result \<times> disk" where
  "storage_remove dir t h dk =
     (let path = get_block_path dir t h
      in if map_of dk path = None then (Inl (''Failed to remove file: '' @ path), dk)
         else (Inr (), smap_erase path dk))"

section \<open>The manager\<close>

record block_manager =
  data_dir :: string
  block_tiers :: "(uint64 \<times> block_tier) list"
  local_id_counter :: uint64
  disk_of :: disk

text \<open>The constructor creates the three tier directories.\<close>

definition mk_block_manager :: "(string \<Rightarrow> bool) \<Rightarrow> string \<Rightarrow> uint64 \<Rightarrow> disk \<Rightarrow> block_manager result" where
  "mk_block_manager can_create dir counter dk =
     (if dir = [] then Inl ''Data directory path cannot be empty''
      else if \<not> list_all (\<lambda>t. can_create (tier_dir dir t)) [HOT, WARM, COLD]
      then Inl ''Failed to create storage directories''
      else Inr \<lparr>data_dir = dir, block_tiers = [], local_id_counter = counter, disk_of = dk\<rparr>)"

definition bm_write ::
  "(string \<Rightarrow> bool) \<Rightarrow> block_tier \<Rightarrow> block_header \<Rightarrow> byte list \<Rightarrow> block_manager \<Rightarrow> unit result \<times> block_manager" where
  "bm_write opens t h data m =
     (let (r, dk) = storage_write opens (data_dir m) t h data (disk_of m) in (r, m\<lparr>disk_of := dk\<rparr>))"

definition bm_read :: "(string \<Rightarrow> bool) \<Rightarrow> block_tier \<Rightarrow> block_header \<Rightarrow> block_manager \<Rightarrow> byte list result" where
  "bm_read opens t h m = storage_read opens (data_dir m) t h (disk_of m)"

definition bm_remove :: "block_tier \<Rightarrow> block_header \<Rightarrow> block_manager \<Rightarrow> unit result \<times> block_manager" where
  "bm_remove t h m =
     (let (r, dk) = storage_remove (data_dir m) t h (disk_of m) in (r, m\<lparr>disk_of := dk\<rparr>))"

definition set_tier :: "uint64 \<Rightarrow> block_tier \<Rightarrow> block_manager \<Rightarrow> block_manager" where
  "set_tier i t m = m\<lparr>block_tiers := smap_insert i t (block_tiers m)\<rparr>"

text \<open>\<open>createBlock\<close>: three attempts at an empty block file. The fields of the header variable that
  are not assigned keep what the stack held.\<close>

fun create_retries ::
  "nat \<Rightarrow> (nat \<Rightarrow> string \<Rightarrow> bool) \<Rightarrow> block_header \<Rightarrow> block_manager \<Rightarrow> block_header result \<times> block_manager" where
  "create_retries 0 opens h m = (Inl ''Failed to create block after retries'', m)"
| "create_retries (Suc n) opens h m =
     (case bm_write (opens (Suc n)) HOT h [] m of
        (Inr _, m') \<Rightarrow> (Inr h, set_tier (block_id h) HOT m')
      | (Inl e, m') \<Rightarrow> if n = 0 then (Inl e, m') else create_retries n opens h m')"

definition createBlock ::
  "(nat \<Rightarrow> string \<Rightarrow> bool) \<Rightarrow> block_header \<Rightarrow> int64 \<Rightarrow> int64 \<Rightarrow> block_manager \<Rightarrow> block_header result \<times> block_manager" where
  "createBlock opens stack t0 t1 m =
     (if sint t1 < sint t0 then (Inl ''Invalid time range: start_time > end_time'', m)
      else
        let h = stack\<lparr>magic := 0x4253445354534254, block_id := local_id_counter m, version := 1,
              start_time := t0, end_time := t1, flags := 0, crc32 := 0, reserved := 0\<rparr>
        in create_retries 3 opens h (m\<lparr>local_id_counter := local_id_counter m + 1\<rparr>))"

text \<open>The guards shared by the operations on an existing block.\<close>

definition with_block ::
  "block_header \<Rightarrow> (block_tier \<Rightarrow> 'a result \<times> block_manager) \<Rightarrow> block_manager \<Rightarrow> 'a result \<times> block_manager" where
  "with_block h f m =
     (if \<not> is_valid h then (Inl ''Invalid block header'', m)
      else
        case map_of (block_tiers m) (block_id h) of
          None \<Rightarrow> (Inl ''Block not found'', m)
        | Some t \<Rightarrow> f t)"

definition finalizeBlock :: "(string \<Rightarrow> bool) \<Rightarrow> block_header \<Rightarrow> block_manager \<Rightarrow> unit result \<times> block_manager" where
  "finalizeBlock opens h m =
     with_block h (\<lambda>t.
       case bm_read opens t h m of
         Inl e \<Rightarrow> (Inl e, m)
       | Inr data \<Rightarrow> bm_write opens t (h\<lparr>flags := flags h OR 4\<rparr>) data m) m"

definition deleteBlock :: "block_header \<Rightarrow> block_manager \<Rightarrow> unit result \<times> block_manager" where
  "deleteBlock h m =
     with_block h (\<lambda>t.
       case bm_remove t h m of
         (Inl e, m') \<Rightarrow> (Inl e, m')
       | (Inr _, m') \<Rightarrow> (Inr (), m'\<lparr>block_tiers := smap_erase (block_id h) (block_tiers m')\<rparr>)) m"

definition writeData ::
  "(string \<Rightarrow> bool) \<Rightarrow> block_header \<Rightarrow> byte list \<Rightarrow> block_manager \<Rightarrow> unit result \<times> block_manager" where
  "writeData opens h data m =
     (if \<not> is_valid h then (Inl ''Invalid block header'', m)
      else if data = [] then (Inl ''Empty data provided'', m)
      else with_block h (\<lambda>t. bm_write opens t h data m) m)"

definition readData :: "(string \<Rightarrow> bool) \<Rightarrow> block_header \<Rightarrow> block_manager \<Rightarrow> byte list result" where
  "readData opens h m = fst (with_block h (\<lambda>t. (bm_read opens t h m, m)) m)"

text \<open>\<open>moveBlock\<close>: copy, then delete the source, undoing the copy when that fails.\<close>

definition moveBlock ::
  "(string \<Rightarrow> bool) \<Rightarrow> block_header \<Rightarrow> block_tier \<Rightarrow> block_tier \<Rightarrow> block_manager \<Rightarrow> unit result \<times> block_manager" where
  "moveBlock opens h from_tier to_tier m =
     (if \<not> is_valid h then (Inl ''Invalid block header'', m)
      else
        case bm_read opens from_tier h m of
          Inl e \<Rightarrow> (Inl e, m)
        | Inr data \<Rightarrow>
            (case bm_write opens to_tier h data m of
               (Inl e, m1) \<Rightarrow> (Inl e, m1)
             | (Inr _, m1) \<Rightarrow>
                 (case bm_remove from_tier h m1 of
                    (Inl e, m2) \<Rightarrow> (Inl e, snd (bm_remove to_tier h m2))
                  | (Inr _, m2) \<Rightarrow> (Inr (), set_tier (block_id h) to_tier m2))))"

definition promoteBlock :: "(string \<Rightarrow> bool) \<Rightarrow> block_header \<Rightarrow> block_manager \<Rightarrow> unit result \<times> block_manager" where
  "promoteBlock opens h m =
     with_block h (\<lambda>t.
       case t of
         HOT \<Rightarrow> (Inr (), m)
       | COLD \<Rightarrow> moveBlock opens h COLD WARM m
       | WARM \<Rightarrow> moveBlock opens h WARM HOT m) m"

definition demoteBlock :: "(string \<Rightarrow> bool) \<Rightarrow> block_header \<Rightarrow> block_manager \<Rightarrow> unit result \<times> block_manager" where
  "demoteBlock opens h m =
     with_block h (\<lambda>t.
       case t of
         COLD \<Rightarrow> (Inr (), m)
       | HOT \<Rightarrow> moveBlock opens h HOT WARM m
       | WARM \<Rightarrow> moveBlock opens h WARM COLD m) m"

text \<open>\<open>compact\<close>: a header made up from the id alone for every block of the hot tier, then demotion.\<close>

definition bare_header :: "block_header \<Rightarrow> uint64 \<Rightarrow> block_header" where
  "bare_header stack i = stack\<lparr>block_id := i, magic := 0x4253445354534254, version := 1, flags := 0,
     crc32 := 0, start_time := 0, end_time := 0, reserved := 0\<rparr>"

fun demote_all :: "(string \<Rightarrow> bool) \<Rightarrow> block_header list \<Rightarrow> block_manager \<Rightarrow> unit result \<times> block_manager" where
  "demote_all opens [] m = (Inr (), m)"
| "demote_all opens (h # hs) m =
     (case demoteBlock opens h m of
        (Inl e, m') \<Rightarrow> (Inl e, m')
      | (Inr _, m') \<Rightarrow> demote_all opens hs m')"

definition compact :: "(string \<Rightarrow> bool) \<Rightarrow> block_header \<Rightarrow> block_manager \<Rightarrow> unit result \<times> block_manager" where
  "compact opens stack m =
     demote_all opens (map (bare_header stack \<circ> fst) (filter (\<lambda>e. snd e = HOT) (block_tiers m))) m"

definition bm_flush :: "block_manager \<Rightarrow> unit result \<times> block_manager" where
  "bm_flush m = (Inr (), m)"

definition seal_and_persist_block ::
  "(string \<Rightarrow> bool) \<Rightarrow> block option \<Rightarrow> block_manager \<Rightarrow> unit result \<times> block_manager" where
  "seal_and_persist_block opens b m =
     (case b of
        None \<Rightarrow> (Inl ''Invalid block provided'', m)
      | Some b \<Rightarrow>
          (case bm_write opens HOT (header b) (block_serialize b) m of
             (Inl e, m') \<Rightarrow> (Inl e, m')
           | (Inr _, m') \<Rightarrow> (Inr (), set_tier (block_id (header b)) HOT m')))"

text \<open>\<open>demoteToParquet\<close>: the block is read back, its series are handed to the Parquet writer and the
  block file is removed. \<open>r\<close> is the largest vector the allocator serves.\<close>

definition demoteToParquet ::
  "(string \<Rightarrow> bool) \<Rightarrow> nat \<Rightarrow> (string \<Rightarrow> time_series list \<Rightarrow> unit result) \<Rightarrow> block_header \<Rightarrow> block_manager \<Rightarrow>
     (string result \<times> block_manager) option" where
  "demoteToParquet opens r write_parquet h m =
     (case map_of (block_tiers m) (block_id h) of
        None \<Rightarrow> Some (Inl ''Block not found'', m)
      | Some t \<Rightarrow>
          (case bm_read opens t h m of
             Inl e \<Rightarrow> Some (Inl (''Failed to read block: '' @ e), m)
           | Inr data \<Rightarrow>
               (case block_deserialize r data of
                  Truncated \<Rightarrow> Some (Inl ''Failed to deserialize block'', m)
                | Fault \<Rightarrow> None
                | Parsed b \<Rightarrow>
                    (case block_query [] (start_time h) (end_time h) b of
                       Inl _ \<Rightarrow> None
                     | Inr all_series \<Rightarrow>
                         (case write_parquet (parquet_path (data_dir m) (block_id h)) all_series of
                            Inl e \<Rightarrow> Some (Inl e, m)
                          | Inr _ \<Rightarrow>
                              Some (Inr (parquet_path (data_dir m) (block_id h)),
                                set_tier (block_id h) COLD (snd (bm_remove t h m))))))))"

definition persistSeriesToParquet ::
  "(string \<Rightarrow> time_series list \<Rightarrow> unit result) \<Rightarrow> uint64 \<Rightarrow> time_series option \<Rightarrow> block_manager \<Rightarrow> bool \<times> block_manager" where
  "persistSeriesToParquet write_parquet i ts m =
     (case ts of
        None \<Rightarrow> (False, m)
      | Some s \<Rightarrow>
          if ts_samples s = [] then (False, m)
          else
            (case write_parquet (parquet_path (data_dir m) i) [s] of
               Inl _ \<Rightarrow> (False, m)
             | Inr _ \<Rightarrow> (True, set_tier i COLD m)))"

section \<open>Recovery\<close>

text \<open>The block files of a directory: a name with an extension \<open>.block\<close>, no further directory.\<close>

definition is_block_file :: "string \<Rightarrow> string \<Rightarrow> bool" where
  "is_block_file dir path \<longleftrightarrow> take (length dir + 1) path = dir @ ''/''
     \<and> CHR ''/'' \<notin> set (drop (length dir + 1) path) \<and> 6 < length (drop (length dir + 1) path)
     \<and> drop (length path - 6) path = ''.block''"

fun scan_files ::
  "(string \<Rightarrow> bool) \<Rightarrow> block_tier \<Rightarrow> (string \<times> byte list) list \<Rightarrow> block_header list \<times> block_manager \<Rightarrow>
     block_header list \<times> block_manager" where
  "scan_files opens t [] st = st"
| "scan_files opens t ((path, bs) # fs) (hs, m) =
     (let h = header_of_bytes (take 56 bs)
      in if opens path \<and> 56 \<le> length bs \<and> is_valid h
         then scan_files opens t fs (hs @ [h], set_tier (block_id h) t m)
         else scan_files opens t fs (hs, m))"

definition scan_tier ::
  "(string \<Rightarrow> bool) \<Rightarrow> (disk \<Rightarrow> disk) \<Rightarrow> block_tier \<Rightarrow> block_header list \<times> block_manager \<Rightarrow>
     block_header list \<times> block_manager" where
  "scan_tier opens order t st =
     scan_files opens t
       (order (filter (\<lambda>e. is_block_file (tier_dir (data_dir (snd st)) t) (fst e)) (disk_of (snd st)))) st"

definition recoverBlocks ::
  "(string \<Rightarrow> bool) \<Rightarrow> (disk \<Rightarrow> disk) \<Rightarrow> block_manager \<Rightarrow> block_header list \<times> block_manager" where
  "recoverBlocks opens order m = scan_tier opens order COLD (scan_tier opens order HOT ([], m))"

section \<open>Distinct blocks have distinct files\<close>

definition hex_digit :: "nat \<Rightarrow> char" where
  "hex_digit d = char_of (if d < 10 then 48 + d else 87 + d)"

definition hex_value :: "char \<Rightarrow> nat" where
  "hex_value c = (if of_char c < (58 :: nat) then of_char c - 48 else of_char c - 87)"

lemma hex_step: "hex n = (if n < 16 then [hex_digit n] else hex (n div 16) @ [hex_digit (n mod 16)])"
  by (subst hex.simps) (simp add: hex_digit_def Let_def)

lemma hex_digit: "d < 16 \<Longrightarrow> hex_value (hex_digit d) = d" "d < 16 \<Longrightarrow> hex_digit d \<noteq> CHR ''/''"
proof -
  assume "d < 16"
  then have c: "of_char (hex_digit d) = (if d < 10 then 48 + d else 87 + d :: nat)"
    by (simp add: hex_digit_def)
  then show "hex_value (hex_digit d) = d" by (simp add: hex_value_def)
  have "of_char (hex_digit d) \<noteq> (of_char (CHR ''/'') :: nat)" using c by auto
  then show "hex_digit d \<noteq> CHR ''/''" by metis
qed

definition unhex :: "string \<Rightarrow> nat" where
  "unhex s = foldl (\<lambda>a c. 16 * a + hex_value c) 0 s"

lemma unhex_hex: "unhex (hex n) = n"
proof (induction n rule: less_induct)
  case (less n)
  show ?case
  proof (cases "n < 16")
    case True
    then show ?thesis by (subst hex_step) (simp add: unhex_def hex_digit)
  next
    case False
    then have "unhex (hex (n div 16)) = n div 16" by (intro less) simp
    then show ?thesis using False by (subst hex_step) (simp add: unhex_def hex_digit)
  qed
qed

lemma hex_inject [simp]: "hex m = hex n \<longleftrightarrow> m = n"
  by (metis unhex_hex)

lemma hex_chars: "CHR ''/'' \<notin> set (hex n) \<and> hex n \<noteq> []"
proof (induction n rule: less_induct)
  case (less n)
  have "CHR ''/'' \<noteq> hex_digit (n mod 16)" "n < 16 \<Longrightarrow> CHR ''/'' \<noteq> hex_digit n"
    using hex_digit(2) [of "n mod 16"] hex_digit(2) [of n] by auto
  moreover have "\<not> n < 16 \<Longrightarrow> n div 16 < n" by simp
  ultimately show ?case using less by (subst (1 2) hex_step) (auto split: if_splits)
qed

definition block_path :: "string \<Rightarrow> block_tier \<Rightarrow> uint64 \<Rightarrow> string" where
  "block_path dir t i = tier_dir dir t @ ''/'' @ hex (unat i) @ ''.block''"

lemma get_block_path: "get_block_path dir t h = block_path dir t (block_id h)"
  by (simp add: get_block_path_def block_path_def)

lemma tier_char_inject [simp]: "tier_char s = tier_char t \<longleftrightarrow> s = t"
  by (cases s; cases t) (simp_all add: tier_char_def)

lemma block_path_inject [simp]: "block_path dir s i = block_path dir t j \<longleftrightarrow> s = t \<and> i = j"
  by (auto simp: block_path_def tier_dir_def simp flip: word_unat_eq_iff)

lemma is_block_file_path: "is_block_file (tier_dir dir s) (block_path dir t i) \<longleftrightarrow> s = t"
proof -
  have "length (tier_dir dir s) = length (tier_dir dir t)" by (simp add: tier_dir_def)
  moreover have "take (length (tier_dir dir t) + 1) (block_path dir t i) = tier_dir dir t @ ''/''"
    "drop (length (tier_dir dir t) + 1) (block_path dir t i) = hex (unat i) @ ''.block''"
    by (simp_all add: block_path_def)
  moreover have "drop (length (block_path dir t i) - 6) (block_path dir t i) = ''.block''"
    unfolding block_path_def by (subst append_assoc [symmetric], subst append_assoc [symmetric]) simp
  moreover have "tier_dir dir t @ ''/'' = tier_dir dir s @ ''/'' \<longleftrightarrow> s = t"
    by (auto simp: tier_dir_def)
  ultimately show ?thesis
    using hex_chars [of "unat i"] unfolding is_block_file_def by (auto simp: Suc_le_eq)
qed

section \<open>The block files of a manager\<close>

definition block_file :: "block_manager \<Rightarrow> block_tier \<Rightarrow> uint64 \<Rightarrow> byte list option" where
  "block_file m t i = map_of (disk_of m) (block_path (data_dir m) t i)"

definition tier_of :: "block_manager \<Rightarrow> uint64 \<Rightarrow> block_tier option" where
  "tier_of m i = map_of (block_tiers m) i"

text \<open>The contents the manager gives back for an id.\<close>

definition payload :: "block_manager \<Rightarrow> uint64 \<Rightarrow> byte list option" where
  "payload m i = (case tier_of m i of None \<Rightarrow> None | Some t \<Rightarrow> map_option (drop 56) (block_file m t i))"

definition well_headed :: "uint64 \<Rightarrow> byte list \<Rightarrow> bool" where
  "well_headed i bs \<longleftrightarrow> (\<exists>h d. bs = header_bytes h @ d \<and> is_valid h \<and> block_id h = i)"

text \<open>Every tracked block has exactly the file of its tier, and the tier directories hold nothing
  else.\<close>

definition bm_ok :: "block_manager \<Rightarrow> bool" where
  "bm_ok m \<longleftrightarrow> smap_ok (block_tiers m) \<and> smap_ok (disk_of m)
     \<and> (\<forall>t i. block_file m t i \<noteq> None \<longleftrightarrow> tier_of m i = Some t)
     \<and> (\<forall>t i bs. block_file m t i = Some bs \<longrightarrow> well_headed i bs)
     \<and> (\<forall>t path. path \<in> fst ` set (disk_of m) \<and> is_block_file (tier_dir (data_dir m) t) path \<longrightarrow>
          (\<exists>i. path = block_path (data_dir m) t i))"

lemma bm_simps [simp]:
  "data_dir (set_tier i t m) = data_dir m" "disk_of (set_tier i t m) = disk_of m"
  "block_file (set_tier i t m) s j = block_file m s j"
  "tier_of (set_tier i t m) = (tier_of m)(i \<mapsto> t)"
  "tier_of (m\<lparr>disk_of := dk\<rparr>) = tier_of m"
  by (auto simp: set_tier_def block_file_def tier_of_def smap_simps fun_eq_iff)

lemma bm_write_effect:
  "bm_write opens t h data m =
     (if opens (block_path (data_dir m) t (block_id h))
      then (Inr (), m\<lparr>disk_of := smap_insert (block_path (data_dir m) t (block_id h)) (header_bytes h @ data) (disk_of m)\<rparr>)
      else (Inl (''Failed to open file for writing: '' @ block_path (data_dir m) t (block_id h)), m))"
  by (simp add: bm_write_def storage_write_def get_block_path Let_def)

lemma block_file_insert:
  "block_file (m\<lparr>disk_of := smap_insert (block_path (data_dir m) t i) bs (disk_of m)\<rparr>) s j =
     (if s = t \<and> j = i then Some bs else block_file m s j)"
  by (auto simp: block_file_def smap_simps)

lemma block_file_erase:
  "block_file (m\<lparr>disk_of := smap_erase (block_path (data_dir m) t i) (disk_of m)\<rparr>) s j =
     (if s = t \<and> j = i then None else block_file m s j)"
  by (auto simp: block_file_def smap_simps)

lemma bm_remove_effect:
  "bm_remove t h m =
     (if block_file m t (block_id h) = None
      then (Inl (''Failed to remove file: '' @ block_path (data_dir m) t (block_id h)), m)
      else (Inr (), m\<lparr>disk_of := smap_erase (block_path (data_dir m) t (block_id h)) (disk_of m)\<rparr>))"
  by (simp add: bm_remove_def storage_remove_def get_block_path Let_def block_file_def)

lemma bm_read_effect:
  "bm_read opens t h m = Inr data \<longleftrightarrow> opens (block_path (data_dir m) t (block_id h))
     \<and> (\<exists>bs. block_file m t (block_id h) = Some bs \<and> 56 \<le> length bs \<and> data = drop 56 bs)"
  by (auto simp: bm_read_def storage_read_def get_block_path Let_def block_file_def not_less split: option.splits)

lemma well_headed_length: "well_headed i bs \<Longrightarrow> 56 \<le> length bs"
  by (auto simp: well_headed_def length_header_bytes)

lemma well_headed_bytes: "is_valid h \<Longrightarrow> well_headed (block_id h) (header_bytes h @ d)"
  by (auto simp: well_headed_def)

lemma drop_header [simp]: "drop 56 (header_bytes h @ d) = d"
  by (simp add: length_header_bytes)

section \<open>The manager is a map from ids to contents\<close>

lemma bm_ok_files: "bm_ok m \<Longrightarrow> block_file m t i \<noteq> None \<longleftrightarrow> tier_of m i = Some t"
  unfolding bm_ok_def by blast

lemma bm_ok_listed:
  "\<lbrakk>bm_ok m; path \<in> fst ` set (disk_of m); is_block_file (tier_dir (data_dir m) t) path\<rbrakk> \<Longrightarrow>
     \<exists>i. path = block_path (data_dir m) t i"
  unfolding bm_ok_def by blast

lemma stored_block:
  fixes data :: "byte list"
  assumes "bm_ok m" "is_valid h" "tier_of m (block_id h) = None \<or> tier_of m (block_id h) = Some t"
  defines "m' \<equiv> set_tier (block_id h) t
    (m\<lparr>disk_of := smap_insert (block_path (data_dir m) t (block_id h)) (header_bytes h @ data) (disk_of m)\<rparr>)"
  shows "bm_ok m'" "payload m' = (payload m)(block_id h \<mapsto> data)"
proof -
  have image: "block_file m' s j = (if s = t \<and> j = block_id h then Some (header_bytes h @ data) else block_file m s j)" for s j
    by (simp add: m'_def block_file_insert)
  have tier: "tier_of m' = (tier_of m)(block_id h \<mapsto> t)" by (simp add: m'_def)
  have "\<forall>s j. block_file m' s j \<noteq> None \<longleftrightarrow> tier_of m' j = Some s"
    using assms(1,3) unfolding image tier by (auto simp: bm_ok_def)
  moreover have "\<forall>s j bs. block_file m' s j = Some bs \<longrightarrow> well_headed j bs"
    using assms(1,2) well_headed_bytes unfolding image by (auto simp: bm_ok_def)
  moreover have "smap_ok (block_tiers m') \<and> smap_ok (disk_of m')"
    using assms(1) by (simp add: m'_def bm_ok_def set_tier_def smap_simps)
  moreover have "\<exists>j. path = block_path (data_dir m') s j"
    if "path \<in> fst ` set (disk_of m') \<and> is_block_file (tier_dir (data_dir m') s) path" for s path
  proof -
    have "path = block_path (data_dir m) t (block_id h) \<or> path \<in> fst ` set (disk_of m)"
      using that by (simp add: m'_def)
    then show ?thesis using that bm_ok_listed [OF assms(1), of path s] is_block_file_path by (auto simp: m'_def)
  qed
  ultimately show "bm_ok m'" unfolding bm_ok_def by blast
  show "payload m' = (payload m)(block_id h \<mapsto> data)"
    by (auto simp: payload_def tier image fun_eq_iff split: option.splits)
qed

lemma set_tier_same: "\<lbrakk>smap_ok (block_tiers m); tier_of m i = Some t\<rbrakk> \<Longrightarrow> set_tier i t m = m"
proof -
  have "smap_insert i t f = f" if "smap_ok f" "map_of f i = Some t" for f
    using that by (induction i t f rule: smap_insert.induct)
      (auto simp: smap_ok_Cons split: if_splits dest!: map_of_SomeD)
  then show "\<lbrakk>smap_ok (block_tiers m); tier_of m i = Some t\<rbrakk> \<Longrightarrow> set_tier i t m = m"
    by (simp add: set_tier_def tier_of_def)
qed

lemma removed_block:
  assumes "bm_ok m" "tier_of m i = Some t"
  defines "m' \<equiv> m\<lparr>disk_of := smap_erase (block_path (data_dir m) t i) (disk_of m),
      block_tiers := smap_erase i (block_tiers m)\<rparr>"
  shows "bm_ok m'" "payload m' = (payload m)(i := None)" "tier_of m' = (tier_of m)(i := None)"
proof -
  have image: "block_file m' s j = (if s = t \<and> j = i then None else block_file m s j)" for s j
    by (auto simp: m'_def block_file_def smap_simps)
  show tier: "tier_of m' = (tier_of m)(i := None)" by (simp add: m'_def tier_of_def smap_simps fun_eq_iff)
  have "block_file m' s j \<noteq> None \<longleftrightarrow> tier_of m' j = Some s" for s j
    using bm_ok_files [OF assms(1), of s j] assms(2) unfolding image tier by auto
  moreover have "\<forall>s j bs. block_file m' s j = Some bs \<longrightarrow> well_headed j bs"
    using assms(1) unfolding image by (auto simp: bm_ok_def)
  moreover have "smap_ok (block_tiers m') \<and> smap_ok (disk_of m')"
    using assms(1) by (simp add: m'_def bm_ok_def smap_simps)
  moreover have "\<exists>j. path = block_path (data_dir m') s j"
    if "path \<in> fst ` set (disk_of m') \<and> is_block_file (tier_dir (data_dir m') s) path" for s path
  proof -
    have "path \<in> fst ` set (disk_of m)" using that by (auto simp: m'_def smap_erase_def)
    then show ?thesis using that bm_ok_listed [OF assms(1), of path s] by (simp add: m'_def)
  qed
  ultimately show "bm_ok m'" unfolding bm_ok_def by blast
  show "payload m' = (payload m)(i := None)"
    by (auto simp: payload_def tier image fun_eq_iff split: option.splits)
qed

lemma moved_block:
  assumes "bm_ok m" "is_valid h" "tier_of m (block_id h) = Some s" "s \<noteq> t"
    and "payload m (block_id h) = Some data"
  defines "i \<equiv> block_id h"
  defines "m' \<equiv> set_tier i t (m\<lparr>disk_of := smap_erase (block_path (data_dir m) s i)
      (smap_insert (block_path (data_dir m) t i) (header_bytes h @ data) (disk_of m))\<rparr>)"
  shows "bm_ok m'" "payload m' = payload m" "tier_of m' = (tier_of m)(i \<mapsto> t)"
proof -
  have image: "block_file m' u j = (if j = i \<and> u = t then Some (header_bytes h @ data)
      else if j = i \<and> u = s then None else block_file m u j)" for u j
    using assms(4) by (auto simp: m'_def block_file_def smap_simps set_tier_def)
  show tier: "tier_of m' = (tier_of m)(i \<mapsto> t)" by (simp add: m'_def)
  have "block_file m' u j \<noteq> None \<longleftrightarrow> tier_of m' j = Some u" for u j
    using bm_ok_files [OF assms(1), of u j] assms(3) unfolding image tier i_def by auto
  moreover have "well_headed j bs" if "block_file m' u j = Some bs" for u j bs
    using that assms(1,2) well_headed_bytes [of h data] unfolding image i_def
    by (auto simp: bm_ok_def split: if_splits)
  moreover have "smap_ok (block_tiers m') \<and> smap_ok (disk_of m')"
    using assms(1) by (simp add: m'_def bm_ok_def set_tier_def smap_simps)
  moreover have "\<exists>j. path = block_path (data_dir m') u j"
    if "path \<in> fst ` set (disk_of m') \<and> is_block_file (tier_dir (data_dir m') u) path" for u path
  proof -
    have "path \<in> fst ` set (smap_insert (block_path (data_dir m) t i) (header_bytes h @ data) (disk_of m))"
      using that unfolding m'_def by (auto simp: smap_erase_def simp del: keys_smap_insert)
    then have "path = block_path (data_dir m) t i \<or> path \<in> fst ` set (disk_of m)" by simp
    then show ?thesis using that bm_ok_listed [OF assms(1), of path u] is_block_file_path by (auto simp: m'_def)
  qed
  ultimately show "bm_ok m'" unfolding bm_ok_def by blast
  show "payload m' = payload m"
  proof
    fix j
    show "payload m' j = payload m j"
      using bm_ok_files [OF assms(1), of _ j] assms(3,5) by (auto simp: payload_def tier image i_def split: option.splits)
  qed
qed

lemma payload_read:
  assumes "bm_ok m" "tier_of m (block_id h) = Some t"
  shows "bm_read opens t h m =
    (if opens (block_path (data_dir m) t (block_id h)) then Inr (the (payload m (block_id h)))
     else Inl (''Failed to open file: '' @ block_path (data_dir m) t (block_id h)))"
    "payload m (block_id h) \<noteq> None"
proof -
  obtain bs where bs: "block_file m t (block_id h) = Some bs" "well_headed (block_id h) bs"
    using assms by (force simp: bm_ok_def)
  then show "bm_read opens t h m =
    (if opens (block_path (data_dir m) t (block_id h)) then Inr (the (payload m (block_id h)))
     else Inl (''Failed to open file: '' @ block_path (data_dir m) t (block_id h)))"
    "payload m (block_id h) \<noteq> None"
    using well_headed_length [OF bs(2)] assms(2)
    by (auto simp: bm_read_def storage_read_def get_block_path block_file_def payload_def Let_def)
qed

lemma payload_dom: "bm_ok m \<Longrightarrow> payload m i = None \<longleftrightarrow> tier_of m i = None"
  by (auto simp: payload_def bm_ok_def split: option.splits)

lemma moveBlock_ok:
  assumes "bm_ok m" "is_valid h" "tier_of m (block_id h) = Some s" "s \<noteq> t"
  shows "bm_ok (snd (moveBlock opens h s t m)) \<and> payload (snd (moveBlock opens h s t m)) = payload m
    \<and> (isl (fst (moveBlock opens h s t m)) \<longrightarrow> snd (moveBlock opens h s t m) = m)
    \<and> (\<not> isl (fst (moveBlock opens h s t m)) \<longrightarrow>
         tier_of (snd (moveBlock opens h s t m)) = (tier_of m)(block_id h \<mapsto> t))
    \<and> data_dir (snd (moveBlock opens h s t m)) = data_dir m"
proof -
  let ?i = "block_id h" and ?p = "block_path (data_dir m)"
  obtain data where data: "payload m ?i = Some data" using payload_read(2) [OF assms(1,3)] by blast
  show ?thesis
  proof (cases "opens (?p s ?i) \<and> opens (?p t ?i)")
    case False
    then show ?thesis
      using assms(1,2) payload_read(1) [OF assms(1,3), of opens] by (auto simp: moveBlock_def bm_write_effect)
  next
    case True
    let ?m1 = "m\<lparr>disk_of := smap_insert (?p t ?i) (header_bytes h @ data) (disk_of m)\<rparr>"
    have "block_file ?m1 s ?i \<noteq> None"
      using assms(1,3,4) by (auto simp: block_file_insert bm_ok_def)
    then have "moveBlock opens h s t m = (Inr (), set_tier ?i t (m\<lparr>disk_of := smap_erase (?p s ?i)
        (smap_insert (?p t ?i) (header_bytes h @ data) (disk_of m))\<rparr>))"
      using True assms(2) payload_read(1) [OF assms(1,3), of opens] data
      by (auto simp: moveBlock_def bm_write_effect bm_remove_effect)
    with moved_block [OF assms data] show ?thesis by simp
  qed
qed

section \<open>Operations as steps\<close>

datatype bm_op = Create "nat \<Rightarrow> string \<Rightarrow> bool" block_header int64 int64
  | Finalize "string \<Rightarrow> bool" block_header
  | Delete block_header
  | Write "string \<Rightarrow> bool" block_header "byte list"
  | Promote "string \<Rightarrow> bool" block_header
  | Demote "string \<Rightarrow> bool" block_header
  | Compact "string \<Rightarrow> bool" block_header
  | Persist "string \<Rightarrow> bool" block

definition succeeded :: "'a result \<times> block_manager \<Rightarrow> bool \<times> block_manager" where
  "succeeded r = (\<not> isl (fst r), snd r)"

fun bm_step :: "bm_op \<Rightarrow> block_manager \<Rightarrow> bool \<times> block_manager" where
  "bm_step (Create opens stack t0 t1) m = succeeded (createBlock opens stack t0 t1 m)"
| "bm_step (Finalize opens h) m = succeeded (finalizeBlock opens h m)"
| "bm_step (Delete h) m = succeeded (deleteBlock h m)"
| "bm_step (Write opens h data) m = succeeded (writeData opens h data m)"
| "bm_step (Promote opens h) m = succeeded (promoteBlock opens h m)"
| "bm_step (Demote opens h) m = succeeded (demoteBlock opens h m)"
| "bm_step (Compact opens stack) m = succeeded (compact opens stack m)"
| "bm_step (Persist opens b) m = succeeded (seal_and_persist_block opens (Some b) m)"

text \<open>The specification: a map from ids to contents that only creating, writing, persisting and
  deleting change.\<close>

fun bm_spec :: "bm_op \<Rightarrow> block_manager \<Rightarrow> (uint64 \<rightharpoonup> byte list) \<Rightarrow> uint64 \<rightharpoonup> byte list" where
  "bm_spec (Create opens stack t0 t1) m f = f(local_id_counter m \<mapsto> [])"
| "bm_spec (Delete h) m f = f(block_id h := None)"
| "bm_spec (Write opens h data) m f = f(block_id h \<mapsto> data)"
| "bm_spec (Persist opens b) m f = f(block_id (header b) \<mapsto> block_serialize b)"
| "bm_spec _ m f = f"

text \<open>A new block is valid and its id is new or that of a block in the hot tier.\<close>

fun bm_admissible :: "bm_op \<Rightarrow> block_manager \<Rightarrow> bool" where
  "bm_admissible (Create opens stack t0 t1) m = (tier_of m (local_id_counter m) \<in> {None, Some HOT})"
| "bm_admissible (Persist opens b) m = (is_valid (header b) \<and> tier_of m (block_id (header b)) \<in> {None, Some HOT})"
| "bm_admissible _ m = True"

lemma bm_ok_counter [simp]:
  "block_file (m\<lparr>local_id_counter := k\<rparr>) = block_file m" "tier_of (m\<lparr>local_id_counter := k\<rparr>) = tier_of m"
  "bm_ok (m\<lparr>local_id_counter := k\<rparr>) = bm_ok m" "payload (m\<lparr>local_id_counter := k\<rparr>) = payload m"
proof -
  show same: "block_file (m\<lparr>local_id_counter := k\<rparr>) = block_file m" "tier_of (m\<lparr>local_id_counter := k\<rparr>) = tier_of m"
    by (simp_all add: block_file_def tier_of_def fun_eq_iff)
  show "bm_ok (m\<lparr>local_id_counter := k\<rparr>) = bm_ok m" "payload (m\<lparr>local_id_counter := k\<rparr>) = payload m"
    by (simp_all add: bm_ok_def payload_def same fun_eq_iff split: option.split)
qed

lemma create_retries_ok:
  assumes "bm_ok m" "is_valid h" "tier_of m (block_id h) \<in> {None, Some HOT}"
  shows "bm_ok (snd (create_retries n opens h m)) \<and> payload (snd (create_retries n opens h m)) =
    (if isl (fst (create_retries n opens h m)) then payload m else (payload m)(block_id h \<mapsto> []))"
proof (induction n)
  case (Suc n)
  have "tier_of m (block_id h) = None \<or> tier_of m (block_id h) = Some HOT" using assms(3) by simp
  note new = stored_block [OF assms(1,2) this, of "[]"]
  show ?case
  proof (cases "opens (Suc n) (block_path (data_dir m) HOT (block_id h))")
    case True
    with new show ?thesis by (simp add: bm_write_effect)
  next
    case False
    with Suc assms(1) show ?thesis by (simp add: bm_write_effect)
  qed
qed (simp add: assms(1))

lemma with_block_ok:
  assumes "bm_ok m" "\<And>t. \<lbrakk>is_valid h; tier_of m (block_id h) = Some t\<rbrakk> \<Longrightarrow> P (f t)"
    and "\<And>e. P (Inl e, m)"
  shows "P (with_block h f m)"
  using assms by (auto simp: with_block_def tier_of_def split: option.split)

lemma moves_ok:
  assumes "bm_ok m"
  shows "bm_ok (snd (promoteBlock opens h m)) \<and> payload (snd (promoteBlock opens h m)) = payload m"
    "bm_ok (snd (demoteBlock opens h m)) \<and> payload (snd (demoteBlock opens h m)) = payload m"
proof -
  have move: "bm_ok (snd (moveBlock opens h s t m)) \<and> payload (snd (moveBlock opens h s t m)) = payload m"
    if "is_valid h" "tier_of m (block_id h) = Some s" "s \<noteq> t" for s t
    using moveBlock_ok [OF assms that] by blast
  let ?P = "\<lambda>r :: unit result \<times> block_manager. bm_ok (snd r) \<and> payload (snd r) = payload m"
  have "?P (case t of HOT \<Rightarrow> (Inr (), m) | COLD \<Rightarrow> moveBlock opens h COLD WARM m | WARM \<Rightarrow> moveBlock opens h WARM HOT m)"
    "?P (case t of COLD \<Rightarrow> (Inr (), m) | HOT \<Rightarrow> moveBlock opens h HOT WARM m | WARM \<Rightarrow> moveBlock opens h WARM COLD m)"
    if "is_valid h" "tier_of m (block_id h) = Some t" for t
    using move [OF that] assms by (cases t; simp)+
  note step = this
  show "?P (promoteBlock opens h m)"
    unfolding promoteBlock_def by (rule with_block_ok [OF assms, where P = ?P]) (erule (1) step(1), simp add: assms)
  show "?P (demoteBlock opens h m)"
    unfolding demoteBlock_def by (rule with_block_ok [OF assms, where P = ?P]) (erule (1) step(2), simp add: assms)
qed

lemma demote_all_ok:
  assumes "bm_ok m"
  shows "bm_ok (snd (demote_all opens hs m)) \<and> payload (snd (demote_all opens hs m)) = payload m"
  using assms
proof (induction hs arbitrary: m)
  case (Cons h hs)
  obtain r m' where step: "demoteBlock opens h m = (r, m')" by force
  then have "bm_ok m'" "payload m' = payload m" using moves_ok(2) [OF Cons.prems, of opens h] by simp_all
  with Cons.IH step show ?case by (cases r) simp_all
qed simp

lemma finalizeBlock_ok:
  assumes "bm_ok m"
  shows "bm_ok (snd (finalizeBlock opens h m)) \<and> payload (snd (finalizeBlock opens h m)) = payload m"
  unfolding finalizeBlock_def
proof (rule with_block_ok [OF assms])
  fix t
  let ?h = "h\<lparr>flags := flags h OR 4\<rparr>"
  assume t: "is_valid h" "tier_of m (block_id h) = Some t"
  obtain data where data: "payload m (block_id h) = Some data" using payload_read(2) [OF assms t(2)] by blast
  have h: "is_valid ?h" "block_id ?h = block_id h" using t(1) by (simp_all add: is_valid_def)
  let ?m = "m\<lparr>disk_of := smap_insert (block_path (data_dir m) t (block_id h)) (header_bytes ?h @ data) (disk_of m)\<rparr>"
  have "set_tier (block_id h) t ?m = ?m"
    using assms t(2) by (intro set_tier_same) (simp_all add: bm_ok_def)
  with stored_block [OF assms h(1), of t data] t(2) data h(2)
  have "bm_ok ?m" "payload ?m = payload m" by (auto simp: fun_upd_idem)
  then show "bm_ok (snd (case bm_read opens t h m of Inl e \<Rightarrow> (Inl e, m) | Inr data \<Rightarrow> bm_write opens t ?h data m))
      \<and> payload (snd (case bm_read opens t h m of Inl e \<Rightarrow> (Inl e, m) | Inr data \<Rightarrow> bm_write opens t ?h data m)) = payload m"
    using assms data payload_read(1) [OF assms t(2), of opens] by (simp add: bm_write_effect)
qed (simp add: assms)

lemma bm_step_ok:
  assumes "bm_ok m" "bm_admissible op m"
  shows "bm_ok (snd (bm_step op m))
    \<and> payload (snd (bm_step op m)) = (if fst (bm_step op m) then bm_spec op m (payload m) else payload m)"
proof (cases op)
  case (Create opens stack t0 t1)
  let ?h = "stack\<lparr>magic := 0x4253445354534254, block_id := local_id_counter m, version := 1,
              start_time := t0, end_time := t1, flags := 0, crc32 := 0, reserved := 0\<rparr>"
  let ?m = "m\<lparr>local_id_counter := local_id_counter m + 1\<rparr>"
  have h: "bm_ok ?m" "is_valid ?h" "block_id ?h = local_id_counter m" "tier_of ?m (block_id ?h) \<in> {None, Some HOT}"
    using assms Create by (simp_all add: is_valid_def)
  note tries = create_retries_ok [OF h(1,2,4), of 3 opens, unfolded h(3)]
  show ?thesis
  proof (cases "sint t1 < sint t0")
    case False
    then have "createBlock opens stack t0 t1 m = create_retries 3 opens ?h ?m"
      by (simp add: createBlock_def Let_def)
    with tries show ?thesis unfolding Create by (simp add: succeeded_def)
  qed (simp add: Create createBlock_def succeeded_def assms(1))
next
  case (Finalize opens h)
  then show ?thesis using finalizeBlock_ok [OF assms(1)] by (simp add: succeeded_def)
next
  case (Delete h)
  have "bm_ok (snd (deleteBlock h m)) \<and> payload (snd (deleteBlock h m)) =
      (if isl (fst (deleteBlock h m)) then payload m else (payload m)(block_id h := None))"
    unfolding deleteBlock_def
  proof (rule with_block_ok [OF assms(1)])
    fix t
    assume t: "tier_of m (block_id h) = Some t"
    then have "block_file m t (block_id h) \<noteq> None" using bm_ok_files [OF assms(1)] by blast
    with removed_block [OF assms(1) t]
    show "bm_ok (snd (case bm_remove t h m of (Inl e, m') \<Rightarrow> (Inl e, m')
          | (Inr _, m') \<Rightarrow> (Inr (), m'\<lparr>block_tiers := smap_erase (block_id h) (block_tiers m')\<rparr>))) \<and>
      payload (snd (case bm_remove t h m of (Inl e, m') \<Rightarrow> (Inl e, m')
          | (Inr _, m') \<Rightarrow> (Inr (), m'\<lparr>block_tiers := smap_erase (block_id h) (block_tiers m')\<rparr>))) =
      (if isl (fst (case bm_remove t h m of (Inl e, m') \<Rightarrow> (Inl e, m')
          | (Inr _, m') \<Rightarrow> (Inr (), m'\<lparr>block_tiers := smap_erase (block_id h) (block_tiers m')\<rparr>)))
       then payload m else (payload m)(block_id h := None))"
      by (auto simp: bm_remove_effect)
  qed (simp add: assms)
  then show ?thesis using Delete by (simp add: succeeded_def)
next
  case (Write opens h data)
  have "bm_ok (snd (writeData opens h data m)) \<and> payload (snd (writeData opens h data m)) =
      (if isl (fst (writeData opens h data m)) then payload m else (payload m)(block_id h \<mapsto> data))"
  proof (cases "is_valid h \<and> data \<noteq> []")
    case True
    have "bm_ok (snd (with_block h (\<lambda>t. bm_write opens t h data m) m))
      \<and> payload (snd (with_block h (\<lambda>t. bm_write opens t h data m) m)) =
      (if isl (fst (with_block h (\<lambda>t. bm_write opens t h data m) m)) then payload m
       else (payload m)(block_id h \<mapsto> data))"
    proof (rule with_block_ok [OF assms(1)])
      fix t
      assume t: "is_valid h" "tier_of m (block_id h) = Some t"
      let ?m = "m\<lparr>disk_of := smap_insert (block_path (data_dir m) t (block_id h)) (header_bytes h @ data) (disk_of m)\<rparr>"
      have "set_tier (block_id h) t ?m = ?m"
        using assms t(2) by (intro set_tier_same) (simp_all add: bm_ok_def)
      with stored_block [OF assms(1) t(1), of t data] t(2) assms(1)
      show "bm_ok (snd (bm_write opens t h data m)) \<and> payload (snd (bm_write opens t h data m)) =
          (if isl (fst (bm_write opens t h data m)) then payload m else (payload m)(block_id h \<mapsto> data))"
        by (simp add: bm_write_effect)
    qed (simp add: assms)
    with True show ?thesis by (simp add: writeData_def)
  qed (auto simp: writeData_def assms)
  then show ?thesis using Write by (simp add: succeeded_def)
next
  case (Compact opens stack)
  then show ?thesis using demote_all_ok [OF assms(1)] by (simp add: succeeded_def compact_def)
next
  case (Persist opens b)
  then have "is_valid (header b)"
      "tier_of m (block_id (header b)) = None \<or> tier_of m (block_id (header b)) = Some HOT"
    using assms(2) by auto
  note new = stored_block [OF assms(1) this, of "block_serialize b"]
  show ?thesis
    using assms(1) new unfolding Persist
    by (cases "opens (block_path (data_dir m) HOT (block_id (header b)))")
      (simp_all add: seal_and_persist_block_def succeeded_def bm_write_effect)
qed (use moves_ok [OF assms(1)] in \<open>simp_all add: succeeded_def\<close>)

section \<open>Recovery restores the tracked blocks\<close>

definition file_header :: "byte list \<Rightarrow> block_header" where
  "file_header bs = header_of_bytes (take 56 bs)"

definition recoverable :: "(string \<Rightarrow> bool) \<Rightarrow> string \<times> byte list \<Rightarrow> bool" where
  "recoverable opens e \<longleftrightarrow> opens (fst e) \<and> 56 \<le> length (snd e) \<and> is_valid (file_header (snd e))"

lemma scan_files_step:
  "scan_files opens t (e # fs) (hs, m) =
     (if recoverable opens e
      then scan_files opens t fs (hs @ [file_header (snd e)], set_tier (block_id (file_header (snd e))) t m)
      else scan_files opens t fs (hs, m))"
  by (cases e) (simp add: recoverable_def file_header_def Let_def)

declare scan_files.simps(2) [simp del]

lemma scan_files_spec:
  "fst (scan_files opens t fs (hs, m)) = hs @ map (file_header \<circ> snd) (filter (recoverable opens) fs)"
  "disk_of (snd (scan_files opens t fs (hs, m))) = disk_of m"
  "data_dir (snd (scan_files opens t fs (hs, m))) = data_dir m"
  "tier_of (snd (scan_files opens t fs (hs, m))) i =
     (if \<exists>e \<in> set fs. recoverable opens e \<and> block_id (file_header (snd e)) = i then Some t else tier_of m i)"
  by (induction fs arbitrary: hs m) (simp_all add: scan_files_step, blast)

lemma file_header_bytes [simp]: "file_header (header_bytes h @ d) = h"
  by (simp add: file_header_def header_round_trip)

lemma listed_blocks:
  assumes "bm_ok m" "\<And>xs. set (order xs) = set xs"
  shows "(\<exists>e \<in> set (order (filter (\<lambda>e. is_block_file (tier_dir (data_dir m) t) (fst e)) (disk_of m))).
      recoverable (\<lambda>_. True) e \<and> block_id (file_header (snd e)) = i) \<longleftrightarrow> tier_of m i = Some t"
proof -
  have dist: "distinct (map fst (disk_of m))" using assms(1) by (simp add: bm_ok_def smap_ok_distinct)
  have "recoverable (\<lambda>_. True) (path, bs) \<and> block_id (file_header bs) = j \<and> block_file m t j = Some bs"
    if "(path, bs) \<in> set (disk_of m)" "path = block_path (data_dir m) t j" for path bs j
  proof -
    have "block_file m t j = Some bs" using that dist by (simp add: block_file_def)
    moreover from this obtain h d where "bs = header_bytes h @ d" "is_valid h" "block_id h = j"
      using assms(1) unfolding bm_ok_def well_headed_def by blast
    ultimately show ?thesis by (simp add: recoverable_def)
  qed
  note tracked = this
  show ?thesis
  proof
    assume "\<exists>e \<in> set (order (filter (\<lambda>e. is_block_file (tier_dir (data_dir m) t) (fst e)) (disk_of m))).
      recoverable (\<lambda>_. True) e \<and> block_id (file_header (snd e)) = i"
    then obtain path bs where e: "(path, bs) \<in> set (disk_of m)" "is_block_file (tier_dir (data_dir m) t) path"
        "block_id (file_header bs) = i"
      using assms(2) by auto
    then obtain j where j: "path = block_path (data_dir m) t j"
      using bm_ok_listed [OF assms(1), of path t] by force
    with tracked [OF e(1) j] e(3) bm_ok_files [OF assms(1), of t i] show "tier_of m i = Some t" by auto
  next
    assume "tier_of m i = Some t"
    then obtain bs where "block_file m t i = Some bs" using bm_ok_files [OF assms(1), of t i] by auto
    then have bs: "(block_path (data_dir m) t i, bs) \<in> set (disk_of m)"
      by (simp add: block_file_def map_of_SomeD)
    then show "\<exists>e \<in> set (order (filter (\<lambda>e. is_block_file (tier_dir (data_dir m) t) (fst e)) (disk_of m))).
      recoverable (\<lambda>_. True) e \<and> block_id (file_header (snd e)) = i"
      using assms(2) tracked [OF bs refl]
      by (intro bexI [of _ "(block_path (data_dir m) t i, bs)"]) (simp_all add: is_block_file_path)
  qed
qed

text \<open>A manager started anew on the disk of another one.\<close>

definition restarted :: "block_manager \<Rightarrow> block_manager" where
  "restarted m = m\<lparr>block_tiers := []\<rparr>"

lemma recovered_tiers:
  assumes "bm_ok m" "\<And>xs. set (order xs) = set xs"
    and "recoverBlocks (\<lambda>_. True) order (restarted m) = (hs, m')"
  shows "tier_of m' i = (if tier_of m i = Some WARM then None else tier_of m i)"
    and "block_file m' t i = block_file m t i"
    and "tier_of m i = Some HOT \<Longrightarrow> \<exists>h \<in> set hs. block_id h = i"
proof -
  let ?ls = "\<lambda>t. order (filter (\<lambda>e. is_block_file (tier_dir (data_dir m) t) (fst e)) (disk_of m))"
  let ?hot = "scan_files (\<lambda>_. True) HOT (?ls HOT) ([], restarted m)"
  have base: "data_dir (restarted m) = data_dir m" "disk_of (restarted m) = disk_of m" "tier_of (restarted m) i = None"
    by (simp_all add: restarted_def tier_of_def)
  note hot = scan_files_spec [of "\<lambda>_. True" HOT "?ls HOT" "[]" "restarted m"]
  have result: "scan_files (\<lambda>_. True) COLD (?ls COLD) ?hot = (hs, m')"
    using assms(3) by (simp add: recoverBlocks_def scan_tier_def base hot)
  note cold = scan_files_spec [of "\<lambda>_. True" COLD "?ls COLD" "fst ?hot" "snd ?hot", unfolded prod.collapse result]
  show "tier_of m' i = (if tier_of m i = Some WARM then None else tier_of m i)"
    using cold(4) [of i] hot(4) [of i] base(3)
      listed_blocks [OF assms(1,2), of COLD i] listed_blocks [OF assms(1,2), of HOT i]
    by (cases "tier_of m i") (auto simp: split: block_tier.splits, (metis block_tier.exhaust)+)
  show "block_file m' t i = block_file m t i"
    using cold(2,3) hot(2,3) base by (simp add: block_file_def)
  show "\<exists>h \<in> set hs. block_id h = i" if "tier_of m i = Some HOT"
    using that listed_blocks [OF assms(1,2), of HOT i] cold(1) hot(1) by force
qed

lemma tracked_file:
  assumes "bm_ok m" "tier_of m i = Some t"
  shows "\<exists>bs. block_file m t i = Some bs \<and> 56 \<le> length bs"
proof -
  obtain bs where "block_file m t i = Some bs" using assms bm_ok_files [OF assms(1), of t i] by auto
  moreover from this have "well_headed i bs" using assms(1) unfolding bm_ok_def by blast
  ultimately show ?thesis using well_headed_length by blast
qed

lemma readData_payload:
  assumes "is_valid h" "\<And>t. tier_of m (block_id h) = Some t \<Longrightarrow>
      \<exists>bs. block_file m t (block_id h) = Some bs \<and> 56 \<le> length bs"
  shows "readData (\<lambda>_. True) h m =
    (case payload m (block_id h) of None \<Rightarrow> Inl ''Block not found'' | Some d \<Rightarrow> Inr d)"
proof (cases "tier_of m (block_id h)")
  case None
  then show ?thesis using assms(1) by (simp add: readData_def with_block_def tier_of_def payload_def)
next
  case (Some t)
  then obtain bs where "block_file m t (block_id h) = Some bs" "56 \<le> length bs" using assms(2) by blast
  with Some assms(1) show ?thesis
    by (simp add: readData_def with_block_def tier_of_def payload_def bm_read_def storage_read_def
        get_block_path block_file_def Let_def)
qed

lemma recovered_payload:
  assumes "bm_ok m" "\<And>xs. set (order xs) = set xs"
    and "recoverBlocks (\<lambda>_. True) order (restarted m) = (hs, m')" "is_valid h"
  shows "readData (\<lambda>_. True) h m' =
    (if tier_of m (block_id h) = Some WARM then Inl ''Block not found''
     else case payload m (block_id h) of None \<Rightarrow> Inl ''Block not found'' | Some d \<Rightarrow> Inr d)"
proof -
  note rec = recovered_tiers(1,2) [OF assms(1-3)]
  have "\<exists>bs. block_file m' t (block_id h) = Some bs \<and> 56 \<le> length bs"
    if "tier_of m' (block_id h) = Some t" for t
    using that rec tracked_file [OF assms(1), of "block_id h" t] by (simp split: if_splits)
  note readData_payload [OF assms(4) this]
  moreover have "payload m' (block_id h) =
      (if tier_of m (block_id h) = Some WARM then None else payload m (block_id h))"
    using rec by (simp add: payload_def split: option.split)
  ultimately show ?thesis by simp
qed

section \<open>Compaction\<close>

lemma demote_hot:
  assumes "bm_ok m" "is_valid h" "tier_of m (block_id h) = Some HOT" "demoteBlock opens h m = (Inr u, m')"
  shows "bm_ok m' \<and> tier_of m' = (tier_of m)(block_id h \<mapsto> WARM)"
proof -
  have "moveBlock opens h HOT WARM m = (Inr u, m')"
    using assms(2-4) by (simp add: demoteBlock_def with_block_def tier_of_def)
  then show ?thesis using moveBlock_ok [OF assms(1-3), of WARM opens] by simp
qed

lemma demote_all_hot:
  assumes "bm_ok m" "\<forall>h \<in> set hs. is_valid h \<and> tier_of m (block_id h) = Some HOT"
    and "distinct (map block_id hs)" "demote_all opens hs m = (Inr u, m')"
  shows "\<forall>h \<in> set hs. tier_of m' (block_id h) = Some WARM"
proof -
  have "tier_of m' i = (if i \<in> block_id ` set hs then Some WARM else tier_of m i)" for i
    using assms
  proof (induction hs arbitrary: m)
    case (Cons h hs)
    then obtain u1 m1 where m1: "demoteBlock opens h m = (Inr u1, m1)" "demote_all opens hs m1 = (Inr u, m')"
      by (auto split: prod.splits sum.splits)
    have "bm_ok m1" "tier_of m1 = (tier_of m)(block_id h \<mapsto> WARM)"
      using demote_hot [OF Cons.prems(1) _ _ m1(1)] Cons.prems(2) by simp_all
    moreover from this have "\<forall>h \<in> set hs. is_valid h \<and> tier_of m1 (block_id h) = Some HOT"
      using Cons.prems(2,3) by (auto simp: image_iff)
    ultimately show ?case using Cons.IH [OF _ _ _ m1(2)] Cons.prems(3) by auto
  qed simp
  then show ?thesis by simp
qed

lemma compact_demotes:
  assumes "bm_ok m" "compact opens stack m = (Inr u, m')" "tier_of m i = Some HOT"
  shows "bm_ok m' \<and> payload m' = payload m \<and> tier_of m' i = Some WARM"
proof -
  let ?ids = "map fst (filter (\<lambda>e. snd e = HOT) (block_tiers m))"
  let ?hs = "map (bare_header stack) ?ids"
  have d: "distinct (map fst (block_tiers m))" using assms(1) by (simp add: bm_ok_def smap_ok_distinct)
  then have "distinct ?ids" by (rule distinct_map_filter)
  moreover have "map block_id ?hs = ?ids" by (simp add: bare_header_def comp_def)
  moreover have "\<forall>h \<in> set ?hs. is_valid h \<and> tier_of m (block_id h) = Some HOT"
    using d by (auto simp: bare_header_def is_valid_def tier_of_def)
  moreover have run: "demote_all opens ?hs m = (Inr u, m')" using assms(2) by (simp add: compact_def)
  ultimately have "\<forall>h \<in> set ?hs. tier_of m' (block_id h) = Some WARM"
    using demote_all_hot [OF assms(1)] by metis
  moreover have "bare_header stack i \<in> set ?hs"
    using assms(3) by (force simp: tier_of_def dest: map_of_SomeD)
  moreover have "block_id (bare_header stack i) = i" by (simp add: bare_header_def)
  ultimately show ?thesis using demote_all_ok [OF assms(1), of opens ?hs] run by (metis snd_conv)
qed

section \<open>Properties\<close>

text \<open>
  C12: The block manager implements a map from block ids to contents: creating, writing, persisting
  and deleting a block change the entry of its id and no other, and finalizing, promoting, demoting
  and compacting change no contents, also when opening a file fails on the way. The invariant that
  every tracked block has exactly one file, in the directory of its tier, is kept by all of them.
  An operation is admissible when a block to be persisted has a valid header and the id of a created or persisted block is not
  that of a block outside the hot tier. The files behave as follows: an open may fail at every call, a write to an opened file stores
  all bytes, and a removal fails only for a missing file. \<open>demoteToParquet\<close>, which calls the Parquet library, is not
  among the operations.
\<close>

theorem block_manager_refines_map:
  assumes "bm_ok m" "bm_admissible op m" "bm_step op m = (ok, m')"
  shows "bm_ok m' \<and> payload m' = (if ok then bm_spec op m (payload m) else payload m)"
  using bm_step_ok [OF assms(1,2)] by (simp add: assms(3))

definition empty_manager :: block_manager where
  "empty_manager = \<lparr>data_dir = ''d'', block_tiers = [], local_id_counter = 1000000, disk_of = []\<rparr>"

lemma empty_manager_ok: "bm_ok empty_manager"
  by (simp add: bm_ok_def empty_manager_def block_file_def tier_of_def)

theorem block_manager_refines_map_witness:
  "\<exists>m'. bm_step (Persist (\<lambda>_. True) (mk_block sample_header simple_codecs)) empty_manager = (True, m')
     \<and> payload m' = [1 \<mapsto> block_serialize (mk_block sample_header simple_codecs)]"
proof -
  let ?op = "Persist (\<lambda>_. True) (mk_block sample_header simple_codecs)"
  have "bm_admissible ?op empty_manager"
    by (simp add: mk_block_def sample_header_def is_valid_def empty_manager_def tier_of_def)
  moreover obtain m' where step: "bm_step ?op empty_manager = (True, m')"
    by (simp add: seal_and_persist_block_def succeeded_def bm_write_effect)
  ultimately have "payload m' = bm_spec ?op empty_manager (payload empty_manager)"
    using block_manager_refines_map [OF empty_manager_ok _ step] by simp
  moreover have "payload empty_manager = Map.empty"
    by (simp add: payload_def empty_manager_def tier_of_def fun_eq_iff)
  ultimately show ?thesis using step by (simp add: mk_block_def sample_header_def)
qed

text \<open>
  C14: A sealed block survives a restart: let a block have a valid header, an id that is new or in the hot tier, the default compressors and series
  that are still buffered, with storable labels (no comma in a name or value, no equals sign in a name, no space in front of a name). After it was
  sealed and persisted, with every file open succeeding, a manager started anew on the same
  disk finds its header in whatever order the directory is listed, and the data it reads for that
  header deserializes to a block with the columns that had been appended.
\<close>

theorem persisted_block_recovered:
  assumes "bm_ok m" "is_valid (header b)" "tier_of m (block_id (header b)) \<in> {None, Some HOT}"
    and "\<forall>xs. set (order xs) = set xs"
    and "smap_ok (series b)" "block_codecs b = simple_codecs"
    and "\<forall>(l, d) \<in> set (series b). \<not> is_compressed d \<and> timestamps_uncompressed d \<noteq> []
      \<and> length (timestamps_uncompressed d) < 2 ^ 32 \<and> length (values_uncompressed d) < 2 ^ 32
      \<and> storable r (l, image_data d)"
    and "length (block_serialize (block_seal b)) < 2 ^ 64"
  shows "\<exists>m1 hs m2 data b'. seal_and_persist_block (\<lambda>_. True) (Some (block_seal b)) m = (Inr (), m1)
    \<and> recoverBlocks (\<lambda>_. True) order (restarted m1) = (hs, m2)
    \<and> (\<exists>h \<in> set hs. block_id h = block_id (header b))
    \<and> readData (\<lambda>_. True) (header b) m2 = Inr data \<and> block_deserialize r data = Parsed b'
    \<and> (\<forall>l. read_columns l b' = read_columns l b)"
proof -
  have h: "header (block_seal b) = header b" by (simp add: block_seal_def)
  let ?i = "block_id (header b)" and ?data = "block_serialize (block_seal b)"
  have "tier_of m ?i = None \<or> tier_of m ?i = Some HOT" using assms(3) by simp
  note new = stored_block [OF assms(1,2) this, of ?data]
  let ?m1 = "set_tier ?i HOT (m\<lparr>disk_of := smap_insert (block_path (data_dir m) HOT ?i)
      (header_bytes (header b) @ ?data) (disk_of m)\<rparr>)"
  have "seal_and_persist_block (\<lambda>_. True) (Some (block_seal b)) m = (Inr (), ?m1)"
    by (simp add: seal_and_persist_block_def bm_write_effect h)
  moreover obtain hs m2 where rec: "recoverBlocks (\<lambda>_. True) order (restarted ?m1) = (hs, m2)" by force
  moreover have "\<exists>h \<in> set hs. block_id h = ?i"
    using recovered_tiers(3) [OF new(1) _ rec] assms(4) by simp
  moreover have "readData (\<lambda>_. True) (header b) m2 = Inr ?data"
    using recovered_payload [OF new(1) _ rec assms(2)] assms(4) new(2) by simp
  moreover have "block_deserialize r ?data = Parsed ((block_seal b)\<lparr>dirty := False\<rparr>)"
    using assms(5-8) by (rule deserialize_sealed)
  moreover have "read_columns l ((block_seal b)\<lparr>dirty := False\<rparr>) = read_columns l b" for l
  proof -
    have "read_columns l ((block_seal b)\<lparr>dirty := False\<rparr>) = read_columns l (block_seal b)"
      by (simp add: read_columns_def split: option.split)
    also have "\<dots> = read_columns l b"
      using assms(6,7) by (intro simple.read_columns_seal) (auto dest: map_of_SomeD)
    finally show ?thesis .
  qed
  ultimately show ?thesis by blast
qed

lemma one_sample_header: "header one_sample_block = sample_header"
  by (simp add: one_sample_block_def block_append_def mk_block_def Let_def update_time_range_def
      sample_header_def mk_sample_def)

lemma sample_header_facts: "is_valid sample_header" "block_id sample_header = 1"
  by (simp_all add: sample_header_def is_valid_def)

theorem persisted_block_recovered_witness:
  "\<exists>m1 hs m2 data b'. seal_and_persist_block (\<lambda>_. True) (Some (block_seal one_sample_block)) empty_manager = (Inr (), m1)
    \<and> recoverBlocks (\<lambda>_. True) rev (restarted m1) = (hs, m2)
    \<and> readData (\<lambda>_. True) sample_header m2 = Inr data \<and> block_deserialize 10 data = Parsed b'
    \<and> read_columns [(''job'', ''a'')] b' = Some ([5], [1])"
proof -
  have "is_valid (header one_sample_block)" "tier_of empty_manager (block_id (header one_sample_block)) \<in> {None, Some HOT}"
    "\<forall>xs :: disk. set (rev xs) = set xs"
    by (simp_all add: one_sample_header sample_header_facts empty_manager_def tier_of_def)
  from persisted_block_recovered [OF empty_manager_ok this one_sample_storable(1-4)]
  show ?thesis unfolding one_sample_header using one_sample_storable(5) by metis
qed

text \<open>
  C39: Compaction hides blocks from the next start: it moves every hot block to the warm tier, and
  recovery does not look there, so after a restart the manager no longer knows them.
\<close>

theorem compacted_blocks_not_recovered:
  assumes "bm_ok m" "compact opens stack m = (Inr (), m1)" "\<forall>xs. set (order xs) = set xs"
    and "is_valid h" "tier_of m (block_id h) = Some HOT"
    and "recoverBlocks (\<lambda>_. True) order (restarted m1) = (hs, m2)"
  shows "readData (\<lambda>_. True) h m1 = readData (\<lambda>_. True) h m \<and> readData (\<lambda>_. True) h m2 = Inl ''Block not found''"
proof -
  have m1: "bm_ok m1" "payload m1 = payload m" "tier_of m1 (block_id h) = Some WARM"
    using compact_demotes [OF assms(1,2,5)] by simp_all
  have read: "readData (\<lambda>_. True) h k =
      (case payload k (block_id h) of None \<Rightarrow> Inl ''Block not found'' | Some d \<Rightarrow> Inr d)" if "bm_ok k" for k
    by (rule readData_payload [OF assms(4) tracked_file [OF that]])
  show ?thesis
    using read [OF m1(1)] read [OF assms(1)] m1 recovered_payload [OF m1(1) _ assms(6,4)] assms(3) by simp
qed

lemma persisted_example:
  "\<exists>m. seal_and_persist_block (\<lambda>_. True) (Some one_sample_block) empty_manager = (Inr (), m) \<and> bm_ok m
     \<and> tier_of m 1 = Some HOT"
proof -
  have "bm_admissible (Persist (\<lambda>_. True) one_sample_block) empty_manager"
    by (simp add: one_sample_header sample_header_facts empty_manager_def tier_of_def)
  note ok = bm_step_ok [OF empty_manager_ok this]
  let ?m = "snd (seal_and_persist_block (\<lambda>_. True) (Some one_sample_block) empty_manager)"
  have "seal_and_persist_block (\<lambda>_. True) (Some one_sample_block) empty_manager = (Inr (), ?m)"
    by (simp add: seal_and_persist_block_def bm_write_effect)
  moreover have "tier_of ?m 1 = Some HOT"
    by (simp add: seal_and_persist_block_def bm_write_effect one_sample_header sample_header_facts)
  ultimately show ?thesis using ok by (auto simp: succeeded_def)
qed

theorem compacted_blocks_not_recovered_witness:
  "\<exists>m m1 hs m2. seal_and_persist_block (\<lambda>_. True) (Some one_sample_block) empty_manager = (Inr (), m)
    \<and> compact (\<lambda>_. True) sample_header m = (Inr (), m1)
    \<and> recoverBlocks (\<lambda>_. True) id (restarted m1) = (hs, m2)
    \<and> readData (\<lambda>_. True) sample_header m2 = Inl ''Block not found''"
proof -
  obtain m where m: "seal_and_persist_block (\<lambda>_. True) (Some one_sample_block) empty_manager = (Inr (), m)"
      "bm_ok m" "tier_of m 1 = Some HOT"
    using persisted_example by blast
  have tiers: "block_tiers m = [(1, HOT)]"
    using m(1) by (auto simp: seal_and_persist_block_def bm_write_effect one_sample_header
        sample_header_facts set_tier_def empty_manager_def)
  let ?h = "bare_header sample_header 1"
  have h: "is_valid ?h" "block_id ?h = 1" by (simp_all add: bare_header_def is_valid_def)
  have "\<not> isl (fst (moveBlock (\<lambda>_. True) ?h HOT WARM m))"
    using payload_read(1) [OF m(2), of ?h HOT "\<lambda>_. True"] bm_ok_files [OF m(2), of HOT 1] m(3) h
    by (simp add: moveBlock_def bm_write_effect bm_remove_effect block_file_insert)
  then have "\<not> isl (fst (demoteBlock (\<lambda>_. True) ?h m))"
    using h m(3) by (simp add: demoteBlock_def with_block_def tier_of_def)
  then obtain m1 where m1: "compact (\<lambda>_. True) sample_header m = (Inr (), m1)"
    by (cases "demoteBlock (\<lambda>_. True) ?h m"; cases "fst (demoteBlock (\<lambda>_. True) ?h m)")
      (auto simp: compact_def tiers)
  obtain hs m2 where rec: "recoverBlocks (\<lambda>_. True) id (restarted m1) = (hs, m2)" by force
  have "readData (\<lambda>_. True) sample_header m2 = Inl ''Block not found''"
    using compacted_blocks_not_recovered [OF m(2) m1 _ _ _ rec, of sample_header] m(3)
    by (simp add: sample_header_facts)
  then show ?thesis using m(1) m1 rec by blast
qed

text \<open>
  A block whose id was already used replaces the older block: persisting it succeeds, and what
  the header of the older block then reads is the newer block. Block ids start at 1 in every run
  of the program.
\<close>

theorem reused_id_replaces_block:
  assumes "bm_ok m" "tier_of m (block_id (header old)) \<in> {None, Some HOT}"
    and "is_valid (header old)" "is_valid (header new)" "block_id (header new) = block_id (header old)"
  shows "\<exists>m1 m2. seal_and_persist_block (\<lambda>_. True) (Some old) m = (Inr (), m1)
    \<and> seal_and_persist_block (\<lambda>_. True) (Some new) m1 = (Inr (), m2)
    \<and> readData (\<lambda>_. True) (header old) m1 = Inr (block_serialize old)
    \<and> readData (\<lambda>_. True) (header old) m2 = Inr (block_serialize new)"
proof -
  let ?i = "block_id (header old)"
  let ?put = "\<lambda>(b :: block) m. set_tier ?i HOT (m\<lparr>disk_of := smap_insert (block_path (data_dir m) HOT ?i)
      (header_bytes (header b) @ block_serialize b) (disk_of m)\<rparr>)"
  have read: "readData (\<lambda>_. True) (header old) (?put b k) = Inr (block_serialize b)" for b :: block and k :: block_manager
    using assms(3) by (simp add: readData_def with_block_def set_tier_def smap_simps bm_read_def
        storage_read_def get_block_path Let_def)
  have "seal_and_persist_block (\<lambda>_. True) (Some old) m = (Inr (), ?put old m)"
    "seal_and_persist_block (\<lambda>_. True) (Some new) (?put old m) = (Inr (), ?put new (?put old m))"
    using assms(5) by (simp_all add: seal_and_persist_block_def bm_write_effect)
  then show ?thesis using read [where b = old and k = m] read [where b = new and k = "?put old m"] by blast
qed

theorem reused_id_replaces_block_witness:
  "\<exists>m1 m2. seal_and_persist_block (\<lambda>_. True) (Some one_sample_block) empty_manager = (Inr (), m1)
    \<and> seal_and_persist_block (\<lambda>_. True) (Some (mk_block sample_header simple_codecs)) m1 = (Inr (), m2)
    \<and> readData (\<lambda>_. True) sample_header m2 = Inr (block_serialize (mk_block sample_header simple_codecs))"
  using reused_id_replaces_block [OF empty_manager_ok, of one_sample_block "mk_block sample_header simple_codecs"]
  by (auto simp: one_sample_header sample_header_facts empty_manager_def tier_of_def mk_block_simps)

end
