(* ===== verification/Promql_Lexer.thy ===== *)
theory Promql_Lexer
  imports Prelude
begin

text \<open>
  The PromQL lexer (\<open>src/tsdb/prometheus/promql/lexer.cpp\<close>): the character cursor with its
  line and column counters, the token readers and \<open>NextToken\<close>, whose character 0 is end of
  input. A scanning loop stops at end of input, so it is a recursion on the characters left;
  \<open>GetAllTokens\<close> is a loop with no bound in the code, so it is a partial function whose
  termination is a theorem. \<open>isalpha\<close> and \<open>isdigit\<close> are those of the C locale.
\<close>

section \<open>Tokens\<close>

datatype token_type =
    ILLEGAL | EOF_TOKEN | COMMENT | IDENTIFIER | NUMBER | STRING
  | LEFT_PAREN | RIGHT_PAREN | LEFT_BRACE | RIGHT_BRACE | LEFT_BRACKET | RIGHT_BRACKET
  | COMMA | ASSIGN | COLON
  | EQL | NEQ | LTE | LSS | GTE | GTR | EQL_REGEX | NEQ_REGEX
  | ADD | SUB | MUL | DIV | MOD | POW
  | AND_TOKEN | OR_TOKEN | UNLESS
  | SUM_TOKEN | AVG | COUNT | MIN_TOKEN | MAX_TOKEN | STDDEV | STDVAR | TOPK | BOTTOMK
  | COUNT_VALUES | QUANTILE
  | BY | WITHOUT | ON | IGNORING | GROUP_LEFT | GROUP_RIGHT | OFFSET | BOOL
  | DURATION | AT | START | END_TOKEN | SUBQUERY_RANGE

record token =
  tok_type :: token_type
  tok_literal :: string
  tok_line :: int
  tok_pos :: int

definition mk_token :: "token_type \<Rightarrow> string \<Rightarrow> int \<Rightarrow> int \<Rightarrow> token" where
  "mk_token t lit l p = \<lparr>tok_type = t, tok_literal = lit, tok_line = l, tok_pos = p\<rparr>"

fun TokenTypeToString :: "token_type \<Rightarrow> string" where
  "TokenTypeToString ILLEGAL = ''ILLEGAL''"
| "TokenTypeToString EOF_TOKEN = ''EOF''"
| "TokenTypeToString COMMENT = ''COMMENT''"
| "TokenTypeToString IDENTIFIER = ''IDENTIFIER''"
| "TokenTypeToString NUMBER = ''NUMBER''"
| "TokenTypeToString STRING = ''STRING''"
| "TokenTypeToString LEFT_PAREN = ''LEFT_PAREN''"
| "TokenTypeToString RIGHT_PAREN = ''RIGHT_PAREN''"
| "TokenTypeToString LEFT_BRACE = ''LEFT_BRACE''"
| "TokenTypeToString RIGHT_BRACE = ''RIGHT_BRACE''"
| "TokenTypeToString LEFT_BRACKET = ''LEFT_BRACKET''"
| "TokenTypeToString RIGHT_BRACKET = ''RIGHT_BRACKET''"
| "TokenTypeToString COMMA = ''COMMA''"
| "TokenTypeToString ASSIGN = ''ASSIGN''"
| "TokenTypeToString COLON = ''COLON''"
| "TokenTypeToString EQL = ''EQL''"
| "TokenTypeToString NEQ = ''NEQ''"
| "TokenTypeToString LTE = ''LTE''"
| "TokenTypeToString LSS = ''LSS''"
| "TokenTypeToString GTE = ''GTE''"
| "TokenTypeToString GTR = ''GTR''"
| "TokenTypeToString EQL_REGEX = ''EQL_REGEX''"
| "TokenTypeToString NEQ_REGEX = ''NEQ_REGEX''"
| "TokenTypeToString ADD = ''ADD''"
| "TokenTypeToString SUB = ''SUB''"
| "TokenTypeToString MUL = ''MUL''"
| "TokenTypeToString DIV = ''DIV''"
| "TokenTypeToString MOD = ''MOD''"
| "TokenTypeToString POW = ''POW''"
| "TokenTypeToString AND_TOKEN = ''AND''"
| "TokenTypeToString OR_TOKEN = ''OR''"
| "TokenTypeToString UNLESS = ''UNLESS''"
| "TokenTypeToString SUM_TOKEN = ''SUM''"
| "TokenTypeToString AVG = ''AVG''"
| "TokenTypeToString COUNT = ''COUNT''"
| "TokenTypeToString MIN_TOKEN = ''MIN''"
| "TokenTypeToString MAX_TOKEN = ''MAX''"
| "TokenTypeToString STDDEV = ''STDDEV''"
| "TokenTypeToString STDVAR = ''STDVAR''"
| "TokenTypeToString TOPK = ''TOPK''"
| "TokenTypeToString BOTTOMK = ''BOTTOMK''"
| "TokenTypeToString COUNT_VALUES = ''COUNT_VALUES''"
| "TokenTypeToString QUANTILE = ''QUANTILE''"
| "TokenTypeToString BY = ''BY''"
| "TokenTypeToString WITHOUT = ''WITHOUT''"
| "TokenTypeToString ON = ''ON''"
| "TokenTypeToString IGNORING = ''IGNORING''"
| "TokenTypeToString GROUP_LEFT = ''GROUP_LEFT''"
| "TokenTypeToString GROUP_RIGHT = ''GROUP_RIGHT''"
| "TokenTypeToString OFFSET = ''OFFSET''"
| "TokenTypeToString BOOL = ''BOOL''"
| "TokenTypeToString DURATION = ''DURATION''"
| "TokenTypeToString AT = ''AT''"
| "TokenTypeToString START = ''START''"
| "TokenTypeToString END_TOKEN = ''END''"
| "TokenTypeToString SUBQUERY_RANGE = ''SUBQUERY_RANGE''"

definition TypeString :: "token \<Rightarrow> string" where
  "TypeString t = TokenTypeToString (tok_type t)"

definition keyword_map :: "(string \<times> token_type) list" where
  "keyword_map =
     [(''and'', AND_TOKEN), (''or'', OR_TOKEN), (''unless'', UNLESS), (''sum'', SUM_TOKEN),
      (''avg'', AVG), (''count'', COUNT), (''min'', MIN_TOKEN), (''max'', MAX_TOKEN),
      (''stddev'', STDDEV), (''stdvar'', STDVAR), (''topk'', TOPK), (''bottomk'', BOTTOMK),
      (''count_values'', COUNT_VALUES), (''quantile'', QUANTILE), (''by'', BY),
      (''without'', WITHOUT), (''on'', ON), (''ignoring'', IGNORING), (''group_left'', GROUP_LEFT),
      (''group_right'', GROUP_RIGHT), (''offset'', OFFSET), (''bool'', BOOL)]"

section \<open>The cursor\<close>

record lexer =
  input :: string
  position :: nat
  readPosition :: nat
  ch :: char
  currentLine :: int
  currentPosInLine :: int

definition nul :: char where "nul = CHR 0x00"

definition between :: "char \<Rightarrow> nat \<Rightarrow> nat \<Rightarrow> bool" where
  "between c lo hi \<longleftrightarrow> lo \<le> of_char c \<and> of_char c \<le> hi"

definition isdigit :: "char \<Rightarrow> bool" where
  "isdigit c \<longleftrightarrow> between c 48 57"

definition isalpha :: "char \<Rightarrow> bool" where
  "isalpha c \<longleftrightarrow> between c 65 90 \<or> between c 97 122"

definition isalnum :: "char \<Rightarrow> bool" where
  "isalnum c \<longleftrightarrow> isalpha c \<or> isdigit c"

definition readChar :: "lexer \<Rightarrow> lexer" where
  "readChar lx = lx\<lparr>ch := (if length (input lx) \<le> readPosition lx then nul
       else input lx ! readPosition lx),
     position := readPosition lx, readPosition := readPosition lx + 1,
     currentPosInLine := currentPosInLine lx + 1\<rparr>"

definition peekChar :: "lexer \<Rightarrow> char" where
  "peekChar lx = (if length (input lx) \<le> readPosition lx then nul else input lx ! readPosition lx)"

definition mk_lexer :: "string \<Rightarrow> lexer" where
  "mk_lexer s = readChar \<lparr>input = s, position = 0, readPosition = 0, ch = nul, currentLine = 1,
     currentPosInLine = 0\<rparr>"

definition SetPosition :: "nat \<Rightarrow> lexer \<Rightarrow> lexer" where
  "SetPosition pos lx = lx\<lparr>position := pos, readPosition := pos + 1,
     ch := (if pos < length (input lx) then input lx ! pos else nul)\<rparr>"

text \<open>
  \<open>while (p(ch_)) readChar();\<close> for a predicate that is false at end of input: when no character
  is left behind the current one, the next \<open>readChar\<close> ends the loop.
\<close>

function read_while :: "(char \<Rightarrow> bool) \<Rightarrow> lexer \<Rightarrow> lexer" where
  "read_while p lx =
     (if \<not> p (ch lx) then lx
      else if readPosition lx < length (input lx) then read_while p (readChar lx)
      else readChar lx)"
  by pat_completeness auto
termination
  by (relation "measure (\<lambda>(p, lx). length (input lx) - readPosition lx)") (auto simp: readChar_def)

declare read_while.simps [simp del]

function skipWhitespace :: "lexer \<Rightarrow> lexer" where
  "skipWhitespace lx =
     (if ch lx = CHR '' '' \<or> ch lx = CHR 0x09 \<or> ch lx = CHR 0x0A \<or> ch lx = CHR 0x0D then
        let lx1 = (if ch lx = CHR 0x0A
              then lx\<lparr>currentLine := currentLine lx + 1, currentPosInLine := 0\<rparr> else lx)
        in if readPosition lx < length (input lx) then skipWhitespace (readChar lx1) else readChar lx1
      else lx)"
  by pat_completeness auto
termination
  by (relation "measure (\<lambda>lx. length (input lx) - readPosition lx)") (auto simp: readChar_def)

declare skipWhitespace.simps [simp del]

definition skipComment :: "lexer \<Rightarrow> lexer" where
  "skipComment lx =
     (if ch lx = CHR ''#'' then read_while (\<lambda>c. c \<noteq> CHR 0x0A \<and> c \<noteq> nul) lx else lx)"

section \<open>Readers\<close>

text \<open>\<open>input_.substr(startPos, position_ - startPos)\<close>\<close>

definition slice_from :: "nat \<Rightarrow> lexer \<Rightarrow> string" where
  "slice_from start lx = take (position lx - start) (drop start (input lx))"

definition readIdentifier :: "lexer \<Rightarrow> token \<times> lexer" where
  "readIdentifier lx =
     (let lx1 = read_while (\<lambda>c. isalnum c \<or> c = CHR ''_'' \<or> c = CHR '':'') lx;
          literal = slice_from (position lx) lx1
      in case map_of keyword_map literal of
           Some t \<Rightarrow> (mk_token t literal (currentLine lx) (currentPosInLine lx), lx1)
         | None \<Rightarrow> (mk_token IDENTIFIER literal (currentLine lx) (currentPosInLine lx), lx1))"

text \<open>Both returns of \<open>readNumber\<close> build the same token.\<close>

definition readNumber :: "lexer \<Rightarrow> token \<times> lexer" where
  "readNumber lx =
     (let lx1 = (if (ch lx = CHR ''-'' \<or> ch lx = CHR ''+'')
                    \<and> (isdigit (peekChar lx) \<or> peekChar lx = CHR ''.'') then readChar lx else lx);
          lx2 = read_while isdigit lx1;
          lx3 = (if ch lx2 = CHR ''.'' then read_while isdigit (readChar lx2) else lx2)
      in (mk_token NUMBER (slice_from (position lx) lx3) (currentLine lx) (currentPosInLine lx), lx3))"

definition unescape :: "char \<Rightarrow> char" where
  "unescape c =
     (if c = CHR ''n'' then CHR 0x0A else if c = CHR ''t'' then CHR 0x09
      else if c = CHR ''r'' then CHR 0x0D else c)"

function string_loop :: "char \<Rightarrow> lexer \<Rightarrow> string \<Rightarrow> string \<times> lexer" where
  "string_loop q lx literal =
     (if ch lx = q \<or> ch lx = nul then (literal, lx)
      else
        let (literal1, lx1) =
              (if ch lx = CHR 0x5C then (literal @ [unescape (ch (readChar lx))], readChar lx)
               else (literal @ [ch lx], lx))
        in if readPosition lx < length (input lx) then string_loop q (readChar lx1) literal1
           else (literal1, readChar lx1))"
  by pat_completeness auto
termination
  by (relation "measure (\<lambda>(q, lx, lit). length (input lx) - readPosition lx)")
    (auto simp: readChar_def split: if_splits)

declare string_loop.simps [simp del]

text \<open>\<open>readString\<close>; an unterminated string is the thrown \<open>LexerError\<close> with its text and place.\<close>

definition readString :: "lexer \<Rightarrow> ((string \<times> int \<times> int) + token) \<times> lexer" where
  "readString lx =
     (let (literal, lx1) = string_loop (ch lx) (readChar lx) []
      in if ch lx1 = nul then
           (Inl (''Unterminated string literal at line '' @ int_string (currentLine lx) @ '':''
                 @ int_string (currentPosInLine lx), currentLine lx, currentPosInLine lx), lx1)
         else
           (Inr (mk_token STRING literal (currentLine lx) (currentPosInLine lx)), readChar lx1))"

definition duration_unit :: "char \<Rightarrow> bool" where
  "duration_unit c \<longleftrightarrow> c \<in> set ''smhdwy''"

definition readDuration :: "lexer \<Rightarrow> token \<times> lexer" where
  "readDuration lx =
     (let lx1 = read_while isdigit lx; durationStr = slice_from (position lx) lx1
      in if durationStr = [] then
           (mk_token ILLEGAL [ch lx1] (currentLine lx1) (currentPosInLine lx1), lx1)
         else if ch lx1 = CHR ''m'' \<and> peekChar lx1 = CHR ''s'' then
           let lx2 = readChar lx1
           in (mk_token DURATION (durationStr @ [ch lx1, ch lx2]) (currentLine lx) (currentPosInLine lx),
               readChar lx2)
         else if duration_unit (ch lx1) then
           (mk_token DURATION (durationStr @ [ch lx1]) (currentLine lx) (currentPosInLine lx), readChar lx1)
         else
           (mk_token ILLEGAL (slice_from (position lx) lx1) (currentLine lx) (currentPosInLine lx), lx1))"

definition readOperatorOrComparison :: "lexer \<Rightarrow> token \<times> lexer" where
  "readOperatorOrComparison lx =
     (let c = ch lx; lx1 = readChar lx; d = ch lx1;
          tok = (\<lambda>t lit. mk_token t lit (currentLine lx) (currentPosInLine lx));
          undo = (tok ILLEGAL [c], lx1\<lparr>position := position lx1 - 1, readPosition := readPosition lx1 - 1,
             currentPosInLine := currentPosInLine lx1 - 1, ch := c\<rparr>)
      in if c = CHR ''='' then
           (if d = CHR ''='' then (tok EQL ''=='', readChar lx1)
            else if d = CHR ''~'' then (tok EQL_REGEX ''=~'', readChar lx1)
            else (tok ASSIGN ''='', lx1))
         else if c = CHR ''!'' then
           (if d = CHR ''='' then (tok NEQ ''!='', readChar lx1)
            else if d = CHR ''~'' then (tok NEQ_REGEX ''!~'', readChar lx1)
            else undo)
         else if c = CHR ''<'' then
           (if d = CHR ''='' then (tok LTE ''<='', readChar lx1) else (tok LSS ''<'', lx1))
         else if c = CHR ''>'' then
           (if d = CHR ''='' then (tok GTE ''>='', readChar lx1) else (tok GTR ''>'', lx1))
         else undo)"

section \<open>NextToken\<close>

text \<open>The single-character tokens of the main switch.\<close>

definition single_tokens :: "(char \<times> token_type) list" where
  "single_tokens =
     [(CHR ''+'', ADD), (CHR ''-'', SUB), (CHR ''*'', MUL), (CHR ''/'', DIV), (CHR ''%'', MOD),
      (CHR ''^'', POW), (CHR ''('', LEFT_PAREN), (CHR '')'', RIGHT_PAREN), (CHR ''{'', LEFT_BRACE),
      (CHR ''}'', RIGHT_BRACE), (CHR ''['', LEFT_BRACKET), (CHR '']'', RIGHT_BRACKET),
      (CHR '','', COMMA), (CHR '':'', COLON), (CHR ''@'', AT)]"

definition two_char_operator :: "char \<Rightarrow> char \<Rightarrow> bool" where
  "two_char_operator c d \<longleftrightarrow>
     c = CHR ''='' \<and> (d = CHR ''='' \<or> d = CHR ''~'') \<or> c = CHR ''!'' \<and> (d = CHR ''='' \<or> d = CHR ''~'')
     \<or> c = CHR ''<'' \<and> d = CHR ''='' \<or> c = CHR ''>'' \<and> d = CHR ''=''"

definition NextToken_at :: "lexer \<Rightarrow> token \<times> lexer" where
  "NextToken_at lx =
     (let c = ch lx; tok = (\<lambda>t lit. mk_token t lit (currentLine lx) (currentPosInLine lx)) in
      if c = CHR ''='' \<or> c = CHR ''!'' \<or> c = CHR ''<'' \<or> c = CHR ''>'' then
        (if two_char_operator c (peekChar lx) then readOperatorOrComparison lx
         else if c = CHR ''='' then (tok ASSIGN ''='', readChar lx)
         else if c = CHR ''<'' then (tok LSS ''<'', readChar lx)
         else if c = CHR ''>'' then (tok GTR ''>'', readChar lx)
         else (tok ILLEGAL [c], readChar lx))
      else
        (case map_of single_tokens c of
           Some t \<Rightarrow> (tok t [c], readChar lx)
         | None \<Rightarrow>
             if c = CHR 0x27 \<or> c = CHR 0x22 \<or> c = CHR 0x60 then
               (case readString lx of
                  (Inl (msg, l, p), lx1) \<Rightarrow> (mk_token ILLEGAL msg l p, lx1)
                | (Inr t, lx1) \<Rightarrow> (t, lx1))
             else if c = nul then (tok EOF_TOKEN [], lx)
             else if isalpha c \<or> c = CHR ''_'' then readIdentifier lx
             else if isdigit c \<or> (c = CHR ''-'' \<or> c = CHR ''+'')
                 \<and> (isdigit (peekChar lx) \<or> peekChar lx = CHR ''.'') then
               (let (numTok, lx1) = readNumber lx
                in if tok_type numTok = NUMBER \<and> duration_unit (ch lx1) then
                     readDuration (lx1\<lparr>position := position lx, readPosition := position lx + 1,
                       ch := input lx ! position lx, currentPosInLine := currentPosInLine lx\<rparr>)
                   else (numTok, lx1))
             else (tok ILLEGAL [c], readChar lx)))"

definition NextToken :: "lexer \<Rightarrow> token \<times> lexer" where
  "NextToken lx = NextToken_at (skipWhitespace (skipComment (skipWhitespace lx)))"

partial_function (option) GetAllTokens :: "lexer \<Rightarrow> token list option" where
  "GetAllTokens lx =
     (let (tok, lx1) = NextToken lx
      in if tok_type tok = EOF_TOKEN then Some [tok]
         else Option.bind (GetAllTokens lx1) (\<lambda>ts. Some (tok # ts)))"

declare GetAllTokens.simps [code]

section \<open>The cursor invariant\<close>

definition char_at :: "string \<Rightarrow> nat \<Rightarrow> char" where
  "char_at s i = (if i < length s then s ! i else nul)"

definition lexer_ok :: "lexer \<Rightarrow> bool" where
  "lexer_ok lx \<longleftrightarrow> readPosition lx = position lx + 1 \<and> ch lx = char_at (input lx) (position lx)"

definition rest :: "lexer \<Rightarrow> string" where
  "rest lx = drop (position lx) (input lx)"

text \<open>What scanning does to the cursor: it stays consistent, keeps its input and moves on.\<close>

definition advanced :: "lexer \<Rightarrow> nat \<Rightarrow> lexer \<Rightarrow> bool" where
  "advanced lx n lx' \<longleftrightarrow> lexer_ok lx' \<and> input lx' = input lx \<and> position lx' = position lx + n"

lemma advanced_refl: "lexer_ok lx \<Longrightarrow> advanced lx 0 lx"
  by (simp add: advanced_def)

lemma advanced_trans: "\<lbrakk>advanced lx m lx1; advanced lx1 n lx2\<rbrakk> \<Longrightarrow> advanced lx (m + n) lx2"
  by (simp add: advanced_def)

lemma advanced_readChar: "lexer_ok lx \<Longrightarrow> advanced lx 1 (readChar lx)"
  by (simp add: advanced_def lexer_ok_def readChar_def char_at_def)

lemma lexer_ok_frame [simp]:
  "lexer_ok (lx\<lparr>currentLine := l, currentPosInLine := p\<rparr>) = lexer_ok lx"
  "advanced (lx\<lparr>currentLine := l, currentPosInLine := p\<rparr>) n lx' = advanced lx n lx'"
  by (simp_all add: lexer_ok_def advanced_def)

lemma ch_rest: "lexer_ok lx \<Longrightarrow> ch lx = (case rest lx of [] \<Rightarrow> nul | c # cs \<Rightarrow> c)"
  by (cases "position lx < length (input lx)")
    (simp_all add: lexer_ok_def char_at_def rest_def Cons_nth_drop_Suc [symmetric])

lemma ch_nonnul: "\<lbrakk>lexer_ok lx; ch lx \<noteq> nul\<rbrakk> \<Longrightarrow> position lx < length (input lx)"
  by (auto simp: lexer_ok_def char_at_def split: if_splits)

lemma rest_Cons: "position lx < length (input lx) \<Longrightarrow> lexer_ok lx \<Longrightarrow>
    rest lx = ch lx # drop (position lx + 1) (input lx)"
  by (simp add: rest_def lexer_ok_def char_at_def Cons_nth_drop_Suc)

lemma rest_advanced: "advanced lx n lx' \<Longrightarrow> rest lx' = drop n (rest lx)"
  by (simp add: advanced_def rest_def add.commute)

lemma read_while_advanced:
  assumes "lexer_ok lx" "\<not> p nul"
  shows "advanced lx (length (takeWhile p (rest lx))) (read_while p lx)
    \<and> currentLine (read_while p lx) = currentLine lx"
  using assms
proof (induction p lx rule: read_while.induct)
  case (1 p lx)
  note assms = 1(2,3)
  show ?case
  proof (cases "p (ch lx)")
    case False
    have "takeWhile p (rest lx) = []"
      using ch_rest [OF 1(2)] False by (cases "rest lx") auto
    with False 1(2) show ?thesis by (simp add: read_while.simps advanced_refl)
  next
    case True
    then have pos: "position lx < length (input lx)" using assms by (intro ch_nonnul) auto
    have step: "advanced lx 1 (readChar lx)" by (rule advanced_readChar [OF 1(2)])
    have rest: "rest lx = ch lx # rest (readChar lx)"
      using rest_Cons [OF pos 1(2)] rest_advanced [OF step] by simp
    show ?thesis
    proof (cases "readPosition lx < length (input lx)")
      case more: True
      have "lexer_ok (readChar lx)" using step by (simp add: advanced_def)
      from 1(1) [OF _ more this 1(3)] True have
        "advanced (readChar lx) (length (takeWhile p (rest (readChar lx)))) (read_while p (readChar lx))"
        "currentLine (read_while p (readChar lx)) = currentLine lx"
        by (simp_all add: readChar_def)
      with True more advanced_trans [OF step] rest show ?thesis
        by (simp add: read_while.simps [of p lx])
    next
      case False
      then have "rest (readChar lx) = []" using 1(2) by (simp add: rest_def readChar_def lexer_ok_def)
      with True False step rest show ?thesis
        by (simp add: read_while.simps [of p lx] readChar_def)
    qed
  qed
qed

definition is_space :: "char \<Rightarrow> bool" where
  "is_space c \<longleftrightarrow> c = CHR '' '' \<or> c = CHR 0x09 \<or> c = CHR 0x0A \<or> c = CHR 0x0D"

lemma skipWhitespace_advanced:
  "lexer_ok lx \<Longrightarrow> advanced lx (length (takeWhile is_space (rest lx))) (skipWhitespace lx)"
proof (induction lx rule: skipWhitespace.induct)
  case (1 lx)
  let ?lx1 = "if ch lx = CHR 0x0A then lx\<lparr>currentLine := currentLine lx + 1, currentPosInLine := 0\<rparr> else lx"
  have ok: "lexer_ok ?lx1" using 1(2) by simp
  have step: "advanced lx 1 (readChar ?lx1)" using advanced_readChar [OF ok] by (simp split: if_splits)
  show ?case
  proof (cases "is_space (ch lx)")
    case False
    then have "takeWhile is_space (rest lx) = []"
      using ch_rest [OF 1(2)] by (cases "rest lx") auto
    with False advanced_refl [OF 1(2)] show ?thesis
      by (subst skipWhitespace.simps) (auto simp: is_space_def)
  next
    case True
    then have "ch lx \<noteq> nul" by (auto simp: is_space_def nul_def)
    then have pos: "position lx < length (input lx)" by (rule ch_nonnul [OF 1(2)])
    have rest: "rest lx = ch lx # rest (readChar ?lx1)"
      using rest_Cons [OF pos 1(2)] rest_advanced [OF step] by simp
    have unfold: "skipWhitespace lx = (if readPosition lx < length (input lx)
        then skipWhitespace (readChar ?lx1) else readChar ?lx1)"
      using True by (subst skipWhitespace.simps) (auto simp: is_space_def Let_def)
    show ?thesis
    proof (cases "readPosition lx < length (input lx)")
      case more: True
      have "lexer_ok (readChar ?lx1)" using step by (simp add: advanced_def)
      then have "advanced (readChar ?lx1) (length (takeWhile is_space (rest (readChar ?lx1))))
          (skipWhitespace (readChar ?lx1))"
        using True more by (intro 1(1)) (auto simp: is_space_def)
      from advanced_trans [OF step this] show ?thesis
        unfolding unfold using more True by (simp add: rest)
    next
      case False
      then have "rest (readChar ?lx1) = []" using 1(2) step by (simp add: rest_def advanced_def lexer_ok_def)
      with False True step show ?thesis unfolding unfold by (simp add: rest)
    qed
  qed
qed

lemma skipComment_advanced: "lexer_ok lx \<Longrightarrow> \<exists>n. advanced lx n (skipComment lx)"
  using read_while_advanced [of lx "\<lambda>c. c \<noteq> CHR 0x0A \<and> c \<noteq> nul"] advanced_refl
  by (auto simp: skipComment_def)

section \<open>Progress\<close>

text \<open>A reader consumed at least one character and did not return the end token.\<close>

definition consumes :: "lexer \<Rightarrow> token \<times> lexer \<Rightarrow> bool" where
  "consumes lx r \<longleftrightarrow> (\<exists>n > 0. advanced lx n (snd r)) \<and> tok_type (fst r) \<noteq> EOF_TOKEN"

lemma consumesI: "\<lbrakk>advanced lx n lx'; 0 < n; t \<noteq> EOF_TOKEN\<rbrakk> \<Longrightarrow> consumes lx (mk_token t lit l p, lx')"
  by (auto simp: consumes_def mk_token_def)

lemma keyword_types: "map_of keyword_map lit = Some t \<Longrightarrow> t \<noteq> EOF_TOKEN"
  by (auto simp: keyword_map_def split: if_splits)

lemma takeWhile_rest_nonempty:
  assumes "lexer_ok lx" "p (ch lx)" "ch lx \<noteq> nul"
  shows "0 < length (takeWhile p (rest lx))"
  using rest_Cons [OF ch_nonnul [OF assms(1,3)] assms(1)] assms(2) by simp

lemma not_nul [simp]: "\<not> isdigit nul" "\<not> isalpha nul" "\<not> isalnum nul" "\<not> duration_unit nul"
  by (simp_all add: isdigit_def isalpha_def isalnum_def nul_def duration_unit_def between_def)

lemma isdigit_nonnul: "isdigit c \<Longrightarrow> c \<noteq> nul"
  using not_nul(1) by blast

lemma readIdentifier_consumes:
  assumes "lexer_ok lx" "isalpha (ch lx) \<or> ch lx = CHR ''_''"
  shows "consumes lx (readIdentifier lx)"
proof -
  let ?p = "\<lambda>c. isalnum c \<or> c = CHR ''_'' \<or> c = CHR '':''"
  have lits: "CHR ''_'' \<noteq> nul" "CHR '':'' \<noteq> nul" by (simp_all add: nul_def)
  then have nul: "\<not> ?p nul" by auto
  have "ch lx \<noteq> nul" using assms(2) lits(1) not_nul(2) by metis
  then have "0 < length (takeWhile ?p (rest lx))"
    using assms by (intro takeWhile_rest_nonempty) (auto simp: isalnum_def)
  moreover have "advanced lx (length (takeWhile ?p (rest lx))) (read_while ?p lx)"
    using read_while_advanced [of lx ?p] assms(1) nul by blast
  ultimately show ?thesis
    unfolding readIdentifier_def Let_def
    by (auto intro!: consumesI dest: keyword_types split: option.split)
qed

lemma digits_advanced:
  assumes "lexer_ok lx" "isdigit (ch lx)"
  shows "advanced lx (length (takeWhile isdigit (rest lx))) (read_while isdigit lx)"
    and "0 < length (takeWhile isdigit (rest lx))"
  using read_while_advanced [where p = isdigit, OF assms(1) not_nul(1)]
    takeWhile_rest_nonempty [where p = isdigit, OF assms isdigit_nonnul [OF assms(2)]] by blast+

lemma fraction_advanced:
  assumes "lexer_ok lx"
  shows "\<exists>n. advanced lx n (if ch lx = CHR ''.'' then read_while isdigit (readChar lx) else lx)"
proof (cases "ch lx = CHR ''.''")
  case True
  have step: "advanced lx 1 (readChar lx)" by (rule advanced_readChar [OF assms])
  then have "lexer_ok (readChar lx)" by (simp add: advanced_def)
  from advanced_trans [OF step conjunct1 [OF read_while_advanced [where p = isdigit, OF this not_nul(1)]]] True
  show ?thesis by auto
next
  case False
  with advanced_refl [OF assms] show ?thesis by auto
qed

lemma readNumber_consumes:
  assumes "lexer_ok lx" "isdigit (ch lx)"
  shows "consumes lx (readNumber lx)"
proof -
  have sign: "ch lx \<noteq> CHR ''-''" "ch lx \<noteq> CHR ''+''"
    using assms(2) by (auto simp: isdigit_def between_def)
  note digits = digits_advanced [OF assms]
  have "lexer_ok (read_while isdigit lx)" using digits(1) by (simp add: advanced_def)
  from fraction_advanced [OF this] obtain n where "advanced (read_while isdigit lx) n
     (if ch (read_while isdigit lx) = CHR ''.'' then read_while isdigit (readChar (read_while isdigit lx))
      else read_while isdigit lx)" ..
  from consumesI [OF advanced_trans [OF digits(1) this]] digits(2) sign show ?thesis
    by (simp add: readNumber_def Let_def)
qed

lemma readChar_consumes:
  "\<lbrakk>lexer_ok lx; t \<noteq> EOF_TOKEN\<rbrakk> \<Longrightarrow> consumes lx (mk_token t lit l p, readChar lx)"
  by (rule consumesI [OF advanced_readChar]) simp_all

lemma readChar2_consumes:
  assumes "lexer_ok lx" "t \<noteq> EOF_TOKEN"
  shows "consumes lx (mk_token t lit l p, readChar (readChar lx))"
proof -
  have step: "advanced lx 1 (readChar lx)" by (rule advanced_readChar [OF assms(1)])
  then have "advanced (readChar lx) 1 (readChar (readChar lx))"
    by (intro advanced_readChar) (simp add: advanced_def)
  from consumesI [OF advanced_trans [OF step this] _ assms(2)] show ?thesis by simp
qed

lemma operator_consumes:
  assumes "lexer_ok lx" "two_char_operator (ch lx) (peekChar lx)"
  shows "consumes lx (readOperatorOrComparison lx)"
proof -
  have "ch (readChar lx) = peekChar lx" by (simp add: readChar_def peekChar_def)
  with assms(2) readChar_consumes [OF assms(1)] readChar2_consumes [OF assms(1)] show ?thesis
    by (auto simp: readOperatorOrComparison_def two_char_operator_def Let_def)
qed

lemma consumes_after:
  assumes "advanced lx n lx1" "0 < n" "consumes lx1 r"
  shows "consumes lx r"
  using assms advanced_trans [OF assms(1)] by (auto simp: consumes_def)

lemma readDuration_consumes:
  assumes "lexer_ok lx" "isdigit (ch lx)"
  shows "consumes lx (readDuration lx)"
proof -
  note digits = digits_advanced [OF assms]
  have ok: "lexer_ok (read_while isdigit lx)" using digits(1) by (simp add: advanced_def)
  show ?thesis
    using consumes_after [OF digits readChar_consumes [OF ok]]
      consumes_after [OF digits readChar2_consumes [OF ok]] consumesI [OF digits]
    by (simp add: readDuration_def Let_def)
qed

lemma string_loop_advanced:
  "lexer_ok lx \<Longrightarrow> \<exists>n. advanced lx n (snd (string_loop q lx lit))"
proof (induction q lx lit rule: string_loop.induct)
  case (1 q lx lit)
  have step: "advanced lx 1 (readChar lx)" by (rule advanced_readChar [OF 1(2)])
  then have ok1: "lexer_ok (readChar lx)" by (simp add: advanced_def)
  have step2: "advanced lx 2 (readChar (readChar lx))"
    using advanced_trans [OF step advanced_readChar [OF ok1]] by (simp add: numeral_2_eq_2)
  then have ok2: "lexer_ok (readChar (readChar lx))" by (simp add: advanced_def)
  consider "ch lx = q \<or> ch lx = nul"
    | "ch lx \<noteq> q" "ch lx \<noteq> nul" "ch lx = CHR 0x5C"
    | "ch lx \<noteq> q" "ch lx \<noteq> nul" "ch lx \<noteq> CHR 0x5C" by blast
  then show ?case
  proof cases
    case 1
    with advanced_refl [OF \<open>lexer_ok lx\<close>] show ?thesis by (subst string_loop.simps) auto
  next
    case 2
    with "1.IH" ok2 have "readPosition lx < length (input lx) \<Longrightarrow> \<exists>n. advanced (readChar (readChar lx)) n
        (snd (string_loop q (readChar (readChar lx)) (lit @ [unescape (ch (readChar lx))])))" by auto
    with 2 step2 advanced_trans [OF step2] show ?thesis by (subst string_loop.simps) auto
  next
    case 3
    with "1.IH" ok1 have "readPosition lx < length (input lx) \<Longrightarrow> \<exists>n. advanced (readChar lx) n
        (snd (string_loop q (readChar lx) (lit @ [ch lx])))" by auto
    with 3 step advanced_trans [OF step] show ?thesis by (subst string_loop.simps) auto
  qed
qed

lemma readString_consumes:
  assumes "lexer_ok lx"
  shows "consumes lx (case readString lx of
      (Inl (msg, l, p), lx1) \<Rightarrow> (mk_token ILLEGAL msg l p, lx1) | (Inr t, lx1) \<Rightarrow> (t, lx1))"
proof -
  have step: "advanced lx 1 (readChar lx)" by (rule advanced_readChar [OF assms])
  obtain lit lx1 where loop: "string_loop (ch lx) (readChar lx) [] = (lit, lx1)" by (rule prod.exhaust)
  have "lexer_ok (readChar lx)" using step by (simp add: advanced_def)
  from string_loop_advanced [OF this, of "ch lx" "[]"] loop obtain n where "advanced (readChar lx) n lx1"
    by auto
  from advanced_trans [OF step this] have adv: "advanced lx (1 + n) lx1" .
  then have ok: "lexer_ok lx1" by (simp add: advanced_def)
  have pos: "0 < 1 + n" by simp
  show ?thesis
    using consumesI [OF adv pos] consumes_after [OF adv pos readChar_consumes [OF ok]]
    by (simp add: readString_def loop)
qed

lemma single_token_types: "map_of single_tokens c = Some t \<Longrightarrow> t \<noteq> EOF_TOKEN"
  by (auto simp: single_tokens_def split: if_splits)

lemma single_tokens_sign: "map_of single_tokens c = None \<Longrightarrow> c \<noteq> CHR ''-'' \<and> c \<noteq> CHR ''+''"
  by (auto simp: single_tokens_def split: if_splits)

lemma number_or_duration_consumes:
  assumes "lexer_ok lx" "isdigit (ch lx)"
  shows "consumes lx (let (numTok, lx1) = readNumber lx
                in if tok_type numTok = NUMBER \<and> duration_unit (ch lx1) then
                     readDuration (lx1\<lparr>position := position lx, readPosition := position lx + 1,
                       ch := input lx ! position lx, currentPosInLine := currentPosInLine lx\<rparr>)
                   else (numTok, lx1))"
proof -
  obtain tok lx1 where num: "readNumber lx = (tok, lx1)" by (rule prod.exhaust)
  with readNumber_consumes [OF assms] have c: "consumes lx (tok, lx1)" by simp
  then have same_input: "input lx1 = input lx" by (auto simp: consumes_def advanced_def)
  let ?again = "lx1\<lparr>position := position lx, readPosition := position lx + 1,
                       ch := input lx ! position lx, currentPosInLine := currentPosInLine lx\<rparr>"
  have in_range: "position lx < length (input lx)"
    by (rule ch_nonnul [OF assms(1) isdigit_nonnul [OF assms(2)]])
  then have same: "ch ?again = ch lx" using assms(1) by (simp add: lexer_ok_def char_at_def)
  have place: "advanced lx 0 ?again" using in_range same_input by (simp add: advanced_def lexer_ok_def char_at_def)
  then have "lexer_ok ?again" by (simp add: advanced_def)
  with assms(2) same have "consumes ?again (readDuration ?again)"
    by (intro readDuration_consumes) simp_all
  then obtain n where "0 < n" "advanced ?again n (snd (readDuration ?again))"
      "tok_type (fst (readDuration ?again)) \<noteq> EOF_TOKEN"
    unfolding consumes_def by blast
  then have "consumes lx (readDuration ?again)"
    unfolding consumes_def using advanced_trans [OF place] by force
  with c show ?thesis by (simp add: num)
qed

text \<open>At end of input the lexer stays where it is; anywhere else it consumes and returns a token.\<close>

lemma NextToken_at_cases:
  assumes "lexer_ok lx"
  shows "if ch lx = nul then NextToken_at lx = (mk_token EOF_TOKEN [] (currentLine lx) (currentPosInLine lx), lx)
         else consumes lx (NextToken_at lx)"
proof (cases "ch lx = nul")
  case True
  then show ?thesis by (simp add: NextToken_at_def nul_def single_tokens_def)
next
  case False
  note one = readChar_consumes [OF assms]
  show ?thesis
  proof (cases "ch lx = CHR ''='' \<or> ch lx = CHR ''!'' \<or> ch lx = CHR ''<'' \<or> ch lx = CHR ''>''")
    case True
    with False one operator_consumes [OF assms] show ?thesis by (auto simp: NextToken_at_def Let_def)
  next
    case other: False
    show ?thesis
    proof (cases "map_of single_tokens (ch lx)")
      case (Some t)
      with False other one [OF single_token_types [OF Some]] show ?thesis
        by (auto simp: NextToken_at_def Let_def)
    next
      case None
      with False other one readString_consumes [OF assms] readIdentifier_consumes [OF assms]
        number_or_duration_consumes [OF assms] single_tokens_sign [OF None] show ?thesis
        by (simp add: NextToken_at_def Let_def del: split_paired_All)
    qed
  qed
qed

lemma skip_advanced:
  assumes "lexer_ok lx"
  obtains n where "advanced lx n (skipWhitespace (skipComment (skipWhitespace lx)))"
proof -
  have 1: "advanced lx (length (takeWhile is_space (rest lx))) (skipWhitespace lx)"
    by (rule skipWhitespace_advanced [OF assms])
  then have "lexer_ok (skipWhitespace lx)" by (simp add: advanced_def)
  from skipComment_advanced [OF this] obtain m where
    2: "advanced (skipWhitespace lx) m (skipComment (skipWhitespace lx))" ..
  then have "lexer_ok (skipComment (skipWhitespace lx))" by (simp add: advanced_def)
  from advanced_trans [OF advanced_trans [OF 1 2] skipWhitespace_advanced [OF this]] that show ?thesis by blast
qed

text \<open>
  On a consistent cursor, \<open>NextToken\<close> either returns the end token, and then it stands on a
  character 0 (the end of the input, or a NUL in it), or it returns another token and the cursor,
  still consistent and over the same input, has moved past at least one character of it.
\<close>

lemma NextToken_progress:
  assumes "lexer_ok lx"
  shows "lexer_ok (snd (NextToken lx)) \<and> input (snd (NextToken lx)) = input lx
    \<and> (if tok_type (fst (NextToken lx)) = EOF_TOKEN
       then char_at (input lx) (position (snd (NextToken lx))) = nul \<and> position lx \<le> position (snd (NextToken lx))
       else position lx < length (input lx) \<and> position lx < position (snd (NextToken lx)))"
proof -
  obtain n where skip: "advanced lx n (skipWhitespace (skipComment (skipWhitespace lx)))" (is "advanced lx n ?lx")
    by (rule skip_advanced [OF assms])
  then have ok: "lexer_ok ?lx" and same: "input ?lx = input lx" "position ?lx = position lx + n"
    by (simp_all add: advanced_def)
  show ?thesis
  proof (cases "ch ?lx = nul")
    case True
    with NextToken_at_cases [OF ok] have
      "NextToken lx = (mk_token EOF_TOKEN [] (currentLine ?lx) (currentPosInLine ?lx), ?lx)"
      by (simp add: NextToken_def)
    with True ok same show ?thesis by (simp add: mk_token_def lexer_ok_def)
  next
    case False
    with NextToken_at_cases [OF ok] obtain m where "0 < m" "advanced ?lx m (snd (NextToken lx))"
        "tok_type (fst (NextToken lx)) \<noteq> EOF_TOKEN"
      by (auto simp: NextToken_def consumes_def)
    with same ch_nonnul [OF ok False] show ?thesis by (simp add: advanced_def)
  qed
qed

lemma lexer_ok_mk_lexer: "lexer_ok (mk_lexer s)" "input (mk_lexer s) = s" "position (mk_lexer s) = 0"
  by (simp_all add: mk_lexer_def lexer_ok_def readChar_def char_at_def)

lemma GetAllTokens_returns:
  assumes "lexer_ok lx"
  shows "\<exists>ts eof. GetAllTokens lx = Some (ts @ [eof]) \<and> tok_type eof = EOF_TOKEN
    \<and> (\<forall>t \<in> set ts. tok_type t \<noteq> EOF_TOKEN) \<and> length ts \<le> length (input lx) - position lx"
  using assms
proof (induction "length (input lx) - position lx" arbitrary: lx rule: less_induct)
  case less
  obtain tok lx1 where next_tok: "NextToken lx = (tok, lx1)" by (rule prod.exhaust)
  note progress = NextToken_progress [OF less.prems, unfolded next_tok fst_conv snd_conv]
  show ?case
  proof (cases "tok_type tok = EOF_TOKEN")
    case True
    then have "GetAllTokens lx = Some ([] @ [tok])" by (subst GetAllTokens.simps) (simp add: next_tok)
    with True show ?thesis by fastforce
  next
    case False
    with progress have moved: "position lx < length (input lx)" "position lx < position lx1"
        and same: "input lx1 = input lx" and ok: "lexer_ok lx1" by simp_all
    from moved same have shorter: "length (input lx1) - position lx1 < length (input lx) - position lx" by simp
    from less.hyps [OF this ok] obtain ts eof where rec: "GetAllTokens lx1 = Some (ts @ [eof])"
      "tok_type eof = EOF_TOKEN" "\<forall>t \<in> set ts. tok_type t \<noteq> EOF_TOKEN"
      "length ts \<le> length (input lx1) - position lx1" by blast
    have "GetAllTokens lx = Some ((tok # ts) @ [eof])"
      using False by (subst GetAllTokens.simps) (simp add: next_tok rec(1))
    moreover have "length (tok # ts) \<le> length (input lx) - position lx" using rec(4) shorter by simp
    ultimately show ?thesis
      using rec(2,3) False by (intro exI [of _ "tok # ts"] exI [of _ eof] conjI) auto
  qed
qed

section \<open>Properties\<close>

text \<open>
  \<open>GetAllTokens\<close> terminates on every query string: its loop returns a token list that ends
  with the one end token, has no other, and has at most one token per character besides it.
\<close>

theorem lexing_terminates:
  "\<exists>ts eof. GetAllTokens (mk_lexer s) = Some (ts @ [eof]) \<and> tok_type eof = EOF_TOKEN
    \<and> list_all (\<lambda>t. tok_type t \<noteq> EOF_TOKEN) ts \<and> length ts \<le> length s"
  using GetAllTokens_returns [OF lexer_ok_mk_lexer(1), of s] unfolding list_all_iff
  by (simp only: lexer_ok_mk_lexer diff_zero)

text \<open>
  How a string is written in a query: the quote character and the backslash are escaped, and the
  three control characters \<open>readString\<close> knows are written with their letter.
\<close>

definition escape_char :: "char \<Rightarrow> char \<Rightarrow> string" where
  "escape_char q c =
     (if c = q \<or> c = CHR 0x5C then [CHR 0x5C, c]
      else if c = CHR 0x0A then [CHR 0x5C, CHR ''n''] else if c = CHR 0x09 then [CHR 0x5C, CHR ''t'']
      else if c = CHR 0x0D then [CHR 0x5C, CHR ''r''] else [c])"

definition quote_string :: "char \<Rightarrow> string \<Rightarrow> string" where
  "quote_string q s = q # concat (map (escape_char q) s) @ [q]"

lemma readChar_rest: "lexer_ok lx \<Longrightarrow> rest lx = c # cs \<Longrightarrow>
    lexer_ok (readChar lx) \<and> rest (readChar lx) = cs \<and> ch lx = c
    \<and> (cs \<noteq> [] \<longrightarrow> readPosition lx < length (input lx))
    \<and> currentLine (readChar lx) = currentLine lx"
  using advanced_readChar [of lx] rest_advanced [of lx 1 "readChar lx"] ch_rest [of lx]
  by (auto simp: advanced_def rest_def lexer_ok_def readChar_def)

definition quote_char :: "char \<Rightarrow> bool" where
  "quote_char q \<longleftrightarrow> q = CHR 0x27 \<or> q = CHR 0x22 \<or> q = CHR 0x60"

lemma quote_char_facts:
  "quote_char q \<Longrightarrow> q \<noteq> nul \<and> q \<noteq> CHR 0x5C \<and> unescape q = q \<and> \<not> is_space q \<and> q \<noteq> CHR ''#''"
  by (auto simp: quote_char_def unescape_def nul_def is_space_def)

lemma unescape_backslash: "unescape (CHR 0x5C) = CHR 0x5C"
  by (simp add: unescape_def)

text \<open>One written character takes the loop to the next one.\<close>

lemma string_loop_escaped:
  assumes "lexer_ok lx" "rest lx = CHR 0x5C # e # cs" "q \<noteq> CHR 0x5C"
  shows "string_loop q lx lit = string_loop q (readChar (readChar lx)) (lit @ [unescape e])"
proof -
  from readChar_rest [OF assms(1,2)] have 1: "lexer_ok (readChar lx)" "rest (readChar lx) = e # cs"
    "ch lx = CHR 0x5C" "readPosition lx < length (input lx)" by auto
  from readChar_rest [OF 1(1,2)] have "ch (readChar lx) = e" by blast
  with 1 assms(3) show ?thesis by (subst string_loop.simps) (simp add: nul_def)
qed

lemma string_loop_plain:
  assumes "lexer_ok lx" "rest lx = c # d # cs" "c \<noteq> q" "c \<noteq> nul" "c \<noteq> CHR 0x5C"
  shows "string_loop q lx lit = string_loop q (readChar lx) (lit @ [c])"
  using readChar_rest [OF assms(1,2)] assms(3-5) by (subst string_loop.simps) simp

lemma string_loop_char:
  assumes "lexer_ok lx" "rest lx = escape_char q c @ cs" "cs \<noteq> []" "quote_char q" "c \<noteq> nul"
  obtains lx' where "lexer_ok lx'" "rest lx' = cs" "string_loop q lx lit = string_loop q lx' (lit @ [c])"
proof -
  note q = quote_char_facts [OF assms(4)]
  show ?thesis
  proof (cases "escape_char q c = [c]")
    case True
    then have "c \<noteq> q" "c \<noteq> CHR 0x5C" by (auto simp: escape_char_def split: if_splits)
    moreover from True assms(2,3) obtain d ds where "rest lx = c # d # ds" "cs = d # ds"
      by (cases cs) auto
    ultimately show ?thesis
      using readChar_rest [OF assms(1)] string_loop_plain [OF assms(1)] assms(5) by (intro that) auto
  next
    case False
    then obtain e where e: "escape_char q c = [CHR 0x5C, e]" "unescape e = c"
      using q unescape_backslash by (auto simp: escape_char_def unescape_def split: if_splits)
    with assms(2) have r: "rest lx = CHR 0x5C # e # cs" by simp
    with readChar_rest [OF assms(1)] have "lexer_ok (readChar lx)" "rest (readChar lx) = e # cs" by auto
    from readChar_rest [OF this] string_loop_escaped [OF assms(1) r] q e(2) show ?thesis
      by (intro that) auto
  qed
qed

lemma string_loop_quoted:
  assumes "lexer_ok lx" "rest lx = concat (map (escape_char q) s) @ q # cs" "quote_char q" "nul \<notin> set s"
  obtains lx' where "string_loop q lx lit = (lit @ s, lx')" "lexer_ok lx'" "rest lx' = q # cs"
  using assms(1,2,4)
proof (induction s arbitrary: lx lit thesis)
  case Nil
  then have "ch lx = q" using readChar_rest [of lx q cs] by simp
  with Nil show ?case by (intro Nil.prems(1) [of lx]) (simp_all add: string_loop.simps [of q lx])
next
  case (Cons c s)
  from Cons.prems(3) have "rest lx = escape_char q c @ (concat (map (escape_char q) s) @ q # cs)" by simp
  from string_loop_char [OF Cons.prems(2) this _ assms(3)] Cons.prems(4) obtain lx1 where
    1: "lexer_ok lx1" "rest lx1 = concat (map (escape_char q) s) @ q # cs"
      "string_loop q lx lit = string_loop q lx1 (lit @ [c])" by (auto; blast)
  from Cons.prems(4) have "nul \<notin> set s" by simp
  from Cons.IH [OF _ 1(1,2) this] obtain lx' where
    "string_loop q lx1 (lit @ [c]) = ((lit @ [c]) @ s, lx')" "lexer_ok lx'" "rest lx' = q # cs" by blast
  with 1(3) show ?case by (intro Cons.prems(1)) simp_all
qed

lemma skip_nothing:
  assumes "\<not> is_space (ch lx)" "ch lx \<noteq> CHR ''#''"
  shows "skipWhitespace (skipComment (skipWhitespace lx)) = lx"
proof -
  have "skipWhitespace lx = lx" using assms(1) by (subst skipWhitespace.simps) (auto simp: is_space_def)
  with assms(2) show ?thesis by (simp add: skipComment_def)
qed

lemma NextToken_at_quote:
  assumes "quote_char q" "ch lx = q" "readString lx = (Inr t, lx')"
  shows "NextToken_at lx = (t, lx')"
proof -
  from assms(1) have "map_of single_tokens q = None" "q \<noteq> CHR ''=''" "q \<noteq> CHR ''!''" "q \<noteq> CHR ''<''"
    "q \<noteq> CHR ''>''"
    unfolding quote_char_def by (elim disjE; simp add: single_tokens_def)+
  with assms show ?thesis by (simp add: NextToken_at_def quote_char_def)
qed

text \<open>
  A label value survives being written in a query and lexed: for each of the three quote
  characters, quoting a string without NULs and lexing the result gives one \<open>STRING\<close> token with
  exactly that string at line 1, column 1, and leaves the cursor on whatever followed it.
\<close>

theorem string_literal_roundtrip:
  assumes "quote_char q" "nul \<notin> set s"
  shows "fst (NextToken (mk_lexer (quote_string q s @ cs))) = mk_token STRING s 1 1
    \<and> rest (snd (NextToken (mk_lexer (quote_string q s @ cs)))) = cs"
proof -
  let ?lx = "mk_lexer (quote_string q s @ cs)"
  note q = quote_char_facts [OF assms(1)]
  have ok: "lexer_ok ?lx" by (rule lexer_ok_mk_lexer)
  have r: "rest ?lx = q # (concat (map (escape_char q) s) @ q # cs)"
    by (simp add: rest_def lexer_ok_mk_lexer quote_string_def)
  note 1 = readChar_rest [OF ok r]
  then obtain lx' where loop: "string_loop q (readChar ?lx) [] = (s, lx')" "lexer_ok lx'" "rest lx' = q # cs"
    using string_loop_quoted [OF _ _ assms, of "readChar ?lx" cs "[]"] by auto
  note 2 = readChar_rest [OF loop(2,3)]
  have at: "currentLine ?lx = 1" "currentPosInLine ?lx = 1" by (simp_all add: mk_lexer_def readChar_def)
  have "readString ?lx = (Inr (mk_token STRING s 1 1), readChar lx')"
    using 1 2 q at loop(1) by (simp add: readString_def)
  moreover have "ch ?lx = q" using 1 by blast
  ultimately have "NextToken_at ?lx = (mk_token STRING s 1 1, readChar lx')"
    using NextToken_at_quote [OF assms(1)] by simp
  moreover have "NextToken ?lx = NextToken_at ?lx"
    unfolding NextToken_def using 1 q by (subst skip_nothing) simp_all
  ultimately show ?thesis using 2 by simp
qed

theorem string_literal_roundtrip_witness:
  "quote_char (CHR 0x22) \<and> nul \<notin> set ''a'' \<and>
   fst (NextToken (mk_lexer (quote_string (CHR 0x22) ''a'' @ ''}''))) = mk_token STRING ''a'' 1 1
   \<and> rest (snd (NextToken (mk_lexer (quote_string (CHR 0x22) ''a'' @ ''}'')))) = ''}''"
proof -
  have h: "quote_char (CHR 0x22)" "nul \<notin> set ''a''" by (simp_all add: quote_char_def nul_def)
  from string_literal_roundtrip [OF h] h show ?thesis by blast
qed

lemma slice_from_advanced: "advanced lx n lx' \<Longrightarrow> slice_from (position lx) lx' = take n (rest lx)"
  by (simp add: slice_from_def advanced_def rest_def)

lemma read_while_slice:
  assumes "lexer_ok lx" "\<not> p nul"
  shows "slice_from (position lx) (read_while p lx) = takeWhile p (rest lx)"
    and "rest (read_while p lx) = dropWhile p (rest lx)" and "lexer_ok (read_while p lx)"
    and "currentLine (read_while p lx) = currentLine lx" and "input (read_while p lx) = input lx"
proof -
  note adv = read_while_advanced [of lx p, OF assms]
  then show "slice_from (position lx) (read_while p lx) = takeWhile p (rest lx)"
    using slice_from_advanced [OF conjunct1 [OF adv]] by (simp add: takeWhile_eq_take [symmetric])
  show "rest (read_while p lx) = dropWhile p (rest lx)"
    using rest_advanced [OF conjunct1 [OF adv]] by (simp add: dropWhile_eq_drop)
  show "lexer_ok (read_while p lx)" "currentLine (read_while p lx) = currentLine lx"
    "input (read_while p lx) = input lx"
    using adv by (simp_all add: advanced_def)
qed

lemma takeWhile_span: "list_all p as \<Longrightarrow> \<not> p c \<Longrightarrow> takeWhile p (as @ c # cs) = as \<and> dropWhile p (as @ c # cs) = c # cs"
  by (induction as) auto

lemma skipWhitespace_stop:
  assumes "lexer_ok lx" "rest lx = c # cs" "\<not> is_space c"
  shows "skipWhitespace lx = lx"
  using readChar_rest [OF assms(1,2)] assms(3) by (subst skipWhitespace.simps) (auto simp: is_space_def)

text \<open>A comment line takes the lexer to the start of the next line.\<close>

lemma skip_comment_line:
  assumes "list_all (\<lambda>c. c \<noteq> CHR 0x0A \<and> c \<noteq> nul) a" "\<not> is_space c"
    and lx: "lx = mk_lexer (CHR ''#'' # a @ CHR 0x0A # c # cs)"
  obtains lx' where "skipWhitespace (skipComment (skipWhitespace lx)) = lx'" "lexer_ok lx'"
    "rest lx' = c # cs" "currentLine lx' = 2" "currentPosInLine lx' = 1"
proof -
  let ?p = "\<lambda>c. c \<noteq> CHR 0x0A \<and> c \<noteq> nul"
  have ok: "lexer_ok lx" and r: "rest lx = CHR ''#'' # a @ CHR 0x0A # c # cs" and l: "currentLine lx = 1"
    by (simp_all add: lx rest_def lexer_ok_mk_lexer) (simp add: mk_lexer_def readChar_def)
  have ws: "skipWhitespace lx = lx" by (rule skipWhitespace_stop [OF ok r]) (simp add: is_space_def)
  let ?lx1 = "read_while ?p lx"
  have "list_all ?p (CHR ''#'' # a)" using assms(1) by (simp add: nul_def)
  from takeWhile_span [OF this, of "CHR 0x0A" "c # cs"] have "dropWhile ?p (rest lx) = CHR 0x0A # c # cs"
    unfolding r by simp
  with read_while_slice [of lx ?p] ok l have 1: "lexer_ok ?lx1" "rest ?lx1 = CHR 0x0A # c # cs"
    "currentLine ?lx1 = 1" by simp_all
  have "ch lx = CHR ''#''" using readChar_rest [OF ok r] by blast
  then have comment: "skipComment (skipWhitespace lx) = ?lx1" by (simp add: ws skipComment_def)
  let ?lx2 = "readChar (?lx1\<lparr>currentLine := 2, currentPosInLine := 0\<rparr>)"
  note step = readChar_rest [OF 1(1,2)]
  have 2: "lexer_ok ?lx2" "rest ?lx2 = c # cs" "currentLine ?lx2 = 2" "currentPosInLine ?lx2 = 1"
    using step by (auto simp: readChar_def lexer_ok_def rest_def)
  have "skipWhitespace ?lx1 = skipWhitespace ?lx2"
    using step 1(3) by (subst skipWhitespace.simps) simp
  also have "\<dots> = ?lx2" by (rule skipWhitespace_stop [OF 2(1,2) assms(2)])
  finally show ?thesis using that [OF _ 2] by (simp add: comment)
qed

text \<open>
  \<open>NextToken\<close> skips one comment only: when a comment line is followed by a second one, the
  \<open>#\<close> that opens the second is returned as an \<open>ILLEGAL\<close> token at line 2, column 1, and the text of
  that comment is left to be lexed as if it were part of the query.
\<close>

theorem second_comment_line_is_illegal:
  assumes "list_all (\<lambda>c. c \<noteq> CHR 0x0A \<and> c \<noteq> nul) a"
  shows "fst (NextToken (mk_lexer (CHR ''#'' # a @ CHR 0x0A # CHR ''#'' # b))) = mk_token ILLEGAL ''#'' 2 1
    \<and> rest (snd (NextToken (mk_lexer (CHR ''#'' # a @ CHR 0x0A # CHR ''#'' # b)))) = b"
proof -
  let ?lx = "mk_lexer (CHR ''#'' # a @ CHR 0x0A # CHR ''#'' # b)"
  obtain lx' where 1: "skipWhitespace (skipComment (skipWhitespace ?lx)) = lx'" "lexer_ok lx'"
    "rest lx' = CHR ''#'' # b" "currentLine lx' = 2" "currentPosInLine lx' = 1"
    by (rule skip_comment_line [OF assms _ refl, of "CHR ''#''" b]) (simp add: is_space_def)
  note step = readChar_rest [OF 1(2,3)]
  then have "ch lx' = CHR ''#''" by blast
  then have "NextToken_at lx' = (mk_token ILLEGAL ''#'' 2 1, readChar lx')"
    using 1(4,5) by (simp add: NextToken_at_def single_tokens_def nul_def isalpha_def isdigit_def between_def)
  with step show ?thesis by (simp add: NextToken_def 1(1))
qed

theorem second_comment_line_is_illegal_witness:
  "list_all (\<lambda>c. c \<noteq> CHR 0x0A \<and> c \<noteq> nul) ''x''
   \<and> fst (NextToken (mk_lexer (CHR ''#'' # ''x'' @ CHR 0x0A # CHR ''#'' # ''y''))) = mk_token ILLEGAL ''#'' 2 1"
proof -
  have h: "list_all (\<lambda>c. c \<noteq> CHR 0x0A \<and> c \<noteq> nul) ''x''" by (simp add: nul_def)
  from second_comment_line_is_illegal [OF h] h show ?thesis by blast
qed

text \<open>Digits followed by something that is neither digit nor point: the number and the duration reader.\<close>

lemma readNumber_digits:
  assumes "lexer_ok lx" "rest lx = ds @ u # cs" "list_all isdigit ds" "ds \<noteq> []"
    "\<not> isdigit u" "u \<noteq> CHR ''.''"
  shows "fst (readNumber lx) = mk_token NUMBER ds (currentLine lx) (currentPosInLine lx)"
    and "ch (snd (readNumber lx)) = u" and "input (snd (readNumber lx)) = input lx"
    and "currentLine (snd (readNumber lx)) = currentLine lx"
proof -
  from assms(2,4) have r: "rest lx = hd ds # (tl ds @ u # cs)" by (cases ds) simp_all
  have "ch lx = hd ds" using readChar_rest [OF assms(1) r] by blast
  moreover have "isdigit (hd ds)" using assms(3,4) by (cases ds) simp_all
  ultimately have sign: "ch lx \<noteq> CHR ''-''" "ch lx \<noteq> CHR ''+''" by (auto simp: isdigit_def between_def)
  note digits = read_while_slice [of lx isdigit, OF assms(1) not_nul(1)]
  note span = takeWhile_span [OF assms(3,5), of cs]
  from digits(2) span have "rest (read_while isdigit lx) = u # cs" by (simp add: assms(2))
  from readChar_rest [OF digits(3) this] have u: "ch (read_while isdigit lx) = u" by blast
  have "readNumber lx = (mk_token NUMBER ds (currentLine lx) (currentPosInLine lx), read_while isdigit lx)"
    using sign u assms(6) digits(1) span by (simp add: readNumber_def assms(2))
  then show "fst (readNumber lx) = mk_token NUMBER ds (currentLine lx) (currentPosInLine lx)"
    "ch (snd (readNumber lx)) = u" "input (snd (readNumber lx)) = input lx"
    "currentLine (snd (readNumber lx)) = currentLine lx"
    using u digits(4,5) by simp_all
qed

lemma readDuration_digits:
  assumes "lexer_ok lx" "rest lx = ds @ u # cs" "list_all isdigit ds" "ds \<noteq> []"
    "\<not> isdigit u" "duration_unit u" "\<not> (u = CHR ''m'' \<and> (\<exists>cs'. cs = CHR ''s'' # cs'))"
  shows "fst (readDuration lx) = mk_token DURATION (ds @ [u]) (currentLine lx) (currentPosInLine lx)"
    and "rest (snd (readDuration lx)) = cs"
proof -
  note digits = read_while_slice [of lx isdigit, OF assms(1) not_nul(1)]
  note span = takeWhile_span [OF assms(3,5), of cs]
  from digits(2) span have r: "rest (read_while isdigit lx) = u # cs" by (simp add: assms(2))
  note step = readChar_rest [OF digits(3) r]
  have peek: "peekChar (read_while isdigit lx) = (case cs of [] \<Rightarrow> nul | c # _ \<Rightarrow> c)"
    using ch_rest [of "readChar (read_while isdigit lx)"] step by (simp add: peekChar_def readChar_def)
  have "\<not> (u = CHR ''m'' \<and> peekChar (read_while isdigit lx) = CHR ''s'')"
    using assms(7) by (auto simp: peek nul_def split: list.splits)
  then have "readDuration lx = (mk_token DURATION (ds @ [u]) (currentLine lx) (currentPosInLine lx),
      readChar (read_while isdigit lx))"
    using step digits(1) span assms(4,6) by (auto simp: readDuration_def Let_def assms(2))
  with step show "fst (readDuration lx) = mk_token DURATION (ds @ [u]) (currentLine lx) (currentPosInLine lx)"
    "rest (snd (readDuration lx)) = cs" by simp_all
qed

lemma NextToken_at_digit:
  assumes "isdigit (ch lx)" "ch lx = input lx ! position lx" "fst (readNumber lx) = mk_token NUMBER lit l p"
    "duration_unit (ch (snd (readNumber lx)))"
  shows "NextToken_at lx = readDuration ((snd (readNumber lx))\<lparr>position := position lx,
    readPosition := position lx + 1, ch := ch lx, currentPosInLine := currentPosInLine lx\<rparr>)"
proof -
  have "\<forall>c \<in> set ''=!<>+-*/%^(){}[],:@'' \<union> {CHR 0x27, CHR 0x22, CHR 0x60}. \<not> isdigit c"
    by (simp add: isdigit_def between_def)
  with assms(1) have other: "ch lx \<notin> set ''=!<>+-*/%^(){}[],:@'' \<union> {CHR 0x27, CHR 0x22, CHR 0x60}" by blast
  then have "map_of single_tokens (ch lx) = None" by (simp add: single_tokens_def)
  moreover have "\<not> isalpha (ch lx)" "ch lx \<noteq> CHR ''_''"
    using assms(1) by (auto simp: isdigit_def isalpha_def between_def)
  moreover have "tok_type (fst (readNumber lx)) = NUMBER" by (simp add: assms(3) mk_token_def)
  ultimately show ?thesis
    using other assms(1,2,4) isdigit_nonnul [OF assms(1)]
    by (simp add: NextToken_at_def Let_def case_prod_beta)
qed

text \<open>
  Durations: a non-empty run of digits followed by one of the units \<open>s m h d w y\<close> (and not by
  the two characters \<open>ms\<close>, which are a unit of their own) is lexed as one \<open>DURATION\<close> token of exactly
  these characters, although the number reader has taken the digits first and the cursor is
  set back to the start of the number; the cursor ends right behind the unit.
\<close>

theorem duration_lexed_whole:
  assumes "ds \<noteq> []" "list_all isdigit ds" "duration_unit u"
    and "\<not> (u = CHR ''m'' \<and> (\<exists>cs'. cs = CHR ''s'' # cs'))"
  shows "fst (NextToken (mk_lexer (ds @ u # cs))) = mk_token DURATION (ds @ [u]) 1 1
    \<and> rest (snd (NextToken (mk_lexer (ds @ u # cs)))) = cs"
proof -
  let ?lx = "mk_lexer (ds @ u # cs)"
  have ok: "lexer_ok ?lx" and r: "rest ?lx = ds @ u # cs"
    and at: "currentLine ?lx = 1" "currentPosInLine ?lx = 1"
    by (rule lexer_ok_mk_lexer, simp add: rest_def lexer_ok_mk_lexer, simp_all add: mk_lexer_def readChar_def)
  have u: "\<not> isdigit u" "u \<noteq> CHR ''.''"
    using assms(3) by (auto simp: duration_unit_def isdigit_def between_def)
  from r assms(1) have "rest ?lx = hd ds # (tl ds @ u # cs)" by (cases ds) simp_all
  from readChar_rest [OF ok this] assms(1,2) have digit: "isdigit (ch ?lx)" by (cases ds) auto
  note num = readNumber_digits [OF ok r assms(2,1) u]
  define start where "start = (snd (readNumber ?lx))\<lparr>position := position ?lx,
    readPosition := position ?lx + 1, ch := ch ?lx, currentPosInLine := currentPosInLine ?lx\<rparr>"
  have start: "lexer_ok start" "rest start = ds @ u # cs" "currentLine start = 1" "currentPosInLine start = 1"
    using num(3,4) ok r at unfolding start_def by (simp_all add: lexer_ok_def rest_def)
  have in_range: "position ?lx < length (input ?lx)" by (rule ch_nonnul [OF ok isdigit_nonnul [OF digit]])
  then have ch: "ch ?lx = input ?lx ! position ?lx" using ok by (simp add: lexer_ok_def char_at_def)
  have "NextToken_at ?lx = readDuration start"
    unfolding start_def using num(2) assms(3) by (intro NextToken_at_digit [OF digit ch num(1)]) simp
  moreover have "NextToken ?lx = NextToken_at ?lx"
    unfolding NextToken_def using digit
    by (subst skip_nothing) (auto simp: is_space_def isdigit_def between_def)
  ultimately show ?thesis
    using readDuration_digits [OF start(1,2) assms(2,1) u(1) assms(3,4)] start(3,4) by simp
qed

theorem duration_lexed_whole_witness:
  "fst (NextToken (mk_lexer (''15'' @ CHR ''m'' # '']''))) = mk_token DURATION ''15m'' 1 1"
proof -
  have h: "''15'' \<noteq> []" "list_all isdigit ''15''" "duration_unit (CHR ''m'')"
    "\<not> (CHR ''m'' = CHR ''m'' \<and> (\<exists>cs'. '']'' = CHR ''s'' # cs'))"
    by (simp_all add: isdigit_def between_def duration_unit_def)
  from duration_lexed_whole [OF h] show ?thesis by simp
qed

end
