(* ===== verification/Promql_Parser.thy ===== *)
theory Promql_Parser
  imports Promql_Lexer "HOL-Library.Sublist"
begin

text \<open>
  The PromQL parser (\<open>src/tsdb/prometheus/promql/parser.cpp\<close>, syntax trees of \<open>ast.h\<close>): a Pratt
  parser over two tokens of lookahead that logs errors and returns a null node. A node result is
  an \<open>option\<close>, an exception that leaves the parser is \<open>Thrown\<close>. The methods call each other
  through \<open>parseExpression\<close>; each of them takes that method as an argument here, and the knot is
  tied by a recursion on a step budget that also bounds the loops. Running out of it is \<open>NoFuel\<close>;
  one step per token of the query and one more is always enough. \<open>std::stod\<close> is a parameter.
  The locale \<open>expr_parser\<close> is what the methods need of \<open>parseExpression\<close>.
\<close>

section \<open>Syntax trees\<close>

datatype model_matcher_type = EQUAL | NOT_EQUAL | REGEX_MATCH | REGEX_NO_MATCH

record model_matcher =
  mm_type :: model_matcher_type
  mm_name :: string
  mm_value :: string

record vector_selector =
  vs_name :: string
  labelMatchers :: "model_matcher list"
  originalOffset :: token
  atModifier :: token
  parsedOffsetSeconds :: int64

record binary_modifiers =
  matchingLabels :: "string list"
  on_labels :: bool
  groupSide :: string
  includeLabels :: "string list"
  returnBool :: bool

record subquery =
  sq_range :: token
  sq_resolution :: token
  sq_originalOffset :: token
  sq_atModifier :: token
  parsedRangeSeconds :: int64
  parsedResolutionSeconds :: int64
  sq_parsedOffsetSeconds :: int64

datatype expr =
    NumberLiteral double
  | StringLiteral string
  | VectorSelector vector_selector
  | MatrixSelector vector_selector token int64
  | BinaryExpr token_type expr expr binary_modifiers
  | UnaryExpr token_type expr
  | ParenExpr expr
  | CallExpr string "expr list"
  | AggregateExpr token_type expr "string list" bool "expr option"
  | SubqueryExpr expr subquery

definition no_token :: token where
  "no_token = mk_token ILLEGAL [] 0 0"

definition mk_vector_selector :: "string \<Rightarrow> model_matcher list \<Rightarrow> vector_selector" where
  "mk_vector_selector n ms = \<lparr>vs_name = n, labelMatchers = ms, originalOffset = no_token,
     atModifier = no_token, parsedOffsetSeconds = 0\<rparr>"

definition no_modifiers :: binary_modifiers where
  "no_modifiers = \<lparr>matchingLabels = [], on_labels = False, groupSide = [], includeLabels = [],
     returnBool = False\<rparr>"

definition mk_subquery :: "token \<Rightarrow> token \<Rightarrow> subquery" where
  "mk_subquery rng res = \<lparr>sq_range = rng, sq_resolution = res, sq_originalOffset = no_token,
     sq_atModifier = no_token, parsedRangeSeconds = 0, parsedResolutionSeconds = 0,
     sq_parsedOffsetSeconds = 0\<rparr>"

section \<open>Parser state and outcomes\<close>

record parser =
  lexer_of :: lexer
  currentToken :: token
  peekToken :: token
  parse_errors :: "(string \<times> int \<times> int) list"

datatype 'a outcome = Done 'a parser | Thrown string | NoFuel

fun and_then :: "'a outcome \<Rightarrow> ('a \<Rightarrow> parser \<Rightarrow> 'b outcome) \<Rightarrow> 'b outcome" where
  "and_then (Done a p) f = f a p"
| "and_then (Thrown e) f = Thrown e"
| "and_then NoFuel f = NoFuel"

text \<open>\<open>if (!node) return nullptr;\<close>\<close>

definition node_then :: "'a option outcome \<Rightarrow> ('a \<Rightarrow> parser \<Rightarrow> 'b option outcome) \<Rightarrow> 'b option outcome" where
  "node_then r f = and_then r (\<lambda>x p. case x of None \<Rightarrow> Done None p | Some e \<Rightarrow> f e p)"

abbreviation cur :: "parser \<Rightarrow> token_type" where
  "cur p \<equiv> tok_type (currentToken p)"

abbreviation lit :: "parser \<Rightarrow> string" where
  "lit p \<equiv> tok_literal (currentToken p)"

definition parser_error :: "string \<Rightarrow> token \<Rightarrow> string \<times> int \<times> int" where
  "parser_error msg t =
     (msg @ '' at line '' @ int_string (tok_line t) @ '':'' @ int_string (tok_pos t), tok_line t, tok_pos t)"

definition log_error_at :: "string \<Rightarrow> token \<Rightarrow> parser \<Rightarrow> parser" where
  "log_error_at msg t p = p\<lparr>parse_errors := parse_errors p @ [parser_error msg t]\<rparr>"

definition log_error :: "string \<Rightarrow> parser \<Rightarrow> parser" where
  "log_error msg p = log_error_at msg (currentToken p) p"

definition null_node :: "string \<Rightarrow> parser \<Rightarrow> 'a option outcome" where
  "null_node msg p = Done None (log_error msg p)"

definition mk_parser :: "lexer \<Rightarrow> parser" where
  "mk_parser lx =
     (let (t1, lx1) = NextToken lx; (t2, lx2) = NextToken lx1
      in \<lparr>lexer_of = lx2, currentToken = t1, peekToken = t2, parse_errors = []\<rparr>)"

definition nextToken :: "parser \<Rightarrow> parser" where
  "nextToken p =
     (let (t, lx) = NextToken (lexer_of p)
      in p\<lparr>currentToken := peekToken p, peekToken := t, lexer_of := lx\<rparr>)"

definition peekError :: "token_type \<Rightarrow> parser \<Rightarrow> parser" where
  "peekError t p =
     log_error_at (''Expected next token to be '' @ TokenTypeToString t @ '', got ''
       @ TokenTypeToString (tok_type (peekToken p)) @ '' instead'') (peekToken p) p"

definition expectPeek :: "token_type \<Rightarrow> parser \<Rightarrow> bool \<times> parser" where
  "expectPeek t p = (if tok_type (peekToken p) = t then (True, nextToken p) else (False, peekError t p))"

text \<open>The enumeration \<open>Precedence\<close> by its numeric values, 0 for \<open>LOWEST\<close> to 8 for \<open>CALL_INDEX\<close>.\<close>

definition precedenceMap :: "(token_type \<times> nat) list" where
  "precedenceMap =
     [(OR_TOKEN, 1), (AND_TOKEN, 2), (UNLESS, 2), (EQL, 3), (NEQ, 3), (LTE, 3), (LSS, 3), (GTE, 3),
      (GTR, 3), (EQL_REGEX, 3), (NEQ_REGEX, 3), (ADD, 4), (SUB, 4), (MUL, 5), (DIV, 5), (MOD, 5),
      (POW, 6), (LEFT_PAREN, 8), (LEFT_BRACKET, 8)]"

definition getPrecedence :: "token_type \<Rightarrow> nat" where
  "getPrecedence t = (case map_of precedenceMap t of Some n \<Rightarrow> n | None \<Rightarrow> 0)"

section \<open>Leaves\<close>

definition digits_value :: "string \<Rightarrow> int" where
  "digits_value s = foldl (\<lambda>n c. 10 * n + (of_char c - 48)) 0 s"

text \<open>
  \<open>parseDuration\<close> throws a \<open>runtime_error\<close> with its text, and \<open>std::stoll\<close> throws
  \<open>std::out_of_range\<close>, which no caller catches. A product beyond 64 bits wraps around.
\<close>

datatype duration_error = RuntimeError string | OutOfRange

definition parseDuration :: "string \<Rightarrow> duration_error + int64" where
  "parseDuration s =
     (let digits = takeWhile isdigit s; unit = dropWhile isdigit s; number = digits_value digits
      in if s = [] then Inl (RuntimeError ''Empty duration string'')
         else if digits = [] then Inl (RuntimeError (''Duration string has no number: '' @ s))
         else if 2 ^ 63 \<le> number then Inl OutOfRange
         else if unit = ''ms'' then Inr (of_int (number div 1000))
         else if unit = ''s'' then Inr (of_int number)
         else if unit = ''m'' then Inr (of_int number * 60)
         else if unit = ''h'' then Inr (of_int number * 60 * 60)
         else if unit = ''d'' then Inr (of_int number * 60 * 60 * 24)
         else if unit = ''w'' then Inr (of_int number * 60 * 60 * 24 * 7)
         else if unit = ''y'' then Inr (of_int number * 60 * 60 * 24 * 365)
         else Inl (RuntimeError (''Invalid time unit in duration string: '' @ s)))"

definition out_of_range :: "'a outcome" where
  "out_of_range = Thrown ''stoll''"

definition parseNumberLiteral :: "(string \<Rightarrow> double option) \<Rightarrow> parser \<Rightarrow> expr option outcome" where
  "parseNumberLiteral stod p =
     (case stod (lit p) of
        Some v \<Rightarrow> Done (Some (NumberLiteral v)) (nextToken p)
      | None \<Rightarrow> null_node (''Invalid number: '' @ lit p) p)"

definition parseStringLiteral :: "parser \<Rightarrow> expr option outcome" where
  "parseStringLiteral p = Done (Some (StringLiteral (lit p))) (nextToken p)"

definition matcher_op :: "token_type \<Rightarrow> model_matcher_type option" where
  "matcher_op t =
     map_of [(ASSIGN, EQUAL), (EQL, EQUAL), (NEQ, NOT_EQUAL), (EQL_REGEX, REGEX_MATCH),
       (NEQ_REGEX, REGEX_NO_MATCH)] t"

fun matchers_loop :: "nat \<Rightarrow> model_matcher list \<Rightarrow> parser \<Rightarrow> model_matcher list outcome" where
  "matchers_loop 0 ms p = NoFuel"
| "matchers_loop (Suc n) ms p =
     (if cur p \<noteq> IDENTIFIER then Done [] (log_error ''Expected label name in matcher'' p)
      else
        let p1 = nextToken p in
        case matcher_op (cur p1) of
          None \<Rightarrow> Done [] (log_error ''Expected matcher operator (=, !=, =~, !~) after label name'' p1)
        | Some mt \<Rightarrow>
            let p2 = nextToken p1 in
            if cur p2 \<noteq> STRING then Done [] (log_error ''Expected string value for label matcher'' p2)
            else
              let p3 = nextToken p2;
                  ms' = ms @ [\<lparr>mm_type = mt, mm_name = lit p, mm_value = lit p2\<rparr>]
              in if cur p3 = RIGHT_BRACE then Done ms' (nextToken p3)
                 else if cur p3 \<noteq> COMMA then Done [] (log_error ''Expected ',' or '}' in label matchers'' p3)
                 else matchers_loop n ms' (nextToken p3))"

definition parseLabelMatchers :: "nat \<Rightarrow> parser \<Rightarrow> model_matcher list outcome" where
  "parseLabelMatchers n p =
     (let p1 = nextToken p
      in if cur p1 = RIGHT_BRACE then Done [] (nextToken p1) else matchers_loop n [] p1)"

fun grouping_loop :: "nat \<Rightarrow> string list \<Rightarrow> parser \<Rightarrow> string list outcome" where
  "grouping_loop 0 ls p = NoFuel"
| "grouping_loop (Suc n) ls p =
     (if cur p \<noteq> IDENTIFIER then Done [] (log_error ''Expected label name in grouping'' p)
      else
        let p1 = nextToken p; ls' = ls @ [lit p]
        in if cur p1 = RIGHT_PAREN then Done ls' (nextToken p1)
           else if cur p1 \<noteq> COMMA then Done [] (log_error ''Expected ',' or ')' in grouping labels'' p1)
           else grouping_loop n ls' (nextToken p1))"

definition parseGroupingLabels :: "nat \<Rightarrow> parser \<Rightarrow> string list outcome" where
  "parseGroupingLabels n p =
     (let p1 = nextToken p
      in if cur p1 = RIGHT_PAREN then Done [] (nextToken p1) else grouping_loop n [] p1)"

section \<open>Selectors\<close>

text \<open>
  \<open>parseOptionalAtOffset\<close> and its twin for subqueries are the same text over two node types: what
  they store is the offset token, the parsed offset and the token after \<open>@\<close>.
\<close>

definition in_quotes :: "string \<Rightarrow> string" where
  "in_quotes s = [CHR 0x27] @ s @ [CHR 0x27]"

definition parse_at :: "parser \<Rightarrow> token option outcome" where
  "parse_at p =
     (if cur p = AT then
        let p1 = nextToken p
        in if cur p1 = NUMBER \<or> cur p1 = IDENTIFIER then Done (Some (currentToken p1)) (nextToken p1)
           else Done (Some (currentToken p1))
             (log_error (''Expected timestamp or function after '' @ in_quotes ''@'') p1)
      else Done None p)"

definition parse_offset_at ::
  "parser \<Rightarrow> ((token \<times> int64 option) option \<times> token option) outcome" where
  "parse_offset_at p =
     (if cur p = OFFSET then
        let p1 = nextToken p
        in if cur p1 \<noteq> DURATION
           then Done (None, None) (log_error (''Expected duration after '' @ in_quotes ''offset'') p1)
           else
             (case parseDuration (lit p1) of
                Inl OutOfRange \<Rightarrow> out_of_range
              | Inl (RuntimeError msg) \<Rightarrow> Done (Some (currentToken p1, None), None) (log_error msg p1)
              | Inr secs \<Rightarrow>
                  and_then (parse_at (nextToken p1))
                    (\<lambda>at. Done (Some (currentToken p1, Some secs), at)))
      else and_then (parse_at p) (\<lambda>at. Done (None, at)))"

definition parseOptionalAtOffset :: "vector_selector \<Rightarrow> parser \<Rightarrow> vector_selector outcome" where
  "parseOptionalAtOffset vs p =
     and_then (parse_offset_at p)
       (\<lambda>(off, at).
          let vs1 = (case off of
                None \<Rightarrow> vs
              | Some (t, None) \<Rightarrow> vs\<lparr>originalOffset := t\<rparr>
              | Some (t, Some secs) \<Rightarrow> vs\<lparr>originalOffset := t, parsedOffsetSeconds := secs\<rparr>);
              vs2 = (case at of None \<Rightarrow> vs1 | Some t \<Rightarrow> vs1\<lparr>atModifier := t\<rparr>)
          in Done vs2)"

definition parseOptionalAtOffsetSubquery :: "subquery \<Rightarrow> parser \<Rightarrow> subquery outcome" where
  "parseOptionalAtOffsetSubquery sq p =
     and_then (parse_offset_at p)
       (\<lambda>(off, at).
          let sq1 = (case off of
                None \<Rightarrow> sq
              | Some (t, None) \<Rightarrow> sq\<lparr>sq_originalOffset := t\<rparr>
              | Some (t, Some secs) \<Rightarrow> sq\<lparr>sq_originalOffset := t, sq_parsedOffsetSeconds := secs\<rparr>);
              sq2 = (case at of None \<Rightarrow> sq1 | Some t \<Rightarrow> sq1\<lparr>sq_atModifier := t\<rparr>)
          in Done sq2)"

definition parseVectorSelector :: "nat \<Rightarrow> parser \<Rightarrow> expr option outcome" where
  "parseVectorSelector n p =
     (let (metricName, p1) = (if cur p = IDENTIFIER then (lit p, nextToken p) else ([], p));
          finish = (\<lambda>ms q. and_then (parseOptionalAtOffset (mk_vector_selector metricName ms) q)
             (\<lambda>vs. Done (Some (VectorSelector vs))))
      in if cur p1 = LEFT_BRACE then and_then (parseLabelMatchers n p1) finish
         else if metricName \<noteq> [] then finish [] p1
         else null_node ''Expected label matchers or metric name for vector selector'' p1)"

text \<open>The lookahead of \<open>isSubqueryRange\<close>; the lexer is set back to its position, but not to its line and column.\<close>

definition restore :: "parser \<Rightarrow> parser \<Rightarrow> parser" where
  "restore p q = q\<lparr>lexer_of := SetPosition (position (lexer_of p)) (lexer_of q),
     currentToken := currentToken p, peekToken := peekToken p\<rparr>"

definition isSubqueryRange :: "parser \<Rightarrow> bool \<times> parser" where
  "isSubqueryRange p =
     (if cur p \<noteq> LEFT_BRACKET then (False, p)
      else
        let p1 = nextToken p
        in if cur p1 \<noteq> DURATION then (False, restore p p1)
           else let p2 = nextToken p1 in (cur p2 = COLON, restore p p2))"

definition parseMatrixSelector :: "vector_selector \<Rightarrow> parser \<Rightarrow> expr option outcome" where
  "parseMatrixSelector vs p =
     (if cur p \<noteq> LEFT_BRACKET then null_node ''Expected '[' for matrix selector'' p
      else
        let p1 = nextToken p in
        if cur p1 \<noteq> DURATION then null_node ''Expected duration in matrix selector'' p1
        else
          let p2 = nextToken p1 in
          if cur p2 \<noteq> RIGHT_BRACKET then null_node ''Expected ']' after duration in matrix selector'' p2
          else
            let p3 = nextToken p2; durationToken = currentToken p1 in
            case parseDuration (tok_literal durationToken) of
              Inl OutOfRange \<Rightarrow> out_of_range
            | Inl (RuntimeError msg) \<Rightarrow> Done None (log_error_at msg durationToken p3)
            | Inr secs \<Rightarrow> Done (Some (MatrixSelector vs durationToken secs)) p3)"

definition parse_subquery_durations :: "token \<Rightarrow> token \<Rightarrow> duration_error + int64 \<times> int64" where
  "parse_subquery_durations rng res =
     (case parseDuration (tok_literal rng) of
        Inl e \<Rightarrow> Inl e
      | Inr a \<Rightarrow>
          if tok_type res = ILLEGAL then Inr (a, 0)
          else (case parseDuration (tok_literal res) of Inl e \<Rightarrow> Inl e | Inr b \<Rightarrow> Inr (a, b)))"

definition parseSubqueryExpression :: "expr \<Rightarrow> parser \<Rightarrow> expr option outcome" where
  "parseSubqueryExpression e p =
     (if cur p \<noteq> LEFT_BRACKET then null_node ''Expected '[' for subquery'' p
      else
        let p1 = nextToken p in
        if cur p1 \<noteq> DURATION then null_node ''Expected range duration in subquery'' p1
        else
          let p2 = nextToken p1 in
          if cur p2 \<noteq> COLON then null_node ''Expected ':' after range in subquery'' p2
          else
            let p3 = nextToken p2;
                (resolution, p4) = (if cur p3 = DURATION then (currentToken p3, nextToken p3) else (no_token, p3))
            in if cur p4 \<noteq> RIGHT_BRACKET then null_node ''Expected ']' after subquery'' p4
               else
                 let p5 = nextToken p4; rng = currentToken p1 in
                 case parse_subquery_durations rng resolution of
                   Inl OutOfRange \<Rightarrow> out_of_range
                 | Inl (RuntimeError msg) \<Rightarrow> Done None (log_error_at msg rng p5)
                 | Inr (a, b) \<Rightarrow>
                     and_then (parseOptionalAtOffsetSubquery
                         ((mk_subquery rng resolution)\<lparr>parsedRangeSeconds := a, parsedResolutionSeconds := b\<rparr>) p5)
                       (\<lambda>sq. Done (Some (SubqueryExpr e sq))))"

section \<open>Expressions\<close>

type_synonym expr_method = "nat \<Rightarrow> parser \<Rightarrow> expr option outcome"

fun expression_list_loop :: "expr_method \<Rightarrow> nat \<Rightarrow> expr list \<Rightarrow> parser \<Rightarrow> expr list outcome" where
  "expression_list_loop pe 0 es p = NoFuel"
| "expression_list_loop pe (Suc n) es p =
     (if cur p = COMMA then
        and_then (pe 0 (nextToken p))
          (\<lambda>x p1. case x of None \<Rightarrow> Done [] p1 | Some e \<Rightarrow> expression_list_loop pe n (es @ [e]) p1)
      else Done es p)"

definition parseExpressionList :: "expr_method \<Rightarrow> nat \<Rightarrow> token_type \<Rightarrow> parser \<Rightarrow> expr list outcome" where
  "parseExpressionList pe n endToken p =
     (if cur p = endToken then Done [] p
      else
        and_then (pe 0 p)
          (\<lambda>x p1. case x of None \<Rightarrow> Done [] p1 | Some e \<Rightarrow> expression_list_loop pe n [e] p1))"

definition parseCallExpression :: "expr_method \<Rightarrow> nat \<Rightarrow> string \<Rightarrow> parser \<Rightarrow> expr option outcome" where
  "parseCallExpression pe n funcName p =
     and_then (parseExpressionList pe n RIGHT_PAREN (nextToken p))
       (\<lambda>args p1.
          if cur p1 \<noteq> RIGHT_PAREN then null_node ''Expected ')' to close function call'' p1
          else Done (Some (CallExpr funcName args)) (nextToken p1))"

definition parseIdentifierOrFunctionCall :: "expr_method \<Rightarrow> nat \<Rightarrow> parser \<Rightarrow> expr option outcome" where
  "parseIdentifierOrFunctionCall pe n p =
     (let p1 = nextToken p
      in if cur p1 \<noteq> LEFT_PAREN
         then null_node (''Expected '(' for function call after identifier '' @ lit p) p1
         else parseCallExpression pe n (lit p) p1)"

definition parseParenExpression :: "expr_method \<Rightarrow> parser \<Rightarrow> expr option outcome" where
  "parseParenExpression pe p =
     node_then (pe 0 (nextToken p))
       (\<lambda>e p1.
          if cur p1 \<noteq> RIGHT_PAREN then null_node ''Expected ')' to close parenthesized expression'' p1
          else Done (Some (ParenExpr e)) (nextToken p1))"

definition parseUnaryExpression :: "expr_method \<Rightarrow> parser \<Rightarrow> expr option outcome" where
  "parseUnaryExpression pe p =
     node_then (pe 7 (nextToken p)) (\<lambda>e. Done (Some (UnaryExpr (cur p) e)))"

text \<open>
  The \<open>by\<close> or \<open>without\<close> clause of an aggregation, which may stand before the arguments or behind
  them; the result of the clause is its flag with its labels.
\<close>

definition parse_grouping_clause :: "nat \<Rightarrow> parser \<Rightarrow> (bool \<times> string list) option outcome" where
  "parse_grouping_clause n p =
     (if cur p = BY \<or> cur p = WITHOUT then
        let p1 = nextToken p
        in if cur p1 \<noteq> LEFT_PAREN then null_node ''Expected '(' after by/without'' p1
           else and_then (parseGroupingLabels n p1) (\<lambda>ls. Done (Some (cur p = WITHOUT, ls)))
      else Done (Some (False, [])) p)"

definition takes_parameter :: "token_type \<Rightarrow> bool" where
  "takes_parameter t \<longleftrightarrow> t = TOPK \<or> t = BOTTOMK \<or> t = QUANTILE \<or> t = COUNT_VALUES"

definition parse_agg_parameter :: "expr_method \<Rightarrow> token_type \<Rightarrow> parser \<Rightarrow> expr option option outcome" where
  "parse_agg_parameter pe aggOp p =
     (if takes_parameter aggOp then
        node_then (pe 0 p)
          (\<lambda>param p1.
             if cur p1 \<noteq> COMMA then null_node ''Expected ',' after aggregation parameter'' p1
             else Done (Some (Some param)) (nextToken p1))
      else Done (Some None) p)"

definition parseAggregateExpression :: "expr_method \<Rightarrow> nat \<Rightarrow> parser \<Rightarrow> expr option outcome" where
  "parseAggregateExpression pe n p =
     node_then (parse_grouping_clause n (nextToken p))
       (\<lambda>(without, ls) p1.
          if cur p1 \<noteq> LEFT_PAREN then null_node ''Expected '(' for aggregation expression arguments'' p1
          else
            node_then (parse_agg_parameter pe (cur p) (nextToken p1))
              (\<lambda>param p2.
                 node_then (pe 0 p2)
                   (\<lambda>e p3.
                      if cur p3 \<noteq> RIGHT_PAREN then null_node ''Expected ')' to close aggregation arguments'' p3
                      else
                        let p4 = nextToken p3 in
                        if ls = [] \<and> \<not> without then
                          node_then (parse_grouping_clause n p4)
                            (\<lambda>(without', ls'). Done (Some (AggregateExpr (cur p) e ls' without' param)))
                        else Done (Some (AggregateExpr (cur p) e ls without param)) p4)))"

definition aggregation_ops :: "token_type list" where
  "aggregation_ops =
     [SUM_TOKEN, AVG, COUNT, MIN_TOKEN, MAX_TOKEN, STDDEV, STDVAR, TOPK, BOTTOMK, COUNT_VALUES, QUANTILE]"

definition parsePrefixExpression ::
  "(string \<Rightarrow> double option) \<Rightarrow> expr_method \<Rightarrow> nat \<Rightarrow> parser \<Rightarrow> expr option outcome" where
  "parsePrefixExpression stod pe n p =
     (if cur p = NUMBER then parseNumberLiteral stod p
      else if cur p = STRING then parseStringLiteral p
      else if cur p = IDENTIFIER then
        (if tok_type (peekToken p) = LEFT_PAREN then parseCallExpression pe n (lit p) (nextToken p)
         else parseVectorSelector n p)
      else if cur p = LEFT_BRACE then parseVectorSelector n p
      else if cur p = LEFT_PAREN then parseParenExpression pe p
      else if cur p = SUB \<or> cur p = ADD then parseUnaryExpression pe p
      else if cur p \<in> set aggregation_ops then parseAggregateExpression pe n p
      else null_node (''Unexpected token '' @ lit p @ '' ('' @ in_quotes (TokenTypeToString (cur p))
             @ '') at start of expression'') p)"

definition comparison_op :: "token_type \<Rightarrow> bool" where
  "comparison_op t \<longleftrightarrow> t \<in> set [EQL, NEQ, LTE, LSS, GTE, GTR]"

text \<open>The three optional modifiers behind a binary operator.\<close>

definition parse_bool_modifier :: "token_type \<Rightarrow> parser \<Rightarrow> bool option outcome" where
  "parse_bool_modifier op p =
     (if cur p = BOOL then
        (if comparison_op op then Done (Some True) (nextToken p)
         else null_node (in_quotes ''bool'' @ '' modifier can only be used with comparison operators'') p)
      else Done (Some False) p)"

definition parse_matching :: "nat \<Rightarrow> parser \<Rightarrow> (bool \<times> string list) option outcome" where
  "parse_matching n p =
     (if cur p = ON \<or> cur p = IGNORING then
        let p1 = nextToken p
        in if cur p1 \<noteq> LEFT_PAREN then null_node ''Expected '(' after on/ignoring'' p1
           else and_then (parseGroupingLabels n p1) (\<lambda>ls. Done (Some (cur p = ON, ls)))
      else Done (Some (False, [])) p)"

definition parse_group_side :: "nat \<Rightarrow> parser \<Rightarrow> (string \<times> string list) outcome" where
  "parse_group_side n p =
     (if cur p = GROUP_LEFT \<or> cur p = GROUP_RIGHT then
        let side = (if cur p = GROUP_LEFT then ''left'' else ''right''); p1 = nextToken p
        in if cur p1 = LEFT_PAREN then and_then (parseGroupingLabels n p1) (\<lambda>ls. Done (side, ls))
           else Done (side, []) p1
      else Done ([], []) p)"

definition parse_binary :: "expr_method \<Rightarrow> nat \<Rightarrow> expr \<Rightarrow> parser \<Rightarrow> expr option outcome" where
  "parse_binary pe n left p =
     node_then (parse_bool_modifier (cur p) (nextToken p))
       (\<lambda>ret_bool p1.
          node_then (parse_matching n p1)
            (\<lambda>(on, ls) p2.
               and_then (parse_group_side n p2)
                 (\<lambda>(side, incl) p3.
                    node_then (pe (getPrecedence (cur p)) p3)
                      (\<lambda>right.
                         Done (Some (BinaryExpr (cur p) left right
                           \<lparr>matchingLabels = ls, on_labels = on, groupSide = side, includeLabels = incl,
                            returnBool = ret_bool\<rparr>))))))"

definition parseInfixExpression :: "expr_method \<Rightarrow> nat \<Rightarrow> expr \<Rightarrow> parser \<Rightarrow> expr option outcome" where
  "parseInfixExpression pe n left p =
     (if cur p = LEFT_BRACKET then
        let (sub, p1) = isSubqueryRange p
        in if sub then parseSubqueryExpression left p1
           else (case left of
                   VectorSelector vs \<Rightarrow> parseMatrixSelector vs p1
                 | _ \<Rightarrow> null_node ''Expected vector selector before '[' for matrix selector'' p1)
      else parse_binary pe n left p)"

fun infix_loop :: "expr_method \<Rightarrow> nat \<Rightarrow> nat \<Rightarrow> expr \<Rightarrow> parser \<Rightarrow> expr option outcome" where
  "infix_loop pe 0 prec left p = NoFuel"
| "infix_loop pe (Suc n) prec left p =
     (if cur p \<noteq> EOF_TOKEN \<and> prec < getPrecedence (cur p)
      then node_then (parseInfixExpression pe n left p) (infix_loop pe n prec)
      else Done (Some left) p)"

fun parseExpression :: "(string \<Rightarrow> double option) \<Rightarrow> nat \<Rightarrow> expr_method" where
  "parseExpression stod 0 prec p = NoFuel"
| "parseExpression stod (Suc n) prec p =
     node_then (parsePrefixExpression stod (parseExpression stod n) (Suc n) p)
       (infix_loop (parseExpression stod n) (Suc n) prec)"

definition ParseExpr :: "(string \<Rightarrow> double option) \<Rightarrow> nat \<Rightarrow> parser \<Rightarrow> expr option outcome" where
  "ParseExpr stod n p =
     and_then (parseExpression stod n 0 p)
       (\<lambda>x p1.
          if x = None \<and> parse_errors p1 = [] then Done x (log_error ''No expression found'' p1)
          else Done x p1)"

definition parse_query :: "(string \<Rightarrow> double option) \<Rightarrow> string \<Rightarrow> expr option outcome" where
  "parse_query stod s = ParseExpr stod (length s + 1) (mk_parser (mk_lexer s))"

section \<open>Printing\<close>

text \<open>\<open>String()\<close> of every node; \<open>show_double\<close> is the stream output of a double.\<close>

definition matcher_op_string :: "model_matcher_type \<Rightarrow> string" where
  "matcher_op_string t = (case t of EQUAL \<Rightarrow> ''='' | NOT_EQUAL \<Rightarrow> ''!='' | REGEX_MATCH \<Rightarrow> ''=~'' | REGEX_NO_MATCH \<Rightarrow> ''!~'')"

definition matcher_String :: "model_matcher \<Rightarrow> string" where
  "matcher_String m = mm_name m @ matcher_op_string (mm_type m) @ [CHR 0x22] @ mm_value m @ [CHR 0x22]"

fun join :: "string \<Rightarrow> string list \<Rightarrow> string" where
  "join sep [] = []"
| "join sep [x] = x"
| "join sep (x # xs) = x @ sep @ join sep xs"

definition vector_selector_String :: "vector_selector \<Rightarrow> string" where
  "vector_selector_String vs =
     vs_name vs
     @ (if labelMatchers vs \<noteq> [] then ''{'' @ join '','' (map matcher_String (labelMatchers vs)) @ ''}'' else [])
     @ (if tok_type (originalOffset vs) \<noteq> ILLEGAL then '' offset '' @ tok_literal (originalOffset vs) else [])"

primrec expr_String :: "(double \<Rightarrow> string) \<Rightarrow> expr \<Rightarrow> string" where
  "expr_String show_double (NumberLiteral v) = show_double v"
| "expr_String show_double (StringLiteral s) = [CHR 0x22] @ s @ [CHR 0x22]"
| "expr_String show_double (VectorSelector vs) = vector_selector_String vs"
| "expr_String show_double (MatrixSelector vs rng secs) = vector_selector_String vs @ ''['' @ tok_literal rng @ '']''"
| "expr_String show_double (BinaryExpr op l r m) =
     ''('' @ expr_String show_double l @ '' '' @ TokenTypeToString op @ '' '' @ expr_String show_double r @ '')''"
| "expr_String show_double (UnaryExpr op e) = TokenTypeToString op @ ''('' @ expr_String show_double e @ '')''"
| "expr_String show_double (ParenExpr e) = ''('' @ expr_String show_double e @ '')''"
| "expr_String show_double (CallExpr f es) = f @ ''('' @ join '', '' (map (expr_String show_double) es) @ '')''"
| "expr_String show_double (AggregateExpr op e ls without param) =
     TokenTypeToString op @ '' ''
     @ (case map_option (expr_String show_double) param of
          Some ps \<Rightarrow> ''('' @ ps @ '', '' @ expr_String show_double e @ '')''
        | None \<Rightarrow> ''('' @ expr_String show_double e @ '')'')
     @ (if ls \<noteq> [] then '' '' @ (if without then ''without'' else ''by'') @ '' ('' @ join '', '' ls @ '')'' else [])"
| "expr_String show_double (SubqueryExpr e sq) =
     expr_String show_double e @ ''['' @ tok_literal (sq_range sq)
     @ (if tok_type (sq_resolution sq) \<noteq> ILLEGAL \<and> tok_literal (sq_resolution sq) \<noteq> []
        then '':'' @ tok_literal (sq_resolution sq) else [])
     @ '']''
     @ (if tok_type (sq_originalOffset sq) \<noteq> ILLEGAL \<and> tok_literal (sq_originalOffset sq) \<noteq> []
        then '' offset '' @ tok_literal (sq_originalOffset sq) else [])"

section \<open>Progress\<close>

definition parser_ok :: "parser \<Rightarrow> bool" where
  "parser_ok p \<longleftrightarrow> lexer_ok (lexer_of p)"

definition tokens_left :: "parser \<Rightarrow> nat" where
  "tokens_left p = (if cur p \<noteq> EOF_TOKEN then 1 else 0)
     + (if tok_type (peekToken p) \<noteq> EOF_TOKEN then 1 else 0)
     + (length (input (lexer_of p)) - position (lexer_of p))"

text \<open>What every method does to the parser: it stays well-formed, does not move backwards and
  only adds errors.\<close>

definition forward :: "parser \<Rightarrow> parser \<Rightarrow> bool" where
  "forward p q \<longleftrightarrow> parser_ok q \<and> tokens_left q \<le> tokens_left p \<and> prefix (parse_errors p) (parse_errors q)"

definition consumed :: "parser \<Rightarrow> parser \<Rightarrow> bool" where
  "consumed p q \<longleftrightarrow> forward p q \<and> tokens_left q < tokens_left p"

definition complained :: "parser \<Rightarrow> parser \<Rightarrow> bool" where
  "complained p q \<longleftrightarrow> forward p q \<and> strict_prefix (parse_errors p) (parse_errors q)"

lemma forward_refl: "parser_ok p \<Longrightarrow> forward p p"
  by (simp add: forward_def)

lemma forward_trans: "forward p q \<Longrightarrow> forward q r \<Longrightarrow> forward p r"
  unfolding forward_def by (meson le_trans prefix_order.trans)

lemma consumed_forward: "consumed p q \<Longrightarrow> forward p q"
  by (simp add: consumed_def)

lemma complained_forward: "complained p q \<Longrightarrow> forward p q"
  by (simp add: complained_def)

lemma forward_consumed: "forward p q \<Longrightarrow> consumed q r \<Longrightarrow> consumed p r"
  unfolding consumed_def using forward_trans by (auto simp: forward_def)

lemma consumed_forward_trans: "consumed p q \<Longrightarrow> forward q r \<Longrightarrow> consumed p r"
  unfolding consumed_def using forward_trans by (auto simp: forward_def)

lemma forward_complained: "forward p q \<Longrightarrow> complained q r \<Longrightarrow> complained p r"
  unfolding complained_def using forward_trans
  by (auto simp: forward_def intro: prefix_order.le_less_trans)

lemma forward_ok: "forward p q \<Longrightarrow> parser_ok q"
  by (simp add: forward_def)

lemma forward_left: "forward p q \<Longrightarrow> tokens_left p \<le> k \<Longrightarrow> tokens_left q \<le> k"
  by (simp add: forward_def)

lemma consumed_left: "consumed p q \<Longrightarrow> tokens_left p \<le> k \<Longrightarrow> tokens_left q < k"
  by (simp add: consumed_def)

lemma consumed_nextToken:
  assumes "parser_ok p" "cur p \<noteq> EOF_TOKEN"
  shows "consumed p (nextToken p)"
proof -
  obtain t lx where next_tok: "NextToken (lexer_of p) = (t, lx)" by (rule prod.exhaust)
  from NextToken_progress [of "lexer_of p"] assms(1) have
    "lexer_ok lx \<and> input lx = input (lexer_of p) \<and> (if tok_type t = EOF_TOKEN
       then position (lexer_of p) \<le> position lx
       else position (lexer_of p) < length (input (lexer_of p)) \<and> position (lexer_of p) < position lx)"
    by (auto simp: parser_ok_def next_tok)
  with assms(2) show ?thesis
    by (auto simp: consumed_def forward_def parser_ok_def tokens_left_def nextToken_def next_tok split: if_splits)
qed

lemma complained_log:
  "parser_ok p \<Longrightarrow> complained p (log_error_at msg t p)" "parser_ok p \<Longrightarrow> complained p (log_error msg p)"
  by (auto simp: complained_def forward_def parser_ok_def tokens_left_def log_error_def log_error_at_def
    strict_prefix_def)

text \<open>Postconditions of the two kinds of method.\<close>

fun value_ok :: "parser \<Rightarrow> 'a outcome \<Rightarrow> bool" where
  "value_ok p (Done x q) = forward p q"
| "value_ok p (Thrown e) = True"
| "value_ok p NoFuel = False"

fun node_ok :: "parser \<Rightarrow> 'a option outcome \<Rightarrow> bool" where
  "node_ok p (Done (Some x) q) = forward p q"
| "node_ok p (Done None q) = complained p q"
| "node_ok p (Thrown e) = True"
| "node_ok p NoFuel = False"

text \<open>A node that was built from at least one token.\<close>

fun expr_ok :: "parser \<Rightarrow> 'a option outcome \<Rightarrow> bool" where
  "expr_ok p (Done (Some x) q) = consumed p q"
| "expr_ok p (Done None q) = complained p q"
| "expr_ok p (Thrown e) = True"
| "expr_ok p NoFuel = False"

lemma value_ok_and_then:
  assumes "value_ok p r" "\<And>x q. r = Done x q \<Longrightarrow> forward p q \<Longrightarrow> value_ok p (f x q)"
  shows "value_ok p (and_then r f)"
  using assms by (cases r) auto

lemma expr_ok_and_then:
  assumes "value_ok p r" "\<And>x q. r = Done x q \<Longrightarrow> forward p q \<Longrightarrow> expr_ok p (f x q)"
  shows "expr_ok p (and_then r f)"
  using assms by (cases r) auto

lemma node_ok_and_then:
  assumes "value_ok p r" "\<And>x q. r = Done x q \<Longrightarrow> forward p q \<Longrightarrow> node_ok p (f x q)"
  shows "node_ok p (and_then r f)"
  using assms by (cases r) auto

lemma expr_ok_node_then:
  assumes "node_ok p r" "\<And>x q. r = Done (Some x) q \<Longrightarrow> forward p q \<Longrightarrow> expr_ok p (f x q)"
  shows "expr_ok p (node_then r f)"
  using assms by (cases r) (auto simp: node_then_def split: option.split)

lemma node_ok_node_then:
  assumes "node_ok p r" "\<And>x q. r = Done (Some x) q \<Longrightarrow> forward p q \<Longrightarrow> node_ok p (f x q)"
  shows "node_ok p (node_then r f)"
  using assms by (cases r) (auto simp: node_then_def split: option.split)

lemma expr_ok_weaken: "expr_ok p r \<Longrightarrow> node_ok p r"
  by (cases "(p, r)" rule: node_ok.cases) (auto dest: consumed_forward)

lemma node_ok_value: "node_ok p r \<Longrightarrow> value_ok p r"
  by (cases "(p, r)" rule: node_ok.cases) (auto dest: complained_forward)

lemma value_ok_forward: "forward p q \<Longrightarrow> value_ok q r \<Longrightarrow> value_ok p r"
  by (cases r) (auto intro: forward_trans)

lemma node_ok_forward: "forward p q \<Longrightarrow> node_ok q r \<Longrightarrow> node_ok p r"
  by (cases "(q, r)" rule: node_ok.cases) (auto intro: forward_trans forward_complained)

lemma expr_ok_forward: "forward p q \<Longrightarrow> expr_ok q r \<Longrightarrow> expr_ok p r"
  by (cases "(q, r)" rule: expr_ok.cases) (auto intro: forward_consumed forward_complained)

lemma expr_ok_consumed: "consumed p q \<Longrightarrow> node_ok q r \<Longrightarrow> expr_ok p r"
  by (cases "(q, r)" rule: node_ok.cases)
    (auto intro: consumed_forward_trans forward_complained dest: consumed_forward)

lemma null_node_ok:
  assumes "forward p q"
  shows "expr_ok p (null_node msg q)" "node_ok p (null_node msg q)"
  using forward_complained [OF assms complained_log(2) [OF forward_ok [OF assms]]]
  by (simp_all add: null_node_def)

lemma logged_ok: "forward p q \<Longrightarrow> forward p (log_error msg q)" "forward p q \<Longrightarrow> forward p (log_error_at msg t q)"
  using forward_trans complained_forward complained_log forward_ok by blast+

lemma step_ok: "forward p q \<Longrightarrow> cur q \<noteq> EOF_TOKEN \<Longrightarrow> forward p (nextToken q)"
  using forward_trans consumed_forward consumed_nextToken forward_ok by blast

lemma step_consumed: "forward p q \<Longrightarrow> cur q \<noteq> EOF_TOKEN \<Longrightarrow> consumed p (nextToken q)"
  using forward_consumed consumed_nextToken forward_ok by blast

lemma matcher_op_not_eof: "matcher_op t = Some mt \<Longrightarrow> t \<noteq> EOF_TOKEN"
  by (auto simp: matcher_op_def)

lemma matchers_loop_ok: "\<lbrakk>parser_ok p; tokens_left p < n\<rbrakk> \<Longrightarrow> value_ok p (matchers_loop n ms p)"
proof (induction n ms p rule: matchers_loop.induct)
  case (2 n ms p)
  show ?case
  proof (cases "cur p = IDENTIFIER")
    case True
    note f0 = forward_refl [OF 2(2)]
    have f1: "consumed p (nextToken p)" using True by (intro step_consumed [OF f0]) simp
    show ?thesis
    proof (cases "matcher_op (cur (nextToken p))")
      case None
      with True logged_ok [OF consumed_forward [OF f1]] show ?thesis by simp
    next
      case (Some mt)
      have f2: "forward p (nextToken (nextToken p))"
        by (rule step_ok [OF consumed_forward [OF f1] matcher_op_not_eof [OF Some]])
      show ?thesis
      proof (cases "cur (nextToken (nextToken p)) = STRING")
        case str: True
        let ?p3 = "nextToken (nextToken (nextToken p))"
        have f3: "forward p ?p3" using str by (intro step_ok [OF f2]) simp
        have close: "cur ?p3 = RIGHT_BRACE \<or> cur ?p3 = COMMA \<Longrightarrow> consumed p (nextToken ?p3)"
          by (rule step_consumed [OF f3]) auto
        have "cur ?p3 = COMMA \<Longrightarrow> value_ok p (matchers_loop n (ms @ [\<lparr>mm_type = mt, mm_name = lit p,
            mm_value = lit (nextToken (nextToken p))\<rparr>]) (nextToken ?p3))"
          using close 2(3) True Some str
          by (intro value_ok_forward [OF consumed_forward [OF close] 2(1)])
            (auto simp: consumed_def forward_def)
        with True Some str close logged_ok [OF f3] show ?thesis by (auto simp: Let_def dest: consumed_forward)
      qed (use True Some logged_ok [OF f2] in simp)
    qed
  qed (use logged_ok [OF forward_refl [OF 2(2)]] in simp)
qed simp

lemma grouping_loop_ok: "\<lbrakk>parser_ok p; tokens_left p < n\<rbrakk> \<Longrightarrow> value_ok p (grouping_loop n ls p)"
proof (induction n ls p rule: grouping_loop.induct)
  case (2 n ls p)
  show ?case
  proof (cases "cur p = IDENTIFIER")
    case True
    have f1: "forward p (nextToken p)" using True by (intro step_ok [OF forward_refl [OF 2(2)]]) simp
    have close: "cur (nextToken p) = RIGHT_PAREN \<or> cur (nextToken p) = COMMA \<Longrightarrow>
        consumed p (nextToken (nextToken p))"
      by (rule step_consumed [OF f1]) auto
    have "cur (nextToken p) = COMMA \<Longrightarrow>
        value_ok p (grouping_loop n (ls @ [lit p]) (nextToken (nextToken p)))"
      using close 2(3) True
      by (intro value_ok_forward [OF consumed_forward [OF close] 2(1)]) (auto simp: consumed_def forward_def)
    with True close logged_ok [OF f1] show ?thesis by (auto simp: Let_def dest: consumed_forward)
  qed (use logged_ok [OF forward_refl [OF 2(2)]] in simp)
qed simp

lemma parseLabelMatchers_ok:
  assumes "parser_ok p" "tokens_left p \<le> n" "cur p \<noteq> EOF_TOKEN"
  shows "value_ok (nextToken p) (parseLabelMatchers n p)"
proof -
  have f: "consumed p (nextToken p)" by (rule step_consumed [OF forward_refl [OF assms(1)] assms(3)])
  then have ok: "parser_ok (nextToken p)" by (simp add: consumed_def forward_def)
  have "cur (nextToken p) = RIGHT_BRACE \<Longrightarrow> forward (nextToken p) (nextToken (nextToken p))"
    by (rule step_ok [OF forward_refl [OF ok]]) simp
  with matchers_loop_ok [OF ok consumed_left [OF f assms(2)]] show ?thesis
    by (auto simp: parseLabelMatchers_def Let_def)
qed

lemma parseGroupingLabels_ok:
  assumes "parser_ok p" "tokens_left p \<le> n" "cur p \<noteq> EOF_TOKEN"
  shows "value_ok p (parseGroupingLabels n p)"
proof -
  have f: "consumed p (nextToken p)" by (rule step_consumed [OF forward_refl [OF assms(1)] assms(3)])
  then have ok: "parser_ok (nextToken p)" by (simp add: consumed_def forward_def)
  have "cur (nextToken p) = RIGHT_PAREN \<Longrightarrow> forward p (nextToken (nextToken p))"
    by (rule step_ok [OF consumed_forward [OF f]]) simp
  with value_ok_forward [OF consumed_forward [OF f] grouping_loop_ok [OF ok consumed_left [OF f assms(2)]]]
  show ?thesis by (auto simp: parseGroupingLabels_def Let_def)
qed

lemma parse_at_ok:
  assumes "parser_ok p"
  shows "value_ok p (parse_at p)"
proof -
  have f: "cur p = AT \<Longrightarrow> forward p (nextToken p)" by (rule step_ok [OF forward_refl [OF assms]]) simp
  have "cur p = AT \<Longrightarrow> cur (nextToken p) = NUMBER \<or> cur (nextToken p) = IDENTIFIER \<Longrightarrow>
      forward p (nextToken (nextToken p))" by (rule step_ok [OF f]) auto
  with f logged_ok [OF f] forward_refl [OF assms] show ?thesis by (auto simp: parse_at_def Let_def)
qed

lemma parse_offset_at_ok:
  assumes "parser_ok p"
  shows "value_ok p (parse_offset_at p)"
proof (cases "cur p = OFFSET")
  case True
  then have f: "forward p (nextToken p)" by (intro step_ok [OF forward_refl [OF assms]]) simp
  have f2: "cur (nextToken p) = DURATION \<Longrightarrow> forward p (nextToken (nextToken p))" by (rule step_ok [OF f]) simp
  have at: "cur (nextToken p) = DURATION \<Longrightarrow> value_ok p (parse_at (nextToken (nextToken p)))"
    by (rule value_ok_forward [OF f2 parse_at_ok [OF forward_ok [OF f2]]])
  have "cur (nextToken p) = DURATION \<Longrightarrow> value_ok p (and_then (parse_at (nextToken (nextToken p))) (\<lambda>at. Done (x, at)))" for x
    by (rule value_ok_and_then [OF at]) simp_all
  with True logged_ok [OF f] show ?thesis
    by (auto simp: parse_offset_at_def Let_def out_of_range_def split: sum.split duration_error.split)
next
  case False
  then show ?thesis
    using value_ok_and_then [OF parse_at_ok [OF assms], of "\<lambda>at. Done (None, at)"]
    by (simp add: parse_offset_at_def)
qed

lemma parseOptionalAtOffset_ok:
  assumes "parser_ok p"
  shows "value_ok p (parseOptionalAtOffset vs p)" "value_ok p (parseOptionalAtOffsetSubquery sq p)"
  unfolding parseOptionalAtOffset_def parseOptionalAtOffsetSubquery_def
  by (rule value_ok_and_then [OF parse_offset_at_ok [OF assms]]; simp add: case_prod_beta Let_def)+

lemma parseVectorSelector_ok:
  assumes "parser_ok p" "tokens_left p \<le> n" "cur p = LEFT_BRACE \<or> cur p = IDENTIFIER"
  shows "expr_ok p (parseVectorSelector n p)"
proof -
  define p1 where "p1 = (if cur p = IDENTIFIER then nextToken p else p)"
  define name where "name = (if cur p = IDENTIFIER then lit p else [])"
  let ?finish = "\<lambda>ms q. and_then (parseOptionalAtOffset (mk_vector_selector name ms) q)
      (\<lambda>vs. Done (Some (VectorSelector vs)))"
  note f0 = forward_refl [OF assms(1)]
  have step: "cur p = IDENTIFIER \<Longrightarrow> consumed p (nextToken p)" by (rule step_consumed [OF f0]) simp
  have f1: "forward p p1" using step f0 by (auto simp: p1_def dest: consumed_forward)
  have finish: "node_ok q (?finish ms q)" if "parser_ok q" for ms q
    using that by (intro node_ok_and_then [OF parseOptionalAtOffset_ok(1)]) simp_all
  have unfold: "parseVectorSelector n p =
      (if cur p1 = LEFT_BRACE then and_then (parseLabelMatchers n p1) ?finish
       else if name \<noteq> [] then ?finish [] p1
       else null_node ''Expected label matchers or metric name for vector selector'' p1)"
    using assms(3) by (auto simp: parseVectorSelector_def p1_def name_def Let_def)
  show ?thesis
  proof (cases "cur p1 = LEFT_BRACE")
    case True
    have c: "consumed p (nextToken p1)" using True by (intro step_consumed [OF f1]) simp
    have "value_ok (nextToken p1) (parseLabelMatchers n p1)"
      using True by (intro parseLabelMatchers_ok forward_ok [OF f1] forward_left [OF f1 assms(2)]) simp_all
    then have "node_ok (nextToken p1) (and_then (parseLabelMatchers n p1) ?finish)"
      by (rule node_ok_and_then) (rule node_ok_forward, assumption, rule finish, erule forward_ok)
    with True expr_ok_consumed [OF c] show ?thesis by (simp add: unfold)
  next
    case False
    with assms(3) have "p1 = nextToken p" "cur p = IDENTIFIER" by (auto simp: p1_def)
    with step have "consumed p p1" by simp
    with False expr_ok_consumed [OF this finish [OF forward_ok [OF f1]]] show ?thesis
      by (simp add: unfold null_node_ok(1) [OF f1])
  qed
qed

text \<open>The lookahead leaves the position alone.\<close>

lemma restore_forward:
  assumes "parser_ok p" "forward p q" "input (lexer_of q) = input (lexer_of p)" "parse_errors q = parse_errors p"
  shows "forward p (restore p q)" "cur (restore p q) = cur p"
  using assms by (auto simp: forward_def restore_def parser_ok_def tokens_left_def SetPosition_def lexer_ok_def
      char_at_def)

lemma input_nextToken: "parser_ok p \<Longrightarrow> input (lexer_of (nextToken p)) = input (lexer_of p)"
  "parse_errors (nextToken p) = parse_errors p"
  using NextToken_progress [of "lexer_of p"] by (auto simp: nextToken_def parser_ok_def split: prod.split)

lemma isSubqueryRange_ok:
  assumes "parser_ok p" "cur p = LEFT_BRACKET"
  shows "forward p (snd (isSubqueryRange p))" "cur (snd (isSubqueryRange p)) = LEFT_BRACKET"
proof -
  have f1: "forward p (nextToken p)" using assms by (intro step_ok [OF forward_refl [OF assms(1)]]) simp
  have f2: "cur (nextToken p) = DURATION \<Longrightarrow> forward p (nextToken (nextToken p))" by (rule step_ok [OF f1]) simp
  note r1 = restore_forward [OF assms(1) f1] restore_forward [OF assms(1) f2]
  show "forward p (snd (isSubqueryRange p))" "cur (snd (isSubqueryRange p)) = LEFT_BRACKET"
    using r1 assms input_nextToken(2) input_nextToken(1) [OF assms(1)] input_nextToken(1) [OF forward_ok [OF f1]]
    by (auto simp: isSubqueryRange_def Let_def)
qed

lemma parseMatrixSelector_ok:
  assumes "parser_ok p" "cur p = LEFT_BRACKET"
  shows "expr_ok p (parseMatrixSelector vs p)"
proof -
  let ?p1 = "nextToken p" and ?p2 = "nextToken (nextToken p)" and ?p3 = "nextToken (nextToken (nextToken p))"
  have f1: "forward p ?p1" using assms by (intro step_ok [OF forward_refl [OF assms(1)]]) simp
  have f2: "cur ?p1 = DURATION \<Longrightarrow> forward p ?p2" by (rule step_ok [OF f1]) simp
  have f3: "consumed p ?p3" if "cur ?p1 = DURATION" "cur ?p2 = RIGHT_BRACKET"
    using that by (intro step_consumed [OF f2]) simp_all
  have "complained p (log_error_at msg t ?p3)" if "cur ?p1 = DURATION" "cur ?p2 = RIGHT_BRACKET" for msg t
    using forward_complained complained_log forward_ok consumed_forward f3 [OF that] by blast
  with assms f3 null_node_ok(1) [OF f1] null_node_ok(1) [OF f2] show ?thesis
    by (auto simp: parseMatrixSelector_def Let_def out_of_range_def split: sum.split duration_error.split)
qed

lemma parseSubqueryExpression_ok:
  assumes "parser_ok p" "cur p = LEFT_BRACKET"
  shows "expr_ok p (parseSubqueryExpression e p)"
proof -
  let ?p1 = "nextToken p" and ?p2 = "nextToken (nextToken p)" and ?p3 = "nextToken (nextToken (nextToken p))"
  define p4 where "p4 = (if cur ?p3 = DURATION then nextToken ?p3 else ?p3)"
  define res where "res = (if cur ?p3 = DURATION then currentToken ?p3 else no_token)"
  have f1: "forward p ?p1" using assms by (intro step_ok [OF forward_refl [OF assms(1)]]) simp
  have f2: "cur ?p1 = DURATION \<Longrightarrow> forward p ?p2" by (rule step_ok [OF f1]) simp
  show ?thesis
  proof (cases "cur ?p1 = DURATION \<and> cur ?p2 = COLON")
    case True
    then have f3: "forward p ?p3" by (intro step_ok [OF f2]) simp_all
    have f4: "forward p p4" unfolding p4_def using f3 step_ok [OF f3] by auto
    have unfold: "parseSubqueryExpression e p = (if cur p4 \<noteq> RIGHT_BRACKET then null_node ''Expected ']' after subquery'' p4
       else case parse_subquery_durations (currentToken ?p1) res of
           Inl OutOfRange \<Rightarrow> out_of_range
         | Inl (RuntimeError msg) \<Rightarrow> Done None (log_error_at msg (currentToken ?p1) (nextToken p4))
         | Inr (a, b) \<Rightarrow> and_then (parseOptionalAtOffsetSubquery ((mk_subquery (currentToken ?p1) res)
                  \<lparr>parsedRangeSeconds := a, parsedResolutionSeconds := b\<rparr>) (nextToken p4))
               (\<lambda>sq. Done (Some (SubqueryExpr e sq))))"
    proof (cases "cur ?p3 = DURATION")
      case dur: True
      then have eqs: "p4 = nextToken ?p3" "res = currentToken ?p3" by (simp_all add: p4_def res_def)
      show ?thesis unfolding eqs parseSubqueryExpression_def Let_def using assms True dur by simp
    next
      case dur: False
      then have eqs: "p4 = ?p3" "res = no_token" by (simp_all add: p4_def res_def)
      show ?thesis unfolding eqs parseSubqueryExpression_def Let_def using assms True dur by simp
    qed
    have f5: "consumed p (nextToken p4)" if "cur p4 = RIGHT_BRACKET"
      using that by (intro step_consumed [OF f4]) simp
    have "complained p (log_error_at msg t (nextToken p4))" if "cur p4 = RIGHT_BRACKET" for msg t
      using forward_complained complained_log forward_ok consumed_forward f5 [OF that] by blast
    moreover have "expr_ok p (and_then (parseOptionalAtOffsetSubquery sq (nextToken p4))
        (\<lambda>sq. Done (Some (SubqueryExpr e sq))))" if "cur p4 = RIGHT_BRACKET" for sq
      using f5 [OF that]
      by (intro expr_ok_consumed [OF f5 [OF that]] node_ok_and_then parseOptionalAtOffset_ok(2))
        (auto dest: consumed_forward forward_ok)
    ultimately show ?thesis
      unfolding unfold using null_node_ok(1) [OF f4]
      by (auto simp: out_of_range_def split: sum.split duration_error.split)
  next
    case False
    with assms null_node_ok(1) [OF f1] null_node_ok(1) [OF f2] show ?thesis
      by (auto simp: parseSubqueryExpression_def Let_def)
  qed
qed

section \<open>The recursive method as an interface\<close>

text \<open>What the other methods rely on: with at most \<open>k\<close> tokens left, \<open>parseExpression\<close> returns, and
  it returns a node it has read tokens for, or null with an error logged.\<close>

locale expr_parser =
  fixes pe :: expr_method and k :: nat
  assumes pe_ok: "\<lbrakk>parser_ok p; tokens_left p < k\<rbrakk> \<Longrightarrow> expr_ok p (pe prec p)"
begin

lemma pe_after:
  assumes "consumed p q" "tokens_left p \<le> k"
  shows "expr_ok q (pe prec q)"
  using assms by (intro pe_ok) (auto simp: consumed_def forward_def)

lemma list_loop_ok:
  assumes "parser_ok p" "tokens_left p \<le> k" "tokens_left p < n"
  shows "value_ok p (expression_list_loop pe n es p)"
  using assms
proof (induction n arbitrary: es p)
  case (Suc n)
  show ?case
  proof (cases "cur p = COMMA")
    case True
    have c: "consumed p (nextToken p)" using True by (intro step_consumed [OF forward_refl [OF Suc.prems(1)]]) simp
    have "value_ok p (pe 0 (nextToken p))"
      by (rule value_ok_forward [OF consumed_forward [OF c] node_ok_value [OF expr_ok_weaken [OF pe_after [OF c Suc.prems(2)]]]])
    then have "value_ok p (and_then (pe 0 (nextToken p)) (\<lambda>x p1. case x of None \<Rightarrow> Done [] p1
        | Some e \<Rightarrow> expression_list_loop pe n (es @ [e]) p1))"
    proof (rule value_ok_and_then)
      fix x q
      assume r: "pe 0 (nextToken p) = Done x q" and f: "forward p q"
      show "value_ok p (case x of None \<Rightarrow> Done [] q | Some e \<Rightarrow> expression_list_loop pe n (es @ [e]) q)"
      proof (cases x)
        case (Some e)
        with pe_after [OF c Suc.prems(2), of 0] r have "consumed (nextToken p) q" by simp
        with c have "consumed p q" by (blast intro: consumed_forward_trans consumed_forward)
        then have "value_ok q (expression_list_loop pe n (es @ [e]) q)"
          using Suc.prems(2,3) by (intro Suc.IH) (auto simp: consumed_def forward_def)
        with Some value_ok_forward [OF f] show ?thesis by simp
      qed (use f in simp)
    qed
    with True show ?thesis by simp
  qed (use forward_refl [OF Suc.prems(1)] in simp)
qed simp

lemma parseExpressionList_ok:
  assumes "parser_ok p" "tokens_left p < k" "tokens_left p < n"
  shows "value_ok p (parseExpressionList pe n t p)"
proof (cases "cur p = t")
  case False
  note r = pe_ok [OF assms(1,2), of 0]
  have "value_ok p (and_then (pe 0 p) (\<lambda>x p1. case x of None \<Rightarrow> Done [] p1
      | Some e \<Rightarrow> expression_list_loop pe n [e] p1))"
  proof (rule value_ok_and_then [OF node_ok_value [OF expr_ok_weaken [OF r]]])
    fix x q
    assume "pe 0 p = Done x q" and f: "forward p q"
    have "value_ok q (expression_list_loop pe n [e] q)" for e
      using f assms by (intro list_loop_ok) (auto simp: forward_def)
    then show "value_ok p (case x of None \<Rightarrow> Done [] q | Some e \<Rightarrow> expression_list_loop pe n [e] q)"
      using value_ok_forward [OF f] f by (auto split: option.split)
  qed
  with False show ?thesis by (simp add: parseExpressionList_def)
qed (use forward_refl [OF assms(1)] in \<open>simp add: parseExpressionList_def\<close>)

lemma parseCallExpression_ok:
  assumes "parser_ok p" "tokens_left p \<le> k" "tokens_left p \<le> n" "cur p \<noteq> EOF_TOKEN"
  shows "expr_ok p (parseCallExpression pe n f p)"
proof -
  have c: "consumed p (nextToken p)" by (rule step_consumed [OF forward_refl [OF assms(1)] assms(4)])
  then have ok: "parser_ok (nextToken p)" by (simp add: consumed_def forward_def)
  have "value_ok (nextToken p) (parseExpressionList pe n RIGHT_PAREN (nextToken p))"
    by (rule parseExpressionList_ok [OF ok consumed_left [OF c assms(2)] consumed_left [OF c assms(3)]])
  then have "node_ok (nextToken p) (parseCallExpression pe n f p)"
    unfolding parseCallExpression_def
    by (rule node_ok_and_then) (auto intro: null_node_ok step_ok)
  with expr_ok_consumed [OF c] show ?thesis .
qed

lemma parseParenExpression_ok:
  assumes "parser_ok p" "tokens_left p \<le> k" "cur p \<noteq> EOF_TOKEN"
  shows "expr_ok p (parseParenExpression pe p)"
proof -
  have c: "consumed p (nextToken p)" by (rule step_consumed [OF forward_refl [OF assms(1)] assms(3)])
  have "node_ok (nextToken p) (parseParenExpression pe p)"
    unfolding parseParenExpression_def
    by (rule node_ok_node_then [OF expr_ok_weaken [OF pe_after [OF c assms(2)]]])
      (auto intro: null_node_ok step_ok)
  with expr_ok_consumed [OF c] show ?thesis .
qed

lemma parseUnaryExpression_ok:
  assumes "parser_ok p" "tokens_left p \<le> k" "cur p \<noteq> EOF_TOKEN"
  shows "expr_ok p (parseUnaryExpression pe p)"
proof -
  have c: "consumed p (nextToken p)" by (rule step_consumed [OF forward_refl [OF assms(1)] assms(3)])
  have "node_ok (nextToken p) (parseUnaryExpression pe p)"
    unfolding parseUnaryExpression_def
    by (rule node_ok_node_then [OF expr_ok_weaken [OF pe_after [OF c assms(2)]]]) simp
  with expr_ok_consumed [OF c] show ?thesis .
qed

lemma parse_agg_parameter_ok:
  assumes "parser_ok p" "tokens_left p < k"
  shows "node_ok p (parse_agg_parameter pe t p)"
proof (cases "takes_parameter t")
  case True
  then show ?thesis
    unfolding parse_agg_parameter_def
    by simp (rule node_ok_node_then [OF expr_ok_weaken [OF pe_ok [OF assms]]], auto intro: null_node_ok step_ok)
qed (use forward_refl [OF assms(1)] in \<open>simp add: parse_agg_parameter_def\<close>)

end

lemma parse_grouping_clause_ok:
  assumes "parser_ok p" "tokens_left p \<le> n"
  shows "node_ok p (parse_grouping_clause n p)" "node_ok p (parse_matching n p)" "value_ok p (parse_group_side n p)"
proof -
  note f0 = forward_refl [OF assms(1)]
  have labels: "value_ok p (parseGroupingLabels n (nextToken p))"
    if "cur p \<noteq> EOF_TOKEN" "cur (nextToken p) = LEFT_PAREN"
  proof -
    have f: "forward p (nextToken p)" by (rule step_ok [OF f0 that(1)])
    from value_ok_forward [OF f parseGroupingLabels_ok [OF forward_ok [OF f] forward_left [OF f assms(2)]]] that(2)
    show ?thesis by simp
  qed
  have node: "node_ok p (and_then (parseGroupingLabels n (nextToken p)) (\<lambda>ls. Done (Some (b, ls))))"
    if "cur p \<noteq> EOF_TOKEN" "cur (nextToken p) = LEFT_PAREN" for b
    by (rule node_ok_and_then [OF labels [OF that]]) simp
  have val: "value_ok p (and_then (parseGroupingLabels n (nextToken p)) (\<lambda>ls. Done (s, ls)))"
    if "cur p \<noteq> EOF_TOKEN" "cur (nextToken p) = LEFT_PAREN" for s
    by (rule value_ok_and_then [OF labels [OF that]]) simp
  show "node_ok p (parse_grouping_clause n p)" "node_ok p (parse_matching n p)" "value_ok p (parse_group_side n p)"
    using node val null_node_ok(2) [OF step_ok [OF f0]] step_ok [OF f0] f0
    by (auto simp: parse_grouping_clause_def parse_matching_def parse_group_side_def Let_def)
qed

lemma parse_bool_modifier_ok: "parser_ok p \<Longrightarrow> node_ok p (parse_bool_modifier op p)"
  using forward_refl [of p] by (auto simp: parse_bool_modifier_def intro: null_node_ok step_ok)

context expr_parser
begin

lemma parseAggregateExpression_ok:
  assumes "parser_ok p" "tokens_left p \<le> k" "tokens_left p \<le> n" "cur p \<noteq> EOF_TOKEN"
  shows "expr_ok p (parseAggregateExpression pe n p)"
proof -
  let ?q = "nextToken p"
  have c: "consumed p ?q" by (rule step_consumed [OF forward_refl [OF assms(1)] assms(4)])
  then have ok: "parser_ok ?q" and left: "tokens_left ?q < k" "tokens_left ?q \<le> n"
    using assms by (auto simp: consumed_def forward_def)
  have "node_ok ?q (parseAggregateExpression pe n p)"
    unfolding parseAggregateExpression_def
  proof (rule node_ok_node_then [OF parse_grouping_clause_ok(1) [OF ok left(2)]], clarify)
    fix without ls q1
    assume f1: "forward ?q q1"
    show "node_ok ?q (if cur q1 \<noteq> LEFT_PAREN then null_node ''Expected '(' for aggregation expression arguments'' q1
       else node_then (parse_agg_parameter pe (cur p) (nextToken q1))
         (\<lambda>param p2. node_then (pe 0 p2) (\<lambda>e p3.
            if cur p3 \<noteq> RIGHT_PAREN then null_node ''Expected ')' to close aggregation arguments'' p3
            else let p4 = nextToken p3 in
              if ls = [] \<and> \<not> without then node_then (parse_grouping_clause n p4)
                 (\<lambda>(without', ls'). Done (Some (AggregateExpr (cur p) e ls' without' param)))
              else Done (Some (AggregateExpr (cur p) e ls without param)) p4)))"
    proof (cases "cur q1 = LEFT_PAREN")
      case True
      then have f2: "forward ?q (nextToken q1)" by (intro step_ok [OF f1]) simp
      have tail: "node_ok ?q (if cur q3 \<noteq> RIGHT_PAREN then null_node msg q3
            else let p4 = nextToken q3 in
              if ls = [] \<and> \<not> without then node_then (parse_grouping_clause n p4)
                 (\<lambda>(without', ls'). Done (Some (AggregateExpr (cur p) e ls' without' param)))
              else Done (Some (AggregateExpr (cur p) e ls without param)) p4)"
        if "forward ?q q3" for q3 e param msg
      proof -
        have f4: "cur q3 = RIGHT_PAREN \<Longrightarrow> forward ?q (nextToken q3)" by (rule step_ok [OF that]) simp
        have "cur q3 = RIGHT_PAREN \<Longrightarrow> node_ok ?q (node_then (parse_grouping_clause n (nextToken q3))
            (\<lambda>(without', ls'). Done (Some (AggregateExpr (cur p) e ls' without' param))))"
          by (rule node_ok_node_then [OF node_ok_forward [OF f4 parse_grouping_clause_ok(1)
                [OF forward_ok [OF f4] forward_left [OF f4 left(2)]]]]) auto
        with f4 null_node_ok(2) [OF that] show ?thesis by (auto simp: Let_def)
      qed
      have "node_ok ?q (parse_agg_parameter pe (cur p) (nextToken q1))"
        using left(1) f2 by (intro node_ok_forward [OF f2 parse_agg_parameter_ok]) (auto simp: forward_def)
      then have "node_ok ?q (node_then (parse_agg_parameter pe (cur p) (nextToken q1))
         (\<lambda>param p2. node_then (pe 0 p2) (\<lambda>e p3.
            if cur p3 \<noteq> RIGHT_PAREN then null_node ''Expected ')' to close aggregation arguments'' p3
            else let p4 = nextToken p3 in
              if ls = [] \<and> \<not> without then node_then (parse_grouping_clause n p4)
                 (\<lambda>(without', ls'). Done (Some (AggregateExpr (cur p) e ls' without' param)))
              else Done (Some (AggregateExpr (cur p) e ls without param)) p4)))"
      proof (rule node_ok_node_then)
        fix param q2
        assume f3: "forward ?q q2"
        have "node_ok ?q (pe 0 q2)"
          using left(1) f3 by (intro node_ok_forward [OF f3 expr_ok_weaken [OF pe_ok]]) (auto simp: forward_def)
        from node_ok_node_then [OF this tail] show "node_ok ?q (node_then (pe 0 q2) (\<lambda>e p3.
            if cur p3 \<noteq> RIGHT_PAREN then null_node ''Expected ')' to close aggregation arguments'' p3
            else let p4 = nextToken p3 in
              if ls = [] \<and> \<not> without then node_then (parse_grouping_clause n p4)
                 (\<lambda>(without', ls'). Done (Some (AggregateExpr (cur p) e ls' without' param)))
              else Done (Some (AggregateExpr (cur p) e ls without param)) p4))" .
      qed
      with True show ?thesis by simp
    qed (use null_node_ok(2) [OF f1] in simp)
  qed
  with expr_ok_consumed [OF c] show ?thesis .
qed

lemma parsePrefixExpression_ok:
  assumes "parser_ok p" "tokens_left p \<le> k" "tokens_left p \<le> n"
  shows "expr_ok p (parsePrefixExpression stod pe n p)"
proof -
  note f0 = forward_refl [OF assms(1)]
  have call: "expr_ok p (parseCallExpression pe n (lit p) (nextToken p))"
    if "cur p = IDENTIFIER" "tok_type (peekToken p) = LEFT_PAREN"
  proof -
    have c: "consumed p (nextToken p)" using that by (intro step_consumed [OF f0]) simp
    have "cur (nextToken p) = LEFT_PAREN" using that by (simp add: nextToken_def split: prod.split)
    then show ?thesis
      using c assms by (intro expr_ok_forward [OF consumed_forward [OF c] parseCallExpression_ok])
        (auto simp: consumed_def forward_def)
  qed
  have agg: "cur p \<in> set aggregation_ops \<Longrightarrow> cur p \<noteq> EOF_TOKEN" by (auto simp: aggregation_ops_def)
  have num: "cur p = NUMBER \<Longrightarrow> expr_ok p (parseNumberLiteral stod p)"
    using step_consumed [OF f0]
    by (simp add: parseNumberLiteral_def null_node_ok(1) [OF f0] split: option.split)
  have str: "cur p = STRING \<Longrightarrow> expr_ok p (parseStringLiteral p)"
    using step_consumed [OF f0] by (simp add: parseStringLiteral_def)
  show ?thesis
    unfolding parsePrefixExpression_def
    using call num str agg parseVectorSelector_ok [OF assms(1,3)]
      parseParenExpression_ok [OF assms(1,2)] parseUnaryExpression_ok [OF assms(1,2)]
      parseAggregateExpression_ok [OF assms(1-3)]
    by (auto simp: null_node_ok(1) [OF f0] split: if_split)
qed

lemma parse_binary_ok:
  assumes "parser_ok p" "tokens_left p \<le> k" "tokens_left p \<le> n" "cur p \<noteq> EOF_TOKEN"
  shows "expr_ok p (parse_binary pe n left p)"
proof -
  let ?q = "nextToken p"
  have c: "consumed p ?q" by (rule step_consumed [OF forward_refl [OF assms(1)] assms(4)])
  then have ok: "parser_ok ?q" and left: "tokens_left ?q < k" "tokens_left ?q \<le> n"
    using assms by (auto simp: consumed_def forward_def)
  have "node_ok ?q (parse_binary pe n left p)"
    unfolding parse_binary_def
  proof (rule node_ok_node_then [OF parse_bool_modifier_ok [OF ok]])
    fix b q1
    assume f1: "forward ?q q1"
    note m = node_ok_forward [OF f1 parse_grouping_clause_ok(2) [OF forward_ok [OF f1] forward_left [OF f1 left(2)]]]
    show "node_ok ?q (node_then (parse_matching n q1)
            (\<lambda>(on, ls) p2. and_then (parse_group_side n p2)
                 (\<lambda>(side, incl) p3. node_then (pe (getPrecedence (cur p)) p3)
                      (\<lambda>right. Done (Some (BinaryExpr (cur p) left right
                           \<lparr>matchingLabels = ls, on_labels = on, groupSide = side, includeLabels = incl,
                            returnBool = b\<rparr>))))))"
    proof (rule node_ok_node_then [OF m], clarify)
      fix on ls q2
      assume f2: "forward ?q q2"
      note g = value_ok_forward [OF f2 parse_grouping_clause_ok(3) [OF forward_ok [OF f2] forward_left [OF f2 left(2)]]]
      show "node_ok ?q (and_then (parse_group_side n q2)
                 (\<lambda>(side, incl) p3. node_then (pe (getPrecedence (cur p)) p3)
                      (\<lambda>right. Done (Some (BinaryExpr (cur p) left right
                           \<lparr>matchingLabels = ls, on_labels = on, groupSide = side, includeLabels = incl,
                            returnBool = b\<rparr>)))))"
      proof (rule node_ok_and_then [OF g], clarify)
        fix side incl q3
        assume f3: "forward ?q q3"
        have "node_ok ?q (pe (getPrecedence (cur p)) q3)"
          using left(1) f3 by (intro node_ok_forward [OF f3 expr_ok_weaken [OF pe_ok]]) (auto simp: forward_def)
        then show "node_ok ?q (node_then (pe (getPrecedence (cur p)) q3)
                      (\<lambda>right. Done (Some (BinaryExpr (cur p) left right
                           \<lparr>matchingLabels = ls, on_labels = on, groupSide = side, includeLabels = incl,
                            returnBool = b\<rparr>))))"
          by (rule node_ok_node_then) simp
      qed
    qed
  qed
  with expr_ok_consumed [OF c] show ?thesis .
qed

lemma parseInfixExpression_ok:
  assumes "parser_ok p" "tokens_left p \<le> k" "tokens_left p \<le> n" "cur p \<noteq> EOF_TOKEN"
  shows "expr_ok p (parseInfixExpression pe n left p)"
proof (cases "cur p = LEFT_BRACKET")
  case True
  obtain sub q where q: "isSubqueryRange p = (sub, q)" by (rule prod.exhaust)
  with isSubqueryRange_ok [OF assms(1) True] have f: "forward p q" and bracket: "cur q = LEFT_BRACKET" by simp_all
  note sub = expr_ok_forward [OF f parseSubqueryExpression_ok [OF forward_ok [OF f] bracket]]
  note matrix = expr_ok_forward [OF f parseMatrixSelector_ok [OF forward_ok [OF f] bracket]]
  from True q sub matrix show ?thesis
    by (simp add: parseInfixExpression_def null_node_ok(1) [OF f] split: expr.split)
qed (use parse_binary_ok [OF assms] in \<open>simp add: parseInfixExpression_def\<close>)

lemma infix_loop_ok:
  "\<lbrakk>parser_ok p; tokens_left p \<le> k; tokens_left p < n\<rbrakk> \<Longrightarrow> node_ok p (infix_loop pe n prec left p)"
proof (induction n arbitrary: left p)
  case (Suc n)
  show ?case
  proof (cases "cur p \<noteq> EOF_TOKEN \<and> prec < getPrecedence (cur p)")
    case True
    have r: "expr_ok p (parseInfixExpression pe n left p)"
      using Suc.prems True by (intro parseInfixExpression_ok) simp_all
    have "node_ok p (node_then (parseInfixExpression pe n left p) (infix_loop pe n prec))"
    proof (rule node_ok_node_then [OF expr_ok_weaken [OF r]])
      fix e q
      assume "parseInfixExpression pe n left p = Done (Some e) q" and f: "forward p q"
      with r have "consumed p q" by simp
      with Suc.prems show "node_ok p (infix_loop pe n prec e q)"
        by (intro node_ok_forward [OF f Suc.IH]) (auto simp: consumed_def forward_def)
    qed
    with True show ?thesis by simp
  qed (use forward_refl [OF Suc.prems(1)] in auto)
qed simp

end

lemma parseExpression_ok: "expr_parser (parseExpression stod n) n"
proof (induction n)
  case (Suc n)
  show ?case
  proof
    fix p prec
    assume ok: "parser_ok p" and left: "tokens_left p < Suc n"
    have r: "expr_ok p (parsePrefixExpression stod (parseExpression stod n) (Suc n) p)"
      using left by (intro expr_parser.parsePrefixExpression_ok [OF Suc.IH ok]) simp_all
    have "expr_ok p (node_then (parsePrefixExpression stod (parseExpression stod n) (Suc n) p)
        (infix_loop (parseExpression stod n) (Suc n) prec))"
    proof (rule expr_ok_node_then [OF expr_ok_weaken [OF r]])
      fix e q
      assume "parsePrefixExpression stod (parseExpression stod n) (Suc n) p = Done (Some e) q"
      with r have c: "consumed p q" by simp
      then show "expr_ok p (infix_loop (parseExpression stod n) (Suc n) prec e q)"
        using left
        by (intro expr_ok_consumed [OF c expr_parser.infix_loop_ok [OF Suc.IH]])
          (auto simp: consumed_def forward_def simp del: infix_loop.simps)
    qed
    then show "expr_ok p (parseExpression stod (Suc n) prec p)" by simp
  qed
qed (unfold_locales, simp)

interpretation recursive: expr_parser "parseExpression stod n" n for stod n
  by (rule parseExpression_ok)

lemma mk_parser_ok: "parser_ok (mk_parser (mk_lexer s))" "tokens_left (mk_parser (mk_lexer s)) \<le> length s"
  "parse_errors (mk_parser (mk_lexer s)) = []"
proof -
  obtain t1 lx1 where 1: "NextToken (mk_lexer s) = (t1, lx1)" by (rule prod.exhaust)
  obtain t2 lx2 where 2: "NextToken lx1 = (t2, lx2)" by (rule prod.exhaust)
  note p1 = NextToken_progress [OF lexer_ok_mk_lexer(1), of s, unfolded 1 fst_conv snd_conv lexer_ok_mk_lexer]
  then have "lexer_ok lx1" by blast
  note p2 = NextToken_progress [OF this, unfolded 2 fst_conv snd_conv]
  have unfold: "mk_parser (mk_lexer s) = \<lparr>lexer_of = lx2, currentToken = t1, peekToken = t2, parse_errors = []\<rparr>"
    by (simp add: mk_parser_def 1 2)
  show "parser_ok (mk_parser (mk_lexer s))" "parse_errors (mk_parser (mk_lexer s)) = []"
    using p2 by (simp_all add: unfold parser_ok_def)
  have input: "input lx2 = s" "position lx1 \<le> position lx2" using p1 p2 by (auto split: if_splits)
  have 3: "tok_type t1 \<noteq> EOF_TOKEN \<longrightarrow> Suc 0 \<le> length s \<and> Suc 0 \<le> position lx1"
    using p1 by (auto simp: Suc_le_eq)
  have 4: "tok_type t2 \<noteq> EOF_TOKEN \<longrightarrow> position lx1 < length s \<and> position lx1 < position lx2"
    using p1 p2 by auto
  show "tokens_left (mk_parser (mk_lexer s)) \<le> length s"
    unfolding unfold tokens_left_def using input 3 4
    by (cases "tok_type t1 = EOF_TOKEN"; cases "tok_type t2 = EOF_TOKEN"; simp del: length_greater_0_conv;
        linarith?)
qed

lemma parse_query_ok: "expr_ok (mk_parser (mk_lexer s)) (parse_query stod s)"
proof -
  let ?p = "mk_parser (mk_lexer s)"
  have r: "expr_ok ?p (parseExpression stod (length s + 1) 0 ?p)"
    using mk_parser_ok by (intro recursive.pe_ok) (auto simp: le_imp_less_Suc)
  have "parse_errors q \<noteq> []" if "complained ?p q" for q
    using that by (auto simp: complained_def mk_parser_ok)
  with r show ?thesis
    unfolding parse_query_def ParseExpr_def
    by (cases "(?p, parseExpression stod (length s + 1) 0 ?p)" rule: expr_ok.cases) auto
qed

section \<open>Termination and error reporting\<close>

text \<open>
  C37: Parsing returns on every query string: the recursion through \<open>parseExpression\<close> and all
  its loops end within one step per character of the query, for whatever \<open>std::stod\<close> accepts.
\<close>

theorem parsing_terminates: "parse_query stod s \<noteq> NoFuel"
  using parse_query_ok [of s stod] by auto

text \<open>
  A null syntax tree is never silent: whenever \<open>ParseExpr\<close> returns a null node, the list of
  errors is not empty, so a caller that checks \<open>Errors()\<close> sees the failure.
\<close>

theorem null_tree_reports_error:
  assumes "parse_query stod s = Done None p"
  shows "parse_errors p \<noteq> []"
  using parse_query_ok [of s stod] assms by (auto simp: complained_def mk_parser_ok)

theorem null_tree_reports_error_witness:
  "\<exists>p. parse_query (\<lambda>s. None) '')'' = Done None p \<and> parse_errors p \<noteq> []"
proof -
  have "case parse_query (\<lambda>s. None) '')'' of Done None p \<Rightarrow> True | _ \<Rightarrow> False" by code_simp
  then obtain p where p: "parse_query (\<lambda>s. None) '')'' = Done None p"
    by (cases "parse_query (\<lambda>s. None) '')''") (auto split: option.splits)
  from null_tree_reports_error [OF p] p show ?thesis by blast
qed

end
