(* ===== verification/Promql_Grammar.thy ===== *)
theory Promql_Grammar
  imports Promql_Parser
begin

text \<open>
  The grammar of PromQL expressions as the parser understands it, and the theorem that the parser
  reads every expression of the grammar. Tokens count by kind (type and text, without their place
  in the query). \<open>primary\<close> derives what \<open>parsePrefixExpression\<close> reads, \<open>level prec\<close> what
  \<open>parseExpression prec\<close> reads. The binary operators stand on the levels of the documented table of
  precedences and bind to the left. The power operator, which the documents bind to the right and
  the parser to the left, is not an operator of the grammar, and neither are \<open>=~\<close> and \<open>!~\<close> between
  expressions, which the parser's table has and the documents do not. The parser's lookahead for subqueries sets the lexer back without its line and
  column, so trees are compared without token places.
\<close>

section \<open>Lexing depends on the cursor only\<close>

type_synonym kind = "token_type \<times> string"

definition kind :: "token \<Rightarrow> kind" where
  "kind t = (tok_type t, if tok_type t = ILLEGAL then [] else tok_literal t)"

definition cursor :: "lexer \<Rightarrow> string \<times> nat" where
  "cursor lx = (input lx, position lx)"

text \<open>Two readers' results with the same kind of token and the same cursor.\<close>

definition same_read :: "token \<times> lexer \<Rightarrow> token \<times> lexer \<Rightarrow> bool" where
  "same_read r s \<longleftrightarrow> kind (fst r) = kind (fst s) \<and> cursor (snd r) = cursor (snd s)
     \<and> lexer_ok (snd r) \<and> lexer_ok (snd s)"

lemma same_readI:
  "\<lbrakk>t = t'; t \<noteq> ILLEGAL \<Longrightarrow> x = x'; cursor a = cursor b; lexer_ok a; lexer_ok b\<rbrakk> \<Longrightarrow>
     same_read (mk_token t x l p, a) (mk_token t' x' l' p', b)"
  by (simp add: same_read_def kind_def mk_token_def)

lemma cursor_advanced: "\<lbrakk>advanced a n a'; advanced b n b'; cursor a = cursor b\<rbrakk> \<Longrightarrow> cursor a' = cursor b'"
  by (simp add: cursor_def advanced_def)

lemma cursor_chars:
  assumes "lexer_ok a" "lexer_ok b" "cursor a = cursor b"
  shows "ch a = ch b" "peekChar a = peekChar b" "rest a = rest b" "input a = input b" "position a = position b"
    "readPosition a = readPosition b"
  using assms by (auto simp: cursor_def lexer_ok_def peekChar_def rest_def)

lemma cursor_readChar:
  assumes "lexer_ok a" "lexer_ok b" "cursor a = cursor b"
  shows "cursor (readChar a) = cursor (readChar b)" "lexer_ok (readChar a)" "lexer_ok (readChar b)"
  using cursor_advanced [OF advanced_readChar [OF assms(1)] advanced_readChar [OF assms(2)] assms(3)]
    advanced_readChar assms by (auto simp: advanced_def)

lemma cursor_read_while:
  assumes "lexer_ok a" "lexer_ok b" "cursor a = cursor b" "\<not> p nul"
  shows "cursor (read_while p a) = cursor (read_while p b)" "lexer_ok (read_while p a)" "lexer_ok (read_while p b)"
proof -
  note adv = conjunct1 [OF read_while_advanced [of _ p, OF _ assms(4)]]
  from cursor_advanced [OF adv [OF assms(1)]] adv [OF assms(2)] assms(3) cursor_chars(3) [OF assms(1-3)]
  show "cursor (read_while p a) = cursor (read_while p b)" by simp
  show "lexer_ok (read_while p a)" "lexer_ok (read_while p b)"
    using adv assms by (auto simp: advanced_def)
qed

lemma cursor_skip:
  assumes "lexer_ok a" "lexer_ok b" "cursor a = cursor b"
  shows "cursor (skipWhitespace a) = cursor (skipWhitespace b)" "lexer_ok (skipWhitespace a)" "lexer_ok (skipWhitespace b)"
    "cursor (skipComment a) = cursor (skipComment b)" "lexer_ok (skipComment a)" "lexer_ok (skipComment b)"
proof -
  note adv = skipWhitespace_advanced
  from cursor_advanced [OF adv [OF assms(1)]] adv [OF assms(2)] assms(3) cursor_chars(3) [OF assms]
  show "cursor (skipWhitespace a) = cursor (skipWhitespace b)" by simp
  show "lexer_ok (skipWhitespace a)" "lexer_ok (skipWhitespace b)" using adv assms by (auto simp: advanced_def)
  show "cursor (skipComment a) = cursor (skipComment b)" "lexer_ok (skipComment a)" "lexer_ok (skipComment b)"
    using cursor_read_while [OF assms, of "\<lambda>c. c \<noteq> CHR 0x0A \<and> c \<noteq> nul"] assms cursor_chars(1) [OF assms]
    by (auto simp: skipComment_def)
qed

lemma cursor_slice:
  "\<lbrakk>cursor a = cursor b; cursor a' = cursor b'\<rbrakk> \<Longrightarrow> slice_from (position a) a' = slice_from (position b) b'"
  by (simp add: cursor_def slice_from_def)

lemma cursor_string_loop:
  "\<lbrakk>lexer_ok a; lexer_ok b; cursor a = cursor b\<rbrakk> \<Longrightarrow>
     fst (string_loop q a acc) = fst (string_loop q b acc)
     \<and> cursor (snd (string_loop q a acc)) = cursor (snd (string_loop q b acc))
     \<and> lexer_ok (snd (string_loop q a acc)) \<and> lexer_ok (snd (string_loop q b acc))"
proof (induction q a acc arbitrary: b rule: string_loop.induct)
  case (1 q a acc)
  note same = cursor_chars [OF 1(2-4)]
  note c1 = cursor_readChar [OF 1(2-4)]
  note c2 = cursor_readChar [OF c1(2,3,1)]
  have esc: "unescape (ch (readChar a)) = unescape (ch (readChar b))" using cursor_chars(1) [OF c1(2,3,1)] by simp
  show ?case
  proof (cases "ch a = q \<or> ch a = nul")
    case True
    with same 1(2-4) show ?thesis by (simp add: string_loop.simps [of q a] string_loop.simps [of q b])
  next
    case False
    show ?thesis
    proof (cases "ch a = CHR 0x5C")
      case bs: True
      let ?acc = "acc @ [unescape (ch (readChar a))]" and ?a = "readChar (readChar a)" and ?b = "readChar (readChar b)"
      have "readPosition a < length (input a) \<Longrightarrow>
          fst (string_loop q ?a ?acc) = fst (string_loop q ?b ?acc)
          \<and> cursor (snd (string_loop q ?a ?acc)) = cursor (snd (string_loop q ?b ?acc))
          \<and> lexer_ok (snd (string_loop q ?a ?acc)) \<and> lexer_ok (snd (string_loop q ?b ?acc))"
        using 1(1) [OF False refl, of ?acc "readChar a" ?b] bs c2 by simp
      with False same c2 esc bs show ?thesis
        by (auto simp: string_loop.simps [of q a] string_loop.simps [of q b])
    next
      case bs: False
      let ?acc = "acc @ [ch a]" and ?a = "readChar a" and ?b = "readChar b"
      have "readPosition a < length (input a) \<Longrightarrow>
          fst (string_loop q ?a ?acc) = fst (string_loop q ?b ?acc)
          \<and> cursor (snd (string_loop q ?a ?acc)) = cursor (snd (string_loop q ?b ?acc))
          \<and> lexer_ok (snd (string_loop q ?a ?acc)) \<and> lexer_ok (snd (string_loop q ?b ?acc))"
        using 1(1) [OF False refl, of ?acc a ?b] bs c1 by simp
      with False same c1 esc bs show ?thesis
        by (auto simp: string_loop.simps [of q a] string_loop.simps [of q b])
    qed
  qed
qed

lemma readString_read:
  assumes "lexer_ok a" "lexer_ok b" "cursor a = cursor b"
  shows "same_read
    (case readString a of (Inl (msg, l, p), lx1) \<Rightarrow> (mk_token ILLEGAL msg l p, lx1) | (Inr t, lx1) \<Rightarrow> (t, lx1))
    (case readString b of (Inl (msg, l, p), lx1) \<Rightarrow> (mk_token ILLEGAL msg l p, lx1) | (Inr t, lx1) \<Rightarrow> (t, lx1))"
proof -
  note c1 = cursor_readChar [OF assms]
  note same = cursor_chars [OF assms]
  obtain s1 a1 where a1: "string_loop (ch a) (readChar a) [] = (s1, a1)" by (rule prod.exhaust)
  obtain s2 b1 where b1: "string_loop (ch a) (readChar b) [] = (s2, b1)" by (rule prod.exhaust)
  from cursor_string_loop [OF c1(2,3,1), of "ch a" "[]"] a1 b1 have
    2: "s1 = s2" "cursor a1 = cursor b1" "lexer_ok a1" "lexer_ok b1" by auto
  note c3 = cursor_readChar [OF 2(3,4,2)]
  from a1 b1 2 c3 cursor_chars(1) [OF 2(3,4,2)] same(1) show ?thesis
    by (auto simp: readString_def intro!: same_readI)
qed

lemma readNumber_read:
  assumes "lexer_ok a" "lexer_ok b" "cursor a = cursor b"
  shows "same_read (readNumber a) (readNumber b)" "tok_type (fst (readNumber a)) = NUMBER"
proof -
  note same = cursor_chars [OF assms]
  define a1 where "a1 = (if (ch a = CHR ''-'' \<or> ch a = CHR ''+'')
     \<and> (isdigit (peekChar a) \<or> peekChar a = CHR ''.'') then readChar a else a)"
  define b1 where "b1 = (if (ch b = CHR ''-'' \<or> ch b = CHR ''+'')
     \<and> (isdigit (peekChar b) \<or> peekChar b = CHR ''.'') then readChar b else b)"
  have 1: "lexer_ok a1" "lexer_ok b1" "cursor a1 = cursor b1"
    unfolding a1_def b1_def using cursor_readChar [OF assms] assms same by auto
  note 2 = cursor_read_while [where p = isdigit, OF 1 not_nul(1)]
  note 3 = cursor_readChar [OF 2(2,3,1)]
  note 4 = cursor_read_while [where p = isdigit, OF 3(2,3,1) not_nul(1)]
  note ch2 = cursor_chars(1) [OF 2(2,3,1)]
  show "same_read (readNumber a) (readNumber b)"
    unfolding readNumber_def Let_def a1_def [symmetric] b1_def [symmetric]
    using 2 4 ch2 cursor_slice [OF assms(3) 2(1)] cursor_slice [OF assms(3) 4(1)]
    by (auto intro!: same_readI)
  show "tok_type (fst (readNumber a)) = NUMBER" by (simp add: readNumber_def Let_def mk_token_def)
qed

lemma readDuration_read:
  assumes "lexer_ok a" "lexer_ok b" "cursor a = cursor b"
  shows "same_read (readDuration a) (readDuration b)"
proof -
  note 1 = cursor_read_while [where p = isdigit, OF assms not_nul(1)]
  note 2 = cursor_readChar [OF 1(2,3,1)]
  note 3 = cursor_readChar [OF 2(2,3,1)]
  show ?thesis
    unfolding readDuration_def Let_def
    using 1 2 3 cursor_chars [OF 1(2,3,1)] cursor_chars [OF 2(2,3,1)] cursor_slice [OF assms(3) 1(1)]
    by (auto intro!: same_readI)
qed

lemma readIdentifier_read:
  assumes "lexer_ok a" "lexer_ok b" "cursor a = cursor b"
  shows "same_read (readIdentifier a) (readIdentifier b)"
proof -
  let ?p = "\<lambda>c. isalnum c \<or> c = CHR ''_'' \<or> c = CHR '':''"
  have "CHR ''_'' \<noteq> nul" "CHR '':'' \<noteq> nul" by (simp_all add: nul_def)
  then have "\<not> ?p nul" by auto
  note 1 = cursor_read_while [where p = ?p, OF assms this]
  show ?thesis
    unfolding readIdentifier_def Let_def cursor_slice [OF assms(3) 1(1)] using 1
    by (auto intro!: same_readI split: option.split)
qed

lemma operator_read:
  assumes "lexer_ok a" "lexer_ok b" "cursor a = cursor b" "two_char_operator (ch a) (peekChar a)"
  shows "same_read (readOperatorOrComparison a) (readOperatorOrComparison b)"
proof -
  note same = cursor_chars [OF assms(1-3)]
  note 1 = cursor_readChar [OF assms(1-3)]
  note 2 = cursor_readChar [OF 1(2,3,1)]
  have "ch (readChar a) = peekChar a" by (simp add: readChar_def peekChar_def)
  with assms(4) same 1 2 cursor_chars [OF 1(2,3,1)] show ?thesis
    unfolding readOperatorOrComparison_def Let_def two_char_operator_def
    by (auto intro!: same_readI)
qed

lemma number_or_duration_read:
  assumes "lexer_ok a" "lexer_ok b" "cursor a = cursor b" "isdigit (ch a)"
  shows "same_read
    (let (t, lx1) = readNumber a in if tok_type t = NUMBER \<and> duration_unit (ch lx1)
       then readDuration (lx1\<lparr>position := position a, readPosition := position a + 1,
         ch := input a ! position a, currentPosInLine := currentPosInLine a\<rparr>) else (t, lx1))
    (let (t, lx1) = readNumber b in if tok_type t = NUMBER \<and> duration_unit (ch lx1)
       then readDuration (lx1\<lparr>position := position b, readPosition := position b + 1,
         ch := input b ! position b, currentPosInLine := currentPosInLine b\<rparr>) else (t, lx1))"
proof -
  note same = cursor_chars [OF assms(1-3)]
  obtain t1 a1 where a1: "readNumber a = (t1, a1)" by (rule prod.exhaust)
  obtain t2 b1 where b1: "readNumber b = (t2, b1)" by (rule prod.exhaust)
  have num: "same_read (t1, a1) (t2, b1)" "tok_type t1 = NUMBER" "tok_type t2 = NUMBER"
    using readNumber_read [OF assms(1-3)] readNumber_read(2) [OF assms(2,1)] assms(3) a1 b1 by auto
  then have ch1: "ch a1 = ch b1" by (auto simp: same_read_def intro: cursor_chars)
  have inputs: "input a1 = input a" "input b1 = input b"
    using readNumber_consumes [OF assms(1,4)] readNumber_consumes [OF assms(2)] assms(4) same(1) a1 b1
    by (auto simp: consumes_def advanced_def)
  let ?a = "a1\<lparr>position := position a, readPosition := position a + 1,
         ch := input a ! position a, currentPosInLine := currentPosInLine a\<rparr>"
  let ?b = "b1\<lparr>position := position b, readPosition := position b + 1,
         ch := input b ! position b, currentPosInLine := currentPosInLine b\<rparr>"
  have "position a < length (input a)" by (rule ch_nonnul [OF assms(1) isdigit_nonnul [OF assms(4)]])
  then have "lexer_ok ?a" "lexer_ok ?b" "cursor ?a = cursor ?b"
    using same inputs by (auto simp: lexer_ok_def char_at_def cursor_def)
  from readDuration_read [OF this] num ch1 show ?thesis by (simp add: a1 b1)
qed

lemma NextToken_at_read:
  assumes "lexer_ok a" "lexer_ok b" "cursor a = cursor b"
  shows "same_read (NextToken_at a) (NextToken_at b)"
proof -
  note same = cursor_chars [OF assms]
  note 1 = cursor_readChar [OF assms]
  have one: "same_read (mk_token t x l p, readChar a) (mk_token t x l' p', readChar b)" for t x l p l' p'
    using 1 by (intro same_readI) simp_all
  show ?thesis
  proof (cases "ch a = nul")
    case True
    with same NextToken_at_cases [OF assms(1)] NextToken_at_cases [OF assms(2)] assms show ?thesis
      by (auto intro: same_readI)
  next
    case nonnul: False
    show ?thesis
    proof (cases "ch a = CHR ''='' \<or> ch a = CHR ''!'' \<or> ch a = CHR ''<'' \<or> ch a = CHR ''>''")
      case True
      with operator_read [OF assms] one same show ?thesis
        by (auto simp: NextToken_at_def Let_def)
    next
      case other: False
      show ?thesis
      proof (cases "map_of single_tokens (ch a)")
        case (Some t)
        with other one same show ?thesis by (auto simp: NextToken_at_def Let_def)
      next
        case None
        from None other nonnul same one single_tokens_sign [OF None] readString_read [OF assms]
          readIdentifier_read [OF assms] number_or_duration_read [OF assms]
        show ?thesis
          by (simp add: NextToken_at_def Let_def del: split_paired_All)
      qed
    qed
  qed
qed

lemma NextToken_read:
  assumes "lexer_ok a" "lexer_ok b" "cursor a = cursor b"
  shows "same_read (NextToken a) (NextToken b)"
proof -
  note 1 = cursor_skip [OF assms]
  note 2 = cursor_skip [OF 1(2,3,1)]
  note 3 = cursor_skip [OF 2(5,6,4)]
  show ?thesis unfolding NextToken_def by (rule NextToken_at_read [OF 3(2,3,1)])
qed

section \<open>The token stream of a parser\<close>

definition eof_kind :: kind where "eof_kind = (EOF_TOKEN, [])"

fun feeds :: "lexer \<Rightarrow> kind list \<Rightarrow> bool" where
  "feeds lx [] \<longleftrightarrow> kind (fst (NextToken lx)) = eof_kind"
| "feeds lx (k # ks) \<longleftrightarrow> kind (fst (NextToken lx)) = k \<and> fst k \<noteq> EOF_TOKEN \<and> feeds (snd (NextToken lx)) ks"

definition hd_kind :: "kind list \<Rightarrow> kind" where
  "hd_kind ks = (case ks of [] \<Rightarrow> eof_kind | k # _ \<Rightarrow> k)"

definition stream :: "parser \<Rightarrow> kind list \<Rightarrow> bool" where
  "stream p ks \<longleftrightarrow> parser_ok p \<and> list_all (\<lambda>k. fst k \<noteq> EOF_TOKEN) ks
     \<and> kind (currentToken p) = hd_kind ks \<and> kind (peekToken p) = hd_kind (tl ks)
     \<and> feeds (lexer_of p) (tl (tl ks))"

lemma feeds_cursor: "\<lbrakk>feeds a ks; lexer_ok a; lexer_ok b; cursor a = cursor b\<rbrakk> \<Longrightarrow> feeds b ks"
proof (induction ks arbitrary: a b)
  case Nil
  with NextToken_read [of a b] show ?case by (simp add: same_read_def)
next
  case (Cons k ks)
  from NextToken_read [OF Cons.prems(2-4)] have
    "kind (fst (NextToken a)) = kind (fst (NextToken b))" "cursor (snd (NextToken a)) = cursor (snd (NextToken b))"
    "lexer_ok (snd (NextToken a))" "lexer_ok (snd (NextToken b))" by (simp_all add: same_read_def)
  with Cons.prems(1) Cons.IH [of "snd (NextToken a)" "snd (NextToken b)"] show ?case by simp
qed

text \<open>Behind the end of the input there is only the end token.\<close>

lemma NextToken_at_end: "\<lbrakk>lexer_ok lx; ch lx = nul\<rbrakk> \<Longrightarrow> snd (NextToken lx) = lx \<and> kind (fst (NextToken lx)) = eof_kind"
proof -
  assume ok: "lexer_ok lx" and end_of_input: "ch lx = nul"
  then have "skipWhitespace (skipComment (skipWhitespace lx)) = lx"
    by (intro skip_nothing) (simp_all add: is_space_def nul_def)
  with NextToken_at_cases [OF ok] end_of_input show ?thesis
    by (simp add: NextToken_def kind_def mk_token_def eof_kind_def)
qed

lemma NextToken_eof:
  assumes "lexer_ok lx" "tok_type (fst (NextToken lx)) = EOF_TOKEN"
  shows "kind (fst (NextToken lx)) = eof_kind"
proof -
  obtain n where "advanced lx n (skipWhitespace (skipComment (skipWhitespace lx)))" (is "advanced lx n ?lx")
    by (rule skip_advanced [OF assms(1)])
  then have "lexer_ok ?lx" by (simp add: advanced_def)
  from NextToken_at_cases [OF this] assms(2) show ?thesis
    by (auto simp: NextToken_def consumes_def kind_def mk_token_def eof_kind_def split: if_splits)
qed

lemma feeds_Nil_next:
  assumes "lexer_ok lx" "feeds lx []"
  shows "feeds (snd (NextToken lx)) []"
proof -
  from assms(2) have "tok_type (fst (NextToken lx)) = EOF_TOKEN" by (simp add: eof_kind_def kind_def)
  with NextToken_progress [OF assms(1)] have "lexer_ok (snd (NextToken lx))" "ch (snd (NextToken lx)) = nul"
    by (auto simp: lexer_ok_def)
  from NextToken_at_end [OF this] show ?thesis by simp
qed

lemma stream_ok: "stream p ks \<Longrightarrow> parser_ok p"
  by (simp add: stream_def)

lemma hd_kind_simps [simp]: "hd_kind [] = eof_kind" "hd_kind (k # ks) = k"
  by (simp_all add: hd_kind_def)

lemma kind_eq: "kind t = k \<Longrightarrow> tok_type t = fst k" "\<lbrakk>kind t = k; fst k \<noteq> ILLEGAL\<rbrakk> \<Longrightarrow> tok_literal t = snd k"
  by (auto simp: kind_def)

lemma stream_cur_hd: "stream p ks \<Longrightarrow> cur p = fst (hd_kind ks)"
  unfolding stream_def using kind_eq(1) by blast

lemma stream_cur: "stream p (k # ks) \<Longrightarrow> cur p = fst k \<and> fst k \<noteq> EOF_TOKEN"
  using stream_cur_hd by (fastforce simp: stream_def)

lemma stream_lit: "stream p (k # ks) \<Longrightarrow> fst k \<noteq> ILLEGAL \<Longrightarrow> lit p = snd k"
  unfolding stream_def using kind_eq(2) by simp

lemma stream_peek: "stream p (k # ks) \<Longrightarrow> tok_type (peekToken p) = fst (hd_kind ks)"
  unfolding stream_def using kind_eq(1) by simp

lemma stream_next:
  assumes "stream p ks"
  shows "stream (nextToken p) (tl ks)" "parse_errors (nextToken p) = parse_errors p"
proof -
  obtain t lx where n: "NextToken (lexer_of p) = (t, lx)" by (rule prod.exhaust)
  have ok: "lexer_ok (lexer_of p)" using assms by (simp add: stream_def parser_ok_def)
  have lx: "lexer_ok lx" using NextToken_progress [OF ok] n by simp
  have feed: "feeds (lexer_of p) (tl (tl ks))" using assms by (simp add: stream_def)
  have "kind t = hd_kind (tl (tl ks)) \<and> feeds lx (tl (tl (tl ks)))"
    using feed feeds_Nil_next [OF ok] n by (cases "tl (tl ks)") auto
  moreover have "list_all (\<lambda>k. fst k \<noteq> EOF_TOKEN) (tl ks)" using assms by (cases ks) (auto simp: stream_def)
  ultimately show "stream (nextToken p) (tl ks)"
    using assms lx by (simp add: stream_def nextToken_def n parser_ok_def)
  show "parse_errors (nextToken p) = parse_errors p" by (simp add: nextToken_def n)
qed

lemmas stream_step = stream_next [where ks = "k # ks" for k ks, simplified]

lemma stream_left:
  assumes "stream p (k # ks)"
  shows "tokens_left (nextToken p) < tokens_left p"
  using consumed_nextToken [OF stream_ok [OF assms]] stream_cur [OF assms] by (simp add: consumed_def)

lemma stream_restore:
  assumes "stream p ks" "input (lexer_of q) = input (lexer_of p)" "parse_errors q = parse_errors p"
  shows "stream (restore p q) ks" "parse_errors (restore p q) = parse_errors p"
    "tokens_left (restore p q) = tokens_left p"
proof -
  let ?lx = "SetPosition (position (lexer_of p)) (lexer_of q)"
  have ok: "lexer_ok (lexer_of p)" using assms(1) by (simp add: stream_def parser_ok_def)
  have "lexer_ok ?lx" "cursor (lexer_of p) = cursor ?lx"
    using assms(2) by (auto simp: SetPosition_def lexer_ok_def cursor_def char_at_def)
  with feeds_cursor [OF _ ok] assms show "stream (restore p q) ks"
    by (auto simp: stream_def restore_def parser_ok_def)
  show "parse_errors (restore p q) = parse_errors p" "tokens_left (restore p q) = tokens_left p"
    using assms by (simp_all add: restore_def tokens_left_def SetPosition_def)
qed

lemma feeds_all_tokens:
  "GetAllTokens lx = Some ts \<Longrightarrow> lexer_ok lx \<Longrightarrow> feeds lx (map kind (butlast ts))
     \<and> list_all (\<lambda>k. fst k \<noteq> EOF_TOKEN) (map kind (butlast ts)) \<and> ts \<noteq> []"
proof (induction ts arbitrary: lx)
  case Nil
  then show ?case
    by (subst (asm) GetAllTokens.simps) (auto split: prod.splits if_splits Option.bind_splits)
next
  case (Cons t ts)
  obtain tok lx1 where n: "NextToken lx = (tok, lx1)" by (rule prod.exhaust)
  note progress = NextToken_progress [OF Cons.prems(2), unfolded n fst_conv snd_conv]
  show ?case
  proof (cases "tok_type tok = EOF_TOKEN")
    case True
    then have one: "t = tok" "ts = []" using Cons.prems(1) by (subst (asm) GetAllTokens.simps, simp add: n)+
    have "kind tok = eof_kind" using NextToken_eof [OF Cons.prems(2)] True n by simp
    with one n show ?thesis by simp
  next
    case False
    then obtain us where "GetAllTokens lx1 = Some us" "t = tok" "ts = us"
      using Cons.prems(1) by (subst (asm) GetAllTokens.simps) (auto simp: n split: Option.bind_splits)
    with Cons.IH [of lx1] progress n False show ?thesis by (simp add: kind_def)
  qed
qed

section \<open>Trees without token places\<close>

definition bare :: "token \<Rightarrow> token" where
  "bare t = mk_token (tok_type t) (if tok_type t = ILLEGAL then [] else tok_literal t) 0 0"

definition kind_token :: "kind \<Rightarrow> token" where
  "kind_token k = mk_token (fst k) (snd k) 0 0"

definition bare_selector :: "vector_selector \<Rightarrow> vector_selector" where
  "bare_selector vs = vs\<lparr>originalOffset := bare (originalOffset vs), atModifier := bare (atModifier vs)\<rparr>"

definition bare_subquery :: "subquery \<Rightarrow> subquery" where
  "bare_subquery sq = sq\<lparr>sq_range := bare (sq_range sq), sq_resolution := bare (sq_resolution sq),
     sq_originalOffset := bare (sq_originalOffset sq), sq_atModifier := bare (sq_atModifier sq)\<rparr>"

primrec shape :: "expr \<Rightarrow> expr" where
  "shape (NumberLiteral v) = NumberLiteral v"
| "shape (StringLiteral s) = StringLiteral s"
| "shape (VectorSelector vs) = VectorSelector (bare_selector vs)"
| "shape (MatrixSelector vs t r) = MatrixSelector (bare_selector vs) (bare t) r"
| "shape (BinaryExpr op l r m) = BinaryExpr op (shape l) (shape r) m"
| "shape (UnaryExpr op e) = UnaryExpr op (shape e)"
| "shape (ParenExpr e) = ParenExpr (shape e)"
| "shape (CallExpr f es) = CallExpr f (map shape es)"
| "shape (AggregateExpr op e ls w param) = AggregateExpr op (shape e) ls w (map_option shape param)"
| "shape (SubqueryExpr e sq) = SubqueryExpr (shape e) (bare_subquery sq)"

lemma bare_kind: "bare t = kind_token (kind t)"
  by (simp add: bare_def kind_token_def kind_def)

section \<open>The grammar\<close>

text \<open>Comma-separated labels, matchers, and the suffixes \<open>offset\<close> and \<open>@\<close>.\<close>

inductive label_list :: "string list \<Rightarrow> kind list \<Rightarrow> bool" where
  one_label: "label_list [l] [(IDENTIFIER, l)]"
| more_labels: "\<lbrakk>label_list ls ks; fst c = COMMA\<rbrakk> \<Longrightarrow> label_list (l # ls) ((IDENTIFIER, l) # c # ks)"

inductive grouping :: "string list \<Rightarrow> kind list \<Rightarrow> bool" where
  no_labels: "\<lbrakk>fst a = LEFT_PAREN; fst b = RIGHT_PAREN\<rbrakk> \<Longrightarrow> grouping [] [a, b]"
| some_labels: "\<lbrakk>fst a = LEFT_PAREN; label_list ls ks; fst b = RIGHT_PAREN\<rbrakk> \<Longrightarrow> grouping ls (a # ks @ [b])"

inductive matcher_list :: "model_matcher list \<Rightarrow> kind list \<Rightarrow> bool" where
  one_matcher: "matcher_op (fst o1) = Some (mm_type m) \<Longrightarrow>
     matcher_list [m] [(IDENTIFIER, mm_name m), o1, (STRING, mm_value m)]"
| more_matchers: "\<lbrakk>matcher_op (fst o1) = Some (mm_type m); fst c = COMMA; matcher_list ms ks\<rbrakk> \<Longrightarrow>
     matcher_list (m # ms) ((IDENTIFIER, mm_name m) # o1 # (STRING, mm_value m) # c # ks)"

inductive braces :: "model_matcher list \<Rightarrow> kind list \<Rightarrow> bool" where
  empty_braces: "\<lbrakk>fst a = LEFT_BRACE; fst b = RIGHT_BRACE\<rbrakk> \<Longrightarrow> braces [] [a, b]"
| full_braces: "\<lbrakk>fst a = LEFT_BRACE; matcher_list ms ks; fst b = RIGHT_BRACE\<rbrakk> \<Longrightarrow> braces ms (a # ks @ [b])"

inductive at_suffix :: "kind option \<Rightarrow> kind list \<Rightarrow> bool" where
  no_at: "at_suffix None []"
| some_at: "\<lbrakk>fst a = AT; fst t = NUMBER \<or> fst t = IDENTIFIER\<rbrakk> \<Longrightarrow> at_suffix (Some t) [a, t]"

inductive offset_at :: "(string \<times> int64) option \<Rightarrow> kind option \<Rightarrow> kind list \<Rightarrow> bool" where
  no_offset: "at_suffix at ks \<Longrightarrow> offset_at None at ks"
| offset: "\<lbrakk>fst f = OFFSET; parseDuration d = Inr s; at_suffix at ks\<rbrakk> \<Longrightarrow>
     offset_at (Some (d, s)) at (f # (DURATION, d) # ks)"

definition selector_node :: "string \<Rightarrow> model_matcher list \<Rightarrow> (string \<times> int64) option \<Rightarrow> kind option \<Rightarrow> vector_selector" where
  "selector_node name ms off at =
     \<lparr>vs_name = name, labelMatchers = ms,
      originalOffset = (case off of None \<Rightarrow> no_token | Some (d, s) \<Rightarrow> kind_token (DURATION, d)),
      atModifier = (case at of None \<Rightarrow> no_token | Some t \<Rightarrow> kind_token t),
      parsedOffsetSeconds = (case off of None \<Rightarrow> 0 | Some (d, s) \<Rightarrow> s)\<rparr>"

inductive selector :: "vector_selector \<Rightarrow> kind list \<Rightarrow> bool" where
  by_name: "\<lbrakk>name \<noteq> []; offset_at off at ks\<rbrakk> \<Longrightarrow>
     selector (selector_node name [] off at) ((IDENTIFIER, name) # ks)"
| by_name_and_labels: "\<lbrakk>braces ms ks; offset_at off at ks'\<rbrakk> \<Longrightarrow>
     selector (selector_node name ms off at) ((IDENTIFIER, name) # ks @ ks')"
| by_labels: "\<lbrakk>braces ms ks; offset_at off at ks'\<rbrakk> \<Longrightarrow> selector (selector_node [] ms off at) (ks @ ks')"

inductive resolution :: "(string \<times> int64) option \<Rightarrow> kind list \<Rightarrow> bool" where
  default_resolution: "resolution None []"
| given_resolution: "parseDuration d = Inr s \<Longrightarrow> resolution (Some (d, s)) [(DURATION, d)]"

definition subquery_node ::
  "string \<Rightarrow> int64 \<Rightarrow> (string \<times> int64) option \<Rightarrow> (string \<times> int64) option \<Rightarrow> kind option \<Rightarrow> subquery" where
  "subquery_node d s res off at =
     \<lparr>sq_range = kind_token (DURATION, d),
      sq_resolution = (case res of None \<Rightarrow> no_token | Some (r, t) \<Rightarrow> kind_token (DURATION, r)),
      sq_originalOffset = (case off of None \<Rightarrow> no_token | Some (o1, t) \<Rightarrow> kind_token (DURATION, o1)),
      sq_atModifier = (case at of None \<Rightarrow> no_token | Some t \<Rightarrow> kind_token t),
      parsedRangeSeconds = s,
      parsedResolutionSeconds = (case res of None \<Rightarrow> 0 | Some (r, t) \<Rightarrow> t),
      sq_parsedOffsetSeconds = (case off of None \<Rightarrow> 0 | Some (o1, t) \<Rightarrow> t)\<rparr>"

text \<open>The modifiers of a binary operator.\<close>

inductive bool_modifier :: "token_type \<Rightarrow> bool \<Rightarrow> kind list \<Rightarrow> bool" where
  no_bool: "bool_modifier op False []"
| some_bool: "\<lbrakk>comparison_op op; fst b = BOOL\<rbrakk> \<Longrightarrow> bool_modifier op True [b]"

inductive matching :: "bool \<Rightarrow> string list \<Rightarrow> kind list \<Rightarrow> bool" where
  no_matching: "matching False [] []"
| on_matching: "\<lbrakk>fst m = ON; grouping ls ks\<rbrakk> \<Longrightarrow> matching True ls (m # ks)"
| ignoring_matching: "\<lbrakk>fst m = IGNORING; grouping ls ks\<rbrakk> \<Longrightarrow> matching False ls (m # ks)"

inductive group_side :: "string \<Rightarrow> string list \<Rightarrow> kind list \<Rightarrow> bool" where
  no_group: "group_side [] [] []"
| group_left: "\<lbrakk>fst m = GROUP_LEFT; grouping ls ks\<rbrakk> \<Longrightarrow> group_side ''left'' ls (m # ks)"
| group_right: "\<lbrakk>fst m = GROUP_RIGHT; grouping ls ks\<rbrakk> \<Longrightarrow> group_side ''right'' ls (m # ks)"

text \<open>The grouping clause of an aggregation.\<close>

inductive clause :: "bool \<Rightarrow> string list \<Rightarrow> kind list \<Rightarrow> bool" where
  by_clause: "\<lbrakk>fst m = BY; grouping ls ks\<rbrakk> \<Longrightarrow> clause False ls (m # ks)"
| without_clause: "\<lbrakk>fst m = WITHOUT; grouping ls ks\<rbrakk> \<Longrightarrow> clause True ls (m # ks)"

text \<open>
  The left-associative binary operators by the documented precedence, from \<open>or\<close> (lowest) to the multiplicative ones
  (\<open>docs/planning/promql_research/PROMETHEUS_REFERENCE_IMPLEMENTATION.md\<close>, \<open>docs/analysis/PROMQL_DESIGN_ANALYSIS.md\<close>).
\<close>

definition operator_rank :: "token_type \<Rightarrow> nat" where
  "operator_rank t =
     (if t = OR_TOKEN then 1 else if t \<in> {AND_TOKEN, UNLESS} then 2
      else if t \<in> {EQL, NEQ, LSS, LTE, GTR, GTE} then 3 else if t \<in> {ADD, SUB} then 4
      else if t \<in> {MUL, DIV, MOD} then 5 else 0)"

definition binary_op :: "token_type \<Rightarrow> bool" where
  "binary_op t \<longleftrightarrow> operator_rank t \<noteq> 0"

text \<open>The parser's table has the documented ranks.\<close>

lemma documented_precedence:
  assumes "binary_op t"
  shows "getPrecedence t = operator_rank t" "t \<noteq> LEFT_PAREN" "t \<noteq> LEFT_BRACKET"
  using assms by (auto simp: binary_op_def operator_rank_def getPrecedence_def precedenceMap_def split: if_splits)

inductive primary :: "(string \<Rightarrow> double option) \<Rightarrow> expr \<Rightarrow> kind list \<Rightarrow> bool"
  and signed_expr :: "(string \<Rightarrow> double option) \<Rightarrow> expr \<Rightarrow> kind list \<Rightarrow> bool"
  and level :: "(string \<Rightarrow> double option) \<Rightarrow> nat \<Rightarrow> expr \<Rightarrow> kind list \<Rightarrow> bool"
  and arguments :: "(string \<Rightarrow> double option) \<Rightarrow> expr list \<Rightarrow> kind list \<Rightarrow> bool"
  and parameter :: "(string \<Rightarrow> double option) \<Rightarrow> token_type \<Rightarrow> expr option \<Rightarrow> kind list \<Rightarrow> bool"
  for stod where
  number: "stod l = Some v \<Longrightarrow> primary stod (NumberLiteral v) [(NUMBER, l)]"
| quoted: "primary stod (StringLiteral s) [(STRING, s)]"
| vector: "selector vs ks \<Longrightarrow> primary stod (VectorSelector vs) ks"
| parens: "\<lbrakk>fst a = LEFT_PAREN; level stod 0 e ks; fst b = RIGHT_PAREN\<rbrakk> \<Longrightarrow>
     primary stod (ParenExpr e) (a # ks @ [b])"
| unary: "\<lbrakk>fst u = SUB \<or> fst u = ADD; level stod 7 e ks\<rbrakk> \<Longrightarrow> signed_expr stod (UnaryExpr (fst u) e) (u # ks)"
| unary_again: "\<lbrakk>fst u = SUB \<or> fst u = ADD; signed_expr stod e ks\<rbrakk> \<Longrightarrow>
     signed_expr stod (UnaryExpr (fst u) e) (u # ks)"
| call: "\<lbrakk>fst a = LEFT_PAREN; fst b = RIGHT_PAREN\<rbrakk> \<Longrightarrow> primary stod (CallExpr f []) [(IDENTIFIER, f), a, b]"
| call_args: "\<lbrakk>fst a = LEFT_PAREN; arguments stod es ks; fst b = RIGHT_PAREN\<rbrakk> \<Longrightarrow>
     primary stod (CallExpr f es) ((IDENTIFIER, f) # a # ks @ [b])"
| aggregate: "\<lbrakk>fst g \<in> set aggregation_ops; fst a = LEFT_PAREN; parameter stod (fst g) param ks; level stod 0 e ks';
     fst b = RIGHT_PAREN\<rbrakk> \<Longrightarrow>
     primary stod (AggregateExpr (fst g) e [] False param) (g # a # ks @ ks' @ [b])"
| aggregate_prefix: "\<lbrakk>fst g \<in> set aggregation_ops; clause w ls kc; ls \<noteq> [] \<or> w; fst a = LEFT_PAREN;
     parameter stod (fst g) param ks; level stod 0 e ks'; fst b = RIGHT_PAREN\<rbrakk> \<Longrightarrow>
     primary stod (AggregateExpr (fst g) e ls w param) (g # kc @ a # ks @ ks' @ [b])"
| aggregate_suffix: "\<lbrakk>fst g \<in> set aggregation_ops; fst a = LEFT_PAREN; parameter stod (fst g) param ks;
     level stod 0 e ks'; fst b = RIGHT_PAREN; clause w ls kc\<rbrakk> \<Longrightarrow>
     primary stod (AggregateExpr (fst g) e ls w param) (g # a # ks @ ks' @ b # kc)"
| no_parameter: "\<not> takes_parameter op \<Longrightarrow> parameter stod op None []"
| some_parameter: "\<lbrakk>takes_parameter op; level stod 0 e ks; fst c = COMMA\<rbrakk> \<Longrightarrow>
     parameter stod op (Some e) (ks @ [c])"
| one_argument: "level stod 0 e ks \<Longrightarrow> arguments stod [e] ks"
| more_arguments: "\<lbrakk>level stod 0 e ks; fst c = COMMA; arguments stod es ks'\<rbrakk> \<Longrightarrow>
     arguments stod (e # es) (ks @ c # ks')"
| atom: "primary stod e ks \<Longrightarrow> level stod prec e ks"
| signed_atom: "\<lbrakk>signed_expr stod e ks; prec < 7\<rbrakk> \<Longrightarrow> level stod prec e ks"
| binary: "\<lbrakk>binary_op (fst op); prec < operator_rank (fst op); level stod (operator_rank (fst op) - 1) l ks;
     bool_modifier (fst op) rb kb; matching on_flag ls km; group_side side incl kg;
     level stod (operator_rank (fst op)) r ks'\<rbrakk> \<Longrightarrow>
     level stod prec (BinaryExpr (fst op) l r \<lparr>matchingLabels = ls, on_labels = on_flag, groupSide = side,
        includeLabels = incl, returnBool = rb\<rparr>) (ks @ op # kb @ km @ kg @ ks')"
| matrix: "\<lbrakk>prec < 8; selector vs ks; fst a = LEFT_BRACKET; parseDuration d = Inr s; fst b = RIGHT_BRACKET\<rbrakk> \<Longrightarrow>
     level stod prec (MatrixSelector vs (kind_token (DURATION, d)) s) (ks @ [a, (DURATION, d), b])"
| sub_query: "\<lbrakk>prec < 8; level stod 7 e ks; fst a = LEFT_BRACKET; parseDuration d = Inr s; fst c = COLON;
     resolution res kr; fst b = RIGHT_BRACKET; offset_at off at kx\<rbrakk> \<Longrightarrow>
     level stod prec (SubqueryExpr e (subquery_node d s res off at)) (ks @ a # (DURATION, d) # c # kr @ b # kx)"

text \<open>Tokens that would be taken for a continuation of the expression before them.\<close>

definition closes :: "kind list \<Rightarrow> bool" where
  "closes ks \<longleftrightarrow> fst (hd_kind ks) \<notin> {LEFT_PAREN, LEFT_BRACE, OFFSET, AT, BY, WITHOUT}"

section \<open>Reading the pieces\<close>

definition reads :: "parser \<Rightarrow> kind list \<Rightarrow> 'a \<Rightarrow> 'a outcome \<Rightarrow> bool" where
  "reads p zs x r \<longleftrightarrow> (\<exists>q. r = Done x q \<and> stream q zs \<and> parse_errors q = parse_errors p
     \<and> tokens_left q \<le> tokens_left p)"

lemma reads_Done: "\<lbrakk>stream q zs; parse_errors q = parse_errors p; tokens_left q \<le> tokens_left p\<rbrakk> \<Longrightarrow>
     reads p zs x (Done x q)"
  by (auto simp: reads_def)

lemma reads_step: "\<lbrakk>parse_errors q = parse_errors p; tokens_left q < tokens_left p; reads q zs x r\<rbrakk> \<Longrightarrow>
     reads p zs x r"
  by (fastforce simp: reads_def)

lemma stream_Cons:
  assumes "stream p (k # ks)"
  shows "cur p = fst k" "fst k \<noteq> EOF_TOKEN" "fst k \<noteq> ILLEGAL \<Longrightarrow> lit p = snd k"
    "stream (nextToken p) ks" "parse_errors (nextToken p) = parse_errors p"
    "tokens_left (nextToken p) < tokens_left p" "kind (currentToken p) = k"
  using stream_cur [OF assms] stream_lit [OF assms] stream_next [OF assms] stream_left [OF assms] assms
  by (auto simp: stream_def)

lemma matcher_op_text: "matcher_op t = Some mt \<Longrightarrow> t \<noteq> RIGHT_BRACE \<and> t \<noteq> EOF_TOKEN"
  by (auto simp: matcher_op_def)

lemma grouping_loop_reads:
  assumes "label_list ls ks" "stream p (ks @ b # zs)" "fst b = RIGHT_PAREN" "tokens_left p < n"
  shows "reads p zs (acc @ ls) (grouping_loop n acc p)"
  using assms
proof (induction ls ks arbitrary: p n acc rule: label_list.induct)
  case (one_label l)
  from one_label.prems(3) obtain m where n: "n = Suc m" by (cases n) auto
  from one_label.prems(1) have s: "stream p ((IDENTIFIER, l) # b # zs)" by simp
  note 1 = stream_Cons [OF s] and 2 = stream_Cons [OF stream_Cons(4) [OF s]]
  from 1 2 one_label.prems(2) show ?case
    by (simp add: n) (rule reads_Done, simp_all)
next
  case (more_labels ls ks c l)
  from more_labels.prems(3) obtain m where n: "n = Suc m" by (cases n) auto
  from more_labels.prems(1) have s: "stream p ((IDENTIFIER, l) # c # (ks @ b # zs))" by simp
  note 1 = stream_Cons [OF s]
  note 2 = stream_Cons [OF 1(4)]
  have "reads (nextToken (nextToken p)) zs ((acc @ [l]) @ ls) (grouping_loop m (acc @ [l]) (nextToken (nextToken p)))"
    using 1(6) 2(6) more_labels.prems(2,3) n by (intro more_labels.IH [OF 2(4)]) simp_all
  with reads_step [of "nextToken (nextToken p)" p] 1 2 more_labels.hyps(2) show ?case by (simp add: n)
qed

lemma label_list_first: "label_list ls ks \<Longrightarrow> \<exists>l ks'. ks = (IDENTIFIER, l) # ks' \<and> ls \<noteq> []"
  by (cases rule: label_list.cases) auto

lemma parseGroupingLabels_reads:
  assumes "grouping ls ks" "stream p (ks @ zs)" "tokens_left p \<le> n"
  shows "reads p zs ls (parseGroupingLabels n p)"
  using assms
proof cases
  case (no_labels a b)
  with assms(2) have s: "stream p (a # b # zs)" by simp
  note 1 = stream_Cons [OF s]
  note 2 = stream_Cons [OF 1(4)]
  from 1 2 no_labels show ?thesis by (simp add: parseGroupingLabels_def Let_def reads_Done)
next
  case (some_labels a ks' b)
  with assms(2) have s: "stream p (a # (ks' @ b # zs))" by simp
  note 1 = stream_Cons [OF s]
  have left: "tokens_left (nextToken p) < n" using 1(6) assms(3) by simp
  note loop = grouping_loop_reads [OF some_labels(3) 1(4) some_labels(4) left, of "[]"]
  from label_list_first [OF some_labels(3)] obtain l ks'' where "ks' = (IDENTIFIER, l) # ks''" by blast
  with 1(4) have "cur (nextToken p) = IDENTIFIER" using stream_cur by fastforce
  with reads_step [OF 1(5,6) loop] show ?thesis by (simp add: parseGroupingLabels_def Let_def)
qed

lemma matcher_eta: "\<lparr>mm_type = mm_type m, mm_name = mm_name m, mm_value = mm_value m\<rparr> = m"
  by simp

lemma matchers_loop_reads:
  assumes "matcher_list ms ks" "stream p (ks @ b # zs)" "fst b = RIGHT_BRACE" "tokens_left p < n"
  shows "reads p zs (acc @ ms) (matchers_loop n acc p)"
  using assms
proof (induction ms ks arbitrary: p n acc rule: matcher_list.induct)
  case (one_matcher o1 m)
  from one_matcher.prems(3) obtain k where n: "n = Suc k" by (cases n) auto
  from one_matcher.prems(1) have s: "stream p ((IDENTIFIER, mm_name m) # o1 # (STRING, mm_value m) # b # zs)" by simp
  note 1 = stream_Cons [OF s]
  note 2 = stream_Cons [OF 1(4)]
  note 3 = stream_Cons [OF 2(4)]
  note 4 = stream_Cons [OF 3(4)]
  from 1 2 3 4 one_matcher show ?case by (simp add: n matcher_eta reads_Done)
next
  case (more_matchers o1 m c ms ks)
  from more_matchers.prems(3) obtain k where n: "n = Suc k" by (cases n) auto
  from more_matchers.prems(1) have
    s: "stream p ((IDENTIFIER, mm_name m) # o1 # (STRING, mm_value m) # c # (ks @ b # zs))" by simp
  note 1 = stream_Cons [OF s]
  note 2 = stream_Cons [OF 1(4)]
  note 3 = stream_Cons [OF 2(4)]
  note 4 = stream_Cons [OF 3(4)]
  let ?q = "nextToken (nextToken (nextToken (nextToken p)))"
  have "reads ?q zs ((acc @ [m]) @ ms) (matchers_loop k (acc @ [m]) ?q)"
    using 1(6) 2(6) 3(6) 4(6) more_matchers.prems(2,3) n by (intro more_matchers.IH [OF 4(4)]) simp_all
  with reads_step [of ?q p] 1 2 3 4 more_matchers.hyps(1,2) show ?case by (simp add: n matcher_eta)
qed

lemma parseLabelMatchers_reads:
  assumes "braces ms ks" "stream p (ks @ zs)" "tokens_left p \<le> n"
  shows "reads p zs ms (parseLabelMatchers n p)"
  using assms
proof cases
  case (empty_braces a b)
  with assms(2) have s: "stream p (a # b # zs)" by simp
  note 1 = stream_Cons [OF s]
  note 2 = stream_Cons [OF 1(4)]
  from 1 2 empty_braces show ?thesis by (simp add: parseLabelMatchers_def Let_def reads_Done)
next
  case (full_braces a ks' b)
  with assms(2) have s: "stream p (a # (ks' @ b # zs))" by simp
  note 1 = stream_Cons [OF s]
  have left: "tokens_left (nextToken p) < n" using 1(6) assms(3) by simp
  note loop = matchers_loop_reads [OF full_braces(3) 1(4) full_braces(4) left, of "[]"]
  from full_braces(3) have "\<exists>l ks''. ks' = (IDENTIFIER, l) # ks''" by cases auto
  with 1(4) have "cur (nextToken p) = IDENTIFIER" using stream_cur by fastforce
  with reads_step [OF 1(5,6) loop] show ?thesis by (simp add: parseLabelMatchers_def Let_def)
qed

lemma parse_at_reads:
  assumes "at_suffix at ks" "stream p (ks @ zs)" "closes zs"
  shows "\<exists>x. map_option kind x = at \<and> reads p zs x (parse_at p)"
  using assms
proof cases
  case no_at
  with assms(2) have s: "stream p zs" by simp
  with assms(3) stream_cur_hd [OF s] have "cur p \<noteq> AT" by (auto simp: closes_def)
  with s no_at show ?thesis by (auto simp: parse_at_def intro: reads_Done)
next
  case (some_at a t)
  with assms(2) have s: "stream p (a # t # zs)" by simp
  note 1 = stream_Cons [OF s]
  note 2 = stream_Cons [OF 1(4)]
  from 1 2 some_at show ?thesis
    by (intro exI [of _ "Some (currentToken (nextToken p))"]) (auto simp: parse_at_def Let_def intro: reads_Done)
qed

lemma closes_at: "at_suffix at ks \<Longrightarrow> closes zs \<Longrightarrow> fst (hd_kind (ks @ zs)) \<noteq> OFFSET"
  by (cases rule: at_suffix.cases) (auto simp: closes_def)

lemma parse_offset_at_reads:
  assumes "offset_at off at ks" "stream p (ks @ zs)" "closes zs"
  shows "\<exists>x y. reads p zs (x, y) (parse_offset_at p) \<and> map_option kind y = at
    \<and> (case off of None \<Rightarrow> x = None | Some (d, s) \<Rightarrow> \<exists>t. x = Some (t, Some s) \<and> kind t = (DURATION, d))"
  using assms
proof cases
  case no_offset
  have "cur p \<noteq> OFFSET"
    using closes_at [OF no_offset(2) assms(3)] stream_cur_hd [OF assms(2)] by simp
  with parse_at_reads [OF no_offset(2) assms(2,3)] no_offset(1) show ?thesis
    by (auto simp: parse_offset_at_def reads_def)
next
  case (offset f d s ks')
  with assms(2) have st: "stream p (f # (DURATION, d) # ks' @ zs)" by simp
  note 1 = stream_Cons [OF st]
  note 2 = stream_Cons [OF 1(4)]
  from parse_at_reads [OF offset(5) 2(4) assms(3)] obtain y where
    "map_option kind y = at" "reads (nextToken (nextToken p)) zs y (parse_at (nextToken (nextToken p)))" by blast
  with 1 2 offset show ?thesis
    by (intro exI [of _ "Some (currentToken (nextToken p), Some s)"] exI [of _ y])
      (auto simp: parse_offset_at_def Let_def reads_def)
qed

lemma bare_no_token: "kind_token (kind no_token) = no_token"
  by (simp add: kind_token_def kind_def no_token_def mk_token_def)

lemma parseOptionalAtOffset_reads:
  assumes "offset_at off at ks" "stream p (ks @ zs)" "closes zs"
  shows "\<exists>vs. bare_selector vs = selector_node name ms off at
    \<and> reads p zs vs (parseOptionalAtOffset (mk_vector_selector name ms) p)"
proof -
  from parse_offset_at_reads [OF assms] obtain x y q where
    r: "parse_offset_at p = Done (x, y) q" "stream q zs" "parse_errors q = parse_errors p"
      "tokens_left q \<le> tokens_left p" and
    y: "map_option kind y = at" and
    x: "case off of None \<Rightarrow> x = None | Some (d, s) \<Rightarrow> \<exists>t. x = Some (t, Some s) \<and> kind t = (DURATION, d)"
    by (auto simp: reads_def)
  from r x y show ?thesis
    by (auto simp: parseOptionalAtOffset_def reads_def mk_vector_selector_def selector_node_def bare_selector_def
        bare_no_token bare_kind split: option.splits)
qed

lemma parseOptionalAtOffsetSubquery_reads:
  assumes "offset_at off at ks" "stream p (ks @ zs)" "closes zs"
    and "kind rng = (DURATION, d)"
    and "case res of None \<Rightarrow> rt = no_token \<and> b = 0 | Some (x, t) \<Rightarrow> kind rt = (DURATION, x) \<and> b = t"
  shows "\<exists>sq. bare_subquery sq = subquery_node d a res off at
    \<and> reads p zs sq (parseOptionalAtOffsetSubquery
        ((mk_subquery rng rt)\<lparr>parsedRangeSeconds := a, parsedResolutionSeconds := b\<rparr>) p)"
proof -
  from parse_offset_at_reads [OF assms(1-3)] obtain x y q where
    r: "parse_offset_at p = Done (x, y) q" "stream q zs" "parse_errors q = parse_errors p"
      "tokens_left q \<le> tokens_left p" and
    y: "map_option kind y = at" and
    x: "case off of None \<Rightarrow> x = None | Some (d, s) \<Rightarrow> \<exists>t. x = Some (t, Some s) \<and> kind t = (DURATION, d)"
    by (auto simp: reads_def)
  from r x y assms(4,5) show ?thesis
    by (auto simp: parseOptionalAtOffsetSubquery_def reads_def mk_subquery_def subquery_node_def bare_subquery_def
        bare_no_token bare_kind split: option.splits)
qed

lemma parseVectorSelector_reads:
  assumes "selector vs ks" "stream p (ks @ zs)" "closes zs" "tokens_left p \<le> n"
  shows "\<exists>vs'. bare_selector vs' = vs \<and> reads p zs (Some (VectorSelector vs')) (parseVectorSelector n p)"
  using assms
proof cases
  case (by_name name off at ks')
  with assms(2) have s: "stream p ((IDENTIFIER, name) # ks' @ zs)" by simp
  note 1 = stream_Cons [OF s]
  from parseOptionalAtOffset_reads [OF by_name(4) 1(4) assms(3), of name "[]"] obtain vs' where
    v: "bare_selector vs' = selector_node name [] off at"
      "reads (nextToken p) zs vs' (parseOptionalAtOffset (mk_vector_selector name []) (nextToken p))" by blast
  have "cur (nextToken p) \<noteq> LEFT_BRACE"
  proof -
    from by_name(4) have "fst (hd_kind (ks' @ zs)) \<noteq> LEFT_BRACE"
      using assms(3) by (cases rule: offset_at.cases) (auto simp: closes_def elim: at_suffix.cases)
    with stream_cur_hd [OF 1(4)] show ?thesis by simp
  qed
  with 1 v by_name(1,3) show ?thesis
    by (intro exI [of _ vs']) (auto simp: parseVectorSelector_def reads_def)
next
  case (by_name_and_labels ms ks1 off at ks2 name)
  with assms(2) have s: "stream p ((IDENTIFIER, name) # ks1 @ ks2 @ zs)" by simp
  note 1 = stream_Cons [OF s]
  have "tokens_left (nextToken p) \<le> n" using 1(6) assms(4) by simp
  from parseLabelMatchers_reads [OF by_name_and_labels(3) 1(4) this] obtain q where
    q: "parseLabelMatchers n (nextToken p) = Done ms q" "stream q (ks2 @ zs)" "parse_errors q = parse_errors p"
      "tokens_left q \<le> tokens_left p"
    using 1(5,6) by (auto simp: reads_def)
  from parseOptionalAtOffset_reads [OF by_name_and_labels(4) q(2) assms(3), of name ms] obtain vs' where
    v: "bare_selector vs' = selector_node name ms off at"
      "reads q zs vs' (parseOptionalAtOffset (mk_vector_selector name ms) q)" by blast
  have "\<exists>a ks3. ks1 = a # ks3 \<and> fst a = LEFT_BRACE" using by_name_and_labels(3) by cases auto
  with 1(4) have "cur (nextToken p) = LEFT_BRACE" using stream_cur by fastforce
  with 1 q v by_name_and_labels(1) show ?thesis
    by (intro exI [of _ vs']) (auto simp: parseVectorSelector_def reads_def)
next
  case (by_labels ms ks1 off at ks2)
  with assms(2) have s: "stream p (ks1 @ ks2 @ zs)" by simp
  from parseLabelMatchers_reads [OF by_labels(3) s assms(4)] obtain q where
    q: "parseLabelMatchers n p = Done ms q" "stream q (ks2 @ zs)" "parse_errors q = parse_errors p"
      "tokens_left q \<le> tokens_left p"
    by (auto simp: reads_def)
  from parseOptionalAtOffset_reads [OF by_labels(4) q(2) assms(3), of "[]" ms] obtain vs' where
    v: "bare_selector vs' = selector_node [] ms off at"
      "reads q zs vs' (parseOptionalAtOffset (mk_vector_selector [] ms) q)" by blast
  have "\<exists>a ks3. ks1 = a # ks3 \<and> fst a = LEFT_BRACE" using by_labels(3) by cases auto
  with s have "cur p = LEFT_BRACE" using stream_cur by fastforce
  with q v by_labels(1) show ?thesis
    by (intro exI [of _ vs']) (auto simp: parseVectorSelector_def reads_def)
qed

text \<open>The first token of an expression is none of the words that may stand before it.\<close>

definition starts :: "kind list \<Rightarrow> bool" where
  "starts ks \<longleftrightarrow> (\<exists>k ks'. ks = k # ks' \<and>
     fst k \<in> {NUMBER, STRING, IDENTIFIER, LEFT_BRACE, LEFT_PAREN, SUB, ADD} \<union> set aggregation_ops)"

lemma starts_append: "starts ks \<Longrightarrow> starts (ks @ zs)"
  by (auto simp: starts_def)

lemma selector_starts: "selector vs ks \<Longrightarrow> starts ks"
  by (cases rule: selector.cases) (auto simp: starts_def elim!: braces.cases)

lemma level_starts:
  "primary stod e ks \<Longrightarrow> starts ks" "signed_expr stod e ks \<Longrightarrow> starts ks" "level stod prec e ks \<Longrightarrow> starts ks"
  "arguments stod es ks \<Longrightarrow> starts ks"
  "parameter stod op param ks \<Longrightarrow> ks = [] \<or> starts ks"
  by (induction rule: primary_signed_expr_level_arguments_parameter.inducts)
    (auto intro: starts_append selector_starts, auto simp: starts_def)

lemma starts_words:
  assumes "starts ks"
  shows "fst (hd_kind ks) \<notin> {BOOL, ON, IGNORING, GROUP_LEFT, GROUP_RIGHT, BY, WITHOUT, RIGHT_PAREN, EOF_TOKEN}"
  using assms by (auto simp: starts_def aggregation_ops_def)

lemma grouping_first: "grouping ls ks \<Longrightarrow> \<exists>a ks'. ks = a # ks' \<and> fst a = LEFT_PAREN"
  by (cases rule: grouping.cases) auto

lemma word_then_grouping:
  assumes "stream p (m # ks @ zs)" "grouping ls ks" "tokens_left p \<le> n"
  shows "cur (nextToken p) = LEFT_PAREN" "reads p zs ls (parseGroupingLabels n (nextToken p))"
proof -
  note 1 = stream_Cons [OF assms(1)]
  from grouping_first [OF assms(2)] obtain a ks' where a: "ks = a # ks'" "fst a = LEFT_PAREN" by blast
  with 1(4) stream_cur [of "nextToken p" a "ks' @ zs"] show "cur (nextToken p) = LEFT_PAREN" by simp
  show "reads p zs ls (parseGroupingLabels n (nextToken p))"
    using 1(6) assms(3) by (intro reads_step [OF 1(5,6) parseGroupingLabels_reads [OF assms(2) 1(4)]]) simp
qed

lemma parse_bool_modifier_reads:
  assumes "bool_modifier op rb kb" "stream p (kb @ zs)" "fst (hd_kind zs) \<noteq> BOOL"
  shows "reads p zs (Some rb) (parse_bool_modifier op p)"
  using assms
proof cases
  case no_bool
  with assms(2,3) stream_cur_hd [of p zs] show ?thesis by (simp add: parse_bool_modifier_def reads_Done)
next
  case (some_bool b)
  with assms(2) have s: "stream p (b # zs)" by simp
  from stream_Cons [OF s] some_bool show ?thesis by (simp add: parse_bool_modifier_def reads_Done)
qed

lemma parse_matching_reads:
  assumes "matching on_flag ls km" "stream p (km @ zs)" "fst (hd_kind zs) \<notin> {ON, IGNORING}" "tokens_left p \<le> n"
  shows "reads p zs (Some (on_flag, ls)) (parse_matching n p)"
  using assms
proof cases
  case no_matching
  with assms(2,3) stream_cur_hd [of p zs] show ?thesis by (simp add: parse_matching_def reads_Done)
next
  case (on_matching m ks)
  with assms(2) have s: "stream p (m # ks @ zs)" by simp
  from word_then_grouping [OF s on_matching(4) assms(4)] stream_cur [OF s] on_matching show ?thesis
    by (auto simp: parse_matching_def reads_def)
next
  case (ignoring_matching m ks)
  with assms(2) have s: "stream p (m # ks @ zs)" by simp
  from word_then_grouping [OF s ignoring_matching(4) assms(4)] stream_cur [OF s] ignoring_matching show ?thesis
    by (auto simp: parse_matching_def reads_def)
qed

lemma parse_group_side_reads:
  assumes "group_side side ls kg" "stream p (kg @ zs)" "fst (hd_kind zs) \<notin> {GROUP_LEFT, GROUP_RIGHT}" "tokens_left p \<le> n"
  shows "reads p zs (side, ls) (parse_group_side n p)"
  using assms
proof cases
  case no_group
  with assms(2,3) stream_cur_hd [of p zs] show ?thesis by (simp add: parse_group_side_def reads_Done)
next
  case (group_left m ks)
  with assms(2) have s: "stream p (m # ks @ zs)" by simp
  from word_then_grouping [OF s group_left(4) assms(4)] stream_cur [OF s] group_left show ?thesis
    by (auto simp: parse_group_side_def reads_def)
next
  case (group_right m ks)
  with assms(2) have s: "stream p (m # ks @ zs)" by simp
  from word_then_grouping [OF s group_right(4) assms(4)] stream_cur [OF s] group_right show ?thesis
    by (auto simp: parse_group_side_def reads_def)
qed

lemma parse_grouping_clause_reads:
  assumes "clause w ls kc" "stream p (kc @ zs)" "tokens_left p \<le> n"
  shows "reads p zs (Some (w, ls)) (parse_grouping_clause n p)"
  using assms
proof cases
  case (by_clause m ks)
  with assms(2) have s: "stream p (m # ks @ zs)" by simp
  from word_then_grouping [OF s by_clause(4) assms(3)] stream_cur [OF s] by_clause show ?thesis
    by (auto simp: parse_grouping_clause_def reads_def)
next
  case (without_clause m ks)
  with assms(2) have s: "stream p (m # ks @ zs)" by simp
  from word_then_grouping [OF s without_clause(4) assms(3)] stream_cur [OF s] without_clause show ?thesis
    by (auto simp: parse_grouping_clause_def reads_def)
qed

lemma no_clause_reads:
  assumes "stream p zs" "fst (hd_kind zs) \<notin> {BY, WITHOUT}"
  shows "reads p zs (Some (False, [])) (parse_grouping_clause n p)"
  using assms stream_cur_hd [OF assms(1)] by (simp add: parse_grouping_clause_def reads_Done)

text \<open>The lookahead tells a range from a subquery, and the two bracket methods read them.\<close>

lemma isSubqueryRange_reads:
  assumes "stream p (a # (DURATION, d) # k # ks)" "fst a = LEFT_BRACKET"
  shows "fst (isSubqueryRange p) = (fst k = COLON)"
    "stream (snd (isSubqueryRange p)) (a # (DURATION, d) # k # ks)"
    "parse_errors (snd (isSubqueryRange p)) = parse_errors p"
    "tokens_left (snd (isSubqueryRange p)) = tokens_left p"
proof -
  note 1 = stream_Cons [OF assms(1)]
  note 2 = stream_Cons [OF 1(4)]
  note 3 = stream_Cons [OF 2(4)]
  let ?q = "nextToken (nextToken p)"
  have "input (lexer_of ?q) = input (lexer_of p)" "parse_errors ?q = parse_errors p"
    using input_nextToken(1) [OF stream_ok [OF assms(1)]] input_nextToken(1) [OF stream_ok [OF 1(4)]] 1(5) 2(5)
    by simp_all
  note r = stream_restore [OF assms(1) this]
  have "isSubqueryRange p = (fst k = COLON, restore p ?q)"
    using 1 2 3 assms(2) by (simp add: isSubqueryRange_def Let_def)
  with r show "fst (isSubqueryRange p) = (fst k = COLON)"
    "stream (snd (isSubqueryRange p)) (a # (DURATION, d) # k # ks)"
    "parse_errors (snd (isSubqueryRange p)) = parse_errors p"
    "tokens_left (snd (isSubqueryRange p)) = tokens_left p" by simp_all
qed

lemma parseMatrixSelector_reads:
  assumes "stream p (a # (DURATION, d) # b # zs)" "fst a = LEFT_BRACKET" "fst b = RIGHT_BRACKET"
    "parseDuration d = Inr s"
  shows "\<exists>t. kind t = (DURATION, d) \<and> reads p zs (Some (MatrixSelector vs t s)) (parseMatrixSelector vs p)"
proof -
  note 1 = stream_Cons [OF assms(1)]
  note 2 = stream_Cons [OF 1(4)]
  note 3 = stream_Cons [OF 2(4)]
  from 1 2 3 assms(2-4) show ?thesis
    by (intro exI [of _ "currentToken (nextToken p)"]) (simp add: parseMatrixSelector_def Let_def reads_Done)
qed

lemma parseSubqueryExpression_reads:
  assumes "stream p (a # (DURATION, d) # c # kr @ b # kx @ zs)" "fst a = LEFT_BRACKET" "fst c = COLON"
    "fst b = RIGHT_BRACKET" "parseDuration d = Inr s" "resolution res kr" "offset_at off at kx" "closes zs"
  shows "\<exists>sq. bare_subquery sq = subquery_node d s res off at
    \<and> reads p zs (Some (SubqueryExpr e sq)) (parseSubqueryExpression e p)"
proof -
  note 1 = stream_Cons [OF assms(1)]
  note 2 = stream_Cons [OF 1(4)]
  note 3 = stream_Cons [OF 2(4)]
  let ?p3 = "nextToken (nextToken (nextToken p))" and ?rng = "currentToken (nextToken p)"
  obtain rt sec p4 where p4: "(if cur ?p3 = DURATION then (currentToken ?p3, nextToken ?p3) else (no_token, ?p3)) = (rt, p4)"
      "stream p4 (b # kx @ zs)" "parse_errors p4 = parse_errors p" "tokens_left p4 \<le> tokens_left p"
      "parse_subquery_durations ?rng rt = Inr (s, sec)"
      "case res of None \<Rightarrow> rt = no_token \<and> sec = 0 | Some (x, t) \<Rightarrow> kind rt = (DURATION, x) \<and> sec = t"
    using assms(6)
  proof cases
    case default_resolution
    with 3(4) have "stream ?p3 (b # kx @ zs)" by simp
    with that [of no_token ?p3 0] 1 2 3 stream_cur [OF this] assms(4,5) default_resolution show ?thesis
      by (simp add: parse_subquery_durations_def no_token_def mk_token_def)
  next
    case (given_resolution r t)
    with 3(4) have "stream ?p3 ((DURATION, r) # b # kx @ zs)" by simp
    note 4 = stream_Cons [OF this]
    with that [of "currentToken ?p3" "nextToken ?p3" t] 1 2 3 assms(5) given_resolution show ?thesis
      by (simp add: parse_subquery_durations_def)
  qed
  note 5 = stream_Cons [OF p4(2)]
  from parseOptionalAtOffsetSubquery_reads [OF assms(7) 5(4) assms(8) 2(7) p4(6), of s] obtain sq where
    sq: "bare_subquery sq = subquery_node d s res off at"
    "reads (nextToken p4) zs sq (parseOptionalAtOffsetSubquery
       ((mk_subquery ?rng rt)\<lparr>parsedRangeSeconds := s, parsedResolutionSeconds := sec\<rparr>) (nextToken p4))" by blast
  have "parseSubqueryExpression e p = and_then (parseOptionalAtOffsetSubquery
       ((mk_subquery ?rng rt)\<lparr>parsedRangeSeconds := s, parsedResolutionSeconds := sec\<rparr>) (nextToken p4))
       (\<lambda>sq. Done (Some (SubqueryExpr e sq)))"
    using 1 2 3 5 p4(1,5) assms(2-4) by (simp add: parseSubqueryExpression_def Let_def)
  with sq p4(3,4) 5(5,6) show ?thesis by (auto simp: reads_def)
qed

section \<open>The parser reads the grammar\<close>

definition reads_primary :: "(string \<Rightarrow> double option) \<Rightarrow> expr \<Rightarrow> kind list \<Rightarrow> bool" where
  "reads_primary stod e ks \<longleftrightarrow> (\<forall>p zs n. stream p (ks @ zs) \<and> closes zs \<and> tokens_left p \<le> n \<longrightarrow>
     (\<exists>e'. shape e' = e \<and> reads p zs (Some e') (parsePrefixExpression stod (parseExpression stod n) (Suc n) p)))"

text \<open>Reading an expression of level \<open>prec\<close> takes the loop of any lower level to its end.\<close>

definition reads_level :: "(string \<Rightarrow> double option) \<Rightarrow> nat \<Rightarrow> expr \<Rightarrow> kind list \<Rightarrow> bool" where
  "reads_level stod prec e ks \<longleftrightarrow> (\<forall>q p zs n. q \<le> prec \<and> stream p (ks @ zs) \<and> closes zs
     \<and> getPrecedence (fst (hd_kind zs)) \<le> prec + 1 \<and> tokens_left p \<le> n \<longrightarrow>
     (\<exists>e' p' m. shape e' = e \<and> stream p' zs \<and> parse_errors p' = parse_errors p
        \<and> tokens_left p' < m \<and> tokens_left p' \<le> tokens_left p
        \<and> parseExpression stod (Suc n) q p = infix_loop (parseExpression stod n) m q e' p'))"

definition reads_arguments :: "(string \<Rightarrow> double option) \<Rightarrow> expr list \<Rightarrow> kind list \<Rightarrow> bool" where
  "reads_arguments stod es ks \<longleftrightarrow> (\<forall>p b zs n m acc. stream p (ks @ b # zs) \<and> fst b = RIGHT_PAREN
     \<and> tokens_left p < n \<and> tokens_left p < m \<longrightarrow>
     (\<exists>es'. map shape es' = es \<and> reads p (b # zs) (acc @ es') (and_then (parseExpression stod n 0 p)
        (\<lambda>x p1. case x of None \<Rightarrow> Done [] p1
                 | Some e \<Rightarrow> expression_list_loop (parseExpression stod n) m (acc @ [e]) p1))))"

definition reads_parameter :: "(string \<Rightarrow> double option) \<Rightarrow> token_type \<Rightarrow> expr option \<Rightarrow> kind list \<Rightarrow> bool" where
  "reads_parameter stod op param ks \<longleftrightarrow> (\<forall>p zs n. stream p (ks @ zs) \<and> tokens_left p < n \<longrightarrow>
     (\<exists>x. map_option shape x = param \<and> reads p zs (Some x) (parse_agg_parameter (parseExpression stod n) op p)))"

lemma reads_level_expr:
  assumes "reads_level stod prec e ks" "stream p (ks @ zs)" "closes zs"
    "getPrecedence (fst (hd_kind zs)) \<le> prec" "tokens_left p < n"
  shows "\<exists>e'. shape e' = e \<and> reads p zs (Some e') (parseExpression stod n prec p)"
proof -
  from assms(5) obtain k where n: "n = Suc k" "tokens_left p \<le> k" by (cases n) auto
  with assms(1-4) obtain e' p' m where r: "shape e' = e" "stream p' zs" "parse_errors p' = parse_errors p"
    "tokens_left p' < m" "tokens_left p' \<le> tokens_left p"
    "parseExpression stod n prec p = infix_loop (parseExpression stod k) m prec e' p'"
    unfolding reads_level_def by (metis le_SucI Suc_eq_plus1 order_refl)
  from r(4) obtain m' where "m = Suc m'" by (cases m) auto
  with r assms(4) stream_cur_hd [OF r(2)] show ?thesis by (auto simp: reads_def)
qed

lemma hd_kind_closes: "fst (hd_kind zs) \<in> {RIGHT_PAREN, COMMA, RIGHT_BRACKET, LEFT_BRACKET} \<Longrightarrow> closes zs"
  by (auto simp: closes_def)

lemma low_precedence: "getPrecedence RIGHT_PAREN = 0" "getPrecedence COMMA = 0" "getPrecedence EOF_TOKEN = 0"
  "getPrecedence LEFT_BRACKET = 8"
  by (simp_all add: getPrecedence_def precedenceMap_def)

lemma reads_expr_before:
  assumes "reads_level stod 0 e ks" "stream p (ks @ b # zs)" "fst b = RIGHT_PAREN \<or> fst b = COMMA" "tokens_left p < n"
  shows "\<exists>e'. shape e' = e \<and> reads p (b # zs) (Some e') (parseExpression stod n 0 p)"
  using assms(3) low_precedence by (intro reads_level_expr [OF assms(1,2) _ _ assms(4)]) (auto intro: hd_kind_closes)

lemma reads_atom:
  assumes "reads_primary stod e ks"
  shows "reads_level stod prec e ks"
  unfolding reads_level_def
proof (intro allI impI, elim conjE)
  fix q p zs n
  assume s: "stream p (ks @ zs)" and c: "closes zs" and left: "tokens_left p \<le> n"
  from assms s c left obtain e' p' where "shape e' = e"
    "parsePrefixExpression stod (parseExpression stod n) (Suc n) p = Done (Some e') p'" "stream p' zs"
    "parse_errors p' = parse_errors p" "tokens_left p' \<le> tokens_left p"
    unfolding reads_primary_def reads_def by blast
  with left show "\<exists>e' p' m. shape e' = e \<and> stream p' zs \<and> parse_errors p' = parse_errors p
      \<and> tokens_left p' < m \<and> tokens_left p' \<le> tokens_left p
      \<and> parseExpression stod (Suc n) q p = infix_loop (parseExpression stod n) m q e' p'"
    by (intro exI [of _ e'] exI [of _ p'] exI [of _ "Suc n"]) (simp add: node_then_def del: infix_loop.simps)
qed

lemma infix_step:
  assumes "stream p (k # ks)" "q < getPrecedence (fst k)" "tokens_left p < m" "tokens_left p \<le> n"
    and "\<And>m'. tokens_left p \<le> m' \<Longrightarrow>
      \<exists>e'. shape e' = e \<and> reads p zs (Some e') (parseInfixExpression (parseExpression stod n) m' left p)"
  shows "\<exists>e' p' m'. shape e' = e
    \<and> infix_loop (parseExpression stod n) m q left p = infix_loop (parseExpression stod n) m' q e' p'
    \<and> stream p' zs \<and> parse_errors p' = parse_errors p \<and> tokens_left p' < m' \<and> tokens_left p' \<le> tokens_left p"
proof -
  from assms(3) obtain m' where m: "m = Suc m'" "tokens_left p \<le> m'" by (cases m) auto
  note 1 = stream_Cons [OF assms(1)]
  from assms(5) [OF m(2)] obtain e' p' where
    p': "shape e' = e" "parseInfixExpression (parseExpression stod n) m' left p = Done (Some e') p'" "stream p' zs"
      "parse_errors p' = parse_errors p"
    by (auto simp: reads_def)
  have "expr_ok p (parseInfixExpression (parseExpression stod n) m' left p)"
    using 1(1,2) by (intro recursive.parseInfixExpression_ok stream_ok [OF assms(1)] assms(4) m(2)) simp
  with p'(2) have "tokens_left p' < tokens_left p" by (simp add: consumed_def)
  moreover have "infix_loop (parseExpression stod n) m q left p = infix_loop (parseExpression stod n) m' q e' p'"
    using 1(1,2) assms(2) p'(2) by (simp add: m node_then_def)
  ultimately show ?thesis using p' m(2) by (intro exI [of _ e'] exI [of _ p'] exI [of _ m']) simp
qed

text \<open>The loop of level \<open>q\<close> reads the left operand and goes on with the operator behind it.\<close>

lemma reads_infix:
  assumes l: "reads_level stod (getPrecedence (fst k) - 1) l ks" and "q < getPrecedence (fst k)"
    and s: "stream p (ks @ k # kr)" "closes (k # kr)" and left: "tokens_left p \<le> n"
    and step: "\<And>l' p1 m'. \<lbrakk>shape l' = l; stream p1 (k # kr); tokens_left p1 \<le> n; tokens_left p1 \<le> m'\<rbrakk> \<Longrightarrow>
      \<exists>e'. shape e' = e \<and> reads p1 zs (Some e') (parseInfixExpression (parseExpression stod n) m' l' p1)"
  shows "\<exists>e' p' m. shape e' = e \<and> stream p' zs \<and> parse_errors p' = parse_errors p
        \<and> tokens_left p' < m \<and> tokens_left p' \<le> tokens_left p
        \<and> parseExpression stod (Suc n) q p = infix_loop (parseExpression stod n) m q e' p'"
proof -
  from assms have "q \<le> getPrecedence (fst k) - 1" "getPrecedence (fst (hd_kind (k # kr))) \<le> getPrecedence (fst k) - 1 + 1"
    by simp_all
  with l s left obtain l' p1 m where r: "shape l' = l" "stream p1 (k # kr)" "parse_errors p1 = parse_errors p"
    "tokens_left p1 < m" "tokens_left p1 \<le> tokens_left p"
    "parseExpression stod (Suc n) q p = infix_loop (parseExpression stod n) m q l' p1"
    unfolding reads_level_def by blast
  from r(5) left have left1: "tokens_left p1 \<le> n" by simp
  from infix_step [OF r(2) assms(2) r(4) left1 step [OF r(1,2) left1]] obtain e' p' m' where
    "shape e' = e" "infix_loop (parseExpression stod n) m q l' p1 = infix_loop (parseExpression stod n) m' q e' p'"
    "stream p' zs" "parse_errors p' = parse_errors p1" "tokens_left p' < m'" "tokens_left p' \<le> tokens_left p1" by blast
  with r show ?thesis by (intro exI [of _ e'] exI [of _ p'] exI [of _ m']) simp
qed

lemma binary_op_closes: "binary_op (fst k) \<Longrightarrow> closes (k # ks)"
  by (auto simp: closes_def binary_op_def operator_rank_def split: if_splits)

lemma modifiers_first:
  assumes "matching f ls km" "group_side side incl kg" "starts ks"
  shows "fst (hd_kind (km @ kg @ ks)) \<noteq> BOOL" "fst (hd_kind (kg @ ks)) \<notin> {ON, IGNORING}"
    "fst (hd_kind ks) \<notin> {GROUP_LEFT, GROUP_RIGHT}"
proof -
  note w = starts_words [OF assms(3)]
  then show "fst (hd_kind ks) \<notin> {GROUP_LEFT, GROUP_RIGHT}" by blast
  show g: "fst (hd_kind (kg @ ks)) \<notin> {ON, IGNORING}" using assms(2) w by cases auto
  have "fst (hd_kind (kg @ ks)) \<noteq> BOOL" using assms(2) w by cases auto
  with assms(1) show "fst (hd_kind (km @ kg @ ks)) \<noteq> BOOL" by cases auto
qed

lemma parse_binary_reads:
  assumes "stream p (op # kb @ km @ kg @ ks @ zs)" "bool_modifier (fst op) rb kb"
    "matching f ls km" "group_side side incl kg" "starts ks" "reads_level stod (getPrecedence (fst op)) r ks" "closes zs"
    "getPrecedence (fst (hd_kind zs)) \<le> getPrecedence (fst op)" "tokens_left p \<le> n" "tokens_left p \<le> m"
  shows "\<exists>r'. shape r' = r \<and> reads p zs (Some (BinaryExpr (fst op) l r'
      \<lparr>matchingLabels = ls, on_labels = f, groupSide = side, includeLabels = incl, returnBool = rb\<rparr>))
      (parse_binary (parseExpression stod n) m l p)"
proof -
  note 1 = stream_Cons [OF assms(1)]
  note first = modifiers_first [OF assms(3,4) starts_append [OF assms(5)], of zs]
  from parse_bool_modifier_reads [OF assms(2) 1(4) first(1)] obtain p1 where
    p1: "parse_bool_modifier (fst op) (nextToken p) = Done (Some rb) p1" "stream p1 (km @ kg @ ks @ zs)"
      "parse_errors p1 = parse_errors p" "tokens_left p1 < tokens_left p"
    using 1(5,6) by (auto simp: reads_def)
  have "tokens_left p1 \<le> m" using p1(4) assms(10) by simp
  from parse_matching_reads [OF assms(3) p1(2) first(2) this] obtain p2 where
    p2: "parse_matching m p1 = Done (Some (f, ls)) p2" "stream p2 (kg @ ks @ zs)"
      "parse_errors p2 = parse_errors p" "tokens_left p2 < tokens_left p"
    using p1(3,4) by (auto simp: reads_def)
  have "tokens_left p2 \<le> m" using p2(4) assms(10) by simp
  from parse_group_side_reads [OF assms(4) p2(2) first(3) this] obtain p3 where
    p3: "parse_group_side m p2 = Done (side, incl) p3" "stream p3 (ks @ zs)"
      "parse_errors p3 = parse_errors p" "tokens_left p3 < tokens_left p"
    using p2(3,4) by (auto simp: reads_def)
  have "tokens_left p3 < n" using p3(4) assms(9) by simp
  from reads_level_expr [OF assms(6) p3(2) assms(7,8) this] obtain r' p4 where
    p4: "shape r' = r" "parseExpression stod n (getPrecedence (fst op)) p3 = Done (Some r') p4" "stream p4 zs"
      "parse_errors p4 = parse_errors p" "tokens_left p4 \<le> tokens_left p"
    using p3(3,4) by (auto simp: reads_def)
  from p1(1) p2(1) p3(1) p4 1(1) show ?thesis
    by (intro exI [of _ r']) (simp add: parse_binary_def node_then_def reads_Done)
qed

lemma reads_binary:
  assumes "binary_op (fst op)" "prec < getPrecedence (fst op)"
    "reads_level stod (getPrecedence (fst op) - 1) l ks" "bool_modifier (fst op) rb kb" "matching f ls km"
    "group_side side incl kg" "starts ks'" "reads_level stod (getPrecedence (fst op)) r ks'"
  shows "reads_level stod prec (BinaryExpr (fst op) l r \<lparr>matchingLabels = ls, on_labels = f, groupSide = side,
        includeLabels = incl, returnBool = rb\<rparr>) (ks @ op # kb @ km @ kg @ ks')"
  unfolding reads_level_def
proof (intro allI impI, elim conjE)
  fix q p zs n
  assume q: "q \<le> prec" and s: "stream p ((ks @ op # kb @ km @ kg @ ks') @ zs)" and c: "closes zs"
    and follow: "getPrecedence (fst (hd_kind zs)) \<le> prec + 1" and left: "tokens_left p \<le> n"
  let ?e = "BinaryExpr (fst op) l r \<lparr>matchingLabels = ls, on_labels = f, groupSide = side,
        includeLabels = incl, returnBool = rb\<rparr>"
  from s have s': "stream p (ks @ op # kb @ km @ kg @ ks' @ zs)" by simp
  have op: "fst op \<noteq> LEFT_BRACKET" using documented_precedence(3) [OF assms(1)] .
  show "\<exists>e' p' m. shape e' = ?e \<and> stream p' zs \<and> parse_errors p' = parse_errors p
        \<and> tokens_left p' < m \<and> tokens_left p' \<le> tokens_left p
        \<and> parseExpression stod (Suc n) q p = infix_loop (parseExpression stod n) m q e' p'"
  proof (rule reads_infix [OF assms(3) _ s' binary_op_closes [OF assms(1)] left])
    show "q < getPrecedence (fst op)" using q assms(2) by simp
    fix l' p1 m'
    assume l': "shape l' = l" and p1: "stream p1 (op # kb @ km @ kg @ ks' @ zs)" "tokens_left p1 \<le> n" "tokens_left p1 \<le> m'"
    have f: "getPrecedence (fst (hd_kind zs)) \<le> getPrecedence (fst op)" using follow assms(2) by simp
    from parse_binary_reads [OF p1(1) assms(4-8) c f p1(2,3), of l'] obtain r' where "shape r' = r"
      "reads p1 zs (Some (BinaryExpr (fst op) l' r' \<lparr>matchingLabels = ls, on_labels = f, groupSide = side,
        includeLabels = incl, returnBool = rb\<rparr>)) (parse_binary (parseExpression stod n) m' l' p1)" by blast
    with l' op stream_cur [OF p1(1)] show
      "\<exists>e'. shape e' = ?e \<and> reads p1 zs (Some e') (parseInfixExpression (parseExpression stod n) m' l' p1)"
      by (intro exI conjI) (auto simp: parseInfixExpression_def)
  qed
qed

lemma shape_vector: "shape e = VectorSelector vs \<Longrightarrow> \<exists>vs'. e = VectorSelector vs' \<and> bare_selector vs' = vs"
  by (cases e) auto

lemma reads_matrix:
  assumes "prec < 8" "reads_level stod 7 (VectorSelector vs) ks" "fst a = LEFT_BRACKET" "parseDuration d = Inr sec"
    "fst b = RIGHT_BRACKET"
  shows "reads_level stod prec (MatrixSelector vs (kind_token (DURATION, d)) sec) (ks @ [a, (DURATION, d), b])"
  unfolding reads_level_def
proof (intro allI impI, elim conjE)
  fix q p zs n
  assume q: "q \<le> prec" and s: "stream p ((ks @ [a, (DURATION, d), b]) @ zs)" and left: "tokens_left p \<le> n"
  let ?e = "MatrixSelector vs (kind_token (DURATION, d)) sec"
  from s have s': "stream p (ks @ a # (DURATION, d) # b # zs)" by simp
  have lv: "reads_level stod (getPrecedence (fst a) - 1) (VectorSelector vs) ks"
    using assms(2,3) low_precedence(4) by simp
  show "\<exists>e' p' m. shape e' = ?e \<and> stream p' zs \<and> parse_errors p' = parse_errors p
        \<and> tokens_left p' < m \<and> tokens_left p' \<le> tokens_left p
        \<and> parseExpression stod (Suc n) q p = infix_loop (parseExpression stod n) m q e' p'"
  proof (rule reads_infix [OF lv _ s' _ left])
    show "q < getPrecedence (fst a)" "closes (a # (DURATION, d) # b # zs)"
      using q assms(1,3) low_precedence(4) by (simp_all add: hd_kind_closes)
    fix l' p1 m'
    assume l': "shape l' = VectorSelector vs" and p1: "stream p1 (a # (DURATION, d) # b # zs)"
    from shape_vector [OF l'] obtain vs' where vs': "l' = VectorSelector vs'" "bare_selector vs' = vs" by blast
    note sub = isSubqueryRange_reads [OF p1 assms(3)]
    obtain y p2 where p2: "isSubqueryRange p1 = (y, p2)" by (rule prod.exhaust)
    from sub assms(5) have y: "\<not> y" "stream p2 (a # (DURATION, d) # b # zs)" "parse_errors p2 = parse_errors p1"
      "tokens_left p2 = tokens_left p1" by (simp_all add: p2)
    from parseMatrixSelector_reads [OF y(2) assms(3,5,4), of vs'] obtain t where
      "kind t = (DURATION, d)" "reads p2 zs (Some (MatrixSelector vs' t sec)) (parseMatrixSelector vs' p2)" by blast
    with vs' y p2 stream_cur [OF p1] assms(3) show
      "\<exists>e'. shape e' = ?e \<and> reads p1 zs (Some e') (parseInfixExpression (parseExpression stod n) m' l' p1)"
      by (intro exI [of _ "MatrixSelector vs' t sec"]) (auto simp: parseInfixExpression_def reads_def bare_kind)
  qed
qed

lemma reads_sub_query:
  assumes "prec < 8" "reads_level stod 7 e ks" "fst a = LEFT_BRACKET" "parseDuration d = Inr sec" "fst c = COLON"
    "resolution res kr" "fst b = RIGHT_BRACKET" "offset_at off at kx"
  shows "reads_level stod prec (SubqueryExpr e (subquery_node d sec res off at))
    (ks @ a # (DURATION, d) # c # kr @ b # kx)"
  unfolding reads_level_def
proof (intro allI impI, elim conjE)
  fix q p zs n
  assume q: "q \<le> prec" and s: "stream p ((ks @ a # (DURATION, d) # c # kr @ b # kx) @ zs)"
    and cl: "closes zs" and left: "tokens_left p \<le> n"
  let ?e = "SubqueryExpr e (subquery_node d sec res off at)" and ?ks = "a # (DURATION, d) # c # kr @ b # kx @ zs"
  from s have s': "stream p (ks @ ?ks)" by simp
  have lv: "reads_level stod (getPrecedence (fst a) - 1) e ks"
    using assms(2,3) low_precedence(4) by simp
  show "\<exists>e' p' m. shape e' = ?e \<and> stream p' zs \<and> parse_errors p' = parse_errors p
        \<and> tokens_left p' < m \<and> tokens_left p' \<le> tokens_left p
        \<and> parseExpression stod (Suc n) q p = infix_loop (parseExpression stod n) m q e' p'"
  proof (rule reads_infix [OF lv _ s' _ left])
    show "q < getPrecedence (fst a)" "closes ?ks"
      using q assms(1,3) low_precedence(4) by (simp_all add: hd_kind_closes)
    fix l' p1 m'
    assume l': "shape l' = e" and p1: "stream p1 ?ks"
    note sub = isSubqueryRange_reads [OF p1 assms(3)]
    obtain y p2 where p2: "isSubqueryRange p1 = (y, p2)" by (rule prod.exhaust)
    from sub assms(5) have y: "y" "stream p2 ?ks" "parse_errors p2 = parse_errors p1"
      "tokens_left p2 = tokens_left p1" by (simp_all add: p2)
    from parseSubqueryExpression_reads [OF y(2) assms(3,5,7,4,6,8) cl, of l'] obtain sq where
      "bare_subquery sq = subquery_node d sec res off at"
      "reads p2 zs (Some (SubqueryExpr l' sq)) (parseSubqueryExpression l' p2)" by blast
    with l' y p2 stream_cur [OF p1] assms(3) show
      "\<exists>e'. shape e' = ?e \<and> reads p1 zs (Some e') (parseInfixExpression (parseExpression stod n) m' l' p1)"
      by (intro exI [of _ "SubqueryExpr l' sq"]) (auto simp: parseInfixExpression_def reads_def)
  qed
qed

lemma reads_vector: "selector vs ks \<Longrightarrow> reads_primary stod (VectorSelector vs) ks"
  unfolding reads_primary_def
proof (intro allI impI, elim conjE)
  fix p zs n
  assume sel: "selector vs ks" and s: "stream p (ks @ zs)" and c: "closes zs" and left: "tokens_left p \<le> n"
  from parseVectorSelector_reads [OF sel s c, of "Suc n"] left obtain vs' where
    vs': "bare_selector vs' = vs" "reads p zs (Some (VectorSelector vs')) (parseVectorSelector (Suc n) p)" by auto
  have "parsePrefixExpression stod (parseExpression stod n) (Suc n) p = parseVectorSelector (Suc n) p"
    using sel
  proof cases
    case (by_name name off at ks')
    with s have st: "stream p ((IDENTIFIER, name) # ks' @ zs)" by simp
    have "fst (hd_kind (ks' @ zs)) \<noteq> LEFT_PAREN"
      using by_name(4) c by (cases rule: offset_at.cases) (auto simp: closes_def elim: at_suffix.cases)
    with stream_cur [OF st] stream_peek [OF st] show ?thesis by (simp add: parsePrefixExpression_def)
  next
    case (by_name_and_labels ms ks1 off at ks2 name)
    with s have st: "stream p ((IDENTIFIER, name) # ks1 @ ks2 @ zs)" by simp
    have "\<exists>a ks3. ks1 = a # ks3 \<and> fst a = LEFT_BRACE" using by_name_and_labels(3) by cases auto
    with stream_cur [OF st] stream_peek [OF st] show ?thesis by (auto simp: parsePrefixExpression_def)
  next
    case (by_labels ms ks1 off at ks2)
    have "\<exists>a ks3. ks1 = a # ks3 \<and> fst a = LEFT_BRACE" using by_labels(3) by cases auto
    with s by_labels(2) have "cur p = LEFT_BRACE" using stream_cur by fastforce
    then show ?thesis by (simp add: parsePrefixExpression_def)
  qed
  with vs' show "\<exists>e'. shape e' = VectorSelector vs
      \<and> reads p zs (Some e') (parsePrefixExpression stod (parseExpression stod n) (Suc n) p)"
    by (intro exI [of _ "VectorSelector vs'"]) simp
qed

lemma reads_literal:
  assumes "\<And>p n zs. stream p (k # zs) \<Longrightarrow>
      parsePrefixExpression stod (parseExpression stod n) (Suc n) p = Done (Some e) (nextToken p)"
    and "shape e = e"
  shows "reads_primary stod e [k]"
  unfolding reads_primary_def
proof (intro allI impI, elim conjE)
  fix p zs n
  assume "stream p ([k] @ zs)"
  then have s: "stream p (k # zs)" by simp
  from stream_Cons [OF s] assms show "\<exists>e'. shape e' = e
      \<and> reads p zs (Some e') (parsePrefixExpression stod (parseExpression stod n) (Suc n) p)"
    by (intro exI [of _ e]) (simp add: assms(1) [OF s] reads_Done)
qed

lemma reads_number: "stod l = Some v \<Longrightarrow> reads_primary stod (NumberLiteral v) [(NUMBER, l)]"
  using stream_Cons(1,3) by (intro reads_literal) (force simp: parsePrefixExpression_def parseNumberLiteral_def)+

lemma reads_string: "reads_primary stod (StringLiteral x) [(STRING, x)]"
  using stream_Cons(1,3) by (intro reads_literal) (force simp: parsePrefixExpression_def parseStringLiteral_def)+

lemma reads_parens:
  assumes "fst a = LEFT_PAREN" "reads_level stod 0 e ks" "fst b = RIGHT_PAREN"
  shows "reads_primary stod (ParenExpr e) (a # ks @ [b])"
  unfolding reads_primary_def
proof (intro allI impI, elim conjE)
  fix p zs n
  assume s: "stream p ((a # ks @ [b]) @ zs)" and left: "tokens_left p \<le> n"
  from s have s': "stream p (a # ks @ b # zs)" by simp
  note 1 = stream_Cons [OF s']
  have "tokens_left (nextToken p) < n" using 1(6) left by simp
  from reads_expr_before [OF assms(2) 1(4) _ this] assms(3) obtain e' p1 where
    p1: "shape e' = e" "parseExpression stod n 0 (nextToken p) = Done (Some e') p1" "stream p1 (b # zs)"
      "parse_errors p1 = parse_errors p" "tokens_left p1 < tokens_left p"
    using 1(5,6) by (auto simp: reads_def)
  note 2 = stream_Cons [OF p1(3)]
  from 1(1) 2 p1 assms(1,3) show "\<exists>e'. shape e' = ParenExpr e
      \<and> reads p zs (Some e') (parsePrefixExpression stod (parseExpression stod n) (Suc n) p)"
    by (intro exI [of _ "ParenExpr e'"])
      (simp add: parsePrefixExpression_def parseParenExpression_def node_then_def reads_Done)
qed

definition reads_signed :: "(string \<Rightarrow> double option) \<Rightarrow> expr \<Rightarrow> kind list \<Rightarrow> bool" where
  "reads_signed stod e ks \<longleftrightarrow> (\<forall>p zs n. stream p (ks @ zs) \<and> closes zs \<and> getPrecedence (fst (hd_kind zs)) \<le> 7
     \<and> tokens_left p \<le> n \<longrightarrow>
     (\<exists>e'. shape e' = e \<and> reads p zs (Some e') (parsePrefixExpression stod (parseExpression stod n) (Suc n) p)))"

lemma reads_sign:
  assumes "fst u = SUB \<or> fst u = ADD"
    and operand: "\<And>p zs n. \<lbrakk>stream p (ks @ zs); closes zs; getPrecedence (fst (hd_kind zs)) \<le> 7; tokens_left p < n\<rbrakk> \<Longrightarrow>
      \<exists>e'. shape e' = e \<and> reads p zs (Some e') (parseExpression stod n 7 p)"
  shows "reads_signed stod (UnaryExpr (fst u) e) (u # ks)"
  unfolding reads_signed_def
proof (intro allI impI, elim conjE)
  fix p zs n
  assume s: "stream p ((u # ks) @ zs)" and c: "closes zs" "getPrecedence (fst (hd_kind zs)) \<le> 7"
    and left: "tokens_left p \<le> n"
  from s have s': "stream p (u # ks @ zs)" by simp
  note 1 = stream_Cons [OF s']
  have "tokens_left (nextToken p) < n" using 1(6) left by simp
  from operand [OF 1(4) c this] obtain e' p1 where
    "shape e' = e" "parseExpression stod n 7 (nextToken p) = Done (Some e') p1" "stream p1 zs"
    "parse_errors p1 = parse_errors p" "tokens_left p1 \<le> tokens_left p"
    using 1(5,6) by (auto simp: reads_def)
  with 1(1) assms(1) show "\<exists>e'. shape e' = UnaryExpr (fst u) e
      \<and> reads p zs (Some e') (parsePrefixExpression stod (parseExpression stod n) (Suc n) p)"
    by (intro exI [of _ "UnaryExpr (fst u) e'"])
      (auto simp: parsePrefixExpression_def parseUnaryExpression_def node_then_def reads_Done)
qed

lemma reads_signed_operand:
  assumes "reads_signed stod e ks" "stream p (ks @ zs)" "closes zs" "getPrecedence (fst (hd_kind zs)) \<le> q" "q \<le> 7"
    "tokens_left p < n"
  shows "\<exists>e'. shape e' = e \<and> reads p zs (Some e') (parseExpression stod n q p)"
proof -
  from assms(6) obtain k where n: "n = Suc k" "tokens_left p \<le> k" by (cases n) auto
  with assms(1-5) obtain e' p1 where "shape e' = e" "stream p1 zs" "parse_errors p1 = parse_errors p"
    "parsePrefixExpression stod (parseExpression stod k) (Suc k) p = Done (Some e') p1" "tokens_left p1 \<le> tokens_left p"
    unfolding reads_signed_def reads_def by (meson order_trans)
  with assms(4) stream_cur_hd [of p1 zs] show ?thesis by (auto simp: n node_then_def reads_def)
qed

lemma reads_signed_level:
  assumes "reads_signed stod e ks" "prec < 7"
  shows "reads_level stod prec e ks"
  unfolding reads_level_def
proof (intro allI impI, elim conjE)
  fix q p zs n
  assume s: "stream p (ks @ zs)" and c: "closes zs" and "getPrecedence (fst (hd_kind zs)) \<le> prec + 1"
    and left: "tokens_left p \<le> n"
  with assms have "getPrecedence (fst (hd_kind zs)) \<le> 7" by simp
  with assms(1) s c left obtain e' p' where "shape e' = e"
    "parsePrefixExpression stod (parseExpression stod n) (Suc n) p = Done (Some e') p'" "stream p' zs"
    "parse_errors p' = parse_errors p" "tokens_left p' \<le> tokens_left p"
    unfolding reads_signed_def reads_def by blast
  with left show "\<exists>e' p' m. shape e' = e \<and> stream p' zs \<and> parse_errors p' = parse_errors p
      \<and> tokens_left p' < m \<and> tokens_left p' \<le> tokens_left p
      \<and> parseExpression stod (Suc n) q p = infix_loop (parseExpression stod n) m q e' p'"
    by (intro exI [of _ e'] exI [of _ p'] exI [of _ "Suc n"]) (simp add: node_then_def del: infix_loop.simps)
qed

lemma reads_one_argument:
  assumes "reads_level stod 0 e ks"
  shows "reads_arguments stod [e] ks"
  unfolding reads_arguments_def
proof (intro allI impI, elim conjE)
  fix p b zs n m acc
  assume s: "stream p (ks @ b # zs)" and b: "fst b = RIGHT_PAREN" and left: "tokens_left p < n" "tokens_left p < m"
  from reads_expr_before [OF assms s _ left(1)] b obtain e' p1 where
    p1: "shape e' = e" "parseExpression stod n 0 p = Done (Some e') p1" "stream p1 (b # zs)"
      "parse_errors p1 = parse_errors p" "tokens_left p1 \<le> tokens_left p"
    by (auto simp: reads_def)
  from left(2) obtain m' where m: "m = Suc m'" by (cases m) auto
  from p1 stream_cur [OF p1(3)] b show "\<exists>es'. map shape es' = [e] \<and> reads p (b # zs) (acc @ es')
      (and_then (parseExpression stod n 0 p) (\<lambda>x p1. case x of None \<Rightarrow> Done [] p1
         | Some e \<Rightarrow> expression_list_loop (parseExpression stod n) m (acc @ [e]) p1))"
    by (intro exI [of _ "[e']"]) (simp add: m reads_Done)
qed

lemma reads_more_arguments:
  assumes "reads_level stod 0 e ks" "fst c = COMMA" "reads_arguments stod es ks'"
  shows "reads_arguments stod (e # es) (ks @ c # ks')"
  unfolding reads_arguments_def
proof (intro allI impI, elim conjE)
  fix p b zs n m acc
  assume s: "stream p ((ks @ c # ks') @ b # zs)" and b: "fst b = RIGHT_PAREN"
    and left: "tokens_left p < n" "tokens_left p < m"
  from s have s': "stream p (ks @ c # ks' @ b # zs)" by simp
  from reads_expr_before [OF assms(1) s' _ left(1)] assms(2) obtain e' p1 where
    p1: "shape e' = e" "parseExpression stod n 0 p = Done (Some e') p1" "stream p1 (c # ks' @ b # zs)"
      "parse_errors p1 = parse_errors p" "tokens_left p1 \<le> tokens_left p"
    by (auto simp: reads_def)
  note 1 = stream_Cons [OF p1(3)]
  from left(2) obtain m' where m: "m = Suc m'" by (cases m) auto
  have "tokens_left (nextToken p1) < n" "tokens_left (nextToken p1) < m'" using 1(6) p1(5) left m by simp_all
  with assms(3) [unfolded reads_arguments_def, rule_format, of "nextToken p1" b zs n m' "acc @ [e']"] 1(4-6) b p1(4,5)
  obtain es' p2 where "map shape es' = es" "stream p2 (b # zs)" "parse_errors p2 = parse_errors p"
    "tokens_left p2 \<le> tokens_left p"
    "and_then (parseExpression stod n 0 (nextToken p1)) (\<lambda>x p1. case x of None \<Rightarrow> Done [] p1
         | Some e \<Rightarrow> expression_list_loop (parseExpression stod n) m' ((acc @ [e']) @ [e]) p1)
       = Done ((acc @ [e']) @ es') p2"
    by (auto simp: reads_def)
  with p1 1(1) assms(2) show "\<exists>es'. map shape es' = e # es \<and> reads p (b # zs) (acc @ es')
      (and_then (parseExpression stod n 0 p) (\<lambda>x p1. case x of None \<Rightarrow> Done [] p1
         | Some e \<Rightarrow> expression_list_loop (parseExpression stod n) m (acc @ [e]) p1))"
    by (intro exI [of _ "e' # es'"]) (simp add: m reads_Done)
qed

lemma reads_call:
  assumes "fst a = LEFT_PAREN" "fst b = RIGHT_PAREN" "es = [] \<and> ks = [] \<or> reads_arguments stod es ks \<and> starts ks"
  shows "reads_primary stod (CallExpr f es) ((IDENTIFIER, f) # a # ks @ [b])"
  unfolding reads_primary_def
proof (intro allI impI, elim conjE)
  fix p zs n
  assume s: "stream p (((IDENTIFIER, f) # a # ks @ [b]) @ zs)" and left: "tokens_left p \<le> n"
  from s have s': "stream p ((IDENTIFIER, f) # a # ks @ b # zs)" by simp
  note 1 = stream_Cons [OF s']
  note 2 = stream_Cons [OF 1(4)]
  let ?p2 = "nextToken (nextToken p)"
  have "\<exists>es'. map shape es' = es
      \<and> reads ?p2 (b # zs) es' (parseExpressionList (parseExpression stod n) (Suc n) RIGHT_PAREN ?p2)"
    using assms(3)
  proof (elim disjE conjE)
    assume "es = []" "ks = []"
    with 2(4) stream_cur [of ?p2 b zs] assms(2) show ?thesis
      by (simp add: parseExpressionList_def reads_Done)
  next
    assume r: "reads_arguments stod es ks" and st: "starts ks"
    from starts_words [OF starts_append [OF st]] stream_cur_hd [OF 2(4)] have "cur ?p2 \<noteq> RIGHT_PAREN" by simp
    moreover have "tokens_left ?p2 < n" "tokens_left ?p2 < Suc n" using 1(6) 2(6) left by simp_all
    moreover note r [unfolded reads_arguments_def, rule_format, of ?p2 b zs n "Suc n" "[]", unfolded append_Nil]
    ultimately show ?thesis using 2(4) assms(2) by (simp add: parseExpressionList_def)
  qed
  then obtain es' p3 where p3: "map shape es' = es" "stream p3 (b # zs)" "parse_errors p3 = parse_errors p"
    "parseExpressionList (parseExpression stod n) (Suc n) RIGHT_PAREN ?p2 = Done es' p3" "tokens_left p3 < tokens_left p"
    using 1(5,6) 2(5,6) by (auto simp: reads_def)
  note 3 = stream_Cons [OF p3(2)]
  from p3 1 2(1) 3 stream_peek [OF s'] assms(1,2) show "\<exists>e'. shape e' = CallExpr f es
      \<and> reads p zs (Some e') (parsePrefixExpression stod (parseExpression stod n) (Suc n) p)"
    by (intro exI [of _ "CallExpr f es'"])
      (simp add: parsePrefixExpression_def parseCallExpression_def reads_Done)
qed

lemma reads_no_parameter: "\<not> takes_parameter op \<Longrightarrow> reads_parameter stod op None []"
  by (auto simp: reads_parameter_def parse_agg_parameter_def intro: reads_Done)

lemma reads_some_parameter:
  assumes "takes_parameter op" "reads_level stod 0 e ks" "fst c = COMMA"
  shows "reads_parameter stod op (Some e) (ks @ [c])"
  unfolding reads_parameter_def
proof (intro allI impI, elim conjE)
  fix p zs n
  assume s: "stream p ((ks @ [c]) @ zs)" and left: "tokens_left p < n"
  from s have s': "stream p (ks @ c # zs)" by simp
  from reads_expr_before [OF assms(2) s' _ left] assms(3) obtain e' p1 where
    p1: "shape e' = e" "parseExpression stod n 0 p = Done (Some e') p1" "stream p1 (c # zs)"
      "parse_errors p1 = parse_errors p" "tokens_left p1 \<le> tokens_left p"
    by (auto simp: reads_def)
  note 1 = stream_Cons [OF p1(3)]
  from p1 1 assms(1,3) show "\<exists>x. map_option shape x = Some e
      \<and> reads p zs (Some x) (parse_agg_parameter (parseExpression stod n) op p)"
    by (intro exI [of _ "Some e'"]) (simp add: parse_agg_parameter_def node_then_def reads_Done)
qed

text \<open>
  An aggregation: what the clause before the arguments and, when that is empty, the clause behind
  them contribute is left open here.
\<close>

lemma reads_aggregation:
  assumes g: "fst g \<in> set aggregation_ops" and a: "fst a = LEFT_PAREN" and b: "fst b = RIGHT_PAREN"
    and param: "reads_parameter stod (fst g) param ks" and e: "reads_level stod 0 e ks'"
    and pre: "\<And>p N. \<lbrakk>stream p (kc @ a # ks @ ks' @ b # kd @ zs); tokens_left p \<le> N\<rbrakk> \<Longrightarrow>
      reads p (a # ks @ ks' @ b # kd @ zs) (Some (w, ls)) (parse_grouping_clause N p)"
    and post: "\<And>p N. \<lbrakk>stream p (kd @ zs); tokens_left p \<le> N; ls = [] \<and> \<not> w\<rbrakk> \<Longrightarrow>
      reads p zs (Some (w', ls')) (parse_grouping_clause N p)"
    and keep: "\<not> (ls = [] \<and> \<not> w) \<Longrightarrow> kd = [] \<and> w' = w \<and> ls' = ls"
    and s: "stream p (g # kc @ a # ks @ ks' @ b # kd @ zs)" and left: "tokens_left p \<le> n"
  shows "\<exists>e'. shape e' = AggregateExpr (fst g) e ls' w' param
    \<and> reads p zs (Some e') (parsePrefixExpression stod (parseExpression stod n) (Suc n) p)"
proof -
  note 1 = stream_Cons [OF s]
  have "tokens_left (nextToken p) \<le> Suc n" using 1(6) left by simp
  from pre [OF 1(4) this] obtain p1 where p1: "parse_grouping_clause (Suc n) (nextToken p) = Done (Some (w, ls)) p1"
    "stream p1 (a # ks @ ks' @ b # kd @ zs)" "parse_errors p1 = parse_errors p" "tokens_left p1 < tokens_left p"
    using 1(5,6) by (auto simp: reads_def)
  note 2 = stream_Cons [OF p1(2)]
  have "tokens_left (nextToken p1) < n" using 2(6) p1(4) left by simp
  with param [unfolded reads_parameter_def, rule_format, of "nextToken p1" "ks' @ b # kd @ zs" n] 2(4-6) p1(3,4)
  obtain x p2 where p2: "map_option shape x = param" "stream p2 (ks' @ b # kd @ zs)" "parse_errors p2 = parse_errors p"
    "parse_agg_parameter (parseExpression stod n) (fst g) (nextToken p1) = Done (Some x) p2" "tokens_left p2 < tokens_left p"
    by (auto simp: reads_def)
  have "tokens_left p2 < n" using p2(5) left by simp
  from reads_expr_before [OF e p2(2) _ this] b obtain e' p3 where
    p3: "shape e' = e" "parseExpression stod n 0 p2 = Done (Some e') p3" "stream p3 (b # kd @ zs)"
      "parse_errors p3 = parse_errors p" "tokens_left p3 < tokens_left p"
    using p2(3,5) by (auto simp: reads_def)
  note 4 = stream_Cons [OF p3(3)]
  have "\<exists>p5. (if ls = [] \<and> \<not> w then node_then (parse_grouping_clause (Suc n) (nextToken p3))
         (\<lambda>(without', ls'). Done (Some (AggregateExpr (cur p) e' ls' without' x)))
      else Done (Some (AggregateExpr (cur p) e' ls w x)) (nextToken p3))
        = Done (Some (AggregateExpr (cur p) e' ls' w' x)) p5 \<and> stream p5 zs \<and> parse_errors p5 = parse_errors p
      \<and> tokens_left p5 \<le> tokens_left p"
  proof (cases "ls = [] \<and> \<not> w")
    case True
    have "tokens_left (nextToken p3) \<le> Suc n" using 4(6) p3(5) left by simp
    from post [OF 4(4) this True] obtain p5 where
      "parse_grouping_clause (Suc n) (nextToken p3) = Done (Some (w', ls')) p5" "stream p5 zs"
      "parse_errors p5 = parse_errors p" "tokens_left p5 \<le> tokens_left p"
      using 4(5,6) p3(4,5) by (auto simp: reads_def)
    with True show ?thesis by (simp add: node_then_def)
  qed (use keep 4(4-6) p3(4,5) in auto)
  then obtain p5 where p5: "stream p5 zs" "parse_errors p5 = parse_errors p" "tokens_left p5 \<le> tokens_left p"
    "(if ls = [] \<and> \<not> w then node_then (parse_grouping_clause (Suc n) (nextToken p3))
         (\<lambda>(without', ls'). Done (Some (AggregateExpr (cur p) e' ls' without' x)))
      else Done (Some (AggregateExpr (cur p) e' ls w x)) (nextToken p3))
        = Done (Some (AggregateExpr (cur p) e' ls' w' x)) p5" by blast
  have "parseAggregateExpression (parseExpression stod n) (Suc n) p = Done (Some (AggregateExpr (cur p) e' ls' w' x)) p5"
    using p1(1) p2(4) p3(2) p5(4) 1(1) 2(1) 4(1) a b
    by (simp add: parseAggregateExpression_def node_then_def Let_def)
  moreover have "parsePrefixExpression stod (parseExpression stod n) (Suc n) p
      = parseAggregateExpression (parseExpression stod n) (Suc n) p"
    using g 1(1) by (auto simp: parsePrefixExpression_def aggregation_ops_def)
  ultimately show ?thesis
    using p2(1) p3(1) p5(1-3) 1(1)
    by (intro exI [of _ "AggregateExpr (fst g) e' ls' w' x"]) (simp add: reads_Done)
qed

lemma reads_aggregate:
  assumes "fst g \<in> set aggregation_ops" "fst a = LEFT_PAREN" "reads_parameter stod (fst g) param ks"
    "reads_level stod 0 e ks'" "fst b = RIGHT_PAREN"
  shows "reads_primary stod (AggregateExpr (fst g) e [] False param) (g # a # ks @ ks' @ [b])"
    and "\<lbrakk>clause w ls kc; ls \<noteq> [] \<or> w\<rbrakk> \<Longrightarrow>
      reads_primary stod (AggregateExpr (fst g) e ls w param) (g # kc @ a # ks @ ks' @ [b])"
    and "clause w ls kc \<Longrightarrow> reads_primary stod (AggregateExpr (fst g) e ls w param) (g # a # ks @ ks' @ b # kc)"
proof -
  note agg = reads_aggregation [OF assms(1,2,5,3,4)]
  show "reads_primary stod (AggregateExpr (fst g) e [] False param) (g # a # ks @ ks' @ [b])"
    unfolding reads_primary_def using assms(2)
    by (intro allI impI agg [where kc = "[]" and kd = "[]" and w = False and ls = "[]"])
      (auto intro: no_clause_reads simp: closes_def)
  show "reads_primary stod (AggregateExpr (fst g) e ls w param) (g # kc @ a # ks @ ks' @ [b])"
    if "clause w ls kc" "ls \<noteq> [] \<or> w"
    unfolding reads_primary_def using that(2)
    by (intro allI impI agg [where kc = kc and kd = "[]" and w = w and ls = ls])
      (auto intro: parse_grouping_clause_reads [OF that(1)])
  show "reads_primary stod (AggregateExpr (fst g) e ls w param) (g # a # ks @ ks' @ b # kc)" if "clause w ls kc"
    unfolding reads_primary_def using assms(2)
    by (intro allI impI agg [where kc = "[]" and kd = kc and w = False and ls = "[]"])
      (auto intro: no_clause_reads parse_grouping_clause_reads [OF that])
qed

lemma grammar_reads:
  "primary stod e ks \<Longrightarrow> reads_primary stod e ks" "signed_expr stod e ks \<Longrightarrow> reads_signed stod e ks"
  "level stod prec e ks \<Longrightarrow> reads_level stod prec e ks"
  "arguments stod es ks \<Longrightarrow> reads_arguments stod es ks" "parameter stod op param ks \<Longrightarrow> reads_parameter stod op param ks"
proof (induction rule: primary_signed_expr_level_arguments_parameter.inducts)
  case (call a b f)
  then show ?case using reads_call [of a b "[]" "[]"] by simp
next
  case (call_args a es ks b f)
  then show ?case using reads_call [of a b es ks] level_starts by blast
next
  case (unary u e ks)
  then show ?case using reads_level_expr by (intro reads_sign) blast+
next
  case (unary_again u e ks)
  then show ?case using reads_signed_operand by (intro reads_sign) blast+
next
  case (binary op prec l ks rb kb f ls km side incl kg r ks')
  note rank = documented_precedence(1) [OF binary(1), symmetric]
  show ?case using binary level_starts unfolding rank by (intro reads_binary) blast+
next
  case (matrix prec vs ks a d s b)
  then show ?case by (intro reads_matrix reads_atom reads_vector)
qed (auto intro: reads_number reads_string reads_vector reads_parens reads_aggregate reads_no_parameter
      reads_some_parameter reads_one_argument reads_more_arguments reads_atom reads_signed_level reads_sub_query)

section \<open>Parsing a query\<close>

fun parsed_tree :: "expr option outcome \<Rightarrow> expr option" where
  "parsed_tree (Done x p) = x"
| "parsed_tree (Thrown m) = None"
| "parsed_tree NoFuel = None"

lemma stream_mk_parser:
  assumes "feeds (mk_lexer s) ks" "list_all (\<lambda>k. fst k \<noteq> EOF_TOKEN) ks"
  shows "stream (mk_parser (mk_lexer s)) ks"
proof -
  obtain t1 lx1 where 1: "NextToken (mk_lexer s) = (t1, lx1)" by (rule prod.exhaust)
  obtain t2 lx2 where 2: "NextToken lx1 = (t2, lx2)" by (rule prod.exhaust)
  have ok: "lexer_ok (mk_lexer s)" "lexer_ok lx1"
    using NextToken_progress [OF lexer_ok_mk_lexer(1) [of s]] lexer_ok_mk_lexer(1) by (simp_all add: 1)
  have "kind t1 = hd_kind ks \<and> feeds lx1 (tl ks)"
    using assms(1) feeds_Nil_next [OF ok(1)] 1 by (cases ks) auto
  moreover from this have "kind t2 = hd_kind (tl ks) \<and> feeds lx2 (tl (tl ks))"
    using feeds_Nil_next [OF ok(2)] 2 by (cases "tl ks") auto
  ultimately show ?thesis
    using mk_parser_ok(1) [of s] assms(2) by (simp add: stream_def mk_parser_def 1 2)
qed

text \<open>Only the tokens that \<open>parseExpression\<close> needs are read.\<close>

lemma parse_query_reads:
  assumes "GetAllTokens (mk_lexer s) = Some ts" "map kind (butlast ts) = ks @ zs" "level stod 0 e ks"
    "closes zs" "getPrecedence (fst (hd_kind zs)) = 0"
  shows "\<exists>e' p. parse_query stod s = Done (Some e') p \<and> shape e' = e \<and> parse_errors p = []"
proof -
  let ?p = "mk_parser (mk_lexer s)"
  from feeds_all_tokens [OF assms(1) lexer_ok_mk_lexer(1)] have "stream ?p (ks @ zs)"
    using stream_mk_parser assms(2) by simp
  moreover have "tokens_left ?p < length s + 1" using mk_parser_ok(2) [of s] by simp
  ultimately obtain e' where "shape e' = e" "reads ?p zs (Some e') (parseExpression stod (length s + 1) 0 ?p)"
    using reads_level_expr [OF grammar_reads(3) [OF assms(3)]] assms(4,5) by fastforce
  with mk_parser_ok(3) [of s] show ?thesis by (auto simp: reads_def parse_query_def ParseExpr_def)
qed


lemma name_level: "n \<noteq> [] \<Longrightarrow> level stod prec (VectorSelector (mk_vector_selector n [])) [(IDENTIFIER, n)]"
proof -
  assume "n \<noteq> []"
  from by_name [OF this no_offset [OF no_at]]
  have "selector (mk_vector_selector n []) [(IDENTIFIER, n)]"
    by (simp add: selector_node_def mk_vector_selector_def)
  then show ?thesis by (intro atom vector)
qed



text \<open>
  The power operator is the exception that the grammar leaves out: the documents bind it to the right, the parser to the left.
\<close>

theorem power_binds_left:
  "map_option shape (parsed_tree (parse_query (\<lambda>s. None) ''a^b^c'')) =
     (let v = (\<lambda>n. VectorSelector (mk_vector_selector n [])) in
      Some (BinaryExpr POW (BinaryExpr POW (v ''a'') (v ''b'') no_modifiers) (v ''c'') no_modifiers))"
  by code_simp

text \<open>
  The parser never looks at what follows a complete expression: when the tokens of a query
  are an expression of the grammar followed by a token that cannot continue it, \<open>ParseExpr\<close>
  returns the tree of the first part and reports no error, whatever the remaining text is.
\<close>

theorem trailing_tokens_ignored:
  assumes "GetAllTokens (mk_lexer s) = Some ts" "map kind (butlast ts) = ks @ z # zs" "level stod 0 e ks"
    "fst z \<notin> {LEFT_PAREN, LEFT_BRACE, OFFSET, AT, BY, WITHOUT}" "getPrecedence (fst z) = 0"
  shows "\<exists>e' p. parse_query stod s = Done (Some e') p \<and> shape e' = e \<and> parse_errors p = []"
  by (rule parse_query_reads [OF assms(1-3)]) (use assms(4,5) in \<open>simp_all add: closes_def\<close>)

theorem trailing_tokens_ignored_witness:
  "\<exists>e' p. parse_query (\<lambda>s. None) ''up ) / ?'' = Done (Some e') p
     \<and> shape e' = VectorSelector (mk_vector_selector ''up'' []) \<and> parse_errors p = []"
proof -
  have "map_option (\<lambda>ts. map kind (butlast ts)) (GetAllTokens (mk_lexer ''up ) / ?'')) =
     Some ([(IDENTIFIER, ''up'')] @ (RIGHT_PAREN, '')'') # [(DIV, ''/''), (ILLEGAL, [])])"
    (is "_ = Some (?ks @ ?z # ?zs)") by code_simp
  then obtain ts where ts: "GetAllTokens (mk_lexer ''up ) / ?'') = Some ts"
    "map kind (butlast ts) = ?ks @ ?z # ?zs" by (auto simp del: append.simps)
  show ?thesis
    by (rule trailing_tokens_ignored [OF ts]) (simp_all add: name_level low_precedence)
qed

text \<open>
  A range selector takes no offset: after \<open>x[5m]\<close> the parser returns and leaves
  \<open>offset 1h\<close> unread, so the tree has offset zero and no error is logged.
\<close>

theorem range_offset_dropped:
  "\<exists>e p. parse_query (\<lambda>s. None) ''x[5m] offset 1h'' = Done (Some e) p \<and> parse_errors p = []
     \<and> shape e = MatrixSelector (mk_vector_selector ''x'' []) (kind_token (DURATION, ''5m'')) 300
     \<and> tok_type (currentToken p) = OFFSET"
proof -
  have "(case parse_query (\<lambda>s. None) ''x[5m] offset 1h'' of
      Done (Some e) p \<Rightarrow> parse_errors p = [] \<and> tok_type (currentToken p) = OFFSET
        \<and> shape e = MatrixSelector (mk_vector_selector ''x'' []) (kind_token (DURATION, ''5m'')) 300
    | _ \<Rightarrow> False)" by code_simp
  then show ?thesis by (auto split: outcome.splits option.splits)
qed

text \<open>
  A duration beyond 64 bits escapes the parser: \<open>std::stoll\<close> throws \<open>std::out_of_range\<close>,
  which the handlers for \<open>std::runtime_error\<close> around \<open>parseDuration\<close> do not catch.
\<close>

theorem huge_duration_escapes:
  "parse_query stod ''x[9223372036854775808s]'' = Thrown ''stoll''"
  by code_simp

text \<open>
  \<open>String()\<close> does not identify an expression: a subquery with the default resolution prints as
  a range selector, so the texts of two queries that evaluate differently agree.
\<close>

theorem subquery_prints_as_range:
  "\<exists>e e'. parsed_tree (parse_query (\<lambda>s. None) ''x[1h:]'') = Some e
     \<and> parsed_tree (parse_query (\<lambda>s. None) ''x[1h]'') = Some e'
     \<and> shape e \<noteq> shape e' \<and> expr_String show_double e = expr_String show_double e'"
proof -
  have "map_option (expr_String show_double) (parsed_tree (parse_query (\<lambda>s. None) ''x[1h:]'')) = Some ''x[1h]''"
    "map_option (expr_String show_double) (parsed_tree (parse_query (\<lambda>s. None) ''x[1h]'')) = Some ''x[1h]''"
    "map_option shape (parsed_tree (parse_query (\<lambda>s. None) ''x[1h:]''))
       \<noteq> map_option shape (parsed_tree (parse_query (\<lambda>s. None) ''x[1h]''))" by code_simp+
  then show ?thesis by auto
qed

end
