(* ===== verification/Rule_Filter.thy ===== *)
theory Rule_Filter
  imports Promql_Parser Series_Index "HOL-Library.AList"
begin

text \<open>
  Drop rules on ingest: \<open>RuleSet\<close> and \<open>RuleManager\<close> (\<open>src/tsdb/storage/rule_manager.cpp\<close>) and the
  storage decorator \<open>FilteringStorage\<close> (\<open>filtering_storage.cpp\<close>). A rule is a PromQL selector, read
  by the parser of \<open>Promql_Parser\<close>. Rule sets are replaced, never changed: the manager's versions
  are a growing list and its current pointer an index into it. \<open>std::regex\<close> and the decorated
  storage are parameters. The locale \<open>rule_store\<close> says when a rule set stands for a list of
  conditions.
\<close>

section \<open>The prefix trie\<close>

datatype trie = TrieNode (children: "(char \<times> trie) list") (is_leaf: bool)

fun add_drop_prefix_at :: "string \<Rightarrow> trie \<Rightarrow> trie" where
  "add_drop_prefix_at [] t = TrieNode (children t) True"
| "add_drop_prefix_at (c # s) t =
     (let child = (case map_of (children t) c of None \<Rightarrow> TrieNode [] False | Some u \<Rightarrow> u)
      in TrieNode (AList.update c (add_drop_prefix_at s child) (children t)) (is_leaf t))"

fun trie_walk :: "string \<Rightarrow> trie \<Rightarrow> bool" where
  "trie_walk [] t = is_leaf t"
| "trie_walk (c # s) t =
     (is_leaf t \<or> (case map_of (children t) c of None \<Rightarrow> False | Some u \<Rightarrow> trie_walk s u))"

fun clone :: "trie \<Rightarrow> trie" where
  "clone (TrieNode cs leaf) = TrieNode (map (\<lambda>(c, t). (c, clone t)) cs) leaf"

section \<open>Rule sets\<close>

record label_rules =
  exact_values :: "string set"
  regex_values :: "(string \<Rightarrow> bool) list"

record mapping_rule =
  map_label_name :: string
  old_value :: string
  new_value :: string

record rule_set =
  drop_exact_names :: "string set"
  drop_prefix_names :: "trie option"
  drop_regex_names :: "(string \<Rightarrow> bool) list"
  drop_label_rules :: "(string \<times> label_rules) list"
  mapping_rules :: "mapping_rule list"

definition empty_rules :: rule_set where
  "empty_rules = \<lparr>drop_exact_names = {}, drop_prefix_names = None, drop_regex_names = [],
     drop_label_rules = [], mapping_rules = []\<rparr>"

definition copy_rules :: "rule_set \<Rightarrow> rule_set" where
  "copy_rules rs =
     \<lparr>drop_exact_names = drop_exact_names rs, drop_prefix_names = map_option clone (drop_prefix_names rs),
      drop_regex_names = drop_regex_names rs, drop_label_rules = drop_label_rules rs,
      mapping_rules = mapping_rules rs\<rparr>"

definition add_drop_prefix :: "string \<Rightarrow> rule_set \<Rightarrow> rule_set" where
  "add_drop_prefix p rs =
     (let root = (case drop_prefix_names rs of None \<Rightarrow> TrieNode [] False | Some t \<Rightarrow> t)
      in rs\<lparr>drop_prefix_names := Some (add_drop_prefix_at p root)\<rparr>)"

definition name_dropped :: "rule_set \<Rightarrow> string \<Rightarrow> bool" where
  "name_dropped rs name =
     (if name \<in> drop_exact_names rs then True
      else if (case drop_prefix_names rs of None \<Rightarrow> False | Some t \<Rightarrow> trie_walk name t) then True
      else list_ex (\<lambda>f. f name) (drop_regex_names rs))"

definition label_dropped :: "labels \<Rightarrow> string \<times> label_rules \<Rightarrow> bool" where
  "label_dropped l rule =
     (case labels_get l (fst rule) of
        None \<Rightarrow> False
      | Some v \<Rightarrow> v \<in> exact_values (snd rule) \<or> list_ex (\<lambda>f. f v) (regex_values (snd rule)))"

definition should_drop :: "rule_set \<Rightarrow> time_series \<Rightarrow> bool" where
  "should_drop rs ts =
     (if (case labels_get (ts_labels ts) ''__name__'' of None \<Rightarrow> False | Some n \<Rightarrow> name_dropped rs n) then True
      else list_ex (label_dropped (ts_labels ts)) (drop_label_rules rs))"

definition apply_mapping :: "rule_set \<Rightarrow> time_series \<Rightarrow> time_series" where
  "apply_mapping rs ts = ts"

section \<open>Reading a selector\<close>

definition label_rule_at :: "string \<Rightarrow> rule_set \<Rightarrow> label_rules" where
  "label_rule_at n rs =
     (case map_of (drop_label_rules rs) n of None \<Rightarrow> \<lparr>exact_values = {}, regex_values = []\<rparr> | Some r \<Rightarrow> r)"

definition set_label_rule :: "string \<Rightarrow> label_rules \<Rightarrow> rule_set \<Rightarrow> rule_set" where
  "set_label_rule n r rs = rs\<lparr>drop_label_rules := AList.update n r (drop_label_rules rs)\<rparr>"

text \<open>One matcher. The flag is set when \<open>std::regex\<close> throws, which ends the whole rule.\<close>

definition rule_matcher :: "regex_lib \<Rightarrow> model_matcher \<Rightarrow> rule_set \<Rightarrow> rule_set \<times> bool" where
  "rule_matcher re m rs =
     (if mm_name m = ''__name__'' then
        (case mm_type m of
           EQUAL \<Rightarrow> (rs\<lparr>drop_exact_names := insert (mm_value m) (drop_exact_names rs)\<rparr>, False)
         | REGEX_MATCH \<Rightarrow>
             (case re (mm_value m) of
                None \<Rightarrow> (rs, True)
              | Some f \<Rightarrow> (rs\<lparr>drop_regex_names := drop_regex_names rs @ [f]\<rparr>, False))
         | _ \<Rightarrow> (rs, False))
      else
        let r = label_rule_at (mm_name m) rs
        in (case mm_type m of
              EQUAL \<Rightarrow>
                (set_label_rule (mm_name m) (r\<lparr>exact_values := insert (mm_value m) (exact_values r)\<rparr>) rs, False)
            | REGEX_MATCH \<Rightarrow>
                (case re (mm_value m) of
                   None \<Rightarrow> (set_label_rule (mm_name m) r rs, True)
                 | Some f \<Rightarrow>
                     (set_label_rule (mm_name m) (r\<lparr>regex_values := regex_values r @ [f]\<rparr>) rs, False))
            | _ \<Rightarrow> (set_label_rule (mm_name m) r rs, False)))"

fun rule_matchers :: "regex_lib \<Rightarrow> model_matcher list \<Rightarrow> rule_set \<Rightarrow> rule_set" where
  "rule_matchers re [] rs = rs"
| "rule_matchers re (m # ms) rs =
     (let (rs', threw) = rule_matcher re m rs in if threw then rs' else rule_matchers re ms rs')"

definition parse_selector_into_rules ::
  "regex_lib \<Rightarrow> (string \<Rightarrow> double option) \<Rightarrow> string \<Rightarrow> rule_set \<Rightarrow> rule_set" where
  "parse_selector_into_rules re stod selector rs =
     (case parse_query stod selector of
        Done (Some (VectorSelector vs)) p \<Rightarrow>
          let rs1 = (if vs_name vs \<noteq> [] then rs\<lparr>drop_exact_names := insert (vs_name vs) (drop_exact_names rs)\<rparr>
                     else rs)
          in rule_matchers re (labelMatchers vs) rs1
      | _ \<Rightarrow> rs)"

section \<open>The manager and the filtering storage\<close>

record rule_manager =
  rule_versions :: "rule_set list"
  current_rules :: nat

definition mk_rule_manager :: rule_manager where
  "mk_rule_manager = \<lparr>rule_versions = [empty_rules], current_rules = 0\<rparr>"

definition get_current_rules :: "rule_manager \<Rightarrow> rule_set" where
  "get_current_rules rm = rule_versions rm ! current_rules rm"

definition publish :: "rule_set \<Rightarrow> rule_manager \<Rightarrow> rule_manager" where
  "publish rs rm = \<lparr>rule_versions = rule_versions rm @ [rs], current_rules = length (rule_versions rm)\<rparr>"

definition add_drop_rule ::
  "regex_lib \<Rightarrow> (string \<Rightarrow> double option) \<Rightarrow> string \<Rightarrow> rule_manager \<Rightarrow> rule_manager" where
  "add_drop_rule re stod selector rm =
     publish (parse_selector_into_rules re stod selector (copy_rules (get_current_rules rm))) rm"

definition clear_rules :: "rule_manager \<Rightarrow> rule_manager" where
  "clear_rules rm = publish empty_rules rm"

record 's filtering_storage =
  underlying :: 's
  rule_manager_of :: rule_manager

definition filtering_write ::
  "(time_series \<Rightarrow> 's \<Rightarrow> unit result \<times> 's) \<Rightarrow> time_series \<Rightarrow> 's filtering_storage \<Rightarrow>
     unit result \<times> 's filtering_storage" where
  "filtering_write write ts fs =
     (if should_drop (get_current_rules (rule_manager_of fs)) ts then (Inr (), fs)
      else let (r, u) = write ts (underlying fs) in (r, fs\<lparr>underlying := u\<rparr>))"

text \<open>Every other method of the storage interface goes to the underlying storage.\<close>

definition pass_through :: "('s \<Rightarrow> 'r \<times> 's) \<Rightarrow> 's filtering_storage \<Rightarrow> 'r \<times> 's filtering_storage" where
  "pass_through f fs = (let (r, u) = f (underlying fs) in (r, fs\<lparr>underlying := u\<rparr>))"

section \<open>The trie holds exactly its prefixes\<close>

fun trie_holds :: "string \<Rightarrow> trie \<Rightarrow> bool" where
  "trie_holds [] t = is_leaf t"
| "trie_holds (c # s) t = (case map_of (children t) c of None \<Rightarrow> False | Some u \<Rightarrow> trie_holds s u)"

lemma trie_walk_holds: "trie_walk s t \<longleftrightarrow> (\<exists>p. prefix p s \<and> trie_holds p t)"
proof (induction s arbitrary: t)
  case (Cons c s)
  have "(\<exists>p. prefix p (c # s) \<and> trie_holds p t) \<longleftrightarrow>
      trie_holds [] t \<or> (\<exists>p. prefix p s \<and> trie_holds (c # p) t)"
    by (auto simp: prefix_Cons)
  with Cons show ?case by (auto split: option.split)
qed simp

lemma trie_holds_empty: "\<not> trie_holds p (TrieNode [] False)"
  by (cases p) simp_all

lemma trie_holds_add: "trie_holds p (add_drop_prefix_at q t) \<longleftrightarrow> p = q \<or> trie_holds p t"
proof (induction q t arbitrary: p rule: add_drop_prefix_at.induct)
  case (1 t)
  then show ?case by (cases p) simp_all
next
  case (2 c s t)
  show ?case
  proof (cases p)
    case (Cons d p')
    with 2 [OF refl, of p'] trie_holds_empty show ?thesis
      by (auto simp: Let_def AList.update_conv' split: option.splits)
  qed (simp add: Let_def)
qed

lemma clone_id [simp]: "clone t = t"
  by (induction t rule: clone.induct) (auto intro: map_idI)

lemma copy_rules_id [simp]: "copy_rules rs = rs"
  by (cases rs) (simp add: copy_rules_def option.map_ident cong: option.map_cong)

section \<open>What one rule adds\<close>

text \<open>When a matcher of a rule drops a series: only \<open>=\<close> and \<open>=~\<close> count, on a label that is there.\<close>

definition matcher_hits :: "regex_lib \<Rightarrow> labels \<Rightarrow> model_matcher \<Rightarrow> bool" where
  "matcher_hits re l m \<longleftrightarrow>
     (case labels_get l (mm_name m) of
        None \<Rightarrow> False
      | Some v \<Rightarrow> (case mm_type m of
            EQUAL \<Rightarrow> v = mm_value m
          | REGEX_MATCH \<Rightarrow> (case re (mm_value m) of None \<Rightarrow> False | Some f \<Rightarrow> f v)
          | _ \<Rightarrow> False))"

definition bad_regex :: "regex_lib \<Rightarrow> model_matcher \<Rightarrow> bool" where
  "bad_regex re m \<longleftrightarrow> mm_type m = REGEX_MATCH \<and> re (mm_value m) = None"

definition selector_hits :: "regex_lib \<Rightarrow> (string \<Rightarrow> double option) \<Rightarrow> string \<Rightarrow> time_series \<Rightarrow> bool" where
  "selector_hits re stod sel ts \<longleftrightarrow> (\<exists>vs p. parse_query stod sel = Done (Some (VectorSelector vs)) p
     \<and> (vs_name vs \<noteq> [] \<and> labels_get (ts_labels ts) ''__name__'' = Some (vs_name vs)
        \<or> list_ex (matcher_hits re (ts_labels ts)) (takeWhile (\<lambda>m. \<not> bad_regex re m) (labelMatchers vs))))"

definition rules_ok :: "rule_set \<Rightarrow> bool" where
  "rules_ok rs \<longleftrightarrow> distinct (map fst (drop_label_rules rs))"

lemma list_ex_entries:
  assumes "distinct (map fst xs)"
  shows "list_ex (label_dropped l) xs \<longleftrightarrow> (\<exists>n r. map_of xs n = Some r \<and> label_dropped l (n, r))"
  unfolding list_ex_iff using assms by (metis map_of_eq_Some_iff prod.collapse)

lemma should_drop_iff:
  assumes "rules_ok rs"
  shows "should_drop rs ts \<longleftrightarrow>
     (\<exists>n. labels_get (ts_labels ts) ''__name__'' = Some n \<and> name_dropped rs n)
     \<or> (\<exists>n r. map_of (drop_label_rules rs) n = Some r \<and> label_dropped (ts_labels ts) (n, r))"
  using list_ex_entries [OF assms [unfolded rules_ok_def]]
  by (auto simp: should_drop_def split: option.splits)

lemma set_label_rule_drop:
  assumes "rules_ok rs"
  shows "rules_ok (set_label_rule n r rs)"
    "should_drop (set_label_rule n r rs) ts \<longleftrightarrow>
       (\<exists>n. labels_get (ts_labels ts) ''__name__'' = Some n \<and> name_dropped rs n)
       \<or> (\<exists>n' r'. n' \<noteq> n \<and> map_of (drop_label_rules rs) n' = Some r' \<and> label_dropped (ts_labels ts) (n', r'))
       \<or> label_dropped (ts_labels ts) (n, r)"
proof -
  show ok: "rules_ok (set_label_rule n r rs)"
    using assms by (simp add: rules_ok_def set_label_rule_def distinct_update)
  have "name_dropped (set_label_rule n r rs) = name_dropped rs"
    by (simp add: name_dropped_def set_label_rule_def fun_eq_iff)
  with should_drop_iff [OF ok] show "should_drop (set_label_rule n r rs) ts \<longleftrightarrow>
       (\<exists>n. labels_get (ts_labels ts) ''__name__'' = Some n \<and> name_dropped rs n)
       \<or> (\<exists>n' r'. n' \<noteq> n \<and> map_of (drop_label_rules rs) n' = Some r' \<and> label_dropped (ts_labels ts) (n', r'))
       \<or> label_dropped (ts_labels ts) (n, r)"
    by (auto simp: set_label_rule_def AList.update_conv')
qed

lemma label_rule_extended:
  assumes "rules_ok rs" "\<And>l. label_dropped l (n, r) \<longleftrightarrow> label_dropped l (n, label_rule_at n rs) \<or> hit l"
  shows "should_drop (set_label_rule n r rs) ts \<longleftrightarrow> should_drop rs ts \<or> hit (ts_labels ts)"
proof -
  have "label_dropped l (n, label_rule_at n rs) \<longleftrightarrow>
      (\<exists>r'. map_of (drop_label_rules rs) n = Some r' \<and> label_dropped l (n, r'))" for l
    by (auto simp: label_rule_at_def label_dropped_def split: option.splits)
  with set_label_rule_drop(2) [OF assms(1)] should_drop_iff [OF assms(1)] assms(2) show ?thesis by metis
qed

lemma rule_matcher_spec:
  assumes "rules_ok rs"
  shows "rules_ok (fst (rule_matcher re m rs))" "snd (rule_matcher re m rs) = bad_regex re m"
    "should_drop (fst (rule_matcher re m rs)) ts \<longleftrightarrow> should_drop rs ts \<or> matcher_hits re (ts_labels ts) m"
proof -
  show "rules_ok (fst (rule_matcher re m rs))"
    using assms set_label_rule_drop(1) [OF assms]
    by (auto simp: rule_matcher_def Let_def rules_ok_def split: model_matcher_type.split option.split)
  show "snd (rule_matcher re m rs) = bad_regex re m"
    by (auto simp: rule_matcher_def Let_def bad_regex_def split: model_matcher_type.split option.split)
  show "should_drop (fst (rule_matcher re m rs)) ts \<longleftrightarrow> should_drop rs ts \<or> matcher_hits re (ts_labels ts) m"
  proof (cases "mm_name m = ''__name__''")
    case True
    then show ?thesis
      by (auto simp: rule_matcher_def matcher_hits_def should_drop_def name_dropped_def
          split: model_matcher_type.split option.split)
  next
    case False
    let ?r = "label_rule_at (mm_name m) rs"
    have same: "should_drop (set_label_rule (mm_name m) ?r rs) ts = should_drop rs ts"
      using label_rule_extended [OF assms, of "mm_name m" ?r "\<lambda>l. False"] by simp
    have eq: "should_drop (set_label_rule (mm_name m) (?r\<lparr>exact_values := insert v (exact_values ?r)\<rparr>) rs) ts
        \<longleftrightarrow> should_drop rs ts \<or> labels_get (ts_labels ts) (mm_name m) = Some v" for v
      by (rule label_rule_extended [OF assms]) (auto simp: label_dropped_def split: option.split)
    have re: "should_drop (set_label_rule (mm_name m) (?r\<lparr>regex_values := regex_values ?r @ [f]\<rparr>) rs) ts
        \<longleftrightarrow> should_drop rs ts \<or> (\<exists>v. labels_get (ts_labels ts) (mm_name m) = Some v \<and> f v)" for f
      by (rule label_rule_extended [OF assms]) (auto simp: label_dropped_def split: option.split)
    show ?thesis
      unfolding rule_matcher_def matcher_hits_def Let_def using False
      by (simp add: same eq re split: model_matcher_type.split option.split)
  qed
qed

lemma rule_matchers_spec:
  assumes "rules_ok rs"
  shows "rules_ok (rule_matchers re ms rs)"
    "should_drop (rule_matchers re ms rs) ts \<longleftrightarrow>
       should_drop rs ts \<or> list_ex (matcher_hits re (ts_labels ts)) (takeWhile (\<lambda>m. \<not> bad_regex re m) ms)"
proof (atomize (full), use assms in \<open>induction ms arbitrary: rs\<close>)
  case (Cons m ms)
  obtain rs' threw where step: "rule_matcher re m rs = (rs', threw)" by (rule prod.exhaust)
  have "bad_regex re m \<Longrightarrow> \<not> matcher_hits re (ts_labels ts) m"
    by (auto simp: bad_regex_def matcher_hits_def split: option.split)
  with rule_matcher_spec [OF Cons.prems, of re m, unfolded step] Cons.IH [of rs'] step show ?case by auto
qed simp

lemma parse_selector_spec:
  assumes "rules_ok rs"
  shows "rules_ok (parse_selector_into_rules re stod sel rs)"
    "should_drop (parse_selector_into_rules re stod sel rs) ts \<longleftrightarrow> should_drop rs ts \<or> selector_hits re stod sel ts"
proof -
  have "rules_ok (rs\<lparr>drop_exact_names := insert n (drop_exact_names rs)\<rparr>)" for n
    using assms by (simp add: rules_ok_def)
  moreover have "should_drop (rs\<lparr>drop_exact_names := insert n (drop_exact_names rs)\<rparr>) ts \<longleftrightarrow>
      should_drop rs ts \<or> labels_get (ts_labels ts) ''__name__'' = Some n" for n
    by (auto simp: should_drop_def name_dropped_def split: option.split)
  ultimately show "rules_ok (parse_selector_into_rules re stod sel rs)"
    "should_drop (parse_selector_into_rules re stod sel rs) ts \<longleftrightarrow> should_drop rs ts \<or> selector_hits re stod sel ts"
    using rule_matchers_spec assms
    by (auto simp: parse_selector_into_rules_def selector_hits_def Let_def
        split: outcome.split option.split expr.split)
qed

section \<open>Filtering as a sequence of events\<close>

datatype filter_event = AddRule string | ClearRules | Write time_series

definition filter_step ::
  "regex_lib \<Rightarrow> (string \<Rightarrow> double option) \<Rightarrow> (time_series \<Rightarrow> 's \<Rightarrow> unit result \<times> 's) \<Rightarrow>
     's filtering_storage \<Rightarrow> filter_event \<Rightarrow> 's filtering_storage" where
  "filter_step re stod write fs e =
     (case e of
        AddRule sel \<Rightarrow> fs\<lparr>rule_manager_of := add_drop_rule re stod sel (rule_manager_of fs)\<rparr>
      | ClearRules \<Rightarrow> fs\<lparr>rule_manager_of := clear_rules (rule_manager_of fs)\<rparr>
      | Write ts \<Rightarrow> snd (filtering_write write ts fs))"

text \<open>Given what a selector hits: the series that no selector added since the last clearing hits.\<close>

fun kept :: "(string \<Rightarrow> time_series \<Rightarrow> bool) \<Rightarrow> string list \<Rightarrow> filter_event list \<Rightarrow> time_series list" where
  "kept hits sels [] = []"
| "kept hits sels (AddRule s # es) = kept hits (s # sels) es"
| "kept hits sels (ClearRules # es) = kept hits [] es"
| "kept hits sels (Write ts # es) =
     (if list_ex (\<lambda>s. hits s ts) sels then [] else [ts]) @ kept hits sels es"

text \<open>What the filter needs of its rules: an added selector widens the dropped set by its own
  hits, and clearing empties it.\<close>

locale rule_store =
  fixes ok :: "'r \<Rightarrow> bool" and dropped :: "'r \<Rightarrow> time_series \<Rightarrow> bool"
    and add :: "string \<Rightarrow> 'r \<Rightarrow> 'r" and clear :: "'r \<Rightarrow> 'r"
    and hits :: "string \<Rightarrow> time_series \<Rightarrow> bool"
  assumes add_ok: "ok r \<Longrightarrow> ok (add s r)"
    and clear_ok: "ok r \<Longrightarrow> ok (clear r)"
    and dropped_add: "ok r \<Longrightarrow> dropped (add s r) ts \<longleftrightarrow> hits s ts \<or> dropped r ts"
    and dropped_clear: "ok r \<Longrightarrow> \<not> dropped (clear r) ts"
begin

text \<open>A rule store stands for the list of selectors added since it was cleared.\<close>

lemma stands_for_add:
  "\<lbrakk>ok r; \<And>ts. dropped r ts \<longleftrightarrow> list_ex (\<lambda>s. hits s ts) sels\<rbrakk> \<Longrightarrow>
     dropped (add s r) ts \<longleftrightarrow> list_ex (\<lambda>s. hits s ts) (s # sels)"
  by (simp add: dropped_add)

lemma run_events:
  fixes run :: "'u \<times> 'r \<Rightarrow> filter_event \<Rightarrow> 'u \<times> 'r" and put :: "'u \<Rightarrow> time_series \<Rightarrow> 'u"
  assumes run: "\<And>u r s. run (u, r) (AddRule s) = (u, add s r)" "\<And>u r. run (u, r) ClearRules = (u, clear r)"
    "\<And>u r ts. run (u, r) (Write ts) = (if dropped r ts then u else put u ts, r)"
    and "ok r" "\<And>ts. dropped r ts \<longleftrightarrow> list_ex (\<lambda>s. hits s ts) sels"
  shows "fst (foldl run (u, r) es) = foldl put u (kept hits sels es)"
  using assms(4,5)
proof (induction es arbitrary: u r sels)
  case (Cons e es)
  show ?case
  proof (cases e)
    case (AddRule s)
    with Cons.IH [OF add_ok [OF Cons.prems(1)] stands_for_add [OF Cons.prems]] run show ?thesis by simp
  next
    case ClearRules
    with Cons.IH [OF clear_ok [OF Cons.prems(1)], of "[]"] dropped_clear [OF Cons.prems(1)] run show ?thesis
      by simp
  next
    case (Write ts)
    with Cons.IH [OF Cons.prems] Cons.prems(2) run show ?thesis by simp
  qed
qed simp

end

definition manager_ok :: "rule_manager \<Rightarrow> bool" where
  "manager_ok rm \<longleftrightarrow> rules_ok (get_current_rules rm)"

lemma current_published [simp]: "get_current_rules (publish rs rm) = rs"
  by (simp add: get_current_rules_def publish_def)

lemma empty_rules_drop: "rules_ok empty_rules" "\<not> should_drop empty_rules ts"
  by (auto simp: rules_ok_def empty_rules_def should_drop_def name_dropped_def split: option.split)

interpretation manager: rule_store manager_ok "\<lambda>rm. should_drop (get_current_rules rm)"
  "add_drop_rule re stod" clear_rules "selector_hits re stod" for re stod
  by unfold_locales
    (auto simp: manager_ok_def add_drop_rule_def clear_rules_def parse_selector_spec empty_rules_drop)

text \<open>Readers hold a pointer to a version; publishing never touches the versions before.\<close>

lemma versions_immutable:
  "prefix (rule_versions rm) (rule_versions (add_drop_rule re stod sel rm))"
  "prefix (rule_versions rm) (rule_versions (clear_rules rm))"
  by (simp_all add: add_drop_rule_def clear_rules_def publish_def)

text \<open>
  Prefix rules are exact: after any list of prefixes has been added to an empty rule set, the
  trie walk of \<open>should_drop\<close> drops exactly the metric names that have one of them as a prefix.
\<close>

theorem prefix_rules_exact:
  "name_dropped (foldl (\<lambda>rs p. add_drop_prefix p rs) empty_rules ps) name \<longleftrightarrow> (\<exists>p\<in>set ps. prefix p name)"
proof -
  have "(\<forall>p. trie_holds p (case drop_prefix_names rs of None \<Rightarrow> TrieNode [] False | Some t \<Rightarrow> t) \<longleftrightarrow> p \<in> P)
      \<Longrightarrow> drop_exact_names rs = {} \<and> drop_regex_names rs = [] \<Longrightarrow>
      name_dropped (foldl (\<lambda>rs p. add_drop_prefix p rs) rs ps) name \<longleftrightarrow> (\<exists>p\<in>P \<union> set ps. prefix p name)" for rs P
  proof (induction ps arbitrary: rs P)
    case Nil
    then show ?case by (auto simp: name_dropped_def trie_walk_holds trie_holds_empty split: option.splits)
  next
    case (Cons q ps)
    have "name_dropped (foldl (\<lambda>rs p. add_drop_prefix p rs) (add_drop_prefix q rs) ps) name \<longleftrightarrow>
        (\<exists>p\<in>insert q P \<union> set ps. prefix p name)"
      using Cons.prems by (intro Cons.IH) (auto simp: add_drop_prefix_def Let_def trie_holds_add)
    then show ?case by auto
  qed
  from this [of empty_rules "{}"] trie_holds_empty show ?thesis by (simp add: empty_rules_def)
qed

text \<open>A run of the filtering storage keeps what no selector hits part by part.\<close>

lemma filtering_run:
  "underlying (foldl (filter_step re stod write) \<lparr>underlying = u, rule_manager_of = mk_rule_manager\<rparr> es)
     = foldl (\<lambda>u ts. snd (write ts u)) u (kept (selector_hits re stod) [] es)"
proof -
  define run where "run = (\<lambda>x e. let fs = filter_step re stod write \<lparr>underlying = fst x, rule_manager_of = snd x\<rparr> e
    in (underlying fs, rule_manager_of fs))"
  have eta: "\<lparr>underlying = underlying fs, rule_manager_of = rule_manager_of fs\<rparr> = fs" for fs :: "'a filtering_storage"
    by (cases fs) simp
  have sim: "fst (foldl run (underlying fs, rule_manager_of fs) es)
      = underlying (foldl (filter_step re stod write) fs es)" for fs :: "'a filtering_storage"
    by (induction es arbitrary: fs) (simp_all add: run_def Let_def eta)
  have "fst (foldl run (u, mk_rule_manager) es)
      = foldl (\<lambda>u ts. snd (write ts u)) u (kept (selector_hits re stod) [] es)"
  proof (rule manager.run_events)
    show "run (u, r) (Write ts) = (if should_drop (get_current_rules r) ts then u else snd (write ts u), r)" for u r ts
      by (simp add: run_def filter_step_def filtering_write_def Let_def split: prod.split)
    show "manager_ok mk_rule_manager" "should_drop (get_current_rules mk_rule_manager) ts \<longleftrightarrow>
        list_ex (\<lambda>s. selector_hits re stod s ts) []" for ts
      by (simp_all add: manager_ok_def mk_rule_manager_def get_current_rules_def empty_rules_drop)
  qed (simp_all add: run_def filter_step_def)
  with sim [of "\<lparr>underlying = u, rule_manager_of = mk_rule_manager\<rparr>"] show ?thesis by simp
qed

section \<open>The documented meaning of a selector\<close>

text \<open>
  By the guide to filter rules a selector has the meaning of a Prometheus selector: all its conditions hold, the metric name among
  them, and a label that is not there has the empty value.
\<close>

definition conditions :: "vector_selector \<Rightarrow> model_matcher list" where
  "conditions vs = (if vs_name vs = [] then [] else [\<lparr>mm_type = EQUAL, mm_name = ''__name__'', mm_value = vs_name vs\<rparr>]) @ labelMatchers vs"

definition condition_holds :: "regex_lib \<Rightarrow> labels \<Rightarrow> model_matcher \<Rightarrow> bool" where
  "condition_holds re l m =
     (let v = (case labels_get l (mm_name m) of None \<Rightarrow> [] | Some v \<Rightarrow> v);
          pat = (case re (mm_value m) of None \<Rightarrow> (\<lambda>s. False) | Some f \<Rightarrow> f)
      in case mm_type m of
           EQUAL \<Rightarrow> v = mm_value m
         | NOT_EQUAL \<Rightarrow> v \<noteq> mm_value m
         | REGEX_MATCH \<Rightarrow> pat v
         | REGEX_NO_MATCH \<Rightarrow> \<not> pat v)"

definition selects :: "regex_lib \<Rightarrow> (string \<Rightarrow> double option) \<Rightarrow> string \<Rightarrow> time_series \<Rightarrow> bool" where
  "selects re stod sel ts =
     (case parse_query stod sel of
        Done (Some (VectorSelector vs)) p \<Rightarrow> list_all (condition_holds re (ts_labels ts)) (conditions vs)
      | _ \<Rightarrow> False)"

text \<open>A condition the rules implement: \<open>=\<close> or \<open>=~\<close>, with a regex that compiles, not satisfied by the empty value.\<close>

definition positive_condition :: "regex_lib \<Rightarrow> model_matcher \<Rightarrow> bool" where
  "positive_condition re m =
     (mm_type m = EQUAL \<and> mm_value m \<noteq> []
      \<or> mm_type m = REGEX_MATCH \<and> (case re (mm_value m) of None \<Rightarrow> False | Some f \<Rightarrow> \<not> f []))"

definition positive_rule :: "regex_lib \<Rightarrow> (string \<Rightarrow> double option) \<Rightarrow> string \<Rightarrow> bool" where
  "positive_rule re stod sel =
     (case parse_query stod sel of
        Done (Some (VectorSelector vs)) p \<Rightarrow> conditions vs \<noteq> [] \<and> list_all (positive_condition re) (conditions vs)
      | _ \<Rightarrow> False)"

definition single_rule :: "regex_lib \<Rightarrow> (string \<Rightarrow> double option) \<Rightarrow> string \<Rightarrow> bool" where
  "single_rule re stod sel =
     (case parse_query stod sel of
        Done (Some (VectorSelector vs)) p \<Rightarrow> (case conditions vs of [m] \<Rightarrow> positive_condition re m | _ \<Rightarrow> False)
      | _ \<Rightarrow> False)"

lemma positive_condition_hits: "positive_condition re m \<Longrightarrow> matcher_hits re l m \<longleftrightarrow> condition_holds re l m"
  by (auto simp: positive_condition_def matcher_hits_def condition_holds_def split: option.splits)

text \<open>With positive conditions a selector hits what one of its conditions selects.\<close>

lemma positive_selector_hits:
  assumes "parse_query stod sel = Done (Some (VectorSelector vs)) p" "list_all (positive_condition re) (conditions vs)"
  shows "selector_hits re stod sel ts \<longleftrightarrow> list_ex (condition_holds re (ts_labels ts)) (conditions vs)"
proof -
  have good: "\<forall>m \<in> set (labelMatchers vs). positive_condition re m" using assms(2) by (simp add: conditions_def list_all_iff)
  have "\<not> bad_regex re m" if "positive_condition re m" for m
    using that by (auto simp: bad_regex_def positive_condition_def split: option.splits)
  with good have all: "takeWhile (\<lambda>m. \<not> bad_regex re m) (labelMatchers vs) = labelMatchers vs" by (simp add: takeWhile_eq_all_conv)
  have same: "list_ex (matcher_hits re l) (labelMatchers vs) = list_ex (condition_holds re l) (labelMatchers vs)" for l
    using good by (auto simp: list_ex_iff positive_condition_hits)
  show ?thesis
    by (auto simp: selector_hits_def assms(1) conditions_def condition_holds_def all same split: option.splits)
qed

lemma single_rule_hits: "single_rule re stod sel \<Longrightarrow> selector_hits re stod sel ts \<longleftrightarrow> selects re stod sel ts"
  by (auto simp: single_rule_def selects_def positive_selector_hits
      split: outcome.splits option.splits expr.splits list.splits)

lemma kept_cong:
  assumes "\<And>s ts. AddRule s \<in> set es \<or> s \<in> set sels \<Longrightarrow> f s ts = g s ts"
  shows "kept f sels es = kept g sels es"
  using assms
proof (induction f sels es rule: kept.induct)
  case (2 hits sels s es)
  then show ?case by (auto intro: 2(1))
next
  case (4 hits sels ts es)
  then have "list_ex (\<lambda>s. hits s ts) sels = list_ex (\<lambda>s. g s ts) sels" by (auto simp: list_ex_iff)
  with 4 show ?case by simp
qed simp_all

text \<open>
  C27: The filtering storage implements the documented selectors when every rule is a single condition: through any interleaving of rule
  additions, clearings and writes, the underlying storage receives, in order, exactly the series that no selector added since
  the last clearing selects, for any regex library and any storage. Each rule has to be one condition, a metric name or one
  matcher, of kind \<open>=\<close> or \<open>=~\<close> with a regex that compiles, and the empty value may not satisfy it. A selector of several
  conditions is not covered: the documents take all of them together, and the code each of them for itself.
\<close>

theorem filtering_refines_selectors:
  assumes "\<forall>sel. AddRule sel \<in> set es \<longrightarrow> single_rule re stod sel"
  shows "underlying (foldl (filter_step re stod write) \<lparr>underlying = u, rule_manager_of = mk_rule_manager\<rparr> es)
     = foldl (\<lambda>u ts. snd (write ts u)) u (kept (selects re stod) [] es)"
proof -
  have "kept (selector_hits re stod) [] es = kept (selects re stod) [] es"
    using assms by (intro kept_cong) (auto simp: single_rule_hits)
  then show ?thesis by (simp add: filtering_run)
qed

theorem filtering_refines_selectors_witness:
  "underlying (foldl (filter_step (\<lambda>s. None) (\<lambda>s. None) (\<lambda>ts u. (Inr (), u @ [ts])))
       \<lparr>underlying = [], rule_manager_of = mk_rule_manager\<rparr>
       [Write (mk_time_series [(''env'', ''dev'')]), AddRule (''{env='' @ [CHR 0x22] @ ''dev'' @ [CHR 0x22] @ ''}''), AddRule ''debug_logs'',
        Write (mk_time_series [(''env'', ''dev'')]), Write (mk_time_series [(''env'', ''prod'')]),
        Write (mk_time_series [(''__name__'', ''debug_logs'')])])
     = [mk_time_series [(''env'', ''dev'')], mk_time_series [(''env'', ''prod'')]]"
proof -
  let ?q = "''{env='' @ [CHR 0x22] @ ''dev'' @ [CHR 0x22] @ ''}''"
  let ?es = "[Write (mk_time_series [(''env'', ''dev'')]), AddRule ?q, AddRule ''debug_logs'', Write (mk_time_series [(''env'', ''dev'')]),
    Write (mk_time_series [(''env'', ''prod'')]), Write (mk_time_series [(''__name__'', ''debug_logs'')])]"
  have "single_rule (\<lambda>s. None) (\<lambda>s. None) ?q" "single_rule (\<lambda>s. None) (\<lambda>s. None) ''debug_logs''" by code_simp+
  then have rules: "\<forall>sel. AddRule sel \<in> set ?es \<longrightarrow> single_rule (\<lambda>s. None) (\<lambda>s. None) sel" by auto
  have "kept (selects (\<lambda>s. None) (\<lambda>s. None)) [] ?es = [mk_time_series [(''env'', ''dev'')], mk_time_series [(''env'', ''prod'')]]"
    by code_simp
  with filtering_refines_selectors [OF rules, of "\<lambda>ts u. (Inr (), u @ [ts])" "[]"] show ?thesis by simp
qed

text \<open>
  With several conditions the rules err on one side: a series that a rule of positive conditions selects is dropped.
\<close>

lemma selected_series_dropped:
  assumes "manager_ok rm" "positive_rule re stod sel" "selects re stod sel ts"
  shows "should_drop (get_current_rules (add_drop_rule re stod sel rm)) ts"
proof -
  obtain vs p where vs: "parse_query stod sel = Done (Some (VectorSelector vs)) p" "conditions vs \<noteq> []"
      "list_all (positive_condition re) (conditions vs)"
    using assms(2) by (auto simp: positive_rule_def split: outcome.splits option.splits expr.splits)
  moreover have "list_all (condition_holds re (ts_labels ts)) (conditions vs)" using assms(3) vs(1) by (simp add: selects_def)
  ultimately have "selector_hits re stod sel ts"
    unfolding positive_selector_hits [OF vs(1,3)] by (cases "conditions vs") simp_all
  with manager.dropped_add [OF assms(1)] show ?thesis by blast
qed

text \<open>
  The conditions of one rule are alternatives: the rule \<open>up{env="dev"}\<close> drops every series
  named \<open>up\<close> and every series with \<open>env="dev"\<close>, not only the series that satisfy both.
\<close>

theorem drop_rule_is_disjunction:
  "should_drop (get_current_rules (add_drop_rule re stod (''up{env='' @ [CHR 0x22] @ ''dev'' @ [CHR 0x22] @ ''}'') mk_rule_manager)) ts
     \<longleftrightarrow> labels_get (ts_labels ts) ''__name__'' = Some ''up'' \<or> labels_get (ts_labels ts) ''env'' = Some ''dev''"
proof -
  let ?q = "''up{env='' @ [CHR 0x22] @ ''dev'' @ [CHR 0x22] @ ''}''"
  let ?vs = "mk_vector_selector ''up'' [\<lparr>mm_type = EQUAL, mm_name = ''env'', mm_value = ''dev''\<rparr>]"
  have "(case parse_query stod ?q of Done (Some (VectorSelector vs)) p \<Rightarrow> vs = ?vs | _ \<Rightarrow> False)" by code_simp
  then obtain p where "parse_query stod ?q = Done (Some (VectorSelector ?vs)) p"
    by (auto split: outcome.splits option.splits expr.splits)
  then have "selector_hits re stod ?q ts \<longleftrightarrow>
      labels_get (ts_labels ts) ''__name__'' = Some ''up'' \<or> labels_get (ts_labels ts) ''env'' = Some ''dev''"
    by (auto simp: selector_hits_def mk_vector_selector_def bad_regex_def matcher_hits_def split: option.split)
  moreover have "manager_ok mk_rule_manager" "\<not> should_drop (get_current_rules mk_rule_manager) ts"
    by (simp_all add: manager_ok_def mk_rule_manager_def get_current_rules_def empty_rules_drop)
  ultimately show ?thesis using manager.dropped_add by blast
qed

text \<open>
  A malformed selector widens its rule: the parser reports the unquoted value of
  \<open>up{env=dev}\<close> but still returns a selector for \<open>up\<close>, the rule manager does not look at the
  errors, and every series named \<open>up\<close> is dropped.
\<close>

theorem malformed_rule_drops_metric:
  "labels_get (ts_labels ts) ''__name__'' = Some ''up'' \<longrightarrow>
     should_drop (get_current_rules (add_drop_rule re stod ''up{env=dev}'' mk_rule_manager)) ts
     \<and> (\<exists>e p. parse_query stod ''up{env=dev}'' = Done (Some e) p \<and> parse_errors p \<noteq> [])"
proof -
  have "(case parse_query stod ''up{env=dev}'' of
      Done (Some (VectorSelector vs)) p \<Rightarrow> vs_name vs = ''up'' \<and> parse_errors p \<noteq> [] | _ \<Rightarrow> False)" by code_simp
  then obtain vs p where parsed: "parse_query stod ''up{env=dev}'' = Done (Some (VectorSelector vs)) p"
    "vs_name vs = ''up''" "parse_errors p \<noteq> []"
    by (auto split: outcome.splits option.splits expr.splits)
  have "manager_ok mk_rule_manager"
    by (simp add: manager_ok_def mk_rule_manager_def get_current_rules_def empty_rules_drop)
  with manager.dropped_add parsed show ?thesis by (fastforce simp: selector_hits_def)
qed

theorem malformed_rule_drops_metric_witness:
  "should_drop (get_current_rules (add_drop_rule (\<lambda>s. None) (\<lambda>s. None) ''up{env=dev}'' mk_rule_manager))
     (mk_time_series [(''__name__'', ''up''), (''env'', ''prod'')])"
proof -
  have "labels_get (ts_labels (mk_time_series [(''__name__'', ''up''), (''env'', ''prod'')])) ''__name__'' = Some ''up''"
    by code_simp
  with malformed_rule_drops_metric show ?thesis by blast
qed

end
