(* ===== verification/Query_Storage.thy ===== *)
theory Query_Storage
  imports Promql_Parser Series_Index
begin

text \<open>
  What a query reads: the PromQL data model (\<open>src/tsdb/prometheus/model/types.cpp\<close>,
  \<open>promql/value.h\<close>), the adapter over the storage engine (\<open>prometheus/storage/tsdb_adapter.cpp\<close>) and the
  buffer a range query puts in front of it (\<open>BufferedStorageAdapter\<close> of \<open>promql/engine.cpp\<close>). Query
  times are integers: the code's \<open>int64_t\<close> arithmetic is undefined where it would overflow.
  Exceptions are the \<open>Inl\<close> of a result. A storage adapter is its \<open>SelectSeries\<close>.
\<close>

section \<open>Data model\<close>

definition label_name_char :: "bool \<Rightarrow> char \<Rightarrow> bool" where
  "label_name_char first c \<longleftrightarrow> isalpha c \<or> c = CHR ''_'' \<or> (\<not> first \<and> (isdigit c \<or> c = CHR ''.''))"

definition metric_name_char :: "bool \<Rightarrow> char \<Rightarrow> bool" where
  "metric_name_char first c \<longleftrightarrow> isalpha c \<or> c = CHR ''_'' \<or> c = CHR '':'' \<or> (\<not> first \<and> isdigit c)"

fun matches_name :: "(bool \<Rightarrow> char \<Rightarrow> bool) \<Rightarrow> string \<Rightarrow> bool" where
  "matches_name p [] = False"
| "matches_name p (c # s) = (p True c \<and> list_all (p False) s)"

definition ValidateLabel :: "string \<Rightarrow> string \<Rightarrow> unit result" where
  "ValidateLabel name value =
     (if name = [] then Inl ''Label name cannot be empty''
      else if \<not> matches_name label_name_char name then Inl (''Invalid label name: '' @ name)
      else if value = [] then Inl ''Label value cannot be empty''
      else Inr ())"

definition AddLabel :: "string \<Rightarrow> string \<Rightarrow> labels \<Rightarrow> labels result" where
  "AddLabel name value l =
     (case ValidateLabel name value of Inl e \<Rightarrow> Inl e | Inr _ \<Rightarrow> Inr (smap_insert name value l))"

fun AddLabels :: "(string \<times> string) list \<Rightarrow> labels \<Rightarrow> labels result" where
  "AddLabels [] l = Inr l"
| "AddLabels (e # es) l = (case AddLabel (fst e) (snd e) l of Inl x \<Rightarrow> Inl x | Inr l' \<Rightarrow> AddLabels es l')"

definition mk_LabelSet :: "labels \<Rightarrow> labels result" where
  "mk_LabelSet l = (case AddLabels l [] of Inl e \<Rightarrow> Inl e | Inr _ \<Rightarrow> Inr l)"

definition RemoveLabel :: "string \<Rightarrow> labels \<Rightarrow> labels" where
  "RemoveLabel name l = smap_erase name l"

definition HasLabel :: "string \<Rightarrow> labels \<Rightarrow> bool" where
  "HasLabel name l \<longleftrightarrow> map_of l name \<noteq> None"

definition GetLabelValue :: "string \<Rightarrow> labels \<Rightarrow> string option" where
  "GetLabelValue name l = map_of l name"

definition LabelSet_ToString :: "labels \<Rightarrow> string" where
  "LabelSet_ToString l = ''{'' @ join '','' (map (\<lambda>(n, v). n @ ''='' @ [CHR 0x22] @ v @ [CHR 0x22]) l) @ ''}''"

record psample =
  ps_time :: int
  ps_value :: double

record pseries =
  metric :: labels
  psamples :: "psample list"

type_synonym matrix = "pseries list"

definition ValidateTimestamp :: "int \<Rightarrow> unit result" where
  "ValidateTimestamp t =
     (if t < 0 \<or> 253402300799999 < t then Inl (''Timestamp out of range: '' @ int_string t) else Inr ())"

definition AddSample :: "psample \<Rightarrow> pseries \<Rightarrow> pseries result" where
  "AddSample s ts =
     (case ValidateTimestamp (ps_time s) of
        Inl e \<Rightarrow> Inl e
      | Inr _ \<Rightarrow> Inr (ts\<lparr>psamples := psamples ts @ [s]\<rparr>))"

definition psample_eq :: "psample \<Rightarrow> psample \<Rightarrow> bool" where
  "psample_eq a b \<longleftrightarrow> ps_time a = ps_time b \<and> double_eq (ps_value a) (ps_value b)"

definition pseries_eq :: "pseries \<Rightarrow> pseries \<Rightarrow> bool" where
  "pseries_eq a b \<longleftrightarrow> metric a = metric b \<and> list_all2 psample_eq (psamples a) (psamples b)"

datatype family_type = COUNTER | GAUGE | HISTOGRAM | SUMMARY

record metric_family =
  family_name :: string
  family_kind :: family_type
  family_help :: string
  family_series :: "pseries list"

definition mk_MetricFamily :: "string \<Rightarrow> family_type \<Rightarrow> string \<Rightarrow> metric_family result" where
  "mk_MetricFamily name t help =
     (if name = [] then Inl ''Metric name cannot be empty''
      else if \<not> matches_name metric_name_char name then Inl (''Invalid metric name: '' @ name)
      else Inr \<lparr>family_name = name, family_kind = t, family_help = help, family_series = []\<rparr>)"

definition AddTimeSeries :: "pseries \<Rightarrow> metric_family \<Rightarrow> metric_family" where
  "AddTimeSeries s f = f\<lparr>family_series := family_series f @ [s]\<rparr>"

definition RemoveTimeSeries :: "labels \<Rightarrow> metric_family \<Rightarrow> metric_family" where
  "RemoveTimeSeries l f = f\<lparr>family_series := filter (\<lambda>s. metric s \<noteq> l) (family_series f)\<rparr>"

definition family_eq :: "metric_family \<Rightarrow> metric_family \<Rightarrow> bool" where
  "family_eq a b \<longleftrightarrow> family_name a = family_name b \<and> family_kind a = family_kind b
     \<and> family_help a = family_help b \<and> list_all2 pseries_eq (family_series a) (family_series b)"

section \<open>The adapter over the storage engine\<close>

definition core_matcher_type :: "model_matcher_type \<Rightarrow> matcher_type" where
  "core_matcher_type t =
     (case t of EQUAL \<Rightarrow> Equal | NOT_EQUAL \<Rightarrow> NotEqual | REGEX_MATCH \<Rightarrow> RegexMatch | REGEX_NO_MATCH \<Rightarrow> RegexNoMatch)"

definition core_matcher :: "model_matcher \<Rightarrow> label_matcher" where
  "core_matcher m = \<lparr>m_type = core_matcher_type (mm_type m), m_name = mm_name m, m_value = mm_value m\<rparr>"

definition convert_series :: "time_series \<Rightarrow> pseries result" where
  "convert_series ts =
     (case AddLabels (ts_labels ts) [] of
        Inl e \<Rightarrow> Inl e
      | Inr l \<Rightarrow> Inr \<lparr>metric = l, psamples = map (\<lambda>s. \<lparr>ps_time = sint (timestamp s), ps_value = sval s\<rparr>) (ts_samples ts)\<rparr>)"

fun process_chunk :: "time_series list \<Rightarrow> matrix result" where
  "process_chunk [] = Inr []"
| "process_chunk (ts # tss) =
     (case convert_series ts of
        Inl e \<Rightarrow> Inl e
      | Inr s \<Rightarrow> (case process_chunk tss of Inl e \<Rightarrow> Inl e | Inr m \<Rightarrow> Inr (s # m)))"

text \<open>The list is cut into chunks, one asynchronous task each; the results are collected in order.\<close>

function chunk_loop :: "nat \<Rightarrow> time_series list \<Rightarrow> time_series list list" where
  "chunk_loop chunk_size tss =
     (if tss = [] \<or> chunk_size = 0 then [] else take chunk_size tss # chunk_loop chunk_size (drop chunk_size tss))"
  by pat_completeness auto
termination
  by (relation "measure (\<lambda>(n, tss). length tss)") auto

declare chunk_loop.simps [simp del]

fun collect_chunks :: "matrix result list \<Rightarrow> matrix result" where
  "collect_chunks [] = Inr []"
| "collect_chunks (r # rs) =
     (case r of Inl e \<Rightarrow> Inl e | Inr m \<Rightarrow> (case collect_chunks rs of Inl e \<Rightarrow> Inl e | Inr m' \<Rightarrow> Inr (m @ m')))"

definition convert_all :: "nat \<Rightarrow> time_series list \<Rightarrow> matrix result" where
  "convert_all hardware_threads tss =
     (let num_series = length tss in
      if num_series = 0 then Inr []
      else
        let threads = (if hardware_threads = 0 then 4 else hardware_threads);
            threads' = (if num_series < 1000 then 1 else threads);
            chunk_size = (num_series + threads' - 1) div threads'
        in collect_chunks (map process_chunk (chunk_loop chunk_size tss)))"

type_synonym storage_query = "label_matcher list \<Rightarrow> int \<Rightarrow> int \<Rightarrow> time_series list result"
type_synonym select = "model_matcher list \<Rightarrow> int \<Rightarrow> int \<Rightarrow> matrix result"

definition TSDBAdapter_SelectSeries :: "nat \<Rightarrow> storage_query \<Rightarrow> select" where
  "TSDBAdapter_SelectSeries hardware_threads query ms start_time end_time =
     (case query (map core_matcher ms) start_time end_time of
        Inl e \<Rightarrow> Inl (''Storage query failed: '' @ e)
      | Inr tss \<Rightarrow> convert_all hardware_threads tss)"

definition TSDBAdapter_LabelNames :: "string list result \<Rightarrow> string list" where
  "TSDBAdapter_LabelNames r = (case r of Inl e \<Rightarrow> [] | Inr ns \<Rightarrow> ns)"

datatype aggregation_op =
  Agg_SUM | Agg_MIN | Agg_MAX | Agg_COUNT | Agg_AVG | Agg_STDDEV | Agg_STDVAR | Agg_COUNT_VALUES | Agg_BOTTOMK
| Agg_TOPK | Agg_QUANTILE

record aggregation_request =
  agg_op :: aggregation_op
  grouping_keys :: "string list"
  agg_without :: bool
  agg_param :: double

type_synonym select_aggregate = "model_matcher list \<Rightarrow> int \<Rightarrow> int \<Rightarrow> aggregation_request \<Rightarrow> matrix result"

definition TSDBAdapter_SelectAggregateSeries ::
  "nat \<Rightarrow> (label_matcher list \<Rightarrow> int \<Rightarrow> int \<Rightarrow> aggregation_request \<Rightarrow> time_series list result) \<Rightarrow> select_aggregate" where
  "TSDBAdapter_SelectAggregateSeries hardware_threads query ms start_time end_time req =
     (case query (map core_matcher ms) start_time end_time req of
        Inl e \<Rightarrow> Inl (''Storage aggregation query failed: '' @ e)
      | Inr tss \<Rightarrow> convert_all hardware_threads tss)"

section \<open>The buffer of a range query\<close>

definition SerializeMatchers :: "model_matcher list \<Rightarrow> string" where
  "SerializeMatchers ms =
     concat (map (\<lambda>m. (case mm_type m of EQUAL \<Rightarrow> ''0'' | NOT_EQUAL \<Rightarrow> ''1'' | REGEX_MATCH \<Rightarrow> ''2'' | REGEX_NO_MATCH \<Rightarrow> ''3'')
       @ '':'' @ mm_name m @ ''='' @ mm_value m @ '';'') ms)"

record buffer_entry =
  buf_start :: int
  buf_end :: int
  buf_data :: matrix

type_synonym query_buffer = "(string \<times> buffer_entry list) list"

definition FindCoveringEntry :: "model_matcher list \<Rightarrow> int \<Rightarrow> int \<Rightarrow> query_buffer \<Rightarrow> matrix option" where
  "FindCoveringEntry ms start_time end_time buf =
     (case map_of buf (SerializeMatchers ms) of
        None \<Rightarrow> None
      | Some es \<Rightarrow> map_option buf_data (List.find (\<lambda>e. buf_start e \<le> start_time \<and> end_time \<le> buf_end e) es))"

definition Buffer :: "select \<Rightarrow> model_matcher list \<Rightarrow> int \<Rightarrow> int \<Rightarrow> query_buffer \<Rightarrow> query_buffer result" where
  "Buffer sel ms start_time end_time buf =
     (if FindCoveringEntry ms start_time end_time buf \<noteq> None then Inr buf
      else
        let key = SerializeMatchers ms;
            old = (case map_of buf key of None \<Rightarrow> [] | Some es \<Rightarrow> es);
            es = filter (\<lambda>e. \<not> (start_time \<le> buf_start e \<and> buf_end e \<le> end_time)) old
        in case sel ms start_time end_time of
             Inl e \<Rightarrow> Inl e
           | Inr m \<Rightarrow>
               Inr (smap_insert key (es @ [\<lparr>buf_start = start_time, buf_end = end_time, buf_data = m\<rparr>]) buf))"

text \<open>\<open>std::lower_bound\<close> by halving.\<close>

function lower_bound :: "int \<Rightarrow> psample list \<Rightarrow> nat \<Rightarrow> nat \<Rightarrow> nat" where
  "lower_bound t ss first count =
     (if count = 0 then first
      else
        let step = count div 2
        in if ps_time (ss ! (first + step)) < t then lower_bound t ss (first + step + 1) (count - (step + 1))
           else lower_bound t ss first step)"
  by pat_completeness auto
termination
  by (relation "measure (\<lambda>(t, ss, first, count). count)") (auto simp: Let_def)

declare lower_bound.simps [simp del]

definition window_samples :: "int \<Rightarrow> int \<Rightarrow> psample list \<Rightarrow> psample list" where
  "window_samples start_time end_time ss =
     takeWhile (\<lambda>s. \<not> end_time < ps_time s) (drop (lower_bound start_time ss 0 (length ss)) ss)"

definition restrict_matrix :: "int \<Rightarrow> int \<Rightarrow> matrix \<Rightarrow> matrix" where
  "restrict_matrix start_time end_time m =
     filter (\<lambda>s. psamples s \<noteq> []) (map (\<lambda>s. s\<lparr>psamples := window_samples start_time end_time (psamples s)\<rparr>) m)"

definition Buffered_SelectSeries :: "select \<Rightarrow> query_buffer \<Rightarrow> select" where
  "Buffered_SelectSeries sel buf ms start_time end_time =
     (case FindCoveringEntry ms start_time end_time buf of
        Some m \<Rightarrow> Inr (restrict_matrix start_time end_time m)
      | None \<Rightarrow> sel ms start_time end_time)"

definition CacheStats :: "query_buffer \<Rightarrow> nat \<times> nat" where
  "CacheStats buf = (length buf, sum_list (map (\<lambda>(k, es). length es) buf))"

section \<open>Binary search and windows\<close>

definition time_sorted :: "psample list \<Rightarrow> bool" where
  "time_sorted ss \<longleftrightarrow> sorted_wrt (\<lambda>a b. ps_time a < ps_time b) ss"

lemma time_sorted_nth: "\<lbrakk>time_sorted ss; i < j; j < length ss\<rbrakk> \<Longrightarrow> ps_time (ss ! i) < ps_time (ss ! j)"
  unfolding time_sorted_def by (rule sorted_wrt_nth_less)

lemma lower_bound_split:
  assumes "time_sorted ss" "first + count \<le> length ss" "\<forall>i < first. ps_time (ss ! i) < t"
    "\<forall>i. first + count \<le> i \<and> i < length ss \<longrightarrow> t \<le> ps_time (ss ! i)"
  shows "lower_bound t ss first count \<le> length ss \<and> (\<forall>i < lower_bound t ss first count. ps_time (ss ! i) < t)
    \<and> (\<forall>i. lower_bound t ss first count \<le> i \<and> i < length ss \<longrightarrow> t \<le> ps_time (ss ! i))"
  using assms
proof (induction t ss first count rule: lower_bound.induct)
  case (1 t ss first count)
  show ?case
  proof (cases "count = 0")
    case True
    with 1(3-6) show ?thesis by (auto simp: lower_bound.simps [of t ss first])
  next
    case False
    define mid where "mid = first + count div 2"
    have mid: "mid < length ss" "mid < first + count" using 1(4) False by (auto simp: mid_def)
    show ?thesis
    proof (cases "ps_time (ss ! mid) < t")
      case True
      have "\<forall>i < mid + 1. ps_time (ss ! i) < t"
        using True time_sorted_nth [OF 1(3) _ mid(1)] by (auto simp: less_Suc_eq) (meson dual_order.strict_trans)
      moreover have "lower_bound t ss first count = lower_bound t ss (mid + 1) (count - (count div 2 + 1))"
        using True False by (simp add: lower_bound.simps [of t ss first] mid_def Let_def)
      ultimately show ?thesis
        using 1(1) [OF False refl] True 1(3-6) False by (auto simp: mid_def)
    next
      case ge: False
      have "\<forall>i. first + count div 2 \<le> i \<and> i < length ss \<longrightarrow> t \<le> ps_time (ss ! i)"
        using ge time_sorted_nth [OF 1(3), of mid] by (auto simp: mid_def le_less) (metis dual_order.strict_trans linorder_neqE_linordered_idom not_less_iff_gr_or_eq)
      moreover have "lower_bound t ss first count = lower_bound t ss first (count div 2)"
        using ge False by (simp add: lower_bound.simps [of t ss first] mid_def Let_def)
      ultimately show ?thesis
        using 1(2) [OF False refl] ge 1(3-6) False by (auto simp: mid_def)
    qed
  qed
qed

lemma sorted_drop_filter:
  assumes "\<forall>i < k. \<not> P (ss ! i)" "\<forall>i. k \<le> i \<and> i < length ss \<longrightarrow> P (ss ! i)" "k \<le> length ss"
  shows "drop k ss = filter P ss"
proof -
  have "filter P (take k ss) = []" using assms by (auto simp: filter_empty_conv in_set_conv_nth)
  moreover have "filter P (drop k ss) = drop k ss" using assms by (auto simp: filter_id_conv in_set_conv_nth)
  ultimately show ?thesis by (metis append_take_drop_id filter_append self_append_conv2)
qed

lemma takeWhile_filter_sorted:
  "time_sorted ss \<Longrightarrow> takeWhile (\<lambda>s. \<not> t < ps_time s) ss = filter (\<lambda>s. ps_time s \<le> t) ss"
proof (induction ss)
  case (Cons s ss)
  have "filter (\<lambda>x. ps_time x \<le> t) ss = []" if "t < ps_time s"
    using Cons.prems that by (auto simp: time_sorted_def filter_empty_conv)
  with Cons show ?case by (auto simp: time_sorted_def not_less)
qed simp

lemma window_samples_filter:
  assumes "time_sorted ss"
  shows "window_samples a b ss = filter (\<lambda>s. a \<le> ps_time s \<and> ps_time s \<le> b) ss"
proof -
  let ?k = "lower_bound a ss 0 (length ss)"
  have "?k \<le> length ss \<and> (\<forall>i < ?k. ps_time (ss ! i) < a) \<and> (\<forall>i. ?k \<le> i \<and> i < length ss \<longrightarrow> a \<le> ps_time (ss ! i))"
    by (rule lower_bound_split [OF assms]) auto
  then have "drop ?k ss = filter (\<lambda>s. a \<le> ps_time s) ss" by (intro sorted_drop_filter) auto
  moreover have "time_sorted (filter (\<lambda>s. a \<le> ps_time s) ss)"
    using assms by (simp add: time_sorted_def sorted_wrt_filter)
  ultimately show ?thesis
    by (simp add: window_samples_def takeWhile_filter_sorted conj_commute)
qed

section \<open>Conversion does not depend on the threads\<close>

lemma process_chunk_append:
  "process_chunk (xs @ ys) = (case process_chunk xs of Inl e \<Rightarrow> Inl e
     | Inr m \<Rightarrow> (case process_chunk ys of Inl e \<Rightarrow> Inl e | Inr m' \<Rightarrow> Inr (m @ m')))"
  by (induction xs) (auto split: sum.split)

lemma collect_process: "collect_chunks (map process_chunk xss) = process_chunk (concat xss)"
  by (induction xss) (simp_all add: process_chunk_append split: sum.split)

lemma concat_chunk_loop: "0 < n \<Longrightarrow> concat (chunk_loop n tss) = tss"
  by (induction n tss rule: chunk_loop.induct) (subst chunk_loop.simps, auto)

lemma convert_all_process: "convert_all hardware_threads tss = process_chunk tss"
proof (cases "tss = []")
  case False
  define k where "k = (if length tss < 1000 then 1 else if hardware_threads = 0 then 4 else hardware_threads)"
  have "0 < k" by (simp add: k_def)
  then have "0 < (length tss + k - 1) div k" using False
    by (simp add: div_greater_zero_iff) (metis One_nat_def Suc_leI add.commute add_diff_cancel_left' diff_le_mono2 le_add_diff_inverse2 length_greater_0_conv nat_add_left_cancel_le)
  then show ?thesis
    using False by (simp add: convert_all_def Let_def collect_process concat_chunk_loop flip: k_def)
qed (simp add: convert_all_def)

section \<open>The buffer is transparent\<close>

definition in_window :: "int \<Rightarrow> int \<Rightarrow> matrix \<Rightarrow> matrix" where
  "in_window a b m =
     filter (\<lambda>s. psamples s \<noteq> [])
       (map (\<lambda>s. s\<lparr>psamples := filter (\<lambda>x. a \<le> ps_time x \<and> ps_time x \<le> b) (psamples s)\<rparr>) m)"

text \<open>A storage that holds, for every matcher list, some series in time order and returns the
  part of them in the window.\<close>

definition range_source :: "select \<Rightarrow> (model_matcher list \<Rightarrow> matrix) \<Rightarrow> bool" where
  "range_source sel db \<longleftrightarrow> (\<forall>ms a b. sel ms a b = Inr (in_window a b (db ms)))
     \<and> (\<forall>ms. \<forall>s \<in> set (db ms). time_sorted (psamples s))"

lemma in_window_in_window:
  assumes "a' \<le> a" "b \<le> b'"
  shows "in_window a b (in_window a' b' m) = in_window a b m"
proof (induction m)
  case (Cons s m)
  have "filter (\<lambda>x. (a \<le> ps_time x \<and> ps_time x \<le> b) \<and> a' \<le> ps_time x \<and> ps_time x \<le> b') (psamples s)
      = filter (\<lambda>x. a \<le> ps_time x \<and> ps_time x \<le> b) (psamples s)"
    using assms by (intro filter_cong) auto
  moreover have "filter (\<lambda>x. a \<le> ps_time x \<and> ps_time x \<le> b) (psamples s) = []"
    if "filter (\<lambda>x. a' \<le> ps_time x \<and> ps_time x \<le> b') (psamples s) = []"
    using that assms by (force simp: filter_empty_conv)
  ultimately show ?case using Cons by (auto simp: in_window_def conj_commute)
qed (simp add: in_window_def)

lemma restrict_matrix_window:
  assumes "\<forall>s \<in> set m. time_sorted (psamples s)"
  shows "restrict_matrix a b m = in_window a b m"
  using assms by (simp add: restrict_matrix_def in_window_def window_samples_filter cong: map_cong)

definition buffer_ok :: "(model_matcher list \<Rightarrow> matrix) \<Rightarrow> model_matcher list set \<Rightarrow> query_buffer \<Rightarrow> bool" where
  "buffer_ok db M buf \<longleftrightarrow> (\<forall>ms \<in> M. \<forall>es. map_of buf (SerializeMatchers ms) = Some es \<longrightarrow>
     (\<forall>e \<in> set es. buf_data e = in_window (buf_start e) (buf_end e) (db ms)))"

lemma Buffer_ok:
  assumes "buffer_ok db M buf" "range_source sel db" "inj_on SerializeMatchers M" "ms \<in> M"
  shows "\<exists>buf'. Buffer sel ms a b buf = Inr buf' \<and> buffer_ok db M buf'"
proof (cases "FindCoveringEntry ms a b buf = None")
  case True
  have sel: "sel ms a b = Inr (in_window a b (db ms))" using assms(2) by (simp add: range_source_def)
  have "SerializeMatchers ms' = SerializeMatchers ms \<longleftrightarrow> ms' = ms" if "ms' \<in> M" for ms'
    using assms(3,4) that by (auto dest: inj_onD)
  moreover have "\<forall>e \<in> set (case map_of buf (SerializeMatchers ms) of None \<Rightarrow> [] | Some es \<Rightarrow> es).
      buf_data e = in_window (buf_start e) (buf_end e) (db ms)"
    using assms(1,4) by (cases "map_of buf (SerializeMatchers ms)") (auto simp: buffer_ok_def)
  ultimately show ?thesis
    using True assms(1,4) sel by (auto simp: Buffer_def Let_def buffer_ok_def smap_simps)
qed (use assms in \<open>simp add: Buffer_def\<close>)

fun Buffer_all :: "select \<Rightarrow> (model_matcher list \<times> int \<times> int) list \<Rightarrow> query_buffer \<Rightarrow> query_buffer result" where
  "Buffer_all sel [] buf = Inr buf"
| "Buffer_all sel ((ms, a, b) # rs) buf =
     (case Buffer sel ms a b buf of Inl e \<Rightarrow> Inl e | Inr buf' \<Rightarrow> Buffer_all sel rs buf')"

lemma Buffer_all_ok:
  "\<lbrakk>buffer_ok db M buf; range_source sel db; inj_on SerializeMatchers M; fst ` set rs \<subseteq> M\<rbrakk> \<Longrightarrow>
     \<exists>buf'. Buffer_all sel rs buf = Inr buf' \<and> buffer_ok db M buf'"
proof (induction rs arbitrary: buf)
  case (Cons r rs)
  obtain ms a b where r: "r = (ms, a, b)" by (cases r)
  with Buffer_ok [OF Cons.prems(1-3), of ms a b] Cons.prems(4) obtain buf1
    where "Buffer sel ms a b buf = Inr buf1" "buffer_ok db M buf1" by auto
  with Cons.IH [of buf1] Cons.prems r show ?case by auto
qed simp

lemma buffered_select:
  assumes "buffer_ok db M buf" "range_source sel db" "ms \<in> M"
  shows "Buffered_SelectSeries sel buf ms a b = sel ms a b"
proof (cases "FindCoveringEntry ms a b buf")
  case (Some m)
  then obtain es e where e: "map_of buf (SerializeMatchers ms) = Some es" "e \<in> set es" "buf_start e \<le> a" "b \<le> buf_end e"
    "m = buf_data e"
    unfolding FindCoveringEntry_def find_Some_iff by (auto simp: find_Some_iff split: option.splits) (metis nth_mem)
  then have m: "m = in_window (buf_start e) (buf_end e) (db ms)" using assms(1,3) by (auto simp: buffer_ok_def)
  moreover have "\<forall>s \<in> set m. time_sorted (psamples s)"
    using assms(2) by (auto simp: m in_window_def range_source_def time_sorted_def sorted_wrt_filter)
  ultimately have "restrict_matrix a b m = in_window a b (db ms)"
    using restrict_matrix_window in_window_in_window [OF e(3,4)] by simp
  with Some assms(2) show ?thesis by (simp add: Buffered_SelectSeries_def range_source_def)
qed (simp add: Buffered_SelectSeries_def)

section \<open>Properties\<close>

text \<open>cutting the result into chunks for asynchronous conversion changes nothing: for every number of
  hardware threads the adapter returns what one pass over all series returns, the first conversion
  error included.\<close>

theorem adapter_threads_irrelevant:
  "TSDBAdapter_SelectSeries hardware_threads query ms a b =
     (case query (map core_matcher ms) a b of
        Inl e \<Rightarrow> Inl (''Storage query failed: '' @ e)
      | Inr tss \<Rightarrow> process_chunk tss)"
  by (simp add: TSDBAdapter_SelectSeries_def convert_all_process cong: sum.case_cong)

text \<open>C34: the buffer of a range query is transparent. Over a storage that returns the samples of a window in
  time order, prefetching any list of requests succeeds, and every later selection with matchers whose
  cache keys are distinct, covered by the buffer or not, returns what the storage itself returns.\<close>

theorem buffered_select_exact:
  assumes "range_source sel db" "inj_on SerializeMatchers M" "fst ` set requests \<subseteq> M" "ms \<in> M"
  shows "\<exists>buf. Buffer_all sel requests [] = Inr buf \<and> (\<forall>a b. Buffered_SelectSeries sel buf ms a b = sel ms a b)"
proof -
  have "buffer_ok db M []" by (simp add: buffer_ok_def)
  from Buffer_all_ok [OF this assms(1-3)] obtain buf where "Buffer_all sel requests [] = Inr buf" "buffer_ok db M buf" by blast
  with buffered_select assms(1,4) show ?thesis by blast
qed

definition one_series :: "model_matcher list \<Rightarrow> matrix" where
  "one_series ms = [\<lparr>metric = [(''job'', ''api'')], psamples = [\<lparr>ps_time = 5, ps_value = 1\<rparr>, \<lparr>ps_time = 9, ps_value = 2\<rparr>]\<rparr>]"

theorem buffered_select_exact_witness:
  "\<exists>buf. Buffer_all (\<lambda>ms a b. Inr (in_window a b (one_series ms))) [([], 0, 10), ([], 4, 20)] [] = Inr buf
     \<and> Buffered_SelectSeries (\<lambda>ms a b. Inr (in_window a b (one_series ms))) buf [] 6 9
       = Inr [\<lparr>metric = [(''job'', ''api'')], psamples = [\<lparr>ps_time = 9, ps_value = 2\<rparr>]\<rparr>]"
proof -
  have src: "range_source (\<lambda>ms a b. Inr (in_window a b (one_series ms))) one_series"
    by (simp add: range_source_def one_series_def time_sorted_def)
  have "in_window 6 9 (one_series []) = [\<lparr>metric = [(''job'', ''api'')], psamples = [\<lparr>ps_time = 9, ps_value = 2\<rparr>]\<rparr>]"
    by (simp add: in_window_def one_series_def)
  with buffered_select_exact [OF src, of "{[]}" "[([], 0, 10), ([], 4, 20)]" "[]"] show ?thesis by auto
qed

text \<open>the cache key does not determine the matchers: a value that contains the separators makes one matcher
  look like two, and the buffer then answers one selection with the series prefetched for the other.\<close>

theorem matcher_key_collision:
  "let one = [\<lparr>mm_type = EQUAL, mm_name = ''a'', mm_value = ''x;0:b=y''\<rparr>];
       two = [\<lparr>mm_type = EQUAL, mm_name = ''a'', mm_value = ''x''\<rparr>, \<lparr>mm_type = EQUAL, mm_name = ''b'', mm_value = ''y''\<rparr>];
       sel = (\<lambda>ms a b. Inr (if ms = one then one_series ms else []))
   in SerializeMatchers one = SerializeMatchers two
     \<and> (case Buffer sel one 0 10 [] of
           Inl e \<Rightarrow> False
         | Inr buf \<Rightarrow> sel two 0 10 = Inr [] \<and> Buffered_SelectSeries sel buf two 0 10 = Inr (one_series two))"
  by code_simp

end
