(* ===== verification/Promql_Evaluator.thy ===== *)
theory Promql_Evaluator
  imports Query_Storage "HOL-Library.AList" "HOL-Library.Multiset"
begin

text \<open>
  The PromQL evaluator (\<open>src/tsdb/prometheus/promql/evaluator.cpp\<close>): instant evaluation of every node
  type, and range evaluation with its fast paths for selectors, aggregations and rates. Doubles are
  bit patterns; their comparison is computed from the bits, their arithmetic is a record of
  parameters (\<open>fp_math\<close> holds the functions of \<open><cmath>\<close> by their name), as are \<open>std::sort\<close>, whose order of
  equivalent elements is unspecified, and here the function registry. A C++ exception is the \<open>Inl\<close> of a result,
  and so is undefined behaviour, under its own text.
\<close>

section \<open>Doubles\<close>

definition double_key :: "double \<Rightarrow> int" where
  "double_key w = (if bit w 63 then - uint (w AND 0x7FFFFFFFFFFFFFFF) else uint w)"

definition double_less :: "double \<Rightarrow> double \<Rightarrow> bool" where
  "double_less a b \<longleftrightarrow> \<not> double_is_nan a \<and> \<not> double_is_nan b \<and> double_key a < double_key b"

definition double_le :: "double \<Rightarrow> double \<Rightarrow> bool" where
  "double_le a b \<longleftrightarrow> double_less a b \<or> double_eq a b"

definition double_inf :: double where "double_inf = 0x7FF0000000000000"
definition double_neg_inf :: double where "double_neg_inf = 0xFFF0000000000000"
definition double_nan :: double where "double_nan = 0x7FF8000000000000"
definition double_one :: double where "double_one = 0x3FF0000000000000"

definition double_of_bool :: "bool \<Rightarrow> double" where
  "double_of_bool b = (if b then double_one else 0)"

record fp =
  fp_add :: "double \<Rightarrow> double \<Rightarrow> double"
  fp_sub :: "double \<Rightarrow> double \<Rightarrow> double"
  fp_mul :: "double \<Rightarrow> double \<Rightarrow> double"
  fp_div :: "double \<Rightarrow> double \<Rightarrow> double"
  fp_fmod :: "double \<Rightarrow> double \<Rightarrow> double"
  fp_pow :: "double \<Rightarrow> double \<Rightarrow> double"
  fp_sqrt :: "double \<Rightarrow> double"
  fp_math :: "string \<Rightarrow> double \<Rightarrow> double"
  fp_of_int :: "int \<Rightarrow> double"
  fp_to_string :: "double \<Rightarrow> string"

section \<open>Values and environments\<close>

record isample =
  is_metric :: labels
  is_time :: int
  is_value :: double

datatype pvalue =
    NoneValue
  | ScalarValue int double
  | VectorValue "isample list"
  | MatrixValue matrix
  | StringValue int string

record eval_env =
  env_fp :: fp
  env_select :: "select option"
  env_select_aggregate :: select_aggregate
  env_lookback :: int
  env_function :: "string \<Rightarrow> (pvalue list \<Rightarrow> int \<Rightarrow> pvalue result) option"
  env_sort_samples :: "(isample \<Rightarrow> isample \<Rightarrow> bool) \<Rightarrow> isample list \<Rightarrow> isample list"
  env_sort_doubles :: "double list \<Rightarrow> double list"

definition undefined_behaviour :: "'a result" where
  "undefined_behaviour = Inl ''undefined behaviour''"

fun sequence_results :: "'a result list \<Rightarrow> 'a list result" where
  "sequence_results [] = Inr []"
| "sequence_results (r # rs) =
     (case r of Inl e \<Rightarrow> Inl e | Inr x \<Rightarrow> (case sequence_results rs of Inl e \<Rightarrow> Inl e | Inr xs \<Rightarrow> Inr (x # xs)))"

text \<open>\<open>for (int64_t t = a; t <= b; t += d)\<close> with a positive step.\<close>

function steps :: "int \<Rightarrow> int \<Rightarrow> int \<Rightarrow> int list" where
  "steps a b d = (if d \<le> 0 \<or> b < a then [] else a # steps (a + d) b d)"
  by pat_completeness auto
termination
  by (relation "measure (\<lambda>(a, b, d). nat (b - a + 1))") auto

declare steps.simps [simp del]

section \<open>Selectors\<close>

definition selector_offset :: "vector_selector \<Rightarrow> int" where
  "selector_offset vs = sint (parsedOffsetSeconds vs) * 1000"

definition full_matchers :: "vector_selector \<Rightarrow> model_matcher list" where
  "full_matchers vs =
     (if vs_name vs \<noteq> [] \<and> \<not> list_ex (\<lambda>m. mm_name m = ''__name__'') (labelMatchers vs)
      then labelMatchers vs @ [\<lparr>mm_type = EQUAL, mm_name = ''__name__'', mm_value = vs_name vs\<rparr>]
      else labelMatchers vs)"

definition positive_offset :: "vector_selector \<Rightarrow> int" where
  "positive_offset vs = (if 0 < selector_offset vs then selector_offset vs else 0)"

definition last_samples :: "matrix \<Rightarrow> isample list" where
  "last_samples m =
     map (\<lambda>s. \<lparr>is_metric = metric s, is_time = ps_time (last (psamples s)), is_value = ps_value (last (psamples s))\<rparr>)
       (filter (\<lambda>s. psamples s \<noteq> []) m)"

definition EvaluateVectorSelector :: "eval_env \<Rightarrow> vector_selector \<Rightarrow> int \<Rightarrow> pvalue result" where
  "EvaluateVectorSelector env vs t =
     (case env_select env of
        None \<Rightarrow> Inl ''No storage adapter configured''
      | Some sel \<Rightarrow>
          (case sel (full_matchers vs) (t - env_lookback env - positive_offset vs) (t - positive_offset vs) of
             Inl e \<Rightarrow> Inl e
           | Inr m \<Rightarrow> Inr (VectorValue (last_samples m))))"

definition EvaluateMatrixSelector :: "eval_env \<Rightarrow> vector_selector \<Rightarrow> int64 \<Rightarrow> int \<Rightarrow> pvalue result" where
  "EvaluateMatrixSelector env vs range_secs t =
     (case env_select env of
        None \<Rightarrow> Inl ''No storage adapter configured''
      | Some sel \<Rightarrow>
          let b = t - positive_offset vs; a = b - sint range_secs * 1000
          in (case sel (full_matchers vs) a b of Inl e \<Rightarrow> Inl e | Inr m \<Rightarrow> Inr (MatrixValue m)))"

section \<open>Binary operators\<close>

definition ApplyOp :: "fp \<Rightarrow> token_type \<Rightarrow> double \<Rightarrow> double \<Rightarrow> double result" where
  "ApplyOp f op l r =
     (if op = ADD then Inr (fp_add f l r)
      else if op = SUB then Inr (fp_sub f l r)
      else if op = MUL then Inr (fp_mul f l r)
      else if op = DIV then Inr (if double_is_zero r then double_inf else fp_div f l r)
      else if op = MOD then Inr (if double_is_zero r then double_nan else fp_fmod f l r)
      else if op = POW then Inr (fp_pow f l r)
      else if op = EQL then Inr (double_of_bool (double_eq l r))
      else if op = NEQ then Inr (double_of_bool (\<not> double_eq l r))
      else if op = GTR then Inr (double_of_bool (double_less r l))
      else if op = LSS then Inr (double_of_bool (double_less l r))
      else if op = GTE then Inr (double_of_bool (double_le r l))
      else if op = LTE then Inr (double_of_bool (double_le l r))
      else Inl ''Unsupported binary operator'')"

definition GenerateSignature :: "labels \<Rightarrow> string list \<Rightarrow> bool \<Rightarrow> string" where
  "GenerateSignature l matching on_flag =
     (if on_flag then
        concat (map (\<lambda>n. n @ ''='' @ (case GetLabelValue n l of Some v \<Rightarrow> v | None \<Rightarrow> []) @ '','') matching)
      else
        concat (map (\<lambda>(n, v). if n = ''__name__'' \<or> n \<in> set matching then [] else n @ ''='' @ v @ '','') l))"

definition is_logical :: "token_type \<Rightarrow> bool" where
  "is_logical op \<longleftrightarrow> op = AND_TOKEN \<or> op = OR_TOKEN \<or> op = UNLESS"

definition LogicalOp :: "token_type \<Rightarrow> binary_modifiers \<Rightarrow> isample list \<Rightarrow> isample list \<Rightarrow> isample list" where
  "LogicalOp op m lvec rvec =
     (let sig = (\<lambda>s. GenerateSignature (is_metric s) (matchingLabels m) (on_labels m));
          rhs = sig ` set rvec; lhs = sig ` set lvec
      in if op = AND_TOKEN then filter (\<lambda>s. sig s \<in> rhs) lvec
         else if op = UNLESS then filter (\<lambda>s. sig s \<notin> rhs) lvec
         else lvec @ filter (\<lambda>s. sig s \<notin> lhs) rvec)"

text \<open>The result for one sample when the other side is a scalar; no result drops the sample.\<close>

definition scalar_result ::
  "token_type \<Rightarrow> bool \<Rightarrow> int \<Rightarrow> isample \<Rightarrow> double \<Rightarrow> isample option" where
  "scalar_result op ret_bool t s res =
     (if comparison_op op then
        if ret_bool then
          Some (s\<lparr>is_value := double_of_bool (\<not> double_eq res 0), is_metric := RemoveLabel ''__name__'' (is_metric s)\<rparr>)
        else if \<not> double_eq res 0 then Some \<lparr>is_metric = is_metric s, is_time = t, is_value = is_value s\<rparr>
        else None
      else Some (s\<lparr>is_value := res, is_metric := RemoveLabel ''__name__'' (is_metric s)\<rparr>))"

fun map_samples :: "(isample \<Rightarrow> isample option result) \<Rightarrow> isample list \<Rightarrow> isample list result" where
  "map_samples f [] = Inr []"
| "map_samples f (s # ss) =
     (case f s of
        Inl e \<Rightarrow> Inl e
      | Inr x \<Rightarrow> (case map_samples f ss of Inl e \<Rightarrow> Inl e | Inr ys \<Rightarrow> Inr ((case x of None \<Rightarrow> [] | Some y \<Rightarrow> [y]) @ ys)))"

fun include_labels :: "string list \<Rightarrow> labels \<Rightarrow> labels \<Rightarrow> labels result" where
  "include_labels [] r l = Inr l"
| "include_labels (n # ns) r l =
     (case GetLabelValue n r of
        None \<Rightarrow> include_labels ns r l
      | Some v \<Rightarrow> (case AddLabel n v l of Inl e \<Rightarrow> Inl e | Inr l' \<Rightarrow> include_labels ns r l'))"

definition match_result ::
  "fp \<Rightarrow> token_type \<Rightarrow> binary_modifiers \<Rightarrow> isample \<Rightarrow> isample \<Rightarrow> isample option result" where
  "match_result f op m l r =
     (case ApplyOp f op (is_value l) (is_value r) of
        Inl e \<Rightarrow> Inl e
      | Inr res \<Rightarrow>
          if comparison_op op then
            if returnBool m then
              Inr (Some (l\<lparr>is_value := double_of_bool (\<not> double_eq res 0), is_metric := RemoveLabel ''__name__'' (is_metric l)\<rparr>))
            else if \<not> double_eq res 0 then
              (case include_labels (includeLabels m) (is_metric r) (is_metric l) of
                 Inl e \<Rightarrow> Inl e | Inr lab \<Rightarrow> Inr (Some (l\<lparr>is_metric := lab\<rparr>)))
            else Inr None
          else
            (case include_labels (includeLabels m) (is_metric r) (RemoveLabel ''__name__'' (is_metric l)) of
               Inl e \<Rightarrow> Inl e | Inr lab \<Rightarrow> Inr (Some (l\<lparr>is_value := res, is_metric := lab\<rparr>))))"

definition match_one ::
  "fp \<Rightarrow> token_type \<Rightarrow> binary_modifiers \<Rightarrow> isample list \<Rightarrow> isample \<Rightarrow> isample list result" where
  "match_one f op m rvec l =
     (let sig = (\<lambda>s. GenerateSignature (is_metric s) (matchingLabels m) (on_labels m));
          matches_of = filter (\<lambda>r. sig r = sig l) rvec
      in if matches_of = [] then Inr []
         else if groupSide m = ''left'' \<and> 1 < length matches_of then
           Inl ''multiple matches for labels: many-to-one matching must be unique on right side''
         else if groupSide m \<noteq> ''left'' \<and> groupSide m \<noteq> ''right'' \<and> 1 < length matches_of then
           Inl ''multiple matches for labels: one-to-one matching must be unique on both sides''
         else map_samples (match_result f op m l) matches_of)"

definition VectorVector ::
  "fp \<Rightarrow> token_type \<Rightarrow> binary_modifiers \<Rightarrow> isample list \<Rightarrow> isample list \<Rightarrow> isample list result" where
  "VectorVector f op m lvec rvec = map_sum id concat (sequence_results (map (match_one f op m rvec) lvec))"

definition VectorScalar ::
  "fp \<Rightarrow> token_type \<Rightarrow> bool \<Rightarrow> int \<Rightarrow> (double \<Rightarrow> double result) \<Rightarrow> isample list \<Rightarrow> isample list result" where
  "VectorScalar f op ret_bool t apply_value ss =
     map_samples (\<lambda>s. map_sum id (scalar_result op ret_bool t s) (apply_value (is_value s))) ss"

definition EvaluateBinary ::
  "eval_env \<Rightarrow> token_type \<Rightarrow> binary_modifiers \<Rightarrow> pvalue result \<Rightarrow> pvalue result \<Rightarrow> int \<Rightarrow> pvalue result" where
  "EvaluateBinary env op m lhs rhs t =
     (case lhs of Inl e \<Rightarrow> Inl e | Inr lv \<Rightarrow>
      (case rhs of Inl e \<Rightarrow> Inl e | Inr rv \<Rightarrow>
       if is_logical op then
         (case (lv, rv) of
            (VectorValue l, VectorValue r) \<Rightarrow> Inr (VectorValue (LogicalOp op m l r))
          | _ \<Rightarrow> Inl ''Logical operators must be between vectors'')
       else
         (case (lv, rv) of
            (ScalarValue _ a, ScalarValue _ b) \<Rightarrow> map_sum id (ScalarValue t) (ApplyOp (env_fp env) op a b)
          | (VectorValue l, ScalarValue _ b) \<Rightarrow>
              map_sum id VectorValue (VectorScalar (env_fp env) op (returnBool m) t (\<lambda>v. ApplyOp (env_fp env) op v b) l)
          | (ScalarValue _ a, VectorValue r) \<Rightarrow>
              map_sum id VectorValue (VectorScalar (env_fp env) op (returnBool m) t (\<lambda>v. ApplyOp (env_fp env) op a v) r)
          | (VectorValue l, VectorValue r) \<Rightarrow> map_sum id VectorValue (VectorVector (env_fp env) op m l r)
          | _ \<Rightarrow> Inl ''Vector binary operations not implemented yet'')))"

section \<open>Aggregation\<close>

text \<open>The integer part of a double, towards zero; none for infinities and NaN.\<close>

definition double_trunc :: "double \<Rightarrow> int option" where
  "double_trunc w =
     (let e = uint (drop_bit 52 w AND 0x7FF);
          m = uint (w AND 0xFFFFFFFFFFFFF) + 4503599627370496;
          a = (if e = 0 then 0 else if 1075 \<le> e then m * 2 ^ nat (e - 1075) else m div 2 ^ nat (1075 - e))
      in if e = 2047 then None else Some (if bit w 63 then - a else a))"

text \<open>A conversion to an integer type is defined when the truncated value fits.\<close>

definition cast_double :: "int \<Rightarrow> int \<Rightarrow> double \<Rightarrow> int result" where
  "cast_double lo hi w =
     (case double_trunc w of
        None \<Rightarrow> undefined_behaviour
      | Some i \<Rightarrow> if lo \<le> i \<and> i \<le> hi then Inr i else undefined_behaviour)"

text \<open>\<open>operator<\<close> on doubles orders a collection unless a NaN meets two different numbers.\<close>

definition orderable :: "double list \<Rightarrow> bool" where
  "orderable vs \<longleftrightarrow> \<not> list_ex double_is_nan vs
     \<or> list_all (\<lambda>a. list_all (\<lambda>b. \<not> double_less a b) vs) vs"

definition core_aggregation_op :: "token_type \<Rightarrow> aggregation_op option" where
  "core_aggregation_op op =
     (if op = SUM_TOKEN then Some Agg_SUM
      else if op = MIN_TOKEN then Some Agg_MIN
      else if op = MAX_TOKEN then Some Agg_MAX
      else if op = COUNT then Some Agg_COUNT
      else if op = AVG then Some Agg_AVG
      else if op = STDDEV then Some Agg_STDDEV
      else if op = STDVAR then Some Agg_STDVAR
      else if op = QUANTILE then Some Agg_QUANTILE
      else None)"

record sample_group =
  group_metric :: labels
  group_members :: "isample list"

definition group_labels :: "string list \<Rightarrow> bool \<Rightarrow> labels \<Rightarrow> labels result" where
  "group_labels ls without l =
     (if without then AddLabels (filter (\<lambda>(n, v). n \<notin> set ls \<and> n \<noteq> ''__name__'') l) []
      else AddLabels (List.map_filter (\<lambda>n. map_option (Pair n) (GetLabelValue n l)) ls) [])"

definition add_to_group :: "labels \<Rightarrow> isample \<Rightarrow> (string \<times> sample_group) list \<Rightarrow> (string \<times> sample_group) list" where
  "add_to_group l s groups =
     (let key = LabelSet_ToString l;
          g = (case map_of groups key of None \<Rightarrow> \<lparr>group_metric = l, group_members = []\<rparr> | Some g \<Rightarrow> g)
      in smap_insert key (g\<lparr>group_members := group_members g @ [s]\<rparr>) groups)"

fun group_samples ::
  "string list \<Rightarrow> bool \<Rightarrow> isample list \<Rightarrow> (string \<times> sample_group) list \<Rightarrow> (string \<times> sample_group) list result" where
  "group_samples ls without [] groups = Inr groups"
| "group_samples ls without (s # ss) groups =
     (case group_labels ls without (is_metric s) of
        Inl e \<Rightarrow> Inl e
      | Inr l \<Rightarrow> group_samples ls without ss (add_to_group l s groups))"

definition sum_values :: "fp \<Rightarrow> double list \<Rightarrow> double" where
  "sum_values f vs = foldl (fp_add f) 0 vs"

definition average :: "fp \<Rightarrow> double list \<Rightarrow> double" where
  "average f vs = fp_div f (sum_values f vs) (fp_of_int f (int (length vs)))"

definition std_min :: "double \<Rightarrow> double \<Rightarrow> double" where
  "std_min a b = (if double_less b a then b else a)"

definition std_max :: "double \<Rightarrow> double \<Rightarrow> double" where
  "std_max a b = (if double_less a b then b else a)"

definition variance :: "fp \<Rightarrow> double list \<Rightarrow> double" where
  "variance f vs =
     (let mean = average f vs
      in fp_div f (foldl (\<lambda>acc v. let diff = fp_sub f v mean in fp_add f acc (fp_mul f diff diff)) 0 vs)
           (fp_of_int f (int (length vs))))"

definition quantile :: "fp \<Rightarrow> (double list \<Rightarrow> double list) \<Rightarrow> double \<Rightarrow> double list \<Rightarrow> double result" where
  "quantile f sort_doubles phi vs =
     (if vs = [] then Inr double_nan
      else if \<not> orderable vs then undefined_behaviour
      else
        let values = sort_doubles vs; n = int (length values);
            rank = fp_mul f phi (fp_of_int f (n - 1))
        in case cast_double 0 18446744073709551615 rank of
             Inl e \<Rightarrow> Inl e
           | Inr lower \<Rightarrow>
               let upper = lower + 1; weight = fp_sub f rank (fp_of_int f lower)
               in if n \<le> upper then
                    (if lower < n then Inr (values ! nat lower) else undefined_behaviour)
                  else Inr (fp_add f (fp_mul f (values ! nat lower) (fp_sub f double_one weight))
                         (fp_mul f (values ! nat upper) weight)))"

text \<open>\<open>std::map<double, int>\<close>: a key is found when neither is less.\<close>

fun count_value :: "double \<Rightarrow> (double \<times> int) list \<Rightarrow> (double \<times> int) list" where
  "count_value v [] = [(v, 1)]"
| "count_value v ((k, c) # m) =
     (if double_less v k then (v, 1) # (k, c) # m
      else if double_less k v then (k, c) # count_value v m
      else (k, c + 1) # m)"

definition value_label :: "fp \<Rightarrow> double \<Rightarrow> string result" where
  "value_label f v =
     (case cast_double (- 9223372036854775808) 9223372036854775807 v of
        Inl e \<Rightarrow> Inl e
      | Inr i \<Rightarrow> Inr (if double_eq v (fp_of_int f i) then int_string i else fp_to_string f v))"

fun count_samples :: "fp \<Rightarrow> int \<Rightarrow> labels \<Rightarrow> string \<Rightarrow> (double \<times> int) list \<Rightarrow> isample list result" where
  "count_samples f t l label [] = Inr []"
| "count_samples f t l label ((v, c) # m) =
     (case value_label f v of
        Inl e \<Rightarrow> Inl e
      | Inr s \<Rightarrow>
          (case AddLabel label s l of
             Inl e \<Rightarrow> Inl e
           | Inr l' \<Rightarrow>
               (case count_samples f t l label m of
                  Inl e \<Rightarrow> Inl e
                | Inr r \<Rightarrow> Inr (\<lparr>is_metric = l', is_time = t, is_value = fp_of_int f c\<rparr> # r))))"

definition aggregate_group ::
  "eval_env \<Rightarrow> token_type \<Rightarrow> int \<Rightarrow> double \<Rightarrow> string \<Rightarrow> sample_group \<Rightarrow> isample list result" where
  "aggregate_group env op t param_value param_string g =
     (let f = env_fp env; vs = map is_value (group_members g);
          one = (\<lambda>r. map_sum id (\<lambda>v. [\<lparr>is_metric = group_metric g, is_time = t, is_value = v\<rparr>]) r)
      in if op = SUM_TOKEN then one (Inr (sum_values f vs))
         else if op = AVG then one (Inr (average f vs))
         else if op = MIN_TOKEN then one (Inr (foldl std_min double_inf vs))
         else if op = MAX_TOKEN then one (Inr (foldl std_max double_neg_inf vs))
         else if op = COUNT then one (Inr (fp_of_int f (int (length vs))))
         else if op = STDDEV then one (Inr (fp_sqrt f (variance f vs)))
         else if op = STDVAR then one (Inr (variance f vs))
         else if op = TOPK \<or> op = BOTTOMK then
           (case cast_double (- 2147483648) 2147483647 param_value of
              Inl e \<Rightarrow> Inl e
            | Inr k \<Rightarrow>
                if k < 1 then Inr []
                else if \<not> orderable vs then undefined_behaviour
                else Inr (take (nat k) (env_sort_samples env
                       (if op = TOPK then (\<lambda>a b. double_less (is_value b) (is_value a))
                        else (\<lambda>a b. double_less (is_value a) (is_value b))) (group_members g))))
         else if op = COUNT_VALUES then
           (if \<not> orderable vs then undefined_behaviour
            else count_samples f t (group_metric g) param_string (fold count_value vs []))
         else if op = QUANTILE then one (quantile f (env_sort_doubles env) param_value vs)
         else Inl ''Unsupported aggregation operator'')"

text \<open>The parameter is evaluated once the samples are grouped.\<close>

definition aggregate_param :: "token_type \<Rightarrow> pvalue result option \<Rightarrow> (double \<times> string) result" where
  "aggregate_param op param =
     (case param of
        None \<Rightarrow> Inr (0, [])
      | Some (Inl e) \<Rightarrow> Inl e
      | Some (Inr v) \<Rightarrow>
          if op = COUNT_VALUES then
            (case v of StringValue _ s \<Rightarrow> Inr (0, s) | _ \<Rightarrow> Inl ''count_values parameter must be a string'')
          else (case v of ScalarValue _ x \<Rightarrow> Inr (x, []) | _ \<Rightarrow> Inl ''Aggregation parameter must be a scalar''))"

definition AggregateVector ::
  "eval_env \<Rightarrow> token_type \<Rightarrow> string list \<Rightarrow> bool \<Rightarrow> pvalue result option \<Rightarrow> int \<Rightarrow> isample list \<Rightarrow> isample list result" where
  "AggregateVector env op ls without param t ss =
     (case group_samples ls without ss [] of
        Inl e \<Rightarrow> Inl e
      | Inr groups \<Rightarrow>
          (case aggregate_param op param of
             Inl e \<Rightarrow> Inl e
           | Inr (x, label) \<Rightarrow>
               map_sum id concat (sequence_results (map (\<lambda>(k, g). aggregate_group env op t x label g) groups))))"

text \<open>The aggregation handed to the storage, no value where the code goes on without it.\<close>

definition pushdown ::
  "eval_env \<Rightarrow> token_type \<Rightarrow> expr \<Rightarrow> string list \<Rightarrow> bool \<Rightarrow> pvalue result option \<Rightarrow> int \<Rightarrow> pvalue result option" where
  "pushdown env op e ls without param t =
     (case (e, core_aggregation_op op) of
        (VectorSelector vs, Some cop) \<Rightarrow>
          (case (case param of None \<Rightarrow> Inr (Some 0) | Some (Inl x) \<Rightarrow> Inl x
                 | Some (Inr (ScalarValue _ v)) \<Rightarrow> Inr (Some v) | Some (Inr _) \<Rightarrow> Inr None) of
             Inl x \<Rightarrow> Some (Inl x)
           | Inr None \<Rightarrow> None
           | Inr (Some v) \<Rightarrow>
               if env_select env = None then Some undefined_behaviour
               else
                 (case env_select_aggregate env (full_matchers vs) (t - env_lookback env - positive_offset vs)
                         (t - positive_offset vs) \<lparr>agg_op = cop, grouping_keys = ls, agg_without = without, agg_param = v\<rparr> of
                    Inl _ \<Rightarrow> None
                  | Inr m \<Rightarrow> Some (Inr (VectorValue (last_samples m)))))
      | _ \<Rightarrow> None)"

definition EvaluateAggregate ::
  "eval_env \<Rightarrow> token_type \<Rightarrow> expr \<Rightarrow> pvalue result \<Rightarrow> string list \<Rightarrow> bool \<Rightarrow> pvalue result option \<Rightarrow> int \<Rightarrow> pvalue result" where
  "EvaluateAggregate env op e inner ls without param t =
     (case pushdown env op e ls without param t of
        Some r \<Rightarrow> r
      | None \<Rightarrow>
          (case inner of
             Inl x \<Rightarrow> Inl x
           | Inr (VectorValue ss) \<Rightarrow> map_sum id VectorValue (AggregateVector env op ls without param t ss)
           | Inr _ \<Rightarrow> Inl ''Aggregation requires a vector argument''))"

section \<open>Calls, subqueries and the dispatcher\<close>

definition EvaluateCall :: "eval_env \<Rightarrow> string \<Rightarrow> pvalue result list \<Rightarrow> int \<Rightarrow> pvalue result" where
  "EvaluateCall env name args t =
     (case sequence_results args of
        Inl e \<Rightarrow> Inl e
      | Inr vs \<Rightarrow>
          (case env_function env name of
             None \<Rightarrow> Inl (''Unknown function: '' @ name)
           | Some impl \<Rightarrow> impl vs t))"

text \<open>A loop over time steps: evaluate, then add the value to what has been collected.\<close>

fun fold_steps :: "(int \<Rightarrow> 'v result) \<Rightarrow> (int \<Rightarrow> 'v \<Rightarrow> 'a \<Rightarrow> 'a) \<Rightarrow> int list \<Rightarrow> 'a \<Rightarrow> 'a result" where
  "fold_steps ev add [] acc = Inr acc"
| "fold_steps ev add (t # ts) acc =
     (case ev t of Inl e \<Rightarrow> Inl e | Inr v \<Rightarrow> fold_steps ev add ts (add t v acc))"

definition push_sample :: "int \<Rightarrow> double \<Rightarrow> pseries \<Rightarrow> pseries" where
  "push_sample t v s = s\<lparr>psamples := psamples s @ [\<lparr>ps_time = t, ps_value = v\<rparr>]\<rparr>"

definition subquery_point ::
  "string \<Rightarrow> labels \<Rightarrow> int \<Rightarrow> double \<Rightarrow> (string \<times> pseries) list \<Rightarrow> (string \<times> pseries) list" where
  "subquery_point sig l t v acc =
     (let s = (case map_of acc sig of None \<Rightarrow> \<lparr>metric = l, psamples = []\<rparr> | Some s \<Rightarrow> s)
      in AList.update sig (push_sample t v s) acc)"

definition subquery_add :: "int \<Rightarrow> pvalue \<Rightarrow> (string \<times> pseries) list \<Rightarrow> (string \<times> pseries) list" where
  "subquery_add t v acc =
     (case v of
        VectorValue ss \<Rightarrow>
          fold (\<lambda>s. subquery_point (LabelSet_ToString (is_metric s)) (is_metric s) t (is_value s)) ss acc
      | ScalarValue _ x \<Rightarrow> subquery_point ''{}'' [] t x acc
      | _ \<Rightarrow> acc)"

definition EvaluateSubquery :: "eval_env \<Rightarrow> (int \<Rightarrow> pvalue result) \<Rightarrow> subquery \<Rightarrow> int \<Rightarrow> pvalue result" where
  "EvaluateSubquery env ev sq t =
     (if env_select env = None then Inl ''No storage adapter configured''
      else
        let rng = sint (parsedRangeSeconds sq) * 1000;
            given = sint (parsedResolutionSeconds sq) * 1000;
            resolution = (if given \<le> 0 then 60000 else given);
            off = sint (sq_parsedOffsetSeconds sq);
            end_time = (if 0 < off then t - off * 1000 else t)
        in map_sum id (\<lambda>acc. MatrixValue (map snd acc))
             (fold_steps ev subquery_add (steps (end_time - rng) end_time resolution) []))"

definition EvaluateUnary :: "pvalue result" where
  "EvaluateUnary = Inl ''Unary expressions not implemented yet''"

primrec Evaluate :: "eval_env \<Rightarrow> expr \<Rightarrow> int \<Rightarrow> pvalue result" where
  "Evaluate env (NumberLiteral v) = (\<lambda>t. Inr (ScalarValue t v))"
| "Evaluate env (StringLiteral s) = (\<lambda>t. Inr (StringValue t s))"
| "Evaluate env (VectorSelector vs) = EvaluateVectorSelector env vs"
| "Evaluate env (MatrixSelector vs rng secs) = EvaluateMatrixSelector env vs secs"
| "Evaluate env (BinaryExpr op l r m) = (\<lambda>t. EvaluateBinary env op m (Evaluate env l t) (Evaluate env r t) t)"
| "Evaluate env (UnaryExpr op e) = (\<lambda>t. EvaluateUnary)"
| "Evaluate env (ParenExpr e) = Evaluate env e"
| "Evaluate env (CallExpr f es) = (\<lambda>t. EvaluateCall env f (map (\<lambda>ev. ev t) (map (Evaluate env) es)) t)"
| "Evaluate env (AggregateExpr op e ls without param) =
     (\<lambda>t. EvaluateAggregate env op e (Evaluate env e t) ls without
        (map_option (\<lambda>ev. ev t) (map_option (Evaluate env) param)) t)"
| "Evaluate env (SubqueryExpr e sq) = EvaluateSubquery env (Evaluate env e) sq"

section \<open>Range evaluation\<close>

definition range_point :: "labels \<Rightarrow> int \<Rightarrow> double \<Rightarrow> (labels \<times> pseries) list \<Rightarrow> (labels \<times> pseries) list" where
  "range_point l t v m =
     (let s = (case map_of m l of None \<Rightarrow> \<lparr>metric = [], psamples = []\<rparr> | Some s \<Rightarrow> s);
          s' = (if metric s = [] then s\<lparr>metric := l\<rparr> else s)
      in smap_insert l (push_sample t v s') m)"

definition range_points :: "int \<Rightarrow> isample list \<Rightarrow> (labels \<times> pseries) list \<Rightarrow> (labels \<times> pseries) list" where
  "range_points t ss m = fold (\<lambda>s. range_point (is_metric s) t (is_value s)) ss m"

definition range_add :: "int \<Rightarrow> pvalue \<Rightarrow> (labels \<times> pseries) list \<Rightarrow> (labels \<times> pseries) list" where
  "range_add t v m =
     (case v of
        VectorValue ss \<Rightarrow> range_points t ss m
      | ScalarValue _ x \<Rightarrow> range_point [] t x m
      | _ \<Rightarrow> m)"

definition EvaluateRangeDefault :: "(int \<Rightarrow> pvalue result) \<Rightarrow> int \<Rightarrow> int \<Rightarrow> int \<Rightarrow> pvalue result" where
  "EvaluateRangeDefault ev a b d =
     map_sum id (\<lambda>m. MatrixValue (map snd m)) (fold_steps ev range_add (steps a b d) [])"

definition EvaluateRangeLiteral :: "double \<Rightarrow> int \<Rightarrow> int \<Rightarrow> int \<Rightarrow> pvalue result" where
  "EvaluateRangeLiteral v a b d =
     Inr (MatrixValue [\<lparr>metric = [], psamples = map (\<lambda>t. \<lparr>ps_time = t, ps_value = v\<rparr>) (steps a b d)\<rparr>])"

text \<open>One iterator per input series, each the samples that are left.\<close>

definition advance_iterators :: "int \<Rightarrow> pseries list \<Rightarrow> pseries list" where
  "advance_iterators t its = map (\<lambda>s. s\<lparr>psamples := dropWhile (\<lambda>x. ps_time x < t) (psamples s)\<rparr>) its"

definition samples_at :: "int \<Rightarrow> pseries list \<Rightarrow> isample list" where
  "samples_at t its =
     List.map_filter (\<lambda>s. case psamples s of
         x # _ \<Rightarrow> (if ps_time x = t then Some \<lparr>is_metric = metric s, is_time = t, is_value = ps_value x\<rparr> else None)
       | [] \<Rightarrow> None) its"

fun aggregate_steps ::
  "(int \<Rightarrow> isample list \<Rightarrow> isample list result) \<Rightarrow> int list \<Rightarrow> pseries list \<Rightarrow> (labels \<times> pseries) list \<Rightarrow> (labels \<times> pseries) list result" where
  "aggregate_steps agg [] its m = Inr m"
| "aggregate_steps agg (t # ts) its m =
     (let its' = advance_iterators t its; found = samples_at t its'
      in if found = [] then aggregate_steps agg ts its' m
         else case agg t found of
                Inl e \<Rightarrow> Inl e
              | Inr ss \<Rightarrow> aggregate_steps agg ts its' (range_points t ss m))"

definition EvaluateRangeAggregate ::
  "(int \<Rightarrow> isample list \<Rightarrow> isample list result) \<Rightarrow> (int \<Rightarrow> pvalue result) \<Rightarrow> pvalue result \<Rightarrow> int \<Rightarrow> int \<Rightarrow> int \<Rightarrow> pvalue result" where
  "EvaluateRangeAggregate agg ev child a b d =
     (case child of
        Inl e \<Rightarrow> Inl e
      | Inr (MatrixValue m) \<Rightarrow>
          map_sum id (\<lambda>r. MatrixValue (map snd r)) (aggregate_steps agg (steps a b d) m [])
      | Inr _ \<Rightarrow> EvaluateRangeDefault ev a b d)"

text \<open>The walk over one series: the sample before the iterator and the samples from it on.\<close>

fun range_walk :: "int \<Rightarrow> int \<Rightarrow> int list \<Rightarrow> psample option \<Rightarrow> psample list \<Rightarrow> psample list" where
  "range_walk off lookback [] before ss = []"
| "range_walk off lookback (t # ts) before ss =
     (let ref_t = t - off;
          taken = takeWhile (\<lambda>x. ps_time x \<le> ref_t) ss;
          before' = (if taken = [] then before else Some (last taken))
      in (case before' of
            None \<Rightarrow> []
          | Some x \<Rightarrow> if ref_t - lookback < ps_time x then [\<lparr>ps_time = t, ps_value = ps_value x\<rparr>] else [])
         @ range_walk off lookback ts before' (dropWhile (\<lambda>x. ps_time x \<le> ref_t) ss))"

definition non_empty_series :: "matrix \<Rightarrow> matrix" where
  "non_empty_series m = filter (\<lambda>s. psamples s \<noteq> []) m"

definition EvaluateRangeVectorSelector :: "eval_env \<Rightarrow> vector_selector \<Rightarrow> int \<Rightarrow> int \<Rightarrow> int \<Rightarrow> pvalue result" where
  "EvaluateRangeVectorSelector env vs a b d =
     (case env_select env of
        None \<Rightarrow> undefined_behaviour
      | Some sel \<Rightarrow>
          (case sel (full_matchers vs) (a - env_lookback env - positive_offset vs) (b - positive_offset vs) of
             Inl e \<Rightarrow> Inl e
           | Inr raw \<Rightarrow>
               Inr (MatrixValue (non_empty_series
                 (map (\<lambda>s. s\<lparr>psamples := range_walk (selector_offset vs) (env_lookback env) (steps a b d) None (psamples s)\<rparr>) raw)))))"

definition seconds_between :: "fp \<Rightarrow> psample \<Rightarrow> psample \<Rightarrow> double" where
  "seconds_between f x y = fp_div f (fp_of_int f (ps_time y - ps_time x)) (fp_of_int f 1000)"

fun counter_increase :: "fp \<Rightarrow> double \<Rightarrow> psample list \<Rightarrow> double" where
  "counter_increase f acc (x # y # ss) =
     counter_increase f
       (if double_less (ps_value y) (ps_value x) then fp_add f (fp_add f acc (ps_value x)) (ps_value y)
        else fp_add f acc (fp_sub f (ps_value y) (ps_value x))) (y # ss)"
| "counter_increase f acc ss = acc"

definition CalculateRateHelper :: "fp \<Rightarrow> psample list \<Rightarrow> bool \<Rightarrow> bool \<Rightarrow> double" where
  "CalculateRateHelper f ss is_counter is_rate =
     (if length ss < 2 then 0
      else
        let duration = seconds_between f (hd ss) (last ss)
        in if double_is_zero duration then 0
           else
             let v = (if is_counter then counter_increase f 0 ss else fp_sub f (ps_value (last ss)) (ps_value (hd ss)))
             in if is_rate then fp_div f v duration else v)"

definition instant_rate :: "fp \<Rightarrow> psample list \<Rightarrow> double" where
  "instant_rate f ss =
     (if length ss < 2 then 0
      else
        let x = ss ! (length ss - 2); y = last ss; dur = seconds_between f x y;
            delta = fp_sub f (ps_value y) (ps_value x)
        in if double_less 0 dur then fp_div f (if double_less delta 0 then ps_value y else delta) dur else 0)"

fun rate_walk :: "(psample list \<Rightarrow> double) \<Rightarrow> int \<Rightarrow> int \<Rightarrow> int list \<Rightarrow> psample list \<Rightarrow> psample list" where
  "rate_walk rate off rng [] ss = []"
| "rate_walk rate off rng (t # ts) ss =
     (let eval_t = t - off;
          ss' = dropWhile (\<lambda>x. ps_time x < eval_t - rng) ss;
          window = takeWhile (\<lambda>x. ps_time x \<le> eval_t) ss'
      in (if 2 \<le> length window then [\<lparr>ps_time = t, ps_value = rate window\<rparr>] else [])
         @ rate_walk rate off rng ts ss')"

definition is_rate_function :: "string \<Rightarrow> bool" where
  "is_rate_function f \<longleftrightarrow> f = ''rate'' \<or> f = ''increase'' \<or> f = ''irate''"

definition EvaluateRangeCall ::
  "eval_env \<Rightarrow> string \<Rightarrow> expr list \<Rightarrow> (int \<Rightarrow> pvalue result) \<Rightarrow> int \<Rightarrow> int \<Rightarrow> int \<Rightarrow> pvalue result" where
  "EvaluateRangeCall env f es ev a b d =
     (case es of
        MatrixSelector vs tok secs # _ \<Rightarrow>
          if is_rate_function f then
            (case env_select env of
               None \<Rightarrow> undefined_behaviour
             | Some sel \<Rightarrow>
                 let rng = sint secs * 1000; off = positive_offset vs;
                     rate = (if f = ''irate'' then instant_rate (env_fp env)
                             else (\<lambda>ss. CalculateRateHelper (env_fp env) ss True (f = ''rate'')))
                 in case sel (labelMatchers vs) (a - rng - off) (b - off) of
                      Inl e \<Rightarrow> Inl e
                    | Inr raw \<Rightarrow>
                        Inr (MatrixValue (non_empty_series
                          (map (\<lambda>s. \<lparr>metric = RemoveLabel ''__name__'' (metric s),
                                      psamples = rate_walk rate off rng (steps a b d) (psamples s)\<rparr>) raw))))
          else EvaluateRangeDefault ev a b d
      | _ \<Rightarrow> EvaluateRangeDefault ev a b d)"

primrec EvaluateRange :: "eval_env \<Rightarrow> int \<Rightarrow> int \<Rightarrow> int \<Rightarrow> expr \<Rightarrow> pvalue result" where
  "EvaluateRange env a b d (NumberLiteral v) = EvaluateRangeLiteral v a b d"
| "EvaluateRange env a b d (StringLiteral s) = EvaluateRangeDefault (Evaluate env (StringLiteral s)) a b d"
| "EvaluateRange env a b d (VectorSelector vs) = EvaluateRangeVectorSelector env vs a b d"
| "EvaluateRange env a b d (MatrixSelector vs rng secs) =
     EvaluateRangeDefault (Evaluate env (MatrixSelector vs rng secs)) a b d"
| "EvaluateRange env a b d (BinaryExpr op l r m) = EvaluateRangeDefault (Evaluate env (BinaryExpr op l r m)) a b d"
| "EvaluateRange env a b d (UnaryExpr op e) = EvaluateRangeDefault (Evaluate env (UnaryExpr op e)) a b d"
| "EvaluateRange env a b d (ParenExpr e) = EvaluateRange env a b d e"
| "EvaluateRange env a b d (CallExpr f es) = EvaluateRangeCall env f es (Evaluate env (CallExpr f es)) a b d"
| "EvaluateRange env a b d (AggregateExpr op e ls without param) =
     EvaluateRangeAggregate
       (\<lambda>t. AggregateVector env op ls without (map_option (\<lambda>p. Evaluate env p t) param) t)
       (Evaluate env (AggregateExpr op e ls without param)) (EvaluateRange env a b d e) a b d"
| "EvaluateRange env a b d (SubqueryExpr e sq) = EvaluateRangeDefault (Evaluate env (SubqueryExpr e sq)) a b d"

section \<open>Types of values\<close>

datatype value_type = NONE | SCALAR | VECTOR | MATRIX | STRING_TYPE

fun value_kind :: "pvalue \<Rightarrow> value_type" where
  "value_kind NoneValue = NONE"
| "value_kind (ScalarValue _ _) = SCALAR"
| "value_kind (VectorValue _) = VECTOR"
| "value_kind (MatrixValue _) = MATRIX"
| "value_kind (StringValue _ _) = STRING_TYPE"

text \<open>The type an expression has if it has a value at all, given the return types of functions.\<close>

definition binary_kind :: "token_type \<Rightarrow> value_type \<Rightarrow> value_type \<Rightarrow> value_type option" where
  "binary_kind op k l =
     (if is_logical op then (if k = VECTOR \<and> l = VECTOR then Some VECTOR else None)
      else if k = SCALAR \<and> l = SCALAR then Some SCALAR
      else if k \<in> {SCALAR, VECTOR} \<and> l \<in> {SCALAR, VECTOR} then Some VECTOR
      else None)"

primrec expr_kind :: "(string \<Rightarrow> value_type option) \<Rightarrow> expr \<Rightarrow> value_type option" where
  "expr_kind sig (NumberLiteral v) = Some SCALAR"
| "expr_kind sig (StringLiteral s) = Some STRING_TYPE"
| "expr_kind sig (VectorSelector vs) = Some VECTOR"
| "expr_kind sig (MatrixSelector vs rng secs) = Some MATRIX"
| "expr_kind sig (BinaryExpr op l r m) =
     (case (expr_kind sig l, expr_kind sig r) of (Some k, Some k') \<Rightarrow> binary_kind op k k' | _ \<Rightarrow> None)"
| "expr_kind sig (UnaryExpr op e) = None"
| "expr_kind sig (ParenExpr e) = expr_kind sig e"
| "expr_kind sig (CallExpr f es) = (if None \<in> set (map (expr_kind sig) es) then None else sig f)"
| "expr_kind sig (AggregateExpr op e ls without param) =
     (if expr_kind sig e = Some VECTOR
       \<and> map_option (expr_kind sig) param \<in> {None, Some (Some (if op = COUNT_VALUES then STRING_TYPE else SCALAR))}
      then Some VECTOR else None)"
| "expr_kind sig (SubqueryExpr e sq) = Some MATRIX"

definition functions_typed :: "eval_env \<Rightarrow> (string \<Rightarrow> value_type option) \<Rightarrow> bool" where
  "functions_typed env sig \<longleftrightarrow>
     (\<forall>f impl vs t v. env_function env f = Some impl \<and> impl vs t = Inr v \<longrightarrow> sig f = Some (value_kind v))"

lemma map_sum_Inr [simp]: "map_sum f g x = Inr z \<longleftrightarrow> (\<exists>y. x = Inr y \<and> z = g y)"
  by (cases x) auto

lemma map_sum_Inl [simp]: "map_sum f g x = Inl z \<longleftrightarrow> (\<exists>y. x = Inl y \<and> z = f y)"
  by (cases x) auto

lemma sequence_results_map_Inr [simp]: "sequence_results (map Inr xs) = Inr xs"
  by (induction xs) simp_all

lemma sequence_results_Inr: "sequence_results rs = Inr xs \<longleftrightarrow> rs = map Inr xs"
proof
  show "sequence_results rs = Inr xs \<Longrightarrow> rs = map Inr xs"
    by (induction rs arbitrary: xs) (auto split: sum.splits)
qed simp

lemma selector_kind:
  "EvaluateVectorSelector env vs t = Inr v \<Longrightarrow> value_kind v = VECTOR"
  "EvaluateMatrixSelector env vs secs t = Inr v \<Longrightarrow> value_kind v = MATRIX"
  by (auto simp: EvaluateVectorSelector_def EvaluateMatrixSelector_def Let_def split: option.splits sum.splits)

lemma binary_value_kind:
  assumes "EvaluateBinary env op m (Inr l) (Inr r) t = Inr v"
  shows "binary_kind op (value_kind l) (value_kind r) = Some (value_kind v)"
  using assms
  by (cases l; cases r; cases "is_logical op") (auto simp: EvaluateBinary_def binary_kind_def)

lemma aggregate_value_kind:
  assumes "EvaluateAggregate env op e inner ls without param t = Inr v"
  shows "value_kind v = VECTOR \<and> (\<exists>x. aggregate_param op param = Inr x)
    \<and> ((\<exists>ss. inner = Inr (VectorValue ss)) \<or> (\<exists>vs. e = VectorSelector vs))"
proof (cases "pushdown env op e ls without param t")
  case None
  then show ?thesis using assms
    by (auto simp: EvaluateAggregate_def AggregateVector_def split: sum.splits pvalue.splits)
next
  case (Some r)
  then show ?thesis using assms
    by (auto simp: EvaluateAggregate_def pushdown_def aggregate_param_def core_aggregation_op_def undefined_behaviour_def
        split: sum.splits pvalue.splits option.splits expr.splits if_splits)
qed

lemma aggregate_param_kind:
  "aggregate_param op (Some (Inr v)) = Inr x \<Longrightarrow>
     value_kind v = (if op = COUNT_VALUES then STRING_TYPE else SCALAR)"
  by (auto simp: aggregate_param_def split: if_splits pvalue.splits)

lemma aggregate_param_Inl: "aggregate_param op (Some (Inl e)) = Inl e"
  by (simp add: aggregate_param_def)

lemma evaluate_kind:
  assumes "functions_typed env sig" "Evaluate env e t = Inr v"
  shows "expr_kind sig e = Some (value_kind v)"
  using assms(2)
proof (induction e arbitrary: t v)
  case (VectorSelector vs)
  then show ?case by (auto dest: selector_kind)
next
  case (MatrixSelector vs rng secs)
  then show ?case by (auto dest: selector_kind)
next
  case (BinaryExpr op l r m)
  then obtain x y where "Evaluate env l t = Inr x" "Evaluate env r t = Inr y"
    by (auto simp: EvaluateBinary_def split: sum.splits)
  with BinaryExpr binary_value_kind [of env op m x y t v] show ?case by auto
next
  case (CallExpr f es)
  then obtain vs impl where vs: "map (\<lambda>e. Evaluate env e t) es = map Inr vs"
    and impl: "env_function env f = Some impl" "impl vs t = Inr v"
    by (auto simp: EvaluateCall_def sequence_results_Inr comp_def split: sum.splits option.splits)
  have "\<exists>x. Evaluate env e t = Inr x" if "e \<in> set es" for e
    using that arg_cong [OF vs, of set] by auto
  with CallExpr.IH have "None \<notin> set (map (expr_kind sig) es)" by fastforce
  with impl assms(1) show ?case by (auto simp: functions_typed_def)
next
  case (AggregateExpr op e ls without param)
  from AggregateExpr.prems
  have "EvaluateAggregate env op e (Evaluate env e t) ls without (map_option (\<lambda>p. Evaluate env p t) param) t = Inr v"
    by (simp add: option.map_comp comp_def)
  from aggregate_value_kind [OF this]
  have agg: "value_kind v = VECTOR" "\<exists>x. aggregate_param op (map_option (\<lambda>p. Evaluate env p t) param) = Inr x"
    "(\<exists>ss. Evaluate env e t = Inr (VectorValue ss)) \<or> (\<exists>vs. e = VectorSelector vs)"
    by blast+
  have "expr_kind sig e = Some VECTOR" using agg(3) AggregateExpr.IH(1) by auto
  moreover have "map_option (expr_kind sig) param \<in> {None, Some (Some (if op = COUNT_VALUES then STRING_TYPE else SCALAR))}"
  proof (cases param)
    case (Some p)
    with agg(2) obtain x where "Evaluate env p t = Inr x" "\<exists>y. aggregate_param op (Some (Inr x)) = Inr y"
      by (cases "Evaluate env p t") (auto simp: aggregate_param_Inl)
    with Some AggregateExpr.IH(2) show ?thesis by (auto dest: aggregate_param_kind)
  qed simp
  ultimately show ?case using agg(1) by simp
next
  case (SubqueryExpr e sq)
  then show ?case by (auto simp: EvaluateSubquery_def Let_def split: if_splits)
qed (auto simp: EvaluateUnary_def)

lemma range_value_matrix: "EvaluateRange env a b d e = Inr v \<Longrightarrow> \<exists>m. v = MatrixValue m"
  by (induction e arbitrary: v)
    (auto simp: EvaluateRangeLiteral_def EvaluateRangeDefault_def EvaluateRangeVectorSelector_def EvaluateRangeCall_def
      EvaluateRangeAggregate_def undefined_behaviour_def Let_def
      split: option.splits sum.splits list.splits expr.splits if_splits pvalue.splits)

section \<open>A range query over a selector samples the instant query\<close>

definition latest_in :: "int \<Rightarrow> int \<Rightarrow> psample list \<Rightarrow> psample option" where
  "latest_in a b ss = (let xs = filter (\<lambda>x. a < ps_time x \<and> ps_time x \<le> b) ss in if xs = [] then None else Some (last xs))"

definition step_points :: "int \<Rightarrow> int \<Rightarrow> int list \<Rightarrow> psample list \<Rightarrow> psample list" where
  "step_points off lookback ts ss =
     concat (map (\<lambda>t. case latest_in (t - off - lookback) (t - off) ss of
       None \<Rightarrow> [] | Some x \<Rightarrow> [\<lparr>ps_time = t, ps_value = ps_value x\<rparr>]) ts)"

lemma set_steps: "0 < d \<Longrightarrow> t \<in> set (steps a b d) \<Longrightarrow> a \<le> t \<and> t \<le> b"
  by (induction a b d rule: steps.induct) (subst (asm) (2) steps.simps, force split: if_splits)

lemma sorted_steps: "0 < d \<Longrightarrow> sorted_wrt (<) (steps a b d)"
proof (induction a b d rule: steps.induct)
  case (1 a b d)
  then have "\<forall>t \<in> set (steps (a + d) b d). a < t" using set_steps [of d _ "a + d" b] by force
  with 1 show ?case by (subst steps.simps) auto
qed

lemma latest_in_append:
  assumes "time_sorted (pre @ ss)" "\<forall>x \<in> set pre. ps_time x \<le> b" "\<forall>x \<in> set ss. b < ps_time x"
  shows "latest_in a b (pre @ ss) = (if pre \<noteq> [] \<and> a < ps_time (last pre) then Some (last pre) else None)"
proof (cases pre rule: rev_cases)
  case Nil
  then show ?thesis using assms(3) by (auto simp: latest_in_def Let_def filter_empty_conv)
next
  case (snoc ys y)
  have "filter (\<lambda>x. a < ps_time x \<and> ps_time x \<le> b) ss = []" using assms(3) by (auto simp: filter_empty_conv)
  moreover have "filter (\<lambda>x. a < ps_time x \<and> ps_time x \<le> b) ys = []" if "\<not> a < ps_time y"
    using that assms(1) snoc by (auto simp: filter_empty_conv time_sorted_def sorted_wrt_append)
  ultimately show ?thesis using assms(2) snoc by (auto simp: latest_in_def)
qed

lemma dropWhile_greater:
  "time_sorted ss \<Longrightarrow> x \<in> set (dropWhile (\<lambda>x. ps_time x \<le> b) ss) \<Longrightarrow> b < ps_time x"
  by (induction ss) (auto simp: time_sorted_def split: if_splits)

lemma range_walk_points:
  assumes "time_sorted (pre @ ss)" "sorted_wrt (<) ts" "\<forall>t \<in> set ts. \<forall>x \<in> set pre. ps_time x \<le> t - off"
  shows "range_walk off lookback ts (if pre = [] then None else Some (last pre)) ss = step_points off lookback ts (pre @ ss)"
  using assms
proof (induction ts arbitrary: pre ss)
  case (Cons t ts)
  let ?taken = "takeWhile (\<lambda>x. ps_time x \<le> t - off) ss" and ?left = "dropWhile (\<lambda>x. ps_time x \<le> t - off) ss"
  have full: "pre @ ss = (pre @ ?taken) @ ?left" by simp
  have srt: "time_sorted ss" using Cons.prems(1) by (simp add: time_sorted_def sorted_wrt_append)
  have le: "\<forall>x \<in> set (pre @ ?taken). ps_time x \<le> t - off"
    using Cons.prems(3) by (auto dest: set_takeWhileD)
  then have "\<forall>t' \<in> set ts. \<forall>x \<in> set (pre @ ?taken). ps_time x \<le> t' - off"
    using Cons.prems(2) by fastforce
  then have IH: "range_walk off lookback ts (if pre @ ?taken = [] then None else Some (last (pre @ ?taken))) ?left
      = step_points off lookback ts (pre @ ss)"
    using Cons.IH [of "pre @ ?taken" ?left] Cons.prems(1,2) by simp
  have latest: "latest_in (t - off - lookback) (t - off) (pre @ ss)
      = (if pre @ ?taken \<noteq> [] \<and> t - off - lookback < ps_time (last (pre @ ?taken)) then Some (last (pre @ ?taken)) else None)"
    unfolding full using latest_in_append [OF _ le, of ?left "t - off - lookback"] Cons.prems(1) dropWhile_greater [OF srt] by simp
  have now: "(if ?taken = [] then if pre = [] then None else Some (last pre) else Some (last ?taken))
      = (if pre @ ?taken = [] then None else Some (last (pre @ ?taken)))" by simp
  show ?case
    unfolding range_walk.simps Let_def now IH by (simp add: step_points_def latest)
qed (simp add: step_points_def)

lemma step_points_window:
  assumes "\<forall>t \<in> set ts. a \<le> t \<and> t \<le> b"
  shows "step_points off lookback ts (filter (\<lambda>x. a - lookback - off \<le> ps_time x \<and> ps_time x \<le> b - off) ss)
    = step_points off lookback ts ss"
proof -
  have "latest_in (t - off - lookback) (t - off) (filter (\<lambda>x. a - lookback - off \<le> ps_time x \<and> ps_time x \<le> b - off) ss)
      = latest_in (t - off - lookback) (t - off) ss" if "t \<in> set ts" for t
  proof -
    have "filter (\<lambda>x. t - off - lookback < ps_time x \<and> ps_time x \<le> t - off)
        (filter (\<lambda>x. a - lookback - off \<le> ps_time x \<and> ps_time x \<le> b - off) ss)
      = filter (\<lambda>x. t - off - lookback < ps_time x \<and> ps_time x \<le> t - off) ss"
      using assms that unfolding filter_filter by (intro filter_cong) force+
    then show ?thesis by (simp add: latest_in_def Let_def)
  qed
  then show ?thesis by (simp add: step_points_def cong: map_cong)
qed

lemma range_selector_points:
  assumes "env_select env = Some sel" "range_source sel db" "0 \<le> selector_offset vs" "0 < d"
  shows "EvaluateRange env a b d (VectorSelector vs) = Inr (MatrixValue (non_empty_series (map (\<lambda>s.
    s\<lparr>psamples := step_points (selector_offset vs) (env_lookback env) (steps a b d) (psamples s)\<rparr>) (db (full_matchers vs)))))"
proof -
  let ?off = "selector_offset vs" and ?L = "env_lookback env"
  let ?w = "filter (\<lambda>x. a - ?L - ?off \<le> ps_time x \<and> ps_time x \<le> b - ?off)"
  have off: "positive_offset vs = ?off" using assms(3) by (simp add: positive_offset_def)
  have walk: "range_walk ?off ?L (steps a b d) None (?w ss) = step_points ?off ?L (steps a b d) ss" if "time_sorted ss" for ss
    using range_walk_points [of "[]" "?w ss" "steps a b d"] sorted_steps [OF assms(4)] that
      step_points_window [of "steps a b d" a b ?off ?L ss] set_steps [OF assms(4)]
    by (simp add: time_sorted_def sorted_wrt_filter)
  have none: "step_points ?off ?L (steps a b d) ss = []" if "time_sorted ss" "?w ss = []" for ss
    using walk [OF that(1)] range_walk_points [of "[]" "[]" "steps a b d" ?off ?L] sorted_steps [OF assms(4)] that(2)
    by (simp add: time_sorted_def step_points_def latest_in_def)
  have "\<forall>s \<in> set m. time_sorted (psamples s) \<Longrightarrow>
      non_empty_series (map (\<lambda>s. s\<lparr>psamples := range_walk ?off ?L (steps a b d) None (psamples s)\<rparr>) (in_window (a - ?L - ?off) (b - ?off) m))
    = non_empty_series (map (\<lambda>s. s\<lparr>psamples := step_points ?off ?L (steps a b d) (psamples s)\<rparr>) m)" for m
    by (induction m) (auto simp: in_window_def non_empty_series_def walk none)
  with assms(1,2) show ?thesis
    by (simp add: EvaluateRangeVectorSelector_def off range_source_def)
qed

definition points_at :: "int \<Rightarrow> matrix \<Rightarrow> (labels \<times> double) list" where
  "points_at t m = concat (map (\<lambda>s. map (\<lambda>x. (metric s, ps_value x)) (filter (\<lambda>x. ps_time x = t) (psamples s))) m)"

lemma points_at_non_empty: "points_at t (non_empty_series m) = points_at t m"
  by (induction m) (simp_all add: points_at_def non_empty_series_def)

lemma step_points_at:
  assumes "distinct ts" "t \<in> set ts"
  shows "filter (\<lambda>x. ps_time x = t) (step_points off lookback ts ss)
    = (case latest_in (t - off - lookback) (t - off) ss of None \<Rightarrow> [] | Some x \<Rightarrow> [\<lparr>ps_time = t, ps_value = ps_value x\<rparr>])"
  using assms
proof (induction ts)
  case (Cons u ts)
  have "filter (\<lambda>x. ps_time x = t) (step_points off lookback ts ss) = []" if "t \<notin> set ts"
    using that by (auto simp: filter_empty_conv step_points_def split: option.splits)
  with Cons show ?case by (auto simp: step_points_def split: option.split)
qed simp

definition instant_points :: "isample list \<Rightarrow> (labels \<times> double) list" where
  "instant_points ss = map (\<lambda>s. (is_metric s, is_value s)) ss"

lemma instant_points_window:
  assumes "\<forall>s \<in> set m. \<forall>x \<in> set (psamples s). ps_time x \<noteq> a"
  shows "instant_points (last_samples (in_window a b m))
    = concat (map (\<lambda>s. case latest_in a b (psamples s) of None \<Rightarrow> [] | Some x \<Rightarrow> [(metric s, ps_value x)]) m)"
  using assms
proof (induction m)
  case (Cons s m)
  have "filter (\<lambda>x. a \<le> ps_time x \<and> ps_time x \<le> b) (psamples s) = filter (\<lambda>x. a < ps_time x \<and> ps_time x \<le> b) (psamples s)"
    using Cons.prems by (intro filter_cong) auto
  with Cons show ?case by (auto simp: instant_points_def last_samples_def in_window_def latest_in_def Let_def)
qed (simp add: instant_points_def last_samples_def in_window_def)

lemma range_samples_instant:
  assumes "env_select env = Some sel" "range_source sel db" "0 \<le> selector_offset vs" "0 < d" "t \<in> set (steps a b d)"
    "\<forall>s \<in> set (db (full_matchers vs)). \<forall>x \<in> set (psamples s). ps_time x \<noteq> t - selector_offset vs - env_lookback env"
  shows "\<exists>m ss. EvaluateRange env a b d (VectorSelector vs) = Inr (MatrixValue m)
    \<and> Evaluate env (VectorSelector vs) t = Inr (VectorValue ss) \<and> points_at t m = instant_points ss"
proof -
  let ?off = "selector_offset vs" and ?L = "env_lookback env" and ?m = "db (full_matchers vs)"
  have "distinct (steps a b d)" using sorted_steps [OF assms(4)] by (simp add: strict_sorted_iff)
  then have "points_at t (map (\<lambda>s. s\<lparr>psamples := step_points ?off ?L (steps a b d) (psamples s)\<rparr>) ?m)
      = concat (map (\<lambda>s. case latest_in (t - ?off - ?L) (t - ?off) (psamples s) of None \<Rightarrow> [] | Some x \<Rightarrow> [(metric s, ps_value x)]) ?m)"
    using assms(5) by (auto simp: points_at_def step_points_at comp_def intro!: arg_cong [where f = concat] split: option.split)
  also have "\<dots> = instant_points (last_samples (in_window (t - ?off - ?L) (t - ?off) ?m))"
    by (rule instant_points_window [symmetric]) (use assms(6) in auto)
  moreover have "Evaluate env (VectorSelector vs) t = Inr (VectorValue (last_samples (in_window (t - ?off - ?L) (t - ?off) ?m)))"
    using assms(1,2,3) by (simp add: EvaluateVectorSelector_def positive_offset_def range_source_def algebra_simps)
  ultimately show ?thesis
    using range_selector_points [OF assms(1-4)] by (simp add: points_at_non_empty)
qed

section \<open>Aggregation partitions its input\<close>

definition all_members :: "(string \<times> sample_group) list \<Rightarrow> isample list" where
  "all_members groups = concat (map (\<lambda>(k, g). group_members g) groups)"

lemma all_members_insert:
  assumes "smap_ok groups"
  shows "mset (all_members (smap_insert k g groups)) + (case map_of groups k of None \<Rightarrow> {#} | Some h \<Rightarrow> mset (group_members h))
    = mset (group_members g) + mset (all_members groups)"
  using assms
proof (induction k g groups rule: smap_insert.induct)
  case (2 k g a b m)
  have "map_of m k = None" if "k \<le> a"
    using 2(2) that by (auto simp: smap_ok_Cons map_of_eq_None_iff)
  with 2 show ?case by (auto simp: all_members_def smap_ok_Cons split: option.splits)
qed (simp add: all_members_def)

definition group_ok :: "string list \<Rightarrow> bool \<Rightarrow> string \<Rightarrow> sample_group \<Rightarrow> bool" where
  "group_ok ls without k g \<longleftrightarrow> LabelSet_ToString (group_metric g) = k
     \<and> (\<forall>s \<in> set (group_members g). \<exists>l. group_labels ls without (is_metric s) = Inr l \<and> LabelSet_ToString l = k)"

definition groups_ok :: "string list \<Rightarrow> bool \<Rightarrow> (string \<times> sample_group) list \<Rightarrow> bool" where
  "groups_ok ls without groups \<longleftrightarrow> smap_ok groups
     \<and> (\<forall>e \<in> set groups. group_members (snd e) \<noteq> [] \<and> group_ok ls without (fst e) (snd e))"

lemma add_to_group_ok:
  assumes "groups_ok ls without groups" "group_labels ls without (is_metric s) = Inr l"
  shows "groups_ok ls without (add_to_group l s groups)
    \<and> mset (all_members (add_to_group l s groups)) = mset (all_members groups) + {#s#}"
proof -
  let ?k = "LabelSet_ToString l"
  define g where "g = (case map_of groups ?k of None \<Rightarrow> \<lparr>group_metric = l, group_members = []\<rparr> | Some g \<Rightarrow> g)"
  define g' where "g' = g\<lparr>group_members := group_members g @ [s]\<rparr>"
  have add: "add_to_group l s groups = smap_insert ?k g' groups"
    by (simp add: add_to_group_def g_def g'_def Let_def)
  have srt: "smap_ok groups" using assms(1) by (simp add: groups_ok_def)
  have "group_ok ls without ?k g"
    using assms(1) by (auto simp: g_def groups_ok_def group_ok_def split: option.splits dest!: map_of_SomeD)
  then have "group_ok ls without ?k g' \<and> group_members g' \<noteq> []" using assms(2) by (auto simp: group_ok_def g'_def)
  then have "groups_ok ls without (smap_insert ?k g' groups)"
    using assms(1) srt set_smap_insert_subset [of ?k g' groups] unfolding groups_ok_def
    by (auto simp: smap_simps)
  moreover have "mset (all_members (smap_insert ?k g' groups)) = mset (all_members groups) + {#s#}"
    using all_members_insert [OF srt, of ?k g'] by (auto simp: g'_def g_def split: option.splits)
  ultimately show ?thesis unfolding add by blast
qed

lemma group_samples_ok:
  "\<lbrakk>group_samples ls without ss groups = Inr groups'; groups_ok ls without groups\<rbrakk> \<Longrightarrow>
     groups_ok ls without groups' \<and> mset (all_members groups') = mset (all_members groups) + mset ss"
proof (induction ss arbitrary: groups)
  case (Cons s ss)
  then obtain l where l: "group_labels ls without (is_metric s) = Inr l"
    "group_samples ls without ss (add_to_group l s groups) = Inr groups'" by (auto split: sum.splits)
  from add_to_group_ok [OF Cons.prems(2) l(1)] Cons.IH [OF l(2)] show ?case by simp
qed simp

section \<open>Set operators\<close>

lemma logical_partition:
  "mset (LogicalOp AND_TOKEN m l r) + mset (LogicalOp UNLESS m l r) = mset l"
  by (simp add: LogicalOp_def Let_def flip: multiset_partition)

section \<open>Properties\<close>

text \<open>A concrete environment for examples: integer arithmetic on the bit patterns, one stored series.\<close>

definition example_fp :: fp where
  "example_fp = \<lparr>fp_add = (+), fp_sub = (-), fp_mul = (*), fp_div = (div), fp_fmod = (mod), fp_pow = (\<lambda>a b. a),
     fp_sqrt = id, fp_math = (\<lambda>n v. v), fp_of_int = of_int, fp_to_string = (\<lambda>v. int_string (uint v))\<rparr>"

definition example_db :: "model_matcher list \<Rightarrow> matrix" where
  "example_db ms = [\<lparr>metric = [(''__name__'', ''up''), (''job'', ''api'')],
     psamples = [\<lparr>ps_time = 1000, ps_value = 1\<rparr>, \<lparr>ps_time = 61000, ps_value = 2\<rparr>]\<rparr>]"

definition example_env :: eval_env where
  "example_env = \<lparr>env_fp = example_fp, env_select = Some (\<lambda>ms a b. Inr (in_window a b (example_db ms))),
     env_select_aggregate = (\<lambda>ms a b r. Inl ''unsupported''), env_lookback = 300000, env_function = (\<lambda>f. None),
     env_sort_samples = (\<lambda>less ss. ss), env_sort_doubles = id\<rparr>"

lemma example_source: "range_source (\<lambda>ms a b. Inr (in_window a b (example_db ms))) example_db"
  by (simp add: range_source_def example_db_def time_sorted_def)

text \<open>type soundness. Where the registered functions return the type of their signature, an
  instant evaluation that succeeds gives a value of the type computed from the expression alone, so
  an expression without a type never evaluates, and a range evaluation that succeeds gives a matrix.\<close>

theorem evaluation_type_sound:
  assumes "functions_typed env sig"
  shows "(\<forall>t v. Evaluate env e t = Inr v \<longrightarrow> expr_kind sig e = Some (value_kind v))
    \<and> (\<forall>a b d v. EvaluateRange env a b d e = Inr v \<longrightarrow> value_kind v = MATRIX)"
  using evaluate_kind [OF assms] range_value_matrix by force

theorem evaluation_type_sound_witness:
  "Evaluate example_env (AggregateExpr COUNT (VectorSelector (mk_vector_selector ''up'' [])) [''job''] False None) 61000
     = Inr (VectorValue [\<lparr>is_metric = [(''job'', ''api'')], is_time = 61000, is_value = 1\<rparr>])
   \<and> expr_kind (\<lambda>f. None) (AggregateExpr COUNT (VectorSelector (mk_vector_selector ''up'' [])) [''job''] False None) = Some VECTOR"
proof -
  let ?e = "AggregateExpr COUNT (VectorSelector (mk_vector_selector ''up'' [])) [''job''] False None"
  have v: "Evaluate example_env ?e 61000 = Inr (VectorValue [\<lparr>is_metric = [(''job'', ''api'')], is_time = 61000, is_value = 1\<rparr>])"
    by code_simp
  have "functions_typed example_env (\<lambda>f. None)" by (simp add: functions_typed_def example_env_def)
  from evaluation_type_sound [OF this, of ?e] v show ?thesis by fastforce
qed

text \<open>C24: the fast path of a range query over a vector selector. Over a storage that returns the
  samples of a closed window in time order, with an offset that is not negative, the points of the
  result at a step are the samples the instant query returns at that step, provided no stored sample
  lies exactly one lookback before it.\<close>

theorem range_selector_samples_instant:
  assumes "env_select env = Some sel" "range_source sel db" "0 \<le> selector_offset vs" "0 < d" "t \<in> set (steps a b d)"
    "\<forall>s \<in> set (db (full_matchers vs)). \<forall>x \<in> set (psamples s). ps_time x \<noteq> t - selector_offset vs - env_lookback env"
  shows "\<exists>m ss. EvaluateRange env a b d (VectorSelector vs) = Inr (MatrixValue m)
    \<and> Evaluate env (VectorSelector vs) t = Inr (VectorValue ss) \<and> points_at t m = instant_points ss"
  using assms by (rule range_samples_instant)

theorem range_selector_samples_instant_witness:
  "\<exists>m ss. EvaluateRange example_env 60000 120000 60000 (VectorSelector (mk_vector_selector ''up'' [])) = Inr (MatrixValue m)
     \<and> Evaluate example_env (VectorSelector (mk_vector_selector ''up'' [])) 120000 = Inr (VectorValue ss)
     \<and> points_at 120000 m = instant_points ss"
proof (rule range_selector_samples_instant [OF _ example_source])
  show "120000 \<in> set (steps 60000 120000 60000)" by code_simp
  show "env_select example_env = Some (\<lambda>ms a b. Inr (in_window a b (example_db ms)))" by (simp add: example_env_def)
qed (simp_all add: example_db_def selector_offset_def mk_vector_selector_def example_env_def)

text \<open>at the edge of the lookback the two evaluations differ: a sample exactly one lookback old is in
  the closed window of the instant query and is dropped by the strict comparison of the range query.\<close>

theorem lookback_edge_differs:
  "let env = example_env\<lparr>env_lookback := 60000\<rparr>; e = VectorSelector (mk_vector_selector ''up'' []) in
     Evaluate env e 121000
       = Inr (VectorValue [\<lparr>is_metric = [(''__name__'', ''up''), (''job'', ''api'')], is_time = 61000, is_value = 2\<rparr>])
     \<and> EvaluateRange env 121000 121000 1 e = Inr (MatrixValue [])"
  by code_simp

text \<open>the range evaluation of \<open>rate\<close>, \<open>increase\<close> and \<open>irate\<close> selects by the label matchers alone:
  the metric name written in the query has no influence on the result.\<close>

theorem range_rate_ignores_metric_name:
  "EvaluateRange env a b d (CallExpr ''rate'' [MatrixSelector vs rng secs])
     = EvaluateRange env a b d (CallExpr ''rate'' [MatrixSelector (vs\<lparr>vs_name := n\<rparr>) rng secs])"
  by (simp add: EvaluateRangeCall_def is_rate_function_def positive_offset_def selector_offset_def cong: option.case_cong)

text \<open>grouping. The groups of an aggregation partition the input samples; no group is empty, the keys are
  in strictly increasing order, and every member of a group has the label signature of its group.\<close>

theorem aggregation_partitions_samples:
  assumes "group_samples ls without ss [] = Inr groups"
  shows "mset (concat (map (\<lambda>(k, g). group_members g) groups)) = mset ss \<and> sorted_wrt (<) (map fst groups)
    \<and> (\<forall>e \<in> set groups. group_members (snd e) \<noteq> [] \<and> LabelSet_ToString (group_metric (snd e)) = fst e
        \<and> (\<forall>s \<in> set (group_members (snd e)).
             \<exists>l. group_labels ls without (is_metric s) = Inr l \<and> LabelSet_ToString l = fst e))"
  using group_samples_ok [OF assms] by (simp add: groups_ok_def group_ok_def smap_ok_def all_members_def)

theorem aggregation_partitions_samples_witness:
  "\<exists>groups. group_samples [''job''] False
       [\<lparr>is_metric = [(''__name__'', ''up''), (''job'', ''api'')], is_time = 5, is_value = 1\<rparr>,
        \<lparr>is_metric = [(''job'', ''web'')], is_time = 5, is_value = 2\<rparr>] [] = Inr groups
     \<and> mset (concat (map (\<lambda>(k, g). group_members g) groups))
       = {#\<lparr>is_metric = [(''__name__'', ''up''), (''job'', ''api'')], is_time = 5, is_value = 1\<rparr>,
           \<lparr>is_metric = [(''job'', ''web'')], is_time = 5, is_value = 2\<rparr>#}"
proof -
  let ?ss = "[\<lparr>is_metric = [(''__name__'', ''up''), (''job'', ''api'')], is_time = 5, is_value = 1\<rparr>,
    \<lparr>is_metric = [(''job'', ''web'')], is_time = 5, is_value = 2\<rparr>]"
  have "case group_samples [''job''] False ?ss [] of Inl e \<Rightarrow> False | Inr g \<Rightarrow> True" by code_simp
  then obtain groups where "group_samples [''job''] False ?ss [] = Inr groups" by (auto split: sum.splits)
  with aggregation_partitions_samples [OF this] show ?thesis by auto
qed
end
