(* ===== verification/Promql_Functions.thy ===== *)
theory Promql_Functions
  imports Promql_Evaluator
begin

text \<open>
  The PromQL functions (\<open>src/tsdb/prometheus/promql/functions.cpp\<close> and \<open>functions/*.cpp\<close>): one definition per
  registered lambda, the registration functions in their order and the registry they fill. An index
  past the argument vector is undefined behaviour, a value of another type makes \<open>std::get\<close> throw.
  Sorting, regular expressions and \<open>std::stod\<close> are parameters of the library record.
\<close>

section \<open>Arguments and results\<close>

record fn_lib =
  lib_fp :: fp
  lib_sort_samples :: "(isample \<Rightarrow> isample \<Rightarrow> bool) \<Rightarrow> isample list \<Rightarrow> isample list"
  lib_sort_doubles :: "double list \<Rightarrow> double list"
  lib_sort_buckets :: "(double \<times> double) list \<Rightarrow> (double \<times> double) list"
  lib_regex :: "string \<Rightarrow> (string \<Rightarrow> string list option) option"
  lib_stod :: "string \<Rightarrow> double option"

type_synonym fn_impl = "pvalue list \<Rightarrow> int \<Rightarrow> pvalue result"

record function_signature =
  fs_name :: string
  fs_arg_types :: "value_type list"
  fs_variadic :: bool
  fs_return_type :: value_type
  fs_implementation :: fn_impl

definition bind_result :: "'a result \<Rightarrow> ('a \<Rightarrow> 'b result) \<Rightarrow> 'b result" where
  "bind_result r f = (case r of Inl e \<Rightarrow> Inl e | Inr x \<Rightarrow> f x)"

definition arg :: "nat \<Rightarrow> pvalue list \<Rightarrow> pvalue result" where
  "arg i args = (if i < length args then Inr (args ! i) else undefined_behaviour)"

definition wrong_variant :: "'a result" where
  "wrong_variant = Inl ''std::get: wrong index for variant''"

definition getScalar :: "pvalue \<Rightarrow> (int \<times> double) result" where
  "getScalar v = (case v of ScalarValue t x \<Rightarrow> Inr (t, x) | _ \<Rightarrow> wrong_variant)"

definition getVector :: "pvalue \<Rightarrow> isample list result" where
  "getVector v = (case v of VectorValue ss \<Rightarrow> Inr ss | _ \<Rightarrow> wrong_variant)"

definition getMatrix :: "pvalue \<Rightarrow> matrix result" where
  "getMatrix v = (case v of MatrixValue m \<Rightarrow> Inr m | _ \<Rightarrow> wrong_variant)"

definition getString :: "pvalue \<Rightarrow> string result" where
  "getString v = (case v of StringValue t s \<Rightarrow> Inr s | _ \<Rightarrow> wrong_variant)"

definition with_scalar :: "nat \<Rightarrow> pvalue list \<Rightarrow> (double \<Rightarrow> 'a result) \<Rightarrow> 'a result" where
  "with_scalar i args f = bind_result (arg i args) (\<lambda>v. bind_result (getScalar v) (\<lambda>(t, x). f x))"

definition with_vector :: "nat \<Rightarrow> pvalue list \<Rightarrow> (isample list \<Rightarrow> 'a result) \<Rightarrow> 'a result" where
  "with_vector i args f = bind_result (arg i args) (\<lambda>v. bind_result (getVector v) f)"

definition with_matrix :: "nat \<Rightarrow> pvalue list \<Rightarrow> (matrix \<Rightarrow> 'a result) \<Rightarrow> 'a result" where
  "with_matrix i args f = bind_result (arg i args) (\<lambda>v. bind_result (getMatrix v) f)"

definition with_string :: "nat \<Rightarrow> pvalue list \<Rightarrow> (string \<Rightarrow> 'a result) \<Rightarrow> 'a result" where
  "with_string i args f = bind_result (arg i args) (\<lambda>v. bind_result (getString v) f)"

text \<open>The two loops most lambdas have: a new value per sample, a new sample per non-empty series.\<close>

definition map_values :: "(double \<Rightarrow> double) \<Rightarrow> pvalue list \<Rightarrow> pvalue result" where
  "map_values g args = with_vector 0 args (\<lambda>ss. Inr (VectorValue (map (\<lambda>s. s\<lparr>is_value := g (is_value s)\<rparr>) ss)))"

definition last_time :: "pseries \<Rightarrow> int" where
  "last_time s = ps_time (last (psamples s))"

definition series_values :: "pseries \<Rightarrow> double list" where
  "series_values s = map ps_value (psamples s)"

definition over_time :: "(double list \<Rightarrow> double) \<Rightarrow> pvalue list \<Rightarrow> pvalue result" where
  "over_time g args =
     with_matrix 0 args (\<lambda>m. Inr (VectorValue
       (map (\<lambda>s. \<lparr>is_metric = metric s, is_time = last_time s, is_value = g (series_values s)\<rparr>) (non_empty_series m))))"

section \<open>Built-in, math and time functions\<close>

definition fn_time :: "fn_lib \<Rightarrow> fn_impl" where
  "fn_time lib args t =
     Inr (ScalarValue t (fp_div (lib_fp lib) (fp_of_int (lib_fp lib) t) (fp_of_int (lib_fp lib) 1000)))"

definition fn_abs :: "fn_lib \<Rightarrow> fn_impl" where
  "fn_abs lib args t = map_values (\<lambda>v. v AND 0x7FFFFFFFFFFFFFFF) args"

definition fn_ceil :: "fn_lib \<Rightarrow> fn_impl" where
  "fn_ceil lib args t = map_values (fp_math (lib_fp lib) ''ceil'') args"

definition fn_exp :: "fn_lib \<Rightarrow> fn_impl" where
  "fn_exp lib args t = map_values (fp_math (lib_fp lib) ''exp'') args"

definition fn_floor :: "fn_lib \<Rightarrow> fn_impl" where
  "fn_floor lib args t = map_values (fp_math (lib_fp lib) ''floor'') args"

definition fn_round :: "fn_lib \<Rightarrow> fn_impl" where
  "fn_round lib args t = map_values (fp_math (lib_fp lib) ''round'') args"

definition fn_sqrt :: "fn_lib \<Rightarrow> fn_impl" where
  "fn_sqrt lib args t = map_values (fp_sqrt (lib_fp lib)) args"

definition fn_ln :: "fn_lib \<Rightarrow> fn_impl" where
  "fn_ln lib args t = map_values (fp_math (lib_fp lib) ''log'') args"

definition fn_log2 :: "fn_lib \<Rightarrow> fn_impl" where
  "fn_log2 lib args t = map_values (fp_math (lib_fp lib) ''log2'') args"

definition fn_log10 :: "fn_lib \<Rightarrow> fn_impl" where
  "fn_log10 lib args t = map_values (fp_math (lib_fp lib) ''log10'') args"

text \<open>\<open>std::gmtime\<close>: the proleptic Gregorian calendar, years counted from March inside the computation.
  It returns a null pointer when the year does not fit an \<open>int\<close>.\<close>

record civil_time =
  tm_year :: int
  tm_mon :: int
  tm_mday :: int
  tm_hour :: int
  tm_min :: int
  tm_wday :: int

definition gmtime :: "int \<Rightarrow> civil_time option" where
  "gmtime t =
     (let days = t div 86400; secs = t mod 86400;
          z = days + 719468; era = z div 146097; doe = z mod 146097;
          yoe = (doe - doe div 1460 + doe div 36524 - doe div 146096) div 365;
          doy = doe - (365 * yoe + yoe div 4 - yoe div 100);
          mp = (5 * doy + 2) div 153;
          d = doy - (153 * mp + 2) div 5 + 1;
          m = (if mp < 10 then mp + 3 else mp - 9);
          y = yoe + era * 400 + (if m \<le> 2 then 1 else 0)
      in if -2147483648 \<le> y - 1900 \<and> y - 1900 \<le> 2147483647
         then Some \<lparr>tm_year = y - 1900, tm_mon = m - 1, tm_mday = d, tm_hour = secs div 3600,
                tm_min = secs mod 3600 div 60, tm_wday = (days + 4) mod 7\<rparr>
         else None)"

fun map_results :: "('a \<Rightarrow> 'b result) \<Rightarrow> 'a list \<Rightarrow> 'b list result" where
  "map_results f [] = Inr []"
| "map_results f (x # xs) = bind_result (f x) (\<lambda>y. bind_result (map_results f xs) (\<lambda>ys. Inr (y # ys)))"

definition time_field :: "fn_lib \<Rightarrow> (civil_time \<Rightarrow> int) \<Rightarrow> pvalue list \<Rightarrow> pvalue result" where
  "time_field lib field args =
     with_vector 0 args (\<lambda>ss. map_sum id VectorValue (map_results (\<lambda>s.
       bind_result (cast_double (- 9223372036854775808) 9223372036854775807 (is_value s)) (\<lambda>i.
         case gmtime i of
           None \<Rightarrow> undefined_behaviour
         | Some tm \<Rightarrow> Inr (s\<lparr>is_value := fp_of_int (lib_fp lib) (field tm)\<rparr>))) ss))"

definition fn_year :: "fn_lib \<Rightarrow> fn_impl" where
  "fn_year lib args t = time_field lib (\<lambda>tm. tm_year tm + 1900) args"

definition fn_hour :: "fn_lib \<Rightarrow> fn_impl" where
  "fn_hour lib args t = time_field lib tm_hour args"

definition fn_minute :: "fn_lib \<Rightarrow> fn_impl" where
  "fn_minute lib args t = time_field lib tm_min args"

definition fn_month :: "fn_lib \<Rightarrow> fn_impl" where
  "fn_month lib args t = time_field lib (\<lambda>tm. tm_mon tm + 1) args"

definition fn_day_of_month :: "fn_lib \<Rightarrow> fn_impl" where
  "fn_day_of_month lib args t = time_field lib tm_mday args"

definition fn_day_of_week :: "fn_lib \<Rightarrow> fn_impl" where
  "fn_day_of_week lib args t = time_field lib tm_wday args"

definition is_leap :: "int \<Rightarrow> bool" where
  "is_leap year \<longleftrightarrow> (year mod 4 = 0 \<and> year mod 100 \<noteq> 0) \<or> year mod 400 = 0"

definition days_in_month_of :: "civil_time \<Rightarrow> int" where
  "days_in_month_of tm =
     (let month = tm_mon tm + 1; year = tm_year tm + 1900
      in if month = 2 then (if is_leap year then 29 else 28)
         else if month = 4 \<or> month = 6 \<or> month = 9 \<or> month = 11 then 30
         else 31)"

definition fn_days_in_month :: "fn_lib \<Rightarrow> fn_impl" where
  "fn_days_in_month lib args t = time_field lib days_in_month_of args"

section \<open>Rates\<close>

definition CalculateRate :: "fp \<Rightarrow> pseries \<Rightarrow> bool \<Rightarrow> bool \<Rightarrow> double" where
  "CalculateRate f s is_counter is_rate =
     (let ss = psamples s in
      if length ss < 2 then 0
      else
        let duration = seconds_between f (hd ss) (last ss)
        in if double_is_zero duration then 0
           else
             let v = (if \<not> is_counter then fp_sub f (ps_value (last ss)) (ps_value (hd ss)) else counter_increase f 0 ss)
             in if is_rate then fp_div f v duration else v)"

definition CalculateInstantRate :: "fp \<Rightarrow> pseries \<Rightarrow> double" where
  "CalculateInstantRate f s =
     (let ss = psamples s in
      if length ss < 2 then 0
      else
        let x = ss ! (length ss - 2); y = last ss; duration = seconds_between f x y
        in if double_is_zero duration then 0
           else
             let delta = fp_sub f (ps_value y) (ps_value x)
             in fp_div f (if double_less delta 0 then ps_value y else delta) duration)"

definition rate_samples :: "(pseries \<Rightarrow> double) \<Rightarrow> pvalue list \<Rightarrow> int \<Rightarrow> pvalue result" where
  "rate_samples rate args t =
     with_matrix 0 args (\<lambda>m. Inr (VectorValue
       (map (\<lambda>s. \<lparr>is_metric = RemoveLabel ''__name__'' (metric s), is_time = t, is_value = rate s\<rparr>) m)))"

definition fn_rate :: "fn_lib \<Rightarrow> fn_impl" where
  "fn_rate lib args t = rate_samples (\<lambda>s. CalculateRate (lib_fp lib) s True True) args t"

definition fn_increase :: "fn_lib \<Rightarrow> fn_impl" where
  "fn_increase lib args t = rate_samples (\<lambda>s. CalculateRate (lib_fp lib) s True False) args t"

definition fn_irate :: "fn_lib \<Rightarrow> fn_impl" where
  "fn_irate lib args t = rate_samples (CalculateInstantRate (lib_fp lib)) args t"

section \<open>Aggregations over the whole vector\<close>

definition CalculateQuantile_vector :: "fn_lib \<Rightarrow> double list \<Rightarrow> double \<Rightarrow> double result" where
  "CalculateQuantile_vector lib vs phi =
     (let f = lib_fp lib in
      if vs = [] then Inr double_nan
      else if double_less phi 0 \<or> double_less double_one phi then Inr double_nan
      else if \<not> orderable vs then undefined_behaviour
      else
        let values = lib_sort_doubles lib vs; n = int (length values)
        in if n = 1 then Inr (values ! 0)
           else
             let pos = fp_mul f phi (fp_of_int f (n - 1))
             in bind_result (cast_double 0 18446744073709551615 (fp_math f ''floor'' pos)) (\<lambda>lower.
                bind_result (cast_double 0 18446744073709551615 (fp_math f ''ceil'' pos)) (\<lambda>upper.
                  if n \<le> lower \<or> n \<le> upper then undefined_behaviour
                  else if lower = upper then Inr (values ! nat lower)
                  else
                    let fraction = fp_sub f pos (fp_of_int f lower)
                    in Inr (fp_add f (fp_mul f (values ! nat lower) (fp_sub f double_one fraction))
                              (fp_mul f (values ! nat upper) fraction)))))"

definition first_labelled :: "(isample list \<Rightarrow> double result) \<Rightarrow> isample list \<Rightarrow> pvalue result" where
  "first_labelled g ss =
     (case ss of
        [] \<Rightarrow> Inr (VectorValue [])
      | s # _ \<Rightarrow> bind_result (g ss) (\<lambda>v. Inr (VectorValue [s\<lparr>is_value := v\<rparr>])))"

definition fn_stddev :: "fn_lib \<Rightarrow> fn_impl" where
  "fn_stddev lib args t =
     with_vector 0 args (first_labelled (\<lambda>ss. Inr (fp_sqrt (lib_fp lib) (variance (lib_fp lib) (map is_value ss)))))"

definition fn_stdvar :: "fn_lib \<Rightarrow> fn_impl" where
  "fn_stdvar lib args t = with_vector 0 args (first_labelled (\<lambda>ss. Inr (variance (lib_fp lib) (map is_value ss))))"

definition sort_by_value :: "fn_lib \<Rightarrow> bool \<Rightarrow> isample list \<Rightarrow> isample list result" where
  "sort_by_value lib descending ss =
     (if \<not> orderable (map is_value ss) then undefined_behaviour
      else Inr (lib_sort_samples lib
             (if descending then (\<lambda>a b. double_less (is_value b) (is_value a))
              else (\<lambda>a b. double_less (is_value a) (is_value b))) ss))"

definition first_k :: "fn_lib \<Rightarrow> bool \<Rightarrow> pvalue list \<Rightarrow> pvalue result" where
  "first_k lib descending args =
     with_scalar 0 args (\<lambda>x. bind_result (cast_double (- 2147483648) 2147483647 x) (\<lambda>k.
       with_vector 1 args (\<lambda>ss.
         if k \<le> 0 \<or> ss = [] then Inr (VectorValue [])
         else bind_result (sort_by_value lib descending ss) (\<lambda>sorted_ss. Inr (VectorValue (take (nat k) sorted_ss))))))"

definition fn_topk :: "fn_lib \<Rightarrow> fn_impl" where
  "fn_topk lib args t = first_k lib True args"

definition fn_bottomk :: "fn_lib \<Rightarrow> fn_impl" where
  "fn_bottomk lib args t = first_k lib False args"

definition fn_quantile :: "fn_lib \<Rightarrow> fn_impl" where
  "fn_quantile lib args t =
     with_scalar 0 args (\<lambda>phi. with_vector 1 args
       (first_labelled (\<lambda>ss. CalculateQuantile_vector lib (map is_value ss) phi)))"

section \<open>Extrapolation\<close>

record regression =
  slope :: double
  intercept :: double

definition CalculateRegression :: "fp \<Rightarrow> psample list \<Rightarrow> int \<Rightarrow> regression" where
  "CalculateRegression f ss intercept_time =
     (if ss = [] then \<lparr>slope = 0, intercept = 0\<rparr>
      else
        let n = fp_of_int f (int (length ss));
            x = (\<lambda>s. fp_div f (fp_of_int f (ps_time s - intercept_time)) (fp_of_int f 1000));
            sum_x = foldl (\<lambda>acc s. fp_add f acc (x s)) 0 ss;
            sum_y = foldl (\<lambda>acc s. fp_add f acc (ps_value s)) 0 ss;
            sum_xy = foldl (\<lambda>acc s. fp_add f acc (fp_mul f (x s) (ps_value s))) 0 ss;
            sum_xx = foldl (\<lambda>acc s. fp_add f acc (fp_mul f (x s) (x s))) 0 ss;
            sl = fp_div f (fp_sub f (fp_mul f n sum_xy) (fp_mul f sum_x sum_y))
                   (fp_sub f (fp_mul f n sum_xx) (fp_mul f sum_x sum_x))
        in \<lparr>slope = sl, intercept = fp_div f (fp_sub f sum_y (fp_mul f sl sum_x)) n\<rparr>)"

definition per_long_series :: "(psample list \<Rightarrow> double) \<Rightarrow> matrix \<Rightarrow> pvalue result" where
  "per_long_series g m =
     Inr (VectorValue (map (\<lambda>s. \<lparr>is_metric = metric s, is_time = last_time s, is_value = g (psamples s)\<rparr>)
       (filter (\<lambda>s. 2 \<le> length (psamples s)) m)))"

definition FunctionDelta :: "fn_lib \<Rightarrow> fn_impl" where
  "FunctionDelta lib args t =
     with_matrix 0 args (per_long_series (\<lambda>ss. fp_sub (lib_fp lib) (ps_value (last ss)) (ps_value (hd ss))))"

definition FunctionDeriv :: "fn_lib \<Rightarrow> fn_impl" where
  "FunctionDeriv lib args t = with_matrix 0 args (per_long_series (\<lambda>ss. slope (CalculateRegression (lib_fp lib) ss 0)))"

definition FunctionPredictLinear :: "fn_lib \<Rightarrow> fn_impl" where
  "FunctionPredictLinear lib args t =
     (let f = lib_fp lib in
      with_matrix 0 args (\<lambda>m. with_scalar 1 args (\<lambda>ahead. per_long_series (\<lambda>ss.
        let reg = CalculateRegression f ss 0;
            target_time = fp_add f (fp_div f (fp_of_int f (ps_time (last ss))) (fp_of_int f 1000)) ahead
        in fp_add f (fp_mul f (slope reg) target_time) (intercept reg)) m)))"

fun smooth :: "fp \<Rightarrow> double \<Rightarrow> double \<Rightarrow> double \<times> double \<Rightarrow> double list \<Rightarrow> double" where
  "smooth f sf tf (s, b) [] = s"
| "smooth f sf tf (s, b) (v # vs) =
     (let s' = fp_add f (fp_mul f sf v) (fp_mul f (fp_sub f double_one sf) (fp_add f s b));
          b' = fp_add f (fp_mul f tf (fp_sub f s' s)) (fp_mul f (fp_sub f double_one tf) b)
      in smooth f sf tf (s', b') vs)"

definition FunctionHoltWinters :: "fn_lib \<Rightarrow> fn_impl" where
  "FunctionHoltWinters lib args t =
     with_matrix 0 args (\<lambda>m. with_scalar 1 args (\<lambda>sf. with_scalar 2 args (\<lambda>tf. per_long_series (\<lambda>ss.
       smooth (lib_fp lib) sf tf (ps_value (ss ! 0), fp_sub (lib_fp lib) (ps_value (ss ! 1)) (ps_value (ss ! 0)))
         (map ps_value (tl ss))) m)))"

section \<open>Label functions\<close>

text \<open>The loop \<open>while ((pos = value.find(placeholder, pos)) != npos)\<close>: what has been replaced is not
  searched again.\<close>

function replace_all :: "string \<Rightarrow> string \<Rightarrow> string \<Rightarrow> string" where
  "replace_all ph r s =
     (case s of
        [] \<Rightarrow> []
      | c # cs \<Rightarrow>
          if ph \<noteq> [] \<and> take (length ph) s = ph then r @ replace_all ph r (drop (length ph) s)
          else c # replace_all ph r cs)"
  by pat_completeness auto
termination
  by (relation "measure (\<lambda>(ph, r, s). length s)") auto

declare replace_all.simps [simp del]

fun expand_groups :: "int \<Rightarrow> string list \<Rightarrow> string \<Rightarrow> string" where
  "expand_groups i [] s = s"
| "expand_groups i (g # gs) s = expand_groups (i + 1) gs (replace_all (''$'' @ int_string i) g s)"

definition replace_label :: "(string \<Rightarrow> string list option) \<Rightarrow> string \<Rightarrow> string \<Rightarrow> string \<Rightarrow> isample \<Rightarrow> isample result" where
  "replace_label match dst replacement src s =
     (case match (case GetLabelValue src (is_metric s) of Some v \<Rightarrow> v | None \<Rightarrow> []) of
        None \<Rightarrow> Inr s
      | Some groups \<Rightarrow>
          bind_result (AddLabel dst (expand_groups 1 groups replacement) (is_metric s)) (\<lambda>l. Inr (s\<lparr>is_metric := l\<rparr>)))"

definition fn_label_replace :: "fn_lib \<Rightarrow> fn_impl" where
  "fn_label_replace lib args t =
     with_vector 0 args (\<lambda>ss. with_string 1 args (\<lambda>dst. with_string 2 args (\<lambda>replacement.
       with_string 3 args (\<lambda>src. with_string 4 args (\<lambda>regex_str.
         case lib_regex lib regex_str of
           None \<Rightarrow> Inr (VectorValue ss)
         | Some match \<Rightarrow> map_sum id VectorValue (map_results (replace_label match dst replacement src) ss))))))"

definition join_labels :: "string \<Rightarrow> string list \<Rightarrow> labels \<Rightarrow> string" where
  "join_labels separator srcs l =
     join separator (map (\<lambda>n. case GetLabelValue n l of Some v \<Rightarrow> v | None \<Rightarrow> []) srcs)"

definition fn_label_join :: "fn_lib \<Rightarrow> fn_impl" where
  "fn_label_join lib args t =
     (if length args < 4 then Inl ''label_join requires at least 4 arguments''
      else
        with_vector 0 args (\<lambda>ss. with_string 1 args (\<lambda>dst. with_string 2 args (\<lambda>separator.
          bind_result (map_results getString (drop 3 args)) (\<lambda>srcs.
            map_sum id VectorValue (map_results (\<lambda>s.
              bind_result (AddLabel dst (join_labels separator srcs (is_metric s)) (is_metric s))
                (\<lambda>l. Inr (s\<lparr>is_metric := l\<rparr>))) ss))))))"

section \<open>Utility functions\<close>

definition fn_sort :: "fn_lib \<Rightarrow> fn_impl" where
  "fn_sort lib args t = with_vector 0 args (\<lambda>ss. map_sum id VectorValue (sort_by_value lib False ss))"

definition fn_sort_desc :: "fn_lib \<Rightarrow> fn_impl" where
  "fn_sort_desc lib args t = with_vector 0 args (\<lambda>ss. map_sum id VectorValue (sort_by_value lib True ss))"

definition fn_clamp :: "fn_lib \<Rightarrow> fn_impl" where
  "fn_clamp lib args t =
     with_vector 0 args (\<lambda>ss. with_scalar 1 args (\<lambda>min_val. with_scalar 2 args (\<lambda>max_val.
       Inr (VectorValue (map (\<lambda>s. s\<lparr>is_value := std_max min_val (std_min max_val (is_value s))\<rparr>) ss)))))"

definition fn_clamp_max :: "fn_lib \<Rightarrow> fn_impl" where
  "fn_clamp_max lib args t =
     with_vector 0 args (\<lambda>ss. with_scalar 1 args (\<lambda>max_val.
       Inr (VectorValue (map (\<lambda>s. s\<lparr>is_value := std_min max_val (is_value s)\<rparr>) ss))))"

definition fn_clamp_min :: "fn_lib \<Rightarrow> fn_impl" where
  "fn_clamp_min lib args t =
     with_vector 0 args (\<lambda>ss. with_scalar 1 args (\<lambda>min_val.
       Inr (VectorValue (map (\<lambda>s. s\<lparr>is_value := std_max min_val (is_value s)\<rparr>) ss))))"

definition fn_vector :: "fn_lib \<Rightarrow> fn_impl" where
  "fn_vector lib args t =
     bind_result (arg 0 args) (\<lambda>v. bind_result (getScalar v) (\<lambda>(time, x).
       Inr (VectorValue [\<lparr>is_metric = [], is_time = time, is_value = x\<rparr>])))"

definition fn_scalar :: "fn_lib \<Rightarrow> fn_impl" where
  "fn_scalar lib args t =
     with_vector 0 args (\<lambda>ss. case ss of [s] \<Rightarrow> Inr (ScalarValue (is_time s) (is_value s)) | _ \<Rightarrow> Inr (ScalarValue t double_nan))"

definition fn_absent :: "fn_lib \<Rightarrow> fn_impl" where
  "fn_absent lib args t =
     with_vector 0 args (\<lambda>ss. Inr (VectorValue (if ss = [] then [\<lparr>is_metric = [], is_time = t, is_value = double_one\<rparr>] else [])))"

fun count_pairs :: "(double \<Rightarrow> double \<Rightarrow> bool) \<Rightarrow> double list \<Rightarrow> int" where
  "count_pairs p (x # y # vs) = (if p y x then 1 else 0) + count_pairs p (y # vs)"
| "count_pairs p vs = 0"

definition fn_changes_int :: "fn_lib \<Rightarrow> fn_impl" where
  "fn_changes_int lib args t =
     over_time (\<lambda>vs. fp_of_int (lib_fp lib) (count_pairs (\<lambda>cur_v prev_v. \<not> double_eq cur_v prev_v) vs)) args"

section \<open>Trigonometric and hyperbolic functions\<close>

definition double_pi :: double where "double_pi = 0x400921FB54442D18"
definition double_minus_one :: double where "double_minus_one = 0xBFF0000000000000"

definition fn_sin :: "fn_lib \<Rightarrow> fn_impl" where
  "fn_sin lib args t = map_values (fp_math (lib_fp lib) ''sin'') args"

definition fn_cos :: "fn_lib \<Rightarrow> fn_impl" where
  "fn_cos lib args t = map_values (fp_math (lib_fp lib) ''cos'') args"

definition fn_tan :: "fn_lib \<Rightarrow> fn_impl" where
  "fn_tan lib args t = map_values (fp_math (lib_fp lib) ''tan'') args"

definition fn_asin :: "fn_lib \<Rightarrow> fn_impl" where
  "fn_asin lib args t =
     map_values (\<lambda>v. if double_less v double_minus_one \<or> double_less double_one v then double_nan
       else fp_math (lib_fp lib) ''asin'' v) args"

definition fn_acos :: "fn_lib \<Rightarrow> fn_impl" where
  "fn_acos lib args t =
     map_values (\<lambda>v. if double_less v double_minus_one \<or> double_less double_one v then double_nan
       else fp_math (lib_fp lib) ''acos'' v) args"

definition fn_atan :: "fn_lib \<Rightarrow> fn_impl" where
  "fn_atan lib args t = map_values (fp_math (lib_fp lib) ''atan'') args"

definition fn_deg :: "fn_lib \<Rightarrow> fn_impl" where
  "fn_deg lib args t =
     map_values (\<lambda>v. fp_div (lib_fp lib) (fp_mul (lib_fp lib) v (fp_of_int (lib_fp lib) 180)) double_pi) args"

definition fn_rad :: "fn_lib \<Rightarrow> fn_impl" where
  "fn_rad lib args t =
     map_values (\<lambda>v. fp_div (lib_fp lib) (fp_mul (lib_fp lib) v double_pi) (fp_of_int (lib_fp lib) 180)) args"

definition fn_pi :: "fn_lib \<Rightarrow> fn_impl" where
  "fn_pi lib args t = Inr (ScalarValue t double_pi)"

definition fn_sgn :: "fn_lib \<Rightarrow> fn_impl" where
  "fn_sgn lib args t =
     map_values (\<lambda>v. if double_less 0 v then double_one else if double_less v 0 then double_minus_one else 0) args"

definition fn_sinh :: "fn_lib \<Rightarrow> fn_impl" where
  "fn_sinh lib args t = map_values (fp_math (lib_fp lib) ''sinh'') args"

definition fn_cosh :: "fn_lib \<Rightarrow> fn_impl" where
  "fn_cosh lib args t = map_values (fp_math (lib_fp lib) ''cosh'') args"

definition fn_tanh :: "fn_lib \<Rightarrow> fn_impl" where
  "fn_tanh lib args t = map_values (fp_math (lib_fp lib) ''tanh'') args"

definition fn_asinh :: "fn_lib \<Rightarrow> fn_impl" where
  "fn_asinh lib args t = map_values (fp_math (lib_fp lib) ''asinh'') args"

definition fn_acosh :: "fn_lib \<Rightarrow> fn_impl" where
  "fn_acosh lib args t =
     map_values (\<lambda>v. if double_less v double_one then double_nan else fp_math (lib_fp lib) ''acosh'' v) args"

definition fn_atanh :: "fn_lib \<Rightarrow> fn_impl" where
  "fn_atanh lib args t =
     map_values (\<lambda>v. if double_le v double_minus_one \<or> double_le double_one v then double_nan
       else fp_math (lib_fp lib) ''atanh'' v) args"

section \<open>Aggregations over time\<close>

definition fn_sum_over_time :: "fn_lib \<Rightarrow> fn_impl" where
  "fn_sum_over_time lib args t = over_time (sum_values (lib_fp lib)) args"

definition fn_avg_over_time :: "fn_lib \<Rightarrow> fn_impl" where
  "fn_avg_over_time lib args t = over_time (average (lib_fp lib)) args"

definition fn_min_over_time :: "fn_lib \<Rightarrow> fn_impl" where
  "fn_min_over_time lib args t = over_time (\<lambda>vs. foldl std_min (hd vs) vs) args"

definition fn_max_over_time :: "fn_lib \<Rightarrow> fn_impl" where
  "fn_max_over_time lib args t = over_time (\<lambda>vs. foldl std_max (hd vs) vs) args"

definition fn_count_over_time :: "fn_lib \<Rightarrow> fn_impl" where
  "fn_count_over_time lib args t = over_time (\<lambda>vs. fp_of_int (lib_fp lib) (int (length vs))) args"

definition CalculateQuantile_range :: "fn_lib \<Rightarrow> double list \<Rightarrow> double \<Rightarrow> double result" where
  "CalculateQuantile_range lib vs phi0 =
     (let f = lib_fp lib in
      if vs = [] then Inr double_nan
      else if \<not> orderable vs then undefined_behaviour
      else
        let values = lib_sort_doubles lib vs; n = int (length values);
            phi1 = (if double_less phi0 0 then 0 else phi0);
            phi = (if double_less double_one phi1 then double_one else phi1)
        in if double_eq phi 0 then Inr (hd values)
           else if double_eq phi double_one then Inr (last values)
           else
             let pos = fp_mul f phi (fp_of_int f (n - 1))
             in bind_result (cast_double 0 18446744073709551615 (fp_math f ''floor'' pos)) (\<lambda>lower.
                bind_result (cast_double 0 18446744073709551615 (fp_math f ''ceil'' pos)) (\<lambda>upper.
                  if n \<le> lower \<or> n \<le> upper then undefined_behaviour
                  else if lower = upper then Inr (values ! nat lower)
                  else
                    let fraction = fp_sub f pos (fp_of_int f lower)
                    in Inr (fp_add f (fp_mul f (values ! nat lower) (fp_sub f double_one fraction))
                              (fp_mul f (values ! nat upper) fraction)))))"

definition fn_quantile_over_time :: "fn_lib \<Rightarrow> fn_impl" where
  "fn_quantile_over_time lib args t =
     with_scalar 0 args (\<lambda>phi. with_matrix 1 args (\<lambda>m.
       map_sum id VectorValue (map_results (\<lambda>s.
         bind_result (CalculateQuantile_range lib (series_values s) phi) (\<lambda>q.
           Inr \<lparr>is_metric = metric s, is_time = last_time s, is_value = q\<rparr>)) (non_empty_series m))))"

text \<open>The variance as mean of the squares minus square of the mean.\<close>

definition moment_variance :: "fp \<Rightarrow> double list \<Rightarrow> double" where
  "moment_variance f vs =
     (let n = fp_of_int f (int (length vs)); mean = fp_div f (sum_values f vs) n;
          sum_sq = foldl (\<lambda>acc v. fp_add f acc (fp_mul f v v)) 0 vs
      in fp_sub f (fp_div f sum_sq n) (fp_mul f mean mean))"

definition fn_stddev_over_time :: "fn_lib \<Rightarrow> fn_impl" where
  "fn_stddev_over_time lib args t = over_time (\<lambda>vs. fp_sqrt (lib_fp lib) (moment_variance (lib_fp lib) vs)) args"

definition fn_stdvar_over_time :: "fn_lib \<Rightarrow> fn_impl" where
  "fn_stdvar_over_time lib args t = over_time (moment_variance (lib_fp lib)) args"

definition fn_last_over_time :: "fn_lib \<Rightarrow> fn_impl" where
  "fn_last_over_time lib args t = over_time last args"

definition fn_present_over_time :: "fn_lib \<Rightarrow> fn_impl" where
  "fn_present_over_time lib args t = over_time (\<lambda>vs. double_one) args"

definition fn_absent_over_time :: "fn_lib \<Rightarrow> fn_impl" where
  "fn_absent_over_time lib args t =
     with_matrix 0 args (\<lambda>m. Inr (VectorValue
       (if list_ex (\<lambda>s. psamples s \<noteq> []) m then [] else [\<lparr>is_metric = [], is_time = t, is_value = double_one\<rparr>])))"

section \<open>Remaining functions\<close>

definition fn_group :: "fn_lib \<Rightarrow> fn_impl" where
  "fn_group lib args t = map_values (\<lambda>v. double_one) args"

fun base_labels :: "isample list \<Rightarrow> labels \<Rightarrow> labels" where
  "base_labels [] l = l"
| "base_labels (s # ss) l = base_labels ss (if l = [] then is_metric s else l)"

definition fn_count_values :: "fn_lib \<Rightarrow> fn_impl" where
  "fn_count_values lib args t =
     with_string 0 args (\<lambda>label. with_vector 1 args (\<lambda>ss.
       if \<not> orderable (map is_value ss) then undefined_behaviour
       else
         let time = (if ss = [] then 0 else is_time (last ss)); base = base_labels ss []
         in map_sum id VectorValue (map_results (\<lambda>(v, c).
              bind_result (AddLabel label (fp_to_string (lib_fp lib) v) base) (\<lambda>l.
                Inr \<lparr>is_metric = l, is_time = time, is_value = fp_of_int (lib_fp lib) c\<rparr>))
              (fold count_value (map is_value ss) []))))"

definition label_or_empty :: "string \<Rightarrow> isample \<Rightarrow> string" where
  "label_or_empty n s = (case GetLabelValue n (is_metric s) of Some v \<Rightarrow> v | None \<Rightarrow> [])"

definition sort_by_label :: "fn_lib \<Rightarrow> bool \<Rightarrow> pvalue list \<Rightarrow> pvalue result" where
  "sort_by_label lib descending args =
     (if args = [] then Inr (VectorValue [])
      else
        with_vector 0 args (\<lambda>ss.
          bind_result (if 1 < length args then with_string 1 args Inr else Inr ''__name__'') (\<lambda>n.
            Inr (VectorValue (lib_sort_samples lib
              (if descending then (\<lambda>a b. label_or_empty n b < label_or_empty n a)
               else (\<lambda>a b. label_or_empty n a < label_or_empty n b)) ss)))))"

definition fn_sort_by_label :: "fn_lib \<Rightarrow> fn_impl" where
  "fn_sort_by_label lib args t = sort_by_label lib False args"

definition fn_sort_by_label_desc :: "fn_lib \<Rightarrow> fn_impl" where
  "fn_sort_by_label_desc lib args t = sort_by_label lib True args"

text \<open>Counting in a \<open>double\<close>.\<close>

fun count_pairs_fp :: "fp \<Rightarrow> (double \<Rightarrow> double \<Rightarrow> bool) \<Rightarrow> double \<Rightarrow> double list \<Rightarrow> double" where
  "count_pairs_fp f p acc (x # y # vs) = count_pairs_fp f p (if p y x then fp_add f acc double_one else acc) (y # vs)"
| "count_pairs_fp f p acc vs = acc"

definition fn_changes :: "fn_lib \<Rightarrow> fn_impl" where
  "fn_changes lib args t =
     over_time (count_pairs_fp (lib_fp lib) (\<lambda>cur_v prev_v. \<not> double_eq cur_v prev_v) 0) args"

definition fn_resets :: "fn_lib \<Rightarrow> fn_impl" where
  "fn_resets lib args t =
     with_matrix 0 args (\<lambda>m. Inr (VectorValue (map (\<lambda>s.
       \<lparr>is_metric = metric s, is_time = (if psamples s = [] then 0 else last_time s),
        is_value = count_pairs_fp (lib_fp lib) double_less 0 (series_values s)\<rparr>) m)))"

definition fn_idelta :: "fn_lib \<Rightarrow> fn_impl" where
  "fn_idelta lib args t =
     with_matrix 0 args (per_long_series (\<lambda>ss. fp_sub (lib_fp lib) (ps_value (last ss)) (ps_value (ss ! (length ss - 2)))))"

definition fn_timestamp :: "fn_lib \<Rightarrow> fn_impl" where
  "fn_timestamp lib args t =
     with_vector 0 args (\<lambda>ss. Inr (VectorValue (map (\<lambda>s.
       s\<lparr>is_value := fp_div (lib_fp lib) (fp_of_int (lib_fp lib) (is_time s)) (fp_of_int (lib_fp lib) 1000)\<rparr>) ss)))"

section \<open>Histogram quantile\<close>

definition ExtractLeBound :: "fn_lib \<Rightarrow> labels \<Rightarrow> double" where
  "ExtractLeBound lib l =
     (case GetLabelValue ''le'' l of
        None \<Rightarrow> double_nan
      | Some s \<Rightarrow>
          if s = ''+Inf'' then double_inf
          else (case lib_stod lib s of Some v \<Rightarrow> v | None \<Rightarrow> double_nan))"

record bucket_group =
  bg_labels :: labels
  bg_buckets :: "(double \<times> double) list"
  bg_time :: int

definition add_bucket :: "fn_lib \<Rightarrow> isample \<Rightarrow> (string \<times> bucket_group) list \<Rightarrow> (string \<times> bucket_group) list" where
  "add_bucket lib s groups =
     (let base = RemoveLabel ''le'' (is_metric s); key = LabelSet_ToString base;
          g = (case map_of groups key of None \<Rightarrow> \<lparr>bg_labels = [], bg_buckets = [], bg_time = 0\<rparr> | Some g \<Rightarrow> g);
          g' = (if bg_labels g = [] then g\<lparr>bg_labels := base, bg_time := is_time s\<rparr> else g);
          le = ExtractLeBound lib (is_metric s)
      in smap_insert key (if double_is_nan le then g' else g'\<lparr>bg_buckets := bg_buckets g' @ [(le, is_value s)]\<rparr>) groups)"

definition double_is_inf :: "double \<Rightarrow> bool" where
  "double_is_inf v \<longleftrightarrow> v AND 0x7FFFFFFFFFFFFFFF = double_inf"

fun total_count :: "(double \<times> double) list \<Rightarrow> double" where
  "total_count [] = 0"
| "total_count ((le, c) # bs) = (if double_is_inf le then c else total_count bs)"

fun bucket_quantile :: "fp \<Rightarrow> double \<Rightarrow> double \<Rightarrow> double \<Rightarrow> (double \<times> double) list \<Rightarrow> double" where
  "bucket_quantile f target prev_le prev_count [] = double_nan"
| "bucket_quantile f target prev_le prev_count ((le, c) # bs) =
     (if double_le target c then
        let size_of = fp_sub f c prev_count
        in if double_less 0 size_of
           then fp_add f prev_le (fp_mul f (fp_div f (fp_sub f target prev_count) size_of) (fp_sub f le prev_le))
           else le
      else bucket_quantile f target le c bs)"

text \<open>Pairs are ordered by bound, and by count under the same bound.\<close>

definition orderable_buckets :: "(double \<times> double) list \<Rightarrow> bool" where
  "orderable_buckets bs \<longleftrightarrow>
     list_all (\<lambda>b. orderable (map snd (filter (\<lambda>c. double_eq (fst c) (fst b)) bs))) bs"

definition group_quantile :: "fn_lib \<Rightarrow> double \<Rightarrow> bucket_group \<Rightarrow> isample option result" where
  "group_quantile lib phi g =
     (if bg_buckets g = [] then Inr None
      else if \<not> orderable_buckets (bg_buckets g) then undefined_behaviour
      else
        let bs = lib_sort_buckets lib (bg_buckets g); total = total_count bs;
            q = (if double_is_zero total then double_nan
                 else bucket_quantile (lib_fp lib) (fp_mul (lib_fp lib) phi total) 0 0 bs)
        in Inr (Some \<lparr>is_metric = bg_labels g, is_time = bg_time g, is_value = q\<rparr>))"

definition fn_histogram_quantile :: "fn_lib \<Rightarrow> fn_impl" where
  "fn_histogram_quantile lib args t =
     with_scalar 0 args (\<lambda>phi. with_vector 1 args (\<lambda>ss.
       if double_less phi 0 \<or> double_less double_one phi then Inr (VectorValue [])
       else map_sum id (\<lambda>rs. VectorValue (List.map_filter id rs))
              (map_results (\<lambda>(k, g). group_quantile lib phi g) (fold (add_bucket lib) ss []))))"

section \<open>The registry\<close>

type_synonym registry = "(string \<times> function_signature) list"

definition Register :: "function_signature \<Rightarrow> registry \<Rightarrow> registry" where
  "Register s r = smap_insert (fs_name s) s r"

definition Get :: "string \<Rightarrow> registry \<Rightarrow> function_signature option" where
  "Get n r = map_of r n"

definition signature :: "string \<Rightarrow> value_type list \<Rightarrow> value_type \<Rightarrow> fn_impl \<Rightarrow> function_signature" where
  "signature n ts r f = \<lparr>fs_name = n, fs_arg_types = ts, fs_variadic = False, fs_return_type = r, fs_implementation = f\<rparr>"

definition RegisterMathFunctions :: "fn_lib \<Rightarrow> registry \<Rightarrow> registry" where
  "RegisterMathFunctions lib = fold Register
     [signature ''abs'' [VECTOR] VECTOR (fn_abs lib), signature ''ceil'' [VECTOR] VECTOR (fn_ceil lib),
      signature ''exp'' [VECTOR] VECTOR (fn_exp lib), signature ''floor'' [VECTOR] VECTOR (fn_floor lib),
      signature ''round'' [VECTOR] VECTOR (fn_round lib), signature ''sqrt'' [VECTOR] VECTOR (fn_sqrt lib),
      signature ''ln'' [VECTOR] VECTOR (fn_ln lib), signature ''log2'' [VECTOR] VECTOR (fn_log2 lib),
      signature ''log10'' [VECTOR] VECTOR (fn_log10 lib)]"

definition RegisterTimeFunctions :: "fn_lib \<Rightarrow> registry \<Rightarrow> registry" where
  "RegisterTimeFunctions lib = fold Register
     [signature ''year'' [VECTOR] VECTOR (fn_year lib), signature ''hour'' [VECTOR] VECTOR (fn_hour lib),
      signature ''minute'' [VECTOR] VECTOR (fn_minute lib), signature ''month'' [VECTOR] VECTOR (fn_month lib),
      signature ''day_of_month'' [VECTOR] VECTOR (fn_day_of_month lib),
      signature ''day_of_week'' [VECTOR] VECTOR (fn_day_of_week lib),
      signature ''days_in_month'' [VECTOR] VECTOR (fn_days_in_month lib)]"

definition RegisterRateFunctions :: "fn_lib \<Rightarrow> registry \<Rightarrow> registry" where
  "RegisterRateFunctions lib = fold Register
     [signature ''rate'' [MATRIX] VECTOR (fn_rate lib), signature ''increase'' [MATRIX] VECTOR (fn_increase lib),
      signature ''irate'' [MATRIX] VECTOR (fn_irate lib)]"

definition RegisterAggregationFunctions :: "fn_lib \<Rightarrow> registry \<Rightarrow> registry" where
  "RegisterAggregationFunctions lib = fold Register
     [signature ''stddev'' [VECTOR] VECTOR (fn_stddev lib), signature ''stdvar'' [VECTOR] VECTOR (fn_stdvar lib),
      signature ''topk'' [SCALAR, VECTOR] VECTOR (fn_topk lib), signature ''bottomk'' [SCALAR, VECTOR] VECTOR (fn_bottomk lib),
      signature ''quantile'' [SCALAR, VECTOR] VECTOR (fn_quantile lib)]"

definition RegisterExtrapolationFunctions :: "fn_lib \<Rightarrow> registry \<Rightarrow> registry" where
  "RegisterExtrapolationFunctions lib = fold Register
     [signature ''delta'' [MATRIX] VECTOR (FunctionDelta lib), signature ''deriv'' [MATRIX] VECTOR (FunctionDeriv lib),
      signature ''predict_linear'' [MATRIX, SCALAR] VECTOR (FunctionPredictLinear lib),
      signature ''holt_winters'' [MATRIX, SCALAR, SCALAR] VECTOR (FunctionHoltWinters lib)]"

definition RegisterLabelManipulationFunctions :: "fn_lib \<Rightarrow> registry \<Rightarrow> registry" where
  "RegisterLabelManipulationFunctions lib = fold Register
     [signature ''label_replace'' [VECTOR, STRING_TYPE, STRING_TYPE, STRING_TYPE, STRING_TYPE] VECTOR (fn_label_replace lib),
      (signature ''label_join'' [VECTOR, STRING_TYPE, STRING_TYPE] VECTOR (fn_label_join lib))\<lparr>fs_variadic := True\<rparr>]"

definition RegisterUtilityFunctions :: "fn_lib \<Rightarrow> registry \<Rightarrow> registry" where
  "RegisterUtilityFunctions lib = fold Register
     [signature ''sort'' [VECTOR] VECTOR (fn_sort lib), signature ''sort_desc'' [VECTOR] VECTOR (fn_sort_desc lib),
      signature ''clamp'' [VECTOR, SCALAR, SCALAR] VECTOR (fn_clamp lib),
      signature ''clamp_max'' [VECTOR, SCALAR] VECTOR (fn_clamp_max lib),
      signature ''clamp_min'' [VECTOR, SCALAR] VECTOR (fn_clamp_min lib),
      signature ''vector'' [SCALAR] VECTOR (fn_vector lib), signature ''scalar'' [VECTOR] SCALAR (fn_scalar lib),
      signature ''absent'' [VECTOR] VECTOR (fn_absent lib), signature ''changes'' [MATRIX] VECTOR (fn_changes_int lib)]"

definition RegisterTrigonometricFunctions :: "fn_lib \<Rightarrow> registry \<Rightarrow> registry" where
  "RegisterTrigonometricFunctions lib = fold Register
     [signature ''sin'' [VECTOR] VECTOR (fn_sin lib), signature ''cos'' [VECTOR] VECTOR (fn_cos lib),
      signature ''tan'' [VECTOR] VECTOR (fn_tan lib), signature ''asin'' [VECTOR] VECTOR (fn_asin lib),
      signature ''acos'' [VECTOR] VECTOR (fn_acos lib), signature ''atan'' [VECTOR] VECTOR (fn_atan lib),
      signature ''deg'' [VECTOR] VECTOR (fn_deg lib), signature ''rad'' [VECTOR] VECTOR (fn_rad lib),
      signature ''pi'' [] SCALAR (fn_pi lib), signature ''sgn'' [VECTOR] VECTOR (fn_sgn lib)]"

definition RegisterHyperbolicFunctions :: "fn_lib \<Rightarrow> registry \<Rightarrow> registry" where
  "RegisterHyperbolicFunctions lib = fold Register
     [signature ''sinh'' [VECTOR] VECTOR (fn_sinh lib), signature ''cosh'' [VECTOR] VECTOR (fn_cosh lib),
      signature ''tanh'' [VECTOR] VECTOR (fn_tanh lib), signature ''asinh'' [VECTOR] VECTOR (fn_asinh lib),
      signature ''acosh'' [VECTOR] VECTOR (fn_acosh lib), signature ''atanh'' [VECTOR] VECTOR (fn_atanh lib)]"

definition RegisterOverTimeAggregations :: "fn_lib \<Rightarrow> registry \<Rightarrow> registry" where
  "RegisterOverTimeAggregations lib = fold Register
     [signature ''sum_over_time'' [MATRIX] VECTOR (fn_sum_over_time lib),
      signature ''avg_over_time'' [MATRIX] VECTOR (fn_avg_over_time lib),
      signature ''min_over_time'' [MATRIX] VECTOR (fn_min_over_time lib),
      signature ''max_over_time'' [MATRIX] VECTOR (fn_max_over_time lib),
      signature ''count_over_time'' [MATRIX] VECTOR (fn_count_over_time lib),
      signature ''quantile_over_time'' [SCALAR, MATRIX] VECTOR (fn_quantile_over_time lib),
      signature ''stddev_over_time'' [MATRIX] VECTOR (fn_stddev_over_time lib),
      signature ''stdvar_over_time'' [MATRIX] VECTOR (fn_stdvar_over_time lib),
      signature ''last_over_time'' [MATRIX] VECTOR (fn_last_over_time lib),
      signature ''present_over_time'' [MATRIX] VECTOR (fn_present_over_time lib),
      signature ''absent_over_time'' [MATRIX] VECTOR (fn_absent_over_time lib)]"

definition RegisterRemainingAggregations :: "fn_lib \<Rightarrow> registry \<Rightarrow> registry" where
  "RegisterRemainingAggregations lib = fold Register
     [signature ''group'' [VECTOR] VECTOR (fn_group lib),
      signature ''count_values'' [STRING_TYPE, VECTOR] VECTOR (fn_count_values lib)]"

definition RegisterRemainingUtilityFunctions :: "fn_lib \<Rightarrow> registry \<Rightarrow> registry" where
  "RegisterRemainingUtilityFunctions lib = fold Register
     [signature ''sort_by_label'' [VECTOR, STRING_TYPE] VECTOR (fn_sort_by_label lib),
      signature ''sort_by_label_desc'' [VECTOR, STRING_TYPE] VECTOR (fn_sort_by_label_desc lib),
      signature ''changes'' [MATRIX] VECTOR (fn_changes lib), signature ''resets'' [MATRIX] VECTOR (fn_resets lib),
      signature ''idelta'' [MATRIX] VECTOR (fn_idelta lib), signature ''timestamp'' [VECTOR] VECTOR (fn_timestamp lib)]"

definition RegisterHistogramFunctions :: "fn_lib \<Rightarrow> registry \<Rightarrow> registry" where
  "RegisterHistogramFunctions lib = fold Register
     [signature ''histogram_quantile'' [SCALAR, VECTOR] VECTOR (fn_histogram_quantile lib)]"

definition FunctionRegistry :: "fn_lib \<Rightarrow> registry" where
  "FunctionRegistry lib =
     fold (\<lambda>register. register lib)
       [RegisterRateFunctions, RegisterAggregationFunctions, RegisterLabelManipulationFunctions,
        RegisterUtilityFunctions, RegisterTrigonometricFunctions, RegisterHyperbolicFunctions,
        RegisterOverTimeAggregations, RegisterRemainingAggregations, RegisterRemainingUtilityFunctions,
        RegisterHistogramFunctions, RegisterMathFunctions, RegisterTimeFunctions]
       (Register (signature ''time'' [] SCALAR (fn_time lib)) [])"

text \<open>The evaluator with the registry in place.\<close>

definition registry_function :: "fn_lib \<Rightarrow> string \<Rightarrow> fn_impl option" where
  "registry_function lib n = map_option fs_implementation (Get n (FunctionRegistry lib))"

definition registry_type :: "fn_lib \<Rightarrow> string \<Rightarrow> value_type option" where
  "registry_type lib n = map_option fs_return_type (Get n (FunctionRegistry lib))"

section \<open>Registered functions return their declared type\<close>

lemma bind_result_Inr [simp]: "bind_result r f = Inr y \<longleftrightarrow> (\<exists>x. r = Inr x \<and> f x = Inr y)"
  by (cases r) (auto simp: bind_result_def)

lemma with_InrD:
  "with_scalar i args f = Inr y \<Longrightarrow> \<exists>x. f x = Inr y"
  "with_vector i args g = Inr y \<Longrightarrow> \<exists>x. g x = Inr y"
  "with_matrix i args h = Inr y \<Longrightarrow> \<exists>x. h x = Inr y"
  "with_string i args k = Inr y \<Longrightarrow> \<exists>x. k x = Inr y"
  by (auto simp: with_scalar_def with_vector_def with_matrix_def with_string_def)

definition sig_typed :: "function_signature \<Rightarrow> bool" where
  "sig_typed s \<longleftrightarrow> (\<forall>args t v. fs_implementation s args t = Inr v \<longrightarrow> value_kind v = fs_return_type s)"

definition registry_typed :: "registry \<Rightarrow> bool" where
  "registry_typed r \<longleftrightarrow> (\<forall>s \<in> snd ` set r. sig_typed s)"

lemma registry_typed_Register:
  "\<lbrakk>registry_typed r; sig_typed s\<rbrakk> \<Longrightarrow> registry_typed (Register s r)"
  using set_smap_insert_subset [of "fs_name s" s r] by (force simp: registry_typed_def Register_def)

lemma registry_typed_fold:
  "\<lbrakk>registry_typed r; list_all sig_typed ss\<rbrakk> \<Longrightarrow> registry_typed (fold Register ss r)"
  by (induction ss arbitrary: r) (simp_all add: registry_typed_Register)

lemma sig_typed_signature [simp]:
  "sig_typed (signature n ts k f) \<longleftrightarrow> (\<forall>args t v. f args t = Inr v \<longrightarrow> value_kind v = k)"
  "sig_typed (s\<lparr>fs_variadic := b\<rparr>) \<longleftrightarrow> sig_typed s"
  by (simp_all add: sig_typed_def signature_def)

named_theorems vector_valued \<open>what returns a vector if anything\<close>

lemma combinators_vector [vector_valued]:
  "map_values g args = Inr v \<Longrightarrow> value_kind v = VECTOR"
  "over_time h args = Inr v \<Longrightarrow> value_kind v = VECTOR"
  "rate_samples r args t = Inr v \<Longrightarrow> value_kind v = VECTOR"
  "time_field lib fld args = Inr v \<Longrightarrow> value_kind v = VECTOR"
  "first_k lib b args = Inr v \<Longrightarrow> value_kind v = VECTOR"
  "sort_by_label lib b args = Inr v \<Longrightarrow> value_kind v = VECTOR"
  "per_long_series l m = Inr v \<Longrightarrow> value_kind v = VECTOR"
  "first_labelled q ss = Inr v \<Longrightarrow> value_kind v = VECTOR"
  by (auto simp: map_values_def over_time_def rate_samples_def time_field_def first_k_def sort_by_label_def
      per_long_series_def first_labelled_def split: if_splits list.splits dest!: with_InrD)

lemmas value_function_defs =
  fn_abs_def fn_ceil_def fn_exp_def fn_floor_def fn_round_def fn_sqrt_def fn_ln_def fn_log2_def fn_log10_def
  fn_sin_def fn_cos_def fn_tan_def fn_asin_def fn_acos_def fn_atan_def fn_deg_def fn_rad_def fn_sgn_def
  fn_sinh_def fn_cosh_def fn_tanh_def fn_asinh_def fn_acosh_def fn_atanh_def fn_group_def
  fn_year_def fn_hour_def fn_minute_def fn_month_def fn_day_of_month_def fn_day_of_week_def fn_days_in_month_def
  fn_rate_def fn_increase_def fn_irate_def fn_topk_def fn_bottomk_def fn_sort_by_label_def fn_sort_by_label_desc_def
  fn_sum_over_time_def fn_avg_over_time_def fn_min_over_time_def fn_max_over_time_def fn_count_over_time_def
  fn_stddev_over_time_def fn_stdvar_over_time_def fn_last_over_time_def fn_present_over_time_def
  fn_changes_def fn_changes_int_def

lemma vector_functions [vector_valued]:
  "fn_stddev lib args t = Inr v \<Longrightarrow> value_kind v = VECTOR"
  "fn_stdvar lib args t = Inr v \<Longrightarrow> value_kind v = VECTOR"
  "fn_quantile lib args t = Inr v \<Longrightarrow> value_kind v = VECTOR"
  "fn_label_replace lib args t = Inr v \<Longrightarrow> value_kind v = VECTOR"
  "fn_label_join lib args t = Inr v \<Longrightarrow> value_kind v = VECTOR"
  "fn_sort lib args t = Inr v \<Longrightarrow> value_kind v = VECTOR"
  "fn_sort_desc lib args t = Inr v \<Longrightarrow> value_kind v = VECTOR"
  "fn_clamp lib args t = Inr v \<Longrightarrow> value_kind v = VECTOR"
  "fn_clamp_max lib args t = Inr v \<Longrightarrow> value_kind v = VECTOR"
  "fn_clamp_min lib args t = Inr v \<Longrightarrow> value_kind v = VECTOR"
  "fn_vector lib args t = Inr v \<Longrightarrow> value_kind v = VECTOR"
  "fn_absent lib args t = Inr v \<Longrightarrow> value_kind v = VECTOR"
  by (auto simp: fn_stddev_def fn_stdvar_def fn_quantile_def fn_label_replace_def fn_label_join_def fn_sort_def
      fn_sort_desc_def fn_clamp_def fn_clamp_max_def fn_clamp_min_def fn_vector_def fn_absent_def
      split: if_splits option.splits dest!: with_InrD dest: combinators_vector)

lemma vector_functions' [vector_valued]:
  "fn_quantile_over_time lib args t = Inr v \<Longrightarrow> value_kind v = VECTOR"
  "fn_absent_over_time lib args t = Inr v \<Longrightarrow> value_kind v = VECTOR"
  "fn_count_values lib args t = Inr v \<Longrightarrow> value_kind v = VECTOR"
  "fn_resets lib args t = Inr v \<Longrightarrow> value_kind v = VECTOR"
  "fn_idelta lib args t = Inr v \<Longrightarrow> value_kind v = VECTOR"
  "fn_timestamp lib args t = Inr v \<Longrightarrow> value_kind v = VECTOR"
  "fn_histogram_quantile lib args t = Inr v \<Longrightarrow> value_kind v = VECTOR"
  by (auto simp: fn_quantile_over_time_def fn_absent_over_time_def fn_count_values_def fn_resets_def fn_idelta_def
      fn_timestamp_def fn_histogram_quantile_def undefined_behaviour_def Let_def
      split: if_splits dest!: with_InrD dest: combinators_vector)

lemma scalar_functions:
  "fn_time lib args t = Inr v \<Longrightarrow> value_kind v = SCALAR"
  "fn_pi lib args t = Inr v \<Longrightarrow> value_kind v = SCALAR"
  "fn_scalar lib args t = Inr v \<Longrightarrow> value_kind v = SCALAR"
  by (auto simp: fn_time_def fn_pi_def fn_scalar_def split: list.splits dest!: with_InrD)

lemmas register_defs =
  RegisterRateFunctions_def RegisterAggregationFunctions_def RegisterLabelManipulationFunctions_def
  RegisterUtilityFunctions_def RegisterTrigonometricFunctions_def RegisterHyperbolicFunctions_def
  RegisterOverTimeAggregations_def RegisterRemainingAggregations_def RegisterRemainingUtilityFunctions_def
  RegisterHistogramFunctions_def RegisterMathFunctions_def RegisterTimeFunctions_def

lemma registrations_typed:
  assumes "registry_typed r"
  shows "registry_typed (RegisterRateFunctions lib r)" "registry_typed (RegisterAggregationFunctions lib r)"
    "registry_typed (RegisterLabelManipulationFunctions lib r)" "registry_typed (RegisterUtilityFunctions lib r)"
    "registry_typed (RegisterTrigonometricFunctions lib r)" "registry_typed (RegisterHyperbolicFunctions lib r)"
    "registry_typed (RegisterOverTimeAggregations lib r)" "registry_typed (RegisterRemainingAggregations lib r)"
    "registry_typed (RegisterRemainingUtilityFunctions lib r)" "registry_typed (RegisterHistogramFunctions lib r)"
    "registry_typed (RegisterMathFunctions lib r)" "registry_typed (RegisterTimeFunctions lib r)"
  unfolding register_defs
  by (intro registry_typed_fold [OF assms],
      simp add: value_function_defs vector_valued scalar_functions)+

lemma FunctionRegistry_typed: "registry_typed (FunctionRegistry lib)"
proof -
  have "registry_typed (Register (signature ''time'' [] SCALAR (fn_time lib)) [])"
    by (rule registry_typed_Register) (simp_all add: registry_typed_def scalar_functions)
  then show ?thesis by (simp add: FunctionRegistry_def registrations_typed)
qed

lemma registry_functions_typed: "functions_typed (env\<lparr>env_function := registry_function lib\<rparr>) (registry_type lib)"
  unfolding functions_typed_def
proof (intro allI impI)
  fix f impl vs t v
  assume "env_function (env\<lparr>env_function := registry_function lib\<rparr>) f = Some impl \<and> impl vs t = Inr v"
  then obtain s where "map_of (FunctionRegistry lib) f = Some s" "impl = fs_implementation s" "impl vs t = Inr v"
    by (auto simp: registry_function_def Get_def)
  then show "registry_type lib f = Some (value_kind v)"
    using FunctionRegistry_typed [of lib] map_of_SomeD [of "FunctionRegistry lib" f s]
    by (force simp: registry_type_def Get_def registry_typed_def sig_typed_def)
qed

section \<open>Looking up a function\<close>

lemma Get_Register [simp]: "Get n (Register s r) = (if fs_name s = n then Some s else Get n r)"
  by (auto simp: Get_def Register_def smap_simps)

lemma Get_Nil [simp]: "Get n [] = None"
  by (simp add: Get_def)

lemma fs_name_signature [simp]: "fs_name (signature n ts k f) = n"
  by (simp add: signature_def)

lemma registered_rates:
  "Get ''rate'' (FunctionRegistry lib) = Some (signature ''rate'' [MATRIX] VECTOR (fn_rate lib))"
  "Get ''increase'' (FunctionRegistry lib) = Some (signature ''increase'' [MATRIX] VECTOR (fn_increase lib))"
  by (simp_all add: FunctionRegistry_def register_defs)

lemma unregistered:
  "Get ''delta'' (FunctionRegistry lib) = None" "Get ''deriv'' (FunctionRegistry lib) = None"
  "Get ''predict_linear'' (FunctionRegistry lib) = None" "Get ''holt_winters'' (FunctionRegistry lib) = None"
  by (simp_all add: FunctionRegistry_def register_defs)

section \<open>The rate of a range query\<close>

definition rate_window :: "int \<Rightarrow> int \<Rightarrow> int \<Rightarrow> psample list \<Rightarrow> psample list" where
  "rate_window off rng t ss = filter (\<lambda>x. t - off - rng \<le> ps_time x \<and> ps_time x \<le> t - off) ss"

definition rate_points :: "(psample list \<Rightarrow> double) \<Rightarrow> int \<Rightarrow> int \<Rightarrow> int list \<Rightarrow> psample list \<Rightarrow> psample list" where
  "rate_points rate off rng ts ss =
     concat (map (\<lambda>t. if 2 \<le> length (rate_window off rng t ss)
       then [\<lparr>ps_time = t, ps_value = rate (rate_window off rng t ss)\<rparr>] else []) ts)"

lemma rate_points_cong:
  "(\<And>t. t \<in> set ts \<Longrightarrow> rate_window off rng t ss = rate_window off rng t ss') \<Longrightarrow>
     rate_points rate off rng ts ss = rate_points rate off rng ts ss'"
  by (induction ts) (simp_all add: rate_points_def)

lemma dropWhile_time_filter:
  "time_sorted ss \<Longrightarrow> dropWhile (\<lambda>x. ps_time x < a) ss = filter (\<lambda>x. a \<le> ps_time x) ss"
proof (induction ss)
  case (Cons s ss)
  have "filter (\<lambda>x. a \<le> ps_time x) ss = ss" if "a \<le> ps_time s"
    using Cons.prems that by (force simp: time_sorted_def filter_id_conv)
  with Cons show ?case by (auto simp: time_sorted_def)
qed simp

lemma rate_walk_points:
  "\<lbrakk>time_sorted ss; sorted_wrt (<) ts\<rbrakk> \<Longrightarrow> rate_walk rate off rng ts ss = rate_points rate off rng ts ss"
proof (induction ts arbitrary: ss)
  case (Cons t ts)
  let ?left = "filter (\<lambda>x. t - off - rng \<le> ps_time x) ss"
  have drop: "dropWhile (\<lambda>x. ps_time x < t - off - rng) ss = ?left"
    using dropWhile_time_filter [OF Cons.prems(1)] by simp
  have srt: "time_sorted ?left" using Cons.prems(1) by (simp add: time_sorted_def sorted_wrt_filter)
  have now: "takeWhile (\<lambda>x. ps_time x \<le> t - off) ?left = rate_window off rng t ss"
    using takeWhile_filter_sorted [OF srt, of "t - off"] by (simp add: rate_window_def not_less conj_commute)
  have "rate_window off rng u ?left = rate_window off rng u ss" if "u \<in> set ts" for u
    using Cons.prems(2) that unfolding rate_window_def filter_filter by (intro filter_cong) auto
  then have "rate_points rate off rng ts ?left = rate_points rate off rng ts ss"
    by (rule rate_points_cong)
  with Cons.IH [OF srt] Cons.prems(2) show ?case by (simp add: Let_def drop now rate_points_def)
qed (simp add: rate_points_def)

lemma rate_points_Nil [simp]: "rate_points rate off rng ts [] = []"
  by (induction ts) (simp_all add: rate_points_def rate_window_def)

lemma rate_points_window:
  assumes "\<forall>t \<in> set ts. a \<le> t \<and> t \<le> b"
  shows "rate_points rate off rng ts (filter (\<lambda>x. a - rng - off \<le> ps_time x \<and> ps_time x \<le> b - off) ss) = rate_points rate off rng ts ss"
proof -
  have "rate_window off rng t (filter (\<lambda>x. a - rng - off \<le> ps_time x \<and> ps_time x \<le> b - off) ss) = rate_window off rng t ss"
    if "t \<in> set ts" for t
    using assms that unfolding rate_window_def filter_filter by (intro filter_cong) force+
  then show ?thesis by (rule rate_points_cong)
qed

lemma rate_points_at:
  assumes "distinct ts" "t \<in> set ts"
  shows "filter (\<lambda>x. ps_time x = t) (rate_points rate off rng ts ss)
    = (if 2 \<le> length (rate_window off rng t ss) then [\<lparr>ps_time = t, ps_value = rate (rate_window off rng t ss)\<rparr>] else [])"
  using assms
proof (induction ts)
  case (Cons u ts)
  have "filter (\<lambda>x. ps_time x = t) (rate_points rate off rng ts ss) = []" if "t \<notin> set ts"
    using that by (auto simp: filter_empty_conv rate_points_def split: if_splits)
  with Cons show ?case by (auto simp: rate_points_def)
qed simp

lemma helper_is_rate: "CalculateRateHelper f ss c r = CalculateRate f \<lparr>metric = l, psamples = ss\<rparr> c r"
  by (simp add: CalculateRateHelper_def CalculateRate_def Let_def)

text \<open>What the instant query returns for the series of a window, without the ones of fewer than two samples.\<close>

definition long_series_points :: "isample list \<Rightarrow> matrix \<Rightarrow> (labels \<times> double) list" where
  "long_series_points ss m =
     map (\<lambda>(s, w). (is_metric s, is_value s)) (filter (\<lambda>(s, w). 2 \<le> length (psamples w)) (zip ss m))"

lemma range_rate_points:
  assumes "env_select env = Some sel" "range_source sel db" "0 \<le> selector_offset vs" "0 < d" "f = ''rate'' \<or> f = ''increase''"
  shows "EvaluateRange env a b d (CallExpr f [MatrixSelector vs tok secs]) = Inr (MatrixValue (non_empty_series (map (\<lambda>s.
    \<lparr>metric = RemoveLabel ''__name__'' (metric s), psamples = rate_points (\<lambda>w. CalculateRateHelper (env_fp env) w True (f = ''rate''))
       (selector_offset vs) (sint secs * 1000) (steps a b d) (psamples s)\<rparr>) (db (labelMatchers vs)))))"
proof -
  let ?off = "selector_offset vs" and ?rng = "sint secs * 1000" and ?rate = "\<lambda>w. CalculateRateHelper (env_fp env) w True (f = ''rate'')"
  let ?w = "filter (\<lambda>x. a - ?rng - ?off \<le> ps_time x \<and> ps_time x \<le> b - ?off)"
  have off: "positive_offset vs = ?off" using assms(3) by (simp add: positive_offset_def)
  have walk: "rate_walk ?rate ?off ?rng (steps a b d) (?w ss) = rate_points ?rate ?off ?rng (steps a b d) ss" if "time_sorted ss" for ss
    using rate_walk_points [of "?w ss" "steps a b d"] sorted_steps [OF assms(4)] that
      rate_points_window [of "steps a b d" a b] set_steps [OF assms(4)]
    by (simp add: time_sorted_def sorted_wrt_filter)
  have none: "rate_points ?rate ?off ?rng (steps a b d) ss = []" if "time_sorted ss" "?w ss = []" for ss
    using walk [OF that(1)] rate_walk_points [of "[]" "steps a b d" ?rate ?off ?rng] sorted_steps [OF assms(4)] that(2)
    by (simp add: time_sorted_def)
  have "\<forall>s \<in> set m. time_sorted (psamples s) \<Longrightarrow>
      non_empty_series (map (\<lambda>s. \<lparr>metric = RemoveLabel ''__name__'' (metric s), psamples = rate_walk ?rate ?off ?rng (steps a b d) (psamples s)\<rparr>)
        (in_window (a - ?rng - ?off) (b - ?off) m))
    = non_empty_series (map (\<lambda>s. \<lparr>metric = RemoveLabel ''__name__'' (metric s), psamples = rate_points ?rate ?off ?rng (steps a b d) (psamples s)\<rparr>) m)" for m
    by (induction m) (auto simp: in_window_def non_empty_series_def walk none)
  moreover have "is_rate_function f" "f \<noteq> ''irate''" using assms(5) by (auto simp: is_rate_function_def)
  ultimately show ?thesis
    using assms(1,2) by (simp add: EvaluateRangeCall_def off range_source_def)
qed

lemma long_series_points_window:
  "long_series_points (map (\<lambda>s. \<lparr>is_metric = h (metric s), is_time = t, is_value = r s\<rparr>) (in_window x y m)) (in_window x y m)
   = concat (map (\<lambda>s. let w = filter (\<lambda>p. x \<le> ps_time p \<and> ps_time p \<le> y) (psamples s) in
       if 2 \<le> length w then [(h (metric s), r (s\<lparr>psamples := w\<rparr>))] else []) m)"
  by (induction m) (auto simp: long_series_points_def in_window_def Let_def)

lemma range_rate_instant:
  assumes "env_select env = Some sel" "range_source sel db" "0 \<le> selector_offset vs" "0 < d" "t \<in> set (steps a b d)"
    "f = ''rate'' \<or> f = ''increase''" "vs_name vs = []" "env_function env f = registry_function lib f" "env_fp env = lib_fp lib"
  shows "\<exists>m ss w. EvaluateRange env a b d (CallExpr f [MatrixSelector vs tok secs]) = Inr (MatrixValue m)
    \<and> Evaluate env (MatrixSelector vs tok secs) t = Inr (MatrixValue w)
    \<and> Evaluate env (CallExpr f [MatrixSelector vs tok secs]) t = Inr (VectorValue ss)
    \<and> points_at t m = long_series_points ss w"
proof -
  let ?off = "selector_offset vs" and ?rng = "sint secs * 1000" and ?h = "RemoveLabel ''__name__''"
  let ?db = "db (labelMatchers vs)" and ?rate = "\<lambda>s. CalculateRate (lib_fp lib) s True (f = ''rate'')"
  let ?w = "in_window (t - ?off - ?rng) (t - ?off) ?db"
  have off: "positive_offset vs = ?off" using assms(3) by (simp add: positive_offset_def)
  have inst: "Evaluate env (MatrixSelector vs tok secs) t = Inr (MatrixValue ?w)"
    using assms(1,2,7) by (simp add: EvaluateMatrixSelector_def off full_matchers_def range_source_def Let_def)
  have "registry_function lib f = Some (if f = ''rate'' then fn_rate lib else fn_increase lib)"
    using assms(6) by (auto simp: registry_function_def registered_rates signature_def)
  then have call: "Evaluate env (CallExpr f [MatrixSelector vs tok secs]) t
      = Inr (VectorValue (map (\<lambda>s. \<lparr>is_metric = ?h (metric s), is_time = t, is_value = ?rate s\<rparr>) ?w))"
    using inst assms(6,8) by (auto simp: EvaluateCall_def fn_rate_def fn_increase_def rate_samples_def with_matrix_def arg_def
        getMatrix_def bind_result_def)
  have "distinct (steps a b d)" using sorted_steps [OF assms(4)] by (simp add: strict_sorted_iff)
  note at = rate_points_at [OF this assms(5)]
  have same: "CalculateRateHelper (lib_fp lib) (rate_window ?off ?rng t (psamples s)) True (f = ''rate'')
      = ?rate (s\<lparr>psamples := filter (\<lambda>p. t - ?off - ?rng \<le> ps_time p \<and> ps_time p \<le> t - ?off) (psamples s)\<rparr>)" for s :: pseries
    by (simp add: helper_is_rate [of _ _ _ _ "metric s"] rate_window_def CalculateRate_def)
  have "points_at t (map (\<lambda>s. \<lparr>metric = ?h (metric s), psamples = rate_points (\<lambda>w. CalculateRateHelper (env_fp env) w True (f = ''rate''))
       ?off ?rng (steps a b d) (psamples s)\<rparr>) ?db)
    = long_series_points (map (\<lambda>s. \<lparr>is_metric = ?h (metric s), is_time = t, is_value = ?rate s\<rparr>) ?w) ?w"
    unfolding long_series_points_window [where h = ?h] points_at_def
    by (auto simp: at assms(9) same comp_def Let_def rate_window_def [symmetric] intro!: arg_cong [where f = concat])
  then show ?thesis
    using range_rate_points [OF assms(1-4,6), of a b tok secs] inst call by (auto simp: points_at_non_empty)
qed

section \<open>Properties\<close>

definition example_lib :: fn_lib where
  "example_lib = \<lparr>lib_fp = example_fp, lib_sort_samples = (\<lambda>less ss. ss), lib_sort_doubles = id, lib_sort_buckets = id,
     lib_regex = (\<lambda>p. None), lib_stod = (\<lambda>s. None)\<rparr>"

definition registry_env :: "fn_lib \<Rightarrow> eval_env \<Rightarrow> eval_env" where
  "registry_env lib env = env\<lparr>env_function := registry_function lib\<rparr>"

text \<open>C19: type soundness of the evaluator with the function registry. An evaluation that succeeds gives a value
  of the type computed from the expression and the return types the functions were registered with; an
  expression without a type never evaluates. Every registered function keeps its declared type.\<close>

theorem registered_evaluation_type_sound:
  assumes "Evaluate (registry_env lib env) e t = Inr v"
  shows "expr_kind (registry_type lib) e = Some (value_kind v)"
  using evaluate_kind [OF registry_functions_typed] assms unfolding registry_env_def .

theorem registered_evaluation_type_sound_witness:
  "let e = CallExpr ''scalar'' [AggregateExpr COUNT (VectorSelector (mk_vector_selector ''up'' [])) [] False None]
   in Evaluate (registry_env example_lib example_env) e 61000 = Inr (ScalarValue 61000 1)
     \<and> expr_kind (registry_type example_lib) e = Some SCALAR"
proof -
  let ?e = "CallExpr ''scalar'' [AggregateExpr COUNT (VectorSelector (mk_vector_selector ''up'' [])) [] False None]"
  have "Evaluate (registry_env example_lib example_env) ?e 61000 = Inr (ScalarValue 61000 1)"
    by code_simp
  with registered_evaluation_type_sound [OF this] show ?thesis by simp
qed

text \<open>
  C26: The fast path of a range query for \<open>rate\<close> and \<open>increase\<close>, for a selector without a metric name (label matchers
  only) and with an offset that is not negative, over a
  storage whose selections succeed and return windows in time order: the points of the result at a step are what the instant
  query returns there for the series that have two samples in the window. A selector with a metric name is not covered:
  the fast path does not use the name.
\<close>

theorem range_rate_samples_instant:
  assumes "env_select env = Some sel" "range_source sel db" "0 \<le> selector_offset vs" "0 < d" "t \<in> set (steps a b d)"
    "f = ''rate'' \<or> f = ''increase''" "vs_name vs = []" "env_function env f = registry_function lib f" "env_fp env = lib_fp lib"
  shows "\<exists>m ss w. EvaluateRange env a b d (CallExpr f [MatrixSelector vs tok secs]) = Inr (MatrixValue m)
    \<and> Evaluate env (MatrixSelector vs tok secs) t = Inr (MatrixValue w)
    \<and> Evaluate env (CallExpr f [MatrixSelector vs tok secs]) t = Inr (VectorValue ss)
    \<and> points_at t m = long_series_points ss w"
  using assms by (rule range_rate_instant)

theorem range_rate_samples_instant_witness:
  "let env = registry_env example_lib example_env; e = CallExpr ''increase'' [MatrixSelector (mk_vector_selector [] []) no_token 300] in
   \<exists>m ss w. EvaluateRange env 60000 120000 60000 e = Inr (MatrixValue m)
     \<and> Evaluate env (MatrixSelector (mk_vector_selector [] []) no_token 300) 120000 = Inr (MatrixValue w)
     \<and> Evaluate env e 120000 = Inr (VectorValue ss) \<and> points_at 120000 m = long_series_points ss w"
  unfolding Let_def
proof (rule range_rate_samples_instant [OF _ example_source])
  show "120000 \<in> set (steps 60000 120000 60000)" by code_simp
  show "env_select (registry_env example_lib example_env) = Some (\<lambda>ms a b. Inr (in_window a b (example_db ms)))"
    by (simp add: registry_env_def example_env_def)
  show "env_fp (registry_env example_lib example_env) = lib_fp example_lib"
    by (simp add: registry_env_def example_env_def example_lib_def)
qed (simp_all add: registry_env_def selector_offset_def mk_vector_selector_def)

text \<open>C38: \<open>clamp\<close> with bounds in order returns every sample, in order, with a value between the bounds; a
  sample that is not a number comes out as the upper bound.\<close>

theorem clamp_within_bounds:
  assumes "\<not> double_is_nan lo" "\<not> double_is_nan hi" "double_le lo hi"
  shows "\<exists>rs. fn_clamp lib [VectorValue ss, ScalarValue t1 lo, ScalarValue t2 hi] t = Inr (VectorValue rs)
    \<and> map is_metric rs = map is_metric ss \<and> map is_time rs = map is_time ss
    \<and> (\<forall>r \<in> set rs. double_le lo (is_value r) \<and> double_le (is_value r) hi)"
proof -
  have "double_le lo (std_max lo (std_min hi v)) \<and> double_le (std_max lo (std_min hi v)) hi" for v
    using assms by (auto simp: std_max_def std_min_def double_le_def double_less_def double_eq_def)
  then show ?thesis
    by (simp add: fn_clamp_def with_vector_def with_scalar_def arg_def getVector_def getScalar_def bind_result_def comp_def)
qed

theorem clamp_within_bounds_witness:
  "\<exists>rs. fn_clamp example_lib [VectorValue [\<lparr>is_metric = [], is_time = 1, is_value = double_nan\<rparr>], ScalarValue 0 0, ScalarValue 0 double_one] 0
       = Inr (VectorValue rs)
     \<and> (\<forall>r \<in> set rs. double_le 0 (is_value r) \<and> double_le (is_value r) double_one)"
proof -
  have "\<not> double_is_nan 0" "\<not> double_is_nan double_one" "double_le 0 double_one" by code_simp+
  from clamp_within_bounds [OF this] show ?thesis by blast
qed

text \<open>the four extrapolation functions are never registered: the constructor of the registry does not call
  \<open>RegisterExtrapolationFunctions\<close>, so a query that uses one fails.\<close>

theorem extrapolation_functions_unknown:
  "n \<in> {''delta'', ''deriv'', ''predict_linear'', ''holt_winters''} \<Longrightarrow>
     Get n (RegisterExtrapolationFunctions lib []) \<noteq> None \<and> (\<forall>es t v. Evaluate (registry_env lib env) (CallExpr n es) t \<noteq> Inr v)"
  by (elim insertE emptyE) (simp_all add: registry_env_def EvaluateCall_def registry_function_def unregistered
      RegisterExtrapolationFunctions_def split: sum.split)

theorem extrapolation_functions_unknown_witness:
  "\<forall>es t v. Evaluate (registry_env example_lib example_env) (CallExpr ''delta'' es) t \<noteq> Inr v"
  using extrapolation_functions_unknown [of "''delta''"] by simp

text \<open>calls are not checked against the registered signature: a call without its argument indexes an empty
  vector.\<close>

theorem missing_argument_undefined:
  "Evaluate (registry_env lib env) (CallExpr ''rate'' []) t = undefined_behaviour"
  by (simp add: registry_env_def EvaluateCall_def registry_function_def registered_rates signature_def fn_rate_def
      rate_samples_def with_matrix_def arg_def undefined_behaviour_def bind_result_def)

end
