(* ===== verification/Query_Engine.thy ===== *)
theory Query_Engine
  imports Promql_Functions
begin

text \<open>
  The query engine (\<open>src/tsdb/prometheus/promql/engine.cpp\<close>): a query text goes through lexer and parser; an
  instant query is evaluated over the storage adapter, a range query first prefetches what its
  selectors may read and is evaluated over the buffer. Timers and the slow-query log are left out.
  An exception becomes the error text of the result.
\<close>

section \<open>Execution\<close>

record query_result =
  qr_value :: pvalue
  qr_warnings :: "string list"
  qr_error :: string

definition query_ok :: "pvalue \<Rightarrow> query_result" where
  "query_ok v = \<lparr>qr_value = v, qr_warnings = [], qr_error = []\<rparr>"

definition query_error :: "string \<Rightarrow> query_result" where
  "query_error e = \<lparr>qr_value = NoneValue, qr_warnings = [], qr_error = e\<rparr>"

definition hasError :: "query_result \<Rightarrow> bool" where
  "hasError r \<longleftrightarrow> qr_error r \<noteq> []"

definition execution_result :: "pvalue result \<Rightarrow> query_result" where
  "execution_result r = (case r of Inl e \<Rightarrow> query_error (''Execution error: '' @ e) | Inr v \<Rightarrow> query_ok v)"

primrec CollectSelectors :: "expr \<Rightarrow> (vector_selector \<times> int) list" where
  "CollectSelectors (NumberLiteral v) = []"
| "CollectSelectors (StringLiteral s) = []"
| "CollectSelectors (VectorSelector vs) = [(vs, 0)]"
| "CollectSelectors (MatrixSelector vs rng secs) = [(vs, sint secs * 1000)]"
| "CollectSelectors (BinaryExpr op l r m) = CollectSelectors l @ CollectSelectors r"
| "CollectSelectors (UnaryExpr op e) = CollectSelectors e"
| "CollectSelectors (ParenExpr e) = CollectSelectors e"
| "CollectSelectors (CallExpr f es) = concat (map CollectSelectors es)"
| "CollectSelectors (AggregateExpr op e ls without param) =
     CollectSelectors e @ (case map_option CollectSelectors param of None \<Rightarrow> [] | Some ss \<Rightarrow> ss)"
| "CollectSelectors (SubqueryExpr e sq) = CollectSelectors e"

definition prefetch_request ::
  "int \<Rightarrow> int \<Rightarrow> int \<Rightarrow> vector_selector \<times> int \<Rightarrow> model_matcher list \<times> int \<times> int" where
  "prefetch_request lookback_delta start_time end_time ctx =
     (case ctx of (vs, rng) \<Rightarrow>
        let lookback = (if rng = 0 then lookback_delta else rng)
        in (full_matchers vs, start_time - selector_offset vs - lookback, end_time - selector_offset vs))"

definition ExecuteInstant :: "(string \<Rightarrow> double option) \<Rightarrow> eval_env \<Rightarrow> string \<Rightarrow> int \<Rightarrow> query_result" where
  "ExecuteInstant stod env query t =
     (case parse_query stod query of
        Thrown e \<Rightarrow> query_error (''Execution error: '' @ e)
      | NoFuel \<Rightarrow> query_error ''parser did not return''
      | Done None p \<Rightarrow> query_error ''Failed to parse query''
      | Done (Some e) p \<Rightarrow> execution_result (Evaluate env e t))"

definition run_range :: "eval_env \<Rightarrow> expr \<Rightarrow> int \<Rightarrow> int \<Rightarrow> int \<Rightarrow> pvalue result" where
  "run_range env e start_time end_time step =
     (let sel = (case env_select env of None \<Rightarrow> (\<lambda>ms a b. undefined_behaviour) | Some s \<Rightarrow> s);
          requests = map (prefetch_request (env_lookback env) start_time end_time) (CollectSelectors e)
      in bind_result (Buffer_all sel requests []) (\<lambda>buf.
           EvaluateRange (env\<lparr>env_select := Some (Buffered_SelectSeries sel buf)\<rparr>) start_time end_time step e))"

definition ExecuteRange ::
  "(string \<Rightarrow> double option) \<Rightarrow> eval_env \<Rightarrow> string \<Rightarrow> int \<Rightarrow> int \<Rightarrow> int \<Rightarrow> query_result" where
  "ExecuteRange stod env query start_time end_time step =
     (if step \<le> 0 then query_error ''Zero or negative step is not allowed''
      else if end_time < start_time then query_error ''Start time cannot be after end time''
      else
        case parse_query stod query of
          Thrown e \<Rightarrow> query_error (''Execution error: '' @ e)
        | NoFuel \<Rightarrow> query_error ''parser did not return''
        | Done None p \<Rightarrow> query_error ''Failed to parse query''
        | Done (Some e) p \<Rightarrow> execution_result (run_range env e start_time end_time step))"

definition Engine_LabelValues :: "(string \<Rightarrow> string list) option \<Rightarrow> string \<Rightarrow> string list" where
  "Engine_LabelValues adapter n = (case adapter of None \<Rightarrow> [] | Some values \<Rightarrow> values n)"

section \<open>Evaluation reads only the selectors of the query\<close>

definition query_matchers :: "expr \<Rightarrow> model_matcher list set" where
  "query_matchers e = (\<Union>(vs, r) \<in> set (CollectSelectors e). {full_matchers vs, labelMatchers vs})"

abbreviation over :: "select \<Rightarrow> eval_env \<Rightarrow> eval_env" where
  "over sel env \<equiv> env\<lparr>env_select := Some sel\<rparr>"

lemma env_fields:
  "env_fp (env\<lparr>env_select := x\<rparr>) = env_fp env"
  "env_function (env\<lparr>env_select := x\<rparr>) = env_function env"
  "env_sort_samples (env\<lparr>env_select := x\<rparr>) = env_sort_samples env"
  "env_sort_doubles (env\<lparr>env_select := x\<rparr>) = env_sort_doubles env"
  by simp_all

lemma env_irrelevant:
  "EvaluateBinary (env\<lparr>env_select := x\<rparr>) = EvaluateBinary env"
  "EvaluateCall (env\<lparr>env_select := x\<rparr>) = EvaluateCall env"
  "aggregate_group (env\<lparr>env_select := x\<rparr>) = aggregate_group env"
  unfolding EvaluateBinary_def EvaluateCall_def aggregate_group_def env_fields by (rule refl)+

lemma aggregate_env: "AggregateVector (env\<lparr>env_select := x\<rparr>) = AggregateVector env"
  by (simp add: fun_eq_iff AggregateVector_def env_irrelevant split: sum.split prod.split)

lemma over_cong:
  "pushdown (over sel env) = pushdown (over sel' env)"
  "EvaluateSubquery (over sel env) = EvaluateSubquery (over sel' env)"
  by (simp_all add: fun_eq_iff pushdown_def EvaluateSubquery_def Let_def
      split: expr.split option.split sum.split pvalue.split)

lemma aggregate_over: "EvaluateAggregate (over sel env) = EvaluateAggregate (over sel' env)"
  by (simp add: fun_eq_iff EvaluateAggregate_def over_cong [of sel env sel'] aggregate_env
      split: option.split sum.split pvalue.split)

lemma evaluate_cong:
  assumes "\<And>ms. ms \<in> query_matchers e \<Longrightarrow> sel ms = sel' ms"
  shows "Evaluate (over sel env) e t = Evaluate (over sel' env) e t"
  using assms
proof (induction e arbitrary: t)
  case (VectorSelector vs)
  then show ?case by (simp add: EvaluateVectorSelector_def query_matchers_def)
next
  case (MatrixSelector vs rng secs)
  then show ?case by (simp add: EvaluateMatrixSelector_def query_matchers_def)
next
  case (BinaryExpr op l r m)
  then show ?case by (simp add: env_irrelevant query_matchers_def)
next
  case (CallExpr f es)
  have "map (\<lambda>e. Evaluate (over sel env) e t) es = map (\<lambda>e. Evaluate (over sel' env) e t) es"
    using CallExpr by (intro map_cong refl) (force simp: query_matchers_def)
  then show ?case by (simp only: Evaluate.simps env_irrelevant map_map comp_def)
next
  case (AggregateExpr op e ls without param)
  have "Evaluate (over sel env) e t = Evaluate (over sel' env) e t"
    using AggregateExpr by (simp add: query_matchers_def)
  moreover have "map_option (\<lambda>e. Evaluate (over sel env) e t) param = map_option (\<lambda>e. Evaluate (over sel' env) e t) param"
    using AggregateExpr by (cases param) (simp_all add: query_matchers_def)
  ultimately show ?case by (simp add: aggregate_over [of sel env sel'] option.map_comp comp_def)
next
  case (SubqueryExpr e sq)
  then have "Evaluate (over sel env) e = Evaluate (over sel' env) e" by (simp add: fun_eq_iff query_matchers_def)
  then show ?case by (simp add: over_cong(2) [of sel env sel'])
qed (simp_all add: query_matchers_def)

lemma range_default_cong:
  assumes "\<And>ms. ms \<in> query_matchers e \<Longrightarrow> sel ms = sel' ms"
  shows "EvaluateRangeDefault (Evaluate (over sel env) e) a b d = EvaluateRangeDefault (Evaluate (over sel' env) e) a b d"
proof -
  have "Evaluate (over sel env) e = Evaluate (over sel' env) e" by (intro ext evaluate_cong assms)
  then show ?thesis by simp
qed

lemma evaluate_range_cong:
  assumes "\<And>ms. ms \<in> query_matchers e \<Longrightarrow> sel ms = sel' ms"
  shows "EvaluateRange (over sel env) a b d e = EvaluateRange (over sel' env) a b d e"
  using assms
proof (induction e)
  case (VectorSelector vs)
  then show ?case by (simp add: EvaluateRangeVectorSelector_def query_matchers_def split: sum.split)
next
  case (CallExpr f es)
  have ev: "Evaluate (over sel env) (CallExpr f es) = Evaluate (over sel' env) (CallExpr f es)"
    by (intro ext evaluate_cong CallExpr.prems)
  have "EvaluateRangeCall (over sel env) f es ev a b d = EvaluateRangeCall (over sel' env) f es ev a b d" for ev
  proof (cases es)
    case (Cons e es')
    with CallExpr.prems show ?thesis
      by (cases e) (simp_all add: EvaluateRangeCall_def query_matchers_def Let_def split: sum.split)
  qed (simp add: EvaluateRangeCall_def)
  with ev show ?case by (simp del: Evaluate.simps)
next
  case (AggregateExpr op e ls without param)
  have "Evaluate (over sel env) (AggregateExpr op e ls without param) = Evaluate (over sel' env) (AggregateExpr op e ls without param)"
    by (intro ext evaluate_cong AggregateExpr.prems)
  moreover have "EvaluateRange (over sel env) a b d e = EvaluateRange (over sel' env) a b d e"
    using AggregateExpr by (simp add: query_matchers_def)
  moreover have "map_option (\<lambda>p. Evaluate (over sel env) p t) param = map_option (\<lambda>p. Evaluate (over sel' env) p t) param" for t
    using evaluate_cong [of _ sel sel'] AggregateExpr.prems by (cases param) (auto simp: query_matchers_def)
  ultimately show ?case by (simp add: aggregate_env del: Evaluate.simps)
next
  case (ParenExpr e)
  then show ?case by (simp add: query_matchers_def)
next
  case (NumberLiteral v)
  then show ?case by simp
qed (unfold EvaluateRange.simps, (rule range_default_cong; blast)+)

section \<open>Range queries over the buffer\<close>

lemma run_range_direct:
  assumes "env_select env = Some sel" "range_source sel db" "inj_on SerializeMatchers (query_matchers e)"
  shows "run_range env e a b d = EvaluateRange env a b d e"
proof -
  let ?requests = "map (prefetch_request (env_lookback env) a b) (CollectSelectors e)"
  have "fst ` set ?requests \<subseteq> query_matchers e"
    by (auto simp: prefetch_request_def query_matchers_def Let_def)
  moreover have "buffer_ok db (query_matchers e) []" by (simp add: buffer_ok_def)
  ultimately obtain buf where buf: "Buffer_all sel ?requests [] = Inr buf" "buffer_ok db (query_matchers e) buf"
    using Buffer_all_ok [OF _ assms(2,3)] by blast
  have "Buffered_SelectSeries sel buf ms = sel ms" if "ms \<in> query_matchers e" for ms
    using buffered_select [OF buf(2) assms(2) that] by blast
  then have "EvaluateRange (over (Buffered_SelectSeries sel buf) env) a b d e = EvaluateRange (over sel env) a b d e"
    by (rule evaluate_range_cong)
  moreover have "over sel env = env" using assms(1) by simp
  ultimately show ?thesis using buf(1) assms(1) by (simp add: run_range_def bind_result_def)
qed

text \<open>
  C20: A range query end to end. Let the storage be a source of windows (every selection succeeds and returns the samples of the
  window, each series in time order) and let the buffer's cache keys tell the matcher lists of the query apart. Then, for a query that parses, a
  positive step and start not after end, prefetching into the buffer and evaluating over it gives the result of
  evaluating the parsed expression directly over the storage. Equal keys of different matchers, and a storage that
  errors or cuts off results, are outside the theorem.
\<close>

theorem range_query_buffer_transparent:
  assumes "parse_query stod q = Done (Some e) p" "0 < d" "a \<le> b"
    "env_select env = Some sel" "range_source sel db" "inj_on SerializeMatchers (query_matchers e)"
  shows "ExecuteRange stod env q a b d = execution_result (EvaluateRange env a b d e)"
  using assms run_range_direct [OF assms(4-6)] by (simp add: ExecuteRange_def)

theorem range_query_buffer_transparent_witness:
  "ExecuteRange (\<lambda>s. None) (registry_env example_lib example_env) ''up'' 60000 120000 60000
     = execution_result (EvaluateRange (registry_env example_lib example_env) 60000 120000 60000
         (VectorSelector (mk_vector_selector ''up'' [])))"
proof -
  have "case parse_query (\<lambda>s. None) ''up'' of Done (Some e) p \<Rightarrow> e = VectorSelector (mk_vector_selector ''up'' []) | _ \<Rightarrow> False"
    by code_simp
  then obtain p where parsed: "parse_query (\<lambda>s. None) ''up'' = Done (Some (VectorSelector (mk_vector_selector ''up'' []))) p"
    by (auto split: outcome.splits option.splits)
  have "query_matchers (VectorSelector (mk_vector_selector ''up'' []))
      = {[\<lparr>mm_type = EQUAL, mm_name = ''__name__'', mm_value = ''up''\<rparr>], []}"
    by (simp add: query_matchers_def full_matchers_def mk_vector_selector_def)
  then have "inj_on SerializeMatchers (query_matchers (VectorSelector (mk_vector_selector ''up'' [])))"
    by (simp add: SerializeMatchers_def)
  with range_query_buffer_transparent [OF parsed _ _ _ example_source] show ?thesis
    by (simp add: registry_env_def example_env_def)
qed

text \<open>the parser accepts a unary minus and every evaluation of it fails, so the query returns an error whatever
  is stored.\<close>

theorem unary_minus_never_evaluates:
  "ExecuteInstant stod env ''-up'' t = query_error ''Execution error: Unary expressions not implemented yet''"
proof -
  have "case parse_query stod ''-up'' of Done (Some (UnaryExpr op e)) p \<Rightarrow> True | _ \<Rightarrow> False"
    by code_simp
  then obtain op e p where "parse_query stod ''-up'' = Done (Some (UnaryExpr op e)) p"
    by (auto split: outcome.splits option.splits expr.splits)
  then show ?thesis by (simp add: ExecuteInstant_def execution_result_def EvaluateUnary_def)
qed

end
