(* ===== verification/Storage_Engine.thy ===== *)
theory Storage_Engine
  imports Series_Store Sharded_Index Sharded_Wal Cache_Hierarchy Block_Manager
begin

text \<open>
  \<open>StorageImpl\<close> (\<open>src/tsdb/storage/storage_impl.cpp\<close>): the storage engine over the sharded log, the
  sharded index, the active series, the cache hierarchy and the block manager. Every operation
  is one step on the state of all of them. An operation that touches a freed object has no result;
  a write can also have to wait for room in its log queue. Library code is a parameter: \<open>std::hash\<close>,
  \<open>std::sort\<close>, the posting lists, regular expressions, the operating system's answer to opening a
  path, the order of directory and hash map iteration, and the clocks. Without a caller in the code
  and left out: the block written by \<open>write_to_block\<close>; \<open>current_block_\<close> is always null. Left out as
  calls into the Parquet library: the background flush and compaction.
\<close>

section \<open>State\<close>

record 'p engine_env =
  env_hash :: "string \<Rightarrow> uint64"
  env_sort :: "sample list \<Rightarrow> sample list"
  env_sort_headers :: "block_header list \<Rightarrow> block_header list"
  env_posting :: "'p posting_ops"
  env_regex :: regex_lib
  env_opens :: "string \<Rightarrow> bool"
  env_can_create :: "string \<Rightarrow> bool"
  env_order :: "uint64 list \<Rightarrow> uint64 list"
  env_dir_order :: "disk \<Rightarrow> disk"
  env_max_vector :: nat
  env_stack :: block_header

record 'p engine =
  initialized :: bool
  e_index :: "'p sharded_index"
  e_wal :: sharded_wal
  active_series :: "(uint64 \<times> stored_series) list"
  series_time_bounds :: "(uint64 \<times> int64 \<times> int64) list"
  cache_hierarchy :: "hierarchy option"
  series_heap :: heap
  next_series :: nat
  e_alloc :: block_alloc
  series_blocks :: "(uint64 \<times> block_ref list) list"
  label_to_blocks :: "(labels \<times> block_ref list) list"
  block_to_series :: "(nat \<times> uint64 list) list"
  block_seal_times :: "(nat \<times> int) list"
  e_blocks :: block_manager

text \<open>What a call does: it returns, it throws, it waits, or the behaviour is undefined.\<close>

datatype 'a run = Returns 'a | Throws string | Blocks | Undefined

definition what :: "exn \<Rightarrow> string" where
  "what e = (case e of InvalidArgumentError s \<Rightarrow> s)"

definition calculate_series_id :: "('p, 'x) engine_env_scheme \<Rightarrow> labels \<Rightarrow> uint64" where
  "calculate_series_id env l = env_hash env (labels_to_string l)"

section \<open>The cache of the engine\<close>

definition on_cache ::
  "(hstate \<Rightarrow> 'a outcome) \<Rightarrow> 'a \<Rightarrow> 'p engine \<Rightarrow> ((exn + 'a) \<times> 'p engine) option" where
  "on_cache f absent e =
     (case cache_hierarchy e of
        None \<Rightarrow> Some (Inr absent, e)
      | Some H \<Rightarrow>
          (case f (H, series_heap e) of
             None \<Rightarrow> None
           | Some (r, H', h) \<Rightarrow> Some (r, e\<lparr>cache_hierarchy := Some H', series_heap := h\<rparr>)))"

definition lookup_series :: "int \<Rightarrow> uint64 \<Rightarrow> 'p engine \<Rightarrow> ((exn + nat option) \<times> 'p engine) option" where
  "lookup_series now i e = on_cache (hierarchy_get now i) None e"

text \<open>\<open>std::make_shared<core::TimeSeries>(series)\<close> and \<open>cache_hierarchy_->put\<close>.\<close>

definition put_copy ::
  "('p, 'x) engine_env_scheme \<Rightarrow> int \<Rightarrow> uint64 \<Rightarrow> time_series \<Rightarrow> 'p engine \<Rightarrow> ((exn + bool) \<times> 'p engine) option" where
  "put_copy env now i ts e =
     on_cache (hierarchy_put now (env_order env) i (Some (next_series e))) False
       (e\<lparr>series_heap := (series_heap e)(next_series e \<mapsto> ts), next_series := Suc (next_series e)\<rparr>)"

section \<open>Writing\<close>

fun append_all ::
  "block_alloc \<Rightarrow> sample list \<Rightarrow> stored_series \<Rightarrow> (bool \<times> stored_series \<times> block_alloc) option" where
  "append_all a [] ser = Some (False, ser, a)"
| "append_all a (s # ss) ser =
     (case series_append a s ser of
        (None, ser', a') \<Rightarrow> None
      | (Some full, ser', a') \<Rightarrow> map_option (\<lambda>(f, r). (full \<or> f, r)) (append_all a' ss ser'))"

definition int64_max :: int64 where "int64_max = 0x7FFFFFFFFFFFFFFF"
definition int64_min :: int64 where "int64_min = 0x8000000000000000"

definition payload_bounds :: "sample list \<Rightarrow> int64 \<times> int64" where
  "payload_bounds ss =
     foldl (\<lambda>(lo, hi) s. (if sint (timestamp s) < sint lo then timestamp s else lo,
                          if sint hi < sint (timestamp s) then timestamp s else hi)) (int64_max, int64_min) ss"

definition widen_bounds ::
  "uint64 \<Rightarrow> int64 \<times> int64 \<Rightarrow> (uint64 \<times> int64 \<times> int64) list \<Rightarrow> (uint64 \<times> int64 \<times> int64) list" where
  "widen_bounds i b m =
     (case map_of m i of
        None \<Rightarrow> smap_insert i b m
      | Some (lo, hi) \<Rightarrow> smap_insert i (if sint (fst b) < sint lo then fst b else lo,
                                         if sint hi < sint (snd b) then snd b else hi) m)"

definition update_bounds :: "uint64 \<Rightarrow> sample list \<Rightarrow> 'p engine \<Rightarrow> 'p engine" where
  "update_bounds i ss e =
     (if fst (payload_bounds ss) = int64_max then e
      else e\<lparr>series_time_bounds := widen_bounds i (payload_bounds ss) (series_time_bounds e)\<rparr>)"

definition new_series :: "uint64 \<Rightarrow> labels \<Rightarrow> stored_series" where
  "new_series i l = mk_series \<lparr>md_id = i, md_labels = l, md_type = GAUGE,
     md_granularity = \<lparr>interval = 0, retention = 0\<rparr>\<rparr>"

text \<open>\<open>active_series_.insert\<close>; a new series is entered in the index.\<close>

definition find_or_create ::
  "('p, 'x) engine_env_scheme \<Rightarrow> uint64 \<Rightarrow> labels \<Rightarrow> 'p engine \<Rightarrow> stored_series \<times> 'p engine" where
  "find_or_create env i l e =
     (case map_of (active_series e) i of
        Some ser \<Rightarrow> (ser, e)
      | None \<Rightarrow> (new_series i l, e\<lparr>e_index := sharded_add_series (env_posting env) i l (e_index e)\<rparr>))"

definition store_series :: "uint64 \<Rightarrow> stored_series \<Rightarrow> 'p engine \<Rightarrow> 'p engine" where
  "store_series i ser e = e\<lparr>active_series := smap_insert i ser (active_series e)\<rparr>"

definition push_block :: "'k :: linorder \<Rightarrow> block_ref \<Rightarrow> ('k \<times> block_ref list) list \<Rightarrow> ('k \<times> block_ref list) list" where
  "push_block k r m = smap_insert k ((case map_of m k of None \<Rightarrow> [] | Some rs \<Rightarrow> rs) @ [r]) m"

definition link_block :: "uint64 \<Rightarrow> labels \<Rightarrow> block_ref \<Rightarrow> 'p engine \<Rightarrow> 'p engine" where
  "link_block i l r e =
     e\<lparr>series_blocks := push_block i r (series_blocks e),
       block_to_series := smap_insert (addr r)
         (List.insert i (case map_of (block_to_series e) (addr r) of None \<Rightarrow> [] | Some is \<Rightarrow> is)) (block_to_series e),
       label_to_blocks := push_block l r (label_to_blocks e)\<rparr>"

text \<open>A sealed block goes to the block manager; when it is on disk the engine's maps learn of it.\<close>

definition persist_block ::
  "('p, 'x) engine_env_scheme \<Rightarrow> int \<Rightarrow> uint64 \<Rightarrow> labels \<Rightarrow> block_ref \<Rightarrow> 'p engine \<Rightarrow> 'p engine" where
  "persist_block env wall i l r e =
     (case seal_and_persist_block (env_opens env) (Some (obj r)) (e_blocks e) of
        (Inl _, m) \<Rightarrow> e\<lparr>e_blocks := m\<rparr>
      | (Inr _, m) \<Rightarrow>
          (link_block i l r (e\<lparr>e_blocks := m\<rparr>))
            \<lparr>block_seal_times := smap_insert (addr r) wall (block_seal_times e)\<rparr>)"

definition seal_full ::
  "('p, 'x) engine_env_scheme \<Rightarrow> int \<Rightarrow> uint64 \<Rightarrow> labels \<Rightarrow> stored_series \<Rightarrow> 'p engine \<Rightarrow> 'p engine" where
  "seal_full env wall i l ser e =
     (case seal_block ser of
        (None, ser') \<Rightarrow> store_series i ser' e
      | (Some r, ser') \<Rightarrow> persist_block env wall i l r (store_series i ser' e))"

text \<open>The part of \<open>write\<close> after the log call. A failed log call is only reported.\<close>

definition write_in_memory ::
  "('p, 'x) engine_env_scheme \<Rightarrow> int \<Rightarrow> int \<Rightarrow> time_series \<Rightarrow> 'p engine \<Rightarrow> (unit result \<times> 'p engine) run" where
  "write_in_memory env now wall ts e =
     (let i = calculate_series_id env (ts_labels ts); (ser, e1) = find_or_create env i (ts_labels ts) e
      in case append_all (e_alloc e1) (ts_samples ts) ser of
           None \<Rightarrow> Undefined
         | Some (full, ser', a) \<Rightarrow>
             let e2 = update_bounds i (ts_samples ts) ((store_series i ser' e1)\<lparr>e_alloc := a\<rparr>)
             in case put_copy env now i ts e2 of
                  None \<Rightarrow> Undefined
                | Some (Inl ex, e3) \<Rightarrow> Returns (Inl (''Write failed: '' @ what ex), e3)
                | Some (Inr _, e3) \<Rightarrow>
                    Returns (Inr (), if full then seal_full env wall i (ts_labels ts) ser' e3 else e3))"

definition engine_write ::
  "('p, 'x) engine_env_scheme \<Rightarrow> int \<Rightarrow> int \<Rightarrow> time_series \<Rightarrow> 'p engine \<Rightarrow> (unit result \<times> 'p engine) run" where
  "engine_write env now wall ts e =
     (if \<not> initialized e then Returns (Inl ''Storage not initialized'', e)
      else if ts_empty ts then Returns (Inl ''Cannot write empty time series'', e)
      else if ts_labels ts = [] then Returns (Inl ''Cannot write series with empty labels'', e)
      else
        (case sharded_log (env_hash env) ts (e_wal e) of
           None \<Rightarrow> Blocks
         | Some (_, w) \<Rightarrow> write_in_memory env now wall ts (e\<lparr>e_wal := w\<rparr>)))"

section \<open>Reading one series\<close>

definition filter_series_to_time_range :: "time_series \<Rightarrow> int64 \<Rightarrow> int64 \<Rightarrow> exn + time_series" where
  "filter_series_to_time_range source t0 t1 =
     add_samples (filter (in_range t0 t1) (ts_samples source)) (mk_time_series (ts_labels source))"

text \<open>The column loop of \<open>read_from_blocks_nolock\<close>: a timestamp in range without a value is an access
  behind the vector.\<close>

fun columns_in_range :: "int64 \<Rightarrow> int64 \<Rightarrow> int64 list \<Rightarrow> double list \<Rightarrow> sample list option" where
  "columns_in_range t0 t1 [] vs = Some []"
| "columns_in_range t0 t1 (t # ts) vs =
     (let rest = columns_in_range t0 t1 ts (drop 1 vs)
      in if sint t0 \<le> sint t \<and> sint t \<le> sint t1 then
           (case vs of [] \<Rightarrow> None | v # _ \<Rightarrow> map_option (Cons (mk_sample t v)) rest)
         else rest)"

fun collect_columns :: "labels \<Rightarrow> int64 \<Rightarrow> int64 \<Rightarrow> block_ref list \<Rightarrow> sample list option" where
  "collect_columns l t0 t1 [] = Some []"
| "collect_columns l t0 t1 (r # rs) =
     (if sint (end_time (header (obj r))) < sint t0 \<or> sint t1 < sint (start_time (header (obj r)))
      then collect_columns l t0 t1 rs
      else
        (case read_columns l (obj r) of
           None \<Rightarrow> None
         | Some (ts, vs) \<Rightarrow>
             (case columns_in_range t0 t1 ts vs of
                None \<Rightarrow> None
              | Some ss \<Rightarrow> map_option ((@) ss) (collect_columns l t0 t1 rs))))"

text \<open>The loop over the sorted samples, which skips equal timestamps.\<close>

fun add_later :: "sample list \<Rightarrow> int64 \<Rightarrow> time_series \<Rightarrow> exn + time_series" where
  "add_later [] last_ts ts = Inr ts"
| "add_later (s # ss) last_ts ts =
     (if ts_empty ts \<or> sint last_ts < sint (timestamp s) then
        (case add_sample s ts of Inl e \<Rightarrow> Inl e | Inr ts' \<Rightarrow> add_later ss (timestamp s) ts')
      else add_later ss last_ts ts)"

definition read_from_blocks_nolock ::
  "('p, 'x) engine_env_scheme \<Rightarrow> labels \<Rightarrow> int64 \<Rightarrow> int64 \<Rightarrow> 'p engine \<Rightarrow> time_series result option" where
  "read_from_blocks_nolock env l t0 t1 e =
     (case map_of (series_blocks e) (calculate_series_id env l) of
        None \<Rightarrow> Some (Inr (mk_time_series l))
      | Some rs \<Rightarrow>
          map_option (\<lambda>ss. map_sum (\<lambda>ex. ''Block read failed: '' @ what ex) id
              (add_later (env_sort env ss) (-1) (mk_time_series l)))
            (collect_columns l t0 t1 rs))"

text \<open>The last part of \<open>read_nolock\<close>: blocks, and what is found goes to the cache.\<close>

definition read_persisted ::
  "('p, 'x) engine_env_scheme \<Rightarrow> int \<Rightarrow> labels \<Rightarrow> int64 \<Rightarrow> int64 \<Rightarrow> 'p engine \<Rightarrow> (time_series result \<times> 'p engine) option" where
  "read_persisted env now l t0 t1 e =
     (case read_from_blocks_nolock env l t0 t1 e of
        None \<Rightarrow> None
      | Some (Inl _) \<Rightarrow> Some (Inr (mk_time_series l), e)
      | Some (Inr ts) \<Rightarrow>
          if ts_empty ts then Some (Inr ts, e)
          else
            (case put_copy env now (calculate_series_id env l) ts e of
               None \<Rightarrow> None
             | Some (Inl ex, e1) \<Rightarrow> Some (Inl (''Read failed: '' @ what ex), e1)
             | Some (Inr _, e1) \<Rightarrow> Some (Inr ts, e1)))"

definition read_active ::
  "('p, 'x) engine_env_scheme \<Rightarrow> int \<Rightarrow> labels \<Rightarrow> int64 \<Rightarrow> int64 \<Rightarrow> 'p engine \<Rightarrow> (time_series result \<times> 'p engine) option" where
  "read_active env now l t0 t1 e =
     (case map_of (active_series e) (calculate_series_id env l) of
        None \<Rightarrow> read_persisted env now l t0 t1 e
      | Some ser \<Rightarrow>
          (case series_read (env_sort env) t0 t1 ser of
             None \<Rightarrow> None
           | Some ss \<Rightarrow>
               (case add_samples ss (mk_time_series l) of
                  Inl ex \<Rightarrow> Some (Inl (''Failed to add sample to result: '' @ what ex), e)
                | Inr ts \<Rightarrow>
                    if ts_empty ts then Some (Inr ts, e)
                    else
                      (case put_copy env now (calculate_series_id env l) ts e of
                         None \<Rightarrow> None
                       | Some (Inl _, e1) \<Rightarrow> read_persisted env now l t0 t1 e1
                       | Some (Inr _, e1) \<Rightarrow> Some (Inr ts, e1)))))"

definition read_nolock ::
  "('p, 'x) engine_env_scheme \<Rightarrow> int \<Rightarrow> labels \<Rightarrow> int64 \<Rightarrow> int64 \<Rightarrow> 'p engine \<Rightarrow> (time_series result \<times> 'p engine) option" where
  "read_nolock env now l t0 t1 e =
     (case lookup_series now (calculate_series_id env l) e of
        None \<Rightarrow> None
      | Some (Inl ex, e1) \<Rightarrow> Some (Inl (''Read failed: '' @ what ex), e1)
      | Some (Inr None, e1) \<Rightarrow> read_active env now l t0 t1 e1
      | Some (Inr (Some p), e1) \<Rightarrow>
          (case series_heap e1 p of
             None \<Rightarrow> None
           | Some source \<Rightarrow>
               Some (map_sum (\<lambda>ex. ''Read failed: '' @ what ex) id (filter_series_to_time_range source t0 t1), e1)))"

definition engine_read ::
  "('p, 'x) engine_env_scheme \<Rightarrow> int \<Rightarrow> labels \<Rightarrow> int64 \<Rightarrow> int64 \<Rightarrow> 'p engine \<Rightarrow> (time_series result \<times> 'p engine) option" where
  "engine_read env now l t0 t1 e =
     (if \<not> initialized e then Some (Inl ''Storage not initialized'', e)
      else if sint t1 < sint t0 then
        Some (Inl ''Invalid time range: start_time must be less than or equal to end_time'', e)
      else read_nolock env now l t0 t1 e)"

text \<open>The samples handed to the callback of \<open>read_samples_nolock\<close>.\<close>

definition read_samples_nolock ::
  "('p, 'x) engine_env_scheme \<Rightarrow> int \<Rightarrow> uint64 \<Rightarrow> int64 \<Rightarrow> int64 \<Rightarrow> 'p engine \<Rightarrow>
     (unit result \<times> sample list \<times> 'p engine) option" where
  "read_samples_nolock env now i t0 t1 e =
     (case lookup_series now i e of
        None \<Rightarrow> None
      | Some (Inl ex, e1) \<Rightarrow> Some (Inl (''Read samples failed: '' @ what ex), [], e1)
      | Some (Inr (Some p), e1) \<Rightarrow>
          map_option (\<lambda>source. (Inr (), filter (in_range t0 t1) (ts_samples source), e1)) (series_heap e1 p)
      | Some (Inr None, e1) \<Rightarrow>
          (case map_of (active_series e1) i of
             Some ser \<Rightarrow> map_option (\<lambda>ss. (Inr (), ss, e1)) (series_read (env_sort env) t0 t1 ser)
           | None \<Rightarrow>
               (case sharded_get_labels i (e_index e1) of
                  Inl _ \<Rightarrow> Some (Inr (), [], e1)
                | Inr l \<Rightarrow>
                    (case read_from_blocks_nolock env l t0 t1 e1 of
                       None \<Rightarrow> None
                     | Some (Inl _) \<Rightarrow> Some (Inr (), [], e1)
                     | Some (Inr ts) \<Rightarrow>
                         if ts_empty ts then Some (Inr (), [], e1)
                         else
                           (case put_copy env now i ts e1 of
                              None \<Rightarrow> None
                            | Some (Inl ex, e2) \<Rightarrow> Some (Inl (''Read samples failed: '' @ what ex), ts_samples ts, e2)
                            | Some (Inr _, e2) \<Rightarrow> Some (Inr (), ts_samples ts, e2))))))"

section \<open>Queries\<close>

definition outside_bounds :: "uint64 \<Rightarrow> int64 \<Rightarrow> int64 \<Rightarrow> 'p engine \<Rightarrow> bool" where
  "outside_bounds i t0 t1 e =
     (case map_of (series_time_bounds e) i of
        None \<Rightarrow> False
      | Some (lo, hi) \<Rightarrow> sint hi < sint t0 \<or> sint t1 < sint lo)"

text \<open>The loop of \<open>query\<close>; \<open>late k\<close> is what the \<open>k\<close>-th check of the timeout says.\<close>

fun run_query ::
  "('p, 'x) engine_env_scheme \<Rightarrow> int \<Rightarrow> (nat \<Rightarrow> bool) \<Rightarrow> int64 \<Rightarrow> int64 \<Rightarrow> (uint64 \<times> labels) list \<Rightarrow> nat \<Rightarrow> nat \<Rightarrow>
     time_series list \<Rightarrow> 'p engine \<Rightarrow> (time_series list \<times> 'p engine) option" where
  "run_query env now late t0 t1 [] k checked results e = Some (results, e)"
| "run_query env now late t0 t1 ((i, l) # rest) k checked results e =
     (if late k \<or> 1000 \<le> length results \<or> 1500 \<le> checked then Some (results, e)
      else if outside_bounds i t0 t1 e
      then run_query env now late t0 t1 rest (k + 1) (checked + 1) results e
      else if late (k + 1) then Some (results, e)
      else
        (case read_nolock env now l t0 t1 e of
           None \<Rightarrow> None
         | Some (r, e1) \<Rightarrow>
             let results' = (case r of Inl _ \<Rightarrow> results | Inr ts \<Rightarrow> if ts_empty ts then results else results @ [ts])
             in if late (k + 2) then Some (results', e1)
                else run_query env now late t0 t1 rest (k + 3) (checked + 1) results' e1))"

definition engine_query ::
  "('p, 'x) engine_env_scheme \<Rightarrow> int \<Rightarrow> (nat \<Rightarrow> bool) \<Rightarrow> label_matcher list \<Rightarrow> int64 \<Rightarrow> int64 \<Rightarrow> 'p engine \<Rightarrow>
     (time_series list result \<times> 'p engine) option" where
  "engine_query env now late ms t0 t1 e =
     (if \<not> initialized e then Some (Inl ''Storage not initialized'', e)
      else if sint t1 \<le> sint t0 then
        Some (Inl ''Invalid time range: start_time must be less than end_time'', e)
      else
        let (found, ix) = sharded_find_series_with_labels (env_posting env) (env_regex env) ms (e_index e)
        in map_option (\<lambda>(results, e1). (Inr results, e1))
             (run_query env now late t0 t1 found 0 0 [] (e\<lparr>e_index := ix\<rparr>)))"

text \<open>\<open>std::set\<close> of strings, iterated in order.\<close>

definition string_set :: "string list \<Rightarrow> string list" where
  "string_set xs = sort (remdups xs)"

definition all_labels :: "('p, 'x) engine_env_scheme \<Rightarrow> 'p engine \<Rightarrow> labels list \<times> 'p engine" where
  "all_labels env e =
     (let (ids, ix) = sharded_find_series (env_posting env) (env_regex env) [] (e_index e)
      in (map (\<lambda>(i, ser). md_labels (metadata ser)) (active_series e)
          @ concat (map (\<lambda>i. case sharded_get_labels i ix of Inl _ \<Rightarrow> [] | Inr l \<Rightarrow> [l]) ids),
          e\<lparr>e_index := ix\<rparr>))"

definition label_names ::
  "('p, 'x) engine_env_scheme \<Rightarrow> 'p engine \<Rightarrow> string list result \<times> 'p engine" where
  "label_names env e =
     (if \<not> initialized e then (Inl ''Storage not initialized'', e)
      else let (ls, e') = all_labels env e in (Inr (string_set (concat (map (map fst) ls))), e'))"

definition label_values ::
  "('p, 'x) engine_env_scheme \<Rightarrow> string \<Rightarrow> 'p engine \<Rightarrow> string list result \<times> 'p engine" where
  "label_values env name e =
     (if \<not> initialized e then (Inl ''Storage not initialized'', e)
      else let (ls, e') = all_labels env e
           in (Inr (string_set (List.map_filter (\<lambda>l. map_of l name) ls)), e'))"

section \<open>Deletion\<close>

definition forget_series :: "uint64 \<Rightarrow> 'p engine \<Rightarrow> 'p engine" where
  "forget_series i e =
     e\<lparr>active_series := smap_erase i (active_series e), series_blocks := smap_erase i (series_blocks e),
       series_time_bounds := smap_erase i (series_time_bounds e)\<rparr>"

fun delete_all ::
  "('p, 'x) engine_env_scheme \<Rightarrow> uint64 list \<Rightarrow> 'p engine \<Rightarrow> (unit result \<times> 'p engine) option" where
  "delete_all env [] e = Some (Inr (), e)"
| "delete_all env (i # is) e =
     (case on_cache (hierarchy_remove i) False (forget_series i e) of
        None \<Rightarrow> None
      | Some (Inl ex, e1) \<Rightarrow> Some (Inl (''Delete series failed: '' @ what ex), e1)
      | Some (Inr _, e1) \<Rightarrow>
          delete_all env is (e1\<lparr>e_index := sharded_remove_series (env_posting env) i (e_index e1)\<rparr>))"

definition delete_series ::
  "('p, 'x) engine_env_scheme \<Rightarrow> label_matcher list \<Rightarrow> 'p engine \<Rightarrow> (unit result \<times> 'p engine) option" where
  "delete_series env ms e =
     (if \<not> initialized e then Some (Inl ''Storage not initialized'', e)
      else
        let (ids, ix) = sharded_find_series (env_posting env) (env_regex env) ms (e_index e)
        in delete_all env ids (e\<lparr>e_index := ix\<rparr>))"

section \<open>Flush, compaction, close\<close>

text \<open>\<open>sealed_block->flush()\<close> changes the object that the series points to as well.\<close>

definition mutate_block :: "block_ref \<Rightarrow> stored_series \<Rightarrow> stored_series" where
  "mutate_block r ser =
     ser\<lparr>blocks := map (\<lambda>b. if map_option addr b = Some (addr r) then Some r else b) (blocks ser)\<rparr>"

definition flush_series ::
  "('p, 'x) engine_env_scheme \<Rightarrow> int \<Rightarrow> uint64 \<times> stored_series \<Rightarrow> 'p engine \<Rightarrow> 'p engine" where
  "flush_series env wall entry e =
     (case seal_block (snd entry) of
        (None, ser') \<Rightarrow> e
      | (Some r, ser') \<Rightarrow>
          let r' = r\<lparr>obj := block_flush (obj r)\<rparr>; ser'' = mutate_block r' ser'
          in persist_block env wall (md_id (metadata ser'')) (md_labels (metadata ser'')) r'
               (store_series (fst entry) ser'' e))"

definition flush_nolock :: "('p, 'x) engine_env_scheme \<Rightarrow> int \<Rightarrow> 'p engine \<Rightarrow> unit result \<times> 'p engine" where
  "flush_nolock env wall e =
     (let e1 = fold (flush_series env wall) (active_series e) e; (r, m) = bm_flush (e_blocks e1)
      in (r, e1\<lparr>e_blocks := m\<rparr>))"

definition engine_flush :: "('p, 'x) engine_env_scheme \<Rightarrow> int \<Rightarrow> 'p engine \<Rightarrow> unit result \<times> 'p engine" where
  "engine_flush env wall e =
     (if \<not> initialized e then (Inl ''Storage not initialized'', e) else flush_nolock env wall e)"

definition engine_compact :: "('p, 'x) engine_env_scheme \<Rightarrow> 'p engine \<Rightarrow> unit result \<times> 'p engine" where
  "engine_compact env e =
     (if \<not> initialized e then (Inl ''Storage not initialized'', e)
      else let (r, m) = compact (env_opens env) (env_stack env) (e_blocks e) in (r, e\<lparr>e_blocks := m\<rparr>))"

definition close_series ::
  "('p, 'x) engine_env_scheme \<Rightarrow> uint64 \<times> stored_series \<Rightarrow> 'p engine \<Rightarrow> 'p engine" where
  "close_series env entry e =
     (case seal_block (snd entry) of
        (None, ser') \<Rightarrow> e
      | (Some r, ser') \<Rightarrow>
          (store_series (fst entry) ser' e)
            \<lparr>e_blocks := snd (seal_and_persist_block (env_opens env) (Some (obj r)) (e_blocks e))\<rparr>)"

text \<open>\<open>close\<close> keeps the log, the index, the block manager and the cache with its contents.\<close>

definition engine_close :: "('p, 'x) engine_env_scheme \<Rightarrow> int \<Rightarrow> 'p engine \<Rightarrow> unit result \<times> 'p engine" where
  "engine_close env wall e =
     (if \<not> initialized e then (Inr (), e)
      else
        let e1 = snd (flush_nolock env wall e);
            e2 = e1\<lparr>cache_hierarchy := map_option stop_background_processing (cache_hierarchy e1)\<rparr>;
            e3 = fold (close_series env) (active_series e2) e2
        in (Inr (), e3\<lparr>active_series := [], series_blocks := [], series_time_bounds := [],
             label_to_blocks := [], block_to_series := [], initialized := False\<rparr>))"

section \<open>Initialisation and recovery\<close>

record engine_config =
  cfg_data_dir :: string
  cfg_background :: bool

text \<open>The engine before \<open>init\<close> in a new process. The pointers to the index, the log and the block
  manager are null; nothing reads them before \<open>init\<close> has set them.\<close>

definition mk_engine :: "block_header \<Rightarrow> 'p engine" where
  "mk_engine stack =
     \<lparr>initialized = False, e_index = mk_sharded_index 0,
      e_wal = \<lparr>wal_shards = [], total_writes = 0, total_bytes = 0, total_errors = 0\<rparr>,
      active_series = [], series_time_bounds = [], cache_hierarchy = None, series_heap = Map.empty,
      next_series = 0,
      e_alloc = \<lparr>global_block_id_counter = 1, next_addr = 0, stack_header = stack\<rparr>,
      series_blocks = [], label_to_blocks = [], block_to_series = [], block_seal_times = [],
      e_blocks = \<lparr>data_dir = [], block_tiers = [], local_id_counter = 1000000, disk_of = []\<rparr>\<rparr>"

text \<open>The callback of the log replay.\<close>

definition replay_series ::
  "('p, 'x) engine_env_scheme \<Rightarrow> time_series \<Rightarrow> 'p engine \<Rightarrow> 'p engine option" where
  "replay_series env ts e =
     (let i = calculate_series_id env (ts_labels ts); (ser, e1) = find_or_create env i (ts_labels ts) e
      in map_option (\<lambda>(full, ser', a). update_bounds i (ts_samples ts) ((store_series i ser' e1)\<lparr>e_alloc := a\<rparr>))
           (append_all (e_alloc e1) (ts_samples ts) ser))"

fun replay_all ::
  "('p, 'x) engine_env_scheme \<Rightarrow> time_series list \<Rightarrow> 'p engine \<Rightarrow> 'p engine option" where
  "replay_all env [] e = Some e"
| "replay_all env (ts # tss) e = Option.bind (replay_series env ts e) (replay_all env tss)"

definition recover_labels ::
  "('p, 'x) engine_env_scheme \<Rightarrow> block_ref \<Rightarrow> labels \<Rightarrow> 'p engine \<Rightarrow> 'p engine" where
  "recover_labels env r l e =
     (let i = calculate_series_id env l; (ser, e1) = find_or_create env i l e;
          e2 = store_series i (AddBlock (Some r) ser) e1;
          bounds = (start_time (header (obj r)), end_time (header (obj r)))
      in link_block i l r (e2\<lparr>series_time_bounds := widen_bounds i bounds (series_time_bounds e2)\<rparr>))"

text \<open>One recovered header; a block that cannot be read or parsed is skipped.\<close>

definition recover_block ::
  "('p, 'x) engine_env_scheme \<Rightarrow> block_header \<Rightarrow> 'p engine \<Rightarrow> 'p engine option" where
  "recover_block env h e =
     (case readData (env_opens env) h (e_blocks e) of
        Inl _ \<Rightarrow> Some e
      | Inr data \<Rightarrow>
          (case block_deserialize (env_max_vector env) data of
             Truncated \<Rightarrow> Some e
           | Fault \<Rightarrow> None
           | Parsed b \<Rightarrow>
               let r = \<lparr>addr = next_addr (e_alloc e), obj = b\<rparr>
               in Some (fold (recover_labels env r) (get_all_labels b)
                    (e\<lparr>e_alloc := (e_alloc e)\<lparr>next_addr := Suc (next_addr (e_alloc e))\<rparr>\<rparr>))))"

fun recover_all ::
  "('p, 'x) engine_env_scheme \<Rightarrow> block_header list \<Rightarrow> 'p engine \<Rightarrow> 'p engine option" where
  "recover_all env [] e = Some e"
| "recover_all env (h # hs) e = Option.bind (recover_block env h e) (recover_all env hs)"

definition engine_cache_config :: "engine_config \<Rightarrow> hierarchy_config" where
  "engine_cache_config cfg =
     \<lparr>l1_max_size = 50000, l2_max_size = 500000, l2_storage_path = cfg_data_dir cfg @ ''/cache/l2'',
      l3_storage_path = cfg_data_dir cfg @ ''/cache/l3'', l2_demotion_threshold = 1,
      l2_demotion_timeout_seconds = 60, enable_background_processing = cfg_background cfg,
      background_interval = 5000\<rparr>"

definition init_cache ::
  "('p, 'x) engine_env_scheme \<Rightarrow> engine_config \<Rightarrow> 'p engine \<Rightarrow> (unit result \<times> 'p engine) run" where
  "init_cache env cfg e =
     (case cache_hierarchy e of
        Some H \<Rightarrow> Returns (Inr (), e\<lparr>initialized := True\<rparr>)
      | None \<Rightarrow>
          (case mk_hierarchy (env_can_create env) (engine_cache_config cfg) of
             Inl (Cache_error ex) \<Rightarrow> Throws (what ex)
           | Inl (Filesystem_error path) \<Rightarrow> Throws path
           | Inr H \<Rightarrow>
               Returns (Inr (), e\<lparr>initialized := True,
                 cache_hierarchy := Some (if cfg_background cfg then start_background_processing H else H)\<rparr>)))"

definition recover_engine ::
  "('p, 'x) engine_env_scheme \<Rightarrow> engine_config \<Rightarrow> disk \<Rightarrow> 'p engine \<Rightarrow> (unit result \<times> 'p engine) run" where
  "recover_engine env cfg dk e =
     (case mk_block_manager (env_can_create env) (cfg_data_dir cfg) (local_id_counter (e_blocks e)) dk of
        Inl err \<Rightarrow> Throws err
      | Inr m \<Rightarrow>
          let (hs, m1) = recoverBlocks (env_opens env) (env_dir_order env) m
          in case recover_all env (env_sort_headers env hs) (e\<lparr>e_blocks := m1\<rparr>) of
               None \<Rightarrow> Undefined
             | Some e1 \<Rightarrow> init_cache env cfg e1)"

text \<open>\<open>init\<close>: \<open>found\<close> are the log files of each shard and \<open>dk\<close> the block files in the data directory.\<close>

definition engine_init ::
  "('p, 'x) engine_env_scheme \<Rightarrow> engine_config \<Rightarrow> (nat \<Rightarrow> (string \<times> byte list) list) \<Rightarrow> disk \<Rightarrow> 'p engine \<Rightarrow>
     (unit result \<times> 'p engine) run" where
  "engine_init env cfg found dk e =
     (if initialized e then Returns (Inl ''Storage already initialized'', e)
      else
        (case mk_sharded_wal (env_opens env) (cfg_data_dir cfg @ ''/wal'') found 16 of
           Inl err \<Rightarrow> Throws err
         | Inr w \<Rightarrow>
             let (tss, w1) = sharded_replay w;
                 e1 = e\<lparr>series_blocks := [], label_to_blocks := [], block_to_series := [],
                   e_index := mk_sharded_index 16, e_wal := w1\<rparr>
             in case replay_all env tss e1 of
                  None \<Rightarrow> Undefined
                | Some e2 \<Rightarrow> recover_engine env cfg dk e2))"

end
