(* ===== verification/Cache_Contents.thy ===== *)
theory Cache_Contents
  imports Cache_Hierarchy
begin

text \<open>
  What clients of the cache hierarchy rely on beyond its own invariant: the contents. The locale
  \<open>cache_contents\<close> fixes a property of the series cached under an id that survives the merge of
  \<open>put\<close>; inside it every operation is shown to return and to keep the property for everything the
  hierarchy holds.
\<close>

section \<open>Heap effects of the calls into the levels\<close>

lemma heap_unchanged:
  "l1_get now i s = Some (r, s') \<Longrightarrow> snd s' = snd s" "l1_remove i s = Some (b, s') \<Longrightarrow> snd s' = snd s"
  "l2_get now i s = Some (r, s') \<Longrightarrow> snd s' = snd s" "l2_put now i p s = Some (b, s') \<Longrightarrow> snd s' = snd s"
  "l2_remove i s = Some (b, s') \<Longrightarrow> snd s' = snd s" "evict_l1 s = (x, s') \<Longrightarrow> snd s' = snd s"
  by (auto simp: l1_get_def l1_remove_def l2_get_def l2_put_def l2_remove_def evict_l1_def returns_def
      split: option.splits sum.splits prod.splits)

lemma l1_put_heap:
  assumes "hierarchy_ok s" "l1_put now i p s = Some (Inr (), s')"
  shows "(case in_l1 s i of
      None \<Rightarrow> snd s' = snd s
    | Some q \<Rightarrow> \<exists>old new ts. snd s q = Some old \<and> snd s p = Some new \<and> merge_into (ts_samples new) old = Inr ts
        \<and> snd s' = (snd s)(q \<mapsto> ts))"
proof -
  let ?c = "l1_cache (fst s)"
  note ok = hierarchy_okD(1) [OF assms(1)]
  obtain c h where c: "cache_put now i (Some p) (?c, snd s) = Some (Inr (c, h))" "snd s' = h"
    using assms(2) by (auto simp: l1_put_def split: option.splits sum.splits)
  show ?thesis
  proof (cases "map_of (cache_map ?c) i")
    case None
    then have "i \<notin> fst ` set (recency ?c)" using cache_okD(2) [OF ok] by (simp add: recency_keys)
    then have "in_l1 s i = None" by (simp add: in_l1_def map_of_eq_None_iff)
    with None c show ?thesis by (simp add: cache_put_def Let_def)
  next
    case (Some n)
    then obtain e where e: "e \<in> set (lru_list ?c)" "ce_id e = i" "node e = n"
      using cache_okD(1) [OF ok] by blast
    then have "in_l1 s i = Some (ce_series e)" using map_of_recency [OF ok e(1)] by (simp add: in_l1_def)
    with Some c cache_okD(4) [OF ok e(1)] e(3) show ?thesis
      by (auto simp: cache_put_def split: option.splits sum.splits)
  qed
qed

lemma counters_held:
  assumes "l1_cache H' = l1_cache H" "l2_cache H' = l2_cache H"
  shows "in_l1 (H', h) = in_l1 (H, h)" "in_l2 (H', h) = in_l2 (H, h)" "held (H', h) = held (H, h)"
    "hierarchy_ok (H', h) = hierarchy_ok (H, h)"
  using assms by (simp_all add: in_l1_def in_l2_def held_def hierarchy_ok_def)

section \<open>The contract\<close>

locale cache_contents =
  fixes P :: "uint64 \<Rightarrow> time_series \<Rightarrow> bool"
  assumes key: "\<lbrakk>P k ts; P k' ts\<rbrakk> \<Longrightarrow> k = k'"
    and merge: "\<lbrakk>P k old; P k new; chronological (ts_samples old); merge_into (ts_samples new) old = Inr ts\<rbrakk> \<Longrightarrow> P k ts"
begin

definition valid :: "uint64 \<Rightarrow> nat \<Rightarrow> hstate \<Rightarrow> bool" where
  "valid k q s \<longleftrightarrow> (\<exists>ts. snd s q = Some ts \<and> P k ts)"

definition contents :: "hstate \<Rightarrow> bool" where
  "contents s \<longleftrightarrow> hierarchy_ok s \<and> (\<forall>(k, q) \<in> held s. valid k q s)"

lemma contents_ok: "contents s \<Longrightarrow> hierarchy_ok s"
  by (simp add: contents_def)

lemma contents_valid:
  "\<lbrakk>contents s; in_l1 s k = Some q\<rbrakk> \<Longrightarrow> valid k q s" "\<lbrakk>contents s; in_l2 s k = Some q\<rbrakk> \<Longrightarrow> valid k q s"
  by (auto simp: contents_def held_def)

lemma valid_dom: "valid k q s \<Longrightarrow> q \<in> dom (snd s)"
  by (auto simp: valid_def)

lemma contents_same_heap:
  assumes "contents s" "hierarchy_ok s'" "snd s' = snd s" "\<And>k q. (k, q) \<in> held s' \<Longrightarrow> (k, q) \<in> held s \<or> valid k q s"
  shows "contents s'"
proof -
  have "valid k q s'" if "(k, q) \<in> held s'" for k q
    using assms(1) assms(4) [OF that] by (auto simp: contents_def valid_def assms(3))
  with assms(2) show ?thesis by (auto simp: contents_def)
qed

text \<open>States that follow one with valid contents: pointers to valid series stay valid, and no series
  is allocated.\<close>

definition later :: "hstate \<Rightarrow> hstate \<Rightarrow> bool" where
  "later s s' \<longleftrightarrow> contents s' \<and> (\<forall>k q. valid k q s \<longrightarrow> valid k q s') \<and> dom (snd s') = dom (snd s)"

lemma later_refl: "contents s \<Longrightarrow> later s s"
  by (simp add: later_def)

lemma later_contents: "later s s' \<Longrightarrow> contents s'"
  by (simp add: later_def)

lemma later_trans: "\<lbrakk>later s t; later t u\<rbrakk> \<Longrightarrow> later s u"
  by (simp add: later_def)

lemma later_valid: "\<lbrakk>later s s'; valid k q s\<rbrakk> \<Longrightarrow> valid k q s'"
  by (simp add: later_def)

lemma later_same_heap:
  assumes "contents s" "hierarchy_ok s'" "snd s' = snd s" "\<And>k q. (k, q) \<in> held s' \<Longrightarrow> (k, q) \<in> held s \<or> valid k q s"
  shows "later s s'"
  using contents_same_heap [OF assms] assms(3) by (simp add: later_def valid_def)

lemma later_counters [simp]:
  "later s (H\<lparr>total_hits := x\<rparr>, h) = later s (H, h)" "later s (H\<lparr>total_misses := x\<rparr>, h) = later s (H, h)"
  "later s (H\<lparr>l1_hits := x\<rparr>, h) = later s (H, h)" "later s (H\<lparr>l2_hits := x\<rparr>, h) = later s (H, h)"
  "later s (H\<lparr>l3_hits := x\<rparr>, h) = later s (H, h)" "later s (H\<lparr>promotions := x\<rparr>, h) = later s (H, h)"
  "later s (H\<lparr>demotions := x\<rparr>, h) = later s (H, h)"
  "contents (H\<lparr>total_hits := x\<rparr>, h) = contents (H, h)" "contents (H\<lparr>l1_hits := x\<rparr>, h) = contents (H, h)"
  "contents (H\<lparr>l2_hits := x\<rparr>, h) = contents (H, h)"
  by (simp_all add: later_def contents_def valid_def held_def in_l1_def in_l2_def hierarchy_ok_def)

text \<open>An operation that returns in such a state.\<close>

definition does :: "hstate \<Rightarrow> 'a outcome \<Rightarrow> ('a \<Rightarrow> hstate \<Rightarrow> bool) \<Rightarrow> bool" where
  "does s m Q \<longleftrightarrow> (\<exists>r s'. m = Some (Inr r, s') \<and> later s s' \<and> Q r s')"

lemma does_returns: "\<lbrakk>later s t; Q x t\<rbrakk> \<Longrightarrow> does s (returns x t) Q"
  by (simp add: does_def returns_def)

lemma does_bind:
  assumes "later s t" "does t m Q" "\<And>r u. \<lbrakk>later s u; contents u; Q r u\<rbrakk> \<Longrightarrow> does s (f r u) R"
  shows "does s (and_then m f) R"
proof -
  obtain r u where u: "m = Some (Inr r, u)" "later t u" "Q r u" using assms(2) by (auto simp: does_def)
  from assms(3) [OF later_trans [OF assms(1) u(2)] later_contents [OF u(2)] u(3)] u(1) show ?thesis by simp
qed

lemma does_after: "\<lbrakk>later s t; does t m Q\<rbrakk> \<Longrightarrow> does s m Q"
  unfolding does_def by (blast intro: later_trans)

lemma does_mono: "\<lbrakk>does s m Q; \<And>r t. Q r t \<Longrightarrow> R r t\<rbrakk> \<Longrightarrow> does s m R"
  by (auto simp: does_def)

lemma does_swallow: "does s m Q \<Longrightarrow> does s (swallow m) (\<lambda>_ _. True)"
  by (auto simp: does_def)

lemma does_gets:
  assumes "contents s"
  shows "does s (l1_get now i s) (\<lambda>r s'. r = in_l1 s i \<and> in_l1 s' = in_l1 s \<and> in_l2 s' = in_l2 s)"
    "does s (l2_get now i s) (\<lambda>r s'. r = in_l2 s i \<and> in_l1 s' = in_l1 s \<and> in_l2 s' = in_l2 s)"
proof -
  note ok = contents_ok [OF assms]
  from l1_get_ok [OF ok, of now i] obtain s' where
    s': "l1_get now i s = Some (Inr (in_l1 s i), s')" "hierarchy_ok s'" "in_l1 s' = in_l1 s" "in_l2 s' = in_l2 s" by blast
  have "later s s'"
    by (rule later_same_heap [OF assms s'(2) heap_unchanged(1) [OF s'(1)]]) (simp add: held_def s'(3,4))
  with s' show "does s (l1_get now i s) (\<lambda>r s'. r = in_l1 s i \<and> in_l1 s' = in_l1 s \<and> in_l2 s' = in_l2 s)"
    by (simp add: does_def)
next
  note ok = contents_ok [OF assms]
  from l2_get_ok [OF ok, of now i] obtain s' where
    s': "l2_get now i s = Some (Inr (in_l2 s i), s')" "hierarchy_ok s'" "in_l1 s' = in_l1 s" "in_l2 s' = in_l2 s" by blast
  have "later s s'"
    by (rule later_same_heap [OF assms s'(2) heap_unchanged(3) [OF s'(1)]]) (simp add: held_def s'(3,4))
  with s' show "does s (l2_get now i s) (\<lambda>r s'. r = in_l2 s i \<and> in_l1 s' = in_l1 s \<and> in_l2 s' = in_l2 s)"
    by (simp add: does_def)
qed

lemma does_removes:
  assumes "contents s"
  shows "does s (l1_remove i s) (\<lambda>_ _. True)" "does s (l2_remove i s) (\<lambda>_ _. True)"
proof -
  from l1_remove_ok [OF contents_ok [OF assms], of i] obtain r s' where
    s': "l1_remove i s = Some (Inr r, s')" "hierarchy_ok s'" "in_l1 s' = (in_l1 s)(i := None)" "in_l2 s' = in_l2 s" by blast
  have "later s s'"
    by (rule later_same_heap [OF assms s'(2) heap_unchanged(2) [OF s'(1)]])
      (auto simp: held_def s'(3,4) split: if_splits)
  with s' show "does s (l1_remove i s) (\<lambda>_ _. True)" by (simp add: does_def)
next
  from l2_remove_ok [OF contents_ok [OF assms], of i] obtain r s' where
    s': "l2_remove i s = Some (Inr r, s')" "hierarchy_ok s'" "in_l1 s' = in_l1 s" "in_l2 s' = (in_l2 s)(i := None)" by blast
  have "later s s'"
    by (rule later_same_heap [OF assms s'(2) heap_unchanged(5) [OF s'(1)]])
      (auto simp: held_def s'(3,4) split: if_splits)
  with s' show "does s (l2_remove i s) (\<lambda>_ _. True)" by (simp add: does_def)
qed

lemma does_l2_put:
  assumes "contents s" "valid i p s" "l2_has_room (fst s)"
  shows "does s (l2_put now i p s) (\<lambda>_ _. True)"
proof -
  from l2_put_ok [OF contents_ok [OF assms(1)] valid_dom [OF assms(2)] assms(3), of now i] obtain s' where
    s': "l2_put now i p s = Some (Inr True, s')" "hierarchy_ok s'" "in_l1 s' = in_l1 s" "in_l2 s' = (in_l2 s)(i \<mapsto> p)"
    by blast
  have "later s s'"
    by (rule later_same_heap [OF assms(1) s'(2) heap_unchanged(4) [OF s'(1)]])
      (use assms(2) in \<open>auto simp: held_def s'(3,4) split: if_splits\<close>)
  then show ?thesis using s'(1) by (auto simp: does_def)
qed

lemma does_l1_put:
  assumes "contents s" "valid i p s" "\<not> is_full (l1_cache (fst s))"
  shows "does s (l1_put now i p s) (\<lambda>_ _. True)"
proof -
  from l1_put_ok [OF contents_ok [OF assms(1)] valid_dom [OF assms(2)] assms(3), of now i] obtain s' where
    s': "l1_put now i p s = Some (Inr (), s')" "hierarchy_ok s'" "in_l2 s' = in_l2 s"
      "in_l1 s' = (if i \<in> dom (in_l1 s) then in_l1 s else (in_l1 s)(i \<mapsto> p))"
    by blast
  note heap = l1_put_heap [OF contents_ok [OF assms(1)] s'(1)]
  have "later s s'"
  proof (cases "in_l1 s i")
    case None
    with heap have "snd s' = snd s" by simp
    then show ?thesis
      by (rule later_same_heap [OF assms(1) s'(2)])
        (use None assms(2) in \<open>auto simp: held_def s'(3,4) split: if_splits\<close>)
  next
    case (Some q)
    with heap obtain old new ts where m: "snd s q = Some old" "snd s p = Some new"
      "merge_into (ts_samples new) old = Inr ts" "snd s' = (snd s)(q \<mapsto> ts)" by auto
    have ps: "P i old" "P i new"
      using contents_valid(1) [OF assms(1) Some] assms(2) m(1,2) by (auto simp: valid_def)
    moreover have "chronological (ts_samples old)"
      using contents_ok [OF assms(1)] m(1) by (auto simp: hierarchy_ok_def)
    ultimately have new: "P i ts" using merge m(3) by blast
    have keep: "valid k q' s'" if "valid k q' s" for k q'
      using that ps(1) key new m(1,4) by (fastforce simp: valid_def)
    moreover have "held s' = held s" using Some s'(3,4) by (auto simp: held_def)
    moreover have "dom (snd s') = dom (snd s)" using m(1,4) by auto
    ultimately show ?thesis using s'(2) assms(1) by (auto simp: contents_def later_def)
  qed
  with s' show ?thesis by (auto simp: does_def)
qed

section \<open>Operations\<close>

lemma does_promote:
  assumes "contents s"
  shows "does s (promote now i t s) (\<lambda>_ _. True)"
  unfolding promote_def using later_refl [OF assms] assms
  by (auto intro!: does_returns does_bind [OF _ does_gets(2)] does_bind [OF _ does_l1_put]
      does_bind [OF _ does_removes(2)] contents_valid(2) split: option.split)

lemma does_demote:
  assumes "contents s"
  shows "does s (demote now i t s) (\<lambda>_ _. True)"
proof -
  have "does s1 (case r2 of Some p \<Rightarrow> returns (Some p) s1 | None \<Rightarrow> l1_get now i s1) (\<lambda>_ _. True)"
    if "contents s1" for r2 s1
    using later_refl [OF that] does_mono [OF does_gets(1) [OF that]] by (auto intro!: does_returns split: option.split)
  note source = does_bind [OF _ this]
  show ?thesis
    unfolding demote_def using later_refl [OF assms] assms
    by (auto intro!: does_returns does_bind [OF _ does_gets(1)] does_bind [OF _ does_gets(2)] does_bind [OF _ does_l2_put]
        source does_bind [OF _ does_removes(1)] does_bind [OF _ does_removes(2)] contents_valid(1)
        split: option.split)
qed

lemma get_contents:
  assumes "contents s"
  shows "\<exists>s'. hierarchy_get now i s = Some (Inr (visible s i), s') \<and> later s s' \<and> frame s s'
    \<and> (\<forall>p. visible s i = Some p \<longrightarrow> valid i p s')"
proof -
  from hierarchy_get_ok [OF contents_ok [OF assms], of now i] obtain s' where
    s': "hierarchy_get now i s = Some (Inr (visible s i), s')" "evolves {} s s'" by blast
  have "does s (hierarchy_get now i s) (\<lambda>_ _. True)"
    unfolding hierarchy_get_def count_hit_def Let_def using later_refl [OF assms] assms
    by (auto intro!: does_returns does_bind [OF _ does_gets(1)] does_bind [OF _ does_gets(2)] does_bind [OF _ does_promote] split: option.split)
  with s' have "later s s'" by (simp add: does_def)
  moreover have "valid i p s" if "visible s i = Some p" for p
    using that contents_valid [OF assms] by (auto simp: visible_def)
  ultimately show ?thesis using s' by (auto simp: evolves_def intro: later_valid)
qed

lemma does_put_over_first_l2:
  assumes "contents s" "valid i p s" "\<And>xs. set (order xs) = set xs"
  shows "does s (put_over_first_l2 now order i p s) (\<lambda>_ _. True)"
proof -
  from put_over_first_l2_ok [OF contents_ok [OF assms(1)] valid_dom [OF assms(2)] assms(3), of now i] obtain r s' where
    s': "put_over_first_l2 now order i p s = Some (Inr r, s')" "hierarchy_ok s'" "held s' \<subseteq> insert (i, p) (held s)"
    by (auto simp: put_effect_def)
  have "snd s' = snd s"
    using s'(1) by (auto simp: put_over_first_l2_def and_then_def returns_def dest!: heap_unchanged
        split: option.splits list.splits sum.splits prod.splits)
  then have "later s s'" by (rule later_same_heap [OF assms(1) s'(2)]) (use s'(3) assms(2) in auto)
  with s'(1) show ?thesis by (auto simp: does_def)
qed

lemma does_put_when_full:
  assumes "contents s" "valid i p s" "\<And>xs. set (order xs) = set xs" "is_full (l1_cache (fst s))"
  shows "does s (put_when_full now order i p s) (\<lambda>_ _. True)"
proof -
  obtain k q s1 where s1: "evict_l1 s = ((k, Some q), s1)" "hierarchy_ok s1" "in_l1 s k = Some q"
      "in_l1 s1 = (in_l1 s)(k := None)" "in_l2 s1 = in_l2 s" "frame s s1"
    using evict_l1_ok [OF contents_ok [OF assms(1)] assms(4)] by blast
  have l1: "later s s1"
    by (rule later_same_heap [OF assms(1) s1(2) heap_unchanged(6) [OF s1(1)]])
      (auto simp: held_def s1(4,5) split: if_splits)
  note c1 = later_contents [OF l1] and v1 = later_valid [OF l1 assms(2)] later_valid [OF l1 contents_valid(1) [OF assms(1) s1(3)]]
  show ?thesis
  proof (cases "k = 0")
    case True
    then show ?thesis using does_after [OF l1 does_put_over_first_l2 [OF c1 v1(1) assms(3)]]
      by (simp add: put_when_full_def s1(1))
  next
    case False
    let ?m = "if l2_has_room (fst s1) then swallow (l2_put now k q s1) else returns () s1"
    have "does s1 ?m (\<lambda>_ s2. in_l1 s2 = in_l1 s1 \<and> frame s1 s2)"
    proof (cases "l2_has_room (fst s1)")
      case True
      obtain r s2 where "l2_put now k q s1 = Some (Inr r, s2)" "later s1 s2"
        using does_l2_put [OF c1 v1(2) True, of now] by (auto simp: does_def)
      moreover from this l2_put_ok [OF s1(2) valid_dom [OF v1(2)] True, of now k] have "in_l1 s2 = in_l1 s1" "frame s1 s2"
        by auto
      ultimately show ?thesis using True by (simp add: does_def)
    qed (use later_refl [OF c1] in \<open>simp add: does_returns\<close>)
    then have "does s (and_then ?m (\<lambda>_ s2. and_then (l1_put now i p s2) (\<lambda>_ s3. returns True s3))) (\<lambda>_ _. True)"
    proof (rule does_bind [OF l1])
      fix u assume u: "later s u" "contents u" "in_l1 u = in_l1 s1 \<and> frame s1 u"
      note ok = contents_ok [OF assms(1)]
      have "card (dom (in_l1 s) - {k}) < card (dom (in_l1 s))"
        using s1(3) is_full_view(4) [OF ok] by (intro card_Diff1_less) auto
      moreover have "dom (in_l1 u) = dom (in_l1 s) - {k}" using u(3) s1(4) by simp
      moreover have "max_size (l1_cache (fst u)) = max_size (l1_cache (fst s))"
        using u(3) s1(6) by (simp add: frame_def)
      ultimately have "\<not> is_full (l1_cache (fst u))"
        using is_full_view(1) [OF contents_ok [OF u(2)]] is_full_view(3) [OF ok] by simp
      then show "does s (and_then (l1_put now i p u) (\<lambda>_ s3. returns True s3)) (\<lambda>_ _. True)"
        by (intro does_bind [OF u(1) does_l1_put [OF u(2) later_valid [OF u(1) assms(2)]]] does_returns) simp_all
    qed
    then show ?thesis using False by (simp add: put_when_full_def s1(1))
  qed
qed

lemma put_contents:
  assumes "contents s" "valid i p s" "\<And>xs. set (order xs) = set xs"
  shows "\<exists>r s'. hierarchy_put now order i (Some p) s = Some (Inr r, s') \<and> later s s' \<and> frame s s'
    \<and> held s' \<subseteq> insert (i, p) (held s)"
proof -
  from hierarchy_put_ok [OF contents_ok [OF assms(1)] valid_dom [OF assms(2)] assms(3), of now i] obtain r s' where
    s': "hierarchy_put now order i (Some p) s = Some (Inr r, s')" "put_effect i p s r s'" by blast
  note l = later_refl [OF assms(1)]
  have full: "is_full (l1_cache (fst s)) \<longleftrightarrow> \<not> cache_size (l1_cache (fst s)) < max_size (l1_cache (fst s))"
    by (simp add: is_full_def cache_size_def not_less)
  have "does s (hierarchy_put now order i (Some p) s) (\<lambda>_ _. True)"
  proof (cases "is_full (l1_cache (fst s))")
    case False
    have "does s (and_then (l1_put now i p s) (\<lambda>_ s1. returns True s1)) (\<lambda>_ _. True)"
      by (intro does_bind [OF l does_l1_put [OF assms(1,2) False]] does_returns) simp_all
    with False full show ?thesis by (simp add: hierarchy_put_def)
  next
    case True
    show ?thesis
    proof (cases "l2_has_room (fst s)")
      case room: True
      with does_l2_put [OF assms(1,2), of now] obtain b s1 where "l2_put now i p s = Some (Inr b, s1)" "later s s1"
        by (auto simp: does_def)
      with True full room show ?thesis by (simp add: hierarchy_put_def does_returns)
    next
      case False
      with True full does_put_when_full [OF assms True, of now] show ?thesis by (simp add: hierarchy_put_def)
    qed
  qed
  with s' have "later s s'" by (simp add: does_def)
  with s' show ?thesis by (auto simp: put_effect_def)
qed

lemma remove_contents:
  assumes "contents s"
  shows "\<exists>r s'. hierarchy_remove i s = Some (Inr r, s') \<and> later s s' \<and> frame s s'
    \<and> held s' = {x \<in> held s. fst x \<noteq> i}"
proof -
  from hierarchy_remove_ok [OF contents_ok [OF assms], of i] obtain r s' where
    s': "hierarchy_remove i s = Some (Inr r, s')" "frame s s'" "held s' = {x \<in> held s. fst x \<noteq> i}" by blast
  have "does s (hierarchy_remove i s) (\<lambda>_ _. True)"
    unfolding hierarchy_remove_def using later_refl [OF assms] assms
    by (auto intro!: does_returns does_bind [OF _ does_removes(1)] does_bind [OF _ does_removes(2)])
  with s' have "later s s'" by (simp add: does_def)
  with s' show ?thesis by blast
qed

lemma does_pass:
  assumes "\<And>i t. contents t \<Longrightarrow> does t (act i t) (\<lambda>_ _. True)" "later s t"
  shows "does s (maintain_pass act is t) (\<lambda>_ _. True)"
  using assms(2)
proof (induction "is" arbitrary: t)
  case (Cons i "is")
  show ?case
  proof (cases "background_running (fst t)")
    case True
    then show ?thesis
      using Cons.prems by (auto intro!: does_bind [OF _ assms(1)] Cons.IH later_contents)
  qed (use Cons.prems in \<open>auto intro: does_returns\<close>)
qed (auto intro: does_returns)

lemma maintenance_contents:
  assumes "contents s"
  shows "\<exists>s'. perform_maintenance now order s = Some (Inr (), s') \<and> later s s' \<and> frame s s' \<and> held s' \<subseteq> held s"
proof -
  from perform_maintenance_ok [OF contents_ok [OF assms], of now order] obtain s' where
    s': "perform_maintenance now order s = Some (Inr (), s')" "evolves (accepted s) s s'" by (auto simp: keeps_def)
  have up: "does t (try_promote now i t) (\<lambda>_ _. True)" if "contents t" for i t
    using does_swallow [OF does_promote [OF that]] later_refl [OF that] by (auto simp: try_promote_def intro: does_returns)
  have down: "does t (try_demote now n i t) (\<lambda>_ _. True)" if "contents t" for n i t
    using does_swallow [OF does_demote [OF that]] later_refl [OF that]
      should_demote_defined [OF contents_ok [OF that], of now i]
    by (auto simp: try_demote_def intro: does_returns split: bool.split)
  have "does s (perform_maintenance now order s) (\<lambda>_ _. True)"
    unfolding perform_maintenance_def Let_def using later_refl [OF assms]
    by (auto intro!: does_bind [OF _ does_pass [OF up]] does_bind [OF _ does_pass [OF down]] does_returns later_refl)
  with s' have "later s s'" by (simp add: does_def)
  with s' show ?thesis by (auto simp: evolves_def)
qed

end

end
