(* ===== verification/Storage_Consistency.thy ===== *)
theory Storage_Consistency
  imports Storage_Engine Cache_Contents
begin

text \<open>
  What reads of the storage engine return, for every sequence of its operations. The history of a run
  gives for each series id the samples written since the series was last deleted. The invariant
  \<open>engine_inv\<close> ties the active series to that history and says that whatever the cache hierarchy
  holds under an id is part of it.
\<close>

section \<open>Runs of the engine\<close>

datatype engine_op =
    Write int int time_series
  | Read int labels int64 int64
  | Query int "nat \<Rightarrow> bool" "label_matcher list" int64 int64
  | Delete "label_matcher list"
  | Flush int
  | Compact
  | LogWorker nat
  | Maintenance int

definition log_worker :: "('p, 'x) engine_env_scheme \<Rightarrow> nat \<Rightarrow> 'p engine \<Rightarrow> 'p engine" where
  "log_worker env k e =
     (let ss = wal_shards (e_wal e)
      in if k < length ss
         then e\<lparr>e_wal := (e_wal e)\<lparr>wal_shards := ss[k := worker_step (env_opens env) (ss ! k)]\<rparr>\<rparr>
         else e)"

definition of_option :: "('a \<times> 'p engine) option \<Rightarrow> 'p engine run" where
  "of_option m = (case m of None \<Rightarrow> Undefined | Some (_, e) \<Rightarrow> Returns e)"

fun engine_step :: "('p, 'x) engine_env_scheme \<Rightarrow> engine_op \<Rightarrow> 'p engine \<Rightarrow> 'p engine run" where
  "engine_step env (Write now wall ts) e =
     (case engine_write env now wall ts e of
        Returns (_, e') \<Rightarrow> Returns e' | Throws m \<Rightarrow> Throws m | Blocks \<Rightarrow> Blocks | Undefined \<Rightarrow> Undefined)"
| "engine_step env (Read now l t0 t1) e = of_option (engine_read env now l t0 t1 e)"
| "engine_step env (Query now late ms t0 t1) e = of_option (engine_query env now late ms t0 t1 e)"
| "engine_step env (Delete ms) e = of_option (delete_series env ms e)"
| "engine_step env (Flush wall) e = Returns (snd (engine_flush env wall e))"
| "engine_step env Compact e = Returns (snd (engine_compact env e))"
| "engine_step env (LogWorker k) e = Returns (log_worker env k e)"
| "engine_step env (Maintenance now) e = of_option (on_cache (perform_maintenance now (env_order env)) () e)"

text \<open>The history: samples per series id since its last deletion.\<close>

type_synonym history = "uint64 \<Rightarrow> sample list"

definition found_ids :: "('p, 'x) engine_env_scheme \<Rightarrow> label_matcher list \<Rightarrow> 'p engine \<Rightarrow> uint64 set" where
  "found_ids env ms e = set (fst (sharded_find_series (env_posting env) (env_regex env) ms (e_index e)))"

fun log_op :: "('p, 'x) engine_env_scheme \<Rightarrow> engine_op \<Rightarrow> 'p engine \<Rightarrow> history \<Rightarrow> history" where
  "log_op env (Write now wall ts) e hist =
     (if ts_samples ts = [] \<or> ts_labels ts = [] then hist
      else let i = calculate_series_id env (ts_labels ts) in hist(i := hist i @ ts_samples ts))"
| "log_op env (Delete ms) e hist = (\<lambda>i. if i \<in> found_ids env ms e then [] else hist i)"
| "log_op env op e hist = hist"

text \<open>Runs whose operations satisfy a condition on the operation and the history after it.\<close>

inductive engine_run ::
  "('p, 'x) engine_env_scheme \<Rightarrow> (engine_op \<Rightarrow> history \<Rightarrow> bool) \<Rightarrow> 'p engine \<Rightarrow> 'p engine \<Rightarrow> history \<Rightarrow> bool"
  for env G e0 where
  run_init: "engine_run env G e0 e0 (\<lambda>i. [])"
| run_op: "\<lbrakk>engine_run env G e0 e hist; G op (log_op env op e hist); engine_step env op e = Returns e'\<rbrakk> \<Longrightarrow>
     engine_run env G e0 e' (log_op env op e hist)"

text \<open>Written series obey the invariant of \<open>TimeSeries\<close>, no sample is at time 0, and a series has
  fewer than \<open>2^32\<close> samples.\<close>

fun op_ok :: "engine_op \<Rightarrow> bool" where
  "op_ok (Write now wall ts) = (series_ok ts \<and> (\<forall>s \<in> set (ts_samples ts). timestamp s \<noteq> 0))"
| "op_ok op = True"

definition regular :: "engine_op \<Rightarrow> history \<Rightarrow> bool" where
  "regular op hist \<longleftrightarrow> op_ok op \<and> (\<forall>i. length (hist i) < 2 ^ 32)"

section \<open>Active series\<close>

definition addresses_ok :: "block_alloc \<Rightarrow> stored_series \<Rightarrow> bool" where
  "addresses_ok a ser \<longleftrightarrow> (\<forall>b. Some b \<in> set (blocks ser) \<longrightarrow> addr b < next_addr a)
     \<and> (\<forall>r. current_block ser = Some r \<longrightarrow> addr r < next_addr a \<and> (\<forall>b. Some b \<in> set (blocks ser) \<longrightarrow> addr b \<noteq> addr r))"

lemma addresses_mono: "\<lbrakk>addresses_ok a ser; next_addr a \<le> next_addr a'\<rbrakk> \<Longrightarrow> addresses_ok a' ser"
  by (auto simp: addresses_ok_def)

lemma new_series_ok: "series_inv (new_series i l) []" "addresses_ok a (new_series i l)"
  "metadata (new_series i l) = \<lparr>md_id = i, md_labels = l, md_type = GAUGE, md_granularity = \<lparr>interval = 0, retention = 0\<rparr>\<rparr>"
  unfolding series_inv_def by (rule exI [of _ "[]"]) (simp_all add: new_series_def mk_series_def addresses_ok_def)

lemma series_append_ok:
  assumes "series_inv ser h" "timestamp s \<noteq> 0" "addresses_ok a ser"
  shows "\<exists>full ser' a'. series_append a s ser = (Some full, ser', a') \<and> series_inv ser' (h @ [s])
    \<and> metadata ser' = metadata ser \<and> addresses_ok a' ser' \<and> next_addr a \<le> next_addr a'
    \<and> (full \<longrightarrow> 10000 \<le> length (h @ [s]))"
proof -
  obtain r ser' a' where st: "series_append a s ser = (r, ser', a')" by (metis prod_cases3)
  have inv: "series_inv ser' (h @ [s])" using series_inv_append [OF assms(1,2) st] .
  obtain b where b: "ser' = ser\<lparr>current_block := Some b\<rparr>" "r = map_option (\<lambda>n. 10000 \<le> n) (num_samples (obj b))"
    using st by (auto simp: series_append_def Let_def split: prod.splits)
  then have cb: "current_block ser' = Some b" by simp
  obtain bss cur where cur: "buffers (md_labels (metadata ser)) (obj b) cur" "h @ [s] = concat bss @ cur"
    using inv b(1) by (auto simp: series_inv_def)
  from buffers_stores [OF cur(1)] have "num_samples (obj b) = Some (length cur)" by (simp add: stores_def)
  moreover have "addresses_ok a' ser' \<and> next_addr a \<le> next_addr a'"
  proof (cases "current_block ser")
    case None
    then have "next_addr a' = Suc (next_addr a)" "addr b = next_addr a"
      using st cb by (auto simp: series_append_def new_head_def Let_def)
    with assms(3) b(1) show ?thesis by (fastforce simp: addresses_ok_def)
  next
    case (Some c)
    then have "a' = a" "addr b = addr c" using st cb by (auto simp: series_append_def Let_def)
    with Some assms(3) b(1) show ?thesis by (simp add: addresses_ok_def)
  qed
  moreover have "length cur \<le> length (h @ [s])" unfolding cur(2) by simp
  ultimately show ?thesis using st inv b by auto
qed

lemma append_all_ok:
  assumes "series_inv ser h" "\<forall>s \<in> set ss. timestamp s \<noteq> 0" "addresses_ok a ser"
  shows "\<exists>full ser' a'. append_all a ss ser = Some (full, ser', a') \<and> series_inv ser' (h @ ss)
    \<and> metadata ser' = metadata ser \<and> addresses_ok a' ser' \<and> next_addr a \<le> next_addr a'
    \<and> (full \<longrightarrow> 10000 \<le> length (h @ ss))"
  using assms
proof (induction ss arbitrary: a ser h)
  case (Cons s ss)
  obtain full ser1 a1 where s1: "series_append a s ser = (Some full, ser1, a1)" "series_inv ser1 (h @ [s])"
      "metadata ser1 = metadata ser" "addresses_ok a1 ser1" "next_addr a \<le> next_addr a1" "full \<longrightarrow> 10000 \<le> length (h @ [s])"
    using series_append_ok [OF Cons.prems(1) _ Cons.prems(3), of s] Cons.prems(2) by auto
  with Cons.IH [OF s1(2) _ s1(4)] Cons.prems(2) show ?case by fastforce
qed auto

lemma stores_flush [simp]: "stores l (block_flush b) ss = stores l b ss"
  by (simp add: stores_def block_flush_def update_header_def Let_def num_samples_def covers_def)

text \<open>Sealing, and the change of the sealed object through its pointer.\<close>

lemma mutate_sealed:
  assumes "seal_block ser = (Some r, ser')" "addresses_ok a ser" "addr r' = addr r"
  shows "mutate_block r' ser' = ser\<lparr>blocks := blocks ser @ [Some r'], current_block := None\<rparr>"
proof -
  obtain c where c: "current_block ser = Some c" "r = c\<lparr>obj := block_seal (obj c)\<rparr>"
      "ser' = ser\<lparr>blocks := blocks ser @ [Some r], current_block := None\<rparr>"
    using assms(1) by (auto simp: seal_block_def Let_def split: option.splits)
  have "map (\<lambda>b. if map_option addr b = Some (addr r') then Some r' else b) (blocks ser) = blocks ser"
    using assms(2,3) c(1,2) by (auto simp: addresses_ok_def intro!: map_idI)
  then show ?thesis using assms(3) by (simp add: mutate_block_def c(3))
qed

lemma seal_flush_ok:
  assumes "series_inv ser h" "length h < 2 ^ 32" "addresses_ok a ser" "seal_block ser = (Some r, ser')"
  shows "series_inv ser' h \<and> addresses_ok a ser' \<and> metadata ser' = metadata ser"
    "series_inv (mutate_block (r\<lparr>obj := block_flush (obj r)\<rparr>) ser') h
     \<and> addresses_ok a (mutate_block (r\<lparr>obj := block_flush (obj r)\<rparr>) ser')
     \<and> metadata (mutate_block (r\<lparr>obj := block_flush (obj r)\<rparr>) ser') = metadata ser"
proof -
  let ?r = "r\<lparr>obj := block_flush (obj r)\<rparr>"
  let ?ser = "ser\<lparr>blocks := blocks ser @ [Some ?r], current_block := None\<rparr>"
  obtain c where c: "current_block ser = Some c" "r = c\<lparr>obj := block_seal (obj c)\<rparr>"
      "ser' = ser\<lparr>blocks := blocks ser @ [Some r], current_block := None\<rparr>"
    using assms(4) by (auto simp: seal_block_def Let_def split: option.splits)
  have inv: "series_inv ser' h" using series_inv_seal [OF assms(1,2,4)] .
  then show "series_inv ser' h \<and> addresses_ok a ser' \<and> metadata ser' = metadata ser"
    using assms(3) c by (auto simp: addresses_ok_def)
  obtain bss where "h = concat bss"
      "list_all2 (\<lambda>r ss. \<exists>b. r = Some b \<and> stores (md_labels (metadata ser)) (obj b) ss) (blocks ser @ [Some r]) bss"
    using inv by (auto simp: series_inv_def c(3))
  then have "series_inv ?ser h"
    unfolding series_inv_def
    by (intro exI [of _ bss] exI [of _ "[]"]) (auto simp: list_all2_append1 list_all2_Cons1)
  then show "series_inv (mutate_block ?r ser') h \<and> addresses_ok a (mutate_block ?r ser')
      \<and> metadata (mutate_block ?r ser') = metadata ser"
    using assms(3) c(1,2) mutate_sealed [OF assms(4,3), of ?r] by (auto simp: addresses_ok_def)
qed

section \<open>The invariant of the engine\<close>

text \<open>A series that may be cached under an id.\<close>

definition cacheable :: "(labels \<Rightarrow> uint64) \<Rightarrow> history \<Rightarrow> uint64 \<Rightarrow> time_series \<Rightarrow> bool" where
  "cacheable sid hist k ts \<longleftrightarrow> sid (ts_labels ts) = k
     \<and> point ` set (ts_samples ts) \<subseteq> point ` set (hist k)"

interpretation series_cache: cache_contents "cacheable sid hist" for sid hist
proof
  show "k = k'" if "cacheable sid hist k ts" "cacheable sid hist k' ts" for k k' ts
    using that by (simp add: cacheable_def)
  show "cacheable sid hist k ts"
    if "cacheable sid hist k old" "cacheable sid hist k new" "chronological (ts_samples old)"
      "merge_into (ts_samples new) old = Inr ts" for k old new ts
  proof -
    note chron = that(3)
    obtain ts' xs where "merge_into (ts_samples new) old = Inr ts'" "ts_labels ts' = ts_labels old"
        "ts_samples ts' = ts_samples old @ xs" "subseq xs (ts_samples new)"
      using chron by (rule merge_into_ok)
    moreover from this(4) have "set xs \<subseteq> set (ts_samples new)" by (auto dest: list_emb_set)
    ultimately have "ts_labels ts = ts_labels old" "set (ts_samples ts) \<subseteq> set (ts_samples old) \<union> set (ts_samples new)"
      using that(4) by auto
    from this(2) have all: "point ` set (ts_samples ts) \<subseteq> point ` set (ts_samples old) \<union> point ` set (ts_samples new)"
      unfolding image_Un [symmetric] by (rule image_mono)
    have parts: "point ` set (ts_samples old) \<subseteq> point ` set (hist k)" "point ` set (ts_samples new) \<subseteq> point ` set (hist k)"
      "sid (ts_labels ts) = k"
      using that(1,2) \<open>ts_labels ts = ts_labels old\<close> by (simp_all add: cacheable_def)
    show ?thesis
      unfolding cacheable_def by (intro conjI parts(3) subset_trans [OF all Un_least [OF parts(1,2)]])
  qed
qed

definition cache_inv :: "('p, 'x) engine_env_scheme \<Rightarrow> history \<Rightarrow> 'p engine \<Rightarrow> bool" where
  "cache_inv env hist e \<longleftrightarrow> (\<exists>H. cache_hierarchy e = Some H \<and> series_cache.contents (calculate_series_id env) hist (H, series_heap e))
     \<and> (\<forall>p. next_series e \<le> p \<longrightarrow> series_heap e p = None)"

definition active_inv :: "('p, 'x) engine_env_scheme \<Rightarrow> history \<Rightarrow> 'p engine \<Rightarrow> bool" where
  "active_inv env hist e \<longleftrightarrow> smap_ok (active_series e)
     \<and> (\<forall>i. case map_of (active_series e) i of
          None \<Rightarrow> hist i = [] \<and> map_of (series_blocks e) i = None
        | Some ser \<Rightarrow> series_inv ser (hist i) \<and> addresses_ok (e_alloc e) ser \<and> md_id (metadata ser) = i
            \<and> calculate_series_id env (md_labels (metadata ser)) = i)"

lemma active_invD:
  assumes "active_inv env hist e"
  shows "map_of (active_series e) i = None \<Longrightarrow> hist i = [] \<and> map_of (series_blocks e) i = None"
    "map_of (active_series e) i = Some ser \<Longrightarrow> series_inv ser (hist i) \<and> addresses_ok (e_alloc e) ser
       \<and> md_id (metadata ser) = i \<and> calculate_series_id env (md_labels (metadata ser)) = i"
proof -
  have "case map_of (active_series e) i of
          None \<Rightarrow> hist i = [] \<and> map_of (series_blocks e) i = None
        | Some ser \<Rightarrow> series_inv ser (hist i) \<and> addresses_ok (e_alloc e) ser \<and> md_id (metadata ser) = i
            \<and> calculate_series_id env (md_labels (metadata ser)) = i"
    using assms by (simp only: active_inv_def)
  then show "map_of (active_series e) i = None \<Longrightarrow> hist i = [] \<and> map_of (series_blocks e) i = None"
    "map_of (active_series e) i = Some ser \<Longrightarrow> series_inv ser (hist i) \<and> addresses_ok (e_alloc e) ser
       \<and> md_id (metadata ser) = i \<and> calculate_series_id env (md_labels (metadata ser)) = i"
    by simp_all
qed

definition engine_inv :: "('p, 'x) engine_env_scheme \<Rightarrow> history \<Rightarrow> 'p engine \<Rightarrow> bool" where
  "engine_inv env hist e \<longleftrightarrow> initialized e \<and> cache_inv env hist e \<and> active_inv env hist e"

text \<open>The requirements on the parameters.\<close>

definition env_ok :: "('p, 'x) engine_env_scheme \<Rightarrow> bool" where
  "env_ok env \<longleftrightarrow> std_sort (env_sort env) \<and> (\<forall>xs. set (env_order env xs) = set xs)
     \<and> (\<forall>xs. mset (env_sort_headers env xs) = mset xs) \<and> (\<forall>xs. mset (env_dir_order env xs) = mset xs)"

lemma cacheable_mono: "\<lbrakk>cacheable sid hist k ts; point ` set (hist k) \<subseteq> point ` set (hist' k)\<rbrakk> \<Longrightarrow> cacheable sid hist' k ts"
  unfolding cacheable_def by (blast intro: order_trans)

lemma contents_mono:
  assumes "series_cache.contents sid hist s"
    "\<And>k q. (k, q) \<in> held s \<Longrightarrow> point ` set (hist k) \<subseteq> point ` set (hist' k)"
  shows "series_cache.contents sid hist' s"
  using assms cacheable_mono by (fastforce simp: series_cache.contents_def series_cache.valid_def)

section \<open>Operations on the cache\<close>

lemma lookup_series_ok:
  assumes "cache_inv env hist e"
  shows "\<exists>H h p. lookup_series now i e = Some (Inr p, e\<lparr>cache_hierarchy := Some H, series_heap := h\<rparr>)
    \<and> cache_inv env hist (e\<lparr>cache_hierarchy := Some H, series_heap := h\<rparr>)
    \<and> (\<forall>H0. cache_hierarchy e = Some H0 \<longrightarrow> p = visible (H0, series_heap e) i)
    \<and> (\<forall>q. p = Some q \<longrightarrow> (\<exists>ts. h q = Some ts \<and> cacheable (calculate_series_id env) hist i ts \<and> chronological (ts_samples ts)))"
proof -
  obtain H where H: "cache_hierarchy e = Some H" "series_cache.contents (calculate_series_id env) hist (H, series_heap e)"
      "\<forall>p. next_series e \<le> p \<longrightarrow> series_heap e p = None"
    using assms by (auto simp: cache_inv_def)
  let ?p = "visible (H, series_heap e) i"
  from series_cache.get_contents [OF H(2), of now i] obtain H' h where
    g: "hierarchy_get now i (H, series_heap e) = Some (Inr ?p, H', h)" "series_cache.later (calculate_series_id env) hist (H, series_heap e) (H', h)"
      "frame (H, series_heap e) (H', h)" "\<forall>q. ?p = Some q \<longrightarrow> series_cache.valid (calculate_series_id env) hist i q (H', h)"
    by (metis prod.collapse)
  have "series_cache.contents (calculate_series_id env) hist (H', h)" "dom h = dom (series_heap e)"
    using g(2) by (simp_all add: series_cache.later_def)
  moreover from this(1) have "\<forall>p ts. h p = Some ts \<longrightarrow> chronological (ts_samples ts)"
    by (simp add: series_cache.contents_def hierarchy_ok_def)
  moreover have "\<exists>ts. h q = Some ts \<and> cacheable (calculate_series_id env) hist i ts" if "?p = Some q" for q
    using g(4) that by (auto simp: series_cache.valid_def)
  moreover have "lookup_series now i e = Some (Inr ?p, e\<lparr>cache_hierarchy := Some H', series_heap := h\<rparr>)"
    using H(1) g(1) by (simp add: lookup_series_def on_cache_def)
  moreover have "cache_inv env hist (e\<lparr>cache_hierarchy := Some H', series_heap := h\<rparr>)"
    using calculation(1,2) H(3) by (auto simp: cache_inv_def)
  ultimately show ?thesis using H(1) by (intro exI [of _ H'] exI [of _ h] exI [of _ ?p]) (simp, blast)
qed

lemma put_copy_ok:
  assumes "cache_inv env hist e" "cacheable (calculate_series_id env) hist i ts" "chronological (ts_samples ts)"
    "\<forall>xs. set (env_order env xs) = set xs"
  shows "\<exists>H h b. put_copy env now i ts e =
      Some (Inr b, e\<lparr>cache_hierarchy := Some H, series_heap := h, next_series := Suc (next_series e)\<rparr>)
    \<and> cache_inv env hist (e\<lparr>cache_hierarchy := Some H, series_heap := h, next_series := Suc (next_series e)\<rparr>)"
proof -
  let ?sid = "calculate_series_id env" and ?n = "next_series e"
  let ?h0 = "(series_heap e)(?n \<mapsto> ts)"
  obtain H where H: "cache_hierarchy e = Some H" "series_cache.contents ?sid hist (H, series_heap e)"
      "\<forall>p. ?n \<le> p \<longrightarrow> series_heap e p = None"
    using assms(1) by (auto simp: cache_inv_def)
  have fresh: "(k, ?n) \<notin> held (H, series_heap e)" for k
    using H(2,3) by (fastforce simp: series_cache.contents_def series_cache.valid_def)
  have view: "held (H, ?h0) = held (H, series_heap e)" "in_l1 (H, ?h0) = in_l1 (H, series_heap e)"
    "in_l2 (H, ?h0) = in_l2 (H, series_heap e)"
    by (simp_all add: held_def in_l1_def in_l2_def)
  have "series_cache.contents ?sid hist (H, ?h0)"
    unfolding series_cache.contents_def view
  proof
    show "hierarchy_ok (H, ?h0)"
      using H(2) assms(3) unfolding series_cache.contents_def hierarchy_ok_def view by auto
    show "\<forall>(k, q) \<in> held (H, series_heap e). series_cache.valid ?sid hist k q (H, ?h0)"
      using H(2) fresh unfolding series_cache.contents_def series_cache.valid_def by fastforce
  qed
  moreover have "series_cache.valid ?sid hist i ?n (H, ?h0)"
    using assms(2) by (simp add: series_cache.valid_def)
  ultimately obtain b H' h where put: "hierarchy_put now (env_order env) i (Some ?n) (H, ?h0) = Some (Inr b, H', h)"
      "series_cache.later ?sid hist (H, ?h0) (H', h)"
    using series_cache.put_contents [of ?sid hist "(H, ?h0)" i ?n "env_order env" now] assms(4) by (metis prod.collapse)
  then have "dom h = insert ?n (dom (series_heap e))" "series_cache.contents ?sid hist (H', h)"
    by (simp_all add: series_cache.later_def)
  moreover from this(1) have "h p = None" if "Suc ?n \<le> p" for p
  proof -
    have "p \<notin> insert ?n (dom (series_heap e))" using that H(3) by (simp add: domIff)
    with \<open>dom h = insert ?n (dom (series_heap e))\<close> show ?thesis by (metis domIff)
  qed
  ultimately show ?thesis
    using H(1) put(1) by (intro exI [of _ H'] exI [of _ h] exI [of _ b]) (simp add: put_copy_def on_cache_def cache_inv_def)
qed

section \<open>Reading\<close>

lemma filter_series_ok:
  assumes "chronological (ts_samples source)"
  shows "filter_series_to_time_range source t0 t1 =
    Inr \<lparr>ts_labels = ts_labels source, ts_samples = filter (in_range t0 t1) (ts_samples source)\<rparr>"
proof -
  have "chronological (filter (in_range t0 t1) (ts_samples source))"
    using assms by (simp add: chronological_def sorted_wrt_filter)
  then show ?thesis
    using add_samples_append [of "mk_time_series (ts_labels source)" "filter (in_range t0 t1) (ts_samples source)"]
    by (simp add: filter_series_to_time_range_def mk_time_series_def)
qed

lemma read_active_ok:
  assumes "cache_inv env hist e" "active_inv env hist e" "env_ok env"
  shows "\<exists>ts H h n. read_active env now l t0 t1 e =
      Some (Inr ts, e\<lparr>cache_hierarchy := Some H, series_heap := h, next_series := n\<rparr>)
    \<and> cache_inv env hist (e\<lparr>cache_hierarchy := Some H, series_heap := h, next_series := n\<rparr>)
    \<and> chronological (ts_samples ts) \<and> represents (ts_samples ts) (in_range t0 t1) (hist (calculate_series_id env l))
    \<and> calculate_series_id env (ts_labels ts) = calculate_series_id env l"
proof -
  let ?i = "calculate_series_id env l"
  obtain H0 where H0: "cache_hierarchy e = Some H0" using assms(1) by (auto simp: cache_inv_def)
  then have same: "e\<lparr>cache_hierarchy := Some H0, series_heap := series_heap e, next_series := next_series e\<rparr> = e" by simp
  show ?thesis
  proof (cases "map_of (active_series e) ?i")
    case None
    then have "hist ?i = []" "map_of (series_blocks e) ?i = None"
      using active_invD(1) [OF assms(2)] by blast+
    then have "read_active env now l t0 t1 e = Some (Inr (mk_time_series l), e)"
      using None by (simp add: read_active_def read_persisted_def read_from_blocks_nolock_def ts_empty_def mk_time_series_def)
    with same assms(1) \<open>hist ?i = []\<close> show ?thesis
      by (intro exI [of _ "mk_time_series l"] exI [of _ H0] exI [of _ "series_heap e"] exI [of _ "next_series e"])
        (simp add: represents_def mk_time_series_def)
  next
    case (Some ser)
    have inv: "series_inv ser (hist ?i)"
      using active_invD(2) [OF assms(2) Some] by blast
    have sort: "std_sort (env_sort env)" using assms(3) by (simp add: env_ok_def)
    obtain xs where xs: "series_read (env_sort env) t0 t1 ser = Some (unique_ts (env_sort env xs))"
        "represents xs (in_range t0 t1) (hist ?i)"
      using series_read_represents [OF sort inv] by blast
    let ?ss = "unique_ts (env_sort env xs)"
    have ss: "chronological ?ss" "set ?ss \<subseteq> set xs" "timestamp ` set ?ss = timestamp ` set xs"
      using unique_ts_spec [OF std_sort.sorted_srt [OF sort], of xs] std_sort.set_srt [OF sort, of xs] by auto
    have rep: "represents ?ss (in_range t0 t1) (hist ?i)" using represents_subset [OF ss(2,3) xs(2)] .
    let ?ts = "\<lparr>ts_labels = l, ts_samples = ?ss\<rparr>"
    have add: "add_samples ?ss (mk_time_series l) = Inr ?ts"
      using add_samples_append [of "mk_time_series l" ?ss] ss(1) by (simp add: mk_time_series_def)
    have "point ` set ?ss \<subseteq> point ` set (hist ?i)"
      using rep unfolding represents_def by blast
    then have c: "cacheable (calculate_series_id env) hist ?i ?ts" by (simp add: cacheable_def)
    obtain H h b where put: "put_copy env now ?i ?ts e =
        Some (Inr b, e\<lparr>cache_hierarchy := Some H, series_heap := h, next_series := Suc (next_series e)\<rparr>)"
      "cache_inv env hist (e\<lparr>cache_hierarchy := Some H, series_heap := h, next_series := Suc (next_series e)\<rparr>)"
      using put_copy_ok [OF assms(1) c, of now] ss(1) assms(3) by (auto simp: env_ok_def)
    show ?thesis
    proof (cases "?ss = []")
      case True
      then have "read_active env now l t0 t1 e = Some (Inr ?ts, e)"
        using Some xs(1) add by (simp add: read_active_def ts_empty_def)
      with same assms(1) rep True show ?thesis
        by (intro exI [of _ ?ts] exI [of _ H0] exI [of _ "series_heap e"] exI [of _ "next_series e"]) simp
    next
      case False
      then have "read_active env now l t0 t1 e =
          Some (Inr ?ts, e\<lparr>cache_hierarchy := Some H, series_heap := h, next_series := Suc (next_series e)\<rparr>)"
        using Some xs(1) add put(1) by (simp add: read_active_def ts_empty_def)
      with put(2) rep ss(1) show ?thesis
        by (intro exI [of _ ?ts] exI [of _ H] exI [of _ h] exI [of _ "Suc (next_series e)"]) simp
    qed
  qed
qed

lemma active_inv_frame [simp]:
  "active_inv env hist (e\<lparr>cache_hierarchy := c\<rparr>) = active_inv env hist e"
  "active_inv env hist (e\<lparr>series_heap := h\<rparr>) = active_inv env hist e"
  "active_inv env hist (e\<lparr>next_series := n\<rparr>) = active_inv env hist e"
  "active_inv env hist (e\<lparr>e_index := ix\<rparr>) = active_inv env hist e"
  "active_inv env hist (e\<lparr>e_wal := w\<rparr>) = active_inv env hist e"
  "active_inv env hist (e\<lparr>e_blocks := m\<rparr>) = active_inv env hist e"
  "active_inv env hist (e\<lparr>series_time_bounds := b\<rparr>) = active_inv env hist e"
  "active_inv env hist (e\<lparr>block_seal_times := st\<rparr>) = active_inv env hist e"
  "active_inv env hist (e\<lparr>initialized := x\<rparr>) = active_inv env hist e"
  by (simp_all add: active_inv_def cong: option.case_cong)

lemma cache_inv_frame [simp]:
  "cache_inv env hist (e\<lparr>active_series := as\<rparr>) = cache_inv env hist e"
  "cache_inv env hist (e\<lparr>e_alloc := a\<rparr>) = cache_inv env hist e"
  "cache_inv env hist (e\<lparr>e_index := ix\<rparr>) = cache_inv env hist e"
  "cache_inv env hist (e\<lparr>e_wal := w\<rparr>) = cache_inv env hist e"
  "cache_inv env hist (e\<lparr>e_blocks := m\<rparr>) = cache_inv env hist e"
  "cache_inv env hist (e\<lparr>series_time_bounds := b\<rparr>) = cache_inv env hist e"
  "cache_inv env hist (e\<lparr>block_seal_times := st\<rparr>) = cache_inv env hist e"
  "cache_inv env hist (e\<lparr>series_blocks := sb\<rparr>) = cache_inv env hist e"
  "cache_inv env hist (e\<lparr>label_to_blocks := lb\<rparr>) = cache_inv env hist e"
  "cache_inv env hist (e\<lparr>block_to_series := bs\<rparr>) = cache_inv env hist e"
  by (simp_all add: cache_inv_def)

text \<open>A read returns samples of the history in the range, and changes nothing but the cache.\<close>

definition cache_step :: "('p, 'x) engine_env_scheme \<Rightarrow> history \<Rightarrow> 'p engine \<Rightarrow> 'p engine \<Rightarrow> bool" where
  "cache_step env hist e e' \<longleftrightarrow> cache_inv env hist e'
     \<and> (\<exists>H h n. e' = e\<lparr>cache_hierarchy := Some H, series_heap := h, next_series := n\<rparr>)"

lemma cache_step_trans: "\<lbrakk>cache_step env hist e e1; cache_step env hist e1 e2\<rbrakk> \<Longrightarrow> cache_step env hist e e2"
  unfolding cache_step_def by fastforce

lemma cache_step_inv: "\<lbrakk>engine_inv env hist e; cache_step env hist e e'\<rbrakk> \<Longrightarrow> engine_inv env hist e'"
  by (auto simp: engine_inv_def cache_step_def)

lemma cache_step_fields:
  assumes "cache_step env hist e e'"
  shows "active_series e' = active_series e" "series_blocks e' = series_blocks e" "e_index e' = e_index e"
    "initialized e' = initialized e" "series_time_bounds e' = series_time_bounds e" "e_wal e' = e_wal e"
    "active_inv env hist' e' = active_inv env hist' e"
  using assms by (auto simp: cache_step_def)

lemma cache_step_refl:
  assumes "cache_inv env hist e" shows "cache_step env hist e e"
proof -
  obtain H where "cache_hierarchy e = Some H" using assms by (auto simp: cache_inv_def)
  then have "e = e\<lparr>cache_hierarchy := Some H, series_heap := series_heap e, next_series := next_series e\<rparr>" by simp
  with assms show ?thesis unfolding cache_step_def by blast
qed

definition read_ok :: "('p, 'x) engine_env_scheme \<Rightarrow> history \<Rightarrow> labels \<Rightarrow> int64 \<Rightarrow> int64 \<Rightarrow> time_series \<Rightarrow> bool" where
  "read_ok env hist l t0 t1 ts \<longleftrightarrow> chronological (ts_samples ts)
     \<and> point ` set (ts_samples ts) \<subseteq> point ` {s \<in> set (hist (calculate_series_id env l)). in_range t0 t1 s}
     \<and> calculate_series_id env (ts_labels ts) = calculate_series_id env l"

lemma in_range_point: "point x = point y \<Longrightarrow> in_range t0 t1 x = in_range t0 t1 y"
  by (simp add: point_def in_range_def)

lemma points_filter:
  assumes "point ` set xs \<subseteq> point ` set h"
  shows "point ` set (filter (in_range t0 t1) xs) \<subseteq> point ` {s \<in> set h. in_range t0 t1 s}"
proof
  fix p assume "p \<in> point ` set (filter (in_range t0 t1) xs)"
  then obtain x where x: "x \<in> set xs" "in_range t0 t1 x" "p = point x" by auto
  then obtain y where "y \<in> set h" "point x = point y" using assms by blast
  with x in_range_point show "p \<in> point ` {s \<in> set h. in_range t0 t1 s}" by blast
qed

lemma read_nolock_ok:
  assumes "cache_inv env hist e" "active_inv env hist e" "env_ok env"
  shows "\<exists>ts e'. read_nolock env now l t0 t1 e = Some (Inr ts, e') \<and> cache_step env hist e e'
    \<and> read_ok env hist l t0 t1 ts"
proof -
  let ?i = "calculate_series_id env l"
  obtain H h p where look: "lookup_series now ?i e = Some (Inr p, e\<lparr>cache_hierarchy := Some H, series_heap := h\<rparr>)"
      "cache_inv env hist (e\<lparr>cache_hierarchy := Some H, series_heap := h\<rparr>)"
      "\<forall>q. p = Some q \<longrightarrow> (\<exists>ts. h q = Some ts \<and> cacheable (calculate_series_id env) hist ?i ts \<and> chronological (ts_samples ts))"
    using lookup_series_ok [OF assms(1)] by blast
  let ?e = "e\<lparr>cache_hierarchy := Some H, series_heap := h\<rparr>"
  have "?e = e\<lparr>cache_hierarchy := Some H, series_heap := h, next_series := next_series e\<rparr>" by simp
  with look(2) have step: "cache_step env hist e ?e" unfolding cache_step_def by blast
  show ?thesis
  proof (cases p)
    case None
    obtain ts H' h' n where r: "read_active env now l t0 t1 ?e =
        Some (Inr ts, ?e\<lparr>cache_hierarchy := Some H', series_heap := h', next_series := n\<rparr>)"
      "cache_inv env hist (?e\<lparr>cache_hierarchy := Some H', series_heap := h', next_series := n\<rparr>)"
      "chronological (ts_samples ts)" "represents (ts_samples ts) (in_range t0 t1) (hist ?i)"
      "calculate_series_id env (ts_labels ts) = ?i"
      using read_active_ok [OF look(2) _ assms(3), of now l t0 t1] assms(2) by auto
    have "cache_step env hist ?e (?e\<lparr>cache_hierarchy := Some H', series_heap := h', next_series := n\<rparr>)"
      using r(2) unfolding cache_step_def by blast
    note all = cache_step_trans [OF step this]
    have "read_ok env hist l t0 t1 ts" using r(3-5) by (simp add: read_ok_def represents_def)
    with r(1) look(1) None all show ?thesis by (auto simp: read_nolock_def)
  next
    case (Some q)
    then obtain ts where ts: "h q = Some ts" "cacheable (calculate_series_id env) hist ?i ts" "chronological (ts_samples ts)"
      using look(3) by blast
    have "chronological (filter (in_range t0 t1) (ts_samples ts))"
      using ts(3) by (simp add: chronological_def sorted_wrt_filter)
    then have "read_ok env hist l t0 t1
        \<lparr>ts_labels = ts_labels ts, ts_samples = filter (in_range t0 t1) (ts_samples ts)\<rparr>"
      using ts(2) points_filter [of "ts_samples ts" "hist ?i" t0 t1] by (simp add: read_ok_def cacheable_def)
    moreover have "read_nolock env now l t0 t1 e =
        Some (Inr \<lparr>ts_labels = ts_labels ts, ts_samples = filter (in_range t0 t1) (ts_samples ts)\<rparr>, ?e)"
      using look(1) Some ts(1) filter_series_ok [OF ts(3)] by (simp add: read_nolock_def)
    ultimately show ?thesis using step by blast
  qed
qed

lemma run_query_ok:
  assumes "cache_inv env hist e" "active_inv env hist e" "env_ok env"
    "\<forall>ts \<in> set results. \<exists>l. read_ok env hist l t0 t1 ts"
  shows "\<exists>results' e'. run_query env now late t0 t1 found k checked results e = Some (results', e') \<and> cache_step env hist e e'
    \<and> (\<forall>ts \<in> set results'. \<exists>l. read_ok env hist l t0 t1 ts)"
  using assms(1,2,4)
proof (induction found arbitrary: k checked results e)
  case Nil
  then show ?case using cache_step_refl by fastforce
next
  case (Cons f found)
  obtain i l where f: "f = (i, l)" by force
  note refl = cache_step_refl [OF Cons.prems(1)]
  obtain ts e1 where r: "read_nolock env now l t0 t1 e = Some (Inr ts, e1)" "cache_step env hist e e1" "read_ok env hist l t0 t1 ts"
    using read_nolock_ok [OF Cons.prems(1,2) assms(3)] by blast
  let ?results = "if ts_empty ts then results else results @ [ts]"
  have res: "\<forall>ts \<in> set ?results. \<exists>l. read_ok env hist l t0 t1 ts" using Cons.prems(3) r(3) by auto
  have inv: "cache_inv env hist e1" "active_inv env hist e1"
    using r(2) Cons.prems(2) cache_step_fields(7) [OF r(2)] by (auto simp: cache_step_def)
  obtain results' e' where rest: "run_query env now late t0 t1 found (k + 3) (checked + 1) ?results e1 = Some (results', e')"
      "cache_step env hist e1 e'" "\<forall>ts \<in> set results'. \<exists>l. read_ok env hist l t0 t1 ts"
    using Cons.IH [OF inv res] by blast
  note all = cache_step_trans [OF r(2) rest(2)]
  show ?case
    using Cons.IH [OF Cons.prems, of "k + 1" "checked + 1"] Cons.prems(3) refl r(1,2) rest(1,3) all res
    by (auto simp: f Let_def)
qed

section \<open>Writing\<close>

lemma active_inv_store:
  assumes "active_inv env hist e" "series_inv ser h" "addresses_ok a ser" "md_id (metadata ser) = i"
    "calculate_series_id env (md_labels (metadata ser)) = i" "next_addr (e_alloc e) \<le> next_addr a"
  shows "active_inv env (hist(i := h)) ((store_series i ser e)\<lparr>e_alloc := a\<rparr>)"
proof -
  have "case map_of (smap_insert i ser (active_series e)) j of
        None \<Rightarrow> (hist(i := h)) j = [] \<and> map_of (series_blocks e) j = None
      | Some ser' \<Rightarrow> series_inv ser' ((hist(i := h)) j) \<and> addresses_ok a ser' \<and> md_id (metadata ser') = j
          \<and> calculate_series_id env (md_labels (metadata ser')) = j" for j
  proof (cases "j = i")
    case True
    then show ?thesis using assms(2-5) by (simp add: smap_simps)
  next
    case False
    then show ?thesis
      using active_invD [OF assms(1), of j] addresses_mono [OF _ assms(6)]
      by (cases "map_of (active_series e) j") (auto simp: smap_simps)
  qed
  moreover have "smap_ok (smap_insert i ser (active_series e))"
    using assms(1) by (simp add: active_inv_def smap_simps)
  ultimately show ?thesis by (simp add: active_inv_def store_series_def cong: option.case_cong)
qed

lemma active_inv_restore:
  assumes "active_inv env hist e" "series_inv ser (hist i)" "addresses_ok (e_alloc e) ser" "md_id (metadata ser) = i"
    "calculate_series_id env (md_labels (metadata ser)) = i"
  shows "active_inv env hist (store_series i ser e)"
  using active_inv_store [of env hist e ser "hist i" "e_alloc e" i] assms by (simp add: store_series_def)

lemma find_or_create_ok:
  assumes "active_inv env hist e" "i = calculate_series_id env l"
  obtains ser ix where "find_or_create env i l e = (ser, e\<lparr>e_index := ix\<rparr>)" "series_inv ser (hist i)"
    "addresses_ok (e_alloc e) ser" "md_id (metadata ser) = i" "calculate_series_id env (md_labels (metadata ser)) = i"
proof (cases "map_of (active_series e) i")
  case None
  then show thesis
    using that [of "new_series i l"] new_series_ok(1,3) [of i l] new_series_ok(2) [of "e_alloc e" i l]
      active_invD(1) [OF assms(1) None] assms(2)
    by (simp add: find_or_create_def)
next
  case (Some ser)
  then show thesis
    using that [of ser "e_index e"] active_invD(2) [OF assms(1) Some] by (simp add: find_or_create_def)
qed

lemma active_inv_link:
  assumes "active_inv env hist e" "map_of (active_series e) i \<noteq> None"
  shows "active_inv env hist (link_block i l r e)"
proof -
  have "case map_of (active_series e) j of
        None \<Rightarrow> hist j = [] \<and> map_of (push_block i r (series_blocks e)) j = None
      | Some ser \<Rightarrow> series_inv ser (hist j) \<and> addresses_ok (e_alloc e) ser \<and> md_id (metadata ser) = j
          \<and> calculate_series_id env (md_labels (metadata ser)) = j" for j
    using active_invD [OF assms(1), of j] assms(2)
    by (cases "map_of (active_series e) j") (auto simp: push_block_def smap_simps)
  moreover have "smap_ok (active_series e)" using assms(1) by (simp add: active_inv_def)
  ultimately show ?thesis by (simp add: active_inv_def link_block_def cong: option.case_cong)
qed

lemma persist_block_ok:
  assumes "engine_inv env hist e" "map_of (active_series e) i \<noteq> None"
  shows "engine_inv env hist (persist_block env wall i l r e)"
    "active_series (persist_block env wall i l r e) = active_series e"
proof -
  obtain x m where p: "seal_and_persist_block (env_opens env) (Some (obj r)) (e_blocks e) = (x, m)" by force
  have inv: "engine_inv env hist (e\<lparr>e_blocks := m\<rparr>)" using assms(1) by (simp add: engine_inv_def)
  have link: "active_inv env hist (link_block i l r (e\<lparr>e_blocks := m\<rparr>))"
    using active_inv_link [of env hist "e\<lparr>e_blocks := m\<rparr>" i l r] assms by (simp add: engine_inv_def)
  have "initialized (link_block i l r (e\<lparr>e_blocks := m\<rparr>))"
    "cache_inv env hist (link_block i l r (e\<lparr>e_blocks := m\<rparr>))"
    using assms(1) by (simp_all add: link_block_def engine_inv_def)
  with link inv p show "engine_inv env hist (persist_block env wall i l r e)"
    by (auto simp: persist_block_def engine_inv_def split: sum.split)
  show "active_series (persist_block env wall i l r e) = active_series e"
    using p by (auto simp: persist_block_def link_block_def split: sum.split)
qed

lemma store_series_inv:
  assumes "engine_inv env hist e" "series_inv ser (hist i)" "addresses_ok (e_alloc e) ser" "md_id (metadata ser) = i"
    "calculate_series_id env (md_labels (metadata ser)) = i"
  shows "engine_inv env hist (store_series i ser e)"
  using active_inv_restore [of env hist e ser i] assms by (simp add: engine_inv_def store_series_def)

lemma seal_full_ok:
  assumes "engine_inv env hist e" "map_of (active_series e) i = Some ser" "length (hist i) < 2 ^ 32"
  shows "engine_inv env hist (seal_full env wall i l ser e)"
proof -
  have inv: "active_inv env hist e" using assms(1) by (simp add: engine_inv_def)
  note ser = active_invD(2) [OF inv assms(2)]
  obtain r ser' where seal: "seal_block ser = (r, ser')" by force
  show ?thesis
  proof (cases r)
    case None
    then have "ser' = ser" using seal by (auto simp: seal_block_def Let_def split: option.splits)
    then show ?thesis using None seal store_series_inv [OF assms(1), of ser i] ser by (simp add: seal_full_def)
  next
    case (Some b)
    have ok: "series_inv ser' (hist i)" "addresses_ok (e_alloc e) ser'" "metadata ser' = metadata ser"
      using seal_flush_ok(1) [OF _ assms(3), of ser "e_alloc e" b ser'] ser seal Some by auto
    have "engine_inv env hist (store_series i ser' e)"
      using store_series_inv [OF assms(1) ok(1,2)] ok(3) ser by simp
    then show ?thesis
      using persist_block_ok(1) [of env hist "store_series i ser' e" i wall l b] seal Some
      by (simp add: seal_full_def store_series_def smap_simps)
  qed
qed

lemma update_bounds_frame [simp]:
  "cache_inv env hist (update_bounds i ss e) = cache_inv env hist e"
  "active_inv env hist (update_bounds i ss e) = active_inv env hist e"
  "initialized (update_bounds i ss e) = initialized e" "active_series (update_bounds i ss e) = active_series e"
  "e_index (update_bounds i ss e) = e_index e" "cache_hierarchy (update_bounds i ss e) = cache_hierarchy e"
  "series_heap (update_bounds i ss e) = series_heap e" "next_series (update_bounds i ss e) = next_series e"
  by (simp_all add: update_bounds_def)

lemma store_series_frame [simp]:
  "cache_inv env hist (store_series i ser e) = cache_inv env hist e" "initialized (store_series i ser e) = initialized e"
  "active_series (store_series i ser e) = smap_insert i ser (active_series e)" "e_index (store_series i ser e) = e_index e"
  by (simp_all add: store_series_def)

lemma cache_inv_extend:
  assumes "cache_inv env hist e"
  shows "cache_inv env (hist(i := hist i @ ss)) e"
proof -
  have "series_cache.contents (calculate_series_id env) (hist(i := hist i @ ss)) s"
    if "series_cache.contents (calculate_series_id env) hist s" for s
    using that by (rule contents_mono) auto
  with assms show ?thesis unfolding cache_inv_def by blast
qed

lemma write_in_memory_ok:
  assumes "engine_inv env hist e" "env_ok env" "series_ok ts" "\<forall>s \<in> set (ts_samples ts). timestamp s \<noteq> 0"
    "hist' = hist(calculate_series_id env (ts_labels ts) := hist (calculate_series_id env (ts_labels ts)) @ ts_samples ts)"
    "length (hist' (calculate_series_id env (ts_labels ts))) < 2 ^ 32"
  shows "\<exists>e'. write_in_memory env now wall ts e = Returns (Inr (), e') \<and> engine_inv env hist' e'"
proof -
  let ?i = "calculate_series_id env (ts_labels ts)" and ?ss = "ts_samples ts"
  have inv: "initialized e" "cache_inv env hist e" "active_inv env hist e" using assms(1) by (auto simp: engine_inv_def)
  obtain ser ix where ser: "find_or_create env ?i (ts_labels ts) e = (ser, e\<lparr>e_index := ix\<rparr>)" "series_inv ser (hist ?i)"
      "addresses_ok (e_alloc e) ser" "md_id (metadata ser) = ?i" "calculate_series_id env (md_labels (metadata ser)) = ?i"
    using inv(3) by (rule find_or_create_ok) simp
  obtain full ser' a where app: "append_all (e_alloc e) ?ss ser = Some (full, ser', a)" "series_inv ser' (hist ?i @ ?ss)"
      "metadata ser' = metadata ser" "addresses_ok a ser'" "next_addr (e_alloc e) \<le> next_addr a"
    using append_all_ok [OF ser(2) assms(4) ser(3)] by blast
  let ?e2 = "update_bounds ?i ?ss ((store_series ?i ser' (e\<lparr>e_index := ix\<rparr>))\<lparr>e_alloc := a\<rparr>)"
  have a2: "active_inv env hist' ?e2"
    using active_inv_store [of env hist "e\<lparr>e_index := ix\<rparr>" ser' "hist ?i @ ?ss" a ?i] inv(3) app ser(4,5)
    by (simp add: assms(5))
  have c2: "cache_inv env hist' ?e2" unfolding assms(5) using cache_inv_extend [OF inv(2)] by simp
  have "cacheable (calculate_series_id env) hist' ?i ts" by (auto simp: cacheable_def assms(5))
  from put_copy_ok [OF c2 this, of now] assms(2,3) obtain H h b where
    put: "put_copy env now ?i ts ?e2 = Some (Inr b, ?e2\<lparr>cache_hierarchy := Some H, series_heap := h, next_series := Suc (next_series ?e2)\<rparr>)"
      "cache_inv env hist' (?e2\<lparr>cache_hierarchy := Some H, series_heap := h, next_series := Suc (next_series ?e2)\<rparr>)"
    by (auto simp: env_ok_def series_ok_def)
  let ?e3 = "?e2\<lparr>cache_hierarchy := Some H, series_heap := h, next_series := Suc (next_series ?e2)\<rparr>"
  have e3: "engine_inv env hist' ?e3" using put(2) a2 inv(1) by (simp add: engine_inv_def)
  have "write_in_memory env now wall ts e = Returns (Inr (), if full then seal_full env wall ?i (ts_labels ts) ser' ?e3 else ?e3)"
    using ser(1) app(1) put(1) by (simp add: write_in_memory_def Let_def)
  moreover have "engine_inv env hist' (seal_full env wall ?i (ts_labels ts) ser' ?e3)"
    by (rule seal_full_ok [OF e3 _ assms(6)]) (simp add: smap_simps)
  ultimately show ?thesis using e3 by auto
qed

lemma write_never_waits [simp]: "write_in_memory env now wall ts e \<noteq> Blocks"
  by (auto simp: write_in_memory_def Let_def split: option.splits prod.splits sum.splits)

text \<open>A write never fails on an initialised engine; it can only wait for its log queue.\<close>

lemma engine_write_ok:
  assumes "engine_inv env hist e" "env_ok env" "regular (Write now wall ts) (log_op env (Write now wall ts) e hist)"
    "engine_write env now wall ts e \<noteq> Blocks"
  shows "\<exists>r e'. engine_write env now wall ts e = Returns (r, e') \<and> engine_inv env (log_op env (Write now wall ts) e hist) e'"
proof (cases "ts_samples ts = [] \<or> ts_labels ts = []")
  case True
  then show ?thesis using assms(1) by (auto simp: engine_write_def ts_empty_def engine_inv_def)
next
  case False
  let ?i = "calculate_series_id env (ts_labels ts)"
  obtain r w where w: "sharded_log (env_hash env) ts (e_wal e) = Some (r, w)"
    using assms(1,4) False
    by (cases "sharded_log (env_hash env) ts (e_wal e)") (auto simp: engine_write_def ts_empty_def engine_inv_def)
  have inv: "engine_inv env hist (e\<lparr>e_wal := w\<rparr>)" using assms(1) by (simp add: engine_inv_def)
  have hist: "log_op env (Write now wall ts) e hist = hist(?i := hist ?i @ ts_samples ts)" using False by (auto simp: Let_def)
  have len: "length ((hist(?i := hist ?i @ ts_samples ts)) ?i) < 2 ^ 32"
    using assms(3) unfolding hist regular_def by blast
  have ok: "series_ok ts" "\<forall>s \<in> set (ts_samples ts). timestamp s \<noteq> 0" using assms(3) by (simp_all add: regular_def)
  have "engine_write env now wall ts e = write_in_memory env now wall ts (e\<lparr>e_wal := w\<rparr>)"
    using assms(1) False w by (simp add: engine_write_def ts_empty_def engine_inv_def)
  then show ?thesis
    using write_in_memory_ok [OF inv assms(2) ok refl len, of now wall] unfolding hist by metis
qed

section \<open>Deletion\<close>

lemma active_inv_forget:
  assumes "active_inv env hist e"
  shows "active_inv env (hist(i := [])) (forget_series i e)"
proof -
  have "case map_of (smap_erase i (active_series e)) j of
        None \<Rightarrow> (hist(i := [])) j = [] \<and> map_of (smap_erase i (series_blocks e)) j = None
      | Some ser \<Rightarrow> series_inv ser ((hist(i := [])) j) \<and> addresses_ok (e_alloc e) ser \<and> md_id (metadata ser) = j
          \<and> calculate_series_id env (md_labels (metadata ser)) = j" for j
  proof (cases "j = i")
    case False
    then show ?thesis
      using active_invD [OF assms, of j] by (cases "map_of (active_series e) j") (auto simp: smap_simps)
  qed (simp add: smap_simps)
  moreover have "smap_ok (smap_erase i (active_series e))" using assms by (simp add: active_inv_def smap_simps)
  ultimately show ?thesis by (simp add: active_inv_def forget_series_def cong: option.case_cong)
qed

lemma cache_remove_ok:
  assumes "cache_inv env hist e"
  shows "\<exists>H h b. on_cache (hierarchy_remove i) False e = Some (Inr b, e\<lparr>cache_hierarchy := Some H, series_heap := h\<rparr>)
    \<and> cache_inv env (hist(i := [])) (e\<lparr>cache_hierarchy := Some H, series_heap := h\<rparr>)"
proof -
  let ?sid = "calculate_series_id env"
  obtain H where H: "cache_hierarchy e = Some H" "series_cache.contents ?sid hist (H, series_heap e)"
      "\<forall>p. next_series e \<le> p \<longrightarrow> series_heap e p = None"
    using assms by (auto simp: cache_inv_def)
  from series_cache.remove_contents [OF H(2), of i] obtain b s' where
    s': "hierarchy_remove i (H, series_heap e) = Some (Inr b, s')" "series_cache.later ?sid hist (H, series_heap e) s'"
      "held s' = {x \<in> held (H, series_heap e). fst x \<noteq> i}"
    by blast
  obtain H' h where "s' = (H', h)" by force
  note r = s' [unfolded this]
  have "series_cache.contents ?sid hist (H', h)" "dom h = dom (series_heap e)"
    using r(2) by (simp_all add: series_cache.later_def)
  moreover from this(1) have "series_cache.contents ?sid (hist(i := [])) (H', h)"
    by (rule contents_mono) (use r(3) in auto)
  moreover have "on_cache (hierarchy_remove i) False e = Some (Inr b, e\<lparr>cache_hierarchy := Some H', series_heap := h\<rparr>)"
    using H(1) r(1) by (simp add: on_cache_def)
  ultimately show ?thesis
    using H(3) by (intro exI [of _ H'] exI [of _ h] exI [of _ b]) (auto simp: cache_inv_def)
qed

lemma delete_all_ok:
  assumes "engine_inv env hist e"
  shows "\<exists>e'. delete_all env is e = Some (Inr (), e') \<and> engine_inv env (\<lambda>i. if i \<in> set is then [] else hist i) e'"
  using assms
proof (induction "is" arbitrary: hist e)
  case (Cons i "is")
  have inv: "initialized e" "cache_inv env hist e" "active_inv env hist e" using Cons.prems by (auto simp: engine_inv_def)
  have "cache_inv env hist (forget_series i e)" using inv(2) by (simp add: forget_series_def)
  from cache_remove_ok [OF this, of i] obtain H h b where
    r: "on_cache (hierarchy_remove i) False (forget_series i e) =
        Some (Inr b, (forget_series i e)\<lparr>cache_hierarchy := Some H, series_heap := h\<rparr>)"
      "cache_inv env (hist(i := [])) ((forget_series i e)\<lparr>cache_hierarchy := Some H, series_heap := h\<rparr>)" by blast
  let ?e1 = "(forget_series i e)\<lparr>cache_hierarchy := Some H, series_heap := h\<rparr>"
  let ?e2 = "?e1\<lparr>e_index := sharded_remove_series (env_posting env) i (e_index ?e1)\<rparr>"
  have "engine_inv env (hist(i := [])) ?e2"
    using r(2) active_inv_forget [OF inv(3), of i] inv(1) by (simp add: engine_inv_def) (simp add: forget_series_def)
  from Cons.IH [OF this] obtain e' where
    e': "delete_all env is ?e2 = Some (Inr (), e')" "engine_inv env (\<lambda>j. if j \<in> set is then [] else (hist(i := [])) j) e'" by blast
  have "(\<lambda>j. if j \<in> set is then [] else (hist(i := [])) j) = (\<lambda>j. if j \<in> set (i # is) then [] else hist j)" by auto
  with e' r(1) show ?case by simp
qed simp

lemma delete_series_ok:
  assumes "engine_inv env hist e"
  shows "\<exists>e'. delete_series env ms e = Some (Inr (), e') \<and> engine_inv env (log_op env (Delete ms) e hist) e'"
proof -
  obtain ids ix where f: "sharded_find_series (env_posting env) (env_regex env) ms (e_index e) = (ids, ix)" by force
  have "engine_inv env hist (e\<lparr>e_index := ix\<rparr>)" using assms by (simp add: engine_inv_def)
  from delete_all_ok [OF this, of ids] f assms show ?thesis
    by (simp add: delete_series_def engine_inv_def found_ids_def)
qed

section \<open>Flush and maintenance\<close>

lemma flush_series_ok:
  assumes "engine_inv env hist e" "map_of (active_series e) i = Some ser" "length (hist i) < 2 ^ 32"
  shows "engine_inv env hist (flush_series env wall (i, ser) e)"
    "j \<noteq> i \<Longrightarrow> map_of (active_series (flush_series env wall (i, ser) e)) j = map_of (active_series e) j"
proof -
  have inv: "active_inv env hist e" using assms(1) by (simp add: engine_inv_def)
  note ser = active_invD(2) [OF inv assms(2)]
  obtain r ser' where seal: "seal_block ser = (r, ser')" by force
  have "engine_inv env hist (flush_series env wall (i, ser) e)
    \<and> (j \<noteq> i \<longrightarrow> map_of (active_series (flush_series env wall (i, ser) e)) j = map_of (active_series e) j)"
  proof (cases r)
    case None
    then show ?thesis using seal assms(1) by (simp add: flush_series_def)
  next
    case (Some b)
    let ?b = "b\<lparr>obj := block_flush (obj b)\<rparr>"
    let ?ser = "mutate_block ?b ser'"
    have ok: "series_inv ?ser (hist i)" "addresses_ok (e_alloc e) ?ser" "metadata ?ser = metadata ser"
      using seal_flush_ok(2) [OF _ assms(3), of ser "e_alloc e" b ser'] ser seal Some by auto
    have e1: "engine_inv env hist (store_series i ?ser e)"
      using store_series_inv [OF assms(1) ok(1,2)] ok(3) ser by simp
    have at: "map_of (active_series (store_series i ?ser e)) i \<noteq> None" by (simp add: smap_simps)
    have "flush_series env wall (i, ser) e =
        persist_block env wall i (md_labels (metadata ?ser)) ?b (store_series i ?ser e)"
      using seal Some ok(3) ser by (simp add: flush_series_def Let_def)
    with persist_block_ok [OF e1 at, of wall "md_labels (metadata ?ser)" ?b] show ?thesis
      by (simp add: smap_simps)
  qed
  then show "engine_inv env hist (flush_series env wall (i, ser) e)"
    "j \<noteq> i \<Longrightarrow> map_of (active_series (flush_series env wall (i, ser) e)) j = map_of (active_series e) j"
    by auto
qed

lemma flush_fold_ok:
  assumes "engine_inv env hist e" "distinct (map fst xs)" "\<forall>(i, ser) \<in> set xs. map_of (active_series e) i = Some ser"
    "\<forall>i. length (hist i) < 2 ^ 32"
  shows "engine_inv env hist (fold (flush_series env wall) xs e)"
  using assms(1-3)
proof (induction xs arbitrary: e)
  case (Cons x xs)
  obtain i ser where x: "x = (i, ser)" by force
  have at: "map_of (active_series e) i = Some ser" using Cons.prems(3) x by simp
  note step = flush_series_ok [OF Cons.prems(1) at assms(4) [rule_format], where wall = wall]
  have "map_of (active_series (flush_series env wall (i, ser) e)) j = Some ser'" if "(j, ser') \<in> set xs" for j ser'
  proof -
    have "j \<noteq> i" using that Cons.prems(2) x by force
    with step(2) [OF this] that Cons.prems(3) show ?thesis by auto
  qed
  then show ?case using Cons.IH [OF step(1)] Cons.prems(2) x by auto
qed simp

lemma engine_flush_ok:
  assumes "engine_inv env hist e" "\<forall>i. length (hist i) < 2 ^ 32"
  shows "engine_inv env hist (snd (engine_flush env wall e))"
proof -
  have ok: "smap_ok (active_series e)" using assms(1) by (simp add: engine_inv_def active_inv_def)
  have "engine_inv env hist (fold (flush_series env wall) (active_series e) e)"
    using flush_fold_ok [OF assms(1) _ _ assms(2), of "active_series e" wall] smap_ok_distinct [OF ok]
    by auto
  moreover have "initialized e" using assms(1) by (simp add: engine_inv_def)
  ultimately show ?thesis
    by (auto simp: engine_flush_def flush_nolock_def Let_def engine_inv_def split: prod.split)
qed

lemma maintenance_ok:
  assumes "engine_inv env hist e"
  shows "\<exists>e'. on_cache (perform_maintenance now order) () e = Some (Inr (), e') \<and> engine_inv env hist e'"
proof -
  let ?sid = "calculate_series_id env"
  have inv: "cache_inv env hist e" using assms by (simp add: engine_inv_def)
  then obtain H where H: "cache_hierarchy e = Some H" "series_cache.contents ?sid hist (H, series_heap e)"
      "\<forall>p. next_series e \<le> p \<longrightarrow> series_heap e p = None"
    by (auto simp: cache_inv_def)
  from series_cache.maintenance_contents [OF H(2), of now order] obtain s' where
    s': "perform_maintenance now order (H, series_heap e) = Some (Inr (), s')" "series_cache.later ?sid hist (H, series_heap e) s'"
    by blast
  obtain H' h where "s' = (H', h)" by force
  note m = s' [unfolded this]
  have "series_cache.contents ?sid hist (H', h)" "dom h = dom (series_heap e)"
    using m(2) by (simp_all add: series_cache.later_def)
  then have "cache_inv env hist (e\<lparr>cache_hierarchy := Some H', series_heap := h\<rparr>)"
    using H(3) by (auto simp: cache_inv_def)
  then show ?thesis using m(1) H(1) assms by (simp add: on_cache_def engine_inv_def)
qed

section \<open>Every operation keeps the invariant\<close>

lemma engine_read_ok:
  assumes "engine_inv env hist e" "env_ok env"
  shows "\<exists>r e'. engine_read env now l t0 t1 e = Some (r, e') \<and> cache_step env hist e e'
    \<and> (sint t0 \<le> sint t1 \<longrightarrow> (\<exists>ts. r = Inr ts \<and> read_ok env hist l t0 t1 ts))"
proof -
  have inv: "initialized e" "cache_inv env hist e" "active_inv env hist e" using assms(1) by (auto simp: engine_inv_def)
  show ?thesis
    using read_nolock_ok [OF inv(2,3) assms(2), of now l t0 t1] cache_step_refl [OF inv(2)] inv(1)
    by (auto simp: engine_read_def)
qed

lemma engine_query_ok:
  assumes "engine_inv env hist e" "env_ok env"
  shows "\<exists>r e'. engine_query env now late ms t0 t1 e = Some (r, e') \<and> engine_inv env hist e'
    \<and> (sint t0 < sint t1 \<longrightarrow> (\<exists>tss. r = Inr tss \<and> (\<forall>ts \<in> set tss. \<exists>l. read_ok env hist l t0 t1 ts)))"
proof -
  obtain found ix where f: "sharded_find_series_with_labels (env_posting env) (env_regex env) ms (e_index e) = (found, ix)" by force
  have inv: "engine_inv env hist (e\<lparr>e_index := ix\<rparr>)" using assms(1) by (simp add: engine_inv_def)
  then have parts: "cache_inv env hist (e\<lparr>e_index := ix\<rparr>)" "active_inv env hist (e\<lparr>e_index := ix\<rparr>)"
    by (auto simp: engine_inv_def)
  obtain tss e' where q: "run_query env now late t0 t1 found 0 0 [] (e\<lparr>e_index := ix\<rparr>) = Some (tss, e')"
      "cache_step env hist (e\<lparr>e_index := ix\<rparr>) e'" "\<forall>ts \<in> set tss. \<exists>l. read_ok env hist l t0 t1 ts"
    using run_query_ok [OF parts assms(2), of "[]" t0 t1 now late found 0 0] by auto
  have "initialized e" using assms(1) by (simp add: engine_inv_def)
  with assms(1) f q cache_step_inv [OF inv q(2)] show ?thesis
    by (auto simp: engine_query_def)
qed

theorem engine_step_inv:
  assumes "engine_inv env hist e" "env_ok env" "regular op (log_op env op e hist)" "engine_step env op e = Returns e'"
  shows "engine_inv env (log_op env op e hist) e'"
proof (cases op)
  case (Write now wall ts)
  then show ?thesis
    using engine_write_ok [of env hist e now wall ts] assms by (auto split: run.splits)
next
  case (Read now l t0 t1)
  then show ?thesis
    using engine_read_ok [OF assms(1,2), of now l t0 t1] assms(1,4) cache_step_inv [OF assms(1)]
    by (auto simp: of_option_def)
next
  case (Query now late ms t0 t1)
  then show ?thesis
    using engine_query_ok [OF assms(1,2), of now late ms t0 t1] assms(4) by (auto simp: of_option_def)
next
  case (Delete ms)
  then show ?thesis using delete_series_ok [OF assms(1), of ms] assms(4) by (auto simp: of_option_def)
next
  case (Flush wall)
  then show ?thesis using engine_flush_ok [OF assms(1), of wall] assms(3,4) by (auto simp: regular_def)
next
  case Compact
  then show ?thesis
    using assms(1,4) by (auto simp: engine_compact_def engine_inv_def split: prod.splits if_splits)
next
  case (LogWorker k)
  then show ?thesis using assms(1,4) by (auto simp: log_worker_def engine_inv_def Let_def)
next
  case (Maintenance now)
  then show ?thesis using maintenance_ok [OF assms(1), of now "env_order env"] assms(4) by (auto simp: of_option_def)
qed

section \<open>A new engine\<close>

lemma new_shards:
  "mk_wal_shards opens base (\<lambda>_. []) is = Inr ss \<Longrightarrow> length ss = length is \<and> (\<forall>s \<in> set ss. fst (shard_replay s) = []
     \<and> length (shard_queue (snd (shard_replay s))) < max_queue_size (snd (shard_replay s)))"
proof (induction "is" arbitrary: ss)
  case (Cons i "is")
  obtain w ss' where w: "mk_wal opens (shard_dir base i) [] = Inr w" "mk_wal_shards opens base (\<lambda>_. []) is = Inr ss'"
      "ss = mk_wal_shard 10000 w # ss'"
    using Cons.prems by (auto split: sum.splits)
  have "fst (shard_replay (mk_wal_shard 10000 w)) = []"
    using w(1) by (auto simp: mk_wal_def Let_def open_segment_def file_contents_def shard_replay_def mk_wal_shard_def
        wal_replay_def wal_flush_def stream_flush_def replay_segment_def split: if_splits)
  moreover have "length (shard_queue (snd (shard_replay (mk_wal_shard 10000 w)))) < max_queue_size (snd (shard_replay (mk_wal_shard 10000 w)))"
    by (auto simp: shard_replay_def mk_wal_shard_def split: prod.split)
  ultimately show ?case using Cons.IH [OF w(2)] w(3) by simp
qed simp

lemma new_engine_state:
  assumes "engine_init env cfg (\<lambda>_. []) [] (mk_engine stack) = Returns (Inr (), e0)" "env_ok env"
  shows "\<exists>w m H. mk_hierarchy (env_can_create env) (engine_cache_config cfg) = Inr H
    \<and> (\<forall>s \<in> set (wal_shards w). length (shard_queue s) < max_queue_size s) \<and> length (wal_shards w) = 16
    \<and> disk_of m = [] \<and> e0 = (mk_engine stack)\<lparr>e_index := mk_sharded_index 16, e_wal := w, e_blocks := m, initialized := True,
         cache_hierarchy := Some (if cfg_background cfg then start_background_processing H else H)\<rparr>"
proof -
  obtain w where w: "mk_sharded_wal (env_opens env) (cfg_data_dir cfg @ ''/wal'') (\<lambda>_. []) 16 = Inr w"
    using assms(1) by (auto simp: engine_init_def mk_engine_def split: sum.splits)
  have shards: "mk_wal_shards (env_opens env) (cfg_data_dir cfg @ ''/wal'') (\<lambda>_. []) [0..<16] = Inr (wal_shards w)"
    using w by (cases "mk_wal_shards (env_opens env) (cfg_data_dir cfg @ ''/wal'') (\<lambda>_. []) [0..<16]") (auto simp: mk_sharded_wal_def)
  note new = new_shards [OF shards]
  have "concat (map (\<lambda>s. fst (shard_replay s)) (wal_shards w)) = []" using new by simp
  then obtain w' where replay: "sharded_replay w = ([], w')" "wal_shards w' = map (\<lambda>s. snd (shard_replay s)) (wal_shards w)"
    by (simp add: sharded_replay_def)
  have room: "\<forall>s \<in> set (wal_shards w'). length (shard_queue s) < max_queue_size s" "length (wal_shards w') = 16"
    using new by (auto simp: replay(2))
  have empty: "env_dir_order env [] = []" "env_sort_headers env [] = []"
    using assms(2) by (metis env_ok_def mset_zero_iff)+
  let ?e = "(mk_engine stack)\<lparr>e_index := mk_sharded_index 16, e_wal := w'\<rparr>"
  obtain m where run: "init_cache env cfg (?e\<lparr>e_blocks := m\<rparr>) = Returns (Inr (), e0)" "disk_of m = []"
    using assms(1) w replay(1) empty
    by (auto simp: engine_init_def recover_engine_def mk_block_manager_def recoverBlocks_def scan_tier_def mk_engine_def
        split: if_splits)
  from run(1) obtain H where "mk_hierarchy (env_can_create env) (engine_cache_config cfg) = Inr H"
      "e0 = ?e\<lparr>e_blocks := m, initialized := True,
         cache_hierarchy := Some (if cfg_background cfg then start_background_processing H else H)\<rparr>"
    by (auto simp: init_cache_def mk_engine_def split: sum.splits construction_error.splits)
  with room run(2) show ?thesis by blast
qed

lemma new_engine_inv:
  assumes "engine_init env cfg (\<lambda>_. []) [] (mk_engine stack) = Returns (Inr (), e0)" "env_ok env"
  shows "engine_inv env (\<lambda>i. []) e0"
proof -
  obtain w m H where e0: "mk_hierarchy (env_can_create env) (engine_cache_config cfg) = Inr H"
      "e0 = (mk_engine stack)\<lparr>e_index := mk_sharded_index 16, e_wal := w, e_blocks := m, initialized := True,
         cache_hierarchy := Some (if cfg_background cfg then start_background_processing H else H)\<rparr>"
    using new_engine_state [OF assms] by blast
  let ?H = "if cfg_background cfg then start_background_processing H else H"
  have same: "l1_cache ?H = l1_cache H" "l2_cache ?H = l2_cache H" by (simp_all add: start_background_processing_def)
  have "hierarchy_ok (H, Map.empty) \<and> held (H, Map.empty) = {}"
    using mk_hierarchy_ok [OF e0(1), of Map.empty] by (simp add: sized_def)
  then have "series_cache.contents (calculate_series_id env) (\<lambda>i. []) (?H, Map.empty)"
    unfolding series_cache.contents_def counters_held [OF same] by simp
  then have "cache_inv env (\<lambda>i. []) e0" unfolding cache_inv_def e0(2) by (simp add: mk_engine_def)
  moreover have "active_inv env (\<lambda>i. []) e0" "initialized e0"
    unfolding e0(2) by (simp_all add: active_inv_def mk_engine_def)
  ultimately show ?thesis by (simp add: engine_inv_def)
qed

lemma engine_run_inv:
  assumes "engine_run env regular e0 e hist" "env_ok env" "engine_inv env (\<lambda>i. []) e0"
  shows "engine_inv env hist e"
  using assms(1)
proof (induction rule: engine_run.induct)
  case run_init
  show ?case by (rule assms(3))
next
  case (run_op e hist op e')
  from engine_step_inv [OF run_op.IH assms(2) run_op.hyps(2,3)] show ?case .
qed

lemma reachable_inv:
  assumes "env_ok env" "engine_init env cfg (\<lambda>_. []) [] (mk_engine stack) = Returns (Inr (), e0)"
    "engine_run env regular e0 e hist"
  shows "engine_inv env hist e"
  by (rule engine_run_inv [OF assms(3,1) new_engine_inv [OF assms(2,1)]])

lemma all_shards_open: "\<forall>p. opens p \<Longrightarrow> \<exists>ss. mk_wal_shards opens base found is = Inr ss"
proof (induction "is")
  case (Cons i "is")
  then obtain ss where "mk_wal_shards opens base found is = Inr ss" by blast
  moreover have "\<exists>w. mk_wal opens (shard_dir base i) (found i) = Inr w"
    using Cons.prems by (simp add: mk_wal_def Let_def open_segment_def)
  ultimately show ?case by auto
qed simp

lemma engine_starts:
  assumes "env_ok env" "\<forall>p. env_opens env p" "\<forall>p. env_can_create env p" "cfg_data_dir cfg \<noteq> []"
  shows "\<exists>e0. engine_init env cfg (\<lambda>_. []) [] (mk_engine stack) = Returns (Inr (), e0)"
proof -
  obtain ss where ss: "mk_wal_shards (env_opens env) (cfg_data_dir cfg @ ''/wal'') (\<lambda>_. []) [0..<16] = Inr ss"
    using all_shards_open [OF assms(2)] by blast
  obtain w w' where w: "mk_sharded_wal (env_opens env) (cfg_data_dir cfg @ ''/wal'') (\<lambda>_. []) 16 = Inr w" "sharded_replay w = ([], w')"
    using ss new_shards [OF ss] by (simp add: mk_sharded_wal_def sharded_replay_def)
  moreover have "env_dir_order env [] = []" "env_sort_headers env [] = []"
    using assms(1) by (metis env_ok_def mset_zero_iff)+
  ultimately show ?thesis
    using assms(3,4)
    by (simp add: engine_init_def mk_engine_def recover_engine_def mk_block_manager_def
        recoverBlocks_def scan_tier_def init_cache_def mk_hierarchy_def engine_cache_config_def mk_cache_def Let_def
        split: option.split)
qed

lemma first_write:
  assumes "engine_init env cfg (\<lambda>_. []) [] (mk_engine stack) = Returns (Inr (), e0)" "env_ok env"
    "regular (Write now wall ts) (log_op env (Write now wall ts) e0 (\<lambda>i. []))"
  shows "\<exists>e. engine_step env (Write now wall ts) e0 = Returns e"
proof -
  obtain w where w: "\<forall>s \<in> set (wal_shards w). length (shard_queue s) < max_queue_size s" "length (wal_shards w) = 16" "e_wal e0 = w"
    using new_engine_state [OF assms(1,2)] by auto
  let ?k = "wal_shard_index (env_hash env) 16 ts"
  have "?k < 16" by (simp add: wal_shard_index_def)
  then have "wal_shards w ! ?k \<in> set (wal_shards w)" using w(2) by simp
  with w have "sharded_log (env_hash env) ts (e_wal e0) \<noteq> None"
    by (auto simp: sharded_log_def shard_log_def Let_def)
  then have "engine_write env now wall ts e0 \<noteq> Blocks"
    by (auto simp: engine_write_def split: option.splits)
  then show ?thesis using engine_write_ok [OF new_engine_inv [OF assms(1,2)] assms(2,3)] by auto
qed

section \<open>Properties\<close>

text \<open>
  C5: No sequence of the operations write, read, query, delete series, flush, compact, step of a log thread
  and run of the cache maintenance, in any order on a new engine, reaches a
  state in which one of these operations touches a freed or missing object or throws: it returns, or it is a
  write that waits for room in the queue of its log shard. Written series are sorted and have no sample at time 0, and
  no series gets \<open>2^32\<close> samples. Aggregating queries are not among the operations: \<open>query_aggregate\<close> can be
  undefined (a quantile over NaN values) and throws for an empty label name.
\<close>

theorem engine_operations_defined:
  assumes "env_ok env" "engine_init env cfg (\<lambda>_. []) [] (mk_engine stack) = Returns (Inr (), e0)"
    "engine_run env regular e0 e hist" "regular op (log_op env op e hist)"
  shows "(\<exists>e'. engine_step env op e = Returns e')
    \<or> (\<exists>now wall ts. op = Write now wall ts \<and> engine_step env op e = Blocks)"
proof -
  note inv = reachable_inv [OF assms(1-3)]
  show ?thesis
  proof (cases op)
    case (Write now wall ts)
    then show ?thesis
      using engine_write_ok [OF inv assms(1), of now wall ts] assms(4)
      by (cases "engine_write env now wall ts e = Blocks") auto
  next
    case (Read now l t0 t1)
    then show ?thesis using engine_read_ok [OF inv assms(1), of now l t0 t1] by (auto simp: of_option_def)
  next
    case (Query now late ms t0 t1)
    then show ?thesis using engine_query_ok [OF inv assms(1), of now late ms t0 t1] by (auto simp: of_option_def)
  next
    case (Delete ms)
    then show ?thesis using delete_series_ok [OF inv, of ms] by (auto simp: of_option_def)
  next
    case (Maintenance now)
    then show ?thesis using maintenance_ok [OF inv, of now "env_order env"] by (auto simp: of_option_def)
  qed auto
qed

definition example_env :: "series_id list engine_env" where
  "example_env = \<lparr>env_hash = (\<lambda>s. of_nat (length s)), env_sort = sort_key (\<lambda>s. sint (timestamp s)),
     env_sort_headers = sort_key (\<lambda>h. sint (start_time h)), env_posting = vector_ops, env_regex = (\<lambda>_. None),
     env_opens = (\<lambda>_. True), env_can_create = (\<lambda>_. True), env_order = (\<lambda>xs. xs), env_dir_order = (\<lambda>d. d),
     env_max_vector = 1000000, env_stack = header_of_bytes (replicate 56 0)\<rparr>"

definition example_engine_config :: engine_config where
  "example_engine_config = \<lparr>cfg_data_dir = ''d'', cfg_background = True\<rparr>"

lemma example_env_ok: "env_ok example_env"
  using stable_sort.std_sort_axioms by (simp add: env_ok_def example_env_def)

lemma example_entry_ok:
  "series_ok example_entry" "chronological (ts_samples example_entry)" "\<forall>s \<in> set (ts_samples example_entry). timestamp s \<noteq> 0"
  "ts_samples example_entry \<noteq> []" "ts_labels example_entry \<noteq> []"
  by (simp_all add: example_entry_def series_ok_def chronological_def mk_sample_def smap_ok_def)

definition example_history :: history where
  "example_history = (\<lambda>i. if i = calculate_series_id example_env (ts_labels example_entry) then ts_samples example_entry else [])"

lemma example_log: "log_op example_env (Write now wall example_entry) e (\<lambda>i. []) = example_history"
  using example_entry_ok(4,5) by (auto simp: example_history_def)

lemma example_regular: "regular (Write now wall example_entry) example_history"
  using example_entry_ok(1,3) by (auto simp: regular_def example_history_def) (simp add: example_entry_def)

lemma example_engine_run:
  assumes "G (Write 0 0 example_entry) example_history"
  obtains e0 e where "engine_init example_env example_engine_config (\<lambda>_. []) [] (mk_engine (env_stack example_env)) = Returns (Inr (), e0)"
    "engine_run example_env G e0 e example_history"
proof -
  obtain e0 where e0: "engine_init example_env example_engine_config (\<lambda>_. []) [] (mk_engine (env_stack example_env)) = Returns (Inr (), e0)"
    using engine_starts [OF example_env_ok, of example_engine_config] by (auto simp: example_env_def example_engine_config_def)
  obtain e where e: "engine_step example_env (Write 0 0 example_entry) e0 = Returns e"
    using first_write [OF e0 example_env_ok, of 0 0 example_entry] example_regular [of 0 0] unfolding example_log by blast
  have "engine_run example_env G e0 e (log_op example_env (Write 0 0 example_entry) e0 (\<lambda>i. []))"
    using run_op [OF run_init _ e] assms unfolding example_log by metis
  with e0 that show thesis unfolding example_log by blast
qed

theorem engine_operations_defined_witness:
  "\<exists>e0 e. engine_init example_env example_engine_config (\<lambda>_. []) [] (mk_engine (env_stack example_env)) = Returns (Inr (), e0)
     \<and> engine_run example_env regular e0 e example_history \<and> (\<exists>e'. engine_step example_env (Maintenance 90) e = Returns e')"
proof -
  obtain e0 e where run: "engine_init example_env example_engine_config (\<lambda>_. []) [] (mk_engine (env_stack example_env)) = Returns (Inr (), e0)"
    "engine_run example_env regular e0 e example_history" using example_regular by (rule example_engine_run)
  have "regular (Maintenance 90) (log_op example_env (Maintenance 90) e example_history)"
    using example_regular [of 0 0] by (simp add: regular_def)
  from engine_operations_defined [OF example_env_ok run this] run show ?thesis by blast
qed

text \<open>
  C4: Whatever was done before, a read on the engine succeeds, and it returns samples in the order of
  their timestamps, each of them written to that series since the series was last deleted and
  inside the range: the caches never show a deleted sample, a sample of another series or one
  that was never written.
\<close>

theorem reads_return_written:
  assumes "env_ok env" "engine_init env cfg (\<lambda>_. []) [] (mk_engine stack) = Returns (Inr (), e0)"
    "engine_run env regular e0 e hist" "sint t0 \<le> sint t1"
  shows "\<exists>ts e'. engine_read env now l t0 t1 e = Some (Inr ts, e') \<and> chronological (ts_samples ts)
    \<and> point ` set (ts_samples ts) \<subseteq> point ` {s \<in> set (hist (calculate_series_id env l)). in_range t0 t1 s}"
  using engine_read_ok [OF reachable_inv [OF assms(1-3)] assms(1), of now l t0 t1] assms(4)
  unfolding read_ok_def by blast

theorem reads_return_written_witness:
  "\<exists>e0 e ts e'. engine_init example_env example_engine_config (\<lambda>_. []) [] (mk_engine (env_stack example_env)) = Returns (Inr (), e0)
     \<and> engine_run example_env regular e0 e example_history
     \<and> engine_read example_env 5 [(''job'', ''a'')] 15 30 e = Some (Inr ts, e')
     \<and> chronological (ts_samples ts) \<and> point ` set (ts_samples ts) \<subseteq> {point (mk_sample 20 2)}"
proof -
  obtain e0 e where run: "engine_init example_env example_engine_config (\<lambda>_. []) [] (mk_engine (env_stack example_env)) = Returns (Inr (), e0)"
    "engine_run example_env regular e0 e example_history" using example_regular by (rule example_engine_run)
  obtain ts e' where read: "engine_read example_env 5 [(''job'', ''a'')] 15 30 e = Some (Inr ts, e')" "chronological (ts_samples ts)"
    "point ` set (ts_samples ts) \<subseteq>
       point ` {s \<in> set (example_history (calculate_series_id example_env [(''job'', ''a'')])). in_range 15 30 s}"
    using reads_return_written [OF example_env_ok run, of 15 30 5 "[(''job'', ''a'')]"] by auto
  have "{s \<in> set (example_history (calculate_series_id example_env [(''job'', ''a'')])). in_range 15 30 s} = {mk_sample 20 2}"
    by (auto simp: example_history_def example_entry_def in_range_def mk_sample_def)
  with read run show ?thesis by auto
qed

end
