(* ===== verification/Storage_Exactness.thy ===== *)
theory Storage_Exactness
  imports Storage_Consistency
begin

text \<open>
  When the cache hierarchy of the storage engine holds every series completely. While the samples of
  each series are written in the order of their timestamps, fewer than 50000 series exist and the
  background maintenance does not run, the L1 cache holds exactly the samples of every series, and
  a read returns exactly what was written in its range.
\<close>

section \<open>A cache that holds everything\<close>

definition exact :: "(labels \<Rightarrow> uint64) \<Rightarrow> history \<Rightarrow> hstate \<Rightarrow> bool" where
  "exact sid hist s \<longleftrightarrow> hierarchy_ok s \<and> in_l2 s = Map.empty \<and> max_size (l1_cache (fst s)) = 50000
     \<and> (\<forall>i. case in_l1 s i of
          None \<Rightarrow> hist i = []
        | Some q \<Rightarrow> hist i \<noteq> [] \<and> (\<exists>ts. snd s q = Some ts \<and> ts_samples ts = hist i \<and> sid (ts_labels ts) = i))"

lemma exactD:
  assumes "exact sid hist s"
  shows "hierarchy_ok s" "in_l2 s = Map.empty" "max_size (l1_cache (fst s)) = 50000" "in_l1 s i = None \<longleftrightarrow> hist i = []"
    "in_l1 s i = Some q \<Longrightarrow> \<exists>ts. snd s q = Some ts \<and> ts_samples ts = hist i \<and> sid (ts_labels ts) = i"
proof -
  show "hierarchy_ok s" "in_l2 s = Map.empty" "max_size (l1_cache (fst s)) = 50000"
    using assms by (simp_all add: exact_def)
  have "case in_l1 s i of
          None \<Rightarrow> hist i = []
        | Some q \<Rightarrow> hist i \<noteq> [] \<and> (\<exists>ts. snd s q = Some ts \<and> ts_samples ts = hist i \<and> sid (ts_labels ts) = i)"
    using assms by (simp only: exact_def)
  then show "in_l1 s i = None \<longleftrightarrow> hist i = []"
    "in_l1 s i = Some q \<Longrightarrow> \<exists>ts. snd s q = Some ts \<and> ts_samples ts = hist i \<and> sid (ts_labels ts) = i"
    by (simp_all split: option.splits)
qed

lemma exact_same:
  assumes "exact sid hist s" "hierarchy_ok s'" "frame s s'" "in_l1 s' = in_l1 s" "in_l2 s' = in_l2 s" "snd s' = snd s"
  shows "exact sid hist s'"
  using assms by (simp add: exact_def frame_def cong: option.case_cong)

lemma exact_counters [simp]:
  "exact sid hist (H\<lparr>total_hits := x\<rparr>, h) = exact sid hist (H, h)"
  "exact sid hist (H\<lparr>total_misses := x\<rparr>, h) = exact sid hist (H, h)"
  "exact sid hist (H\<lparr>l1_hits := x\<rparr>, h) = exact sid hist (H, h)"
  by (simp_all add: exact_def in_l1_def in_l2_def hierarchy_ok_def cong: option.case_cong)

lemma exact_get:
  assumes "exact sid hist s"
  shows "\<exists>s'. hierarchy_get now i s = Some (Inr (in_l1 s i), s') \<and> exact sid hist s' \<and> snd s' = snd s"
proof -
  obtain s1 where s1: "l1_get now i s = Some (Inr (in_l1 s i), s1)" "hierarchy_ok s1" "frame s s1"
      "in_l1 s1 = in_l1 s" "in_l2 s1 = in_l2 s"
    using l1_get_ok [OF exactD(1) [OF assms], of now i] by blast
  note e1 = exact_same [OF assms s1(2-5) heap_unchanged(1) [OF s1(1)]] and h1 = heap_unchanged(1) [OF s1(1)]
  obtain s2 where s2: "l2_get now i s1 = Some (Inr (in_l2 s1 i), s2)" "hierarchy_ok s2" "frame s1 s2"
      "in_l1 s2 = in_l1 s1" "in_l2 s2 = in_l2 s1"
    using l2_get_ok [OF s1(2), of now i] by blast
  note e2 = exact_same [OF e1 s2(2-5) heap_unchanged(3) [OF s2(1)]] and h2 = heap_unchanged(3) [OF s2(1)]
  have "in_l2 s1 i = None" using exactD(2) [OF e1] by simp
  then show ?thesis
    using s1(1) s2(1) e1 e2 h1 h2 by (cases s1; cases s2; cases "in_l1 s i")
      (auto simp: hierarchy_get_def count_hit_def returns_def)
qed

lemma exact_remove:
  assumes "exact sid hist s"
  shows "\<exists>b s'. hierarchy_remove i s = Some (Inr b, s') \<and> exact sid (hist(i := [])) s'"
proof -
  obtain s1 where s1: "l1_remove i s = Some (Inr (i \<in> dom (in_l1 s)), s1)" "hierarchy_ok s1" "frame s s1"
      "in_l1 s1 = (in_l1 s)(i := None)" "in_l2 s1 = in_l2 s"
    using l1_remove_ok [OF exactD(1) [OF assms], of i] by blast
  obtain s2 where s2: "l2_remove i s1 = Some (Inr (i \<in> dom (in_l2 s1)), s2)" "hierarchy_ok s2" "frame s1 s2"
      "in_l1 s2 = in_l1 s1" "in_l2 s2 = (in_l2 s1)(i := None)"
    using l2_remove_ok [OF s1(2), of i] by blast
  have heap: "snd s2 = snd s" using heap_unchanged(2) [OF s1(1)] heap_unchanged(5) [OF s2(1)] by simp
  have "case in_l1 s2 j of
        None \<Rightarrow> (hist(i := [])) j = []
      | Some q \<Rightarrow> (hist(i := [])) j \<noteq> []
          \<and> (\<exists>ts. snd s2 q = Some ts \<and> ts_samples ts = (hist(i := [])) j \<and> sid (ts_labels ts) = j)" for j
    using exactD(4,5) [OF assms, of j] by (cases "in_l1 s j") (auto simp: s1(4) s2(4) heap)
  then have "exact sid (hist(i := [])) s2"
    using exactD(2,3) [OF assms] s1(3,5) s2(2,3,5) unfolding exact_def by (auto simp: frame_def)
  then show ?thesis using s1(1) s2(1) by (simp add: hierarchy_remove_def returns_def)
qed

text \<open>Later samples are all appended.\<close>

lemma merge_loop_appends:
  assumes "chronological (ts_samples ts @ ss)" "has \<longleftrightarrow> ts_samples ts \<noteq> []" "has \<Longrightarrow> last_ts = timestamp (last (ts_samples ts))"
  shows "merge_loop ss last_ts has ts = Inr (ts\<lparr>ts_samples := ts_samples ts @ ss\<rparr>)"
  using assms
proof (induction ss arbitrary: last_ts has ts)
  case (Cons s ss)
  let ?ts = "ts\<lparr>ts_samples := ts_samples ts @ [s]\<rparr>"
  have later: "ts_samples ts \<noteq> [] \<Longrightarrow> sint (timestamp (last (ts_samples ts))) < sint (timestamp s)"
    using Cons.prems(1) by (simp add: chronological_def sorted_wrt_append)
  then have "\<not> has \<or> sint last_ts < sint (timestamp s)" using Cons.prems(2,3) by auto
  moreover have "add_sample s ts = Inr ?ts"
    using later by (auto simp: add_sample_def)
  moreover have "merge_loop ss (timestamp s) True ?ts = Inr (?ts\<lparr>ts_samples := ts_samples ?ts @ ss\<rparr>)"
    using Cons.prems(1) by (intro Cons.IH) auto
  ultimately show ?case by simp
qed simp

lemma merge_into_appends:
  assumes "chronological (ts_samples ts @ ss)"
  shows "merge_into ss ts = Inr (ts\<lparr>ts_samples := ts_samples ts @ ss\<rparr>)"
  using merge_loop_appends [OF assms, of False 0] merge_loop_appends [OF assms, of True "timestamp (last (ts_samples ts))"]
  by (simp add: merge_into_def)

lemma exact_room:
  assumes "exact sid hist s" "card {i. hist i \<noteq> []} < 50000"
  shows "\<not> is_full (l1_cache (fst s))"
proof -
  let ?c = "l1_cache (fst s)"
  have ok: "cache_ok ?c" using exactD(1) [OF assms(1)] by (simp add: hierarchy_ok_def)
  have "dom (in_l1 s) = {i. hist i \<noteq> []}" using exactD(4) [OF assms(1)] by (simp add: dom_def)
  moreover have "dom (in_l1 s) = set (map ce_id (lru_list ?c))"
    by (simp add: in_l1_def dom_map_of_conv_image_fst recency_def image_image)
  moreover have "distinct (map ce_id (lru_list ?c))" using ok by (simp add: cache_ok_def)
  ultimately have "length (lru_list ?c) = card {i. hist i \<noteq> []}" by (metis distinct_card length_map)
  then show ?thesis using assms(2) exactD(3) [OF assms(1)] cache_okD(3) [OF ok] by (simp add: is_full_def)
qed

lemma exact_put:
  assumes "exact sid hist s" "snd s p = Some ts" "sid (ts_labels ts) = i" "ts_samples ts \<noteq> []"
    "chronological (hist i @ ts_samples ts)" "card {i. hist i \<noteq> []} < 50000"
  shows "\<exists>s'. hierarchy_put now order i (Some p) s = Some (Inr True, s') \<and> exact sid (hist(i := hist i @ ts_samples ts)) s'"
proof -
  let ?hist = "hist(i := hist i @ ts_samples ts)"
  note ok = exactD(1) [OF assms(1)] and room = exact_room [OF assms(1,6)]
  obtain s1 where s1: "l1_put now i p s = Some (Inr (), s1)" "hierarchy_ok s1" "frame s s1" "in_l2 s1 = in_l2 s"
      "in_l1 s1 = (if i \<in> dom (in_l1 s) then in_l1 s else (in_l1 s)(i \<mapsto> p))"
    using l1_put_ok [OF ok _ room, of p now i] assms(2) by blast
  have "case in_l1 s1 j of
        None \<Rightarrow> ?hist j = []
      | Some q \<Rightarrow> ?hist j \<noteq> [] \<and> (\<exists>ts. snd s1 q = Some ts \<and> ts_samples ts = ?hist j \<and> sid (ts_labels ts) = j)" for j
  proof (cases "in_l1 s i")
    case None
    then have "hist i = []" "snd s1 = snd s"
      using exactD(4) [OF assms(1), of i] l1_put_heap [OF ok s1(1)] by auto
    then show ?thesis
      using exactD(4,5) [OF assms(1), of j] None assms(2-4) s1(5) by (cases "in_l1 s j") (auto simp: domIff)
  next
    case (Some q)
    then obtain old where old: "snd s q = Some old" "ts_samples old = hist i" "sid (ts_labels old) = i"
      using exactD(5) [OF assms(1)] by blast
    have "snd s1 = (snd s)(q \<mapsto> old\<lparr>ts_samples := hist i @ ts_samples ts\<rparr>)"
      using l1_put_heap [OF ok s1(1)] Some old assms(2,5) merge_into_appends [of old "ts_samples ts"] by auto
    then show ?thesis
      using exactD(4,5) [OF assms(1), of j] Some old assms(4) s1(5) by (cases "in_l1 s j") (auto simp: domIff)
  qed
  then have "exact sid ?hist s1"
    using exactD(2,3) [OF assms(1)] s1(2-4) unfolding exact_def frame_def by simp
  moreover have "cache_size (l1_cache (fst s)) < max_size (l1_cache (fst s))"
    using room by (simp add: is_full_def cache_size_def)
  ultimately show ?thesis using s1(1) by (simp add: hierarchy_put_def returns_def)
qed

section \<open>The engine over such a cache\<close>

definition exact_inv :: "('p, 'x) engine_env_scheme \<Rightarrow> history \<Rightarrow> 'p engine \<Rightarrow> bool" where
  "exact_inv env hist e \<longleftrightarrow> (\<exists>H. cache_hierarchy e = Some H \<and> exact (calculate_series_id env) hist (H, series_heap e))"

lemma cache_frame [simp]:
  "cache_hierarchy (link_block i l r e) = cache_hierarchy e" "series_heap (link_block i l r e) = series_heap e"
  "cache_hierarchy (store_series i ser e) = cache_hierarchy e" "series_heap (store_series i ser e) = series_heap e"
  "cache_hierarchy (forget_series i e) = cache_hierarchy e" "series_heap (forget_series i e) = series_heap e"
  "cache_hierarchy (update_bounds i ss e) = cache_hierarchy e" "series_heap (update_bounds i ss e) = series_heap e"
  by (simp_all add: link_block_def store_series_def forget_series_def update_bounds_def)

lemma persist_cache [simp]:
  "cache_hierarchy (persist_block env wall i l r e) = cache_hierarchy e"
  "series_heap (persist_block env wall i l r e) = series_heap e"
  by (auto simp: persist_block_def split: prod.split sum.split)

lemma seal_flush_cache [simp]:
  "cache_hierarchy (seal_full env wall i l ser e) = cache_hierarchy e"
  "series_heap (seal_full env wall i l ser e) = series_heap e"
  "cache_hierarchy (flush_series env wall x e) = cache_hierarchy e"
  "series_heap (flush_series env wall x e) = series_heap e"
  by (auto simp: seal_full_def flush_series_def Let_def split: prod.split option.split)

lemma seal_full_exact [simp]: "exact_inv env hist (seal_full env' wall i l ser e) = exact_inv env hist e"
  by (simp add: exact_inv_def)

lemma flush_fold_cache [simp]:
  "cache_hierarchy (fold (flush_series env wall) xs e) = cache_hierarchy e"
  "series_heap (fold (flush_series env wall) xs e) = series_heap e"
  by (induction xs arbitrary: e) simp_all

text \<open>A read of a series without samples leaves the cache alone.\<close>

lemma read_active_nothing:
  assumes "active_inv env hist e" "env_ok env" "hist (calculate_series_id env l) = []"
  shows "read_active env now l t0 t1 e = Some (Inr (mk_time_series l), e)"
proof (cases "map_of (active_series e) (calculate_series_id env l)")
  case None
  then show ?thesis
    using active_invD(1) [OF assms(1) None]
    by (simp add: read_active_def read_persisted_def read_from_blocks_nolock_def ts_empty_def mk_time_series_def)
next
  case (Some ser)
  have sort: "std_sort (env_sort env)" using assms(2) by (simp add: env_ok_def)
  have inv: "series_inv ser []" using active_invD(2) [OF assms(1) Some] assms(3) by simp
  obtain xs where xs: "series_read (env_sort env) t0 t1 ser = Some (unique_ts (env_sort env xs))" "represents xs (in_range t0 t1) []"
    using series_read_represents [OF sort inv] by blast
  have "xs = []" using xs(2) by (simp add: represents_def)
  moreover have "env_sort env [] = []" using std_sort.perm [OF sort, of "[]"] by simp
  ultimately show ?thesis
    using Some xs(1) by (simp add: read_active_def ts_empty_def mk_time_series_def)
qed

lemma lookup_series_exact:
  assumes "exact_inv env hist e"
  shows "\<exists>p e'. lookup_series now i e = Some (Inr p, e') \<and> exact_inv env hist e' \<and> active_inv env hist' e' = active_inv env hist' e
    \<and> (case p of
         None \<Rightarrow> hist i = []
       | Some q \<Rightarrow> \<exists>ts. series_heap e' q = Some ts \<and> ts_samples ts = hist i \<and> calculate_series_id env (ts_labels ts) = i
           \<and> chronological (hist i))"
proof -
  let ?sid = "calculate_series_id env"
  obtain H where H: "cache_hierarchy e = Some H" "exact ?sid hist (H, series_heap e)"
    using assms by (auto simp: exact_inv_def)
  obtain s' where get: "hierarchy_get now i (H, series_heap e) = Some (Inr (in_l1 (H, series_heap e) i), s')"
      "exact ?sid hist s'" "snd s' = series_heap e"
    using exact_get [OF H(2), of now i] by auto
  obtain H' where s': "s' = (H', series_heap e)" using get(3) by (cases s') simp
  let ?p = "in_l1 (H, series_heap e) i" and ?e = "e\<lparr>cache_hierarchy := Some H', series_heap := series_heap e\<rparr>"
  have "lookup_series now i e = Some (Inr ?p, ?e)" using H(1) get(1) s' by (simp add: lookup_series_def on_cache_def)
  moreover have "exact_inv env hist ?e" "active_inv env hist' ?e = active_inv env hist' e"
    using get(2) s' by (simp_all add: exact_inv_def)
  moreover have "case ?p of None \<Rightarrow> hist i = [] | Some q \<Rightarrow> \<exists>ts. series_heap ?e q = Some ts \<and> ts_samples ts = hist i
      \<and> ?sid (ts_labels ts) = i \<and> chronological (hist i)"
    using exactD(4) [OF H(2), of i] exactD(5) [OF H(2), of i] exactD(1) [OF H(2)]
    by (fastforce simp: hierarchy_ok_def split: option.split)
  ultimately show ?thesis by blast
qed

lemma read_nolock_exact:
  assumes "exact_inv env hist e" "active_inv env hist e" "env_ok env"
  shows "\<exists>ts e'. read_nolock env now l t0 t1 e = Some (Inr ts, e') \<and> exact_inv env hist e' \<and> active_inv env hist e'
    \<and> ts_samples ts = filter (in_range t0 t1) (hist (calculate_series_id env l))
    \<and> calculate_series_id env (ts_labels ts) = calculate_series_id env l"
proof -
  let ?i = "calculate_series_id env l"
  obtain p e' where look: "lookup_series now ?i e = Some (Inr p, e')" and inv: "exact_inv env hist e'" "active_inv env hist e'"
      and hit: "case p of None \<Rightarrow> hist ?i = [] | Some q \<Rightarrow> \<exists>ts. series_heap e' q = Some ts \<and> ts_samples ts = hist ?i
        \<and> calculate_series_id env (ts_labels ts) = ?i \<and> chronological (hist ?i)"
    using lookup_series_exact [OF assms(1), of now ?i hist] assms(2) by blast
  show ?thesis
  proof (cases p)
    case None
    then show ?thesis
      using look hit inv read_active_nothing [OF inv(2) assms(3), of l now t0 t1]
      by (simp add: read_nolock_def mk_time_series_def)
  next
    case (Some q)
    then obtain ts where ts: "series_heap e' q = Some ts" "ts_samples ts = hist ?i" "calculate_series_id env (ts_labels ts) = ?i"
        "chronological (hist ?i)"
      using hit by auto
    then show ?thesis
      using look Some inv filter_series_ok [of ts t0 t1] by (simp add: read_nolock_def)
  qed
qed

lemma run_query_exact:
  assumes "exact_inv env hist e" "active_inv env hist e" "env_ok env"
    "run_query env now late t0 t1 found k checked results e = Some (results', e')"
  shows "exact_inv env hist e'"
  using assms(1,2,4)
proof (induction found arbitrary: k checked results e)
  case (Cons f found)
  obtain i l where f: "f = (i, l)" by force
  obtain ts e1 where r: "read_nolock env now l t0 t1 e = Some (Inr ts, e1)" "exact_inv env hist e1" "active_inv env hist e1"
    using read_nolock_exact [OF Cons.prems(1,2) assms(3)] by blast
  show ?case
    using Cons.prems(1,3) Cons.IH [OF Cons.prems(1,2)] Cons.IH [OF r(2,3)] r(1,2)
    by (auto simp: f Let_def split: if_splits)
qed simp

lemma delete_all_exact:
  assumes "exact_inv env hist e" "delete_all env is e = Some (r, e')"
  shows "exact_inv env (\<lambda>i. if i \<in> set is then [] else hist i) e'"
  using assms
proof (induction "is" arbitrary: hist e)
  case (Cons i "is")
  obtain H where H: "cache_hierarchy e = Some H" "exact (calculate_series_id env) hist (H, series_heap e)"
    using Cons.prems(1) by (auto simp: exact_inv_def)
  obtain b H' h where rem: "hierarchy_remove i (H, series_heap e) = Some (Inr b, H', h)"
      "exact (calculate_series_id env) (hist(i := [])) (H', h)"
    using exact_remove [OF H(2), of i] by auto
  let ?e1 = "(forget_series i e)\<lparr>cache_hierarchy := Some H', series_heap := h\<rparr>"
  let ?e2 = "?e1\<lparr>e_index := sharded_remove_series (env_posting env) i (e_index ?e1)\<rparr>"
  have "exact_inv env (hist(i := [])) ?e2" using rem(2) by (simp add: exact_inv_def)
  moreover have "delete_all env is ?e2 = Some (r, e')" using Cons.prems(2) H(1) rem(1) by (simp add: on_cache_def)
  ultimately have "exact_inv env (\<lambda>j. if j \<in> set is then [] else (hist(i := [])) j) e'" by (rule Cons.IH)
  moreover have "(\<lambda>j. if j \<in> set is then [] else (hist(i := [])) j) = (\<lambda>j. if j \<in> set (i # is) then [] else hist j)" by auto
  ultimately show ?case by simp
qed simp

lemma put_copy_exact:
  assumes "exact_inv env hist e" "cache_inv env hist0 e" "calculate_series_id env (ts_labels ts) = i" "ts_samples ts \<noteq> []"
    "chronological (hist i @ ts_samples ts)" "card {i. hist i \<noteq> []} < 50000" "put_copy env now i ts e = Some (r, e')"
  shows "exact_inv env (hist(i := hist i @ ts_samples ts)) e'"
proof -
  let ?sid = "calculate_series_id env" and ?n = "next_series e"
  let ?h = "(series_heap e)(?n \<mapsto> ts)"
  obtain H where H: "cache_hierarchy e = Some H" "exact ?sid hist (H, series_heap e)"
    using assms(1) by (auto simp: exact_inv_def)
  have fresh: "series_heap e ?n = None" using assms(2) by (simp add: cache_inv_def)
  have view: "in_l1 (H, ?h) = in_l1 (H, series_heap e)" "in_l2 (H, ?h) = in_l2 (H, series_heap e)"
    by (simp_all add: in_l1_def in_l2_def)
  have "case in_l1 (H, ?h) j of
        None \<Rightarrow> hist j = []
      | Some q \<Rightarrow> hist j \<noteq> [] \<and> (\<exists>ts. snd (H, ?h) q = Some ts \<and> ts_samples ts = hist j \<and> ?sid (ts_labels ts) = j)" for j
    using exactD(4,5) [OF H(2), of j] fresh by (cases "in_l1 (H, series_heap e) j") (auto simp: view)
  moreover have "chronological (ts_samples ts)" using assms(5) by (simp add: chronological_def sorted_wrt_append)
  ultimately have "exact ?sid hist (H, ?h)"
    using exactD(1-3) [OF H(2)] unfolding exact_def hierarchy_ok_def view by auto
  from exact_put [OF this, of ?n ts i now "env_order env"] assms(3-6) obtain H' h where
    "hierarchy_put now (env_order env) i (Some ?n) (H, ?h) = Some (Inr True, H', h)"
    "exact ?sid (hist(i := hist i @ ts_samples ts)) (H', h)"
    by auto
  then show ?thesis using assms(7) H(1) by (auto simp: put_copy_def on_cache_def exact_inv_def)
qed

lemma write_in_memory_exact:
  assumes "exact_inv env hist e" "cache_inv env hist0 e" "ts_samples ts \<noteq> []"
    "hist' = hist(calculate_series_id env (ts_labels ts) := hist (calculate_series_id env (ts_labels ts)) @ ts_samples ts)"
    "chronological (hist' (calculate_series_id env (ts_labels ts)))" "card {i. hist' i \<noteq> []} < 50000" "finite {i. hist' i \<noteq> []}"
    "write_in_memory env now wall ts e = Returns (r, e')"
  shows "exact_inv env hist' e'"
proof -
  let ?i = "calculate_series_id env (ts_labels ts)"
  have "card {i. hist i \<noteq> []} \<le> card {i. hist' i \<noteq> []}"
    using assms(7) by (rule card_mono) (auto simp: assms(4))
  with assms(6) have few: "card {i. hist i \<noteq> []} < 50000" by simp
  have chron: "chronological (hist ?i @ ts_samples ts)" using assms(4,5) by simp
  obtain ser e1 where fc: "find_or_create env ?i (ts_labels ts) e = (ser, e1)" by force
  have e1: "cache_hierarchy e1 = cache_hierarchy e" "series_heap e1 = series_heap e" "next_series e1 = next_series e"
    using fc by (auto simp: find_or_create_def split: option.splits)
  have any: "exact_inv env hist x" "cache_inv env hist0 x"
    if "cache_hierarchy x = cache_hierarchy e" "series_heap x = series_heap e" "next_series x = next_series e" for x
    using assms(1,2) that by (simp_all add: exact_inv_def cache_inv_def)
  have put: "exact_inv env hist' e3"
    if "put_copy env now ?i ts (update_bounds ?i (ts_samples ts) ((store_series ?i ser' e1)\<lparr>e_alloc := a\<rparr>)) = Some (x, e3)"
    for x e3 ser' a
    unfolding assms(4)
    by (rule put_copy_exact [OF any(1) any(2) refl assms(3) chron few that]) (simp_all add: e1 store_series_def)
  then show ?thesis
    using assms(8) fc
    by (auto simp: write_in_memory_def Let_def split: option.splits sum.splits if_splits)
qed

text \<open>The condition on the operations.\<close>

definition in_order :: "engine_op \<Rightarrow> history \<Rightarrow> bool" where
  "in_order op hist \<longleftrightarrow> regular op hist \<and> (\<forall>now. op \<noteq> Maintenance now) \<and> (\<forall>i. chronological (hist i))
     \<and> card {i. hist i \<noteq> []} < 50000"

lemma exact_finite: "exact_inv env hist e \<Longrightarrow> finite {i. hist i \<noteq> []}"
proof -
  assume "exact_inv env hist e"
  then obtain H where "exact (calculate_series_id env) hist (H, series_heap e)" by (auto simp: exact_inv_def)
  then have "{i. hist i \<noteq> []} = dom (in_l1 (H, series_heap e))" using exactD(4) by (simp add: dom_def)
  then show ?thesis by (simp add: in_l1_def finite_dom_map_of)
qed

lemma engine_step_exact:
  assumes "exact_inv env hist e" "engine_inv env hist e" "env_ok env" "in_order op (log_op env op e hist)"
    "engine_step env op e = Returns e'"
  shows "exact_inv env (log_op env op e hist) e'"
proof -
  have inv: "initialized e" "cache_inv env hist e" "active_inv env hist e" using assms(2) by (auto simp: engine_inv_def)
  show ?thesis
  proof (cases op)
    case (Write now wall ts)
    let ?i = "calculate_series_id env (ts_labels ts)"
    let ?hist = "hist(?i := hist ?i @ ts_samples ts)"
    show ?thesis
    proof (cases "ts_samples ts = [] \<or> ts_labels ts = []")
      case True
      then show ?thesis using Write assms(1,5) inv(1) by (auto simp: engine_write_def ts_empty_def split: if_splits)
    next
      case False
      then have hist: "log_op env op e hist = ?hist" by (auto simp: Write Let_def)
      obtain r w where w: "write_in_memory env now wall ts (e\<lparr>e_wal := w\<rparr>) = Returns (r, e')"
        using assms(5) False inv(1)
        by (auto simp: Write engine_write_def ts_empty_def split: option.splits run.splits)
      have "{i. ?hist i \<noteq> []} \<subseteq> insert ?i {i. hist i \<noteq> []}" by auto
      then have "finite {i. ?hist i \<noteq> []}" using exact_finite [OF assms(1)] by (meson finite_insert finite_subset)
      moreover have "chronological (?hist ?i)" "card {i. ?hist i \<noteq> []} < 50000"
        using assms(4) unfolding in_order_def hist by blast+
      moreover have "exact_inv env hist (e\<lparr>e_wal := w\<rparr>)" "cache_inv env hist (e\<lparr>e_wal := w\<rparr>)"
        using assms(1) inv(2) by (simp_all add: exact_inv_def)
      ultimately show ?thesis
        unfolding hist using False w by (intro write_in_memory_exact [OF _ _ _ refl _ _ _ w]) auto
    qed
  next
    case (Read now l t0 t1)
    then show ?thesis
      using assms(1,5) inv(1) read_nolock_exact [OF assms(1) inv(3) assms(3), of now l t0 t1]
      by (auto simp: engine_read_def of_option_def split: if_splits)
  next
    case (Query now late ms t0 t1)
    obtain found ix where f: "sharded_find_series_with_labels (env_posting env) (env_regex env) ms (e_index e) = (found, ix)" by force
    have "exact_inv env hist (e\<lparr>e_index := ix\<rparr>)" "active_inv env hist (e\<lparr>e_index := ix\<rparr>)"
      using assms(1) inv(3) by (simp_all add: exact_inv_def)
    note query = run_query_exact [OF this assms(3)]
    show ?thesis
      using assms(1,5) inv(1) f query [of now late t0 t1 found 0 0 "[]"]
      by (auto simp: Query engine_query_def of_option_def split: if_splits option.splits)
  next
    case (Delete ms)
    obtain ids ix where f: "sharded_find_series (env_posting env) (env_regex env) ms (e_index e) = (ids, ix)" by force
    have "exact_inv env hist (e\<lparr>e_index := ix\<rparr>)" using assms(1) by (simp add: exact_inv_def)
    then show ?thesis
      using assms(5) inv(1) f delete_all_exact [of env hist "e\<lparr>e_index := ix\<rparr>" ids]
      by (auto simp: Delete delete_series_def of_option_def found_ids_def split: option.splits)
  next
    case (Flush wall)
    then show ?thesis
      using assms(1,5) by (auto simp: engine_flush_def flush_nolock_def Let_def exact_inv_def split: prod.splits if_splits)
  next
    case Compact
    then show ?thesis
      using assms(1,5) by (auto simp: engine_compact_def exact_inv_def split: prod.splits if_splits)
  next
    case (LogWorker k)
    then show ?thesis using assms(1,5) by (auto simp: log_worker_def Let_def exact_inv_def split: if_splits)
  next
    case (Maintenance now)
    then show ?thesis using assms(4) by (simp add: in_order_def)
  qed
qed

lemma engine_run_mono: "\<lbrakk>engine_run env G e0 e hist; \<And>op h. G op h \<Longrightarrow> G' op h\<rbrakk> \<Longrightarrow> engine_run env G' e0 e hist"
  by (induction rule: engine_run.induct) (auto intro: engine_run.intros)

lemma new_engine_exact:
  assumes "engine_init env cfg (\<lambda>_. []) [] (mk_engine stack) = Returns (Inr (), e0)" "env_ok env"
  shows "exact_inv env (\<lambda>i. []) e0"
proof -
  obtain w m H where e0: "mk_hierarchy (env_can_create env) (engine_cache_config cfg) = Inr H"
      "e0 = (mk_engine stack)\<lparr>e_index := mk_sharded_index 16, e_wal := w, e_blocks := m, initialized := True,
         cache_hierarchy := Some (if cfg_background cfg then start_background_processing H else H)\<rparr>"
    using new_engine_state [OF assms] by blast
  let ?H = "if cfg_background cfg then start_background_processing H else H"
  have same: "l1_cache ?H = l1_cache H" "l2_cache ?H = l2_cache H" by (simp_all add: start_background_processing_def)
  have new: "hierarchy_ok (H, Map.empty)" "held (H, Map.empty) = {}" "max_size (l1_cache H) = 50000"
    using mk_hierarchy_ok [OF e0(1), of Map.empty] by (simp_all add: sized_def engine_cache_config_def)
  then have "in_l1 (H, Map.empty) = Map.empty" "in_l2 (H, Map.empty) = Map.empty"
    by (auto simp: held_def fun_eq_iff simp flip: not_Some_eq)
  then have "exact (calculate_series_id env) (\<lambda>i. []) (?H, Map.empty)"
    unfolding exact_def counters_held [OF same] using new same by simp
  then show ?thesis unfolding exact_inv_def e0(2) by (simp add: mk_engine_def)
qed

lemma engine_run_exact:
  assumes "env_ok env" "engine_init env cfg (\<lambda>_. []) [] (mk_engine stack) = Returns (Inr (), e0)"
    "engine_run env in_order e0 e hist"
  shows "exact_inv env hist e" "engine_inv env hist e"
proof -
  have "exact_inv env hist e \<and> engine_inv env hist e"
    using assms(3)
  proof (induction rule: engine_run.induct)
    case run_init
    then show ?case using new_engine_exact [OF assms(2,1)] new_engine_inv [OF assms(2,1)] by blast
  next
    case (run_op e hist op e')
    have "regular op (log_op env op e hist)" using run_op.hyps(2) by (simp add: in_order_def)
    then show ?case
      using run_op.IH engine_step_exact [OF _ _ assms(1) run_op.hyps(2,3)] engine_step_inv [OF _ assms(1) _ run_op.hyps(3)] by blast
  qed
  then show "exact_inv env hist e" "engine_inv env hist e" by auto
qed

text \<open>
  C2: Read your writes. As long as the samples of each series arrive in the order of their timestamps,
  fewer than 50000 series exist and the cache maintenance has not run, a read returns exactly
  the samples written to the series since its last deletion whose timestamps lie in the range, after any sequence
  of writes, reads, queries, deletions, flushes and compactions.
\<close>

theorem reads_are_exact:
  assumes "env_ok env" "engine_init env cfg (\<lambda>_. []) [] (mk_engine stack) = Returns (Inr (), e0)"
    "engine_run env in_order e0 e hist" "sint t0 \<le> sint t1"
  shows "\<exists>ts e'. engine_read env now l t0 t1 e = Some (Inr ts, e')
    \<and> ts_samples ts = filter (in_range t0 t1) (hist (calculate_series_id env l))"
proof -
  note inv = engine_run_exact [OF assms(1-3)]
  have "initialized e" "active_inv env hist e" using inv(2) by (auto simp: engine_inv_def)
  with read_nolock_exact [OF inv(1) _ assms(1), of now l t0 t1] assms(4) show ?thesis
    by (auto simp: engine_read_def)
qed

lemma example_in_order: "in_order (Write now wall example_entry) example_history"
proof -
  have "{i. example_history i \<noteq> []} \<subseteq> {calculate_series_id example_env (ts_labels example_entry)}"
    by (auto simp: example_history_def)
  from card_mono [OF _ this] have "card {i. example_history i \<noteq> []} < 50000" by simp
  moreover have "chronological (example_history i)" for i
    using example_entry_ok(2) by (simp add: example_history_def chronological_def)
  ultimately show ?thesis using example_regular by (simp add: in_order_def)
qed

theorem reads_are_exact_witness:
  "\<exists>e0 e ts e'. engine_init example_env example_engine_config (\<lambda>_. []) [] (mk_engine (env_stack example_env)) = Returns (Inr (), e0)
     \<and> engine_run example_env in_order e0 e example_history
     \<and> engine_read example_env 5 [(''job'', ''a'')] 15 30 e = Some (Inr ts, e') \<and> ts_samples ts = [mk_sample 20 2]"
proof -
  obtain e0 e where run: "engine_init example_env example_engine_config (\<lambda>_. []) [] (mk_engine (env_stack example_env)) = Returns (Inr (), e0)"
    "engine_run example_env in_order e0 e example_history" using example_in_order by (rule example_engine_run)
  have "filter (in_range 15 30) (example_history (calculate_series_id example_env [(''job'', ''a'')])) = [mk_sample 20 2]"
    by (simp add: example_history_def example_entry_def in_range_def mk_sample_def)
  with reads_are_exact [OF example_env_ok run, of 15 30 5 "[(''job'', ''a'')]"] run show ?thesis by auto
qed

end
