(* ===== verification/Storage_Queries.thy ===== *)
theory Storage_Queries
  imports Storage_Exactness
begin

text \<open>
  Queries and deletions of the storage engine by label matchers. The index of the engine lists
  exactly the active series and the time bounds of a series enclose its samples, so a query that
  goes through the index and skips series by their bounds finds what a scan of all series
  finds.
\<close>

section \<open>What the engine knows about its series\<close>

definition series_of :: "'p engine \<Rightarrow> uint64 \<Rightarrow> labels option" where
  "series_of e i = map_option (\<lambda>ser. md_labels (metadata ser)) (map_of (active_series e) i)"

definition bounded_by :: "int64 \<times> int64 \<Rightarrow> sample list \<Rightarrow> bool" where
  "bounded_by b ss \<longleftrightarrow> (\<forall>s \<in> set ss. sint (fst b) \<le> sint (timestamp s) \<and> sint (timestamp s) \<le> sint (snd b))"

definition bounds_inv :: "history \<Rightarrow> 'p engine \<Rightarrow> bool" where
  "bounds_inv hist e \<longleftrightarrow> (\<forall>i. case map_of (series_time_bounds e) i of None \<Rightarrow> hist i = [] | Some b \<Rightarrow> bounded_by b (hist i))"

definition catalog_inv :: "history \<Rightarrow> series_id list engine \<Rightarrow> bool" where
  "catalog_inv hist e \<longleftrightarrow> sharded_ok (index_ok set (sorted_wrt (<))) (e_index e)
     \<and> sharded_labels (e_index e) = series_of e \<and> (\<forall>i. series_of e i = None \<longleftrightarrow> hist i = []) \<and> bounds_inv hist e"

lemma catalog_view:
  assumes "e_index e' = e_index e" "series_of e' = series_of e" "series_time_bounds e' = series_time_bounds e"
  shows "catalog_inv hist e' = catalog_inv hist e"
  using assms by (simp add: catalog_inv_def bounds_inv_def)

lemma series_of_active: "active_series e' = active_series e \<Longrightarrow> series_of e' = series_of e"
  by (simp add: series_of_def fun_eq_iff)

lemma series_of_store [simp]:
  "series_of (store_series i ser e) = (series_of e)(i \<mapsto> md_labels (metadata ser))"
  "series_of (forget_series i e) = (series_of e)(i := None)"
  by (auto simp: series_of_def store_series_def forget_series_def smap_simps fun_eq_iff)

lemma series_of_fields [simp]:
  "series_of (e\<lparr>e_index := ix\<rparr>) = series_of e" "series_of (e\<lparr>e_alloc := a\<rparr>) = series_of e"
  "series_of (e\<lparr>series_time_bounds := b\<rparr>) = series_of e" "series_of (e\<lparr>e_blocks := m\<rparr>) = series_of e"
  "series_of (e\<lparr>e_wal := w\<rparr>) = series_of e" "series_of (e\<lparr>cache_hierarchy := c\<rparr>) = series_of e"
  "series_of (e\<lparr>series_heap := h\<rparr>) = series_of e" "series_of (e\<lparr>next_series := n\<rparr>) = series_of e"
  "series_of (e\<lparr>block_seal_times := st\<rparr>) = series_of e" "series_of (link_block i l r e) = series_of e"
  "series_of (update_bounds i ss e) = series_of e"
  by (rule series_of_active; simp add: link_block_def)+

lemma index_fields [simp]:
  "e_index (link_block i l r e) = e_index e" "series_time_bounds (link_block i l r e) = series_time_bounds e"
  "series_time_bounds (store_series i ser e) = series_time_bounds e" "e_index (forget_series i e) = e_index e"
  by (simp_all add: link_block_def store_series_def forget_series_def)

lemma persist_view [simp]:
  "e_index (persist_block env wall i l r e) = e_index e" "series_time_bounds (persist_block env wall i l r e) = series_time_bounds e"
  "series_of (persist_block env wall i l r e) = series_of e"
  by (auto simp: persist_block_def split: prod.split sum.split)

lemma seal_metadata: "seal_block ser = (r, ser') \<Longrightarrow> metadata ser' = metadata ser"
  by (auto simp: seal_block_def Let_def split: option.splits)

lemma append_metadata: "append_all a ss ser = Some (full, ser', a') \<Longrightarrow> metadata ser' = metadata ser"
proof (induction ss arbitrary: a ser full)
  case (Cons s ss)
  obtain r ser1 a1 where s1: "series_append a s ser = (r, ser1, a1)" by (metis prod_cases3)
  then have "metadata ser1 = metadata ser" by (auto simp: series_append_def Let_def split: prod.splits option.splits)
  with Cons s1 show ?case by (auto split: option.splits)
qed simp

lemma seal_full_view:
  assumes "series_of e i = Some (md_labels (metadata ser))"
  shows "e_index (seal_full env wall i l ser e) = e_index e"
    "series_time_bounds (seal_full env wall i l ser e) = series_time_bounds e" "series_of (seal_full env wall i l ser e) = series_of e"
  using assms by (auto simp: seal_full_def fun_upd_idem dest!: seal_metadata split: prod.split option.split)

lemma flush_series_view:
  assumes "series_of e (fst x) = Some (md_labels (metadata (snd x)))"
  shows "e_index (flush_series env wall x e) = e_index e"
    "series_time_bounds (flush_series env wall x e) = series_time_bounds e" "series_of (flush_series env wall x e) = series_of e"
  using assms
  by (auto simp: flush_series_def mutate_block_def Let_def fun_upd_idem dest!: seal_metadata split: prod.split option.split)

lemma flush_fold_view:
  assumes "\<forall>x \<in> set xs. series_of e (fst x) = Some (md_labels (metadata (snd x)))"
  shows "e_index (fold (flush_series env wall) xs e) = e_index e"
    "series_time_bounds (fold (flush_series env wall) xs e) = series_time_bounds e"
    "series_of (fold (flush_series env wall) xs e) = series_of e"
  using assms by (induction xs arbitrary: e) (simp_all add: flush_series_view)

lemma put_copy_view:
  assumes "put_copy env now i ts e = Some (r, e')"
  shows "e_index e' = e_index e" "series_time_bounds e' = series_time_bounds e" "series_of e' = series_of e"
  using assms by (auto simp: put_copy_def on_cache_def split: option.splits)

section \<open>Time bounds\<close>

lemma payload_bounds_ok:
  "bounded_by (payload_bounds ss) ss"
  "s \<in> set ss \<Longrightarrow> sint (fst (payload_bounds ss)) \<le> sint (timestamp s)"
proof -
  let ?f = "\<lambda>(lo, hi) s. (if sint (timestamp s) < sint lo then timestamp s else lo,
      if sint hi < sint (timestamp s) then timestamp s else hi)"
  have "sint (fst (foldl ?f b ss)) \<le> sint (fst b) \<and> sint (snd b) \<le> sint (snd (foldl ?f b ss))
      \<and> bounded_by (foldl ?f b ss) ss" for b
  proof (induction ss arbitrary: b)
    case (Cons s ss)
    have "sint (fst (?f b s)) \<le> sint (fst b)" "sint (snd b) \<le> sint (snd (?f b s))"
      "sint (fst (?f b s)) \<le> sint (timestamp s)" "sint (timestamp s) \<le> sint (snd (?f b s))"
      by (auto split: prod.split)
    with Cons.IH [of "?f b s"] show ?case by (auto simp: bounded_by_def)
  qed (simp add: bounded_by_def)
  then show b: "bounded_by (payload_bounds ss) ss" by (simp add: payload_bounds_def)
  then show "s \<in> set ss \<Longrightarrow> sint (fst (payload_bounds ss)) \<le> sint (timestamp s)" by (auto simp: bounded_by_def)
qed

lemma sint_int64_max: "sint (w :: int64) \<le> sint int64_max"
proof -
  have "sint int64_max = 2 ^ 63 - 1" by (simp add: int64_max_def)
  with sint_lt [of w] show ?thesis by simp
qed

lemma update_bounds_ok:
  assumes "bounds_inv hist e" "ss \<noteq> []" "\<forall>s \<in> set ss. timestamp s \<noteq> int64_max"
  shows "bounds_inv (hist(i := hist i @ ss)) (update_bounds i ss e)"
proof -
  obtain s where s: "s \<in> set ss" using assms(2) by fastforce
  have "fst (payload_bounds ss) \<noteq> int64_max"
  proof
    assume "fst (payload_bounds ss) = int64_max"
    with payload_bounds_ok(2) [OF s] sint_int64_max [of "timestamp s"] have "sint (timestamp s) = sint int64_max" by simp
    with assms(3) s show False by (auto simp: signed_word_eqI)
  qed
  then have e': "update_bounds i ss e = e\<lparr>series_time_bounds := widen_bounds i (payload_bounds ss) (series_time_bounds e)\<rparr>"
    by (simp add: update_bounds_def)
  have old: "case map_of (series_time_bounds e) j of None \<Rightarrow> hist j = [] | Some b \<Rightarrow> bounded_by b (hist j)" for j
    using assms(1) by (simp add: bounds_inv_def)
  have "case map_of (widen_bounds i (payload_bounds ss) (series_time_bounds e)) j of
      None \<Rightarrow> (hist(i := hist i @ ss)) j = [] | Some b \<Rightarrow> bounded_by b ((hist(i := hist i @ ss)) j)" for j
  proof (cases "j = i")
    case False
    then have "map_of (widen_bounds i (payload_bounds ss) (series_time_bounds e)) j = map_of (series_time_bounds e) j"
      by (simp add: widen_bounds_def smap_simps split: option.split)
    then show ?thesis using old [of j] False by (simp cong: option.case_cong)
  next
    case True
    with old [of i] payload_bounds_ok(1) [of ss] show ?thesis
      by (cases "map_of (series_time_bounds e) i") (fastforce simp: widen_bounds_def bounded_by_def smap_simps)+
  qed
  then show ?thesis unfolding e' bounds_inv_def by simp
qed

section \<open>Every operation keeps the catalog\<close>

lemma catalog_count [simp]:
  "sharded_ok ok (count_queries ks si) = sharded_ok ok si" "sharded_labels (count_queries ks si) = sharded_labels si"
  by (simp_all add: sharded_ok_def counters_ok_def counter_def count_queries_def sharded_labels_def get_shard_index_def
      fun_eq_iff cong: option.case_cong)

lemma catalog_lookup:
  assumes "catalog_inv hist e"
  shows "catalog_inv hist (e\<lparr>e_index := snd (sharded_find_series ops re ms (e_index e))\<rparr>)"
    "catalog_inv hist (e\<lparr>e_index := snd (sharded_find_series_with_labels ops re ms (e_index e))\<rparr>)"
  using assms
  by (simp_all add: catalog_inv_def bounds_inv_def sharded_find_series_def sharded_find_series_with_labels_def Let_def)

lemma catalog_write:
  assumes "catalog_inv hist e" "env_posting env = vector_ops" "series_ok ts" "ts_samples ts \<noteq> []"
    "\<forall>s \<in> set (ts_samples ts). timestamp s \<noteq> int64_max" "card {i. hist i \<noteq> []} < 50000"
    "write_in_memory env now wall ts e = Returns (Inr (), e')"
  shows "catalog_inv (hist(calculate_series_id env (ts_labels ts) := hist (calculate_series_id env (ts_labels ts)) @ ts_samples ts)) e'"
proof -
  let ?i = "calculate_series_id env (ts_labels ts)" and ?ss = "ts_samples ts"
  let ?hist = "hist(?i := hist ?i @ ?ss)"
  have cat: "sharded_ok (index_ok set (sorted_wrt (<))) (e_index e)" "sharded_labels (e_index e) = series_of e"
    "\<forall>i. series_of e i = None \<longleftrightarrow> hist i = []" "bounds_inv hist e"
    using assms(1) by (simp_all add: catalog_inv_def)
  obtain ser e1 where fc: "find_or_create env ?i (ts_labels ts) e = (ser, e1)" by force
  obtain full ser' a b e3 where w: "append_all (e_alloc e1) ?ss ser = Some (full, ser', a)"
      "put_copy env now ?i ts (update_bounds ?i ?ss ((store_series ?i ser' e1)\<lparr>e_alloc := a\<rparr>)) = Some (Inr b, e3)"
      "e' = (if full then seal_full env wall ?i (ts_labels ts) ser' e3 else e3)"
    using assms(7) fc by (auto simp: write_in_memory_def Let_def split: option.splits sum.splits prod.splits)
  let ?e2 = "update_bounds ?i ?ss ((store_series ?i ser' e1)\<lparr>e_alloc := a\<rparr>)"
  have e3: "e_index e3 = e_index ?e2" "series_time_bounds e3 = series_time_bounds ?e2" "series_of e3 = series_of ?e2"
    by (rule put_copy_view [OF w(2)])+
  have ser': "metadata ser' = metadata ser" by (rule append_metadata [OF w(1)])
  then have "series_of e3 ?i = Some (md_labels (metadata ser'))" by (simp add: e3(3))
  then have e': "e_index e' = e_index e1" "series_time_bounds e' = series_time_bounds ?e2"
      "series_of e' = (series_of e1)(?i \<mapsto> md_labels (metadata ser))"
    using seal_full_view [of e3 ?i ser' env wall "ts_labels ts"] e3 ser' by (simp_all add: w(3))
  have bounds1: "series_time_bounds e1 = series_time_bounds e" "series_of e1 = series_of e"
    using fc by (auto simp: find_or_create_def split: option.splits)
  have "bounds_inv hist ((store_series ?i ser' e1)\<lparr>e_alloc := a\<rparr>)" using cat(4) bounds1(1) by (simp add: bounds_inv_def)
  from update_bounds_ok [OF this assms(4,5), of ?i] have bounds: "bounds_inv ?hist e'"
    by (simp add: bounds_inv_def e'(2))
  have index: "sharded_ok (index_ok set (sorted_wrt (<))) (e_index e1)
      \<and> sharded_labels (e_index e1) = (series_of e)(?i \<mapsto> md_labels (metadata ser))"
  proof (cases "map_of (active_series e) ?i")
    case None
    have "dom (series_of e) = {i. hist i \<noteq> []}" using cat(3) by (simp add: dom_def)
    then have "Suc (card (dom (sharded_labels (e_index e)))) < 2 ^ 32" using assms(6) cat(2) by simp
    moreover have "sharded_labels (e_index e) ?i = None" using None cat(2) by (simp add: series_of_def)
    moreover have "smap_ok (ts_labels ts)" using assms(3) by (simp add: series_ok_def)
    ultimately have "sharded_ok (index_ok set (sorted_wrt (<))) (sharded_add_series vector_ops ?i (ts_labels ts) (e_index e))
      \<and> sharded_labels (sharded_add_series vector_ops ?i (ts_labels ts) (e_index e)) = (series_of e)(?i \<mapsto> ts_labels ts)"
      using sharded.add_ok [OF cat(1)] cat(2) by simp
    then show ?thesis using fc None assms(2) by (auto simp: find_or_create_def new_series_def mk_series_def)
  next
    case (Some x)
    then show ?thesis using fc cat(1,2) by (auto simp: find_or_create_def series_of_def fun_upd_idem)
  qed
  show ?thesis
    unfolding catalog_inv_def using index e' bounds bounds1(2) cat(3) assms(4) by simp
qed

lemma catalog_delete:
  assumes "catalog_inv hist e" "env_posting env = vector_ops" "delete_all env is e = Some (Inr (), e')"
  shows "catalog_inv (\<lambda>i. if i \<in> set is then [] else hist i) e'"
  using assms(1,3)
proof (induction "is" arbitrary: hist e)
  case (Cons i "is")
  obtain b e1 where e1: "on_cache (hierarchy_remove i) False (forget_series i e) = Some (Inr b, e1)"
      "delete_all env is (e1\<lparr>e_index := sharded_remove_series (env_posting env) i (e_index e1)\<rparr>) = Some (Inr (), e')"
    using Cons.prems(2) by (auto split: option.splits sum.splits prod.splits)
  then have view: "e_index e1 = e_index e" "series_of e1 = (series_of e)(i := None)"
      "series_time_bounds e1 = smap_erase i (series_time_bounds e)"
    by (auto simp: on_cache_def split: option.splits) (simp_all add: forget_series_def)
  have cat: "sharded_ok (index_ok set (sorted_wrt (<))) (e_index e)" "sharded_labels (e_index e) = series_of e"
    "\<forall>i. series_of e i = None \<longleftrightarrow> hist i = []" "bounds_inv hist e"
    using Cons.prems(1) by (simp_all add: catalog_inv_def)
  have "bounds_inv (hist(i := [])) (e1\<lparr>e_index := sharded_remove_series (env_posting env) i (e_index e1)\<rparr>)"
    using cat(4) by (auto simp: bounds_inv_def view(3) smap_simps cong: option.case_cong)
  then have "catalog_inv (hist(i := [])) (e1\<lparr>e_index := sharded_remove_series (env_posting env) i (e_index e1)\<rparr>)"
    unfolding catalog_inv_def using sharded.remove_ok [OF cat(1), of i] cat(2,3) view(1,2) assms(2) by simp
  from Cons.IH [OF this e1(2)]
  have "catalog_inv (\<lambda>j. if j \<in> set is then [] else (hist(i := [])) j) e'" .
  moreover have "(\<lambda>j. if j \<in> set is then [] else (hist(i := [])) j) = (\<lambda>j. if j \<in> set (i # is) then [] else hist j)" by auto
  ultimately show ?case by simp
qed simp

text \<open>No sample is at the largest timestamp, which the bounds use as a mark.\<close>

definition catalogued :: "engine_op \<Rightarrow> history \<Rightarrow> bool" where
  "catalogued op hist \<longleftrightarrow> in_order op hist \<and> (\<forall>i. \<forall>s \<in> set (hist i). timestamp s \<noteq> int64_max)"

lemma catalog_cache_step: "\<lbrakk>cache_step env hist e e'; catalog_inv h e\<rbrakk> \<Longrightarrow> catalog_inv h e'"
  using catalog_view [of e' e h, OF cache_step_fields(3) series_of_active [OF cache_step_fields(1)] cache_step_fields(5)] by blast

lemma active_labels:
  assumes "smap_ok (active_series e)"
  shows "\<forall>x \<in> set (active_series e). series_of e (fst x) = Some (md_labels (metadata (snd x)))"
  using smap_ok_distinct [OF assms] by (auto simp: series_of_def)

lemma engine_step_catalog:
  assumes "catalog_inv hist e" "exact_inv env hist e" "engine_inv env hist e" "env_ok env" "env_posting env = vector_ops"
    "catalogued op (log_op env op e hist)" "engine_step env op e = Returns e'"
  shows "catalog_inv (log_op env op e hist) e'"
proof -
  have inv: "initialized e" "cache_inv env hist e" "active_inv env hist e" using assms(3) by (auto simp: engine_inv_def)
  show ?thesis
  proof (cases op)
    case (Write now wall ts)
    let ?i = "calculate_series_id env (ts_labels ts)"
    let ?hist = "hist(?i := hist ?i @ ts_samples ts)"
    show ?thesis
    proof (cases "ts_samples ts = [] \<or> ts_labels ts = []")
      case True
      then show ?thesis using Write assms(1,7) inv(1) by (auto simp: engine_write_def ts_empty_def split: if_splits)
    next
      case False
      then have hist: "log_op env op e hist = ?hist" by (auto simp: Write Let_def)
      obtain r w where w: "write_in_memory env now wall ts (e\<lparr>e_wal := w\<rparr>) = Returns (r, e')"
        using assms(7) False inv(1)
        by (auto simp: Write engine_write_def ts_empty_def split: option.splits run.splits)
      have ok: "series_ok ts" "\<forall>s \<in> set (ts_samples ts). timestamp s \<noteq> 0" "length (?hist ?i) < 2 ^ 32"
          "card {i. ?hist i \<noteq> []} < 50000" "\<forall>s \<in> set (?hist ?i). timestamp s \<noteq> int64_max"
      proof -
        have g: "op_ok op" "\<forall>i. length (?hist i) < 2 ^ 32" "card {i. ?hist i \<noteq> []} < 50000"
            "\<forall>i. \<forall>s \<in> set (?hist i). timestamp s \<noteq> int64_max"
          using assms(6) unfolding hist catalogued_def in_order_def regular_def by blast+
        from g(1) show "series_ok ts" "\<forall>s \<in> set (ts_samples ts). timestamp s \<noteq> 0" by (simp_all add: Write)
        from g(2-4) show "length (?hist ?i) < 2 ^ 32" "card {i. ?hist i \<noteq> []} < 50000"
          "\<forall>s \<in> set (?hist ?i). timestamp s \<noteq> int64_max" by blast+
      qed
      have "{i. ?hist i \<noteq> []} \<subseteq> insert ?i {i. hist i \<noteq> []}" by auto
      then have "finite {i. ?hist i \<noteq> []}" using exact_finite [OF assms(2)] by (meson finite_insert finite_subset)
      then have "card {i. hist i \<noteq> []} \<le> card {i. ?hist i \<noteq> []}" by (rule card_mono) auto
      with ok(4) have few: "card {i. hist i \<noteq> []} < 50000" by simp
      have e1: "engine_inv env hist (e\<lparr>e_wal := w\<rparr>)" "catalog_inv hist (e\<lparr>e_wal := w\<rparr>)"
        using assms(1,3) by (simp_all add: engine_inv_def catalog_inv_def bounds_inv_def)
      have "r = Inr ()" using write_in_memory_ok [OF e1(1) assms(4) ok(1,2) refl ok(3), of now wall] w by auto
      with catalog_write [OF e1(2) assms(5) ok(1) _ _ few] w False ok(5) show ?thesis unfolding hist by auto
    qed
  next
    case (Read now l t0 t1)
    then show ?thesis
      using assms(1,7) engine_read_ok [OF assms(3,4), of now l t0 t1] catalog_cache_step by (auto simp: of_option_def)
  next
    case (Query now late ms t0 t1)
    obtain found ix where f: "sharded_find_series_with_labels (env_posting env) (env_regex env) ms (e_index e) = (found, ix)" by force
    have e1: "catalog_inv hist (e\<lparr>e_index := ix\<rparr>)"
      using catalog_lookup(2) [OF assms(1), of "env_posting env" "env_regex env" ms] f by simp
    have "cache_inv env hist (e\<lparr>e_index := ix\<rparr>)" "active_inv env hist (e\<lparr>e_index := ix\<rparr>)" using inv(2,3) by simp_all
    from run_query_ok [OF this assms(4), of "[]" t0 t1 now late found 0 0] show ?thesis
      using assms(1,7) inv(1) f catalog_cache_step [OF _ e1]
      by (auto simp: Query engine_query_def of_option_def split: if_splits)
  next
    case (Delete ms)
    obtain ids ix where f: "sharded_find_series (env_posting env) (env_regex env) ms (e_index e) = (ids, ix)" by force
    have e1: "catalog_inv hist (e\<lparr>e_index := ix\<rparr>)"
      using catalog_lookup(1) [OF assms(1), of "env_posting env" "env_regex env" ms] f by simp
    have "engine_inv env hist (e\<lparr>e_index := ix\<rparr>)" using assms(3) by (simp add: engine_inv_def)
    from delete_all_ok [OF this, of ids] show ?thesis
      using assms(7) inv(1) f catalog_delete [OF e1 assms(5), of ids]
      by (auto simp: Delete delete_series_def of_option_def found_ids_def)
  next
    case (Flush wall)
    have "smap_ok (active_series e)" using inv(3) by (simp add: active_inv_def)
    note view = flush_fold_view [OF active_labels [OF this], of env wall]
    have "catalog_inv hist (fold (flush_series env wall) (active_series e) e)"
      using catalog_view [OF view(1,3,2)] assms(1) by blast
    then show ?thesis
      using assms(7) inv(1) Flush
      by (auto simp: engine_flush_def flush_nolock_def Let_def catalog_inv_def bounds_inv_def split: prod.splits)
  next
    case Compact
    then show ?thesis
      using assms(1,7) inv(1) by (auto simp: engine_compact_def catalog_inv_def bounds_inv_def split: prod.splits)
  next
    case (LogWorker k)
    then show ?thesis using assms(1,7) by (auto simp: log_worker_def Let_def catalog_inv_def bounds_inv_def split: if_splits)
  next
    case (Maintenance now)
    then show ?thesis using assms(6) by (simp add: catalogued_def in_order_def)
  qed
qed

lemma engine_run_catalog:
  assumes "env_ok env" "env_posting env = vector_ops"
    "engine_init env cfg (\<lambda>_. []) [] (mk_engine stack) = Returns (Inr (), e0)" "engine_run env catalogued e0 e hist"
  shows "catalog_inv hist e" "exact_inv env hist e" "engine_inv env hist e"
proof -
  have run: "engine_run env in_order e0 e hist" if "engine_run env catalogued e0 e hist" for e hist
    using that by (rule engine_run_mono) (simp add: catalogued_def)
  note inv = engine_run_exact [OF assms(1,3) run]
  show "exact_inv env hist e" "engine_inv env hist e" by (rule inv [OF assms(4)])+
  show "catalog_inv hist e"
    using assms(4)
  proof (induction rule: engine_run.induct)
    case run_init
    have "e_index e0 = mk_sharded_index 16" "active_series e0 = []" "series_time_bounds e0 = []"
      using new_engine_state [OF assms(3,1)] by (auto simp: mk_engine_def)
    then show ?case
      using fresh_sharded_ok [of 16] by (simp add: catalog_inv_def bounds_inv_def series_of_def fun_eq_iff)
  next
    case (run_op e hist op e')
    show ?case by (rule engine_step_catalog [OF run_op.IH inv [OF run_op.hyps(1)] assms(1,2) run_op.hyps(2,3)])
  qed
qed

section \<open>Queries\<close>

lemma found_with_labels:
  assumes "sharded_ok (index_ok set (sorted_wrt (<))) si"
  shows "fst (sharded_find_series_with_labels vector_ops re ms si) =
    List.map_filter (\<lambda>i. map_option (Pair i) (sharded_labels si i)) (fst (sharded_find_series vector_ops re ms si))"
proof -
  have "with_labels (shards si ! k) (find_series vector_ops re ms (shards si ! k)) =
      List.map_filter (\<lambda>i. map_option (Pair i) (sharded_labels si i)) (find_series vector_ops re ms (shards si ! k))"
    if k: "k < length (shards si)" for k
  proof -
    have ok: "index_ok set (sorted_wrt (<)) (shards si ! k)"
        "\<forall>i \<in> dom (map_of (series_labels (shards si ! k))). get_shard_index i si = k"
      using assms k by (auto simp: sharded_ok_def)
    have "map_of (series_labels (shards si ! k)) i = sharded_labels si i"
      if "i \<in> set (find_series vector_ops re ms (shards si ! k))" for i
      using vectors.find_series_selected(1) [OF ok(1), where re = re and matchers = ms] that ok(2)
      by (auto simp: selected_def sharded_labels_def)
    then show ?thesis unfolding with_labels_def map_filter_def by (auto cong: filter_cong map_cong)
  qed
  then have "map (find_series_with_labels vector_ops re ms) (shards si) =
      map (\<lambda>ix. List.map_filter (\<lambda>i. map_option (Pair i) (sharded_labels si i)) (find_series vector_ops re ms ix)) (shards si)"
    by (intro nth_equalityI) (simp_all add: find_series_with_labels_def)
  moreover have "List.map_filter f (concat xss) = concat (map (List.map_filter f) xss)"
    for f :: "series_id \<Rightarrow> (series_id \<times> labels) option" and xss
    by (induction xss) (simp_all add: map_filter_def)
  ultimately show ?thesis unfolding vectors.routing_transparent [OF assms] by (simp only: map_map comp_def)
qed

lemma found_series:
  assumes "catalog_inv hist e" "ids = fst (sharded_find_series vector_ops re ms (e_index e))"
  shows "distinct ids" "set ids = {i. \<exists>l. series_of e i = Some l \<and> list_all (matches re l) ms}" "\<forall>i \<in> set ids. hist i \<noteq> []"
proof -
  have cat: "sharded_ok (index_ok set (sorted_wrt (<))) (e_index e)" "sharded_labels (e_index e) = series_of e"
    "\<forall>i. series_of e i = None \<longleftrightarrow> hist i = []"
    using assms(1) by (simp_all add: catalog_inv_def)
  show ids: "distinct ids" "set ids = {i. \<exists>l. series_of e i = Some l \<and> list_all (matches re l) ms}"
    using sharded.find_ok [OF cat(1), of re ms] cat(2) by (auto simp: assms(2))
  show "\<forall>i \<in> set ids. hist i \<noteq> []" unfolding ids(2) cat(3) [rule_format, symmetric] by auto
qed

lemma run_query_scan:
  assumes "exact_inv env hist e" "engine_inv env hist e" "bounds_inv hist e" "env_ok env"
    "\<forall>(i, l) \<in> set found. calculate_series_id env l = i"
    "length results + length found \<le> 1000" "checked + length found \<le> 1500"
  shows "\<exists>tss e'. run_query env now (\<lambda>_. False) t0 t1 found k checked results e = Some (results @ tss, e')
    \<and> map (\<lambda>ts. (calculate_series_id env (ts_labels ts), ts_samples ts)) tss =
      filter (\<lambda>(i, ss). ss \<noteq> []) (map (\<lambda>(i, l). (i, filter (in_range t0 t1) (hist i))) found)"
  using assms(1-3,5-7)
proof (induction found arbitrary: k checked results e)
  case (Cons f found)
  obtain i l where f: "f = (i, l)" by force
  have i: "calculate_series_id env l = i" using Cons.prems(4) f by simp
  have inv: "cache_inv env hist e" "active_inv env hist e" using Cons.prems(2) by (auto simp: engine_inv_def)
  show ?case
  proof (cases "outside_bounds i t0 t1 e")
    case True
    then have "filter (in_range t0 t1) (hist i) = []"
      using Cons.prems(3) by (fastforce simp: outside_bounds_def bounds_inv_def bounded_by_def in_range_def filter_empty_conv
          split: option.splits)
    moreover obtain tss e' where "run_query env now (\<lambda>_. False) t0 t1 found (k + 1) (checked + 1) results e = Some (results @ tss, e')"
        "map (\<lambda>ts. (calculate_series_id env (ts_labels ts), ts_samples ts)) tss =
          filter (\<lambda>(i, ss). ss \<noteq> []) (map (\<lambda>(i, l). (i, filter (in_range t0 t1) (hist i))) found)"
      using Cons.IH [OF Cons.prems(1-3), of results "checked + 1" "k + 1"] Cons.prems(4-6) by auto
    ultimately show ?thesis using True Cons.prems(5,6) by (auto simp: f)
  next
    case False
    obtain ts e1 where r: "read_nolock env now l t0 t1 e = Some (Inr ts, e1)" "exact_inv env hist e1"
        "ts_samples ts = filter (in_range t0 t1) (hist i)" "calculate_series_id env (ts_labels ts) = i"
      using read_nolock_exact [OF Cons.prems(1) inv(2) assms(4), of now l t0 t1] by (auto simp: i)
    have step: "cache_step env hist e e1" using read_nolock_ok [OF inv assms(4), of now l t0 t1] r(1) by auto
    have e1: "engine_inv env hist e1" "bounds_inv hist e1"
      using cache_step_inv [OF Cons.prems(2) step] Cons.prems(3) cache_step_fields(5) [OF step] by (simp_all add: bounds_inv_def)
    let ?results = "if ts_empty ts then results else results @ [ts]"
    obtain tss e' where rest: "run_query env now (\<lambda>_. False) t0 t1 found (k + 3) (checked + 1) ?results e1 = Some (?results @ tss, e')"
        "map (\<lambda>ts. (calculate_series_id env (ts_labels ts), ts_samples ts)) tss =
          filter (\<lambda>(i, ss). ss \<noteq> []) (map (\<lambda>(i, l). (i, filter (in_range t0 t1) (hist i))) found)"
    proof -
      have "length ?results + length found \<le> 1000" "checked + 1 + length found \<le> 1500"
          "\<forall>(i, l) \<in> set found. calculate_series_id env l = i"
        using Cons.prems(4-6) by simp_all
      from Cons.IH [OF r(2) e1 this(3,1,2), of "k + 3"] that show thesis by blast
    qed
    have "run_query env now (\<lambda>_. False) t0 t1 (f # found) k checked results e = Some (?results @ tss, e')"
      using False r(1) rest(1) Cons.prems(5,6) by (simp add: f Let_def)
    then show ?thesis
      using rest(2) r(3,4) by (cases "ts_empty ts") (auto simp: f ts_empty_def)
  qed
qed simp

section \<open>Properties\<close>

text \<open>
  C1: A query through the sharded index, the time bounds and the caches answers like a scan of all
  series. The run before it is one in which the samples of each series arrived in the order of their timestamps, none at
  time 0 or at \<open>INT64_MAX\<close>, fewer than 50000 series exist and the cache maintenance has not run; the query has a
  start before its end and does not time out, and at most 1000 series have samples. Then it returns each active series
  whose labels satisfy the matchers and that has samples in the range once, with exactly the samples
  written to it in that range, and nothing else.
\<close>

theorem query_equals_scan:
  assumes "env_ok env" "env_posting env = vector_ops"
    "engine_init env cfg (\<lambda>_. []) [] (mk_engine stack) = Returns (Inr (), e0)" "engine_run env catalogued e0 e hist"
    "sint t0 < sint t1" "card {i. hist i \<noteq> []} \<le> 1000"
  shows "\<exists>tss e'. engine_query env now (\<lambda>_. False) ms t0 t1 e = Some (Inr tss, e')
    \<and> distinct (map (\<lambda>ts. calculate_series_id env (ts_labels ts)) tss)
    \<and> (\<lambda>ts. (calculate_series_id env (ts_labels ts), ts_samples ts)) ` set tss =
      {(i, filter (in_range t0 t1) (hist i)) | i. (\<exists>l. series_of e i = Some l \<and> list_all (matches (env_regex env) l) ms)
         \<and> filter (in_range t0 t1) (hist i) \<noteq> []}"
proof -
  note inv = engine_run_catalog [OF assms(1-4)]
  let ?sid = "calculate_series_id env"
  obtain found ix where f: "sharded_find_series_with_labels vector_ops (env_regex env) ms (e_index e) = (found, ix)" by force
  let ?ids = "fst (sharded_find_series vector_ops (env_regex env) ms (e_index e))"
  have cat: "sharded_ok (index_ok set (sorted_wrt (<))) (e_index e)" "sharded_labels (e_index e) = series_of e"
    "\<forall>i. series_of e i = None \<longleftrightarrow> hist i = []" "bounds_inv hist e"
    using inv(1) by (simp_all add: catalog_inv_def)
  note ids = found_series [OF inv(1) refl, of "env_regex env" ms]
  have "found = List.map_filter (\<lambda>i. map_option (Pair i) (series_of e i)) ?ids"
    using found_with_labels [OF cat(1), of "env_regex env" ms] f cat(2) by simp
  moreover have "\<forall>i \<in> set ?ids. series_of e i \<noteq> None" using ids(2) by auto
  ultimately have found: "found = map (\<lambda>i. (i, the (series_of e i))) ?ids"
    by (auto simp: map_filter_def filter_id_conv)
  have "set ?ids \<subseteq> {i. hist i \<noteq> []}" using ids(3) by blast
  with card_mono [OF exact_finite [OF inv(2)] this] ids(1) assms(6) have few: "length found \<le> 1000"
    by (simp add: found distinct_card)
  have e1: "exact_inv env hist (e\<lparr>e_index := ix\<rparr>)" "engine_inv env hist (e\<lparr>e_index := ix\<rparr>)" "bounds_inv hist (e\<lparr>e_index := ix\<rparr>)"
    using inv cat(4) by (simp_all add: exact_inv_def engine_inv_def bounds_inv_def)
  have "active_inv env hist e" using inv(3) by (simp add: engine_inv_def)
  then have "?sid l = i" if "series_of e i = Some l" for i l
    using that active_invD(2) [of env hist e i] by (auto simp: series_of_def)
  then have sid: "\<forall>(i, l) \<in> set found. ?sid l = i" using ids(2) by (auto simp: found)
  obtain tss e' where q: "run_query env now (\<lambda>_. False) t0 t1 found 0 0 [] (e\<lparr>e_index := ix\<rparr>) = Some (tss, e')"
      "map (\<lambda>ts. (?sid (ts_labels ts), ts_samples ts)) tss =
        filter (\<lambda>(i, ss). ss \<noteq> []) (map (\<lambda>(i, l). (i, filter (in_range t0 t1) (hist i))) found)"
    using run_query_scan [OF e1 assms(1) sid, of "[]" 0 now t0 t1 0] few by auto
  then have pairs: "map (\<lambda>ts. (?sid (ts_labels ts), ts_samples ts)) tss =
      map (\<lambda>i. (i, filter (in_range t0 t1) (hist i))) (filter (\<lambda>i. filter (in_range t0 t1) (hist i) \<noteq> []) ?ids)"
    by (simp add: found filter_map comp_def)
  have "map (\<lambda>ts. ?sid (ts_labels ts)) tss = map fst (map (\<lambda>ts. (?sid (ts_labels ts), ts_samples ts)) tss)" by simp
  also have "\<dots> = filter (\<lambda>i. filter (in_range t0 t1) (hist i) \<noteq> []) ?ids" unfolding pairs by (simp add: comp_def)
  finally have "distinct (map (\<lambda>ts. ?sid (ts_labels ts)) tss)" using ids(1) by simp
  moreover have "(\<lambda>ts. (?sid (ts_labels ts), ts_samples ts)) ` set tss =
      (\<lambda>i. (i, filter (in_range t0 t1) (hist i))) ` {i \<in> set ?ids. filter (in_range t0 t1) (hist i) \<noteq> []}"
    using arg_cong [OF pairs, of set] by simp
  moreover have "initialized e" using inv(3) by (simp add: engine_inv_def)
  ultimately show ?thesis
    using q(1) f assms(2,5) by (intro exI [of _ tss] exI [of _ e']) (auto simp: engine_query_def ids(2))
qed

lemma example_catalogued: "catalogued (Write 0 0 example_entry) example_history"
proof -
  have "\<forall>s \<in> set (example_history i). timestamp s \<noteq> int64_max" for i
    by (auto simp: example_history_def example_entry_def mk_sample_def int64_max_def)
  then show ?thesis using example_in_order by (simp add: catalogued_def)
qed

lemma example_series_of:
  assumes "catalog_inv example_history e" "engine_inv example_env example_history e"
  shows "series_of e i = None \<longleftrightarrow> i \<noteq> calculate_series_id example_env (ts_labels example_entry)"
  using assms(1) example_entry_ok(4) by (simp add: catalog_inv_def example_history_def)

theorem query_equals_scan_witness:
  "\<exists>e0 e tss e'. engine_init example_env example_engine_config (\<lambda>_. []) [] (mk_engine (env_stack example_env)) = Returns (Inr (), e0)
     \<and> engine_run example_env catalogued e0 e example_history
     \<and> engine_query example_env 5 (\<lambda>_. False) [] 15 30 e = Some (Inr tss, e') \<and> map ts_samples tss = [[mk_sample 20 2]]"
proof -
  obtain e0 e where run: "engine_init example_env example_engine_config (\<lambda>_. []) [] (mk_engine (env_stack example_env)) = Returns (Inr (), e0)"
    "engine_run example_env catalogued e0 e example_history" using example_catalogued by (rule example_engine_run)
  let ?sid = "calculate_series_id example_env"
  let ?i = "?sid (ts_labels example_entry)"
  have posting: "env_posting example_env = vector_ops" by (simp add: example_env_def)
  note inv = engine_run_catalog [OF example_env_ok posting run]
  have "{i. example_history i \<noteq> []} \<subseteq> {?i}" by (auto simp: example_history_def)
  from card_mono [OF _ this] have few: "card {i. example_history i \<noteq> []} \<le> 1000" by simp
  obtain tss e' where q: "engine_query example_env 5 (\<lambda>_. False) [] 15 30 e = Some (Inr tss, e')"
      "distinct (map (\<lambda>ts. ?sid (ts_labels ts)) tss)"
      "(\<lambda>ts. (?sid (ts_labels ts), ts_samples ts)) ` set tss =
        {(i, filter (in_range 15 30) (example_history i)) | i. (\<exists>l. series_of e i = Some l \<and> list_all (matches (env_regex example_env) l) [])
           \<and> filter (in_range 15 30) (example_history i) \<noteq> []}"
    using query_equals_scan [OF example_env_ok posting run _ few, of 15 30 5 "[]"] by auto
  have "filter (in_range 15 30) (example_history ?i) = [mk_sample 20 2]"
    by (simp add: example_history_def example_entry_def in_range_def mk_sample_def)
  moreover have "(\<exists>l. series_of e i = Some l) \<longleftrightarrow> i = ?i" for i
    using example_series_of [OF inv(1,3), of i] by auto
  ultimately have one: "(\<lambda>ts. (?sid (ts_labels ts), ts_samples ts)) ` set tss = {(?i, [mk_sample 20 2])}"
    unfolding q(3) by auto
  then obtain ts rest where tss: "tss = ts # rest" by (cases tss) auto
  have all: "ts_samples x = [mk_sample 20 2] \<and> ?sid (ts_labels x) = ?i" if "x \<in> set tss" for x using that one by auto
  have "rest = []"
  proof (cases rest)
    case (Cons x xs)
    then have "?sid (ts_labels x) = ?sid (ts_labels ts)" using all tss by simp
    with q(2) tss Cons show ?thesis by simp
  qed simp
  then have "map ts_samples tss = [[mk_sample 20 2]]" using all tss by simp
  with run q(1) show ?thesis by (intro exI [of _ e0] exI [of _ e] exI [of _ tss] exI [of _ e'] conjI)
qed

text \<open>
  C6: A deleted series is gone: right after a deletion whose matchers found a series, a read of that
  series returns no samples, whatever the caches, the active series and the blocks held.
\<close>

theorem deleted_series_reads_empty:
  assumes "env_ok env" "engine_init env cfg (\<lambda>_. []) [] (mk_engine stack) = Returns (Inr (), e0)"
    "engine_run env regular e0 e hist" "sint t0 \<le> sint t1" "calculate_series_id env l \<in> found_ids env ms e"
  shows "\<exists>e1 ts e2. delete_series env ms e = Some (Inr (), e1) \<and> engine_read env now l t0 t1 e1 = Some (Inr ts, e2)
    \<and> ts_samples ts = []"
proof -
  obtain e1 where e1: "delete_series env ms e = Some (Inr (), e1)" "engine_inv env (log_op env (Delete ms) e hist) e1"
    using delete_series_ok [OF reachable_inv [OF assms(1-3)], of ms] by blast
  obtain ts e2 where read: "engine_read env now l t0 t1 e1 = Some (Inr ts, e2)" "read_ok env (log_op env (Delete ms) e hist) l t0 t1 ts"
    using engine_read_ok [OF e1(2) assms(1), of now l t0 t1] assms(4) by blast
  have "ts_samples ts = []" using read(2) assms(5) by (simp add: read_ok_def)
  with e1(1) read(1) show ?thesis by blast
qed

theorem deleted_series_reads_empty_witness:
  "\<exists>e0 e e1 ts e2. engine_init example_env example_engine_config (\<lambda>_. []) [] (mk_engine (env_stack example_env)) = Returns (Inr (), e0)
     \<and> engine_run example_env regular e0 e example_history \<and> delete_series example_env [] e = Some (Inr (), e1)
     \<and> engine_read example_env 5 [(''job'', ''a'')] 0 30 e1 = Some (Inr ts, e2) \<and> ts_samples ts = []"
proof -
  obtain e0 e where run: "engine_init example_env example_engine_config (\<lambda>_. []) [] (mk_engine (env_stack example_env)) = Returns (Inr (), e0)"
    "engine_run example_env catalogued e0 e example_history" using example_catalogued by (rule example_engine_run)
  have reg: "engine_run example_env regular e0 e example_history"
    using run(2) by (rule engine_run_mono) (simp add: catalogued_def in_order_def)
  have posting: "env_posting example_env = vector_ops" by (simp add: example_env_def)
  note inv = engine_run_catalog [OF example_env_ok posting run]
  have cat: "sharded_ok (index_ok set (sorted_wrt (<))) (e_index e)" "sharded_labels (e_index e) = series_of e"
    using inv(1) by (simp_all add: catalog_inv_def)
  have "series_of e (calculate_series_id example_env [(''job'', ''a'')]) \<noteq> None"
    using example_series_of [OF inv(1,3)] by (simp add: example_entry_def)
  then have "calculate_series_id example_env [(''job'', ''a'')] \<in> found_ids example_env [] e"
    using sharded.find_ok [OF cat(1), of "env_regex example_env" "[]"] cat(2) by (auto simp: found_ids_def posting)
  from deleted_series_reads_empty [OF example_env_ok run(1) reg _ this, of 0 30 5] run(1) reg show ?thesis by auto
qed

end
