(* ===== verification/Storage_Recovery.thy ===== *)
theory Storage_Recovery
  imports Storage_Queries
begin

text \<open>
  Restart of the storage engine from its log. What the shards of the log hold is what was written,
  whatever else the engine did, and a new engine that replays it reads back every sample. The
  caches of the new engine start empty, so its first reads are answered from the active series.
\<close>

section \<open>Replay\<close>

definition samples_for :: "('p, 'x) engine_env_scheme \<Rightarrow> time_series list \<Rightarrow> history" where
  "samples_for env tss i = concat (map ts_samples (filter (\<lambda>ts. calculate_series_id env (ts_labels ts) = i) tss))"

lemma samples_for_Cons:
  "samples_for env (ts # tss) i =
     (if calculate_series_id env (ts_labels ts) = i then ts_samples ts @ samples_for env tss i else samples_for env tss i)"
  by (simp add: samples_for_def)

lemma replay_all_ok:
  assumes "active_inv env hist e" "\<forall>ts \<in> set tss. \<forall>s \<in> set (ts_samples ts). timestamp s \<noteq> 0"
  shows "\<exists>e'. replay_all env tss e = Some e' \<and> active_inv env (\<lambda>i. hist i @ samples_for env tss i) e'
    \<and> cache_hierarchy e' = cache_hierarchy e \<and> series_heap e' = series_heap e \<and> next_series e' = next_series e
    \<and> e_blocks e' = e_blocks e \<and> e_wal e' = e_wal e"
  using assms
proof (induction tss arbitrary: hist e)
  case Nil
  then show ?case by (simp add: samples_for_def)
next
  case (Cons ts tss)
  let ?i = "calculate_series_id env (ts_labels ts)" and ?ss = "ts_samples ts"
  obtain ser ix where ser: "find_or_create env ?i (ts_labels ts) e = (ser, e\<lparr>e_index := ix\<rparr>)" "series_inv ser (hist ?i)"
      "addresses_ok (e_alloc e) ser" "md_id (metadata ser) = ?i" "calculate_series_id env (md_labels (metadata ser)) = ?i"
    using Cons.prems(1) by (rule find_or_create_ok) simp
  obtain full ser' a where app: "append_all (e_alloc e) ?ss ser = Some (full, ser', a)" "series_inv ser' (hist ?i @ ?ss)"
      "metadata ser' = metadata ser" "addresses_ok a ser'" "next_addr (e_alloc e) \<le> next_addr a"
    using append_all_ok [OF ser(2) _ ser(3), of ?ss] Cons.prems(2) by auto
  let ?e = "update_bounds ?i ?ss ((store_series ?i ser' (e\<lparr>e_index := ix\<rparr>))\<lparr>e_alloc := a\<rparr>)"
  have step: "replay_series env ts e = Some ?e" using ser(1) app(1) by (simp add: replay_series_def Let_def)
  have "active_inv env (hist(?i := hist ?i @ ?ss)) ?e"
    using active_inv_store [of env hist "e\<lparr>e_index := ix\<rparr>" ser' "hist ?i @ ?ss" a ?i] Cons.prems(1) app ser(4,5) by simp
  from Cons.IH [OF this] Cons.prems(2) obtain e' where e': "replay_all env tss ?e = Some e'"
      "active_inv env (\<lambda>i. (hist(?i := hist ?i @ ?ss)) i @ samples_for env tss i) e'"
      "cache_hierarchy e' = cache_hierarchy ?e" "series_heap e' = series_heap ?e" "next_series e' = next_series ?e"
      "e_blocks e' = e_blocks ?e" "e_wal e' = e_wal ?e"
    by auto
  have "(\<lambda>i. (hist(?i := hist ?i @ ?ss)) i @ samples_for env tss i) = (\<lambda>i. hist i @ samples_for env (ts # tss) i)"
    by (auto simp: samples_for_Cons)
  with e' step show ?case by (simp add: update_bounds_def store_series_def)
qed

lemma recovered_engine_inv:
  assumes "engine_init env cfg found [] (mk_engine stack) = Returns (Inr (), e1)" "env_ok env"
    "mk_sharded_wal (env_opens env) (cfg_data_dir cfg @ ''/wal'') found 16 = Inr w"
    "\<forall>ts \<in> set (fst (sharded_replay w)). \<forall>s \<in> set (ts_samples ts). timestamp s \<noteq> 0"
  shows "engine_inv env (samples_for env (fst (sharded_replay w))) e1" "e_wal e1 = snd (sharded_replay w)"
    "\<exists>H. cache_hierarchy e1 = Some H \<and> held (H, series_heap e1) = {} \<and> max_size (l1_cache H) = 50000"
proof -
  obtain tss w' where replay: "sharded_replay w = (tss, w')" by force
  let ?e = "(mk_engine stack)\<lparr>e_index := mk_sharded_index 16, e_wal := w'\<rparr>"
  have "active_inv env (\<lambda>i. []) ?e" by (simp add: active_inv_def mk_engine_def)
  from replay_all_ok [OF this, of tss] assms(4) obtain e2 where
    e2: "replay_all env tss ?e = Some e2" "active_inv env (samples_for env tss) e2" "cache_hierarchy e2 = None"
      "series_heap e2 = Map.empty" "e_wal e2 = w'"
    unfolding replay by (auto simp: mk_engine_def)
  have empty: "env_dir_order env [] = []" "env_sort_headers env [] = []"
    using assms(2) by (metis env_ok_def mset_zero_iff)+
  obtain m where "init_cache env cfg (e2\<lparr>e_blocks := m\<rparr>) = Returns (Inr (), e1)"
    using assms(1,3) replay empty e2(1)
    by (auto simp: engine_init_def recover_engine_def mk_block_manager_def recoverBlocks_def scan_tier_def mk_engine_def
        split: if_splits)
  then obtain H where H: "mk_hierarchy (env_can_create env) (engine_cache_config cfg) = Inr H"
      "e1 = e2\<lparr>e_blocks := m, initialized := True,
         cache_hierarchy := Some (if cfg_background cfg then start_background_processing H else H)\<rparr>"
    using e2(3) by (auto simp: init_cache_def split: sum.splits construction_error.splits)
  let ?H = "if cfg_background cfg then start_background_processing H else H"
  have same: "l1_cache ?H = l1_cache H" "l2_cache ?H = l2_cache H" by (simp_all add: start_background_processing_def)
  have new: "hierarchy_ok (H, Map.empty)" "held (H, Map.empty) = {}" "max_size (l1_cache H) = 50000"
    using mk_hierarchy_ok [OF H(1), of Map.empty] by (simp_all add: sized_def engine_cache_config_def)
  then have "series_cache.contents (calculate_series_id env) (samples_for env tss) (?H, Map.empty)"
    unfolding series_cache.contents_def counters_held [OF same] by simp
  then have "cache_inv env (samples_for env tss) e1" unfolding cache_inv_def H(2) by (simp add: e2(4))
  then show "engine_inv env (samples_for env (fst (sharded_replay w))) e1"
    using e2(2) by (simp add: engine_inv_def replay H(2))
  show "e_wal e1 = snd (sharded_replay w)" by (simp add: H(2) e2(5) replay)
  show "\<exists>H. cache_hierarchy e1 = Some H \<and> held (H, series_heap e1) = {} \<and> max_size (l1_cache H) = 50000"
    using new(2,3) same counters_held(3) [OF same, of Map.empty] by (simp add: H(2) e2(4))
qed

section \<open>The log of a run\<close>

fun engine_steps :: "('p, 'x) engine_env_scheme \<Rightarrow> engine_op list \<Rightarrow> 'p engine \<Rightarrow> 'p engine run" where
  "engine_steps env [] e = Returns e"
| "engine_steps env (op # ops) e =
     (case engine_step env op e of
        Returns e' \<Rightarrow> engine_steps env ops e' | Throws m \<Rightarrow> Throws m | Blocks \<Rightarrow> Blocks | Undefined \<Rightarrow> Undefined)"

fun accepted_writes :: "engine_op \<Rightarrow> time_series list" where
  "accepted_writes (Write now wall ts) = (if ts_samples ts = [] \<or> ts_labels ts = [] then [] else [ts])"
| "accepted_writes op = []"

definition kept :: "'p engine \<Rightarrow> 'p engine \<Rightarrow> bool" where
  "kept e e' \<longleftrightarrow> e_wal e' = e_wal e \<and> initialized e' = initialized e"

lemma kept_trans: "\<lbrakk>kept e e1; kept e1 e2\<rbrakk> \<Longrightarrow> kept e e2"
  by (simp add: kept_def)

lemma kept_fields [simp]:
  "kept e e" "kept e (store_series i ser e') = kept e e'" "kept e (link_block i l r e') = kept e e'" "kept e (update_bounds i ss e') = kept e e'"
  "kept e (forget_series i e') = kept e e'" "kept e (e'\<lparr>e_alloc := a\<rparr>) = kept e e'" "kept e (e'\<lparr>e_index := ix\<rparr>) = kept e e'"
  "kept e (e'\<lparr>e_blocks := m\<rparr>) = kept e e'" "kept e (e'\<lparr>block_seal_times := st\<rparr>) = kept e e'"
  "kept e (e'\<lparr>series_heap := h\<rparr>) = kept e e'" "kept e (e'\<lparr>cache_hierarchy := c\<rparr>) = kept e e'" "kept e (e'\<lparr>next_series := n\<rparr>) = kept e e'"
  by (auto simp: kept_def store_series_def link_block_def update_bounds_def forget_series_def)

lemma kept_from [simp]:
  "kept (e\<lparr>series_heap := h, next_series := n\<rparr>) e' = kept e e'" "kept (store_series i ser e) e' = kept e e'"
  "kept (update_bounds i ss e) e' = kept e e'" "kept (e\<lparr>e_alloc := a\<rparr>) e' = kept e e'" "kept (forget_series i e) e' = kept e e'"
  "kept (e\<lparr>e_index := ix\<rparr>) e' = kept e e'"
  by (auto simp: kept_def store_series_def update_bounds_def forget_series_def)

lemma kept_on_cache: "on_cache f x e = Some (r, e') \<Longrightarrow> kept e e'"
  by (auto simp: on_cache_def split: option.splits)

lemma kept_put: "put_copy env now i ts e = Some (r, e') \<Longrightarrow> kept e e'"
  unfolding put_copy_def by (drule kept_on_cache) simp

lemma kept_lookup: "lookup_series now i e = Some (r, e') \<Longrightarrow> kept e e'"
  unfolding lookup_series_def by (rule kept_on_cache)

lemma kept_read_persisted: "read_persisted env now l t0 t1 e = Some (r, e') \<Longrightarrow> kept e e'"
  by (auto simp: read_persisted_def dest: kept_put split: option.splits sum.splits if_splits prod.splits)

lemma kept_read_active: "read_active env now l t0 t1 e = Some (r, e') \<Longrightarrow> kept e e'"
  by (auto simp: read_active_def dest: kept_put kept_read_persisted split: option.splits sum.splits if_splits prod.splits
      intro: kept_trans)

lemma kept_read: "read_nolock env now l t0 t1 e = Some (r, e') \<Longrightarrow> kept e e'"
  by (auto simp: read_nolock_def dest!: kept_lookup kept_read_active split: option.splits sum.splits prod.splits intro: kept_trans)

lemma kept_query: "run_query env now late t0 t1 found k checked results e = Some (r, e') \<Longrightarrow> kept e e'"
proof (induction found arbitrary: k checked results e)
  case (Cons f found)
  obtain i l where f: "f = (i, l)" by force
  show ?case
  proof (cases "read_nolock env now l t0 t1 e")
    case None
    then show ?thesis using Cons.prems Cons.IH by (auto simp: f split: if_splits)
  next
    case (Some x)
    obtain y e1 where x: "x = (y, e1)" by force
    have k: "kept e e1" using kept_read Some x by blast
    then show ?thesis
      using Cons.prems Cons.IH [of _ _ _ e] kept_trans [OF k Cons.IH] Some by (auto simp: f x Let_def split: if_splits)
  qed
qed simp

lemma kept_delete: "delete_all env is e = Some (r, e') \<Longrightarrow> kept e e'"
proof (induction "is" arbitrary: e)
  case (Cons i "is")
  obtain x e1 where x: "on_cache (hierarchy_remove i) False (forget_series i e) = Some (x, e1)"
    using Cons.prems by (cases "on_cache (hierarchy_remove i) False (forget_series i e)") auto
  have k: "kept e e1" using kept_on_cache [OF x] by simp
  show ?case
  proof (cases x)
    case (Inl ex)
    then show ?thesis using Cons.prems x k by simp
  next
    case (Inr b)
    then have "kept (e1\<lparr>e_index := sharded_remove_series (env_posting env) i (e_index e1)\<rparr>) e'"
      using Cons.prems x by (intro Cons.IH) simp
    with k show ?thesis using kept_trans by auto
  qed
qed simp

lemma kept_persist [simp]: "kept e (persist_block env wall i l r e') = kept e e'"
  by (auto simp: persist_block_def split: prod.split sum.split)

lemma kept_seal [simp]:
  "kept e (seal_full env wall i l ser e') = kept e e'" "kept e (flush_series env wall x e') = kept e e'"
  by (auto simp: seal_full_def flush_series_def Let_def split: prod.split option.split)

lemma kept_flush [simp]: "kept e (fold (flush_series env wall) xs e') = kept e e'"
  by (induction xs arbitrary: e') simp_all

lemma kept_write:
  assumes "write_in_memory env now wall ts e = Returns (r, e')"
  shows "kept e e'"
proof -
  let ?i = "calculate_series_id env (ts_labels ts)"
  obtain ser e1 where fc: "find_or_create env ?i (ts_labels ts) e = (ser, e1)" by force
  then have "kept e e1" by (auto simp: find_or_create_def split: option.splits)
  moreover have "kept e1 e'"
    using assms fc by (auto simp: write_in_memory_def Let_def dest!: kept_put split: option.splits sum.splits if_splits prod.splits)
  ultimately show ?thesis by (rule kept_trans)
qed

definition logging :: "('p, 'x) engine_env_scheme \<Rightarrow> sharded_wal \<Rightarrow> 'p engine \<Rightarrow> time_series list \<Rightarrow> bool" where
  "logging env sw0 e tss \<longleftrightarrow> initialized e \<and> list_all running (wal_shards (e_wal e))
     \<and> sharded_run (env_opens env) (env_hash env) sw0 (e_wal e) tss"

lemma logging_kept: "\<lbrakk>logging env sw0 e tss; kept e e'\<rbrakk> \<Longrightarrow> logging env sw0 e' tss"
  by (simp add: logging_def kept_def)

lemma logging_write:
  assumes "logging env sw0 e tss" "sharded_log (env_hash env) ts (e_wal e) = Some (r, w)"
  shows "logging env sw0 (e\<lparr>e_wal := w\<rparr>) (tss @ [ts])"
proof -
  have run: "list_all running (wal_shards (e_wal e))" using assms(1) by (simp add: logging_def)
  let ?ss = "wal_shards (e_wal e)" and ?k = "wal_shard_index (env_hash env) (length (wal_shards (e_wal e))) ts"
  obtain s where "shard_log ts (?ss ! ?k) = Some (r, s)" "wal_shards w = ?ss[?k := s]"
    using assms(2) by (auto simp: sharded_log_def Let_def split: option.splits if_splits prod.splits)
  moreover from this(1) have "running s = running (?ss ! ?k)" by (auto simp: shard_log_def split: if_splits)
  ultimately have "list_all running (wal_shards w)"
    using run by (cases "?k < length ?ss") (auto simp: list_all_length nth_list_update)
  with assms run show ?thesis by (auto simp: logging_def intro: all_log)
qed

lemma logging_step:
  assumes "logging env sw0 e tss" "engine_step env op e = Returns e'"
  shows "logging env sw0 e' (tss @ accepted_writes op)"
proof (cases op)
  case (Write now wall ts)
  show ?thesis
  proof (cases "ts_samples ts = [] \<or> ts_labels ts = []")
    case True
    then show ?thesis using Write assms by (auto simp: engine_write_def ts_empty_def logging_def split: if_splits)
  next
    case False
    obtain r w x where w: "sharded_log (env_hash env) ts (e_wal e) = Some (r, w)"
        "write_in_memory env now wall ts (e\<lparr>e_wal := w\<rparr>) = Returns (x, e')"
      using assms False
      by (auto simp: Write engine_write_def ts_empty_def logging_def split: option.splits run.splits)
    from logging_kept [OF logging_write [OF assms(1) w(1)] kept_write [OF w(2)]] False show ?thesis by (simp add: Write)
  qed
next
  case (Read now l t0 t1)
  then obtain x where "engine_read env now l t0 t1 e = Some (x, e')"
    using assms(2) by (auto simp: of_option_def split: option.splits)
  then have "kept e e'" by (auto simp: engine_read_def dest: kept_read split: if_splits)
  from logging_kept [OF assms(1) this] show ?thesis by (simp add: Read)
next
  case (Query now late ms t0 t1)
  then obtain x where "engine_query env now late ms t0 t1 e = Some (x, e')"
    using assms(2) by (auto simp: of_option_def split: option.splits)
  then have "kept e e'"
    by (auto simp: engine_query_def dest!: kept_query split: if_splits prod.splits)
  from logging_kept [OF assms(1) this] show ?thesis by (simp add: Query)
next
  case (Delete ms)
  then obtain x where "delete_series env ms e = Some (x, e')"
    using assms(2) by (auto simp: of_option_def split: option.splits)
  then have "kept e e'" by (auto simp: delete_series_def dest!: kept_delete split: if_splits prod.splits)
  from logging_kept [OF assms(1) this] show ?thesis by (simp add: Delete)
next
  case (Flush wall)
  then have "kept e e'"
    using assms(2) by (auto simp: engine_flush_def flush_nolock_def Let_def split: prod.splits if_splits)
  from logging_kept [OF assms(1) this] show ?thesis by (simp add: Flush)
next
  case Compact
  then have "kept e e'" using assms(2) by (auto simp: engine_compact_def split: prod.splits if_splits)
  from logging_kept [OF assms(1) this] show ?thesis by (simp add: Compact)
next
  case (LogWorker k)
  show ?thesis
  proof (cases "k < length (wal_shards (e_wal e))")
    case True
    let ?ss = "(wal_shards (e_wal e))[k := worker_step (env_opens env) (wal_shards (e_wal e) ! k)]"
    have "list_all running ?ss"
      using assms(1) True worker_step_running by (auto simp: logging_def list_all_length nth_list_update)
    moreover have "sharded_run (env_opens env) (env_hash env) sw0 ((e_wal e)\<lparr>wal_shards := ?ss\<rparr>) tss"
      using assms(1) True by (auto simp: logging_def intro: all_worker)
    moreover have "e' = e\<lparr>e_wal := (e_wal e)\<lparr>wal_shards := ?ss\<rparr>\<rparr>"
      using assms(2) True by (simp add: LogWorker log_worker_def Let_def)
    ultimately show ?thesis using assms(1) by (simp add: LogWorker logging_def)
  qed (use assms in \<open>simp add: LogWorker log_worker_def Let_def\<close>)
next
  case (Maintenance now)
  then obtain x where "on_cache (perform_maintenance now (env_order env)) () e = Some (x, e')"
    using assms(2) by (auto simp: of_option_def split: option.splits)
  from logging_kept [OF assms(1) kept_on_cache [OF this]] show ?thesis by (simp add: Maintenance)
qed

lemma logging_steps:
  "\<lbrakk>logging env sw0 e tss; engine_steps env ops e = Returns e'\<rbrakk> \<Longrightarrow> logging env sw0 e' (tss @ concat (map accepted_writes ops))"
proof (induction ops arbitrary: e tss)
  case (Cons op ops)
  then obtain e1 where e1: "engine_step env op e = Returns e1" "engine_steps env ops e1 = Returns e'"
    by (auto split: run.splits)
  from Cons.IH [OF logging_step [OF Cons.prems(1) e1(1)] e1(2)] show ?case by simp
qed simp

text \<open>A new log is flushed already, so its replay changes nothing.\<close>

lemma new_shard_state:
  "\<lbrakk>mk_wal_shards opens base (\<lambda>_. []) is = Inr ss; s \<in> set ss\<rbrakk> \<Longrightarrow>
     snd (shard_replay s) = s \<and> (\<exists>dir w. mk_wal opens dir [] = Inr w \<and> s = mk_wal_shard 10000 w)"
proof (induction "is" arbitrary: ss)
  case (Cons i "is")
  obtain w ss' where w: "mk_wal opens (shard_dir base i) [] = Inr w" "mk_wal_shards opens base (\<lambda>_. []) is = Inr ss'"
      "ss = mk_wal_shard 10000 w # ss'"
    using Cons.prems(1) by (auto split: sum.splits)
  have "snd (shard_replay (mk_wal_shard 10000 w)) = mk_wal_shard 10000 w"
    using w(1) by (auto simp: mk_wal_def Let_def open_segment_def shard_replay_def mk_wal_shard_def wal_replay_def
        wal_flush_def stream_flush_def split: if_splits)
  with Cons.IH [OF w(2)] Cons.prems(2) w(1,3) show ?case by auto
qed simp

lemma new_log:
  assumes "engine_init env cfg (\<lambda>_. []) [] (mk_engine stack) = Returns (Inr (), e0)" "env_ok env"
    "mk_sharded_wal (env_opens env) (cfg_data_dir cfg @ ''/wal'') (\<lambda>_. []) 16 = Inr w"
  shows "e_wal e0 = w" "length (wal_shards w) = 16"
    "s \<in> set (wal_shards w) \<Longrightarrow> \<exists>dir v. mk_wal (env_opens env) dir [] = Inr v \<and> s = mk_wal_shard 10000 v"
proof -
  have shards: "mk_wal_shards (env_opens env) (cfg_data_dir cfg @ ''/wal'') (\<lambda>_. []) [0..<16] = Inr (wal_shards w)"
    using assms(3) by (cases "mk_wal_shards (env_opens env) (cfg_data_dir cfg @ ''/wal'') (\<lambda>_. []) [0..<16]") (auto simp: mk_sharded_wal_def)
  note new = new_shard_state [OF shards]
  have "map (\<lambda>s. snd (shard_replay s)) (wal_shards w) = wal_shards w" using new by (intro map_idI) blast
  moreover have "fst (sharded_replay w) = []" using new_shards [OF shards] by (simp add: sharded_replay_def)
  then have "e_wal e0 = snd (sharded_replay w)" using recovered_engine_inv(2) [OF assms(1,2,3)] by simp
  ultimately show "e_wal e0 = w" by (simp add: sharded_replay_def)
  show "length (wal_shards w) = 16" using new_shards [OF shards] by simp
  show "s \<in> set (wal_shards w) \<Longrightarrow> \<exists>dir v. mk_wal (env_opens env) dir [] = Inr v \<and> s = mk_wal_shard 10000 v" using new by blast
qed

lemma new_logging:
  assumes "engine_init env cfg (\<lambda>_. []) [] (mk_engine stack) = Returns (Inr (), e0)" "env_ok env"
    "mk_sharded_wal (env_opens env) (cfg_data_dir cfg @ ''/wal'') (\<lambda>_. []) 16 = Inr w"
  shows "logging env w e0 []"
proof -
  have "list_all running (wal_shards w)" using new_log(3) [OF assms] by (fastforce simp: list_all_iff mk_wal_shard_def)
  moreover have "initialized e0" using new_engine_inv [OF assms(1,2)] by (simp add: engine_inv_def)
  ultimately show ?thesis using new_log(1) [OF assms] by (auto simp: logging_def intro: all_start)
qed

section \<open>Restart\<close>

text \<open>The log files that a process leaves behind.\<close>

definition log_files :: "'p engine \<Rightarrow> nat \<Rightarrow> (string \<times> byte list) list" where
  "log_files e k = files (shard_wal (wal_shards (e_wal e) ! k))"

definition log_settled :: "'p engine \<Rightarrow> bool" where
  "log_settled e \<longleftrightarrow> list_all (\<lambda>s. idle s \<and> unflushed (shard_wal s) = []) (wal_shards (e_wal e))"

lemma reopened_shards:
  assumes "mk_wal_shards opens base (\<lambda>k. seg_files (segs k)) is = Inr ss" "\<forall>k \<in> set is. segs k \<noteq> []"
    "\<forall>k \<in> set is. \<forall>ts \<in> set (concat (segs k)). loggable ts" "\<forall>k \<in> set is. length (concat (segs k)) \<le> 1000000"
  shows "map (\<lambda>s. fst (shard_replay s)) ss = map (\<lambda>k. map logged (concat (segs k))) is"
  using assms
proof (induction "is" arbitrary: ss)
  case (Cons k "is")
  obtain w ss' where w: "mk_wal opens (shard_dir base k) (seg_files (segs k)) = Inr w"
      "mk_wal_shards opens base (\<lambda>k. seg_files (segs k)) is = Inr ss'" "ss = mk_wal_shard 10000 w # ss'"
    using Cons.prems(1) by (auto split: sum.splits)
  obtain tss rest where segs: "segs k = tss # rest" using Cons.prems(2) by (cases "segs k") auto
  have "files w = seg_files (segs k)" "unflushed w = []"
    using w(1) by (auto simp: segs mk_wal_def Let_def open_segment_def file_contents_def seg_files_Cons split: if_splits)
  then have "fst (shard_replay (mk_wal_shard 10000 w)) = map logged (concat (segs k))"
    using replay_seg_files [of "segs k"] Cons.prems(3,4)
    by (simp add: shard_replay_def mk_wal_shard_def wal_replay_def wal_flush_def stream_flush_def Let_def)
  then show ?case using Cons.IH [OF w(2)] Cons.prems(2-4) by (simp add: w(3))
qed simp

lemma restart_replays:
  assumes "logging env sw0 e tss" "mk_sharded_wal (env_opens env) base0 (\<lambda>_. []) 16 = Inr sw0" "\<forall>p. env_opens env p"
    "\<forall>ts \<in> set tss. loggable ts" "length tss < 1000000" "log_settled e"
    "mk_sharded_wal (env_opens env) base (log_files e) 16 = Inr w"
  shows "fst (sharded_replay w) =
    concat (map (\<lambda>k. map logged (filter (\<lambda>ts. wal_shard_index (env_hash env) 16 ts = k) tss)) [0..<16])"
proof -
  let ?part = "\<lambda>k. filter (\<lambda>ts. wal_shard_index (env_hash env) 16 ts = k) tss"
  have run: "sharded_run (env_opens env) (env_hash env) sw0 (e_wal e) tss" using assms(1) by (simp add: logging_def)
  note inv = sharded_run_inv [OF assms(2,3) run assms(5)]
  have len: "length (wal_shards (e_wal e)) = 16" by (rule inv(1) [of 0]) simp
  have "\<exists>segs. segs \<noteq> [] \<and> log_files e k = seg_files segs \<and> concat segs = ?part k" if k: "k < 16" for k
  proof -
    let ?s = "wal_shards (e_wal e) ! k"
    obtain segs where segs: "wal_inv (shard_wal ?s) segs" "?part k = concat segs @ pending ?s"
      using inv(2) [OF k] by (auto simp: shard_inv_def)
    have "idle ?s" "unflushed (shard_wal ?s) = []" using assms(6) k len by (auto simp: log_settled_def list_all_length)
    with segs idle_pending [of ?s] show ?thesis
      by (intro exI [of _ segs]) (auto simp: wal_inv_def stream_flush_def log_files_def)
  qed
  then obtain segs where segs: "\<forall>k < 16. segs k \<noteq> [] \<and> log_files e k = seg_files (segs k) \<and> concat (segs k) = ?part k" by metis
  have cong: "mk_wal_shards opens base found is = mk_wal_shards opens base found' is" if "\<forall>k \<in> set is. found k = found' k"
    for opens base found found' "is" using that by (induction "is") (simp_all cong: sum.case_cong)
  have "mk_wal_shards (env_opens env) base (log_files e) [0..<16] = Inr (wal_shards w)"
    using assms(7) by (cases "mk_wal_shards (env_opens env) base (log_files e) [0..<16]") (auto simp: mk_sharded_wal_def)
  then have shards: "mk_wal_shards (env_opens env) base (\<lambda>k. seg_files (segs k)) [0..<16] = Inr (wal_shards w)"
    using cong [of "[0..<16]" "log_files e" "\<lambda>k. seg_files (segs k)"] segs by simp
  have "\<forall>k \<in> set [0..<16]. length (concat (segs k)) \<le> 1000000"
    using segs le_trans [OF length_filter_le less_imp_le [OF assms(5)]] by simp
  moreover have "\<forall>k \<in> set [0..<16]. \<forall>ts \<in> set (concat (segs k)). loggable ts" using segs assms(4) by simp
  ultimately have "map (\<lambda>s. fst (shard_replay s)) (wal_shards w) = map (\<lambda>k. map logged (concat (segs k))) [0..<16]"
    using segs by (intro reopened_shards [OF shards]) simp_all
  also have "\<dots> = map (\<lambda>k. map logged (?part k)) [0..<16]" using segs by (intro map_cong) simp_all
  finally show ?thesis unfolding sharded_replay_def fst_conv by (rule arg_cong)
qed

text \<open>A read that misses the caches is answered from the active series.\<close>

lemma read_after_miss:
  assumes "engine_inv env hist e" "env_ok env" "cache_hierarchy e = Some H"
    "visible (H, series_heap e) (calculate_series_id env l) = None" "sint t0 \<le> sint t1"
  shows "\<exists>ts e'. engine_read env now l t0 t1 e = Some (Inr ts, e') \<and> chronological (ts_samples ts)
    \<and> represents (ts_samples ts) (in_range t0 t1) (hist (calculate_series_id env l))"
proof -
  have inv: "initialized e" "cache_inv env hist e" "active_inv env hist e" using assms(1) by (auto simp: engine_inv_def)
  obtain H' h where look: "lookup_series now (calculate_series_id env l) e = Some (Inr None, e\<lparr>cache_hierarchy := Some H', series_heap := h\<rparr>)"
      "cache_inv env hist (e\<lparr>cache_hierarchy := Some H', series_heap := h\<rparr>)"
    using lookup_series_ok [OF inv(2), of now "calculate_series_id env l"] assms(3,4) by auto
  have "active_inv env hist (e\<lparr>cache_hierarchy := Some H', series_heap := h\<rparr>)" using inv(3) by simp
  from read_active_ok [OF look(2) this assms(2), of now l t0 t1] look(1) inv(1) assms(5) show ?thesis
    by (auto simp: engine_read_def read_nolock_def)
qed

lemma represents_points:
  assumes "point ` set ss = point ` set ss'" "\<And>x y. point x = point y \<Longrightarrow> P x = P y"
  shows "represents xs P ss = represents xs P ss'"
proof -
  have sub: "point ` {s \<in> set a. P s} \<subseteq> point ` {s \<in> set b. P s}" if "point ` set a = point ` set b" for a b
  proof
    fix p assume "p \<in> point ` {s \<in> set a. P s}"
    then obtain x where x: "x \<in> set a" "P x" "p = point x" by blast
    then have "point x \<in> point ` set b" using that by blast
    then obtain y where "y \<in> set b" "point x = point y" by blast
    with x assms(2) show "p \<in> point ` {s \<in> set b. P s}" by blast
  qed
  have eq: "point ` {s \<in> set ss. P s} = point ` {s \<in> set ss'. P s}"
    using sub [OF assms(1)] sub [OF assms(1) [symmetric]] by (rule subset_antisym)
  have "timestamp ` A = fst ` point ` A" for A by (simp add: image_image point_def)
  with eq show ?thesis unfolding represents_def by simp
qed

lemma replayed_samples:
  "point ` set (samples_for env (concat (map (\<lambda>k. map logged (filter (\<lambda>ts. f ts = k) tss)) [0..<n])) i)
     = point ` set (samples_for env (filter (\<lambda>ts. f ts < n) tss) i)"
proof -
  have pts: "point ` set (ts_samples (logged ts)) = point ` set (ts_samples ts)" "ts_labels (logged ts) = ts_labels ts" for ts
    by (simp_all add: logged_def image_image point_def mk_sample_def)
  have pt: "point ` set (samples_for env xs i)
      = (\<Union>ts \<in> {ts \<in> set xs. calculate_series_id env (ts_labels ts) = i}. point ` set (ts_samples ts))" for xs
    by (simp add: samples_for_def image_UN)
  have "set (concat (map (\<lambda>k. map logged (filter (\<lambda>ts. f ts = k) tss)) [0..<n])) = logged ` set (filter (\<lambda>ts. f ts < n) tss)"
    by auto
  moreover have "{ts \<in> logged ` A. calculate_series_id env (ts_labels ts) = i}
      = logged ` {ts \<in> A. calculate_series_id env (ts_labels ts) = i}" for A
    by (auto simp: pts(2))
  ultimately show ?thesis unfolding pt by (simp only: pts(1) UN_simps(10) image_image)
qed

lemma accepted_length: "length (concat (map accepted_writes ops)) \<le> length ops"
proof (induction ops)
  case (Cons op ops)
  have "length (accepted_writes op) \<le> 1" by (cases op) simp_all
  with Cons show ?case by simp
qed simp

section \<open>An example restart\<close>

lemma write_keeps_blocks:
  assumes "engine_inv env hist e" "env_ok env" "series_ok ts" "\<forall>s \<in> set (ts_samples ts). timestamp s \<noteq> 0"
    "length (hist (calculate_series_id env (ts_labels ts)) @ ts_samples ts) < 10000" "write_in_memory env now wall ts e = Returns (r, e')"
  shows "e_blocks e' = e_blocks e"
proof -
  let ?i = "calculate_series_id env (ts_labels ts)"
  have inv: "active_inv env hist e" using assms(1) by (simp add: engine_inv_def)
  obtain ser ix where ser: "find_or_create env ?i (ts_labels ts) e = (ser, e\<lparr>e_index := ix\<rparr>)" "series_inv ser (hist ?i)"
      "addresses_ok (e_alloc e) ser"
    using inv by (rule find_or_create_ok) simp
  obtain full ser' a where app: "append_all (e_alloc e) (ts_samples ts) ser = Some (full, ser', a)"
      "full \<longrightarrow> 10000 \<le> length (hist ?i @ ts_samples ts)"
    using append_all_ok [OF ser(2) assms(4) ser(3)] by blast
  have blocks: "put_copy env now i x d = Some (y, d') \<Longrightarrow> e_blocks d' = e_blocks d" for i x d y d'
    by (auto simp: put_copy_def on_cache_def split: option.splits)
  have "\<not> full" using app(2) assms(5) by simp
  then show ?thesis
    using assms(6) ser(1) app(1)
    by (auto simp: write_in_memory_def Let_def update_bounds_def store_series_def dest!: blocks split: option.splits sum.splits if_splits)
qed

definition example_ops :: "engine_op list" where
  "example_ops =
     Write 0 0 example_entry # replicate 3 (LogWorker (wal_shard_index (env_hash example_env) 16 example_entry))"

lemma example_accepted: "concat (map accepted_writes example_ops) = [example_entry]"
  using example_entry_ok(4,5) by (simp add: example_ops_def numeral_3_eq_3)

lemma example_settles:
  assumes "mk_wal opens dir [] = Inr w"
  defines "s \<equiv> worker_step opens (worker_step opens (worker_step opens (mk_wal_shard 10000 w\<lparr>shard_queue := [example_entry]\<rparr>)))"
  shows "idle s \<and> unflushed (shard_wal s) = []"
proof -
  have w: "is_open w" "unflushed w = []" "file_pos w = 0" "current_segment w = 0"
    using assms(1) by (auto simp: mk_wal_def Let_def open_segment_def split: if_splits)
  let ?w = "w\<lparr>unflushed := Write_Ahead_Log.frame (serialize_series example_entry)\<rparr>"
  have "wal_log opens example_entry False w = (Inr (), ?w)"
    using w by (simp add: wal_log_def write_to_segment_def tellp_def Write_Ahead_Log.frame_def length_example)
  moreover have "unflushed (wal_flush ?w) = []" using w(1) by (simp add: wal_flush_def stream_flush_def Let_def)
  ultimately show ?thesis
    by (simp add: s_def worker_step_def mk_wal_shard_def batch_size_def idle_def)
qed

lemma engine_restarts:
  assumes "env_ok env" "\<forall>p. env_opens env p" "\<forall>p. env_can_create env p" "cfg_data_dir cfg \<noteq> []"
    "\<And>w. mk_sharded_wal (env_opens env) (cfg_data_dir cfg @ ''/wal'') found 16 = Inr w \<Longrightarrow>
       \<forall>ts \<in> set (fst (sharded_replay w)). \<forall>s \<in> set (ts_samples ts). timestamp s \<noteq> 0"
  shows "\<exists>e1. engine_init env cfg found [] (mk_engine stack) = Returns (Inr (), e1)"
proof -
  obtain ss where "mk_wal_shards (env_opens env) (cfg_data_dir cfg @ ''/wal'') found [0..<16] = Inr ss"
    using all_shards_open [OF assms(2)] by blast
  then obtain w where w: "mk_sharded_wal (env_opens env) (cfg_data_dir cfg @ ''/wal'') found 16 = Inr w"
    by (simp add: mk_sharded_wal_def)
  obtain tss w' where replay: "sharded_replay w = (tss, w')" by force
  have "active_inv env (\<lambda>i. []) ((mk_engine stack)\<lparr>e_index := mk_sharded_index 16, e_wal := w'\<rparr>)"
    by (simp add: active_inv_def mk_engine_def)
  from replay_all_ok [OF this, of tss] assms(5) [OF w] obtain e2 where
    e2: "replay_all env tss ((mk_engine stack)\<lparr>e_index := mk_sharded_index 16, e_wal := w'\<rparr>) = Some e2" "cache_hierarchy e2 = None"
    unfolding replay by (auto simp: mk_engine_def)
  have "env_dir_order env [] = []" "env_sort_headers env [] = []"
    using assms(1) by (metis env_ok_def mset_zero_iff)+
  with w replay e2 assms(3,4) show ?thesis
    by (simp add: engine_init_def mk_engine_def recover_engine_def mk_block_manager_def
        recoverBlocks_def scan_tier_def init_cache_def mk_hierarchy_def engine_cache_config_def mk_cache_def Let_def)
qed

lemma example_before_restart:
  assumes "engine_init example_env example_engine_config (\<lambda>_. []) [] (mk_engine (env_stack example_env)) = Returns (Inr (), e0)"
  shows "\<exists>e. engine_steps example_env example_ops e0 = Returns e \<and> log_settled e \<and> disk_of (e_blocks e) = []"
proof -
  let ?env = example_env and ?step = "worker_step (env_opens example_env)"
  let ?k = "wal_shard_index (env_hash ?env) 16 example_entry"
  obtain w where w: "mk_sharded_wal (env_opens ?env) (cfg_data_dir example_engine_config @ ''/wal'') (\<lambda>_. []) 16 = Inr w"
    using assms by (auto simp: engine_init_def mk_engine_def split: sum.splits)
  note log = new_log [OF assms example_env_ok w]
  have k: "?k < 16" by (simp add: wal_shard_index_def)
  let ?s = "(wal_shards w ! ?k)\<lparr>shard_queue := [example_entry]\<rparr>"
  have "wal_shards w ! ?k \<in> set (wal_shards w)" using k log(2) by simp
  from log(3) [OF this] obtain dir v where v: "mk_wal (env_opens ?env) dir [] = Inr v" "wal_shards w ! ?k = mk_wal_shard 10000 v" by blast
  let ?w1 = "w\<lparr>wal_shards := (wal_shards w)[?k := ?s], total_writes := total_writes w + 1\<rparr>"
  have logged: "sharded_log (env_hash ?env) example_entry (e_wal e0) = Some (Inr (), ?w1)"
    using log(1,2) v(2) by (simp add: sharded_log_def shard_log_def mk_wal_shard_def)
  obtain e where e: "engine_step ?env (Write 0 0 example_entry) e0 = Returns e"
    using first_write [OF assms example_env_ok, of 0 0 example_entry] example_regular [of 0 0] unfolding example_log by blast
  have inv: "engine_inv ?env (\<lambda>i. []) e0" by (rule new_engine_inv [OF assms example_env_ok])
  obtain x where wr: "write_in_memory ?env 0 0 example_entry (e0\<lparr>e_wal := ?w1\<rparr>) = Returns (x, e)"
    using e logged inv example_entry_ok(4,5)
    by (auto simp: engine_write_def ts_empty_def engine_inv_def split: run.splits)
  have wal: "e_wal e = ?w1" using kept_write [OF wr] by (simp add: kept_def)
  have "engine_inv ?env (\<lambda>i. []) (e0\<lparr>e_wal := ?w1\<rparr>)" using inv by (simp add: engine_inv_def)
  from write_keeps_blocks [OF this example_env_ok example_entry_ok(1,3) _ wr]
  have blocks: "e_blocks e = e_blocks e0" by (simp add: example_entry_def)
  have disk: "disk_of (e_blocks e0) = []" using new_engine_state [OF assms example_env_ok] by auto
  let ?e = "e\<lparr>e_wal := ?w1\<lparr>wal_shards := (wal_shards w)[?k := ?step (?step (?step ?s))]\<rparr>\<rparr>"
  have steps: "engine_steps ?env example_ops e0 = Returns ?e"
    using e wal k log(2) by (simp add: example_ops_def numeral_3_eq_3 log_worker_def Let_def)
  have fresh: "idle s \<and> unflushed (shard_wal s) = []" if "s \<in> set (wal_shards w)" for s
    using log(3) [OF that] by (auto simp: mk_wal_shard_def idle_def mk_wal_def Let_def open_segment_def split: if_splits)
  have "idle (?step (?step (?step ?s))) \<and> unflushed (shard_wal (?step (?step (?step ?s)))) = []"
    using example_settles [OF v(1)] by (simp add: v(2))
  then have "log_settled ?e"
    using fresh k log(2) by (auto simp: log_settled_def list_all_length nth_list_update)
  with steps blocks disk show ?thesis by auto
qed

lemma example_restart:
  obtains e0 e e1 where "engine_init example_env example_engine_config (\<lambda>_. []) [] (mk_engine (env_stack example_env)) = Returns (Inr (), e0)"
    "engine_steps example_env example_ops e0 = Returns e" "log_settled e" "disk_of (e_blocks e) = []"
    "engine_init example_env example_engine_config (log_files e) (disk_of (e_blocks e)) (mk_engine (env_stack example_env)) = Returns (Inr (), e1)"
proof -
  obtain e0 where e0: "engine_init example_env example_engine_config (\<lambda>_. []) [] (mk_engine (env_stack example_env)) = Returns (Inr (), e0)"
    using engine_starts [OF example_env_ok, of example_engine_config] by (auto simp: example_env_def example_engine_config_def)
  obtain e where e: "engine_steps example_env example_ops e0 = Returns e" "log_settled e" "disk_of (e_blocks e) = []"
    using example_before_restart [OF e0] by blast
  obtain sw0 where sw0: "mk_sharded_wal (env_opens example_env) (cfg_data_dir example_engine_config @ ''/wal'') (\<lambda>_. []) 16 = Inr sw0"
    using e0 by (auto simp: engine_init_def mk_engine_def split: sum.splits)
  have log: "logging example_env sw0 e [example_entry]"
    using logging_steps [OF new_logging [OF e0 example_env_ok sw0] e(1)] by (simp add: example_accepted)
  have opens: "\<forall>p. env_opens example_env p" by (simp add: example_env_def)
  have replayed: "\<forall>ts \<in> set (fst (sharded_replay w)). \<forall>s \<in> set (ts_samples ts). timestamp s \<noteq> 0"
    if "mk_sharded_wal (env_opens example_env) (cfg_data_dir example_engine_config @ ''/wal'') (log_files e) 16 = Inr w" for w
    using restart_replays [OF log sw0 opens _ _ e(2) that] loggable_example example_entry_ok(3)
    by (auto simp: logged_example)
  have dirs: "\<forall>p. env_can_create example_env p" "cfg_data_dir example_engine_config \<noteq> []"
    by (simp_all add: example_env_def example_engine_config_def)
  obtain e1 where
    "engine_init example_env example_engine_config (log_files e) [] (mk_engine (env_stack example_env)) = Returns (Inr (), e1)"
    using engine_restarts [OF example_env_ok opens dirs, of "log_files e" "env_stack example_env"] replayed by blast
  with e0 e that show thesis by simp
qed

section \<open>Properties\<close>

text \<open>
  C3: The log makes writes durable. Take a sequence of fewer than a million operations on a new engine after which the log
  threads are idle with their files flushed and no block was ever persisted (the block directory is empty: no flush that
  persists and no full block), where every file can be opened, and every accepted series can be logged (at most 1000 labels, none with an
  empty name, an entry below the size limits) and has no sample at time 0. A new process that starts on the
  log files left behind answers a first read of any series with the samples of all its accepted writes
  in the range, one for each timestamp: samples of a deleted series included, because
  deletions are not logged. The fields of samples are not compared.
\<close>

theorem restart_recovers_log:
  assumes "env_ok env" "\<forall>p. env_opens env p" "engine_init env cfg (\<lambda>_. []) [] (mk_engine stack) = Returns (Inr (), e0)"
    "engine_steps env ops e0 = Returns e" "length ops < 1000000"
    "\<forall>ts \<in> set (concat (map accepted_writes ops)). loggable ts \<and> (\<forall>s \<in> set (ts_samples ts). timestamp s \<noteq> 0)"
    "log_settled e" "disk_of (e_blocks e) = []"
    "engine_init env cfg' (log_files e) (disk_of (e_blocks e)) (mk_engine stack') = Returns (Inr (), e1)" "sint t0 \<le> sint t1"
  shows "\<exists>ts e2. engine_read env now l t0 t1 e1 = Some (Inr ts, e2) \<and> chronological (ts_samples ts)
    \<and> represents (ts_samples ts) (in_range t0 t1)
        (samples_for env (concat (map accepted_writes ops)) (calculate_series_id env l))"
proof -
  let ?tss = "concat (map accepted_writes ops)" and ?f = "wal_shard_index (env_hash env) 16"
  obtain sw0 where sw0: "mk_sharded_wal (env_opens env) (cfg_data_dir cfg @ ''/wal'') (\<lambda>_. []) 16 = Inr sw0"
    using assms(3) by (auto simp: engine_init_def mk_engine_def split: sum.splits)
  obtain w where w: "mk_sharded_wal (env_opens env) (cfg_data_dir cfg' @ ''/wal'') (log_files e) 16 = Inr w"
    using assms(9) by (auto simp: engine_init_def mk_engine_def split: sum.splits)
  have log: "logging env sw0 e ?tss"
    using logging_steps [OF new_logging [OF assms(3,1) sw0] assms(4)] by simp
  have short: "length ?tss < 1000000" using le_less_trans [OF accepted_length assms(5)] .
  have replay: "fst (sharded_replay w) = concat (map (\<lambda>k. map logged (filter (\<lambda>ts. ?f ts = k) ?tss)) [0..<16])"
    using assms(6) by (intro restart_replays [OF log sw0 assms(2) _ short assms(7) w]) blast
  have "\<forall>ts \<in> set (fst (sharded_replay w)). \<forall>s \<in> set (ts_samples ts). timestamp s \<noteq> 0"
    unfolding replay using assms(6) by (auto simp: logged_def mk_sample_def)
  note rec = recovered_engine_inv [OF assms(9) [unfolded assms(8)] assms(1) w this]
  obtain H where H: "cache_hierarchy e1 = Some H" "held (H, series_heap e1) = {}" using rec(3) by blast
  have "visible (H, series_heap e1) (calculate_series_id env l) = None"
    using H(2) by (auto simp: visible_def held_def map_add_None simp flip: not_Some_eq)
  from read_after_miss [OF rec(1) assms(1) H(1) this assms(10)] obtain ts e2 where
    r: "engine_read env now l t0 t1 e1 = Some (Inr ts, e2)" "chronological (ts_samples ts)"
      "represents (ts_samples ts) (in_range t0 t1) (samples_for env (fst (sharded_replay w)) (calculate_series_id env l))"
    by blast
  have "filter (\<lambda>ts. ?f ts < 16) ?tss = ?tss" by (simp add: filter_id_conv wal_shard_index_def)
  then have "point ` set (samples_for env (fst (sharded_replay w)) (calculate_series_id env l))
      = point ` set (samples_for env ?tss (calculate_series_id env l))"
    unfolding replay replayed_samples by simp
  from represents_points [OF this, of "in_range t0 t1" "ts_samples ts"] in_range_point r show ?thesis by blast
qed

lemma example_writes_ok:
  "\<forall>ts \<in> set (concat (map accepted_writes example_ops)). loggable ts \<and> (\<forall>s \<in> set (ts_samples ts). timestamp s \<noteq> 0)"
  "length example_ops < 1000000" "\<forall>p. env_opens example_env p"
  using loggable_example example_entry_ok(3) by (simp_all add: example_accepted) (simp_all add: example_ops_def example_env_def)

theorem restart_recovers_log_witness:
  "\<exists>e0 e e1 ts e2. engine_init example_env example_engine_config (\<lambda>_. []) [] (mk_engine (env_stack example_env)) = Returns (Inr (), e0)
     \<and> engine_steps example_env example_ops e0 = Returns e
     \<and> engine_init example_env example_engine_config (log_files e) (disk_of (e_blocks e)) (mk_engine (env_stack example_env)) = Returns (Inr (), e1)
     \<and> engine_read example_env 5 [(''job'', ''a'')] 0 100 e1 = Some (Inr ts, e2) \<and> timestamp ` set (ts_samples ts) = {10, 20}"
proof -
  obtain e0 e e1 where ex: "engine_init example_env example_engine_config (\<lambda>_. []) [] (mk_engine (env_stack example_env)) = Returns (Inr (), e0)"
    "engine_steps example_env example_ops e0 = Returns e" "log_settled e" "disk_of (e_blocks e) = []"
    "engine_init example_env example_engine_config (log_files e) (disk_of (e_blocks e)) (mk_engine (env_stack example_env)) = Returns (Inr (), e1)"
    by (rule example_restart)
  obtain ts e2 where read: "engine_read example_env 5 [(''job'', ''a'')] 0 100 e1 = Some (Inr ts, e2)"
      "represents (ts_samples ts) (in_range 0 100)
         (samples_for example_env (concat (map accepted_writes example_ops)) (calculate_series_id example_env [(''job'', ''a'')]))"
    using restart_recovers_log [OF example_env_ok example_writes_ok(3) ex(1,2) example_writes_ok(2,1) ex(3-5), of 0 100 5 "[(''job'', ''a'')]"]
    by auto
  have "{s \<in> set (ts_samples example_entry). in_range 0 100 s} = {mk_sample 10 1, mk_sample 20 2}"
    by (auto simp: example_entry_def in_range_def mk_sample_def)
  then have "timestamp ` set (ts_samples ts) = {10, 20}"
    using read(2) by (simp add: represents_def example_accepted samples_for_def example_entry_def mk_sample_def)
  with ex read(1) show ?thesis by (intro exI [of _ e0] exI [of _ e] exI [of _ e1] exI [of _ ts] exI [of _ e2] conjI)
qed

section \<open>A cache filled by a read\<close>

lemma get_miss:
  assumes "hierarchy_ok s" "visible s i = None"
  shows "\<exists>s'. hierarchy_get now i s = Some (Inr None, s') \<and> hierarchy_ok s' \<and> frame s s' \<and> in_l1 s' = in_l1 s
    \<and> in_l2 s' = in_l2 s \<and> snd s' = snd s"
proof -
  have none: "in_l1 s i = None" "in_l2 s i = None" using assms(2) by (auto simp: visible_def)
  obtain s1 where s1: "l1_get now i s = Some (Inr None, s1)" "hierarchy_ok s1" "frame s s1" "in_l1 s1 = in_l1 s" "in_l2 s1 = in_l2 s"
    using l1_get_ok [OF assms(1), of now i] none(1) by auto
  obtain s2 where s2: "l2_get now i s1 = Some (Inr None, s2)" "hierarchy_ok s2" "frame s1 s2" "in_l1 s2 = in_l1 s1" "in_l2 s2 = in_l2 s1"
    using l2_get_ok [OF s1(2), of now i] none(2) s1(5) by auto
  let ?s = "((fst s2)\<lparr>total_misses := total_misses (fst s2) + 1\<rparr>, snd s2)"
  have "hierarchy_ok ?s" "in_l1 ?s = in_l1 s2" "in_l2 ?s = in_l2 s2"
    using s2(2) by (simp_all add: hierarchy_ok_def in_l1_def in_l2_def)
  moreover have "frame s ?s" using s1(3) s2(3) by (auto simp: frame_def l2_capacity_def)
  moreover have "snd ?s = snd s" using heap_unchanged(1) [OF s1(1)] heap_unchanged(3) [OF s2(1)] by simp
  moreover have "hierarchy_get now i s = Some (Inr None, ?s)"
    using s1(1) s2(1) by (simp add: hierarchy_get_def returns_def)
  ultimately show ?thesis using s1(4,5) s2(4,5) by auto
qed

lemma get_hit:
  assumes "hierarchy_ok s" "in_l1 s i = Some q"
  shows "\<exists>s'. hierarchy_get now i s = Some (Inr (Some q), s') \<and> snd s' = snd s"
proof -
  obtain s1 where s1: "l1_get now i s = Some (Inr (Some q), s1)" using l1_get_ok [OF assms(1), of now i] assms(2) by auto
  then show ?thesis using heap_unchanged(1) [OF s1] by (simp add: hierarchy_get_def returns_def count_hit_def)
qed

lemma put_new:
  assumes "hierarchy_ok s" "p \<in> dom (snd s)" "in_l1 s i = None" "\<not> is_full (l1_cache (fst s))"
  shows "\<exists>s'. hierarchy_put now order i (Some p) s = Some (Inr True, s') \<and> hierarchy_ok s' \<and> in_l1 s' i = Some p \<and> snd s' = snd s"
proof -
  obtain s1 where s1: "l1_put now i p s = Some (Inr (), s1)" "hierarchy_ok s1" "in_l1 s1 = (in_l1 s)(i \<mapsto> p)"
    using l1_put_ok [OF assms(1,2,4), of now i] assms(3) by (auto simp: domIff)
  have "cache_size (l1_cache (fst s)) < max_size (l1_cache (fst s))" using assms(4) by (simp add: is_full_def cache_size_def)
  with s1 l1_put_heap [OF assms(1) s1(1)] assms(3) show ?thesis by (simp add: hierarchy_put_def returns_def)
qed

lemma cache_entries: "cache_ok c \<Longrightarrow> length (cache_map c) = card (dom (map_of (recency c)))"
proof -
  assume ok: "cache_ok c"
  have "dom (map_of (recency c)) = set (map ce_id (lru_list c))"
    by (simp add: dom_map_of_conv_image_fst recency_def image_image)
  moreover have "distinct (map ce_id (lru_list c))" using ok by (simp add: cache_ok_def)
  ultimately show ?thesis using cache_okD(3) [OF ok] by (metis distinct_card length_map)
qed

lemma full_cong:
  assumes "hierarchy_ok s" "hierarchy_ok s'" "in_l1 s' = in_l1 s" "frame s s'"
  shows "is_full (l1_cache (fst s')) = is_full (l1_cache (fst s))"
  using assms cache_entries [of "l1_cache (fst s)"] cache_entries [of "l1_cache (fst s')"]
  by (simp add: is_full_def hierarchy_ok_def frame_def in_l1_def)

lemma read_active_result:
  assumes "active_inv env hist e" "read_active env now l t0 t1 e = Some (Inr ts, e1)" "ts_samples ts \<noteq> []"
    "\<And>ts. chronological (ts_samples ts) \<Longrightarrow> \<exists>b e'. put_copy env now (calculate_series_id env l) ts e = Some (Inr b, e')"
  shows "\<exists>b. put_copy env now (calculate_series_id env l) ts e = Some (Inr b, e1) \<and> chronological (ts_samples ts)"
proof (cases "map_of (active_series e) (calculate_series_id env l)")
  case None
  then have "map_of (series_blocks e) (calculate_series_id env l) = None" using active_invD(1) [OF assms(1)] by blast
  then show ?thesis
    using assms(2,3) None
    by (auto simp: read_active_def read_persisted_def read_from_blocks_nolock_def ts_empty_def mk_time_series_def)
next
  case (Some ser)
  then obtain ss where ss: "series_read (env_sort env) t0 t1 ser = Some ss" using assms(2) by (auto simp: read_active_def split: option.splits)
  then obtain ts1 where ts1: "add_samples ss (mk_time_series l) = Inr ts1"
    using assms(2) Some by (auto simp: read_active_def split: sum.splits)
  have "chronological (ts_samples ts1)"
    using add_samples_chronological [OF ts1] by (simp add: mk_time_series_def chronological_def)
  with assms(4) obtain b e' where "put_copy env now (calculate_series_id env l) ts1 e = Some (Inr b, e')" by blast
  with \<open>chronological (ts_samples ts1)\<close> show ?thesis
    using assms(2,3) Some ss ts1 by (auto simp: read_active_def ts_empty_def split: if_splits)
qed

text \<open>
  C40: The cache is taken for the whole series although it may hold a part of it. When the caches hold
  nothing of a series, as after a restart, a read that finds samples in its range fills the L1 cache with
  those; every later read of another range is then answered from them alone,
  so samples outside the first range stay invisible.
\<close>

theorem narrow_read_hides_rest:
  assumes "engine_inv env hist e" "env_ok env" "cache_hierarchy e = Some H"
    "visible (H, series_heap e) (calculate_series_id env l) = None" "\<not> is_full (l1_cache H)"
    "engine_read env now l t0 t1 e = Some (Inr ts, e1)" "ts_samples ts \<noteq> []" "sint a \<le> sint b"
  shows "\<exists>ts' e2. engine_read env now' l a b e1 = Some (Inr ts', e2)
    \<and> ts_samples ts' = filter (in_range a b) (ts_samples ts)"
proof -
  let ?i = "calculate_series_id env l"
  have inv: "initialized e" "cache_inv env hist e" "active_inv env hist e" using assms(1) by (auto simp: engine_inv_def)
  have ok: "hierarchy_ok (H, series_heap e)"
    using inv(2) assms(3) by (auto simp: cache_inv_def series_cache.contents_def)
  obtain s' where miss: "hierarchy_get now ?i (H, series_heap e) = Some (Inr None, s')" "hierarchy_ok s'" "frame (H, series_heap e) s'"
      "in_l1 s' = in_l1 (H, series_heap e)" "snd s' = series_heap e"
    using get_miss [OF ok assms(4), of now] by auto
  obtain H' where s': "s' = (H', series_heap e)" using miss(5) by (cases s') simp
  let ?e = "e\<lparr>cache_hierarchy := Some H', series_heap := series_heap e\<rparr>" and ?n = "next_series e"
  have room: "\<not> is_full (l1_cache H')" "in_l1 (H', series_heap e) ?i = None"
    using full_cong [OF ok miss(2,4,3)] assms(4,5) miss(4) by (auto simp: s' visible_def)
  have put: "\<exists>H2 h2. put_copy env now ?i x ?e = Some (Inr True, ?e\<lparr>cache_hierarchy := Some H2, series_heap := h2, next_series := Suc ?n\<rparr>)
      \<and> hierarchy_ok (H2, h2) \<and> in_l1 (H2, h2) ?i = Some ?n \<and> h2 ?n = Some x"
    if "chronological (ts_samples x)" for x
  proof -
    let ?s = "(H', (series_heap e)(?n \<mapsto> x))"
    have "hierarchy_ok ?s"
      using miss(2) that by (auto simp: s' hierarchy_ok_def in_l1_def in_l2_def split: if_splits)
    moreover have "in_l1 ?s ?i = None" using room(2) by (simp add: in_l1_def)
    ultimately obtain s2 where "hierarchy_put now (env_order env) ?i (Some ?n) ?s = Some (Inr True, s2)" "hierarchy_ok s2"
        "in_l1 s2 ?i = Some ?n" "snd s2 = snd ?s"
      using put_new [of ?s ?n ?i now "env_order env"] room(1) by auto
    then show ?thesis
      by (intro exI [of _ "fst s2"] exI [of _ "snd s2"]) (cases s2, simp add: put_copy_def on_cache_def)
  qed
  have "read_active env now l t0 t1 ?e = Some (Inr ts, e1)"
    using assms(3,6) miss(1) s' inv(1)
    by (auto simp: engine_read_def read_nolock_def lookup_series_def on_cache_def split: if_splits)
  from read_active_result [OF _ this assms(7)] put inv(3) obtain b' where
    "put_copy env now ?i ts ?e = Some (Inr b', e1)" "chronological (ts_samples ts)" by (fastforce simp del: fun_upd_apply)
  with put [of ts] obtain H2 h2 where e1: "e1 = ?e\<lparr>cache_hierarchy := Some H2, series_heap := h2, next_series := Suc ?n\<rparr>"
      "hierarchy_ok (H2, h2)" "in_l1 (H2, h2) ?i = Some ?n" "h2 ?n = Some ts"
    by auto
  obtain s3 where "hierarchy_get now' ?i (H2, h2) = Some (Inr (Some ?n), s3)" "snd s3 = h2"
    using get_hit [OF e1(2,3), of now'] by auto
  then show ?thesis
    using e1(1,4) inv(1) assms(8) filter_series_ok [OF \<open>chronological (ts_samples ts)\<close>, of a b]
    by (cases s3) (auto simp: engine_read_def read_nolock_def lookup_series_def on_cache_def)
qed

lemma example_recovered:
  obtains e1 H where "engine_inv example_env (samples_for example_env [example_entry]) e1" "cache_hierarchy e1 = Some H"
    "visible (H, series_heap e1) i = None" "\<not> is_full (l1_cache H)"
proof -
  obtain e0 e e1 where ex: "engine_init example_env example_engine_config (\<lambda>_. []) [] (mk_engine (env_stack example_env)) = Returns (Inr (), e0)"
    "engine_steps example_env example_ops e0 = Returns e" "log_settled e" "disk_of (e_blocks e) = []"
    "engine_init example_env example_engine_config (log_files e) (disk_of (e_blocks e)) (mk_engine (env_stack example_env)) = Returns (Inr (), e1)"
    by (rule example_restart)
  let ?k = "wal_shard_index (env_hash example_env) 16 example_entry"
  obtain sw0 where sw0: "mk_sharded_wal (env_opens example_env) (cfg_data_dir example_engine_config @ ''/wal'') (\<lambda>_. []) 16 = Inr sw0"
    using ex(1) by (auto simp: engine_init_def mk_engine_def split: sum.splits)
  obtain w where w: "mk_sharded_wal (env_opens example_env) (cfg_data_dir example_engine_config @ ''/wal'') (log_files e) 16 = Inr w"
    using ex(5) by (auto simp: engine_init_def mk_engine_def split: sum.splits)
  have log: "logging example_env sw0 e [example_entry]"
    using logging_steps [OF new_logging [OF ex(1) example_env_ok sw0] ex(2)] by (simp add: example_accepted)
  have "fst (sharded_replay w) = concat (map (\<lambda>k. if k = ?k then [example_entry] else []) [0..<16])"
    using restart_replays [OF log sw0 example_writes_ok(3) _ _ ex(3) w] loggable_example
    by (simp add: logged_example if_distrib eq_commute [of ?k] cong: if_cong)
  also have "\<dots> = [example_entry]" by (rule concat_one_slot) (simp add: wal_shard_index_def)
  finally have replay: "fst (sharded_replay w) = [example_entry]" .
  note rec = recovered_engine_inv [OF ex(5) [unfolded ex(4)] example_env_ok w, unfolded replay]
  have inv: "engine_inv example_env (samples_for example_env [example_entry]) e1" using rec(1) example_entry_ok(3) by simp
  obtain H where H: "cache_hierarchy e1 = Some H" "held (H, series_heap e1) = {}" "max_size (l1_cache H) = 50000"
    using rec(3) example_entry_ok(3) by auto
  have none: "in_l1 (H, series_heap e1) = Map.empty" "in_l2 (H, series_heap e1) = Map.empty"
    using H(2) by (auto simp: held_def fun_eq_iff simp flip: not_Some_eq)
  have "cache_ok (l1_cache H)"
    using inv H(1) by (auto simp: engine_inv_def cache_inv_def series_cache.contents_def hierarchy_ok_def)
  with none(1) H(3) have "\<not> is_full (l1_cache H)" using cache_entries by (simp add: is_full_def in_l1_def)
  with inv H(1) none that show thesis by (simp add: visible_def)
qed

theorem narrow_read_hides_rest_witness:
  "\<exists>e ts e1 ts' e2. engine_inv example_env (samples_for example_env [example_entry]) e
     \<and> engine_read example_env 5 [(''job'', ''a'')] 0 15 e = Some (Inr ts, e1) \<and> timestamp ` set (ts_samples ts) = {10}
     \<and> engine_read example_env 6 [(''job'', ''a'')] 0 100 e1 = Some (Inr ts', e2) \<and> timestamp ` set (ts_samples ts') = {10}"
proof -
  let ?l = "[(''job'', ''a'')]"
  obtain e H where e: "engine_inv example_env (samples_for example_env [example_entry]) e" "cache_hierarchy e = Some H"
    "visible (H, series_heap e) (calculate_series_id example_env ?l) = None" "\<not> is_full (l1_cache H)"
    by (rule example_recovered)
  obtain ts e1 where first: "engine_read example_env 5 ?l 0 15 e = Some (Inr ts, e1)"
      "represents (ts_samples ts) (in_range 0 15) (samples_for example_env [example_entry] (calculate_series_id example_env ?l))"
    using read_after_miss [OF e(1) example_env_ok e(2,3), of 0 15 5] by auto
  have "{s \<in> set (ts_samples example_entry). in_range 0 15 s} = {mk_sample 10 1}"
    by (auto simp: example_entry_def in_range_def mk_sample_def)
  then have ts: "timestamp ` set (ts_samples ts) = {10}"
    using first(2) by (simp add: represents_def samples_for_def example_entry_def mk_sample_def)
  then have "ts_samples ts \<noteq> []" by auto
  from narrow_read_hides_rest [OF e(1) example_env_ok e(2-4) first(1) this, of 0 100 6] obtain ts' e2 where
    second: "engine_read example_env 6 ?l 0 100 e1 = Some (Inr ts', e2)" "ts_samples ts' = filter (in_range 0 100) (ts_samples ts)"
    by auto
  have "\<forall>s \<in> set (ts_samples ts). timestamp s = 10" using ts by auto
  then have "filter (in_range 0 100) (ts_samples ts) = ts_samples ts" by (simp add: filter_id_conv in_range_def)
  with e(1) first(1) ts second show ?thesis by (intro exI [of _ e] exI [of _ ts] exI [of _ e1] exI [of _ ts'] exI [of _ e2] conjI) simp_all
qed

end
