(* ===== verification/Double_Order.thy ===== *)
theory Double_Order
  imports Promql_Evaluator
begin

unbundle bit_operations_syntax

text \<open>
  The order of doubles, computed from their bits: \<open>double_key\<close> embeds the doubles that are not NaN into the
  integers, and the comparisons of C++ are the comparisons of the keys. The two zeros share a key, every other
  key belongs to one double.
\<close>

lemma magnitude_bits: "uint (w AND 0x7FFFFFFFFFFFFFFF :: double) = uint w mod 2 ^ 63"
proof -
  have "(0x7FFFFFFFFFFFFFFF :: double) = mask 63" by (simp add: mask_eq_exp_minus_1)
  then have "w AND 0x7FFFFFFFFFFFFFFF = take_bit 63 w" by (simp only: take_bit_eq_mask)
  then have "uint (w AND 0x7FFFFFFFFFFFFFFF) = take_bit 63 (uint w)" by (simp only: unsigned_take_bit_eq)
  then show ?thesis by (simp only: take_bit_eq_mod)
qed

lemma not_nan_magnitude:
  assumes "\<not> double_is_nan w"
  shows "uint w mod 2 ^ 63 \<le> 0x7FF0000000000000"
proof (cases "w AND 0x7FF0000000000000 = 0x7FF0000000000000")
  case True
  with assms have "w AND 0x000FFFFFFFFFFFFF = 0" by (simp add: double_is_nan_def)
  moreover have "(0x000FFFFFFFFFFFFF :: double) = mask 52" by (simp add: mask_eq_exp_minus_1)
  ultimately have "take_bit 52 w = 0" by (simp add: take_bit_eq_mask)
  then have "uint w mod 2 ^ 52 = 0" by (metis take_bit_eq_mod unsigned_0 unsigned_take_bit_eq)
  then obtain q where q: "uint w = 2 ^ 52 * q" by auto
  have "(2 ^ 52 * q) mod (2 ^ 52 * 2 ^ 11) = 2 ^ 52 * (q mod 2 ^ 11)" by (rule mult_mod_right [symmetric])
  then have "uint w mod 2 ^ 63 = 2 ^ 52 * (q mod 2 ^ 11)" by (simp add: q)
  moreover have "q mod 2 ^ 11 < 2 ^ 11" by simp
  ultimately show ?thesis by simp
next
  case False
  have "push_bit 52 (take_bit 11 (drop_bit 52 w)) = w AND push_bit 52 (mask 11)"
    by (rule bit_eqI) (auto simp: bit_simps)
  then have "take_bit 11 (drop_bit 52 w) \<noteq> mask 11" using False by (auto simp: mask_eq_exp_minus_1)
  then have "uint (take_bit 11 (drop_bit 52 w)) \<noteq> uint (mask 11 :: double)" by (simp only: word_uint_eq_iff not_False_eq_True)
  moreover have "uint (take_bit 11 (drop_bit 52 w)) = uint w div 2 ^ 52 mod 2 ^ 11"
    unfolding unsigned_take_bit_eq unsigned_drop_bit_eq unfolding take_bit_eq_mod drop_bit_eq_div
    using uint_lt2p [of w] by simp
  ultimately have "uint w div 2 ^ 52 mod 2 ^ 11 \<noteq> 2047" by (simp add: mask_eq_exp_minus_1)
  moreover have "uint w div 2 ^ 52 mod 2 ^ 11 < 2 ^ 11" "uint w mod 2 ^ 52 < 2 ^ 52" by simp_all
  moreover have "uint w mod 2 ^ 63 = 2 ^ 52 * (uint w div 2 ^ 52 mod 2 ^ 11) + uint w mod 2 ^ 52"
    using zmod_zmult2_eq [of "2 ^ 11" "uint w" "2 ^ 52"] by simp
  ultimately show ?thesis by simp
qed

lemma sign_bit: "bit (v :: double) 63 \<longleftrightarrow> 2 ^ 63 \<le> uint v"
proof -
  have "bit v 63 \<longleftrightarrow> odd (uint v div 2 ^ 63)" using bit_uint_iff [of v 63] by (simp add: bit_iff_odd [of "uint v"])
  moreover have "uint v div 2 ^ 63 \<in> {0, 1}" using uint_lt2p [of v] by auto
  ultimately show ?thesis using uint_lt2p [of v] by auto
qed

lemma high_magnitude: "2 ^ 63 \<le> uint (v :: double) \<Longrightarrow> uint v mod 2 ^ 63 = uint v - 2 ^ 63"
  using uint_lt2p [of v] minus_mod_self2 [of "uint v" "2 ^ 63"] mod_pos_pos_trivial [of "uint v - 2 ^ 63" "2 ^ 63"] by simp

lemma double_key_cases: "double_key v = (if 2 ^ 63 \<le> uint v then - (uint v - 2 ^ 63) else uint v)"
  using high_magnitude [of v] by (simp add: double_key_def sign_bit magnitude_bits)

lemma double_is_zero_key: "double_is_zero v \<longleftrightarrow> double_key v = 0"
proof -
  have "double_is_zero v \<longleftrightarrow> uint v mod 2 ^ 63 = 0"
    using magnitude_bits [of v] by (simp add: double_is_zero_def word_uint_eq_iff)
  then show ?thesis using high_magnitude [of v] mod_pos_pos_trivial [of "uint v" "2 ^ 63"] by (auto simp: double_key_cases)
qed

lemma double_key_inj:
  assumes "double_key a = double_key b" "double_key a \<noteq> 0"
  shows "a = b"
proof -
  have pos: "0 \<le> uint a" "0 \<le> uint b" by simp_all
  show ?thesis unfolding word_uint_eq_iff
    using assms pos by (cases "2 ^ 63 \<le> uint a"; cases "2 ^ 63 \<le> uint b"; simp only: double_key_cases if_True if_False; linarith)
qed

lemma double_eq_key: "double_eq a b \<longleftrightarrow> \<not> double_is_nan a \<and> \<not> double_is_nan b \<and> double_key a = double_key b"
  using double_key_inj [of a b] by (cases "double_key b = 0") (auto simp: double_eq_def double_is_zero_key)

lemma double_le_key: "double_le a b \<longleftrightarrow> \<not> double_is_nan a \<and> \<not> double_is_nan b \<and> double_key a \<le> double_key b"
  by (auto simp: double_le_def double_less_def double_eq_key)

lemma zero_not_nan:
  assumes "double_is_zero v"
  shows "\<not> double_is_nan v"
proof -
  have "v AND 0x7FF0000000000000 = (v AND 0x7FFFFFFFFFFFFFFF) AND 0x7FF0000000000000" by (simp add: and.assoc)
  then have "v AND 0x7FF0000000000000 = 0" using assms by (simp add: double_is_zero_def)
  then show ?thesis by (simp add: double_is_nan_def)
qed

lemma unit_keys: "\<not> double_is_nan 0" "double_key 0 = 0" "\<not> double_is_nan double_one" "0 < double_key double_one"
  by code_simp+

lemma infinity_keys:
  "\<not> double_is_nan double_inf" "\<not> double_is_nan double_neg_inf" "double_key double_inf = 0x7FF0000000000000"
  "double_key double_neg_inf = - 0x7FF0000000000000"
  by code_simp+

lemma double_key_bounds:
  assumes "\<not> double_is_nan v"
  shows "double_key v \<le> double_key double_inf" "double_key double_neg_inf \<le> double_key v"
proof -
  have pos: "0 \<le> uint v" by simp
  have "double_key v \<le> 0x7FF0000000000000 \<and> - 0x7FF0000000000000 \<le> double_key v"
  proof (cases "2 ^ 63 \<le> uint v")
    case True
    then show ?thesis using not_nan_magnitude [OF assms] high_magnitude [OF True] by (simp add: double_key_cases)
  next
    case False
    then have "uint v \<le> 0x7FF0000000000000" using not_nan_magnitude [OF assms] mod_pos_pos_trivial [of "uint v" "2 ^ 63"] by simp
    moreover have "double_key v = uint v" using False by (simp add: double_key_cases)
    ultimately show ?thesis using pos by linarith
  qed
  then show "double_key v \<le> double_key double_inf" "double_key double_neg_inf \<le> double_key v" by (simp_all add: infinity_keys)
qed

lemma std_min_inf: "\<not> double_is_nan v \<Longrightarrow> std_min double_inf v = v"
  and std_max_neg_inf: "\<not> double_is_nan v \<Longrightarrow> std_max double_neg_inf v = v"
  using double_key_bounds [of v] double_key_inj [of v double_inf] double_key_inj [of v double_neg_inf]
  by (auto simp: std_min_def std_max_def double_less_def infinity_keys)

end
