(* ===== verification/Storage_Aggregate.thy ===== *)
theory Storage_Aggregate
  imports Storage_Queries Double_Order
begin

text \<open>
  Aggregation inside the storage engine (\<open>StorageImpl::query_aggregate\<close> of
  \<open>src/tsdb/storage/storage_impl.cpp\<close>), to which the evaluator of PromQL hands an aggregation over a plain
  selector. The series that the index finds are grouped by a label string, and the samples of a
  group go one after the other into accumulators keyed by timestamp. The doubles are the bit patterns of the
  evaluator with its record of arithmetic, so the result can be compared with the evaluator's own aggregation.
\<close>

section \<open>Grouping\<close>

fun labels_add_all :: "(string \<times> string) list \<Rightarrow> labels \<Rightarrow> exn + labels" where
  "labels_add_all [] l = Inr l"
| "labels_add_all ((k, v) # kvs) l =
     (case labels_add k v l of Inl ex \<Rightarrow> Inl ex | Inr l' \<Rightarrow> labels_add_all kvs l')"

definition aggregation_labels :: "aggregation_request \<Rightarrow> labels \<Rightarrow> exn + labels" where
  "aggregation_labels req l =
     (case labels_add_all
             (if agg_without req then filter (\<lambda>(k, v). k \<notin> set (grouping_keys req)) l
              else List.map_filter (\<lambda>k. map_option (Pair k) (labels_get l k)) (grouping_keys req)) [] of
        Inl ex \<Rightarrow> Inl ex
      | Inr l' \<Rightarrow> Inr (labels_remove ''__name__'' l'))"

record series_groups =
  groups :: "(string \<times> uint64 list) list"
  result_labels :: "(string \<times> labels) list"

definition group_with :: "uint64 \<Rightarrow> labels \<Rightarrow> series_groups \<Rightarrow> series_groups" where
  "group_with i l gs =
     (let key = labels_to_string l
      in \<lparr>groups = smap_insert key (smap_at [] (groups gs) key @ [i]) (groups gs),
          result_labels = (if map_of (result_labels gs) key = None then smap_insert key l (result_labels gs) else result_labels gs)\<rparr>)"

fun group_series :: "aggregation_request \<Rightarrow> (uint64 \<Rightarrow> labels option) \<Rightarrow> uint64 list \<Rightarrow> series_groups \<Rightarrow> exn + series_groups" where
  "group_series req labels_of [] gs = Inr gs"
| "group_series req labels_of (i # is) gs =
     (case labels_of i of
        None \<Rightarrow> group_series req labels_of is gs
      | Some l \<Rightarrow>
          (case aggregation_labels req l of
             Inl ex \<Rightarrow> Inl ex
           | Inr l' \<Rightarrow> group_series req labels_of is (group_with i l' gs)))"

section \<open>Accumulators\<close>

text \<open>The maps of one group, keyed by the signed timestamp; the counters never come near their 64 bits.\<close>

record accumulators =
  aggregated_values :: "(int \<times> double) list"
  counts :: "(int \<times> int) list"
  means :: "(int \<times> double) list"
  m2s :: "(int \<times> double) list"
  quantile_samples :: "(int \<times> double list) list"

definition no_samples :: accumulators where
  "no_samples = \<lparr>aggregated_values = [], counts = [], means = [], m2s = [], quantile_samples = []\<rparr>"

definition accumulate :: "fp \<Rightarrow> aggregation_op \<Rightarrow> sample \<Rightarrow> accumulators \<Rightarrow> accumulators" where
  "accumulate f op s acc =
     (let ts = sint (timestamp s); val = sval s;
          counted = smap_insert ts (smap_at 0 (counts acc) ts + 1) (counts acc)
      in case op of
           Agg_SUM \<Rightarrow>
             acc\<lparr>aggregated_values := smap_insert ts (fp_add f (smap_at 0 (aggregated_values acc) ts) val) (aggregated_values acc),
                 counts := counted\<rparr>
         | Agg_AVG \<Rightarrow>
             acc\<lparr>aggregated_values := smap_insert ts (fp_add f (smap_at 0 (aggregated_values acc) ts) val) (aggregated_values acc),
                 counts := counted\<rparr>
         | Agg_MIN \<Rightarrow>
             acc\<lparr>aggregated_values := smap_insert ts
                   (case map_of (aggregated_values acc) ts of None \<Rightarrow> val | Some a \<Rightarrow> std_min a val) (aggregated_values acc)\<rparr>
         | Agg_MAX \<Rightarrow>
             acc\<lparr>aggregated_values := smap_insert ts
                   (case map_of (aggregated_values acc) ts of None \<Rightarrow> val | Some a \<Rightarrow> std_max a val) (aggregated_values acc)\<rparr>
         | Agg_COUNT \<Rightarrow>
             acc\<lparr>aggregated_values := smap_insert ts
                   (fp_add f (smap_at 0 (aggregated_values acc) ts) double_one) (aggregated_values acc)\<rparr>
         | Agg_QUANTILE \<Rightarrow>
             acc\<lparr>quantile_samples := smap_insert ts (smap_at [] (quantile_samples acc) ts @ [val]) (quantile_samples acc)\<rparr>
         | _ \<Rightarrow>
             if op \<in> {Agg_STDDEV, Agg_STDVAR} then
               (let mean = smap_at 0 (means acc) ts; delta = fp_sub f val mean;
                    mean' = fp_add f mean (fp_div f delta (fp_of_int f (smap_at 0 counted ts)));
                    delta2 = fp_sub f val mean'
                in acc\<lparr>counts := counted, means := smap_insert ts mean' (means acc),
                       m2s := smap_insert ts (fp_add f (smap_at 0 (m2s acc) ts) (fp_mul f delta delta2)) (m2s acc)\<rparr>)
             else acc)"

fun read_group ::
  "('p, 'x) engine_env_scheme \<Rightarrow> fp \<Rightarrow> int \<Rightarrow> int64 \<Rightarrow> int64 \<Rightarrow> aggregation_op \<Rightarrow> uint64 list \<Rightarrow> accumulators \<Rightarrow>
     'p engine \<Rightarrow> (accumulators \<times> 'p engine) option" where
  "read_group env f now t0 t1 op [] acc e = Some (acc, e)"
| "read_group env f now t0 t1 op (i # is) acc e =
     (case read_samples_nolock env now i t0 t1 e of
        None \<Rightarrow> None
      | Some (_, ss, e1) \<Rightarrow> read_group env f now t0 t1 op is (fold (accumulate f op) ss acc) e1)"

section \<open>Results\<close>

text \<open>No value for a sort without an order or a rank outside \<open>size_t\<close>, which C++ leaves undefined.\<close>

definition quantile_at :: "fp \<Rightarrow> (double list \<Rightarrow> double list) \<Rightarrow> double \<Rightarrow> double list \<Rightarrow> double option" where
  "quantile_at f sort_doubles q vs =
     (if \<not> orderable vs then None
      else
        let samples = sort_doubles vs; n = int (length samples); rank = fp_mul f q (fp_of_int f (n - 1))
        in case (cast_double 0 18446744073709551615 (fp_math f ''floor'' rank),
                 cast_double 0 18446744073709551615 (fp_math f ''ceil'' rank)) of
             (Inr lower, Inr upper) \<Rightarrow>
               let lower_idx = (if n \<le> lower then n - 1 else lower); upper_idx = (if n \<le> upper then n - 1 else upper);
                   weight = fp_sub f rank (fp_of_int f lower_idx)
               in Some (fp_add f (samples ! nat lower_idx)
                    (fp_mul f weight (fp_sub f (samples ! nat upper_idx) (samples ! nat lower_idx))))
           | _ \<Rightarrow> None)"

fun quantile_values ::
  "fp \<Rightarrow> (double list \<Rightarrow> double list) \<Rightarrow> double \<Rightarrow> (int \<times> double list) list \<Rightarrow> (int \<times> double) list option" where
  "quantile_values f sort_doubles q [] = Some []"
| "quantile_values f sort_doubles q ((ts, vs) # m) =
     (if vs = [] then quantile_values f sort_doubles q m
      else
        (case quantile_at f sort_doubles q vs of
           None \<Rightarrow> None
         | Some v \<Rightarrow> map_option (Cons (ts, v)) (quantile_values f sort_doubles q m)))"

definition final_values ::
  "fp \<Rightarrow> (double list \<Rightarrow> double list) \<Rightarrow> aggregation_request \<Rightarrow> accumulators \<Rightarrow> (int \<times> double) list option" where
  "final_values f sort_doubles req acc =
     (if agg_op req = Agg_STDDEV \<or> agg_op req = Agg_STDVAR then
        Some (map (\<lambda>(ts, count).
          let variance = (if 0 < count then fp_div f (smap_at 0 (m2s acc) ts) (fp_of_int f count) else 0)
          in (ts, if agg_op req = Agg_STDDEV then fp_sqrt f variance else variance)) (counts acc))
      else if agg_op req = Agg_QUANTILE then quantile_values f sort_doubles (agg_param req) (quantile_samples acc)
      else
        Some (map (\<lambda>(ts, val).
          (ts, if agg_op req = Agg_AVG then
                 (if 0 < smap_at 0 (counts acc) ts then fp_div f val (fp_of_int f (smap_at 0 (counts acc) ts)) else 0)
               else val)) (aggregated_values acc)))"

fun aggregate_groups ::
  "('p, 'x) engine_env_scheme \<Rightarrow> fp \<Rightarrow> (double list \<Rightarrow> double list) \<Rightarrow> int \<Rightarrow> int64 \<Rightarrow> int64 \<Rightarrow> aggregation_request \<Rightarrow>
     (string \<times> labels) list \<Rightarrow> (string \<times> uint64 list) list \<Rightarrow> time_series list \<Rightarrow> 'p engine \<Rightarrow>
     (time_series list result \<times> 'p engine) run" where
  "aggregate_groups env f sort_doubles now t0 t1 req labels_of [] results e = Returns (Inr results, e)"
| "aggregate_groups env f sort_doubles now t0 t1 req labels_of ((key, ids) # gs) results e =
     (case read_group env f now t0 t1 (agg_op req) ids no_samples e of
        None \<Rightarrow> Undefined
      | Some (acc, e1) \<Rightarrow>
          (case final_values f sort_doubles req acc of
             None \<Rightarrow> Undefined
           | Some tvs \<Rightarrow>
               (case add_samples (map (\<lambda>(ts, v). mk_sample (word_of_int ts) v) tvs) (mk_time_series (smap_at [] labels_of key)) of
                  Inl ex \<Rightarrow> Throws (what ex)
                | Inr result_series \<Rightarrow>
                    aggregate_groups env f sort_doubles now t0 t1 req labels_of gs (results @ [result_series]) e1)))"

definition query_aggregate ::
  "('p, 'x) engine_env_scheme \<Rightarrow> fp \<Rightarrow> (double list \<Rightarrow> double list) \<Rightarrow> int \<Rightarrow> label_matcher list \<Rightarrow> int64 \<Rightarrow> int64 \<Rightarrow>
     aggregation_request \<Rightarrow> 'p engine \<Rightarrow> (time_series list result \<times> 'p engine) run" where
  "query_aggregate env f sort_doubles now ms t0 t1 req e =
     (if \<not> initialized e then Returns (Inl ''Storage not initialized'', e)
      else if sint t1 \<le> sint t0 then Returns (Inl ''Invalid time range'', e)
      else
        let (series_ids, ix) = sharded_find_series (env_posting env) (env_regex env) ms (e_index e);
            labels_of = (\<lambda>i. case sharded_get_labels i ix of Inl _ \<Rightarrow> None | Inr l \<Rightarrow> Some l)
        in case group_series req labels_of series_ids \<lparr>groups = [], result_labels = []\<rparr> of
             Inl ex \<Rightarrow> Throws (what ex)
           | Inr gs \<Rightarrow>
               aggregate_groups env f sort_doubles now t0 t1 req (result_labels gs) (groups gs) [] (e\<lparr>e_index := ix\<rparr>))"

section \<open>Grouping partitions the series\<close>

text \<open>The label string under which a series is filed, no value where the labels have none.\<close>

definition group_key :: "aggregation_request \<Rightarrow> labels \<Rightarrow> string option" where
  "group_key req l = (case aggregation_labels req l of Inl _ \<Rightarrow> None | Inr l' \<Rightarrow> Some (labels_to_string l'))"

definition groups_ok :: "aggregation_request \<Rightarrow> (uint64 \<Rightarrow> labels option) \<Rightarrow> uint64 list \<Rightarrow> series_groups \<Rightarrow> bool" where
  "groups_ok req labels_of ids gs \<longleftrightarrow> smap_ok (groups gs)
     \<and> (\<forall>key. smap_at [] (groups gs) key = filter (\<lambda>i. Option.bind (labels_of i) (group_key req) = Some key) ids)
     \<and> fst ` set (groups gs) = fst ` set (result_labels gs)
     \<and> (\<forall>key members. map_of (groups gs) key = Some members \<longrightarrow> members \<noteq> [])
     \<and> (\<forall>key l. map_of (result_labels gs) key = Some l \<longrightarrow> labels_to_string l = key)"

lemma group_with_ok:
  assumes "groups_ok req labels_of ids gs" "labels_of i = Some l" "aggregation_labels req l = Inr l'"
  shows "groups_ok req labels_of (ids @ [i]) (group_with i l' gs)"
proof -
  have "labels_to_string l' \<in> fst ` set (result_labels gs)" if "map_of (result_labels gs) (labels_to_string l') = Some y" for y
    using map_of_SomeD [OF that] by force
  with assms show ?thesis
    by (auto simp: groups_ok_def group_with_def Let_def smap_simps smap_at_insert group_key_def split: if_splits)
qed

lemma group_series_ok:
  assumes "groups_ok req labels_of ids gs" "\<forall>i \<in> set is. \<exists>l l'. labels_of i = Some l \<and> aggregation_labels req l = Inr l'"
  shows "\<exists>gs'. group_series req labels_of is gs = Inr gs' \<and> groups_ok req labels_of (ids @ is) gs'"
  using assms
proof (induction "is" arbitrary: ids gs)
  case (Cons i "is")
  then obtain l l' where l: "labels_of i = Some l" "aggregation_labels req l = Inr l'" by auto
  from Cons.IH [OF group_with_ok [OF Cons.prems(1) l]] Cons.prems(2) l show ?case by simp
qed simp

lemma labels_add_all_total: "\<forall>(k, v) \<in> set kvs. k \<noteq> [] \<Longrightarrow> \<exists>l'. labels_add_all kvs l = Inr l'"
  by (induction kvs l rule: labels_add_all.induct) (auto simp: labels_add_def)

lemma aggregation_labels_total:
  assumes "agg_without req \<or> [] \<in> set (grouping_keys req) \<Longrightarrow> [] \<notin> fst ` set l"
  shows "\<exists>l'. aggregation_labels req l = Inr l'"
proof -
  have "\<forall>(k, v) \<in> set (if agg_without req then filter (\<lambda>(k, v). k \<notin> set (grouping_keys req)) l
      else List.map_filter (\<lambda>k. map_option (Pair k) (labels_get l k)) (grouping_keys req)). k \<noteq> []"
    using assms by (auto simp: map_filter_def labels_get_def split: if_splits)
      (force dest: map_of_SomeD)+
  from labels_add_all_total [OF this, of "[]"] show ?thesis by (auto simp: aggregation_labels_def)
qed

section \<open>What the accumulators hold\<close>

definition values_at :: "sample list \<Rightarrow> int \<Rightarrow> double list" where
  "values_at ss t = map sval (filter (\<lambda>s. sint (timestamp s) = t) ss)"

lemma values_at_append [simp]: "values_at (ss @ ss') t = values_at ss t @ values_at ss' t"
  and values_at_Nil [simp]: "values_at [] t = []"
  and values_at_Cons: "values_at (s # ss) t = (if sint (timestamp s) = t then [sval s] else []) @ values_at ss t"
  by (simp_all add: values_at_def)

lemma values_at_empty: "values_at ss t = [] \<longleftrightarrow> t \<notin> (\<lambda>s. sint (timestamp s)) ` set ss"
  by (auto simp: values_at_def filter_empty_conv)

text \<open>A map from timestamps in which every sample updates the entry of its timestamp.\<close>

definition collect :: "('v option \<Rightarrow> double \<Rightarrow> 'v) \<Rightarrow> sample list \<Rightarrow> (int \<times> 'v) list" where
  "collect step ss = foldl (\<lambda>m s. smap_insert (sint (timestamp s)) (step (map_of m (sint (timestamp s))) (sval s)) m) [] ss"

lemma collect_snoc:
  "collect step (ss @ [s]) =
     smap_insert (sint (timestamp s)) (step (map_of (collect step ss) (sint (timestamp s))) (sval s)) (collect step ss)"
  by (simp add: collect_def)

lemma collect_ok:
  "smap_ok (collect step ss)" "fst ` set (collect step ss) = (\<lambda>s. sint (timestamp s)) ` set ss"
  "map_of (collect step ss) t = foldl (\<lambda>acc v. Some (step acc v)) None (values_at ss t)"
proof (induction ss rule: rev_induct)
  case Nil
  case 1 show ?case by (simp add: collect_def)
  case 2 show ?case by (simp add: collect_def)
  case 3 show ?case by (simp add: collect_def)
next
  case (snoc s ss)
  case 1 show ?case using snoc(1) by (simp add: collect_snoc smap_ok_insert)
  case 2 show ?case using snoc(2) by (simp add: collect_snoc)
  case 3 show ?case using snoc(3) by (auto simp: collect_snoc smap_simps values_at_Cons)
qed

text \<open>The update of \<open>aggregated_values\<close> and the aggregate it computes, for the operators that use it.\<close>

definition value_step :: "fp \<Rightarrow> aggregation_op \<Rightarrow> double option \<Rightarrow> double \<Rightarrow> double" where
  "value_step f op acc v =
     (if op = Agg_MIN then (case acc of None \<Rightarrow> v | Some a \<Rightarrow> std_min a v)
      else if op = Agg_MAX then (case acc of None \<Rightarrow> v | Some a \<Rightarrow> std_max a v)
      else fp_add f (case acc of None \<Rightarrow> 0 | Some a \<Rightarrow> a) (if op = Agg_COUNT then double_one else v))"

lemma accumulate_collects:
  assumes "op \<in> {Agg_SUM, Agg_AVG, Agg_MIN, Agg_MAX, Agg_COUNT}"
  shows "aggregated_values (fold (accumulate f op) ss no_samples) = collect (value_step f op) ss"
    "op = Agg_AVG \<Longrightarrow> counts (fold (accumulate f op) ss no_samples) = collect (\<lambda>n v. (case n of None \<Rightarrow> 0 | Some k \<Rightarrow> k) + 1) ss"
proof (induction ss rule: rev_induct)
  case Nil
  case 1 show ?case by (simp add: collect_def no_samples_def)
  case 2 show ?case by (simp add: collect_def no_samples_def)
next
  case (snoc s ss)
  case 1 show ?case using assms snoc(1) by (auto simp: collect_snoc accumulate_def value_step_def smap_at_def Let_def)
  case 2 with snoc(2) show ?case by (simp add: collect_snoc accumulate_def smap_at_def Let_def)
qed

text \<open>What C++ and the evaluator make of the values of one timestamp.\<close>

definition counts_to :: "fp \<Rightarrow> nat \<Rightarrow> bool" where
  "counts_to f n \<longleftrightarrow> fp_of_int f 0 = 0 \<and> (\<forall>k < n. fp_add f (fp_of_int f (int k)) double_one = fp_of_int f (int k + 1))"

lemma counts_to_mono: "\<lbrakk>counts_to f n; m \<le> n\<rbrakk> \<Longrightarrow> counts_to f m"
  by (auto simp: counts_to_def)

lemma fold_present: "foldl (\<lambda>acc v. Some (step acc v)) (Some a) vs = Some (foldl (\<lambda>a v. step (Some a) v) a vs)"
  by (induction vs arbitrary: a) simp_all

lemma fold_collected:
  "vs \<noteq> [] \<Longrightarrow> foldl (\<lambda>acc v. Some (step acc v)) None vs = Some (foldl (\<lambda>a v. step (Some a) v) (step None (hd vs)) (tl vs))"
  by (cases vs) (simp_all add: fold_present)

lemma count_fold:
  assumes "counts_to f (k + length vs)"
  shows "foldl (\<lambda>a v. fp_add f a double_one) (fp_of_int f (int k)) vs = fp_of_int f (int (k + length vs))"
  using assms
proof (induction vs arbitrary: k)
  case (Cons v vs)
  then show ?case using Cons.IH [of "Suc k"] by (simp add: counts_to_def add.commute)
qed simp

lemma count_collected: "vs \<noteq> [] \<Longrightarrow> foldl (\<lambda>n v. Some ((case n of None \<Rightarrow> 0 | Some k \<Rightarrow> k) + 1)) None vs = Some (int (length vs))"
proof -
  have "foldl (\<lambda>n v. n + 1) k vs = k + int (length vs)" for k and vs :: "'a list" by (induction vs arbitrary: k) simp_all
  then show "vs \<noteq> [] \<Longrightarrow> ?thesis" by (cases vs) (simp_all add: fold_present)
qed

section \<open>Reading the groups\<close>

lemma read_samples_exact:
  assumes "exact_inv env hist e" "hist i \<noteq> []"
  shows "\<exists>e'. read_samples_nolock env now i t0 t1 e = Some (Inr (), filter (in_range t0 t1) (hist i), e') \<and> exact_inv env hist e'"
proof -
  obtain p e' where look: "lookup_series now i e = Some (Inr p, e')" and inv: "exact_inv env hist e'"
      and hit: "case p of None \<Rightarrow> hist i = [] | Some q \<Rightarrow> \<exists>ts. series_heap e' q = Some ts \<and> ts_samples ts = hist i
        \<and> calculate_series_id env (ts_labels ts) = i \<and> chronological (hist i)"
    using lookup_series_exact [OF assms(1), of now i hist] by blast
  from hit assms(2) obtain q ts where "p = Some q" "series_heap e' q = Some ts" "ts_samples ts = hist i"
    by (auto split: option.splits)
  with look inv show ?thesis by (simp add: read_samples_nolock_def)
qed

definition members_samples :: "int64 \<Rightarrow> int64 \<Rightarrow> history \<Rightarrow> uint64 list \<Rightarrow> sample list" where
  "members_samples t0 t1 hist ids = concat (map (\<lambda>i. filter (in_range t0 t1) (hist i)) ids)"

lemma read_group_exact:
  assumes "exact_inv env hist e" "\<forall>i \<in> set ids. hist i \<noteq> []"
  shows "\<exists>e'. read_group env f now t0 t1 op ids acc e = Some (fold (accumulate f op) (members_samples t0 t1 hist ids) acc, e')
    \<and> exact_inv env hist e'"
  using assms
proof (induction ids arbitrary: acc e)
  case (Cons i ids)
  obtain e1 where e1: "read_samples_nolock env now i t0 t1 e = Some (Inr (), filter (in_range t0 t1) (hist i), e1)" "exact_inv env hist e1"
    using read_samples_exact [of env hist e i now t0 t1] Cons.prems by auto
  from Cons.IH [OF e1(2)] Cons.prems(2) e1(1) show ?case by (simp add: members_samples_def)
qed (simp add: members_samples_def)

definition plain_ops :: "aggregation_op set" where
  "plain_ops = {Agg_SUM, Agg_AVG, Agg_MIN, Agg_MAX, Agg_COUNT}"

text \<open>The value a group has at a timestamp.\<close>

definition group_value :: "fp \<Rightarrow> aggregation_op \<Rightarrow> double list \<Rightarrow> double" where
  "group_value f op vs =
     (let v = the (foldl (\<lambda>acc v. Some (value_step f op acc v)) None vs)
      in if op = Agg_AVG then fp_div f v (fp_of_int f (int (length vs))) else v)"

lemma final_values_plain:
  assumes "agg_op req \<in> plain_ops"
  shows "\<exists>tvs. final_values f sort_doubles req (fold (accumulate f (agg_op req)) ss no_samples) = Some tvs
    \<and> smap_ok tvs \<and> fst ` set tvs = (\<lambda>s. sint (timestamp s)) ` set ss
    \<and> (\<forall>(t, v) \<in> set tvs. v = group_value f (agg_op req) (values_at ss t))"
proof -
  let ?op = "agg_op req"
  let ?acc = "fold (accumulate f ?op) ss no_samples" and ?m = "collect (value_step f ?op) ss"
  let ?final = "\<lambda>t v. if ?op = Agg_AVG then (if 0 < smap_at 0 (counts ?acc) t
      then fp_div f v (fp_of_int f (smap_at 0 (counts ?acc) t)) else 0) else v"
  have vals: "aggregated_values ?acc = ?m" using accumulate_collects(1) [of ?op f ss] assms by (simp add: plain_ops_def)
  have "?final t v = group_value f ?op (values_at ss t)" if "(t, v) \<in> set ?m" for t v
  proof -
    have "map_of ?m t = Some v" using that by (intro map_of_is_SomeI smap_ok_distinct collect_ok(1))
    then have v: "foldl (\<lambda>acc v. Some (value_step f ?op acc v)) None (values_at ss t) = Some v" by (simp add: collect_ok(3))
    then have "values_at ss t \<noteq> []" by auto
    then have "smap_at 0 (counts ?acc) t = int (length (values_at ss t))" if "?op = Agg_AVG"
      using accumulate_collects(2) [of ?op f ss] that by (simp add: smap_at_def collect_ok(3) count_collected)
    with v \<open>values_at ss t \<noteq> []\<close> show ?thesis by (auto simp: group_value_def)
  qed
  moreover have "final_values f sort_doubles req ?acc = Some (map (\<lambda>(t, v). (t, ?final t v)) ?m)"
    using assms vals by (auto simp: final_values_def plain_ops_def)
  moreover have "fst ` set (map (\<lambda>(t, v). (t, ?final t v)) ?m) = fst ` set ?m" by force
  moreover have "smap_ok (map (\<lambda>(t, v). (t, ?final t v)) ?m)"
    using collect_ok(1) [of "value_step f ?op" ss] by (simp add: smap_ok_def comp_def case_prod_unfold)
  ultimately show ?thesis using collect_ok(2) [of "value_step f ?op" ss]
    by (intro exI [of _ "map (\<lambda>(t, v). (t, ?final t v)) ?m"]) auto
qed

text \<open>The evaluator's own aggregation of the same values.\<close>

lemma evaluator_value:
  assumes "core_aggregation_op op = Some cop" "cop \<in> plain_ops" "vs \<noteq> []"
    "op \<in> {MIN_TOKEN, MAX_TOKEN} \<Longrightarrow> \<forall>v \<in> set vs. \<not> double_is_nan v" "op = COUNT \<Longrightarrow> counts_to f (length vs)"
    "env_fp eenv = f" "map is_value (group_members g) = vs"
  shows "aggregate_group eenv op t p str g = Inr [\<lparr>is_metric = group_metric g, is_time = t, is_value = group_value f cop vs\<rparr>]"
proof -
  obtain v vs' where vs: "vs = v # vs'" using assms(3) by (cases vs) auto
  have "op \<in> {SUM_TOKEN, AVG, MIN_TOKEN, MAX_TOKEN, COUNT}"
    using assms(1,2) by (auto simp: core_aggregation_op_def plain_ops_def split: if_splits)
  moreover have "foldl (fp_add f) (fp_add f 0 v) vs' = foldl (fp_add f) 0 vs" by (simp add: vs)
  moreover have "fp_add f 0 double_one = fp_of_int f 1" if "op = COUNT"
    using assms(5) [OF that] by (auto simp: counts_to_def vs dest: spec [of _ 0])
  moreover have "foldl (\<lambda>a v. fp_add f a double_one) (fp_of_int f 1) vs' = fp_of_int f (int (length vs))" if "op = COUNT"
    using count_fold [of f 1 vs'] assms(5) that by (simp add: vs)
  ultimately show ?thesis
    using assms(1,4,6,7)
    by (auto simp: aggregate_group_def core_aggregation_op_def group_value_def fold_present value_step_def vs std_min_inf
        std_max_neg_inf sum_values_def average_def)
qed

text \<open>The result series of a group whose members have the samples \<open>ss\<close>.\<close>

definition aggregated :: "fp \<Rightarrow> aggregation_op \<Rightarrow> sample list \<Rightarrow> time_series \<Rightarrow> bool" where
  "aggregated f op ss ts \<longleftrightarrow> chronological (ts_samples ts) \<and> timestamp ` set (ts_samples ts) = timestamp ` set ss
     \<and> (\<forall>s \<in> set (ts_samples ts). sval s = group_value f op (values_at ss (sint (timestamp s))))"

lemma result_series_aggregated:
  assumes "smap_ok tvs" "fst ` set tvs = (\<lambda>s. sint (timestamp s)) ` set ss"
    "\<forall>(t, v) \<in> set tvs. v = group_value f op (values_at ss t)"
  shows "\<exists>ts. add_samples (map (\<lambda>(t, v). mk_sample (word_of_int t) v) tvs) (mk_time_series l) = Inr ts
    \<and> ts_labels ts = l \<and> aggregated f op ss ts"
proof -
  let ?ss = "map (\<lambda>(t, v). mk_sample (word_of_int t) v) tvs"
  have tkey: "sint (word_of_int t :: int64) = t" if "(t, v) \<in> set tvs" for t v
  proof -
    have "t \<in> (\<lambda>s. sint (timestamp s)) ` set ss" using image_eqI [OF _ that, of t fst] by (simp add: assms(2))
    then obtain s :: sample where "t = sint (timestamp s)" by blast
    then show ?thesis by simp
  qed
  have "sorted_wrt (\<lambda>a b. fst a < fst b) tvs" using assms(1) by (simp add: smap_ok_def sorted_wrt_map)
  then have chron: "chronological ?ss" unfolding chronological_def sorted_wrt_map
    by (rule sorted_wrt_mono_rel [rotated]) (auto simp: mk_sample_def tkey)
  have "sint ` timestamp ` set ?ss = sint ` timestamp ` set ss"
    using assms(2) tkey by (force simp: mk_sample_def image_image)
  moreover have "inj (sint :: int64 \<Rightarrow> int)" by (intro injI signed_word_eqI)
  ultimately have "timestamp ` set ?ss = timestamp ` set ss" by (simp only: inj_image_eq_iff)
  moreover have "\<forall>s \<in> set ?ss. sval s = group_value f op (values_at ss (sint (timestamp s)))"
    using assms(3) tkey by (fastforce simp: mk_sample_def)
  ultimately show ?thesis using chron by (simp add: add_samples_fresh aggregated_def)
qed

lemma aggregate_groups_exact:
  assumes "exact_inv env hist e" "\<forall>(key, ids) \<in> set gs. \<forall>i \<in> set ids. hist i \<noteq> []" "agg_op req \<in> plain_ops"
  shows "\<exists>tss e'. aggregate_groups env f sort_doubles now t0 t1 req labels_of gs results e = Returns (Inr (results @ tss), e')
    \<and> list_all2 (\<lambda>(key, ids) ts. ts_labels ts = smap_at [] labels_of key
        \<and> aggregated f (agg_op req) (members_samples t0 t1 hist ids) ts) gs tss"
  using assms(1,2)
proof (induction gs arbitrary: results e)
  case (Cons g gs)
  obtain key ids where g: "g = (key, ids)" by force
  let ?ss = "members_samples t0 t1 hist ids"
  obtain e1 where e1: "read_group env f now t0 t1 (agg_op req) ids no_samples e =
      Some (fold (accumulate f (agg_op req)) ?ss no_samples, e1)" "exact_inv env hist e1"
    using read_group_exact [OF Cons.prems(1), of ids f now t0 t1 "agg_op req" no_samples] Cons.prems(2) by (auto simp: g)
  obtain tvs where tvs: "final_values f sort_doubles req (fold (accumulate f (agg_op req)) ?ss no_samples) = Some tvs"
      "smap_ok tvs" "fst ` set tvs = (\<lambda>s. sint (timestamp s)) ` set ?ss"
      "\<forall>(t, v) \<in> set tvs. v = group_value f (agg_op req) (values_at ?ss t)"
    using final_values_plain [OF assms(3)] by blast
  obtain ts where ts: "add_samples (map (\<lambda>(t, v). mk_sample (word_of_int t) v) tvs) (mk_time_series (smap_at [] labels_of key)) = Inr ts"
      "ts_labels ts = smap_at [] labels_of key" "aggregated f (agg_op req) ?ss ts"
    using result_series_aggregated [OF tvs(2-4)] by blast
  obtain tss e' where "aggregate_groups env f sort_doubles now t0 t1 req labels_of gs (results @ [ts]) e1 =
      Returns (Inr ((results @ [ts]) @ tss), e')"
      "list_all2 (\<lambda>(key, ids) ts. ts_labels ts = smap_at [] labels_of key
        \<and> aggregated f (agg_op req) (members_samples t0 t1 hist ids) ts) gs tss"
    using Cons.IH [OF e1(2), of "results @ [ts]"] Cons.prems(2) by auto
  with e1(1) tvs(1) ts show ?case by (intro exI [of _ "ts # tss"] exI [of _ e']) (simp add: g)
qed simp

lemma single_value: "distinct (map (\<lambda>s. sint (timestamp s)) ss) \<Longrightarrow> length (values_at ss t) \<le> 1"
proof (induction ss)
  case (Cons s ss)
  have "values_at ss t = []" if "sint (timestamp s) = t" using Cons.prems that by (auto simp: values_at_empty)
  with Cons show ?case by (auto simp: values_at_Cons)
qed simp

lemma short_values:
  assumes "\<forall>i \<in> set ids. chronological (hist i)"
  shows "length (values_at (members_samples t0 t1 hist ids) t) \<le> length ids"
  using assms
proof (induction ids)
  case (Cons i ids)
  have "sorted_wrt (<) (map (\<lambda>s. sint (timestamp s)) (hist i))" using Cons.prems by (simp add: chronological_def sorted_wrt_map)
  then have "distinct (map (\<lambda>s. sint (timestamp s)) (filter (in_range t0 t1) (hist i)))"
    by (meson distinct_map_filter strict_sorted_iff)
  from single_value [OF this, of t] Cons show ?case by (simp add: members_samples_def)
qed (simp add: members_samples_def)

lemma members_values: "v \<in> set (values_at (members_samples t0 t1 hist ids) t) \<Longrightarrow> \<exists>i. \<exists>s \<in> set (hist i). v = sval s"
  by (auto simp: values_at_def members_samples_def)

lemma exact_chronological: "exact_inv env hist e \<Longrightarrow> chronological (hist i)"
proof -
  assume "exact_inv env hist e"
  from lookup_series_exact [OF this, of 0 i hist] show ?thesis by (auto split: option.splits simp: chronological_def)
qed

lemma index_labels:
  assumes "catalog_inv hist e" "(ids, ix) = sharded_find_series ops re ms (e_index e)"
  shows "(\<lambda>i. case sharded_get_labels i ix of Inl _ \<Rightarrow> None | Inr l \<Rightarrow> Some l) = series_of e"
proof -
  have "sharded_labels ix = series_of e" using assms by (simp add: catalog_inv_def sharded_find_series_def Let_def)
  then show ?thesis by (auto simp: fun_eq_iff sharded_get_labels_def sharded_labels_def get_labels_def split: option.splits sum.splits)
qed

definition filed_under :: "aggregation_request \<Rightarrow> 'p engine \<Rightarrow> string \<Rightarrow> uint64 \<Rightarrow> bool" where
  "filed_under req e key i \<longleftrightarrow> Option.bind (series_of e i) (group_key req) = Some key"

lemma groups_filed:
  assumes "groups_ok req (series_of e) ids gs"
  shows "(key, members) \<in> set (groups gs) \<Longrightarrow> members = filter (filed_under req e key) ids"
    "key \<in> fst ` set (groups gs) \<longleftrightarrow> (\<exists>i \<in> set ids. filed_under req e key i)"
    "key \<in> fst ` set (groups gs) \<Longrightarrow> labels_to_string (smap_at [] (result_labels gs) key) = key"
proof -
  note gs = assms [unfolded groups_ok_def]
  have filed: "smap_at [] (groups gs) key = filter (filed_under req e key) ids" using gs by (simp add: filed_under_def [abs_def])
  have at: "map_of (groups gs) key = Some members" if "(key, members) \<in> set (groups gs)" for members
    using that gs by (intro map_of_is_SomeI smap_ok_distinct) simp_all
  show "members = filter (filed_under req e key) ids" if "(key, members) \<in> set (groups gs)"
    using at [OF that] filed by (simp add: smap_at_def)
  have "key \<in> fst ` set (groups gs) \<longleftrightarrow> smap_at [] (groups gs) key \<noteq> []"
  proof (cases "map_of (groups gs) key")
    case None
    then show ?thesis using map_of_eq_None_iff [of "groups gs" key] by (simp add: smap_at_def)
  next
    case (Some members)
    then have "members \<noteq> []" using gs by simp
    moreover have "key \<in> fst ` set (groups gs)" using image_eqI [OF _ map_of_SomeD [OF Some], of key fst] by simp
    ultimately show ?thesis using Some by (simp add: smap_at_def)
  qed
  then show "key \<in> fst ` set (groups gs) \<longleftrightarrow> (\<exists>i \<in> set ids. filed_under req e key i)" by (simp add: filed filter_empty_conv)
  show "labels_to_string (smap_at [] (result_labels gs) key) = key" if "key \<in> fst ` set (groups gs)"
  proof -
    have "key \<in> fst ` set (result_labels gs)" using that gs by simp
    then obtain l where "map_of (result_labels gs) key = Some l" by (metis map_of_eq_None_iff option.exhaust)
    with gs show ?thesis by (simp add: smap_at_def)
  qed
qed

text \<open>A series has at each timestamp of the samples \<open>ss\<close> what the evaluator computes for the values there.\<close>

definition evaluator_agrees :: "eval_env \<Rightarrow> token_type \<Rightarrow> double \<Rightarrow> string \<Rightarrow> sample list \<Rightarrow> time_series \<Rightarrow> bool" where
  "evaluator_agrees eenv op p str ss ts \<longleftrightarrow> chronological (ts_samples ts) \<and> timestamp ` set (ts_samples ts) = timestamp ` set ss
     \<and> (\<forall>s \<in> set (ts_samples ts). \<forall>g. group_metric g = ts_labels ts
          \<and> map is_value (group_members g) = values_at ss (sint (timestamp s)) \<longrightarrow>
          aggregate_group eenv op (sint (timestamp s)) p str g =
            Inr [\<lparr>is_metric = ts_labels ts, is_time = sint (timestamp s), is_value = sval s\<rparr>])"

lemma aggregated_agrees:
  assumes "aggregated (env_fp eenv) cop ss ts" "core_aggregation_op op = Some cop" "cop \<in> plain_ops"
    "op \<in> {MIN_TOKEN, MAX_TOKEN} \<Longrightarrow> \<forall>t. \<forall>v \<in> set (values_at ss t). \<not> double_is_nan v"
    "op = COUNT \<Longrightarrow> \<forall>t. counts_to (env_fp eenv) (length (values_at ss t))"
  shows "evaluator_agrees eenv op p str ss ts"
proof -
  have "aggregate_group eenv op (sint (timestamp s)) p str g =
      Inr [\<lparr>is_metric = ts_labels ts, is_time = sint (timestamp s), is_value = sval s\<rparr>]"
    if s: "s \<in> set (ts_samples ts)" and g: "group_metric g = ts_labels ts" "map is_value (group_members g) = values_at ss (sint (timestamp s))"
    for s g
  proof -
    have "timestamp s \<in> timestamp ` set ss" using assms(1) s by (auto simp: aggregated_def)
    then have "values_at ss (sint (timestamp s)) \<noteq> []" by (auto simp: values_at_empty)
    with evaluator_value [OF assms(2,3) this _ _ refl g(2)] assms(1,4,5) s g show ?thesis by (auto simp: aggregated_def)
  qed
  with assms(1) show ?thesis by (simp add: evaluator_agrees_def aggregated_def)
qed

lemma query_aggregate_groups:
  assumes "catalog_inv hist e" "exact_inv env hist e" "engine_inv env hist e" "env_posting env = vector_ops" "sint t0 < sint t1"
    "agg_without req \<or> [] \<in> set (grouping_keys req) \<longrightarrow> (\<forall>i l. series_of e i = Some l \<longrightarrow> [] \<notin> fst ` set l)" "agg_op req \<in> plain_ops"
    "ids = fst (sharded_find_series vector_ops (env_regex env) ms (e_index e))"
  shows "\<exists>tss e'. query_aggregate env f sort_doubles now ms t0 t1 req e = Returns (Inr tss, e')
    \<and> sorted_wrt (<) (map (\<lambda>ts. labels_to_string (ts_labels ts)) tss)
    \<and> {labels_to_string (ts_labels ts) | ts. ts \<in> set tss} = {key. \<exists>i \<in> set ids. filed_under req e key i}
    \<and> (\<forall>ts \<in> set tss. aggregated f (agg_op req)
         (members_samples t0 t1 hist (filter (filed_under req e (labels_to_string (ts_labels ts))) ids)) ts)"
proof -
  obtain ix where ix: "sharded_find_series vector_ops (env_regex env) ms (e_index e) = (ids, ix)"
    using assms(8) by (metis fst_conv surj_pair)
  note found = found_series [OF assms(1,8)]
  have "\<forall>i \<in> set ids. \<exists>l l'. series_of e i = Some l \<and> aggregation_labels req l = Inr l'"
    using found(2) assms(6) aggregation_labels_total by fastforce
  moreover have "groups_ok req (series_of e) [] \<lparr>groups = [], result_labels = []\<rparr>" by (simp add: groups_ok_def smap_at_def)
  ultimately obtain gs where gs: "group_series req (series_of e) ids \<lparr>groups = [], result_labels = []\<rparr> = Inr gs"
      "groups_ok req (series_of e) ids gs"
    using group_series_ok by fastforce
  note filed = groups_filed [OF gs(2)]
  have "\<forall>(key, members) \<in> set (groups gs). \<forall>i \<in> set members. hist i \<noteq> []" using filed(1) found(3) by fastforce
  moreover have "exact_inv env hist (e\<lparr>e_index := ix\<rparr>)" using assms(2) by (simp add: exact_inv_def)
  ultimately obtain tss e' where run: "aggregate_groups env f sort_doubles now t0 t1 req (result_labels gs) (groups gs) [] (e\<lparr>e_index := ix\<rparr>)
        = Returns (Inr tss, e')"
      "list_all2 (\<lambda>(key, ids) ts. ts_labels ts = smap_at [] (result_labels gs) key
        \<and> aggregated f (agg_op req) (members_samples t0 t1 hist ids) ts) (groups gs) tss"
    using aggregate_groups_exact [of env hist "e\<lparr>e_index := ix\<rparr>" "groups gs" req f sort_doubles now t0 t1 "result_labels gs" "[]"] assms(7) by auto
  have "list_all2 (\<lambda>g ts. fst g = labels_to_string (ts_labels ts)
      \<and> aggregated f (agg_op req) (members_samples t0 t1 hist (filter (filed_under req e (labels_to_string (ts_labels ts))) ids)) ts) (groups gs) tss"
    using run(2) by (rule list.rel_mono_strong) (use filed(1,3) in force)
  then have all: "map fst (groups gs) = map (\<lambda>ts. labels_to_string (ts_labels ts)) tss"
      "\<forall>ts \<in> set tss. aggregated f (agg_op req)
         (members_samples t0 t1 hist (filter (filed_under req e (labels_to_string (ts_labels ts))) ids)) ts"
    by (auto simp: list_all2_conv_all_nth in_set_conv_nth intro: nth_equalityI)
  have "{labels_to_string (ts_labels ts) | ts. ts \<in> set tss} = fst ` set (groups gs)"
    using arg_cong [OF all(1), of set] by auto
  also have "\<dots> = {key. \<exists>i \<in> set ids. filed_under req e key i}" using filed(2) by blast
  finally have keys: "{labels_to_string (ts_labels ts) | ts. ts \<in> set tss} = {key. \<exists>i \<in> set ids. filed_under req e key i}" .
  have "sorted_wrt (<) (map (\<lambda>ts. labels_to_string (ts_labels ts)) tss)" using gs(2) by (simp add: groups_ok_def smap_ok_def flip: all(1))
  moreover have "query_aggregate env f sort_doubles now ms t0 t1 req e = Returns (Inr tss, e')"
    using assms(3-5) run(1) gs(1) ix index_labels [OF assms(1) ix [symmetric]] by (simp add: query_aggregate_def engine_inv_def)
  ultimately show ?thesis using keys all(2) by blast
qed

section \<open>Properties\<close>

text \<open>
  C7: Aggregation inside the storage agrees with the evaluator's for sum, avg, min, max and count over a range with start before end.
  In the run before, the samples of each series arrived in time order, none at time 0 or \<open>INT64_MAX\<close>, fewer than 50000 series exist and
  the cache maintenance has not run. For min and max no stored value may be NaN, for count the additions of one must be exact up to the number of
  series, and for a grouping by \<open>without\<close> or by the empty name no series has an empty label name. Then the engine returns one
  series per group of matching series, in the order of the group's label string, with a sample at exactly the timestamps at which a member
  has one; its value is what the evaluator's own aggregation makes of the values the members were written with at that time.
\<close>

theorem pushdown_agrees_with_evaluator:
  assumes "env_ok env" "env_posting env = vector_ops"
    "engine_init env cfg (\<lambda>_. []) [] (mk_engine stack) = Returns (Inr (), e0)" "engine_run env catalogued e0 e hist"
    "sint t0 < sint t1" "agg_without req \<or> [] \<in> set (grouping_keys req) \<longrightarrow> (\<forall>i l. series_of e i = Some l \<longrightarrow> [] \<notin> fst ` set l)"
    "core_aggregation_op op = Some (agg_op req)" "op \<in> {SUM_TOKEN, AVG, MIN_TOKEN, MAX_TOKEN, COUNT}"
    "op \<in> {MIN_TOKEN, MAX_TOKEN} \<longrightarrow> (\<forall>i. \<forall>s \<in> set (hist i). \<not> double_is_nan (sval s))"
    "op = COUNT \<longrightarrow> counts_to (env_fp eenv) (card {i. hist i \<noteq> []})"
  shows "\<exists>ids tss e'. query_aggregate env (env_fp eenv) sort_doubles now ms t0 t1 req e = Returns (Inr tss, e')
    \<and> distinct ids \<and> set ids = {i. \<exists>l. series_of e i = Some l \<and> list_all (matches (env_regex env) l) ms}
    \<and> sorted_wrt (<) (map (\<lambda>ts. labels_to_string (ts_labels ts)) tss)
    \<and> {labels_to_string (ts_labels ts) | ts. ts \<in> set tss} = {key. \<exists>i \<in> set ids. filed_under req e key i}
    \<and> (\<forall>ts \<in> set tss. evaluator_agrees eenv op p str
         (members_samples t0 t1 hist (filter (filed_under req e (labels_to_string (ts_labels ts))) ids)) ts)"
proof -
  note inv = engine_run_catalog [OF assms(1-4)]
  let ?ids = "fst (sharded_find_series vector_ops (env_regex env) ms (e_index e))"
  note found = found_series [OF inv(1) refl, of "env_regex env" ms]
  have plain: "agg_op req \<in> plain_ops" using assms(7,8) by (auto simp: core_aggregation_op_def plain_ops_def)
  have "card (set ?ids) \<le> card {i. hist i \<noteq> []}" using found(3) by (intro card_mono exact_finite [OF inv(2)]) blast
  then have few: "length ?ids \<le> card {i. hist i \<noteq> []}" using found(1) by (simp add: distinct_card)
  have counted: "counts_to (env_fp eenv) (length (values_at (members_samples t0 t1 hist (filter P ?ids)) t))" if "op = COUNT" for P t
  proof -
    have "\<forall>i \<in> set (filter P ?ids). chronological (hist i)" using exact_chronological [OF inv(2)] by blast
    from short_values [OF this, of t0 t1 t] length_filter_le [of P ?ids] few
    have "length (values_at (members_samples t0 t1 hist (filter P ?ids)) t) \<le> card {i. hist i \<noteq> []}" by linarith
    with assms(10) that show ?thesis by (auto intro: counts_to_mono)
  qed
  have agree: "evaluator_agrees eenv op p str (members_samples t0 t1 hist (filter P ?ids)) ts"
    if "aggregated (env_fp eenv) (agg_op req) (members_samples t0 t1 hist (filter P ?ids)) ts" for P ts
    using aggregated_agrees [OF that assms(7) plain] assms(9) counted members_values by blast
  obtain tss e' where "query_aggregate env (env_fp eenv) sort_doubles now ms t0 t1 req e = Returns (Inr tss, e')"
      "sorted_wrt (<) (map (\<lambda>ts. labels_to_string (ts_labels ts)) tss)"
      "{labels_to_string (ts_labels ts) | ts. ts \<in> set tss} = {key. \<exists>i \<in> set ?ids. filed_under req e key i}"
      "\<forall>ts \<in> set tss. aggregated (env_fp eenv) (agg_op req)
         (members_samples t0 t1 hist (filter (filed_under req e (labels_to_string (ts_labels ts))) ?ids)) ts"
    using query_aggregate_groups [OF inv assms(2,5,6) plain refl] by blast
  then show ?thesis using found(1,2) agree by (intro exI [of _ ?ids] exI [of _ tss] exI [of _ e']) simp
qed

lemma sole_element: "\<lbrakk>distinct xs; set xs = {x}\<rbrakk> \<Longrightarrow> xs = [x]"
  by (cases xs) (auto simp: subset_singleton_iff)

theorem pushdown_agrees_with_evaluator_witness:
  "\<exists>e0 e tss e'. engine_init Storage_Consistency.example_env example_engine_config (\<lambda>_. []) []
        (mk_engine (env_stack Storage_Consistency.example_env)) = Returns (Inr (), e0)
     \<and> engine_run Storage_Consistency.example_env catalogued e0 e example_history
     \<and> query_aggregate Storage_Consistency.example_env example_fp id 5 [] 15 30
         \<lparr>agg_op = Agg_SUM, grouping_keys = [], agg_without = False, agg_param = 0\<rparr> e = Returns (Inr tss, e')
     \<and> map (\<lambda>ts. map (\<lambda>s. (timestamp s, sval s)) (ts_samples ts)) tss = [[(20, 2)]]"
proof -
  let ?env = Storage_Consistency.example_env and ?eenv = Promql_Evaluator.example_env
  let ?req = "\<lparr>agg_op = Agg_SUM, grouping_keys = [], agg_without = False, agg_param = 0\<rparr>"
  let ?i = "calculate_series_id ?env (ts_labels example_entry)"
  obtain e0 e where run: "engine_init ?env example_engine_config (\<lambda>_. []) [] (mk_engine (env_stack ?env)) = Returns (Inr (), e0)"
    "engine_run ?env catalogued e0 e example_history" using example_catalogued by (rule example_engine_run)
  have posting: "env_posting ?env = vector_ops" by (simp add: Storage_Consistency.example_env_def)
  note inv = engine_run_catalog [OF example_env_ok posting run]
  have series: "(\<exists>l. series_of e i = Some l) \<longleftrightarrow> i = ?i" for i using example_series_of [OF inv(1,3), of i] by auto
  have fp: "env_fp ?eenv = example_fp" by (simp add: Promql_Evaluator.example_env_def)
  obtain ids tss e' where q: "query_aggregate ?env example_fp id 5 [] 15 30 ?req e = Returns (Inr tss, e')"
      "distinct ids" "set ids = {i. \<exists>l. series_of e i = Some l}"
      "sorted_wrt (<) (map (\<lambda>ts. labels_to_string (ts_labels ts)) tss)"
      "{labels_to_string (ts_labels ts) | ts. ts \<in> set tss} = {key. \<exists>i \<in> set ids. filed_under ?req e key i}"
      "\<forall>ts \<in> set tss. evaluator_agrees ?eenv SUM_TOKEN 0 []
         (members_samples 15 30 example_history (filter (filed_under ?req e (labels_to_string (ts_labels ts))) ids)) ts"
    using pushdown_agrees_with_evaluator [OF example_env_ok posting run, of 15 30 ?req SUM_TOKEN ?eenv id 5 "[]" 0 "[]"]
    by (auto simp: core_aggregation_op_def fp)
  have ids: "ids = [?i]" using sole_element [OF q(2)] q(3) series by auto
  have "group_key ?req l = Some ''{}''" for l
    by (simp add: group_key_def aggregation_labels_def map_filter_def labels_remove_def smap_erase_def labels_to_string_def)
  then have filed: "filed_under ?req e key ?i \<longleftrightarrow> ''{}'' = key" for key
    using series [of ?i] by (auto simp: filed_under_def)
  have "set (map (\<lambda>ts. labels_to_string (ts_labels ts)) tss) = {labels_to_string (ts_labels ts) | ts. ts \<in> set tss}" by auto
  also have "\<dots> = {''{}''}" unfolding q(5) by (simp add: ids filed)
  finally have "set (map (\<lambda>ts. labels_to_string (ts_labels ts)) tss) = {''{}''}" .
  with sole_element [of "map (\<lambda>ts. labels_to_string (ts_labels ts)) tss" "''{}''"] q(4)
  have "map (\<lambda>ts. labels_to_string (ts_labels ts)) tss = [''{}'']" by (simp add: strict_sorted_iff)
  then obtain ts where ts: "tss = [ts]" "labels_to_string (ts_labels ts) = ''{}''" by auto
  have members: "members_samples 15 30 example_history [?i] = [mk_sample 20 2]"
    by (simp add: members_samples_def example_history_def example_entry_def in_range_def mk_sample_def)
  from q(6) have agrees: "evaluator_agrees ?eenv SUM_TOKEN 0 [] [mk_sample 20 2] ts" by (simp add: ts ids filed members)
  then have once: "timestamp ` set (ts_samples ts) = {20}" "chronological (ts_samples ts)"
    by (simp_all add: evaluator_agrees_def mk_sample_def)
  then have "sorted_wrt (<) (map (\<lambda>s. sint (timestamp s)) (ts_samples ts))" by (simp add: chronological_def sorted_wrt_map)
  then have "distinct (map sint (map timestamp (ts_samples ts)))" by (simp add: strict_sorted_iff comp_def)
  then have "distinct (map timestamp (ts_samples ts))" by (simp only: distinct_map)
  from sole_element [OF this] once(1) obtain s where s: "ts_samples ts = [s]" "timestamp s = 20" by auto
  have "sval s = 2"
    using agrees [unfolded evaluator_agrees_def, THEN conjunct2, THEN conjunct2, rule_format, of s
        "\<lparr>group_metric = ts_labels ts, group_members = [\<lparr>is_metric = [], is_time = 20, is_value = 2\<rparr>]\<rparr>"]
    by (simp add: s values_at_def mk_sample_def aggregate_group_def fp example_fp_def sum_values_def)
  with s ts have "map (\<lambda>ts. map (\<lambda>s. (timestamp s, sval s)) (ts_samples ts)) tss = [[(20, 2)]]" by simp
  with run q(1) show ?thesis by (intro exI [of _ e0] exI [of _ e] exI [of _ tss] exI [of _ e'] conjI)
qed

text \<open>Where the two aggregations differ: a minimum whose first value is NaN.\<close>

lemma pushed_min_keeps_nan:
  "group_value example_fp Agg_MIN [double_nan, double_one] = double_nan" "foldl std_min double_inf [double_nan, double_one] = double_one"
  by code_simp+

end
