(* ===== verification/Predictive_Cache.thy ===== *)
theory Predictive_Cache
  imports Cache_Hierarchy Double_Order "HOL-Library.Sublist"
begin

text \<open>
  The predictive cache (\<open>src/tsdb/storage/predictive_cache.cpp\<close>): it records the sequence of accessed
  series, counts the patterns that end at each access and predicts the series that follow the current one. A
  call reads the steady clock once, in nanoseconds. The hash map of patterns is a sorted map whose iteration
  order is a parameter, and so are \<open>std::sort\<close> and the arithmetic of doubles. The main facts are
  that the incremental counting agrees with counting the occurrences of a pattern in the whole access
  history, and that only successors seen often enough are predicted.
\<close>

section \<open>Configuration and state\<close>

record predictive_config =
  max_pattern_length :: uint64
  min_pattern_confidence :: uint64
  confidence_threshold :: double
  max_prefetch_size :: uint64
  enable_adaptive_prefetch :: bool
  max_tracked_series :: uint64
  integrate_with_cache_hierarchy :: bool

record access_pattern =
  pat_sequence :: "uint64 list"
  occurrences :: uint64
  confidence :: double
  last_seen :: int

record prefetch_stats =
  total_prefetches :: uint64
  successful_prefetches :: uint64
  failed_prefetches :: uint64
  recent_results :: "bool list"

record predictive_cache =
  pc_config :: predictive_config
  access_sequences :: "(uint64 \<times> uint64 list) list"
  global_access_sequence :: "uint64 list"
  detected_patterns :: "(string \<times> access_pattern) list"
  prefetch_results :: prefetch_stats

definition no_prefetches :: prefetch_stats where
  "no_prefetches = \<lparr>total_prefetches = 0, successful_prefetches = 0, failed_prefetches = 0, recent_results = []\<rparr>"

definition mk_predictive_cache :: "predictive_config \<Rightarrow> predictive_cache" where
  "mk_predictive_cache cfg =
     \<lparr>pc_config = cfg, access_sequences = [], global_access_sequence = [], detected_patterns = [], prefetch_results = no_prefetches\<rparr>"

section \<open>Prefetch statistics\<close>

definition get_success_rate :: "fp \<Rightarrow> prefetch_stats \<Rightarrow> double" where
  "get_success_rate f st =
     (if total_prefetches st = 0 then 0
      else fp_div f (fp_of_int f (uint (successful_prefetches st))) (fp_of_int f (uint (total_prefetches st))))"

definition cleanup_old_results :: "nat \<Rightarrow> prefetch_stats \<Rightarrow> prefetch_stats" where
  "cleanup_old_results window_size st =
     st\<lparr>recent_results := drop (length (recent_results st) - window_size) (recent_results st)\<rparr>"

definition record_result :: "bool \<Rightarrow> prefetch_stats \<Rightarrow> prefetch_stats" where
  "record_result success st =
     (let st1 = st\<lparr>total_prefetches := total_prefetches st + 1\<rparr>;
          st2 = (if success then st1\<lparr>successful_prefetches := successful_prefetches st1 + 1\<rparr>
                 else st1\<lparr>failed_prefetches := failed_prefetches st1 + 1\<rparr>)
      in cleanup_old_results 100 (st2\<lparr>recent_results := recent_results st2 @ [success]\<rparr>))"

section \<open>Pattern keys\<close>

fun pattern_to_string :: "uint64 list \<Rightarrow> string" where
  "pattern_to_string [] = []"
| "pattern_to_string [i] = decimal (unat i)"
| "pattern_to_string (i # is) = decimal (unat i) @ '','' @ pattern_to_string is"

text \<open>\<open>std::getline\<close> with a delimiter, and \<open>std::stoull\<close>, no value where it throws.\<close>

function getline_tokens :: "char \<Rightarrow> string \<Rightarrow> string list" where
  "getline_tokens d s =
     (if s = [] then []
      else takeWhile (\<lambda>c. c \<noteq> d) s # getline_tokens d (drop 1 (dropWhile (\<lambda>c. c \<noteq> d) s)))"
  by pat_completeness auto
termination
proof (relation "measure (\<lambda>(d, s). length s)")
  fix d :: char and s :: string
  assume "s \<noteq> []"
  moreover have "length (dropWhile (\<lambda>c. c \<noteq> d) s) \<le> length s" by (rule length_dropWhile_le)
  ultimately show "((d, drop 1 (dropWhile (\<lambda>c. c \<noteq> d) s)), d, s) \<in> measure (\<lambda>(d, s). length s)"
    by (cases s) (auto simp: le_imp_less_Suc)
qed simp

declare getline_tokens.simps [simp del]

definition is_space_char :: "char \<Rightarrow> bool" where
  "is_space_char c \<longleftrightarrow> (of_char c :: nat) = 32 \<or> (9 \<le> (of_char c :: nat) \<and> (of_char c :: nat) \<le> 13)"

definition is_digit_char :: "char \<Rightarrow> bool" where
  "is_digit_char c \<longleftrightarrow> 48 \<le> (of_char c :: nat) \<and> (of_char c :: nat) \<le> 57"

definition decimal_value_of :: "string \<Rightarrow> nat" where
  "decimal_value_of ds = foldl (\<lambda>n c. 10 * n + (of_char c - 48)) 0 ds"

definition stoull :: "string \<Rightarrow> uint64 option" where
  "stoull s =
     (let s1 = dropWhile is_space_char s;
          neg = (s1 \<noteq> [] \<and> hd s1 = CHR ''-'');
          s2 = (if s1 \<noteq> [] \<and> (hd s1 = CHR ''-'' \<or> hd s1 = CHR ''+'') then tl s1 else s1);
          ds = takeWhile is_digit_char s2
      in if ds = [] \<or> 2 ^ 64 \<le> decimal_value_of ds then None
         else Some (if neg then - of_nat (decimal_value_of ds) else of_nat (decimal_value_of ds)))"

definition string_to_pattern :: "string \<Rightarrow> uint64 list" where
  "string_to_pattern s = List.map_filter stoull (getline_tokens (CHR '','') s)"

section \<open>Learning\<close>

definition double_five :: double where "double_five = 0x4014000000000000"
definition double_twenty_four :: double where "double_twenty_four = 0x4038000000000000"
definition hour_ns :: int where "hour_ns = 3600000000000"

text \<open>The quotient of \<open>duration_cast\<close> truncates toward zero.\<close>

definition calculate_confidence :: "fp \<Rightarrow> int \<Rightarrow> predictive_config \<Rightarrow> access_pattern \<Rightarrow> double" where
  "calculate_confidence f now cfg p =
     (if occurrences p < min_pattern_confidence cfg then 0
      else
        let base_confidence = std_min double_one (fp_div f (fp_of_int f (uint (occurrences p))) double_five);
            time_since_last = sgn (now - last_seen p) * (\<bar>now - last_seen p\<bar> div hour_ns);
            time_decay = fp_math f ''exp'' (fp_div f (fp_of_int f (- time_since_last)) double_twenty_four)
        in fp_mul f base_confidence time_decay)"

definition count_pattern ::
  "fp \<Rightarrow> int \<Rightarrow> predictive_config \<Rightarrow> uint64 list \<Rightarrow> (string \<times> access_pattern) list \<Rightarrow> (string \<times> access_pattern) list" where
  "count_pattern f now cfg pattern m =
     (let key = pattern_to_string pattern;
          p = (case map_of m key of
                 Some p \<Rightarrow> p\<lparr>occurrences := occurrences p + 1, last_seen := now\<rparr>
               | None \<Rightarrow> \<lparr>pat_sequence = pattern, occurrences = 1, confidence = 0, last_seen = now\<rparr>)
      in smap_insert key (p\<lparr>confidence := calculate_confidence f now cfg p\<rparr>) m)"

definition detect_patterns :: "fp \<Rightarrow> int \<Rightarrow> predictive_cache \<Rightarrow> predictive_cache" where
  "detect_patterns f now pc =
     (let sequence = global_access_sequence pc;
          max_len = min (length sequence) (unat (max_pattern_length (pc_config pc)))
      in pc\<lparr>detected_patterns :=
           fold (\<lambda>pattern_length. count_pattern f now (pc_config pc) (drop (length sequence - pattern_length) sequence))
             [2..<max_len + 1] (detected_patterns pc)\<rparr>)"

text \<open>The eviction of \<open>record_access\<close>, for an iteration of the hash map in the given order.\<close>

definition evict_sequence :: "(uint64 \<times> uint64 list) list \<Rightarrow> (uint64 \<times> uint64 list) list" where
  "evict_sequence m =
     (case m of
        [] \<Rightarrow> []
      | first # _ \<Rightarrow>
          let oldest = foldl (\<lambda>oldest it. if snd it = [] \<or> (snd oldest = [] \<and> snd it \<noteq> []) then it else oldest) first m
          in if snd oldest \<noteq> [] then smap_erase (fst oldest) m else m)"

definition predictive_record_access :: "fp \<Rightarrow> int \<Rightarrow> uint64 \<Rightarrow> predictive_cache \<Rightarrow> predictive_cache" where
  "predictive_record_access f now i pc =
     (let sequence = global_access_sequence pc @ [i];
          sequence' = (if unat (max_pattern_length (pc_config pc) * 10) < length sequence then drop 1 sequence else sequence);
          pc1 = detect_patterns f now (pc\<lparr>global_access_sequence := sequence'\<rparr>)
      in if unat (max_tracked_series (pc_config pc1)) < length (access_sequences pc1)
         then pc1\<lparr>access_sequences := evict_sequence (access_sequences pc1)\<rparr> else pc1)"

section \<open>Predicting\<close>

record predictive_env =
  pe_fp :: fp
  pe_order :: "(string \<times> access_pattern) list \<Rightarrow> (string \<times> access_pattern) list"
  pe_sort_patterns :: "(access_pattern \<times> double) list \<Rightarrow> (access_pattern \<times> double) list"
  pe_sort_predictions :: "(uint64 \<times> double) list \<Rightarrow> (uint64 \<times> double) list"

text \<open>Sorting values that \<open>operator>\<close> does not order is undefined, no value.\<close>

definition find_matching_patterns ::
  "predictive_env \<Rightarrow> int \<Rightarrow> uint64 \<Rightarrow> predictive_cache \<Rightarrow> (access_pattern \<times> double) list option" where
  "find_matching_patterns env now i pc =
     (let matching = map (\<lambda>(key, p). (p, calculate_confidence (pe_fp env) now (pc_config pc) p))
            (filter (\<lambda>(key, p). pat_sequence p \<noteq> [] \<and> hd (pat_sequence p) = i
               \<and> double_le (confidence_threshold (pc_config pc)) (calculate_confidence (pe_fp env) now (pc_config pc) p))
              (pe_order env (detected_patterns pc)))
      in if orderable (map snd matching) then Some (pe_sort_patterns env matching) else None)"

definition get_predictions ::
  "predictive_env \<Rightarrow> int \<Rightarrow> uint64 \<Rightarrow> predictive_cache \<Rightarrow> (uint64 \<times> double) list option" where
  "get_predictions env now i pc =
     (case find_matching_patterns env now i pc of
        None \<Rightarrow> None
      | Some matching \<Rightarrow>
          let predictions = map (\<lambda>(p, c). (pat_sequence p ! 1, c))
                (filter (\<lambda>(p, c). double_le (confidence_threshold (pc_config pc)) c \<and> 1 < length (pat_sequence p)) matching)
          in if orderable (map snd predictions)
             then Some (take (unat (max_prefetch_size (pc_config pc))) (pe_sort_predictions env predictions)) else None)"

text \<open>The loop of \<open>prefetch_predictions\<close> over the cache hierarchy: nothing is loaded, only looked up.\<close>

fun prefetch_loop ::
  "int \<Rightarrow> (uint64 \<times> double) list \<Rightarrow> uint64 \<Rightarrow> prefetch_stats \<Rightarrow> hstate \<Rightarrow> (exn + uint64 \<times> prefetch_stats \<times> hstate) option" where
  "prefetch_loop now [] n st s = Some (Inr (n, st, s))"
| "prefetch_loop now ((i, c) # ps) n st s =
     (case hierarchy_get now i s of
        None \<Rightarrow> None
      | Some (Inl ex, _) \<Rightarrow> Some (Inl ex)
      | Some (Inr (Some _), s1) \<Rightarrow> prefetch_loop now ps n (record_result True st) s1
      | Some (Inr None, s1) \<Rightarrow> prefetch_loop now ps (n + 1) (record_result False st) s1)"

definition prefetch_predictions ::
  "predictive_env \<Rightarrow> int \<Rightarrow> uint64 \<Rightarrow> predictive_cache \<Rightarrow> hstate \<Rightarrow> (exn + uint64 \<times> predictive_cache \<times> hstate) option" where
  "prefetch_predictions env now i pc s =
     (if \<not> integrate_with_cache_hierarchy (pc_config pc) then Some (Inr (0, pc, s))
      else
        (case get_predictions env now i pc of
           None \<Rightarrow> None
         | Some ps \<Rightarrow>
             map_option (map_sum id (\<lambda>(n, st, s'). (n, pc\<lparr>prefetch_results := st\<rparr>, s')))
               (prefetch_loop now ps 0 (prefetch_results pc) s)))"

definition record_prefetch_result :: "uint64 \<Rightarrow> bool \<Rightarrow> predictive_cache \<Rightarrow> predictive_cache" where
  "record_prefetch_result i was_accessed pc = pc\<lparr>prefetch_results := record_result was_accessed (prefetch_results pc)\<rparr>"

definition get_adaptive_prefetch_size :: "fp \<Rightarrow> predictive_cache \<Rightarrow> uint64" where
  "get_adaptive_prefetch_size f pc =
     (let n = max_prefetch_size (pc_config pc); rate = get_success_rate f (prefetch_results pc)
      in if \<not> enable_adaptive_prefetch (pc_config pc) then n
         else if double_less 0x3FE999999999999A rate then min (n + 2) n
         else if double_less 0x3FE3333333333333 rate then n
         else if double_less 0x3FD999999999999A rate then max 1 (n - 1)
         else max 1 (n - 2))"

definition predictive_clear :: "predictive_cache \<Rightarrow> predictive_cache" where
  "predictive_clear pc =
     pc\<lparr>access_sequences := [], global_access_sequence := [], detected_patterns := [],
        prefetch_results := \<lparr>total_prefetches = 0, successful_prefetches = 0, failed_prefetches = 0, recent_results = []\<rparr>\<rparr>"

definition update_config :: "predictive_config \<Rightarrow> predictive_cache \<Rightarrow> predictive_cache" where
  "update_config cfg pc = pc\<lparr>pc_config := cfg\<rparr>"

definition cleanup_old_patterns :: "int \<Rightarrow> predictive_cache \<Rightarrow> predictive_cache" where
  "cleanup_old_patterns now pc =
     pc\<lparr>detected_patterns := filter (\<lambda>(key, p). \<not> (last_seen p < now - 24 * hour_ns
          \<and> occurrences p < min_pattern_confidence (pc_config pc))) (detected_patterns pc)\<rparr>"

section \<open>Pattern keys are unambiguous\<close>

lemma digit_char:
  assumes "(d :: nat) < 10"
  shows "is_digit_char (char_of (48 + d))" "of_char (char_of (48 + d) :: char) - 48 = d"
  using assms by (simp_all add: is_digit_char_def)

lemma decimal_digits: "list_all is_digit_char (decimal n)" "decimal n \<noteq> []"
proof -
  have "list_all is_digit_char (decimal n) \<and> decimal n \<noteq> []"
  proof (induction n rule: decimal.induct)
    case (1 n)
    then show ?case by (subst (1 2) decimal.simps) (simp add: digit_char)
  qed
  then show "list_all is_digit_char (decimal n)" "decimal n \<noteq> []" by auto
qed

lemma decimal_value: "decimal_value_of (decimal n) = n"
proof (induction n rule: decimal.induct)
  case (1 n)
  then show ?case by (subst decimal.simps) (auto simp: decimal_value_of_def digit_char)
qed

lemma stoull_decimal:
  assumes "n < 2 ^ 64"
  shows "stoull (decimal n) = Some (of_nat n)"
proof -
  obtain c cs where c: "decimal n = c # cs" using decimal_digits(2) by (cases "decimal n") auto
  then have "is_digit_char c" using decimal_digits(1) [of n] by simp
  then have "\<not> is_space_char c" "c \<noteq> CHR ''-''" "c \<noteq> CHR ''+''" by (auto simp: is_digit_char_def is_space_char_def)
  moreover have "takeWhile is_digit_char (decimal n) = decimal n" using decimal_digits(1) by (simp add: takeWhile_eq_all_conv list_all_iff)
  ultimately show ?thesis using assms decimal_value [of n] c by (simp add: stoull_def Let_def)
qed

lemma getline_tokens_append:
  assumes "d \<notin> set s" "s \<noteq> []"
  shows "getline_tokens d s = [s]" "getline_tokens d (s @ d # t) = s # getline_tokens d t"
proof -
  have whole: "takeWhile (\<lambda>c. c \<noteq> d) s = s" "drop 1 (dropWhile (\<lambda>c. c \<noteq> d) s) = []"
    using assms(1) by (auto simp: takeWhile_eq_all_conv)
  have part: "takeWhile (\<lambda>c. c \<noteq> d) (s @ d # t) = s" "drop 1 (dropWhile (\<lambda>c. c \<noteq> d) (s @ d # t)) = t"
    using assms(1) by (auto simp: takeWhile_append dropWhile_append)
  show "getline_tokens d s = [s]"
    by (subst getline_tokens.simps) (simp only: assms(2) if_False whole getline_tokens.simps [of d "[]"] simp_thms if_True)
  show "getline_tokens d (s @ d # t) = s # getline_tokens d t"
    by (subst getline_tokens.simps) (simp only: assms(2) if_False part append_is_Nil_conv simp_thms)
qed

lemma pattern_string_roundtrip: "string_to_pattern (pattern_to_string is) = is"
proof (induction "is" rule: pattern_to_string.induct)
  case 1
  then show ?case by (simp add: string_to_pattern_def getline_tokens.simps)
next
  have comma: "CHR '','' \<notin> set (decimal n)" for n
    using decimal_digits(1) [of n] by (auto simp: list_all_iff is_digit_char_def)
  note tokens = getline_tokens_append [OF comma decimal_digits(2)]
  have stoull: "stoull (decimal (unat i)) = Some i" for i using stoull_decimal [of "unat i"] unsigned_less [of i] by simp
  {
    case (2 i)
    then show ?case by (simp add: string_to_pattern_def tokens stoull)
  next
    case (3 i j "is")
    then show ?case by (simp add: string_to_pattern_def tokens stoull)
  }
qed

lemma pattern_to_string_inj: "pattern_to_string p = pattern_to_string q \<longleftrightarrow> p = q"
  by (metis pattern_string_roundtrip)

section \<open>Counting\<close>

text \<open>How often a pattern occurs in the access history, counted by its starting points.\<close>

definition seen :: "uint64 list \<Rightarrow> uint64 list \<Rightarrow> nat" where
  "seen p xs = length (filter (\<lambda>k. take (length p) (drop k xs) = p) [0..<length xs + 1 - length p])"

lemma suffix_iff_drop: "suffix p xs \<longleftrightarrow> length p \<le> length xs \<and> drop (length xs - length p) xs = p"
  using Sublist.suffix_drop [of "length xs - length p" xs] by (auto elim!: suffixE intro: suffixI)

lemma seen_snoc: "seen p (xs @ [x]) = seen p xs + (if suffix p (xs @ [x]) then 1 else 0)"
proof (cases "length p \<le> length xs + 1")
  case True
  let ?n = "length xs + 1 - length p"
  have "[0..<length (xs @ [x]) + 1 - length p] = [0..<?n] @ [?n]" using True by (simp add: Suc_diff_le)
  moreover have "filter (\<lambda>k. take (length p) (drop k (xs @ [x])) = p) [0..<?n] = filter (\<lambda>k. take (length p) (drop k xs) = p) [0..<?n]"
    by (rule filter_cong) auto
  moreover have "take (length p) (drop ?n (xs @ [x])) = p \<longleftrightarrow> suffix p (xs @ [x])"
    using True by (auto simp: suffix_iff_drop)
  ultimately show ?thesis by (simp add: seen_def)
next
  case False
  then show ?thesis by (auto simp: seen_def dest: suffix_length_le)
qed

lemma length_filter_upt_mono:
  assumes "a \<le> b" "\<And>k. P k \<Longrightarrow> Q k"
  shows "length (filter P [0..<a]) \<le> length (filter Q [0..<b])"
proof -
  have "length (filter P [0..<a]) = card {k. k < a \<and> P k}" for P a
    by (simp add: length_filter_conv_card cong: conj_cong)
  then show ?thesis using assms by (auto intro: card_mono)
qed

lemma seen_prefix:
  assumes "prefix p q"
  shows "seen q xs \<le> seen p xs"
  unfolding seen_def
proof (rule length_filter_upt_mono)
  show "length xs + 1 - length q \<le> length xs + 1 - length p" using prefix_length_le [OF assms] by simp
  show "take (length p) (drop k xs) = p" if "take (length q) (drop k xs) = q" for k
  proof -
    obtain r where "q = p @ r" using assms by (auto elim: prefixE)
    then have "take (length p) (take (length q) (drop k xs)) = p" using that by simp
    then show ?thesis using prefix_length_le [OF assms] by (simp add: min_def)
  qed
qed

definition bump :: "fp \<Rightarrow> int \<Rightarrow> predictive_config \<Rightarrow> uint64 list \<Rightarrow> access_pattern option \<Rightarrow> access_pattern" where
  "bump f now cfg pattern old =
     (let p = (case old of
                 Some p \<Rightarrow> p\<lparr>occurrences := occurrences p + 1, last_seen := now\<rparr>
               | None \<Rightarrow> \<lparr>pat_sequence = pattern, occurrences = 1, confidence = 0, last_seen = now\<rparr>)
      in p\<lparr>confidence := calculate_confidence f now cfg p\<rparr>)"

lemma map_of_count_pattern:
  "map_of (count_pattern f now cfg q m) = (map_of m)(pattern_to_string q \<mapsto> bump f now cfg q (map_of m (pattern_to_string q)))"
  by (simp add: count_pattern_def bump_def Let_def smap_simps)

lemma detected_fold:
  assumes "m \<le> length xs"
  shows "map_of (fold (\<lambda>n. count_pattern f now cfg (drop (length xs - n) xs)) [2..<Suc m] M) (pattern_to_string p) =
    (if suffix p xs \<and> 2 \<le> length p \<and> length p \<le> m then Some (bump f now cfg p (map_of M (pattern_to_string p)))
     else map_of M (pattern_to_string p))"
  using assms
proof (induction m)
  case (Suc m)
  let ?q = "drop (length xs - Suc m) xs"
  have q: "length ?q = Suc m" "suffix p xs \<and> length p = Suc m \<longleftrightarrow> p = ?q"
    using Suc.prems by (auto simp: suffix_iff_drop)
  show ?case
  proof (cases "2 \<le> Suc m")
    case True
    then have "[2..<Suc (Suc m)] = [2..<Suc m] @ [Suc m]" by (rule upt_Suc_append)
    with Suc q True show ?thesis by (auto simp: map_of_count_pattern pattern_to_string_inj le_Suc_eq simp del: upt_Suc)
  qed auto
qed auto

text \<open>What the cache has learned from the accesses \<open>xs\<close>.\<close>

definition learnt :: "predictive_config \<Rightarrow> uint64 list \<Rightarrow> predictive_cache \<Rightarrow> bool" where
  "learnt cfg xs pc \<longleftrightarrow> pc_config pc = cfg
     \<and> global_access_sequence pc = drop (length xs - unat (max_pattern_length cfg) * 10) xs
     \<and> (\<forall>p. case map_of (detected_patterns pc) (pattern_to_string p) of
          None \<Rightarrow> 2 \<le> length p \<and> length p \<le> unat (max_pattern_length cfg) \<longrightarrow> seen p xs = 0
        | Some q \<Rightarrow> 2 \<le> length p \<and> length p \<le> unat (max_pattern_length cfg) \<and> 0 < seen p xs
            \<and> pat_sequence q = p \<and> occurrences q = of_nat (seen p xs))
     \<and> fst ` set (detected_patterns pc) \<subseteq> range pattern_to_string \<and> smap_ok (detected_patterns pc)"

lemma detected_keys:
  "fst ` set (fold (\<lambda>n. count_pattern f now cfg (g n)) ns M) \<subseteq> fst ` set M \<union> range pattern_to_string"
proof (induction ns arbitrary: M)
  case (Cons n ns)
  have "fst ` set (count_pattern f now cfg (g n) M) \<subseteq> fst ` set M \<union> range pattern_to_string"
    by (simp add: count_pattern_def Let_def)
  with Cons.IH [of "count_pattern f now cfg (g n) M"] show ?case by simp blast
qed simp

lemma detected_ok: "smap_ok M \<Longrightarrow> smap_ok (fold (\<lambda>n. count_pattern f now cfg (g n)) ns M)"
  by (induction ns arbitrary: M) (simp_all add: count_pattern_def Let_def smap_ok_insert)

lemma window_suffix:
  assumes "length p \<le> n"
  shows "suffix p (drop (length xs - n) xs) \<longleftrightarrow> suffix p xs"
  using assms by (auto simp: suffix_iff_drop min_def)

lemma window_snoc: "n < length (drop (length xs - n) xs @ [x]) \<Longrightarrow> drop 1 (drop (length xs - n) xs @ [x]) = drop (length (xs @ [x]) - n) (xs @ [x])"
  "\<not> n < length (drop (length xs - n) xs @ [x]) \<Longrightarrow> drop (length xs - n) xs @ [x] = drop (length (xs @ [x]) - n) (xs @ [x])"
  by (auto simp: Suc_diff_le)

lemma seen_0: "p \<noteq> [] \<Longrightarrow> seen p [] = 0"
  by (cases p) (simp_all add: seen_def)

lemma record_access_learnt:
  assumes "learnt cfg xs pc" "unat (max_pattern_length cfg) * 10 < 2 ^ 64"
  shows "learnt cfg (xs @ [i]) (predictive_record_access f now i pc)"
proof -
  let ?n = "unat (max_pattern_length cfg)"
  have n: "unat (max_pattern_length cfg * 10) = ?n * 10"
    using assms(2) by (simp add: unat_word_ariths)
  let ?seq = "drop (length (xs @ [i]) - ?n * 10) (xs @ [i])"
  let ?m = "min (length ?seq) ?n" and ?M = "detected_patterns pc"
  let ?M' = "fold (\<lambda>k. count_pattern f now cfg (drop (length ?seq - k) ?seq)) [2..<Suc ?m] ?M"
  have state: "pc_config (predictive_record_access f now i pc) = cfg" "global_access_sequence (predictive_record_access f now i pc) = ?seq"
      "detected_patterns (predictive_record_access f now i pc) = ?M'"
  proof -
    have cfg: "pc_config pc = cfg" and seq: "global_access_sequence pc = drop (length xs - ?n * 10) xs"
      using assms(1) by (simp_all add: learnt_def)
    have "(if ?n * 10 < length (drop (length xs - ?n * 10) xs @ [i]) then drop 1 (drop (length xs - ?n * 10) xs @ [i])
        else drop (length xs - ?n * 10) xs @ [i]) = ?seq"
      using window_snoc [of "?n * 10" xs i] by (cases "?n * 10 < length (drop (length xs - ?n * 10) xs @ [i])") (simp_all only: if_True if_False simp_thms)
    then show "pc_config (predictive_record_access f now i pc) = cfg" "global_access_sequence (predictive_record_access f now i pc) = ?seq"
        "detected_patterns (predictive_record_access f now i pc) = ?M'"
      unfolding predictive_record_access_def detect_patterns_def Let_def cfg seq n by (simp_all add: cfg del: drop_append upt_Suc)
  qed
  have suff: "suffix p ?seq \<and> 2 \<le> length p \<and> length p \<le> ?m \<longleftrightarrow> suffix p (xs @ [i]) \<and> 2 \<le> length p \<and> length p \<le> ?n" for p
    using window_suffix [of p "?n * 10" "xs @ [i]"] suffix_length_le [of p ?seq] by (auto simp del: suffix_snoc)
  have "case map_of ?M' (pattern_to_string p) of
          None \<Rightarrow> 2 \<le> length p \<and> length p \<le> ?n \<longrightarrow> seen p (xs @ [i]) = 0
        | Some q \<Rightarrow> 2 \<le> length p \<and> length p \<le> ?n \<and> 0 < seen p (xs @ [i])
            \<and> pat_sequence q = p \<and> occurrences q = of_nat (seen p (xs @ [i]))" for p
  proof -
    have "case map_of ?M (pattern_to_string p) of
          None \<Rightarrow> 2 \<le> length p \<and> length p \<le> ?n \<longrightarrow> seen p xs = 0
        | Some q \<Rightarrow> 2 \<le> length p \<and> length p \<le> ?n \<and> 0 < seen p xs
            \<and> pat_sequence q = p \<and> occurrences q = of_nat (seen p xs)"
      using assms(1) by (simp only: learnt_def)
    moreover have "map_of ?M' (pattern_to_string p) =
        (if suffix p (xs @ [i]) \<and> 2 \<le> length p \<and> length p \<le> ?n then Some (bump f now cfg p (map_of ?M (pattern_to_string p)))
         else map_of ?M (pattern_to_string p))"
      using detected_fold [of ?m ?seq f now cfg ?M p] suff [of p] by simp
    ultimately show ?thesis by (auto simp: seen_snoc bump_def Let_def simp del: suffix_snoc split: option.splits if_splits)
  qed
  moreover have old: "fst ` set ?M \<subseteq> range pattern_to_string" "smap_ok ?M" using assms(1) by (simp_all only: learnt_def)
  have "fst ` set ?M' \<subseteq> range pattern_to_string"
    using detected_keys [of f now cfg "\<lambda>k. drop (length ?seq - k) ?seq" "[2..<Suc ?m]" ?M] old(1) by blast
  moreover have "smap_ok ?M'" by (rule detected_ok [OF old(2)])
  ultimately show ?thesis unfolding learnt_def state by blast
qed

definition record_all :: "fp \<Rightarrow> (int \<times> uint64) list \<Rightarrow> predictive_cache \<Rightarrow> predictive_cache" where
  "record_all f accesses pc = foldl (\<lambda>pc (now, i). predictive_record_access f now i pc) pc accesses"

lemma record_all_learnt:
  assumes "learnt cfg xs pc" "unat (max_pattern_length cfg) * 10 < 2 ^ 64"
  shows "learnt cfg (xs @ map snd accesses) (record_all f accesses pc)"
  using assms(1)
proof (induction accesses arbitrary: xs pc)
  case (Cons a accesses)
  obtain now i where a: "a = (now, i)" by force
  from Cons.IH [OF record_access_learnt [OF Cons.prems assms(2), of i f now]] show ?case by (simp add: a record_all_def)
qed (simp add: record_all_def)

lemma learnt_new: "learnt cfg [] (mk_predictive_cache cfg)"
  by (auto simp: learnt_def mk_predictive_cache_def intro: seen_0)

lemma learntD:
  assumes "learnt cfg xs pc" "(key, q) \<in> set (detected_patterns pc)"
  shows "2 \<le> length (pat_sequence q) \<and> 0 < seen (pat_sequence q) xs \<and> occurrences q = of_nat (seen (pat_sequence q) xs)"
proof -
  obtain p where key: "key = pattern_to_string p" using assms by (force simp: learnt_def)
  have "map_of (detected_patterns pc) (pattern_to_string p) = Some q"
    using assms by (intro map_of_is_SomeI smap_ok_distinct) (simp_all add: learnt_def key)
  moreover have "case map_of (detected_patterns pc) (pattern_to_string p) of
          None \<Rightarrow> 2 \<le> length p \<and> length p \<le> unat (max_pattern_length cfg) \<longrightarrow> seen p xs = 0
        | Some q \<Rightarrow> 2 \<le> length p \<and> length p \<le> unat (max_pattern_length cfg) \<and> 0 < seen p xs
            \<and> pat_sequence q = p \<and> occurrences q = of_nat (seen p xs)"
    using assms(1) by (simp only: learnt_def)
  ultimately show ?thesis by auto
qed

lemma seen_bound: "p \<noteq> [] \<Longrightarrow> seen p xs \<le> length xs"
proof -
  assume "p \<noteq> []"
  then have "length xs + 1 - length p \<le> length xs" by (cases p) simp_all
  moreover have "seen p xs \<le> length xs + 1 - length p" unfolding seen_def by (metis length_filter_le length_upt minus_nat.diff_0)
  ultimately show ?thesis by linarith
qed

lemma confident_pattern_observed:
  assumes "learnt cfg xs pc" "length xs < 2 ^ 64" "(key, p) \<in> set (detected_patterns pc)" "pat_sequence p = i # j # js"
    "double_less 0 (confidence_threshold cfg)" "double_le (confidence_threshold cfg) (calculate_confidence f now cfg p)"
  shows "unat (min_pattern_confidence cfg) \<le> seen [i, j] xs"
proof -
  note p = learntD [OF assms(1,3)]
  have "\<not> occurrences p < min_pattern_confidence cfg"
    using assms(5,6) by (auto simp: calculate_confidence_def double_le_key double_less_def)
  then have "unat (min_pattern_confidence cfg) \<le> unat (occurrences p)" by (simp add: word_le_nat_alt [symmetric])
  moreover have "seen (pat_sequence p) xs < 2 ^ 64" using seen_bound [of "pat_sequence p" xs] assms(2,4) by simp
  then have "unat (occurrences p) = seen (pat_sequence p) xs" using p by (simp add: unat_of_nat)
  moreover have "seen (pat_sequence p) xs \<le> seen [i, j] xs" by (rule seen_prefix) (simp add: assms(4))
  ultimately show ?thesis by linarith
qed

lemma found_patterns:
  assumes "\<forall>xs. set (pe_order env xs) = set xs" "\<forall>xs. set (pe_sort_patterns env xs) = set xs" "pc_config pc = cfg"
    "\<forall>p. \<not> double_is_nan (calculate_confidence (pe_fp env) now cfg p)"
  shows "\<exists>matching. find_matching_patterns env now i pc = Some matching
    \<and> (\<forall>(p, c) \<in> set matching. (\<exists>key. (key, p) \<in> set (detected_patterns pc)) \<and> pat_sequence p \<noteq> [] \<and> hd (pat_sequence p) = i
         \<and> c = calculate_confidence (pe_fp env) now cfg p \<and> double_le (confidence_threshold cfg) c)"
proof -
  let ?conf = "calculate_confidence (pe_fp env) now cfg"
  let ?m = "map (\<lambda>(key, p). (p, ?conf p)) (filter (\<lambda>(key, p). pat_sequence p \<noteq> [] \<and> hd (pat_sequence p) = i
      \<and> double_le (confidence_threshold cfg) (?conf p)) (pe_order env (detected_patterns pc)))"
  have "orderable (map snd ?m)" using assms(4) by (auto simp: orderable_def list_ex_iff)
  then have "find_matching_patterns env now i pc = Some (pe_sort_patterns env ?m)"
    by (simp add: find_matching_patterns_def Let_def assms(3))
  moreover have "\<forall>(p, c) \<in> set (pe_sort_patterns env ?m). (\<exists>key. (key, p) \<in> set (detected_patterns pc)) \<and> pat_sequence p \<noteq> []
      \<and> hd (pat_sequence p) = i \<and> c = ?conf p \<and> double_le (confidence_threshold cfg) c"
    using assms(1,2) by auto
  ultimately show ?thesis by blast
qed

section \<open>Properties\<close>

text \<open>
  C28: Incremental counting is exact: after any sequence of accesses, the table of patterns, updated at each access only for the patterns
  that end there and inside a bounded window, holds exactly the patterns of length 2 up to the maximum that occur in the whole
  history, each with the number of its occurrences, and no pattern of another length.
\<close>

theorem patterns_counted_exactly:
  assumes "unat (max_pattern_length cfg) * 10 < 2 ^ 64"
  shows "map_option (\<lambda>q. (pat_sequence q, occurrences q))
      (map_of (detected_patterns (record_all f accesses (mk_predictive_cache cfg))) (pattern_to_string p)) =
    (if 2 \<le> length p \<and> length p \<le> unat (max_pattern_length cfg) \<and> seen p (map snd accesses) \<noteq> 0
     then Some (p, of_nat (seen p (map snd accesses))) else None)"
proof -
  let ?pc = "record_all f accesses (mk_predictive_cache cfg)"
  have "learnt cfg (map snd accesses) ?pc" using record_all_learnt [OF learnt_new assms(1), of accesses f] by simp
  then have "case map_of (detected_patterns ?pc) (pattern_to_string p) of
          None \<Rightarrow> 2 \<le> length p \<and> length p \<le> unat (max_pattern_length cfg) \<longrightarrow> seen p (map snd accesses) = 0
        | Some q \<Rightarrow> 2 \<le> length p \<and> length p \<le> unat (max_pattern_length cfg) \<and> 0 < seen p (map snd accesses)
            \<and> pat_sequence q = p \<and> occurrences q = of_nat (seen p (map snd accesses))"
    by (simp only: learnt_def)
  then show ?thesis by (auto split: option.splits)
qed

definition example_predictive_config :: predictive_config where
  "example_predictive_config = \<lparr>max_pattern_length = 3, min_pattern_confidence = 2, confidence_threshold = 1, max_prefetch_size = 5,
     enable_adaptive_prefetch = True, max_tracked_series = 10, integrate_with_cache_hierarchy = True\<rparr>"

theorem patterns_counted_exactly_witness:
  "map_option (\<lambda>q. (pat_sequence q, occurrences q))
      (map_of (detected_patterns (record_all example_fp [(0, 1), (1, 2), (2, 1), (3, 2), (4, 1)]
         (mk_predictive_cache example_predictive_config))) (pattern_to_string [1, 2])) = Some ([1, 2], 2)"
  using patterns_counted_exactly [of example_predictive_config example_fp "[(0, 1), (1, 2), (2, 1), (3, 2), (4, 1)]" "[1, 2]"]
  by (simp add: example_predictive_config_def seen_def)

text \<open>
  Only observed successors are predicted: with a threshold above zero, every predicted series followed the current one in the access history at
  least as often as the minimum asks, its confidence reaches the threshold, and no more series are predicted than
  may be prefetched. The prediction returns unless the library's arithmetic gives a NaN confidence.
\<close>

theorem predictions_were_observed:
  assumes "unat (max_pattern_length cfg) * 10 < 2 ^ 64" "length accesses < 2 ^ 64"
    "double_less 0 (confidence_threshold cfg)" "pc = record_all (pe_fp env) accesses (mk_predictive_cache cfg)"
    "\<forall>xs. set (pe_order env xs) = set xs" "\<forall>xs. set (pe_sort_patterns env xs) = set xs" "\<forall>xs. set (pe_sort_predictions env xs) = set xs"
    "\<forall>p. \<not> double_is_nan (calculate_confidence (pe_fp env) now cfg p)"
  shows "\<exists>ps. get_predictions env now i pc = Some ps \<and> length ps \<le> unat (max_prefetch_size cfg)
    \<and> (\<forall>(j, c) \<in> set ps. unat (min_pattern_confidence cfg) \<le> seen [i, j] (map snd accesses) \<and> double_le (confidence_threshold cfg) c)"
proof -
  have learnt: "learnt cfg (map snd accesses) pc" using record_all_learnt [OF learnt_new assms(1), of accesses "pe_fp env"] assms(4) by simp
  then have cfg: "pc_config pc = cfg" by (simp add: learnt_def)
  obtain matching where m: "find_matching_patterns env now i pc = Some matching"
      "\<forall>(p, c) \<in> set matching. (\<exists>key. (key, p) \<in> set (detected_patterns pc)) \<and> pat_sequence p \<noteq> [] \<and> hd (pat_sequence p) = i
         \<and> c = calculate_confidence (pe_fp env) now cfg p \<and> double_le (confidence_threshold cfg) c"
    using found_patterns [OF assms(5,6) cfg assms(8)] by blast
  let ?preds = "map (\<lambda>(p, c). (pat_sequence p ! 1, c))
      (filter (\<lambda>(p, c). double_le (confidence_threshold cfg) c \<and> 1 < length (pat_sequence p)) matching)"
  have "\<not> double_is_nan c" if "(p, c) \<in> set matching" for p c using m(2) that assms(8) by fastforce
  then have "orderable (map snd ?preds)" by (auto simp: orderable_def list_ex_iff)
  then have get: "get_predictions env now i pc = Some (take (unat (max_prefetch_size cfg)) (pe_sort_predictions env ?preds))"
    using m(1) by (simp add: get_predictions_def Let_def cfg)
  have observed: "unat (min_pattern_confidence cfg) \<le> seen [i, j] (map snd accesses) \<and> double_le (confidence_threshold cfg) c"
    if pred: "(j, c) \<in> set ?preds" for j c
  proof -
    obtain p where p: "(p, c) \<in> set matching" "j = pat_sequence p ! 1" "1 < length (pat_sequence p)" using pred by auto
    then obtain key where key: "(key, p) \<in> set (detected_patterns pc)" "hd (pat_sequence p) = i"
        "double_le (confidence_threshold cfg) (calculate_confidence (pe_fp env) now cfg p)"
        "c = calculate_confidence (pe_fp env) now cfg p"
      using m(2) by fastforce
    then obtain js where "pat_sequence p = i # j # js" using p by (cases "pat_sequence p"; cases "tl (pat_sequence p)") auto
    with confident_pattern_observed [OF learnt _ key(1) _ assms(3) key(3)] assms(2) key(3,4) show ?thesis by simp
  qed
  let ?ps = "take (unat (max_prefetch_size cfg)) (pe_sort_predictions env ?preds)"
  have sub: "set ?ps \<subseteq> set ?preds"
    using set_take_subset [of "unat (max_prefetch_size cfg)" "pe_sort_predictions env ?preds"] by (simp only: assms(7))
  have "\<forall>x \<in> set (take (unat (max_prefetch_size cfg)) (pe_sort_predictions env ?preds)).
      unat (min_pattern_confidence cfg) \<le> seen [i, fst x] (map snd accesses) \<and> double_le (confidence_threshold cfg) (snd x)"
  proof
    fix x
    assume x: "x \<in> set ?ps"
    show "unat (min_pattern_confidence cfg) \<le> seen [i, fst x] (map snd accesses) \<and> double_le (confidence_threshold cfg) (snd x)"
      by (rule observed) (simp only: prod.collapse subsetD [OF sub x])
  qed
  then show ?thesis using get by (simp add: case_prod_unfold)
qed

definition example_predictive_env :: predictive_env where
  "example_predictive_env = \<lparr>pe_fp = example_fp\<lparr>fp_mul := \<lambda>a b. double_one\<rparr>, pe_order = id, pe_sort_patterns = id, pe_sort_predictions = id\<rparr>"

lemma example_predictions:
  "get_predictions example_predictive_env 9 1 (record_all (pe_fp example_predictive_env) [(0, 1), (1, 2), (2, 1), (3, 2), (4, 1)]
     (mk_predictive_cache example_predictive_config)) = Some [(2, double_one), (2, double_one)]"
  by code_simp

theorem predictions_were_observed_witness:
  "get_predictions example_predictive_env 9 1 (record_all (pe_fp example_predictive_env) [(0, 1), (1, 2), (2, 1), (3, 2), (4, 1)]
     (mk_predictive_cache example_predictive_config)) = Some [(2, double_one), (2, double_one)] \<and> 2 \<le> seen [1, 2] [1, 2, 1, 2, 1]"
proof -
  have "\<not> double_is_nan (calculate_confidence (pe_fp example_predictive_env) 9 example_predictive_config p)" for p
    by (simp add: calculate_confidence_def example_predictive_env_def example_fp_def double_one_def double_is_nan_def Let_def)
  moreover have "double_less 0 (confidence_threshold example_predictive_config)" by code_simp
  ultimately show ?thesis
    using predictions_were_observed [of example_predictive_config "[(0, 1), (1, 2), (2, 1), (3, 2), (4, 1)]" _ example_predictive_env 9 1]
      example_predictions
    by (simp add: example_predictive_env_def) (simp add: example_predictive_config_def)
qed

text \<open>A low success rate shrinks a prefetch size of one to the largest number there is.\<close>

lemma adaptive_prefetch_size_wraps:
  "get_adaptive_prefetch_size example_fp (mk_predictive_cache (example_predictive_config\<lparr>max_prefetch_size := 1\<rparr>)) = - 1"
  by code_simp

end
