(* ===== verification/Histogram.thy ===== *)
theory Histogram
  imports Double_Order
begin

text \<open>
  Histograms (\<open>src/tsdb/histogram/histogram.cpp\<close>): the fixed-bucket histogram and the relative-error sketch
  \<open>DDSketch\<close>, with their buckets. Counts are 64-bit words and wrap, the arithmetic of doubles is the record of
  parameters of the evaluator, comparisons are computed. A thrown exception is the \<open>Inl\<close> of a sum; a conversion of a
  double outside the target type, which C++ leaves undefined, is no value. Relations pair the reachable
  histograms with the list of what was added to them, also through merges.
\<close>

section \<open>Buckets\<close>

datatype hist_exn = Invalid_argument string | Runtime_error string | Bad_optional_access | Out_of_range

record bucket =
  lower_bound_of :: double
  upper_bound_of :: double
  bucket_count :: uint64

definition is_infinite :: "double \<Rightarrow> bool" where
  "is_infinite v \<longleftrightarrow> v = double_inf \<or> v = double_neg_inf"

definition bucket_add :: "double \<Rightarrow> uint64 \<Rightarrow> bucket \<Rightarrow> bucket" where
  "bucket_add value n b =
     (if double_le (lower_bound_of b) value
         \<and> (double_less value (upper_bound_of b) \<or> double_eq value (upper_bound_of b) \<and> is_infinite (upper_bound_of b))
      then b\<lparr>bucket_count := bucket_count b + n\<rparr> else b)"

definition bucket_merge :: "bucket \<Rightarrow> bucket \<Rightarrow> hist_exn + bucket" where
  "bucket_merge other b =
     (if \<not> double_eq (lower_bound_of b) (lower_bound_of other) \<or> \<not> double_eq (upper_bound_of b) (upper_bound_of other)
      then Inl (Invalid_argument ''Cannot merge buckets with different boundaries'')
      else Inr (b\<lparr>bucket_count := bucket_count b + bucket_count other\<rparr>))"

definition bucket_clear :: "bucket \<Rightarrow> bucket" where
  "bucket_clear b = b\<lparr>bucket_count := 0\<rparr>"

section \<open>Fixed buckets\<close>

record fixed_histogram =
  fh_bounds :: "double list"
  fh_buckets :: "uint64 list"
  fh_count :: uint64
  fh_sum :: double
  fh_min :: "double option"
  fh_max :: "double option"

text \<open>\<open>std::is_sorted\<close>\<close>

fun is_sorted :: "double list \<Rightarrow> bool" where
  "is_sorted (a # b # bs) \<longleftrightarrow> \<not> double_less b a \<and> is_sorted (b # bs)"
| "is_sorted bs \<longleftrightarrow> True"

definition mk_fixed_histogram :: "double list \<Rightarrow> hist_exn + fixed_histogram" where
  "mk_fixed_histogram bounds =
     (if bounds = [] then Inl (Invalid_argument ''Bounds cannot be empty'')
      else if \<not> is_sorted bounds then Inl (Invalid_argument ''Bounds must be sorted'')
      else Inr \<lparr>fh_bounds = bounds, fh_buckets = replicate (length bounds + 1) 0, fh_count = 0, fh_sum = 0, fh_min = None, fh_max = None\<rparr>)"

definition bucket_index :: "double list \<Rightarrow> double \<Rightarrow> nat" where
  "bucket_index bounds value = length (takeWhile (\<lambda>b. double_le b value) bounds)"

definition smaller :: "double \<Rightarrow> double option \<Rightarrow> double option" where
  "smaller value m = (case m of None \<Rightarrow> Some value | Some x \<Rightarrow> if double_less value x then Some value else m)"

definition larger :: "double \<Rightarrow> double option \<Rightarrow> double option" where
  "larger value m = (case m of None \<Rightarrow> Some value | Some x \<Rightarrow> if double_less x value then Some value else m)"

definition merge_min :: "double option \<Rightarrow> double option \<Rightarrow> double option" where
  "merge_min other m =
     (case m of None \<Rightarrow> other | Some x \<Rightarrow> (case other of None \<Rightarrow> m | Some y \<Rightarrow> if double_less y x then other else m))"

definition merge_max :: "double option \<Rightarrow> double option \<Rightarrow> double option" where
  "merge_max other m =
     (case m of None \<Rightarrow> other | Some x \<Rightarrow> (case other of None \<Rightarrow> m | Some y \<Rightarrow> if double_less x y then other else m))"

definition fixed_add :: "fp \<Rightarrow> double \<Rightarrow> uint64 \<Rightarrow> fixed_histogram \<Rightarrow> hist_exn + fixed_histogram" where
  "fixed_add f value n h =
     (if double_is_nan value then Inl (Invalid_argument ''Cannot add NaN value'')
      else
        let i = bucket_index (fh_bounds h) value
        in Inr (h\<lparr>fh_buckets := (fh_buckets h)[i := fh_buckets h ! i + n], fh_count := fh_count h + n,
              fh_sum := fp_add f (fh_sum h) (fp_mul f value (fp_of_int f (uint n))),
              fh_min := smaller value (fh_min h), fh_max := larger value (fh_max h)\<rparr>))"

text \<open>\<open>operator==\<close> of vectors of doubles.\<close>

definition doubles_equal :: "double list \<Rightarrow> double list \<Rightarrow> bool" where
  "doubles_equal xs ys \<longleftrightarrow> list_all2 double_eq xs ys"

definition fixed_merge :: "fp \<Rightarrow> fixed_histogram \<Rightarrow> fixed_histogram \<Rightarrow> hist_exn + fixed_histogram" where
  "fixed_merge f other h =
     (if \<not> doubles_equal (fh_bounds h) (fh_bounds other) then Inl (Invalid_argument ''Incompatible bucket boundaries'')
      else Inr (h\<lparr>fh_buckets := map (\<lambda>i. fh_buckets h ! i + fh_buckets other ! i) [0..<length (fh_buckets h)],
             fh_count := fh_count h + fh_count other, fh_sum := fp_add f (fh_sum h) (fh_sum other),
             fh_min := merge_min (fh_min other) (fh_min h), fh_max := merge_max (fh_max other) (fh_max h)\<rparr>))"

definition fixed_clear :: "fixed_histogram \<Rightarrow> fixed_histogram" where
  "fixed_clear h = h\<lparr>fh_buckets := map (\<lambda>_. 0) (fh_buckets h), fh_count := 0, fh_sum := 0, fh_min := None, fh_max := None\<rparr>"

text \<open>The loop of \<open>quantile\<close>: the index at which it stops and the sum before it.\<close>

fun quantile_walk :: "fp \<Rightarrow> double \<Rightarrow> uint64 list \<Rightarrow> nat \<Rightarrow> double \<Rightarrow> nat \<times> double" where
  "quantile_walk f target [] i cumsum = (i, cumsum)"
| "quantile_walk f target (c # cs) i cumsum =
     (if double_less (fp_add f cumsum (fp_of_int f (uint c))) target
      then quantile_walk f target cs (i + 1) (fp_add f cumsum (fp_of_int f (uint c))) else (i, cumsum))"

definition optional_value :: "double option \<Rightarrow> hist_exn + double" where
  "optional_value m = (case m of None \<Rightarrow> Inl Bad_optional_access | Some v \<Rightarrow> Inr v)"

definition fixed_quantile :: "fp \<Rightarrow> double \<Rightarrow> fixed_histogram \<Rightarrow> hist_exn + double" where
  "fixed_quantile f q h =
     (if double_less q 0 \<or> double_less double_one q then Inl (Invalid_argument ''Invalid quantile'')
      else if fh_count h = 0 then Inl (Runtime_error ''Empty histogram'')
      else
        let target = fp_mul f q (fp_of_int f (uint (fh_count h)));
            (i, cumsum) = quantile_walk f target (fh_buckets h) 0 0
        in if i = 0 then optional_value (fh_min h)
           else if i = length (fh_buckets h) then optional_value (fh_max h)
           else
             (case (if i < length (fh_bounds h) then Inr (fh_bounds h ! i) else optional_value (fh_max h)) of
                Inl ex \<Rightarrow> Inl ex
              | Inr bucket_end \<Rightarrow>
                  let bucket_start = fh_bounds h ! (i - 1);
                      bucket_fraction = fp_div f (fp_sub f target cumsum) (fp_of_int f (uint (fh_buckets h ! i)))
                  in Inr (fp_add f bucket_start (fp_mul f (fp_sub f bucket_end bucket_start) bucket_fraction))))"

definition fixed_buckets :: "fixed_histogram \<Rightarrow> bucket list" where
  "fixed_buckets h =
     map (\<lambda>i. \<lparr>lower_bound_of = (if 0 < i then fh_bounds h ! (i - 1) else double_neg_inf),
               upper_bound_of = (if i < length (fh_bounds h) then fh_bounds h ! i else double_inf),
               bucket_count = fh_buckets h ! i\<rparr>) [0..<length (fh_buckets h)]"

definition fixed_relative_error :: "fp \<Rightarrow> fixed_histogram \<Rightarrow> double" where
  "fixed_relative_error f h =
     foldl (\<lambda>max_error i. std_max max_error
         (fp_div f (fp_sub f (fh_bounds h ! i) (fh_bounds h ! (i - 1))) (fh_bounds h ! (i - 1))))
       0 [1..<length (fh_bounds h)]"

section \<open>Relative-error sketch\<close>

record ddsketch =
  dd_alpha :: double
  dd_counts :: "(int \<times> uint64) list"
  dd_sums :: "(int \<times> double) list"
  dd_total_count :: uint64
  dd_total_sum :: double
  dd_min :: "double option"
  dd_max :: "double option"

definition mk_ddsketch :: "double \<Rightarrow> hist_exn + ddsketch" where
  "mk_ddsketch alpha =
     (if double_le alpha 0 \<or> double_le double_one alpha then Inl (Invalid_argument ''Alpha must be between 0 and 1'')
      else Inr \<lparr>dd_alpha = alpha, dd_counts = [], dd_sums = [], dd_total_count = 0, dd_total_sum = 0, dd_min = None, dd_max = None\<rparr>)"

definition dd_index :: "fp \<Rightarrow> double \<Rightarrow> double \<Rightarrow> int option" where
  "dd_index f alpha value =
     (case cast_double (- 2147483648) 2147483647
             (fp_math f ''floor'' (fp_div f (fp_math f ''log'' value) (fp_math f ''log'' (fp_add f double_one alpha)))) of
        Inl _ \<Rightarrow> None
      | Inr i \<Rightarrow> Some i)"

definition dd_add :: "fp \<Rightarrow> double \<Rightarrow> uint64 \<Rightarrow> ddsketch \<Rightarrow> (hist_exn + ddsketch) option" where
  "dd_add f value n s =
     (if double_is_nan value then Some (Inl (Invalid_argument ''Cannot add NaN value''))
      else if double_le value 0 then Some (Inl (Invalid_argument ''Cannot add non-positive value to DDSketch''))
      else
        (case dd_index f (dd_alpha s) value of
           None \<Rightarrow> None
         | Some i \<Rightarrow>
             let added = fp_mul f value (fp_of_int f (uint n))
             in Some (Inr (s\<lparr>dd_counts := smap_insert i (smap_at 0 (dd_counts s) i + n) (dd_counts s),
                     dd_sums := smap_insert i (fp_add f (smap_at 0 (dd_sums s) i) added) (dd_sums s),
                     dd_total_count := dd_total_count s + n, dd_total_sum := fp_add f (dd_total_sum s) added,
                     dd_min := smaller value (dd_min s), dd_max := larger value (dd_max s)\<rparr>))))"

fun dd_merge_counts :: "fp \<Rightarrow> (int \<times> double) list \<Rightarrow> (int \<times> uint64) list \<Rightarrow> ddsketch \<Rightarrow> hist_exn + ddsketch" where
  "dd_merge_counts f other_sums [] s = Inr s"
| "dd_merge_counts f other_sums ((i, n) # m) s =
     (case map_of other_sums i of
        None \<Rightarrow> Inl Out_of_range
      | Some x \<Rightarrow>
          dd_merge_counts f other_sums m
            (s\<lparr>dd_counts := smap_insert i (smap_at 0 (dd_counts s) i + n) (dd_counts s),
               dd_sums := smap_insert i (fp_add f (smap_at 0 (dd_sums s) i) x) (dd_sums s)\<rparr>))"

definition dd_merge :: "fp \<Rightarrow> ddsketch \<Rightarrow> ddsketch \<Rightarrow> hist_exn + ddsketch" where
  "dd_merge f other s =
     (if \<not> double_eq (dd_alpha s) (dd_alpha other)
      then Inl (Invalid_argument ''Cannot merge sketches with different alpha values'')
      else
        (case dd_merge_counts f (dd_sums other) (dd_counts other) s of
           Inl ex \<Rightarrow> Inl ex
         | Inr s1 \<Rightarrow>
             Inr (s1\<lparr>dd_total_count := dd_total_count s1 + dd_total_count other,
                     dd_total_sum := fp_add f (dd_total_sum s1) (dd_total_sum other),
                     dd_min := merge_min (dd_min other) (dd_min s1), dd_max := merge_max (dd_max other) (dd_max s1)\<rparr>)))"

text \<open>The loop of \<open>quantile\<close> over the ordered map: the entry at which it stops.\<close>

fun dd_walk :: "uint64 \<Rightarrow> (int \<times> uint64) list \<Rightarrow> uint64 \<Rightarrow> (int \<times> uint64 \<times> uint64) option" where
  "dd_walk target [] cumulative = None"
| "dd_walk target ((i, c) # m) cumulative =
     (if cumulative + c \<le> target then dd_walk target m (cumulative + c) else Some (i, c, cumulative))"

definition dd_quantile :: "fp \<Rightarrow> double \<Rightarrow> ddsketch \<Rightarrow> (hist_exn + double) option" where
  "dd_quantile f q s =
     (if double_less q 0 \<or> double_less double_one q then Some (Inl (Invalid_argument ''Invalid quantile''))
      else if dd_total_count s = 0 then Some (Inl (Runtime_error ''Empty histogram''))
      else if dd_total_count s = 1 then Some (optional_value (dd_min s))
      else
        (case cast_double 0 18446744073709551615 (fp_mul f q (fp_of_int f (uint (dd_total_count s - 1)))) of
           Inl _ \<Rightarrow> None
         | Inr t \<Rightarrow>
             (case dd_walk (word_of_int t) (dd_counts s) 0 of
                None \<Rightarrow> Some (optional_value (dd_max s))
              | Some (i, c, cumulative) \<Rightarrow>
                  if i = 2147483647 then None
                  else
                    let base = fp_add f double_one (dd_alpha s);
                        bucket_start = fp_pow f base (fp_of_int f i); bucket_end = fp_pow f base (fp_of_int f (i + 1));
                        bucket_fraction = fp_div f (fp_of_int f (uint (word_of_int t - cumulative))) (fp_of_int f (uint c))
                    in Some (Inr (fp_add f bucket_start (fp_mul f bucket_fraction (fp_sub f bucket_end bucket_start)))))))"

definition dd_buckets :: "fp \<Rightarrow> ddsketch \<Rightarrow> bucket list option" where
  "dd_buckets f s =
     (if list_ex (\<lambda>(i, c). i = 2147483647) (dd_counts s) then None
      else Some (map (\<lambda>(i, c). \<lparr>lower_bound_of = fp_pow f (fp_add f double_one (dd_alpha s)) (fp_of_int f i),
             upper_bound_of = fp_pow f (fp_add f double_one (dd_alpha s)) (fp_of_int f (i + 1)), bucket_count = c\<rparr>) (dd_counts s)))"

definition dd_clear :: "ddsketch \<Rightarrow> ddsketch" where
  "dd_clear s = s\<lparr>dd_counts := [], dd_sums := [], dd_total_count := 0, dd_total_sum := 0, dd_min := None, dd_max := None\<rparr>"

section \<open>What was added\<close>

text \<open>How many of the added values, with their multiplicity, have a property.\<close>

definition weight :: "(double \<Rightarrow> bool) \<Rightarrow> (double \<times> uint64) list \<Rightarrow> nat" where
  "weight P xs = sum_list (map (\<lambda>x. unat (snd x)) (filter (\<lambda>x. P (fst x)) xs))"

lemma weight_simps [simp]:
  "weight P [] = 0" "weight P (x # xs) = (if P (fst x) then unat (snd x) else 0) + weight P xs"
  "weight P (xs @ ys) = weight P xs + weight P ys"
  by (simp_all add: weight_def)

lemma word_sum_list: "of_nat (sum_list (map g is)) = sum_list (map (\<lambda>i. of_nat (g i) :: uint64) is)"
  by (induction "is") simp_all

lemma weight_cong: "(\<And>v c. (v, c) \<in> set xs \<Longrightarrow> P v = Q v) \<Longrightarrow> weight P xs = weight Q xs"
proof -
  assume eq: "\<And>v c. (v, c) \<in> set xs \<Longrightarrow> P v = Q v"
  have "filter (\<lambda>x. P (fst x)) xs = filter (\<lambda>x. Q (fst x)) xs" using eq by (intro filter_cong) auto
  then show ?thesis by (simp add: weight_def)
qed

lemma weight_mono: "(\<And>v. P v \<Longrightarrow> Q v) \<Longrightarrow> weight P xs \<le> weight Q xs"
  by (induction xs) auto

lemma weight_partition:
  assumes "\<forall>(v, c) \<in> set xs. k v < n"
  shows "sum_list (map (\<lambda>i. weight (\<lambda>v. k v = i) xs) [0..<n]) = weight (\<lambda>_. True) xs"
  using assms
proof (induction xs)
  case (Cons x xs)
  have "sum_list (map (\<lambda>i. if k (fst x) = i then unat (snd x) else 0) [0..<n]) = unat (snd x)"
    using Cons.prems by (simp add: interv_sum_list_conv_sum_set_nat split: prod.splits)
  with Cons show ?case by (simp add: sum_list_addf)
qed simp

definition least_of :: "(double \<times> uint64) list \<Rightarrow> double option \<Rightarrow> bool" where
  "least_of xs m \<longleftrightarrow> (case m of None \<Rightarrow> xs = [] | Some x \<Rightarrow> x \<in> fst ` set xs \<and> (\<forall>y \<in> set xs. double_le x (fst y)))"

definition greatest_of :: "(double \<times> uint64) list \<Rightarrow> double option \<Rightarrow> bool" where
  "greatest_of xs m \<longleftrightarrow> (case m of None \<Rightarrow> xs = [] | Some x \<Rightarrow> x \<in> fst ` set xs \<and> (\<forall>y \<in> set xs. double_le (fst y) x))"

lemma extremes_new [simp]: "least_of [] None" "greatest_of [] None"
  by (simp_all add: least_of_def greatest_of_def)

lemma extremes_add:
  assumes "\<not> double_is_nan v"
  shows "least_of xs m \<Longrightarrow> least_of (xs @ [(v, c)]) (smaller v m)" "greatest_of xs m \<Longrightarrow> greatest_of (xs @ [(v, c)]) (larger v m)"
  using assms by (cases m; fastforce simp: least_of_def greatest_of_def smaller_def larger_def double_le_key double_less_def)+

lemma extremes_merge:
  "\<lbrakk>least_of xs m; least_of ys m'\<rbrakk> \<Longrightarrow> least_of (xs @ ys) (merge_min m' m)"
  "\<lbrakk>greatest_of xs m; greatest_of ys m'\<rbrakk> \<Longrightarrow> greatest_of (xs @ ys) (merge_max m' m)"
  by (cases m; cases m'; fastforce simp: least_of_def greatest_of_def merge_min_def merge_max_def double_le_key double_less_def)+

section \<open>Fixed buckets hold what was added\<close>

inductive fixed_reach :: "fp \<Rightarrow> fixed_histogram \<Rightarrow> (double \<times> uint64) list \<Rightarrow> bool" for f where
  fixed_new: "mk_fixed_histogram bounds = Inr h \<Longrightarrow> fixed_reach f h []"
| fixed_added: "\<lbrakk>fixed_reach f h xs; fixed_add f v c h = Inr h'\<rbrakk> \<Longrightarrow> fixed_reach f h' (xs @ [(v, c)])"
| fixed_merged: "\<lbrakk>fixed_reach f h xs; fixed_reach f g ys; fixed_merge f g h = Inr h'\<rbrakk> \<Longrightarrow> fixed_reach f h' (xs @ ys)"
| fixed_cleared: "fixed_reach f h xs \<Longrightarrow> fixed_reach f (fixed_clear h) []"

definition fixed_ok :: "fixed_histogram \<Rightarrow> (double \<times> uint64) list \<Rightarrow> bool" where
  "fixed_ok h xs \<longleftrightarrow> fh_bounds h \<noteq> [] \<and> is_sorted (fh_bounds h) \<and> length (fh_buckets h) = length (fh_bounds h) + 1
     \<and> (\<forall>i < length (fh_buckets h). fh_buckets h ! i = of_nat (weight (\<lambda>v. bucket_index (fh_bounds h) v = i) xs))
     \<and> fh_count h = of_nat (weight (\<lambda>_. True) xs) \<and> least_of xs (fh_min h) \<and> greatest_of xs (fh_max h)"

lemma bucket_index_bound: "bucket_index bs v \<le> length bs"
  by (simp add: bucket_index_def length_takeWhile_le)

lemma bucket_index_equal: "doubles_equal bs bs' \<Longrightarrow> bucket_index bs v = bucket_index bs' v"
  unfolding doubles_equal_def
  by (induction rule: list_all2_induct) (auto simp: bucket_index_def double_eq_key double_le_key)

lemma fixed_add_ok:
  assumes "fixed_ok h xs" "fixed_add f v c h = Inr h'"
  shows "fixed_ok h' (xs @ [(v, c)])"
proof -
  have nan: "\<not> double_is_nan v" using assms(2) by (auto simp: fixed_add_def split: if_splits)
  show ?thesis using assms nan bucket_index_bound [of "fh_bounds h" v]
    by (auto simp: fixed_ok_def fixed_add_def Let_def nth_list_update intro: extremes_add)
qed

lemma fixed_merge_ok:
  assumes "fixed_ok h xs" "fixed_ok g ys" "fixed_merge f g h = Inr h'"
  shows "fixed_ok h' (xs @ ys)"
proof -
  have eq: "doubles_equal (fh_bounds h) (fh_bounds g)" using assms(3) by (auto simp: fixed_merge_def split: if_splits)
  then have "length (fh_bounds g) = length (fh_bounds h)" by (simp add: doubles_equal_def list_all2_lengthD)
  with assms bucket_index_equal [OF eq] eq show ?thesis
    by (auto simp: fixed_ok_def fixed_merge_def simp del: upt_Suc intro: extremes_merge)
qed

lemma fixed_reach_ok: "fixed_reach f h xs \<Longrightarrow> fixed_ok h xs"
proof (induction rule: fixed_reach.induct)
  case (fixed_new bounds h)
  then show ?case by (auto simp: mk_fixed_histogram_def fixed_ok_def nth_Cons split: if_splits nat.split)
next
  case (fixed_cleared h xs)
  then show ?case by (auto simp: fixed_clear_def fixed_ok_def)
qed (auto intro: fixed_add_ok fixed_merge_ok)

lemma fixed_reach_not_nan: "fixed_reach f h xs \<Longrightarrow> \<forall>x \<in> set xs. \<not> double_is_nan (fst x)"
  by (induction rule: fixed_reach.induct) (auto simp: fixed_add_def split: if_splits)

lemma is_sorted_nth:
  assumes "is_sorted bs" "\<forall>b \<in> set bs. \<not> double_is_nan b" "i \<le> j" "j < length bs"
  shows "double_key (bs ! i) \<le> double_key (bs ! j)"
proof -
  have "sorted (map double_key bs)"
    using assms(1,2)
  proof (induction bs rule: is_sorted.induct)
    case (1 a b bs)
    then have "double_key a \<le> double_key b" by (auto simp: double_less_def)
    with 1 show ?case by auto
  qed simp_all
  from sorted_nth_mono [OF this, of i j] assms(3,4) show ?thesis by simp
qed

text \<open>The bucket of a value is the one whose bounds enclose it.\<close>

lemma bucket_index_iff:
  assumes "is_sorted bs" "\<forall>b \<in> set bs. \<not> double_is_nan b" "\<not> double_is_nan v" "i \<le> length bs"
  shows "bucket_index bs v = i \<longleftrightarrow>
    (0 < i \<longrightarrow> double_le (bs ! (i - 1)) v) \<and> (i < length bs \<longrightarrow> double_less v (bs ! i))"
proof -
  let ?k = "bucket_index bs v"
  have below: "double_le (bs ! j) v" if "j < ?k" for j
    using that set_takeWhileD [of "bs ! j" "\<lambda>b. double_le b v" bs] takeWhile_nth [of j "\<lambda>b. double_le b v" bs]
    by (metis bucket_index_def nth_mem)
  have at: "\<not> double_le (bs ! ?k) v" if "?k < length bs"
    using that nth_length_takeWhile [of "\<lambda>b. double_le b v" bs] by (simp add: bucket_index_def)
  have less: "double_less v b \<longleftrightarrow> \<not> double_le b v" if "b \<in> set bs" for b
    using that assms(2,3) by (auto simp: double_less_def double_le_key)
  show ?thesis
  proof
    assume "?k = i"
    with below [of "i - 1"] at less assms(4) show "(0 < i \<longrightarrow> double_le (bs ! (i - 1)) v) \<and> (i < length bs \<longrightarrow> double_less v (bs ! i))"
      by auto
  next
    assume enclosed: "(0 < i \<longrightarrow> double_le (bs ! (i - 1)) v) \<and> (i < length bs \<longrightarrow> double_less v (bs ! i))"
    have "\<not> ?k < i"
    proof
      assume "?k < i"
      then have "double_key (bs ! ?k) \<le> double_key (bs ! (i - 1))" using is_sorted_nth [OF assms(1,2), of ?k "i - 1"] assms(4) by simp
      with enclosed at \<open>?k < i\<close> assms(2-4) show False by (auto simp: double_le_key)
    qed
    moreover have "\<not> i < ?k"
      using below [of i] enclosed less [of "bs ! i"] bucket_index_bound [of bs v] by auto
    ultimately show "?k = i" by simp
  qed
qed

section \<open>The sketch holds what was added\<close>

inductive dd_reach :: "fp \<Rightarrow> ddsketch \<Rightarrow> (double \<times> uint64) list \<Rightarrow> bool" for f where
  dd_new: "mk_ddsketch alpha = Inr s \<Longrightarrow> dd_reach f s []"
| dd_added: "\<lbrakk>dd_reach f s xs; dd_add f v c s = Some (Inr s')\<rbrakk> \<Longrightarrow> dd_reach f s' (xs @ [(v, c)])"
| dd_merged: "\<lbrakk>dd_reach f s xs; dd_reach f t ys; dd_merge f t s = Inr s'\<rbrakk> \<Longrightarrow> dd_reach f s' (xs @ ys)"
| dd_cleared: "dd_reach f s xs \<Longrightarrow> dd_reach f (dd_clear s) []"

definition indices :: "(int \<times> 'v) list \<Rightarrow> int set" where
  "indices m = fst ` set m"

definition dd_ok :: "fp \<Rightarrow> ddsketch \<Rightarrow> (double \<times> uint64) list \<Rightarrow> bool" where
  "dd_ok f s xs \<longleftrightarrow> \<not> double_is_zero (dd_alpha s) \<and> smap_ok (dd_counts s) \<and> indices (dd_counts s) = indices (dd_sums s)
     \<and> (\<forall>i. smap_at 0 (dd_counts s) i = of_nat (weight (\<lambda>v. dd_index f (dd_alpha s) v = Some i) xs))
     \<and> (\<forall>x \<in> set xs. \<exists>i \<in> indices (dd_counts s). dd_index f (dd_alpha s) (fst x) = Some i)
     \<and> dd_total_count s = of_nat (weight (\<lambda>_. True) xs) \<and> least_of xs (dd_min s) \<and> greatest_of xs (dd_max s)"

lemma indices_simps [simp]: "indices [] = {}" "indices ((i, v) # m) = insert i (indices m)" "indices (smap_insert i v m) = insert i (indices m)"
  by (simp_all add: indices_def)

lemma smap_at_absent: "i \<notin> indices m \<Longrightarrow> smap_at d m i = d"
  by (simp add: smap_at_def indices_def map_of_eq_None_iff [symmetric] split: option.split)

lemma dd_add_ok:
  assumes "dd_ok f s xs" "dd_add f v c s = Some (Inr s')"
  shows "dd_ok f s' (xs @ [(v, c)])"
proof -
  have nan: "\<not> double_is_nan v" using assms(2) by (auto simp: dd_add_def split: if_splits)
  from assms(2) obtain i where "dd_index f (dd_alpha s) v = Some i"
    by (auto simp: dd_add_def split: if_splits option.splits)
  with assms nan show ?thesis
    by (auto simp: dd_ok_def dd_add_def Let_def smap_ok_insert smap_at_insert split: if_splits intro: extremes_add)
qed

text \<open>Adding the counts of another sketch never misses a sum.\<close>

lemma dd_merge_counts_ok:
  assumes "indices m \<subseteq> indices sums" "smap_ok m" "smap_ok (dd_counts s)" "indices (dd_counts s) = indices (dd_sums s)"
  shows "\<exists>s'. dd_merge_counts f sums m s = Inr s' \<and> smap_ok (dd_counts s') \<and> indices (dd_counts s') = indices (dd_counts s) \<union> indices m
    \<and> indices (dd_sums s') = indices (dd_counts s') \<and> (\<forall>i. smap_at 0 (dd_counts s') i = smap_at 0 (dd_counts s) i + smap_at 0 m i)
    \<and> dd_alpha s' = dd_alpha s \<and> dd_total_count s' = dd_total_count s \<and> dd_min s' = dd_min s \<and> dd_max s' = dd_max s"
  using assms
proof (induction m arbitrary: s)
  case (Cons a m)
  obtain i c where a: "a = (i, c)" by force
  obtain x where x: "map_of sums i = Some x"
    using Cons.prems(1) by (cases "map_of sums i") (auto simp: a indices_def map_of_eq_None_iff)
  let ?s = "s\<lparr>dd_counts := smap_insert i (smap_at 0 (dd_counts s) i + c) (dd_counts s),
      dd_sums := smap_insert i (fp_add f (smap_at 0 (dd_sums s) i) x) (dd_sums s)\<rparr>"
  have m: "indices m \<subseteq> indices sums" "smap_ok m" "i \<notin> indices m" using Cons.prems(1,2) by (auto simp: a smap_ok_Cons indices_def)
  obtain s' where s': "dd_merge_counts f sums m ?s = Inr s'" "smap_ok (dd_counts s')"
      "indices (dd_counts s') = insert i (indices (dd_counts s)) \<union> indices m" "indices (dd_sums s') = indices (dd_counts s')"
      "\<forall>j. smap_at 0 (dd_counts s') j = smap_at 0 (dd_counts ?s) j + smap_at 0 m j"
      "dd_alpha s' = dd_alpha s" "dd_total_count s' = dd_total_count s" "dd_min s' = dd_min s" "dd_max s' = dd_max s"
    using Cons.IH [of ?s] m(1,2) Cons.prems(3,4) by (auto simp: smap_ok_insert)
  have "smap_at 0 (dd_counts s') j = smap_at 0 (dd_counts s) j + smap_at 0 (a # m) j" for j
    using s'(5) smap_at_absent [OF m(3), of 0] by (auto simp: smap_at_insert a) (simp_all add: smap_at_def)
  then show ?case using s' x by (auto simp: a)
qed (auto simp: smap_at_def)

lemma dd_merge_ok:
  assumes "dd_ok f s xs" "dd_ok f t ys" "double_eq (dd_alpha s) (dd_alpha t)"
  shows "\<exists>s'. dd_merge f t s = Inr s' \<and> dd_ok f s' (xs @ ys)"
proof -
  have alpha: "dd_alpha t = dd_alpha s"
    using assms(1,3) double_key_inj [of "dd_alpha s" "dd_alpha t"] by (simp add: dd_ok_def double_is_zero_key double_eq_key)
  have "indices (dd_counts t) \<subseteq> indices (dd_sums t)" using assms(2) by (simp add: dd_ok_def)
  then obtain s1 where s1: "dd_merge_counts f (dd_sums t) (dd_counts t) s = Inr s1" "smap_ok (dd_counts s1)"
      "indices (dd_counts s1) = indices (dd_counts s) \<union> indices (dd_counts t)" "indices (dd_sums s1) = indices (dd_counts s1)"
      "\<forall>i. smap_at 0 (dd_counts s1) i = smap_at 0 (dd_counts s) i + smap_at 0 (dd_counts t) i"
      "dd_alpha s1 = dd_alpha s" "dd_total_count s1 = dd_total_count s" "dd_min s1 = dd_min s" "dd_max s1 = dd_max s"
    using dd_merge_counts_ok [of "dd_counts t" "dd_sums t" s f] assms(1,2) by (auto simp: dd_ok_def)
  have "\<forall>x \<in> set (xs @ ys). \<exists>i \<in> indices (dd_counts s1). dd_index f (dd_alpha s1) (fst x) = Some i"
    using assms(1,2) s1(3,6) alpha by (fastforce simp: dd_ok_def)
  moreover have "double_eq (dd_alpha s) (dd_alpha s)" using assms(3) by (simp add: alpha)
  ultimately show ?thesis using s1 assms(1,2) alpha by (auto simp: dd_merge_def dd_ok_def intro: extremes_merge)
qed

lemma dd_reach_ok: "dd_reach f s xs \<Longrightarrow> dd_ok f s xs"
proof (induction rule: dd_reach.induct)
  case (dd_new alpha s)
  then show ?case using zero_not_nan [of alpha]
    by (auto simp: mk_ddsketch_def dd_ok_def smap_at_def double_le_key unit_keys split: if_splits) (simp_all add: double_is_zero_key)
next
  case (dd_merged s xs t ys s')
  then have "double_eq (dd_alpha s) (dd_alpha t)" by (auto simp: dd_merge_def split: if_splits)
  from dd_merge_ok [OF dd_merged.IH this] dd_merged.hyps(3) show ?case by simp
next
  case (dd_cleared s xs)
  then show ?case by (auto simp: dd_clear_def dd_ok_def smap_at_def)
qed (auto intro: dd_add_ok)

lemma dd_merge_total:
  assumes "dd_reach f s xs" "dd_reach f t ys" "double_eq (dd_alpha s) (dd_alpha t)"
  shows "\<exists>s'. dd_merge f t s = Inr s'"
  using dd_merge_ok [OF dd_reach_ok [OF assms(1)] dd_reach_ok [OF assms(2)] assms(3)] by blast

section \<open>Ranks in the sketch\<close>

lemma dd_walk_finds:
  assumes "unat cum + sum_list (map (\<lambda>x. unat (snd x)) m) < 2 ^ 64" "unat cum \<le> unat t"
    "unat t < unat cum + sum_list (map (\<lambda>x. unat (snd x)) m)"
  shows "\<exists>pre i c post cum'. m = pre @ (i, c) # post \<and> dd_walk t m cum = Some (i, c, cum')
    \<and> unat cum' = unat cum + sum_list (map (\<lambda>x. unat (snd x)) pre) \<and> unat cum' \<le> unat t
    \<and> unat t < unat cum + sum_list (map (\<lambda>x. unat (snd x)) pre) + unat c"
  using assms
proof (induction m arbitrary: cum)
  case (Cons a m)
  obtain i c where a: "a = (i, c)" by force
  have sum: "unat (cum + c) = unat cum + unat c" using Cons.prems(1) by (simp add: a unat_word_ariths)
  show ?case
  proof (cases "cum + c \<le> t")
    case True
    then have "unat cum + unat c \<le> unat t" using sum by (simp add: word_le_nat_alt)
    with Cons.IH [of "cum + c"] Cons.prems sum obtain pre j d post cum' where
      "m = pre @ (j, d) # post" "dd_walk t m (cum + c) = Some (j, d, cum')"
      "unat cum' = unat cum + unat c + sum_list (map (\<lambda>x. unat (snd x)) pre)" "unat cum' \<le> unat t"
      "unat t < unat cum + unat c + sum_list (map (\<lambda>x. unat (snd x)) pre) + unat d" by (auto simp: a add.assoc)
    then show ?thesis using True by (intro exI [of _ "a # pre"] exI [of _ j] exI [of _ d] exI [of _ post] exI [of _ cum']) (simp add: a)
  next
    case False
    then have "unat t < unat cum + unat c" using sum by (simp add: word_le_nat_alt not_le)
    with False Cons.prems(2) show ?thesis by (intro exI [of _ "[]"] exI [of _ i] exI [of _ c] exI [of _ m] exI [of _ cum]) (simp add: a)
  qed
qed simp

lemma weight_disjoint: "(\<And>v. \<not> (P v \<and> Q v)) \<Longrightarrow> weight (\<lambda>v. P v \<or> Q v) xs = weight P xs + weight Q xs"
  by (induction xs) auto

lemma weight_indices:
  assumes "distinct js"
  shows "weight (\<lambda>v. \<exists>j \<in> set js. k v = Some j) xs = sum_list (map (\<lambda>j. weight (\<lambda>v. k v = Some j) xs) js)"
  using assms
proof (induction js)
  case Nil
  show ?case by (induction xs) simp_all
next
  case (Cons j js)
  have "weight (\<lambda>v. k v = Some j \<or> (\<exists>i \<in> set js. k v = Some i)) xs =
      weight (\<lambda>v. k v = Some j) xs + weight (\<lambda>v. \<exists>i \<in> set js. k v = Some i) xs"
    using Cons.prems by (intro weight_disjoint) auto
  with Cons show ?case by simp
qed

text \<open>The counts of the entries up to a point of the map are the values with an index up to there.\<close>

lemma count_of:
  assumes "dd_ok f s xs" "weight (\<lambda>_. True) xs < 2 ^ 64" "x \<in> set (dd_counts s)"
  shows "unat (snd x) = weight (\<lambda>v. dd_index f (dd_alpha s) v = Some (fst x)) xs"
proof -
  have "distinct (map fst (dd_counts s))" using assms(1) by (simp add: dd_ok_def smap_ok_distinct)
  then have "map_of (dd_counts s) (fst x) = Some (snd x)" using assms(3) by (intro map_of_is_SomeI) auto
  moreover have "smap_at 0 (dd_counts s) (fst x) = of_nat (weight (\<lambda>v. dd_index f (dd_alpha s) v = Some (fst x)) xs)"
    using assms(1) by (simp add: dd_ok_def)
  ultimately have "snd x = of_nat (weight (\<lambda>v. dd_index f (dd_alpha s) v = Some (fst x)) xs)" by (simp add: smap_at_def)
  moreover have "weight (\<lambda>v. dd_index f (dd_alpha s) v = Some (fst x)) xs \<le> weight (\<lambda>_. True) xs" by (rule weight_mono) simp
  ultimately show ?thesis using assms(2) by (simp add: unat_of_nat)
qed

lemma counts_below:
  assumes "dd_ok f s xs" "weight (\<lambda>_. True) xs < 2 ^ 64" "dd_counts s = pre @ post"
  shows "sum_list (map (\<lambda>x. unat (snd x)) pre) = weight (\<lambda>v. \<exists>j \<in> set (map fst pre). dd_index f (dd_alpha s) v = Some j) xs"
proof -
  have "unat (snd x) = weight (\<lambda>v. dd_index f (dd_alpha s) v = Some (fst x)) xs" if "x \<in> set pre" for x
    using count_of [OF assms(1,2), of x] that assms(3) by simp
  then have "map (\<lambda>x. unat (snd x)) pre = map (\<lambda>j. weight (\<lambda>v. dd_index f (dd_alpha s) v = Some j) xs) (map fst pre)" by simp
  moreover have "distinct (map fst pre)" using smap_ok_distinct [of "dd_counts s"] assms(1,3) by (simp add: dd_ok_def)
  ultimately show ?thesis by (simp only: weight_indices)
qed

lemma dd_known:
  assumes "dd_ok f s xs" "(v, n) \<in> set xs"
  shows "\<exists>j \<in> set (map fst (dd_counts s)). dd_index f (dd_alpha s) v = Some j"
proof -
  have "\<exists>i \<in> indices (dd_counts s). dd_index f (dd_alpha s) (fst (v, n)) = Some i" using assms unfolding dd_ok_def by blast
  then show ?thesis by (simp add: indices_def)
qed

lemma weight_all_counts:
  assumes "dd_ok f s xs" "weight (\<lambda>_. True) xs < 2 ^ 64"
  shows "sum_list (map (\<lambda>x. unat (snd x)) (dd_counts s)) = weight (\<lambda>_. True) xs"
proof -
  have "weight (\<lambda>v. \<exists>j \<in> set (map fst (dd_counts s)). dd_index f (dd_alpha s) v = Some j) xs = weight (\<lambda>_. True) xs"
    using dd_known [OF assms(1)] by (intro weight_cong) blast
  then show ?thesis using counts_below [OF assms, of "dd_counts s" "[]"] by simp
qed

lemma smap_split:
  assumes "smap_ok (pre @ (i, c) # post)" "k \<in> set (map fst (pre @ (i, c) # post))"
  shows "k < i \<longleftrightarrow> k \<in> set (map fst pre)" "k \<le> i \<longleftrightarrow> k \<in> set (map fst (pre @ [(i, c)]))"
proof -
  have order: "(k < i \<longleftrightarrow> k \<in> A) \<and> (k \<le> i \<longleftrightarrow> k \<in> A \<union> {i})" if "k \<in> A \<union> {i} \<union> B" "\<forall>a \<in> A. a < i" "\<forall>b \<in> B. i < b" for A B
    using that by auto
  have "k \<in> set (map fst pre) \<union> {i} \<union> set (map fst post)" using assms(2) by (simp only: map_append list.map set_append list.set fst_conv) blast
  moreover have "\<forall>a \<in> set (map fst pre). a < i" "\<forall>b \<in> set (map fst post). i < b"
    using assms(1) by (simp_all add: smap_ok_append smap_ok_Cons)
  ultimately show "k < i \<longleftrightarrow> k \<in> set (map fst pre)" "k \<le> i \<longleftrightarrow> k \<in> set (map fst (pre @ [(i, c)]))"
    using order [of "set (map fst pre)" "set (map fst post)"] by (simp_all only: map_append list.map set_append list.set fst_conv)
qed

lemma counts_at_rank:
  assumes "dd_ok f s xs" "weight (\<lambda>_. True) xs < 2 ^ 64" "unat t < weight (\<lambda>_. True) xs"
  shows "\<exists>i c cum. dd_walk t (dd_counts s) 0 = Some (i, c, cum)
    \<and> unat cum = weight (\<lambda>v. \<exists>j < i. dd_index f (dd_alpha s) v = Some j) xs \<and> unat cum \<le> unat t
    \<and> unat c = weight (\<lambda>v. dd_index f (dd_alpha s) v = Some i) xs
    \<and> unat t < weight (\<lambda>v. \<exists>j \<le> i. dd_index f (dd_alpha s) v = Some j) xs"
proof -
  let ?idx = "dd_index f (dd_alpha s)"
  obtain pre i c post cum where w: "dd_counts s = pre @ (i, c) # post" "dd_walk t (dd_counts s) 0 = Some (i, c, cum)"
      "unat cum = sum_list (map (\<lambda>x. unat (snd x)) pre)" "unat cum \<le> unat t" "unat t < sum_list (map (\<lambda>x. unat (snd x)) pre) + unat c"
    using dd_walk_finds [of 0 "dd_counts s" t] assms(2,3) weight_all_counts [OF assms(1,2)] by auto
  have sorted: "smap_ok (pre @ (i, c) # post)" using assms(1) w(1) by (simp add: dd_ok_def)
  have same: "((\<exists>j < i. ?idx v = Some j) \<longleftrightarrow> (\<exists>j \<in> set (map fst pre). ?idx v = Some j))
      \<and> ((\<exists>j \<le> i. ?idx v = Some j) \<longleftrightarrow> (\<exists>j \<in> set (map fst (pre @ [(i, c)])). ?idx v = Some j))" if mem: "(v, n) \<in> set xs" for v n
  proof -
    obtain k where "k \<in> set (map fst (pre @ (i, c) # post))" "?idx v = Some k" using dd_known [OF assms(1) mem] by (auto simp: w(1))
    then show ?thesis using smap_split [OF sorted, of k] by (simp del: map_append set_map)
  qed
  have "weight (\<lambda>v. \<exists>j < i. ?idx v = Some j) xs = weight (\<lambda>v. \<exists>j \<in> set (map fst pre). ?idx v = Some j) xs"
    using same by (intro weight_cong) blast
  moreover have "weight (\<lambda>v. \<exists>j \<le> i. ?idx v = Some j) xs = weight (\<lambda>v. \<exists>j \<in> set (map fst (pre @ [(i, c)])). ?idx v = Some j) xs"
    using same by (intro weight_cong) blast
  ultimately show ?thesis
    using w counts_below [OF assms(1,2) w(1)] counts_below [OF assms(1,2), of "pre @ [(i, c)]" post]
      count_of [OF assms(1,2), of "(i, c)"] by simp
qed

section \<open>Properties\<close>

text \<open>
  C29: A fixed-bucket histogram holds what was added to it, whether value by value or by merging other histograms: with bounds that are no NaN,
  the count of each bucket is the number of added values that its bounds enclose, the total is
  the sum of the bucket counts, all modulo \<open>2^64\<close>, and minimum and maximum are attained and bound all values.
\<close>

theorem fixed_histogram_exact:
  assumes "fixed_reach f h xs" "\<forall>b \<in> set (fh_bounds h). \<not> double_is_nan b"
  shows "map bucket_count (fixed_buckets h) =
      map (\<lambda>i. of_nat (weight (\<lambda>v. (0 < i \<longrightarrow> double_le (fh_bounds h ! (i - 1)) v) \<and> (i < length (fh_bounds h) \<longrightarrow> double_less v (fh_bounds h ! i))) xs))
        [0..<length (fh_bounds h) + 1]
    \<and> fh_count h = sum_list (map bucket_count (fixed_buckets h)) \<and> least_of xs (fh_min h) \<and> greatest_of xs (fh_max h)"
proof -
  have ok: "fixed_ok h xs" and nan: "\<forall>x \<in> set xs. \<not> double_is_nan (fst x)"
    using fixed_reach_ok [OF assms(1)] fixed_reach_not_nan [OF assms(1)] by simp_all
  let ?n = "length (fh_bounds h) + 1" and ?w = "\<lambda>i. weight (\<lambda>v. bucket_index (fh_bounds h) v = i) xs"
  have counts: "map bucket_count (fixed_buckets h) = map (\<lambda>i. of_nat (?w i)) [0..<?n]"
    using ok by (auto simp: fixed_buckets_def fixed_ok_def simp del: upt_Suc)
  have "sum_list (map ?w [0..<?n]) = weight (\<lambda>_. True) xs"
    using bucket_index_bound by (intro weight_partition) (auto simp: less_Suc_eq_le)
  then have "fh_count h = sum_list (map bucket_count (fixed_buckets h))"
    using ok by (simp only: counts fixed_ok_def) (simp add: word_sum_list [symmetric] del: upt_Suc)
  moreover have "?w i = weight (\<lambda>v. (0 < i \<longrightarrow> double_le (fh_bounds h ! (i - 1)) v) \<and> (i < length (fh_bounds h) \<longrightarrow> double_less v (fh_bounds h ! i))) xs"
    if "i < ?n" for i
    using ok nan that by (intro weight_cong bucket_index_iff assms(2)) (force simp: fixed_ok_def)+
  ultimately show ?thesis using ok by (auto simp: counts fixed_ok_def simp del: upt_Suc)
qed

theorem fixed_histogram_exact_witness:
  "\<exists>h. fixed_reach example_fp h [(0, 3), (double_one, 2)] \<and> map bucket_count (fixed_buckets h) = [3, 2] \<and> fh_count h = 5"
proof -
  obtain h0 where h0: "mk_fixed_histogram [double_one] = Inr h0" "fh_bounds h0 = [double_one]" by (simp add: mk_fixed_histogram_def)
  obtain h1 where h1: "fixed_add example_fp 0 3 h0 = Inr h1" "fh_bounds h1 = [double_one]"
    using h0(2) by (simp add: fixed_add_def unit_keys Let_def)
  obtain h where h: "fixed_add example_fp double_one 2 h1 = Inr h" "fh_bounds h = [double_one]"
    using h1(2) by (simp add: fixed_add_def unit_keys Let_def)
  have reach: "fixed_reach example_fp h [(0, 3), (double_one, 2)]"
    using fixed_added [OF fixed_added [OF fixed_new [OF h0(1)] h1(1)] h(1)] by simp
  have "double_le double_one double_one" "\<not> double_le double_one 0" "double_less 0 double_one" "\<not> double_less double_one double_one"
    by code_simp+
  then have "map bucket_count (fixed_buckets h) = [3, 2]"
    using fixed_histogram_exact [OF reach] by (simp add: h(2) unit_keys upt_rec)
  then show ?thesis using reach fixed_histogram_exact [OF reach] by (intro exI [of _ h]) (simp add: h(2) unit_keys)
qed

lemma dd_total_weight:
  assumes "dd_ok f s xs" "weight (\<lambda>_. True) xs < 2 ^ 64"
  shows "unat (dd_total_count s) = weight (\<lambda>_. True) xs"
proof -
  have "dd_total_count s = of_nat (weight (\<lambda>_. True) xs)" using assms(1) by (simp add: dd_ok_def)
  then show ?thesis using assms(2) by (simp add: unat_of_nat)
qed

text \<open>
  The value of rank \<open>t\<close>, interpolated in bucket \<open>i\<close>: the lower bound of the bucket plus the fraction of its width given by the
  rank less the number of values with a smaller index, divided by the number of values in the bucket.
\<close>

definition interpolated :: "fp \<Rightarrow> double \<Rightarrow> (double \<times> uint64) list \<Rightarrow> int \<Rightarrow> int \<Rightarrow> double" where
  "interpolated f alpha xs t i =
     (let lower = fp_pow f (fp_add f double_one alpha) (fp_of_int f i);
          upper = fp_pow f (fp_add f double_one alpha) (fp_of_int f (i + 1));
          below = weight (\<lambda>v. \<exists>j < i. dd_index f alpha v = Some j) xs;
          inside = weight (\<lambda>v. dd_index f alpha v = Some i) xs
      in fp_add f lower (fp_mul f (fp_div f (fp_of_int f (t - int below)) (fp_of_int f (int inside))) (fp_sub f upper lower)))"

text \<open>
  C30: A quantile of the sketch between 0 and 1 is interpolated in the right bucket, also after merges. Let at least one and fewer than
  \<open>2 ^ 64\<close> values be added, none with the largest index. With one value the quantile is the smallest value added. With more, and a
  rank \<open>t\<close> computed from the quantile that fits its type and is below the number of values, there is a bucket \<open>i\<close> such that at most
  \<open>t\<close> values have a smaller index and more than \<open>t\<close> a smaller one or this one, and the quantile is the value interpolated in it:
  its lower bound plus the share of its width that is the rank less the number of values below, over the number of values in it.
\<close>

theorem sketch_quantile_in_ranked_bucket:
  assumes "dd_reach f s xs" "1 \<le> weight (\<lambda>_. True) xs" "weight (\<lambda>_. True) xs < 2 ^ 64" "\<not> double_less q 0" "\<not> double_less double_one q"
    "\<forall>x \<in> set xs. dd_index f (dd_alpha s) (fst x) \<noteq> Some 2147483647"
    "weight (\<lambda>_. True) xs \<noteq> 1 \<longrightarrow> t < int (weight (\<lambda>_. True) xs)
       \<and> cast_double 0 18446744073709551615 (fp_mul f q (fp_of_int f (int (weight (\<lambda>_. True) xs) - 1))) = Inr t"
  shows "if weight (\<lambda>_. True) xs = 1 then \<exists>v. least_of xs (Some v) \<and> dd_quantile f q s = Some (Inr v)
    else \<exists>i. weight (\<lambda>v. \<exists>j < i. dd_index f (dd_alpha s) v = Some j) xs \<le> nat t
      \<and> nat t < weight (\<lambda>v. \<exists>j \<le> i. dd_index f (dd_alpha s) v = Some j) xs
      \<and> dd_quantile f q s = Some (Inr (interpolated f (dd_alpha s) xs t i))"
proof (cases "weight (\<lambda>_. True) xs = 1")
  case True
  note ok = dd_reach_ok [OF assms(1)]
  have "unat (dd_total_count s) = unat (1 :: uint64)" using dd_total_weight [OF ok assms(3)] True by simp
  then have "dd_total_count s = 1" by (simp only: word_unat_eq_iff)
  moreover have least: "least_of xs (dd_min s)" "xs \<noteq> []" using ok True by (auto simp: dd_ok_def)
  then obtain v where "dd_min s = Some v" by (cases "dd_min s") (simp_all add: least_of_def)
  ultimately show ?thesis using assms(4,5) least True by (simp add: dd_quantile_def optional_value_def)
next
  case False
  note ok = dd_reach_ok [OF assms(1)] and bounds = assms(7) [rule_format, OF False]
  let ?W = "weight (\<lambda>_. True) xs" and ?t = "word_of_int t :: uint64" and ?idx = "dd_index f (dd_alpha s)"
  note total = dd_total_weight [OF ok assms(3)]
  have pos: "dd_total_count s \<noteq> 0" using total assms(2) by auto
  have "unat (dd_total_count s - 1) = ?W - 1" using unat_minus_one [OF pos] total by simp
  then have size: "dd_total_count s \<noteq> 1" "uint (dd_total_count s - 1) = int ?W - 1"
    using total False assms(2) by (auto simp: uint_nat of_nat_diff)
  have t0: "0 \<le> t" using bounds by (auto simp: cast_double_def undefined_behaviour_def split: option.splits if_splits)
  with bounds assms(3) have t: "unat ?t = nat t" by (simp add: unat_eq_nat_uint uint_word_of_int_eq take_bit_int_eq_self)
  have rank: "unat ?t < ?W" using bounds t0 unfolding t by (simp add: nat_less_iff)
  obtain i c cum where w: "dd_walk ?t (dd_counts s) 0 = Some (i, c, cum)"
      "unat cum = weight (\<lambda>v. \<exists>j < i. ?idx v = Some j) xs" "unat cum \<le> unat ?t" "unat c = weight (\<lambda>v. ?idx v = Some i) xs"
      "unat ?t < weight (\<lambda>v. \<exists>j \<le> i. ?idx v = Some j) xs"
    using counts_at_rank [OF ok assms(3) rank] by blast
  have "cum \<le> ?t" using w(3) by (simp add: word_le_nat_alt)
  then have rest: "uint (?t - cum) = t - int (unat cum)" "uint c = int (unat c)"
    unfolding uint_nat using t0 by (simp_all only: unat_sub of_nat_diff [OF w(3) [unfolded t]] t int_nat_eq if_True)
  have "i \<noteq> 2147483647"
  proof
    assume i: "i = 2147483647"
    have "weight (\<lambda>v. \<exists>j \<le> i. ?idx v = Some j) xs = weight (\<lambda>v. \<exists>j < i. ?idx v = Some j) xs"
      using assms(6) by (intro weight_cong) (fastforce simp: i order.order_iff_strict)
    with w(2,3,5) show False by simp
  qed
  then have "dd_quantile f q s = Some (Inr (interpolated f (dd_alpha s) xs t i))"
    using size pos assms(4,5) bounds w(1,2,4) rest by (simp add: dd_quantile_def interpolated_def Let_def)
  with w(2,3,5) False show ?thesis by (auto simp: t)
qed

text \<open>An arithmetic in which the index of a value is its integral part.\<close>

definition integral_fp :: fp where
  "integral_fp = example_fp\<lparr>fp_div := \<lambda>a b. a, fp_mul := \<lambda>a b. b, fp_of_int := \<lambda>i. if i = 1 then double_one else 0\<rparr>"

theorem sketch_quantile_in_ranked_bucket_witness:
  "\<exists>s. dd_reach integral_fp s [(double_one, 1), (0x4000000000000000, 1)]
     \<and> dd_quantile integral_fp double_one s =
         Some (Inr (interpolated integral_fp 0x3FE0000000000000 [(double_one, 1), (0x4000000000000000, 1)] 1 2))"
proof -
  let ?xs = "[(double_one, 1), (0x4000000000000000, 1)] :: (double \<times> uint64) list"
  obtain s0 where s0: "mk_ddsketch 0x3FE0000000000000 = Inr s0" "dd_alpha s0 = 0x3FE0000000000000"
  proof -
    have "\<not> double_le 0x3FE0000000000000 0" "\<not> double_le double_one 0x3FE0000000000000" by code_simp+
    then show thesis using that by (simp add: mk_ddsketch_def)
  qed
  have index: "dd_index integral_fp 0x3FE0000000000000 double_one = Some 1" "dd_index integral_fp 0x3FE0000000000000 0x4000000000000000 = Some 2"
    by code_simp+
  have positive: "\<not> double_le double_one 0" "\<not> double_le 0x4000000000000000 0" "\<not> double_is_nan 0x4000000000000000" by code_simp+
  obtain s1 where s1: "dd_add integral_fp double_one 1 s0 = Some (Inr s1)" "dd_alpha s1 = 0x3FE0000000000000"
    using s0(2) index(1) positive(1) by (simp add: dd_add_def unit_keys Let_def)
  obtain s where s: "dd_add integral_fp 0x4000000000000000 1 s1 = Some (Inr s)" "dd_alpha s = 0x3FE0000000000000"
    using s1(2) index(2) positive(2,3) by (simp add: dd_add_def Let_def)
  have reach: "dd_reach integral_fp s ?xs" using dd_added [OF dd_added [OF dd_new [OF s0(1)] s1(1)] s(1)] by simp
  have rank: "cast_double 0 18446744073709551615 (fp_mul integral_fp double_one (fp_of_int integral_fp 1)) = Inr 1"
      "\<not> double_less double_one 0" "\<not> double_less double_one double_one" by code_simp+
  let ?idx = "dd_index integral_fp (dd_alpha s)"
  obtain i where i: "weight (\<lambda>v. \<exists>j < i. ?idx v = Some j) ?xs \<le> 1" "1 < weight (\<lambda>v. \<exists>j \<le> i. ?idx v = Some j) ?xs"
      "dd_quantile integral_fp double_one s = Some (Inr (interpolated integral_fp (dd_alpha s) ?xs 1 i))"
    using sketch_quantile_in_ranked_bucket [OF reach, of double_one 1] rank index by (auto simp: s(2))
  have "i = 2" using i(1,2) index by (auto simp: s(2) split: if_splits)
  with i(3) reach show ?thesis by (auto simp: s(2))
qed

end
