(* ===== verification/Spec2Isabelle.thy ===== *)
theory Spec2Isabelle
  imports Simple_Compressor Byte_Compressor Delta_Of_Delta Block_Impl Block_Serial Series_Store
    Write_Ahead_Log Sharded_Wal Series_Index Sharded_Index Working_Set_Cache Memory_Mapped_Cache
    Cache_Hierarchy Block_Manager Promql_Lexer
    Promql_Parser Promql_Grammar Rule_Filter Query_Storage Promql_Evaluator Promql_Functions Query_Engine
    Storage_Engine Cache_Contents Storage_Consistency Storage_Exactness Storage_Queries Storage_Recovery
    Double_Order Storage_Aggregate Predictive_Cache Histogram
begin

text \<open>
  \<^bold>\<open>A verification library for the storage core and the query language of mytsdb.\<close>

  \<^bold>\<open>The program.\<close> mytsdb is a time-series database in C++. A sample written to it is logged
  (\<open>wal.cpp\<close>), appended to the head block of its series (\<open>series.cpp\<close>), entered in an inverted
  index by its labels (\<open>index.cpp\<close>) and kept in a first-level cache (\<open>working_set_cache.cpp\<close>).
  Log and index are split into shards (\<open>sharded_wal.cpp\<close>, \<open>async_wal_shard.cpp\<close>,
  \<open>sharded_index.cpp\<close>), and drop rules may filter the write path (\<open>rule_manager.cpp\<close>,
  \<open>filtering_storage.cpp\<close>). \<open>StorageImpl\<close> (\<open>storage_impl.cpp\<close>) puts these parts together.
  A full block is sealed: its columns go through compressors (\<open>compression.cpp\<close>,
  \<open>delta_of_delta_encoder.cpp\<close>) and it is written out as bytes (\<open>internal/block_impl.cpp\<close>). A query
  is lexed (\<open>promql/lexer.cpp\<close>), parsed (\<open>promql/parser.cpp\<close>) and evaluated (\<open>promql/evaluator.cpp\<close>)
  over an adapter to the storage (\<open>prometheus/storage/tsdb_adapter.cpp\<close>); its label matchers select series in the
  index, and a range read merges the sealed blocks and the head block of a series. After a crash
  the log is replayed. All paths below are under \<open>src/tsdb/\<close> with headers under \<open>include/tsdb/\<close>.

  \<^bold>\<open>Theories.\<close>
  \<^item> \<open>Prelude\<close>: machine integers as words of their width, doubles as their 64-bit pattern,
    little-endian memory images, \<open>std::map\<close> as a sorted association list, decimal printing; the
    collections \<open>le_simps\<close> and \<open>smap_simps\<close>.
  \<^item> \<open>Core_Types\<close>: \<open>Labels\<close>, \<open>Sample\<close>, \<open>TimeSeries\<close> of \<open>core/internal/types.cpp\<close>; a thrown
    \<open>InvalidArgumentError\<close> is \<open>Inl\<close>. Shows that \<open>add_sample\<close> accepts exactly later samples and
    keeps a series strictly chronological.
  \<^item> \<open>Simple_Compressor\<close>: the default timestamp, value and label compressors of
    \<open>storage/compression.cpp\<close>, byte for byte. The locale \<open>vec_codec\<close> (a decoder inverts its encoder
    up to a capacity) is the contract of a column compressor. Shows the round trips, and bounds on
    what the decoders return on any bytes.
  \<^item> \<open>Byte_Compressor\<close>: Gorilla, RLE and XOR byte compressors with their chunk interface, the
    factory and the six column adapters. The locale \<open>byte_codec\<close> gives \<open>vec_codec\<close> by a \<open>sublocale\<close>.
    Shows the round trips, memory safety of the delta adapters on any input, and what is dropped
    from an input that is no multiple of 8 bytes.
  \<^item> \<open>Delta_Of_Delta\<close>: \<open>DeltaOfDeltaEncoder\<close> with zigzag and varint codes, the block loop and the
    adaptive block size. Shows that compression returns and is lossless, and that block size 0
    makes the loop run forever.
  \<^item> \<open>Block_Impl\<close>: \<open>BlockImpl\<close>, its buffered and compressed columns, append, write, seal, read,
    query, flush and close. Locales \<open>std_sort\<close> (the unstable library sort) and \<open>lossless_columns\<close>
    (two column codecs). Shows what a read returns and that sealing changes only the
    representation.
  \<^item> \<open>Block_Serial\<close>: \<open>serialize\<close> and \<open>deserialize\<close>, with offsets and their wrapping bounds checks,
    and the textual form of labels. The locale \<open>field_format\<close> is the contract of one
    length-prefixed element and is interpreted for every layer of the format.
  \<^item> \<open>Series_Store\<close>: \<open>Series\<close> with head block, sealed blocks and merging range read. The
    inductive relation \<open>reach\<close> pairs every reachable state with the samples appended on the way
    to it; the range read and the sample count are proved against that history.
  \<^item> \<open>Write_Ahead_Log\<close>: entry format, segments, rotation, replay, checkpoint over a directory
    of files and an unflushed stream. Shows that replay delivers what was logged, that a torn tail
    costs only the torn entry, and where restart and the reader limits lose or reorder data.
  \<^item> \<open>Series_Index\<close>: \<open>Index\<close> with both query plans. Locales \<open>posting_list\<close> and \<open>roaring_list\<close>
    are the contract of a posting list representation; sorted vectors interpret both. Shows that a
    query selects exactly the series whose labels satisfy the matchers, that the plans agree and
    that updates keep the posting lists exact.
  \<^item> \<open>Working_Set_Cache\<close>: the LRU cache with its list nodes, iterator map and shared series. The
    locale \<open>lru_store\<close> derives what the cache holds from what one \<open>put\<close> does to the recency list.
    Shows that the cache refines the LRU policy and never follows a dangling iterator.
  \<^item> \<open>Memory_Mapped_Cache\<close>: the L2 cache with its three maps and its recency list, a second
    interpretation of \<open>lru_store\<close>.
  \<^item> \<open>Cache_Hierarchy\<close>: both levels with promotion, demotion and background maintenance. The view of
    a state is the pair of maps of what the levels hold; operations are shown to return without touching
    a dangling iterator and to act on the view. Shows where a looked-up series comes from, that
    maintenance loses nothing the L3 callback has not accepted, and when a put stays invisible.
  \<^item> \<open>Block_Manager\<close>: block files in three tiers over a map from paths to contents, and recovery. The
    manager refines a map from block ids to contents under every admissible operation but the demotion to Parquet, with any failing
    opens, for complete writes. Shows that persisted blocks with storable labels survive a restart, and which ones do not.
  \<^item> \<open>Storage_Engine\<close>: \<open>StorageImpl\<close> as one state of the log, the index, the active series, the caches and
    the block manager; \<open>init\<close> with log replay and block recovery, \<open>write\<close>, \<open>read\<close>, \<open>query\<close>, the label
    queries, \<open>delete_series\<close>, \<open>flush\<close>, \<open>compact\<close> and \<open>close\<close>. The type \<open>run\<close> tells whether a call returns,
    throws, waits or has undefined behaviour. Iterations over the hash map of active series go in the
    order of the ids.
  \<^item> \<open>Cache_Contents\<close>: the locale \<open>cache_contents\<close> lifts any property of cached series that survives
    merging from the series put into the cache hierarchy to the series it returns.
  \<^item> \<open>Storage_Consistency\<close>: runs of the engine as a step relation that carries the history, the samples
    written to each series since its last deletion. The operations are write, read, query, deletion, flush, compaction,
    steps of the log threads and cache maintenance; \<open>query_aggregate\<close> is not among them, since it can be undefined. The
    invariant gives that every one of them is defined and that reads show only what was written.
  \<^item> \<open>Storage_Exactness\<close>: conditions under which the L1 cache holds every series completely, so that
    reads return exactly the history in their range.
  \<^item> \<open>Storage_Queries\<close>: the index lists exactly the active series and the time bounds enclose their
    samples, so in such a run a query of at most 1000 series without a timeout equals a scan; deletion by matchers.
  \<^item> \<open>Storage_Recovery\<close>: the log of a run is what was written, and a restart from the log alone, with no
    block persisted, reads everything back; how a cache filled by a narrow read hides the rest of a series.
  \<^item> \<open>Storage_Aggregate\<close>: \<open>query_aggregate\<close>, to which the evaluator hands aggregations over plain
    selectors: grouping by a label string and accumulators per timestamp. Shows that the engine's result is
    what the evaluator's own aggregation makes of the written values, without NaN for min and max.
  \<^item> \<open>Double_Order\<close>: the comparisons of doubles as comparisons of integer keys.
  \<^item> \<open>Predictive_Cache\<close>: the table of access patterns and the predictions of \<open>storage/predictive_cache.cpp\<close>. Shows that
    the incremental count of a pattern is the number of its occurrences in the whole history and that
    only successors seen often enough are predicted.
  \<^item> \<open>Histogram\<close>: the fixed-bucket histogram and the sketch of \<open>histogram/histogram.cpp\<close>. Relations pair every reachable
    histogram with the values added to it, also through merges. Shows what the buckets count, that
    merging never fails on sketches of one accuracy, and in which bucket and at which fraction of it a quantile lies.
  \<^item> \<open>Promql_Lexer\<close>: the whole lexer. Shows that it terminates on every input, that quoted
    strings round trip, that durations are lexed whole, and how consecutive comments are misread.
  \<^item> \<open>Sharded_Wal\<close>: a queue, a worker and a log per shard. Callers, workers and shutdown are a step
    relation, so that every interleaving is a run; the invariant is that log, batch and queue together
    are the accepted series in order. Shows order per series on replay, that shutdown drains the
    queue, that a blocked caller is released, and that \<open>flush\<close> may return too early.
  \<^item> \<open>Sharded_Index\<close>: partitioning by id, routing by metric name, scatter and gather. The locale
    \<open>series_catalog\<close> is what a client of an index relies on; the plain and the sharded index
    interpret it, which makes them equivalent under any sequence of updates.
  \<^item> \<open>Promql_Parser\<close>: the Pratt parser with all its methods, its two tokens of lookahead and its error
    log. Shows that it returns on every input and that a missing tree comes with an error.
  \<^item> \<open>Promql_Grammar\<close>: the grammar with the documented precedences, without the power operator, which the parser
    binds to the other side, and that the parser reads every tree of it back; the inputs on which the parser departs from what its syntax trees print.
  \<^item> \<open>Rule_Filter\<close>: rule sets with their prefix trie, their publication and the filtering decorator. The
    locale \<open>rule_store\<close> is the contract between the decorator and the manager. Shows that with
    rules of one condition each the storage receives exactly the series no active rule selects, and that the conditions of
    one rule are alternatives, against the documents.
  \<^item> \<open>Query_Storage\<close>: the data model of queries, the adapter over the storage engine and the buffer of a
    range query. Shows that chunked conversion is sequential conversion, that the binary search finds
    the window and that the buffer is transparent.
  \<^item> \<open>Promql_Evaluator\<close>: instant and range evaluation of every node. Shows type soundness, that the
    range walk over a selector samples the instant query, that grouping partitions its input, and
    where the two evaluations differ.
  \<^item> \<open>Promql_Functions\<close>: one definition per registered function of \<open>promql/functions.cpp\<close> and
    \<open>promql/functions/\<close>, the registration functions and the registry. Shows that every function keeps
    its declared type, so that the type soundness holds for the whole evaluator, that the sliding
    window of a range rate agrees with the instant function, and which functions are never registered.
  \<^item> \<open>Query_Engine\<close>: \<open>promql/engine.cpp\<close>, from the query text to the result. Evaluation reads the storage
    only through the selectors of the query, so with distinct cache keys a range query over its prefetch buffer has the
    result of a direct evaluation.

  \<^bold>\<open>Correspondence.\<close> A class is a record with the members as fields, a method a function that
  returns the changed record, an exception or \<open>core::Result\<close> error the \<open>Inl\<close> of a sum, undefined
  behaviour (a read past a buffer, a dangling iterator) the value \<open>None\<close> or \<open>Fault\<close>. Methods run
  under their object's lock, so each is one atomic step. Objects shared through \<open>shared_ptr\<close>
  (cached series, blocks of a series) have explicit addresses.

  \<^bold>\<open>Loops and bounds.\<close> Loops over containers are structural recursions; loops that end by
  reaching the end of a buffer are functions with a measure on what is left of it. Two loops have
  no bound in the code and are partial functions of type \<open>option\<close>: the block loop of the
  delta-of-delta encoder and \<open>GetAllTokens\<close>; that they return is part of the theorems. The mutual
  recursion of the parser runs on a step budget of one step per character and one more, proved to
  be enough. Counts are nat where the code's \<open>size_t\<close> cannot wrap for objects that fit in memory,
  and words where a field of 32 or 64 bits is written or checked; the capacity of a codec is the
  bound its count field imposes (\<open>2^32\<close> entries, \<open>2^29\<close> for the adapters).

  \<^bold>\<open>Parameters.\<close> \<open>std::sort\<close> (locale \<open>std_sort\<close>), the Roaring bitmap (locale \<open>roaring_list\<close>),
  \<open>std::regex\<close> (any predicate per pattern), the clock of the cache, the largest vector the
  allocator serves, whether the operating system opens a log file, \<open>std::hash\<close>, \<open>std::stod\<close>, and the
  rounding of floating-point arithmetic, the order in which directories and hash maps are listed; comparison and truncation of doubles are computed from
  their bits.

  \<^bold>\<open>Assumptions.\<close> A log or block file may fail to open; what is written to an opened file is taken to arrive whole, and
  a removal to fail only for a missing file. The theorems on queries over selectors (\<open>Query_Storage\<close>, \<open>Promql_Evaluator\<close>,
  \<open>Promql_Functions\<close>, \<open>Query_Engine\<close>) assume of the storage that every selection succeeds and returns the window of each
  series in time order (\<open>range_source\<close>). This contract is not derived for \<open>TSDBAdapter_SelectSeries\<close> over \<open>engine_query\<close>,
  which meets it only in part: \<open>StorageImpl::query\<close> gives an error when the start is not before the end, may time out and stops at
  1000 results. The exactness theorems of the engine assume writes in time order, none at time 0, and no
  cache maintenance; what the code does outside these conditions is in the theorems on losses
  and in the list of findings.

  \<^bold>\<open>Not modelled.\<close> Lock contention and the internals of lock-free queues and object pools;
  performance counters and floating-point statistics; Parquet and Arrow files and network
  servers, which are calls into libraries, and with them the background flush and compaction of the
  storage engine; its unused write path through \<open>current_block_\<close> and its disabled calls of the predictive
  cache; the second histogram implementation under \<open>histogram/internal/\<close>, which is not built, and the
  vector instructions of \<open>storage/histogram_ops.cpp\<close>; semantic vector search.
\<close>

end
